(* ===== verification/Go_Prelude.thy ===== *)
theory Go_Prelude
  imports Main "HOL-Library.Word"
begin

section \<open>Shared vocabulary of the development\<close>

text \<open>
  The parts of the Go language and of its standard library that the components share:
  bytes and machine words, slices and the built-in \<open>copy\<close>, and the big-endian
  conversions of \<open>encoding/binary\<close> and \<open>math/big\<close>. A fallible Go function is a
  function into a sum type, \<open>Inl\<close> for the error. A slice is a list; indices and
  lengths (Go's \<open>int\<close>) are natural numbers, unsigned 64-bit integers are \<open>64 word\<close>.
  The collection \<open>byte_simps\<close> gathers the facts that move between bytes, words and
  natural numbers.
\<close>

unbundle bit_operations_syntax

named_theorems byte_simps \<open>conversions between bytes, words and natural numbers\<close>

type_synonym byte = "8 word"
type_synonym bytes = "byte list"
type_synonym uint64 = "64 word"

subsection \<open>Slices\<close>

text \<open>\<open>xs[i:j]\<close>, for indices in range.\<close>

definition go_slice :: "'a list \<Rightarrow> nat \<Rightarrow> nat \<Rightarrow> 'a list" where
  "go_slice xs i j = take (j - i) (drop i xs)"

text \<open>\<open>copy(dst[pos:], src)\<close>: as many elements as fit are overwritten.\<close>

definition go_copy_at :: "nat \<Rightarrow> 'a list \<Rightarrow> 'a list \<Rightarrow> 'a list" where
  "go_copy_at pos src dst =
     take pos dst @ take (length dst - pos) src @ drop (pos + length src) dst"

subsection \<open>Big-endian numbers\<close>

text \<open>
  \<open>be_nat\<close> is \<open>big.Int.SetBytes\<close>, \<open>be_bytes\<close> is \<open>big.Int.Bytes\<close> (no leading
  zero byte, zero is the empty slice) and \<open>be64\<close> the chain of shifts and ors with
  which the sources read a big-endian \<open>uint64\<close>.
\<close>

definition be_nat :: "bytes \<Rightarrow> nat" where
  "be_nat xs = foldl (\<lambda>n b. n * 256 + unat b) 0 xs"

fun be_bytes :: "nat \<Rightarrow> bytes" where
  "be_bytes n = (if n = 0 then [] else be_bytes (n div 256) @ [word_of_nat (n mod 256)])"

declare be_bytes.simps [simp del]

definition be64 :: "bytes \<Rightarrow> uint64" where
  "be64 xs = foldl (\<lambda>s b. push_bit 8 s OR ucast b) 0 xs"

lemma go_copy_at_length [simp]:
  "pos \<le> length dst \<Longrightarrow> length (go_copy_at pos src dst) = length dst"
  by (simp add: go_copy_at_def)

lemma go_copy_at_prefix:
  "length src \<le> length dst \<Longrightarrow> go_copy_at 0 src dst = src @ drop (length src) dst"
  by (simp add: go_copy_at_def)

lemma be_nat_Nil [simp]: "be_nat [] = 0"
  by (simp add: be_nat_def)

lemma be_nat_snoc [simp]: "be_nat (xs @ [b]) = be_nat xs * 256 + unat b"
  by (simp add: be_nat_def)

lemma unat_byte_less [simp]: "unat (b :: byte) < 256"
  using unsigned_less [of b, where 'a = nat] by simp

lemma be_nat_bound: "be_nat xs < 256 ^ length xs"
proof (induction xs rule: rev_induct)
  case (snoc b xs)
  have "be_nat xs * 256 + unat b < (be_nat xs + 1) * 256"
    using unat_byte_less [of b] by simp
  also have "\<dots> \<le> 256 ^ length xs * 256"
    using snoc by (intro mult_right_mono) auto
  finally show ?case by simp
qed simp

lemma be_nat_append: "be_nat (xs @ ys) = be_nat xs * 256 ^ length ys + be_nat ys"
proof (induction ys rule: rev_induct)
  case (snoc y ys)
  have "be_nat (xs @ ys @ [y]) = be_nat ((xs @ ys) @ [y])" by simp
  also have "\<dots> = be_nat (xs @ ys) * 256 + unat y" by (simp only: be_nat_snoc)
  finally show ?case using snoc by (simp add: algebra_simps)
qed simp

lemma be_nat_single [simp]: "be_nat [b] = unat b"
  by (simp add: be_nat_def)

lemma be_nat_Cons: "be_nat (x # xs) = unat x * 256 ^ length xs + be_nat xs"
  using be_nat_append [of "[x]" xs] by simp

lemma be_bytes_0 [simp]: "be_bytes 0 = []"
  by (simp add: be_bytes.simps)

lemma be_bytes_Nil_iff [simp]: "be_bytes n = [] \<longleftrightarrow> n = 0"
  by (subst be_bytes.simps) simp

lemma be_nat_be_bytes [simp]: "be_nat (be_bytes n) = n"
proof (induction n rule: be_bytes.induct)
  case (1 n)
  then show ?case
    by (subst be_bytes.simps) (auto simp: unat_of_nat)
qed

lemma be_bytes_hd: "0 < n \<Longrightarrow> hd (be_bytes n) \<noteq> 0"
proof (induction n rule: be_bytes.induct)
  case (1 n)
  show ?case
  proof (cases "n div 256 = 0")
    case True
    then have "n < 256" by (simp add: div_eq_0_iff)
    then have "unat (word_of_nat n :: byte) = n" by (simp add: unat_of_nat)
    then have "(word_of_nat n :: byte) \<noteq> 0" using \<open>0 < n\<close> by auto
    then show ?thesis using True \<open>0 < n\<close> \<open>n < 256\<close> by (subst be_bytes.simps) simp
  next
    case False
    with 1 have "hd (be_bytes (n div 256)) \<noteq> 0" by simp
    with False "1.prems" show ?thesis by (subst be_bytes.simps) simp
  qed
qed

lemma be_bytes_be_nat: "xs = [] \<or> hd xs \<noteq> 0 \<Longrightarrow> be_bytes (be_nat xs) = xs"
proof (induction xs rule: rev_induct)
  case (snoc b xs)
  have b: "unat b < 256" by simp
  have ne: "be_nat xs * 256 + unat b \<noteq> 0"
  proof (cases xs)
    case Nil
    with snoc.prems show ?thesis by (simp add: unat_eq_zero)
  next
    case (Cons a as)
    with snoc.prems have "a \<noteq> 0" by simp
    then have "0 < unat a" by (simp add: unat_gt_0)
    then have "0 < be_nat xs" using Cons by (simp add: be_nat_Cons)
    then show ?thesis by simp
  qed
  have IH: "be_bytes (be_nat xs) = xs"
    using snoc by (cases xs) auto
  show ?case
    using ne IH b by (subst be_bytes.simps) (simp add: div_add1_eq)
qed simp

lemma be_bytes_inj: "be_bytes m = be_bytes n \<Longrightarrow> m = n"
  by (metis be_nat_be_bytes)

lemma length_be_bytes_le: "n < 256 ^ k \<Longrightarrow> length (be_bytes n) \<le> k"
proof (induction n arbitrary: k rule: be_bytes.induct)
  case (1 n)
  show ?case
  proof (cases "n = 0")
    case False
    with 1 obtain k' where k: "k = Suc k'" by (cases k) auto
    have "n div 256 < 256 ^ k'"
      using 1(2) k by (simp add: less_mult_imp_div_less mult.commute)
    with 1(1) False have "length (be_bytes (n div 256)) \<le> k'" by blast
    with False k show ?thesis by (subst be_bytes.simps) simp
  qed simp
qed

lemma length_be_bytes_ge: "256 ^ k \<le> n \<Longrightarrow> k < length (be_bytes n)"
proof (rule ccontr)
  assume a: "256 ^ k \<le> n" and "\<not> k < length (be_bytes n)"
  then have "length (be_bytes n) \<le> k" by simp
  then have "256 ^ length (be_bytes n) \<le> (256::nat) ^ k" by (simp add: power_increasing)
  with be_nat_bound [of "be_bytes n"] a show False by simp
qed

lemma unat_be64:
  assumes "length xs \<le> 8"
  shows "unat (be64 xs) = be_nat xs"
  using assms
proof (induction xs rule: rev_induct)
  case (snoc b xs)
  have IH: "unat (be64 xs) = be_nat xs" using snoc by simp
  have "be_nat xs < 256 ^ length xs" by (rule be_nat_bound)
  also have "\<dots> \<le> 256 ^ 7" using snoc.prems by (intro power_increasing) auto
  finally have bd: "be_nat xs < 72057594037927936" by simp
  have "push_bit 8 (be64 xs) AND ucast b = 0"
    by (rule bit_word_eqI) (auto simp: bit_simps dest: bit_imp_le_length)
  then have "push_bit 8 (be64 xs) OR ucast b = push_bit 8 (be64 xs) + ucast b"
    by (rule disjunctive_add_eq_or [symmetric])
  then have "be64 (xs @ [b]) = be64 xs * 256 + ucast b"
    by (simp add: be64_def push_bit_eq_mult)
  then have "unat (be64 (xs @ [b])) = (be_nat xs * 256 + unat b) mod 2 ^ 64"
    using IH by (simp add: unat_word_ariths unsigned_ucast_eq take_bit_eq_mod mod_simps)
  moreover have "be_nat xs * 256 + unat b < 2 ^ 64"
    using bd unat_byte_less [of b] by (simp del: unat_byte_less)
  ultimately show ?case by simp
qed (simp add: be64_def)

lemma be64_inverse:
  assumes "length xs \<le> 8" and "be_nat xs = unat w"
  shows "be64 xs = w"
  using assms unat_be64 word_unat_eq_iff by metis

subsection \<open>Words and bytes\<close>

lemma unat_uint64_less [simp]: "unat (w :: uint64) < 18446744073709551616"
  using unsigned_less [of w, where 'a = nat] by simp

lemma unat_ucast_byte [byte_simps]: "unat (ucast (b :: byte) :: uint64) = unat b"
proof -
  have "unat b < 2 ^ 64" by (rule less_trans [OF unat_byte_less]) simp
  then show ?thesis by (simp add: unsigned_ucast_eq take_bit_eq_mod)
qed

lemma unat_to_byte [byte_simps]: "unat (ucast (w :: uint64) :: byte) = unat w mod 256"
  by (simp add: unsigned_ucast_eq take_bit_eq_mod)

lemma unat_drop_bit_div: "unat (drop_bit n (w :: 'a::len word)) = unat w div 2 ^ n"
  by (subst unat_drop_bit_eq) (rule drop_bit_eq_div)

lemma word_less_unat [byte_simps]: "(a :: 'a::len word) < b \<longleftrightarrow> unat a < unat b"
  by (rule word_less_nat_alt)

lemma unat_word_of_nat_byte [byte_simps]: "n < 256 \<Longrightarrow> unat (word_of_nat n :: byte) = n"
  by (simp add: unat_of_nat)

lemma unat_word_of_nat_64 [byte_simps]:
  "n < 18446744073709551616 \<Longrightarrow> unat (word_of_nat n :: uint64) = n"
  by (simp add: unat_of_nat)

lemma unat_diff_byte [byte_simps]: "unat b \<le> unat a \<Longrightarrow> unat (a - b :: byte) = unat a - unat b"
  by (simp add: unat_sub_if')

lemma byte_eqI: "unat a = unat b \<Longrightarrow> a = (b :: byte)"
  by (simp add: word_unat_eq_iff)

end
