(* ===== verification/Codec.thy ===== *)
theory Codec
  imports Go_Prelude
begin

section \<open>The contract of a self-delimiting encoding\<close>

text \<open>
  A parser that takes the first value off a byte slice and the encoder it inverts. Every
  RLP splitter of \<open>src/rlp/raw.go\<close> is an instance; the trie's node format relies only on
  this contract.
\<close>

locale prefix_codec =
  fixes enc :: "'v \<Rightarrow> bytes"
    and split :: "bytes \<Rightarrow> 'e + 'v \<times> bytes"
    and valid :: "'v \<Rightarrow> bool"
  assumes split_enc:
      "valid v \<Longrightarrow> length (enc v @ rest) < 18446744073709551616 \<Longrightarrow> split (enc v @ rest) = Inr (v, rest)"
    and split_sound:
      "length b < 18446744073709551616 \<Longrightarrow> split b = Inr (v, rest) \<Longrightarrow> valid v \<and> b = enc v @ rest"
    and enc_nonempty: "valid v \<Longrightarrow> enc v \<noteq> []"
begin

lemma split_iff:
  "length b < 18446744073709551616 \<Longrightarrow>
     split b = Inr (v, rest) \<longleftrightarrow> valid v \<and> b = enc v @ rest"
  using split_enc split_sound by blast

lemma split_shorter:
  "length b < 18446744073709551616 \<Longrightarrow> split b = Inr (v, rest) \<Longrightarrow> length rest < length b"
  using split_sound enc_nonempty by fastforce

lemma prefix_free:
  assumes "valid v" "valid w" "enc v @ r = enc w @ s" "length (enc v @ r) < 18446744073709551616"
  shows "v = w \<and> r = s"
proof -
  have "length (enc w @ s) < 18446744073709551616" using assms(4) unfolding assms(3) .
  then have "split (enc w @ s) = Inr (w, s)" by (rule split_enc [OF assms(2)])
  moreover have "split (enc v @ r) = Inr (v, r)" by (rule split_enc [OF assms(1,4)])
  ultimately show ?thesis unfolding assms(3) by simp
qed

lemma enc_inj:
  "valid v \<Longrightarrow> valid w \<Longrightarrow> enc v = enc w \<Longrightarrow> length (enc v) < 18446744073709551616 \<Longrightarrow> v = w"
  using prefix_free [of v w "[]" "[]"] by simp

lemma concat_inj:
  assumes "\<forall>v \<in> set vs. valid v" "\<forall>w \<in> set ws. valid w"
    and "concat (map enc vs) = concat (map enc ws)"
    and "length (concat (map enc vs)) < 18446744073709551616"
  shows "vs = ws"
  using assms
proof (induction vs arbitrary: ws)
  case Nil
  then show ?case using enc_nonempty by (cases ws) auto
next
  case (Cons v vs)
  have "enc v \<noteq> []" using Cons.prems(1) by (intro enc_nonempty) simp
  with Cons.prems(3) obtain w ws' where ws: "ws = w # ws'" by (cases ws) simp_all
  have eq: "enc v @ concat (map enc vs) = enc w @ concat (map enc ws')"
    using Cons.prems(3) ws by simp
  have "valid v" "valid w" "length (enc v @ concat (map enc vs)) < 18446744073709551616"
    using Cons.prems(1,2,4) ws by simp_all
  from prefix_free [OF this(1,2) eq this(3)]
  have "v = w" and eq': "concat (map enc vs) = concat (map enc ws')" by simp_all
  moreover have "vs = ws'" using Cons.prems(1,2,4) ws by (intro Cons.IH eq') simp_all
  ultimately show ?case using ws by simp
qed

end

end
