(* ===== verification/Rlp_Raw.thy ===== *)
theory Rlp_Raw
  imports Codec
begin

section \<open>RLP headers and slice-based parsing\<close>

text \<open>
  The header arithmetic of \<open>src/rlp/encode.go\<close> (\<open>putint\<close>, \<open>intsize\<close>, \<open>headsize\<close>,
  \<open>puthead\<close>), the slice parser of \<open>src/rlp/raw.go\<close> (\<open>readSize\<close>, \<open>readKind\<close>,
  \<open>Split\<close> and its variants, \<open>CountValues\<close>, \<open>AppendUint64\<close>) and the list iterator of
  \<open>src/rlp/iterator.go\<close>. The parser is shown to accept exactly the canonical encodings.
\<close>

subsection \<open>Kinds and errors\<close>

datatype kind = KByte | KString | KList

text \<open>
  The error values of \<open>src/rlp/decode.go\<close>; \<open>DecodeError\<close> is a \<open>decodeError\<close> with its
  message and its path (the Go type it also stores is only printed).
\<close>

datatype dec_msg =
    MsgCanonInt | MsgCanonSize | MsgExpectedList | MsgExpectedString
  | MsgTooLong | MsgTooManyElements | MsgTooFewElements | MsgTooFewFields | MsgTooShort | MsgWrongKind kind kind

datatype dec_ctx = CtxIndex nat | CtxField nat | CtxTarget

datatype rlp_err =
    ErrEOF | ErrUnexpectedEOF | EOL
  | ErrExpectedString | ErrExpectedList | ErrCanonInt | ErrCanonSize
  | ErrElemTooLarge | ErrValueTooLarge | ErrMoreThanOneValue
  | ErrNotInList | ErrNotAtEOL | ErrUintOverflow
  | ErrInvalidBool uint64 | ErrNegativeBigInt | ErrIllTyped
  | DecodeError dec_msg "dec_ctx list"

subsection \<open>Integers and headers\<close>

text \<open>\<open>byte(i >> 8k)\<close>\<close>

definition byte_at :: "uint64 \<Rightarrow> nat \<Rightarrow> byte" where
  "byte_at i k = ucast (drop_bit (8 * k) i)"

text \<open>
  \<open>putint\<close> and \<open>puthead\<close> write to the beginning of a buffer and return how much they
  wrote; here they return the written bytes, whose length is the Go result.
\<close>

definition putint :: "uint64 \<Rightarrow> bytes" where
  "putint i =
    (if i < 0x100 then [byte_at i 0]
     else if i < 0x10000 then [byte_at i 1, byte_at i 0]
     else if i < 0x1000000 then [byte_at i 2, byte_at i 1, byte_at i 0]
     else if i < 0x100000000 then [byte_at i 3, byte_at i 2, byte_at i 1, byte_at i 0]
     else if i < 0x10000000000 then
       [byte_at i 4, byte_at i 3, byte_at i 2, byte_at i 1, byte_at i 0]
     else if i < 0x1000000000000 then
       [byte_at i 5, byte_at i 4, byte_at i 3, byte_at i 2, byte_at i 1, byte_at i 0]
     else if i < 0x100000000000000 then
       [byte_at i 6, byte_at i 5, byte_at i 4, byte_at i 3, byte_at i 2, byte_at i 1, byte_at i 0]
     else
       [byte_at i 7, byte_at i 6, byte_at i 5, byte_at i 4, byte_at i 3, byte_at i 2, byte_at i 1,
        byte_at i 0])"

function intsize_loop :: "nat \<Rightarrow> uint64 \<Rightarrow> nat" where
  "intsize_loop sz i =
    (let i' = drop_bit 8 i in if i' = 0 then sz else intsize_loop (Suc sz) i')"
  by pat_completeness auto
termination
proof (relation "measure (\<lambda>(sz, i). unat i)", simp)
  fix sz :: nat and i i' :: uint64
  assume i': "i' = drop_bit 8 i" and ne: "i' \<noteq> 0"
  have "unat i' = unat i div 256"
    by (simp only: i' unat_drop_bit_div) simp
  moreover have "0 < unat i'" using ne by (simp add: unat_gt_0)
  ultimately have "unat i' < unat i" by (cases "unat i = 0") simp_all
  then show "((Suc sz, i'), (sz, i)) \<in> measure (\<lambda>(sz, i). unat i)" by simp
qed

declare intsize_loop.simps [simp del]

definition intsize :: "uint64 \<Rightarrow> nat" where
  "intsize i = intsize_loop 1 i"

definition headsize :: "uint64 \<Rightarrow> nat" where
  "headsize sz = (if sz < 56 then 1 else 1 + intsize sz)"

definition puthead :: "byte \<Rightarrow> byte \<Rightarrow> uint64 \<Rightarrow> bytes" where
  "puthead smalltag largetag sz =
    (if sz < 56 then [smalltag + ucast sz]
     else let sizesize = putint sz
          in (largetag + word_of_nat (length sizesize)) # sizesize)"

definition ListSize :: "uint64 \<Rightarrow> uint64" where
  "ListSize contentSize = word_of_nat (headsize contentSize) + contentSize"

subsection \<open>Parsing\<close>

definition readSize :: "bytes \<Rightarrow> byte \<Rightarrow> rlp_err + uint64" where
  "readSize b slen =
    (if length b < unat slen then Inl ErrUnexpectedEOF
     else let s = (if 1 \<le> unat slen \<and> unat slen \<le> 8 then be64 (take (unat slen) b) else 0)
          in if s < 56 \<or> b ! 0 = 0 then Inl ErrCanonSize else Inr s)"

definition readKind :: "bytes \<Rightarrow> rlp_err + kind \<times> uint64 \<times> uint64" where
  "readKind buf =
    (case buf of
       [] \<Rightarrow> Inl ErrUnexpectedEOF
     | b # _ \<Rightarrow>
       (let r =
          (if b < 0x80 then Inr (KByte, 0, 1)
           else if b < 0xB8 then
             (let contentsize = ucast (b - 0x80)
              in if contentsize = 1 \<and> 1 < length buf \<and> buf ! 1 < 128 then Inl ErrCanonSize
                 else Inr (KString, 1, contentsize))
           else if b < 0xC0 then
             (case readSize (tl buf) (b - 0xB7) of
                Inl e \<Rightarrow> Inl e
              | Inr contentsize \<Rightarrow> Inr (KString, ucast (b - 0xB7) + 1, contentsize))
           else if b < 0xF8 then Inr (KList, 1, ucast (b - 0xC0))
           else
             (case readSize (tl buf) (b - 0xF7) of
                Inl e \<Rightarrow> Inl e
              | Inr contentsize \<Rightarrow> Inr (KList, ucast (b - 0xF7) + 1, contentsize)))
        in case r of
             Inl e \<Rightarrow> Inl e
           | Inr (k, tagsize, contentsize) \<Rightarrow>
               if word_of_nat (length buf) - tagsize < contentsize then Inl ErrValueTooLarge
               else Inr (k, tagsize, contentsize)))"

definition Split :: "bytes \<Rightarrow> rlp_err + kind \<times> bytes \<times> bytes" where
  "Split b =
    (case readKind b of
       Inl e \<Rightarrow> Inl e
     | Inr (k, ts, cs) \<Rightarrow>
         Inr (k, go_slice b (unat ts) (unat (ts + cs)), drop (unat (ts + cs)) b))"

definition SplitString :: "bytes \<Rightarrow> rlp_err + bytes \<times> bytes" where
  "SplitString b =
    (case Split b of
       Inl e \<Rightarrow> Inl e
     | Inr (k, content, rest) \<Rightarrow>
         if k = KList then Inl ErrExpectedString else Inr (content, rest))"

definition SplitUint64 :: "bytes \<Rightarrow> rlp_err + uint64 \<times> bytes" where
  "SplitUint64 b =
    (case SplitString b of
       Inl e \<Rightarrow> Inl e
     | Inr (content, rest) \<Rightarrow>
         if length content = 0 then Inr (0, rest)
         else if length content = 1 then
           (if content ! 0 = 0 then Inl ErrCanonInt else Inr (ucast (content ! 0), rest))
         else if 8 < length content then Inl ErrUintOverflow
         else
           (case readSize content (word_of_nat (length content)) of
              Inl e \<Rightarrow> Inl ErrCanonInt
            | Inr x \<Rightarrow> Inr (x, rest)))"

definition SplitList :: "bytes \<Rightarrow> rlp_err + bytes \<times> bytes" where
  "SplitList b =
    (case Split b of
       Inl e \<Rightarrow> Inl e
     | Inr (k, content, rest) \<Rightarrow>
         if k \<noteq> KList then Inl ErrExpectedList else Inr (content, rest))"

definition AppendUint64 :: "bytes \<Rightarrow> uint64 \<Rightarrow> bytes" where
  "AppendUint64 b i =
    (if i = 0 then b @ [0x80]
     else if i < 128 then b @ [ucast i]
     else if i < 0x100 then b @ [0x81, byte_at i 0]
     else if i < 0x10000 then b @ [0x82, byte_at i 1, byte_at i 0]
     else if i < 0x1000000 then b @ [0x83, byte_at i 2, byte_at i 1, byte_at i 0]
     else if i < 0x100000000 then b @ [0x84, byte_at i 3, byte_at i 2, byte_at i 1, byte_at i 0]
     else if i < 0x10000000000 then
       b @ [0x85, byte_at i 4, byte_at i 3, byte_at i 2, byte_at i 1, byte_at i 0]
     else if i < 0x1000000000000 then
       b @ [0x86, byte_at i 5, byte_at i 4, byte_at i 3, byte_at i 2, byte_at i 1, byte_at i 0]
     else if i < 0x100000000000000 then
       b @ [0x87, byte_at i 6, byte_at i 5, byte_at i 4, byte_at i 3, byte_at i 2, byte_at i 1,
            byte_at i 0]
     else
       b @ [0x88, byte_at i 7, byte_at i 6, byte_at i 5, byte_at i 4, byte_at i 3, byte_at i 2,
            byte_at i 1, byte_at i 0])"

lemma readKind_progress: "readKind buf = Inr (k, ts, cs) \<Longrightarrow> 0 < unat ts + unat cs"
proof -
  have t: "unat (ucast (x :: byte) + 1 :: uint64) = Suc (unat x)" for x
  proof -
    have "Suc (unat x) < 18446744073709551616"
      by (rule le_less_trans [of _ 256]) (simp_all add: Suc_le_eq)
    then show ?thesis by (simp add: unat_word_ariths unat_ucast_byte)
  qed
  assume "readKind buf = Inr (k, ts, cs)"
  then show ?thesis
    by (auto simp: readKind_def Let_def t split: list.splits if_splits sum.splits)
qed

function CountValues_loop :: "nat \<Rightarrow> bytes \<Rightarrow> rlp_err + nat" where
  "CountValues_loop i b =
    (if b = [] then Inr i
     else case readKind b of
            Inl e \<Rightarrow> Inl e
          | Inr (k, tagsize, sz) \<Rightarrow> CountValues_loop (Suc i) (drop (unat tagsize + unat sz) b))"
  by pat_completeness auto
termination
  by (relation "measure (\<lambda>(i, b). length b)") (auto dest: readKind_progress)

declare CountValues_loop.simps [simp del]

definition CountValues :: "bytes \<Rightarrow> rlp_err + nat" where
  "CountValues b = CountValues_loop 0 b"

subsection \<open>The list iterator\<close>

record listIterator =
  it_data :: bytes
  it_next :: bytes
  it_err :: "rlp_err option"

definition NewListIterator :: "bytes \<Rightarrow> rlp_err + listIterator" where
  "NewListIterator data =
    (case readKind data of
       Inl e \<Rightarrow> Inl e
     | Inr (k, t, c) \<Rightarrow>
         if k \<noteq> KList then Inl ErrExpectedList
         else Inr \<lparr>it_data = go_slice data (unat t) (unat (t + c)), it_next = [], it_err = None\<rparr>)"

text \<open>On an error \<open>readKind\<close> returns the sizes 0, so nothing is consumed.\<close>

definition Next :: "listIterator \<Rightarrow> bool \<times> listIterator" where
  "Next it =
    (if it_data it = [] then (False, it)
     else case readKind (it_data it) of
            Inl e \<Rightarrow> (True, it\<lparr>it_next := take 0 (it_data it), it_data := drop 0 (it_data it),
                              it_err := Some e\<rparr>)
          | Inr (k, t, c) \<Rightarrow>
              (True, it\<lparr>it_next := take (unat (t + c)) (it_data it),
                        it_data := drop (unat (t + c)) (it_data it), it_err := None\<rparr>))"

subsection \<open>Minimal big-endian integers\<close>

definition be_fix :: "uint64 \<Rightarrow> nat \<Rightarrow> bytes" where
  "be_fix i n = map (byte_at i) (rev [0..<n])"

lemma unat_byte_at: "unat (byte_at i k) = unat i div 256 ^ k mod 256"
proof -
  have "(256::nat) ^ k = 2 ^ (8 * k)" by (simp add: power_mult)
  then show ?thesis
    by (simp only: byte_at_def unat_to_byte unat_drop_bit_div)
qed

lemma be_nat_be_fix: "be_nat (be_fix i n) = unat i mod 256 ^ n"
proof (induction n)
  case (Suc n)
  have "be_nat (be_fix i (Suc n)) = unat i div 256 ^ n mod 256 * 256 ^ n + unat i mod 256 ^ n"
    using Suc by (simp add: be_fix_def be_nat_Cons unat_byte_at)
  also have "\<dots> = unat i mod 256 ^ Suc n"
    by (subst power_Suc2, subst mod_mult2_eq) simp
  finally show ?case .
qed (simp add: be_fix_def)

lemma be_fix_be_bytes:
  assumes "256 ^ n \<le> unat i" and "unat i < 256 ^ Suc n"
  shows "be_fix i (Suc n) = be_bytes (unat i)"
proof -
  have "0 < unat i div 256 ^ n" using assms(1) by (simp add: div_greater_zero_iff)
  moreover have "unat i div 256 ^ n < 256"
    using assms(2) by (simp add: less_mult_imp_div_less)
  ultimately have "unat (byte_at i n) \<noteq> 0" by (simp add: unat_byte_at)
  then have "byte_at i n \<noteq> 0" by auto
  then have "hd (be_fix i (Suc n)) \<noteq> 0" by (simp add: be_fix_def)
  then have "be_bytes (be_nat (be_fix i (Suc n))) = be_fix i (Suc n)"
    by (intro be_bytes_be_nat) simp
  then show ?thesis using assms(2) by (simp add: be_nat_be_fix)
qed

lemma byte_at_0 [simp]: "byte_at i 0 = ucast i"
  by (simp add: byte_at_def)

lemma upt_8:
  "[0..<1] = [0::nat]" "[0..<2] = [0::nat, 1]" "[0..<3] = [0::nat, 1, 2]"
  "[0..<4] = [0::nat, 1, 2, 3]" "[0..<5] = [0::nat, 1, 2, 3, 4]"
  "[0..<6] = [0::nat, 1, 2, 3, 4, 5]" "[0..<7] = [0::nat, 1, 2, 3, 4, 5, 6]"
  "[0..<8] = [0::nat, 1, 2, 3, 4, 5, 6, 7]"
  by (simp_all add: upt_conv_Cons)

lemma putint_be_fix:
  "putint i = be_fix i (if unat i < 256 ^ 1 then 1 else if unat i < 256 ^ 2 then 2
     else if unat i < 256 ^ 3 then 3 else if unat i < 256 ^ 4 then 4
     else if unat i < 256 ^ 5 then 5 else if unat i < 256 ^ 6 then 6
     else if unat i < 256 ^ 7 then 7 else 8)"
  by (simp add: putint_def be_fix_def byte_simps upt_8)

lemma putint_be_bytes: "i \<noteq> 0 \<Longrightarrow> putint i = be_bytes (unat i)"
proof -
  assume "i \<noteq> 0"
  then have pos: "256 ^ 0 \<le> unat i" by (simp add: unat_gt_0 Suc_le_eq)
  have top: "unat i < 256 ^ 8" by simp
  show ?thesis
    using pos top be_fix_be_bytes [of 0 i] be_fix_be_bytes [of 1 i] be_fix_be_bytes [of 2 i]
      be_fix_be_bytes [of 3 i] be_fix_be_bytes [of 4 i] be_fix_be_bytes [of 5 i]
      be_fix_be_bytes [of 6 i] be_fix_be_bytes [of 7 i]
    by (simp add: putint_be_fix numeral_2_eq_2 [symmetric])
qed

lemma putint_length: "length (putint i) \<le> 8"
  by (simp add: putint_be_fix be_fix_def)

lemma intsize_loop_eq: "intsize_loop sz i = sz + (length (be_bytes (unat i)) - 1)"
proof (induction sz i rule: intsize_loop.induct)
  case (1 sz i)
  let ?j = "drop_bit 8 i"
  have j: "unat ?j = unat i div 256" by (simp only: unat_drop_bit_div) simp
  have len: "length (be_bytes (unat i)) = (if unat i = 0 then 0 else Suc (length (be_bytes (unat ?j))))"
    by (subst be_bytes.simps) (simp add: j)
  show ?case
  proof (cases "?j = 0")
    case True
    then show ?thesis using len by (subst intsize_loop.simps) simp
  next
    case False
    then have "0 < length (be_bytes (unat ?j))" by (simp add: unat_eq_0)
    moreover have "unat i \<noteq> 0" using False j by (metis div_0 unat_eq_0)
    ultimately show ?thesis using 1 False len by (subst intsize_loop.simps) (simp add: Let_def)
  qed
qed

lemma intsize_eq: "i \<noteq> 0 \<Longrightarrow> intsize i = length (putint i)"
proof -
  assume "i \<noteq> 0"
  then have "0 < length (be_bytes (unat i))" by (simp add: unat_eq_0)
  with \<open>i \<noteq> 0\<close> show ?thesis by (simp add: intsize_def intsize_loop_eq putint_be_bytes)
qed

subsection \<open>The canonical form\<close>

text \<open>
  The header the format prescribes for a payload of \<open>n\<close> bytes, over natural numbers;
  the canonical string and list built with it; and the canonical encoding of a value
  given by its kind and content.
\<close>

definition rlp_head :: "byte \<Rightarrow> byte \<Rightarrow> nat \<Rightarrow> bytes" where
  "rlp_head smalltag largetag n =
    (if n < 56 then [smalltag + word_of_nat n]
     else (largetag + word_of_nat (length (be_bytes n))) # be_bytes n)"

definition rlp_string :: "bytes \<Rightarrow> bytes" where
  "rlp_string b =
    (if length b = 1 \<and> hd b < 0x80 then b else rlp_head 0x80 0xB7 (length b) @ b)"

definition rlp_list :: "bytes \<Rightarrow> bytes" where
  "rlp_list payload = rlp_head 0xC0 0xF7 (length payload) @ payload"

definition rlp_value :: "kind \<Rightarrow> bytes \<Rightarrow> bytes" where
  "rlp_value k c =
    (case k of KByte \<Rightarrow> c
     | KString \<Rightarrow> rlp_head 0x80 0xB7 (length c) @ c
     | KList \<Rightarrow> rlp_head 0xC0 0xF7 (length c) @ c)"

definition canonical_content :: "kind \<Rightarrow> bytes \<Rightarrow> bool" where
  "canonical_content k c =
    (case k of KByte \<Rightarrow> length c = 1 \<and> hd c < 0x80
     | KString \<Rightarrow> \<not> (length c = 1 \<and> hd c < 0x80)
     | KList \<Rightarrow> True)"

lemma puthead_rlp_head:
  "n < 18446744073709551616 \<Longrightarrow> puthead st lt (word_of_nat n) = rlp_head st lt n"
proof -
  assume n: "n < 18446744073709551616"
  then have un: "unat (word_of_nat n :: uint64) = n" by (rule unat_word_of_nat_64)
  show ?thesis
  proof (cases "n < 56")
    case True
    then have "(ucast (word_of_nat n :: uint64) :: byte) = word_of_nat n"
      using n by (intro byte_eqI) (simp add: byte_simps)
    with True un show ?thesis by (simp add: puthead_def rlp_head_def byte_simps)
  next
    case False
    then have "(word_of_nat n :: uint64) \<noteq> 0" using un by auto
    with False un show ?thesis
      by (simp add: puthead_def rlp_head_def byte_simps putint_be_bytes Let_def)
  qed
qed

lemma headsize_rlp_head:
  "n < 18446744073709551616 \<Longrightarrow> headsize (word_of_nat n) = length (rlp_head st lt n)"
proof -
  assume n: "n < 18446744073709551616"
  then have un: "unat (word_of_nat n :: uint64) = n" by (rule unat_word_of_nat_64)
  show ?thesis
  proof (cases "n < 56")
    case True
    with un show ?thesis by (simp add: headsize_def rlp_head_def byte_simps)
  next
    case False
    then have "(word_of_nat n :: uint64) \<noteq> 0" using un by auto
    with False un show ?thesis
      by (simp add: headsize_def rlp_head_def byte_simps putint_be_bytes intsize_eq)
  qed
qed

lemma length_be_bytes_64: "n < 18446744073709551616 \<Longrightarrow> length (be_bytes n) \<le> 8"
  by (rule length_be_bytes_le) simp

lemma length_rlp_head_pos: "0 < length (rlp_head st lt n)"
  by (simp add: rlp_head_def)

subsection \<open>The parser accepts exactly the canonical encodings\<close>

lemma readSize_iff:
  assumes "1 \<le> unat slen" and "unat slen \<le> 8"
  shows "readSize b slen = Inr s \<longleftrightarrow>
    56 \<le> unat s \<and> length (be_bytes (unat s)) = unat slen \<and> take (unat slen) b = be_bytes (unat s)"
    (is "?L = ?R")
proof
  assume L: ?L
  let ?x = "take (unat slen) b"
  from L have len: "unat slen \<le> length b" and s: "s = be64 ?x" and "\<not> s < 56" and b0: "b ! 0 \<noteq> 0"
    using assms by (auto simp: readSize_def Let_def split: if_splits)
  have us: "unat s = be_nat ?x" unfolding s by (rule unat_be64) (use assms in simp)
  have lx: "length ?x = unat slen" using len by simp
  have "?x \<noteq> []" using lx assms by auto
  then have "hd ?x = b ! 0" using assms by (metis hd_conv_nth nth_take length_greater_0_conv lx)
  then have "be_bytes (unat s) = ?x" using b0 us by (simp add: be_bytes_be_nat)
  then show ?R using lx \<open>\<not> s < 56\<close> by (simp add: byte_simps)
next
  assume R: ?R
  let ?x = "take (unat slen) b"
  from R have x: "?x = be_bytes (unat s)" and "56 \<le> unat s" by auto
  from R have len: "unat slen \<le> length b"
    by (metis length_take min.absorb_iff2 min.commute)
  have "be64 ?x = s" using x length_be_bytes_64 [of "unat s"] by (intro be64_inverse) simp_all
  moreover have "b ! 0 \<noteq> 0"
  proof -
    have ne: "?x \<noteq> []" using x \<open>56 \<le> unat s\<close> by simp
    have "hd ?x \<noteq> 0" using x be_bytes_hd [of "unat s"] \<open>56 \<le> unat s\<close> by simp
    with ne show ?thesis using assms by (cases b) (auto split: nat.splits)
  qed
  ultimately show ?L using len assms \<open>56 \<le> unat s\<close> by (simp add: readSize_def byte_simps)
qed

lemma tag_bytes [byte_simps]:
  "n < 56 \<Longrightarrow> unat (0x80 + word_of_nat n :: byte) = 128 + n"
  "n < 56 \<Longrightarrow> unat (0xC0 + word_of_nat n :: byte) = 192 + n"
  "m \<le> 8 \<Longrightarrow> unat (0xB7 + word_of_nat m :: byte) = 183 + m"
  "m \<le> 8 \<Longrightarrow> unat (0xF7 + word_of_nat m :: byte) = 247 + m"
  by (simp_all add: unat_word_ariths unat_of_nat)

lemma size_check [byte_simps]:
  assumes "len < 18446744073709551616" and "unat ts \<le> len"
  shows "(word_of_nat len - ts < (cs :: uint64)) \<longleftrightarrow> len - unat ts < unat cs"
proof -
  have "unat (word_of_nat len :: uint64) = len" using assms(1) by (rule unat_word_of_nat_64)
  with assms show ?thesis by (simp add: word_less_nat_alt unat_sub_if')
qed

lemma readKind_Nil [simp]: "readKind [] = Inl ErrUnexpectedEOF"
  by (simp add: readKind_def)

lemma ucast_byte_of_nat: "(ucast (b :: byte) :: uint64) = word_of_nat (unat b)"
proof -
  have "unat b < 18446744073709551616" by (rule less_trans [OF unat_byte_less]) simp
  then show ?thesis by (intro word_unat_eq_iff [THEN iffD2]) (simp add: byte_simps)
qed

text \<open>The five ranges of the first byte, over natural numbers.\<close>

lemma readKind_byte:
  assumes "unat b < 128" and "length (b # bs) < 18446744073709551616"
  shows "readKind (b # bs) = Inr (KByte, 0, 1)"
  using assms size_check [of "length (b # bs)" 0 1]
  by (simp add: readKind_def word_less_nat_alt del: of_nat_Suc)

lemma readKind_short_string:
  assumes "unat b = 128 + n" and "n < 56" and "length (b # bs) < 18446744073709551616"
  shows "readKind (b # bs) =
    (if n = 1 \<and> bs \<noteq> [] \<and> unat (hd bs) < 128 then Inl ErrCanonSize
     else if length bs < n then Inl ErrValueTooLarge
     else Inr (KString, 1, word_of_nat n))"
proof -
  have d: "unat (b - 0x80) = n" using assms by (simp add: byte_simps)
  have e: "(ucast (b - 0x80) :: uint64) = word_of_nat n"
    by (simp only: ucast_byte_of_nat d)
  have u: "unat (word_of_nat n :: uint64) = n"
    using assms by (intro unat_word_of_nat_64) simp
  have one: "(word_of_nat n :: uint64) = 1 \<longleftrightarrow> n = 1"
    using u by (auto simp: word_unat_eq_iff)
  show ?thesis
    using assms size_check [of "length (b # bs)" 1 "word_of_nat n"]
    by (cases bs) (auto simp: readKind_def word_less_nat_alt e u one Let_def simp del: of_nat_Suc)
qed

lemma readKind_short_list:
  assumes "unat b = 192 + n" and "n < 56" and "length (b # bs) < 18446744073709551616"
  shows "readKind (b # bs) =
    (if length bs < n then Inl ErrValueTooLarge else Inr (KList, 1, word_of_nat n))"
proof -
  have d: "unat (b - 0xC0) = n" using assms by (simp add: byte_simps)
  have e: "(ucast (b - 0xC0) :: uint64) = word_of_nat n"
    by (simp only: ucast_byte_of_nat d)
  have u: "unat (word_of_nat n :: uint64) = n"
    using assms by (intro unat_word_of_nat_64) simp
  show ?thesis
    using assms size_check [of "length (b # bs)" 1 "word_of_nat n"]
    by (auto simp: readKind_def word_less_nat_alt e u Let_def simp del: of_nat_Suc)
qed

lemma readSize_length: "readSize b slen = Inr s \<Longrightarrow> unat slen \<le> length b"
  by (auto simp: readSize_def split: if_splits)

lemma long_tagsize:
  "m \<le> 8 \<Longrightarrow> (ucast (word_of_nat m :: byte) :: uint64) + 1 = word_of_nat (Suc m)"
  by (simp only: ucast_byte_of_nat of_nat_Suc) (simp add: byte_simps)

lemma long_size_check:
  assumes "m \<le> 8" and "length (b # bs) < 18446744073709551616"
    and "readSize bs (word_of_nat m) = Inr cs"
  shows "(word_of_nat (length (b # bs)) - word_of_nat (Suc m) < (cs :: uint64)) \<longleftrightarrow>
    length bs < m + unat cs"
proof -
  have u: "unat (word_of_nat (Suc m) :: uint64) = Suc m"
    using assms(1) by (intro unat_word_of_nat_64) simp
  have "unat (word_of_nat m :: byte) = m" using assms(1) by (simp add: byte_simps)
  then have "m \<le> length bs" using readSize_length [OF assms(3)] by simp
  with size_check [of "length (b # bs)" "word_of_nat (Suc m)" cs] u assms(2) show ?thesis
    by (simp del: of_nat_Suc) linarith
qed

lemma readKind_long_string:
  assumes b: "unat b = 183 + m" and m: "1 \<le> m" "m \<le> 8"
    and len: "length (b # bs) < 18446744073709551616"
  shows "readKind (b # bs) =
    (case readSize bs (word_of_nat m) of
       Inl e \<Rightarrow> Inl e
     | Inr cs \<Rightarrow> if length bs < m + unat cs then Inl ErrValueTooLarge
                 else Inr (KString, word_of_nat (Suc m), cs))"
proof -
  have r: "\<not> b < 0x80" "\<not> b < 0xB8" "b < 0xC0"
    using b m by (simp_all add: word_less_nat_alt)
  have d: "b - 0xB7 = word_of_nat m"
    using b m by (intro byte_eqI) (simp add: byte_simps)
  have "readKind (b # bs) =
    (case readSize bs (word_of_nat m) of
       Inl e \<Rightarrow> Inl e
     | Inr cs \<Rightarrow>
         if word_of_nat (length (b # bs)) - word_of_nat (Suc m) < cs then Inl ErrValueTooLarge
         else Inr (KString, word_of_nat (Suc m), cs))"
    unfolding readKind_def using r
    by (simp add: d long_tagsize [OF m(2)] Let_def del: of_nat_Suc split: sum.split)
  then show ?thesis
    using long_size_check [OF m(2) len] by (auto split: sum.splits)
qed

lemma readKind_long_list:
  assumes b: "unat b = 247 + m" and m: "1 \<le> m" "m \<le> 8"
    and len: "length (b # bs) < 18446744073709551616"
  shows "readKind (b # bs) =
    (case readSize bs (word_of_nat m) of
       Inl e \<Rightarrow> Inl e
     | Inr cs \<Rightarrow> if length bs < m + unat cs then Inl ErrValueTooLarge
                 else Inr (KList, word_of_nat (Suc m), cs))"
proof -
  have r: "\<not> b < 0x80" "\<not> b < 0xB8" "\<not> b < 0xC0" "\<not> b < 0xF8"
    using b m by (simp_all add: word_less_nat_alt)
  have d: "b - 0xF7 = word_of_nat m"
    using b m by (intro byte_eqI) (simp add: byte_simps)
  have "readKind (b # bs) =
    (case readSize bs (word_of_nat m) of
       Inl e \<Rightarrow> Inl e
     | Inr cs \<Rightarrow>
         if word_of_nat (length (b # bs)) - word_of_nat (Suc m) < cs then Inl ErrValueTooLarge
         else Inr (KList, word_of_nat (Suc m), cs))"
    unfolding readKind_def using r
    by (simp add: d long_tagsize [OF m(2)] Let_def del: of_nat_Suc split: sum.split)
  then show ?thesis
    using long_size_check [OF m(2) len] by (auto split: sum.splits)
qed

lemma byte_ranges [case_names single short_string long_string short_list long_list]:
  fixes b :: byte
  obtains "unat b < 128"
  | n where "unat b = 128 + n" "n < 56"
  | m where "unat b = 183 + m" "1 \<le> m" "m \<le> 8"
  | n where "unat b = 192 + n" "n < 56"
  | m where "unat b = 247 + m" "1 \<le> m" "m \<le> 8"
proof -
  have "unat b < 256" by simp
  then consider "unat b < 128" | "128 \<le> unat b" "unat b - 128 < 56"
    | "183 \<le> unat b" "1 \<le> unat b - 183" "unat b - 183 \<le> 8"
    | "192 \<le> unat b" "unat b - 192 < 56"
    | "247 \<le> unat b" "1 \<le> unat b - 247" "unat b - 247 \<le> 8"
    by linarith
  then show thesis
    using that(1) that(2) [of "unat b - 128"] that(3) [of "unat b - 183"]
      that(4) [of "unat b - 192"] that(5) [of "unat b - 247"]
    by cases simp_all
qed

lemma rlp_head_short:
  "unat b = 128 + n \<Longrightarrow> n < 56 \<Longrightarrow> [b] = rlp_head 0x80 lt n"
  "unat b = 192 + n \<Longrightarrow> n < 56 \<Longrightarrow> [b] = rlp_head 0xC0 lt n"
  by (auto simp: rlp_head_def byte_simps intro!: byte_eqI)

lemma rlp_head_long:
  "unat b = 183 + length (be_bytes n) \<Longrightarrow> 56 \<le> n \<Longrightarrow> n < 18446744073709551616 \<Longrightarrow>
     b # be_bytes n = rlp_head st 0xB7 n"
  "unat b = 247 + length (be_bytes n) \<Longrightarrow> 56 \<le> n \<Longrightarrow> n < 18446744073709551616 \<Longrightarrow>
     b # be_bytes n = rlp_head st 0xF7 n"
  by (auto simp: rlp_head_def byte_simps length_be_bytes_64 intro!: byte_eqI)

text \<open>
  A header read from \<open>b # bs\<close>: what the parser found is the header the format
  prescribes, followed by the content and the rest.
\<close>

lemma long_header_split:
  assumes "readSize bs (word_of_nat m) = Inr cs" and m: "1 \<le> m" "m \<le> 8"
    and "\<not> length bs < m + unat cs"
  shows "bs = be_bytes (unat cs) @ take (unat cs) (drop m bs) @ drop (m + unat cs) bs"
    and "length (be_bytes (unat cs)) = m" and "56 \<le> unat cs"
    and "length (take (unat cs) (drop m bs)) = unat cs"
proof -
  have "unat (word_of_nat m :: byte) = m" using m by (simp add: byte_simps)
  with assms readSize_iff [of "word_of_nat m" bs cs]
  have *: "take m bs = be_bytes (unat cs)" "length (be_bytes (unat cs)) = m" "56 \<le> unat cs"
    by auto
  show "bs = be_bytes (unat cs) @ take (unat cs) (drop m bs) @ drop (m + unat cs) bs"
    using *(1) by (metis append_take_drop_id drop_drop add.commute)
  show "length (be_bytes (unat cs)) = m" "56 \<le> unat cs" using * by auto
  show "length (take (unat cs) (drop m bs)) = unat cs" using assms(4) by simp
qed

lemma readKind_sound:
  assumes len: "length buf < 18446744073709551616" and ok: "readKind buf = Inr (k, ts, cs)"
  shows "\<exists>c rest. buf = rlp_value k c @ rest \<and> canonical_content k c \<and>
    length c = unat cs \<and> length (rlp_value k c) = unat ts + unat cs"
proof -
  from ok obtain b bs where buf: "buf = b # bs" by (cases buf) auto
  note len' = len [unfolded buf]
  show ?thesis
  proof (cases b rule: byte_ranges)
    case single
    then have "k = KByte" "ts = 0" "cs = 1" using ok buf readKind_byte [OF _ len'] by auto
    then show ?thesis using single buf
      by (intro exI [of _ "[b]"] exI [of _ bs])
        (simp add: rlp_value_def canonical_content_def byte_simps)
  next
    case (short_string n)
    then have c: "k = KString" "ts = 1" "cs = word_of_nat n" "n \<le> length bs"
      "\<not> (n = 1 \<and> bs \<noteq> [] \<and> unat (hd bs) < 128)"
      using ok buf readKind_short_string [OF short_string len'] by (auto split: if_splits)
    have u: "unat cs = n" using c short_string by (simp add: byte_simps)
    have "buf = rlp_head 0x80 0xB7 n @ take n bs @ drop n bs"
      using rlp_head_short(1) [OF short_string, symmetric] by (simp add: buf)
    then show ?thesis using c u short_string(2)
      by (intro exI [of _ "take n bs"] exI [of _ "drop n bs"])
        (auto simp: rlp_value_def canonical_content_def byte_simps rlp_head_def)
  next
    case (short_list n)
    then have c: "k = KList" "ts = 1" "cs = word_of_nat n" "n \<le> length bs"
      using ok buf readKind_short_list [OF short_list len'] by (auto split: if_splits)
    have u: "unat cs = n" using c short_list by (simp add: byte_simps)
    have "buf = rlp_head 0xC0 0xF7 n @ take n bs @ drop n bs"
      using rlp_head_short(2) [OF short_list, symmetric] by (simp add: buf)
    then show ?thesis using c u short_list(2)
      by (intro exI [of _ "take n bs"] exI [of _ "drop n bs"])
        (auto simp: rlp_value_def canonical_content_def rlp_head_def)
  next
    case (long_string m)
    then have c: "k = KString" "ts = word_of_nat (Suc m)" "\<not> length bs < m + unat cs"
      "readSize bs (word_of_nat m) = Inr cs"
      using ok buf readKind_long_string [OF long_string len']
      by (auto split: sum.splits if_splits simp del: of_nat_Suc)
    note h = long_header_split [OF c(4) long_string(2,3) c(3)]
    have "unat ts = Suc m" using c long_string by (simp add: byte_simps del: of_nat_Suc)
    moreover have "b # be_bytes (unat cs) = rlp_head 0x80 0xB7 (unat cs)"
      using h long_string by (intro rlp_head_long) simp_all
    ultimately show ?thesis using c h buf
      by (intro exI [of _ "take (unat cs) (drop m bs)"] exI [of _ "drop (m + unat cs) bs"])
        (auto simp: rlp_value_def canonical_content_def rlp_head_def)
  next
    case (long_list m)
    then have c: "k = KList" "ts = word_of_nat (Suc m)" "\<not> length bs < m + unat cs"
      "readSize bs (word_of_nat m) = Inr cs"
      using ok buf readKind_long_list [OF long_list len']
      by (auto split: sum.splits if_splits simp del: of_nat_Suc)
    note h = long_header_split [OF c(4) long_list(2,3) c(3)]
    have "unat ts = Suc m" using c long_list by (simp add: byte_simps del: of_nat_Suc)
    moreover have "b # be_bytes (unat cs) = rlp_head 0xC0 0xF7 (unat cs)"
      using h long_list by (intro rlp_head_long) simp_all
    ultimately show ?thesis using c h buf
      by (intro exI [of _ "take (unat cs) (drop m bs)"] exI [of _ "drop (m + unat cs) bs"])
        (auto simp: rlp_value_def canonical_content_def rlp_head_def)
  qed
qed

lemma readSize_be_bytes:
  assumes "56 \<le> n" and "n < 18446744073709551616"
  shows "readSize (be_bytes n @ r) (word_of_nat (length (be_bytes n))) = Inr (word_of_nat n)"
proof -
  let ?m = "length (be_bytes n)"
  have m: "1 \<le> ?m" "?m \<le> 8"
    using assms length_be_bytes_64 by (auto simp: Suc_le_eq)
  have um: "unat (word_of_nat ?m :: byte) = ?m" using m by (simp add: byte_simps)
  have un: "unat (word_of_nat n :: uint64) = n" using assms by (simp add: byte_simps)
  show ?thesis using m um un assms by (subst readSize_iff) simp_all
qed

lemma readKind_complete:
  assumes "canonical_content k c" and len: "length (rlp_value k c @ rest) < 18446744073709551616"
  shows "readKind (rlp_value k c @ rest) =
    Inr (k, word_of_nat (length (rlp_value k c) - length c), word_of_nat (length c))"
proof -
  let ?n = "length c" and ?m = "length (be_bytes (length c))"
  have n: "?n < 18446744073709551616" using len by (auto simp: rlp_value_def split: kind.splits)
  have m: "?m \<le> 8" using n by (rule length_be_bytes_64)
  have un: "unat (word_of_nat ?n :: uint64) = ?n" using n by (rule unat_word_of_nat_64)
  show ?thesis
  proof (cases "k = KByte")
    case True
    with assms(1) obtain x where "c = [x]" "x < 0x80"
      by (cases c) (auto simp: canonical_content_def)
    with True len readKind_byte [of x rest] show ?thesis
      by (simp add: rlp_value_def word_less_nat_alt)
  next
    case False
    then consider "k = KString" "?n < 56" | "k = KString" "56 \<le> ?n"
      | "k = KList" "?n < 56" | "k = KList" "56 \<le> ?n"
      by (metis kind.exhaust not_le)
    then show ?thesis
    proof cases
      case 1
      have "\<not> (?n = 1 \<and> c @ rest \<noteq> [] \<and> unat (hd (c @ rest)) < 128)"
        using 1 assms(1) by (cases c) (auto simp: canonical_content_def word_less_nat_alt)
      with 1 len readKind_short_string [of "0x80 + word_of_nat ?n" ?n "c @ rest"]
      show ?thesis by (simp add: rlp_value_def rlp_head_def byte_simps)
    next
      case 2
      then have "1 \<le> ?m" by (auto simp: Suc_le_eq)
      with 2 m len un readKind_long_string [of "0xB7 + word_of_nat ?m" ?m "be_bytes ?n @ c @ rest"]
        readSize_be_bytes [OF 2(2) n, of "c @ rest"]
      show ?thesis by (simp add: rlp_value_def rlp_head_def byte_simps del: of_nat_Suc)
    next
      case 3
      with len readKind_short_list [of "0xC0 + word_of_nat ?n" ?n "c @ rest"]
      show ?thesis by (simp add: rlp_value_def rlp_head_def byte_simps)
    next
      case 4
      then have "1 \<le> ?m" by (auto simp: Suc_le_eq)
      with 4 m len un readKind_long_list [of "0xF7 + word_of_nat ?m" ?m "be_bytes ?n @ c @ rest"]
        readSize_be_bytes [OF 4(2) n, of "c @ rest"]
      show ?thesis by (simp add: rlp_value_def rlp_head_def byte_simps del: of_nat_Suc)
    qed
  qed
qed

lemma length_rlp_value: "length c \<le> length (rlp_value k c)"
  by (cases k) (simp_all add: rlp_value_def)

lemma Split_complete:
  assumes "canonical_content k c" and len: "length (rlp_value k c @ rest) < 18446744073709551616"
  shows "Split (rlp_value k c @ rest) = Inr (k, c, rest)"
proof -
  let ?h = "length (rlp_value k c) - length c"
  have u: "unat (word_of_nat ?h :: uint64) = ?h"
    using len by (intro unat_word_of_nat_64) simp
  have "(word_of_nat ?h + word_of_nat (length c) :: uint64) = word_of_nat (length (rlp_value k c))"
    using length_rlp_value [of c k] by (simp only: of_nat_add [symmetric] le_add_diff_inverse2)
  then have u2: "unat (word_of_nat ?h + word_of_nat (length c) :: uint64) = length (rlp_value k c)"
    using len by (simp add: byte_simps del: of_nat_diff)
  have "drop ?h (rlp_value k c) = c"
    by (cases k) (simp_all add: rlp_value_def)
  with u u2 length_rlp_value [of c k] show ?thesis
    by (simp add: Split_def readKind_complete [OF assms] go_slice_def del: of_nat_diff)
qed

lemma Split_sound:
  assumes len: "length b < 18446744073709551616" and ok: "Split b = Inr (k, c, rest)"
  shows "b = rlp_value k c @ rest \<and> canonical_content k c"
proof -
  from ok obtain ts cs where rk: "readKind b = Inr (k, ts, cs)"
    by (auto simp: Split_def split: sum.splits)
  from readKind_sound [OF len rk] obtain c' rest' where
    *: "b = rlp_value k c' @ rest'" "canonical_content k c'" by blast
  with len Split_complete [of k c' rest'] ok show ?thesis by simp
qed

lemma rlp_value_nonempty: "canonical_content k c \<Longrightarrow> rlp_value k c \<noteq> []"
  using length_rlp_head_pos
  by (cases k) (auto simp: rlp_value_def canonical_content_def)

subsection \<open>Strings, lists and integers\<close>

lemma rlp_string_value:
  "rlp_string c = rlp_value (if length c = 1 \<and> hd c < 0x80 then KByte else KString) c"
  "canonical_content (if length c = 1 \<and> hd c < 0x80 then KByte else KString) c"
  by (auto simp: rlp_string_def rlp_value_def canonical_content_def)

lemma rlp_list_value: "rlp_list c = rlp_value KList c" "canonical_content KList c"
  by (simp_all add: rlp_list_def rlp_value_def canonical_content_def)

lemma canonical_string: "k \<noteq> KList \<Longrightarrow> canonical_content k c \<Longrightarrow> rlp_value k c = rlp_string c"
  by (cases k) (auto simp: rlp_string_def rlp_value_def canonical_content_def)

lemma SplitString_iff:
  assumes "length b < 18446744073709551616"
  shows "SplitString b = Inr (c, rest) \<longleftrightarrow> b = rlp_string c @ rest"
proof
  assume "SplitString b = Inr (c, rest)"
  then obtain k where "Split b = Inr (k, c, rest)" "k \<noteq> KList"
    by (auto simp: SplitString_def split: sum.splits if_splits)
  then show "b = rlp_string c @ rest"
    using Split_sound [OF assms] canonical_string by blast
next
  assume b: "b = rlp_string c @ rest"
  show "SplitString b = Inr (c, rest)"
    using Split_complete [OF rlp_string_value(2), of c rest, folded rlp_string_value(1)] assms
    by (simp add: SplitString_def b)
qed

lemma SplitList_iff:
  assumes "length b < 18446744073709551616"
  shows "SplitList b = Inr (c, rest) \<longleftrightarrow> b = rlp_list c @ rest"
proof
  assume "SplitList b = Inr (c, rest)"
  then have "Split b = Inr (KList, c, rest)"
    by (auto simp: SplitList_def split: sum.splits if_splits)
  then show "b = rlp_list c @ rest"
    using Split_sound [OF assms] rlp_list_value by auto
next
  assume b: "b = rlp_list c @ rest"
  show "SplitList b = Inr (c, rest)"
    using Split_complete [OF rlp_list_value(2), of c rest, folded rlp_list_value(1)] assms
    by (simp add: SplitList_def b)
qed

lemma be_bytes_small: "0 < n \<Longrightarrow> n < 256 \<Longrightarrow> be_bytes n = [word_of_nat n]"
  by (subst be_bytes.simps) simp

lemma be_bytes_single: "be_bytes n = [x] \<Longrightarrow> n = unat x"
  by (metis be_nat_be_bytes be_nat_single)

lemma rlp_string_be_bytes:
  assumes "n < 18446744073709551616"
  shows "rlp_string (be_bytes n) =
    (if n = 0 then [0x80] else if n < 128 then [word_of_nat n]
     else (0x80 + word_of_nat (length (be_bytes n))) # be_bytes n)"
proof (cases "n < 128")
  case True
  then show ?thesis
    by (cases "n = 0") (auto simp: rlp_string_def rlp_head_def be_bytes_small byte_simps)
next
  case False
  then have "\<not> (length (be_bytes n) = 1 \<and> hd (be_bytes n) < 0x80)"
    using be_bytes_single [of n] by (cases "be_bytes n") (auto simp: word_less_nat_alt)
  with False length_be_bytes_64 [OF assms] show ?thesis
    by (simp add: rlp_string_def rlp_head_def)
qed

lemma AppendUint64_eq: "AppendUint64 b i = b @ rlp_string (be_bytes (unat i))"
proof -
  have "AppendUint64 b i =
    (if i = 0 then b @ [0x80] else if i < 128 then b @ [ucast i]
     else b @ (0x80 + word_of_nat (length (putint i))) # putint i)"
    by (simp add: AppendUint64_def putint_def)
  moreover have "(ucast i :: byte) = word_of_nat (unat i)"
    by simp
  ultimately show ?thesis
    by (simp add: rlp_string_be_bytes putint_be_bytes word_less_nat_alt unat_eq_0)
qed

lemma uint_content_sound:
  assumes "2 \<le> length c" and "length c \<le> 8"
  shows "readSize c (word_of_nat (length c)) = Inr x \<longleftrightarrow> c = be_bytes (unat x)"
proof -
  have u: "unat (word_of_nat (length c) :: byte) = length c" using assms by (simp add: byte_simps)
  have "56 \<le> unat x" if "c = be_bytes (unat x)"
  proof (rule ccontr)
    assume "\<not> 56 \<le> unat x"
    then have "length (be_bytes (unat x)) \<le> 1" by (intro length_be_bytes_le) simp
    with that assms show False by simp
  qed
  with assms u show ?thesis by (subst readSize_iff) auto
qed

lemma SplitUint64_iff:
  assumes len: "length b < 18446744073709551616"
  shows "SplitUint64 b = Inr (x, rest) \<longleftrightarrow> b = rlp_string (be_bytes (unat x)) @ rest"
proof -
  have content: "(if length c = 0 then Inr (0, r)
         else if length c = 1 then
           (if c ! 0 = 0 then Inl ErrCanonInt else Inr (ucast (c ! 0), r))
         else if 8 < length c then Inl ErrUintOverflow
         else (case readSize c (word_of_nat (length c)) of
              Inl e \<Rightarrow> Inl ErrCanonInt | Inr x \<Rightarrow> Inr (x, r))) = Inr (x, rest)
      \<longleftrightarrow> c = be_bytes (unat x) \<and> r = rest" (is "?E = _ \<longleftrightarrow> _") for c r
  proof -
    consider "c = []" | y where "c = [y]" | "2 \<le> length c" "length c \<le> 8" | "8 < length c"
      by (cases c rule: remdups_adj.cases) (auto simp: not_less, linarith)
    then show ?thesis
    proof cases
      case 2
      have "x = ucast y \<longleftrightarrow> [y] = be_bytes (unat x)" if "y \<noteq> 0"
      proof
        assume "x = ucast y"
        then have "unat x = be_nat [y]" by (simp add: byte_simps)
        then show "[y] = be_bytes (unat x)" using that be_bytes_be_nat [of "[y]"] by simp
      next
        assume "[y] = be_bytes (unat x)"
        then have "unat x = unat y" by (metis be_bytes_single)
        then show "x = ucast y" by (simp add: word_unat_eq_iff byte_simps)
      qed
      moreover have "[0] \<noteq> be_bytes (unat x)"
        using be_bytes_hd [of "unat x"] by (metis be_bytes_Nil_iff list.sel(1) neq0_conv not_Cons_self2)
      ultimately show ?thesis using 2 by auto
    next
      case 3
      then show ?thesis using uint_content_sound [OF 3, of x] by (auto split: sum.splits)
    next
      case 4
      then have "c \<noteq> be_bytes (unat x)" using length_be_bytes_64 [of "unat x"] by auto
      with 4 show ?thesis by auto
    next
      case 1
      have "[] = be_bytes (unat x) \<longleftrightarrow> x = 0" by (metis be_bytes_Nil_iff unat_eq_0)
      with 1 show ?thesis by auto
    qed
  qed
  have "SplitUint64 b = Inr (x, rest) \<longleftrightarrow> SplitString b = Inr (be_bytes (unat x), rest)"
  proof (cases "SplitString b")
    case (Inr p)
    obtain c r where p: "p = (c, r)" by (cases p)
    show ?thesis unfolding SplitUint64_def Inr p sum.case prod.case content by simp
  qed (simp add: SplitUint64_def)
  then show ?thesis using SplitString_iff [OF len] by simp
qed

subsection \<open>The splitters meet the codec contract\<close>

abbreviation value_enc :: "kind \<times> bytes \<Rightarrow> bytes" where
  "value_enc \<equiv> \<lambda>(k, c). rlp_value k c"

abbreviation value_ok :: "kind \<times> bytes \<Rightarrow> bool" where
  "value_ok \<equiv> \<lambda>(k, c). canonical_content k c"

interpretation val_codec: prefix_codec value_enc
    "\<lambda>b. map_sum id (\<lambda>(k, c, r). ((k, c), r)) (Split b)" value_ok
proof
  fix v rest
  assume "value_ok v" "length (value_enc v @ rest) < 18446744073709551616"
  then show "map_sum id (\<lambda>(k, c, r). ((k, c), r)) (Split (value_enc v @ rest)) = Inr (v, rest)"
    using Split_complete by (cases v) simp
next
  fix b v rest
  assume "length b < 18446744073709551616"
    and "map_sum id (\<lambda>(k, c, r). ((k, c), r)) (Split b) = Inr (v, rest)"
  then show "value_ok v \<and> b = value_enc v @ rest"
    using Split_sound by (cases "Split b"; cases v) auto
next
  fix v :: "kind \<times> bytes"
  assume "value_ok v"
  then show "value_enc v \<noteq> []" using rlp_value_nonempty by (cases v) simp
qed

interpretation str_codec: prefix_codec rlp_string SplitString "\<lambda>_. True"
  using SplitString_iff rlp_string_value rlp_value_nonempty
  by unfold_locales (auto simp: length_greater_0_conv [symmetric] simp del: length_greater_0_conv)

interpretation list_codec: prefix_codec rlp_list SplitList "\<lambda>_. True"
  using SplitList_iff length_rlp_head_pos
  by unfold_locales (auto simp: rlp_list_def)

interpretation uint_codec: prefix_codec "AppendUint64 []" SplitUint64 "\<lambda>_. True"
  using SplitUint64_iff str_codec.enc_nonempty
  by unfold_locales (auto simp: AppendUint64_eq)

subsection \<open>Counting and iterating\<close>

lemma CountValues_step:
  assumes "value_ok v" and "length (value_enc v @ rest) < 18446744073709551616"
  shows "CountValues_loop i (value_enc v @ rest) = CountValues_loop (Suc i) rest"
proof -
  obtain k c where v: "v = (k, c)" by (cases v)
  have ne: "rlp_value k c \<noteq> []" using assms rlp_value_nonempty v by simp
  have "readKind (rlp_value k c @ rest) =
      Inr (k, word_of_nat (length (rlp_value k c) - length c), word_of_nat (length c))"
    using assms v by (intro readKind_complete) simp_all
  moreover have "unat (word_of_nat (length (rlp_value k c) - length c) :: uint64)
      + unat (word_of_nat (length c) :: uint64) = length (rlp_value k c)"
    using assms v length_rlp_value [of c k]
    by (simp add: unat_word_of_nat_64 del: of_nat_diff)
  ultimately show ?thesis using ne v
    by (subst CountValues_loop.simps) (simp del: of_nat_diff)
qed

lemma CountValues_loop_concat:
  "\<forall>v \<in> set vs. value_ok v \<Longrightarrow> length (concat (map value_enc vs)) < 18446744073709551616 \<Longrightarrow>
     CountValues_loop i (concat (map value_enc vs)) = Inr (i + length vs)"
proof (induction vs arbitrary: i)
  case Nil
  show ?case by (subst CountValues_loop.simps) simp
next
  case (Cons v vs)
  have "CountValues_loop i (value_enc v @ concat (map value_enc vs)) =
      CountValues_loop (Suc i) (concat (map value_enc vs))"
    using Cons.prems by (intro CountValues_step) simp_all
  also have "\<dots> = Inr (Suc i + length vs)" using Cons.prems by (intro Cons.IH) simp_all
  finally show ?case by simp
qed

lemma CountValues_loop_sound:
  "CountValues_loop i b = Inr n \<Longrightarrow> length b < 18446744073709551616 \<Longrightarrow>
     \<exists>vs. (\<forall>v \<in> set vs. value_ok v) \<and> b = concat (map value_enc vs) \<and> n = i + length vs"
proof (induction i b rule: CountValues_loop.induct)
  case (1 i b)
  show ?case
  proof (cases "b = []")
    case True
    then show ?thesis using "1.prems" by (intro exI [of _ "[]"]) (simp add: CountValues_loop.simps)
  next
    case False
    then obtain k ts cs where rk: "readKind b = Inr (k, ts, cs)"
      and r: "CountValues_loop (Suc i) (drop (unat ts + unat cs) b) = Inr n"
      using "1.prems"(1) by (subst (asm) CountValues_loop.simps) (auto split: sum.splits)
    from readKind_sound [OF "1.prems"(2) rk] obtain c rest where
      v: "b = rlp_value k c @ rest" "canonical_content k c"
      and len: "length (rlp_value k c) = unat ts + unat cs" by blast
    then have d: "drop (unat ts + unat cs) b = rest" by simp
    have "\<exists>vs. (\<forall>v \<in> set vs. value_ok v) \<and> rest = concat (map value_enc vs) \<and> n = Suc i + length vs"
      using "1.IH" [OF False rk refl refl, unfolded d] r "1.prems"(2) d v(1) by simp
    then obtain vs where "\<forall>v \<in> set vs. value_ok v" "rest = concat (map value_enc vs)"
      "n = Suc i + length vs" by blast
    then show ?thesis using v by (intro exI [of _ "(k, c) # vs"]) simp
  qed
qed

fun iterate_list :: "nat \<Rightarrow> listIterator \<Rightarrow> (bytes list \<times> listIterator) option" where
  "iterate_list 0 it = None"
| "iterate_list (Suc n) it =
    (case Next it of
       (False, it') \<Rightarrow> Some ([], it')
     | (True, it') \<Rightarrow> map_option (\<lambda>(vs, it''). (it_next it' # vs, it'')) (iterate_list n it'))"

lemma Next_step:
  assumes "value_ok v" and "length (value_enc v @ rest) < 18446744073709551616"
    and "it_data it = value_enc v @ rest"
  shows "Next it = (True, it\<lparr>it_next := value_enc v, it_data := rest, it_err := None\<rparr>)"
proof -
  obtain k c where v: "v = (k, c)" by (cases v)
  have ne: "rlp_value k c @ rest \<noteq> []" using assms rlp_value_nonempty v by simp
  have "readKind (rlp_value k c @ rest) =
      Inr (k, word_of_nat (length (rlp_value k c) - length c), word_of_nat (length c))"
    using assms v by (intro readKind_complete) simp_all
  moreover have "(word_of_nat (length (rlp_value k c) - length c) + word_of_nat (length c) :: uint64)
      = word_of_nat (length (rlp_value k c))"
    using length_rlp_value [of c k] by (simp only: of_nat_add [symmetric] le_add_diff_inverse2)
  ultimately show ?thesis using ne v assms
    by (simp add: Next_def unat_word_of_nat_64 del: of_nat_diff)
qed

lemma iterate_list_concat:
  "\<forall>v \<in> set vs. value_ok v \<Longrightarrow> length (concat (map value_enc vs)) < 18446744073709551616 \<Longrightarrow>
   it_data it = concat (map value_enc vs) \<Longrightarrow> length vs < fuel \<Longrightarrow> it_err it = None \<Longrightarrow>
     \<exists>it'. iterate_list fuel it = Some (map value_enc vs, it') \<and> it_data it' = [] \<and> it_err it' = None"
proof (induction vs arbitrary: it fuel)
  case Nil
  then show ?case by (cases fuel) (simp_all add: Next_def)
next
  case (Cons v vs)
  then obtain f where f: "fuel = Suc f" by (cases fuel) auto
  let ?it = "it\<lparr>it_next := value_enc v, it_data := concat (map value_enc vs), it_err := None\<rparr>"
  have n: "Next it = (True, ?it)" using Cons.prems by (intro Next_step) simp_all
  have "\<exists>it'. iterate_list f ?it = Some (map value_enc vs, it') \<and> it_data it' = [] \<and> it_err it' = None"
    using Cons.prems f by (intro Cons.IH) simp_all
  then show ?case using n f by auto
qed

subsection \<open>Properties\<close>

text \<open>
  C33. The slice parser accepts exactly the canonical encodings: \<open>Split\<close> returns kind
  \<open>k\<close>, content \<open>c\<close> and \<open>rest\<close> if and only if the input is the canonical encoding
  of \<open>(k, c)\<close> followed by \<open>rest\<close>; non-minimal headers, single bytes behind a string
  header and truncated values are all refused.
\<close>

theorem Split_exact:
  assumes "length b < 18446744073709551616"
  shows "Split b = Inr (k, c, rest) \<longleftrightarrow> canonical_content k c \<and> b = rlp_value k c @ rest"
  using Split_sound [OF assms] Split_complete [of k c rest] assms by blast

theorem Split_exact_witness:
  "Split [0x83, 1, 2, 3, 9] = Inr (KString, [1, 2, 3], [9])"
  using Split_exact [of "[0x83, 1, 2, 3, 9]" KString "[1, 2, 3]" "[9]"]
  by (simp add: canonical_content_def rlp_value_def rlp_head_def)

text \<open>
  \<open>SplitUint64\<close> and \<open>AppendUint64\<close> are inverse to each other: an integer is
  read back from its encoding and from no other byte sequence.
\<close>

theorem SplitUint64_exact:
  assumes "length b < 18446744073709551616"
  shows "SplitUint64 b = Inr (x, rest) \<longleftrightarrow> b = AppendUint64 [] x @ rest"
  using uint_codec.split_iff [OF assms] by simp

theorem SplitUint64_exact_witness:
  "SplitUint64 [0x82, 4, 0, 7] = Inr (1024, [7])"
  using SplitUint64_exact [of "[0x82, 4, 0, 7]" 1024 "[7]"]
  by (simp add: AppendUint64_def byte_at_def)

text \<open>
  \<open>CountValues\<close> succeeds exactly on concatenations of canonical values and then
  returns how many there are; in particular its loop always ends.
\<close>

theorem CountValues_exact:
  assumes "length b < 18446744073709551616"
  shows "CountValues b = Inr n \<longleftrightarrow>
    (\<exists>vs. (\<forall>v \<in> set vs. value_ok v) \<and> b = concat (map value_enc vs) \<and> length vs = n)"
  using CountValues_loop_sound [of 0 b n] CountValues_loop_concat [of _ 0] assms
  by (auto simp: CountValues_def)

theorem CountValues_exact_witness:
  "CountValues [0x05, 0xC0] = Inr 2"
proof -
  have "\<exists>vs. (\<forall>v \<in> set vs. value_ok v) \<and> [0x05, 0xC0] = concat (map value_enc vs) \<and> length vs = 2"
    by (intro exI [of _ "[(KByte, [5]), (KList, [])]"])
      (simp add: canonical_content_def rlp_value_def rlp_head_def)
  then show ?thesis using CountValues_exact [of "[0x05, 0xC0]" 2] by simp
qed

text \<open>
  Iterating over an encoded list with \<open>NewListIterator\<close> and \<open>Next\<close> yields the
  encodings of its elements in order, without error, and then stops.
\<close>

theorem list_iteration:
  assumes "\<forall>v \<in> set vs. value_ok v"
    and "length (rlp_list (concat (map value_enc vs))) < 18446744073709551616"
  shows "\<exists>it it'. NewListIterator (rlp_list (concat (map value_enc vs))) = Inr it \<and>
    iterate_list (Suc (length vs)) it = Some (map value_enc vs, it') \<and>
    fst (Next it') = False \<and> it_err it' = None"
proof -
  let ?c = "concat (map value_enc vs)"
  let ?it = "\<lparr>it_data = ?c, it_next = [], it_err = None\<rparr>"
  have "Split (rlp_list ?c @ []) = Inr (KList, ?c, [])"
    using assms(2) unfolding rlp_list_value(1) by (intro Split_complete rlp_list_value(2)) simp
  then have "NewListIterator (rlp_list ?c) = Inr ?it"
    by (auto simp: Split_def NewListIterator_def split: sum.splits)
  moreover obtain it' where "iterate_list (Suc (length vs)) ?it = Some (map value_enc vs, it')"
    "it_data it' = []" "it_err it' = None"
    using iterate_list_concat [of vs ?it "Suc (length vs)"] assms by (auto simp: rlp_list_def)
  ultimately show ?thesis by (auto simp: Next_def)
qed

theorem list_iteration_witness:
  "\<exists>it it'. NewListIterator (rlp_list (concat (map value_enc [(KByte, [5 :: byte]), (KList, [])]))) = Inr it \<and>
    iterate_list (Suc (length [(KByte, [5 :: byte]), (KList, [])])) it =
      Some (map value_enc [(KByte, [5 :: byte]), (KList, [])], it') \<and>
    fst (Next it') = False \<and> it_err it' = None"
  by (rule list_iteration)
    (simp_all add: canonical_content_def rlp_list_def rlp_value_def rlp_head_def)

end
