(* ===== verification/Rlp_Encode.thy ===== *)
theory Rlp_Encode
  imports Rlp_Raw
begin

section \<open>The RLP encoder\<close>

text \<open>
  \<open>src/rlp/encode.go\<close>: the encoder buffer \<open>encbuf\<close>, which collects string data and list
  headers separately and joins them in \<open>toBytes\<close>, and the type-directed writers. A Go
  type is a value of \<open>gtype\<close> (the cases \<open>makeWriter\<close> and \<open>makeDecoder\<close> distinguish,
  with the struct tags \<open>nil\<close>, \<open>nilString\<close>, \<open>nilList\<close> and \<open>tail\<close> resolved as
  \<open>src/rlp/typecache.go\<close> does), a Go value is a \<open>gval\<close>. Types with their own
  \<open>EncodeRLP\<close> or \<open>DecodeRLP\<close> method are not in the model, nor is the cache of generated
  writers. The buffer is shown to produce the recursive encoding \<open>enc\<close> of the format.
\<close>

subsection \<open>Go types and values\<close>

datatype gtype =
    TRawValue
  | TBigInt
  | TUint nat
  | TBool
  | TString
  | TByteSlice
  | TByteArray nat
  | TSlice gtype
  | TArray nat gtype
  | TTail gtype
  | TStruct "gtype list"
  | TPtr gtype
  | TNilPtr kind gtype
  | TInterface

datatype gval =
    VBytes bytes
  | VUint uint64
  | VBool bool
  | VBigInt int
  | VList "gval list"
  | VNil
  | VPtr gval
  | VIface gtype gval

definition defaultNilKind :: "gtype \<Rightarrow> kind" where
  "defaultNilKind t =
    (case t of
       TUint _ \<Rightarrow> KString | TString \<Rightarrow> KString | TBool \<Rightarrow> KString
     | TByteSlice \<Rightarrow> KString | TByteArray _ \<Rightarrow> KString | TRawValue \<Rightarrow> KString
     | _ \<Rightarrow> KList)"

subsection \<open>The encoder buffer\<close>

record listhead =
  lh_offset :: nat
  lh_size :: int

record encbuf =
  str :: bytes
  lheads :: "listhead list"
  lhsize :: int

definition listhead_encode :: "listhead \<Rightarrow> bytes" where
  "listhead_encode head = puthead 0xC0 0xF7 (word_of_int (lh_size head))"

definition encbuf_reset :: encbuf where
  "encbuf_reset = \<lparr>str = [], lheads = [], lhsize = 0\<rparr>"

definition encbuf_append :: "bytes \<Rightarrow> encbuf \<Rightarrow> encbuf" where
  "encbuf_append b w = w\<lparr>str := str w @ b\<rparr>"

definition encodeStringHeader :: "nat \<Rightarrow> encbuf \<Rightarrow> encbuf" where
  "encodeStringHeader sz w =
    (if sz < 56 then encbuf_append [0x80 + word_of_nat sz] w
     else let sizesize = putint (word_of_nat sz)
          in encbuf_append ((0xB7 + word_of_nat (length sizesize)) # sizesize) w)"

definition encodeString :: "bytes \<Rightarrow> encbuf \<Rightarrow> encbuf" where
  "encodeString b w =
    (if length b = 1 \<and> b ! 0 \<le> 0x7F then encbuf_append [b ! 0] w
     else encbuf_append b (encodeStringHeader (length b) w))"

definition encodeUint :: "uint64 \<Rightarrow> encbuf \<Rightarrow> encbuf" where
  "encodeUint i w =
    (if i = 0 then encbuf_append [0x80] w
     else if i < 128 then encbuf_append [ucast i] w
     else let s = putint i
          in encbuf_append ((0x80 + word_of_nat (length s)) # s) w)"

definition encbuf_size :: "encbuf \<Rightarrow> int" where
  "encbuf_size w = int (length (str w)) + lhsize w"

text \<open>\<open>list\<close> returns the index of the header it opened; \<open>listEnd\<close> closes that header.\<close>

definition encbuf_list :: "encbuf \<Rightarrow> nat \<times> encbuf" where
  "encbuf_list w =
    (length (lheads w),
     w\<lparr>lheads := lheads w @ [\<lparr>lh_offset = length (str w), lh_size = lhsize w\<rparr>]\<rparr>)"

definition listEnd :: "nat \<Rightarrow> encbuf \<Rightarrow> encbuf" where
  "listEnd index w =
    (let lh = lheads w ! index;
         sz = encbuf_size w - int (lh_offset lh) - lh_size lh;
         w' = w\<lparr>lheads := (lheads w)[index := lh\<lparr>lh_size := sz\<rparr>]\<rparr>
     in if sz < 56 then w'\<lparr>lhsize := lhsize w' + 1\<rparr>
        else w'\<lparr>lhsize := lhsize w' + (1 + int (intsize (word_of_int sz)))\<rparr>)"

text \<open>
  \<open>toBytes\<close> allocates \<open>w.size()\<close> bytes and copies string pieces and headers into them;
  the loop keeps the output, the write position and the position in the string data.
\<close>

fun toBytes_loop :: "bytes \<Rightarrow> listhead list \<Rightarrow> bytes \<Rightarrow> nat \<Rightarrow> nat \<Rightarrow> bytes \<times> nat \<times> nat" where
  "toBytes_loop s [] out pos strpos = (out, pos, strpos)"
| "toBytes_loop s (head # heads) out pos strpos =
    (let piece = go_slice s strpos (lh_offset head);
         n = min (length out - pos) (length piece);
         out = go_copy_at pos piece out;
         pos = pos + n;
         strpos = strpos + n;
         e = listhead_encode head;
         out = go_copy_at pos e out
     in toBytes_loop s heads out (pos + length e) strpos)"

definition toBytes :: "encbuf \<Rightarrow> bytes" where
  "toBytes w =
    (let (out, pos, strpos) = toBytes_loop (str w) (lheads w) (replicate (nat (encbuf_size w)) 0) 0 0
     in go_copy_at pos (drop strpos (str w)) out)"

text \<open>\<open>toWriter\<close> writes the same pieces, one after the other, to a writer that takes them all.\<close>

fun toWriter_loop :: "bytes \<Rightarrow> listhead list \<Rightarrow> nat \<Rightarrow> bytes list \<times> nat" where
  "toWriter_loop s [] strpos = ([], strpos)"
| "toWriter_loop s (head # heads) strpos =
    (let (pieces, strpos') =
           (if strpos < lh_offset head
            then ([go_slice s strpos (lh_offset head)],
                  strpos + length (go_slice s strpos (lh_offset head)))
            else ([], strpos));
         (rest, strpos'') = toWriter_loop s heads strpos'
     in (pieces @ [listhead_encode head] @ rest, strpos''))"

definition toWriter :: "encbuf \<Rightarrow> bytes list" where
  "toWriter w =
    (let (pieces, strpos) = toWriter_loop (str w) (lheads w) 0
     in if strpos < length (str w) then pieces @ [drop strpos (str w)] else pieces)"

subsection \<open>Writers\<close>

text \<open>
  \<open>big.Int\<close>: \<open>BitLen\<close>, and \<open>Bits\<close> as the little-endian list of 64-bit words.
\<close>

fun big_bitlen :: "nat \<Rightarrow> nat" where
  "big_bitlen n = (if n = 0 then 0 else Suc (big_bitlen (n div 2)))"

declare big_bitlen.simps [simp del]

fun big_bits :: "nat \<Rightarrow> uint64 list" where
  "big_bits n = (if n = 0 then [] else word_of_nat n # big_bits (n div 18446744073709551616))"

declare big_bits.simps [simp del]

text \<open>
  \<open>writeBigInt\<close> fills a zeroed buffer from its end with the bytes of the words, lowest
  byte first, until the buffer is full. \<open>((bitlen + 7) & -8) >> 3\<close> rounds the bit length
  up to whole bytes.
\<close>

definition writeBigInt :: "int \<Rightarrow> encbuf \<Rightarrow> rlp_err + encbuf" where
  "writeBigInt i w =
    (if i < 0 then Inl ErrNegativeBigInt
     else let bitlen = big_bitlen (nat i)
          in if bitlen \<le> 64 then Inr (encodeUint (word_of_int i) w)
             else let length' = (bitlen + 7) div 8;
                      stream = concat (map (\<lambda>d. map (byte_at d) [0..<8]) (big_bits (nat i)));
                      buf = rev (take length' (stream @ replicate length' 0))
                  in Inr (encbuf_append buf (encodeStringHeader length' w)))"

definition writeBool :: "bool \<Rightarrow> encbuf \<Rightarrow> encbuf" where
  "writeBool b w = (if b then encbuf_append [0x01] w else encbuf_append [0x80] w)"

definition writeString :: "bytes \<Rightarrow> encbuf \<Rightarrow> encbuf" where
  "writeString s w =
    (if length s = 1 \<and> s ! 0 \<le> 0x7F then encbuf_append [s ! 0] w
     else encbuf_append s (encodeStringHeader (length s) w))"

definition writeByteArray :: "bytes \<Rightarrow> encbuf \<Rightarrow> encbuf" where
  "writeByteArray b w =
    (if length b = 0 then encbuf_append [0x80] w
     else if length b = 1 then
       (if b ! 0 \<le> 0x7F then encbuf_append [b ! 0] w else encbuf_append [0x81, b ! 0] w)
     else encbuf_append b (encodeStringHeader (length b) w))"

definition writeNilPtr :: "kind \<Rightarrow> encbuf \<Rightarrow> encbuf" where
  "writeNilPtr nilKind w =
    (if nilKind = KString then encbuf_append [0x80] w
     else let (lh, w) = encbuf_list w in listEnd lh w)"

fun writer :: "gtype \<Rightarrow> gval \<Rightarrow> encbuf \<Rightarrow> rlp_err + encbuf"
  and writeElems :: "gtype \<Rightarrow> gval list \<Rightarrow> encbuf \<Rightarrow> rlp_err + encbuf"
  and writeFields :: "gtype list \<Rightarrow> gval list \<Rightarrow> encbuf \<Rightarrow> rlp_err + encbuf"
where
  "writer TRawValue v w =
    (case v of VBytes b \<Rightarrow> Inr (encbuf_append b w) | _ \<Rightarrow> Inl ErrIllTyped)"
| "writer TBigInt v w =
    (case v of
       VNil \<Rightarrow> Inr (encbuf_append [0x80] w)
     | VBigInt i \<Rightarrow> writeBigInt i w
     | _ \<Rightarrow> Inl ErrIllTyped)"
| "writer (TPtr t) v w =
    (case v of
       VNil \<Rightarrow> Inr (writeNilPtr (defaultNilKind t) w)
     | VPtr v' \<Rightarrow> writer t v' w
     | _ \<Rightarrow> Inl ErrIllTyped)"
| "writer (TNilPtr nilKind t) v w =
    (case v of
       VNil \<Rightarrow> Inr (writeNilPtr nilKind w)
     | VPtr v' \<Rightarrow> writer t v' w
     | _ \<Rightarrow> Inl ErrIllTyped)"
| "writer (TUint bits) v w =
    (case v of VUint i \<Rightarrow> Inr (encodeUint i w) | _ \<Rightarrow> Inl ErrIllTyped)"
| "writer TBool v w =
    (case v of VBool b \<Rightarrow> Inr (writeBool b w) | _ \<Rightarrow> Inl ErrIllTyped)"
| "writer TString v w =
    (case v of VBytes s \<Rightarrow> Inr (writeString s w) | _ \<Rightarrow> Inl ErrIllTyped)"
| "writer TByteSlice v w =
    (case v of VBytes b \<Rightarrow> Inr (encodeString b w) | _ \<Rightarrow> Inl ErrIllTyped)"
| "writer (TByteArray n) v w =
    (case v of VBytes b \<Rightarrow> Inr (writeByteArray b w) | _ \<Rightarrow> Inl ErrIllTyped)"
| "writer (TSlice t) v w =
    (case v of
       VList vs \<Rightarrow>
         (let (lh, w) = encbuf_list w
          in case writeElems t vs w of Inl e \<Rightarrow> Inl e | Inr w \<Rightarrow> Inr (listEnd lh w))
     | _ \<Rightarrow> Inl ErrIllTyped)"
| "writer (TArray n t) v w =
    (case v of
       VList vs \<Rightarrow>
         (let (lh, w) = encbuf_list w
          in case writeElems t vs w of Inl e \<Rightarrow> Inl e | Inr w \<Rightarrow> Inr (listEnd lh w))
     | _ \<Rightarrow> Inl ErrIllTyped)"
| "writer (TTail t) v w =
    (case v of VList vs \<Rightarrow> writeElems t vs w | _ \<Rightarrow> Inl ErrIllTyped)"
| "writer (TStruct ts) v w =
    (case v of
       VList vs \<Rightarrow>
         (let (lh, w) = encbuf_list w
          in case writeFields ts vs w of Inl e \<Rightarrow> Inl e | Inr w \<Rightarrow> Inr (listEnd lh w))
     | _ \<Rightarrow> Inl ErrIllTyped)"
| "writer TInterface v w =
    (case v of
       VNil \<Rightarrow> Inr (encbuf_append [0xC0] w)
     | VIface t v' \<Rightarrow> writer t v' w
     | _ \<Rightarrow> Inl ErrIllTyped)"
| "writeElems t [] w = Inr w"
| "writeElems t (v # vs) w =
    (case writer t v w of Inl e \<Rightarrow> Inl e | Inr w \<Rightarrow> writeElems t vs w)"
| "writeFields [] vs w = (if vs = [] then Inr w else Inl ErrIllTyped)"
| "writeFields (t # ts) vs w =
    (case vs of
       [] \<Rightarrow> Inl ErrIllTyped
     | v # vs' \<Rightarrow>
         (case writer t v w of Inl e \<Rightarrow> Inl e | Inr w \<Rightarrow> writeFields ts vs' w))"

definition EncodeToBytes :: "gtype \<Rightarrow> gval \<Rightarrow> rlp_err + bytes" where
  "EncodeToBytes t v =
    (case writer t v encbuf_reset of Inl e \<Rightarrow> Inl e | Inr w \<Rightarrow> Inr (toBytes w))"

text \<open>
  \<open>Encode\<close> to a writer that is no encoder buffer and takes all the data: the pieces it
  is given.
\<close>

definition Encode :: "gtype \<Rightarrow> gval \<Rightarrow> rlp_err + bytes list" where
  "Encode t v =
    (case writer t v encbuf_reset of Inl e \<Rightarrow> Inl e | Inr w \<Rightarrow> Inr (toWriter w))"

subsection \<open>The format, recursively\<close>

definition rlp_empty :: "kind \<Rightarrow> bytes" where
  "rlp_empty k = (if k = KString then [0x80] else [0xC0])"

fun enc :: "gtype \<Rightarrow> gval \<Rightarrow> bytes"
  and encElems :: "gtype \<Rightarrow> gval list \<Rightarrow> bytes"
  and encFields :: "gtype list \<Rightarrow> gval list \<Rightarrow> bytes"
where
  "enc TRawValue v = (case v of VBytes b \<Rightarrow> b | _ \<Rightarrow> [])"
| "enc TBigInt v =
    (case v of VNil \<Rightarrow> [0x80] | VBigInt i \<Rightarrow> rlp_string (be_bytes (nat i)) | _ \<Rightarrow> [])"
| "enc (TPtr t) v =
    (case v of VNil \<Rightarrow> rlp_empty (defaultNilKind t) | VPtr v' \<Rightarrow> enc t v' | _ \<Rightarrow> [])"
| "enc (TNilPtr k t) v = (case v of VNil \<Rightarrow> rlp_empty k | VPtr v' \<Rightarrow> enc t v' | _ \<Rightarrow> [])"
| "enc (TUint bits) v = (case v of VUint i \<Rightarrow> rlp_string (be_bytes (unat i)) | _ \<Rightarrow> [])"
| "enc TBool v = (case v of VBool b \<Rightarrow> rlp_string (if b then [1] else []) | _ \<Rightarrow> [])"
| "enc TString v = (case v of VBytes b \<Rightarrow> rlp_string b | _ \<Rightarrow> [])"
| "enc TByteSlice v = (case v of VBytes b \<Rightarrow> rlp_string b | _ \<Rightarrow> [])"
| "enc (TByteArray n) v = (case v of VBytes b \<Rightarrow> rlp_string b | _ \<Rightarrow> [])"
| "enc (TSlice t) v = (case v of VList vs \<Rightarrow> rlp_list (encElems t vs) | _ \<Rightarrow> [])"
| "enc (TArray n t) v = (case v of VList vs \<Rightarrow> rlp_list (encElems t vs) | _ \<Rightarrow> [])"
| "enc (TTail t) v = (case v of VList vs \<Rightarrow> encElems t vs | _ \<Rightarrow> [])"
| "enc (TStruct ts) v = (case v of VList vs \<Rightarrow> rlp_list (encFields ts vs) | _ \<Rightarrow> [])"
| "enc TInterface v = (case v of VNil \<Rightarrow> [0xC0] | VIface t v' \<Rightarrow> enc t v' | _ \<Rightarrow> [])"
| "encElems t [] = []"
| "encElems t (v # vs) = enc t v @ encElems t vs"
| "encFields [] vs = []"
| "encFields (t # ts) vs = (case vs of [] \<Rightarrow> [] | v # vs' \<Rightarrow> enc t v @ encFields ts vs')"

text \<open>
  The values of a type that can be encoded: shapes and lengths as the Go type demands,
  integers in range, big integers not negative.
\<close>

fun encodable :: "gtype \<Rightarrow> gval \<Rightarrow> bool"
  and encodableElems :: "gtype \<Rightarrow> gval list \<Rightarrow> bool"
  and encodableFields :: "gtype list \<Rightarrow> gval list \<Rightarrow> bool"
where
  "encodable TRawValue v = (case v of VBytes b \<Rightarrow> True | _ \<Rightarrow> False)"
| "encodable TBigInt v = (case v of VNil \<Rightarrow> True | VBigInt i \<Rightarrow> 0 \<le> i | _ \<Rightarrow> False)"
| "encodable (TPtr t) v = (case v of VNil \<Rightarrow> True | VPtr v' \<Rightarrow> encodable t v' | _ \<Rightarrow> False)"
| "encodable (TNilPtr k t) v = (case v of VNil \<Rightarrow> True | VPtr v' \<Rightarrow> encodable t v' | _ \<Rightarrow> False)"
| "encodable (TUint bits) v = (case v of VUint i \<Rightarrow> unat i < 2 ^ bits | _ \<Rightarrow> False)"
| "encodable TBool v = (case v of VBool b \<Rightarrow> True | _ \<Rightarrow> False)"
| "encodable TString v = (case v of VBytes b \<Rightarrow> True | _ \<Rightarrow> False)"
| "encodable TByteSlice v = (case v of VBytes b \<Rightarrow> True | _ \<Rightarrow> False)"
| "encodable (TByteArray n) v = (case v of VBytes b \<Rightarrow> length b = n | _ \<Rightarrow> False)"
| "encodable (TSlice t) v = (case v of VList vs \<Rightarrow> encodableElems t vs | _ \<Rightarrow> False)"
| "encodable (TArray n t) v =
    (case v of VList vs \<Rightarrow> length vs = n \<and> encodableElems t vs | _ \<Rightarrow> False)"
| "encodable (TTail t) v = (case v of VList vs \<Rightarrow> encodableElems t vs | _ \<Rightarrow> False)"
| "encodable (TStruct ts) v = (case v of VList vs \<Rightarrow> encodableFields ts vs | _ \<Rightarrow> False)"
| "encodable TInterface v = (case v of VNil \<Rightarrow> True | VIface t v' \<Rightarrow> encodable t v' | _ \<Rightarrow> False)"
| "encodableElems t [] = True"
| "encodableElems t (v # vs) = (encodable t v \<and> encodableElems t vs)"
| "encodableFields [] vs = (vs = [])"
| "encodableFields (t # ts) vs =
    (case vs of [] \<Rightarrow> False | v # vs' \<Rightarrow> encodable t v \<and> encodableFields ts vs')"

subsection \<open>Leaf writers append the canonical string\<close>

lemma encbuf_append_append [simp]:
  "encbuf_append b (encbuf_append a w) = encbuf_append (a @ b) w"
  by (simp add: encbuf_append_def)

lemma encodeStringHeader_eq:
  "n < 18446744073709551616 \<Longrightarrow> encodeStringHeader n w = encbuf_append (rlp_head 0x80 0xB7 n) w"
proof -
  assume n: "n < 18446744073709551616"
  then have un: "unat (word_of_nat n :: uint64) = n" by (rule unat_word_of_nat_64)
  have "56 \<le> n \<Longrightarrow> (word_of_nat n :: uint64) \<noteq> 0" using un by auto
  with un show ?thesis
    by (auto simp: encodeStringHeader_def rlp_head_def putint_be_bytes Let_def)
qed

lemma byte_le_7F: "(b :: byte) \<le> 0x7F \<longleftrightarrow> b < 0x80"
  by (auto simp: word_le_nat_alt word_less_nat_alt)

lemma encodeString_eq:
  "length b < 18446744073709551616 \<Longrightarrow> encodeString b w = encbuf_append (rlp_string b) w"
  by (cases b) (auto simp: encodeString_def rlp_string_def encodeStringHeader_eq byte_le_7F)

lemma writeString_eq:
  "length b < 18446744073709551616 \<Longrightarrow> writeString b w = encbuf_append (rlp_string b) w"
  using encodeString_eq by (simp add: writeString_def encodeString_def)

lemma writeByteArray_eq:
  "length b < 18446744073709551616 \<Longrightarrow> writeByteArray b w = encbuf_append (rlp_string b) w"
  by (cases b)
    (auto simp: writeByteArray_def rlp_string_def encodeStringHeader_eq byte_le_7F rlp_head_def)

lemma encodeUint_eq: "encodeUint i w = encbuf_append (rlp_string (be_bytes (unat i))) w"
  by (simp add: encodeUint_def rlp_string_be_bytes putint_be_bytes word_less_nat_alt unat_eq_0 Let_def)

lemma writeBool_eq: "writeBool b w = encbuf_append (rlp_string (if b then [1] else [])) w"
  by (simp add: writeBool_def rlp_string_def rlp_head_def)

lemma big_bitlen_bounds: "0 < n \<Longrightarrow> 2 ^ (big_bitlen n - 1) \<le> n \<and> n < 2 ^ big_bitlen n \<and> 0 < big_bitlen n"
proof (induction n rule: big_bitlen.induct)
  case (1 n)
  show ?case
  proof (cases "n div 2 = 0")
    case True
    then have "n = 1" using "1.prems" by simp
    then show ?thesis by (simp add: big_bitlen.simps)
  next
    case False
    let ?k = "big_bitlen (n div 2)"
    have IH: "2 ^ (?k - 1) \<le> n div 2" "n div 2 < 2 ^ ?k" "0 < ?k"
      using 1 False by simp_all
    have k: "big_bitlen n = Suc ?k" using "1.prems" by (subst big_bitlen.simps) simp
    have "(2::nat) ^ ?k = 2 * 2 ^ (?k - 1)" using IH(3) by (cases ?k) simp_all
    then have "2 ^ ?k \<le> n" using IH(1) by linarith
    moreover have "n < 2 ^ Suc ?k" using IH(2) by simp
    ultimately show ?thesis using k by simp
  qed
qed

lemma big_bitlen_bytes: "0 < n \<Longrightarrow> (big_bitlen n + 7) div 8 = length (be_bytes n)"
proof -
  assume n: "0 < n"
  let ?k = "big_bitlen n" and ?L = "length (be_bytes n)"
  have L: "0 < ?L" using n by simp
  have lt: "n < 256 ^ ?L" using be_nat_bound [of "be_bytes n"] by simp
  have ge: "256 ^ (?L - 1) \<le> n"
  proof (rule ccontr)
    assume "\<not> 256 ^ (?L - 1) \<le> n"
    then have "?L \<le> ?L - 1" by (intro length_be_bytes_le) simp
    with L show False by linarith
  qed
  have p: "(256::nat) ^ m = 2 ^ (8 * m)" for m by (simp add: power_mult)
  note b = big_bitlen_bounds [OF n]
  have "(2::nat) ^ (?k - 1) < 2 ^ (8 * ?L)" using b lt unfolding p by (blast intro: le_less_trans)
  then have "?k - 1 < 8 * ?L" by simp
  moreover have "(2::nat) ^ (8 * (?L - 1)) < 2 ^ ?k"
    using b ge by (metis le_less_trans p)
  then have "8 * (?L - 1) < ?k" by simp
  ultimately show ?thesis using L b by (simp; presburger)
qed

lemma length_be_fix [simp]: "length (be_fix i n) = n"
  by (simp add: be_fix_def)

lemma be_bytes_words:
  assumes "0 < m" and "r < 18446744073709551616"
  shows "be_bytes (m * 18446744073709551616 + r) = be_bytes m @ be_fix (word_of_nat r) 8"
proof -
  have "be_nat (be_bytes m @ be_fix (word_of_nat r) 8) = m * 18446744073709551616 + r"
    using assms by (simp add: be_nat_append be_nat_be_fix unat_word_of_nat_64)
  moreover have "hd (be_bytes m @ be_fix (word_of_nat r) 8) \<noteq> 0"
    using assms(1) be_bytes_hd [of m] by (cases "be_bytes m") auto
  ultimately show ?thesis using be_bytes_be_nat by metis
qed

lemma take_word_bytes:
  assumes "n < 18446744073709551616"
  shows "take (length (be_bytes n)) (map (byte_at (word_of_nat n)) [0..<8]) = rev (be_bytes n)"
proof (cases "n = 0")
  case False
  let ?k = "length (be_bytes n)"
  have k: "0 < ?k" "?k \<le> 8" using False length_be_bytes_64 [OF assms] by auto
  then obtain j where j: "?k = Suc j" by (cases ?k) auto
  have un: "unat (word_of_nat n :: uint64) = n" using assms by (rule unat_word_of_nat_64)
  have "n < 256 ^ Suc j" using be_nat_bound [of "be_bytes n"] j by simp
  moreover have "256 ^ j \<le> n"
  proof (rule ccontr)
    assume "\<not> 256 ^ j \<le> n"
    then have "?k \<le> j" by (intro length_be_bytes_le) simp
    with j show False by simp
  qed
  ultimately have "be_fix (word_of_nat n) ?k = be_bytes n"
    using be_fix_be_bytes [of j "word_of_nat n"] un j by simp
  then have "rev (be_bytes n) = map (byte_at (word_of_nat n)) [0..<?k]"
    by (metis be_fix_def rev_map rev_rev_ident)
  then show ?thesis using k by (simp add: take_map)
qed simp

lemma take_big_bits:
  "take (length (be_bytes n)) (concat (map (\<lambda>d. map (byte_at d) [0..<8]) (big_bits n)) @ r) =
     rev (be_bytes n)"
proof (induction n arbitrary: r rule: big_bits.induct)
  case (1 n)
  let ?le = "\<lambda>d. map (byte_at d) [0..<8]" and ?m = "n div 18446744073709551616"
    and ?r = "n mod 18446744073709551616"
  show ?case
  proof (cases "n = 0")
    case False
    have w: "(word_of_nat n :: uint64) = word_of_nat ?r"
      by (simp add: word_unat_eq_iff unat_of_nat)
    have s: "concat (map ?le (big_bits n)) @ r = ?le (word_of_nat ?r) @ concat (map ?le (big_bits ?m)) @ r"
      using False by (subst big_bits.simps) (simp add: w)
    show ?thesis
    proof (cases "?m = 0")
      case True
      then have "n < 18446744073709551616" by (simp add: div_eq_0_iff)
      then show ?thesis
        unfolding s using take_word_bytes [of n] length_be_bytes_64 [of n] by simp
    next
      case m: False
      have n: "n = ?m * 18446744073709551616 + ?r" by simp
      have bn: "be_bytes n = be_bytes ?m @ be_fix (word_of_nat ?r) 8"
        using m by (subst n, intro be_bytes_words) simp_all
      have "rev (be_fix (word_of_nat ?r) 8) = ?le (word_of_nat ?r)"
        by (simp add: be_fix_def rev_map)
      then show ?thesis
        unfolding s using bn "1.IH" [OF False, of r] by simp
    qed
  qed simp
qed

lemma writeBigInt_eq:
  assumes "0 \<le> i" and "length (be_bytes (nat i)) < 18446744073709551616"
  shows "writeBigInt i w = Inr (encbuf_append (rlp_string (be_bytes (nat i))) w)"
proof (cases "big_bitlen (nat i) \<le> 64")
  case True
  have "nat i < 18446744073709551616"
  proof (cases "nat i = 0")
    case False
    then have "nat i < 2 ^ big_bitlen (nat i)" using big_bitlen_bounds [of "nat i"] by blast
    also have "\<dots> \<le> 2 ^ 64" using True by (intro power_increasing) simp_all
    finally show ?thesis by simp
  qed simp
  moreover have "(word_of_int i :: uint64) = word_of_nat (nat i)" using assms(1) by simp
  ultimately have "unat (word_of_int i :: uint64) = nat i" by (simp only: unat_word_of_nat_64)
  with True assms show ?thesis by (simp add: writeBigInt_def encodeUint_eq Let_def)
next
  case False
  then have pos: "0 < nat i" by (cases "nat i") (simp_all add: big_bitlen.simps)
  note l = big_bitlen_bytes [OF pos]
  have "1 < length (be_bytes (nat i))" using False l by simp
  then have "rlp_string (be_bytes (nat i)) =
      rlp_head 0x80 0xB7 (length (be_bytes (nat i))) @ be_bytes (nat i)"
    by (simp add: rlp_string_def)
  with False assms l show ?thesis
    by (simp add: writeBigInt_def encodeStringHeader_eq take_big_bits Let_def del: take_append)
qed

subsection \<open>Joining string data and headers\<close>

text \<open>
  \<open>render\<close> joins string data and headers from a position of the string data on;
  \<open>heads_ok\<close> says that the headers are in order and within the data.
\<close>

fun render :: "nat \<Rightarrow> bytes \<Rightarrow> listhead list \<Rightarrow> bytes" where
  "render pos s [] = drop pos s"
| "render pos s (h # hs) =
    go_slice s pos (lh_offset h) @ listhead_encode h @ render (lh_offset h) s hs"

fun heads_ok :: "nat \<Rightarrow> nat \<Rightarrow> listhead list \<Rightarrow> bool" where
  "heads_ok pos n [] = (pos \<le> n)"
| "heads_ok pos n (h # hs) = (pos \<le> lh_offset h \<and> lh_offset h \<le> n \<and> heads_ok (lh_offset h) n hs)"

definition heads_size :: "listhead list \<Rightarrow> nat" where
  "heads_size hs = sum_list (map (\<lambda>h. length (listhead_encode h)) hs)"

definition shift_head :: "nat \<Rightarrow> listhead \<Rightarrow> listhead" where
  "shift_head n h = h\<lparr>lh_offset := n + lh_offset h\<rparr>"

lemma shift_head_simps [simp]:
  "lh_offset (shift_head n h) = n + lh_offset h"
  "listhead_encode (shift_head n h) = listhead_encode h"
  by (simp_all add: shift_head_def listhead_encode_def)

lemma heads_size_simps [simp]:
  "heads_size [] = 0"
  "heads_size (h # hs) = length (listhead_encode h) + heads_size hs"
  "heads_size (hs @ hs') = heads_size hs + heads_size hs'"
  "heads_size (map (shift_head n) hs) = heads_size hs"
  by (simp_all add: heads_size_def comp_def)

lemma heads_ok_le: "heads_ok pos n hs \<Longrightarrow> pos \<le> n"
  by (cases hs) auto

lemma length_render:
  "heads_ok pos (length s) hs \<Longrightarrow> length (render pos s hs) = length s - pos + heads_size hs"
  by (induction hs arbitrary: pos) (auto simp: go_slice_def min_def)

lemma render_shift:
  "render (length a + pos) (a @ s) (map (shift_head (length a)) hs) = render pos s hs"
  by (induction hs arbitrary: pos) (simp_all add: go_slice_def)

lemma render_append:
  assumes "heads_ok pos (length a) hs" and "heads_ok 0 (length s) hs'"
  shows "render pos (a @ s) (hs @ map (shift_head (length a)) hs') = render pos a hs @ render 0 s hs'"
  using assms(1)
proof (induction hs arbitrary: pos)
  case Nil
  then show ?case
    using render_shift [of a _ s] by (cases hs') (simp_all add: go_slice_def)
next
  case (Cons h hs)
  then show ?case by (simp add: go_slice_def)
qed

lemma heads_ok_append:
  "heads_ok pos n hs \<Longrightarrow> heads_ok 0 k hs' \<Longrightarrow> heads_ok pos (n + k) (hs @ map (shift_head n) hs')"
proof (induction hs arbitrary: pos)
  case Nil
  have "heads_ok p k hs' \<Longrightarrow> heads_ok (n + p) (n + k) (map (shift_head n) hs')" for p
    by (induction hs' arbitrary: p) simp_all
  from this [of 0] have "heads_ok n (n + k) (map (shift_head n) hs')" using Nil by simp
  with Nil show ?case by (cases hs') simp_all
qed simp

lemma toBytes_loop_render:
  assumes "heads_ok strpos (length s) heads"
    and "pos + length (render strpos s heads) \<le> length out"
    and "toBytes_loop s heads out pos strpos = (out', pos', strpos')"
  shows "go_copy_at pos' (drop strpos' s) out' =
    take pos out @ render strpos s heads @ drop (pos + length (render strpos s heads)) out"
  using assms
proof (induction heads arbitrary: out pos strpos)
  case Nil
  then show ?case by (simp add: go_copy_at_def)
next
  case (Cons h hs)
  let ?piece = "go_slice s strpos (lh_offset h)" and ?e = "listhead_encode h"
  let ?out1 = "go_copy_at pos ?piece out"
  let ?out2 = "go_copy_at (pos + length ?piece) ?e ?out1"
  have lp: "length ?piece = lh_offset h - strpos" and off: "strpos + length ?piece = lh_offset h"
    using Cons.prems(1) by (auto simp: go_slice_def)
  have len: "pos + length ?piece + length ?e + length (render (lh_offset h) s hs) \<le> length out"
    using Cons.prems(2) by simp
  then have mn: "min (length out - pos) (length ?piece) = length ?piece" by simp
  have o2: "?out2 = take pos out @ ?piece @ ?e @ drop (pos + length ?piece + length ?e) out"
    using len by (simp add: go_copy_at_def ac_simps)
  have "toBytes_loop s hs ?out2 (pos + length ?piece + length ?e) (lh_offset h) = (out', pos', strpos')"
    using Cons.prems(3) by (simp add: mn off Let_def)
  moreover have "length ?out2 = length out" using len by (simp add: o2)
  ultimately have "go_copy_at pos' (drop strpos' s) out' =
      take (pos + length ?piece + length ?e) ?out2 @ render (lh_offset h) s hs @
      drop (pos + length ?piece + length ?e + length (render (lh_offset h) s hs)) ?out2"
    using Cons.prems(1) len by (intro Cons.IH) simp_all
  also have "take (pos + length ?piece + length ?e) ?out2 = take pos out @ ?piece @ ?e"
    using len by (simp add: o2)
  also have "drop (pos + length ?piece + length ?e + length (render (lh_offset h) s hs)) ?out2 =
      drop (pos + length ?piece + length ?e + length (render (lh_offset h) s hs)) out"
    using len by (simp add: o2 ac_simps)
  finally show ?case by (simp add: add.assoc)
qed

lemma toWriter_loop_render:
  assumes "heads_ok strpos (length s) heads" and "toWriter_loop s heads strpos = (pieces, strpos')"
  shows "concat pieces @ drop strpos' s = render strpos s heads"
  using assms
proof (induction heads arbitrary: strpos pieces)
  case (Cons h hs)
  have n: "strpos + length (go_slice s strpos (lh_offset h)) = lh_offset h" "strpos \<le> lh_offset h"
    using Cons.prems(1) by (auto simp: go_slice_def)
  obtain rest where r: "toWriter_loop s hs (lh_offset h) = (rest, strpos')"
    and p: "pieces = (if strpos < lh_offset h then [go_slice s strpos (lh_offset h)] else []) @
      [listhead_encode h] @ rest"
    using Cons.prems(2) n
    by (cases "strpos = lh_offset h") (auto simp: Let_def split: prod.splits if_splits)
  have "concat rest @ drop strpos' s = render (lh_offset h) s hs"
    using Cons.IH [OF _ r] Cons.prems(1) by simp
  with p show ?case by (simp add: go_slice_def)
qed simp

subsection \<open>What the writers add to the buffer\<close>

text \<open>
  \<open>appends w bs w'\<close>: \<open>w'\<close> is \<open>w\<close> with further string data and headers that render to
  \<open>bs\<close>, and the header sizes it accounts for are those of the headers.
\<close>

definition appends :: "encbuf \<Rightarrow> bytes \<Rightarrow> encbuf \<Rightarrow> bool" where
  "appends w bs w' \<longleftrightarrow>
    (\<exists>ss hs. w' = w\<lparr>str := str w @ ss, lheads := lheads w @ map (shift_head (length (str w))) hs,
         lhsize := lhsize w + int (heads_size hs)\<rparr> \<and>
       heads_ok 0 (length ss) hs \<and> render 0 ss hs = bs)"

lemma appends_append: "appends w b (encbuf_append b w)"
  unfolding appends_def
  by (rule exI [of _ b], rule exI [of _ "[]"]) (simp add: encbuf_append_def)

lemma appends_refl: "appends w [] w"
  unfolding appends_def by (rule exI [of _ "[]"], rule exI [of _ "[]"]) simp

lemma shift_head_shift_head: "shift_head a (shift_head b h) = shift_head (a + b) h"
  by (simp add: shift_head_def)

lemma appends_trans:
  assumes "appends w a w'" and "appends w' b w''"
  shows "appends w (a @ b) w''"
proof -
  obtain ss hs where 1: "w' = w\<lparr>str := str w @ ss, lheads := lheads w @ map (shift_head (length (str w))) hs,
      lhsize := lhsize w + int (heads_size hs)\<rparr>" "heads_ok 0 (length ss) hs" "render 0 ss hs = a"
    using assms(1) by (auto simp: appends_def)
  obtain ss' hs' where 2: "w'' = w'\<lparr>str := str w' @ ss', lheads := lheads w' @ map (shift_head (length (str w'))) hs',
      lhsize := lhsize w' + int (heads_size hs')\<rparr>" "heads_ok 0 (length ss') hs'" "render 0 ss' hs' = b"
    using assms(2) by (auto simp: appends_def)
  let ?hs = "hs @ map (shift_head (length ss)) hs'"
  have "w'' = w\<lparr>str := str w @ ss @ ss', lheads := lheads w @ map (shift_head (length (str w))) ?hs,
      lhsize := lhsize w + int (heads_size ?hs)\<rparr>"
    by (simp add: 1(1) 2(1) shift_head_shift_head)
  moreover have "heads_ok 0 (length (ss @ ss')) ?hs"
    using heads_ok_append [OF 1(2) 2(2)] by simp
  moreover have "render 0 (ss @ ss') ?hs = a @ b"
    using render_append [OF 1(2) 2(2)] 1(3) 2(3) by simp
  ultimately show ?thesis unfolding appends_def by blast
qed

lemma appends_list:
  assumes l: "encbuf_list w = (lh, w1)" and a: "appends w1 bs w2"
    and bound: "length bs < 18446744073709551616"
  shows "appends w (rlp_list bs) (listEnd lh w2)"
proof -
  obtain ss hs where 1: "w2 = w1\<lparr>str := str w1 @ ss, lheads := lheads w1 @ map (shift_head (length (str w1))) hs,
      lhsize := lhsize w1 + int (heads_size hs)\<rparr>" "heads_ok 0 (length ss) hs" "render 0 ss hs = bs"
    using a by (auto simp: appends_def)
  have len: "length bs = length ss + heads_size hs" using length_render [OF 1(2)] 1(3) by simp
  let ?h = "\<lparr>lh_offset = 0, lh_size = int (length bs)\<rparr>"
  have e: "listhead_encode ?h = rlp_head 0xC0 0xF7 (length bs)"
    using bound by (simp add: listhead_encode_def puthead_rlp_head)
  have hl: "length (listhead_encode ?h) =
      (if length bs < 56 then 1 else 1 + intsize (word_of_nat (length bs)))"
    using headsize_rlp_head [OF bound, of "0xC0" "0xF7"] unat_word_of_nat_64 [OF bound]
    by (simp add: e headsize_def word_less_nat_alt)
  have sz: "encbuf_size w2 - int (length (str w)) - lhsize w = int (length bs)"
    using l by (auto simp: 1(1) encbuf_size_def encbuf_list_def len)
  have nth: "lheads w2 ! lh = \<lparr>lh_offset = length (str w), lh_size = lhsize w\<rparr>"
    using l by (auto simp: 1(1) encbuf_list_def nth_append)
  have "listEnd lh w2 = w2\<lparr>
      lheads := (lheads w2)[lh := \<lparr>lh_offset = length (str w), lh_size = int (length bs)\<rparr>],
      lhsize := lhsize w2 + int (length (listhead_encode ?h))\<rparr>"
    unfolding hl listEnd_def Let_def by (simp add: nth sz)
  also have "\<dots> = w\<lparr>str := str w @ ss,
      lheads := lheads w @ map (shift_head (length (str w))) (?h # hs),
      lhsize := lhsize w + int (heads_size (?h # hs))\<rparr>"
    using l by (auto simp: 1(1) encbuf_list_def shift_head_def)
  finally have "listEnd lh w2 = w\<lparr>str := str w @ ss,
      lheads := lheads w @ map (shift_head (length (str w))) (?h # hs),
      lhsize := lhsize w + int (heads_size (?h # hs))\<rparr>" .
  moreover have "heads_ok 0 (length ss) (?h # hs)" using 1(2) by simp
  moreover have "render 0 ss (?h # hs) = rlp_list bs"
    using 1(3) by (simp add: go_slice_def e rlp_list_def)
  ultimately show ?thesis unfolding appends_def by blast
qed

lemma appends_reset:
  assumes "appends encbuf_reset bs w"
  shows "toBytes w = bs" and "concat (toWriter w) = bs"
proof -
  obtain ss hs where w: "str w = ss" "lheads w = map (shift_head 0) hs" "lhsize w = int (heads_size hs)"
    and ok: "heads_ok 0 (length ss) hs" and r: "render 0 ss hs = bs"
    using assms by (auto simp: appends_def encbuf_reset_def)
  have id: "map (shift_head 0) hs = hs" by (induction hs) (simp_all add: shift_head_def)
  have "nat (encbuf_size w) = length bs"
    using length_render [OF ok] r by (simp add: encbuf_size_def w nat_add_distrib)
  moreover obtain out' pos' strpos' where
    l: "toBytes_loop ss hs (replicate (length bs) 0) 0 0 = (out', pos', strpos')"
    by (cases "toBytes_loop ss hs (replicate (length bs) 0) 0 0") auto
  ultimately show "toBytes w = bs"
    using toBytes_loop_render [OF ok _ l] r by (simp add: toBytes_def w id)
  obtain pieces sp where "toWriter_loop ss hs 0 = (pieces, sp)" by (cases "toWriter_loop ss hs 0")
  with toWriter_loop_render [OF ok this] r show "concat (toWriter w) = bs"
    by (auto simp: toWriter_def w id)
qed

lemma appends_size:
  assumes "appends encbuf_reset bs w"
  shows "encbuf_size w = int (length bs)"
  using assms length_render by (auto simp: appends_def encbuf_reset_def encbuf_size_def)

lemma rlp_string_length_le: "length b \<le> length (rlp_string b)"
  by (simp add: rlp_string_def)

lemma rlp_string_bound: "length (rlp_string b) < n \<Longrightarrow> length b < n"
  using rlp_string_length_le [of b] by linarith

lemma rlp_list_length_le: "length b \<le> length (rlp_list b)"
  by (simp add: rlp_list_def)

lemma writeNilPtr_appends: "appends w (rlp_empty k) (writeNilPtr k w)"
proof (cases "k = KString")
  case True
  then show ?thesis using appends_append by (simp add: writeNilPtr_def rlp_empty_def)
next
  case False
  obtain lh w1 where l: "encbuf_list w = (lh, w1)" by (cases "encbuf_list w")
  have "rlp_list [] = [0xC0]" by (simp add: rlp_list_def rlp_head_def)
  with False l appends_list [OF l appends_refl] show ?thesis
    by (simp add: writeNilPtr_def rlp_empty_def)
qed

lemma writer_appends:
  "encodable t v \<Longrightarrow> length (enc t v) < 18446744073709551616 \<Longrightarrow>
    \<exists>w'. writer t v w = Inr w' \<and> appends w (enc t v) w'"
  "encodableElems t vs \<Longrightarrow> length (encElems t vs) < 18446744073709551616 \<Longrightarrow>
    \<exists>w'. writeElems t vs w = Inr w' \<and> appends w (encElems t vs) w'"
  "encodableFields ts vs \<Longrightarrow> length (encFields ts vs) < 18446744073709551616 \<Longrightarrow>
    \<exists>w'. writeFields ts vs w = Inr w' \<and> appends w (encFields ts vs) w'"
proof (induction t v w and t vs w and ts vs w rule: writer_writeElems_writeFields.induct)
  case (1 v w)
  then show ?case by (auto simp: appends_append split: gval.splits)
next
  case (2 v w)
  have "writeBigInt i w = Inr (encbuf_append (rlp_string (be_bytes (nat i))) w)" if "v = VBigInt i" for i
    using 2 that rlp_string_length_le [of "be_bytes (nat i)"] by (intro writeBigInt_eq) auto
  with 2 show ?case by (auto simp: appends_append split: gval.splits)
next
  case (3 t v w)
  then show ?case by (auto simp: writeNilPtr_appends split: gval.splits)
next
  case (4 nilKind t v w)
  then show ?case by (auto simp: writeNilPtr_appends split: gval.splits)
next
  case (5 bits v w)
  then show ?case by (auto simp: encodeUint_eq appends_append split: gval.splits)
next
  case (6 v w)
  then show ?case by (auto simp: writeBool_eq appends_append split: gval.splits)
next
  case (7 v w)
  then show ?case
    by (auto simp: writeString_eq appends_append dest: rlp_string_bound split: gval.splits)
next
  case (8 v w)
  then show ?case
    by (auto simp: encodeString_eq appends_append dest: rlp_string_bound split: gval.splits)
next
  case (9 n v w)
  then show ?case
    by (auto simp: writeByteArray_eq appends_append dest: rlp_string_bound split: gval.splits)
next
  case (10 t v w)
  then obtain vs where v: "v = VList vs" by (auto split: gval.splits)
  obtain lh w1 where l: "encbuf_list w = (lh, w1)" by (cases "encbuf_list w")
  have b: "length (encElems t vs) < 18446744073709551616"
    using "10.prems" v rlp_list_length_le le_less_trans by fastforce
  then obtain w2 where "writeElems t vs w1 = Inr w2" "appends w1 (encElems t vs) w2"
    using "10.IH" [OF v l [symmetric] refl] "10.prems" v by auto
  then show ?case using appends_list [OF l _ b] v l by simp
next
  case (11 n t v w)
  then obtain vs where v: "v = VList vs" by (auto split: gval.splits)
  obtain lh w1 where l: "encbuf_list w = (lh, w1)" by (cases "encbuf_list w")
  have b: "length (encElems t vs) < 18446744073709551616"
    using "11.prems" v rlp_list_length_le le_less_trans by fastforce
  then obtain w2 where "writeElems t vs w1 = Inr w2" "appends w1 (encElems t vs) w2"
    using "11.IH" [OF v l [symmetric] refl] "11.prems" v by auto
  then show ?case using appends_list [OF l _ b] v l by simp
next
  case (12 t v w)
  then show ?case by (auto split: gval.splits)
next
  case (13 ts v w)
  then obtain vs where v: "v = VList vs" by (auto split: gval.splits)
  obtain lh w1 where l: "encbuf_list w = (lh, w1)" by (cases "encbuf_list w")
  have b: "length (encFields ts vs) < 18446744073709551616"
    using "13.prems" v rlp_list_length_le le_less_trans by fastforce
  then obtain w2 where "writeFields ts vs w1 = Inr w2" "appends w1 (encFields ts vs) w2"
    using "13.IH" [OF v l [symmetric] refl] "13.prems" v by auto
  then show ?case using appends_list [OF l _ b] v l by simp
next
  case (14 v w)
  then show ?case by (auto simp: appends_append split: gval.splits)
next
  case (15 t w)
  then show ?case by (simp add: appends_refl)
next
  case (16 t v vs w)
  then show ?case by auto (rule appends_trans)
next
  case (17 vs w)
  then show ?case by (simp add: appends_refl)
next
  case (18 t ts vs w)
  then obtain v vs' where v: "vs = v # vs'" by (auto split: list.splits)
  then obtain w1 where w1: "writer t v w = Inr w1" "appends w (enc t v) w1"
    using "18.IH"(1) [OF v] "18.prems" by auto
  then obtain w2 where "writeFields ts vs' w1 = Inr w2" "appends w1 (encFields ts vs') w2"
    using "18.IH"(2) [OF v] "18.prems" v by auto
  then show ?case using w1 appends_trans v by auto
qed

lemma Encode_enc:
  assumes "encodable t v" "length (enc t v) < 18446744073709551616"
  shows "\<exists>ps. Encode t v = Inr ps \<and> concat ps = enc t v"
proof -
  obtain w where "writer t v encbuf_reset = Inr w" "appends encbuf_reset (enc t v) w"
    using writer_appends(1) [OF assms] by blast
  then show ?thesis using appends_reset(2) by (auto simp: Encode_def)
qed

subsection \<open>Correctness of the encoder\<close>

lemma EncodeToBytes_enc:
  assumes "encodable t v" and "length (enc t v) < 2 ^ 63"
  shows "EncodeToBytes t v = Inr (enc t v)"
proof -
  have "length (enc t v) < 18446744073709551616" using assms(2) by simp
  then obtain w where "writer t v encbuf_reset = Inr w" "appends encbuf_reset (enc t v) w"
    using writer_appends(1) [OF assms(1)] by blast
  then show ?thesis using appends_reset(1) by (simp add: EncodeToBytes_def)
qed

text \<open>
  C17. For every value of every Go type, \<open>EncodeToBytes\<close> succeeds and returns exactly the
  recursive RLP encoding of the value: the separate bookkeeping of string data, list
  header positions and header sizes in the encoder buffer, and their join in \<open>toBytes\<close>,
  produce the format. The bound is the range of Go's \<open>int\<close>.
\<close>

theorem encode_correct:
  assumes "encodable t v" and "length (enc t v) < 2 ^ 63"
  shows "EncodeToBytes t v = Inr (enc t v)"
  by (rule EncodeToBytes_enc [OF assms])

theorem encode_correct_witness:
  "EncodeToBytes (TStruct [TUint 64, TSlice TByteSlice, TPtr TString])
     (VList [VUint 1024, VList [VBytes [0x7F], VBytes [0x80, 0x81]], VNil]) =
   Inr [0xC9, 0x82, 0x04, 0x00, 0xC4, 0x7F, 0x82, 0x80, 0x81, 0x80]"
proof -
  let ?t = "TStruct [TUint 64, TSlice TByteSlice, TPtr TString]"
  let ?v = "VList [VUint 1024, VList [VBytes [0x7F], VBytes [0x80, 0x81]], VNil]"
  have "enc ?t ?v = [0xC9, 0x82, 0x04, 0x00, 0xC4, 0x7F, 0x82, 0x80, 0x81, 0x80]"
    by (simp add: rlp_string_def rlp_list_def rlp_head_def rlp_empty_def defaultNilKind_def be_bytes.simps)
  then show ?thesis using encode_correct [of ?t ?v] by simp
qed

text \<open>
  Writing the buffer to an \<open>io.Writer\<close> piece by piece (\<open>Encode\<close>) emits the same bytes
  as joining it in one slice (\<open>EncodeToBytes\<close>), for every value that can be encoded, and
  the size the buffer keeps is their number.
\<close>

theorem toWriter_toBytes:
  assumes "encodable t v" and "length (enc t v) < 2 ^ 63"
  shows "\<exists>w. writer t v encbuf_reset = Inr w \<and> concat (toWriter w) = toBytes w \<and>
    encbuf_size w = int (length (toBytes w))"
proof -
  have "length (enc t v) < 18446744073709551616" using assms(2) by simp
  then obtain w where w: "writer t v encbuf_reset = Inr w" "appends encbuf_reset (enc t v) w"
    using writer_appends(1) [OF assms(1)] by blast
  then show ?thesis using appends_reset [OF w(2)] appends_size [OF w(2)] by auto
qed

theorem toWriter_toBytes_witness:
  "\<exists>w. writer (TSlice TBool) (VList [VBool True]) encbuf_reset = Inr w \<and>
    concat (toWriter w) = toBytes w \<and> encbuf_size w = int (length (toBytes w))"
  using toWriter_toBytes [of "TSlice TBool" "VList [VBool True]"]
  by (simp add: rlp_string_def rlp_list_def rlp_head_def)

end
