(* ===== verification/Rlp_Stream.thy ===== *)
theory Rlp_Stream
  imports Rlp_Encode
begin

section \<open>The RLP stream\<close>

text \<open>
  The \<open>Stream\<close> of \<open>src/rlp/decode.go\<close>: piecemeal reading of RLP values from a byte
  reader, with an input limit and a stack of enclosing lists. The reader is a
  \<open>bytes.Reader\<close>, that is, the bytes not read yet. Every operation returns its result
  and the stream it leaves, on errors too. Operations that start at a fresh position are
  characterised by the bytes they consume (\<open>moved\<close>).
\<close>

subsection \<open>State\<close>

text \<open>
  \<open>s_kind = None\<close> is the code's \<open>s.kind = -1\<close>. The top of the stack of enclosing lists
  is the head of \<open>s_stack\<close>.
\<close>

record listpos =
  lp_pos :: uint64
  lp_size :: uint64

record stream =
  s_r :: bytes
  s_remaining :: uint64
  s_limited :: bool
  s_kind :: "kind option"
  s_size :: uint64
  s_byteval :: byte
  s_kinderr :: "rlp_err option"
  s_stack :: "listpos list"

type_synonym 'a sresult = "(rlp_err + 'a) \<times> stream"

text \<open>
  \<open>Reset\<close>: the limit is the given one, or the length of the reader's data when the
  reader is a byte or string reader (\<open>sized\<close>).
\<close>

definition stream_Reset :: "bytes \<Rightarrow> bool \<Rightarrow> uint64 \<Rightarrow> stream" where
  "stream_Reset r sized inputLimit =
    \<lparr>s_r = r,
     s_remaining =
       (if 0 < inputLimit then inputLimit else if sized then word_of_nat (length r) else 0),
     s_limited = (0 < inputLimit \<or> sized),
     s_kind = None, s_size = 0, s_byteval = 0, s_kinderr = None, s_stack = []\<rparr>"

definition NewListStream :: "bytes \<Rightarrow> bool \<Rightarrow> uint64 \<Rightarrow> stream" where
  "NewListStream r sized len = (stream_Reset r sized len)\<lparr>s_kind := Some KList, s_size := len\<rparr>"

subsection \<open>Reading bytes\<close>

definition limitRead :: "uint64 \<Rightarrow> stream \<Rightarrow> unit sresult" where
  "limitRead n s =
    (if s_limited s then
       (if s_remaining s < n then (Inl ErrValueTooLarge, s)
        else (Inr (), s\<lparr>s_remaining := s_remaining s - n\<rparr>))
     else (Inr (), s))"

definition willRead :: "uint64 \<Rightarrow> stream \<Rightarrow> unit sresult" where
  "willRead n s =
    (let s = s\<lparr>s_kind := None\<rparr>
     in case s_stack s of
          [] \<Rightarrow> limitRead n s
        | tos # rest \<Rightarrow>
            if lp_size tos - lp_pos tos < n then (Inl ErrElemTooLarge, s)
            else limitRead n (s\<lparr>s_stack := tos\<lparr>lp_pos := lp_pos tos + n\<rparr> # rest\<rparr>))"

definition stream_readByte :: "stream \<Rightarrow> byte sresult" where
  "stream_readByte s =
    (case willRead 1 s of
       (Inl e, s) \<Rightarrow> (Inl e, s)
     | (Inr _, s) \<Rightarrow>
         (case s_r s of
            [] \<Rightarrow> (Inl ErrUnexpectedEOF, s)
          | b # r \<Rightarrow> (Inr b, s\<lparr>s_r := r\<rparr>)))"

text \<open>\<open>readFull\<close> fills a buffer of \<open>n\<close> bytes; at the end of the data it has read what was left.\<close>

definition stream_readFull :: "nat \<Rightarrow> stream \<Rightarrow> bytes sresult" where
  "stream_readFull n s =
    (case willRead (word_of_nat n) s of
       (Inl e, s) \<Rightarrow> (Inl e, s)
     | (Inr _, s) \<Rightarrow>
         (if length (s_r s) < n then (Inl ErrUnexpectedEOF, s\<lparr>s_r := []\<rparr>)
          else (Inr (take n (s_r s)), s\<lparr>s_r := drop n (s_r s)\<rparr>)))"

definition stream_readUint :: "byte \<Rightarrow> stream \<Rightarrow> uint64 sresult" where
  "stream_readUint sz s =
    (if sz = 0 then (Inr 0, s\<lparr>s_kind := None\<rparr>)
     else if sz = 1 then
       (case stream_readByte s of (Inl e, s) \<Rightarrow> (Inl e, s) | (Inr b, s) \<Rightarrow> (Inr (ucast b), s))
     else
       (case stream_readFull (unat sz) s of
          (Inl e, s) \<Rightarrow> (Inl e, s)
        | (Inr buf, s) \<Rightarrow>
            (if buf ! 0 = 0 then (Inl ErrCanonSize, s)
             else (Inr (word_of_nat (be_nat buf)), s))))"

subsection \<open>Kind\<close>

text \<open>
  \<open>readKind\<close> returns a kind and a size also with an error; both are stored, and the error
  sticks until the next read.
\<close>

definition topEOF :: "rlp_err \<Rightarrow> rlp_err" where
  "topEOF e = (if e = ErrUnexpectedEOF \<or> e = ErrValueTooLarge then ErrEOF else e)"

definition readLongKind :: "kind \<Rightarrow> byte \<Rightarrow> stream \<Rightarrow> (kind \<times> uint64 \<times> rlp_err option) \<times> stream" where
  "readLongKind k sz s =
    (case stream_readUint sz s of
       (Inl e, s) \<Rightarrow> ((k, 0, Some e), s)
     | (Inr n, s) \<Rightarrow> ((k, n, if n < 56 then Some ErrCanonSize else None), s))"

definition stream_readKind :: "stream \<Rightarrow> (kind \<times> uint64 \<times> rlp_err option) \<times> stream" where
  "stream_readKind s =
    (case stream_readByte s of
       (Inl e, s) \<Rightarrow> ((KByte, 0, Some (if s_stack s = [] then topEOF e else e)), s)
     | (Inr b, s) \<Rightarrow>
         (let s = s\<lparr>s_byteval := 0\<rparr>
          in if b < 0x80 then ((KByte, 0, None), s\<lparr>s_byteval := b\<rparr>)
             else if b < 0xB8 then ((KString, ucast (b - 0x80), None), s)
             else if b < 0xC0 then readLongKind KString (b - 0xB7) s
             else if b < 0xF8 then ((KList, ucast (b - 0xC0), None), s)
             else readLongKind KList (b - 0xF7) s))"

definition checkFit :: "listpos list \<Rightarrow> stream \<Rightarrow> rlp_err option" where
  "checkFit stk s =
    (case stk of
       [] \<Rightarrow> if s_limited s \<and> s_remaining s < s_size s then Some ErrValueTooLarge else None
     | _ \<Rightarrow>
         (let tos = hd (s_stack s)
          in if lp_size tos - lp_pos tos < s_size s then Some ErrElemTooLarge else None))"

definition Kind :: "stream \<Rightarrow> (kind \<times> uint64) sresult" where
  "Kind s =
    (let cached = (\<lambda>s. (case s_kinderr s of
                          Some e \<Rightarrow> (Inl e, s)
                        | None \<Rightarrow> (Inr (the (s_kind s), s_size s), s)))
     in case s_kind s of
          Some k \<Rightarrow> cached s
        | None \<Rightarrow>
            (let s = s\<lparr>s_kinderr := None\<rparr>
             in if s_stack s \<noteq> [] \<and> lp_pos (hd (s_stack s)) = lp_size (hd (s_stack s))
                then (Inl EOL, s)
                else (case stream_readKind s of
                        ((k, sz, err), s') \<Rightarrow>
                          (let s' = s'\<lparr>s_kind := Some k, s_size := sz, s_kinderr := err\<rparr>
                           in if err = None
                              then cached (s'\<lparr>s_kinderr := checkFit (s_stack s) s'\<rparr>)
                              else cached s'))))"

subsection \<open>Values\<close>

definition stream_Bytes :: "stream \<Rightarrow> bytes sresult" where
  "stream_Bytes s =
    (case Kind s of
       (Inl e, s) \<Rightarrow> (Inl e, s)
     | (Inr (k, sz), s) \<Rightarrow>
         (case k of
            KByte \<Rightarrow> (Inr [s_byteval s], s\<lparr>s_kind := None\<rparr>)
          | KString \<Rightarrow>
              (case stream_readFull (unat sz) s of
                 (Inl e, s) \<Rightarrow> (Inl e, s)
               | (Inr b, s) \<Rightarrow>
                   (if sz = 1 \<and> b ! 0 < 128 then (Inl ErrCanonSize, s) else (Inr b, s)))
          | KList \<Rightarrow> (Inl ErrExpectedString, s)))"

definition Raw :: "stream \<Rightarrow> bytes sresult" where
  "Raw s =
    (case Kind s of
       (Inl e, s) \<Rightarrow> (Inl e, s)
     | (Inr (k, sz), s) \<Rightarrow>
         (if k = KByte then (Inr [s_byteval s], s\<lparr>s_kind := None\<rparr>)
          else (case stream_readFull (unat sz) s of
                  (Inl e, s) \<Rightarrow> (Inl e, s)
                | (Inr b, s) \<Rightarrow>
                    (if k = KString then (Inr (puthead 0x80 0xB7 sz @ b), s)
                     else (Inr (puthead 0xC0 0xF7 sz @ b), s)))))"

definition stream_uint :: "nat \<Rightarrow> stream \<Rightarrow> uint64 sresult" where
  "stream_uint maxbits s =
    (case Kind s of
       (Inl e, s) \<Rightarrow> (Inl e, s)
     | (Inr (k, sz), s) \<Rightarrow>
         (case k of
            KByte \<Rightarrow>
              (if s_byteval s = 0 then (Inl ErrCanonInt, s)
               else (Inr (ucast (s_byteval s)), s\<lparr>s_kind := None\<rparr>))
          | KString \<Rightarrow>
              (if word_of_nat (maxbits div 8) < sz then (Inl ErrUintOverflow, s)
               else (case stream_readUint (ucast sz) s of
                       (Inl e, s) \<Rightarrow> (Inl (if e = ErrCanonSize then ErrCanonInt else e), s)
                     | (Inr v, s) \<Rightarrow>
                         (if 0 < sz \<and> v < 128 then (Inl ErrCanonSize, s) else (Inr v, s))))
          | KList \<Rightarrow> (Inl ErrExpectedString, s)))"

definition stream_Bool :: "stream \<Rightarrow> bool sresult" where
  "stream_Bool s =
    (case stream_uint 8 s of
       (Inl e, s) \<Rightarrow> (Inl e, s)
     | (Inr n, s) \<Rightarrow>
         (if n = 0 then (Inr False, s) else if n = 1 then (Inr True, s)
          else (Inl (ErrInvalidBool n), s)))"

definition stream_List :: "stream \<Rightarrow> uint64 sresult" where
  "stream_List s =
    (case Kind s of
       (Inl e, s) \<Rightarrow> (Inl e, s)
     | (Inr (k, sz), s) \<Rightarrow>
         (if k \<noteq> KList then (Inl ErrExpectedList, s)
          else (Inr sz, s\<lparr>s_stack := \<lparr>lp_pos = 0, lp_size = sz\<rparr> # s_stack s,
                          s_kind := None, s_size := 0\<rparr>)))"

definition stream_ListEnd :: "stream \<Rightarrow> unit sresult" where
  "stream_ListEnd s =
    (case s_stack s of
       [] \<Rightarrow> (Inl ErrNotInList, s)
     | tos # rest \<Rightarrow>
         (if lp_pos tos \<noteq> lp_size tos then (Inl ErrNotAtEOL, s)
          else (let stk = (case rest of
                             [] \<Rightarrow> []
                           | t # rest' \<Rightarrow> t\<lparr>lp_pos := lp_pos t + lp_size tos\<rparr> # rest')
                in (Inr (), s\<lparr>s_stack := stk, s_kind := None, s_size := 0\<rparr>))))"

subsection \<open>Positions\<close>

text \<open>
  \<open>avail\<close> is the number of bytes the stream may read at its position. In an \<open>stream_ok\<close>
  stream the limit is the length of the data, and the innermost list ends within it.
  \<open>moved s c s'\<close>: the stream has consumed \<open>c\<close>.
\<close>

definition avail :: "stream \<Rightarrow> nat" where
  "avail s = (case s_stack s of [] \<Rightarrow> length (s_r s) | t # _ \<Rightarrow> unat (lp_size t) - unat (lp_pos t))"

definition stream_ok :: "stream \<Rightarrow> bool" where
  "stream_ok s \<longleftrightarrow> s_limited s \<and> unat (s_remaining s) = length (s_r s) \<and>
    (case s_stack s of [] \<Rightarrow> True | t # _ \<Rightarrow> unat (lp_pos t) \<le> unat (lp_size t)) \<and>
    avail s \<le> length (s_r s)"

fun bump :: "nat \<Rightarrow> listpos list \<Rightarrow> listpos list" where
  "bump n [] = []"
| "bump n (t # ts) = t\<lparr>lp_pos := lp_pos t + word_of_nat n\<rparr> # ts"

definition moved :: "stream \<Rightarrow> bytes \<Rightarrow> stream \<Rightarrow> bool" where
  "moved s c s' \<longleftrightarrow> s_r s = c @ s_r s' \<and> s_limited s' = s_limited s \<and>
    s_remaining s' = s_remaining s - word_of_nat (length c) \<and>
    s_stack s' = bump (length c) (s_stack s) \<and> length c \<le> avail s"

lemma avail_update [simp]:
  "avail (s\<lparr>s_byteval := b\<rparr>) = avail s" "avail (s\<lparr>s_kind := k\<rparr>) = avail s"
  "avail (s\<lparr>s_size := n\<rparr>) = avail s" "avail (s\<lparr>s_kinderr := e\<rparr>) = avail s"
  by (simp_all add: avail_def split: list.splits)

lemma stream_ok_update [simp]:
  "stream_ok (s\<lparr>s_byteval := b\<rparr>) = stream_ok s" "stream_ok (s\<lparr>s_kind := k\<rparr>) = stream_ok s"
  "stream_ok (s\<lparr>s_size := n\<rparr>) = stream_ok s" "stream_ok (s\<lparr>s_kinderr := e\<rparr>) = stream_ok s"
  by (simp_all add: stream_ok_def)

lemma moved_update [simp]:
  "moved (s\<lparr>s_byteval := b\<rparr>) c s' = moved s c s'" "moved (s\<lparr>s_kind := k\<rparr>) c s' = moved s c s'"
  "moved (s\<lparr>s_size := n\<rparr>) c s' = moved s c s'" "moved (s\<lparr>s_kinderr := e\<rparr>) c s' = moved s c s'"
  "moved s c (s'\<lparr>s_byteval := b\<rparr>) = moved s c s'" "moved s c (s'\<lparr>s_kind := k\<rparr>) = moved s c s'"
  "moved s c (s'\<lparr>s_size := n\<rparr>) = moved s c s'" "moved s c (s'\<lparr>s_kinderr := e\<rparr>) = moved s c s'"
  by (simp_all add: moved_def)

lemma bump_bump [simp]: "bump a (bump b ts) = bump (b + a) ts"
  by (cases ts) (simp_all add: ac_simps)

lemma bump_Nil_iff [simp]: "bump n ts = [] \<longleftrightarrow> ts = []"
  by (cases ts) simp_all

lemma stream_ok_length: "stream_ok s \<Longrightarrow> length (s_r s) < 18446744073709551616"
  using unat_uint64_less [of "s_remaining s"] by (simp add: stream_ok_def del: unat_uint64_less)

lemma avail_bound: "stream_ok s \<Longrightarrow> avail s < 18446744073709551616"
  using stream_ok_length [of s] by (simp add: stream_ok_def)

lemma unat_add_le:
  assumes "unat (p :: uint64) + n \<le> unat (z :: uint64)"
  shows "unat (p + word_of_nat n) = unat p + n"
proof -
  have "unat z < 18446744073709551616" using unsigned_less [of z, where 'a = nat] by simp
  with assms have "n < 18446744073709551616" "unat p + n < 18446744073709551616" by linarith+
  then show ?thesis by (simp add: unat_plus_if' unat_word_of_nat_64)
qed

lemma moved_ok:
  assumes "stream_ok s" and "moved s c s'"
  shows "stream_ok s'" and "avail s' = avail s - length c"
proof -
  have l: "length (s_r s) < 18446744073709551616" using assms(1) by (rule stream_ok_length)
  have c: "length c \<le> avail s" "s_r s = c @ s_r s'" using assms(2) by (simp_all add: moved_def)
  then have "unat (word_of_nat (length c) :: uint64) = length c"
    using l by (intro unat_word_of_nat_64) simp
  then have r: "unat (s_remaining s') = length (s_r s')"
    using assms c by (simp add: stream_ok_def moved_def unat_sub_if')
  show a: "avail s' = avail s - length c"
  proof (cases "s_stack s")
    case Nil
    then show ?thesis using assms(2) c by (simp add: moved_def avail_def)
  next
    case (Cons t ts)
    have "unat (lp_pos t) \<le> unat (lp_size t)" using assms(1) Cons by (simp add: stream_ok_def)
    then have "unat (lp_pos t) + length c \<le> unat (lp_size t)" using c Cons by (simp add: avail_def)
    from unat_add_le [OF this] show ?thesis
      using assms(2) Cons by (simp add: moved_def avail_def)
  qed
  have "case s_stack s' of [] \<Rightarrow> True | t # _ \<Rightarrow> unat (lp_pos t) \<le> unat (lp_size t)"
  proof (cases "s_stack s")
    case Nil
    then show ?thesis using assms(2) by (simp add: moved_def)
  next
    case (Cons t ts)
    have "unat (lp_pos t) \<le> unat (lp_size t)" using assms(1) Cons by (simp add: stream_ok_def)
    then have 1: "unat (lp_pos t) + length c \<le> unat (lp_size t)" using c Cons by (simp add: avail_def)
    from unat_add_le [OF this] 1 show ?thesis
      using assms(2) Cons by (simp add: moved_def)
  qed
  then show "stream_ok s'"
    using assms r a c by (auto simp: stream_ok_def moved_def)
qed

lemma moved_trans:
  assumes "stream_ok s" and "moved s a s1" and "moved s1 b s2"
  shows "moved s (a @ b) s2"
  using assms moved_ok(2) [OF assms(1,2)] by (auto simp: moved_def)

lemma moved_refl:
  assumes "s_r s' = s_r s" "s_limited s' = s_limited s" "s_remaining s' = s_remaining s"
    "s_stack s' = s_stack s"
  shows "moved s [] s'"
  using assms by (cases "s_stack s") (simp_all add: moved_def)

subsection \<open>Reads consume their bytes\<close>

lemma lp_diff:
  "unat p \<le> unat z \<Longrightarrow> unat (z - p :: uint64) = unat z - unat p"
  by (simp add: unat_sub_if')

lemma willRead_eq:
  assumes "stream_ok s"
  shows "unat n \<le> avail s \<Longrightarrow> willRead n s =
      (Inr (), s\<lparr>s_kind := None, s_stack := bump (unat n) (s_stack s), s_remaining := s_remaining s - n\<rparr>)"
    and "avail s < unat n \<Longrightarrow> isl (fst (willRead n s))"
proof -
  have lim: "s_limited s" "unat (s_remaining s) = length (s_r s)" "avail s \<le> length (s_r s)"
    using assms by (simp_all add: stream_ok_def)
  show "willRead n s =
      (Inr (), s\<lparr>s_kind := None, s_stack := bump (unat n) (s_stack s), s_remaining := s_remaining s - n\<rparr>)"
    if n: "unat n \<le> avail s"
  proof (cases "s_stack s")
    case Nil
    then show ?thesis
      using n lim by (simp add: willRead_def limitRead_def Let_def word_less_nat_alt)
  next
    case (Cons t ts)
    have "unat (lp_pos t) \<le> unat (lp_size t)" using assms Cons by (simp add: stream_ok_def)
    from lp_diff [OF this] show ?thesis
      using n lim Cons
      by (simp add: willRead_def limitRead_def Let_def word_less_nat_alt avail_def not_less)
  qed
  show "isl (fst (willRead n s))" if n: "avail s < unat n"
  proof (cases "s_stack s")
    case Nil
    then show ?thesis
      using n lim by (simp add: willRead_def limitRead_def Let_def word_less_nat_alt avail_def)
  next
    case (Cons t ts)
    have "unat (lp_pos t) \<le> unat (lp_size t)" using assms Cons by (simp add: stream_ok_def)
    from lp_diff [OF this] show ?thesis
      using n Cons by (simp add: willRead_def Let_def word_less_nat_alt avail_def)
  qed
qed

lemma stream_readFull_sound:
  assumes "stream_ok s" and "n < 18446744073709551616" and "stream_readFull n s = (Inr b, s')"
  shows "moved s b s'" and "length b = n" and "s_kind s' = None"
proof -
  have u: "unat (word_of_nat n :: uint64) = n" using assms(2) by (rule unat_word_of_nat_64)
  have n: "n \<le> avail s"
    using willRead_eq(2) [OF assms(1), of "word_of_nat n"] assms(3) u
    by (cases "n \<le> avail s") (auto simp: stream_readFull_def isl_def split: prod.splits sum.splits)
  then have "n \<le> length (s_r s)" using assms(1) by (simp add: stream_ok_def)
  then show "moved s b s'" "length b = n" "s_kind s' = None"
    using willRead_eq(1) [OF assms(1), of "word_of_nat n"] assms(3) u n
    by (auto simp: stream_readFull_def moved_def split: if_splits)
qed

lemma stream_readFull_complete:
  assumes "stream_ok s" and "s_r s = b @ rest" and "length b \<le> avail s"
  shows "\<exists>s'. stream_readFull (length b) s = (Inr b, s')"
proof -
  have "unat (word_of_nat (length b) :: uint64) = length b"
    using avail_bound [OF assms(1)] assms(3) by (intro unat_word_of_nat_64) simp
  with willRead_eq(1) [OF assms(1), of "word_of_nat (length b)"] show ?thesis
    using assms by (simp add: stream_readFull_def)
qed

lemma stream_readByte_sound:
  assumes "stream_ok s" and "stream_readByte s = (Inr b, s')"
  shows "moved s [b] s'" and "s_kind s' = None"
proof -
  have n: "1 \<le> avail s"
    using willRead_eq(2) [OF assms(1), of 1] assms(2)
    by (cases "1 \<le> avail s") (auto simp: stream_readByte_def isl_def split: prod.splits sum.splits)
  then have "s_r s \<noteq> []" using assms(1) by (auto simp: stream_ok_def)
  then show "moved s [b] s'" "s_kind s' = None"
    using willRead_eq(1) [OF assms(1), of 1] assms(2) n
    by (auto simp: stream_readByte_def moved_def split: list.splits)
qed

lemma stream_readByte_complete:
  assumes "stream_ok s" and "s_r s = b # rest" and "1 \<le> avail s"
  shows "\<exists>s'. stream_readByte s = (Inr b, s')"
  using willRead_eq(1) [OF assms(1), of 1] assms by (simp add: stream_readByte_def)

lemma stream_readUint_sound:
  assumes "stream_ok s" and "unat sz \<le> 8" and "stream_readUint sz s = (Inr v, s')"
  shows "\<exists>c. moved s c s' \<and> length c = unat sz \<and> be_nat c = unat v \<and>
    (1 < unat sz \<longrightarrow> hd c \<noteq> 0) \<and> s_kind s' = None"
proof -
  consider "sz = 0" | "sz = 1" | "sz \<noteq> 0" "sz \<noteq> 1" by blast
  then show ?thesis
  proof cases
    case 1
    then have "s' = s\<lparr>s_kind := None\<rparr>" "v = 0" using assms(3) by (simp_all add: stream_readUint_def)
    moreover have "moved s [] (s\<lparr>s_kind := None\<rparr>)" by (rule moved_refl) simp_all
    ultimately show ?thesis using 1 by auto
  next
    case 2
    then obtain b where b: "stream_readByte s = (Inr b, s')" "v = ucast b"
      using assms(3) by (auto simp: stream_readUint_def split: prod.splits sum.splits)
    from stream_readByte_sound [OF assms(1) b(1)] b(2) 2 show ?thesis
      by (intro exI [of _ "[b]"]) (simp add: unat_ucast_byte be_nat_single)
  next
    case 3
    then obtain b where b: "stream_readFull (unat sz) s = (Inr b, s')"
      and v: "v = word_of_nat (be_nat b)" "b ! 0 \<noteq> 0"
      using assms(3) by (auto simp: stream_readUint_def split: prod.splits sum.splits if_splits)
    have "unat sz < 18446744073709551616" using assms(2) by simp
    note r = stream_readFull_sound [OF assms(1) this b]
    have "be_nat b < 256 ^ 8"
      using be_nat_bound [of b] r(2) assms(2) power_increasing [of "length b" 8 "256 :: nat"] by simp
    then have "unat v = be_nat b" using v(1) by (simp add: unat_word_of_nat_64)
    moreover have "1 < unat sz \<longrightarrow> hd b \<noteq> 0" using v(2) r(2) by (cases b) auto
    ultimately show ?thesis using r by metis
  qed
qed

lemma stream_readUint_complete:
  assumes "stream_ok s" and "length c = unat sz" and "s_r s = c @ rest" and "length c \<le> avail s"
    and "1 < length c \<longrightarrow> hd c \<noteq> 0"
  shows "\<exists>s'. stream_readUint sz s = (Inr (word_of_nat (be_nat c)), s')"
proof -
  consider "sz = 0" | "sz = 1" | "sz \<noteq> 0" "sz \<noteq> 1" by blast
  then show ?thesis
  proof cases
    case 1
    then show ?thesis using assms(2) by (simp add: stream_readUint_def be_nat_Nil)
  next
    case 2
    then obtain b where c: "c = [b]" using assms(2) by (auto simp: length_Suc_conv)
    then obtain s' where "stream_readByte s = (Inr b, s')"
      using stream_readByte_complete assms by fastforce
    moreover have "word_of_nat (unat b) = (ucast b :: uint64)" by (simp add: unat_ucast_byte word_unat_eq_iff)
    ultimately show ?thesis using 2 c by (simp add: stream_readUint_def be_nat_single)
  next
    case 3
    then have "unat sz \<noteq> 0" "unat sz \<noteq> 1" by (simp_all add: word_unat_eq_iff)
    then have "1 < length c" using assms(2) by linarith
    then have "c ! 0 \<noteq> 0" using assms(5) by (cases c) auto
    moreover obtain s' where "stream_readFull (unat sz) s = (Inr c, s')"
      using stream_readFull_complete [OF assms(1,3,4)] assms(2) by auto
    ultimately show ?thesis using 3 by (simp add: stream_readUint_def)
  qed
qed

subsection \<open>Headers\<close>

text \<open>
  \<open>head_of k h n b\<close>: \<open>h\<close> is the header of a value of kind \<open>k\<close> with \<open>n\<close> bytes of content;
  a single byte \<open>b\<close> is its own header.
\<close>

definition head_of :: "kind \<Rightarrow> bytes \<Rightarrow> nat \<Rightarrow> byte \<Rightarrow> bool" where
  "head_of k h n b \<longleftrightarrow>
    (case k of
       KByte \<Rightarrow> h = [b] \<and> b < 0x80 \<and> n = 0
     | KString \<Rightarrow> h = rlp_head 0x80 0xB7 n
     | KList \<Rightarrow> h = rlp_head 0xC0 0xF7 n)"

lemma head_of_pos: "head_of k h n b \<Longrightarrow> 1 \<le> length h"
  using length_rlp_head_pos by (auto simp: head_of_def Suc_le_eq split: kind.splits)

lemma readLongKind_sound:
  assumes "stream_ok s" and "1 \<le> unat sz" "unat sz \<le> 8" and "readLongKind k sz s = ((k', n, None), s')"
  shows "k' = k" and "56 \<le> unat n" and "length (be_bytes (unat n)) = unat sz"
    and "moved s (be_bytes (unat n)) s'" and "s_kind s' = None"
proof -
  from assms(4) have k: "k' = k" and u: "stream_readUint sz s = (Inr n, s')" and n: "\<not> n < 56"
    by (auto simp: readLongKind_def split: prod.splits sum.splits if_splits)
  from n have n': "56 \<le> unat n" by (simp add: word_less_nat_alt)
  obtain c where c: "moved s c s'" "length c = unat sz" "be_nat c = unat n" "1 < unat sz \<longrightarrow> hd c \<noteq> 0"
    "s_kind s' = None"
    using stream_readUint_sound [OF assms(1,3) u] by blast
  have "hd c \<noteq> 0"
  proof (cases "unat sz = 1")
    case True
    then obtain x where "c = [x]" using c(2) by (auto simp: length_Suc_conv)
    then show ?thesis using c(3) n' by (auto simp: be_nat_single)
  qed (use c(4) assms(2) in linarith)
  then have "be_bytes (unat n) = c" using be_bytes_be_nat [of c] c(3) by simp
  with k n' c show "k' = k" "56 \<le> unat n" "length (be_bytes (unat n)) = unat sz"
    "moved s (be_bytes (unat n)) s'" "s_kind s' = None" by simp_all
qed

lemma readLongKind_complete:
  assumes "stream_ok s" and "56 \<le> n" "n < 18446744073709551616" and "length (be_bytes n) = unat sz"
    and "s_r s = be_bytes n @ rest" and "length (be_bytes n) \<le> avail s"
  shows "\<exists>s'. readLongKind k sz s = ((k, word_of_nat n, None), s')"
proof -
  have "hd (be_bytes n) \<noteq> 0" using be_bytes_hd [of n] assms(2) by simp
  then obtain s' where "stream_readUint sz s = (Inr (word_of_nat n), s')"
    using stream_readUint_complete [OF assms(1,4,5,6)] by auto
  moreover have "\<not> (word_of_nat n :: uint64) < 56"
    using assms(2) unat_word_of_nat_64 [OF assms(3)] by (simp add: word_less_nat_alt)
  ultimately show ?thesis by (simp add: readLongKind_def)
qed

lemma unat_tags:
  "unat b = 128 + n \<Longrightarrow> unat (b - 0x80 :: byte) = n"
  "unat b = 183 + n \<Longrightarrow> unat (b - 0xB7 :: byte) = n"
  "unat b = 192 + n \<Longrightarrow> unat (b - 0xC0 :: byte) = n"
  "unat b = 247 + n \<Longrightarrow> unat (b - 0xF7 :: byte) = n"
  by (simp_all add: unat_diff_byte)

lemma stream_readKind_tag:
  assumes "stream_readByte s = (Inr b, s1)"
  shows "unat b < 128 \<Longrightarrow> stream_readKind s = ((KByte, 0, None), s1\<lparr>s_byteval := b\<rparr>)"
    and "unat b = 128 + n \<Longrightarrow> n < 56 \<Longrightarrow>
      stream_readKind s = ((KString, word_of_nat n, None), s1\<lparr>s_byteval := 0\<rparr>)"
    and "unat b = 183 + m \<Longrightarrow> 1 \<le> m \<Longrightarrow> m \<le> 8 \<Longrightarrow>
      stream_readKind s = readLongKind KString (b - 0xB7) (s1\<lparr>s_byteval := 0\<rparr>)"
    and "unat b = 192 + n \<Longrightarrow> n < 56 \<Longrightarrow>
      stream_readKind s = ((KList, word_of_nat n, None), s1\<lparr>s_byteval := 0\<rparr>)"
    and "unat b = 247 + m \<Longrightarrow> 1 \<le> m \<Longrightarrow>
      stream_readKind s = readLongKind KList (b - 0xF7) (s1\<lparr>s_byteval := 0\<rparr>)"
  using assms
  by (simp_all add: stream_readKind_def Let_def word_less_nat_alt ucast_byte_of_nat unat_tags
      del: of_nat_diff)

lemma stream_readKind_sound:
  assumes ok: "stream_ok s" and r: "stream_readKind s = ((k, sz, None), s')"
  shows "\<exists>h. moved s h s' \<and> head_of k h (unat sz) (s_byteval s')"
proof -
  obtain b s1 where b: "stream_readByte s = (Inr b, s1)"
    using r by (auto simp: stream_readKind_def split: prod.splits sum.splits)
  note m = stream_readByte_sound [OF ok b]
  let ?s1 = "s1\<lparr>s_byteval := 0\<rparr>"
  have ok1: "stream_ok ?s1" using moved_ok(1) [OF ok m(1)] by simp
  have m1: "moved s [b] (s1\<lparr>s_byteval := x\<rparr>)" for x using m(1) by simp
  note tags = stream_readKind_tag [OF b]
  have long: "moved s (b # be_bytes (unat sz)) s' \<and> 56 \<le> unat sz \<and> k = k' \<and>
      length (be_bytes (unat sz)) = n"
    if "readLongKind k' x ?s1 = ((k, sz, None), s')" "unat x = n" "1 \<le> n" "n \<le> 8" for k' x n
    using readLongKind_sound [OF ok1 _ _ that(1)] that moved_trans [OF ok m1] by fastforce
  show ?thesis
  proof (cases b rule: byte_ranges)
    case single
    then show ?thesis using tags(1) r m1 [of b]
      by (intro exI [of _ "[b]"]) (simp add: head_of_def word_less_nat_alt)
  next
    case (short_string n)
    then have "b = 0x80 + word_of_nat n" by (intro byte_eqI) (simp add: tag_bytes)
    then show ?thesis using tags(2) [OF short_string] r m1 [of 0] short_string
      by (intro exI [of _ "[b]"]) (auto simp: head_of_def rlp_head_def unat_word_of_nat_64)
  next
    case (long_string n)
    then have "b = 0xB7 + word_of_nat n" by (intro byte_eqI) (simp add: tag_bytes)
    then show ?thesis
      using tags(3) [OF long_string] r long [of KString "b - 0xB7" n] unat_tags(2) [of b n] long_string
      by (intro exI [of _ "b # be_bytes (unat sz)"]) (auto simp: head_of_def rlp_head_def)
  next
    case (short_list n)
    then have "b = 0xC0 + word_of_nat n" by (intro byte_eqI) (simp add: tag_bytes)
    then show ?thesis using tags(4) [OF short_list] r m1 [of 0] short_list
      by (intro exI [of _ "[b]"]) (auto simp: head_of_def rlp_head_def unat_word_of_nat_64)
  next
    case (long_list n)
    then have "b = 0xF7 + word_of_nat n" by (intro byte_eqI) (simp add: tag_bytes)
    then show ?thesis
      using tags(5) [OF long_list(1,2)] r long [of KList "b - 0xF7" n] unat_tags(4) [of b n] long_list
      by (intro exI [of _ "b # be_bytes (unat sz)"]) (auto simp: head_of_def rlp_head_def)
  qed
qed

lemma stream_readKind_complete:
  assumes ok: "stream_ok s" and r: "s_r s = h @ rest" and h: "head_of k h n b"
    and n: "length h \<le> avail s" "n < 18446744073709551616"
  shows "\<exists>s'. stream_readKind s = ((k, word_of_nat n, None), s')"
proof -
  obtain b1 h' where h': "h = b1 # h'" using head_of_pos [OF h] by (cases h) auto
  then obtain s1 where b: "stream_readByte s = (Inr b1, s1)"
    using stream_readByte_complete [OF ok] r n(1) by fastforce
  note m = stream_readByte_sound [OF ok b]
  let ?s1 = "s1\<lparr>s_byteval := 0\<rparr>"
  have ok1: "stream_ok ?s1" "avail ?s1 = avail s - 1" "s_r ?s1 = h' @ rest"
    using moved_ok [OF ok m(1)] m(1) r h' by (simp_all add: moved_def)
  note tags = stream_readKind_tag [OF b]
  let ?l = "length (be_bytes n)"
  have l: "?l \<le> 8" using n(2) by (rule length_be_bytes_64)
  have long: "\<exists>s'. readLongKind k' x ?s1 = ((k', word_of_nat n, None), s')"
    if "h' = be_bytes n" "56 \<le> n" "unat x = ?l" for k' x
    using that n h' ok1 by (intro readLongKind_complete) auto
  show ?thesis
  proof (cases k)
    case KByte
    then show ?thesis using h h' tags(1) by (auto simp: head_of_def word_less_nat_alt)
  next
    case KString
    show ?thesis
    proof (cases "n < 56")
      case True
      then have "unat b1 = 128 + n" using h h' KString by (simp add: head_of_def rlp_head_def tag_bytes)
      then show ?thesis using tags(2) True KString by blast
    next
      case False
      then have "unat b1 = 183 + ?l" "h' = be_bytes n" "1 \<le> ?l"
        using h h' KString l by (simp_all add: head_of_def rlp_head_def tag_bytes Suc_le_eq)
      then show ?thesis using tags(3) [of ?l] l False KString long unat_tags(2) by simp
    qed
  next
    case KList
    show ?thesis
    proof (cases "n < 56")
      case True
      then have "unat b1 = 192 + n" using h h' KList by (simp add: head_of_def rlp_head_def tag_bytes)
      then show ?thesis using tags(4) True KList by blast
    next
      case False
      then have "unat b1 = 247 + ?l" "h' = be_bytes n" "1 \<le> ?l"
        using h h' KList l by (simp_all add: head_of_def rlp_head_def tag_bytes Suc_le_eq)
      then show ?thesis using tags(5) [of ?l] l False KList long unat_tags(4) by simp
    qed
  qed
qed

text \<open>\<open>peeked s h k sz s'\<close>: \<open>Kind\<close> has read the header \<open>h\<close> and the value fits.\<close>

definition peeked :: "stream \<Rightarrow> bytes \<Rightarrow> kind \<Rightarrow> uint64 \<Rightarrow> stream \<Rightarrow> bool" where
  "peeked s h k sz s' \<longleftrightarrow> moved s h s' \<and> head_of k h (unat sz) (s_byteval s') \<and>
    length h + unat sz \<le> avail s \<and> s_kind s' = Some k \<and> s_size s' = sz \<and> s_kinderr s' = None"

lemma checkFit_None:
  assumes "stream_ok s'" and "s_stack s = [] \<longleftrightarrow> s_stack s' = []"
  shows "checkFit (s_stack s) s' = None \<longleftrightarrow> unat (s_size s') \<le> avail s'"
proof (cases "s_stack s'")
  case Nil
  then show ?thesis using assms by (simp add: checkFit_def stream_ok_def avail_def word_less_nat_alt not_less)
next
  case (Cons t ts)
  then have "unat (lp_pos t) \<le> unat (lp_size t)" using assms(1) by (simp add: stream_ok_def)
  then show ?thesis using Cons assms(2)
    by (cases "s_stack s") (auto simp: checkFit_def avail_def word_less_nat_alt lp_diff)
qed

lemma Kind_cached: "s_kind s = Some k \<Longrightarrow> s_kinderr s = None \<Longrightarrow> Kind s = (Inr (k, s_size s), s)"
  by (simp add: Kind_def)

lemma at_end_iff:
  assumes "stream_ok s" and "s_stack s \<noteq> []"
  shows "lp_pos (hd (s_stack s)) = lp_size (hd (s_stack s)) \<longleftrightarrow> avail s = 0"
  using assms by (cases "s_stack s") (auto simp: stream_ok_def avail_def word_unat_eq_iff)

lemma Kind_sound:
  assumes ok: "stream_ok s" and kn: "s_kind s = None" and K: "Kind s = (Inr (k, sz), s')"
  shows "\<exists>h. peeked s h k sz s'"
proof -
  let ?s0 = "s\<lparr>s_kinderr := None\<rparr>"
  obtain k1 sz1 s1 where r: "stream_readKind ?s0 = ((k1, sz1, None), s1)"
    and f: "checkFit (s_stack s) (s1\<lparr>s_kind := Some k1, s_size := sz1, s_kinderr := None\<rparr>) = None"
    and s': "s' = s1\<lparr>s_kind := Some k1, s_size := sz1, s_kinderr := None\<rparr>" "k1 = k" "sz1 = sz"
    using K kn by (auto simp: Kind_def Let_def split: if_splits prod.splits option.splits)
  obtain h where h: "moved s h s1" "head_of k1 h (unat sz1) (s_byteval s1)"
    using stream_readKind_sound [OF _ r] ok by auto
  have o: "stream_ok s1" "avail s1 = avail s - length h" using moved_ok [OF ok h(1)] by simp_all
  have "s_stack s = [] \<longleftrightarrow> s_stack s1 = []" "length h \<le> avail s" using h(1) by (simp_all add: moved_def)
  moreover from this(1) have "unat sz1 \<le> avail s1" using f o(1) by (simp add: checkFit_None)
  ultimately show ?thesis using h s' o(2) by (auto simp: peeked_def)
qed

lemma Kind_complete:
  assumes ok: "stream_ok s" and kn: "s_kind s = None"
    and h: "s_r s = h @ rest" "head_of k h n b" "length h + n \<le> avail s"
  shows "\<exists>s'. Kind s = (Inr (k, word_of_nat n), s') \<and> peeked s h k (word_of_nat n) s'"
proof -
  let ?s0 = "s\<lparr>s_kinderr := None\<rparr>"
  have n: "n < 18446744073709551616" using avail_bound [OF ok] h(3) by simp
  then have un: "unat (word_of_nat n :: uint64) = n" by (rule unat_word_of_nat_64)
  obtain s1 where r: "stream_readKind ?s0 = ((k, word_of_nat n, None), s1)"
    using stream_readKind_complete [of ?s0 h rest k n b] ok h n by auto
  obtain h1 where h1: "moved s h1 s1" "head_of k h1 n (s_byteval s1)"
    using stream_readKind_sound [OF _ r] ok un by auto
  have "h1 = h"
  proof (cases k)
    case KByte
    then show ?thesis using h1 h by (auto simp: head_of_def moved_def)
  qed (use h1 h in \<open>auto simp: head_of_def\<close>)
  note h1 = h1 [unfolded this]
  have o: "stream_ok s1" "avail s1 = avail s - length h" using moved_ok [OF ok h1(1)] by simp_all
  have "s_stack s = [] \<longleftrightarrow> s_stack s1 = []" using h1(1) by (simp add: moved_def)
  then have f: "checkFit (s_stack s) (s1\<lparr>s_kind := Some k, s_size := word_of_nat n, s_kinderr := None\<rparr>) = None"
    using o h(3) by (subst checkFit_None) (simp_all add: un)
  have "avail s \<noteq> 0" using head_of_pos [OF h(2)] h(3) by simp
  then have ne: "\<not> (s_stack s \<noteq> [] \<and> lp_pos (hd (s_stack s)) = lp_size (hd (s_stack s)))"
    using at_end_iff [OF ok] by auto
  show ?thesis using kn r f ne h1 h(3) by (auto simp: Kind_def peeked_def un)
qed

subsection \<open>Value operations consume exactly one value\<close>

definition raw_value :: "bytes \<Rightarrow> bool" where
  "raw_value x \<longleftrightarrow> (\<exists>k h n b c. head_of k h n b \<and> length c = n \<and> x = h @ c)"

lemma peeked_readFull_sound:
  assumes "stream_ok s" and "peeked s h k sz s1" and "stream_readFull (unat sz) s1 = (Inr c, s')"
  shows "moved s (h @ c) s'" and "length c = unat sz" and "s_kind s' = None"
proof -
  have ok1: "stream_ok s1" using moved_ok(1) assms(1,2) by (auto simp: peeked_def)
  have "unat sz < 18446744073709551616" by simp
  note r = stream_readFull_sound [OF ok1 this assms(3)]
  then show "moved s (h @ c) s'" "length c = unat sz" "s_kind s' = None"
    using moved_trans [OF assms(1)] assms(2) by (auto simp: peeked_def)
qed

lemma peeked_readFull_complete:
  assumes "stream_ok s" and "peeked s h k sz s1" and "s_r s = h @ c @ rest" and "length c = unat sz"
  shows "\<exists>s'. stream_readFull (unat sz) s1 = (Inr c, s')"
proof -
  have m: "moved s h s1" using assms(2) by (simp add: peeked_def)
  have "stream_ok s1" "s_r s1 = c @ rest" "length c \<le> avail s1"
    using moved_ok [OF assms(1) m] m assms(2-) by (auto simp: peeked_def moved_def)
  then show ?thesis using stream_readFull_complete assms(4) by fastforce
qed

lemma rlp_string_cases:
  obtains x where "b = [x]" "x < 0x80" "rlp_string b = [x]"
  | "\<not> (length b = 1 \<and> hd b < 0x80)" "rlp_string b = rlp_head 0x80 0xB7 (length b) @ b"
  by (cases "length b = 1 \<and> hd b < 0x80") (auto simp: rlp_string_def length_Suc_conv)

lemma stream_Bytes_sound:
  assumes ok: "stream_ok s" "s_kind s = None" and B: "stream_Bytes s = (Inr b, s')"
  shows "moved s (rlp_string b) s'" and "s_kind s' = None"
proof -
  obtain k sz s1 where K: "Kind s = (Inr (k, sz), s1)"
    using B by (auto simp: stream_Bytes_def split: prod.splits sum.splits)
  obtain h where p: "peeked s h k sz s1" using Kind_sound [OF ok K] by blast
  have "moved s (rlp_string b) s' \<and> s_kind s' = None"
  proof (cases k)
    case KByte
    then have "b = [s_byteval s1]" "s' = s1\<lparr>s_kind := None\<rparr>" using B K by (simp_all add: stream_Bytes_def)
    with p KByte show ?thesis by (auto simp: peeked_def head_of_def rlp_string_def)
  next
    case KString
    then have r: "stream_readFull (unat sz) s1 = (Inr b, s')" and c: "\<not> (sz = 1 \<and> b ! 0 < 128)"
      using B K by (auto simp: stream_Bytes_def split: prod.splits sum.splits if_splits)
    note f = peeked_readFull_sound [OF ok(1) p r]
    have "\<not> (length b = 1 \<and> hd b < 0x80)"
      using c f(2) by (cases b) (auto simp: word_unat_eq_iff)
    then have "rlp_string b = h @ b"
      using p KString f(2) by (auto simp: rlp_string_def peeked_def head_of_def)
    with f show ?thesis by simp
  next
    case KList
    then show ?thesis using B K by (simp add: stream_Bytes_def)
  qed
  then show "moved s (rlp_string b) s'" "s_kind s' = None" by simp_all
qed

lemma stream_Bytes_complete:
  assumes ok: "stream_ok s" "s_kind s = None" and r: "s_r s = rlp_string b @ rest"
    and l: "length (rlp_string b) \<le> avail s"
  shows "\<exists>s'. stream_Bytes s = (Inr b, s')"
proof (cases b rule: rlp_string_cases)
  case (1 x)
  then obtain s1 where "Kind s = (Inr (KByte, 0), s1)" "peeked s [x] KByte 0 s1"
    using Kind_complete [OF ok, of "[x]" rest KByte 0 x] r l by (auto simp: head_of_def)
  then show ?thesis using 1 by (simp add: stream_Bytes_def peeked_def head_of_def)
next
  case 2
  let ?h = "rlp_head 0x80 0xB7 (length b)"
  have ub: "unat (word_of_nat (length b) :: uint64) = length b"
    using avail_bound [OF ok(1)] l 2 by (intro unat_word_of_nat_64) simp
  obtain s1 where K: "Kind s = (Inr (KString, word_of_nat (length b)), s1)"
    and p: "peeked s ?h KString (word_of_nat (length b)) s1"
    using Kind_complete [OF ok, of ?h "b @ rest" KString "length b"] r l 2 by (auto simp: head_of_def)
  obtain s' where "stream_readFull (length b) s1 = (Inr b, s')"
    using peeked_readFull_complete [OF ok(1) p] r 2 ub by auto
  moreover have "\<not> ((word_of_nat (length b) :: uint64) = 1 \<and> b ! 0 < 128)"
    using 2(1) ub by (cases b) (auto simp: word_unat_eq_iff)
  ultimately show ?thesis using K ub by (simp add: stream_Bytes_def)
qed

lemma Raw_sound:
  assumes ok: "stream_ok s" "s_kind s = None" and B: "Raw s = (Inr x, s')"
  shows "moved s x s'" and "s_kind s' = None" and "raw_value x"
proof -
  obtain k sz s1 where K: "Kind s = (Inr (k, sz), s1)"
    using B by (auto simp: Raw_def split: prod.splits sum.splits)
  obtain h where p: "peeked s h k sz s1" using Kind_sound [OF ok K] by blast
  have "moved s x s' \<and> s_kind s' = None \<and> raw_value x"
  proof (cases "k = KByte")
    case True
    then have "x = [s_byteval s1]" "s' = s1\<lparr>s_kind := None\<rparr>" using B K by (simp_all add: Raw_def)
    moreover have "raw_value [y]" if "y < 0x80" for y
      unfolding raw_value_def using that
      by (intro exI [of _ KByte] exI [of _ "[y]"] exI [of _ 0] exI [of _ y] exI [of _ "[]"])
        (simp add: head_of_def)
    ultimately show ?thesis using p True by (auto simp: peeked_def head_of_def)
  next
    case False
    then obtain c where r: "stream_readFull (unat sz) s1 = (Inr c, s')"
      and x: "x = puthead (if k = KString then 0x80 else 0xC0) (if k = KString then 0xB7 else 0xF7) sz @ c"
      using B K by (auto simp: Raw_def split: prod.splits sum.splits if_splits)
    note f = peeked_readFull_sound [OF ok(1) p r]
    have "puthead st lt sz = rlp_head st lt (unat sz)" for st lt
      using puthead_rlp_head [of "unat sz" st lt] by simp
    then have "x = h @ c" using x p False by (cases k) (auto simp: peeked_def head_of_def)
    with f p show ?thesis by (auto simp: peeked_def raw_value_def)
  qed
  then show "moved s x s'" "s_kind s' = None" "raw_value x" by simp_all
qed

lemma Raw_complete:
  assumes ok: "stream_ok s" "s_kind s = None" and r: "s_r s = x @ rest"
    and l: "length x \<le> avail s" and x: "raw_value x"
  shows "\<exists>s'. Raw s = (Inr x, s')"
proof -
  obtain k h b c where h: "head_of k h (length c) b" "x = h @ c" using x by (auto simp: raw_value_def)
  have ub: "unat (word_of_nat (length c) :: uint64) = length c"
    using avail_bound [OF ok(1)] l h by (intro unat_word_of_nat_64) simp
  obtain s1 where K: "Kind s = (Inr (k, word_of_nat (length c)), s1)"
    and p: "peeked s h k (word_of_nat (length c)) s1"
    using Kind_complete [OF ok, of h "c @ rest" k "length c" b] h r l by auto
  show ?thesis
  proof (cases "k = KByte")
    case True
    then show ?thesis using K p h by (auto simp: Raw_def peeked_def head_of_def)
  next
    case False
    obtain s' where f: "stream_readFull (length c) s1 = (Inr c, s')"
      using peeked_readFull_complete [OF ok(1) p] r h ub by auto
    have "puthead st lt (word_of_nat (length c)) = rlp_head st lt (length c)" for st lt
      using avail_bound [OF ok(1)] l h by (intro puthead_rlp_head) simp
    with False h f K ub show ?thesis by (cases k) (simp_all add: Raw_def head_of_def)
  qed
qed

lemma unat_ucast_uint64_byte: "unat (sz :: uint64) < 256 \<Longrightarrow> unat (ucast sz :: byte) = unat sz"
  by (simp add: unsigned_ucast_eq take_bit_eq_mod)

lemma ge_128_string:
  assumes "128 \<le> n"
  shows "\<not> (length (be_bytes n) = 1 \<and> hd (be_bytes n) < 0x80)"
  using assms be_bytes_single [of n] by (cases "be_bytes n") (auto simp: word_less_nat_alt)

lemma small_single:
  assumes "n < 128" "n \<noteq> 0"
  shows "length (be_bytes n) = 1 \<and> hd (be_bytes n) < 0x80"
  using assms by (simp add: be_bytes_small word_less_nat_alt byte_simps)

lemma power_bits: "length c \<le> m \<Longrightarrow> be_nat c < 2 ^ (8 * m)"
proof -
  assume "length c \<le> m"
  then have "(256 :: nat) ^ length c \<le> 256 ^ m" by (intro power_increasing) simp_all
  also have "\<dots> = 2 ^ (8 * m)" by (simp add: power_mult)
  finally show ?thesis using be_nat_bound [of c] by linarith
qed

lemma stream_uint_sound:
  assumes ok: "stream_ok s" "s_kind s = None" and B: "stream_uint (8 * m) s = (Inr v, s')"
    and m: "1 \<le> m" "m \<le> 8"
  shows "moved s (rlp_string (be_bytes (unat v))) s'" and "s_kind s' = None" and "unat v < 2 ^ (8 * m)"
proof -
  obtain k sz s1 where K: "Kind s = (Inr (k, sz), s1)"
    using B by (auto simp: stream_uint_def split: prod.splits sum.splits)
  obtain h where p: "peeked s h k sz s1" using Kind_sound [OF ok K] by blast
  have "moved s (rlp_string (be_bytes (unat v))) s' \<and> s_kind s' = None \<and> unat v < 2 ^ (8 * m)"
  proof (cases k)
    case KByte
    let ?b = "s_byteval s1"
    have v: "v = ucast ?b" "s' = s1\<lparr>s_kind := None\<rparr>" "?b \<noteq> 0"
      using B K KByte by (simp_all add: stream_uint_def split: if_splits)
    have b: "h = [?b]" "?b < 0x80" "moved s [?b] s1" using p KByte by (auto simp: peeked_def head_of_def)
    have ub: "unat ?b < 128" "unat ?b \<noteq> 0" using b(2) v(3) by (simp_all add: word_less_nat_alt unat_eq_0)
    then have "be_bytes (unat v) = [?b]" using v(1) by (simp add: be_bytes_small unat_ucast_byte)
    moreover have "unat ?b < 2 ^ (8 * m)"
      using ub power_bits [of "[?b]" m] m by (simp add: be_nat_single)
    ultimately show ?thesis using b v(1,2) by (simp add: rlp_string_def unat_ucast_byte)
  next
    case KString
    have wm: "unat (word_of_nat (8 * m div 8) :: uint64) = m" using m by (subst unat_word_of_nat_64) simp_all
    have sz: "unat sz \<le> m" and r: "stream_readUint (ucast sz) s1 = (Inr v, s')" and c: "\<not> (0 < sz \<and> v < 128)"
      using B K KString wm
      by (auto simp: stream_uint_def word_less_nat_alt split: prod.splits sum.splits if_splits)
    have us: "unat (ucast sz :: byte) = unat sz" using sz m by (intro unat_ucast_uint64_byte) simp
    have mv: "moved s h s1" and h: "h = rlp_head 0x80 0xB7 (unat sz)"
      using p KString by (auto simp: peeked_def head_of_def)
    obtain c where c': "moved s1 c s'" "length c = unat sz" "be_nat c = unat v"
        "1 < unat sz \<longrightarrow> hd c \<noteq> 0" "s_kind s' = None"
      using stream_readUint_sound [OF moved_ok(1) [OF ok(1) mv] _ r] us sz m by auto
    have "c = [] \<or> hd c \<noteq> 0"
      using c' c by (cases "unat sz \<le> 1"; cases c)
        (auto simp: be_nat_single word_less_nat_alt le_Suc_eq unat_eq_0)
    then have bc: "be_bytes (unat v) = c" using be_bytes_be_nat [of c] c'(3) by simp
    have "\<not> (length c = 1 \<and> hd c < 0x80)"
    proof (cases "unat sz = 0")
      case False
      then have "128 \<le> unat v" using c by (simp add: word_less_nat_alt)
      then show ?thesis using ge_128_string bc by blast
    qed (use c' in simp)
    then have "rlp_string (be_bytes (unat v)) = h @ c" using bc h c'(2) by (auto simp: rlp_string_def)
    moreover have "unat v < 2 ^ (8 * m)" using power_bits [of c m] c' sz by simp
    ultimately show ?thesis using moved_trans [OF ok(1) mv c'(1)] c'(5) by simp
  next
    case KList
    then show ?thesis using B K by (simp add: stream_uint_def)
  qed
  then show "moved s (rlp_string (be_bytes (unat v))) s'" "s_kind s' = None" "unat v < 2 ^ (8 * m)" by simp_all
qed

lemma stream_uint_complete:
  assumes ok: "stream_ok s" "s_kind s = None" and r: "s_r s = rlp_string (be_bytes (unat v)) @ rest"
    and l: "length (rlp_string (be_bytes (unat v))) \<le> avail s" and v: "unat v < 2 ^ (8 * m)" and m: "m \<le> 8"
  shows "\<exists>s'. stream_uint (8 * m) s = (Inr v, s')"
proof (cases "be_bytes (unat v)" rule: rlp_string_cases)
  case (1 x)
  then obtain s1 where K: "Kind s = (Inr (KByte, 0), s1)" and p: "peeked s [x] KByte 0 s1"
    using Kind_complete [OF ok, of "[x]" rest KByte 0 x] r l by (auto simp: head_of_def)
  have "x \<noteq> 0" using 1(1) be_bytes_hd [of "unat v"] by (cases "unat v = 0") auto
  moreover have "v = ucast x" using be_bytes_single [OF 1(1)] by (simp add: word_unat_eq_iff unat_ucast_byte)
  moreover have "s_byteval s1 = x" using p by (simp add: peeked_def head_of_def)
  ultimately show ?thesis using K by (simp add: stream_uint_def)
next
  case 2
  let ?c = "be_bytes (unat v)"
  let ?h = "rlp_head 0x80 0xB7 (length ?c)" and ?sz = "word_of_nat (length ?c) :: uint64"
  have lm: "length ?c \<le> m" using v by (intro length_be_bytes_le) (simp add: power_mult)
  have ub: "unat ?sz = length ?c" using lm m by (intro unat_word_of_nat_64) simp
  obtain s1 where K: "Kind s = (Inr (KString, ?sz), s1)" and p: "peeked s ?h KString ?sz s1"
    using Kind_complete [OF ok, of ?h "?c @ rest" KString "length ?c"] r l 2 by (auto simp: head_of_def)
  have mv: "moved s ?h s1" using p by (simp add: peeked_def)
  have s1: "stream_ok s1" "s_r s1 = ?c @ rest" "length ?c \<le> avail s1"
    using moved_ok [OF ok(1) mv] mv r l 2 by (auto simp: moved_def)
  have us: "unat (ucast ?sz :: byte) = length ?c" using lm m ub by (subst unat_ucast_uint64_byte) simp_all
  have "1 < length ?c \<longrightarrow> hd ?c \<noteq> 0" using be_bytes_hd [of "unat v"] by (cases "unat v = 0") simp_all
  then obtain s' where rd: "stream_readUint (ucast ?sz) s1 = (Inr v, s')"
    using stream_readUint_complete [OF s1(1) _ s1(2,3), of "ucast ?sz"] us by auto
  have "\<not> (0 < ?sz \<and> v < 128)"
    using 2(1) small_single [of "unat v"] ub by (auto simp: word_less_nat_alt)
  moreover have "\<not> word_of_nat (8 * m div 8) < ?sz"
    using lm m by (simp add: word_less_nat_alt ub unat_word_of_nat_64)
  ultimately show ?thesis using K rd by (simp add: stream_uint_def)
qed

lemma stream_Bool_sound:
  assumes ok: "stream_ok s" "s_kind s = None" and B: "stream_Bool s = (Inr b, s')"
  shows "moved s (rlp_string (if b then [1] else [])) s'" and "s_kind s' = None"
proof -
  obtain v where u: "stream_uint (8 * 1) s = (Inr v, s')" and v: "v = (if b then 1 else 0)"
    using B by (auto simp: stream_Bool_def split: prod.splits sum.splits if_splits)
  note r = stream_uint_sound [OF ok u]
  have "be_bytes (unat v) = (if b then [1] else [])" using v by (simp add: be_bytes_small)
  with r show "moved s (rlp_string (if b then [1] else [])) s'" "s_kind s' = None" by simp_all
qed

lemma stream_Bool_complete:
  assumes ok: "stream_ok s" "s_kind s = None" and r: "s_r s = rlp_string (if b then [1] else []) @ rest"
    and l: "length (rlp_string (if b then [1] else [])) \<le> avail s"
  shows "\<exists>s'. stream_Bool s = (Inr b, s')"
proof -
  let ?v = "(if b then 1 else 0) :: uint64"
  have "be_bytes (unat ?v) = (if b then [1] else [])" by (simp add: be_bytes_small)
  then obtain s' where "stream_uint (8 * 1) s = (Inr ?v, s')"
    using stream_uint_complete [OF ok, of ?v rest 1] r l by (cases b) auto
  then show ?thesis by (cases b) (auto simp: stream_Bool_def)
qed

lemma stream_List_sound:
  assumes ok: "stream_ok s" "s_kind s = None" and L: "stream_List s = (Inr sz, s1)"
  shows "stream_ok s1" and "s_kind s1 = None" and "s_stack s1 \<noteq> []" and "avail s1 = unat sz"
    and "moved s1 c s2 \<Longrightarrow> stream_ListEnd s2 = (Inr (), s3) \<Longrightarrow> moved s (rlp_list c) s3"
    and "stream_ListEnd s2 = (Inr (), s3) \<Longrightarrow> s_kind s3 = None"
    and "\<exists>h. s_r s = h @ s_r s1 \<and> h \<noteq> []"
proof -
  obtain s0 where K: "Kind s = (Inr (KList, sz), s0)"
    and s1: "s1 = s0\<lparr>s_stack := \<lparr>lp_pos = 0, lp_size = sz\<rparr> # s_stack s0, s_kind := None, s_size := 0\<rparr>"
    using L by (auto simp: stream_List_def split: prod.splits sum.splits if_splits)
  let ?h = "rlp_head 0xC0 0xF7 (unat sz)"
  have p: "moved s ?h s0" "length ?h + unat sz \<le> avail s"
    using Kind_sound [OF ok K] by (auto simp: peeked_def head_of_def)
  have o: "stream_ok s0" "avail s0 = avail s - length ?h" using moved_ok [OF ok(1) p(1)] by simp_all
  show k: "s_kind s1 = None" and st: "s_stack s1 \<noteq> []" and a: "avail s1 = unat sz"
    using s1 by (simp_all add: avail_def)
  show "stream_ok s1" using s1 o a p(2) by (auto simp: stream_ok_def)
  show "\<exists>h. s_r s = h @ s_r s1 \<and> h \<noteq> []"
    using p(1) s1 length_rlp_head_pos by (intro exI [of _ ?h]) (auto simp: moved_def)
  show "s_kind s3 = None" if "stream_ListEnd s2 = (Inr (), s3)"
    using that by (auto simp: stream_ListEnd_def Let_def split: list.splits if_splits)
  show "moved s (rlp_list c) s3" if m: "moved s1 c s2" and E: "stream_ListEnd s2 = (Inr (), s3)"
  proof -
    have st2: "s_stack s2 = \<lparr>lp_pos = word_of_nat (length c), lp_size = sz\<rparr> # s_stack s0"
      using m s1 by (simp add: moved_def)
    have lc: "length c \<le> unat sz" using m a by (simp add: moved_def)
    have ul: "unat (word_of_nat (length c) :: uint64) = length c"
      using lc unat_uint64_less [of sz] by (intro unat_word_of_nat_64) linarith
    have eq: "word_of_nat (length c) = sz"
      using E st2 by (simp add: stream_ListEnd_def Let_def split: if_splits)
    then have len: "length c = unat sz" using ul by simp
    have s3: "s3 = s2\<lparr>s_stack := bump (length c) (s_stack s0), s_kind := None, s_size := 0\<rparr>"
      using E st2 eq by (cases "s_stack s0") (auto simp: stream_ListEnd_def Let_def)
    have "moved s0 c s3" using m s1 s3 o len p(2) by (simp add: moved_def)
    from moved_trans [OF ok(1) p(1) this] show ?thesis by (simp add: rlp_list_def len)
  qed
qed

lemma stream_List_complete:
  assumes ok: "stream_ok s" "s_kind s = None" and r: "s_r s = rlp_list c @ rest"
    and l: "length (rlp_list c) \<le> avail s"
  shows "\<exists>s1. stream_List s = (Inr (word_of_nat (length c)), s1) \<and> s_r s1 = c @ rest \<and>
    avail s1 = length c \<and> (\<forall>s2. moved s1 c s2 \<longrightarrow> (\<exists>s3. stream_ListEnd s2 = (Inr (), s3)))"
proof -
  let ?h = "rlp_head 0xC0 0xF7 (length c)" and ?sz = "word_of_nat (length c) :: uint64"
  have ub: "unat ?sz = length c"
    using avail_bound [OF ok(1)] l by (intro unat_word_of_nat_64) (simp add: rlp_list_def)
  obtain s0 where K: "Kind s = (Inr (KList, ?sz), s0)" and p: "peeked s ?h KList ?sz s0"
    using Kind_complete [OF ok, of ?h "c @ rest" KList "length c"] r l
    by (auto simp: head_of_def rlp_list_def)
  let ?s1 = "s0\<lparr>s_stack := \<lparr>lp_pos = 0, lp_size = ?sz\<rparr> # s_stack s0, s_kind := None, s_size := 0\<rparr>"
  have "s_r ?s1 = c @ rest" using p r by (simp add: peeked_def moved_def rlp_list_def)
  moreover have "avail ?s1 = length c" by (simp add: avail_def ub)
  moreover have "\<exists>s3. stream_ListEnd s2 = (Inr (), s3)" if "moved ?s1 c s2" for s2
    using that by (simp add: moved_def stream_ListEnd_def Let_def)
  ultimately show ?thesis using K by (simp add: stream_List_def)
qed

subsection \<open>The end of a list\<close>

lemma not_EOL [simp]:
  "willRead n s \<noteq> (Inl EOL, s')" "stream_readByte s \<noteq> (Inl EOL, s')"
  "stream_readFull k s \<noteq> (Inl EOL, s')" "stream_readUint sz s \<noteq> (Inl EOL, s')"
proof -
  show w: "willRead n s \<noteq> (Inl EOL, s')" for n s s'
    by (auto simp: willRead_def limitRead_def Let_def split: list.splits)
  show b: "stream_readByte s \<noteq> (Inl EOL, s')" for s s'
    using w by (auto simp: stream_readByte_def split: prod.splits sum.splits list.splits)
  show f: "stream_readFull k s \<noteq> (Inl EOL, s')" for k s s'
    using w by (auto simp: stream_readFull_def split: prod.splits sum.splits)
  show "stream_readUint sz s \<noteq> (Inl EOL, s')"
    using b f by (auto simp: stream_readUint_def split: prod.splits sum.splits if_splits)
qed

lemma stream_readKind_not_EOL: "fst (stream_readKind s) \<noteq> (k, sz, Some EOL)"
  by (auto simp: stream_readKind_def readLongKind_def topEOF_def Let_def
      split: prod.splits sum.splits if_splits)

lemma Kind_EOL_sound:
  assumes "stream_ok s" "s_kind s = None" "Kind s = (Inl EOL, s')"
  shows "s_stack s \<noteq> [] \<and> avail s = 0 \<and> s' = s\<lparr>s_kinderr := None\<rparr>"
proof (cases "s_stack s \<noteq> [] \<and> lp_pos (hd (s_stack s)) = lp_size (hd (s_stack s))")
  case True
  then show ?thesis using assms at_end_iff [OF assms(1)] by (auto simp: Kind_def)
next
  case False
  let ?s0 = "s\<lparr>s_kinderr := None\<rparr>"
  obtain k sz e s1 where r: "stream_readKind ?s0 = ((k, sz, e), s1)" by (metis prod.exhaust)
  moreover have "e \<noteq> Some EOL" using stream_readKind_not_EOL [of ?s0 k sz] r by auto
  moreover have "checkFit t s2 \<noteq> Some EOL" for t s2 by (auto simp: checkFit_def Let_def split: list.splits)
  ultimately have False
    using False assms(2,3) by (auto simp: Kind_def Let_def split: option.splits if_splits)
  then show ?thesis ..
qed

lemma Kind_EOL:
  assumes "stream_ok s" "s_kind s = None" "s_stack s \<noteq> []" "avail s = 0"
  shows "Kind s = (Inl EOL, s\<lparr>s_kinderr := None\<rparr>)"
  using assms at_end_iff [OF assms(1)] by (simp add: Kind_def)

end
