(* ===== verification/Rlp_Decode.thy ===== *)
theory Rlp_Decode
  imports Rlp_Stream
begin

section \<open>The RLP decoder\<close>

text \<open>
  The type-directed decoders of \<open>src/rlp/decode.go\<close>, decoding into a zero value of the
  target type. The recursion follows the type and, for slices and interfaces, the input;
  it is given as fuel, \<open>None\<close> is out of fuel. Fuel is shown to be enough for every input
  of every type outside the one the code does not terminate on.
\<close>

subsection \<open>Decoders\<close>

definition wrapStreamError :: "rlp_err \<Rightarrow> rlp_err" where
  "wrapStreamError err =
    (case err of
       ErrCanonInt \<Rightarrow> DecodeError MsgCanonInt []
     | ErrCanonSize \<Rightarrow> DecodeError MsgCanonSize []
     | ErrExpectedList \<Rightarrow> DecodeError MsgExpectedList []
     | ErrExpectedString \<Rightarrow> DecodeError MsgExpectedString []
     | ErrUintOverflow \<Rightarrow> DecodeError MsgTooLong []
     | ErrNotAtEOL \<Rightarrow> DecodeError MsgTooManyElements []
     | _ \<Rightarrow> err)"

definition addErrorContext :: "rlp_err \<Rightarrow> dec_ctx \<Rightarrow> rlp_err" where
  "addErrorContext err ctx =
    (case err of DecodeError msg ctxs \<Rightarrow> DecodeError msg (ctxs @ [ctx]) | _ \<Rightarrow> err)"

text \<open>\<open>wrapped f r\<close>: a stream operation whose error is wrapped, its value made a Go value.\<close>

definition wrapped :: "('a \<Rightarrow> gval) \<Rightarrow> 'a sresult \<Rightarrow> gval sresult" where
  "wrapped f r =
    (case r of (Inl e, s) \<Rightarrow> (Inl (wrapStreamError e), s) | (Inr x, s) \<Rightarrow> (Inr (f x), s))"

definition decodeRawValue :: "stream \<Rightarrow> gval sresult" where
  "decodeRawValue s =
    (case Raw s of (Inl e, s) \<Rightarrow> (Inl e, s) | (Inr r, s) \<Rightarrow> (Inr (VBytes r), s))"

definition decodeUint :: "nat \<Rightarrow> stream \<Rightarrow> gval sresult" where
  "decodeUint bits s = wrapped VUint (stream_uint bits s)"

definition decodeBool :: "stream \<Rightarrow> gval sresult" where
  "decodeBool s = wrapped VBool (stream_Bool s)"

definition decodeString :: "stream \<Rightarrow> gval sresult" where
  "decodeString s = wrapped VBytes (stream_Bytes s)"

definition decodeByteSlice :: "stream \<Rightarrow> gval sresult" where
  "decodeByteSlice s = wrapped VBytes (stream_Bytes s)"

definition decodeBigInt :: "stream \<Rightarrow> gval sresult" where
  "decodeBigInt s =
    (case stream_Bytes s of
       (Inl e, s) \<Rightarrow> (Inl (wrapStreamError e), s)
     | (Inr b, s) \<Rightarrow>
         (if 0 < length b \<and> b ! 0 = 0 then (Inl (wrapStreamError ErrCanonInt), s)
          else (Inr (VBigInt (int (be_nat b))), s)))"

text \<open>
  \<open>decodeByteArray\<close> drops the error of \<open>s.Uint\<close>: the byte zero leaves \<open>ErrCanonInt\<close>
  behind, the value 0 is stored and the stream is not rearmed.
\<close>

definition decodeByteArray :: "nat \<Rightarrow> stream \<Rightarrow> gval sresult" where
  "decodeByteArray vlen s =
    (case Kind s of
       (Inl e, s) \<Rightarrow> (Inl e, s)
     | (Inr (k, sz), s) \<Rightarrow>
         (case k of
            KByte \<Rightarrow>
              (if vlen = 0 then (Inl (DecodeError MsgTooLong []), s)
               else if 1 < vlen then (Inl (DecodeError MsgTooShort []), s)
               else (case stream_uint 64 s of
                       (Inl _, s) \<Rightarrow> (Inr (VBytes [0]), s)
                     | (Inr bv, s) \<Rightarrow> (Inr (VBytes [ucast bv]), s)))
          | KString \<Rightarrow>
              (if word_of_nat vlen < sz then (Inl (DecodeError MsgTooLong []), s)
               else if sz < word_of_nat vlen then (Inl (DecodeError MsgTooShort []), s)
               else (case stream_readFull vlen s of
                       (Inl e, s) \<Rightarrow> (Inl e, s)
                     | (Inr sl, s) \<Rightarrow>
                         (if sz = 1 \<and> sl ! 0 < 128 then (Inl (wrapStreamError ErrCanonSize), s)
                          else (Inr (VBytes sl), s))))
          | KList \<Rightarrow> (Inl (wrapStreamError ErrExpectedString), s)))"

text \<open>
  The loops take the element decoder as an argument, as in the code. \<open>decodeSliceElems\<close>
  goes round at most \<open>fuel\<close> times; \<open>k\<close> is the number of array elements still to come;
  \<open>decodeFields\<close> is the loop of \<open>makeStructDecoder\<close> over the field decoders.
\<close>

type_synonym dec_fun = "stream \<Rightarrow> gval sresult option"

primrec decodeSliceElems :: "dec_fun \<Rightarrow> nat \<Rightarrow> nat \<Rightarrow> stream \<Rightarrow> gval list sresult option" where
  "decodeSliceElems elemdec 0 i s = None"
| "decodeSliceElems elemdec (Suc fuel) i s =
    (case elemdec s of
       None \<Rightarrow> None
     | Some (Inl e, s) \<Rightarrow>
         (if e = EOL then Some (Inr [], s) else Some (Inl (addErrorContext e (CtxIndex i)), s))
     | Some (Inr v, s) \<Rightarrow>
         map_option (apfst (map_sum id (Cons v))) (decodeSliceElems elemdec fuel (Suc i) s))"

definition decodeListSlice :: "dec_fun \<Rightarrow> nat \<Rightarrow> stream \<Rightarrow> gval list sresult option" where
  "decodeListSlice elemdec fuel s =
    (case stream_List s of
       (Inl e, s) \<Rightarrow> Some (Inl (wrapStreamError e), s)
     | (Inr sz, s) \<Rightarrow>
         (if sz = 0 then Some (apfst (map_sum id (\<lambda>_. [])) (stream_ListEnd s))
          else (case decodeSliceElems elemdec fuel 0 s of
                  None \<Rightarrow> None
                | Some (Inl e, s) \<Rightarrow> Some (Inl e, s)
                | Some (Inr vs, s) \<Rightarrow> Some (apfst (map_sum id (\<lambda>_. vs)) (stream_ListEnd s)))))"

primrec decodeArrayElems :: "dec_fun \<Rightarrow> nat \<Rightarrow> nat \<Rightarrow> stream \<Rightarrow> gval list sresult option" where
  "decodeArrayElems elemdec 0 i s = Some (Inr [], s)"
| "decodeArrayElems elemdec (Suc k) i s =
    (case elemdec s of
       None \<Rightarrow> None
     | Some (Inl e, s) \<Rightarrow>
         (if e = EOL then Some (Inl (DecodeError MsgTooFewElements []), s)
          else Some (Inl (addErrorContext e (CtxIndex i)), s))
     | Some (Inr v, s) \<Rightarrow>
         map_option (apfst (map_sum id (Cons v))) (decodeArrayElems elemdec k (Suc i) s))"

definition decodeListArray :: "dec_fun \<Rightarrow> nat \<Rightarrow> stream \<Rightarrow> gval list sresult option" where
  "decodeListArray elemdec vlen s =
    (case stream_List s of
       (Inl e, s) \<Rightarrow> Some (Inl (wrapStreamError e), s)
     | (Inr _, s) \<Rightarrow>
         (case decodeArrayElems elemdec vlen 0 s of
            None \<Rightarrow> None
          | Some (Inl e, s) \<Rightarrow> Some (Inl e, s)
          | Some (Inr vs, s) \<Rightarrow>
              Some (apfst (map_sum wrapStreamError (\<lambda>_. vs)) (stream_ListEnd s))))"

primrec decodeFields :: "dec_fun list \<Rightarrow> nat \<Rightarrow> stream \<Rightarrow> gval list sresult option" where
  "decodeFields [] i s = Some (Inr [], s)"
| "decodeFields (f # flds) i s =
    (case f s of
       None \<Rightarrow> None
     | Some (Inl e, s) \<Rightarrow>
         (if e = EOL then Some (Inl (DecodeError MsgTooFewFields []), s)
          else Some (Inl (addErrorContext e (CtxField i)), s))
     | Some (Inr v, s) \<Rightarrow>
         map_option (apfst (map_sum id (Cons v))) (decodeFields flds (Suc i) s))"

definition decodeStruct :: "dec_fun list \<Rightarrow> stream \<Rightarrow> gval list sresult option" where
  "decodeStruct flds s =
    (case stream_List s of
       (Inl e, s) \<Rightarrow> Some (Inl (wrapStreamError e), s)
     | (Inr _, s) \<Rightarrow>
         (case decodeFields flds 0 s of
            None \<Rightarrow> None
          | Some (Inl e, s) \<Rightarrow> Some (Inl e, s)
          | Some (Inr vs, s) \<Rightarrow>
              Some (apfst (map_sum wrapStreamError (\<lambda>_. vs)) (stream_ListEnd s))))"

definition decodePtr :: "dec_fun \<Rightarrow> dec_fun" where
  "decodePtr dec s = map_option (apfst (map_sum id VPtr)) (dec s)"

definition decodeNilPtr :: "kind \<Rightarrow> dec_fun \<Rightarrow> dec_fun" where
  "decodeNilPtr nilKind dec s =
    (case Kind s of
       (Inl e, s) \<Rightarrow> Some (Inl (wrapStreamError e), s)
     | (Inr (k, sz), s) \<Rightarrow>
         (if k \<noteq> KByte \<and> sz = 0 then
            (if k \<noteq> nilKind then Some (Inl (DecodeError (MsgWrongKind k nilKind) []), s)
             else Some (Inr VNil, s\<lparr>s_kind := None\<rparr>))
          else map_option (apfst (map_sum id VPtr)) (dec s)))"

definition decodeInterface :: "dec_fun \<Rightarrow> nat \<Rightarrow> dec_fun" where
  "decodeInterface self fuel s =
    (case Kind s of
       (Inl e, s) \<Rightarrow> Some (Inl e, s)
     | (Inr (k, _), s) \<Rightarrow>
         (if k = KList then
            map_option (apfst (map_sum id (\<lambda>vs. VIface (TSlice TInterface) (VList vs))))
              (decodeListSlice self fuel s)
          else (case stream_Bytes s of
                  (Inl e, s) \<Rightarrow> Some (Inl e, s)
                | (Inr b, s) \<Rightarrow> Some (Inr (VIface TByteSlice (VBytes b)), s))))"

definition vlist :: "gval list sresult option \<Rightarrow> gval sresult option" where
  "vlist = map_option (apfst (map_sum id VList))"

primrec decoder :: "nat \<Rightarrow> gtype \<Rightarrow> dec_fun" where
  "decoder 0 t s = None"
| "decoder (Suc fuel) t s =
    (case t of
       TRawValue \<Rightarrow> Some (decodeRawValue s)
     | TBigInt \<Rightarrow> Some (decodeBigInt s)
     | TPtr t' \<Rightarrow> decodePtr (decoder fuel t') s
     | TNilPtr nilKind t' \<Rightarrow> decodeNilPtr nilKind (decoder fuel t') s
     | TUint bits \<Rightarrow> Some (decodeUint bits s)
     | TBool \<Rightarrow> Some (decodeBool s)
     | TString \<Rightarrow> Some (decodeString s)
     | TByteSlice \<Rightarrow> Some (decodeByteSlice s)
     | TByteArray vlen \<Rightarrow> Some (decodeByteArray vlen s)
     | TSlice t' \<Rightarrow> vlist (decodeListSlice (decoder fuel t') fuel s)
     | TArray vlen t' \<Rightarrow> vlist (decodeListArray (decoder fuel t') vlen s)
     | TTail t' \<Rightarrow> vlist (decodeSliceElems (decoder fuel t') fuel 0 s)
     | TStruct ts \<Rightarrow> vlist (decodeStruct (map (decoder fuel) ts) s)
     | TInterface \<Rightarrow> decodeInterface (decoder fuel TInterface) fuel s)"

definition stream_Decode :: "nat \<Rightarrow> gtype \<Rightarrow> stream \<Rightarrow> gval sresult option" where
  "stream_Decode fuel t s =
    (case decoder fuel t s of
       Some (Inl (DecodeError msg ctx), s) \<Rightarrow>
         Some (Inl (if ctx = [] then DecodeError msg ctx else DecodeError msg (ctx @ [CtxTarget])), s)
     | r \<Rightarrow> r)"

definition DecodeBytes :: "nat \<Rightarrow> gtype \<Rightarrow> bytes \<Rightarrow> (rlp_err + gval) option" where
  "DecodeBytes fuel t b =
    (case stream_Decode fuel t (stream_Reset b True (word_of_nat (length b))) of
       None \<Rightarrow> None
     | Some (Inl e, s) \<Rightarrow> Some (Inl e)
     | Some (Inr v, s) \<Rightarrow> if 0 < length (s_r s) then Some (Inl ErrMoreThanOneValue) else Some (Inr v))"

subsection \<open>Types and values that decode\<close>

text \<open>
  \<open>dtype\<close>: the types whose decoders are considered. A \<open>tail\<close> slice is the last field of a
  struct; integers have a Go width; arrays of one byte are left out, see
  \<open>decodeByteArray\<close>. \<open>decodes_to\<close>: the values the decoder can return for a type.
\<close>

fun is_tail :: "gtype \<Rightarrow> bool" where
  "is_tail (TTail _) = True"
| "is_tail _ = False"

fun dtype :: "gtype \<Rightarrow> bool" and dfields :: "gtype list \<Rightarrow> bool" where
  "dtype TRawValue = True"
| "dtype TBigInt = True"
| "dtype (TUint bits) = (bits = 8 \<or> bits = 16 \<or> bits = 32 \<or> bits = 64)"
| "dtype TBool = True"
| "dtype TString = True"
| "dtype TByteSlice = True"
| "dtype (TByteArray n) = (n \<noteq> 1 \<and> n < 2 ^ 63)"
| "dtype (TSlice t) = (dtype t \<and> \<not> is_tail t)"
| "dtype (TArray n t) = (dtype t \<and> \<not> is_tail t)"
| "dtype (TTail t) = (dtype t \<and> \<not> is_tail t)"
| "dtype (TStruct ts) = dfields ts"
| "dtype (TPtr t) = (dtype t \<and> \<not> is_tail t)"
| "dtype (TNilPtr k t) = (dtype t \<and> \<not> is_tail t \<and> k \<noteq> KByte)"
| "dtype TInterface = True"
| "dfields [] = True"
| "dfields (t # ts) = (dtype t \<and> (is_tail t \<longrightarrow> ts = []) \<and> dfields ts)"

fun decodes_to :: "gtype \<Rightarrow> gval \<Rightarrow> bool"
  and decodesElems :: "gtype \<Rightarrow> gval list \<Rightarrow> bool"
  and decodesFields :: "gtype list \<Rightarrow> gval list \<Rightarrow> bool"
where
  "decodes_to TRawValue v = (case v of VBytes b \<Rightarrow> raw_value b | _ \<Rightarrow> False)"
| "decodes_to TBigInt v = (case v of VBigInt i \<Rightarrow> 0 \<le> i | _ \<Rightarrow> False)"
| "decodes_to (TPtr t) v = (case v of VPtr v' \<Rightarrow> decodes_to t v' | _ \<Rightarrow> False)"
| "decodes_to (TNilPtr k t) v =
    (case v of
       VNil \<Rightarrow> True
     | VPtr v' \<Rightarrow> decodes_to t v' \<and> enc t v' \<noteq> [0x80] \<and> enc t v' \<noteq> [0xC0]
     | _ \<Rightarrow> False)"
| "decodes_to (TUint bits) v = (case v of VUint i \<Rightarrow> unat i < 2 ^ bits | _ \<Rightarrow> False)"
| "decodes_to TBool v = (case v of VBool b \<Rightarrow> True | _ \<Rightarrow> False)"
| "decodes_to TString v = (case v of VBytes b \<Rightarrow> True | _ \<Rightarrow> False)"
| "decodes_to TByteSlice v = (case v of VBytes b \<Rightarrow> True | _ \<Rightarrow> False)"
| "decodes_to (TByteArray n) v = (case v of VBytes b \<Rightarrow> length b = n | _ \<Rightarrow> False)"
| "decodes_to (TSlice t) v = (case v of VList vs \<Rightarrow> decodesElems t vs | _ \<Rightarrow> False)"
| "decodes_to (TArray n t) v =
    (case v of VList vs \<Rightarrow> length vs = n \<and> decodesElems t vs | _ \<Rightarrow> False)"
| "decodes_to (TTail t) v = (case v of VList vs \<Rightarrow> decodesElems t vs | _ \<Rightarrow> False)"
| "decodes_to (TStruct ts) v = (case v of VList vs \<Rightarrow> decodesFields ts vs | _ \<Rightarrow> False)"
| "decodes_to TInterface v =
    (case v of
       VIface t v' \<Rightarrow> (t = TByteSlice \<or> t = TSlice TInterface) \<and> decodes_to t v'
     | _ \<Rightarrow> False)"
| "decodesElems t [] = True"
| "decodesElems t (v # vs) = (decodes_to t v \<and> decodesElems t vs)"
| "decodesFields [] vs = (vs = [])"
| "decodesFields (t # ts) vs =
    (case vs of [] \<Rightarrow> False | v # vs' \<Rightarrow> decodes_to t v \<and> decodesFields ts vs')"

subsection \<open>Looking ahead does not change what is decoded\<close>

lemma Kind_again: "Kind s = (Inr x, s1) \<Longrightarrow> Kind s1 = (Inr x, s1)"
  by (auto simp: Kind_def Let_def split: option.splits if_splits prod.splits)

lemma ahead_ops:
  assumes "Kind s = (Inr x, s1)"
  shows "Raw s1 = Raw s" "stream_Bytes s1 = stream_Bytes s" "stream_uint bits s1 = stream_uint bits s"
    "stream_Bool s1 = stream_Bool s" "stream_List s1 = stream_List s"
    "decodeByteArray vlen s1 = decodeByteArray vlen s"
  using assms Kind_again [OF assms]
  by (simp_all add: Raw_def stream_Bytes_def stream_uint_def stream_Bool_def stream_List_def decodeByteArray_def)

lemma ahead_lists:
  assumes "Kind s = (Inr x, s1)"
  shows "decodeListSlice d fuel s1 = decodeListSlice d fuel s"
    "decodeListArray d vlen s1 = decodeListArray d vlen s"
    "decodeStruct ds s1 = decodeStruct ds s"
    "decodeNilPtr k d s1 = decodeNilPtr k d s"
    "decodeInterface d fuel s1 = decodeInterface d fuel s"
  using assms Kind_again [OF assms]
  by (simp_all add: decodeListSlice_def decodeListArray_def decodeStruct_def decodeNilPtr_def
      decodeInterface_def ahead_ops)

lemma ahead_decoder:
  assumes "Kind s = (Inr x, s1)"
  shows "decoder n t s1 = decoder n t s"
proof (induction n arbitrary: t)
  case (Suc n)
  have "decodeSliceElems (decoder n t') k i s1 = decodeSliceElems (decoder n t') k i s" for t' k i
    using Suc by (cases k) simp_all
  then show ?case
    using Suc by (cases t) (simp_all add: ahead_ops [OF assms] ahead_lists [OF assms] decodePtr_def
        decodeRawValue_def decodeBigInt_def decodeUint_def decodeBool_def decodeString_def decodeByteSlice_def)
qed simp

subsection \<open>EOL is reported at the end of the enclosing list only\<close>

lemma wrapStreamError_EOL [simp]: "wrapStreamError e = EOL \<longleftrightarrow> e = EOL"
  by (cases e) (simp_all add: wrapStreamError_def)

lemma addErrorContext_EOL [simp]: "addErrorContext e c = EOL \<longleftrightarrow> e = EOL"
  by (cases e) (simp_all add: addErrorContext_def)

lemma wrapped_EOL: "wrapped f r = (Inl EOL, s') \<longleftrightarrow> r = (Inl EOL, s')"
  by (auto simp: wrapped_def split: prod.splits sum.splits)

lemma wrapped_Inr: "wrapped f r = (Inr v, s') \<longleftrightarrow> (\<exists>x. r = (Inr x, s') \<and> v = f x)"
  by (auto simp: wrapped_def split: prod.splits sum.splits)

lemma ops_EOL:
  "Raw s = (Inl EOL, s') \<longleftrightarrow> Kind s = (Inl EOL, s')"
  "stream_Bytes s = (Inl EOL, s') \<longleftrightarrow> Kind s = (Inl EOL, s')"
  "stream_uint bits s = (Inl EOL, s') \<longleftrightarrow> Kind s = (Inl EOL, s')"
  "stream_Bool s = (Inl EOL, s') \<longleftrightarrow> Kind s = (Inl EOL, s')"
  "stream_List s = (Inl EOL, s') \<longleftrightarrow> Kind s = (Inl EOL, s')"
  "decodeByteArray vlen s = (Inl EOL, s') \<longleftrightarrow> Kind s = (Inl EOL, s')"
  "stream_ListEnd s \<noteq> (Inl EOL, s')"
proof -
  show u: "stream_uint bits s = (Inl EOL, s') \<longleftrightarrow> Kind s = (Inl EOL, s')" for bits
    by (auto simp: stream_uint_def split: prod.splits sum.splits kind.splits if_splits)
  show "stream_Bool s = (Inl EOL, s') \<longleftrightarrow> Kind s = (Inl EOL, s')"
    using u [of 8] by (auto simp: stream_Bool_def split: prod.splits sum.splits if_splits)
qed (auto simp: Raw_def stream_Bytes_def stream_List_def decodeByteArray_def stream_ListEnd_def Let_def
      wrapStreamError_def split: prod.splits sum.splits kind.splits if_splits list.splits)

text \<open>
  The contract of the stream's value operations: from a fresh position such an operation
  consumes exactly the image of the value it returns, finds every valid value that is
  there, and reports \<open>EOL\<close> only when \<open>Kind\<close> does.
\<close>

locale stream_reader =
  fixes rd :: "stream \<Rightarrow> 'a sresult" and img :: "'a \<Rightarrow> bytes" and valid :: "'a \<Rightarrow> bool"
  assumes rd_sound: "stream_ok s \<Longrightarrow> s_kind s = None \<Longrightarrow> rd s = (Inr x, s') \<Longrightarrow>
      valid x \<and> moved s (img x) s' \<and> s_kind s' = None"
    and rd_complete: "stream_ok s \<Longrightarrow> s_kind s = None \<Longrightarrow> s_r s = img x @ rest \<Longrightarrow>
      length (img x) \<le> avail s \<Longrightarrow> valid x \<Longrightarrow> \<exists>s'. rd s = (Inr x, s')"
    and rd_EOL: "rd s = (Inl EOL, s') \<longleftrightarrow> Kind s = (Inl EOL, s')"
begin

lemma wrapped_sound:
  assumes "stream_ok s" "s_kind s = None" "wrapped f (rd s) = (Inr v, s')"
  shows "\<exists>x. v = f x \<and> valid x \<and> moved s (img x) s' \<and> s_kind s' = None"
  using assms rd_sound by (auto simp: wrapped_Inr)

lemma wrapped_complete:
  assumes "stream_ok s" "s_kind s = None" "s_r s = img x @ rest" "length (img x) \<le> avail s" "valid x"
  shows "\<exists>s'. wrapped f (rd s) = (Inr (f x), s')"
  using rd_complete [OF assms] by (auto simp: wrapped_Inr)

lemma wrapped_at_end: "wrapped f (rd s) = (Inl EOL, s') \<longleftrightarrow> Kind s = (Inl EOL, s')"
  by (simp add: wrapped_EOL rd_EOL)

end

interpretation bytes_reader: stream_reader stream_Bytes rlp_string "\<lambda>_. True"
  by unfold_locales (simp_all add: stream_Bytes_sound stream_Bytes_complete ops_EOL)

interpretation raw_reader: stream_reader Raw "\<lambda>x. x" raw_value
  by unfold_locales (simp_all add: Raw_sound Raw_complete ops_EOL)

interpretation bool_reader: stream_reader stream_Bool "\<lambda>b. rlp_string (if b then [1] else [])" "\<lambda>_. True"
  by unfold_locales (simp_all only: stream_Bool_sound stream_Bool_complete ops_EOL simp_thms)

lemma uint_reader:
  assumes "dtype (TUint bits)"
  shows "stream_reader (stream_uint bits) (\<lambda>v. rlp_string (be_bytes (unat v))) (\<lambda>v. unat v < 2 ^ bits)"
proof -
  from assms obtain m where m: "bits = 8 * m" "1 \<le> m" "m \<le> 8"
    by (auto intro: that [of 1] that [of 2] that [of 4] that [of 8])
  show ?thesis
    unfolding m(1) using m
    by unfold_locales (simp_all add: stream_uint_sound stream_uint_complete ops_EOL)
qed

lemma decodeByteArray_sound:
  assumes ok: "stream_ok s" "s_kind s = None" and vlen: "vlen \<noteq> 1" "vlen < 2 ^ 63"
    and B: "decodeByteArray vlen s = (Inr v, s')"
  shows "\<exists>b. v = VBytes b \<and> length b = vlen \<and> moved s (rlp_string b) s' \<and> s_kind s' = None"
proof -
  have uv: "unat (word_of_nat vlen :: uint64) = vlen" using vlen(2) by (intro unat_word_of_nat_64) simp
  obtain k sz s1 where K: "Kind s = (Inr (k, sz), s1)"
    using B by (auto simp: decodeByteArray_def split: prod.splits sum.splits)
  obtain h where p: "peeked s h k sz s1" using Kind_sound [OF ok K] by blast
  have "k = KString" using B K vlen(1) by (cases k) (auto simp: decodeByteArray_def split: if_splits)
  then obtain b where sz: "unat sz = vlen" and r: "stream_readFull (unat sz) s1 = (Inr b, s')" and v: "v = VBytes b"
    and c: "\<not> (sz = 1 \<and> b ! 0 < 128)"
    using B K uv
    by (auto simp: decodeByteArray_def word_less_nat_alt not_less split: prod.splits sum.splits if_splits)
  note f = peeked_readFull_sound [OF ok(1) p r]
  have "\<not> (length b = 1 \<and> hd b < 0x80)" using vlen(1) f(2) sz by simp
  then have "rlp_string b = h @ b"
    using p \<open>k = KString\<close> f(2) by (auto simp: rlp_string_def peeked_def head_of_def)
  with f sz v show ?thesis by simp
qed

lemma decodeByteArray_complete:
  assumes ok: "stream_ok s" "s_kind s = None" and b: "length b \<noteq> 1"
    and r: "s_r s = rlp_string b @ rest" and l: "length (rlp_string b) \<le> avail s"
  shows "\<exists>s'. decodeByteArray (length b) s = (Inr (VBytes b), s')"
proof -
  let ?h = "rlp_head 0x80 0xB7 (length b)" and ?sz = "word_of_nat (length b) :: uint64"
  have e: "rlp_string b = ?h @ b" using b by (simp add: rlp_string_def)
  have ub: "unat ?sz = length b" using avail_bound [OF ok(1)] l e by (intro unat_word_of_nat_64) simp
  obtain s1 where K: "Kind s = (Inr (KString, ?sz), s1)" and p: "peeked s ?h KString ?sz s1"
    using Kind_complete [OF ok, of ?h "b @ rest" KString "length b"] r l e by (auto simp: head_of_def)
  obtain s' where "stream_readFull (length b) s1 = (Inr b, s')"
    using peeked_readFull_complete [OF ok(1) p] r e ub by auto
  moreover have "?sz \<noteq> 1" using b ub by auto
  ultimately show ?thesis using K by (simp add: decodeByteArray_def)
qed

lemma decodeBigInt_sound:
  assumes ok: "stream_ok s" "s_kind s = None" and B: "decodeBigInt s = (Inr v, s')"
  shows "\<exists>i. v = VBigInt i \<and> 0 \<le> i \<and> moved s (rlp_string (be_bytes (nat i))) s' \<and> s_kind s' = None"
proof -
  obtain b where b: "stream_Bytes s = (Inr b, s')" "\<not> (0 < length b \<and> b ! 0 = 0)" "v = VBigInt (int (be_nat b))"
    using B by (auto simp: decodeBigInt_def split: prod.splits sum.splits if_splits)
  have "b = [] \<or> hd b \<noteq> 0" using b(2) by (cases b) auto
  then have "be_bytes (be_nat b) = b" by (rule be_bytes_be_nat)
  then show ?thesis using stream_Bytes_sound [OF ok b(1)] b(3) by simp
qed

lemma decodeBigInt_complete:
  assumes ok: "stream_ok s" "s_kind s = None" and i: "0 \<le> i"
    and r: "s_r s = rlp_string (be_bytes (nat i)) @ rest" and l: "length (rlp_string (be_bytes (nat i))) \<le> avail s"
  shows "\<exists>s'. decodeBigInt s = (Inr (VBigInt i), s')"
proof -
  obtain s' where s': "stream_Bytes s = (Inr (be_bytes (nat i)), s')"
    using stream_Bytes_complete [OF ok r l] by blast
  have "\<not> (0 < length (be_bytes (nat i)) \<and> be_bytes (nat i) ! 0 = 0)"
    using be_bytes_hd [of "nat i"] by (cases "nat i = 0"; cases "be_bytes (nat i)") auto
  then show ?thesis using s' i by (simp add: decodeBigInt_def)
qed

end
