(* ===== verification/Rlp_Roundtrip.thy ===== *)
theory Rlp_Roundtrip
  imports Rlp_Decode
begin

section \<open>Decoding is the inverse of encoding\<close>

text \<open>
  The decoders of \<open>Rlp_Decode\<close> against the format of \<open>Rlp_Encode\<close>: a decoder returns a
  value exactly when the bytes it consumes are the encoding of that value, and it
  returns for every input. Arrays of one byte are the exception, with the theorems that
  show what the code does there.
\<close>

subsection \<open>Results\<close>

lemma apfst_sum:
  "apfst (map_sum g f) r = (Inl e, s') \<longleftrightarrow> (\<exists>e'. r = (Inl e', s') \<and> e = g e')"
  "apfst (map_sum g f) r = (Inr v, s') \<longleftrightarrow> (\<exists>x. r = (Inr x, s') \<and> v = f x)"
  by (cases r; cases "fst r"; auto)+

lemma map_result:
  "map_option (apfst (map_sum id f)) r = Some (Inl e, s') \<longleftrightarrow> r = Some (Inl e, s')"
  "map_option (apfst (map_sum id f)) r = Some (Inr v, s') \<longleftrightarrow> (\<exists>x. r = Some (Inr x, s') \<and> v = f x)"
  by (cases r; auto simp: apfst_sum)+

lemma vlist_result:
  "vlist r = Some (Inl e, s') \<longleftrightarrow> r = Some (Inl e, s')"
  "vlist r = Some (Inr v, s') \<longleftrightarrow> (\<exists>vs. r = Some (Inr vs, s') \<and> v = VList vs)"
  unfolding vlist_def by (rule map_result)+

lemmas result_simps = apfst_sum map_result vlist_result

subsection \<open>The end of the list\<close>

lemma decodeSliceElems_not_EOL: "decodeSliceElems d n i s \<noteq> Some (Inl EOL, s')"
  by (induction n arbitrary: i s)
    (auto simp: result_simps split: option.splits prod.splits sum.splits)

lemma decodeArrayElems_not_EOL: "decodeArrayElems d k i s \<noteq> Some (Inl EOL, s')"
  by (induction k arbitrary: i s)
    (auto simp: result_simps split: option.splits prod.splits sum.splits)

lemma decodeFields_not_EOL: "decodeFields ds i s \<noteq> Some (Inl EOL, s')"
  by (induction ds arbitrary: i s)
    (auto simp: result_simps split: option.splits prod.splits sum.splits)

lemma lists_EOL:
  "decodeListSlice d n s = Some (Inl EOL, s') \<Longrightarrow> Kind s = (Inl EOL, s')"
  "decodeListArray d k s = Some (Inl EOL, s') \<Longrightarrow> Kind s = (Inl EOL, s')"
  "decodeStruct ds s = Some (Inl EOL, s') \<Longrightarrow> Kind s = (Inl EOL, s')"
proof -
  have w: "EOL = wrapStreamError e \<longleftrightarrow> e = EOL" for e using wrapStreamError_EOL [of e] by metis
  show "Kind s = (Inl EOL, s')" if "decodeListSlice d n s = Some (Inl EOL, s')"
    using that
    by (auto simp: decodeListSlice_def decodeSliceElems_not_EOL result_simps ops_EOL
        split: prod.splits sum.splits option.splits if_splits)
  show "Kind s = (Inl EOL, s')" if "decodeListArray d k s = Some (Inl EOL, s')"
    using that
    by (auto simp: decodeListArray_def decodeArrayElems_not_EOL result_simps ops_EOL w
        split: prod.splits sum.splits option.splits if_splits)
  show "Kind s = (Inl EOL, s')" if "decodeStruct ds s = Some (Inl EOL, s')"
    using that
    by (auto simp: decodeStruct_def decodeFields_not_EOL result_simps ops_EOL w
        split: prod.splits sum.splits option.splits if_splits)
qed

lemma decodeNilPtr_EOL:
  assumes "decodeNilPtr k (decoder n t) s = Some (Inl EOL, s')"
    and "decoder n t s = Some (Inl EOL, s') \<Longrightarrow> Kind s = (Inl EOL, s')"
  shows "Kind s = (Inl EOL, s')"
proof (cases "Kind s")
  case (Pair r s1)
  show ?thesis
  proof (cases r)
    case (Inl e)
    then show ?thesis using assms(1) Pair by (auto simp: decodeNilPtr_def)
  next
    case (Inr x)
    then have "decoder n t s1 = decoder n t s" using ahead_decoder Pair by blast
    then show ?thesis using assms Pair Inr
      by (auto simp: decodeNilPtr_def result_simps split: prod.splits if_splits)
  qed
qed

lemma decodeInterface_EOL:
  assumes "decodeInterface d n s = Some (Inl EOL, s')"
  shows "Kind s = (Inl EOL, s')"
proof (cases "Kind s")
  case (Pair r s1)
  show ?thesis
  proof (cases r)
    case (Inl e)
    then show ?thesis using assms(1) Pair by (auto simp: decodeInterface_def)
  next
    case (Inr x)
    note ahead = ahead_lists(1) [OF Pair [unfolded Inr]] ahead_ops(2) [OF Pair [unfolded Inr]]
    moreover have "(Inl EOL, s') \<noteq> stream_Bytes s"
      using ops_EOL(2) [of s s'] Pair Inr by (metis Inl_Inr_False prod.inject)
    ultimately show ?thesis using assms Pair Inr lists_EOL(1) [of d n s s']
      by (auto simp: decodeInterface_def result_simps ops_EOL split: prod.splits sum.splits if_splits)
  qed
qed

lemma decoder_EOL:
  "dtype t \<Longrightarrow> \<not> is_tail t \<Longrightarrow> decoder n t s = Some (Inl EOL, s') \<Longrightarrow> Kind s = (Inl EOL, s')"
proof (induction n arbitrary: t)
  case (Suc n)
  show ?case
  proof (cases t)
    case (TBigInt)
    then show ?thesis using Suc.prems
      by (auto simp: decodeBigInt_def ops_EOL split: prod.splits sum.splits if_splits)
  next
    case TRawValue
    then show ?thesis using Suc.prems
      by (auto simp: decodeRawValue_def ops_EOL split: prod.splits sum.splits)
  next
    case (TNilPtr k t')
    then show ?thesis using Suc decodeNilPtr_EOL [of k n t' s s'] by auto
  qed (use Suc lists_EOL decodeInterface_EOL in \<open>auto simp: decodeUint_def decodeBool_def decodeString_def
      decodeByteSlice_def wrapped_EOL ops_EOL result_simps decodePtr_def\<close>)
qed simp

subsection \<open>What is decoded is the value encoded in the input\<close>

definition dec_sound :: "dec_fun \<Rightarrow> gtype \<Rightarrow> bool" where
  "dec_sound d t \<longleftrightarrow> (\<forall>s v s'. stream_ok s \<longrightarrow> s_kind s = None \<longrightarrow> d s = Some (Inr v, s') \<longrightarrow>
     decodes_to t v \<and> moved s (enc t v) s' \<and> s_kind s' = None)"

definition dec_eol :: "dec_fun \<Rightarrow> bool" where
  "dec_eol d \<longleftrightarrow> (\<forall>s s'. d s = Some (Inl EOL, s') \<longrightarrow> Kind s = (Inl EOL, s'))"

lemma dec_soundD:
  assumes "dec_sound d t" "stream_ok s" "s_kind s = None" "d s = Some (Inr v, s')"
  shows "decodes_to t v" "moved s (enc t v) s'" "s_kind s' = None" "stream_ok s'"
  using assms moved_ok(1) unfolding dec_sound_def by blast+

lemma decodeSliceElems_sound:
  assumes d: "dec_sound d t" "dec_eol d"
  shows "stream_ok s \<Longrightarrow> s_kind s = None \<Longrightarrow> decodeSliceElems d n i s = Some (Inr vs, s') \<Longrightarrow>
    decodesElems t vs \<and> moved s (encElems t vs) s' \<and> s_kind s' = None"
proof (induction n arbitrary: i s vs)
  case (Suc n)
  then consider "d s = Some (Inl EOL, s')" "vs = []"
    | v s1 vs' where "d s = Some (Inr v, s1)" "decodeSliceElems d n (Suc i) s1 = Some (Inr vs', s')" "vs = v # vs'"
    by (auto simp: result_simps split: option.splits prod.splits sum.splits if_splits)
  then show ?case
  proof cases
    case 1
    then have "Kind s = (Inl EOL, s')" using d(2) by (simp add: dec_eol_def)
    then have "s' = s\<lparr>s_kinderr := None\<rparr>" using Kind_EOL_sound Suc.prems by blast
    then show ?thesis using 1(2) Suc.prems(2) moved_refl [of s s] by simp
  next
    case 2
    note s1 = dec_soundD [OF d(1) Suc.prems(1,2) 2(1)]
    from Suc.IH [OF s1(4,3) 2(2)] s1 show ?thesis
      using 2(3) moved_trans [OF Suc.prems(1)] by auto
  qed
qed simp

lemma decodeArrayElems_sound:
  assumes d: "dec_sound d t"
  shows "stream_ok s \<Longrightarrow> s_kind s = None \<Longrightarrow> decodeArrayElems d k i s = Some (Inr vs, s') \<Longrightarrow>
    length vs = k \<and> decodesElems t vs \<and> moved s (encElems t vs) s'"
proof (induction k arbitrary: i s vs)
  case 0
  then show ?case using moved_refl [of s s] by simp
next
  case (Suc k)
  then obtain v s1 vs' where 2: "d s = Some (Inr v, s1)"
      "decodeArrayElems d k (Suc i) s1 = Some (Inr vs', s')" "vs = v # vs'"
    by (auto simp: result_simps split: option.splits prod.splits sum.splits if_splits)
  note s1 = dec_soundD [OF d Suc.prems(1,2) 2(1)]
  from Suc.IH [OF s1(4,3) 2(2)] s1 show ?case
    using 2(3) moved_trans [OF Suc.prems(1)] by auto
qed

lemma decodeFields_sound:
  assumes "\<And>t. t \<in> set ts \<Longrightarrow> dec_sound (d t) t"
  shows "stream_ok s \<Longrightarrow> s_kind s = None \<Longrightarrow> decodeFields (map d ts) i s = Some (Inr vs, s') \<Longrightarrow>
    decodesFields ts vs \<and> moved s (encFields ts vs) s'"
  using assms
proof (induction ts arbitrary: i s vs)
  case Nil
  then show ?case using moved_refl [of s s] by simp
next
  case (Cons t ts)
  then obtain v s1 vs' where 2: "d t s = Some (Inr v, s1)"
      "decodeFields (map d ts) (Suc i) s1 = Some (Inr vs', s')" "vs = v # vs'"
    by (auto simp: result_simps split: option.splits prod.splits sum.splits if_splits)
  have "dec_sound (d t) t" using Cons.prems(4) by simp
  note s1 = dec_soundD [OF this Cons.prems(1,2) 2(1)]
  from Cons.IH [OF s1(4,3) 2(2)] Cons.prems(4) s1 show ?case
    using 2(3) moved_trans [OF Cons.prems(1)] by auto
qed

lemma list_sound:
  assumes ok: "stream_ok s" "s_kind s = None" and L: "stream_List s = (Inr sz, s1)"
    and m: "moved s1 c s2" and E: "stream_ListEnd s2 = (Inr (), s3)"
  shows "moved s (rlp_list c) s3 \<and> s_kind s3 = None"
  using stream_List_sound(5,6) [OF ok L] m E by blast

lemma decodeListSlice_sound:
  assumes d: "dec_sound d t" "dec_eol d" and ok: "stream_ok s" "s_kind s = None"
    and r: "decodeListSlice d n s = Some (Inr vs, s')"
  shows "decodesElems t vs \<and> moved s (rlp_list (encElems t vs)) s' \<and> s_kind s' = None"
proof -
  obtain sz s1 where L: "stream_List s = (Inr sz, s1)"
    using r by (auto simp: decodeListSlice_def split: prod.splits sum.splits)
  note l = stream_List_sound [OF ok L]
  obtain s2 where E: "stream_ListEnd s2 = (Inr (), s')"
    and e: "sz = 0 \<and> vs = [] \<and> s2 = s1 \<or> decodeSliceElems d n 0 s1 = Some (Inr vs, s2)"
    using r L by (auto simp: decodeListSlice_def result_simps split: option.splits prod.splits sum.splits if_splits)
  have "decodesElems t vs \<and> moved s1 (encElems t vs) s2"
    using e decodeSliceElems_sound [OF d l(1,2)] moved_refl [of s1 s1] by auto
  then show ?thesis using list_sound [OF ok L _ E] by blast
qed

lemma decodeListArray_sound:
  assumes d: "dec_sound d t" and ok: "stream_ok s" "s_kind s = None"
    and r: "decodeListArray d k s = Some (Inr vs, s')"
  shows "length vs = k \<and> decodesElems t vs \<and> moved s (rlp_list (encElems t vs)) s' \<and> s_kind s' = None"
proof -
  obtain sz s1 s2 where L: "stream_List s = (Inr sz, s1)" and E: "stream_ListEnd s2 = (Inr (), s')"
    and e: "decodeArrayElems d k 0 s1 = Some (Inr vs, s2)"
    using r by (auto simp: decodeListArray_def result_simps split: option.splits prod.splits sum.splits)
  note l = stream_List_sound [OF ok L]
  show ?thesis using decodeArrayElems_sound [OF d l(1,2) e] list_sound [OF ok L _ E] by blast
qed

lemma decodeStruct_sound:
  assumes d: "\<And>t. t \<in> set ts \<Longrightarrow> dec_sound (d t) t" and ok: "stream_ok s" "s_kind s = None"
    and r: "decodeStruct (map d ts) s = Some (Inr vs, s')"
  shows "decodesFields ts vs \<and> moved s (rlp_list (encFields ts vs)) s' \<and> s_kind s' = None"
proof -
  obtain sz s1 s2 where L: "stream_List s = (Inr sz, s1)" and E: "stream_ListEnd s2 = (Inr (), s')"
    and e: "decodeFields (map d ts) 0 s1 = Some (Inr vs, s2)"
    using r by (auto simp: decodeStruct_def result_simps split: option.splits prod.splits sum.splits)
  note l = stream_List_sound [OF ok L]
  show ?thesis using decodeFields_sound [OF d l(1,2) e] list_sound [OF ok L _ E] by blast
qed

lemma rlp_empty_head: "k \<noteq> KByte \<Longrightarrow> head_of k h 0 b \<longleftrightarrow> h = rlp_empty k"
  by (cases k) (auto simp: head_of_def rlp_empty_def rlp_head_def)

lemma Kind_empty:
  assumes "stream_ok s" "s_kind s = None" "moved s (rlp_empty k) s'" "k \<noteq> KByte"
  shows "\<exists>s1. Kind s = (Inr (k, 0), s1)"
proof -
  have "length (rlp_empty k) \<le> avail s" "s_r s = rlp_empty k @ s_r s'" using assms(3) by (simp_all add: moved_def)
  then show ?thesis using Kind_complete [OF assms(1,2), of "rlp_empty k" "s_r s'" k 0] rlp_empty_head [OF assms(4)]
    by auto
qed

lemma decodeNilPtr_sound:
  assumes d: "dec_sound (decoder n t) t" and k: "nilKind \<noteq> KByte"
  shows "dec_sound (decodeNilPtr nilKind (decoder n t)) (TNilPtr nilKind t)"
  unfolding dec_sound_def
proof (intro allI impI)
  fix s v s'
  assume ok: "stream_ok s" "s_kind s = None" and r: "decodeNilPtr nilKind (decoder n t) s = Some (Inr v, s')"
  obtain k sz s1 where K: "Kind s = (Inr (k, sz), s1)"
    using r by (auto simp: decodeNilPtr_def split: prod.splits sum.splits)
  obtain h where p: "peeked s h k sz s1" using Kind_sound [OF ok K] by blast
  show "decodes_to (TNilPtr nilKind t) v \<and> moved s (enc (TNilPtr nilKind t) v) s' \<and> s_kind s' = None"
  proof (cases "k \<noteq> KByte \<and> sz = 0")
    case True
    then have "k = nilKind" "v = VNil" "s' = s1\<lparr>s_kind := None\<rparr>"
      using r K by (auto simp: decodeNilPtr_def split: if_splits)
    moreover have "h = rlp_empty k" using p True rlp_empty_head by (auto simp: peeked_def)
    ultimately show ?thesis using p by (auto simp: peeked_def)
  next
    case False
    then obtain v' where v: "v = VPtr v'" "decoder n t s1 = Some (Inr v', s')"
      using r K by (auto simp: decodeNilPtr_def result_simps split: if_splits)
    then have "decoder n t s = Some (Inr v', s')" using ahead_decoder [OF K] by simp
    note s' = dec_soundD [OF d ok this]
    have "enc t v' \<noteq> rlp_empty k'" if "k' \<noteq> KByte" for k'
      using Kind_empty [OF ok, of k' s'] s'(2) that K False by auto
    from this [of KString] this [of KList] show ?thesis using v s' by (simp add: rlp_empty_def)
  qed
qed

lemma decodeInterface_sound:
  assumes d: "dec_sound d TInterface" "dec_eol d"
  shows "dec_sound (decodeInterface d n) TInterface"
  unfolding dec_sound_def
proof (intro allI impI)
  fix s v s'
  assume ok: "stream_ok s" "s_kind s = None" and r: "decodeInterface d n s = Some (Inr v, s')"
  obtain k sz s1 where K: "Kind s = (Inr (k, sz), s1)"
    using r by (auto simp: decodeInterface_def split: prod.splits sum.splits)
  show "decodes_to TInterface v \<and> moved s (enc TInterface v) s' \<and> s_kind s' = None"
  proof (cases "k = KList")
    case True
    then obtain vs where "v = VIface (TSlice TInterface) (VList vs)" "decodeListSlice d n s = Some (Inr vs, s')"
      using r K ahead_lists(1) [OF K] by (auto simp: decodeInterface_def result_simps)
    then show ?thesis using decodeListSlice_sound [OF d ok] by auto
  next
    case False
    then obtain b where "v = VIface TByteSlice (VBytes b)" "stream_Bytes s = (Inr b, s')"
      using r K ahead_ops(2) [OF K] by (auto simp: decodeInterface_def split: prod.splits sum.splits)
    then show ?thesis using stream_Bytes_sound [OF ok] by auto
  qed
qed

lemma decoder_sound: "dtype t \<Longrightarrow> dec_sound (decoder n t) t"
proof (induction n arbitrary: t)
  case 0
  then show ?case by (simp add: dec_sound_def)
next
  case (Suc n)
  have eol: "dec_eol (decoder n t')" if "dtype t'" "\<not> is_tail t'" for t'
    using decoder_EOL that unfolding dec_eol_def by blast
  have dfl: "dtype t'" if "t' \<in> set ts" "dfields ts" for t' ts
    using that by (induction ts) auto
  show ?case
  proof (cases t)
    case (TNilPtr k t')
    then have "dec_sound (decodeNilPtr k (decoder n t')) t" using Suc decodeNilPtr_sound by auto
    then show ?thesis using TNilPtr by (simp add: dec_sound_def)
  next
    case TInterface
    then have "dec_sound (decodeInterface (decoder n TInterface) n) t"
      using Suc.IH [of TInterface] eol [of TInterface] decodeInterface_sound by auto
    then show ?thesis using TInterface by (simp add: dec_sound_def)
  next
    case (TUint bits)
    then have "dtype (TUint bits)" using Suc.prems by simp
    from stream_reader.wrapped_sound [OF uint_reader [OF this]] show ?thesis
      using TUint by (fastforce simp: dec_sound_def decodeUint_def)
  next
    case (TSlice t')
    then show ?thesis using Suc eol decodeListSlice_sound [of "decoder n t'" t' _ n]
      by (fastforce simp: dec_sound_def [of _ "TSlice t'"] result_simps)
  next
    case (TArray k t')
    then show ?thesis using Suc decodeListArray_sound [of "decoder n t'" t' _ k]
      by (fastforce simp: dec_sound_def [of _ "TArray k t'"] result_simps)
  next
    case (TTail t')
    then show ?thesis using Suc eol decodeSliceElems_sound [of "decoder n t'" t']
      by (fastforce simp: dec_sound_def [of _ "TTail t'"] result_simps)
  next
    case (TStruct ts)
    then show ?thesis using Suc dfl decodeStruct_sound [of ts "decoder n"]
      by (fastforce simp: dec_sound_def [of _ "TStruct ts"] result_simps)
  next
    case (TPtr t')
    then show ?thesis using Suc by (fastforce simp: dec_sound_def decodePtr_def result_simps)
  next
    case TRawValue
    then show ?thesis using Raw_sound
      by (fastforce simp: dec_sound_def decodeRawValue_def split: prod.splits sum.splits)
  next
    case TBigInt
    then show ?thesis using decodeBigInt_sound by (fastforce simp: dec_sound_def)
  next
    case (TByteArray k)
    then show ?thesis using Suc.prems decodeByteArray_sound by (fastforce simp: dec_sound_def)
  next
    case TBool
    then show ?thesis using bool_reader.wrapped_sound by (fastforce simp: dec_sound_def decodeBool_def)
  next
    case TString
    then show ?thesis using bytes_reader.wrapped_sound by (fastforce simp: dec_sound_def decodeString_def)
  next
    case TByteSlice
    then show ?thesis using bytes_reader.wrapped_sound by (fastforce simp: dec_sound_def decodeByteSlice_def)
  qed
qed

subsection \<open>More fuel, same result\<close>

definition fuel_le :: "('a \<Rightarrow> 'b option) \<Rightarrow> ('a \<Rightarrow> 'b option) \<Rightarrow> bool" where
  "fuel_le d d' \<longleftrightarrow> (\<forall>s r. d s = Some r \<longrightarrow> d' s = Some r)"

lemma fuel_leD: "fuel_le d d' \<Longrightarrow> d s = Some r \<Longrightarrow> d' s = Some r"
  by (simp add: fuel_le_def)

lemma decodeSliceElems_mono:
  assumes d: "fuel_le d d'"
  shows "n \<le> n' \<Longrightarrow> fuel_le (decodeSliceElems d n i) (decodeSliceElems d' n' i)"
proof (induction n arbitrary: n' i)
  case (Suc n)
  then obtain m where m: "n' = Suc m" "n \<le> m" by (cases n') auto
  note IH = fuel_leD [OF Suc.IH [OF m(2)]]
  show ?case unfolding m(1) fuel_le_def
    using fuel_leD [OF d] IH
    by (auto split: option.splits prod.splits sum.splits)
qed (simp add: fuel_le_def)

lemma decodeArrayElems_mono:
  assumes d: "fuel_le d d'"
  shows "fuel_le (decodeArrayElems d k i) (decodeArrayElems d' k i)"
proof (induction k arbitrary: i)
  case (Suc k)
  show ?case unfolding fuel_le_def
    using fuel_leD [OF d] fuel_leD [OF Suc.IH] by (auto split: option.splits prod.splits sum.splits)
qed (simp add: fuel_le_def)

lemma decodeFields_mono:
  assumes "\<And>t. fuel_le (d t) (d' t)"
  shows "fuel_le (decodeFields (map d ts) i) (decodeFields (map d' ts) i)"
proof (induction ts arbitrary: i)
  case (Cons t ts)
  show ?case unfolding fuel_le_def
    using fuel_leD [OF assms [of t]] fuel_leD [OF Cons.IH] by (auto split: option.splits prod.splits sum.splits)
qed (simp add: fuel_le_def)

lemma lists_mono:
  assumes d: "fuel_le d d'" and n: "n \<le> n'"
  shows "fuel_le (decodeListSlice d n) (decodeListSlice d' n')"
    "fuel_le (decodeListArray d k) (decodeListArray d' k)"
    "fuel_le (decodePtr d) (decodePtr d')"
    "fuel_le (decodeNilPtr nk d) (decodeNilPtr nk d')"
    "fuel_le (decodeInterface d n) (decodeInterface d' n')"
proof -
  show l: "fuel_le (decodeListSlice d n) (decodeListSlice d' n')"
    using fuel_leD [OF decodeSliceElems_mono [OF d n]]
    by (auto simp: fuel_le_def decodeListSlice_def split: option.splits prod.splits sum.splits)
  show "fuel_le (decodeListArray d k) (decodeListArray d' k)"
    using fuel_leD [OF decodeArrayElems_mono [OF d]]
    by (auto simp: fuel_le_def decodeListArray_def split: option.splits prod.splits sum.splits)
  show "fuel_le (decodePtr d) (decodePtr d')"
    using fuel_leD [OF d] by (auto simp: fuel_le_def decodePtr_def)
  show "fuel_le (decodeNilPtr nk d) (decodeNilPtr nk d')"
    using fuel_leD [OF d] by (auto simp: fuel_le_def decodeNilPtr_def split: prod.splits sum.splits)
  show "fuel_le (decodeInterface d n) (decodeInterface d' n')"
    using fuel_leD [OF l] by (auto simp: fuel_le_def decodeInterface_def split: prod.splits sum.splits)
qed

lemma decodeStruct_mono:
  assumes "\<And>t. fuel_le (d t) (d' t)"
  shows "fuel_le (decodeStruct (map d ts)) (decodeStruct (map d' ts))"
  using fuel_leD [OF decodeFields_mono [of d d' ts 0, OF assms]]
  by (auto simp: fuel_le_def decodeStruct_def split: option.splits prod.splits sum.splits)

lemma vlist_mono: "fuel_le d d' \<Longrightarrow> fuel_le (\<lambda>s. vlist (d s)) (\<lambda>s. vlist (d' s))"
  by (auto simp: fuel_le_def vlist_def)

lemma decoder_mono: "n \<le> n' \<Longrightarrow> fuel_le (decoder n t) (decoder n' t)"
proof (induction n arbitrary: n' t)
  case (Suc n)
  then obtain m where m: "n' = Suc m" "n \<le> m" by (cases n') auto
  note d = Suc.IH [OF m(2)]
  show ?case unfolding m(1)
  proof (cases t)
    case (TSlice t')
    then show "fuel_le (decoder (Suc n) t) (decoder (Suc m) t)"
      using vlist_mono [OF lists_mono(1) [OF d [of t'] m(2)]] by (simp add: fuel_le_def)
  next
    case (TArray k t')
    then show "fuel_le (decoder (Suc n) t) (decoder (Suc m) t)"
      using vlist_mono [OF lists_mono(2) [OF d [of t'] m(2)]] by (simp add: fuel_le_def)
  next
    case (TTail t')
    then show "fuel_le (decoder (Suc n) t) (decoder (Suc m) t)"
      using vlist_mono [OF decodeSliceElems_mono [OF d [of t'] m(2)]] by (simp add: fuel_le_def)
  next
    case (TStruct ts)
    then show "fuel_le (decoder (Suc n) t) (decoder (Suc m) t)"
      using vlist_mono [OF decodeStruct_mono [OF d]] by (simp add: fuel_le_def)
  next
    case (TPtr t')
    then show "fuel_le (decoder (Suc n) t) (decoder (Suc m) t)"
      using lists_mono(3) [OF d [of t'] m(2)] by (simp add: fuel_le_def)
  next
    case (TNilPtr k t')
    then show "fuel_le (decoder (Suc n) t) (decoder (Suc m) t)"
      using lists_mono(4) [OF d [of t'] m(2)] by (simp add: fuel_le_def)
  next
    case TInterface
    then show "fuel_le (decoder (Suc n) t) (decoder (Suc m) t)"
      using lists_mono(5) [OF d [of TInterface] m(2)] by (simp add: fuel_le_def)
  qed (simp_all add: fuel_le_def)
qed (simp add: fuel_le_def)

lemma decoder_more: "decoder n t s = Some r \<Longrightarrow> n \<le> n' \<Longrightarrow> decoder n' t s = Some r"
  by (rule fuel_leD [OF decoder_mono])

subsection \<open>Every value that is there is found\<close>

lemma raw_value_head: "head_of k h (length c) b \<Longrightarrow> raw_value (h @ c)"
  by (auto simp: raw_value_def)

lemma raw_value_formats:
  "raw_value (rlp_string b)" "raw_value (rlp_list b)" "k \<noteq> KByte \<Longrightarrow> raw_value (rlp_empty k)"
proof -
  show "raw_value (rlp_string b)"
  proof (cases b rule: rlp_string_cases)
    case (1 x)
    then show ?thesis using raw_value_head [of KByte "[x]" "[]" x] by (simp add: head_of_def)
  next
    case 2
    then show ?thesis using raw_value_head [of KString _ b] by (simp add: head_of_def)
  qed
  show "raw_value (rlp_list b)"
    using raw_value_head [of KList _ b] by (simp add: head_of_def rlp_list_def)
  show "raw_value (rlp_empty k)" if "k \<noteq> KByte"
    using raw_value_head [of k "rlp_empty k" "[]"] rlp_empty_head [OF that] by simp
qed

lemma enc_raw_value:
  "decodes_to t v \<Longrightarrow> dtype t \<Longrightarrow> \<not> is_tail t \<Longrightarrow> raw_value (enc t v)"
proof (induction t arbitrary: v)
  case TInterface
  then show ?case by (auto simp: raw_value_formats split: gval.splits)
qed (auto simp: raw_value_formats split: gval.splits)

lemma decoder_at_end:
  assumes ok: "stream_ok s" "s_kind s = None" "s_stack s \<noteq> []" "avail s = 0"
  shows "dtype t \<Longrightarrow> \<not> is_tail t \<Longrightarrow> \<exists>n. decoder n t s = Some (Inl EOL, s\<lparr>s_kinderr := None\<rparr>)"
proof (induction t)
  case (TPtr t)
  then obtain n where "decoder n t s = Some (Inl EOL, s\<lparr>s_kinderr := None\<rparr>)" by auto
  then show ?case by (intro exI [of _ "Suc n"]) (simp add: decodePtr_def)
qed (use Kind_EOL [OF ok] in \<open>auto intro!: exI [of _ "Suc 0"] simp: decodeRawValue_def decodeBigInt_def
    decodeUint_def decodeBool_def decodeString_def decodeByteSlice_def decodeByteArray_def decodeListSlice_def
    decodeListArray_def decodeStruct_def decodeNilPtr_def decodeInterface_def vlist_def wrapped_def
    Raw_def stream_Bytes_def stream_uint_def stream_Bool_def stream_List_def wrapStreamError_def\<close>)

text \<open>
  \<open>here s bs rest\<close>: a fresh position before \<open>bs\<close>, which may be read; \<open>fills s bs\<close>: \<open>bs\<close> is
  what is left of the innermost list.
\<close>

definition here :: "stream \<Rightarrow> bytes \<Rightarrow> bytes \<Rightarrow> bool" where
  "here s bs rest \<longleftrightarrow> stream_ok s \<and> s_kind s = None \<and> s_r s = bs @ rest \<and> length bs \<le> avail s"

definition fills :: "stream \<Rightarrow> bytes \<Rightarrow> bool" where
  "fills s bs \<longleftrightarrow> s_stack s \<noteq> [] \<and> length bs = avail s"

lemma here_step:
  assumes "here s (a @ b) rest" "moved s a s'" "s_kind s' = None"
  shows "here s' b rest" and "fills s (a @ b) \<Longrightarrow> fills s' b"
  using assms moved_ok [of s a s'] by (auto simp: here_def fills_def moved_def)

lemma here_sound:
  assumes "here s (enc t v @ b) rest" "dtype t" "decoder n t s = Some (Inr v, s')"
  shows "here s' b rest" and "fills s (enc t v @ b) \<Longrightarrow> fills s' b"
  using here_step [OF assms(1)] dec_soundD [OF decoder_sound [OF assms(2)] _ _ assms(3)] assms(1)
  by (auto simp: here_def)

lemma list_complete:
  assumes h: "here s (rlp_list c) rest"
    and step: "\<And>s1. here s1 c rest \<Longrightarrow> fills s1 c \<Longrightarrow> stream_List s = (Inr (word_of_nat (length c)), s1) \<Longrightarrow>
      (\<And>s2. moved s1 c s2 \<Longrightarrow> \<exists>s3. stream_ListEnd s2 = (Inr (), s3)) \<Longrightarrow> thesis"
  shows thesis
proof -
  have ok: "stream_ok s" "s_kind s = None" using h by (simp_all add: here_def)
  obtain s1 where s1: "stream_List s = (Inr (word_of_nat (length c)), s1)" "s_r s1 = c @ rest"
      "avail s1 = length c" "\<forall>s2. moved s1 c s2 \<longrightarrow> (\<exists>s3. stream_ListEnd s2 = (Inr (), s3))"
    using stream_List_complete [OF ok, of c rest] h by (auto simp: here_def)
  note l = stream_List_sound [OF ok s1(1)]
  show thesis using step [of s1] s1 l(1-3) by (simp add: here_def fills_def)
qed

lemma elems_complete_step:
  assumes h: "here s (enc t v @ encElems t vs) rest" "fills s (enc t v @ encElems t vs)" and t: "dtype t"
    and v: "\<exists>n s'. decoder n t s = Some (Inr v, s')"
    and vs: "\<And>s i. here s (encElems t vs) rest \<Longrightarrow> fills s (encElems t vs) \<Longrightarrow>
      (\<exists>n s'. decodeSliceElems (decoder n t) n i s = Some (Inr vs, s')) \<and>
      (\<exists>n s'. decodeArrayElems (decoder n t) (length vs) i s = Some (Inr vs, s'))"
  shows "(\<exists>n s'. decodeSliceElems (decoder n t) n i s = Some (Inr (v # vs), s')) \<and>
      (\<exists>n s'. decodeArrayElems (decoder n t) (length (v # vs)) i s = Some (Inr (v # vs), s'))"
proof -
  obtain n1 s1 where d: "decoder n1 t s = Some (Inr v, s1)" using v by blast
  note h1 = here_sound [OF h(1) t d]
  obtain n2 s2 n3 s3 where e: "decodeSliceElems (decoder n2 t) n2 (Suc i) s1 = Some (Inr vs, s2)"
    and a: "decodeArrayElems (decoder n3 t) (length vs) (Suc i) s1 = Some (Inr vs, s3)"
    using vs [OF h1(1) h1(2) [OF h(2)]] by blast
  let ?m = "n1 + n2 + n3"
  have m: "decoder ?m t s = Some (Inr v, s1)" "decoder (Suc ?m) t s = Some (Inr v, s1)"
    by (rule decoder_more [OF d], simp)+
  have "decodeSliceElems (decoder (Suc ?m) t) ?m (Suc i) s1 = Some (Inr vs, s2)"
    by (rule fuel_leD [OF decodeSliceElems_mono [OF decoder_mono] e]) simp_all
  then have "decodeSliceElems (decoder (Suc ?m) t) (Suc ?m) i s = Some (Inr (v # vs), s2)"
    using m(2) by (simp del: decoder.simps)
  moreover have "decodeArrayElems (decoder ?m t) (length vs) (Suc i) s1 = Some (Inr vs, s3)"
    by (rule fuel_leD [OF decodeArrayElems_mono [OF decoder_mono] a]) simp
  then have "decodeArrayElems (decoder ?m t) (length (v # vs)) i s = Some (Inr (v # vs), s3)"
    using m(1) by (simp del: decoder.simps)
  ultimately show ?thesis by blast
qed

lemma fields_complete_step:
  assumes h: "here s (enc t v @ encFields ts vs) rest" "fills s (enc t v @ encFields ts vs)" and t: "dtype t"
    and v: "\<exists>n s'. decoder n t s = Some (Inr v, s')"
    and vs: "\<And>s i. here s (encFields ts vs) rest \<Longrightarrow> fills s (encFields ts vs) \<Longrightarrow>
      \<exists>n s'. decodeFields (map (decoder n) ts) i s = Some (Inr vs, s')"
  shows "\<exists>n s'. decodeFields (map (decoder n) (t # ts)) i s = Some (Inr (v # vs), s')"
proof -
  obtain n1 s1 where d: "decoder n1 t s = Some (Inr v, s1)" using v by blast
  note h1 = here_sound [OF h(1) t d]
  obtain n2 s2 where e: "decodeFields (map (decoder n2) ts) (Suc i) s1 = Some (Inr vs, s2)"
    using vs [OF h1(1) h1(2) [OF h(2)]] by blast
  have "decodeFields (map (decoder (n1 + n2)) ts) (Suc i) s1 = Some (Inr vs, s2)"
    by (rule fuel_leD [OF decodeFields_mono [OF decoder_mono] e]) simp
  then have "decodeFields (map (decoder (n1 + n2)) (t # ts)) i s = Some (Inr (v # vs), s2)"
    using decoder_more [OF d, of "n1 + n2"] by simp
  then show ?thesis by blast
qed

lemma slice_complete:
  assumes h: "here s (rlp_list (encElems t vs)) rest" and t: "dtype t" "\<not> is_tail t"
    and ne: "vs \<noteq> [] \<Longrightarrow> encElems t vs \<noteq> []"
    and vs: "\<And>s1. here s1 (encElems t vs) rest \<Longrightarrow> fills s1 (encElems t vs) \<Longrightarrow>
      \<exists>n s2. decodeSliceElems (decoder n t) n 0 s1 = Some (Inr vs, s2)"
  shows "\<exists>n s'. decodeListSlice (decoder n t) n s = Some (Inr vs, s')"
proof (rule list_complete [OF h])
  fix s1
  let ?c = "encElems t vs"
  assume h1: "here s1 ?c rest" and f1: "fills s1 ?c" and L: "stream_List s = (Inr (word_of_nat (length ?c)), s1)"
    and E: "\<And>s2. moved s1 ?c s2 \<Longrightarrow> \<exists>s3. stream_ListEnd s2 = (Inr (), s3)"
  obtain n s2 where e: "decodeSliceElems (decoder n t) n 0 s1 = Some (Inr vs, s2)" using vs [OF h1 f1] by blast
  have "dec_eol (decoder n t)" using decoder_EOL t unfolding dec_eol_def by blast
  then have "moved s1 ?c s2"
    using decodeSliceElems_sound [OF decoder_sound [OF t(1)] _ _ _ e] h1 by (simp add: here_def)
  then obtain s3 where s3: "stream_ListEnd s2 = (Inr (), s3)" using E by blast
  have "unat (word_of_nat (length ?c) :: uint64) = length ?c"
    using avail_bound [of s1] h1 by (intro unat_word_of_nat_64) (simp add: here_def)
  then have z: "(word_of_nat (length ?c) :: uint64) = 0 \<longleftrightarrow> ?c = []" by (metis length_0_conv unat_0 unat_eq_0)
  show ?thesis
  proof (cases "?c = []")
    case True
    then have "vs = []" using ne by blast
    moreover obtain s4 where "stream_ListEnd s1 = (Inr (), s4)" using E [of s1] True moved_refl [of s1 s1] by auto
    ultimately show ?thesis using L by (simp add: decodeListSlice_def)
  next
    case False
    then show ?thesis using L z e s3 by (intro exI [of _ n]) (simp add: decodeListSlice_def)
  qed
qed

lemma array_complete:
  assumes h: "here s (rlp_list (encElems t vs)) rest" and t: "dtype t"
    and vs: "\<And>s1. here s1 (encElems t vs) rest \<Longrightarrow> fills s1 (encElems t vs) \<Longrightarrow>
      \<exists>n s2. decodeArrayElems (decoder n t) (length vs) 0 s1 = Some (Inr vs, s2)"
  shows "\<exists>n s'. decodeListArray (decoder n t) (length vs) s = Some (Inr vs, s')"
proof (rule list_complete [OF h])
  fix s1
  let ?c = "encElems t vs"
  assume h1: "here s1 ?c rest" and f1: "fills s1 ?c" and L: "stream_List s = (Inr (word_of_nat (length ?c)), s1)"
    and E: "\<And>s2. moved s1 ?c s2 \<Longrightarrow> \<exists>s3. stream_ListEnd s2 = (Inr (), s3)"
  obtain n s2 where e: "decodeArrayElems (decoder n t) (length vs) 0 s1 = Some (Inr vs, s2)"
    using vs [OF h1 f1] by blast
  then have "moved s1 ?c s2"
    using decodeArrayElems_sound [OF decoder_sound [OF t] _ _ e] h1 by (simp add: here_def)
  then obtain s3 where "stream_ListEnd s2 = (Inr (), s3)" using E by blast
  then show ?thesis using L e by (intro exI [of _ n]) (simp add: decodeListArray_def)
qed

lemma dfields_dtype: "t \<in> set ts \<Longrightarrow> dfields ts \<Longrightarrow> dtype t"
  by (induction ts) auto

lemma struct_complete:
  assumes h: "here s (rlp_list (encFields ts vs)) rest" and t: "dfields ts"
    and vs: "\<And>s1. here s1 (encFields ts vs) rest \<Longrightarrow> fills s1 (encFields ts vs) \<Longrightarrow>
      \<exists>n s2. decodeFields (map (decoder n) ts) 0 s1 = Some (Inr vs, s2)"
  shows "\<exists>n s'. decodeStruct (map (decoder n) ts) s = Some (Inr vs, s')"
proof (rule list_complete [OF h])
  fix s1
  let ?c = "encFields ts vs"
  assume h1: "here s1 ?c rest" and f1: "fills s1 ?c" and L: "stream_List s = (Inr (word_of_nat (length ?c)), s1)"
    and E: "\<And>s2. moved s1 ?c s2 \<Longrightarrow> \<exists>s3. stream_ListEnd s2 = (Inr (), s3)"
  obtain n s2 where e: "decodeFields (map (decoder n) ts) 0 s1 = Some (Inr vs, s2)"
    using vs [OF h1 f1] by blast
  then have "moved s1 ?c s2"
    using decodeFields_sound [OF decoder_sound _ _ e] dfields_dtype [OF _ t] h1 by (auto simp: here_def)
  then obtain s3 where "stream_ListEnd s2 = (Inr (), s3)" using E by blast
  then show ?thesis using L e by (intro exI [of _ n]) (simp add: decodeStruct_def)
qed

lemma raw_value_pos: "raw_value x \<Longrightarrow> x \<noteq> []"
  using head_of_pos by (fastforce simp: raw_value_def)

lemma encElems_ne: "decodesElems t vs \<Longrightarrow> dtype t \<Longrightarrow> \<not> is_tail t \<Longrightarrow> vs \<noteq> [] \<Longrightarrow> encElems t vs \<noteq> []"
  using enc_raw_value raw_value_pos by (cases vs) auto

lemma Kind_raw_value:
  assumes "here s (enc t v) rest" "raw_value (enc t v)"
  obtains k h c b s1 where "enc t v = h @ c" "head_of k h (length c) b" "Kind s = (Inr (k, word_of_nat (length c)), s1)"
proof -
  obtain k h b c where h: "head_of k h (length c) b" "enc t v = h @ c" using assms(2) by (auto simp: raw_value_def)
  then obtain s1 where "Kind s = (Inr (k, word_of_nat (length c)), s1)"
    using Kind_complete [of s h "c @ rest" k "length c" b] assms(1) by (auto simp: here_def)
  with h show thesis using that by simp
qed

lemma nilptr_complete:
  assumes h: "here s (enc (TNilPtr k t) v) rest" and t: "dtype (TNilPtr k t)" and v: "decodes_to (TNilPtr k t) v"
    and d: "\<And>v'. v = VPtr v' \<Longrightarrow> \<exists>n s'. decoder n t s = Some (Inr v', s')"
  shows "\<exists>n s'. decodeNilPtr k (decoder n t) s = Some (Inr v, s')"
proof -
  have ok: "stream_ok s" "s_kind s = None" using h by (simp_all add: here_def)
  consider "v = VNil" | v' where "v = VPtr v'" "decodes_to t v'" "enc t v' \<noteq> [0x80]" "enc t v' \<noteq> [0xC0]"
    using v by (auto split: gval.splits)
  then show ?thesis
  proof cases
    case 1
    then obtain s1 where "Kind s = (Inr (k, 0), s1)"
      using Kind_complete [OF ok, of "rlp_empty k" rest k 0] rlp_empty_head [of k] h t by (auto simp: here_def)
    then show ?thesis using 1 t by (simp add: decodeNilPtr_def)
  next
    case 2
    then have h': "here s (enc t v') rest" using h by simp
    have rv: "raw_value (enc t v')" using enc_raw_value 2 t by auto
    obtain k' hd' c b s1 where K: "enc t v' = hd' @ c" "head_of k' hd' (length c) b"
      "Kind s = (Inr (k', word_of_nat (length c)), s1)" by (rule Kind_raw_value [OF h' rv])
    have u: "unat (word_of_nat (length c) :: uint64) = length c"
      using avail_bound [OF ok(1)] h' K(1) by (intro unat_word_of_nat_64) (simp add: here_def)
    have "\<not> (k' \<noteq> KByte \<and> (word_of_nat (length c) :: uint64) = 0)"
    proof
      assume z: "k' \<noteq> KByte \<and> (word_of_nat (length c) :: uint64) = 0"
      then have "c = []" using u by (metis length_0_conv unat_0)
      then have "enc t v' = rlp_empty k'" using K(1,2) rlp_empty_head [of k' hd' b] z by simp
      then show False using 2(3,4) by (simp add: rlp_empty_def split: if_splits)
    qed
    moreover obtain n s' where "decoder n t s = Some (Inr v', s')" using d 2(1) by blast
    ultimately show ?thesis using K(3) ahead_decoder [OF K(3), of n t] 2(1)
      by (intro exI [of _ n]) (auto simp: decodeNilPtr_def)
  qed
qed

lemma interface_complete:
  assumes h: "here s (enc TInterface v) rest" and v: "v = VIface t' v'" "t' = TByteSlice \<or> t' = TSlice TInterface"
    and d: "\<exists>n s'. decoder n t' s = Some (Inr v', s')" and v': "decodes_to t' v'"
  shows "\<exists>n s'. decodeInterface (decoder n TInterface) n s = Some (Inr v, s')"
proof -
  have h': "here s (enc t' v') rest" using h v by simp
  have rv: "raw_value (enc t' v')" using v' v(2) by (intro enc_raw_value) auto
  obtain k hd' c b s1 where K: "enc t' v' = hd' @ c" "head_of k hd' (length c) b"
    "Kind s = (Inr (k, word_of_nat (length c)), s1)" by (rule Kind_raw_value [OF h' rv])
  obtain n s' where n: "decoder n t' s = Some (Inr v', s')" using d by blast
  then obtain m where m: "n = Suc m" by (cases n) auto
  show ?thesis
  proof (cases "t' = TByteSlice")
    case True
    then obtain b where b: "v' = VBytes b" "stream_Bytes s = (Inr b, s')"
      using n m by (auto simp: decodeByteSlice_def wrapped_Inr)
    have "k \<noteq> KList"
    proof
      assume "k = KList"
      then have "stream_Bytes s = (Inl ErrExpectedString, s1)" using K(3) by (simp add: stream_Bytes_def)
      with b show False by simp
    qed
    then show ?thesis using b K(3) ahead_ops(2) [OF K(3)] v True by (simp add: decodeInterface_def)
  next
    case False
    then obtain vs where vs: "v' = VList vs" "decodeListSlice (decoder m TInterface) m s = Some (Inr vs, s')"
      using n m v(2) by (auto simp: result_simps)
    have "k = KList"
    proof (rule ccontr)
      assume "k \<noteq> KList"
      then have "stream_List s = (Inl ErrExpectedList, s1)" using K(3) by (simp add: stream_List_def)
      with vs show False by (simp add: decodeListSlice_def)
    qed
    then show ?thesis using vs K(3) ahead_lists(1) [OF K(3)] v False
      by (intro exI [of _ m] exI [of _ s']) (simp add: decodeInterface_def)
  qed
qed

lemma leaf_complete:
  "here s x rest \<Longrightarrow> raw_value x \<Longrightarrow> \<exists>s'. decodeRawValue s = (Inr (VBytes x), s')"
  "here s (rlp_string (be_bytes (nat i))) rest \<Longrightarrow> 0 \<le> i \<Longrightarrow> \<exists>s'. decodeBigInt s = (Inr (VBigInt i), s')"
  "here s (rlp_string (if q then [1] else [])) rest \<Longrightarrow> \<exists>s'. decodeBool s = (Inr (VBool q), s')"
  "here s (rlp_string b) rest \<Longrightarrow> \<exists>s'. decodeString s = (Inr (VBytes b), s')"
  "here s (rlp_string b) rest \<Longrightarrow> \<exists>s'. decodeByteSlice s = (Inr (VBytes b), s')"
  "here s (rlp_string b) rest \<Longrightarrow> length b \<noteq> Suc 0 \<Longrightarrow> \<exists>s'. decodeByteArray (length b) s = (Inr (VBytes b), s')"
  using Raw_complete [of s x rest] decodeBigInt_complete [of s i rest] bool_reader.wrapped_complete [of s q rest VBool]
    bytes_reader.wrapped_complete [of s b rest VBytes] decodeByteArray_complete [of s b rest]
  by (auto simp: here_def decodeRawValue_def decodeBool_def decodeString_def decodeByteSlice_def)

lemma decoder_complete:
  "dtype t \<Longrightarrow> decodes_to t v \<Longrightarrow> here s (enc t v) rest \<Longrightarrow> (is_tail t \<Longrightarrow> fills s (enc t v)) \<Longrightarrow>
    \<exists>n s'. decoder n t s = Some (Inr v, s')"
  "dtype t \<Longrightarrow> \<not> is_tail t \<Longrightarrow> decodesElems t vs \<Longrightarrow> here s (encElems t vs) rest \<Longrightarrow> fills s (encElems t vs) \<Longrightarrow>
    (\<exists>n s'. decodeSliceElems (decoder n t) n i s = Some (Inr vs, s')) \<and>
    (\<exists>n s'. decodeArrayElems (decoder n t) (length vs) i s = Some (Inr vs, s'))"
  "dfields ts \<Longrightarrow> decodesFields ts vs \<Longrightarrow> here s (encFields ts vs) rest \<Longrightarrow> fills s (encFields ts vs) \<Longrightarrow>
    \<exists>n s'. decodeFields (map (decoder n) ts) i s = Some (Inr vs, s')"
proof (induction t v and t vs and ts vs arbitrary: s rest and i s rest and i s rest rule: enc_encElems_encFields.induct)
  case (3 t v)
  then obtain v' where v: "v = VPtr v'" by (auto split: gval.splits)
  then obtain n s' where "decoder n t s = Some (Inr v', s')" using 3 by fastforce
  then show ?case using v by (intro exI [of _ "Suc n"]) (simp add: decodePtr_def)
next
  case (4 k t v)
  have "\<exists>n s'. decodeNilPtr k (decoder n t) s = Some (Inr v, s')"
    using 4 by (intro nilptr_complete) (auto)
  then obtain n s' where "decodeNilPtr k (decoder n t) s = Some (Inr v, s')" by blast
  then show ?case by (intro exI [of _ "Suc n"]) simp
next
  case (5 bits v)
  then obtain i where v: "v = VUint i" by (auto split: gval.splits)
  then have "\<exists>s'. decodeUint bits s = (Inr (VUint i), s')"
    using stream_reader.wrapped_complete [OF uint_reader [of bits], of s i rest VUint] 5
    by (auto simp: here_def decodeUint_def)
  then show ?case using v by (intro exI [of _ "Suc 0"]) simp
next
  case (10 t v)
  then obtain vs where v: "v = VList vs" by (auto split: gval.splits)
  have "\<exists>n s'. decodeListSlice (decoder n t) n s = Some (Inr vs, s')"
    using 10 v encElems_ne by (intro slice_complete) auto
  then obtain n s' where "decodeListSlice (decoder n t) n s = Some (Inr vs, s')" by blast
  then show ?case using v by (intro exI [of _ "Suc n"]) (simp add: vlist_def)
next
  case (11 k t v)
  then obtain vs where v: "v = VList vs" "k = length vs" by (auto split: gval.splits)
  have "\<exists>n s'. decodeListArray (decoder n t) (length vs) s = Some (Inr vs, s')"
    using 11 v by (intro array_complete) auto
  then obtain n s' where "decodeListArray (decoder n t) (length vs) s = Some (Inr vs, s')" by blast
  then show ?case using v by (intro exI [of _ "Suc n"]) (simp add: vlist_def)
next
  case (12 t v)
  then obtain vs where v: "v = VList vs" by (auto split: gval.splits)
  then obtain n s' where "decodeSliceElems (decoder n t) n 0 s = Some (Inr vs, s')" using 12 by fastforce
  then show ?case using v by (intro exI [of _ "Suc n"]) (simp add: vlist_def)
next
  case (13 ts v)
  then obtain vs where v: "v = VList vs" by (auto split: gval.splits)
  have "\<exists>n s'. decodeStruct (map (decoder n) ts) s = Some (Inr vs, s')"
    using 13 v by (intro struct_complete) auto
  then obtain n s' where "decodeStruct (map (decoder n) ts) s = Some (Inr vs, s')" by blast
  then show ?case using v by (intro exI [of _ "Suc n"]) (simp add: vlist_def)
next
  case (14 v)
  then obtain t' v' where v: "v = VIface t' v'" "t' = TByteSlice \<or> t' = TSlice TInterface" "decodes_to t' v'"
    by (auto split: gval.splits)
  have "\<exists>n s'. decoder n t' s = Some (Inr v', s')"
    using "14.IH" [OF v(1)] v "14.prems" by auto
  from interface_complete [OF "14.prems"(3) v(1,2) this v(3)] obtain n s'
    where "decodeInterface (decoder n TInterface) n s = Some (Inr v, s')" by blast
  then show ?case by (intro exI [of _ "Suc n"]) simp
next
  case (15 t)
  then have "stream_ok s" "s_kind s = None" "s_stack s \<noteq> []" "avail s = 0" by (auto simp: here_def fills_def)
  from decoder_at_end [OF this "15.prems"(1,2)] obtain n
    where n: "decoder n t s = Some (Inl EOL, s\<lparr>s_kinderr := None\<rparr>)" by blast
  have "decodeSliceElems (decoder (Suc n) t) (Suc n) i s = Some (Inr [], s\<lparr>s_kinderr := None\<rparr>)"
    using decoder_more [OF n, of "Suc n"] by (simp del: decoder.simps)
  then have "\<exists>n s'. decodeSliceElems (decoder n t) n i s = Some (Inr [], s')" by blast
  then show ?case by simp
next
  case (16 t v vs)
  have "\<exists>n s'. decoder n t s = Some (Inr v, s')"
    using 16 by (intro "16.IH"(1)) (auto simp: here_def)
  with 16 show ?case by (intro elems_complete_step [of s t v vs rest i]) auto
next
  case (18 t ts vs)
  then obtain v vs' where v: "vs = v # vs'" by (auto split: list.splits)
  have "\<exists>n s'. decoder n t s = Some (Inr v, s')"
    using 18 v by (intro "18.IH"(1) [OF v]) (auto simp: here_def)
  with 18 v fields_complete_step [of s t v ts vs' rest i] show ?case by auto
qed (auto intro!: exI [of _ "Suc 0"] simp: leaf_complete split: gval.splits)

subsection \<open>Decoding a byte slice\<close>

lemma stream_Reset_here:
  assumes "length b < 2 ^ 63"
  shows "here (stream_Reset b True (word_of_nat (length b))) b []"
proof -
  have "unat (word_of_nat (length b) :: uint64) = length b" using assms by (intro unat_word_of_nat_64) simp
  then show ?thesis by (simp add: here_def stream_Reset_def stream_ok_def avail_def)
qed

lemma DecodeBytes_value:
  "DecodeBytes n t b = Some (Inr v) \<longleftrightarrow>
    (\<exists>s'. decoder n t (stream_Reset b True (word_of_nat (length b))) = Some (Inr v, s') \<and> s_r s' = [])"
  by (auto simp: DecodeBytes_def stream_Decode_def split: option.splits prod.splits sum.splits rlp_err.splits)

lemma DecodeBytes_iff:
  assumes "dtype t" and "\<not> is_tail t" and "length b < 2 ^ 63"
  shows "(\<exists>N. \<forall>fuel\<ge>N. DecodeBytes fuel t b = Some (Inr v)) \<longleftrightarrow> decodes_to t v \<and> b = enc t v"
proof
  let ?s = "stream_Reset b True (word_of_nat (length b))"
  note h = stream_Reset_here [OF assms(3)]
  assume "\<exists>N. \<forall>fuel\<ge>N. DecodeBytes fuel t b = Some (Inr v)"
  then obtain n s' where d: "decoder n t ?s = Some (Inr v, s')" and e: "s_r s' = []"
    unfolding DecodeBytes_value by blast
  have "stream_ok ?s" "s_kind ?s = None" "s_r ?s = b" using h by (simp_all add: here_def)
  with dec_soundD [OF decoder_sound [OF assms(1)] _ _ d] e show "decodes_to t v \<and> b = enc t v"
    by (simp add: moved_def)
next
  let ?s = "stream_Reset b True (word_of_nat (length b))"
  assume v: "decodes_to t v \<and> b = enc t v"
  then have h: "here ?s (enc t v) []" using stream_Reset_here [OF assms(3)] by simp
  then obtain n s' where d: "decoder n t ?s = Some (Inr v, s')"
    using decoder_complete(1) [OF assms(1)] v assms(2) by blast
  have "s_r s' = []"
    using dec_soundD(2) [OF decoder_sound [OF assms(1)] _ _ d] h by (simp add: here_def moved_def)
  then show "\<exists>N. \<forall>fuel\<ge>N. DecodeBytes fuel t b = Some (Inr v)"
    using decoder_more [OF d] unfolding DecodeBytes_value by blast
qed

lemma decodes_encodable:
  "decodes_to t v \<Longrightarrow> encodable t v"
  "decodesElems t vs \<Longrightarrow> encodableElems t vs"
  "decodesFields ts vs \<Longrightarrow> encodableFields ts vs"
  by (induction t v and t vs and ts vs rule: enc_encElems_encFields.induct)
    (auto split: gval.splits list.splits)

lemma EncodeToBytes_iff:
  assumes "encodable t v" and "length (enc t v) < 2 ^ 63"
  shows "EncodeToBytes t v = Inr b \<longleftrightarrow> b = enc t v"
proof -
  have "length (enc t v) < 18446744073709551616" using assms(2) by simp
  then obtain w where "writer t v encbuf_reset = Inr w" "appends encbuf_reset (enc t v) w"
    using writer_appends(1) [OF assms(1)] by blast
  then show ?thesis using appends_reset(1) by (auto simp: EncodeToBytes_def)
qed



subsection \<open>Every decoding ends\<close>

definition ends_within :: "nat \<Rightarrow> gtype \<Rightarrow> bool" where
  "ends_within k t \<longleftrightarrow> (\<forall>s. stream_ok s \<longrightarrow> s_kind s = None \<longrightarrow> length (s_r s) \<le> k \<longrightarrow>
    (\<exists>n r. decoder n t s = Some r))"

lemma decoder_step:
  assumes "dtype t" "stream_ok s" "s_kind s = None" "decoder n t s = Some (Inr v, s')"
  shows "stream_ok s'" "s_kind s' = None" "length (s_r s') \<le> length (s_r s)"
    and "\<not> is_tail t \<Longrightarrow> length (s_r s') < length (s_r s)"
proof -
  note d = dec_soundD [OF decoder_sound [OF assms(1)] assms(2-4)]
  show "stream_ok s'" "s_kind s' = None" "length (s_r s') \<le> length (s_r s)"
    using d by (simp_all add: moved_def)
  show "length (s_r s') < length (s_r s)" if "\<not> is_tail t"
    using d raw_value_pos [OF enc_raw_value [OF d(1) assms(1) that]] by (simp add: moved_def)
qed

lemma elems_end:
  assumes t: "dtype t" "\<not> is_tail t" and e: "ends_within k t"
  shows "stream_ok s \<Longrightarrow> s_kind s = None \<Longrightarrow> length (s_r s) \<le> k \<Longrightarrow>
    \<exists>n r. decodeSliceElems (decoder n t) n i s = Some r"
proof (induction "length (s_r s)" arbitrary: s i rule: less_induct)
  case less
  obtain n v s1 where d: "decoder n t s = Some (v, s1)"
    using e less.prems unfolding ends_within_def by (metis prod.exhaust)
  show ?case
  proof (cases v)
    case (Inl e)
    then have "\<exists>r. decodeSliceElems (decoder (Suc n) t) (Suc n) i s = Some r"
      using decoder_more [OF d, of "Suc n"] by (simp del: decoder.simps)
    then show ?thesis by blast
  next
    case (Inr x)
    note s1 = decoder_step [OF t(1) less.prems(1,2) d [unfolded Inr]]
    obtain m r where m: "decodeSliceElems (decoder m t) m (Suc i) s1 = Some r"
      using less.hyps [OF s1(4) [OF t(2)] s1(1,2)] less.prems(3) s1(3) by fastforce
    have "decodeSliceElems (decoder (Suc (n + m)) t) (n + m) (Suc i) s1 = Some r"
      by (rule fuel_leD [OF decodeSliceElems_mono [OF decoder_mono] m]) simp_all
    then have "\<exists>r. decodeSliceElems (decoder (Suc (n + m)) t) (Suc (n + m)) i s = Some r"
      using decoder_more [OF d, of "Suc (n + m)"] Inr by (simp del: decoder.simps)
    then show ?thesis by blast
  qed
qed

lemma array_end:
  assumes t: "dtype t" and e: "ends_within k t"
  shows "stream_ok s \<Longrightarrow> s_kind s = None \<Longrightarrow> length (s_r s) \<le> k \<Longrightarrow>
    \<exists>n r. decodeArrayElems (decoder n t) vlen i s = Some r"
proof (induction vlen arbitrary: s i)
  case (Suc vlen)
  obtain n v s1 where d: "decoder n t s = Some (v, s1)"
    using e Suc.prems unfolding ends_within_def by (metis prod.exhaust)
  show ?case
  proof (cases v)
    case (Inl e)
    then show ?thesis using d by (intro exI [of _ n]) simp
  next
    case (Inr x)
    note s1 = decoder_step [OF t Suc.prems(1,2) d [unfolded Inr]]
    obtain m r where m: "decodeArrayElems (decoder m t) vlen (Suc i) s1 = Some r"
      using Suc.IH [OF s1(1,2)] Suc.prems(3) s1(3) by fastforce
    have "decodeArrayElems (decoder (n + m) t) vlen (Suc i) s1 = Some r"
      by (rule fuel_leD [OF decodeArrayElems_mono [OF decoder_mono] m]) simp
    then show ?thesis using decoder_more [OF d, of "n + m"] Inr by (intro exI [of _ "n + m"]) simp
  qed
qed simp

lemma fields_end:
  "dfields ts \<Longrightarrow> (\<And>t. t \<in> set ts \<Longrightarrow> ends_within k t) \<Longrightarrow> stream_ok s \<Longrightarrow> s_kind s = None \<Longrightarrow>
    length (s_r s) \<le> k \<Longrightarrow> \<exists>n r. decodeFields (map (decoder n) ts) i s = Some r"
proof (induction ts arbitrary: s i)
  case (Cons t ts)
  obtain n v s1 where d: "decoder n t s = Some (v, s1)"
    using Cons.prems(2) [of t] Cons.prems(3-5) unfolding ends_within_def by (metis list.set_intros(1) prod.exhaust)
  show ?case
  proof (cases v)
    case (Inl e)
    then show ?thesis using d by (intro exI [of _ n]) simp
  next
    case (Inr x)
    have "dtype t" using Cons.prems(1) by simp
    note s1 = decoder_step [OF this Cons.prems(3,4) d [unfolded Inr]]
    have "length (s_r s1) \<le> k" using s1(3) Cons.prems(5) by simp
    then obtain m r where m: "decodeFields (map (decoder m) ts) (Suc i) s1 = Some r"
      using Cons.IH [of s1 "Suc i"] Cons.prems(1,2) s1(1,2) by auto
    have "decodeFields (map (decoder (n + m)) ts) (Suc i) s1 = Some r"
      by (rule fuel_leD [OF decodeFields_mono [OF decoder_mono] m]) simp
    then show ?thesis using decoder_more [OF d, of "n + m"] Inr by (intro exI [of _ "n + m"]) simp
  qed
qed simp

lemma ends_withinI:
  assumes "\<And>s. stream_ok s \<Longrightarrow> s_kind s = None \<Longrightarrow> length (s_r s) \<le> k \<Longrightarrow> \<exists>n r. decoder (Suc n) t s = Some r"
  shows "ends_within k t"
  unfolding ends_within_def using assms by blast

lemma slice_end:
  assumes t: "dtype t" "\<not> is_tail t" and e: "\<And>j. j < k \<Longrightarrow> ends_within j t"
    and s: "stream_ok s" "s_kind s = None" "length (s_r s) \<le> k"
  shows "\<exists>n r. decodeListSlice (decoder n t) n s = Some r"
proof (cases "\<exists>sz s1. stream_List s = (Inr sz, s1)")
  case True
  then obtain sz s1 where L: "stream_List s = (Inr sz, s1)" by blast
  note l = stream_List_sound [OF s(1,2) L]
  obtain h where "s_r s = h @ s_r s1" "h \<noteq> []" using l(7) by blast
  then have lt: "length (s_r s1) < k" using s(3) by (cases h) auto
  obtain n r where "decodeSliceElems (decoder n t) n 0 s1 = Some r"
    using elems_end [OF t e [OF lt] l(1,2) order_refl] by blast
  then show ?thesis using L
    by (intro exI [of _ n]) (auto simp: decodeListSlice_def split: prod.splits sum.splits)
next
  case False
  then show ?thesis by (cases "stream_List s"; cases "fst (stream_List s)") (auto simp: decodeListSlice_def)
qed

lemma list_end:
  assumes s: "stream_ok s" "s_kind s = None" "length (s_r s) \<le> k"
    and step: "\<And>s1. stream_ok s1 \<Longrightarrow> s_kind s1 = None \<Longrightarrow> length (s_r s1) \<le> k \<Longrightarrow> \<exists>n r. f n s1 = Some r"
  shows "\<exists>n. \<forall>sz s1. stream_List s = (Inr sz, s1) \<longrightarrow> (\<exists>r. f n s1 = Some r)"
proof (cases "stream_List s")
  case (Pair x s1)
  show ?thesis
  proof (cases x)
    case (Inr sz)
    note l = stream_List_sound [OF s(1,2) Pair [unfolded Inr]]
    then show ?thesis using step [OF l(1,2)] s(3) Pair Inr by fastforce
  qed (simp add: Pair)
qed

lemma decoder_ends: "dtype t \<Longrightarrow> ends_within k t"
proof (induction k arbitrary: t rule: less_induct)
  case (less k)
  note shorter = less.IH
  show ?case using less.prems
  proof (induction t)
    case (TSlice t)
    show ?case
    proof (rule ends_withinI)
      fix s assume "stream_ok s" "s_kind s = None" "length (s_r s) \<le> k"
      then obtain n r where "decodeListSlice (decoder n t) n s = Some r"
        using slice_end [of t k s] shorter TSlice.prems by auto
      then show "\<exists>n r. decoder (Suc n) (TSlice t) s = Some r" by (intro exI [of _ n]) (simp add: vlist_def)
    qed
  next
    case (TArray m t)
    show ?case
    proof (rule ends_withinI)
      fix s assume s: "stream_ok s" "s_kind s = None" "length (s_r s) \<le> k"
      have "dtype t" "ends_within k t" using TArray by auto
      from list_end [OF s, of "\<lambda>n. decodeArrayElems (decoder n t) m 0", OF array_end [OF this]]
      obtain n where "\<forall>sz s1. stream_List s = (Inr sz, s1) \<longrightarrow>
        (\<exists>r. decodeArrayElems (decoder n t) m 0 s1 = Some r)" by blast
      then show "\<exists>n r. decoder (Suc n) (TArray m t) s = Some r"
        by (intro exI [of _ n])
          (auto simp: vlist_def decodeListArray_def split: prod.splits sum.splits, metis surj_pair)
    qed
  next
    case (TStruct ts)
    show ?case
    proof (rule ends_withinI)
      fix s assume s: "stream_ok s" "s_kind s = None" "length (s_r s) \<le> k"
      have "dfields ts" "\<And>t. t \<in> set ts \<Longrightarrow> ends_within k t" using TStruct dfields_dtype by auto
      from list_end [OF s, of "\<lambda>n. decodeFields (map (decoder n) ts) 0", OF fields_end [OF this]]
      obtain n where "\<forall>sz s1. stream_List s = (Inr sz, s1) \<longrightarrow>
        (\<exists>r. decodeFields (map (decoder n) ts) 0 s1 = Some r)" by blast
      then show "\<exists>n r. decoder (Suc n) (TStruct ts) s = Some r"
        by (intro exI [of _ n])
          (auto simp: vlist_def decodeStruct_def split: prod.splits sum.splits, metis surj_pair)
    qed
  next
    case (TTail t)
    show ?case
    proof (rule ends_withinI)
      fix s assume s: "stream_ok s" "s_kind s = None" "length (s_r s) \<le> k"
      then obtain n r where "decodeSliceElems (decoder n t) n 0 s = Some r"
        using elems_end [of t k s 0] TTail by auto
      then show "\<exists>n r. decoder (Suc n) (TTail t) s = Some r" by (intro exI [of _ n]) (simp add: vlist_def)
    qed
  next
    case (TPtr t)
    then show ?case
      by (intro ends_withinI) (fastforce simp: ends_within_def decodePtr_def)
  next
    case (TNilPtr nk t)
    show ?case
    proof (rule ends_withinI)
      fix s assume s: "stream_ok s" "s_kind s = None" "length (s_r s) \<le> k"
      then obtain n r where d: "decoder n t s = Some r" using TNilPtr by (auto simp: ends_within_def)
      show "\<exists>n r. decoder (Suc n) (TNilPtr nk t) s = Some r"
        using d ahead_decoder [of s]
        by (intro exI [of _ n]) (auto simp: decodeNilPtr_def split: prod.splits sum.splits)
    qed
  next
    case TInterface
    show ?case
    proof (rule ends_withinI)
      fix s assume s: "stream_ok s" "s_kind s = None" "length (s_r s) \<le> k"
      obtain n r where d: "decodeListSlice (decoder n TInterface) n s = Some r"
        using slice_end [OF _ _ shorter s, of TInterface] by auto
      show "\<exists>n r. decoder (Suc n) TInterface s = Some r"
        using d ahead_lists(1) [of s]
        by (intro exI [of _ n]; cases r) (auto simp: decodeInterface_def split: prod.splits sum.splits)
    qed
  qed (rule ends_withinI, simp)+
qed

text \<open>
  C24. Decoding ends. For every type and every input, \<open>DecodeBytes\<close> returns a value or an
  error, the same one for every sufficiently large fuel: the element loop of slices and
  the recursion through interfaces consume input in every round.
\<close>

theorem DecodeBytes_terminates:
  assumes "dtype t" and "length b < 2 ^ 63"
  shows "\<exists>N r. \<forall>fuel\<ge>N. DecodeBytes fuel t b = Some r"
proof -
  let ?s = "stream_Reset b True (word_of_nat (length b))"
  have "stream_ok ?s" "s_kind ?s = None" using stream_Reset_here [OF assms(2)] by (simp_all add: here_def)
  then obtain n r where d: "decoder n t ?s = Some r"
    using decoder_ends [OF assms(1), of "length (s_r ?s)"] by (auto simp: ends_within_def)
  then have "DecodeBytes n t b \<noteq> None"
    by (auto simp: DecodeBytes_def stream_Decode_def split: option.splits prod.splits sum.splits rlp_err.splits)
  then obtain r' where "DecodeBytes n t b = Some r'" by blast
  moreover have "DecodeBytes fuel t b = DecodeBytes n t b" if "n \<le> fuel" for fuel
    using decoder_more [OF d that] d by (simp add: DecodeBytes_def stream_Decode_def)
  ultimately show ?thesis by metis
qed

theorem DecodeBytes_terminates_witness:
  "\<exists>N r. \<forall>fuel\<ge>N. DecodeBytes fuel (TSlice TInterface) [0xC3, 0xC2, 0x81, 0x05] = Some r"
  by (rule DecodeBytes_terminates) simp_all

subsection \<open>Arrays of one byte\<close>

text \<open>
  A stream whose cached value is the byte zero: \<open>decodeByteArray\<close> stores 0 and leaves the
  stream as it is, so that the same byte is there for whatever is decoded next.
\<close>

definition at_zero_byte :: "stream \<Rightarrow> bool" where
  "at_zero_byte s \<longleftrightarrow> s_kind s = Some KByte \<and> s_kinderr s = None \<and> s_byteval s = 0"

lemma decodeByteArray_zero:
  "at_zero_byte s \<Longrightarrow> decodeByteArray (Suc 0) s = (Inr (VBytes [0]), s)"
  by (simp add: at_zero_byte_def decodeByteArray_def stream_uint_def Kind_cached)

lemma decodeSliceElems_zero:
  "at_zero_byte s \<Longrightarrow> decodeSliceElems (decoder m (TByteArray 1)) n i s = None"
  by (induction n arbitrary: i; cases m) (simp_all add: decodeByteArray_zero)

lemma zero_list_stream:
  obtains s0 s1 where "stream_List (stream_Reset [0xC1, 0] True 2) = (Inr 1, s0)"
    and "decodeByteArray (Suc 0) s0 = (Inr (VBytes [0]), s1)" and "at_zero_byte s1"
    and "s_stack s1 = [\<lparr>lp_pos = 1, lp_size = 1\<rparr>]" and "s_r s1 = []"
proof -
  let ?sa = "stream_Reset [0xC1, 0] True 2"
  have r: "stream_readByte ?sa = (Inr 0xC1, ?sa\<lparr>s_r := [0], s_remaining := 1\<rparr>)"
    by (simp add: stream_Reset_def stream_readByte_def willRead_def limitRead_def Let_def)
  have K: "Kind ?sa = (Inr (KList, 1), ?sa\<lparr>s_r := [0], s_remaining := 1, s_kind := Some KList, s_size := 1\<rparr>)"
    using r by (simp add: Kind_def stream_readKind_def checkFit_def stream_Reset_def Let_def)
  let ?sb = "?sa\<lparr>s_r := [0], s_remaining := 1, s_stack := [\<lparr>lp_pos = 0, lp_size = 1\<rparr>]\<rparr>"
  have L: "stream_List ?sa = (Inr 1, ?sb)"
    using K by (simp add: stream_List_def stream_Reset_def)
  let ?sc = "?sb\<lparr>s_r := [], s_remaining := 0, s_stack := [\<lparr>lp_pos = 1, lp_size = 1\<rparr>]\<rparr>"
  have "stream_readByte ?sb = (Inr 0, ?sc)"
    by (simp add: stream_Reset_def stream_readByte_def willRead_def limitRead_def Let_def)
  then have K0: "Kind ?sb = (Inr (KByte, 0), ?sc\<lparr>s_kind := Some KByte\<rparr>)"
    by (simp add: Kind_def stream_readKind_def checkFit_def stream_Reset_def Let_def)
  have z: "at_zero_byte (?sc\<lparr>s_kind := Some KByte\<rparr>)"
    by (simp add: at_zero_byte_def stream_Reset_def)
  have "decodeByteArray (Suc 0) ?sb = (Inr (VBytes [0]), ?sc\<lparr>s_kind := Some KByte\<rparr>)"
    using ahead_ops(6) [OF K0, of "Suc 0"] decodeByteArray_zero [OF z] by simp
  from that [OF L this z] show thesis by simp
qed

text \<open>
  C40. Decoding the two-byte input \<open>C1 00\<close>, the encoding of a list with the single element
  zero, into a slice of one-byte arrays never returns: the element decoder succeeds on
  the same byte for ever, whatever the fuel. It is the encoding of a value of that type.
\<close>

theorem byte_array_slice_diverges:
  "enc (TSlice (TByteArray 1)) (VList [VBytes [0]]) = [0xC1, 0] \<and>
   (\<forall>fuel. DecodeBytes fuel (TSlice (TByteArray 1)) [0xC1, 0] = None)"
proof -
  obtain s0 s1 where L: "stream_List (stream_Reset [0xC1, 0] True 2) = (Inr 1, s0)"
    and b: "decodeByteArray (Suc 0) s0 = (Inr (VBytes [0]), s1)" and z: "at_zero_byte s1"
    by (rule zero_list_stream)
  have "decodeSliceElems (decoder m (TByteArray 1)) n 0 s0 = None" for m n
    using b decodeSliceElems_zero [OF z] by (cases n; cases m) simp_all
  then have "decoder fuel (TSlice (TByteArray 1)) (stream_Reset [0xC1, 0] True 2) = None" for fuel
    using L by (cases fuel) (simp_all add: vlist_def decodeListSlice_def)
  then show ?thesis
    by (simp add: DecodeBytes_def stream_Decode_def rlp_string_def rlp_list_def rlp_head_def)
qed

text \<open>
  The same input decodes into a struct with two one-byte fields, both zero, although it
  has one element only and is not the encoding of the result.
\<close>

lemma byte_array_struct_not_canonical:
  "fuel \<ge> 2 \<Longrightarrow> DecodeBytes fuel (TStruct [TByteArray 1, TByteArray 1]) [0xC1, 0] =
     Some (Inr (VList [VBytes [0], VBytes [0]])) \<and>
   EncodeToBytes (TStruct [TByteArray 1, TByteArray 1]) (VList [VBytes [0], VBytes [0]]) = Inr [0xC2, 0, 0]"
proof
  let ?t = "TStruct [TByteArray 1, TByteArray 1]" and ?v = "VList [VBytes [0], VBytes [0]]"
  assume "fuel \<ge> 2"
  then obtain n where n: "fuel = Suc (Suc n)" by (metis Suc_le_D numeral_2_eq_2 Suc_le_mono)
  obtain s0 s1 where L: "stream_List (stream_Reset [0xC1, 0] True 2) = (Inr 1, s0)"
    and b: "decodeByteArray (Suc 0) s0 = (Inr (VBytes [0]), s1)" and z: "at_zero_byte s1"
    and st: "s_stack s1 = [\<lparr>lp_pos = 1, lp_size = 1\<rparr>]" and r: "s_r s1 = []"
    by (rule zero_list_stream)
  obtain s2 where E: "stream_ListEnd s1 = (Inr (), s2)" "s_r s2 = []"
    using st r by (simp add: stream_ListEnd_def)
  have "decoder fuel ?t (stream_Reset [0xC1, 0] True 2) = Some (Inr ?v, s2)"
    using L b E by (simp add: n vlist_def decodeStruct_def decodeByteArray_zero [OF z])
  then show "DecodeBytes fuel ?t [0xC1, 0] = Some (Inr ?v)"
    using E(2) by (simp add: DecodeBytes_def stream_Decode_def)
  show "EncodeToBytes ?t ?v = Inr [0xC2, 0, 0]"
    using EncodeToBytes_iff [of ?t ?v] by (simp add: rlp_string_def rlp_list_def rlp_head_def)
qed

end
