(* ===== verification/Trie_Encoding.thy ===== *)
theory Trie_Encoding
  imports Go_Prelude
begin

section \<open>Trie key encodings\<close>

text \<open>
  \<open>src/trie/encoding.go\<close>: key bytes, hex keys (one byte per nibble, with the optional
  terminator 16) and compact keys. An index out of range, which panics in Go, is \<open>None\<close>.
\<close>

subsection \<open>Conversions\<close>

definition hasTerm :: "bytes \<Rightarrow> bool" where
  "hasTerm s \<longleftrightarrow> 0 < length s \<and> s ! (length s - 1) = 16"

text \<open>\<open>decodeNibbles nibbles bytes\<close> writes to the beginning of \<open>bytes\<close>, which it returns.\<close>

fun decodeNibbles :: "bytes \<Rightarrow> bytes \<Rightarrow> bytes option" where
  "decodeNibbles [] bs = Some bs"
| "decodeNibbles (hi # lo # nibbles) (_ # bs) =
    map_option (Cons (push_bit 4 hi OR lo)) (decodeNibbles nibbles bs)"
| "decodeNibbles _ _ = None"

definition hexToCompact :: "bytes \<Rightarrow> bytes option" where
  "hexToCompact hex =
    (let terminator = (if hasTerm hex then 1 else 0);
         hex = (if hasTerm hex then take (length hex - 1) hex else hex);
         n = length hex div 2 + 1;
         flag = push_bit 5 terminator :: byte
     in if length hex mod 2 = 1
        then map_option (Cons (flag OR 16 OR hex ! 0)) (decodeNibbles (drop 1 hex) (replicate (n - 1) 0))
        else map_option (Cons flag) (decodeNibbles hex (replicate (n - 1) 0)))"

text \<open>
  \<open>hexToCompactInPlace\<close> packs the nibbles in the same buffer; the write index stays
  behind the read index. It returns the buffer and the length of the compact key.
\<close>

function compactInPlace_loop :: "nat \<Rightarrow> nat \<Rightarrow> nat \<Rightarrow> bytes \<Rightarrow> bytes option" where
  "compactInPlace_loop hexLen ni bi hex =
    (if ni < hexLen then
       (if length hex \<le> ni + 1 then None
        else compactInPlace_loop hexLen (ni + 2) (bi + 1)
               (hex[bi := push_bit 4 (hex ! ni) OR hex ! (ni + 1)]))
     else Some hex)"
  by pat_completeness auto
termination by (relation "measure (\<lambda>(hexLen, ni, bi, hex). hexLen - ni)") auto

declare compactInPlace_loop.simps [simp del]

definition hexToCompactInPlace :: "bytes \<Rightarrow> (bytes \<times> nat) option" where
  "hexToCompactInPlace hex =
    (let t = 0 < length hex \<and> hex ! (length hex - 1) = 16;
         hexLen = (if t then length hex - 1 else length hex);
         firstByte = (if t then 32 else 0) :: byte;
         binLen = hexLen div 2 + 1;
         odd = hexLen mod 2 = 1;
         firstByte = (if odd then firstByte OR 16 OR hex ! 0 else firstByte)
     in case compactInPlace_loop hexLen (if odd then 1 else 0) 1 hex of
          None \<Rightarrow> None
        | Some hex \<Rightarrow> if hex = [] then None else Some (hex[0 := firstByte], binLen))"

definition keybytesToHex :: "bytes \<Rightarrow> bytes" where
  "keybytesToHex str = concat (map (\<lambda>b. [b div 16, b mod 16]) str) @ [16]"

definition compactToHex :: "bytes \<Rightarrow> bytes" where
  "compactToHex compact =
    (if length compact = 0 then compact
     else let base = keybytesToHex compact;
              base = (if base ! 0 < 2 then take (length base - 1) base else base);
              chop = 2 - (base ! 0 AND 1)
          in drop (unat chop) base)"

definition hexToKeybytes :: "bytes \<Rightarrow> bytes option" where
  "hexToKeybytes hex =
    (let hex = (if hasTerm hex then take (length hex - 1) hex else hex)
     in if length hex mod 2 \<noteq> 0 then None
        else decodeNibbles hex (replicate (length hex div 2) 0))"

fun prefixLen :: "bytes \<Rightarrow> bytes \<Rightarrow> nat" where
  "prefixLen (a # as) (b # bs) = (if a = b then Suc (prefixLen as bs) else 0)"
| "prefixLen _ _ = 0"

subsection \<open>Nibbles\<close>

definition nibbles :: "bytes \<Rightarrow> bool" where
  "nibbles ns \<longleftrightarrow> (\<forall>n\<in>set ns. n < 16)"

lemma nibbles_simps [simp]:
  "nibbles []" "nibbles (n # ns) \<longleftrightarrow> n < 16 \<and> nibbles ns"
  "nibbles (ns @ ms) \<longleftrightarrow> nibbles ns \<and> nibbles ms"
  by (auto simp: nibbles_def)

lemma nibble_join:
  fixes a b :: byte
  assumes "a < 16" "b < 16"
  shows "(push_bit 4 a OR b) div 16 = a" and "(push_bit 4 a OR b) mod 16 = b"
proof -
  have ab: "unat a < 16" "unat b < 16" using assms by (simp_all add: word_less_nat_alt)
  have tb: "take_bit 4 b = b" using ab(2) by (simp add: take_bit_eq_mod word_unat_eq_iff unat_mod)
  have "push_bit 4 a AND b = 0"
  proof (rule bit_word_eqI)
    fix n assume "n < LENGTH(8)"
    have "bit b n \<Longrightarrow> n < 4" using bit_take_bit_iff [of 4 b n] tb by simp
    then show "bit (push_bit 4 a AND b) n = bit 0 n" by (auto simp: bit_and_iff bit_push_bit_iff)
  qed
  then have j: "push_bit 4 a OR b = push_bit 4 a + b" by (simp add: disjunctive_add_eq_or)
  have "unat (push_bit 4 a) = unat a * 16" using ab(1) by (simp add: push_bit_eq_mult unat_word_ariths)
  then have "unat (push_bit 4 a OR b) = unat a * 16 + unat b"
    using ab unfolding j by (simp add: unat_word_ariths)
  then show "(push_bit 4 a OR b) div 16 = a" "(push_bit 4 a OR b) mod 16 = b"
    using ab by (simp_all add: word_unat_eq_iff unat_div unat_mod)
qed

lemma byte_nibbles:
  fixes b :: byte
  shows "b div 16 < 16" "b mod 16 < 16"
proof -
  have "unat b < 256" by simp
  then have "unat b div 16 < 16" by linarith
  then show "b div 16 < 16" "b mod 16 < 16" by (simp_all add: word_less_nat_alt unat_div unat_mod)
qed

lemma nibble_split:
  fixes b :: byte
  shows "push_bit 4 (b div 16) OR (b mod 16) = b"
proof -
  have n: "b div 16 < 16" "b mod 16 < 16" by (rule byte_nibbles)+
  have "(push_bit 4 (b div 16) OR (b mod 16)) div 16 * 16 + (push_bit 4 (b div 16) OR (b mod 16)) mod 16
      = b div 16 * 16 + b mod 16"
    using nibble_join [OF n] by simp
  then show ?thesis by (simp only: div_mult_mod_eq)
qed

lemma length_keybytesToHex: "length (keybytesToHex k) = 2 * length k + 1"
  by (induction k) (simp_all add: keybytesToHex_def)

lemma keybytesToHex_nibbles: "\<exists>ns. keybytesToHex k = ns @ [16] \<and> nibbles ns \<and> length ns = 2 * length k"
proof -
  have "nibbles (concat (map (\<lambda>b. [b div 16, b mod 16]) k))" by (induction k) (simp_all add: byte_nibbles)
  moreover have "length (concat (map (\<lambda>b. [b div 16, b mod 16 :: byte]) k)) = 2 * length k" by (induction k) simp_all
  ultimately show ?thesis by (auto simp: keybytesToHex_def)
qed

lemma decodeNibbles_keybytes:
  "decodeNibbles (concat (map (\<lambda>b. [b div 16, b mod 16]) k)) (replicate (length k) 0) = Some k"
  by (induction k) (simp_all add: nibble_split)

lemma decodeNibbles_pack:
  "nibbles ns \<Longrightarrow> length ns = 2 * k \<Longrightarrow>
    \<exists>bs. decodeNibbles ns (replicate k 0) = Some bs \<and> keybytesToHex bs = ns @ [16] \<and> length bs = k"
proof (induction k arbitrary: ns)
  case (Suc k)
  then obtain a b ms where ns: "ns = a # b # ms" by (cases ns; cases "tl ns") auto
  with Suc obtain bs where bs: "decodeNibbles ms (replicate k 0) = Some bs" "keybytesToHex bs = ms @ [16]" "length bs = k"
    by auto
  have "a < 16" "b < 16" using Suc.prems(1) ns by simp_all
  from nibble_join [OF this] show ?case using ns bs by (simp add: keybytesToHex_def)
qed (simp add: keybytesToHex_def)

text \<open>The hex keys of the trie: nibbles, and possibly the terminator at the end.\<close>

definition hex_ok :: "bytes \<Rightarrow> bool" where
  "hex_ok hex \<longleftrightarrow> nibbles hex \<or> (\<exists>ns. nibbles ns \<and> hex = ns @ [16])"

lemma nibbles_no_term: "nibbles ns \<Longrightarrow> \<not> hasTerm ns"
  by (cases ns rule: rev_cases) (auto simp: hasTerm_def)

lemma hasTerm_snoc [simp]: "hasTerm (ns @ [16])"
  by (simp add: hasTerm_def)

definition hex_body :: "bytes \<Rightarrow> bytes" where
  "hex_body hex = (if hasTerm hex then take (length hex - 1) hex else hex)"

lemma hex_body_ok: "hex_ok hex \<Longrightarrow> nibbles (hex_body hex) \<and> hex = hex_body hex @ (if hasTerm hex then [16] else [])"
  by (auto simp: hex_ok_def hex_body_def dest: nibbles_no_term)

lemma hexToCompact_body:
  "hexToCompact hex =
    (let flag = (if hasTerm hex then 32 else 0) :: byte; ns = hex_body hex
     in if length ns mod 2 = 1
        then map_option (Cons (flag OR 16 OR ns ! 0)) (decodeNibbles (drop 1 ns) (replicate (length ns div 2) 0))
        else map_option (Cons flag) (decodeNibbles ns (replicate (length ns div 2) 0)))"
  by (simp add: hexToCompact_def hex_body_def Let_def push_bit_eq_mult)

lemma flag_byte:
  fixes n :: byte
  assumes "n < 16"
  shows "(16 OR n) div 16 = 1" "(16 OR n) mod 16 = n" "(32 OR 16 OR n) div 16 = 3" "(32 OR 16 OR n) mod 16 = n"
proof -
  have "push_bit 4 (1 :: byte) = 16" "push_bit 4 (3 :: byte) = 48" by simp_all
  moreover have "32 OR 16 OR n = 48 OR n" by (simp flip: or.assoc)
  ultimately show "(16 OR n) div 16 = 1" "(16 OR n) mod 16 = n" "(32 OR 16 OR n) div 16 = 3" "(32 OR 16 OR n) mod 16 = n"
    using nibble_join [of 1 n] nibble_join [of 3 n] assms by simp_all
qed

lemma compact_roundtrip:
  assumes "hex_ok hex"
  shows "\<exists>c. hexToCompact hex = Some c \<and> compactToHex c = hex \<and> length c = length (hex_body hex) div 2 + 1"
proof -
  let ?ns = "hex_body hex" and ?t = "if hasTerm hex then [16] else [] :: bytes"
  have ns: "nibbles ?ns" "hex = ?ns @ ?t" using hex_body_ok [OF assms] by simp_all
  show ?thesis
  proof (cases "length ?ns mod 2 = 1")
    case True
    then obtain a ms where a: "?ns = a # ms" by (cases ?ns) auto
    have ms: "nibbles ms" "a < 16" using ns(1) a by auto
    have lm: "length ms = 2 * (length ?ns div 2)" using True unfolding a by simp presburger
    obtain bs where bs: "decodeNibbles ms (replicate (length ?ns div 2) 0) = Some bs"
      "keybytesToHex bs = ms @ [16]" "length bs = length ?ns div 2"
      using decodeNibbles_pack [OF ms(1) lm] by blast
    let ?c = "((if hasTerm hex then 32 else 0) OR 16 OR a) # bs"
    have "hexToCompact hex = Some ?c" using True a bs(1) by (simp add: hexToCompact_body Let_def)
    moreover have "compactToHex ?c = a # ms @ ?t"
      using flag_byte [OF ms(2)] bs(2) by (simp add: compactToHex_def keybytesToHex_def Let_def)
    ultimately show ?thesis using ns(2) a bs(3) by auto
  next
    case False
    then have "length ?ns = 2 * (length ?ns div 2)" by presburger
    then obtain bs where bs: "decodeNibbles ?ns (replicate (length ?ns div 2) 0) = Some bs"
      "keybytesToHex bs = ?ns @ [16]" "length bs = length ?ns div 2"
      using decodeNibbles_pack [OF ns(1)] by blast
    let ?c = "(if hasTerm hex then 32 else 0) # bs"
    have "hexToCompact hex = Some ?c" using False bs(1) by (simp add: hexToCompact_body Let_def)
    moreover have "compactToHex ?c = ?ns @ ?t"
      using bs(2) by (simp add: compactToHex_def keybytesToHex_def Let_def)
    ultimately show ?thesis using ns(2) bs(3) by auto
  qed
qed

lemma decodeNibbles_length: "decodeNibbles ns bs = Some cs \<Longrightarrow> length cs = length bs"
  by (induction ns bs arbitrary: cs rule: decodeNibbles.induct) auto

lemma compactInPlace_loop_eq:
  assumes "bi \<le> ni + 1" and "hexLen = ni + 2 * k" and "hexLen \<le> length hex"
    and "decodeNibbles (drop ni (take hexLen hex)) (replicate k 0) = Some bs"
  shows "\<exists>hex'. compactInPlace_loop hexLen ni bi hex = Some hex' \<and> length hex' = length hex \<and>
    take bi hex' = take bi hex \<and> take k (drop bi hex') = bs"
  using assms
proof (induction k arbitrary: ni bi hex bs)
  case 0
  then show ?case by (simp add: compactInPlace_loop.simps)
next
  case (Suc k)
  let ?x = "push_bit 4 (hex ! ni) OR hex ! (ni + 1)"
  let ?hex = "hex[bi := ?x]"
  have len: "ni + 1 < hexLen" "ni + 1 < length hex" using Suc.prems by simp_all
  have d: "drop ni (take hexLen hex) = hex ! ni # hex ! (ni + 1) # drop (ni + 2) (take hexLen hex)"
    using len Cons_nth_drop_Suc [of ni "take hexLen hex"] Cons_nth_drop_Suc [of "Suc ni" "take hexLen hex"] by simp
  have "drop (ni + 2) (take hexLen ?hex) = drop (ni + 2) (take hexLen hex)"
    using Suc.prems(1) by (simp add: take_update_swap drop_update_cancel)
  moreover obtain bs' where bs': "decodeNibbles (drop (ni + 2) (take hexLen hex)) (replicate k 0) = Some bs'" "bs = ?x # bs'"
    using Suc.prems(4) unfolding d by auto
  ultimately obtain hex' where h: "compactInPlace_loop hexLen (ni + 2) (bi + 1) ?hex = Some hex'"
      "length hex' = length hex" "take (bi + 1) hex' = take (bi + 1) ?hex" "take k (drop (bi + 1) hex') = bs'"
    using Suc.IH [of "bi + 1" "ni + 2" ?hex bs'] Suc.prems(1-3) by auto
  have bi: "bi < length hex" using Suc.prems(1) len by simp
  have t: "take bi hex' = take bi hex"
    using arg_cong [OF h(3), of "take bi"] by simp
  have "hex' ! bi = ?x"
    using arg_cong [OF h(3), of "\<lambda>xs. xs ! bi"] bi h(2) by simp
  then have "take (Suc k) (drop bi hex') = ?x # take k (drop (bi + 1) hex')"
    using bi h(2) by (simp add: Cons_nth_drop_Suc [symmetric])
  then show ?case using h t bs'(2) len
    by (subst compactInPlace_loop.simps) simp
qed

lemma hexToKeybytes_keybytesToHex: "hexToKeybytes (keybytesToHex key) = Some key"
proof -
  have "length (concat (map (\<lambda>b. [b div 16, b mod 16 :: byte]) key)) = 2 * length key" by (induction key) simp_all
  then show ?thesis
    using decodeNibbles_keybytes [of key] by (simp add: hexToKeybytes_def keybytesToHex_def Let_def)
qed



end
