(* ===== verification/Trie_Core.thy ===== *)
theory Trie_Core
  imports Trie_Encoding
begin

section \<open>The Merkle Patricia trie\<close>

text \<open>
  The nodes of \<open>src/trie/node.go\<close> and the operations of \<open>src/trie/trie.go\<close>: lookup,
  insertion and deletion with lazy loading of nodes. The node database is an argument,
  the function \<open>db.node\<close> from hashes to nodes. The recursion goes through the database
  and is given as fuel; \<open>None\<close> is out of fuel. Missing nodes and panics are errors.
\<close>

subsection \<open>Nodes\<close>

record nodeFlag =
  nf_hash :: "bytes option"
  nf_dirty :: bool

text \<open>\<open>NNil\<close> is a nil node; the children of a full node are 17.\<close>

datatype node =
    NNil
  | ValueNode bytes
  | ShortNode bytes node nodeFlag
  | FullNode "node list" nodeFlag
  | HashNode bytes

definition node_cache :: "node \<Rightarrow> bytes option \<times> bool" where
  "node_cache n =
    (case n of
       FullNode _ f \<Rightarrow> (nf_hash f, nf_dirty f)
     | ShortNode _ _ f \<Rightarrow> (nf_hash f, nf_dirty f)
     | _ \<Rightarrow> (None, True))"

datatype trie_err = MissingNodeError bytes bytes | TriePanic

type_synonym node_db = "bytes \<Rightarrow> node option"
type_synonym 'a tresult = "(trie_err + 'a) option"

text \<open>\<open>common.BytesToHash\<close>: the last 32 bytes, padded on the left.\<close>

definition BytesToHash :: "bytes \<Rightarrow> bytes" where
  "BytesToHash b = (let b = drop (length b - 32) b in replicate (32 - length b) 0 @ b)"

definition newFlag :: nodeFlag where
  "newFlag = \<lparr>nf_hash = None, nf_dirty = True\<rparr>"

definition resolveHash :: "node_db \<Rightarrow> bytes \<Rightarrow> bytes \<Rightarrow> trie_err + node" where
  "resolveHash db n pfx =
    (case db (BytesToHash n) of
       Some node \<Rightarrow> Inr node
     | None \<Rightarrow> Inl (MissingNodeError (BytesToHash n) pfx))"

definition resolve :: "node_db \<Rightarrow> node \<Rightarrow> bytes \<Rightarrow> trie_err + node" where
  "resolve db n pfx = (case n of HashNode h \<Rightarrow> resolveHash db h pfx | _ \<Rightarrow> Inr n)"

text \<open>\<open>bind_res\<close>: continue with the result, or pass on an error or the lack of fuel.\<close>

definition bind_res :: "'a tresult \<Rightarrow> ('a \<Rightarrow> 'b tresult) \<Rightarrow> 'b tresult" where
  "bind_res r f = (case r of None \<Rightarrow> None | Some (Inl e) \<Rightarrow> Some (Inl e) | Some (Inr x) \<Rightarrow> f x)"

subsection \<open>Lookup\<close>

primrec tryGet :: "nat \<Rightarrow> node_db \<Rightarrow> node \<Rightarrow> bytes \<Rightarrow> nat \<Rightarrow> (bytes option \<times> node \<times> bool) tresult" where
  "tryGet 0 db n key pos = None"
| "tryGet (Suc fuel) db n key pos =
    (case n of
       NNil \<Rightarrow> Some (Inr (None, NNil, False))
     | ValueNode v \<Rightarrow> Some (Inr (Some v, n, False))
     | ShortNode nkey val flags \<Rightarrow>
         (if length key - pos < length nkey \<or> nkey \<noteq> go_slice key pos (pos + length nkey)
          then Some (Inr (None, n, False))
          else bind_res (tryGet fuel db val key (pos + length nkey)) (\<lambda>(value, newnode, didResolve).
                 Some (Inr (value, if didResolve then ShortNode nkey newnode flags else n, didResolve))))
     | FullNode children flags \<Rightarrow>
         (if length key \<le> pos \<or> length children \<le> unat (key ! pos) then Some (Inl TriePanic)
          else let i = unat (key ! pos)
               in bind_res (tryGet fuel db (children ! i) key (pos + 1)) (\<lambda>(value, newnode, didResolve).
                    Some (Inr (value, if didResolve then FullNode (children[i := newnode]) flags else n,
                      didResolve))))
     | HashNode h \<Rightarrow>
         (case resolveHash db h (take pos key) of
            Inl e \<Rightarrow> Some (Inl e)
          | Inr child \<Rightarrow>
              bind_res (tryGet fuel db child key pos) (\<lambda>(value, newnode, _).
                Some (Inr (value, newnode, True)))))"

subsection \<open>Insertion\<close>

text \<open>The result says whether the trie was changed, and holds the new node.\<close>

primrec trie_insert :: "nat \<Rightarrow> node_db \<Rightarrow> node \<Rightarrow> bytes \<Rightarrow> bytes \<Rightarrow> node \<Rightarrow> (bool \<times> node) tresult" where
  "trie_insert 0 db n pfx key value = None"
| "trie_insert (Suc fuel) db n pfx key value =
    (if key = [] then
       (case n of
          ValueNode v \<Rightarrow>
            (case value of
               ValueNode v' \<Rightarrow> Some (Inr (v \<noteq> v', value))
             | _ \<Rightarrow> Some (Inl TriePanic))
        | _ \<Rightarrow> Some (Inr (True, value)))
     else
       (case n of
          ShortNode nkey val flags \<Rightarrow>
            (let matchlen = prefixLen key nkey
             in if matchlen = length nkey then
                  bind_res (trie_insert fuel db val (pfx @ take matchlen key) (drop matchlen key) value)
                    (\<lambda>(dirty, nn). Some (Inr (if \<not> dirty then (False, n) else (True, ShortNode nkey nn newFlag))))
                else if length key \<le> matchlen \<or> 17 \<le> unat (nkey ! matchlen) then Some (Inl TriePanic)
                else
                  bind_res (trie_insert fuel db NNil (pfx @ take (matchlen + 1) nkey) (drop (matchlen + 1) nkey) val)
                    (\<lambda>(_, c1).
                  if 17 \<le> unat (key ! matchlen) then Some (Inl TriePanic)
                  else bind_res (trie_insert fuel db NNil (pfx @ take (matchlen + 1) key) (drop (matchlen + 1) key) value)
                    (\<lambda>(_, c2).
                  let branch = FullNode ((replicate 17 NNil)[unat (nkey ! matchlen) := c1, unat (key ! matchlen) := c2]) newFlag
                  in Some (Inr (True, if matchlen = 0 then branch else ShortNode (take matchlen key) branch newFlag)))))
        | FullNode children flags \<Rightarrow>
            (if length children \<le> unat (key ! 0) then Some (Inl TriePanic)
             else let i = unat (key ! 0)
                  in bind_res (trie_insert fuel db (children ! i) (pfx @ [key ! 0]) (drop 1 key) value)
                       (\<lambda>(dirty, nn). Some (Inr (if \<not> dirty then (False, n)
                          else (True, FullNode (children[i := nn]) newFlag)))))
        | NNil \<Rightarrow> Some (Inr (True, ShortNode key value newFlag))
        | HashNode h \<Rightarrow>
            (case resolveHash db h pfx of
               Inl e \<Rightarrow> Some (Inl e)
             | Inr rn \<Rightarrow>
                 bind_res (trie_insert fuel db rn pfx key value)
                   (\<lambda>(dirty, nn). Some (Inr (if \<not> dirty then (False, rn) else (True, nn)))))
        | ValueNode v \<Rightarrow> Some (Inl TriePanic)))"

subsection \<open>Deletion\<close>

text \<open>
  The loop over the children: the index of the only child that is not nil, -1 if there
  is none, -2 if there are several.
\<close>

fun soleChild :: "node list \<Rightarrow> nat \<Rightarrow> int \<Rightarrow> int" where
  "soleChild [] i pos = pos"
| "soleChild (cld # clds) i pos =
    (if cld \<noteq> NNil then (if pos = -1 then soleChild clds (Suc i) (int i) else -2)
     else soleChild clds (Suc i) pos)"

definition reduceFull :: "node_db \<Rightarrow> node list \<Rightarrow> bytes \<Rightarrow> (bool \<times> node) tresult" where
  "reduceFull db children pfx =
    (let pos = soleChild children 0 (-1)
     in if 0 \<le> pos then
          (let child = children ! nat pos; one = ShortNode [word_of_int pos] child newFlag
           in if pos \<noteq> 16 then
                (case resolve db child pfx of
                   Inl e \<Rightarrow> Some (Inl e)
                 | Inr (ShortNode ckey cval _) \<Rightarrow> Some (Inr (True, ShortNode (word_of_int pos # ckey) cval newFlag))
                 | Inr _ \<Rightarrow> Some (Inr (True, one)))
              else Some (Inr (True, one)))
        else Some (Inr (True, FullNode children newFlag)))"

primrec trie_delete :: "nat \<Rightarrow> node_db \<Rightarrow> node \<Rightarrow> bytes \<Rightarrow> bytes \<Rightarrow> (bool \<times> node) tresult" where
  "trie_delete 0 db n pfx key = None"
| "trie_delete (Suc fuel) db n pfx key =
    (case n of
       ShortNode nkey val flags \<Rightarrow>
         (let matchlen = prefixLen key nkey
          in if matchlen < length nkey then Some (Inr (False, n))
             else if matchlen = length key then Some (Inr (True, NNil))
             else bind_res (trie_delete fuel db val (pfx @ take (length nkey) key) (drop (length nkey) key))
                    (\<lambda>(dirty, child). Some (Inr (if \<not> dirty then (False, n)
                       else (case child of
                               ShortNode ckey cval _ \<Rightarrow> (True, ShortNode (nkey @ ckey) cval newFlag)
                             | _ \<Rightarrow> (True, ShortNode nkey child newFlag))))))
     | FullNode children flags \<Rightarrow>
         (if key = [] \<or> length children \<le> unat (key ! 0) then Some (Inl TriePanic)
          else let i = unat (key ! 0)
               in bind_res (trie_delete fuel db (children ! i) (pfx @ [key ! 0]) (drop 1 key))
                    (\<lambda>(dirty, nn). if \<not> dirty then Some (Inr (False, n))
                       else reduceFull db (children[i := nn]) pfx))
     | ValueNode v \<Rightarrow> Some (Inr (True, NNil))
     | NNil \<Rightarrow> Some (Inr (False, NNil))
     | HashNode h \<Rightarrow>
         (case resolveHash db h pfx of
            Inl e \<Rightarrow> Some (Inl e)
          | Inr rn \<Rightarrow>
              bind_res (trie_delete fuel db rn pfx key)
                (\<lambda>(dirty, nn). Some (Inr (if \<not> dirty then (False, rn) else (True, nn))))))"

subsection \<open>The trie\<close>

record trie =
  t_root :: node
  t_unhashed :: nat

definition emptyRoot :: bytes where
  "emptyRoot =
    [0x56, 0xe8, 0x1f, 0x17, 0x1b, 0xcc, 0x55, 0xa6, 0xff, 0x83, 0x45, 0xe6, 0x92, 0xc0, 0xf8, 0x6e,
     0x5b, 0x48, 0xe0, 0x1b, 0x99, 0x6c, 0xad, 0xc0, 0x01, 0x62, 0x2f, 0xb5, 0xe3, 0x63, 0xb4, 0x21]"

definition New :: "bytes \<Rightarrow> node_db \<Rightarrow> trie_err + trie" where
  "New root db =
    (if root \<noteq> replicate 32 0 \<and> root \<noteq> emptyRoot then
       (case resolveHash db root [] of
          Inl e \<Rightarrow> Inl e
        | Inr rootnode \<Rightarrow> Inr \<lparr>t_root = rootnode, t_unhashed = 0\<rparr>)
     else Inr \<lparr>t_root = NNil, t_unhashed = 0\<rparr>)"

definition TryGet :: "nat \<Rightarrow> node_db \<Rightarrow> trie \<Rightarrow> bytes \<Rightarrow> ((trie_err + bytes option) \<times> trie) option" where
  "TryGet fuel db t key =
    (case tryGet fuel db (t_root t) (keybytesToHex key) 0 of
       None \<Rightarrow> None
     | Some (Inl e) \<Rightarrow> Some (Inl e, t)
     | Some (Inr (value, newroot, didResolve)) \<Rightarrow>
         Some (Inr value, if didResolve then t\<lparr>t_root := newroot\<rparr> else t))"

definition TryUpdate :: "nat \<Rightarrow> node_db \<Rightarrow> trie \<Rightarrow> bytes \<Rightarrow> bytes \<Rightarrow> (trie_err option \<times> trie) option" where
  "TryUpdate fuel db t key value =
    (let t = t\<lparr>t_unhashed := t_unhashed t + 1\<rparr>;
         k = keybytesToHex key
     in case (if length value \<noteq> 0 then trie_insert fuel db (t_root t) [] k (ValueNode value)
              else trie_delete fuel db (t_root t) [] k) of
          None \<Rightarrow> None
        | Some (Inl e) \<Rightarrow> Some (Some e, t)
        | Some (Inr (_, n)) \<Rightarrow> Some (None, t\<lparr>t_root := n\<rparr>))"

definition TryDelete :: "nat \<Rightarrow> node_db \<Rightarrow> trie \<Rightarrow> bytes \<Rightarrow> (trie_err option \<times> trie) option" where
  "TryDelete fuel db t key =
    (let t = t\<lparr>t_unhashed := t_unhashed t + 1\<rparr>
     in case trie_delete fuel db (t_root t) [] (keybytesToHex key) of
          None \<Rightarrow> None
        | Some (Inl e) \<Rightarrow> Some (Some e, t)
        | Some (Inr (_, n)) \<Rightarrow> Some (None, t\<lparr>t_root := n\<rparr>))"

definition trie_Reset :: "trie \<Rightarrow> trie" where
  "trie_Reset t = \<lparr>t_root = NNil, t_unhashed = 0\<rparr>"

end
