(* ===== verification/Trie_Spec.thy ===== *)
theory Trie_Spec
  imports Trie_Encoding
begin

section \<open>Pure tries\<close>

text \<open>
  Tries without hash nodes and without flags, as the abstract side of the trie
  operations: lookup, insertion and deletion by recursion on the key, the canonical form
  they keep (no chains of short nodes, no full node with fewer than two children, values
  at terminated keys only), and the map from keys to values a trie stands for. A
  canonical trie is determined by its map.
\<close>

datatype ptrie = PNil | PVal bytes | PShort bytes ptrie | PFull "ptrie list"

subsection \<open>Operations\<close>

function pget :: "ptrie \<Rightarrow> bytes \<Rightarrow> bytes option" where
  "pget PNil k = None"
| "pget (PVal v) k = Some v"
| "pget (PShort nk q) k = (if take (length nk) k = nk then pget q (drop (length nk) k) else None)"
| "pget (PFull cs) [] = None"
| "pget (PFull cs) (x # k) = pget (cs ! unat x) k"
  by pat_completeness auto
termination by (relation "measures [\<lambda>(p, k). length k, \<lambda>(p, k). size p]") auto

definition pshort :: "bytes \<Rightarrow> ptrie \<Rightarrow> ptrie" where
  "pshort k q = (if k = [] then q else PShort k q)"

definition pbranch :: "byte \<Rightarrow> ptrie \<Rightarrow> byte \<Rightarrow> ptrie \<Rightarrow> ptrie" where
  "pbranch x c y d = PFull ((replicate 17 PNil)[unat x := c, unat y := d])"

function pinsert :: "ptrie \<Rightarrow> bytes \<Rightarrow> bytes \<Rightarrow> ptrie" where
  "pinsert p [] v = PVal v"
| "pinsert PNil (x # k) v = PShort (x # k) (PVal v)"
| "pinsert (PVal w) (x # k) v = PVal w"
| "pinsert (PShort nk q) (x # k) v =
    (let key = x # k; m = prefixLen key nk
     in if m = length nk then PShort nk (pinsert q (drop m key) v)
        else pshort (take m key)
          (pbranch (nk ! m) (pshort (drop (m + 1) nk) q) (key ! m) (pshort (drop (m + 1) key) (PVal v))))"
| "pinsert (PFull cs) (x # k) v = PFull (cs[unat x := pinsert (cs ! unat x) k v])"
  by pat_completeness auto
termination by (relation "measures [\<lambda>(p, k, v). length k, \<lambda>(p, k, v). size p]") auto

definition kids :: "ptrie list \<Rightarrow> nat list" where
  "kids cs = filter (\<lambda>i. cs ! i \<noteq> PNil) [0..<length cs]"

definition preduce :: "ptrie list \<Rightarrow> ptrie" where
  "preduce cs =
    (case kids cs of
       [i] \<Rightarrow> (case cs ! i of
                PShort ck cq \<Rightarrow> if i \<noteq> 16 then PShort (word_of_nat i # ck) cq else PShort [word_of_nat i] (cs ! i)
              | c \<Rightarrow> PShort [word_of_nat i] c)
     | _ \<Rightarrow> PFull cs)"

definition pjoin :: "bytes \<Rightarrow> ptrie \<Rightarrow> ptrie" where
  "pjoin nk c = (case c of PShort ck cq \<Rightarrow> PShort (nk @ ck) cq | _ \<Rightarrow> PShort nk c)"

function pdelete :: "ptrie \<Rightarrow> bytes \<Rightarrow> ptrie" where
  "pdelete PNil k = PNil"
| "pdelete (PVal v) k = PNil"
| "pdelete (PShort nk q) k =
    (let m = prefixLen k nk
     in if m < length nk then PShort nk q
        else if m = length k then PNil
        else pjoin nk (pdelete q (drop (length nk) k)))"
| "pdelete (PFull cs) [] = PFull cs"
| "pdelete (PFull cs) (x # k) = preduce (cs[unat x := pdelete (cs ! unat x) k])"
  by pat_completeness auto
termination by (relation "measures [\<lambda>(p, k). length k, \<lambda>(p, k). size p]") auto

subsection \<open>Canonical form\<close>

definition hexkey :: "bytes \<Rightarrow> bool" where
  "hexkey k \<longleftrightarrow> (\<exists>ns. nibbles ns \<and> k = ns @ [16])"

inductive inner :: "ptrie \<Rightarrow> bool" where
  leaf: "hexkey k \<Longrightarrow> v \<noteq> [] \<Longrightarrow> inner (PShort k (PVal v))"
| ext: "nibbles k \<Longrightarrow> k \<noteq> [] \<Longrightarrow> inner (PFull cs) \<Longrightarrow> inner (PShort k (PFull cs))"
| full: "length cs = 17 \<Longrightarrow> (\<forall>i<16. cs ! i = PNil \<or> inner (cs ! i)) \<Longrightarrow>
    cs ! 16 = PNil \<or> (\<exists>v. v \<noteq> [] \<and> cs ! 16 = PVal v) \<Longrightarrow> 2 \<le> length (kids cs) \<Longrightarrow> inner (PFull cs)"

inductive_cases inner_PNilE: "inner PNil"
inductive_cases inner_PValE: "inner (PVal v)"
inductive_cases inner_PShortE: "inner (PShort k q)"
inductive_cases inner_PFullE: "inner (PFull cs)"

definition canon :: "ptrie \<Rightarrow> bool" where
  "canon p \<longleftrightarrow> p = PNil \<or> inner p"

text \<open>\<open>fits p k\<close>: what may stand where the rest of the key is \<open>k\<close>.\<close>

definition fits :: "ptrie \<Rightarrow> bytes \<Rightarrow> bool" where
  "fits p k \<longleftrightarrow> (if k = [] then p = PNil \<or> (\<exists>v. v \<noteq> [] \<and> p = PVal v) else hexkey k \<and> canon p)"

lemma not_inner [simp]: "\<not> inner PNil" "\<not> inner (PVal v)"
  by (auto elim: inner_PNilE inner_PValE)

lemma hexkey_ne [simp]: "\<not> hexkey []"
  by (auto simp: hexkey_def)

lemma hexkey_Cons: "hexkey (x # k) \<longleftrightarrow> (if k = [] then x = 16 else x < 16 \<and> hexkey k)"
proof
  assume "hexkey (x # k)"
  then obtain ns where ns: "nibbles ns" "x # k = ns @ [16]" by (auto simp: hexkey_def)
  then show "if k = [] then x = 16 else x < 16 \<and> hexkey k" by (cases ns) (auto simp: hexkey_def)
next
  assume r: "if k = [] then x = 16 else x < 16 \<and> hexkey k"
  show "hexkey (x # k)"
  proof (cases "k = []")
    case True
    then show ?thesis using r unfolding hexkey_def by (intro exI [of _ "[]"]) simp
  next
    case False
    then obtain ns where "nibbles ns" "k = ns @ [16]" "x < 16" using r by (auto simp: hexkey_def)
    then show ?thesis unfolding hexkey_def by (intro exI [of _ "x # ns"]) simp
  qed
qed

lemma hexkey_append: "nibbles a \<Longrightarrow> hexkey (a @ k) \<longleftrightarrow> hexkey k"
  by (induction a) (auto simp: hexkey_Cons)

lemma hexkey_drop: "hexkey k \<Longrightarrow> n < length k \<Longrightarrow> hexkey (drop n k) \<and> nibbles (take n k)"
proof (induction n arbitrary: k)
  case (Suc n)
  then show ?case by (cases k) (auto simp: hexkey_Cons split: if_splits)
qed simp

lemma hexkey_nth: "hexkey k \<Longrightarrow> n < length k \<Longrightarrow> k ! n < 17 \<and> (k ! n = 16 \<longleftrightarrow> Suc n = length k)"
proof (induction n arbitrary: k)
  case 0
  then show ?case by (cases k) (auto simp: hexkey_Cons word_less_nat_alt split: if_splits)
next
  case (Suc n)
  then show ?case by (cases k) (auto simp: hexkey_Cons split: if_splits)
qed

lemma hexkey_prefix_free:
  assumes "hexkey a" "hexkey (a @ b)"
  shows "b = []"
proof -
  obtain ns where ns: "nibbles ns" "a = ns @ [16]" using assms(1) by (auto simp: hexkey_def)
  then have "hexkey (16 # b)" using assms(2) hexkey_append [OF ns(1), of "16 # b"] by simp
  then show ?thesis by (simp add: hexkey_Cons split: if_splits)
qed

lemma hexkey_neq_prefix: "hexkey a \<Longrightarrow> nibbles b \<Longrightarrow> take (length a) b \<noteq> a"
  by (metis append_take_drop_id hexkey_def nibbles_simps(3) nibbles_no_term hasTerm_snoc)

subsection \<open>Common prefixes\<close>

lemma prefixLen_le: "prefixLen a b \<le> length a" "prefixLen a b \<le> length b"
  by (induction a b rule: prefixLen.induct) auto

lemma prefixLen_take: "take (prefixLen a b) a = take (prefixLen a b) b"
  by (induction a b rule: prefixLen.induct) auto

lemma prefixLen_neq:
  "prefixLen a b < length a \<Longrightarrow> prefixLen a b < length b \<Longrightarrow> a ! prefixLen a b \<noteq> b ! prefixLen a b"
  by (induction a b rule: prefixLen.induct) auto

lemma prefixLen_full: "prefixLen a b = length b \<longleftrightarrow> take (length b) a = b"
  by (induction a b rule: prefixLen.induct) auto

lemma hexkey_branch:
  assumes "hexkey a" and "hexkey b \<or> nibbles b" and "prefixLen a b < length b"
  shows "prefixLen a b < length a"
proof (rule ccontr)
  assume "\<not> prefixLen a b < length a"
  then have m: "prefixLen a b = length a" using prefixLen_le(1) [of a b] by simp
  then have t: "take (length a) b = a" using prefixLen_take [of a b] by simp
  then have b: "b = a @ drop (length a) b" by (metis append_take_drop_id)
  show False
  proof (cases "hexkey b")
    case True
    then have "drop (length a) b = []" using hexkey_prefix_free [OF assms(1)] b by metis
    then show False using assms(3) m by simp
  next
    case False
    then show False using hexkey_neq_prefix [OF assms(1)] assms(2) t by blast
  qed
qed

subsection \<open>Children\<close>

definition childok :: "byte \<Rightarrow> ptrie \<Rightarrow> bool" where
  "childok x c \<longleftrightarrow> (if x = 16 then \<exists>v. v \<noteq> [] \<and> c = PVal v else x < 16 \<and> inner c)"

lemma fits_childok: "hexkey (x # k) \<Longrightarrow> fits c k \<Longrightarrow> c = PNil \<or> childok x c"
  by (auto simp: hexkey_Cons fits_def childok_def canon_def split: if_splits)

lemma childok_fits: "hexkey (x # k) \<Longrightarrow> c = PNil \<or> childok x c \<Longrightarrow> fits c k"
  by (auto simp: hexkey_Cons fits_def childok_def canon_def split: if_splits)

lemma hexkey_unat: "hexkey (x # k) \<Longrightarrow> unat x < 17"
  by (auto simp: hexkey_Cons word_less_nat_alt split: if_splits)

lemma childok_unat: "childok x c \<Longrightarrow> unat x < 17 \<and> c \<noteq> PNil"
  by (auto simp: childok_def word_less_nat_alt split: if_splits)

lemma kids_card: "length (kids cs) = card {i. i < length cs \<and> cs ! i \<noteq> PNil}"
proof -
  have "distinct (kids cs)" "set (kids cs) = {i. i < length cs \<and> cs ! i \<noteq> PNil}" by (auto simp: kids_def)
  then show ?thesis by (metis distinct_card)
qed

lemma kids_two:
  assumes "i < length cs" "j < length cs" "i \<noteq> j" "cs ! i \<noteq> PNil" "cs ! j \<noteq> PNil"
  shows "2 \<le> length (kids cs)"
proof -
  have "card {i, j} \<le> card {i. i < length cs \<and> cs ! i \<noteq> PNil}"
    using assms by (intro card_mono) auto
  then show ?thesis using assms(3) by (simp add: kids_card)
qed

lemma two_kids:
  assumes "2 \<le> length (kids cs)"
  obtains i j where "i < length cs" "j < length cs" "i \<noteq> j" "cs ! i \<noteq> PNil" "cs ! j \<noteq> PNil"
proof -
  obtain i j r where "kids cs = i # j # r" using assms by (cases "kids cs"; cases "tl (kids cs)") auto
  moreover have "distinct (kids cs)" "set (kids cs) = {i. i < length cs \<and> cs ! i \<noteq> PNil}" by (auto simp: kids_def)
  ultimately show thesis using that [of i j] by auto
qed

lemma full_iff:
  "inner (PFull cs) \<longleftrightarrow> length cs = 17 \<and> (\<forall>x. unat x < 17 \<longrightarrow> cs ! unat x = PNil \<or> childok x (cs ! unat x)) \<and>
    2 \<le> length (kids cs)" (is "_ = ?R")
proof
  assume "inner (PFull cs)"
  then show ?R
    by (rule inner_PFullE) (auto simp: childok_def word_less_nat_alt word_unat_eq_iff less_Suc_eq [of _ 16, simplified])
next
  assume r: ?R
  have "cs ! i = PNil \<or> inner (cs ! i)" if "i < 16" for i
  proof -
    have u: "unat (word_of_nat i :: byte) = i" using that by (simp add: unat_word_of_nat_byte)
    then have "(word_of_nat i :: byte) \<noteq> 16" using that by auto
    then show ?thesis using r [THEN conjunct2, THEN conjunct1, rule_format, of "word_of_nat i"] u that
      by (auto simp: childok_def)
  qed
  moreover have "cs ! 16 = PNil \<or> (\<exists>v. v \<noteq> [] \<and> cs ! 16 = PVal v)"
    using r [THEN conjunct2, THEN conjunct1, rule_format, of 16] by (auto simp: childok_def)
  ultimately show "inner (PFull cs)" using r by (intro inner.full) auto
qed

lemma full_child: "inner (PFull cs) \<Longrightarrow> hexkey (x # k) \<Longrightarrow> fits (cs ! unat x) k"
  using hexkey_unat [of x k] childok_fits [of x k] by (simp add: full_iff)

lemma full_update:
  assumes "inner (PFull cs)" "childok x c"
  shows "inner (PFull (cs[unat x := c]))"
proof -
  obtain i j where ij: "i < length cs" "j < length cs" "i \<noteq> j" "cs ! i \<noteq> PNil" "cs ! j \<noteq> PNil"
    using assms(1) two_kids [of cs] by (auto simp: full_iff)
  have l: "length cs = 17" using assms(1) by (simp add: full_iff)
  have "2 \<le> length (kids (cs[unat x := c]))"
    using ij l childok_unat [OF assms(2)] by (intro kids_two [of i _ j]) (auto simp: nth_list_update)
  moreover have "cs[unat x := c] ! unat y = (if y = x then c else cs ! unat y)" if "unat y < 17" for y
    using that l childok_unat [OF assms(2)] by (auto simp: nth_list_update word_unat_eq_iff)
  ultimately show ?thesis using assms by (auto simp: full_iff)
qed

lemma pbranch_nth:
  assumes "unat x < 17" "unat y < 17" "x \<noteq> y" "unat z < 17"
  shows "(replicate 17 PNil)[unat x := c, unat y := d] ! unat z = (if z = y then d else if z = x then c else PNil)"
  using assms by (auto simp: nth_list_update word_unat_eq_iff)

lemma pbranch_inner:
  assumes "childok x c" "childok y d" "x \<noteq> y"
  shows "inner (pbranch x c y d)"
proof -
  let ?cs = "(replicate 17 PNil)[unat x := c, unat y := d]"
  have u: "unat x < 17" "unat y < 17" "c \<noteq> PNil" "d \<noteq> PNil" using assms childok_unat by auto
  have "2 \<le> length (kids ?cs)"
    using u assms(3) by (intro kids_two [of "unat x" _ "unat y"]) (auto simp: nth_list_update word_unat_eq_iff)
  then show ?thesis using u assms pbranch_nth [OF u(1,2) assms(3)] by (auto simp: pbranch_def full_iff)
qed

lemma pget_pshort: "pget (pshort a q) k = (if take (length a) k = a then pget q (drop (length a) k) else None)"
  by (simp add: pshort_def)

lemma pget_pbranch:
  "unat x < 17 \<Longrightarrow> unat y < 17 \<Longrightarrow> x \<noteq> y \<Longrightarrow> unat z < 17 \<Longrightarrow>
    pget (pbranch x c y d) (z # k) = (if z = y then pget d k else if z = x then pget c k else None)"
  by (simp add: pbranch_def pbranch_nth)

subsection \<open>Insertion\<close>

lemma drop_nth: "m < length k \<Longrightarrow> drop m k = k ! m # drop (m + 1) k"
  by (simp add: Cons_nth_drop_Suc)

lemma pshort_childok:
  assumes "inner (PShort nk q)" "m < length nk"
  shows "childok (nk ! m) (pshort (drop (m + 1) nk) q)" and "nibbles (take m nk)"
proof -
  have "childok (nk ! m) (pshort (drop (m + 1) nk) q) \<and> nibbles (take m nk)"
    using assms(1)
  proof (rule inner_PShortE)
    fix v assume q: "q = PVal v" and k: "hexkey nk" "v \<noteq> []"
    have h: "hexkey (nk ! m # drop (m + 1) nk)" "nibbles (take m nk)"
      using hexkey_drop [OF k(1) assms(2)] drop_nth [OF assms(2)] by simp_all
    then show ?thesis using k(2) q
      by (auto simp: hexkey_Cons childok_def pshort_def intro: inner.leaf split: if_splits)
  next
    fix cs assume q: "q = PFull cs" and k: "nibbles nk" "nk \<noteq> []" "inner (PFull cs)"
    have "nibbles (take m nk @ nk ! m # drop (m + 1) nk)"
      using k(1) assms(2) by (simp add: id_take_nth_drop [symmetric])
    then have n: "nibbles (take m nk)" "nk ! m < 16" "nibbles (drop (m + 1) nk)" by simp_all
    then show ?thesis using k(3) q
      by (auto simp: childok_def pshort_def intro: inner.ext)
  qed
  then show "childok (nk ! m) (pshort (drop (m + 1) nk) q)" "nibbles (take m nk)" by simp_all
qed

lemma leaf_childok:
  assumes "hexkey k" "m < length k" "v \<noteq> []"
  shows "childok (k ! m) (pshort (drop (m + 1) k) (PVal v))"
  using pshort_childok(1) [OF inner.leaf [OF assms(1,3)] assms(2)] .

lemma pshort_pbranch:
  "nibbles a \<Longrightarrow> inner (pbranch x c y d) \<Longrightarrow> inner (pshort a (pbranch x c y d))"
  by (auto simp: pshort_def pbranch_def intro: inner.ext)

lemma short_branch:
  assumes "hexkey key" "inner (PShort nk q)" "prefixLen key nk < length nk"
  shows "prefixLen key nk < length key" "key ! prefixLen key nk \<noteq> nk ! prefixLen key nk"
    "take (prefixLen key nk) key = take (prefixLen key nk) nk"
proof -
  have "hexkey nk \<or> nibbles nk" using assms(2) by (rule inner_PShortE) auto
  then show l: "prefixLen key nk < length key" by (rule hexkey_branch [OF assms(1) _ assms(3)])
  show "key ! prefixLen key nk \<noteq> nk ! prefixLen key nk" using prefixLen_neq [OF l assms(3)] .
  show "take (prefixLen key nk) key = take (prefixLen key nk) nk" by (rule prefixLen_take)
qed

lemma short_match:
  assumes "hexkey key" "inner (PShort nk q)" "take (length nk) key = nk"
  shows "fits q (drop (length nk) key)" and "\<exists>v. q = PVal v \<and> key = nk \<or> (\<exists>cs. q = PFull cs) \<and> drop (length nk) key \<noteq> []"
proof -
  have key: "key = nk @ drop (length nk) key" using assms(3) by (metis append_take_drop_id)
  have "fits q (drop (length nk) key) \<and> (\<exists>v. q = PVal v \<and> key = nk \<or> (\<exists>cs. q = PFull cs) \<and> drop (length nk) key \<noteq> [])"
    using assms(2)
  proof (rule inner_PShortE)
    fix v assume q: "q = PVal v" "hexkey nk" "v \<noteq> []"
    then have "drop (length nk) key = []" using hexkey_prefix_free [of nk] key assms(1) by metis
    then show ?thesis using q key by (simp add: fits_def)
  next
    fix cs assume q: "q = PFull cs" "nibbles nk" "nk \<noteq> []" "inner (PFull cs)"
    then have "hexkey (drop (length nk) key)" using hexkey_append [of nk "drop (length nk) key"] key assms(1) by simp
    moreover from this have "drop (length nk) key \<noteq> []" by (metis hexkey_ne)
    ultimately show ?thesis using q by (simp add: fits_def canon_def)
  qed
  then show "fits q (drop (length nk) key)"
    "\<exists>v. q = PVal v \<and> key = nk \<or> (\<exists>cs. q = PFull cs) \<and> drop (length nk) key \<noteq> []" by blast+
qed

lemma pinsert_fits: "fits p k \<Longrightarrow> v \<noteq> [] \<Longrightarrow> fits (pinsert p k v) k \<and> pinsert p k v \<noteq> PNil"
proof (induction p k v rule: pinsert.induct)
  case (2 x k v)
  then show ?case by (simp add: fits_def canon_def inner.leaf)
next
  case (4 nk q x k v)
  let ?key = "x # k"
  have h: "hexkey ?key" and i: "inner (PShort nk q)" using 4 by (auto simp: fits_def canon_def)
  show ?case
  proof (cases "prefixLen ?key nk = length nk")
    case True
    then have t: "take (length nk) ?key = nk" by (simp add: prefixLen_full)
    note m = short_match [OF h i t]
    have IH: "fits (pinsert q (drop (length nk) ?key) v) (drop (length nk) ?key)"
      using "4.IH" [OF refl refl True] m(1) "4.prems"(2) True by simp
    have "inner (PShort nk (pinsert q (drop (length nk) ?key) v))"
      using i
    proof (rule inner_PShortE)
      fix w assume q: "q = PVal w" "hexkey nk"
      then have "drop (length nk) ?key = []" using m(2) t by auto
      then show ?thesis using q "4.prems"(2) by (simp add: inner.leaf)
    next
      fix cs assume q: "q = PFull cs" "nibbles nk" "nk \<noteq> []"
      then obtain y r where r: "drop (length nk) ?key = y # r" using m(2) by (cases "drop (length nk) ?key") auto
      then have "inner (pinsert q (y # r) v)" using IH q by (auto simp: fits_def canon_def)
      then show ?thesis using q r by (auto intro: inner.ext)
    qed
    then show ?thesis using True h by (simp add: fits_def canon_def Let_def)
  next
    case False
    let ?m = "prefixLen ?key nk"
    have lt: "?m < length nk" using False prefixLen_le(2) [of ?key nk] by simp
    note b = short_branch [OF h i lt]
    have "inner (pbranch (nk ! ?m) (pshort (drop (?m + 1) nk) q) (?key ! ?m) (pshort (drop (?m + 1) ?key) (PVal v)))"
      using pshort_childok(1) [OF i lt] leaf_childok [OF h b(1) "4.prems"(2)] b(2) by (intro pbranch_inner) auto
    moreover have "nibbles (take ?m ?key)" using pshort_childok(2) [OF i lt] b(3) by simp
    ultimately have "inner (pinsert (PShort nk q) ?key v)"
      using False pshort_pbranch by (simp add: Let_def)
    then show ?thesis using h by (auto simp: fits_def canon_def)
  qed
next
  case (5 cs x k v)
  have h: "hexkey (x # k)" and i: "inner (PFull cs)" using 5 by (auto simp: fits_def canon_def)
  have "childok x (pinsert (cs ! unat x) k v)"
    using "5.IH" [OF full_child [OF i h] "5.prems"(2)] fits_childok [OF h] by blast
  then show ?case using full_update [OF i] h by (simp add: fits_def canon_def)
qed (auto simp: fits_def canon_def)

lemma pget_split:
  assumes "nk = a @ x # b"
  shows "pget (PShort nk q) k' = (if take (length a) k' = a \<and> length a < length k' \<and> k' ! length a = x
    then pget (pshort b q) (drop (length a + 1) k') else None)"
proof (cases "take (length a) k' = a \<and> length a < length k'")
  case True
  then have "k' = a @ k' ! length a # drop (length a + 1) k'"
    by (metis append_take_drop_id drop_nth)
  then obtain z r where "k' = a @ z # r" by blast
  then show ?thesis by (simp add: assms pget_pshort)
next
  case False
  have "take (length nk) k' \<noteq> nk"
  proof
    assume t: "take (length nk) k' = nk"
    have "take (length a) k' = take (length a) nk" using arg_cong [OF t, of "take (length a)"] by (simp add: assms)
    moreover have "length nk \<le> length k'" using arg_cong [OF t, of length] by simp
    ultimately show False using False by (simp add: assms)
  qed
  then show ?thesis using False by auto
qed

lemma pget_leaf: "hexkey k \<Longrightarrow> hexkey k' \<Longrightarrow> pget (PShort k (PVal v)) k' = (if k' = k then Some v else None)"
  using hexkey_prefix_free [of k] by (auto, metis append_take_drop_id append_Nil2)

lemma pget_leaf': "hexkey (x # k) \<Longrightarrow> hexkey (x # k') \<Longrightarrow>
    pget (pshort k (PVal v)) k' = (if k' = k then Some v else None)"
  using pget_leaf [of k k' v] by (auto simp: pshort_def hexkey_Cons split: if_splits)

lemma pget_pinsert:
  "fits p k \<Longrightarrow> v \<noteq> [] \<Longrightarrow> (if k = [] then k' = [] else hexkey k') \<Longrightarrow>
    pget (pinsert p k v) k' = (if k' = k then Some v else pget p k')"
proof (induction p k v arbitrary: k' rule: pinsert.induct)
  case (2 x k v)
  then show ?case using pget_leaf [of "x # k" k' v] by (auto simp: fits_def simp del: pget.simps(3))
next
  case (4 nk q x k v)
  let ?key = "x # k"
  have h: "hexkey ?key" and i: "inner (PShort nk q)" and h': "hexkey k'" using 4 by (auto simp: fits_def canon_def)
  show ?case
  proof (cases "prefixLen ?key nk = length nk")
    case True
    then have t: "take (length nk) ?key = nk" by (simp add: prefixLen_full)
    have key: "?key = nk @ drop (length nk) ?key" using t by (metis append_take_drop_id)
    note m = short_match [OF h i t]
    show ?thesis
    proof (cases "take (length nk) k' = nk")
      case t': True
      have key': "k' = nk @ drop (length nk) k'" using t' by (metis append_take_drop_id)
      note m' = short_match [OF h' i t']
      have "if drop (length nk) ?key = [] then drop (length nk) k' = [] else hexkey (drop (length nk) k')"
        using m(2) m'(1,2) by (auto simp: fits_def split: if_splits)
      then have "pget (pinsert q (drop (length nk) ?key) v) (drop (length nk) k') =
          (if drop (length nk) k' = drop (length nk) ?key then Some v else pget q (drop (length nk) k'))"
        using "4.IH" [OF refl refl True, of "drop (length nk) k'"] m(1) "4.prems"(2) True by simp
      moreover have "k' = ?key \<longleftrightarrow> drop (length nk) k' = drop (length nk) ?key" using key key' by metis
      ultimately show ?thesis using True t' by (simp add: Let_def)
    next
      case False
      then have "k' \<noteq> ?key" using t by auto
      then show ?thesis using False True by (simp add: Let_def)
    qed
  next
    case False
    let ?m = "prefixLen ?key nk"
    have lt: "?m < length nk" using False prefixLen_le(2) [of ?key nk] by simp
    note b = short_branch [OF h i lt]
    let ?a = "take ?m nk"
    have nk: "nk = ?a @ nk ! ?m # drop (?m + 1) nk" using id_take_nth_drop [OF lt] by simp
    have key: "?key = ?a @ ?key ! ?m # drop (?m + 1) ?key" using id_take_nth_drop [OF b(1)] b(3) by simp
    have la: "length ?a = ?m" using lt by simp
    have r: "pinsert (PShort nk q) ?key v = pshort ?a (pbranch (nk ! ?m) (pshort (drop (?m + 1) nk) q)
        (?key ! ?m) (pshort (drop (?m + 1) ?key) (PVal v)))"
      using False b(3) by (simp add: Let_def)
    show ?thesis
    proof (cases "take ?m k' = ?a")
      case t: True
      have lk: "?m < length k'"
      proof (rule ccontr)
        assume "\<not> ?m < length k'"
        then have "k' = ?a" using t by simp
        then show False using h' pshort_childok(2) [OF i lt] nibbles_no_term by (metis hasTerm_snoc hexkey_def)
      qed
      have k': "k' = ?a @ k' ! ?m # drop (?m + 1) k'" using id_take_nth_drop [OF lk] t by simp
      have n: "nibbles ?a" using pshort_childok(2) [OF i lt] .
      have hz: "hexkey (k' ! ?m # drop (?m + 1) k')" "hexkey (?key ! ?m # drop (?m + 1) ?key)"
        using h h' key k' hexkey_append [OF n] by metis+
      have u: "unat (nk ! ?m) < 17" "unat (?key ! ?m) < 17" "unat (k' ! ?m) < 17"
        using childok_unat [OF pshort_childok(1) [OF i lt]] hexkey_unat hz by auto
      have e: "k' = ?key \<longleftrightarrow> k' ! ?m = ?key ! ?m \<and> drop (?m + 1) k' = drop (?m + 1) ?key"
        using k' key by (metis append_same_eq list.inject same_append_eq)
      have "pget (pinsert (PShort nk q) ?key v) k' =
        (if k' ! ?m = ?key ! ?m then pget (pshort (drop (?m + 1) ?key) (PVal v)) (drop (?m + 1) k')
         else if k' ! ?m = nk ! ?m then pget (pshort (drop (?m + 1) nk) q) (drop (?m + 1) k') else None)"
        unfolding r pget_pshort [of ?a] la using t drop_nth [OF lk] pget_pbranch [OF u(1,2) _ u(3)] b(2) by simp
      moreover have "pget (PShort nk q) k' = (if k' ! ?m = nk ! ?m
          then pget (pshort (drop (?m + 1) nk) q) (drop (?m + 1) k') else None)"
        using pget_split [OF nk, of q k'] t lk la by simp
      ultimately show ?thesis using e b(2) pget_leaf' [of "?key ! ?m" "drop (?m + 1) ?key" "drop (?m + 1) k'" v] hz
        by (auto simp del: pget.simps)
    next
      case t: False
      then have "k' \<noteq> ?key" using b(3) by auto
      moreover have "pget (PShort nk q) k' = None" using pget_split [OF nk, of q k'] t la by simp
      ultimately show ?thesis unfolding r pget_pshort la using t by simp
    qed
  qed
next
  case (5 cs x k v)
  have h: "hexkey (x # k)" and i: "inner (PFull cs)" using 5 by (auto simp: fits_def canon_def)
  obtain y r where k': "k' = y # r" and h': "hexkey (y # r)" using "5.prems"(3) by (cases k') auto
  have l: "length cs = 17" using i by (simp add: full_iff)
  show ?case
  proof (cases "y = x")
    case True
    then have "if k = [] then r = [] else hexkey r" using h h' by (auto simp: hexkey_Cons split: if_splits)
    then show ?thesis using "5.IH" [OF full_child [OF i h] "5.prems"(2)] True k' l hexkey_unat [OF h] by auto
  next
    case False
    then show ?thesis using k' by (simp add: nth_list_update_neq word_unat_eq_iff)
  qed
qed (auto simp: fits_def canon_def split: if_splits)

subsection \<open>Deletion\<close>

definition kids_ok :: "ptrie list \<Rightarrow> bool" where
  "kids_ok cs \<longleftrightarrow> length cs = 17 \<and> (\<forall>x. unat x < 17 \<longrightarrow> cs ! unat x = PNil \<or> childok x (cs ! unat x)) \<and> kids cs \<noteq> []"

lemma kids_set: "set (kids cs) = {i. i < length cs \<and> cs ! i \<noteq> PNil}"
  by (auto simp: kids_def)

lemma inner_Cons: "x < 16 \<Longrightarrow> inner (PShort ck cq) \<Longrightarrow> inner (PShort (x # ck) cq)"
  by (erule inner_PShortE) (auto intro!: inner.intros simp: hexkey_Cons)

lemma preduce_cases:
  assumes "kids_ok cs"
  obtains x where "kids cs = [unat x]" "unat x < 17" "childok x (cs ! unat x)"
    "preduce cs = pjoin [x] (cs ! unat x)" "\<And>y. unat y < 17 \<Longrightarrow> y \<noteq> x \<Longrightarrow> cs ! unat y = PNil"
  | "2 \<le> length (kids cs)" "preduce cs = PFull cs"
proof (cases "2 \<le> length (kids cs)")
  case True
  then obtain i j r where "kids cs = i # j # r" by (cases "kids cs"; cases "tl (kids cs)") auto
  then show thesis using that(2) True by (simp add: preduce_def)
next
  case False
  then obtain i where i: "kids cs = [i]" using assms by (cases "kids cs"; cases "tl (kids cs)") (auto simp: kids_ok_def)
  have s: "set (kids cs) = {i}" using i by simp
  then have k: "i < 17" "cs ! i \<noteq> PNil" "\<And>j. j < 17 \<Longrightarrow> j \<noteq> i \<Longrightarrow> cs ! j = PNil"
    using assms unfolding kids_set by (auto simp: kids_ok_def)
  define x :: byte where "x = word_of_nat i"
  have u: "unat x = i" using k(1) by (simp add: x_def unat_word_of_nat_byte)
  have c: "childok x (cs ! unat x)" using assms k u by (auto simp: kids_ok_def)
  have "preduce cs = pjoin [x] (cs ! unat x)"
    using c u by (auto simp: preduce_def i pjoin_def x_def [symmetric] childok_def word_unat_eq_iff split: ptrie.splits if_splits)
  then show thesis using that(1) [of x] i u k c by (auto simp: word_unat_eq_iff)
qed

lemma pjoin_single_inner: "childok x c \<Longrightarrow> inner (pjoin [x] c)"
  by (cases c) (auto simp: childok_def pjoin_def inner_Cons hexkey_Cons intro!: inner.intros split: if_splits)

lemma pjoin_inner: "nibbles nk \<Longrightarrow> nk \<noteq> [] \<Longrightarrow> inner c \<Longrightarrow> inner (pjoin nk c)"
  by (cases c) (auto simp: pjoin_def hexkey_append intro!: inner.intros elim!: inner_PShortE)

lemma preduce_inner:
  assumes "kids_ok cs"
  shows "inner (preduce cs)"
  using assms by (rule preduce_cases) (use assms in \<open>auto simp: pjoin_single_inner kids_ok_def full_iff\<close>)

lemma pget_pjoin: "pget (pjoin nk c) k = (if take (length nk) k = nk then pget c (drop (length nk) k) else None)"
proof (cases c)
  case (PShort ck cq)
  have "take (length (nk @ ck)) k = nk @ ck \<longleftrightarrow> take (length nk) k = nk \<and> take (length ck) (drop (length nk) k) = ck"
  proof (cases "take (length nk) k = nk")
    case True
    then show ?thesis by (simp add: take_add)
  next
    case False
    have "take (length (nk @ ck)) k \<noteq> nk @ ck"
    proof
      assume "take (length (nk @ ck)) k = nk @ ck"
      from arg_cong [OF this, of "take (length nk)"] show False using False by simp
    qed
    then show ?thesis using False by simp
  qed
  then show ?thesis by (simp add: pjoin_def PShort add.commute)
qed (simp_all add: pjoin_def)

lemma pget_preduce:
  assumes "kids_ok cs" "unat y < 17"
  shows "pget (preduce cs) (y # r) = pget (cs ! unat y) r"
  using assms(1)
proof (rule preduce_cases)
  fix x assume x: "preduce cs = pjoin [x] (cs ! unat x)" "\<And>y. unat y < 17 \<Longrightarrow> y \<noteq> x \<Longrightarrow> cs ! unat y = PNil"
  show ?thesis using x(2) [OF assms(2)] unfolding x(1) pget_pjoin by (cases "y = x") simp_all
qed simp

lemma delete_kids_ok:
  assumes "inner (PFull cs)" "hexkey (x # k)" "fits c k"
  shows "kids_ok (cs[unat x := c])"
proof -
  have l: "length cs = 17" using assms(1) by (simp add: full_iff)
  obtain i j where ij: "i < length cs" "j < length cs" "i \<noteq> j" "cs ! i \<noteq> PNil" "cs ! j \<noteq> PNil"
    using assms(1) two_kids [of cs] by (auto simp: full_iff)
  then obtain n where n: "n < length cs" "cs ! n \<noteq> PNil" "n \<noteq> unat x" by (cases "i = unat x") auto
  then have "n \<in> set (kids (cs[unat x := c]))" unfolding kids_set by simp
  then have "kids (cs[unat x := c]) \<noteq> []" by auto
  moreover have "cs[unat x := c] ! unat y = (if y = x then c else cs ! unat y)" if "unat y < 17" for y
    using that l hexkey_unat [OF assms(2)] by (auto simp: nth_list_update word_unat_eq_iff)
  ultimately show ?thesis using assms(1) fits_childok [OF assms(2,3)] l by (auto simp: kids_ok_def full_iff)
qed

lemma pdelete_fits: "fits p k \<Longrightarrow> fits (pdelete p k) k \<and> (k \<noteq> [] \<longrightarrow> (\<exists>cs. p = PFull cs) \<longrightarrow> inner (pdelete p k))"
proof (induction p k rule: pdelete.induct)
  case (3 nk q k)
  have h: "hexkey k" and i: "inner (PShort nk q)" using 3 by (auto simp: fits_def canon_def split: if_splits)
  have k: "k \<noteq> []" using h by auto
  consider "prefixLen k nk < length nk" | "prefixLen k nk = length nk" "length nk = length k"
    | "prefixLen k nk = length nk" "length nk \<noteq> length k"
    using prefixLen_le(2) [of k nk] by linarith
  then show ?case
  proof cases
    case 1
    then show ?thesis using "3.prems" by simp
  next
    case 2
    then show ?thesis using h k by (simp add: fits_def canon_def)
  next
    case m: 3
    then have t: "take (length nk) k = nk" by (simp add: prefixLen_full)
    obtain cs where q: "q = PFull cs" "drop (length nk) k \<noteq> []" using short_match(2) [OF h i t] m by auto
    have "inner (pdelete q (drop (length nk) k))"
      using "3.IH" [OF refl _ _ short_match(1) [OF h i t]] m q by auto
    moreover have "nibbles nk" "nk \<noteq> []" using i q by (auto elim!: inner_PShortE)
    ultimately show ?thesis using m h k pjoin_inner by (simp add: fits_def canon_def Let_def)
  qed
next
  case (5 cs x k)
  have h: "hexkey (x # k)" and i: "inner (PFull cs)" using 5 by (auto simp: fits_def canon_def)
  have "inner (preduce (cs[unat x := pdelete (cs ! unat x) k]))"
    using "5.IH" [OF full_child [OF i h]] by (intro preduce_inner delete_kids_ok [OF i h]) simp
  then show ?case using h by (simp add: fits_def canon_def)
qed (auto simp: fits_def canon_def split: if_splits)

lemma pget_pdelete:
  "fits p k \<Longrightarrow> (if k = [] then k' = [] else hexkey k') \<Longrightarrow>
    pget (pdelete p k) k' = (if k' = k then None else pget p k')"
proof (induction p k arbitrary: k' rule: pdelete.induct)
  case (3 nk q k)
  have h: "hexkey k" and i: "inner (PShort nk q)" and h': "hexkey k'" using 3 by (auto simp: fits_def canon_def split: if_splits)
  consider "prefixLen k nk < length nk" | "prefixLen k nk = length nk" "length nk = length k"
    | "prefixLen k nk = length nk" "length nk \<noteq> length k"
    using prefixLen_le(2) [of k nk] by linarith
  then show ?case
  proof cases
    case 1
    then have "take (length nk) k \<noteq> nk" using prefixLen_full [of k nk] by simp
    then show ?thesis using 1 by simp
  next
    case 2
    have t: "take (length nk) k = nk" using 2(1) by (simp add: prefixLen_full)
    then have k: "nk = k" using 2(2) by (metis order_refl take_all)
    obtain v where q: "q = PVal v" using short_match(2) [OF h i t] k by auto
    have "pdelete (PShort nk q) k = PNil" using 2 by simp
    then show ?thesis using pget_leaf [OF h h', of v] unfolding k q by (simp del: pget.simps(3))
  next
    case m: 3
    then have t: "take (length nk) k = nk" by (simp add: prefixLen_full)
    have k: "k = nk @ drop (length nk) k" using t by (metis append_take_drop_id)
    obtain cs where q: "q = PFull cs" "drop (length nk) k \<noteq> []" using short_match(2) [OF h i t] m by auto
    have r: "pdelete (PShort nk q) k = pjoin nk (pdelete q (drop (length nk) k))" using m by (simp add: Let_def)
    show ?thesis
    proof (cases "take (length nk) k' = nk")
      case t': True
      have k': "k' = nk @ drop (length nk) k'" using t' by (metis append_take_drop_id)
      have "hexkey (drop (length nk) k')" using short_match [OF h' i t'] q by (auto simp: fits_def split: if_splits)
      then have "pget (pdelete q (drop (length nk) k)) (drop (length nk) k') =
          (if drop (length nk) k' = drop (length nk) k then None else pget q (drop (length nk) k'))"
        using "3.IH" [OF refl _ _ short_match(1) [OF h i t], of "drop (length nk) k'"] m q by simp
      moreover have "k' = k \<longleftrightarrow> drop (length nk) k' = drop (length nk) k" using k k' by metis
      ultimately show ?thesis unfolding r pget_pjoin using t' by simp
    next
      case False
      then show ?thesis unfolding r pget_pjoin by simp
    qed
  qed
next
  case (5 cs x k)
  have h: "hexkey (x # k)" and i: "inner (PFull cs)" using 5 by (auto simp: fits_def canon_def)
  obtain y r where k': "k' = y # r" and h': "hexkey (y # r)" using "5.prems"(2) by (cases k') auto
  have l: "length cs = 17" using i by (simp add: full_iff)
  have f: "fits (pdelete (cs ! unat x) k) k" using pdelete_fits [OF full_child [OF i h]] by simp
  have p: "pget (pdelete (PFull cs) (x # k)) k' = pget (cs[unat x := pdelete (cs ! unat x) k] ! unat y) r"
    using pget_preduce [OF delete_kids_ok [OF i h f] hexkey_unat [OF h']] k' by simp
  show ?case
  proof (cases "y = x")
    case True
    then have "if k = [] then r = [] else hexkey r" using h h' by (auto simp: hexkey_Cons split: if_splits)
    then show ?thesis using "5.IH" [OF full_child [OF i h]] True k' l hexkey_unat [OF h] p by auto
  next
    case False
    then show ?thesis using k' p by (simp add: nth_list_update_neq word_unat_eq_iff)
  qed
qed (auto simp: fits_def canon_def split: if_splits)

subsection \<open>Canonical tries are determined by their maps\<close>

lemma childok_key:
  assumes "childok x c" "\<And>p. p = c \<Longrightarrow> inner p \<Longrightarrow> \<exists>k v. hexkey k \<and> pget p k = Some v"
  shows "\<exists>k v. hexkey (x # k) \<and> pget c k = Some v"
proof (cases "x = 16")
  case True
  then obtain v where "c = PVal v" "hexkey [x]" using assms(1) by (auto simp: childok_def hexkey_Cons)
  then have "hexkey (x # [])" "pget c [] = Some v" by simp_all
  then show ?thesis by blast
next
  case False
  then obtain k v where "hexkey k" "pget c k = Some v" "x < 16" using assms by (auto simp: childok_def)
  then have "hexkey (x # k)" "pget c k = Some v" by (auto simp: hexkey_Cons)
  then show ?thesis by blast
qed

lemma inner_key: "inner p \<Longrightarrow> \<exists>k v. hexkey k \<and> pget p k = Some v"
proof (induction p rule: inner.induct)
  case (leaf k v)
  then have "hexkey k" "pget (PShort k (PVal v)) k = Some v" by simp_all
  then show ?case by blast
next
  case (ext k cs)
  then obtain k' v where "hexkey k'" "pget (PFull cs) k' = Some v" by blast
  then have "hexkey (k @ k')" "pget (PShort k (PFull cs)) (k @ k') = Some v"
    using ext.hyps(1) by (simp_all add: hexkey_append)
  then show ?case by blast
next
  case (full cs)
  obtain i where i: "i < 17" "cs ! i \<noteq> PNil" using two_kids [OF full.hyps(3)] full.hyps(1) by metis
  let ?x = "word_of_nat i :: byte"
  have u: "unat ?x = i" using i(1) by (simp add: unat_word_of_nat_byte)
  have "childok ?x (cs ! i)"
  proof (cases "i = 16")
    case True
    then show ?thesis using full.hyps(2) i(2) by (simp add: childok_def)
  next
    case False
    then have "?x < 16" "i < 16" using i(1) u by (simp_all add: word_less_nat_alt)
    then show ?thesis using full.IH i by (auto simp: childok_def)
  qed
  moreover have "\<exists>k v. hexkey k \<and> pget (cs ! i) k = Some v" if "inner (cs ! i)"
  proof -
    have "i \<noteq> 16" using that full.hyps(2) by auto
    then have "i < 16" using i(1) by simp
    then show ?thesis using full.IH i(2) by auto
  qed
  ultimately obtain k v where "hexkey (?x # k)" "pget (cs ! i) k = Some v" using childok_key by blast
  then have "hexkey (?x # k)" "pget (PFull cs) (?x # k) = Some v" using u by simp_all
  then show ?case by blast
qed

lemma full_key:
  assumes "inner (PFull cs)" "i < 17" "cs ! i \<noteq> PNil"
  obtains k v where "hexkey (word_of_nat i # k)" "pget (PFull cs) (word_of_nat i # k) = Some v"
proof -
  have u: "unat (word_of_nat i :: byte) = i" using assms(2) by (simp add: unat_word_of_nat_byte)
  then have "childok (word_of_nat i) (cs ! i)" using assms(1) [unfolded full_iff, THEN conjunct2, THEN conjunct1, rule_format, of "word_of_nat i"] assms(2,3) by simp
  from childok_key [OF this] obtain k v where "hexkey (word_of_nat i # k)" "pget (cs ! i) k = Some v"
    using inner_key by blast
  then show thesis using that u by simp
qed

lemma full_two_keys:
  assumes "inner (PFull cs)"
  obtains x k y l where "x \<noteq> y" "hexkey (x # k)" "pget (PFull cs) (x # k) \<noteq> None"
    "hexkey (y # l)" "pget (PFull cs) (y # l) \<noteq> None"
proof -
  have l: "length cs = 17" "2 \<le> length (kids cs)" using assms by (simp_all add: full_iff)
  obtain i j where ij: "i < 17" "j < 17" "i \<noteq> j" "cs ! i \<noteq> PNil" "cs ! j \<noteq> PNil"
    using two_kids [OF l(2)] l(1) by metis
  have "(word_of_nat i :: byte) \<noteq> word_of_nat j"
    using ij unat_word_of_nat_byte [of i] unat_word_of_nat_byte [of j] by auto
  moreover obtain k v where "hexkey (word_of_nat i # k)" "pget (PFull cs) (word_of_nat i # k) = Some v"
    by (rule full_key [OF assms ij(1,4)])
  moreover obtain k' v' where "hexkey (word_of_nat j # k')" "pget (PFull cs) (word_of_nat j # k') = Some v'"
    by (rule full_key [OF assms ij(2,5)])
  ultimately show thesis using that by (metis option.distinct(1))
qed

lemma pget_PShort_prefix: "pget (PShort nk q) k \<noteq> None \<Longrightarrow> take (length nk) k = nk"
  by (simp split: if_splits)

definition same_map :: "ptrie \<Rightarrow> ptrie \<Rightarrow> bool" where
  "same_map p q \<longleftrightarrow> (\<forall>k. hexkey k \<longrightarrow> pget p k = pget q k)"

lemma same_mapD: "same_map p q \<Longrightarrow> hexkey k \<Longrightarrow> pget p k = pget q k"
  by (simp add: same_map_def)

lemma same_map_sym: "same_map p q \<Longrightarrow> same_map q p"
  by (simp add: same_map_def)

lemma leaf_not_full:
  assumes "same_map (PShort k (PVal v)) (PShort nk (PFull cs))" "hexkey k" "nibbles nk" "inner (PFull cs)"
  shows False
proof -
  obtain x a y b where d: "x \<noteq> y" "hexkey (x # a)" "pget (PFull cs) (x # a) \<noteq> None"
    "hexkey (y # b)" "pget (PFull cs) (y # b) \<noteq> None" using full_two_keys [OF assms(4)] .
  have "pget (PShort k (PVal v)) (nk @ x # a) \<noteq> None" "pget (PShort k (PVal v)) (nk @ y # b) \<noteq> None"
    using same_mapD [OF assms(1), of "nk @ x # a"] same_mapD [OF assms(1), of "nk @ y # b"] d
      hexkey_append [OF assms(3)] by simp_all
  then have "nk @ x # a = k" "nk @ y # b = k"
    using pget_leaf [OF assms(2)] d(2,4) hexkey_append [OF assms(3)] by (metis option.distinct(1))+
  then have "x # a = y # b" by (metis same_append_eq)
  then show False using d(1) by simp
qed

lemma same_map_PShort_Nil: "same_map (PShort [] q) p \<longleftrightarrow> same_map q p"
  by (simp add: same_map_def)

lemma full_not_ext:
  assumes "same_map (PFull cs) (PShort nk q)" "nk \<noteq> []" "inner (PFull cs)"
  shows False
proof -
  obtain x a y b where d: "x \<noteq> y" "hexkey (x # a)" "pget (PFull cs) (x # a) \<noteq> None"
    "hexkey (y # b)" "pget (PFull cs) (y # b) \<noteq> None" using full_two_keys [OF assms(3)] .
  have "take (length nk) (x # a) = nk" "take (length nk) (y # b) = nk"
    using same_mapD [OF assms(1) d(2)] same_mapD [OF assms(1) d(4)] d(3,5) pget_PShort_prefix by metis+
  then show False using assms(2) d(1) by (cases nk) auto
qed

lemma ext_prefix:
  assumes "same_map (PShort a (PFull cs)) (PShort b q)" "nibbles a" "inner (PFull cs)"
  shows "length b \<le> length a \<and> take (length b) a = b"
proof -
  obtain x k y l where d: "x \<noteq> y" "hexkey (x # k)" "pget (PFull cs) (x # k) \<noteq> None"
    "hexkey (y # l)" "pget (PFull cs) (y # l) \<noteq> None" using full_two_keys [OF assms(3)] .
  have h: "hexkey (a @ x # k)" "hexkey (a @ y # l)" using d hexkey_append [OF assms(2)] by simp_all
  have "pget (PShort b q) (a @ x # k) \<noteq> None" "pget (PShort b q) (a @ y # l) \<noteq> None"
    using same_mapD [OF assms(1) h(1)] same_mapD [OF assms(1) h(2)] d(3,5) by (simp_all del: pget.simps(5))
  then have p: "take (length b) (a @ x # k) = b" "take (length b) (a @ y # l) = b"
    using pget_PShort_prefix by blast+
  have "length b \<le> length a"
  proof (rule ccontr)
    assume "\<not> length b \<le> length a"
    then have "b ! length a = x" "b ! length a = y"
      using p by (metis not_le nth_append_length nth_take)+
    then show False using d(1) by simp
  qed
  then show ?thesis using p(1) by simp
qed

lemma inner_unique: "inner p \<Longrightarrow> inner q \<Longrightarrow> same_map p q \<Longrightarrow> p = q"
proof (induction p arbitrary: q rule: inner.induct)
  case (leaf k v)
  show ?case using leaf.prems(1)
  proof (cases q rule: inner.cases)
    case (leaf k' v')
    have "pget q k = Some v" using same_mapD [OF leaf.prems(2) leaf.hyps(1)] by simp
    then have "k = k' \<and> v = v'" using pget_leaf [of k' k v'] leaf \<open>hexkey k\<close> by (auto split: if_splits)
    then show ?thesis using leaf by simp
  next
    case (ext nk cs)
    then show ?thesis using leaf_not_full [of k v nk cs] leaf.prems(2) leaf.hyps(1) by blast
  next
    case (full cs)
    then have "same_map (PShort k (PVal v)) (PShort [] (PFull cs))"
      using leaf.prems(2) same_map_PShort_Nil same_map_sym by blast
    then show ?thesis using leaf_not_full [of k v "[]" cs] leaf.hyps(1) leaf.prems(1) full(1) by simp
  qed
next
  case (ext a cs)
  show ?case using ext.prems(1)
  proof (cases q rule: inner.cases)
    case (leaf k v)
    then show ?thesis using leaf_not_full [of k v a cs] same_map_sym ext by blast
  next
    case e: (ext b ds)
    have "length b \<le> length a \<and> take (length b) a = b" "length a \<le> length b \<and> take (length a) b = a"
      using ext_prefix [of a cs b "PFull ds"] ext_prefix [of b ds a "PFull cs"] ext e same_map_sym by blast+
    then have ab: "a = b" by simp
    have "same_map (PFull cs) (PFull ds)"
      unfolding same_map_def
    proof (intro allI impI)
      fix k assume "hexkey k"
      then have "hexkey (a @ k)" using hexkey_append [OF ext.hyps(1)] by simp
      from same_mapD [OF ext.prems(2) this] show "pget (PFull cs) k = pget (PFull ds) k" using e(1) ab by simp
    qed
    then show ?thesis using ext.IH [OF e(4)] e(1) ab by simp
  next
    case (full ds)
    then show ?thesis using full_not_ext [of ds a "PFull cs"] same_map_sym ext by blast
  qed
next
  case (full cs)
  have ip: "inner (PFull cs)"
    using full.hyps full.IH by (intro inner.full) auto
  show ?case using full.prems(1)
  proof (cases q rule: inner.cases)
    case (leaf k v)
    then have "same_map (PShort k (PVal v)) (PShort [] (PFull cs))"
      using full.prems(2) same_map_PShort_Nil same_map_sym by blast
    then show ?thesis using leaf_not_full [of k v "[]" cs] leaf ip by simp
  next
    case (ext b ds)
    then show ?thesis using full_not_ext [of cs b "PFull ds"] full.prems(2) ip by blast
  next
    case f: (full ds)
    have child: "pget (cs ! unat x) k = pget (ds ! unat x) k" if "hexkey (x # k)" for x k
      using same_mapD [OF full.prems(2) that] f(1) by simp
    have "cs ! i = ds ! i" if i: "i < 17" for i
    proof (cases "i = 16")
      case True
      have "pget (cs ! 16) [] = pget (ds ! 16) []" using child [of 16 "[]"] by (simp add: hexkey_Cons)
      then show ?thesis using True full.hyps(2) f(4) by auto
    next
      case False
      let ?x = "word_of_nat i :: byte"
      have u: "unat ?x = i" using i by (simp add: unat_word_of_nat_byte)
      have x: "?x < 16" using i False u by (simp add: word_less_nat_alt)
      have s: "same_map (cs ! i) (ds ! i)"
        unfolding same_map_def
      proof (intro allI impI)
        fix k assume "hexkey k"
        then have "hexkey (?x # k)" using x by (auto simp: hexkey_Cons)
        from child [OF this] show "pget (cs ! i) k = pget (ds ! i) k" using u by simp
      qed
      have i': "i < 16" using i False by simp
      then have c: "cs ! i = PNil \<or> inner (cs ! i)" "ds ! i = PNil \<or> inner (ds ! i)"
        using full.IH f(3) by auto
      then consider "cs ! i = PNil" "ds ! i = PNil" | "cs ! i = PNil" "inner (ds ! i)"
        | "inner (cs ! i)" "ds ! i = PNil" | "inner (cs ! i)" "inner (ds ! i)" by blast
      then show ?thesis
      proof cases
        case 2
        then show ?thesis using inner_key [of "ds ! i"] same_mapD [OF s] by fastforce
      next
        case 3
        then show ?thesis using inner_key [of "cs ! i"] same_mapD [OF s] by fastforce
      next
        case 4
        then show ?thesis using full.IH i' s by auto
      qed simp
    qed
    then show ?thesis using f(1,2) full.hyps(1) by (simp add: list_eq_iff_nth_eq)
  qed
qed

lemma canon_unique: "canon p \<Longrightarrow> canon q \<Longrightarrow> same_map p q \<Longrightarrow> p = q"
  using inner_unique inner_key same_mapD same_map_sym by (fastforce simp: canon_def)

end
