(* ===== verification/Trie_Refine.thy ===== *)
theory Trie_Refine
  imports Trie_Core Trie_Spec
begin

section \<open>The trie implements a map\<close>

text \<open>
  The trie of \<open>Trie_Core\<close>, with its hash nodes resolved from the database, against the
  pure tries of \<open>Trie_Spec\<close>. Every operation on a represented trie returns, and the
  node it returns represents the result of the pure operation.
\<close>

subsection \<open>Representation\<close>

text \<open>
  \<open>rep ok db n p\<close>: the node \<open>n\<close>, with its hash nodes loaded from \<open>db\<close>, is the pure trie
  \<open>p\<close>. The database holds short and full nodes, and what it returns for a hash carries no
  other hash. A node carries a hash when it is a hash node or has one cached; \<open>ok\<close> is
  any condition on the hashes carried, \<open>ok False\<close> for the nodes below the root and
  \<open>ok True\<close> for the root, which may be smaller than the nodes that are hashed below it.
\<close>

definition stored :: "node \<Rightarrow> bool" where
  "stored n \<longleftrightarrow> (case n of ShortNode _ _ _ \<Rightarrow> True | FullNode _ _ \<Rightarrow> True | _ \<Rightarrow> False)"

definition own_hash :: "node \<Rightarrow> bytes option" where
  "own_hash n = (case n of HashNode h \<Rightarrow> Some h | _ \<Rightarrow> fst (node_cache n))"

definition hash_fits :: "(bytes \<Rightarrow> ptrie \<Rightarrow> bool) \<Rightarrow> node \<Rightarrow> ptrie \<Rightarrow> bool" where
  "hash_fits ok n p \<longleftrightarrow> (\<forall>h. own_hash n = Some h \<longrightarrow> ok h p)"

definition keeps :: "node \<Rightarrow> node \<Rightarrow> bool" where
  "keeps n m \<longleftrightarrow> own_hash m = None \<or> own_hash m = own_hash n"

type_synonym hash_cond = "bool \<Rightarrow> bytes \<Rightarrow> ptrie \<Rightarrow> bool"

inductive rep :: "hash_cond \<Rightarrow> node_db \<Rightarrow> node \<Rightarrow> ptrie \<Rightarrow> bool" for ok db where
  nil: "rep ok db NNil PNil"
| val: "rep ok db (ValueNode v) (PVal v)"
| short: "rep ok db n p \<Longrightarrow> hash_fits (ok False) n p \<Longrightarrow> rep ok db (ShortNode k n f) (PShort k p)"
| full: "length ns = length ps \<Longrightarrow> (\<forall>i<length ps. rep ok db (ns ! i) (ps ! i)) \<Longrightarrow>
    (\<forall>i<length ps. hash_fits (ok False) (ns ! i) (ps ! i)) \<Longrightarrow> rep ok db (FullNode ns f) (PFull ps)"
| hash: "db (BytesToHash h) = Some n \<Longrightarrow> stored n \<Longrightarrow> keeps (HashNode h) n \<Longrightarrow> rep ok db n p \<Longrightarrow> rep ok db (HashNode h) p"

lemma own_hash_simps [simp]:
  "own_hash NNil = None" "own_hash (ValueNode v) = None" "own_hash (HashNode h) = Some h"
  "own_hash (ShortNode k n f) = nf_hash f" "own_hash (FullNode ns f) = nf_hash f" "nf_hash newFlag = None"
  by (simp_all add: own_hash_def node_cache_def newFlag_def)

lemma hash_fits_None [simp, intro]: "own_hash n = None \<Longrightarrow> hash_fits ok n p"
  by (simp add: hash_fits_def)

lemma hash_fits_keeps: "hash_fits ok n p \<Longrightarrow> keeps n m \<Longrightarrow> hash_fits ok m p"
  by (auto simp: hash_fits_def keeps_def)

lemma keeps_refl [simp, intro]: "keeps n n"
  by (simp add: keeps_def)

lemma keeps_None [simp, intro]: "own_hash m = None \<Longrightarrow> keeps n m"
  by (simp add: keeps_def)

lemma keeps_trans: "keeps n m \<Longrightarrow> keeps m l \<Longrightarrow> keeps n l"
  by (auto simp: keeps_def)

lemma hash_fits_update:
  "length ns = length ps \<Longrightarrow> \<forall>i<length ps. hash_fits ok (ns ! i) (ps ! i) \<Longrightarrow> hash_fits ok n p \<Longrightarrow>
    \<forall>i<length (ps[j := p]). hash_fits ok (ns[j := n] ! i) (ps[j := p] ! i)"
  by (cases "j < length ps") (auto simp: nth_list_update)

inductive_simps rep_NNil [simp]: "rep ok db NNil p"
inductive_simps rep_ValueNode [simp]: "rep ok db (ValueNode v) p"
inductive_simps rep_ShortNode: "rep ok db (ShortNode k n f) p"
inductive_simps rep_FullNode: "rep ok db (FullNode ns f) p"

lemma rep_PNil: "rep ok db n PNil \<longleftrightarrow> n = NNil"
proof
  assume "rep ok db n PNil"
  then show "n = NNil"
    by (induction n "PNil" rule: rep.induct) (auto simp: stored_def)
qed simp

lemma rep_stored: "stored n \<Longrightarrow> rep ok db n p \<Longrightarrow> p \<noteq> PNil \<and> (\<forall>v. p \<noteq> PVal v)"
  by (cases n) (auto simp: stored_def rep_ShortNode rep_FullNode)

lemma rep_PVal: "rep ok db n (PVal v) \<Longrightarrow> n = ValueNode v"
  by (erule rep.cases) (use rep_stored in blast)+

lemma rep_update:
  "length ns = length ps \<Longrightarrow> \<forall>i<length ps. rep ok db (ns ! i) (ps ! i) \<Longrightarrow> rep ok db n p \<Longrightarrow>
    \<forall>i<length (ps[j := p]). rep ok db (ns[j := n] ! i) (ps[j := p] ! i)"
  by (cases "j < length ps") (auto simp: nth_list_update)

subsection \<open>Lookup\<close>

text \<open>\<open>eventually\<close>: for all sufficiently large fuel.\<close>

definition enough :: "(nat \<Rightarrow> bool) \<Rightarrow> bool" where
  "enough P \<longleftrightarrow> (\<exists>N. \<forall>fuel\<ge>N. P fuel)"

lemma enoughI: "(\<And>fuel. N \<le> fuel \<Longrightarrow> P fuel) \<Longrightarrow> enough P"
  by (auto simp: enough_def)

lemma enough_Suc:
  assumes "enough P" "\<And>fuel. P fuel \<Longrightarrow> Q (Suc fuel)"
  shows "enough Q"
proof -
  obtain N where N: "\<forall>fuel\<ge>N. P fuel" using assms(1) by (auto simp: enough_def)
  have "Q fuel" if le: "Suc N \<le> fuel" for fuel
  proof -
    obtain m where "fuel = Suc m" using Suc_le_D [OF le] by blast
    then show ?thesis using N assms(2) le by simp
  qed
  then show ?thesis by (rule enoughI)
qed

lemma enough_1: "(\<And>fuel. Q (Suc fuel)) \<Longrightarrow> enough Q"
  by (rule enough_Suc [of "\<lambda>_. True"]) (auto simp: enough_def)

lemma enough_2: "(\<And>fuel. Q (Suc (Suc fuel))) \<Longrightarrow> enough Q"
  by (rule enough_Suc [OF enough_1 [of "\<lambda>fuel. \<exists>m. fuel = Suc m"]]) auto

lemma bind_res_Inr [simp]: "bind_res (Some (Inr x)) f = f x"
  by (simp add: bind_res_def)

lemma go_slice_take: "go_slice key pos (pos + n) = take n (drop pos key)"
  by (simp add: go_slice_def)

lemma tryGet_sim:
  "rep ok db n p \<Longrightarrow> fits p (drop pos key) \<Longrightarrow>
    \<exists>n' r. enough (\<lambda>fuel. tryGet fuel db n key pos = Some (Inr (pget p (drop pos key), n', r))) \<and> rep ok db n' p \<and> keeps n n'"
proof (induction n p arbitrary: pos rule: rep.induct)
  case nil
  have "enough (\<lambda>fuel. tryGet fuel db NNil key pos = Some (Inr (pget PNil (drop pos key), NNil, False)))"
    by (rule enough_1) simp
  then show ?case using rep.nil keeps_refl by blast
next
  case (val v)
  have "enough (\<lambda>fuel. tryGet fuel db (ValueNode v) key pos =
      Some (Inr (pget (PVal v) (drop pos key), ValueNode v, False)))"
    by (rule enough_1) simp
  then show ?case using rep.val keeps_refl by blast
next
  case (short n p k f)
  have h: "hexkey (drop pos key)" and i: "inner (PShort k p)"
    using short.prems by (auto simp: fits_def canon_def split: if_splits)
  show ?case
  proof (cases "take (length k) (drop pos key) = k")
    case True
    have d: "drop (length k) (drop pos key) = drop (pos + length k) key" by (simp add: add.commute)
    obtain n' r where n': "enough (\<lambda>fuel. tryGet fuel db n key (pos + length k) =
        Some (Inr (pget p (drop (pos + length k) key), n', r)))" "rep ok db n' p" "keeps n n'"
      using short.IH [of "pos + length k"] short_match(1) [OF h i True] unfolding d by blast
    have "\<not> length key - pos < length k" using arg_cong [OF True, of length] by simp
    then have "enough (\<lambda>fuel. tryGet fuel db (ShortNode k n f) key pos =
        Some (Inr (pget (PShort k p) (drop pos key), if r then ShortNode k n' f else ShortNode k n f, r)))"
      using True by (intro enough_Suc [OF n'(1)]) (simp add: go_slice_take add.commute)
    moreover have "rep ok db (if r then ShortNode k n' f else ShortNode k n f) (PShort k p)"
      using n'(2) short.hyps hash_fits_keeps [OF short.hyps(2) n'(3)] by (simp add: rep.short)
    moreover have "keeps (ShortNode k n f) (if r then ShortNode k n' f else ShortNode k n f)" by (simp add: keeps_def)
    ultimately show ?thesis by blast
  next
    case False
    then have "enough (\<lambda>fuel. tryGet fuel db (ShortNode k n f) key pos =
        Some (Inr (pget (PShort k p) (drop pos key), ShortNode k n f, False)))"
      by (intro enough_1) (simp add: go_slice_take eq_commute [of k])
    then show ?thesis using rep.short [OF short.hyps] keeps_refl by blast
  qed
next
  case (full ns ps f)
  have h: "hexkey (drop pos key)" and i: "inner (PFull ps)"
    using full.prems by (auto simp: fits_def canon_def split: if_splits)
  have pos: "pos < length key" using h by (cases "pos < length key") auto
  let ?x = "key ! pos"
  have d: "drop pos key = ?x # drop (pos + 1) key" by (rule drop_nth [OF pos])
  have h': "hexkey (?x # drop (pos + 1) key)" using h d by simp
  have u: "unat ?x < length ps" "unat ?x < length ns" using hexkey_unat [OF h'] i full.hyps by (simp_all add: full_iff)
  obtain n' r where n': "enough (\<lambda>fuel. tryGet fuel db (ns ! unat ?x) key (pos + 1) =
      Some (Inr (pget (ps ! unat ?x) (drop (pos + 1) key), n', r)))" "rep ok db n' (ps ! unat ?x)" "keeps (ns ! unat ?x) n'"
    using full.IH u full_child [OF i h'] by blast
  have "enough (\<lambda>fuel. tryGet fuel db (FullNode ns f) key pos = Some (Inr (pget (PFull ps) (drop pos key),
      if r then FullNode (ns[unat ?x := n']) f else FullNode ns f, r)))"
    unfolding d using u pos by (intro enough_Suc [OF n'(1)]) (simp add: Let_def)
  moreover have all: "\<forall>i<length ps. rep ok db (ns ! i) (ps ! i)" using full.IH by simp
  have "rep ok db (FullNode (ns[unat ?x := n']) f) (PFull (ps[unat ?x := ps ! unat ?x]))"
    using full.hyps(1) rep_update [OF full.hyps(1) all n'(2), of "unat ?x"]
      hash_fits_update [OF full.hyps(1) full.hyps(2) hash_fits_keeps [OF full.hyps(2) [rule_format, OF u(1)] n'(3)], of "unat ?x"]
    by (intro rep.full) simp_all
  then have "rep ok db (if r then FullNode (ns[unat ?x := n']) f else FullNode ns f) (PFull ps)"
    using full.hyps(1,2) all by (auto intro: rep.full)
  moreover have "keeps (FullNode ns f) (if r then FullNode (ns[unat ?x := n']) f else FullNode ns f)" by (simp add: keeps_def)
  ultimately show ?case by blast
next
  case (hash h n p)
  obtain n' r where n': "enough (\<lambda>fuel. tryGet fuel db n key pos = Some (Inr (pget p (drop pos key), n', r)))" "rep ok db n' p" "keeps n n'"
    using hash.IH hash.prems by blast
  have "enough (\<lambda>fuel. tryGet fuel db (HashNode h) key pos = Some (Inr (pget p (drop pos key), n', True)))"
    using hash.hyps(1) by (intro enough_Suc [OF n'(1)]) (simp add: resolveHash_def)
  then show ?case using n'(2) keeps_trans [OF hash.hyps(3) n'(3)] by blast
qed

subsection \<open>Insertion\<close>

definition nshort :: "bytes \<Rightarrow> node \<Rightarrow> node" where
  "nshort k n = (if k = [] then n else ShortNode k n newFlag)"

lemma insert_nil: "trie_insert (Suc fuel) db NNil pfx k val = Some (Inr (True, nshort k val))"
  by (simp add: nshort_def)

lemma rep_nshort: "rep ok db n p \<Longrightarrow> hash_fits (ok False) n p \<Longrightarrow> rep ok db (nshort k n) (pshort k p)"
  by (simp add: nshort_def pshort_def rep.short)

lemma hash_fits_nshort: "hash_fits ok n p \<Longrightarrow> hash_fits ok (nshort k n) (pshort k p)"
  by (simp add: nshort_def pshort_def)

lemma nshort_take: "key \<noteq> [] \<Longrightarrow> (if m = 0 then n else ShortNode (take m key) n newFlag) = nshort (take m key) n"
  by (simp add: nshort_def)

definition nbranch :: "byte \<Rightarrow> node \<Rightarrow> byte \<Rightarrow> node \<Rightarrow> node" where
  "nbranch x c y d = FullNode ((replicate 17 NNil)[unat x := c, unat y := d]) newFlag"

lemma own_hash_new [simp]:
  "own_hash (nbranch x c y d) = None" "own_hash (nshort k n) = (if k = [] then own_hash n else None)"
  by (simp_all add: nbranch_def nshort_def)

lemma rep_nbranch:
  assumes "rep ok db c p" "rep ok db d q" "hash_fits (ok False) c p" "hash_fits (ok False) d q"
  shows "rep ok db (nbranch x c y d) (pbranch x p y q)"
  unfolding nbranch_def pbranch_def
proof (rule rep.full)
  have "\<forall>i<length (replicate 17 PNil). rep ok db (replicate 17 NNil ! i) (replicate 17 PNil ! i)" by simp
  from rep_update [OF _ this assms(1), of "unat x"]
  have "\<forall>i<length ((replicate 17 PNil)[unat x := p]). rep ok db ((replicate 17 NNil)[unat x := c] ! i) ((replicate 17 PNil)[unat x := p] ! i)"
    by simp
  from rep_update [OF _ this assms(2), of "unat y"]
  show "\<forall>i<length ((replicate 17 PNil)[unat x := p, unat y := q]).
    rep ok db ((replicate 17 NNil)[unat x := c, unat y := d] ! i) ((replicate 17 PNil)[unat x := p, unat y := q] ! i)"
    by simp
  have "\<forall>i<length (replicate 17 PNil). hash_fits (ok False) (replicate 17 NNil ! i) (replicate 17 PNil ! i)" by simp
  from hash_fits_update [OF _ hash_fits_update [OF _ this assms(3)] assms(4), of "unat x" "unat y"]
  show "\<forall>i<length ((replicate 17 PNil)[unat x := p, unat y := q]).
    hash_fits (ok False) ((replicate 17 NNil)[unat x := c, unat y := d] ! i) ((replicate 17 PNil)[unat x := p, unat y := q] ! i)"
    by simp
qed simp

text \<open>\<open>changed ok db n q p (d, m)\<close>: the result of an update of \<open>n\<close> that turns \<open>p\<close> into \<open>q\<close>.\<close>

definition changed :: "hash_cond \<Rightarrow> node_db \<Rightarrow> node \<Rightarrow> ptrie \<Rightarrow> ptrie \<Rightarrow> bool \<times> node \<Rightarrow> bool" where
  "changed ok db n q p = (\<lambda>(d, m). rep ok db m q \<and> (if d then own_hash m = None else q = p \<and> keeps n m))"

lemma changed_fits: "changed ok db n q p (d, m) \<Longrightarrow> hash_fits ok' n p \<Longrightarrow> hash_fits ok' m q"
  by (auto simp: changed_def hash_fits_keeps split: if_splits)

lemma insert_sim:
  "rep ok db n p \<Longrightarrow> fits p key \<Longrightarrow> v \<noteq> [] \<Longrightarrow>
    \<exists>r. enough (\<lambda>fuel. trie_insert fuel db n pfx key (ValueNode v) = Some (Inr r)) \<and> changed ok db n (pinsert p key v) p r"
proof (induction n p arbitrary: pfx key rule: rep.induct)
  case nil
  have "enough (\<lambda>fuel. trie_insert fuel db NNil pfx key (ValueNode v) = Some (Inr (True, nshort key (ValueNode v))))"
    by (rule enough_1) (simp add: nshort_def)
  moreover have "pinsert PNil key v = pshort key (PVal v)" by (cases key) (simp_all add: pshort_def)
  then have "changed ok db NNil (pinsert PNil key v) PNil (True, nshort key (ValueNode v))"
    using rep_nshort [of ok db "ValueNode v" "PVal v" key] by (simp add: changed_def nshort_def)
  ultimately show ?case by blast
next
  case (val w)
  then have "key = []" by (auto simp: fits_def canon_def split: if_splits)
  then have "enough (\<lambda>fuel. trie_insert fuel db (ValueNode w) pfx key (ValueNode v) = Some (Inr (w \<noteq> v, ValueNode v)))"
    by (intro enough_1) simp
  moreover have "changed ok db (ValueNode w) (pinsert (PVal w) key v) (PVal w) (w \<noteq> v, ValueNode v)"
    using \<open>key = []\<close> by (simp add: changed_def)
  ultimately show ?case by blast
next
  case (short n p k f)
  have h: "hexkey key" and i: "inner (PShort k p)" and ne: "key \<noteq> []"
    using short.prems by (auto simp: fits_def canon_def split: if_splits)
  have pins: "pinsert (PShort k p) key v = (let m = prefixLen key k in if m = length k then PShort k (pinsert p (drop m key) v)
      else pshort (take m key) (pbranch (k ! m) (pshort (drop (m + 1) k) p) (key ! m) (pshort (drop (m + 1) key) (PVal v))))"
    using ne by (cases key) (simp_all add: Let_def)
  show ?case
  proof (cases "prefixLen key k = length k")
    case True
    then have t: "take (length k) key = k" by (simp add: prefixLen_full)
    obtain d n' where n': "enough (\<lambda>fuel. trie_insert fuel db n (pfx @ take (length k) key) (drop (length k) key) (ValueNode v) = Some (Inr (d, n')))"
      "changed ok db n (pinsert p (drop (length k) key) v) p (d, n')"
      using short.IH [OF short_match(1) [OF h i t] short.prems(2), of "pfx @ take (length k) key"] by auto
    have "enough (\<lambda>fuel. trie_insert fuel db (ShortNode k n f) pfx key (ValueNode v) =
        Some (Inr (if \<not> d then (False, ShortNode k n f) else (True, ShortNode k n' newFlag))))"
      using ne True by (intro enough_Suc [OF n'(1)]) (simp add: Let_def)
    moreover have "changed ok db (ShortNode k n f) (pinsert (PShort k p) key v) (PShort k p)
        (if \<not> d then (False, ShortNode k n f) else (True, ShortNode k n' newFlag))"
      using n'(2) short.hyps unfolding pins by (auto simp: changed_def True intro: rep.short)
    ultimately show ?thesis by blast
  next
    case False
    let ?m = "prefixLen key k"
    have lt: "?m < length k" using False prefixLen_le(2) [of key k] by simp
    note b = short_branch [OF h i lt]
    have u: "unat (k ! ?m) < 17" "unat (key ! ?m) < 17"
      using childok_unat [OF pshort_childok(1) [OF i lt]] childok_unat [OF leaf_childok [OF h b(1) short.prems(2)]] by simp_all
    let ?br = "nbranch (k ! ?m) (nshort (drop (?m + 1) k) n) (key ! ?m) (nshort (drop (?m + 1) key) (ValueNode v))"
    have "trie_insert (Suc (Suc fuel)) db (ShortNode k n f) pfx key (ValueNode v) =
        Some (Inr (True, nshort (take ?m key) ?br))" for fuel
      using ne False b(1) u nshort_take [OF ne]
      by (subst trie_insert.simps(2)) (simp add: Let_def insert_nil nbranch_def del: trie_insert.simps(2))
    then have "enough (\<lambda>fuel. trie_insert fuel db (ShortNode k n f) pfx key (ValueNode v) =
        Some (Inr (True, nshort (take ?m key) ?br)))"
      by (rule enough_2)
    moreover have "changed ok db (ShortNode k n f) (pinsert (PShort k p) key v) (PShort k p) (True, nshort (take ?m key) ?br)"
      using False short.hyps rep.val unfolding pins changed_def
      by (simp add: Let_def rep_nshort rep_nbranch hash_fits_nshort)
    ultimately show ?thesis by blast
  qed
next
  case (full ns ps f)
  have h: "hexkey key" and i: "inner (PFull ps)"
    using full.prems by (auto simp: fits_def canon_def split: if_splits)
  then obtain x k where key: "key = x # k" by (cases key) auto
  have u: "unat x < length ps" "unat x < length ns"
    using hexkey_unat [of x k] h i full.hyps key by (simp_all add: full_iff)
  obtain d n' where n': "enough (\<lambda>fuel. trie_insert fuel db (ns ! unat x) (pfx @ [x]) k (ValueNode v) = Some (Inr (d, n')))"
    "changed ok db (ns ! unat x) (pinsert (ps ! unat x) k v) (ps ! unat x) (d, n')"
    using full.IH u full_child [OF i, of x k] h key full.prems(2) by fastforce
  have "enough (\<lambda>fuel. trie_insert fuel db (FullNode ns f) pfx key (ValueNode v) =
      Some (Inr (if \<not> d then (False, FullNode ns f) else (True, FullNode (ns[unat x := n']) newFlag))))"
    using u by (intro enough_Suc [OF n'(1)]) (simp add: key Let_def)
  moreover have all: "\<forall>i<length ps. rep ok db (ns ! i) (ps ! i)" using full.IH by simp
  have "rep ok db n' (pinsert (ps ! unat x) k v)" using n'(2) by (simp add: changed_def)
  from rep_update [OF full.hyps(1) all this, of "unat x"]
    hash_fits_update [OF full.hyps(1,2) changed_fits [OF n'(2) full.hyps(2) [rule_format, OF u(1)]], of "unat x"]
  have "rep ok db (FullNode (ns[unat x := n']) newFlag) (PFull (ps[unat x := pinsert (ps ! unat x) k v]))"
    using full.hyps(1) by (intro rep.full) simp_all
  then have "changed ok db (FullNode ns f) (pinsert (PFull ps) key v) (PFull ps)
      (if \<not> d then (False, FullNode ns f) else (True, FullNode (ns[unat x := n']) newFlag))"
    using n'(2) full.hyps(1,2) all by (auto simp: changed_def key intro: rep.full)
  ultimately show ?case by blast
next
  case (hash h n p)
  have ne: "key \<noteq> []" using rep_stored [OF hash.hyps(2,4)] hash.prems by (auto simp: fits_def)
  obtain d n' where n': "enough (\<lambda>fuel. trie_insert fuel db n pfx key (ValueNode v) = Some (Inr (d, n')))"
    "changed ok db n (pinsert p key v) p (d, n')" using hash.IH [OF hash.prems] by force
  have "enough (\<lambda>fuel. trie_insert fuel db (HashNode h) pfx key (ValueNode v) =
      Some (Inr (if \<not> d then (False, n) else (True, n'))))"
    using hash.hyps(1) ne by (intro enough_Suc [OF n'(1)]) (simp add: resolveHash_def)
  moreover have "changed ok db (HashNode h) (pinsert p key v) p (if \<not> d then (False, n) else (True, n'))"
    using n'(2) hash.hyps(3,4) by (auto simp: changed_def)
  ultimately show ?case by blast
qed

subsection \<open>Deletion\<close>

lemma soleChild_found: "0 \<le> pos \<Longrightarrow> soleChild ns i pos = (if \<forall>n\<in>set ns. n = NNil then pos else -2)"
  by (induction ns arbitrary: i) auto

lemma soleChild_one:
  "j < length ns \<Longrightarrow> ns ! j \<noteq> NNil \<Longrightarrow> (\<And>l. l < length ns \<Longrightarrow> l \<noteq> j \<Longrightarrow> ns ! l = NNil) \<Longrightarrow>
    soleChild ns i (-1) = int (i + j)"
proof (induction ns arbitrary: i j)
  case (Cons n ns)
  show ?case
  proof (cases j)
    case 0
    have "\<forall>m\<in>set ns. m = NNil" using Cons.prems(3) [of "Suc _"] 0 by (auto simp: in_set_conv_nth)
    then show ?thesis using Cons.prems(2) 0 by (simp add: soleChild_found)
  next
    case (Suc l)
    have "n = NNil" using Cons.prems(3) [of 0] Suc by simp
    moreover have "soleChild ns (Suc i) (-1) = int (Suc i + l)"
      using Cons.prems(1,2) Cons.prems(3) [of "Suc _"] Suc by (intro Cons.IH) auto
    ultimately show ?thesis using Suc by simp
  qed
qed simp

lemma soleChild_many:
  "j < length ns \<Longrightarrow> l < length ns \<Longrightarrow> j < l \<Longrightarrow> ns ! j \<noteq> NNil \<Longrightarrow> ns ! l \<noteq> NNil \<Longrightarrow> soleChild ns i (-1) = -2"
proof (induction ns arbitrary: i j l)
  case (Cons n ns)
  obtain l' where l: "l = Suc l'" using Cons.prems by (cases l) auto
  show ?case
  proof (cases "n = NNil")
    case True
    then obtain j' where "j = Suc j'" using Cons.prems by (cases j) auto
    then show ?thesis using Cons l True by auto
  next
    case False
    have "ns ! l' \<in> set ns" "ns ! l' \<noteq> NNil" using Cons.prems l by auto
    then show ?thesis using False by (auto simp: soleChild_found)
  qed
qed simp

definition not_hash :: "node \<Rightarrow> bool" where
  "not_hash n \<longleftrightarrow> (\<forall>h. n \<noteq> HashNode h)"

lemma resolve_rep:
  assumes "rep ok db n p"
  obtains m where "resolve db n pfx = Inr m" "rep ok db m p" "not_hash m" "keeps n m"
proof (cases n)
  case (HashNode h)
  with assms obtain m where m: "db (BytesToHash h) = Some m" "stored m" "rep ok db m p" "keeps n m" by (auto elim: rep.cases)
  then have "not_hash m" by (auto simp: not_hash_def stored_def)
  then show thesis using that [of m] m HashNode by (simp add: resolve_def resolveHash_def)
qed (use assms that [of n] in \<open>simp_all add: resolve_def not_hash_def\<close>)

lemma rep_not_hash_short: "rep ok db n (PShort k q) \<Longrightarrow> not_hash n \<Longrightarrow> \<exists>m f. n = ShortNode k m f \<and> rep ok db m q \<and> hash_fits (ok False) m q"
  by (cases n) (auto simp: not_hash_def rep_ShortNode rep_FullNode)

lemma rep_not_short: "rep ok db n p \<Longrightarrow> (\<And>k q. p \<noteq> PShort k q) \<Longrightarrow> n \<noteq> ShortNode ck cv cf"
  by (auto simp: rep_ShortNode)

lemma reduceFull_sim:
  assumes k: "kids_ok ps" and l: "length ns = length ps" and r: "\<forall>i<length ps. rep ok db (ns ! i) (ps ! i)"
    and hs: "\<forall>i<length ps. hash_fits (ok False) (ns ! i) (ps ! i)"
  shows "\<exists>n. reduceFull db ns pfx = Some (Inr (True, n)) \<and> rep ok db n (preduce ps) \<and> not_hash n \<and> own_hash n = None"
  using k
proof (rule preduce_cases)
  have l17: "length ps = 17" using k by (simp add: kids_ok_def)
  have nil: "ns ! i = NNil \<longleftrightarrow> ps ! i = PNil" if "i < 17" for i
    using r that l17 rep_PNil by (metis rep_NNil)
  {
    fix x assume x: "unat x < 17" "childok x (ps ! unat x)" "preduce ps = pjoin [x] (ps ! unat x)"
      and o: "\<And>y. unat y < 17 \<Longrightarrow> y \<noteq> x \<Longrightarrow> ps ! unat y = PNil"
    let ?c = "ns ! unat x" and ?p = "ps ! unat x"
    have "ps ! i = PNil" if i: "i < 17" "i \<noteq> unat x" for i
    proof -
      have u: "unat (word_of_nat i :: byte) = i" using i(1) by (simp add: unat_word_of_nat_byte)
      then have "word_of_nat i \<noteq> x" using i(2) by metis
      then show ?thesis using o [of "word_of_nat i"] u i(1) by simp
    qed
    then have s: "soleChild ns 0 (-1) = int (unat x)"
      using soleChild_one [of "unat x" ns 0] nil x(1) childok_unat [OF x(2)] l l17 by auto
    have wx: "word_of_int (int (unat x)) = x" by simp
    have rx: "rep ok db ?c ?p" "hash_fits (ok False) ?c ?p" using r hs x(1) l17 by simp_all
    show ?thesis
    proof (cases "x = 16")
      case True
      then obtain v where v: "?p = PVal v" using x(2) by (auto simp: childok_def)
      have "reduceFull db ns pfx = Some (Inr (True, ShortNode [x] ?c newFlag))"
        using s True by (simp add: reduceFull_def Let_def)
      then show ?thesis using v rx unfolding x(3) by (auto simp: pjoin_def not_hash_def intro: rep.short)
    next
      case False
      then have "unat x \<noteq> 16" using word_unat_eq_iff [of x 16] by simp
      then have ne: "int (unat x) \<noteq> 16" by linarith
      obtain m where m: "resolve db ?c pfx = Inr m" "rep ok db m ?p" "not_hash m" using resolve_rep [OF rx(1)] .
      show ?thesis
      proof (cases ?p)
        case (PShort ck cq)
        then obtain m' f where m': "m = ShortNode ck m' f" "rep ok db m' cq" "hash_fits (ok False) m' cq" using rep_not_hash_short m by metis
        then have "reduceFull db ns pfx = Some (Inr (True, ShortNode (x # ck) m' newFlag))"
          using s ne m(1) by (simp add: reduceFull_def Let_def)
        then show ?thesis using PShort m' unfolding x(3) by (auto simp: pjoin_def not_hash_def intro: rep.short)
      next
        case (PFull qs)
        then have "m \<noteq> ShortNode ck cv cf" for ck cv cf using rep_not_short [OF m(2)] by simp
        then have "reduceFull db ns pfx = Some (Inr (True, ShortNode [x] ?c newFlag))"
          using s ne m(1) by (cases m) (auto simp: reduceFull_def Let_def)
        then show ?thesis using PFull rx unfolding x(3) by (auto simp: pjoin_def not_hash_def intro: rep.short)
      qed (use x(2) False in \<open>auto simp: childok_def\<close>)
    qed
  }
  {
    assume two: "2 \<le> length (kids ps)" and p: "preduce ps = PFull ps"
    obtain i j where ij: "i < length ps" "j < length ps" "i \<noteq> j" "ps ! i \<noteq> PNil" "ps ! j \<noteq> PNil" using two_kids [OF two] .
    then have "soleChild ns 0 (-1) = -2"
      using soleChild_many [of i ns j 0] soleChild_many [of j ns i 0] nil l l17 by (cases "i < j") auto
    then have "reduceFull db ns pfx = Some (Inr (True, FullNode ns newFlag))" by (simp add: reduceFull_def)
    then show ?thesis using l r hs by (auto simp: p not_hash_def intro: rep.full)
  }
qed

lemma preduce_full: "inner (PFull ps) \<Longrightarrow> preduce ps = PFull ps"
  by (cases "kids ps"; cases "tl (kids ps)") (auto simp: full_iff preduce_def)

lemma pjoin_full: "pjoin k (PFull ps) = PShort k (PFull ps)"
  by (simp add: pjoin_def)

lemma delete_short_step:
  assumes "changed ok db n (pdelete q key) q (d, c)" "d \<longrightarrow> not_hash c" "q = PFull cs" "rep ok db (ShortNode k n f) (PShort k q)"
  shows "changed ok db (ShortNode k n f) (pjoin k (pdelete q key)) (PShort k q) (if \<not> d then (False, ShortNode k n f)
      else (case c of ShortNode ck cv _ \<Rightarrow> (True, ShortNode (k @ ck) cv newFlag) | _ \<Rightarrow> (True, ShortNode k c newFlag)))"
proof (cases d)
  case True
  then have c: "rep ok db c (pdelete q key)" "not_hash c" "own_hash c = None" using assms(1,2) by (simp_all add: changed_def)
  show ?thesis
  proof (cases "pdelete q key")
    case (PShort ck cq)
    then obtain m f' where "c = ShortNode ck m f'" "rep ok db m cq" "hash_fits (ok False) m cq" using rep_not_hash_short c by metis
    then show ?thesis using True PShort by (simp add: changed_def pjoin_def rep.short)
  qed (use True c rep_not_short [OF c(1)] in \<open>cases c; auto simp: changed_def pjoin_def intro: rep.short\<close>)+
next
  case False
  then show ?thesis using assms by (simp add: changed_def pjoin_def)
qed

lemma delete_sim:
  "rep ok db n p \<Longrightarrow> fits p key \<Longrightarrow>
    \<exists>d m. enough (\<lambda>fuel. trie_delete fuel db n pfx key = Some (Inr (d, m))) \<and>
      changed ok db n (pdelete p key) p (d, m) \<and> (d \<longrightarrow> not_hash m)"
proof (induction n p arbitrary: pfx key rule: rep.induct)
  case nil
  have "enough (\<lambda>fuel. trie_delete fuel db NNil pfx key = Some (Inr (False, NNil)))" by (rule enough_1) simp
  moreover have "changed ok db NNil (pdelete PNil key) PNil (False, NNil)" by (simp add: changed_def)
  ultimately show ?case by blast
next
  case (val w)
  have "enough (\<lambda>fuel. trie_delete fuel db (ValueNode w) pfx key = Some (Inr (True, NNil)))" by (rule enough_1) simp
  moreover have "changed ok db (ValueNode w) (pdelete (PVal w) key) (PVal w) (True, NNil)" "not_hash NNil"
    by (simp_all add: changed_def not_hash_def)
  ultimately show ?case by blast
next
  case (short n p k f)
  have h: "hexkey key" and i: "inner (PShort k p)"
    using short.prems by (auto simp: fits_def canon_def split: if_splits)
  have rs: "rep ok db (ShortNode k n f) (PShort k p)" using short.hyps by (rule rep.short)
  consider "prefixLen key k < length k" | "prefixLen key k = length k" "length k = length key"
    | "prefixLen key k = length k" "length k \<noteq> length key"
    using prefixLen_le(2) [of key k] by linarith
  then show ?case
  proof cases
    case 1
    then have "enough (\<lambda>fuel. trie_delete fuel db (ShortNode k n f) pfx key = Some (Inr (False, ShortNode k n f)))"
      by (intro enough_1) simp
    moreover have "changed ok db (ShortNode k n f) (pdelete (PShort k p) key) (PShort k p) (False, ShortNode k n f)"
      using 1 rs by (simp add: changed_def)
    ultimately show ?thesis by blast
  next
    case 2
    then have "enough (\<lambda>fuel. trie_delete fuel db (ShortNode k n f) pfx key = Some (Inr (True, NNil)))"
      by (intro enough_1) simp
    moreover have "changed ok db (ShortNode k n f) (pdelete (PShort k p) key) (PShort k p) (True, NNil)" "not_hash NNil"
      using 2 by (simp_all add: changed_def not_hash_def)
    ultimately show ?thesis by blast
  next
    case m: 3
    then have t: "take (length k) key = k" by (simp add: prefixLen_full)
    obtain cs where q: "p = PFull cs" using short_match(2) [OF h i t] m by auto
    obtain d c where c: "enough (\<lambda>fuel. trie_delete fuel db n (pfx @ take (length k) key) (drop (length k) key) = Some (Inr (d, c)))"
      "changed ok db n (pdelete p (drop (length k) key)) p (d, c)" "d \<longrightarrow> not_hash c"
      using short.IH [OF short_match(1) [OF h i t]] by blast
    let ?r = "if \<not> d then (False, ShortNode k n f)
      else (case c of ShortNode ck cv _ \<Rightarrow> (True, ShortNode (k @ ck) cv newFlag) | _ \<Rightarrow> (True, ShortNode k c newFlag))"
    have "enough (\<lambda>fuel. trie_delete fuel db (ShortNode k n f) pfx key = Some (Inr ?r))"
      using m by (intro enough_Suc [OF c(1)]) (simp add: Let_def)
    moreover have "changed ok db (ShortNode k n f) (pdelete (PShort k p) key) (PShort k p) ?r"
      using delete_short_step [OF c(2,3) q rs] m by (simp add: Let_def)
    moreover have "fst ?r \<longrightarrow> not_hash (snd ?r)" by (cases c) (simp_all add: not_hash_def)
    ultimately show ?thesis by (metis prod.collapse)
  qed
next
  case (full ns ps f)
  have h: "hexkey key" and i: "inner (PFull ps)"
    using full.prems by (auto simp: fits_def canon_def split: if_splits)
  then obtain x k where key: "key = x # k" by (cases key) auto
  have u: "unat x < length ps" "unat x < length ns"
    using hexkey_unat [of x k] h i full.hyps key by (simp_all add: full_iff)
  have all: "\<forall>i<length ps. rep ok db (ns ! i) (ps ! i)" using full.IH by simp
  have fc: "fits (ps ! unat x) k" using full_child [OF i] h key by simp
  obtain d c where c: "enough (\<lambda>fuel. trie_delete fuel db (ns ! unat x) (pfx @ [x]) k = Some (Inr (d, c)))"
    "changed ok db (ns ! unat x) (pdelete (ps ! unat x) k) (ps ! unat x) (d, c)"
    using full.IH u fc by blast
  show ?case
  proof (cases d)
    case True
    have "rep ok db c (pdelete (ps ! unat x) k)" using c(2) by (simp add: changed_def)
    from rep_update [OF full.hyps(1) all this, of "unat x"]
      hash_fits_update [OF full.hyps(1,2) changed_fits [OF c(2) full.hyps(2) [rule_format, OF u(1)]], of "unat x"] obtain m
      where m: "reduceFull db (ns[unat x := c]) pfx = Some (Inr (True, m))" "not_hash m" "own_hash m = None"
        "rep ok db m (preduce (ps[unat x := pdelete (ps ! unat x) k]))"
      using reduceFull_sim [OF delete_kids_ok [OF i _ pdelete_fits [OF fc, THEN conjunct1]], of x "ns[unat x := c]" ok db pfx]
        h key full.hyps(1) by auto
    have "enough (\<lambda>fuel. trie_delete fuel db (FullNode ns f) pfx key = Some (Inr (True, m)))"
      using u m(1) True by (intro enough_Suc [OF c(1)]) (simp add: key Let_def)
    moreover have "changed ok db (FullNode ns f) (pdelete (PFull ps) key) (PFull ps) (True, m)" using m(3,4) by (simp add: changed_def key)
    ultimately show ?thesis using m(2) by blast
  next
    case False
    have "enough (\<lambda>fuel. trie_delete fuel db (FullNode ns f) pfx key = Some (Inr (False, FullNode ns f)))"
      using u False by (intro enough_Suc [OF c(1)]) (simp add: key Let_def)
    moreover have "changed ok db (FullNode ns f) (pdelete (PFull ps) key) (PFull ps) (False, FullNode ns f)"
      using c(2) False preduce_full [OF i] full.hyps(1,2) all by (auto simp: changed_def key intro: rep.full)
    ultimately show ?thesis by blast
  qed
next
  case (hash h n p)
  obtain d m where m: "enough (\<lambda>fuel. trie_delete fuel db n pfx key = Some (Inr (d, m)))"
    "changed ok db n (pdelete p key) p (d, m)" "d \<longrightarrow> not_hash m" using hash.IH [OF hash.prems] by blast
  have "enough (\<lambda>fuel. trie_delete fuel db (HashNode h) pfx key =
      Some (Inr (if \<not> d then (False, n) else (True, m))))"
    using hash.hyps(1) by (intro enough_Suc [OF m(1)]) (simp add: resolveHash_def)
  moreover have "changed ok db (HashNode h) (pdelete p key) p (if \<not> d then (False, n) else (True, m))"
    using m(2) hash.hyps(3,4) by (auto simp: changed_def)
  ultimately show ?case using m(3) by (cases d) auto
qed

subsection \<open>The map of a trie\<close>

text \<open>
  \<open>trie_rep ok db t m\<close>: the trie stands for the map \<open>m\<close> from key bytes to values.
\<close>

definition trie_rep :: "hash_cond \<Rightarrow> node_db \<Rightarrow> trie \<Rightarrow> (bytes \<Rightarrow> bytes option) \<Rightarrow> bool" where
  "trie_rep ok db t m \<longleftrightarrow> (\<exists>p. rep ok db (t_root t) p \<and> hash_fits (ok True) (t_root t) p \<and> canon p \<and> (\<forall>key. m key = pget p (keybytesToHex key)) \<and>
    (\<forall>k v. hexkey k \<longrightarrow> pget p k = Some v \<longrightarrow> k \<in> range keybytesToHex))"

definition get_returns :: "node_db \<Rightarrow> trie \<Rightarrow> bytes \<Rightarrow> bytes option \<Rightarrow> trie \<Rightarrow> bool" where
  "get_returns db t key v t' \<longleftrightarrow> enough (\<lambda>fuel. TryGet fuel db t key = Some (Inr v, t'))"

definition update_returns :: "node_db \<Rightarrow> trie \<Rightarrow> bytes \<Rightarrow> bytes \<Rightarrow> trie \<Rightarrow> bool" where
  "update_returns db t key value t' \<longleftrightarrow> enough (\<lambda>fuel. TryUpdate fuel db t key value = Some (None, t'))"

definition put_map :: "('k \<Rightarrow> 'v list option) \<Rightarrow> 'k \<Rightarrow> 'v list \<Rightarrow> 'k \<Rightarrow> 'v list option" where
  "put_map m k v = m(k := if v = [] then None else Some v)"

lemma keybytesToHex_inj [simp]: "keybytesToHex a = keybytesToHex b \<longleftrightarrow> a = b"
  by (metis hexToKeybytes_keybytesToHex option.inject)

lemma keybytesToHex_hexkey [simp]: "hexkey (keybytesToHex key)"
  using keybytesToHex_nibbles [of key] by (auto simp: hexkey_def)

lemma canon_fits: "canon p \<Longrightarrow> hexkey k \<Longrightarrow> fits p k"
  by (auto simp: fits_def)

lemma fits_canon: "fits p k \<Longrightarrow> hexkey k \<Longrightarrow> canon p"
  by (auto simp: fits_def split: if_splits)

lemma rep_pinsert:
  assumes p: "canon p" "\<forall>key. m key = pget p (keybytesToHex key)" "\<forall>k v. hexkey k \<longrightarrow> pget p k = Some v \<longrightarrow> k \<in> range keybytesToHex"
    and v: "v \<noteq> []" and n: "rep ok db (t_root t) (pinsert p (keybytesToHex key) v)"
    and hs: "hash_fits (ok True) (t_root t) (pinsert p (keybytesToHex key) v)"
  shows "trie_rep ok db t (put_map m key v)"
  unfolding trie_rep_def
proof (intro exI conjI)
  let ?k = "keybytesToHex key"
  have f: "fits p ?k" using canon_fits [OF p(1)] by simp
  have g: "pget (pinsert p ?k v) k' = (if k' = ?k then Some v else pget p k')" if "hexkey k'" for k'
    using pget_pinsert [OF f v, of k'] that by (metis hexkey_ne keybytesToHex_hexkey)
  show "rep ok db (t_root t) (pinsert p ?k v)" by (rule n)
  show "hash_fits (ok True) (t_root t) (pinsert p ?k v)" by (rule hs)
  show "canon (pinsert p ?k v)" using pinsert_fits [OF f v] fits_canon by auto
  show "\<forall>key'. put_map m key v key' = pget (pinsert p ?k v) (keybytesToHex key')"
    using p(2) v by (simp add: put_map_def g)
  show "\<forall>k' w. hexkey k' \<longrightarrow> pget (pinsert p ?k v) k' = Some w \<longrightarrow> k' \<in> range keybytesToHex"
    using p(3) g by (auto split: if_splits)
qed

lemma rep_pdelete:
  assumes p: "canon p" "\<forall>key. m key = pget p (keybytesToHex key)" "\<forall>k v. hexkey k \<longrightarrow> pget p k = Some v \<longrightarrow> k \<in> range keybytesToHex"
    and n: "rep ok db (t_root t) (pdelete p (keybytesToHex key))"
    and hs: "hash_fits (ok True) (t_root t) (pdelete p (keybytesToHex key))"
  shows "trie_rep ok db t (m(key := None))"
  unfolding trie_rep_def
proof (intro exI conjI)
  let ?k = "keybytesToHex key"
  have f: "fits p ?k" using canon_fits [OF p(1)] by simp
  have g: "pget (pdelete p ?k) k' = (if k' = ?k then None else pget p k')" if "hexkey k'" for k'
    using pget_pdelete [OF f, of k'] that by (metis hexkey_ne keybytesToHex_hexkey)
  show "rep ok db (t_root t) (pdelete p ?k)" by (rule n)
  show "hash_fits (ok True) (t_root t) (pdelete p ?k)" by (rule hs)
  show "canon (pdelete p ?k)" using pdelete_fits [OF f, THEN conjunct1] fits_canon [of "pdelete p ?k" ?k] by simp
  show "\<forall>key'. (m(key := None)) key' = pget (pdelete p ?k) (keybytesToHex key')"
    using p(2) by (simp add: g)
  show "\<forall>k' w. hexkey k' \<longrightarrow> pget (pdelete p ?k) k' = Some w \<longrightarrow> k' \<in> range keybytesToHex"
    using p(3) g by (auto split: if_splits)
qed

lemma enough_imp: "enough P \<Longrightarrow> (\<And>fuel. P fuel \<Longrightarrow> Q fuel) \<Longrightarrow> enough Q"
  by (auto simp: enough_def)

lemma enough_both:
  assumes "enough P" "enough Q"
  obtains fuel where "P fuel" "Q fuel"
proof -
  obtain N M where "\<forall>fuel\<ge>N. P fuel" "\<forall>fuel\<ge>M. Q fuel" using assms by (auto simp: enough_def)
  then show thesis using that [of "max N M"] by simp
qed

lemma get_returns_rep:
  assumes "trie_rep ok db t m"
  shows "\<exists>t'. get_returns db t key (m key) t' \<and> trie_rep ok db t' m"
proof -
  obtain p where p: "rep ok db (t_root t) p" "canon p" "\<forall>key. m key = pget p (keybytesToHex key)"
    "\<forall>k v. hexkey k \<longrightarrow> pget p k = Some v \<longrightarrow> k \<in> range keybytesToHex" "hash_fits (ok True) (t_root t) p"
    using assms by (auto simp: trie_rep_def)
  have "fits p (drop 0 (keybytesToHex key))" using canon_fits [OF p(2)] by simp
  from tryGet_sim [OF p(1) this] obtain n' r where n':
    "enough (\<lambda>fuel. tryGet fuel db (t_root t) (keybytesToHex key) 0 = Some (Inr (m key, n', r)))" "rep ok db n' p" "keeps (t_root t) n'"
    using p(3) by auto
  let ?t = "if r then t\<lparr>t_root := n'\<rparr> else t"
  have "get_returns db t key (m key) ?t"
    unfolding get_returns_def using n'(1) by (rule enough_imp) (simp add: TryGet_def)
  moreover have "trie_rep ok db ?t m" using p n'(2) hash_fits_keeps [OF p(5) n'(3)] by (auto simp: trie_rep_def)
  ultimately show ?thesis by blast
qed

lemma update_returns_rep:
  assumes "trie_rep ok db t m"
  shows "\<exists>t'. update_returns db t key v t' \<and> trie_rep ok db t' (put_map m key v)"
proof -
  obtain p where p: "rep ok db (t_root t) p" "canon p" "\<forall>key. m key = pget p (keybytesToHex key)"
    "\<forall>k v. hexkey k \<longrightarrow> pget p k = Some v \<longrightarrow> k \<in> range keybytesToHex" "hash_fits (ok True) (t_root t) p"
    using assms by (auto simp: trie_rep_def)
  have f: "fits p (keybytesToHex key)" using canon_fits [OF p(2)] by simp
  let ?t = "\<lambda>n. t\<lparr>t_unhashed := t_unhashed t + 1, t_root := n\<rparr>"
  show ?thesis
  proof (cases "v = []")
    case True
    obtain d n where n: "enough (\<lambda>fuel. trie_delete fuel db (t_root t) [] (keybytesToHex key) = Some (Inr (d, n)))"
      "changed ok db (t_root t) (pdelete p (keybytesToHex key)) p (d, n)" using delete_sim [OF p(1) f] by blast
    have "update_returns db t key v (?t n)"
      unfolding update_returns_def using n(1) by (rule enough_imp) (simp add: TryUpdate_def True Let_def)
    moreover have "trie_rep ok db (?t n) (m(key := None))"
      using rep_pdelete [OF p(2-4), of ok db "?t n"] n(2) changed_fits [OF n(2) p(5)] by (simp add: changed_def)
    ultimately show ?thesis using True by (auto simp: put_map_def)
  next
    case False
    obtain d n where n: "enough (\<lambda>fuel. trie_insert fuel db (t_root t) [] (keybytesToHex key) (ValueNode v) = Some (Inr (d, n)))"
      "changed ok db (t_root t) (pinsert p (keybytesToHex key) v) p (d, n)" using insert_sim [OF p(1) f False] by force
    have "update_returns db t key v (?t n)"
      unfolding update_returns_def using n(1) by (rule enough_imp) (simp add: TryUpdate_def False Let_def)
    moreover have "trie_rep ok db (?t n) (put_map m key v)"
      using rep_pinsert [OF p(2-4) False, of ok db "?t n"] n(2) changed_fits [OF n(2) p(5)] by (simp add: changed_def)
    ultimately show ?thesis by blast
  qed
qed

lemma returns_fun:
  "get_returns db t key v t' \<Longrightarrow> get_returns db t key w t'' \<Longrightarrow> v = w \<and> t' = t''"
  "update_returns db t key x t' \<Longrightarrow> update_returns db t key x t'' \<Longrightarrow> t' = t''"
  unfolding get_returns_def update_returns_def by (erule (1) enough_both, simp)+

lemma empty_rep: "trie_rep ok db \<lparr>t_root = NNil, t_unhashed = n\<rparr> (\<lambda>_. None)"
  by (auto simp: trie_rep_def canon_def)

subsection \<open>Map stores\<close>

text \<open>
  The interface of a store that keeps a map: a lookup returns what the map holds and
  keeps it, an update puts the value, the empty value removes. Operations may change the
  store's state (loading nodes), and return a unique result.
\<close>

primrec puts :: "('s \<Rightarrow> 'k \<Rightarrow> 'v \<Rightarrow> 's \<Rightarrow> bool) \<Rightarrow> 's \<Rightarrow> ('k \<times> 'v) list \<Rightarrow> 's \<Rightarrow> bool" where
  "puts put s [] s' \<longleftrightarrow> s' = s"
| "puts put s (kv # kvs) s' \<longleftrightarrow> (\<exists>s1. put s (fst kv) (snd kv) s1 \<and> puts put s1 kvs s')"

primrec put_maps :: "('k \<Rightarrow> 'v list option) \<Rightarrow> ('k \<times> 'v list) list \<Rightarrow> 'k \<Rightarrow> 'v list option" where
  "put_maps m [] = m"
| "put_maps m (kv # kvs) = put_maps (put_map m (fst kv) (snd kv)) kvs"

locale map_store =
  fixes R :: "'s \<Rightarrow> ('k \<Rightarrow> 'v list option) \<Rightarrow> bool"
    and get :: "'s \<Rightarrow> 'k \<Rightarrow> 'v list option \<Rightarrow> 's \<Rightarrow> bool"
    and put :: "'s \<Rightarrow> 'k \<Rightarrow> 'v list \<Rightarrow> 's \<Rightarrow> bool"
  assumes get_law: "R s m \<Longrightarrow> \<exists>s'. get s k (m k) s' \<and> R s' m"
    and put_law: "R s m \<Longrightarrow> \<exists>s'. put s k v s' \<and> R s' (put_map m k v)"
    and get_fun: "get s k x s' \<Longrightarrow> get s k y s'' \<Longrightarrow> x = y \<and> s' = s''"
    and put_fun: "put s k v s' \<Longrightarrow> put s k v s'' \<Longrightarrow> s' = s''"
begin

lemma puts_rep: "R s m \<Longrightarrow> puts put s kvs s' \<Longrightarrow> R s' (put_maps m kvs)"
proof (induction kvs arbitrary: s m)
  case (Cons kv kvs)
  then show ?case using put_law [of s m "fst kv" "snd kv"] put_fun by (metis puts.simps(2) put_maps.simps(2))
qed simp

lemma puts_exists: "R s m \<Longrightarrow> \<exists>s'. puts put s kvs s'"
proof (induction kvs arbitrary: s m)
  case (Cons kv kvs)
  then show ?case using put_law [of s m "fst kv" "snd kv"] by (metis puts.simps(2))
qed auto

lemma get_after_puts:
  assumes "R s m" "puts put s kvs s'" "get s' k v s''"
  shows "v = put_maps m kvs k"
  using get_law [OF puts_rep [OF assms(1,2)], of k] get_fun assms(3) by blast

end

interpretation trie_store: map_store "trie_rep ok db" "get_returns db" "update_returns db" for ok db
  by unfold_locales (rule get_returns_rep update_returns_rep returns_fun; assumption)+

lemma put_maps_last: "put_maps m (kvs @ [(k, v)]) = put_map (put_maps m kvs) k v"
  by (induction kvs arbitrary: m) simp_all

text \<open>
  C1. Every operation on a trie returns (with enough fuel) and acts as on a map: \<open>TryGet\<close>
  returns the value of the key and leaves the map as it is, although it may load nodes
  from the database into the trie; \<open>TryUpdate\<close> puts the value and changes no other key,
  and removes the key for the empty value; \<open>TryDelete\<close> removes the key. This covers the
  splitting and merging of short and full nodes and subtries that are not loaded.
\<close>

theorem trie_refines_map:
  assumes "trie_rep ok db t m"
  shows "(\<exists>t' N. trie_rep ok db t' m \<and> (\<forall>fuel\<ge>N. TryGet fuel db t key = Some (Inr (m key), t'))) \<and>
    (\<exists>t' N. trie_rep ok db t' (m(key := if val = [] then None else Some val)) \<and>
       (\<forall>fuel\<ge>N. TryUpdate fuel db t key val = Some (None, t'))) \<and>
    (\<exists>t' N. trie_rep ok db t' (m(key := None)) \<and> (\<forall>fuel\<ge>N. TryDelete fuel db t key = Some (None, t')))"
proof (intro conjI)
  show "\<exists>t' N. trie_rep ok db t' m \<and> (\<forall>fuel\<ge>N. TryGet fuel db t key = Some (Inr (m key), t'))"
    using get_returns_rep [OF assms, of key] by (auto simp: get_returns_def enough_def)
  show "\<exists>t' N. trie_rep ok db t' (m(key := if val = [] then None else Some val)) \<and>
      (\<forall>fuel\<ge>N. TryUpdate fuel db t key val = Some (None, t'))"
    using update_returns_rep [OF assms, of key val] unfolding update_returns_def enough_def put_map_def by blast
  have "TryDelete fuel db t key = TryUpdate fuel db t key []" for fuel
    by (simp add: TryDelete_def TryUpdate_def)
  then show "\<exists>t' N. trie_rep ok db t' (m(key := None)) \<and> (\<forall>fuel\<ge>N. TryDelete fuel db t key = Some (None, t'))"
    using update_returns_rep [OF assms, of key "[]"] by (auto simp: update_returns_def enough_def put_map_def)
qed

theorem trie_refines_map_witness:
  "\<exists>t' N. \<forall>fuel\<ge>N. TryGet fuel (\<lambda>_. None) \<lparr>t_root = NNil, t_unhashed = 0\<rparr> [0x42] = Some (Inr None, t')"
  using trie_refines_map [OF empty_rep [of "\<lambda>_ _ _. True" "\<lambda>_. None" 0], of "[0x42]"] by blast

text \<open>
  After any sequence of updates of an empty trie, a lookup returns what the last update
  of its key wrote, and nothing for a key never written or last written with the empty
  value.
\<close>

theorem updates_then_get:
  "\<exists>t. puts (update_returns db) \<lparr>t_root = NNil, t_unhashed = 0\<rparr> kvs t \<and>
    (\<forall>key. \<exists>t' N. \<forall>fuel\<ge>N. TryGet fuel db t key = Some (Inr (put_maps (\<lambda>_. None) kvs key), t'))"
proof -
  obtain t where t: "puts (update_returns db) \<lparr>t_root = NNil, t_unhashed = 0\<rparr> kvs t"
    using trie_store.puts_exists [OF empty_rep] by blast
  then have "\<exists>t'. get_returns db t key (put_maps (\<lambda>_. None) kvs key) t'" for key
    using get_returns_rep [OF trie_store.puts_rep [OF empty_rep t]] by blast
  with t show ?thesis unfolding get_returns_def enough_def by blast
qed

theorem updates_then_get_witness:
  "\<exists>t. puts (update_returns (\<lambda>_. None)) \<lparr>t_root = NNil, t_unhashed = 0\<rparr> [([1], [2]), ([1, 3], [4])] t \<and>
    (\<exists>t' N. \<forall>fuel\<ge>N. TryGet fuel (\<lambda>_. None) t [1] = Some (Inr (Some [2]), t'))"
proof -
  have "put_maps (\<lambda>_. None) [([1], [2]), ([1, 3], [4])] [1 :: byte] = Some [2 :: byte]" by (simp add: put_map_def)
  then show ?thesis using updates_then_get [of "\<lambda>_. None" "[([1], [2]), ([1, 3], [4])]"] by metis
qed

end
