(* ===== verification/Trie_Hash.thy ===== *)
theory Trie_Hash
  imports Trie_Refine Rlp_Encode
begin

section \<open>Merkle hashes\<close>

text \<open>
  \<open>src/trie/hasher.go\<close>, the consensus encoding of nodes in \<open>src/trie/node.go\<close>, and
  \<open>Hash\<close> of \<open>src/trie/trie.go\<close>. The hash function is an argument \<open>keccak\<close>. A panic of
  the hasher is \<open>None\<close>. The parallel hasher runs the same code for the 16 children in
  goroutines that write to distinct slots; the model is the sequential loop.
\<close>

subsection \<open>Encoding of nodes\<close>

text \<open>
  The values that \<open>rlp.Encode\<close> is given: a short node is a pointer to a struct of its key
  and its child, an interface; the method \<open>EncodeRLP\<close> of a full node encodes an array of
  17 interfaces in its place, with the empty value for missing children.
\<close>

abbreviation nilValueNode :: node where
  "nilValueNode \<equiv> ValueNode []"

fun node_iface :: "node \<Rightarrow> gval" where
  "node_iface NNil = VNil"
| "node_iface (ValueNode v) = VIface TByteSlice (VBytes v)"
| "node_iface (HashNode h) = VIface TByteSlice (VBytes h)"
| "node_iface (ShortNode k n f) =
    VIface (TPtr (TStruct [TByteSlice, TInterface])) (VPtr (VList [VBytes k, node_iface n]))"
| "node_iface (FullNode ns f) =
    VIface (TArray 17 TInterface)
      (VList (map (\<lambda>child. if child \<noteq> NNil then node_iface child else VIface TByteSlice (VBytes [])) ns))"

definition fullNode_EncodeRLP :: "node list \<Rightarrow> rlp_err + bytes list" where
  "fullNode_EncodeRLP children =
    Encode (TArray 17 TInterface)
      (VList (map (\<lambda>child. node_iface (if child \<noteq> NNil then child else nilValueNode)) children))"

subsection \<open>The hasher\<close>

definition hashData :: "(bytes \<Rightarrow> bytes) \<Rightarrow> bytes \<Rightarrow> node" where
  "hashData keccak data = HashNode (keccak data)"

definition shortnodeToHash :: "(bytes \<Rightarrow> bytes) \<Rightarrow> bytes \<Rightarrow> node \<Rightarrow> nodeFlag \<Rightarrow> bool \<Rightarrow> node option" where
  "shortnodeToHash keccak key val flags force =
    (case Encode TInterface (node_iface (ShortNode key val flags)) of
       Inl e \<Rightarrow> None
     | Inr pieces \<Rightarrow>
         (let tmp = concat pieces
          in if length tmp < 32 \<and> \<not> force then Some (ShortNode key val flags)
             else Some (hashData keccak tmp)))"

definition fullnodeToHash :: "(bytes \<Rightarrow> bytes) \<Rightarrow> node list \<Rightarrow> nodeFlag \<Rightarrow> bool \<Rightarrow> node option" where
  "fullnodeToHash keccak children flags force =
    (case fullNode_EncodeRLP children of
       Inl e \<Rightarrow> None
     | Inr pieces \<Rightarrow>
         (let tmp = concat pieces
          in if length tmp < 32 \<and> \<not> force then Some (FullNode children flags)
             else Some (hashData keccak tmp)))"

text \<open>The hash to cache: the node itself may be too small to be hashed.\<close>

definition hash_of :: "node \<Rightarrow> bytes option" where
  "hash_of hashed = (case hashed of HashNode hn \<Rightarrow> Some hn | _ \<Rightarrow> None)"

fun hasher_hash :: "(bytes \<Rightarrow> bytes) \<Rightarrow> node \<Rightarrow> bool \<Rightarrow> (node \<times> node) option"
  and hashShortNodeChildren :: "(bytes \<Rightarrow> bytes) \<Rightarrow> bytes \<Rightarrow> node \<Rightarrow> (bytes \<times> node \<times> node) option"
  and hashFullNodeChildren :: "(bytes \<Rightarrow> bytes) \<Rightarrow> nat \<Rightarrow> node list \<Rightarrow> (node list \<times> node list) option"
where
  "hasher_hash keccak n force =
    (case n of
       NNil \<Rightarrow> None
     | ShortNode key val flags \<Rightarrow>
         (case nf_hash flags of
            Some h \<Rightarrow> Some (HashNode h, n)
          | None \<Rightarrow>
              (case hashShortNodeChildren keccak key val of
                 None \<Rightarrow> None
               | Some (ckey, collapsed, cached) \<Rightarrow>
                   (case shortnodeToHash keccak ckey collapsed flags force of
                      None \<Rightarrow> None
                    | Some hashed \<Rightarrow> Some (hashed, ShortNode key cached (flags\<lparr>nf_hash := hash_of hashed\<rparr>)))))
     | FullNode children flags \<Rightarrow>
         (case nf_hash flags of
            Some h \<Rightarrow> Some (HashNode h, n)
          | None \<Rightarrow>
              (case hashFullNodeChildren keccak 0 children of
                 None \<Rightarrow> None
               | Some (collapsed, cached) \<Rightarrow>
                   (case fullnodeToHash keccak collapsed flags force of
                      None \<Rightarrow> None
                    | Some hashed \<Rightarrow> Some (hashed, FullNode cached (flags\<lparr>nf_hash := hash_of hashed\<rparr>)))))
     | ValueNode _ \<Rightarrow> Some (n, n)
     | HashNode _ \<Rightarrow> Some (n, n))"
| "hashShortNodeChildren keccak key val =
    (case hexToCompact key of
       None \<Rightarrow> None
     | Some ckey \<Rightarrow>
         (case val of
            FullNode _ _ \<Rightarrow> map_option (\<lambda>(collapsed, cached). (ckey, collapsed, cached)) (hasher_hash keccak val False)
          | ShortNode _ _ _ \<Rightarrow> map_option (\<lambda>(collapsed, cached). (ckey, collapsed, cached)) (hasher_hash keccak val False)
          | _ \<Rightarrow> Some (ckey, val, val)))"
| "hashFullNodeChildren keccak i [] = Some ([], [])"
| "hashFullNodeChildren keccak i (child # children) =
    (if i < 16 then
       (case (if child \<noteq> NNil then hasher_hash keccak child False else Some (nilValueNode, child)) of
          None \<Rightarrow> None
        | Some (collapsed, cached) \<Rightarrow>
            (case hashFullNodeChildren keccak (Suc i) children of
               None \<Rightarrow> None
             | Some (collapseds, cacheds) \<Rightarrow> Some (collapsed # collapseds, cached # cacheds)))
     else Some (child # children, child # children))"

declare hasher_hash.simps [simp del] hashShortNodeChildren.simps [simp del]

text \<open>\<open>proofHash\<close>: the node to write into a proof, and its hash.\<close>

definition proofHash :: "(bytes \<Rightarrow> bytes) \<Rightarrow> node \<Rightarrow> (node \<times> node) option" where
  "proofHash keccak original =
    (case original of
       ShortNode key val flags \<Rightarrow>
         (case hashShortNodeChildren keccak key val of
            None \<Rightarrow> None
          | Some (ckey, collapsed, _) \<Rightarrow>
              map_option (Pair (ShortNode ckey collapsed flags)) (shortnodeToHash keccak ckey collapsed flags False))
     | FullNode children flags \<Rightarrow>
         (case hashFullNodeChildren keccak 0 children of
            None \<Rightarrow> None
          | Some (collapsed, _) \<Rightarrow>
              map_option (Pair (FullNode collapsed flags)) (fullnodeToHash keccak collapsed flags False))
     | _ \<Rightarrow> Some (original, original))"

subsection \<open>The root hash\<close>

definition hashRoot :: "(bytes \<Rightarrow> bytes) \<Rightarrow> trie \<Rightarrow> (node \<times> node \<times> trie) option" where
  "hashRoot keccak t =
    (if t_root t = NNil then Some (HashNode emptyRoot, NNil, t)
     else case hasher_hash keccak (t_root t) True of
            None \<Rightarrow> None
          | Some (hashed, cached) \<Rightarrow> Some (hashed, cached, t\<lparr>t_unhashed := 0\<rparr>))"

definition trie_Hash :: "(bytes \<Rightarrow> bytes) \<Rightarrow> trie \<Rightarrow> (bytes \<times> trie) option" where
  "trie_Hash keccak t =
    (case hashRoot keccak t of
       Some (HashNode h, cached, t') \<Rightarrow> Some (BytesToHash h, t'\<lparr>t_root := cached\<rparr>)
     | _ \<Rightarrow> None)"

subsection \<open>The Merkle encoding of a pure trie\<close>

text \<open>
  The reference definition: a node is encoded as a list of its compact key and the
  reference to its child, or of the references to its 17 children. The reference to a
  node is its encoding when that is shorter than 32 bytes, and else its hash.
\<close>

definition node_ref :: "(bytes \<Rightarrow> bytes) \<Rightarrow> ptrie \<Rightarrow> bytes \<Rightarrow> bytes" where
  "node_ref K p e =
    (case p of
       PShort _ _ \<Rightarrow> if length e < 32 then e else rlp_string (K e)
     | PFull _ \<Rightarrow> if length e < 32 then e else rlp_string (K e)
     | _ \<Rightarrow> e)"

fun penc :: "(bytes \<Rightarrow> bytes) \<Rightarrow> ptrie \<Rightarrow> bytes" where
  "penc K PNil = rlp_string []"
| "penc K (PVal v) = rlp_string v"
| "penc K (PShort k p) = rlp_list (rlp_string (the (hexToCompact k)) @ node_ref K p (penc K p))"
| "penc K (PFull ps) = rlp_list (concat (map (\<lambda>p. node_ref K p (penc K p)) ps))"

definition root_hash :: "(bytes \<Rightarrow> bytes) \<Rightarrow> ptrie \<Rightarrow> bytes" where
  "root_hash K p = (if p = PNil then emptyRoot else K (penc K p))"

text \<open>
  The hashes nodes may carry: that of the encoding, which below the root is at least 32
  bytes long.
\<close>

definition hash_ok :: "(bytes \<Rightarrow> bytes) \<Rightarrow> hash_cond" where
  "hash_ok K r h p \<longleftrightarrow> h = K (penc K p) \<and> (r \<or> 32 \<le> length (penc K p))"

text \<open>Encodings within the range of the encoder.\<close>

fun sized :: "(bytes \<Rightarrow> bytes) \<Rightarrow> ptrie \<Rightarrow> bool" where
  "sized K (PShort k p) \<longleftrightarrow> length (penc K (PShort k p)) < 18446744073709551616 \<and> sized K p"
| "sized K (PFull ps) \<longleftrightarrow> length (penc K (PFull ps)) < 18446744073709551616 \<and> (\<forall>p\<in>set ps. sized K p)"
| "sized K p \<longleftrightarrow> length (penc K p) < 18446744073709551616"

subsection \<open>The hasher computes the Merkle encoding\<close>

text \<open>\<open>collapsed K c p\<close>: the node \<open>c\<close> is encoded as the reference to \<open>p\<close>.\<close>

definition collapsed :: "(bytes \<Rightarrow> bytes) \<Rightarrow> node \<Rightarrow> ptrie \<Rightarrow> bool" where
  "collapsed K c p \<longleftrightarrow> c \<noteq> NNil \<and> encodable TInterface (node_iface c) \<and> enc TInterface (node_iface c) = node_ref K p (penc K p)"

text \<open>\<open>hashes K db force n p r\<close>: the result of hashing a node.\<close>

definition hashes :: "(bytes \<Rightarrow> bytes) \<Rightarrow> node_db \<Rightarrow> bool \<Rightarrow> ptrie \<Rightarrow> node \<times> node \<Rightarrow> bool" where
  "hashes K db force p = (\<lambda>(c, m). rep (hash_ok K) db m p \<and> hash_fits (hash_ok K force) m p \<and>
    (if force then c = HashNode (K (penc K p)) else collapsed K c p))"

lemma encElems_concat: "encElems t vs = concat (map (enc t) vs)"
  by (induction vs) simp_all

lemma encodableElems_all: "encodableElems t vs \<longleftrightarrow> (\<forall>v\<in>set vs. encodable t v)"
  by (induction vs) simp_all

lemma collapsed_HashNode: "32 \<le> length (penc K p) \<Longrightarrow> inner p \<Longrightarrow> collapsed K (HashNode (K (penc K p))) p"
  by (cases p) (auto simp: collapsed_def node_ref_def)

lemma shortnodeToHash_eq:
  assumes "collapsed K c p" "hexToCompact k = Some ck" "length (penc K (PShort k p)) < 18446744073709551616"
  shows "shortnodeToHash K ck c f force = Some (if length (penc K (PShort k p)) < 32 \<and> \<not> force then ShortNode ck c f
    else HashNode (K (penc K (PShort k p))))"
    and "length (penc K (PShort k p)) < 32 \<Longrightarrow> collapsed K (ShortNode ck c f) (PShort k p)"
proof -
  have e: "enc TInterface (node_iface (ShortNode ck c f)) = penc K (PShort k p)"
    "encodable TInterface (node_iface (ShortNode ck c f))"
    using assms(1,2) by (simp_all add: collapsed_def)
  then show "length (penc K (PShort k p)) < 32 \<Longrightarrow> collapsed K (ShortNode ck c f) (PShort k p)"
    by (simp add: collapsed_def node_ref_def)
  obtain ps where "Encode TInterface (node_iface (ShortNode ck c f)) = Inr ps" "concat ps = penc K (PShort k p)"
    using Encode_enc [OF e(2)] e(1) assms(3) by auto
  then show "shortnodeToHash K ck c f force = Some (if length (penc K (PShort k p)) < 32 \<and> \<not> force then ShortNode ck c f
      else HashNode (K (penc K (PShort k p))))"
    by (simp add: shortnodeToHash_def hashData_def Let_def del: penc.simps node_iface.simps)
qed

lemma fullnodeToHash_eq:
  assumes l: "length cs = length ps" "length ps = 17"
    and c: "\<forall>i<17. cs ! i = NNil \<and> ps ! i = PNil \<or> cs ! i \<noteq> NNil \<and> collapsed K (cs ! i) (ps ! i)"
    and b: "length (penc K (PFull ps)) < 18446744073709551616"
  shows "fullnodeToHash K cs f force = Some (if length (penc K (PFull ps)) < 32 \<and> \<not> force then FullNode cs f
    else HashNode (K (penc K (PFull ps))))"
    and "length (penc K (PFull ps)) < 32 \<Longrightarrow> collapsed K (FullNode cs f) (PFull ps)"
proof -
  let ?v = "\<lambda>child. if child \<noteq> NNil then node_iface child else VIface TByteSlice (VBytes [])"
  have one: "encodable TInterface (?v (cs ! i)) \<and> enc TInterface (?v (cs ! i)) = node_ref K (ps ! i) (penc K (ps ! i))"
    if "i < 17" for i
    using c that by (auto simp: collapsed_def node_ref_def)
  then have "map (\<lambda>child. enc TInterface (?v child)) cs = map (\<lambda>p. node_ref K p (penc K p)) ps"
    using l by (intro nth_equalityI) simp_all
  then have e: "enc (TArray 17 TInterface) (VList (map ?v cs)) = penc K (PFull ps)"
    by (simp only: enc.simps gval.case encElems_concat map_map comp_def penc.simps)
  have "\<forall>child\<in>set cs. encodable TInterface (?v child)"
    using one l by (metis in_set_conv_nth)
  then have en: "encodable (TArray 17 TInterface) (VList (map ?v cs))"
    using l by (simp only: encodable.simps(11) gval.case encodableElems_all set_map ball_simps length_map simp_thms)
  have "node_iface (if child \<noteq> NNil then child else nilValueNode) = ?v child" for child
    by simp
  then obtain pieces where "fullNode_EncodeRLP cs = Inr pieces" "concat pieces = penc K (PFull ps)"
    using Encode_enc [OF en] e b by (auto simp: fullNode_EncodeRLP_def)
  then show "fullnodeToHash K cs f force = Some (if length (penc K (PFull ps)) < 32 \<and> \<not> force then FullNode cs f
      else HashNode (K (penc K (PFull ps))))"
    by (simp add: fullnodeToHash_def hashData_def Let_def del: penc.simps)
  show "length (penc K (PFull ps)) < 32 \<Longrightarrow> collapsed K (FullNode cs f) (PFull ps)"
    using e en unfolding collapsed_def node_iface.simps enc.simps encodable.simps
    by (simp add: node_ref_def del: penc.simps)
qed

lemma hashFullNodeChildren_eq:
  "\<forall>j<length ns. i + j < 16 \<longrightarrow> ns ! j \<noteq> NNil \<longrightarrow> (\<exists>r. hasher_hash K (ns ! j) False = Some r) \<Longrightarrow>
    \<exists>cs ms. hashFullNodeChildren K i ns = Some (cs, ms) \<and> length cs = length ns \<and> length ms = length ns \<and>
      (\<forall>j<length ns. if 16 \<le> i + j then cs ! j = ns ! j \<and> ms ! j = ns ! j
         else if ns ! j = NNil then cs ! j = nilValueNode \<and> ms ! j = NNil
         else hasher_hash K (ns ! j) False = Some (cs ! j, ms ! j))"
proof (induction ns arbitrary: i)
  case (Cons n ns)
  show ?case
  proof (cases "i < 16")
    case True
    have "\<forall>j<length ns. Suc i + j < 16 \<longrightarrow> ns ! j \<noteq> NNil \<longrightarrow> (\<exists>r. hasher_hash K (ns ! j) False = Some r)"
      using Cons.prems by (metis Suc_less_eq add_Suc_shift length_Cons nth_Cons_Suc)
    from Cons.IH [OF this] obtain cs ms where r: "hashFullNodeChildren K (Suc i) ns = Some (cs, ms)"
      "length cs = length ns" "length ms = length ns"
      "\<forall>j<length ns. if 16 \<le> Suc i + j then cs ! j = ns ! j \<and> ms ! j = ns ! j
         else if ns ! j = NNil then cs ! j = nilValueNode \<and> ms ! j = NNil
         else hasher_hash K (ns ! j) False = Some (cs ! j, ms ! j)" by blast
    obtain c m where c: "(if n \<noteq> NNil then hasher_hash K n False else Some (nilValueNode, n)) = Some (c, m)"
      using Cons.prems [rule_format, of 0] True by (cases "n = NNil") auto
    have "hashFullNodeChildren K i (n # ns) = Some (c # cs, m # ms)" using True r(1) c by simp
    moreover have "if 16 \<le> i + j then (c # cs) ! j = (n # ns) ! j \<and> (m # ms) ! j = (n # ns) ! j
         else if (n # ns) ! j = NNil then (c # cs) ! j = nilValueNode \<and> (m # ms) ! j = NNil
         else hasher_hash K ((n # ns) ! j) False = Some ((c # cs) ! j, (m # ms) ! j)" if "j < length (n # ns)" for j
      using that True c r(4) by (cases j) (auto split: if_splits)
    ultimately show ?thesis using r(2,3) by auto
  qed auto
qed simp

lemma inner_hexToCompact: "inner (PShort k p) \<Longrightarrow> \<exists>c. hexToCompact k = Some c \<and> compactToHex c = k"
proof -
  assume "inner (PShort k p)"
  then have "hex_ok k" by (cases rule: inner_PShortE) (auto simp: hexkey_def hex_ok_def)
  then show ?thesis using compact_roundtrip by blast
qed

lemma hashes_cached:
  "rep (hash_ok K) db n p \<Longrightarrow> hash_fits (hash_ok K force) n p \<Longrightarrow> own_hash n = Some h \<Longrightarrow> inner p \<Longrightarrow>
    hashes K db force p (HashNode h, n)"
  by (auto simp: hashes_def hash_fits_def hash_ok_def collapsed_HashNode)

lemma hash_sim:
  "rep (hash_ok K) db n p \<Longrightarrow> hash_fits (hash_ok K force) n p \<Longrightarrow> inner p \<Longrightarrow> sized K p \<Longrightarrow>
    \<exists>r. hasher_hash K n force = Some r \<and> hashes K db force p r"
proof (induction n p arbitrary: force rule: rep.induct)
  case (short n p k f)
  have rs: "rep (hash_ok K) db (ShortNode k n f) (PShort k p)" using short.hyps by (rule rep.short)
  show ?case
  proof (cases "nf_hash f")
    case (Some h)
    then have "hasher_hash K (ShortNode k n f) force = Some (HashNode h, ShortNode k n f)" by (simp add: hasher_hash.simps)
    then show ?thesis using hashes_cached [OF rs short.prems(1) _ short.prems(2)] Some by simp
  next
    case None
    obtain ck where ck: "hexToCompact k = Some ck" using inner_hexToCompact [OF short.prems(2)] by blast
    have "\<exists>c m. hashShortNodeChildren K k n = Some (ck, c, m) \<and> collapsed K c p \<and> rep (hash_ok K) db m p \<and> hash_fits (hash_ok K False) m p"
    proof (cases "\<exists>v. p = PVal v")
      case True
      then obtain v where 1: "p = PVal v" by blast
      then have "n = ValueNode v" using short.hyps(1) rep_PVal by simp
      then show ?thesis using 1 ck by (simp add: hashShortNodeChildren.simps collapsed_def node_ref_def)
    next
      case False
      then obtain cs where 2: "p = PFull cs" "inner p" using short.prems(2) by (auto elim: inner_PShortE)
      then have "sized K p" "inner p" using short.prems(3) by auto
      then obtain c m where r: "hasher_hash K n False = Some (c, m)" "hashes K db False p (c, m)"
        using short.IH [OF short.hyps(2)] by auto
      have "hashShortNodeChildren K k n = Some (ck, c, m)"
        using ck r 2 short.hyps(1) by (cases n) (auto simp: hashShortNodeChildren.simps hasher_hash.simps)
      then show ?thesis using r(2) by (simp add: hashes_def)
    qed
    then obtain c m where c: "hashShortNodeChildren K k n = Some (ck, c, m)" "collapsed K c p" "rep (hash_ok K) db m p"
      "hash_fits (hash_ok K False) m p" by blast
    have b: "length (penc K (PShort k p)) < 18446744073709551616" using short.prems(3) by simp
    note h = shortnodeToHash_eq [OF c(2) ck b]
    let ?small = "length (penc K (PShort k p)) < 32 \<and> \<not> force"
    let ?c = "if ?small then ShortNode ck c f else HashNode (K (penc K (PShort k p)))"
    have "hasher_hash K (ShortNode k n f) force = Some (?c, ShortNode k m (f\<lparr>nf_hash := hash_of ?c\<rparr>))"
      by (subst hasher_hash.simps) (simp add: None c(1) h(1) del: penc.simps)
    moreover have "hashes K db force (PShort k p) (?c, ShortNode k m (f\<lparr>nf_hash := hash_of ?c\<rparr>))"
      using h(2) c(3,4) collapsed_HashNode [OF _ short.prems(2)]
      by (auto simp: hashes_def hash_of_def hash_fits_def hash_ok_def intro: rep.short simp del: penc.simps)
    ultimately show ?thesis by blast
  qed
next
  case (full ns ps f)
  have all: "\<forall>i<length ps. rep (hash_ok K) db (ns ! i) (ps ! i)" using full.IH by simp
  have rf: "rep (hash_ok K) db (FullNode ns f) (PFull ps)" using full.hyps(1) all full.hyps(2) by (rule rep.full)
  have l: "length ps = 17" and kids: "\<forall>i<16. ps ! i = PNil \<or> inner (ps ! i)" "ps ! 16 = PNil \<or> (\<exists>v. ps ! 16 = PVal v)"
    using full.prems(2) by (auto elim: inner_PFullE)
  show ?case
  proof (cases "nf_hash f")
    case (Some h)
    then have "hasher_hash K (FullNode ns f) force = Some (HashNode h, FullNode ns f)" by (simp add: hasher_hash.simps)
    then show ?thesis using hashes_cached [OF rf full.prems(1) _ full.prems(2)] Some by simp
  next
    case None
    have nil: "ns ! i = NNil \<longleftrightarrow> ps ! i = PNil" if "i < 17" for i
      using all that l rep_PNil by (metis rep_NNil)
    have child: "\<exists>r. hasher_hash K (ns ! i) False = Some r \<and> hashes K db False (ps ! i) r" if "i < 16" "ns ! i \<noteq> NNil" for i
      using full.IH full.hyps(2) kids(1) that nil [of i] l full.prems(3) by auto
    have "\<forall>j<length ns. 0 + j < 16 \<longrightarrow> ns ! j \<noteq> NNil \<longrightarrow> (\<exists>r. hasher_hash K (ns ! j) False = Some r)"
      using child by (metis add_0)
    from hashFullNodeChildren_eq [OF this]
    obtain cs ms where r: "hashFullNodeChildren K 0 ns = Some (cs, ms)" "length cs = 17" "length ms = 17"
      "\<forall>j<17. if 16 \<le> j then cs ! j = ns ! j \<and> ms ! j = ns ! j
         else if ns ! j = NNil then cs ! j = nilValueNode \<and> ms ! j = NNil
         else hasher_hash K (ns ! j) False = Some (cs ! j, ms ! j)"
      using full.hyps(1) l by auto
    have "(cs ! i = NNil \<and> ps ! i = PNil \<or> cs ! i \<noteq> NNil \<and> collapsed K (cs ! i) (ps ! i)) \<and>
      rep (hash_ok K) db (ms ! i) (ps ! i) \<and> hash_fits (hash_ok K False) (ms ! i) (ps ! i)" if lt: "i < 17" for i
    proof -
      note ri = r(4) [rule_format, OF lt]
      have same: "rep (hash_ok K) db (ns ! i) (ps ! i)" "hash_fits (hash_ok K False) (ns ! i) (ps ! i)"
        using all full.hyps(2) l lt by simp_all
      consider (last) "i = 16" | (none) "i < 16" "ns ! i = NNil" | (kid) "i < 16" "ns ! i \<noteq> NNil" using lt by linarith
      then show ?thesis
      proof cases
        case last
        then show ?thesis using ri same nil [of 16] kids(2)
          by (auto simp: collapsed_def node_ref_def dest!: rep_PVal)
      next
        case none
        then show ?thesis using ri nil [OF lt] by (simp add: collapsed_def node_ref_def)
      next
        case kid
        then show ?thesis using ri child [of i] by (auto simp: hashes_def collapsed_def)
      qed
    qed
    then have each: "\<forall>i<17. cs ! i = NNil \<and> ps ! i = PNil \<or> cs ! i \<noteq> NNil \<and> collapsed K (cs ! i) (ps ! i)"
      "\<forall>i<length ps. rep (hash_ok K) db (ms ! i) (ps ! i)" "\<forall>i<length ps. hash_fits (hash_ok K False) (ms ! i) (ps ! i)"
      using l by simp_all
    have b: "length (penc K (PFull ps)) < 18446744073709551616" using full.prems(3) by simp
    note h = fullnodeToHash_eq [OF _ l each(1) b]
    let ?small = "length (penc K (PFull ps)) < 32 \<and> \<not> force"
    let ?c = "if ?small then FullNode cs f else HashNode (K (penc K (PFull ps)))"
    have "hasher_hash K (FullNode ns f) force = Some (?c, FullNode ms (f\<lparr>nf_hash := hash_of ?c\<rparr>))"
      using h(1) r(1,2) l by (subst hasher_hash.simps) (simp add: None del: penc.simps)
    moreover have "rep (hash_ok K) db (FullNode ms g) (PFull ps)" for g
      using r(3) l each(2,3) by (intro rep.full) simp_all
    then have "hashes K db force (PFull ps) (?c, FullNode ms (f\<lparr>nf_hash := hash_of ?c\<rparr>))"
      using h(2) r(2) l collapsed_HashNode [OF _ full.prems(2)]
      by (auto simp: hashes_def hash_of_def hash_fits_def hash_ok_def simp del: penc.simps)
    ultimately show ?thesis by blast
  qed
next
  case (hash h n p)
  have "rep (hash_ok K) db (HashNode h) p" using hash.hyps by (rule rep.hash)
  then have "hashes K db force p (HashNode h, HashNode h)" using hashes_cached hash.prems by simp
  then show ?case by (simp add: hasher_hash.simps)
qed simp_all

subsection \<open>Sizes\<close>

text \<open>Keys and values of less than 4 GiB keep every encoding in range.\<close>

definition map_sized :: "(bytes \<Rightarrow> bytes option) \<Rightarrow> bool" where
  "map_sized m \<longleftrightarrow> (\<forall>key v. m key = Some v \<longrightarrow> length key < 2 ^ 32 \<and> length v < 2 ^ 32)"

definition ptrie_sized :: "ptrie \<Rightarrow> bool" where
  "ptrie_sized p \<longleftrightarrow> (\<forall>k v. hexkey k \<longrightarrow> pget p k = Some v \<longrightarrow> length k < 17179869184 \<and> length v < 4294967296)"

lemma length_rlp_head: "n < 18446744073709551616 \<Longrightarrow> length (rlp_head a b n) \<le> 9"
  using length_be_bytes_64 [of n] by (simp add: rlp_head_def)

lemma length_rlp_string: "length b < 18446744073709551616 \<Longrightarrow> length (rlp_string b) \<le> length b + 9"
  using length_rlp_head [of "length b"] by (auto simp: rlp_string_def)

lemma length_rlp_list: "length b < 18446744073709551616 \<Longrightarrow> length (rlp_list b) \<le> length b + 9"
  using length_rlp_head [of "length b"] by (simp add: rlp_list_def)

lemma length_node_ref:
  "inner p \<Longrightarrow> (\<And>b. length (K b) = 32) \<Longrightarrow> length (node_ref K p e) \<le> 41"
  using length_rlp_string [of "K e"] by (cases p) (auto simp: node_ref_def)

lemma length_compact: "inner (PShort k p) \<Longrightarrow> length (the (hexToCompact k)) \<le> length k + 1"
proof -
  assume "inner (PShort k p)"
  then have "hex_ok k" by (cases rule: inner_PShortE) (auto simp: hexkey_def hex_ok_def)
  then obtain c where "hexToCompact k = Some c" "length c = length (hex_body k) div 2 + 1" using compact_roundtrip by blast
  moreover have "length (hex_body k) \<le> length k" by (simp add: hex_body_def)
  ultimately show ?thesis by simp
qed

lemma length_concat_le: "(\<And>x. x \<in> set xs \<Longrightarrow> length (f x) \<le> B) \<Longrightarrow> length (concat (map f xs)) \<le> length xs * B"
  by (induction xs) (auto intro: add_mono)

lemma inner_sized: "inner p \<Longrightarrow> ptrie_sized p \<Longrightarrow> (\<And>b. length (K b) = 32) \<Longrightarrow> sized K p"
proof (induction p rule: inner.induct)
  case (leaf k v)
  have i: "inner (PShort k (PVal v))" using leaf.hyps by (rule inner.leaf)
  have b: "length k < 17179869184" "length v < 4294967296"
    using leaf.prems(1) leaf.hyps(1) by (auto simp: ptrie_sized_def)
  have c: "length (rlp_string (the (hexToCompact k))) \<le> length k + 10"
    using length_rlp_string [of "the (hexToCompact k)"] length_compact [OF i] b(1) by simp
  have v: "length (rlp_string v) \<le> length v + 9" using length_rlp_string b(2) by simp
  have "length (rlp_string (the (hexToCompact k)) @ rlp_string v) < 18446744073709550000" using c v b by simp
  then show ?case
    using length_rlp_list [of "rlp_string (the (hexToCompact k)) @ rlp_string v"] v b by (simp add: node_ref_def)
next
  case (ext k cs)
  have i: "inner (PShort k (PFull cs))" using ext.hyps by (rule inner.ext)
  obtain k' v where k': "hexkey k'" "pget (PFull cs) k' = Some v" using inner_key [OF ext.hyps(3)] by blast
  have up: "hexkey (k @ a) \<and> pget (PShort k (PFull cs)) (k @ a) = pget (PFull cs) a" if "hexkey a" for a
    using hexkey_append [OF ext.hyps(1)] that by simp
  have "ptrie_sized (PFull cs)"
    unfolding ptrie_sized_def
  proof (intro allI impI)
    fix a w assume a: "hexkey a" "pget (PFull cs) a = Some w"
    then have "length (k @ a) < 17179869184 \<and> length w < 4294967296"
      using up [OF a(1)] ext.prems(1) unfolding ptrie_sized_def by metis
    then show "length a < 17179869184 \<and> length w < 4294967296" by simp
  qed
  then have IH: "sized K (PFull cs)" using ext.IH ext.prems(2) by blast
  have "length (k @ k') < 17179869184" using up [OF k'(1)] k'(2) ext.prems(1) unfolding ptrie_sized_def by metis
  then have b: "length k < 17179869184" by simp
  have c: "length (rlp_string (the (hexToCompact k))) \<le> length k + 10"
    using length_rlp_string [of "the (hexToCompact k)"] length_compact [OF i] b by simp
  have "length (node_ref K (PFull cs) (penc K (PFull cs))) \<le> 41" using length_node_ref ext.hyps(3) ext.prems(2) by blast
  then have "length (rlp_string (the (hexToCompact k)) @ node_ref K (PFull cs) (penc K (PFull cs))) < 18446744073709550000"
    using c b by simp
  then show ?case
    using length_rlp_list [of "rlp_string (the (hexToCompact k)) @ node_ref K (PFull cs) (penc K (PFull cs))"] IH
    by (simp del: penc.simps(4) add: penc.simps(3))
next
  case (full cs)
  have kid: "sized K c \<and> length (node_ref K c (penc K c)) \<le> 4294967305" if cm: "c \<in> set cs" for c
  proof -
    obtain i where i: "i < 17" "c = cs ! i" using cm full.hyps(1) by (auto simp: in_set_conv_nth)
    let ?x = "word_of_nat i :: byte"
    have x: "unat ?x = i" using i(1) by (simp add: unat_word_of_nat_byte)
    consider "c = PNil" | v where "i = 16" "c = PVal v" | "i < 16" "inner c"
    proof (cases "i = 16")
      case True
      then show thesis using i full.hyps(2) that by auto
    next
      case False
      then have "i < 16" using i(1) by linarith
      then show thesis using i(2) full.IH that by blast
    qed
    then show ?thesis
    proof cases
      case 1
      then show ?thesis using length_rlp_string [of "[]"] by (simp add: node_ref_def)
    next
      case (2 v)
      then have "hexkey [?x]" "pget (PFull cs) [?x] = Some v" using x i(2) by (auto simp: hexkey_Cons)
      then have "length v < 4294967296" using full.prems(1) by (auto simp: ptrie_sized_def)
      then show ?thesis using length_rlp_string [of v] 2 by (simp add: node_ref_def)
    next
      case 3
      have "ptrie_sized c"
        unfolding ptrie_sized_def
      proof (intro allI impI)
        fix a w assume a: "hexkey a" "pget c a = Some w"
        have "?x < 16" using x 3(1) by (simp add: word_less_nat_alt)
        then have "hexkey (?x # a)" "pget (PFull cs) (?x # a) = Some w" using a x i(2) by (auto simp: hexkey_Cons)
        then have "length (?x # a) < 17179869184 \<and> length w < 4294967296"
          using full.prems(1) unfolding ptrie_sized_def by blast
        then show "length a < 17179869184 \<and> length w < 4294967296" by simp
      qed
      moreover have "length (node_ref K c (penc K c)) \<le> 41" using length_node_ref 3(2) full.prems(2) by blast
      ultimately show ?thesis using full.IH 3 i(2) full.prems(2) by fastforce
    qed
  qed
  then have "length (concat (map (\<lambda>p. node_ref K p (penc K p)) cs)) \<le> length cs * 4294967305"
    by (intro length_concat_le) blast
  then show ?case
    using length_rlp_list [of "concat (map (\<lambda>p. node_ref K p (penc K p)) cs)"] kid full.hyps(1) by simp
qed

subsection \<open>The root hash of a map\<close>

lemma trie_rep_ptrie_sized:
  assumes "\<forall>key. m key = pget p (keybytesToHex key)" "\<forall>k v. hexkey k \<longrightarrow> pget p k = Some v \<longrightarrow> k \<in> range keybytesToHex"
    and "map_sized m"
  shows "ptrie_sized p"
  unfolding ptrie_sized_def
proof (intro allI impI)
  fix k v assume k: "hexkey k" "pget p k = Some v"
  then obtain key where key: "k = keybytesToHex key" using assms(2) by blast
  then have b: "length key < 2 ^ 32" "length v < 2 ^ 32" using k assms(1,3) by (auto simp: map_sized_def)
  have "length (keybytesToHex key) = 2 * length key + 1"
    by (simp add: keybytesToHex_def length_concat sum_list_triv comp_def)
  then show "length k < 17179869184 \<and> length v < 4294967296" using b key by simp
qed

lemma BytesToHash_id: "length h = 32 \<Longrightarrow> BytesToHash h = h"
  by (simp add: BytesToHash_def Let_def)

text \<open>\<open>map_ptrie m p\<close>: \<open>p\<close> is the canonical trie of the map \<open>m\<close>.\<close>

definition map_ptrie :: "(bytes \<Rightarrow> bytes option) \<Rightarrow> ptrie \<Rightarrow> bool" where
  "map_ptrie m p \<longleftrightarrow> canon p \<and> (\<forall>key. m key = pget p (keybytesToHex key)) \<and>
    (\<forall>k v. hexkey k \<longrightarrow> pget p k = Some v \<longrightarrow> k \<in> range keybytesToHex)"

lemma map_ptrie_unique:
  assumes "map_ptrie m p" "map_ptrie m q"
  shows "p = q"
proof (rule canon_unique)
  show "canon p" "canon q" using assms by (simp_all add: map_ptrie_def)
  have "pget p k = pget q k" if k: "hexkey k" for k
  proof (cases "k \<in> range keybytesToHex")
    case True
    then show ?thesis using assms unfolding map_ptrie_def by (metis rangeE)
  next
    case False
    then show ?thesis using assms k unfolding map_ptrie_def by (metis not_None_eq)
  qed
  then show "same_map p q" by (simp add: same_map_def)
qed

lemma trie_rep_map_ptrie: "trie_rep ok db t m \<longleftrightarrow> (\<exists>p. rep ok db (t_root t) p \<and> hash_fits (ok True) (t_root t) p \<and> map_ptrie m p)"
  by (simp add: trie_rep_def map_ptrie_def)

lemma Hash_sim:
  assumes K: "\<And>b. length (K b) = 32" and p: "rep (hash_ok K) db (t_root t) p" "hash_fits (hash_ok K True) (t_root t) p"
    "map_ptrie m p" and b: "map_sized m"
  shows "\<exists>t'. trie_Hash K t = Some (root_hash K p, t') \<and> trie_rep (hash_ok K) db t' m"
proof (cases "p = PNil")
  case True
  then have "t_root t = NNil" using p(1) rep_PNil by simp
  then have "trie_Hash K t = Some (root_hash K p, t\<lparr>t_root := NNil\<rparr>)"
    using True by (simp add: trie_Hash_def hashRoot_def root_hash_def BytesToHash_id emptyRoot_def)
  moreover have "trie_rep (hash_ok K) db (t\<lparr>t_root := NNil\<rparr>) m" using p(3) True by (auto simp: trie_rep_map_ptrie)
  ultimately show ?thesis by blast
next
  case False
  then have i: "inner p" using p(3) by (simp add: map_ptrie_def canon_def)
  have "sized K p"
    using p(3) b by (intro inner_sized [OF i trie_rep_ptrie_sized K]) (simp_all add: map_ptrie_def)
  then obtain m' where h: "hasher_hash K (t_root t) True = Some (HashNode (K (penc K p)), m')"
    "rep (hash_ok K) db m' p" "hash_fits (hash_ok K True) m' p"
    using hash_sim [OF p(1,2) i] by (auto simp: hashes_def)
  have "t_root t \<noteq> NNil" using p(1) False by auto
  then have "trie_Hash K t = Some (root_hash K p, t\<lparr>t_unhashed := 0, t_root := m'\<rparr>)"
    using h(1) False K by (simp add: trie_Hash_def hashRoot_def root_hash_def BytesToHash_id)
  moreover have "trie_rep (hash_ok K) db (t\<lparr>t_unhashed := 0, t_root := m'\<rparr>) m"
    using h(2,3) p(3) by (auto simp: trie_rep_map_ptrie)
  ultimately show ?thesis by blast
qed

text \<open>
  C8. \<open>Hash\<close> returns the Merkle root of the map the trie stands for: the recursive
  definition over the canonical trie of the map, in which nodes of 32 bytes and more are
  replaced by their hashes. Hashes cached in nodes, nodes not loaded from the database
  and small nodes embedded in their parents make no difference, and the trie with the
  new cached hashes stands for the same map.
\<close>

theorem Hash_correct:
  assumes "\<forall>b. length (keccak b) = 32" and "trie_rep (hash_ok keccak) db t m" and "map_sized m"
  shows "\<exists>p t'. map_ptrie m p \<and> trie_Hash keccak t = Some (root_hash keccak p, t') \<and> trie_rep (hash_ok keccak) db t' m"
  using assms Hash_sim [of keccak db t _ m] by (auto simp: trie_rep_map_ptrie)

theorem Hash_correct_witness:
  "\<exists>p t'. map_ptrie (\<lambda>_. None) p \<and>
    trie_Hash (\<lambda>b. replicate 32 (word_of_nat (length b))) \<lparr>t_root = NNil, t_unhashed = 5\<rparr> =
      Some (root_hash (\<lambda>b. replicate 32 (word_of_nat (length b))) p, t')"
  using Hash_correct [of "\<lambda>b. replicate 32 (word_of_nat (length b))" "\<lambda>_. None" "\<lparr>t_root = NNil, t_unhashed = 5\<rparr>" "\<lambda>_. None"]
    empty_rep by (auto simp: map_sized_def)

text \<open>
  C18. The root hash does not depend on the history. Two sequences of updates (insertions,
  overwritings and deletions, in any order) that leave the same map give the same root
  hash, for any hash function with 32-byte results.
\<close>

theorem Hash_history_independent:
  assumes "\<forall>b. length (keccak b) = 32"
    and "puts (update_returns db) \<lparr>t_root = NNil, t_unhashed = 0\<rparr> kvs t"
    and "puts (update_returns db) \<lparr>t_root = NNil, t_unhashed = 0\<rparr> kvs' t'"
    and "put_maps (\<lambda>_. None) kvs = put_maps (\<lambda>_. None) kvs'" and "map_sized (put_maps (\<lambda>_. None) kvs)"
  shows "\<exists>h. map_option fst (trie_Hash keccak t) = Some h \<and> map_option fst (trie_Hash keccak t') = Some h"
proof -
  let ?m = "put_maps (\<lambda>_. None) kvs"
  have "trie_rep (hash_ok keccak) db t ?m" "trie_rep (hash_ok keccak) db t' ?m"
    using trie_store.puts_rep [OF empty_rep] assms(2-4) by metis+
  then obtain p q where p: "map_ptrie ?m p" "map_option fst (trie_Hash keccak t) = Some (root_hash keccak p)"
    and q: "map_ptrie ?m q" "map_option fst (trie_Hash keccak t') = Some (root_hash keccak q)"
    using Hash_sim [of keccak db _ _ ?m] assms(1,5) by (fastforce simp: trie_rep_map_ptrie)
  then show ?thesis using map_ptrie_unique by blast
qed

theorem Hash_history_independent_witness:
  "\<exists>t t'. puts (update_returns (\<lambda>_. None)) \<lparr>t_root = NNil, t_unhashed = 0\<rparr> [([1], [2]), ([3], [4])] t \<and>
    puts (update_returns (\<lambda>_. None)) \<lparr>t_root = NNil, t_unhashed = 0\<rparr> [([3], [5]), ([3], [4]), ([1], [2])] t' \<and>
    (\<exists>h. map_option fst (trie_Hash (\<lambda>b. replicate 32 (word_of_nat (length b))) t) = Some h \<and>
         map_option fst (trie_Hash (\<lambda>b. replicate 32 (word_of_nat (length b))) t') = Some h)"
proof -
  let ?kvs = "[([1], [2]), ([3], [4])] :: (bytes \<times> bytes) list" and ?kvs' = "[([3], [5]), ([3], [4]), ([1], [2])] :: (bytes \<times> bytes) list"
  let ?e = "\<lparr>t_root = NNil, t_unhashed = 0\<rparr>" and ?db = "\<lambda>_. None"
  obtain t t' where t: "puts (update_returns ?db) ?e ?kvs t" "puts (update_returns ?db) ?e ?kvs' t'"
    using trie_store.puts_exists [OF empty_rep] by meson
  have "put_maps (\<lambda>_. None) ?kvs = put_maps (\<lambda>_. None) ?kvs'" "map_sized (put_maps (\<lambda>_. None) ?kvs)"
    by (auto simp: put_map_def map_sized_def)
  from Hash_history_independent [OF _ t this, of "\<lambda>b. replicate 32 (word_of_nat (length b))"] t
  show ?thesis by auto
qed

end
