(* ===== verification/Trie_Node.thy ===== *)
theory Trie_Node
  imports Trie_Hash
begin

section \<open>Decoding of trie nodes\<close>

text \<open>
  \<open>decodeNode\<close>, \<open>decodeShort\<close>, \<open>decodeFull\<close> and \<open>decodeRef\<close> of \<open>src/trie/node.go\<close>, with
  their error paths. Embedded nodes make them mutually recursive; the recursion is given
  as fuel, and each level of nesting takes one unit. A decoder that fails gives the error
  only: the node that \<open>decodeFull\<close> returns beside an error is not used by any caller.
  Decoding inverts the Merkle encoding, so that a trie can be loaded from the encodings
  of its nodes, and the root hash determines the content.
\<close>

subsection \<open>The decoder\<close>

datatype path_elem = PathShort | PathFull | PathVal | PathIndex nat

datatype node_err =
    NodeUnexpectedEOF
  | NodeRlpError rlp_err
  | NodeNotAList rlp_err
  | NodeElemCount nat
  | NodeInvalidValue rlp_err
  | NodeOversized nat
  | NodeInvalidSize nat
  | NodeDecodeError node_err "path_elem list"

definition wrapError :: "node_err \<Rightarrow> path_elem \<Rightarrow> node_err" where
  "wrapError err ctx =
    (case err of
       NodeDecodeError what stack \<Rightarrow> NodeDecodeError what (stack @ [ctx])
     | _ \<Rightarrow> NodeDecodeError err [ctx])"

type_synonym 'a nresult = "(node_err + 'a) option"
type_synonym node_decoder = "bytes option \<Rightarrow> bytes \<Rightarrow> node nresult"

definition decodeRef :: "node_decoder \<Rightarrow> bytes \<Rightarrow> (node \<times> bytes) nresult" where
  "decodeRef dec buf =
    (case Split buf of
       Inl e \<Rightarrow> Some (Inl (NodeRlpError e))
     | Inr (kind, val, rest) \<Rightarrow>
         (if kind = KList then
            (let sz = length buf - length rest
             in if 32 < sz then Some (Inl (NodeOversized sz))
                else case dec None buf of
                       None \<Rightarrow> None
                     | Some (Inl e) \<Rightarrow> Some (Inl e)
                     | Some (Inr n) \<Rightarrow> Some (Inr (n, rest)))
          else if kind = KString \<and> length val = 0 then Some (Inr (NNil, rest))
          else if kind = KString \<and> length val = 32 then Some (Inr (HashNode val, rest))
          else Some (Inl (NodeInvalidSize (length val)))))"

definition decodeShort :: "node_decoder \<Rightarrow> bytes option \<Rightarrow> bytes \<Rightarrow> node nresult" where
  "decodeShort dec hash elems =
    (case SplitString elems of
       Inl e \<Rightarrow> Some (Inl (NodeRlpError e))
     | Inr (kbuf, rest) \<Rightarrow>
         (let flag = \<lparr>nf_hash = hash, nf_dirty = False\<rparr>;
              key = compactToHex kbuf
          in if hasTerm key then
               (case SplitString rest of
                  Inl e \<Rightarrow> Some (Inl (NodeInvalidValue e))
                | Inr (val, _) \<Rightarrow> Some (Inr (ShortNode key (ValueNode val) flag)))
             else
               (case decodeRef dec rest of
                  None \<Rightarrow> None
                | Some (Inl e) \<Rightarrow> Some (Inl (wrapError e PathVal))
                | Some (Inr (r, _)) \<Rightarrow> Some (Inr (ShortNode key r flag)))))"

text \<open>The loop over the first 16 children, \<open>k\<close> of which are left.\<close>

primrec decodeFull_loop :: "nat \<Rightarrow> node_decoder \<Rightarrow> bytes \<Rightarrow> (node list \<times> bytes) nresult" where
  "decodeFull_loop 0 dec elems = Some (Inr ([], elems))"
| "decodeFull_loop (Suc k) dec elems =
    (case decodeRef dec elems of
       None \<Rightarrow> None
     | Some (Inl e) \<Rightarrow> Some (Inl (wrapError e (PathIndex (16 - Suc k))))
     | Some (Inr (cld, rest)) \<Rightarrow>
         (case decodeFull_loop k dec rest of
            None \<Rightarrow> None
          | Some (Inl e) \<Rightarrow> Some (Inl e)
          | Some (Inr (clds, rest')) \<Rightarrow> Some (Inr (cld # clds, rest'))))"

definition decodeFull :: "node_decoder \<Rightarrow> bytes option \<Rightarrow> bytes \<Rightarrow> node nresult" where
  "decodeFull dec hash elems =
    (case decodeFull_loop 16 dec elems of
       None \<Rightarrow> None
     | Some (Inl e) \<Rightarrow> Some (Inl e)
     | Some (Inr (clds, elems)) \<Rightarrow>
         (case SplitString elems of
            Inl e \<Rightarrow> Some (Inl (NodeRlpError e))
          | Inr (val, _) \<Rightarrow>
              Some (Inr (FullNode (clds @ [if 0 < length val then ValueNode val else NNil])
                \<lparr>nf_hash = hash, nf_dirty = False\<rparr>))))"

definition wrap_result :: "path_elem \<Rightarrow> node nresult \<Rightarrow> node nresult" where
  "wrap_result ctx r =
    (case r of Some (Inl e) \<Rightarrow> Some (Inl (wrapError e ctx)) | _ \<Rightarrow> r)"

primrec decodeNode :: "nat \<Rightarrow> node_decoder" where
  "decodeNode 0 hash buf = None"
| "decodeNode (Suc fuel) hash buf =
    (if length buf = 0 then Some (Inl NodeUnexpectedEOF)
     else case SplitList buf of
            Inl e \<Rightarrow> Some (Inl (NodeNotAList e))
          | Inr (elems, _) \<Rightarrow>
              (let c = (case CountValues elems of Inl e \<Rightarrow> 0 | Inr c \<Rightarrow> c)
               in if c = 2 then wrap_result PathShort (decodeShort (decodeNode fuel) hash elems)
                  else if c = 17 then wrap_result PathFull (decodeFull (decodeNode fuel) hash elems)
                  else Some (Inl (NodeElemCount c))))"

subsection \<open>Enough fuel\<close>

lemma Split_lengths:
  assumes "length buf < 18446744073709551616" "Split buf = Inr (k, c, rest)"
  shows "length rest < length buf" "k = KList \<Longrightarrow> length c < length buf" "length c \<le> length buf"
proof -
  note s = Split_sound [OF assms]
  then show "length rest < length buf" using rlp_value_nonempty [of k c] by auto
  show "length c \<le> length buf" using s length_rlp_value [of c k] by simp
  show "length c < length buf" if "k = KList"
    using s that length_rlp_head_pos by (simp add: rlp_value_def)
qed

lemma decodeRef_total:
  assumes "length buf < 18446744073709551616" "\<And>b. length b \<le> length buf \<Longrightarrow> dec None b \<noteq> None"
  shows "\<exists>r. decodeRef dec buf = Some r \<and> (\<forall>n rest. r = Inr (n, rest) \<longrightarrow> length rest < length buf)"
  using assms(2) [of buf] Split_lengths(1) [OF assms(1)]
  by (auto simp: decodeRef_def Let_def split: sum.splits option.splits prod.splits)

lemma decodeFull_loop_total:
  "length elems < 18446744073709551616 \<Longrightarrow> (\<And>b. length b \<le> length elems \<Longrightarrow> dec None b \<noteq> None) \<Longrightarrow>
    decodeFull_loop k dec elems \<noteq> None"
proof (induction k arbitrary: elems)
  case (Suc k)
  obtain r where r: "decodeRef dec elems = Some r" "\<forall>n rest. r = Inr (n, rest) \<longrightarrow> length rest < length elems"
    using decodeRef_total [OF Suc.prems(1), of dec] Suc.prems(2) by blast
  show ?case
  proof (cases r)
    case (Inr x)
    then have "decodeFull_loop k dec (snd x) \<noteq> None" using r(2) Suc.prems by (intro Suc.IH) (cases x; fastforce)+
    then show ?thesis using r(1) Inr by (cases x) (auto split: option.splits sum.splits)
  qed (use r(1) in simp)
qed simp

lemma wrap_result_None [simp]: "wrap_result ctx r = None \<longleftrightarrow> r = None"
  by (auto simp: wrap_result_def split: option.splits sum.splits)

lemma decodeNode_total:
  "length buf < fuel \<Longrightarrow> length buf < 18446744073709551616 \<Longrightarrow> decodeNode fuel hash buf \<noteq> None"
proof (induction fuel arbitrary: hash buf)
  case (Suc fuel)
  have kid: "decodeShort (decodeNode fuel) hash elems \<noteq> None \<and> decodeFull (decodeNode fuel) hash elems \<noteq> None"
    if e: "length elems < length buf" for elems
  proof
    have l: "length elems < 18446744073709551616" using e Suc.prems(2) by simp
    have dec: "decodeNode fuel None b \<noteq> None" if "length b \<le> length elems" for b
      using that e Suc.prems by (intro Suc.IH) simp_all
    have "decodeRef (decodeNode fuel) rest \<noteq> None" if "SplitString elems = Inr (kbuf, rest)" for kbuf rest
    proof -
      have "length rest < length elems" using that Split_lengths(1) [OF l] by (auto simp: SplitString_def split: sum.splits if_splits)
      then show ?thesis using decodeRef_total [of rest "decodeNode fuel"] dec l by fastforce
    qed
    then show "decodeShort (decodeNode fuel) hash elems \<noteq> None"
      by (auto simp: decodeShort_def Let_def split: sum.splits option.splits)
    show "decodeFull (decodeNode fuel) hash elems \<noteq> None"
      using decodeFull_loop_total [OF l, of "decodeNode fuel" 16] dec by (auto simp: decodeFull_def split: option.splits sum.splits)
  qed
  have "length elems < length buf" if "SplitList buf = Inr (elems, r)" for elems r
    using that Split_lengths(2) [OF Suc.prems(2)] by (auto simp: SplitList_def split: sum.splits if_splits)
  then have "decodeShort (decodeNode fuel) hash elems \<noteq> None \<and> decodeFull (decodeNode fuel) hash elems \<noteq> None"
    if "SplitList buf = Inr (elems, r)" for elems r
    using that kid by blast
  then show ?case by (auto simp: Let_def simp del: not_None_eq split: sum.splits)
qed simp

subsection \<open>Decoding inverts encoding\<close>

text \<open>The node that is loaded for a pure trie: hashed children are hash nodes.\<close>

definition loaded :: "bytes option \<Rightarrow> nodeFlag" where
  "loaded h = \<lparr>nf_hash = h, nf_dirty = False\<rparr>"

definition child_node :: "(bytes \<Rightarrow> bytes) \<Rightarrow> ptrie \<Rightarrow> node \<Rightarrow> node" where
  "child_node K p n =
    (case p of
       PNil \<Rightarrow> n
     | PVal _ \<Rightarrow> n
     | _ \<Rightarrow> if length (penc K p) < 32 then n else HashNode (K (penc K p)))"

fun pnode :: "(bytes \<Rightarrow> bytes) \<Rightarrow> bytes option \<Rightarrow> ptrie \<Rightarrow> node" where
  "pnode K h PNil = NNil"
| "pnode K h (PVal v) = ValueNode v"
| "pnode K h (PShort k p) = ShortNode k (child_node K p (pnode K None p)) (loaded h)"
| "pnode K h (PFull ps) = FullNode (map (\<lambda>p. child_node K p (pnode K None p)) ps) (loaded h)"

lemma penc_list: "inner p \<Longrightarrow> \<exists>c. penc K p = rlp_list c"
  by (cases p) auto

lemma rlp_string_is_value: "\<exists>v. value_ok v \<and> rlp_string b = value_enc v"
  using rlp_string_value [of b] by (metis case_prod_conv)

lemma node_ref_value: "\<exists>v. value_ok v \<and> node_ref K p (penc K p) = value_enc v"
proof -
  have "\<exists>v. value_ok v \<and> rlp_list b = value_enc v" for b
    using rlp_list_value [of b] by (metis case_prod_conv)
  then show ?thesis using rlp_string_is_value by (cases p) (auto simp: node_ref_def)
qed

lemma CountValues_refs:
  assumes "length (concat (map f xs)) < 18446744073709551616" "\<And>x. x \<in> set xs \<Longrightarrow> \<exists>v. value_ok v \<and> f x = value_enc v"
  shows "CountValues (concat (map f xs)) = Inr (length xs)"
proof -
  have "\<forall>x\<in>set xs. \<exists>v. value_ok v \<and> f x = value_enc v" using assms(2) by blast
  then obtain g where g: "\<forall>x\<in>set xs. value_ok (g x) \<and> f x = value_enc (g x)" using bchoice by metis
  then have m: "map f xs = map value_enc (map g xs)" by simp
  show ?thesis
    using CountValues_loop_concat [of "map g xs" 0] g assms(1) unfolding m by (simp add: CountValues_def)
qed

text \<open>\<open>decodes K dec p\<close>: the decoder inverts the encoding of the embedded node \<open>p\<close>.\<close>

definition decodes :: "(bytes \<Rightarrow> bytes) \<Rightarrow> node_decoder \<Rightarrow> ptrie \<Rightarrow> bool" where
  "decodes K dec p \<longleftrightarrow> (length (penc K p) < 32 \<longrightarrow>
    (\<forall>rest. length (penc K p @ rest) < 18446744073709551616 \<longrightarrow> dec None (penc K p @ rest) = Some (Inr (pnode K None p))))"

lemma Split_string: "length (rlp_string c @ rest) < 18446744073709551616 \<Longrightarrow> length c \<noteq> 1 \<Longrightarrow> Split (rlp_string c @ rest) = Inr (KString, c, rest)"
  using Split_complete [of KString c rest] by (auto simp: rlp_string_value canonical_content_def)

lemma decodeRef_node_ref:
  assumes K: "\<And>b. length (K b) = 32" and p: "p = PNil \<or> inner p \<and> decodes K dec p"
    and l: "length (node_ref K p (penc K p) @ rest) < 18446744073709551616"
  shows "decodeRef dec (node_ref K p (penc K p) @ rest) = Some (Inr (child_node K p (pnode K None p), rest))"
proof (cases "p = PNil")
  case True
  then show ?thesis using Split_string [of "[]" rest] l by (simp add: decodeRef_def node_ref_def child_node_def)
next
  case False
  then have i: "inner p" "decodes K dec p" using p by auto
  show ?thesis
  proof (cases "length (penc K p) < 32")
    case True
    obtain c where c: "penc K p = rlp_list c" using penc_list [OF i(1)] by blast
    have r: "node_ref K p (penc K p) = penc K p" using True by (cases p) (simp_all add: node_ref_def)
    have "Split (penc K p @ rest) = Inr (KList, c, rest)"
      using Split_complete [OF rlp_list_value(2), of c rest] l r c by (simp add: rlp_list_value(1))
    moreover have "dec None (penc K p @ rest) = Some (Inr (pnode K None p))"
      using i(2) True l r by (simp add: decodes_def)
    moreover have "child_node K p (pnode K None p) = pnode K None p" using True by (cases p) (simp_all add: child_node_def)
    ultimately show ?thesis using r True by (simp add: decodeRef_def Let_def)
  next
    case False
    have r: "node_ref K p (penc K p) = rlp_string (K (penc K p))" "child_node K p (pnode K None p) = HashNode (K (penc K p))"
      using False i(1) by (cases p; simp add: node_ref_def child_node_def)+
    have "K (penc K p) \<noteq> []" using K [of "penc K p"] by auto
    then show ?thesis using Split_string [of "K (penc K p)" rest] l K r by (simp add: decodeRef_def)
  qed
qed

lemma decodeFull_loop_refs:
  assumes K: "\<And>b. length (K b) = 32"
  shows "\<forall>p\<in>set ps. p = PNil \<or> inner p \<and> decodes K dec p \<Longrightarrow>
    length (concat (map (\<lambda>p. node_ref K p (penc K p)) ps) @ rest) < 18446744073709551616 \<Longrightarrow>
    decodeFull_loop (length ps) dec (concat (map (\<lambda>p. node_ref K p (penc K p)) ps) @ rest) =
      Some (Inr (map (\<lambda>p. child_node K p (pnode K None p)) ps, rest))"
proof (induction ps)
  case (Cons p ps)
  let ?rest = "concat (map (\<lambda>p. node_ref K p (penc K p)) ps) @ rest"
  have "decodeRef dec (node_ref K p (penc K p) @ ?rest) = Some (Inr (child_node K p (pnode K None p), ?rest))"
    using Cons.prems by (intro decodeRef_node_ref K) simp_all
  then show ?case using Cons by simp
qed simp

lemma decodeShort_penc:
  assumes K: "\<And>b. length (K b) = 32" and i: "inner (PShort k p)" and d: "inner p \<Longrightarrow> decodes K dec p"
    and l: "length (rlp_string (the (hexToCompact k)) @ node_ref K p (penc K p)) < 18446744073709551616"
  shows "decodeShort dec h (rlp_string (the (hexToCompact k)) @ node_ref K p (penc K p)) = Some (Inr (pnode K h (PShort k p)))"
proof -
  obtain c where c: "hexToCompact k = Some c" "compactToHex c = k" using inner_hexToCompact [OF i] by blast
  have s: "SplitString (rlp_string c @ node_ref K p (penc K p)) = Inr (c, node_ref K p (penc K p))"
    using SplitString_iff l c(1) by simp
  consider v where "hexkey k" "p = PVal v" | "nibbles k" "inner p" using i by (auto elim: inner_PShortE)
  then show ?thesis
  proof cases
    case (1 v)
    then have "hasTerm k" by (auto simp: hexkey_def)
    moreover have "SplitString (rlp_string v) = Inr (v, [])" using SplitString_iff [of "rlp_string v"] l 1 by (simp add: node_ref_def)
    ultimately show ?thesis using s c 1 by (simp add: decodeShort_def Let_def node_ref_def child_node_def loaded_def)
  next
    case 2
    then have "\<not> hasTerm k" using nibbles_no_term by blast
    moreover have "decodeRef dec (node_ref K p (penc K p) @ []) = Some (Inr (child_node K p (pnode K None p), []))"
      using 2 d l by (intro decodeRef_node_ref K) simp_all
    ultimately show ?thesis using s c by (simp add: decodeShort_def Let_def loaded_def)
  qed
qed

lemma decodeFull_penc:
  assumes K: "\<And>b. length (K b) = 32" and i: "inner (PFull ps)" and d: "\<And>p. p \<in> set ps \<Longrightarrow> inner p \<Longrightarrow> decodes K dec p"
    and l: "length (concat (map (\<lambda>p. node_ref K p (penc K p)) ps)) < 18446744073709551616"
  shows "decodeFull dec h (concat (map (\<lambda>p. node_ref K p (penc K p)) ps)) = Some (Inr (pnode K h (PFull ps)))"
proof -
  have ps: "length ps = 17" "\<forall>i<16. ps ! i = PNil \<or> inner (ps ! i)" "ps ! 16 = PNil \<or> (\<exists>v. v \<noteq> [] \<and> ps ! 16 = PVal v)"
    using i by (auto elim: inner_PFullE)
  let ?r = "\<lambda>p. node_ref K p (penc K p)"
  have split: "ps = take 16 ps @ [ps ! 16]" using take_Suc_conv_app_nth [of 16 ps] ps(1) by simp
  have e: "concat (map ?r ps) = concat (map ?r (take 16 ps)) @ ?r (ps ! 16)"
    by (subst split) simp
  have "ps ! i = PNil \<or> inner (ps ! i) \<and> decodes K dec (ps ! i)" if "i < 16" for i
    using ps(1,2) d [of "ps ! i"] that by auto
  then have "\<forall>p\<in>set (take 16 ps). p = PNil \<or> inner p \<and> decodes K dec p"
    using ps(1) by (auto simp: all_set_conv_all_nth)
  then have loop: "decodeFull_loop 16 dec (concat (map ?r ps)) = Some (Inr (map (\<lambda>p. child_node K p (pnode K None p)) (take 16 ps), ?r (ps ! 16)))"
    using decodeFull_loop_refs [where K = K and ps = "take 16 ps" and dec = dec and rest = "?r (ps ! 16)"] K l ps(1) unfolding e by simp
  have "SplitString (rlp_string v) = Inr (v, [])" if "?r (ps ! 16) = rlp_string v" for v
    using SplitString_iff [of "rlp_string v" v "[]"] l that unfolding e by simp
  then have "\<exists>v. SplitString (?r (ps ! 16)) = Inr (v, []) \<and>
      (if 0 < length v then ValueNode v else NNil) = child_node K (ps ! 16) (pnode K None (ps ! 16))"
    using ps(3) by (auto simp: node_ref_def child_node_def)
  then show ?thesis
    using loop by (subst (2) split) (auto simp: decodeFull_def loaded_def)
qed

lemma decodeNode_penc:
  "inner p \<Longrightarrow> (\<And>b. length (K b) = 32) \<Longrightarrow> sized K p \<Longrightarrow> length (penc K p) < fuel \<Longrightarrow>
    length (penc K p @ rest) < 18446744073709551616 \<Longrightarrow> decodeNode fuel h (penc K p @ rest) = Some (Inr (pnode K h p))"
proof (induction fuel arbitrary: p h rest)
  case (Suc fuel)
  note K = Suc.prems(2)
  obtain c where c: "penc K p = rlp_list c"
    "\<And>k q. p = PShort k q \<Longrightarrow> c = rlp_string (the (hexToCompact k)) @ node_ref K q (penc K q)"
    "\<And>ps. p = PFull ps \<Longrightarrow> c = concat (map (\<lambda>p. node_ref K p (penc K p)) ps)"
    using Suc.prems(1) by (cases p) auto
  have s: "SplitList (penc K p @ rest) = Inr (c, rest)" using SplitList_iff Suc.prems(5) c by simp
  have ne: "penc K p \<noteq> []" unfolding c using length_rlp_head_pos by (auto simp: rlp_list_def)
  have lc: "length c < length (penc K p)" unfolding c using length_rlp_head_pos by (simp add: rlp_list_def)
  then have l64: "length c < 18446744073709551616" using Suc.prems(5) by simp
  have dec: "decodes K (decodeNode fuel) q" if q: "inner q" "sized K q" "length (node_ref K q (penc K q)) \<le> length c" for q
    unfolding decodes_def
  proof (intro impI allI)
    fix rest assume r: "length (penc K q) < 32" "length (penc K q @ rest) < 18446744073709551616"
    have "node_ref K q (penc K q) = penc K q" using r(1) by (cases q) (simp_all add: node_ref_def)
    then show "decodeNode fuel None (penc K q @ rest) = Some (Inr (pnode K None q))"
      using q r lc Suc.prems(4) by (intro Suc.IH K) simp_all
  qed
  have step: "decodeNode (Suc fuel) h (penc K p @ rest) =
      (let n = (case CountValues c of Inl e \<Rightarrow> 0 | Inr n \<Rightarrow> n)
       in if n = 2 then wrap_result PathShort (decodeShort (decodeNode fuel) h c)
          else if n = 17 then wrap_result PathFull (decodeFull (decodeNode fuel) h c)
          else Some (Inl (NodeElemCount n)))"
    using ne s by simp
  show ?case
  proof (cases p)
    case (PShort k q)
    let ?xs = "[rlp_string (the (hexToCompact k)), node_ref K q (penc K q)]"
    have "CountValues (concat (map (\<lambda>b. b) ?xs)) = Inr (length ?xs)"
    proof (rule CountValues_refs)
      show "length (concat (map (\<lambda>b. b) ?xs)) < 18446744073709551616" using l64 c(2) [OF PShort] by simp
      show "\<exists>v. value_ok v \<and> x = value_enc v" if "x \<in> set ?xs" for x
        using that rlp_string_is_value [of "the (hexToCompact k)"] node_ref_value [of K q] by (simp only: set_simps) blast
    qed
    then have "CountValues c = Inr 2" using c(2) [OF PShort] by simp
    moreover have "decodeShort (decodeNode fuel) h c = Some (Inr (pnode K h p))"
      using l64 Suc.prems(1,3) dec unfolding c(2) [OF PShort] PShort by (intro decodeShort_penc K) simp_all
    ultimately show ?thesis using step by (simp add: wrap_result_def)
  next
    case (PFull ps)
    note cf = c(3) [OF PFull]
    have l17: "length ps = 17" using Suc.prems(1) PFull by (auto elim: inner_PFullE)
    have "CountValues c = Inr (length ps)"
      using l64 node_ref_value unfolding cf by (intro CountValues_refs) auto
    moreover have "length (node_ref K q (penc K q)) \<le> length c" if "q \<in> set ps" for q
      using that unfolding cf by (auto simp: length_concat intro!: member_le_sum_list)
    then have "decodeFull (decodeNode fuel) h c = Some (Inr (pnode K h p))"
      using l64 Suc.prems(1,3) dec unfolding cf PFull by (intro decodeFull_penc K) auto
    ultimately show ?thesis using step l17 by (simp add: wrap_result_def)
  qed (use Suc.prems(1) in simp_all)
qed simp

subsection \<open>Loading a trie from its encoded nodes\<close>

fun subnodes :: "ptrie \<Rightarrow> ptrie set" where
  "subnodes (PShort k p) = insert (PShort k p) (subnodes p)"
| "subnodes (PFull ps) = insert (PFull ps) (\<Union>p\<in>set ps. subnodes p)"
| "subnodes p = {}"

lemma subnodes_self: "inner p \<Longrightarrow> p \<in> subnodes p"
  by (cases p) auto

text \<open>\<open>db_has K db p\<close>: the database returns the loaded form of every hashed node of \<open>p\<close>.\<close>

definition db_has :: "(bytes \<Rightarrow> bytes) \<Rightarrow> node_db \<Rightarrow> ptrie \<Rightarrow> bool" where
  "db_has K db p \<longleftrightarrow> (\<forall>q\<in>subnodes p. 32 \<le> length (penc K q) \<longrightarrow>
    db (K (penc K q)) = Some (pnode K (Some (K (penc K q))) q))"

lemma stored_pnode: "inner p \<Longrightarrow> stored (pnode K h p)"
  by (cases p) (auto simp: stored_def)

lemma own_hash_pnode: "inner p \<Longrightarrow> own_hash (pnode K h p) = h"
  by (cases p) (auto simp: loaded_def)

lemma rep_child_node:
  assumes K: "\<And>b. length (K b) = 32" and i: "inner p" and r: "\<And>h. rep (hash_ok K) db (pnode K h p) p" and d: "db_has K db p"
  shows "rep (hash_ok K) db (child_node K p (pnode K None p)) p \<and> hash_fits (hash_ok K False) (child_node K p (pnode K None p)) p"
proof (cases "length (penc K p) < 32")
  case True
  then have "child_node K p (pnode K None p) = pnode K None p" by (cases p) (simp_all add: child_node_def)
  then show ?thesis using r own_hash_pnode [OF i, of K None] by auto
next
  case False
  let ?h = "K (penc K p)"
  have c: "child_node K p (pnode K None p) = HashNode ?h" using False i by (cases p) (simp_all add: child_node_def)
  have "db (BytesToHash ?h) = Some (pnode K (Some ?h) p)"
    using d subnodes_self [OF i] False K by (simp add: db_has_def BytesToHash_id)
  then have "rep (hash_ok K) db (HashNode ?h) p"
    by (rule rep.hash) (use stored_pnode [OF i] own_hash_pnode [OF i, of K] r in \<open>auto simp: keeps_def\<close>)
  then show ?thesis unfolding c using False by (simp add: hash_fits_def hash_ok_def)
qed

lemma rep_pnode: "inner p \<Longrightarrow> (\<And>b. length (K b) = 32) \<Longrightarrow> db_has K db p \<Longrightarrow> rep (hash_ok K) db (pnode K h p) p"
proof (induction p arbitrary: h rule: inner.induct)
  case (leaf k v)
  then show ?case by (auto simp: child_node_def intro!: rep.intros)
next
  case (ext k cs)
  have d: "db_has K db (PFull cs)" using ext.prems(2) by (simp add: db_has_def)
  have r: "rep (hash_ok K) db (pnode K h (PFull cs)) (PFull cs)" for h using ext.IH ext.prems(1) d by blast
  show ?case using rep_child_node [OF ext.prems(1) ext.hyps(3) r d] unfolding pnode.simps(3) by (intro rep.short) blast+
next
  case (full cs)
  have "rep (hash_ok K) db (child_node K (cs ! i) (pnode K None (cs ! i))) (cs ! i) \<and>
      hash_fits (hash_ok K False) (child_node K (cs ! i) (pnode K None (cs ! i))) (cs ! i)" if "i < 17" for i
  proof -
    have d: "db_has K db (cs ! i)" using full.prems(2) full.hyps(1) that by (auto simp: db_has_def)
    consider "cs ! i = PNil" | v where "cs ! i = PVal v" | "i < 16" "inner (cs ! i)"
      using full.IH full.hyps(2) \<open>i < 17\<close> by (metis less_antisym numeral_eq_Suc pred_numeral_simps(3) BitM.simps(1))
    then show ?thesis
    proof cases
      case 3
      then have "rep (hash_ok K) db (pnode K h (cs ! i)) (cs ! i)" for h using full.IH full.prems(1) d by auto
      then show ?thesis by (intro rep_child_node full.prems(1) 3(2) d)
    qed (auto simp: child_node_def)
  qed
  then show ?case unfolding pnode.simps using full.hyps(1) by (intro rep.full) simp_all
qed

subsection \<open>The root hash binds the content\<close>

lemma child_node_inj:
  assumes eq: "child_node K c (pnode K None c) = child_node K d (pnode K None d)"
    and c: "c = PNil \<or> (\<exists>v. c = PVal v) \<or> inner c" and d: "d = PNil \<or> (\<exists>v. d = PVal v) \<or> inner d"
    and rec: "inner c \<Longrightarrow> inner d \<Longrightarrow> pnode K None c = pnode K None d \<Longrightarrow> c = d"
    and inj: "inner c \<Longrightarrow> inner d \<Longrightarrow> K (penc K c) = K (penc K d) \<Longrightarrow> pnode K None c = pnode K None d"
  shows "c = d"
proof (cases "inner c \<and> inner d")
  case True
  then have ch: "child_node K x (pnode K None x) = (if length (penc K x) < 32 then pnode K None x else HashNode (K (penc K x)))"
    if "x = c \<or> x = d" for x
    using that by (cases x) (auto simp: child_node_def)
  have nh: "pnode K None x \<noteq> HashNode h" if "x = c \<or> x = d" for x h
    using that True by (cases x) auto
  show ?thesis using eq ch [of c] ch [of d] nh [of c] nh [of d] nh [of d, symmetric] rec inj True by (auto split: if_splits)
next
  case False
  have n: "child_node K x (pnode K None x) \<noteq> NNil \<and> (\<forall>v. child_node K x (pnode K None x) \<noteq> ValueNode v)" if "inner x" for x
    using that by (cases x) (auto simp: child_node_def)
  have l: "child_node K PNil m = m" "child_node K (PVal v) m = m" for v m by (simp_all add: child_node_def)
  show ?thesis using False c d eq n [of c] n [of d] by (auto simp: l dest: sym)
qed

lemma decode_inj:
  assumes "\<And>b. length (K b) = 32" "inner p" "inner q" "sized K p" "sized K q" "penc K p = penc K q"
  shows "pnode K h p = pnode K h q"
proof -
  have "length (penc K p) < 18446744073709551616" using assms(2,4) by (cases p) auto
  then have "decodeNode (Suc (length (penc K p))) h (penc K x) = Some (Inr (pnode K h x))" if "x = p \<or> x = q" for x
    using decodeNode_penc [of x K "Suc (length (penc K p))" "[]" h] assms that by auto
  from this [of p] this [of q] show ?thesis using assms(6) by simp
qed

definition no_collision :: "(bytes \<Rightarrow> bytes) \<Rightarrow> ptrie \<Rightarrow> ptrie \<Rightarrow> bool" where
  "no_collision K p q \<longleftrightarrow> inj_on K (penc K ` (subnodes p \<union> subnodes q))"

lemma sized_child: "sized K (PFull ps) \<Longrightarrow> p \<in> set ps \<Longrightarrow> sized K p"
  by simp

lemma inner_PFull_child: "inner (PFull ps) \<Longrightarrow> p \<in> set ps \<Longrightarrow> p = PNil \<or> (\<exists>v. p = PVal v) \<or> inner p"
proof (erule inner_PFullE)
  assume ps: "p \<in> set ps" "length ps = 17" "\<forall>i<16. ps ! i = PNil \<or> inner (ps ! i)"
    "ps ! 16 = PNil \<or> (\<exists>v. v \<noteq> [] \<and> ps ! 16 = PVal v)"
  then obtain i where "i < 17" "p = ps ! i" by (auto simp: in_set_conv_nth)
  moreover have "i = 16 \<or> i < 16" using \<open>i < 17\<close> by linarith
  ultimately show ?thesis using ps by auto
qed

lemma pnode_inj:
  assumes K: "\<And>b. length (K b) = 32"
  shows "inner p \<Longrightarrow> inner q \<Longrightarrow> sized K p \<Longrightarrow> sized K q \<Longrightarrow> no_collision K p q \<Longrightarrow> pnode K None p = pnode K None q \<Longrightarrow> p = q"
proof (induction p arbitrary: q)
  case (PShort k c)
  obtain d where q: "q = PShort k d" "child_node K c (pnode K None c) = child_node K d (pnode K None d)"
    using PShort.prems(2,6) by (cases q) auto
  have "c = d"
  proof (rule child_node_inj [OF q(2)])
    show "c = PNil \<or> (\<exists>v. c = PVal v) \<or> inner c" "d = PNil \<or> (\<exists>v. d = PVal v) \<or> inner d"
      using PShort.prems(1,2) q(1) by (auto elim: inner_PShortE)
    have nc: "no_collision K c d" using PShort.prems(5) q(1) by (auto simp: no_collision_def intro: inj_on_subset)
    show "c = d" if "inner c" "inner d" "pnode K None c = pnode K None d"
      using PShort.IH [OF that(1,2) _ _ nc that(3)] PShort.prems(3,4) q(1) by simp
    show "pnode K None c = pnode K None d" if "inner c" "inner d" "K (penc K c) = K (penc K d)"
    proof (rule decode_inj [OF K that(1,2)])
      show "penc K c = penc K d"
        using nc that subnodes_self by (auto simp: no_collision_def dest: inj_onD)
    qed (use PShort.prems(3,4) q(1) in simp_all)
  qed
  then show ?case using q(1) by simp
next
  case (PFull cs)
  obtain ds where q: "q = PFull ds" "map (\<lambda>p. child_node K p (pnode K None p)) cs = map (\<lambda>p. child_node K p (pnode K None p)) ds"
    using PFull.prems(2,6) by (cases q) auto
  have l: "length cs = length ds" using q(2) map_eq_imp_length_eq by blast
  have "cs ! i = ds ! i" if i: "i < length cs" for i
  proof (rule child_node_inj [where K = K])
    have m: "cs ! i \<in> set cs" "ds ! i \<in> set ds" using i l by auto
    show "child_node K (cs ! i) (pnode K None (cs ! i)) = child_node K (ds ! i) (pnode K None (ds ! i))"
      using arg_cong [OF q(2), of "\<lambda>xs. xs ! i"] i l by simp
    show "cs ! i = PNil \<or> (\<exists>v. cs ! i = PVal v) \<or> inner (cs ! i)" "ds ! i = PNil \<or> (\<exists>v. ds ! i = PVal v) \<or> inner (ds ! i)"
      using inner_PFull_child m PFull.prems(1,2) q(1) by blast+
    have nc: "no_collision K (cs ! i) (ds ! i)"
      using PFull.prems(5) q(1) m by (auto simp: no_collision_def intro: inj_on_subset)
    show "cs ! i = ds ! i" if "inner (cs ! i)" "inner (ds ! i)" "pnode K None (cs ! i) = pnode K None (ds ! i)"
      using PFull.IH [OF m(1) that(1,2) _ _ nc that(3)] PFull.prems(3,4) q(1) m by simp
    show "pnode K None (cs ! i) = pnode K None (ds ! i)" if "inner (cs ! i)" "inner (ds ! i)" "K (penc K (cs ! i)) = K (penc K (ds ! i))"
    proof (rule decode_inj [OF K that(1,2)])
      show "penc K (cs ! i) = penc K (ds ! i)"
        using nc that subnodes_self by (auto simp: no_collision_def dest: inj_onD)
    qed (use PFull.prems(3,4) q(1) m in simp_all)
  qed
  then show ?case using l q(1) by (simp add: list_eq_iff_nth_eq)
qed simp_all

lemma map_ptrie_sized:
  "map_ptrie m p \<Longrightarrow> map_sized m \<Longrightarrow> (\<And>b. length (K b) = 32) \<Longrightarrow> inner p \<Longrightarrow> sized K p"
  unfolding map_ptrie_def by (intro inner_sized trie_rep_ptrie_sized) auto

text \<open>The encodings that a root hash of the map depends on.\<close>

definition map_encodings :: "(bytes \<Rightarrow> bytes) \<Rightarrow> (bytes \<Rightarrow> bytes option) \<Rightarrow> bytes set" where
  "map_encodings K m = insert (penc K PNil) {penc K q |p q. map_ptrie m p \<and> q \<in> subnodes p}"

lemma root_hash_inj:
  assumes K: "\<And>b. length (K b) = 32" and e: "emptyRoot = K (penc K PNil)"
    and m: "map_ptrie m p" "map_ptrie m' q" "map_sized m" "map_sized m'"
    and h: "root_hash K p = root_hash K q" and inj: "inj_on K (map_encodings K m \<union> map_encodings K m')"
  shows "p = q"
proof -
  have r: "root_hash K x = K (penc K x)" for x using e by (auto simp: root_hash_def)
  have c: "p = PNil \<or> inner p" "q = PNil \<or> inner q" using m by (auto simp: map_ptrie_def canon_def)
  have mem: "penc K p \<in> map_encodings K m" "penc K q \<in> map_encodings K m'"
    using c m(1,2) subnodes_self by (auto simp: map_encodings_def)
  then have pq: "penc K p = penc K q" using inj h unfolding r by (auto dest: inj_onD)
  have head: "penc K x \<noteq> penc K PNil" if i: "inner x" "sized K x" for x
  proof
    assume eq: "penc K x = penc K PNil"
    obtain b where b: "penc K x = rlp_list b" using penc_list [OF i(1)] by blast
    have "length (penc K x) < 18446744073709551616" using i by (cases x) auto
    then have "SplitList (penc K x) = Inr (b, [])" "SplitString (penc K x) = Inr ([], [])"
      using SplitList_iff b SplitString_iff eq by simp_all
    then show False by (auto simp: SplitList_def SplitString_def split: sum.splits if_splits)
  qed
  show ?thesis
  proof (cases "inner p \<and> inner q")
    case True
    then have s: "sized K p" "sized K q" using map_ptrie_sized m K by blast+
    have "penc K ` (subnodes p \<union> subnodes q) \<subseteq> map_encodings K m \<union> map_encodings K m'"
      using m(1,2) by (auto simp: map_encodings_def)
    then have "no_collision K p q" unfolding no_collision_def by (rule inj_on_subset [OF inj])
    then show ?thesis using pnode_inj [OF K _ _ s] decode_inj [OF K _ _ s pq] True by blast
  next
    case False
    then show ?thesis using c pq head [of p] head [of q] map_ptrie_sized m K by metis
  qed
qed

text \<open>
  C32. Decoding a node that was encoded for hashing gives back the node: keys are expanded
  from their compact form, nodes embedded in their parent are decoded in place, and
  hashed children become hash nodes. The depth of the recursion is bounded by the length
  of the data.
\<close>

theorem decodeNode_roundtrip:
  assumes "\<forall>b. length (keccak b) = 32" and "map_ptrie m p" and "map_sized m" and "p \<noteq> PNil"
    and "length (penc keccak p) < fuel"
  shows "decodeNode fuel hash (penc keccak p) = Some (Inr (pnode keccak hash p))"
proof -
  have i: "inner p" using assms(2,4) by (simp add: map_ptrie_def canon_def)
  have s: "sized keccak p" using map_ptrie_sized [OF assms(2,3) _ i] assms(1) by blast
  then have "length (penc keccak p) < 18446744073709551616" using i by (cases p) auto
  then show ?thesis using decodeNode_penc [OF i _ s assms(5), of "[]"] assms(1) by simp
qed

lemma map_ptrie_single:
  assumes "v \<noteq> []"
  shows "map_ptrie (put_map (\<lambda>_. None) key v) (PShort (keybytesToHex key) (PVal v))"
  unfolding map_ptrie_def
proof (intro conjI allI impI)
  let ?p = "PShort (keybytesToHex key) (PVal v)"
  have i: "inner ?p" using assms by (intro inner.leaf) simp_all
  then show "canon ?p" by (simp add: canon_def)
  have l: "pget ?p k = (if k = keybytesToHex key then Some v else None)" if "hexkey k" for k
    using pget_leaf [OF keybytesToHex_hexkey that] .
  show "put_map (\<lambda>_. None) key v k = pget ?p (keybytesToHex k)" for k
    using assms l [of "keybytesToHex k"] by (simp add: put_map_def del: pget.simps)
  show "k \<in> range keybytesToHex" if "hexkey k" "pget ?p k = Some w" for k w
    using that(2) l [OF that(1)] by (auto simp del: pget.simps split: if_splits)
qed

theorem decodeNode_roundtrip_witness:
  "\<exists>fuel. decodeNode fuel None (penc (\<lambda>_. replicate 32 0) (PShort (keybytesToHex [0x42]) (PVal [7]))) =
    Some (Inr (ShortNode (keybytesToHex [0x42]) (ValueNode [7]) \<lparr>nf_hash = None, nf_dirty = False\<rparr>))"
proof -
  let ?p = "PShort (keybytesToHex [0x42]) (PVal [7])" and ?K = "\<lambda>_ :: bytes. replicate 32 (0 :: byte)"
  have "map_ptrie (put_map (\<lambda>_. None) [0x42] [7]) ?p" by (rule map_ptrie_single) simp
  moreover have "map_sized (put_map (\<lambda>_. None) [0x42] [7])" by (auto simp: map_sized_def put_map_def)
  ultimately have "decodeNode (Suc (length (penc ?K ?p))) None (penc ?K ?p) = Some (Inr (pnode ?K None ?p))"
    by (intro decodeNode_roundtrip) simp_all
  moreover have "pnode ?K None ?p = ShortNode (keybytesToHex [0x42]) (ValueNode [7]) \<lparr>nf_hash = None, nf_dirty = False\<rparr>"
    by (simp add: child_node_def loaded_def)
  ultimately show ?thesis by metis
qed

text \<open>
  C13. The root hash binds the content. If two tries with different maps have the same
  root hash, then the hash function collides on two different node encodings of these
  very tries. (The hypothesis on \<open>emptyRoot\<close> is that the constant of the source is the
  hash of the encoding of the empty trie.)
\<close>

theorem Hash_binding:
  assumes "\<forall>b. length (keccak b) = 32" and "emptyRoot = keccak (penc keccak PNil)"
    and "trie_rep (hash_ok keccak) db t m" and "trie_rep (hash_ok keccak) db' t' m'"
    and "map_sized m" and "map_sized m'"
    and "map_option fst (trie_Hash keccak t) = map_option fst (trie_Hash keccak t')" and "m \<noteq> m'"
  shows "\<exists>a b. a \<in> map_encodings keccak m \<union> map_encodings keccak m' \<and> b \<in> map_encodings keccak m \<union> map_encodings keccak m' \<and>
    a \<noteq> b \<and> keccak a = keccak b"
proof (rule ccontr)
  assume "\<not> ?thesis"
  then have inj: "inj_on keccak (map_encodings keccak m \<union> map_encodings keccak m')" unfolding inj_on_def by blast
  obtain p q where p: "map_ptrie m p" "map_option fst (trie_Hash keccak t) = Some (root_hash keccak p)"
    and q: "map_ptrie m' q" "map_option fst (trie_Hash keccak t') = Some (root_hash keccak q)"
    using Hash_sim [of keccak db t _ m] Hash_sim [of keccak db' t' _ m'] assms(1,3-6) by (fastforce simp: trie_rep_map_ptrie)
  then have "p = q" using root_hash_inj [OF _ assms(2) p(1) q(1) assms(5,6) _ inj] assms(1,7) by simp
  then show False using p(1) q(1) assms(8) unfolding map_ptrie_def by auto
qed

theorem Hash_binding_witness:
  "\<exists>t. trie_rep (hash_ok (\<lambda>_. emptyRoot)) (\<lambda>_. None) t (put_map (\<lambda>_. None) [0x42] [7]) \<and>
    (\<exists>a b. a \<in> map_encodings (\<lambda>_. emptyRoot) (\<lambda>_. None) \<union> map_encodings (\<lambda>_. emptyRoot) (put_map (\<lambda>_. None) [0x42] [7]) \<and>
      b \<in> map_encodings (\<lambda>_. emptyRoot) (\<lambda>_. None) \<union> map_encodings (\<lambda>_. emptyRoot) (put_map (\<lambda>_. None) [0x42] [7]) \<and> a \<noteq> b)"
proof -
  let ?K = "\<lambda>_ :: bytes. emptyRoot" and ?db = "\<lambda>_ :: bytes. None :: node option" and ?m = "put_map (\<lambda>_. None) [0x42 :: byte] [7 :: byte]"
  let ?e = "\<lparr>t_root = NNil, t_unhashed = 0\<rparr>"
  have K: "\<forall>b. length (?K b) = 32" by (simp add: emptyRoot_def)
  have e: "trie_rep (hash_ok ?K) ?db ?e (\<lambda>_. None)" by (rule empty_rep)
  then obtain t where t: "trie_rep (hash_ok ?K) ?db t ?m" using update_returns_rep by blast
  have s: "map_sized (\<lambda>_. None)" "map_sized ?m" by (auto simp: map_sized_def put_map_def)
  have h: "map_option fst (trie_Hash ?K t') = Some emptyRoot" if "trie_rep (hash_ok ?K) ?db t' m" "map_sized m" for t' m
    using Hash_sim [of ?K ?db t' _ m] that K by (fastforce simp: trie_rep_map_ptrie root_hash_def)
  have "?m [0x42] \<noteq> None" by (simp add: put_map_def)
  then have "(\<lambda>_. None) \<noteq> ?m" by metis
  from Hash_binding [OF K refl e t s _ this] h [OF e s(1)] h [OF t s(2)] t show ?thesis by auto
qed

end
