(* ===== verification/Trie_Secure.thy ===== *)
theory Trie_Secure
  imports Trie_Hash
begin

section \<open>The secure trie\<close>

text \<open>
  \<open>src/trie/secure_trie.go\<close>: a trie whose keys are hashed. The hash function, the node
  database and the fuel of the trie functions are arguments. \<open>st_owner\<close> says that the key
  cache belongs to this trie, which is so when \<open>secKeyCacheOwner\<close> points to the trie itself.
\<close>

record secure_trie =
  st_trie :: trie
  st_keys :: "bytes \<rightharpoonup> bytes"
  st_owner :: bool

definition NewSecure :: "bytes \<Rightarrow> node_db \<Rightarrow> trie_err + secure_trie" where
  "NewSecure root db =
    (case New root db of
       Inl e \<Rightarrow> Inl e
     | Inr t \<Rightarrow> Inr \<lparr>st_trie = t, st_keys = Map.empty, st_owner = False\<rparr>)"

definition getSecKeyCache :: "secure_trie \<Rightarrow> secure_trie" where
  "getSecKeyCache t = (if \<not> st_owner t then t\<lparr>st_owner := True, st_keys := Map.empty\<rparr> else t)"

definition secure_TryGet ::
  "nat \<Rightarrow> (bytes \<Rightarrow> bytes) \<Rightarrow> node_db \<Rightarrow> secure_trie \<Rightarrow> bytes \<Rightarrow> ((trie_err + bytes option) \<times> secure_trie) option" where
  "secure_TryGet fuel K db t key =
    map_option (\<lambda>(r, tr). (r, t\<lparr>st_trie := tr\<rparr>)) (TryGet fuel db (st_trie t) (K key))"

definition secure_TryUpdate ::
  "nat \<Rightarrow> (bytes \<Rightarrow> bytes) \<Rightarrow> node_db \<Rightarrow> secure_trie \<Rightarrow> bytes \<Rightarrow> bytes \<Rightarrow> (trie_err option \<times> secure_trie) option" where
  "secure_TryUpdate fuel K db t key value =
    (case TryUpdate fuel db (st_trie t) (K key) value of
       None \<Rightarrow> None
     | Some (Some e, tr) \<Rightarrow> Some (Some e, t\<lparr>st_trie := tr\<rparr>)
     | Some (None, tr) \<Rightarrow>
         (let t = getSecKeyCache (t\<lparr>st_trie := tr\<rparr>)
          in Some (None, t\<lparr>st_keys := (st_keys t)(K key \<mapsto> key)\<rparr>)))"

definition secure_TryDelete ::
  "nat \<Rightarrow> (bytes \<Rightarrow> bytes) \<Rightarrow> node_db \<Rightarrow> secure_trie \<Rightarrow> bytes \<Rightarrow> (trie_err option \<times> secure_trie) option" where
  "secure_TryDelete fuel K db t key =
    (let t = getSecKeyCache t; t = t\<lparr>st_keys := (st_keys t)(K key := None)\<rparr>
     in map_option (\<lambda>(e, tr). (e, t\<lparr>st_trie := tr\<rparr>)) (TryDelete fuel db (st_trie t) (K key)))"

text \<open>\<open>GetKey\<close>; the preimages of the node database are an argument.\<close>

definition secure_GetKey :: "(bytes \<Rightarrow> bytes option) \<Rightarrow> secure_trie \<Rightarrow> bytes \<Rightarrow> bytes option \<times> secure_trie" where
  "secure_GetKey preimage t shaKey =
    (let t = getSecKeyCache t
     in (case st_keys t shaKey of Some key \<Rightarrow> Some key | None \<Rightarrow> preimage (BytesToHash shaKey), t))"

definition secure_Copy :: "secure_trie \<Rightarrow> secure_trie" where
  "secure_Copy t = t\<lparr>st_owner := False\<rparr>"

subsection \<open>Lookups do not interfere\<close>

text \<open>
  \<open>wf_node\<close>: every short node has a key. \<open>wf_node_db\<close>: the database holds well-formed nodes
  that are not hashes.
\<close>

fun wf_node :: "node \<Rightarrow> bool" where
  "wf_node (ShortNode k n f) \<longleftrightarrow> k \<noteq> [] \<and> wf_node n"
| "wf_node (FullNode ns f) \<longleftrightarrow> (\<forall>n\<in>set ns. wf_node n)"
| "wf_node n \<longleftrightarrow> True"

definition is_HashNode :: "node \<Rightarrow> bool" where
  "is_HashNode n \<longleftrightarrow> (case n of HashNode h \<Rightarrow> True | _ \<Rightarrow> False)"

definition wf_node_db :: "node_db \<Rightarrow> bool" where
  "wf_node_db db \<longleftrightarrow> (\<forall>h n. db h = Some n \<longrightarrow> wf_node n \<and> \<not> is_HashNode n)"

lemma wf_resolve: "wf_node_db db \<Longrightarrow> resolveHash db h pfx = Inr n \<Longrightarrow> wf_node n \<and> \<not> is_HashNode n"
  by (auto simp: wf_node_db_def resolveHash_def split: option.splits)

lemma is_HashNode_simps [simp]: "\<not> is_HashNode NNil" "\<not> is_HashNode (ValueNode v)" "\<not> is_HashNode (ShortNode k n f)"
  "\<not> is_HashNode (FullNode ns f)" "is_HashNode (HashNode h)"
  by (simp_all add: is_HashNode_def)

text \<open>A lookup ends: each short or full node consumes a part of the key, and no hash leads to a hash.\<close>

lemma tryGet_total:
  assumes "wf_node_db db" "wf_node n" "2 * (length key - pos) + (if is_HashNode n then 2 else 1) \<le> fuel"
  shows "\<exists>r. tryGet fuel db n key pos = Some r"
  using assms(2,3)
proof (induction fuel arbitrary: n pos)
  case 0
  then show ?case by (simp split: if_splits)
next
  case (Suc fuel)
  show ?case
  proof (cases n)
    case (ShortNode k c f)
    show ?thesis
    proof (cases "length key - pos < length k \<or> k \<noteq> go_slice key pos (pos + length k)")
      case False
      have "1 \<le> length k" "wf_node c" using Suc.prems(1) ShortNode by (cases k; simp)+
      moreover have "2 * (length key - pos) \<le> fuel" "length k \<le> length key - pos"
        using Suc.prems(2) False ShortNode by simp_all
      then have "2 * (length key - (pos + length k)) + 2 \<le> fuel" using \<open>1 \<le> length k\<close> by linarith
      ultimately obtain r where "tryGet fuel db c key (pos + length k) = Some r"
        using Suc.IH [of c "pos + length k"] by (fastforce split: if_splits)
      then show ?thesis using False ShortNode by (auto simp: bind_res_def split: sum.splits)
    qed (simp add: ShortNode)
  next
    case (FullNode ns f)
    show ?thesis
    proof (cases "length key \<le> pos \<or> length ns \<le> unat (key ! pos)")
      case False
      have "wf_node (ns ! unat (key ! pos))" using Suc.prems(1) FullNode False by simp
      moreover have "2 * (length key - pos) \<le> fuel" "pos < length key" using Suc.prems(2) False FullNode by simp_all
      then have "2 * (length key - (pos + 1)) + 2 \<le> fuel" by linarith
      ultimately obtain r where "tryGet fuel db (ns ! unat (key ! pos)) key (pos + 1) = Some r"
        using Suc.IH [of "ns ! unat (key ! pos)" "pos + 1"] by (fastforce split: if_splits)
      then show ?thesis using False FullNode by (auto simp: bind_res_def Let_def split: sum.splits)
    qed (auto simp: FullNode)
  next
    case (HashNode h)
    show ?thesis
    proof (cases "resolveHash db h (take pos key)")
      case (Inr c)
      then obtain r where "tryGet fuel db c key pos = Some r"
        using Suc.IH [of c pos] Suc.prems(2) HashNode wf_resolve [OF assms(1) Inr] by fastforce
      then show ?thesis using Inr HashNode by (auto simp: bind_res_def split: sum.splits)
    qed (simp add: HashNode)
  qed simp_all
qed

lemma bind_res_Some: "bind_res r f = Some x \<longleftrightarrow> (\<exists>e. r = Some (Inl e) \<and> x = Inl e) \<or> (\<exists>y. r = Some (Inr y) \<and> f y = Some x)"
  by (auto simp: bind_res_def split: option.splits sum.splits)

lemma bind_res_mono: "bind_res r f = Some x \<Longrightarrow> (\<And>y. r = Some y \<Longrightarrow> r' = Some y) \<Longrightarrow> bind_res r' f = Some x"
  by (auto simp: bind_res_Some)

lemma tryGet_mono: "tryGet fuel db n key pos = Some r \<Longrightarrow> tryGet (Suc fuel) db n key pos = Some r"
proof (induction fuel arbitrary: n pos r)
  case 0
  then show ?case by simp
next
  case (Suc fuel)
  note p = Suc.prems [unfolded tryGet.simps(2) [of fuel]]
  note step = tryGet.simps(2) [of "Suc fuel"]
  note IH = bind_res_mono [OF _ Suc.IH]
  show ?case
  proof (cases n)
    case (ShortNode k c f)
    then show ?thesis using p unfolding step by (auto simp del: tryGet.simps(2) split: if_splits intro: IH)
  next
    case (FullNode ns f)
    then show ?thesis using p unfolding step by (auto simp: Let_def simp del: tryGet.simps(2) split: if_splits intro: IH)
  next
    case (HashNode h)
    then show ?thesis using p unfolding step by (auto simp del: tryGet.simps(2) split: sum.splits intro: IH)
  qed (use p in \<open>simp_all add: step del: tryGet.simps(2)\<close>)
qed

text \<open>
  The node a lookup returns gives every other lookup the same result.
\<close>

definition get_value :: "(bytes option \<times> node \<times> bool) tresult \<Rightarrow> bytes option tresult" where
  "get_value r = map_option (map_sum id fst) r"

lemma get_value_bind:
  "get_value (bind_res r (\<lambda>(v, n, d). Some (Inr (v, f n d, g n d)))) = get_value r"
  by (auto simp: get_value_def bind_res_def split: option.splits sum.splits)

lemma get_value_simps [simp]:
  "get_value (Some (Inr (v, n, d))) = Some (Inr v)" "get_value (Some (Inl e)) = Some (Inl e)"
  by (simp_all add: get_value_def)

text \<open>One step of a lookup, for its value.\<close>

lemma value_step:
  "get_value (tryGet (Suc g) db (ShortNode k c f) key pos) =
    (if length key - pos < length k \<or> k \<noteq> go_slice key pos (pos + length k) then Some (Inr None)
     else get_value (tryGet g db c key (pos + length k)))"
  "get_value (tryGet (Suc g) db (FullNode ns f) key pos) =
    (if length key \<le> pos \<or> length ns \<le> unat (key ! pos) then Some (Inl TriePanic)
     else get_value (tryGet g db (ns ! unat (key ! pos)) key (pos + 1)))"
  "get_value (tryGet (Suc g) db (HashNode h) key pos) =
    (case resolveHash db h (take pos key) of Inl e \<Rightarrow> Some (Inl e) | Inr c \<Rightarrow> get_value (tryGet g db c key pos))"
  by (simp_all add: get_value_bind Let_def split: sum.split)

lemma value_mono: "get_value (tryGet g db n key pos) = Some x \<Longrightarrow> get_value (tryGet (Suc g) db n key pos) = Some x"
  using tryGet_mono [of g db n key pos] by (auto simp: get_value_def simp del: tryGet.simps)

lemma tryGet_stable:
  assumes "wf_node_db db" "wf_node n" "tryGet fuel db n key pos = Some (Inr (v, n', d))"
  shows "wf_node n' \<and> \<not> is_HashNode n' \<and> (\<forall>g key' pos' x. get_value (tryGet g db n key' pos') = Some x \<longrightarrow> get_value (tryGet g db n' key' pos') = Some x)"
  using assms(2,3)
proof (induction fuel arbitrary: n pos n' d v)
  case 0
  then show ?case by simp
next
  case (Suc fuel)
  show ?case
  proof (cases n)
    case (ShortNode k c f)
    show ?thesis
    proof (cases "length key - pos < length k \<or> k \<noteq> go_slice key pos (pos + length k) \<or> \<not> d")
      case False
      then obtain c' where c': "tryGet fuel db c key (pos + length k) = Some (Inr (v, c', d))" "n' = ShortNode k c' f"
        using Suc.prems(2) ShortNode by (auto simp: bind_res_Some split: if_splits)
      have IH: "wf_node c'" "\<And>g key' pos' x. get_value (tryGet g db c key' pos') = Some x \<Longrightarrow> get_value (tryGet g db c' key' pos') = Some x"
        using Suc.IH [OF _ c'(1)] Suc.prems(1) ShortNode by auto
      have "get_value (tryGet g db n' key' pos') = Some x" if "get_value (tryGet g db n key' pos') = Some x" for g key' pos' x
        using that IH(2) ShortNode c'(2) by (cases g) (auto simp: value_step get_value_def [of None] simp del: tryGet.simps(2) split: if_splits)
      then show ?thesis using IH(1) Suc.prems(1) c'(2) ShortNode by auto
    next
      case True
      then have "n' = n" using Suc.prems(2) ShortNode by (auto simp: bind_res_Some split: if_splits)
      then show ?thesis using Suc.prems(1) ShortNode by simp
    qed
  next
    case (FullNode ns f)
    let ?i = "unat (key ! pos)"
    have i: "?i < length ns" using Suc.prems(2) FullNode by (auto split: if_splits)
    show ?thesis
    proof (cases d)
      case False
      then have "n' = n" using Suc.prems(2) FullNode by (auto simp: bind_res_Some Let_def split: if_splits)
      then show ?thesis using Suc.prems(1) FullNode by simp
    next
      case True
      then obtain c' where c': "tryGet fuel db (ns ! ?i) key (pos + 1) = Some (Inr (v, c', d))" "n' = FullNode (ns[?i := c']) f"
        using Suc.prems(2) FullNode by (auto simp: bind_res_Some Let_def split: if_splits)
      have IH: "wf_node c'" "\<And>g key' pos' x. get_value (tryGet g db (ns ! ?i) key' pos') = Some x \<Longrightarrow> get_value (tryGet g db c' key' pos') = Some x"
        using Suc.IH [OF _ c'(1)] Suc.prems(1) FullNode i by auto
      have "get_value (tryGet g db n' key' pos') = Some x" if "get_value (tryGet g db n key' pos') = Some x" for g key' pos' x
        using that IH(2) FullNode c'(2) by (cases g; cases "unat (key' ! pos') = ?i")
          (auto simp: value_step get_value_def [of None] simp del: tryGet.simps(2) split: if_splits)
      then show ?thesis using IH(1) Suc.prems(1) c'(2) FullNode by (auto dest!: set_update_subset_insert [THEN subsetD])
    qed
  next
    case (HashNode h)
    then obtain c where c: "resolveHash db h (take pos key) = Inr c" using Suc.prems(2) by (auto split: sum.splits)
    then obtain d' where d': "tryGet fuel db c key pos = Some (Inr (v, n', d'))"
      using Suc.prems(2) HashNode by (auto simp: bind_res_Some)
    have r: "resolveHash db h (take pos' key') = Inr c" for pos' key' using c by (auto simp: resolveHash_def split: option.splits)
    have IH: "wf_node n'" "\<not> is_HashNode n'" "\<And>g key' pos' x. get_value (tryGet g db c key' pos') = Some x \<Longrightarrow> get_value (tryGet g db n' key' pos') = Some x"
      using Suc.IH [OF _ d'] wf_resolve [OF assms(1) c] by auto
    have "get_value (tryGet g db n' key' pos') = Some x" if "get_value (tryGet g db n key' pos') = Some x" for g key' pos' x
      using that IH(3) HashNode value_mono by (cases g) (auto simp: value_step r get_value_def [of None] simp del: tryGet.simps(2))
    then show ?thesis using IH by blast
  qed (use Suc.prems in auto)
qed

end
