(* ===== verification/State_Object.thy ===== *)
theory State_Object
  imports Trie_Core Rlp_Roundtrip
begin

section \<open>State objects\<close>

text \<open>
  \<open>src/core/state/state_object.go\<close> and the interfaces of \<open>src/core/state/database.go\<close>.
  The interfaces \<open>Database\<close> and \<open>Trie\<close> are the record \<open>database\<close> of their methods,
  for any type of tries; a method that changes a trie returns it. An object is modified
  through its methods, which return it; the methods that write to the journal of the
  state are in \<open>State_DB\<close>. A panic is \<open>None\<close>. Metrics are left out.
\<close>

type_synonym address = bytes
type_synonym hash = bytes

lemma BytesToHash_len [simp]: "length (BytesToHash b) = 32"
  by (simp add: BytesToHash_def Let_def)

definition zero_hash :: hash where
  "zero_hash = replicate 32 0"

text \<open>\<open>storage_get\<close>: a Go map access, with the zero value for a missing key.\<close>

type_synonym Storage = "hash \<rightharpoonup> hash"

definition storage_get :: "Storage \<Rightarrow> hash \<Rightarrow> hash" where
  "storage_get m key = (case m key of Some v \<Rightarrow> v | None \<Rightarrow> zero_hash)"

subsection \<open>Interfaces\<close>

datatype db_err =
    DBMissing trie_err
  | DBNotFound
  | DBRlp rlp_err
  | DBSnapshot
  | DBStorageTrie db_err
  | DBCode bytes db_err
  | DBCodeSize bytes db_err
  | DBGetObject address db_err
  | DBUpdateObject address db_err
  | DBDeleteObject address db_err

record 'tr database =
  db_OpenTrie :: "hash \<Rightarrow> db_err + 'tr"
  db_OpenStorageTrie :: "hash \<Rightarrow> hash \<Rightarrow> db_err + 'tr"
  db_CopyTrie :: "'tr \<Rightarrow> 'tr"
  db_ContractCode :: "hash \<Rightarrow> hash \<Rightarrow> db_err + bytes"
  db_ContractCodeSize :: "hash \<Rightarrow> hash \<Rightarrow> db_err + nat"
  tr_TryGet :: "'tr \<Rightarrow> bytes \<Rightarrow> (db_err + bytes) \<times> 'tr"
  tr_TryUpdate :: "'tr \<Rightarrow> bytes \<Rightarrow> bytes \<Rightarrow> db_err option \<times> 'tr"
  tr_TryDelete :: "'tr \<Rightarrow> bytes \<Rightarrow> db_err option \<times> 'tr"
  tr_Hash :: "'tr \<Rightarrow> hash \<times> 'tr"

text \<open>
  The part of a snapshot layer that the state reads, \<open>snapshot.Snapshot\<close>: accounts (with
  empty code hash and root left out) and storage by hashed keys.
\<close>

record snap_account =
  sa_Nonce :: uint64
  sa_Balance :: int
  sa_Root :: bytes
  sa_CodeHash :: bytes

record snapshot =
  snap_Account :: "hash \<Rightarrow> db_err + snap_account option"
  snap_Storage :: "hash \<Rightarrow> hash \<Rightarrow> db_err + bytes"

subsection \<open>Accounts\<close>

text \<open>\<open>Account\<close>; a nil balance or code hash is \<open>None\<close>.\<close>

record Account =
  acc_Nonce :: uint64
  acc_Balance :: "int option"
  acc_Root :: hash
  acc_CodeHash :: "bytes option"

definition Account_zero :: Account where
  "Account_zero = \<lparr>acc_Nonce = 0, acc_Balance = None, acc_Root = zero_hash, acc_CodeHash = None\<rparr>"

text \<open>
  The RLP view of an account: a struct of a \<open>uint64\<close>, a big integer, a hash and a byte
  slice.
\<close>

definition account_type :: gtype where
  "account_type = TStruct [TUint 64, TBigInt, TByteArray 32, TByteSlice]"

definition account_gval :: "uint64 \<Rightarrow> int \<Rightarrow> hash \<Rightarrow> bytes \<Rightarrow> gval" where
  "account_gval nonce balance root codeHash = VList [VUint nonce, VBigInt balance, VBytes root, VBytes codeHash]"

text \<open>
  \<open>rlp.DecodeBytes\<close> into an \<open>Account\<close>. The type is a struct of leaf types, so two units of
  fuel are enough for every input.
\<close>

definition decode_Account :: "bytes \<Rightarrow> Account option" where
  "decode_Account blob =
    (case DecodeBytes 2 account_type blob of
       Some (Inr (VList [VUint nonce, VBigInt balance, VBytes root, VBytes codeHash])) \<Rightarrow>
         Some \<lparr>acc_Nonce = nonce, acc_Balance = Some balance, acc_Root = root, acc_CodeHash = Some codeHash\<rparr>
     | _ \<Rightarrow> None)"

subsection \<open>Objects\<close>

record 'tr stateObject =
  so_address :: address
  so_addrHash :: hash
  so_Nonce :: uint64
  so_Balance :: int
  so_Root :: hash
  so_CodeHash :: bytes
  so_dbErr :: "db_err option"
  so_trie :: "'tr option"
  so_code :: "bytes option"
  so_originStorage :: Storage
  so_pendingStorage :: Storage
  so_dirtyStorage :: Storage
  so_fakeStorage :: "Storage option"
  so_dirtyCode :: bool
  so_suicided :: bool
  so_deleted :: bool

text \<open>
  The context an object's methods read: the hash function, the database, and the state's
  snapshot with the accounts destructed in this block.
\<close>

record 'tr obj_ctx =
  ctx_keccak :: "bytes \<Rightarrow> hash"
  ctx_db :: "'tr database"
  ctx_snap :: "snapshot option"
  ctx_snapDestructs :: "hash set"

definition emptyCodeHash :: "(bytes \<Rightarrow> hash) \<Rightarrow> bytes" where
  "emptyCodeHash keccak = keccak []"

definition so_empty :: "(bytes \<Rightarrow> hash) \<Rightarrow> 'tr stateObject \<Rightarrow> bool" where
  "so_empty keccak s \<longleftrightarrow> so_Nonce s = 0 \<and> so_Balance s = 0 \<and> so_CodeHash s = emptyCodeHash keccak"

definition newObject :: "(bytes \<Rightarrow> hash) \<Rightarrow> address \<Rightarrow> Account \<Rightarrow> 'tr stateObject" where
  "newObject keccak addr data =
    \<lparr>so_address = addr,
     so_addrHash = keccak addr,
     so_Nonce = acc_Nonce data,
     so_Balance = (case acc_Balance data of None \<Rightarrow> 0 | Some b \<Rightarrow> b),
     so_Root = (if acc_Root data = zero_hash then emptyRoot else acc_Root data),
     so_CodeHash = (case acc_CodeHash data of None \<Rightarrow> emptyCodeHash keccak | Some h \<Rightarrow> h),
     so_dbErr = None, so_trie = None, so_code = None,
     so_originStorage = Map.empty, so_pendingStorage = Map.empty, so_dirtyStorage = Map.empty,
     so_fakeStorage = None, so_dirtyCode = False, so_suicided = False, so_deleted = False\<rparr>"

definition so_EncodeRLP :: "'tr stateObject \<Rightarrow> rlp_err + bytes" where
  "so_EncodeRLP s = EncodeToBytes account_type (account_gval (so_Nonce s) (so_Balance s) (so_Root s) (so_CodeHash s))"

definition so_setError :: "db_err option \<Rightarrow> 'tr stateObject \<Rightarrow> 'tr stateObject" where
  "so_setError err s = (if so_dbErr s = None then s\<lparr>so_dbErr := err\<rparr> else s)"

definition markSuicided :: "'tr stateObject \<Rightarrow> 'tr stateObject" where
  "markSuicided s = s\<lparr>so_suicided := True\<rparr>"

definition getTrie :: "'tr database \<Rightarrow> 'tr stateObject \<Rightarrow> 'tr option \<times> 'tr stateObject" where
  "getTrie db s =
    (case so_trie s of
       Some tr \<Rightarrow> (Some tr, s)
     | None \<Rightarrow>
         (case db_OpenStorageTrie db (so_addrHash s) (so_Root s) of
            Inr tr \<Rightarrow> (Some tr, s\<lparr>so_trie := Some tr\<rparr>)
          | Inl err \<Rightarrow>
              (let tr = (case db_OpenStorageTrie db (so_addrHash s) zero_hash of Inr tr \<Rightarrow> Some tr | Inl _ \<Rightarrow> None)
               in (tr, so_setError (Some (DBStorageTrie err)) (s\<lparr>so_trie := tr\<rparr>)))))"

text \<open>Reading an encoded slot value, as in \<open>GetCommittedState\<close>.\<close>

definition slot_value :: "bytes \<Rightarrow> hash \<times> db_err option" where
  "slot_value blob =
    (if 0 < length blob then
       (case Split blob of
          Inl e \<Rightarrow> (BytesToHash [], Some (DBRlp e))
        | Inr (_, content, _) \<Rightarrow> (BytesToHash content, None))
     else (zero_hash, None))"

definition so_load :: "'tr obj_ctx \<Rightarrow> 'tr stateObject \<Rightarrow> hash \<Rightarrow> (db_err option \<times> bytes \<times> 'tr stateObject) option" where
  "so_load ctx s key =
    (case getTrie (ctx_db ctx) s of
       (None, s) \<Rightarrow> None
     | (Some tr, s) \<Rightarrow>
         (case tr_TryGet (ctx_db ctx) tr key of
            (Inl err, tr) \<Rightarrow> Some (Some err, [], s\<lparr>so_trie := Some tr\<rparr>)
          | (Inr blob, tr) \<Rightarrow> Some (None, blob, s\<lparr>so_trie := Some tr\<rparr>)))"

definition so_cache :: "'tr stateObject \<Rightarrow> hash \<Rightarrow> bytes \<Rightarrow> hash \<times> 'tr stateObject" where
  "so_cache s key blob =
    (let (value, err) = slot_value blob;
         s = (case err of None \<Rightarrow> s | Some e \<Rightarrow> so_setError (Some e) s)
     in (value, s\<lparr>so_originStorage := (so_originStorage s)(key \<mapsto> value)\<rparr>))"

definition so_GetCommittedState :: "'tr obj_ctx \<Rightarrow> 'tr stateObject \<Rightarrow> hash \<Rightarrow> (hash \<times> 'tr stateObject) option" where
  "so_GetCommittedState ctx s key =
    (case so_fakeStorage s of
       Some fake \<Rightarrow> Some (storage_get fake key, s)
     | None \<Rightarrow>
     (case so_pendingStorage s key of
        Some value \<Rightarrow> Some (value, s)
      | None \<Rightarrow>
     (case so_originStorage s key of
        Some value \<Rightarrow> Some (value, s)
      | None \<Rightarrow>
          (let from_trie =
                 (case so_load ctx s key of
                    None \<Rightarrow> None
                  | Some (Some err, _, s) \<Rightarrow> Some (zero_hash, so_setError (Some err) s)
                  | Some (None, blob, s) \<Rightarrow> Some (so_cache s key blob))
           in case ctx_snap ctx of
                None \<Rightarrow> from_trie
              | Some snap \<Rightarrow>
                  (if so_addrHash s \<in> ctx_snapDestructs ctx then Some (zero_hash, s)
                   else case snap_Storage snap (so_addrHash s) (ctx_keccak ctx key) of
                          Inl _ \<Rightarrow> from_trie
                        | Inr blob \<Rightarrow> Some (so_cache s key blob))))))"

definition so_GetState :: "'tr obj_ctx \<Rightarrow> 'tr stateObject \<Rightarrow> hash \<Rightarrow> (hash \<times> 'tr stateObject) option" where
  "so_GetState ctx s key =
    (case so_fakeStorage s of
       Some fake \<Rightarrow> Some (storage_get fake key, s)
     | None \<Rightarrow>
     (case so_dirtyStorage s key of
        Some value \<Rightarrow> Some (value, s)
      | None \<Rightarrow> so_GetCommittedState ctx s key))"

definition so_setState :: "hash \<Rightarrow> hash \<Rightarrow> 'tr stateObject \<Rightarrow> 'tr stateObject" where
  "so_setState key value s = s\<lparr>so_dirtyStorage := (so_dirtyStorage s)(key \<mapsto> value)\<rparr>"

definition so_SetStorage :: "Storage \<Rightarrow> 'tr stateObject \<Rightarrow> 'tr stateObject" where
  "so_SetStorage storage s =
    s\<lparr>so_fakeStorage := Some ((case so_fakeStorage s of None \<Rightarrow> Map.empty | Some fake \<Rightarrow> fake) ++ storage)\<rparr>"

definition so_finalise :: "'tr stateObject \<Rightarrow> 'tr stateObject" where
  "so_finalise s = s\<lparr>so_pendingStorage := so_pendingStorage s ++ so_dirtyStorage s, so_dirtyStorage := Map.empty\<rparr>"

definition so_setBalance :: "int \<Rightarrow> 'tr stateObject \<Rightarrow> 'tr stateObject" where
  "so_setBalance amount s = s\<lparr>so_Balance := amount\<rparr>"

definition so_setNonce :: "uint64 \<Rightarrow> 'tr stateObject \<Rightarrow> 'tr stateObject" where
  "so_setNonce nonce s = s\<lparr>so_Nonce := nonce\<rparr>"

definition so_setCode :: "hash \<Rightarrow> bytes option \<Rightarrow> 'tr stateObject \<Rightarrow> 'tr stateObject" where
  "so_setCode codeHash code s = s\<lparr>so_code := code, so_CodeHash := codeHash, so_dirtyCode := True\<rparr>"

definition so_Code :: "'tr obj_ctx \<Rightarrow> 'tr stateObject \<Rightarrow> bytes option \<times> 'tr stateObject" where
  "so_Code ctx s =
    (case so_code s of
       Some code \<Rightarrow> (Some code, s)
     | None \<Rightarrow>
         (if so_CodeHash s = emptyCodeHash (ctx_keccak ctx) then (None, s)
          else case db_ContractCode (ctx_db ctx) (so_addrHash s) (BytesToHash (so_CodeHash s)) of
                 Inl err \<Rightarrow> (None, so_setError (Some (DBCode (so_CodeHash s) err)) s)
               | Inr code \<Rightarrow> (Some code, s\<lparr>so_code := Some code\<rparr>)))"

definition so_CodeSize :: "'tr obj_ctx \<Rightarrow> 'tr stateObject \<Rightarrow> nat \<times> 'tr stateObject" where
  "so_CodeSize ctx s =
    (case so_code s of
       Some code \<Rightarrow> (length code, s)
     | None \<Rightarrow>
         (if so_CodeHash s = emptyCodeHash (ctx_keccak ctx) then (0, s)
          else case db_ContractCodeSize (ctx_db ctx) (so_addrHash s) (BytesToHash (so_CodeHash s)) of
                 Inl err \<Rightarrow> (0, so_setError (Some (DBCodeSize (so_CodeHash s) err)) s)
               | Inr sz \<Rightarrow> (sz, s)))"

definition so_deepCopy :: "'tr obj_ctx \<Rightarrow> 'tr stateObject \<Rightarrow> 'tr stateObject" where
  "so_deepCopy ctx s =
    (newObject (ctx_keccak ctx) (so_address s)
       \<lparr>acc_Nonce = so_Nonce s, acc_Balance = Some (so_Balance s), acc_Root = so_Root s, acc_CodeHash = Some (so_CodeHash s)\<rparr>)
    \<lparr>so_trie := map_option (db_CopyTrie (ctx_db ctx)) (so_trie s),
     so_code := so_code s,
     so_dirtyStorage := so_dirtyStorage s,
     so_originStorage := so_originStorage s,
     so_pendingStorage := so_pendingStorage s,
     so_suicided := so_suicided s,
     so_dirtyCode := so_dirtyCode s,
     so_deleted := so_deleted s\<rparr>"

subsection \<open>Writing storage to the trie\<close>

text \<open>\<open>common.TrimLeftZeroes\<close>\<close>

definition TrimLeftZeroes :: "bytes \<Rightarrow> bytes" where
  "TrimLeftZeroes s = dropWhile (\<lambda>b. b = 0) s"

definition slot_encode :: "hash \<Rightarrow> bytes" where
  "slot_encode value =
    (case EncodeToBytes TByteSlice (VBytes (TrimLeftZeroes value)) of Inr v \<Rightarrow> v | Inl _ \<Rightarrow> [])"

text \<open>
  One round of the loop of \<open>updateTrie\<close>, for a pending slot. \<open>storage\<close> is the snapshot
  storage map of the account, \<open>None\<close> without a snapshot; a nil value is the empty list.
\<close>

type_synonym snap_storage = "hash \<rightharpoonup> bytes"

definition updateTrie_step ::
  "'tr obj_ctx \<Rightarrow> hash \<times> hash \<Rightarrow> 'tr stateObject \<times> 'tr \<times> snap_storage option \<Rightarrow> 'tr stateObject \<times> 'tr \<times> snap_storage option" where
  "updateTrie_step ctx = (\<lambda>(key, value) (s, tr, storage).
    if value = storage_get (so_originStorage s) key then (s, tr, storage)
    else
      let s = s\<lparr>so_originStorage := (so_originStorage s)(key \<mapsto> value)\<rparr>;
          v = (if value = zero_hash then [] else slot_encode value);
          (err, tr) = (if value = zero_hash then tr_TryDelete (ctx_db ctx) tr key
                       else tr_TryUpdate (ctx_db ctx) tr key v);
          s = so_setError err s
      in (s, tr, map_option (\<lambda>st. st(ctx_keccak ctx key \<mapsto> v)) storage))"

text \<open>
  \<open>updateTrie\<close>, with the order in which the map of pending slots is iterated as an
  argument.
\<close>

definition updateTrie ::
  "'tr obj_ctx \<Rightarrow> hash list \<Rightarrow> snap_storage option \<Rightarrow> 'tr stateObject \<Rightarrow>
    ('tr option \<times> snap_storage option \<times> 'tr stateObject) option" where
  "updateTrie ctx order storage s =
    (let s = so_finalise s
     in if so_pendingStorage s = Map.empty then Some (so_trie s, storage, s)
        else let storage = (if ctx_snap ctx = None then None
                            else Some (case storage of None \<Rightarrow> Map.empty | Some st \<Rightarrow> st))
             in case getTrie (ctx_db ctx) s of
                  (None, s) \<Rightarrow> None
                | (Some tr, s) \<Rightarrow>
                    (let (s, tr, storage) =
                           fold (updateTrie_step ctx) (map (\<lambda>k. (k, storage_get (so_pendingStorage s) k)) order) (s, tr, storage)
                     in Some (Some tr, storage, s\<lparr>so_trie := Some tr, so_pendingStorage := Map.empty\<rparr>)))"

definition updateRoot ::
  "'tr obj_ctx \<Rightarrow> hash list \<Rightarrow> snap_storage option \<Rightarrow> 'tr stateObject \<Rightarrow> (snap_storage option \<times> 'tr stateObject) option" where
  "updateRoot ctx order storage s =
    (case updateTrie ctx order storage s of
       None \<Rightarrow> None
     | Some (None, storage, s) \<Rightarrow> Some (storage, s)
     | Some (Some tr, storage, s) \<Rightarrow>
         (let (root, tr) = tr_Hash (ctx_db ctx) tr
          in Some (storage, s\<lparr>so_trie := Some tr, so_Root := root\<rparr>)))"

end
