(* ===== verification/State_AccessList.thy ===== *)
theory State_AccessList
  imports Go_Prelude
begin

section \<open>Access lists\<close>

text \<open>
  \<open>src/core/state/access_list.go\<close>: the addresses of a transaction's access list with
  the index of their slot sets, \<open>-1\<close> for an address without slots. A panic is \<open>None\<close>.
  The list implements two sets, of addresses and of (address, slot) pairs, and deletions
  in the reverse order of the additions restore it exactly.
\<close>

record accessList =
  al_addresses :: "bytes \<rightharpoonup> int"
  al_slots :: "bytes set list"

definition ContainsAddress :: "accessList \<Rightarrow> bytes \<Rightarrow> bool" where
  "ContainsAddress al address \<longleftrightarrow> al_addresses al address \<noteq> None"

definition Contains :: "accessList \<Rightarrow> bytes \<Rightarrow> bytes \<Rightarrow> (bool \<times> bool) option" where
  "Contains al address slot =
    (case al_addresses al address of
       None \<Rightarrow> Some (False, False)
     | Some idx \<Rightarrow>
         (if idx = -1 then Some (True, False)
          else if idx < 0 \<or> int (length (al_slots al)) \<le> idx then None
          else Some (True, slot \<in> al_slots al ! nat idx)))"

definition newAccessList :: accessList where
  "newAccessList = \<lparr>al_addresses = Map.empty, al_slots = []\<rparr>"

definition accessList_Copy :: "accessList \<Rightarrow> accessList" where
  "accessList_Copy a = \<lparr>al_addresses = al_addresses a, al_slots = map (\<lambda>m. m) (al_slots a)\<rparr>"

definition AddAddress :: "accessList \<Rightarrow> bytes \<Rightarrow> bool \<times> accessList" where
  "AddAddress al address =
    (if al_addresses al address \<noteq> None then (False, al)
     else (True, al\<lparr>al_addresses := (al_addresses al)(address \<mapsto> -1)\<rparr>))"

definition AddSlot :: "accessList \<Rightarrow> bytes \<Rightarrow> bytes \<Rightarrow> ((bool \<times> bool) \<times> accessList) option" where
  "AddSlot al address slot =
    (case al_addresses al address of
       Some idx \<Rightarrow>
         (if idx = -1 then
            Some ((False, True), \<lparr>al_addresses = (al_addresses al)(address \<mapsto> int (length (al_slots al))),
              al_slots = al_slots al @ [{slot}]\<rparr>)
          else if idx < 0 \<or> int (length (al_slots al)) \<le> idx then None
          else if slot \<notin> al_slots al ! nat idx then
            Some ((False, True), al\<lparr>al_slots := (al_slots al)[nat idx := insert slot (al_slots al ! nat idx)]\<rparr>)
          else Some ((False, False), al))
     | None \<Rightarrow>
         Some ((True, True), \<lparr>al_addresses = (al_addresses al)(address \<mapsto> int (length (al_slots al))),
           al_slots = al_slots al @ [{slot}]\<rparr>))"

definition DeleteSlot :: "accessList \<Rightarrow> bytes \<Rightarrow> bytes \<Rightarrow> accessList option" where
  "DeleteSlot al address slot =
    (case al_addresses al address of
       None \<Rightarrow> None
     | Some idx \<Rightarrow>
         (if idx < 0 \<or> int (length (al_slots al)) \<le> idx then None
          else let slotmap = al_slots al ! nat idx - {slot};
                   al = al\<lparr>al_slots := (al_slots al)[nat idx := slotmap]\<rparr>
               in if slotmap = {}
                  then Some \<lparr>al_addresses = (al_addresses al)(address \<mapsto> -1), al_slots = take (nat idx) (al_slots al)\<rparr>
                  else Some al))"

definition DeleteAddress :: "accessList \<Rightarrow> bytes \<Rightarrow> accessList" where
  "DeleteAddress al address = al\<lparr>al_addresses := (al_addresses al)(address := None)\<rparr>"

subsection \<open>Invariant\<close>

text \<open>
  Every index is that of a slot set or \<open>-1\<close>, no two addresses share a slot set, and no
  slot set is empty.
\<close>

definition al_ok :: "accessList \<Rightarrow> bool" where
  "al_ok al \<longleftrightarrow>
    (\<forall>a idx. al_addresses al a = Some idx \<longrightarrow> -1 \<le> idx \<and> idx < int (length (al_slots al))) \<and>
    (\<forall>a b idx. al_addresses al a = Some idx \<longrightarrow> al_addresses al b = Some idx \<longrightarrow> 0 \<le> idx \<longrightarrow> a = b) \<and>
    {} \<notin> set (al_slots al)"

lemma al_okD:
  assumes "al_ok al" "al_addresses al a = Some idx"
  shows "-1 \<le> idx" "idx < int (length (al_slots al))" "0 \<le> idx \<Longrightarrow> al_slots al ! nat idx \<noteq> {}"
proof -
  show b: "-1 \<le> idx" "idx < int (length (al_slots al))" using assms by (auto simp: al_ok_def)
  show "al_slots al ! nat idx \<noteq> {}" if "0 \<le> idx"
  proof -
    have "al_slots al ! nat idx \<in> set (al_slots al)" using that b by (intro nth_mem) linarith
    then show ?thesis using assms(1) by (metis al_ok_def)
  qed
qed

lemma al_ok_new [simp]: "al_ok newAccessList"
  by (simp add: al_ok_def newAccessList_def)

lemma al_ok_AddAddress: "al_ok al \<Longrightarrow> al_ok (snd (AddAddress al a))"
  by (auto simp: AddAddress_def al_ok_def split: if_splits)

lemma al_ok_AddSlot:
  assumes "al_ok al"
  shows "\<exists>c al'. AddSlot al a slot = Some (c, al') \<and> al_ok al'"
proof (cases "al_addresses al a")
  case None
  then show ?thesis using assms by (fastforce simp: AddSlot_def al_ok_def split: if_splits)
next
  case (Some idx)
  note b = al_okD [OF assms Some]
  show ?thesis
  proof (cases "idx = -1")
    case True
    then show ?thesis using assms Some by (fastforce simp: AddSlot_def al_ok_def split: if_splits)
  next
    case False
    then have "{} \<notin> set ((al_slots al)[nat idx := insert slot (al_slots al ! nat idx)])"
      using assms set_update_subset_insert by (fastforce simp: al_ok_def)
    then have "al_ok (al\<lparr>al_slots := (al_slots al)[nat idx := insert slot (al_slots al ! nat idx)]\<rparr>)"
      using assms by (simp add: al_ok_def)
    moreover have "\<not> (idx < 0 \<or> int (length (al_slots al)) \<le> idx)" using b False by linarith
    ultimately show ?thesis using assms Some False by (simp add: AddSlot_def) blast
  qed
qed

subsection \<open>Undoing additions\<close>

lemma AddAddress_undo:
  "AddAddress al a = (True, al') \<Longrightarrow> DeleteAddress al' a = al"
  by (cases al) (auto simp: AddAddress_def DeleteAddress_def fun_upd_idem split: if_splits)

lemma AddSlot_undo:
  assumes "al_ok al" "AddSlot al a slot = Some ((addrMod, True), al')"
  shows "\<exists>al''. DeleteSlot al' a slot = Some al'' \<and>
    (if addrMod then DeleteAddress al'' a = al else al'' = al)"
proof (cases "al_addresses al a")
  case None
  then show ?thesis using assms(2)
    by (cases al) (auto simp: AddSlot_def DeleteSlot_def DeleteAddress_def nth_append Let_def fun_upd_idem)
next
  case (Some idx)
  note b = al_okD [OF assms(1) Some]
  show ?thesis
  proof (cases "idx = -1")
    case True
    then show ?thesis using assms(2) Some
      by (cases al) (auto simp: AddSlot_def DeleteSlot_def nth_append Let_def fun_upd_idem_iff)
  next
    case False
    then have al': "addrMod = False" "slot \<notin> al_slots al ! nat idx"
      "al' = al\<lparr>al_slots := (al_slots al)[nat idx := insert slot (al_slots al ! nat idx)]\<rparr>"
      using assms(2) Some b by (auto simp: AddSlot_def split: if_splits)
    moreover have "nat idx < length (al_slots al)" "al_slots al ! nat idx \<noteq> {}" using b False by auto
    ultimately show ?thesis using Some b False by (cases al) (auto simp: DeleteSlot_def Let_def)
  qed
qed

subsection \<open>Sets of addresses and slots\<close>

definition al_slot_set :: "accessList \<Rightarrow> bytes \<Rightarrow> bytes set" where
  "al_slot_set al a =
    (case al_addresses al a of Some idx \<Rightarrow> if idx = -1 then {} else al_slots al ! nat idx | None \<Rightarrow> {})"

lemma Contains_sets: "al_ok al \<Longrightarrow> Contains al a slot = Some (a \<in> dom (al_addresses al), slot \<in> al_slot_set al a)"
  by (auto simp: Contains_def al_slot_set_def dom_def dest: al_okD(1,2) split: option.splits)

lemma AddAddress_sets:
  "AddAddress al a = (c, al') \<Longrightarrow> dom (al_addresses al') = insert a (dom (al_addresses al)) \<and>
    al_slot_set al' = al_slot_set al \<and> (c \<longleftrightarrow> a \<notin> dom (al_addresses al))"
  by (auto simp: AddAddress_def al_slot_set_def dom_def fun_eq_iff split: if_splits option.splits)

lemma AddSlot_sets:
  assumes ok: "al_ok al" and "AddSlot al a slot = Some ((c, d), al')"
  shows "dom (al_addresses al') = insert a (dom (al_addresses al))"
    and "al_slot_set al' = (al_slot_set al)(a := insert slot (al_slot_set al a))"
    and "c \<longleftrightarrow> a \<notin> dom (al_addresses al)" and "d \<longleftrightarrow> slot \<notin> al_slot_set al a"
proof -
  have keep: "(al_slots al @ [x]) ! nat idx = al_slots al ! nat idx" if "al_addresses al b = Some idx" "idx \<noteq> -1" for b idx x
    using al_okD(1,2) [OF ok that(1)] that(2) by (simp add: nth_append nat_less_iff)
  have other: "(al_slots al)[nat i := x] ! nat j = al_slots al ! nat j"
    if "al_addresses al a = Some i" "al_addresses al b = Some j" "a \<noteq> b" "i \<noteq> -1" "j \<noteq> -1" for b i j x
  proof -
    have "0 \<le> i" using al_okD(1) [OF ok that(1)] that(4) by linarith
    then have "i \<noteq> j" using ok that(1,2,3) unfolding al_ok_def by blast
    then have "nat i \<noteq> nat j" using al_okD(1) [OF ok that(1)] al_okD(1) [OF ok that(2)] that(4,5) by linarith
    then show ?thesis by simp
  qed
  show "dom (al_addresses al') = insert a (dom (al_addresses al))" "c \<longleftrightarrow> a \<notin> dom (al_addresses al)"
    "d \<longleftrightarrow> slot \<notin> al_slot_set al a"
    using assms(2) by (auto simp: AddSlot_def al_slot_set_def split: option.splits if_splits)
  show "al_slot_set al' = (al_slot_set al)(a := insert slot (al_slot_set al a))"
  proof
    fix b
    show "al_slot_set al' b = ((al_slot_set al)(a := insert slot (al_slot_set al a))) b"
    proof (cases "al_addresses al a")
      case None
      then show ?thesis using assms(2) keep by (auto simp: AddSlot_def al_slot_set_def split: option.splits)
    next
      case (Some idx)
      note b = al_okD [OF ok Some]
      show ?thesis
      proof (cases "idx = -1")
        case True
        then show ?thesis using assms(2) Some keep by (auto simp: AddSlot_def al_slot_set_def split: option.splits)
      next
        case False
        then show ?thesis using assms(2) Some b other by (auto simp: AddSlot_def al_slot_set_def split: option.splits if_splits)
      qed
    qed
  qed
qed

subsection \<open>Additions\<close>

text \<open>
  A sequence of additions: an address, or an address with a slot.
\<close>

fun al_adds :: "(bytes \<times> bytes option) list \<Rightarrow> accessList \<Rightarrow> accessList option" where
  "al_adds [] al = Some al"
| "al_adds ((a, None) # xs) al = al_adds xs (snd (AddAddress al a))"
| "al_adds ((a, Some slot) # xs) al = (case AddSlot al a slot of None \<Rightarrow> None | Some (_, al) \<Rightarrow> al_adds xs al)"

lemma al_adds_sets:
  "al_ok al \<Longrightarrow> \<exists>al'. al_adds xs al = Some al' \<and> al_ok al' \<and>
    dom (al_addresses al') = dom (al_addresses al) \<union> fst ` set xs \<and>
    (\<forall>a. al_slot_set al' a = al_slot_set al a \<union> {slot. (a, Some slot) \<in> set xs})"
proof (induction xs al rule: al_adds.induct)
  case (2 a xs al)
  note s = AddAddress_sets [of al a "fst (AddAddress al a)" "snd (AddAddress al a)", simplified]
  show ?case using "2.IH" [OF al_ok_AddAddress [OF "2.prems"]] s by auto
next
  case (3 a slot xs al)
  obtain c d al1 where a1: "AddSlot al a slot = Some ((c, d), al1)" "al_ok al1"
    using al_ok_AddSlot [OF "3.prems"] by (metis prod.exhaust)
  note s = AddSlot_sets [OF "3.prems" a1(1)]
  have "\<exists>al'. al_adds xs al1 = Some al' \<and> al_ok al' \<and> dom (al_addresses al') = dom (al_addresses al1) \<union> fst ` set xs \<and>
    (\<forall>b. al_slot_set al' b = al_slot_set al1 b \<union> {slot. (b, Some slot) \<in> set xs})"
    by (rule "3.IH" [OF a1(1) refl a1(2)])
  then show ?case using a1(1) s(1,2) by auto
qed simp

text \<open>
  An access list is a set of addresses and a set of slots. After any additions to an
  empty list, in any order and with repetitions, no index is out of range and the queries
  answer as the sets do: an address is present when it was added alone or with a slot, a
  slot when it was added with that address.
\<close>

theorem access_list_sets:
  "\<exists>al. al_adds xs newAccessList = Some al \<and>
    (\<forall>a slot. ContainsAddress al a = (a \<in> fst ` set xs) \<and>
      Contains al a slot = Some (a \<in> fst ` set xs, (a, Some slot) \<in> set xs))"
proof -
  obtain al where al: "al_adds xs newAccessList = Some al" "al_ok al" "dom (al_addresses al) = fst ` set xs"
    "\<And>a. al_slot_set al a = {slot. (a, Some slot) \<in> set xs}"
    using al_adds_sets [OF al_ok_new, of xs] by (auto simp: newAccessList_def al_slot_set_def)
  have "ContainsAddress al a = (a \<in> fst ` set xs)" for a using al(3) by (auto simp: ContainsAddress_def)
  then show ?thesis using al by (auto simp: Contains_sets)
qed

end
