(* ===== verification/State_DB.thy ===== *)
theory State_DB
  imports State_Object State_AccessList
begin

section \<open>The state database and its journal\<close>

text \<open>
  \<open>src/core/state/statedb.go\<close> and \<open>src/core/state/journal.go\<close>. The hash function and the
  database are arguments of the operations. A pointer to a state object is the object in
  the map of live objects at its address; a method that changes the object stores it
  there. A panic is \<open>None\<close>. Go's \<open>int\<close> is \<open>int\<close> or \<open>nat\<close>; \<open>uint\<close> and \<open>uint64\<close> are 64-bit
  words. Metrics and the state dump are left out.
\<close>

subsection \<open>Data\<close>

record Log =
  log_Address :: address
  log_Topics :: "hash list"
  log_Data :: bytes
  log_BlockNumber :: uint64
  log_TxHash :: hash
  log_TxIndex :: uint64
  log_BlockHash :: hash
  log_Index :: uint64
  log_Removed :: bool

datatype 'tr journalEntry =
    createObjectChange address
  | resetObjectChange "'tr stateObject" bool
  | suicideChange address bool int
  | balanceChange address int
  | nonceChange address uint64
  | storageChange address hash hash
  | codeChange address "bytes option" bytes
  | refundChange uint64
  | addLogChange hash
  | addPreimageChange hash
  | touchChange address
  | accessListAddAccountChange address
  | accessListAddSlotChange address hash

record 'tr journal =
  j_entries :: "'tr journalEntry list"
  j_dirties :: "address \<rightharpoonup> int"

record revision =
  rev_id :: nat
  rev_journalIndex :: nat

record 'tr StateDB =
  sd_trie :: 'tr
  sd_snap :: "snapshot option"
  sd_snapDestructs :: "hash set"
  sd_snapAccounts :: "hash \<rightharpoonup> bytes"
  sd_snapStorage :: "hash \<rightharpoonup> snap_storage"
  sd_stateObjects :: "address \<rightharpoonup> 'tr stateObject"
  sd_stateObjectsPending :: "address set"
  sd_stateObjectsDirty :: "address set"
  sd_dbErr :: "db_err option"
  sd_refund :: uint64
  sd_thash :: hash
  sd_bhash :: hash
  sd_txIndex :: int
  sd_logs :: "hash \<rightharpoonup> Log list"
  sd_logSize :: uint64
  sd_preimages :: "hash \<rightharpoonup> bytes"
  sd_accessList :: accessList
  sd_journal :: "'tr journal"
  sd_validRevisions :: "revision list"
  sd_nextRevisionId :: nat

definition ripemd :: address where
  "ripemd = replicate 19 0 @ [3]"

definition newJournal :: "'tr journal" where
  "newJournal = \<lparr>j_entries = [], j_dirties = Map.empty\<rparr>"

fun dirtied :: "'tr journalEntry \<Rightarrow> address option" where
  "dirtied (createObjectChange account) = Some account"
| "dirtied (resetObjectChange prev prevdestruct) = None"
| "dirtied (suicideChange account prev prevbalance) = Some account"
| "dirtied (balanceChange account prev) = Some account"
| "dirtied (nonceChange account prev) = Some account"
| "dirtied (storageChange account key prevalue) = Some account"
| "dirtied (codeChange account prevcode prevhash) = Some account"
| "dirtied (refundChange prev) = None"
| "dirtied (addLogChange txhash) = None"
| "dirtied (addPreimageChange hash) = None"
| "dirtied (touchChange account) = Some account"
| "dirtied (accessListAddAccountChange a) = None"
| "dirtied (accessListAddSlotChange a slot) = None"

definition dirties_inc :: "address \<Rightarrow> (address \<rightharpoonup> int) \<Rightarrow> (address \<rightharpoonup> int)" where
  "dirties_inc addr d = d(addr \<mapsto> (case d addr of None \<Rightarrow> 0 | Some n \<Rightarrow> n) + 1)"

definition dirties_dec :: "address \<Rightarrow> (address \<rightharpoonup> int) \<Rightarrow> (address \<rightharpoonup> int)" where
  "dirties_dec addr d =
    (let n = (case d addr of None \<Rightarrow> 0 | Some n \<Rightarrow> n) - 1
     in if n = 0 then d(addr := None) else d(addr \<mapsto> n))"

definition journal_append :: "'tr journalEntry \<Rightarrow> 'tr StateDB \<Rightarrow> 'tr StateDB" where
  "journal_append entry s =
    s\<lparr>sd_journal := (sd_journal s)
       \<lparr>j_entries := j_entries (sd_journal s) @ [entry],
        j_dirties := (case dirtied entry of
                        None \<Rightarrow> j_dirties (sd_journal s)
                      | Some addr \<Rightarrow> dirties_inc addr (j_dirties (sd_journal s)))\<rparr>\<rparr>"

definition journal_dirty :: "address \<Rightarrow> 'tr StateDB \<Rightarrow> 'tr StateDB" where
  "journal_dirty addr s =
    s\<lparr>sd_journal := (sd_journal s)\<lparr>j_dirties := dirties_inc addr (j_dirties (sd_journal s))\<rparr>\<rparr>"

abbreviation journal_length :: "'tr StateDB \<Rightarrow> nat" where
  "journal_length s \<equiv> length (j_entries (sd_journal s))"

subsection \<open>Live objects\<close>

definition sd_ctx :: "(bytes \<Rightarrow> hash) \<Rightarrow> 'tr database \<Rightarrow> 'tr StateDB \<Rightarrow> 'tr obj_ctx" where
  "sd_ctx keccak db s =
    \<lparr>ctx_keccak = keccak, ctx_db = db, ctx_snap = sd_snap s, ctx_snapDestructs = sd_snapDestructs s\<rparr>"

definition sd_setError :: "db_err option \<Rightarrow> 'tr StateDB \<Rightarrow> 'tr StateDB" where
  "sd_setError err s = (if sd_dbErr s = None then s\<lparr>sd_dbErr := err\<rparr> else s)"

definition setStateObject :: "'tr stateObject \<Rightarrow> 'tr StateDB \<Rightarrow> 'tr StateDB" where
  "setStateObject object s = s\<lparr>sd_stateObjects := (sd_stateObjects s)(so_address object \<mapsto> object)\<rparr>"

text \<open>The account of a snapshot entry, with the defaults filled in.\<close>

definition snap_data :: "(bytes \<Rightarrow> hash) \<Rightarrow> snap_account \<Rightarrow> Account" where
  "snap_data keccak acc =
    (let root = BytesToHash (sa_Root acc)
     in \<lparr>acc_Nonce = sa_Nonce acc, acc_Balance = Some (sa_Balance acc),
         acc_Root = (if root = zero_hash then emptyRoot else root),
         acc_CodeHash = Some (if length (sa_CodeHash acc) = 0 then emptyCodeHash keccak else sa_CodeHash acc)\<rparr>)"

definition getDeletedStateObject ::
  "(bytes \<Rightarrow> hash) \<Rightarrow> 'tr database \<Rightarrow> address \<Rightarrow> 'tr StateDB \<Rightarrow> 'tr stateObject option \<times> 'tr StateDB" where
  "getDeletedStateObject keccak db addr s =
    (case sd_stateObjects s addr of
       Some obj \<Rightarrow> (Some obj, s)
     | None \<Rightarrow>
         (let insert_live = (\<lambda>data s. let obj = newObject keccak addr data in (Some obj, setStateObject obj s));
              from_trie =
                (case tr_TryGet db (sd_trie s) addr of
                   (Inl err, tr) \<Rightarrow> (None, sd_setError (Some (DBGetObject addr err)) (s\<lparr>sd_trie := tr\<rparr>))
                 | (Inr blob, tr) \<Rightarrow>
                     (if length blob = 0 then (None, s\<lparr>sd_trie := tr\<rparr>)
                      else case decode_Account blob of
                             None \<Rightarrow> (None, s\<lparr>sd_trie := tr\<rparr>)
                           | Some data \<Rightarrow> insert_live data (s\<lparr>sd_trie := tr\<rparr>)))
          in case sd_snap s of
               None \<Rightarrow> from_trie
             | Some snap \<Rightarrow>
                 (case snap_Account snap (keccak addr) of
                    Inl _ \<Rightarrow> from_trie
                  | Inr None \<Rightarrow> (None, s)
                  | Inr (Some acc) \<Rightarrow> insert_live (snap_data keccak acc) s)))"

definition getStateObject ::
  "(bytes \<Rightarrow> hash) \<Rightarrow> 'tr database \<Rightarrow> address \<Rightarrow> 'tr StateDB \<Rightarrow> 'tr stateObject option \<times> 'tr StateDB" where
  "getStateObject keccak db addr s =
    (case getDeletedStateObject keccak db addr s of
       (Some obj, s) \<Rightarrow> if so_deleted obj then (None, s) else (Some obj, s)
     | (None, s) \<Rightarrow> (None, s))"

definition createObject ::
  "(bytes \<Rightarrow> hash) \<Rightarrow> 'tr database \<Rightarrow> address \<Rightarrow> 'tr StateDB \<Rightarrow> 'tr stateObject \<times> 'tr stateObject option \<times> 'tr StateDB" where
  "createObject keccak db addr s =
    (let (prev, s) = getDeletedStateObject keccak db addr s;
         newobj = so_setNonce 0 (newObject keccak addr Account_zero)
     in case prev of
          None \<Rightarrow>
            (newobj, None, setStateObject newobj (journal_append (createObjectChange addr) s))
        | Some p \<Rightarrow>
            (let prevdestruct = (sd_snap s \<noteq> None \<and> so_addrHash p \<in> sd_snapDestructs s);
                 s = (if sd_snap s \<noteq> None \<and> \<not> prevdestruct
                      then s\<lparr>sd_snapDestructs := insert (so_addrHash p) (sd_snapDestructs s)\<rparr> else s)
             in (newobj, if so_deleted p then None else Some p,
                 setStateObject newobj (journal_append (resetObjectChange p prevdestruct) s))))"

definition GetOrNewStateObject ::
  "(bytes \<Rightarrow> hash) \<Rightarrow> 'tr database \<Rightarrow> address \<Rightarrow> 'tr StateDB \<Rightarrow> 'tr stateObject \<times> 'tr StateDB" where
  "GetOrNewStateObject keccak db addr s =
    (case getStateObject keccak db addr s of
       (Some obj, s) \<Rightarrow> (obj, s)
     | (None, s) \<Rightarrow> (let (obj, _, s) = createObject keccak db addr s in (obj, s)))"

definition CreateAccount :: "(bytes \<Rightarrow> hash) \<Rightarrow> 'tr database \<Rightarrow> address \<Rightarrow> 'tr StateDB \<Rightarrow> 'tr StateDB" where
  "CreateAccount keccak db addr s =
    (let (newObj, prev, s) = createObject keccak db addr s
     in case prev of
          None \<Rightarrow> s
        | Some p \<Rightarrow> setStateObject (so_setBalance (so_Balance p) newObj) s)"

subsection \<open>Reading\<close>

text \<open>
  Reading an account may load it into the map of live objects, and reading its code or a
  slot may change the caches of the object.
\<close>

definition Exist :: "(bytes \<Rightarrow> hash) \<Rightarrow> 'tr database \<Rightarrow> address \<Rightarrow> 'tr StateDB \<Rightarrow> bool \<times> 'tr StateDB" where
  "Exist keccak db addr s = (let (obj, s) = getStateObject keccak db addr s in (obj \<noteq> None, s))"

definition Empty :: "(bytes \<Rightarrow> hash) \<Rightarrow> 'tr database \<Rightarrow> address \<Rightarrow> 'tr StateDB \<Rightarrow> bool \<times> 'tr StateDB" where
  "Empty keccak db addr s =
    (let (so, s) = getStateObject keccak db addr s
     in (case so of None \<Rightarrow> True | Some obj \<Rightarrow> so_empty keccak obj, s))"

definition GetBalance :: "(bytes \<Rightarrow> hash) \<Rightarrow> 'tr database \<Rightarrow> address \<Rightarrow> 'tr StateDB \<Rightarrow> int \<times> 'tr StateDB" where
  "GetBalance keccak db addr s =
    (let (so, s) = getStateObject keccak db addr s
     in (case so of None \<Rightarrow> 0 | Some obj \<Rightarrow> so_Balance obj, s))"

definition GetNonce :: "(bytes \<Rightarrow> hash) \<Rightarrow> 'tr database \<Rightarrow> address \<Rightarrow> 'tr StateDB \<Rightarrow> uint64 \<times> 'tr StateDB" where
  "GetNonce keccak db addr s =
    (let (so, s) = getStateObject keccak db addr s
     in (case so of None \<Rightarrow> 0 | Some obj \<Rightarrow> so_Nonce obj, s))"

definition GetCode :: "(bytes \<Rightarrow> hash) \<Rightarrow> 'tr database \<Rightarrow> address \<Rightarrow> 'tr StateDB \<Rightarrow> bytes option \<times> 'tr StateDB" where
  "GetCode keccak db addr s =
    (case getStateObject keccak db addr s of
       (None, s) \<Rightarrow> (None, s)
     | (Some obj, s) \<Rightarrow> (let (code, obj) = so_Code (sd_ctx keccak db s) obj in (code, setStateObject obj s)))"

definition GetCodeSize :: "(bytes \<Rightarrow> hash) \<Rightarrow> 'tr database \<Rightarrow> address \<Rightarrow> 'tr StateDB \<Rightarrow> nat \<times> 'tr StateDB" where
  "GetCodeSize keccak db addr s =
    (case getStateObject keccak db addr s of
       (None, s) \<Rightarrow> (0, s)
     | (Some obj, s) \<Rightarrow> (let (sz, obj) = so_CodeSize (sd_ctx keccak db s) obj in (sz, setStateObject obj s)))"

definition GetCodeHash :: "(bytes \<Rightarrow> hash) \<Rightarrow> 'tr database \<Rightarrow> address \<Rightarrow> 'tr StateDB \<Rightarrow> hash \<times> 'tr StateDB" where
  "GetCodeHash keccak db addr s =
    (let (so, s) = getStateObject keccak db addr s
     in (case so of None \<Rightarrow> zero_hash | Some obj \<Rightarrow> BytesToHash (so_CodeHash obj), s))"

definition GetState ::
  "(bytes \<Rightarrow> hash) \<Rightarrow> 'tr database \<Rightarrow> address \<Rightarrow> hash \<Rightarrow> 'tr StateDB \<Rightarrow> (hash \<times> 'tr StateDB) option" where
  "GetState keccak db addr key s =
    (case getStateObject keccak db addr s of
       (None, s) \<Rightarrow> Some (zero_hash, s)
     | (Some obj, s) \<Rightarrow>
         map_option (\<lambda>(value, obj). (value, setStateObject obj s)) (so_GetState (sd_ctx keccak db s) obj key))"

definition GetCommittedState ::
  "(bytes \<Rightarrow> hash) \<Rightarrow> 'tr database \<Rightarrow> address \<Rightarrow> hash \<Rightarrow> 'tr StateDB \<Rightarrow> (hash \<times> 'tr StateDB) option" where
  "GetCommittedState keccak db addr key s =
    (case getStateObject keccak db addr s of
       (None, s) \<Rightarrow> Some (zero_hash, s)
     | (Some obj, s) \<Rightarrow>
         map_option (\<lambda>(value, obj). (value, setStateObject obj s)) (so_GetCommittedState (sd_ctx keccak db s) obj key))"

definition HasSuicided :: "(bytes \<Rightarrow> hash) \<Rightarrow> 'tr database \<Rightarrow> address \<Rightarrow> 'tr StateDB \<Rightarrow> bool \<times> 'tr StateDB" where
  "HasSuicided keccak db addr s =
    (let (so, s) = getStateObject keccak db addr s
     in (case so of None \<Rightarrow> False | Some obj \<Rightarrow> so_suicided obj, s))"

definition GetLogs :: "hash \<Rightarrow> 'tr StateDB \<Rightarrow> Log list" where
  "GetLogs hash s = (case sd_logs s hash of None \<Rightarrow> [] | Some logs \<Rightarrow> logs)"

definition GetRefund :: "'tr StateDB \<Rightarrow> uint64" where
  "GetRefund s = sd_refund s"

definition AddressInAccessList :: "address \<Rightarrow> 'tr StateDB \<Rightarrow> bool" where
  "AddressInAccessList addr s = ContainsAddress (sd_accessList s) addr"

definition SlotInAccessList :: "address \<Rightarrow> hash \<Rightarrow> 'tr StateDB \<Rightarrow> (bool \<times> bool) option" where
  "SlotInAccessList addr slot s = Contains (sd_accessList s) addr slot"

subsection \<open>Journalled changes of an object\<close>

definition so_touch :: "'tr stateObject \<Rightarrow> 'tr StateDB \<Rightarrow> 'tr StateDB" where
  "so_touch obj s =
    (let s = journal_append (touchChange (so_address obj)) s
     in if so_address obj = ripemd then journal_dirty (so_address obj) s else s)"

definition so_SetBalance :: "int \<Rightarrow> 'tr stateObject \<Rightarrow> 'tr StateDB \<Rightarrow> 'tr StateDB" where
  "so_SetBalance amount obj s =
    setStateObject (so_setBalance amount obj) (journal_append (balanceChange (so_address obj) (so_Balance obj)) s)"

definition so_AddBalance :: "(bytes \<Rightarrow> hash) \<Rightarrow> int \<Rightarrow> 'tr stateObject \<Rightarrow> 'tr StateDB \<Rightarrow> 'tr StateDB" where
  "so_AddBalance keccak amount obj s =
    (if amount = 0 then (if so_empty keccak obj then so_touch obj s else s)
     else so_SetBalance (so_Balance obj + amount) obj s)"

definition so_SubBalance :: "int \<Rightarrow> 'tr stateObject \<Rightarrow> 'tr StateDB \<Rightarrow> 'tr StateDB" where
  "so_SubBalance amount obj s =
    (if amount = 0 then s else so_SetBalance (so_Balance obj - amount) obj s)"

definition so_SetNonce :: "uint64 \<Rightarrow> 'tr stateObject \<Rightarrow> 'tr StateDB \<Rightarrow> 'tr StateDB" where
  "so_SetNonce nonce obj s =
    setStateObject (so_setNonce nonce obj) (journal_append (nonceChange (so_address obj) (so_Nonce obj)) s)"

definition so_SetCode ::
  "(bytes \<Rightarrow> hash) \<Rightarrow> 'tr database \<Rightarrow> hash \<Rightarrow> bytes option \<Rightarrow> 'tr stateObject \<Rightarrow> 'tr StateDB \<Rightarrow> 'tr StateDB" where
  "so_SetCode keccak db codeHash code obj s =
    (let (prevcode, obj) = so_Code (sd_ctx keccak db s) obj
     in setStateObject (so_setCode codeHash code obj)
          (journal_append (codeChange (so_address obj) prevcode (so_CodeHash obj)) s))"

definition so_SetState ::
  "(bytes \<Rightarrow> hash) \<Rightarrow> 'tr database \<Rightarrow> hash \<Rightarrow> hash \<Rightarrow> 'tr stateObject \<Rightarrow> 'tr StateDB \<Rightarrow> 'tr StateDB option" where
  "so_SetState keccak db key value obj s =
    (case so_fakeStorage obj of
       Some fake \<Rightarrow> Some (setStateObject (obj\<lparr>so_fakeStorage := Some (fake(key \<mapsto> value))\<rparr>) s)
     | None \<Rightarrow>
         (case so_GetState (sd_ctx keccak db s) obj key of
            None \<Rightarrow> None
          | Some (prev, obj) \<Rightarrow>
              Some (if prev = value then setStateObject obj s
                    else setStateObject (so_setState key value obj)
                           (journal_append (storageChange (so_address obj) key prev) s))))"

subsection \<open>Writing\<close>

definition AddBalance :: "(bytes \<Rightarrow> hash) \<Rightarrow> 'tr database \<Rightarrow> address \<Rightarrow> int \<Rightarrow> 'tr StateDB \<Rightarrow> 'tr StateDB" where
  "AddBalance keccak db addr amount s =
    (let (obj, s) = GetOrNewStateObject keccak db addr s in so_AddBalance keccak amount obj s)"

definition SubBalance :: "(bytes \<Rightarrow> hash) \<Rightarrow> 'tr database \<Rightarrow> address \<Rightarrow> int \<Rightarrow> 'tr StateDB \<Rightarrow> 'tr StateDB" where
  "SubBalance keccak db addr amount s =
    (let (obj, s) = GetOrNewStateObject keccak db addr s in so_SubBalance amount obj s)"

definition SetBalance :: "(bytes \<Rightarrow> hash) \<Rightarrow> 'tr database \<Rightarrow> address \<Rightarrow> int \<Rightarrow> 'tr StateDB \<Rightarrow> 'tr StateDB" where
  "SetBalance keccak db addr amount s =
    (let (obj, s) = GetOrNewStateObject keccak db addr s in so_SetBalance amount obj s)"

definition SetNonce :: "(bytes \<Rightarrow> hash) \<Rightarrow> 'tr database \<Rightarrow> address \<Rightarrow> uint64 \<Rightarrow> 'tr StateDB \<Rightarrow> 'tr StateDB" where
  "SetNonce keccak db addr nonce s =
    (let (obj, s) = GetOrNewStateObject keccak db addr s in so_SetNonce nonce obj s)"

text \<open>A nil code is \<open>None\<close>; its hash is that of the empty string.\<close>

definition SetCode :: "(bytes \<Rightarrow> hash) \<Rightarrow> 'tr database \<Rightarrow> address \<Rightarrow> bytes option \<Rightarrow> 'tr StateDB \<Rightarrow> 'tr StateDB" where
  "SetCode keccak db addr code s =
    (let (obj, s) = GetOrNewStateObject keccak db addr s
     in so_SetCode keccak db (keccak (case code of None \<Rightarrow> [] | Some c \<Rightarrow> c)) code obj s)"

definition SetState ::
  "(bytes \<Rightarrow> hash) \<Rightarrow> 'tr database \<Rightarrow> address \<Rightarrow> hash \<Rightarrow> hash \<Rightarrow> 'tr StateDB \<Rightarrow> 'tr StateDB option" where
  "SetState keccak db addr key value s =
    (let (obj, s) = GetOrNewStateObject keccak db addr s in so_SetState keccak db key value obj s)"

definition SetStorage :: "(bytes \<Rightarrow> hash) \<Rightarrow> 'tr database \<Rightarrow> address \<Rightarrow> Storage \<Rightarrow> 'tr StateDB \<Rightarrow> 'tr StateDB" where
  "SetStorage keccak db addr storage s =
    (let (obj, s) = GetOrNewStateObject keccak db addr s in setStateObject (so_SetStorage storage obj) s)"

definition Suicide :: "(bytes \<Rightarrow> hash) \<Rightarrow> 'tr database \<Rightarrow> address \<Rightarrow> 'tr StateDB \<Rightarrow> bool \<times> 'tr StateDB" where
  "Suicide keccak db addr s =
    (case getStateObject keccak db addr s of
       (None, s) \<Rightarrow> (False, s)
     | (Some obj, s) \<Rightarrow>
         (True, setStateObject ((markSuicided obj)\<lparr>so_Balance := 0\<rparr>)
                  (journal_append (suicideChange addr (so_suicided obj) (so_Balance obj)) s)))"

definition AddLog :: "Log \<Rightarrow> 'tr StateDB \<Rightarrow> 'tr StateDB" where
  "AddLog log s =
    (let s = journal_append (addLogChange (sd_thash s)) s;
         log = log\<lparr>log_TxHash := sd_thash s, log_BlockHash := sd_bhash s,
                   log_TxIndex := word_of_int (sd_txIndex s), log_Index := sd_logSize s\<rparr>
     in s\<lparr>sd_logs := (sd_logs s)(sd_thash s \<mapsto> GetLogs (sd_thash s) s @ [log]), sd_logSize := sd_logSize s + 1\<rparr>)"

definition AddPreimage :: "hash \<Rightarrow> bytes \<Rightarrow> 'tr StateDB \<Rightarrow> 'tr StateDB" where
  "AddPreimage hash preimage s =
    (if sd_preimages s hash = None
     then (journal_append (addPreimageChange hash) s)\<lparr>sd_preimages := (sd_preimages s)(hash \<mapsto> preimage)\<rparr>
     else s)"

definition AddRefund :: "uint64 \<Rightarrow> 'tr StateDB \<Rightarrow> 'tr StateDB" where
  "AddRefund smoke s = (journal_append (refundChange (sd_refund s)) s)\<lparr>sd_refund := sd_refund s + smoke\<rparr>"

definition SubRefund :: "uint64 \<Rightarrow> 'tr StateDB \<Rightarrow> 'tr StateDB option" where
  "SubRefund smoke s =
    (let s = journal_append (refundChange (sd_refund s)) s
     in if sd_refund s < smoke then None else Some (s\<lparr>sd_refund := sd_refund s - smoke\<rparr>))"

definition AddAddressToAccessList :: "address \<Rightarrow> 'tr StateDB \<Rightarrow> 'tr StateDB" where
  "AddAddressToAccessList addr s =
    (let (added, al) = AddAddress (sd_accessList s) addr; s = s\<lparr>sd_accessList := al\<rparr>
     in if added then journal_append (accessListAddAccountChange addr) s else s)"

definition AddSlotToAccessList :: "address \<Rightarrow> hash \<Rightarrow> 'tr StateDB \<Rightarrow> 'tr StateDB option" where
  "AddSlotToAccessList addr slot s =
    (case AddSlot (sd_accessList s) addr slot of
       None \<Rightarrow> None
     | Some ((addrMod, slotMod), al) \<Rightarrow>
         (let s = s\<lparr>sd_accessList := al\<rparr>;
              s = (if addrMod then journal_append (accessListAddAccountChange addr) s else s);
              s = (if slotMod then journal_append (accessListAddSlotChange addr slot) s else s)
          in Some s))"

subsection \<open>Snapshots\<close>

text \<open>\<open>revert\<close> of each kind of journal entry; a nil object or an index out of range is \<open>None\<close>.\<close>

definition revert_object ::
  "(bytes \<Rightarrow> hash) \<Rightarrow> 'tr database \<Rightarrow> address \<Rightarrow> ('tr stateObject \<Rightarrow> 'tr stateObject) \<Rightarrow> 'tr StateDB \<Rightarrow> 'tr StateDB option" where
  "revert_object keccak db addr f s =
    (case getStateObject keccak db addr s of (None, s) \<Rightarrow> None | (Some obj, s) \<Rightarrow> Some (setStateObject (f obj) s))"

fun entry_revert ::
  "(bytes \<Rightarrow> hash) \<Rightarrow> 'tr database \<Rightarrow> 'tr journalEntry \<Rightarrow> 'tr StateDB \<Rightarrow> 'tr StateDB option" where
  "entry_revert keccak db (createObjectChange account) s =
    Some (s\<lparr>sd_stateObjects := (sd_stateObjects s)(account := None),
            sd_stateObjectsDirty := sd_stateObjectsDirty s - {account}\<rparr>)"
| "entry_revert keccak db (resetObjectChange prev prevdestruct) s =
    (let s = setStateObject prev s
     in Some (if \<not> prevdestruct \<and> sd_snap s \<noteq> None
              then s\<lparr>sd_snapDestructs := sd_snapDestructs s - {so_addrHash prev}\<rparr> else s))"
| "entry_revert keccak db (suicideChange account prev prevbalance) s =
    (case getStateObject keccak db account s of
       (None, s) \<Rightarrow> Some s
     | (Some obj, s) \<Rightarrow> Some (setStateObject (so_setBalance prevbalance (obj\<lparr>so_suicided := prev\<rparr>)) s))"
| "entry_revert keccak db (balanceChange account prev) s = revert_object keccak db account (so_setBalance prev) s"
| "entry_revert keccak db (nonceChange account prev) s = revert_object keccak db account (so_setNonce prev) s"
| "entry_revert keccak db (storageChange account key prevalue) s =
    revert_object keccak db account (so_setState key prevalue) s"
| "entry_revert keccak db (codeChange account prevcode prevhash) s =
    revert_object keccak db account (so_setCode (BytesToHash prevhash) prevcode) s"
| "entry_revert keccak db (refundChange prev) s = Some (s\<lparr>sd_refund := prev\<rparr>)"
| "entry_revert keccak db (addLogChange txhash) s =
    (let logs = GetLogs txhash s
     in if length logs = 0 then None
        else Some (s\<lparr>sd_logs := (if length logs = 1 then (sd_logs s)(txhash := None)
                                 else (sd_logs s)(txhash \<mapsto> take (length logs - 1) logs)),
                     sd_logSize := sd_logSize s - 1\<rparr>))"
| "entry_revert keccak db (addPreimageChange hash) s = Some (s\<lparr>sd_preimages := (sd_preimages s)(hash := None)\<rparr>)"
| "entry_revert keccak db (touchChange account) s = Some s"
| "entry_revert keccak db (accessListAddAccountChange addr) s =
    Some (s\<lparr>sd_accessList := DeleteAddress (sd_accessList s) addr\<rparr>)"
| "entry_revert keccak db (accessListAddSlotChange addr slot) s =
    map_option (\<lambda>al. s\<lparr>sd_accessList := al\<rparr>) (DeleteSlot (sd_accessList s) addr slot)"

text \<open>
  \<open>journal.revert\<close>: the entries from the last one down to the snapshot, then the cut of
  the journal.
\<close>

definition drop_dirty :: "'tr journalEntry \<Rightarrow> 'tr StateDB \<Rightarrow> 'tr StateDB" where
  "drop_dirty entry s =
    (case dirtied entry of
       None \<Rightarrow> s
     | Some addr \<Rightarrow> s\<lparr>sd_journal := (sd_journal s)\<lparr>j_dirties := dirties_dec addr (j_dirties (sd_journal s))\<rparr>\<rparr>)"

fun revert_entries ::
  "(bytes \<Rightarrow> hash) \<Rightarrow> 'tr database \<Rightarrow> 'tr journalEntry list \<Rightarrow> 'tr StateDB \<Rightarrow> 'tr StateDB option" where
  "revert_entries keccak db [] s = Some s"
| "revert_entries keccak db (entry # entries) s =
    (case entry_revert keccak db entry s of
       None \<Rightarrow> None
     | Some s \<Rightarrow> revert_entries keccak db entries (drop_dirty entry s))"

definition journal_revert ::
  "(bytes \<Rightarrow> hash) \<Rightarrow> 'tr database \<Rightarrow> nat \<Rightarrow> 'tr StateDB \<Rightarrow> 'tr StateDB option" where
  "journal_revert keccak db snapshot s =
    (case revert_entries keccak db (rev (drop snapshot (j_entries (sd_journal s)))) s of
       None \<Rightarrow> None
     | Some s \<Rightarrow> Some (s\<lparr>sd_journal := (sd_journal s)\<lparr>j_entries := take snapshot (j_entries (sd_journal s))\<rparr>\<rparr>))"

text \<open>\<open>sort.Search\<close>: the binary search for the first index where the predicate holds.\<close>

function sort_Search :: "(nat \<Rightarrow> bool) \<Rightarrow> nat \<Rightarrow> nat \<Rightarrow> nat" where
  "sort_Search f i j =
    (if i < j then let h = (i + j) div 2 in if \<not> f h then sort_Search f (h + 1) j else sort_Search f i h
     else i)"
  by auto
termination by (relation "measure (\<lambda>(f, i, j). j - i)") auto

declare sort_Search.simps [simp del]

definition Snapshot :: "'tr StateDB \<Rightarrow> nat \<times> 'tr StateDB" where
  "Snapshot s =
    (sd_nextRevisionId s,
     s\<lparr>sd_nextRevisionId := sd_nextRevisionId s + 1,
       sd_validRevisions := sd_validRevisions s @ [\<lparr>rev_id = sd_nextRevisionId s, rev_journalIndex = journal_length s\<rparr>]\<rparr>)"

definition RevertToSnapshot :: "(bytes \<Rightarrow> hash) \<Rightarrow> 'tr database \<Rightarrow> nat \<Rightarrow> 'tr StateDB \<Rightarrow> 'tr StateDB option" where
  "RevertToSnapshot keccak db revid s =
    (let revs = sd_validRevisions s;
         idx = sort_Search (\<lambda>i. revid \<le> rev_id (revs ! i)) 0 (length revs)
     in if idx = length revs \<or> rev_id (revs ! idx) \<noteq> revid then None
        else case journal_revert keccak db (rev_journalIndex (revs ! idx)) s of
               None \<Rightarrow> None
             | Some s \<Rightarrow> Some (s\<lparr>sd_validRevisions := take idx revs\<rparr>))"

subsection \<open>Creation and transaction boundaries\<close>

text \<open>
  \<open>New\<close> and \<open>Reset\<close> take the lookup of the snapshot tree, \<open>None\<close> for a nil tree. The maps of
  a state without a snapshot are nil, which reads as empty.
\<close>

definition state_New :: "'tr database \<Rightarrow> (hash \<Rightarrow> snapshot option) option \<Rightarrow> hash \<Rightarrow> db_err + 'tr StateDB" where
  "state_New db snaps root =
    (case db_OpenTrie db root of
       Inl err \<Rightarrow> Inl err
     | Inr tr \<Rightarrow>
         Inr \<lparr>sd_trie = tr,
              sd_snap = (case snaps of None \<Rightarrow> None | Some lookup \<Rightarrow> lookup root),
              sd_snapDestructs = {}, sd_snapAccounts = Map.empty, sd_snapStorage = Map.empty,
              sd_stateObjects = Map.empty, sd_stateObjectsPending = {}, sd_stateObjectsDirty = {},
              sd_dbErr = None, sd_refund = 0,
              sd_thash = zero_hash, sd_bhash = zero_hash, sd_txIndex = 0,
              sd_logs = Map.empty, sd_logSize = 0, sd_preimages = Map.empty,
              sd_accessList = newAccessList,
              sd_journal = newJournal, sd_validRevisions = [], sd_nextRevisionId = 0\<rparr>)"

definition clearJournalAndRefund :: "'tr StateDB \<Rightarrow> 'tr StateDB" where
  "clearJournalAndRefund s =
    (let s = (if 0 < length (j_entries (sd_journal s)) then s\<lparr>sd_journal := newJournal, sd_refund := 0\<rparr> else s)
     in s\<lparr>sd_validRevisions := []\<rparr>)"

definition state_Reset ::
  "'tr database \<Rightarrow> (hash \<Rightarrow> snapshot option) option \<Rightarrow> hash \<Rightarrow> 'tr StateDB \<Rightarrow> db_err + 'tr StateDB" where
  "state_Reset db snaps root s =
    (case db_OpenTrie db root of
       Inl err \<Rightarrow> Inl err
     | Inr tr \<Rightarrow>
         (let s = s\<lparr>sd_trie := tr, sd_stateObjects := Map.empty, sd_stateObjectsPending := {}, sd_stateObjectsDirty := {},
                    sd_thash := zero_hash, sd_bhash := zero_hash, sd_txIndex := 0,
                    sd_logs := Map.empty, sd_logSize := 0, sd_preimages := Map.empty\<rparr>;
              s = clearJournalAndRefund s;
              s = (case snaps of
                     None \<Rightarrow> s
                   | Some lookup \<Rightarrow>
                       s\<lparr>sd_snap := lookup root, sd_snapDestructs := {}, sd_snapAccounts := Map.empty,
                         sd_snapStorage := Map.empty\<rparr>)
          in Inr (s\<lparr>sd_accessList := newAccessList\<rparr>)))"

definition Prepare :: "hash \<Rightarrow> hash \<Rightarrow> int \<Rightarrow> 'tr StateDB \<Rightarrow> 'tr StateDB" where
  "Prepare thash bhash ti s =
    s\<lparr>sd_thash := thash, sd_bhash := bhash, sd_txIndex := ti, sd_accessList := newAccessList\<rparr>"

text \<open>
  \<open>Finalise\<close>: one round of its loop for an address of the dirty map; the order in which
  the map is iterated is an argument.
\<close>

definition finalise_step :: "(bytes \<Rightarrow> hash) \<Rightarrow> bool \<Rightarrow> address \<Rightarrow> 'tr StateDB \<Rightarrow> 'tr StateDB" where
  "finalise_step keccak deleteEmptyObjects addr s =
    (case sd_stateObjects s addr of
       None \<Rightarrow> s
     | Some obj \<Rightarrow>
         (let s = (if so_suicided obj \<or> (deleteEmptyObjects \<and> so_empty keccak obj)
                   then let s = s\<lparr>sd_stateObjects := (sd_stateObjects s)(addr \<mapsto> obj\<lparr>so_deleted := True\<rparr>)\<rparr>
                        in if sd_snap s \<noteq> None
                           then s\<lparr>sd_snapDestructs := insert (so_addrHash obj) (sd_snapDestructs s),
                                  sd_snapAccounts := (sd_snapAccounts s)(so_addrHash obj := None),
                                  sd_snapStorage := (sd_snapStorage s)(so_addrHash obj := None)\<rparr>
                           else s
                   else s\<lparr>sd_stateObjects := (sd_stateObjects s)(addr \<mapsto> so_finalise obj)\<rparr>)
          in s\<lparr>sd_stateObjectsPending := insert addr (sd_stateObjectsPending s),
               sd_stateObjectsDirty := insert addr (sd_stateObjectsDirty s)\<rparr>))"

definition Finalise :: "(bytes \<Rightarrow> hash) \<Rightarrow> bool \<Rightarrow> address list \<Rightarrow> 'tr StateDB \<Rightarrow> 'tr StateDB" where
  "Finalise keccak deleteEmptyObjects order s =
    clearJournalAndRefund (fold (finalise_step keccak deleteEmptyObjects) order s)"

subsection \<open>Writing accounts to the trie\<close>

text \<open>\<open>SlimAccountRLP\<close> of \<open>src/core/state/snapshot/account.go\<close>; \<open>None\<close> is the panic.\<close>

definition slim_type :: gtype where
  "slim_type = TStruct [TUint 64, TBigInt, TByteSlice, TByteSlice]"

definition SlimAccount :: "(bytes \<Rightarrow> hash) \<Rightarrow> uint64 \<Rightarrow> int \<Rightarrow> hash \<Rightarrow> bytes \<Rightarrow> snap_account" where
  "SlimAccount keccak nonce balance root codehash =
    \<lparr>sa_Nonce = nonce, sa_Balance = balance,
     sa_Root = (if root \<noteq> emptyRoot then root else []),
     sa_CodeHash = (if codehash \<noteq> emptyCodeHash keccak then codehash else [])\<rparr>"

definition slim_gval :: "snap_account \<Rightarrow> gval" where
  "slim_gval a = VList [VUint (sa_Nonce a), VBigInt (sa_Balance a), VBytes (sa_Root a), VBytes (sa_CodeHash a)]"

definition SlimAccountRLP :: "(bytes \<Rightarrow> hash) \<Rightarrow> uint64 \<Rightarrow> int \<Rightarrow> hash \<Rightarrow> bytes \<Rightarrow> bytes option" where
  "SlimAccountRLP keccak nonce balance root codehash =
    (case EncodeToBytes slim_type (slim_gval (SlimAccount keccak nonce balance root codehash)) of
       Inl _ \<Rightarrow> None | Inr data \<Rightarrow> Some data)"

text \<open>\<open>FullAccount\<close> and \<open>FullAccountRLP\<close>; two units of fuel are enough for a struct of leaves.\<close>

definition FullAccount :: "(bytes \<Rightarrow> hash) \<Rightarrow> bytes \<Rightarrow> (rlp_err + snap_account) option" where
  "FullAccount keccak data =
    (case DecodeBytes 2 slim_type data of
       Some (Inr (VList [VUint nonce, VBigInt balance, VBytes root, VBytes codehash])) \<Rightarrow>
         Some (Inr \<lparr>sa_Nonce = nonce, sa_Balance = balance,
                    sa_Root = (if length root = 0 then emptyRoot else root),
                    sa_CodeHash = (if length codehash = 0 then emptyCodeHash keccak else codehash)\<rparr>)
     | Some (Inl e) \<Rightarrow> Some (Inl e)
     | _ \<Rightarrow> None)"

definition FullAccountRLP :: "(bytes \<Rightarrow> hash) \<Rightarrow> bytes \<Rightarrow> (rlp_err + bytes) option" where
  "FullAccountRLP keccak data =
    (case FullAccount keccak data of
       None \<Rightarrow> None
     | Some (Inl e) \<Rightarrow> Some (Inl e)
     | Some (Inr account) \<Rightarrow> Some (EncodeToBytes slim_type (slim_gval account)))"

definition updateStateObject :: "(bytes \<Rightarrow> hash) \<Rightarrow> 'tr database \<Rightarrow> 'tr stateObject \<Rightarrow> 'tr StateDB \<Rightarrow> 'tr StateDB option" where
  "updateStateObject keccak db obj s =
    (case so_EncodeRLP obj of
       Inl _ \<Rightarrow> None
     | Inr data \<Rightarrow>
         (let (err, tr) = tr_TryUpdate db (sd_trie s) (so_address obj) data;
              s = s\<lparr>sd_trie := tr\<rparr>;
              s = (case err of None \<Rightarrow> s | Some e \<Rightarrow> sd_setError (Some (DBUpdateObject (so_address obj) e)) s)
          in if sd_snap s = None then Some s
             else case SlimAccountRLP keccak (so_Nonce obj) (so_Balance obj) (so_Root obj) (so_CodeHash obj) of
                    None \<Rightarrow> None
                  | Some slim \<Rightarrow> Some (s\<lparr>sd_snapAccounts := (sd_snapAccounts s)(so_addrHash obj \<mapsto> slim)\<rparr>)))"

definition deleteStateObject :: "'tr database \<Rightarrow> 'tr stateObject \<Rightarrow> 'tr StateDB \<Rightarrow> 'tr StateDB" where
  "deleteStateObject db obj s =
    (let (err, tr) = tr_TryDelete db (sd_trie s) (so_address obj);
         s = s\<lparr>sd_trie := tr\<rparr>
     in case err of None \<Rightarrow> s | Some e \<Rightarrow> sd_setError (Some (DBDeleteObject (so_address obj) e)) s)"

text \<open>\<open>updateRoot\<close> on an object of the state: the storage map of the snapshot is the state's.\<close>

definition store_snap :: "'tr stateObject \<Rightarrow> snap_storage option \<Rightarrow> 'tr StateDB \<Rightarrow> 'tr StateDB" where
  "store_snap obj storage s = s\<lparr>sd_snapStorage := (sd_snapStorage s)(so_addrHash obj := storage)\<rparr>"

definition sd_updateRoot ::
  "(bytes \<Rightarrow> hash) \<Rightarrow> 'tr database \<Rightarrow> hash list \<Rightarrow> 'tr stateObject \<Rightarrow> 'tr StateDB \<Rightarrow> ('tr stateObject \<times> 'tr StateDB) option" where
  "sd_updateRoot keccak db order obj s =
    (case updateRoot (sd_ctx keccak db s) order (sd_snapStorage s (so_addrHash obj)) obj of
       None \<Rightarrow> None
     | Some (storage, obj) \<Rightarrow> Some (obj, setStateObject obj (store_snap obj storage s)))"

text \<open>
  \<open>IntermediateRoot\<close>, with the iteration orders of the dirty map, of the pending set, and of
  the pending slots of each object.
\<close>

definition root_step ::
  "(bytes \<Rightarrow> hash) \<Rightarrow> 'tr database \<Rightarrow> (address \<Rightarrow> hash list) \<Rightarrow> address \<Rightarrow> 'tr StateDB \<Rightarrow> 'tr StateDB option" where
  "root_step keccak db slots addr s =
    (case sd_stateObjects s addr of
       None \<Rightarrow> None
     | Some obj \<Rightarrow>
         (if so_deleted obj then Some (deleteStateObject db obj s)
          else case sd_updateRoot keccak db (slots addr) obj s of
                 None \<Rightarrow> None
               | Some (obj, s) \<Rightarrow> updateStateObject keccak db obj s))"

fun root_steps ::
  "(bytes \<Rightarrow> hash) \<Rightarrow> 'tr database \<Rightarrow> (address \<Rightarrow> hash list) \<Rightarrow> address list \<Rightarrow> 'tr StateDB \<Rightarrow> 'tr StateDB option" where
  "root_steps keccak db slots [] s = Some s"
| "root_steps keccak db slots (addr # addrs) s =
    (case root_step keccak db slots addr s of None \<Rightarrow> None | Some s \<Rightarrow> root_steps keccak db slots addrs s)"

definition IntermediateRoot ::
  "(bytes \<Rightarrow> hash) \<Rightarrow> 'tr database \<Rightarrow> bool \<Rightarrow> address list \<Rightarrow> address list \<Rightarrow> (address \<Rightarrow> hash list) \<Rightarrow> 'tr StateDB \<Rightarrow>
    (hash \<times> 'tr StateDB) option" where
  "IntermediateRoot keccak db deleteEmptyObjects dirties pendings slots s =
    (let s = Finalise keccak deleteEmptyObjects dirties s
     in case root_steps keccak db slots pendings s of
          None \<Rightarrow> None
        | Some s \<Rightarrow>
            (let (root, tr) = tr_Hash db (sd_trie s)
             in Some (root, s\<lparr>sd_stateObjectsPending := {}, sd_trie := tr\<rparr>)))"

text \<open>
  \<open>StorageTrie\<close>: the trie of a copy of the object with its storage written to it. The copy
  shares the snapshot storage map of the state.
\<close>

definition StorageTrie ::
  "(bytes \<Rightarrow> hash) \<Rightarrow> 'tr database \<Rightarrow> hash list \<Rightarrow> address \<Rightarrow> 'tr StateDB \<Rightarrow> ('tr option \<times> 'tr StateDB) option" where
  "StorageTrie keccak db order addr s =
    (case getStateObject keccak db addr s of
       (None, s) \<Rightarrow> Some (None, s)
     | (Some obj, s) \<Rightarrow>
         (let cpy = so_deepCopy (sd_ctx keccak db s) obj
          in case updateTrie (sd_ctx keccak db s) order (sd_snapStorage s (so_addrHash cpy)) cpy of
               None \<Rightarrow> None
             | Some (_, storage, cpy) \<Rightarrow> Some (fst (getTrie db cpy), store_snap cpy storage s)))"

subsection \<open>Copies\<close>

text \<open>
  \<open>Copy\<close>. The objects of the dirty journal entries are copied when they are live; those of
  the pending and dirty sets must be live, or the copy panics.
\<close>

definition state_Copy :: "(bytes \<Rightarrow> hash) \<Rightarrow> 'tr database \<Rightarrow> 'tr StateDB \<Rightarrow> 'tr StateDB option" where
  "state_Copy keccak db s =
    (let journalled = dom (j_dirties (sd_journal s)) \<inter> dom (sd_stateObjects s);
         others = sd_stateObjectsPending s \<union> sd_stateObjectsDirty s;
         ctx = \<lparr>ctx_keccak = keccak, ctx_db = db, ctx_snap = None, ctx_snapDestructs = {}\<rparr>
     in if \<not> others \<subseteq> dom (sd_stateObjects s) then None
        else Some
          \<lparr>sd_trie = db_CopyTrie db (sd_trie s),
           sd_snap = None, sd_snapDestructs = {}, sd_snapAccounts = Map.empty, sd_snapStorage = Map.empty,
           sd_stateObjects =
             (\<lambda>addr. if addr \<in> journalled \<union> others
                     then map_option (so_deepCopy ctx) (sd_stateObjects s addr) else None),
           sd_stateObjectsPending = journalled \<union> sd_stateObjectsPending s,
           sd_stateObjectsDirty = journalled \<union> sd_stateObjectsDirty s,
           sd_dbErr = None, sd_refund = sd_refund s,
           sd_thash = zero_hash, sd_bhash = zero_hash, sd_txIndex = 0,
           sd_logs = sd_logs s, sd_logSize = sd_logSize s, sd_preimages = sd_preimages s,
           sd_accessList = accessList_Copy (sd_accessList s),
           sd_journal = newJournal, sd_validRevisions = [], sd_nextRevisionId = 0\<rparr>)"

end
