(* ===== verification/State_View.thy ===== *)
theory State_View
  imports State_DB
begin

section \<open>The observable state and the journal\<close>

text \<open>
  What a caller can read from a state database, and how the journal acts on it. Loading an
  account, reading a slot or the code changes caches, but not the view. Each journal entry
  has an effect on views that the code's \<open>revert\<close> implements, and each operation leaves
  entries that take the new view back to the old one.
\<close>

subsection \<open>Views\<close>

record object_view =
  ov_nonce :: uint64
  ov_balance :: int
  ov_root :: hash
  ov_codeHash :: bytes
  ov_code :: "bytes option"
  ov_committed :: "hash \<Rightarrow> hash option"
  ov_state :: "hash \<Rightarrow> hash option"
  ov_suicided :: bool
  ov_deleted :: bool

definition oview :: "'tr obj_ctx \<Rightarrow> 'tr stateObject \<Rightarrow> object_view" where
  "oview ctx obj =
    \<lparr>ov_nonce = so_Nonce obj, ov_balance = so_Balance obj, ov_root = so_Root obj, ov_codeHash = so_CodeHash obj,
     ov_code = fst (so_Code ctx obj),
     ov_committed = (\<lambda>key. map_option fst (so_GetCommittedState ctx obj key)),
     ov_state = (\<lambda>key. map_option fst (so_GetState ctx obj key)),
     ov_suicided = so_suicided obj, ov_deleted = so_deleted obj\<rparr>"

text \<open>The account that the snapshot or the trie holds at an address.\<close>

definition base_data :: "(bytes \<Rightarrow> hash) \<Rightarrow> 'tr database \<Rightarrow> 'tr StateDB \<Rightarrow> address \<Rightarrow> Account option" where
  "base_data keccak db s addr =
    (let from_trie =
           (case fst (tr_TryGet db (sd_trie s) addr) of
              Inl _ \<Rightarrow> None
            | Inr blob \<Rightarrow> if length blob = 0 then None else decode_Account blob)
     in case sd_snap s of
          None \<Rightarrow> from_trie
        | Some snap \<Rightarrow>
            (case snap_Account snap (keccak addr) of
               Inl _ \<Rightarrow> from_trie
             | Inr None \<Rightarrow> None
             | Inr (Some acc) \<Rightarrow> Some (snap_data keccak acc)))"

definition lookup_obj :: "(bytes \<Rightarrow> hash) \<Rightarrow> 'tr database \<Rightarrow> 'tr StateDB \<Rightarrow> address \<Rightarrow> 'tr stateObject option" where
  "lookup_obj keccak db s addr =
    (case sd_stateObjects s addr of
       Some obj \<Rightarrow> Some obj
     | None \<Rightarrow> map_option (newObject keccak addr) (base_data keccak db s addr))"

record state_view =
  v_objects :: "address \<Rightarrow> object_view option"
  v_base :: "address \<Rightarrow> Account option"
  v_snap :: "snapshot option"
  v_destructs :: "hash set"
  v_refund :: uint64
  v_thash :: hash
  v_bhash :: hash
  v_txIndex :: int
  v_logs :: "hash \<rightharpoonup> Log list"
  v_logSize :: uint64
  v_preimages :: "hash \<rightharpoonup> bytes"
  v_accessList :: accessList

text \<open>The view, on a set of addresses.\<close>

definition view :: "(bytes \<Rightarrow> hash) \<Rightarrow> 'tr database \<Rightarrow> address set \<Rightarrow> 'tr StateDB \<Rightarrow> state_view" where
  "view keccak db A s =
    \<lparr>v_objects = (\<lambda>a. if a \<in> A then map_option (oview (sd_ctx keccak db s)) (lookup_obj keccak db s a) else None),
     v_base = (\<lambda>a. if a \<in> A then base_data keccak db s a else None),
     v_snap = sd_snap s, v_destructs = sd_snapDestructs s, v_refund = sd_refund s,
     v_thash = sd_thash s, v_bhash = sd_bhash s, v_txIndex = sd_txIndex s,
     v_logs = sd_logs s, v_logSize = sd_logSize s, v_preimages = sd_preimages s,
     v_accessList = sd_accessList s\<rparr>"

definition v_ctx :: "(bytes \<Rightarrow> hash) \<Rightarrow> 'tr database \<Rightarrow> state_view \<Rightarrow> 'tr obj_ctx" where
  "v_ctx keccak db v =
    \<lparr>ctx_keccak = keccak, ctx_db = db, ctx_snap = v_snap v, ctx_snapDestructs = v_destructs v\<rparr>"

definition live_obj :: "(bytes \<Rightarrow> hash) \<Rightarrow> 'tr database \<Rightarrow> 'tr StateDB \<Rightarrow> address \<Rightarrow> 'tr stateObject option" where
  "live_obj keccak db s a =
    (case lookup_obj keccak db s a of None \<Rightarrow> None | Some obj \<Rightarrow> if so_deleted obj then None else Some obj)"

definition v_live :: "state_view \<Rightarrow> address \<Rightarrow> object_view option" where
  "v_live v a = (case v_objects v a of None \<Rightarrow> None | Some ob \<Rightarrow> if ov_deleted ob then None else Some ob)"

definition v_put :: "address \<Rightarrow> object_view \<Rightarrow> state_view \<Rightarrow> state_view" where
  "v_put a ob v = v\<lparr>v_objects := (v_objects v)(a \<mapsto> ob)\<rparr>"

subsection \<open>Entries on views\<close>

definition code_value :: "(bytes \<Rightarrow> hash) \<Rightarrow> 'tr database \<Rightarrow> address \<Rightarrow> bytes option \<Rightarrow> hash \<Rightarrow> bytes option" where
  "code_value keccak db a code codeHash =
    (case code of
       Some c \<Rightarrow> Some c
     | None \<Rightarrow> if codeHash = emptyCodeHash keccak then None
               else case db_ContractCode db (keccak a) (BytesToHash codeHash) of Inl _ \<Rightarrow> None | Inr c \<Rightarrow> Some c)"

definition v_modify :: "address \<Rightarrow> (object_view \<Rightarrow> object_view) \<Rightarrow> state_view \<Rightarrow> state_view option" where
  "v_modify a f v = map_option (\<lambda>ob. v_put a (f ob) v) (v_live v a)"

fun revert_view ::
  "(bytes \<Rightarrow> hash) \<Rightarrow> 'tr database \<Rightarrow> 'tr journalEntry \<Rightarrow> state_view \<Rightarrow> state_view option" where
  "revert_view keccak db (createObjectChange a) v =
    Some (v\<lparr>v_objects := (v_objects v)(a := map_option (\<lambda>d. oview (v_ctx keccak db v) (newObject keccak a d)) (v_base v a))\<rparr>)"
| "revert_view keccak db (resetObjectChange prev prevdestruct) v =
    (let v = (if \<not> prevdestruct \<and> v_snap v \<noteq> None then v\<lparr>v_destructs := v_destructs v - {so_addrHash prev}\<rparr> else v)
     in Some (v_put (so_address prev) (oview (v_ctx keccak db v) prev) v))"
| "revert_view keccak db (suicideChange a prev prevbalance) v =
    Some (case v_live v a of
            None \<Rightarrow> v
          | Some ob \<Rightarrow> v_put a (ob\<lparr>ov_suicided := prev, ov_balance := prevbalance\<rparr>) v)"
| "revert_view keccak db (balanceChange a prev) v = v_modify a (ov_balance_update (\<lambda>_. prev)) v"
| "revert_view keccak db (nonceChange a prev) v = v_modify a (ov_nonce_update (\<lambda>_. prev)) v"
| "revert_view keccak db (storageChange a key prevalue) v =
    v_modify a (\<lambda>ob. ob\<lparr>ov_state := (ov_state ob)(key \<mapsto> prevalue)\<rparr>) v"
| "revert_view keccak db (codeChange a prevcode prevhash) v =
    v_modify a (\<lambda>ob. ob\<lparr>ov_code := code_value keccak db a prevcode (BytesToHash prevhash), ov_codeHash := BytesToHash prevhash\<rparr>) v"
| "revert_view keccak db (refundChange prev) v = Some (v\<lparr>v_refund := prev\<rparr>)"
| "revert_view keccak db (addLogChange txhash) v =
    (let logs = (case v_logs v txhash of None \<Rightarrow> [] | Some logs \<Rightarrow> logs)
     in if length logs = 0 then None
        else Some (v\<lparr>v_logs := (if length logs = 1 then (v_logs v)(txhash := None)
                                else (v_logs v)(txhash \<mapsto> take (length logs - 1) logs)),
                     v_logSize := v_logSize v - 1\<rparr>))"
| "revert_view keccak db (addPreimageChange hash) v = Some (v\<lparr>v_preimages := (v_preimages v)(hash := None)\<rparr>)"
| "revert_view keccak db (touchChange a) v = Some v"
| "revert_view keccak db (accessListAddAccountChange a) v =
    Some (v\<lparr>v_accessList := DeleteAddress (v_accessList v) a\<rparr>)"
| "revert_view keccak db (accessListAddSlotChange a slot) v =
    map_option (\<lambda>al. v\<lparr>v_accessList := al\<rparr>) (DeleteSlot (v_accessList v) a slot)"

fun revert_views ::
  "(bytes \<Rightarrow> hash) \<Rightarrow> 'tr database \<Rightarrow> 'tr journalEntry list \<Rightarrow> state_view \<Rightarrow> state_view option" where
  "revert_views keccak db [] v = Some v"
| "revert_views keccak db (e # es) v =
    (case revert_view keccak db e v of None \<Rightarrow> None | Some v \<Rightarrow> revert_views keccak db es v)"

lemma revert_views_append:
  "revert_views K db (es @ es') v = (case revert_views K db es v of None \<Rightarrow> None | Some v \<Rightarrow> revert_views K db es' v)"
  by (induction es arbitrary: v) (auto split: option.splits)

subsection \<open>Well-formed states\<close>

definition obj_ok :: "(bytes \<Rightarrow> hash) \<Rightarrow> ('tr \<Rightarrow> bool) \<Rightarrow> address \<Rightarrow> 'tr stateObject \<Rightarrow> bool" where
  "obj_ok keccak good a obj \<longleftrightarrow>
    so_address obj = a \<and> so_addrHash obj = keccak a \<and> pred_option good (so_trie obj) \<and>
    so_fakeStorage obj = None \<and> length (so_CodeHash obj) = 32"

definition data_ok :: "Account \<Rightarrow> bool" where
  "data_ok d \<longleftrightarrow> pred_option (\<lambda>h. length h = 32) (acc_CodeHash d)"

fun entry_ok :: "(bytes \<Rightarrow> hash) \<Rightarrow> ('tr \<Rightarrow> bool) \<Rightarrow> address set \<Rightarrow> 'tr journalEntry \<Rightarrow> bool" where
  "entry_ok keccak good A (resetObjectChange prev _) \<longleftrightarrow> so_address prev \<in> A \<and> obj_ok keccak good (so_address prev) prev"
| "entry_ok keccak good A e \<longleftrightarrow> (case dirtied e of None \<Rightarrow> True | Some a \<Rightarrow> a \<in> A)"

definition sd_ok :: "(bytes \<Rightarrow> hash) \<Rightarrow> 'tr database \<Rightarrow> ('tr \<Rightarrow> bool) \<Rightarrow> address set \<Rightarrow> 'tr StateDB \<Rightarrow> bool" where
  "sd_ok keccak db good A s \<longleftrightarrow>
    good (sd_trie s) \<and>
    (\<forall>a obj. sd_stateObjects s a = Some obj \<longrightarrow> a \<in> A \<and> obj_ok keccak good a obj) \<and>
    (\<forall>a\<in>A. pred_option data_ok (base_data keccak db s a)) \<and>
    (\<forall>h. sd_logs s h \<noteq> Some []) \<and>
    (\<forall>e\<in>set (j_entries (sd_journal s)). entry_ok keccak good A e)"

subsection \<open>The laws of the tries\<close>

text \<open>
  What the state relies on: an opened storage trie and a trie after a lookup are good,
  the zero root always opens, and a lookup does not change the results of later lookups.
\<close>

locale trie_reads =
  fixes db :: "'tr database" and good :: "'tr \<Rightarrow> bool"
  assumes open_good: "db_OpenStorageTrie db h r = Inr tr \<Longrightarrow> good tr"
    and open_zero: "\<exists>tr. db_OpenStorageTrie db h zero_hash = Inr tr"
    and get_good: "good tr \<Longrightarrow> good (snd (tr_TryGet db tr k))"
    and get_stable: "good tr \<Longrightarrow> fst (tr_TryGet db (snd (tr_TryGet db tr k)) k') = fst (tr_TryGet db tr k')"

definition obj_read :: "'tr database \<Rightarrow> 'tr stateObject \<Rightarrow> hash \<Rightarrow> db_err + bytes" where
  "obj_read db obj key = (case fst (getTrie db obj) of None \<Rightarrow> Inr [] | Some tr \<Rightarrow> fst (tr_TryGet db tr key))"

definition uncached_value :: "'tr obj_ctx \<Rightarrow> 'tr stateObject \<Rightarrow> hash \<Rightarrow> hash" where
  "uncached_value ctx obj key =
    (let from_trie = (case obj_read (ctx_db ctx) obj key of Inl _ \<Rightarrow> zero_hash | Inr blob \<Rightarrow> fst (slot_value blob))
     in case ctx_snap ctx of
          None \<Rightarrow> from_trie
        | Some snap \<Rightarrow>
            (if so_addrHash obj \<in> ctx_snapDestructs ctx then zero_hash
             else case snap_Storage snap (so_addrHash obj) (ctx_keccak ctx key) of
                    Inl _ \<Rightarrow> from_trie
                  | Inr blob \<Rightarrow> fst (slot_value blob)))"

definition committed_value :: "'tr obj_ctx \<Rightarrow> 'tr stateObject \<Rightarrow> hash \<Rightarrow> hash" where
  "committed_value ctx obj key =
    (case so_pendingStorage obj key of Some v \<Rightarrow> v | None \<Rightarrow>
     (case so_originStorage obj key of Some v \<Rightarrow> v | None \<Rightarrow> uncached_value ctx obj key))"

lemma uncached_value_cong:
  "obj_read (ctx_db ctx) obj' key = obj_read (ctx_db ctx) obj key \<Longrightarrow> so_addrHash obj' = so_addrHash obj \<Longrightarrow>
    uncached_value ctx obj' key = uncached_value ctx obj key"
  by (simp add: uncached_value_def Let_def split: option.split)

lemma so_setError_dbErr: "so_setError err obj = obj\<lparr>so_dbErr := so_dbErr (so_setError err obj)\<rparr>"
  by (simp add: so_setError_def)

lemma obj_read_upd [simp]:
  "obj_read db (obj\<lparr>so_originStorage := m\<rparr>) = obj_read db obj"
  "obj_read db (obj\<lparr>so_dirtyStorage := m\<rparr>) = obj_read db obj"
  "obj_read db (obj\<lparr>so_Nonce := n\<rparr>) = obj_read db obj"
  "obj_read db (obj\<lparr>so_Balance := b\<rparr>) = obj_read db obj"
  "obj_read db (obj\<lparr>so_CodeHash := h\<rparr>) = obj_read db obj"
  "obj_read db (obj\<lparr>so_code := c\<rparr>) = obj_read db obj"
  "obj_read db (obj\<lparr>so_dirtyCode := f\<rparr>) = obj_read db obj"
  "obj_read db (obj\<lparr>so_suicided := f\<rparr>) = obj_read db obj"
  "obj_read db (obj\<lparr>so_dbErr := e\<rparr>) = obj_read db obj"
  "obj_read db (obj\<lparr>so_trie := Some tr\<rparr>) key = fst (tr_TryGet db tr key)"
  by (auto simp: obj_read_def getTrie_def so_setError_def fun_eq_iff Let_def split: option.splits sum.splits)

lemma committed_value_upd [simp]:
  "committed_value ctx (obj\<lparr>so_dirtyStorage := m\<rparr>) = committed_value ctx obj"
  "committed_value ctx (obj\<lparr>so_Nonce := n\<rparr>) = committed_value ctx obj"
  "committed_value ctx (obj\<lparr>so_Balance := b\<rparr>) = committed_value ctx obj"
  "committed_value ctx (obj\<lparr>so_CodeHash := h\<rparr>) = committed_value ctx obj"
  "committed_value ctx (obj\<lparr>so_code := c\<rparr>) = committed_value ctx obj"
  "committed_value ctx (obj\<lparr>so_dirtyCode := f\<rparr>) = committed_value ctx obj"
  "committed_value ctx (obj\<lparr>so_suicided := f\<rparr>) = committed_value ctx obj"
  "committed_value ctx (obj\<lparr>so_dbErr := e\<rparr>) = committed_value ctx obj"
  by (simp_all add: fun_eq_iff committed_value_def uncached_value_def Let_def split: option.split)

text \<open>
  \<open>recached\<close>: the two objects differ in caches only, and agree on what they read.
\<close>

definition recached :: "'tr obj_ctx \<Rightarrow> ('tr \<Rightarrow> bool) \<Rightarrow> 'tr stateObject \<Rightarrow> 'tr stateObject \<Rightarrow> bool" where
  "recached ctx good obj obj' \<longleftrightarrow>
    (\<exists>tr err origin. obj' = obj\<lparr>so_trie := tr, so_dbErr := err, so_originStorage := origin\<rparr> \<and> pred_option good tr) \<and>
    committed_value ctx obj' = committed_value ctx obj"

context trie_reads begin

lemma getTrie_good:
  assumes "pred_option good (so_trie obj)"
  obtains tr e where "getTrie db obj = (Some tr, obj\<lparr>so_trie := Some tr, so_dbErr := e\<rparr>)" "good tr"
proof (cases "so_trie obj")
  case (Some tr)
  then have "getTrie db obj = (Some tr, obj\<lparr>so_trie := Some tr, so_dbErr := so_dbErr obj\<rparr>)"
    by (simp add: getTrie_def)
  moreover have "good tr" using assms Some by simp
  ultimately show ?thesis by (rule that)
next
  case None
  obtain z where z: "db_OpenStorageTrie db (so_addrHash obj) zero_hash = Inr z" using open_zero by blast
  show ?thesis
  proof (cases "db_OpenStorageTrie db (so_addrHash obj) (so_Root obj)")
    case (Inl e)
    then have "getTrie db obj =
      (Some z, obj\<lparr>so_trie := Some z, so_dbErr := so_dbErr (so_setError (Some (DBStorageTrie e)) obj)\<rparr>)"
      using None z by (simp add: getTrie_def so_setError_def Let_def)
    then show ?thesis using that open_good [OF z] by blast
  next
    case (Inr tr)
    then have "getTrie db obj = (Some tr, obj\<lparr>so_trie := Some tr, so_dbErr := so_dbErr obj\<rparr>)"
      using None by (simp add: getTrie_def)
    then show ?thesis using that open_good [OF Inr] by blast
  qed
qed

lemma gets_stable:
  assumes "good t"
  shows "good (foldr (\<lambda>k t. snd (tr_TryGet db t k)) keys t) \<and>
    fst (tr_TryGet db (foldr (\<lambda>k t. snd (tr_TryGet db t k)) keys t) key) = fst (tr_TryGet db t key)"
  using assms by (induction keys) (auto simp: get_good get_stable)

lemma so_load_reads:
  assumes "pred_option good (so_trie obj)" and ctx: "ctx_db ctx = db"
  obtains tr e where "so_load ctx obj key =
      Some (case obj_read db obj key of Inl err \<Rightarrow> (Some err, [], obj\<lparr>so_trie := Some tr, so_dbErr := e\<rparr>)
            | Inr blob \<Rightarrow> (None, blob, obj\<lparr>so_trie := Some tr, so_dbErr := e\<rparr>))"
    and "good tr" "\<And>k. fst (tr_TryGet db tr k) = obj_read db obj k"
proof -
  obtain tr e where g: "getTrie db obj = (Some tr, obj\<lparr>so_trie := Some tr, so_dbErr := e\<rparr>)" "good tr"
    using getTrie_good [OF assms(1)] by blast
  obtain r tr' where r: "tr_TryGet db tr key = (r, tr')" by fastforce
  have rd: "obj_read db obj k = fst (tr_TryGet db tr k)" for k by (simp add: obj_read_def g)
  have "so_load ctx obj key =
      Some (case obj_read db obj key of Inl err \<Rightarrow> (Some err, [], obj\<lparr>so_trie := Some tr', so_dbErr := e\<rparr>)
            | Inr blob \<Rightarrow> (None, blob, obj\<lparr>so_trie := Some tr', so_dbErr := e\<rparr>))"
    by (simp add: so_load_def g r rd ctx split: sum.splits)
  moreover have "good tr'" using get_good [OF g(2), of key] r by simp
  moreover have "fst (tr_TryGet db tr' k) = obj_read db obj k" for k
    using get_stable [OF g(2), of key k] r rd by simp
  ultimately show ?thesis using that by blast
qed

lemma committed_value_recache:
  assumes "ctx_db ctx = db" "\<And>k. obj_read db obj' k = obj_read db obj k"
    "so_pendingStorage obj' = so_pendingStorage obj" "so_addrHash obj' = so_addrHash obj"
    "so_originStorage obj' = so_originStorage obj \<or>
     so_originStorage obj' = (so_originStorage obj)(key \<mapsto> committed_value ctx obj key)"
  shows "committed_value ctx obj' = committed_value ctx obj"
proof
  fix k
  have u: "uncached_value ctx obj' k = uncached_value ctx obj k"
    using assms by (intro uncached_value_cong) simp_all
  show "committed_value ctx obj' k = committed_value ctx obj k"
    using assms(3,5) u by (auto simp: committed_value_def split: option.splits if_splits)
qed

lemma recached_refl:
  assumes "pred_option good (so_trie obj)"
  shows "recached ctx good obj obj"
proof -
  have "obj = obj\<lparr>so_trie := so_trie obj, so_dbErr := so_dbErr obj, so_originStorage := so_originStorage obj\<rparr>" by simp
  then show ?thesis unfolding recached_def using assms by blast
qed

lemma recached_load:
  assumes "ctx_db ctx = db" "good tr" "\<And>k. fst (tr_TryGet db tr k) = obj_read db obj k"
  shows "recached ctx good obj (so_setError err (obj\<lparr>so_trie := Some tr, so_dbErr := e\<rparr>))"
proof -
  have "committed_value ctx (so_setError err (obj\<lparr>so_trie := Some tr, so_dbErr := e\<rparr>)) = committed_value ctx obj"
    using assms by (intro committed_value_recache) (simp_all add: so_setError_def)
  moreover have "so_setError err (obj\<lparr>so_trie := Some tr, so_dbErr := e\<rparr>) =
      obj\<lparr>so_trie := Some tr, so_dbErr := (if e = None then err else e), so_originStorage := so_originStorage obj\<rparr>"
    by (simp add: so_setError_def)
  moreover have "pred_option good (Some tr)" using assms by simp
  ultimately show ?thesis unfolding recached_def by blast
qed

lemma so_cache_recached:
  assumes v: "fst (slot_value blob) = committed_value ctx obj key"
    and obj1: "obj1 = obj\<lparr>so_trie := tr, so_dbErr := e\<rparr>" and tr: "pred_option good tr" and ctx: "ctx_db ctx = db"
    and rd: "\<And>k. obj_read db (obj\<lparr>so_trie := tr\<rparr>) k = obj_read db obj k"
  shows "\<exists>obj'. so_cache obj1 key blob = (committed_value ctx obj key, obj') \<and> recached ctx good obj obj'"
proof -
  obtain err where sv: "slot_value blob = (committed_value ctx obj key, err)" using v by (cases "slot_value blob") auto
  define obj2 where "obj2 = (case err of None \<Rightarrow> obj1 | Some e \<Rightarrow> so_setError (Some e) obj1)"
  define e' where "e' = so_dbErr obj2"
  have "obj2 = obj1\<lparr>so_dbErr := e'\<rparr>"
    by (cases err) (simp_all add: obj2_def e'_def so_setError_dbErr [symmetric])
  then have "so_cache obj1 key blob = (committed_value ctx obj key,
      obj\<lparr>so_trie := tr, so_dbErr := e', so_originStorage := (so_originStorage obj)(key \<mapsto> committed_value ctx obj key)\<rparr>)"
    by (simp add: so_cache_def sv obj1 obj2_def [symmetric, unfolded obj1])
  moreover have "committed_value ctx (obj\<lparr>so_trie := tr, so_dbErr := e',
      so_originStorage := (so_originStorage obj)(key \<mapsto> committed_value ctx obj key)\<rparr>) = committed_value ctx obj"
    using rd by (intro committed_value_recache [where key = key] ctx) simp_all
  ultimately show ?thesis using tr unfolding recached_def by blast
qed

lemma so_GetCommittedState_value:
  assumes good: "pred_option good (so_trie obj)" and fake: "so_fakeStorage obj = None" and ctx: "ctx_db ctx = db"
  shows "\<exists>obj'. so_GetCommittedState ctx obj key = Some (committed_value ctx obj key, obj') \<and> recached ctx good obj obj'"
proof (cases "so_pendingStorage obj key = None \<and> so_originStorage obj key = None")
  case False
  then show ?thesis using recached_refl [OF good] fake
    by (auto simp: so_GetCommittedState_def committed_value_def split: option.splits)
next
  case True
  then have cv: "committed_value ctx obj key = uncached_value ctx obj key" by (simp add: committed_value_def)
  define ft where "ft = (case so_load ctx obj key of None \<Rightarrow> None
      | Some (Some err, _, s) \<Rightarrow> Some (zero_hash, so_setError (Some err) s)
      | Some (None, blob, s) \<Rightarrow> Some (so_cache s key blob))"
  have trie: "\<exists>obj'. ft = Some (committed_value ctx obj key, obj') \<and> recached ctx good obj obj'"
    if "committed_value ctx obj key = (case obj_read db obj key of Inl _ \<Rightarrow> zero_hash | Inr blob \<Rightarrow> fst (slot_value blob))"
  proof -
    obtain tr e where l: "so_load ctx obj key =
        Some (case obj_read db obj key of Inl err \<Rightarrow> (Some err, [], obj\<lparr>so_trie := Some tr, so_dbErr := e\<rparr>)
              | Inr blob \<Rightarrow> (None, blob, obj\<lparr>so_trie := Some tr, so_dbErr := e\<rparr>))"
      "good tr" "\<And>k. fst (tr_TryGet db tr k) = obj_read db obj k"
      using so_load_reads [OF good ctx] by blast
    show ?thesis
    proof (cases "obj_read db obj key")
      case (Inl err)
      then show ?thesis using l that recached_load [OF ctx l(2,3)] by (simp add: ft_def)
    next
      case (Inr blob)
      then have "fst (slot_value blob) = committed_value ctx obj key" using that by simp
      then have "\<exists>obj'. so_cache (obj\<lparr>so_trie := Some tr, so_dbErr := e\<rparr>) key blob =
          (committed_value ctx obj key, obj') \<and> recached ctx good obj obj'"
        using l(2,3) by (intro so_cache_recached [OF _ refl _ ctx]) simp_all
      then show ?thesis using Inr l(1) by (auto simp: ft_def)
    qed
  qed
  show ?thesis
  proof (cases "ctx_snap ctx")
    case None
    then show ?thesis using True trie fake cv by (simp add: so_GetCommittedState_def ft_def [symmetric] uncached_value_def ctx)
  next
    case (Some snap)
    show ?thesis
    proof (cases "so_addrHash obj \<in> ctx_snapDestructs ctx")
      case True
      then show ?thesis using Some fake cv \<open>so_pendingStorage obj key = None \<and> _\<close> recached_refl [OF good]
        by (simp add: so_GetCommittedState_def uncached_value_def)
    next
      case nd: False
      show ?thesis
      proof (cases "snap_Storage snap (so_addrHash obj) (ctx_keccak ctx key)")
        case (Inl x)
        then show ?thesis using True trie fake cv nd Some
          by (simp add: so_GetCommittedState_def ft_def [symmetric] uncached_value_def ctx)
      next
        case (Inr blob)
        then have "fst (slot_value blob) = committed_value ctx obj key"
          using cv nd Some by (simp add: uncached_value_def)
        then have "\<exists>obj'. so_cache obj key blob = (committed_value ctx obj key, obj') \<and> recached ctx good obj obj'"
          using good by (intro so_cache_recached [where tr = "so_trie obj" and e = "so_dbErr obj"] ctx) simp_all
        then show ?thesis using Inr True fake nd Some by (simp add: so_GetCommittedState_def)
      qed
    qed
  qed
qed

lemma so_GetState_value:
  assumes "pred_option good (so_trie obj)" "so_fakeStorage obj = None" "ctx_db ctx = db"
  shows "\<exists>obj'. so_GetState ctx obj key =
      Some (case so_dirtyStorage obj key of Some v \<Rightarrow> v | None \<Rightarrow> committed_value ctx obj key, obj') \<and>
    recached ctx good obj obj'"
  using so_GetCommittedState_value [OF assms, of key] recached_refl [OF assms(1)] assms(2)
  by (auto simp: so_GetState_def split: option.splits)

text \<open>The view of a well-formed object, in terms of its fields.\<close>

lemma oview_eq:
  assumes ok: "obj_ok K good a obj" and ctx: "ctx_db ctx = db" "ctx_keccak ctx = K"
  shows "oview ctx obj =
    \<lparr>ov_nonce = so_Nonce obj, ov_balance = so_Balance obj, ov_root = so_Root obj, ov_codeHash = so_CodeHash obj,
     ov_code = code_value K db a (so_code obj) (so_CodeHash obj),
     ov_committed = (\<lambda>key. Some (committed_value ctx obj key)),
     ov_state = (\<lambda>key. Some (case so_dirtyStorage obj key of Some v \<Rightarrow> v | None \<Rightarrow> committed_value ctx obj key)),
     ov_suicided = so_suicided obj, ov_deleted = so_deleted obj\<rparr>"
proof -
  have g: "pred_option good (so_trie obj)" "so_fakeStorage obj = None" using ok by (auto simp: obj_ok_def)
  have c: "map_option fst (so_GetCommittedState ctx obj key) = Some (committed_value ctx obj key)" for key
    using so_GetCommittedState_value [OF g ctx(1), of key] by auto
  have st: "map_option fst (so_GetState ctx obj key) =
      Some (case so_dirtyStorage obj key of Some v \<Rightarrow> v | None \<Rightarrow> committed_value ctx obj key)" for key
    using so_GetState_value [OF g ctx(1), of key] by auto
  have "fst (so_Code ctx obj) = code_value K db a (so_code obj) (so_CodeHash obj)"
    using ok ctx by (auto simp: so_Code_def code_value_def obj_ok_def split: option.splits sum.splits)
  then show ?thesis by (simp add: oview_def c st)
qed

lemma recached_oview:
  assumes ok: "obj_ok K good a obj" and ctx: "ctx_db ctx = db" "ctx_keccak ctx = K" and r: "recached ctx good obj obj'"
  shows "obj_ok K good a obj'" "oview ctx obj' = oview ctx obj"
proof -
  obtain tr e m where o': "obj' = obj\<lparr>so_trie := tr, so_dbErr := e, so_originStorage := m\<rparr>" "pred_option good tr"
    and cv: "committed_value ctx obj' = committed_value ctx obj"
    using r by (auto simp: recached_def)
  show ok': "obj_ok K good a obj'" using ok o' by (simp add: obj_ok_def)
  show "oview ctx obj' = oview ctx obj"
    unfolding oview_eq [OF ok ctx] oview_eq [OF ok' ctx] cv by (simp add: o'(1))
qed

lemma so_Code_recached:
  assumes ok: "obj_ok K good a obj" and ctx: "ctx_db ctx = db" "ctx_keccak ctx = K"
  shows "\<exists>c e. so_Code ctx obj = (code_value K db a (so_code obj) (so_CodeHash obj), obj\<lparr>so_code := c, so_dbErr := e\<rparr>) \<and>
    code_value K db a c (so_CodeHash obj) = code_value K db a (so_code obj) (so_CodeHash obj)"
proof -
  have id: "obj = obj\<lparr>so_code := so_code obj, so_dbErr := so_dbErr obj\<rparr>" by simp
  show ?thesis
  proof (cases "so_code obj = None \<and> so_CodeHash obj \<noteq> emptyCodeHash K")
    case False
    then have "so_Code ctx obj = (code_value K db a (so_code obj) (so_CodeHash obj), obj)"
      using ctx by (auto simp: so_Code_def code_value_def split: option.split)
    then show ?thesis using id by metis
  next
    case True
    show ?thesis
    proof (cases "db_ContractCode db (K a) (BytesToHash (so_CodeHash obj))")
      case (Inl e)
      then have "so_Code ctx obj = (code_value K db a (so_code obj) (so_CodeHash obj),
          obj\<lparr>so_code := so_code obj, so_dbErr := so_dbErr (so_setError (Some (DBCode (so_CodeHash obj) e)) obj)\<rparr>)"
        using True ok ctx by (simp add: so_Code_def code_value_def obj_ok_def so_setError_def)
      then show ?thesis by blast
    next
      case (Inr c)
      then have "so_Code ctx obj = (code_value K db a (so_code obj) (so_CodeHash obj),
          obj\<lparr>so_code := Some c, so_dbErr := so_dbErr obj\<rparr>)"
        using True ok ctx by (simp add: so_Code_def code_value_def obj_ok_def)
      moreover have "code_value K db a (Some c) (so_CodeHash obj) = code_value K db a (so_code obj) (so_CodeHash obj)"
        using True Inr by (simp add: code_value_def)
      ultimately show ?thesis by blast
    qed
  qed
qed

end

subsection \<open>States\<close>

text \<open>
  The clients of the tries: a hash function to 32 bytes, and a set of addresses on which it
  has no collision.
\<close>

locale state_store = trie_reads db good
  for db :: "'tr database" and good :: "'tr \<Rightarrow> bool" +
  fixes K :: "bytes \<Rightarrow> hash" and A :: "address set"
  assumes K_len: "length (K b) = 32"
    and K_inj: "inj_on K A"

lemma view_sel [simp]:
  "v_objects (view K db A s) a = (if a \<in> A then map_option (oview (sd_ctx K db s)) (lookup_obj K db s a) else None)"
  "v_base (view K db A s) a = (if a \<in> A then base_data K db s a else None)"
  "v_snap (view K db A s) = sd_snap s" "v_destructs (view K db A s) = sd_snapDestructs s"
  "v_refund (view K db A s) = sd_refund s" "v_thash (view K db A s) = sd_thash s"
  "v_bhash (view K db A s) = sd_bhash s" "v_txIndex (view K db A s) = sd_txIndex s"
  "v_logs (view K db A s) = sd_logs s" "v_logSize (view K db A s) = sd_logSize s"
  "v_preimages (view K db A s) = sd_preimages s" "v_accessList (view K db A s) = sd_accessList s"
  "v_ctx K db (view K db A s) = sd_ctx K db s"
  by (simp_all add: view_def v_ctx_def sd_ctx_def)

lemma sd_ctx_sel [simp]: "ctx_db (sd_ctx K db s) = db" "ctx_keccak (sd_ctx K db s) = K"
  "ctx_snap (sd_ctx K db s) = sd_snap s" "ctx_snapDestructs (sd_ctx K db s) = sd_snapDestructs s"
  by (simp_all add: sd_ctx_def)

lemma sd_ctx_cong: "sd_snap s' = sd_snap s \<Longrightarrow> sd_snapDestructs s' = sd_snapDestructs s \<Longrightarrow> sd_ctx K db s' = sd_ctx K db s"
  by (simp add: sd_ctx_def)

lemma base_data_cong:
  "sd_snap s' = sd_snap s \<Longrightarrow> (\<And>k. fst (tr_TryGet db (sd_trie s') k) = fst (tr_TryGet db (sd_trie s) k)) \<Longrightarrow>
    base_data K db s' = base_data K db s"
  by (simp add: base_data_def fun_eq_iff)

lemma view_eqI:
  assumes "sd_snap s' = sd_snap s" "sd_snapDestructs s' = sd_snapDestructs s"
    "\<And>k. fst (tr_TryGet db (sd_trie s') k) = fst (tr_TryGet db (sd_trie s) k)"
    "\<And>a. a \<in> A \<Longrightarrow> lookup_obj K db s' a = lookup_obj K db s a"
    "sd_refund s' = sd_refund s" "sd_thash s' = sd_thash s" "sd_bhash s' = sd_bhash s" "sd_txIndex s' = sd_txIndex s"
    "sd_logs s' = sd_logs s" "sd_logSize s' = sd_logSize s" "sd_preimages s' = sd_preimages s"
    "sd_accessList s' = sd_accessList s"
  shows "view K db A s' = view K db A s"
  using assms base_data_cong [OF assms(1,3), of K] by (auto simp: view_def fun_eq_iff sd_ctx_def)

text \<open>Fields the view holds as they are, and fields it does not hold.\<close>

lemma base_data_upd [simp]:
  "base_data K db (s\<lparr>sd_refund := r\<rparr>) = base_data K db s" "base_data K db (s\<lparr>sd_logs := l\<rparr>) = base_data K db s"
  "base_data K db (s\<lparr>sd_logSize := n\<rparr>) = base_data K db s" "base_data K db (s\<lparr>sd_preimages := p\<rparr>) = base_data K db s"
  "base_data K db (s\<lparr>sd_accessList := al\<rparr>) = base_data K db s" "base_data K db (s\<lparr>sd_journal := j\<rparr>) = base_data K db s"
  "base_data K db (s\<lparr>sd_stateObjects := so\<rparr>) = base_data K db s" "base_data K db (s\<lparr>sd_snapDestructs := D\<rparr>) = base_data K db s"
  "base_data K db (s\<lparr>sd_stateObjectsDirty := x\<rparr>) = base_data K db s" "base_data K db (s\<lparr>sd_validRevisions := vr\<rparr>) = base_data K db s"
  "base_data K db (s\<lparr>sd_nextRevisionId := i\<rparr>) = base_data K db s"
  by (rule base_data_cong; simp)+

lemma lookup_obj_upd [simp]:
  "lookup_obj K db (s\<lparr>sd_refund := r\<rparr>) = lookup_obj K db s" "lookup_obj K db (s\<lparr>sd_logs := l\<rparr>) = lookup_obj K db s"
  "lookup_obj K db (s\<lparr>sd_logSize := n\<rparr>) = lookup_obj K db s" "lookup_obj K db (s\<lparr>sd_preimages := p\<rparr>) = lookup_obj K db s"
  "lookup_obj K db (s\<lparr>sd_accessList := al\<rparr>) = lookup_obj K db s" "lookup_obj K db (s\<lparr>sd_journal := j\<rparr>) = lookup_obj K db s"
  "lookup_obj K db (s\<lparr>sd_snapDestructs := D\<rparr>) = lookup_obj K db s"
  "lookup_obj K db (s\<lparr>sd_stateObjectsDirty := x\<rparr>) = lookup_obj K db s" "lookup_obj K db (s\<lparr>sd_validRevisions := vr\<rparr>) = lookup_obj K db s"
  "lookup_obj K db (s\<lparr>sd_nextRevisionId := i\<rparr>) = lookup_obj K db s"
  by (auto simp: fun_eq_iff lookup_obj_def split: option.split)

lemma view_upd [simp]:
  "view K db A (s\<lparr>sd_refund := r\<rparr>) = (view K db A s)\<lparr>v_refund := r\<rparr>"
  "view K db A (s\<lparr>sd_logs := l\<rparr>) = (view K db A s)\<lparr>v_logs := l\<rparr>"
  "view K db A (s\<lparr>sd_logSize := n\<rparr>) = (view K db A s)\<lparr>v_logSize := n\<rparr>"
  "view K db A (s\<lparr>sd_preimages := p\<rparr>) = (view K db A s)\<lparr>v_preimages := p\<rparr>"
  "view K db A (s\<lparr>sd_accessList := al\<rparr>) = (view K db A s)\<lparr>v_accessList := al\<rparr>"
  "view K db A (s\<lparr>sd_journal := j\<rparr>) = view K db A s"
  "view K db A (s\<lparr>sd_validRevisions := vr\<rparr>) = view K db A s"
  "view K db A (s\<lparr>sd_nextRevisionId := i\<rparr>) = view K db A s"
  by (simp_all add: view_def sd_ctx_def cong: if_cong)

lemma sd_ok_upd [simp]:
  "sd_ok K db good A (s\<lparr>sd_refund := r\<rparr>) = sd_ok K db good A s"
  "sd_ok K db good A (s\<lparr>sd_logSize := n\<rparr>) = sd_ok K db good A s"
  "sd_ok K db good A (s\<lparr>sd_preimages := p\<rparr>) = sd_ok K db good A s"
  "sd_ok K db good A (s\<lparr>sd_accessList := al\<rparr>) = sd_ok K db good A s"
  "sd_ok K db good A (s\<lparr>sd_validRevisions := vr\<rparr>) = sd_ok K db good A s"
  "sd_ok K db good A (s\<lparr>sd_nextRevisionId := i\<rparr>) = sd_ok K db good A s"
  "sd_ok K db good A (s\<lparr>sd_snapDestructs := D\<rparr>) = sd_ok K db good A s"
  by (simp_all add: sd_ok_def)

text \<open>\<open>frame\<close>: the journal and the revisions are the same.\<close>

definition frame :: "'tr StateDB \<Rightarrow> 'tr StateDB \<Rightarrow> bool" where
  "frame s s' \<longleftrightarrow> sd_journal s' = sd_journal s \<and> sd_validRevisions s' = sd_validRevisions s \<and>
    sd_nextRevisionId s' = sd_nextRevisionId s"

text \<open>\<open>loads\<close>: the state after an account has been fetched.\<close>

definition loads :: "(bytes \<Rightarrow> hash) \<Rightarrow> 'tr database \<Rightarrow> ('tr \<Rightarrow> bool) \<Rightarrow> address \<Rightarrow> 'tr StateDB \<Rightarrow> 'tr StateDB \<Rightarrow> bool" where
  "loads K db good a s s' \<longleftrightarrow>
    (\<exists>tr e. s' = s\<lparr>sd_trie := tr, sd_dbErr := e, sd_stateObjects := (sd_stateObjects s)(a := lookup_obj K db s a)\<rparr> \<and>
      good tr \<and> (\<forall>k. fst (tr_TryGet db tr k) = fst (tr_TryGet db (sd_trie s) k)))"

lemma sd_okD:
  assumes "sd_ok K db good A s"
  shows "good (sd_trie s)" "\<And>a obj. sd_stateObjects s a = Some obj \<Longrightarrow> a \<in> A \<and> obj_ok K good a obj"
    "\<And>a d. a \<in> A \<Longrightarrow> base_data K db s a = Some d \<Longrightarrow> data_ok d"
    "\<And>h. sd_logs s h \<noteq> Some []"
    "\<And>e. e \<in> set (j_entries (sd_journal s)) \<Longrightarrow> entry_ok K good A e"
  using assms by (force simp: sd_ok_def pred_option_def)+

context state_store begin

abbreviation ok where "ok s \<equiv> sd_ok K db good A s"
abbreviation vw where "vw s \<equiv> view K db A s"

lemma newObject_ok: "data_ok d \<Longrightarrow> obj_ok K good a (newObject K a d)"
  by (auto simp: newObject_def obj_ok_def data_ok_def emptyCodeHash_def K_len split: option.splits)

lemma lookup_ok: "ok s \<Longrightarrow> a \<in> A \<Longrightarrow> lookup_obj K db s a = Some obj \<Longrightarrow> obj_ok K good a obj"
  by (auto simp: lookup_obj_def split: option.splits dest: sd_okD(2,3) intro: newObject_ok)

lemma loadsI:
  assumes "good tr" "\<And>k. fst (tr_TryGet db tr k) = fst (tr_TryGet db (sd_trie s) k)"
  shows "loads K db good a s (s\<lparr>sd_trie := tr, sd_dbErr := e, sd_stateObjects := (sd_stateObjects s)(a := lookup_obj K db s a)\<rparr>)"
  unfolding loads_def using assms by blast

lemma loads_none:
  assumes "good tr" "\<And>k. fst (tr_TryGet db tr k) = fst (tr_TryGet db (sd_trie s) k)" "lookup_obj K db s a = None"
  shows "loads K db good a s (s\<lparr>sd_trie := tr\<rparr>)" "loads K db good a s (sd_setError err (s\<lparr>sd_trie := tr\<rparr>))"
proof -
  have "(sd_stateObjects s)(a := None) = sd_stateObjects s"
    using assms(3) by (auto simp: lookup_obj_def fun_upd_idem split: option.splits)
  then have "loads K db good a s (s\<lparr>sd_trie := tr, sd_dbErr := e\<rparr>)" for e
    using loadsI [OF assms(1,2), of a e] by (simp add: assms(3))
  from this [of "sd_dbErr s"] this [of err]
  show "loads K db good a s (s\<lparr>sd_trie := tr\<rparr>)" "loads K db good a s (sd_setError err (s\<lparr>sd_trie := tr\<rparr>))"
    by (simp_all add: sd_setError_def)
qed

lemma loads_some:
  assumes "good tr" "\<And>k. fst (tr_TryGet db tr k) = fst (tr_TryGet db (sd_trie s) k)"
    "lookup_obj K db s a = Some obj" "so_address obj = a"
  shows "loads K db good a s (setStateObject obj (s\<lparr>sd_trie := tr\<rparr>))"
  using loadsI [OF assms(1,2), of a "sd_dbErr s"] by (simp add: assms(3,4) setStateObject_def)

lemma getDeletedStateObject_loads:
  assumes "ok s"
  shows "\<exists>s'. getDeletedStateObject K db a s = (lookup_obj K db s a, s') \<and> loads K db good a s s'"
proof -
  note g = sd_okD(1) [OF assms]
  obtain r tr where r: "tr_TryGet db (sd_trie s) a = (r, tr)" by fastforce
  have tr: "good tr" "\<And>k. fst (tr_TryGet db tr k) = fst (tr_TryGet db (sd_trie s) k)"
    using get_good [OF g, of a] get_stable [OF g, of a] r by simp_all
  show ?thesis
  proof (cases "sd_stateObjects s a")
    case (Some obj)
    then have "loads K db good a s s"
      using loadsI [OF g refl, of a "sd_dbErr s"] by (simp add: lookup_obj_def fun_upd_idem)
    then show ?thesis using Some by (simp add: getDeletedStateObject_def lookup_obj_def)
  next
    case None
    then have lk: "lookup_obj K db s a = map_option (newObject K a) (base_data K db s a)" by (simp add: lookup_obj_def)
    have addr: "so_address (newObject K a d) = a" for d by (simp add: newObject_def)
    show ?thesis
      using None r lk loads_none [OF tr] loads_some [OF tr _ addr] loads_none(1) [OF g refl] loads_some [OF g refl _ addr]
      by (simp add: getDeletedStateObject_def base_data_def Let_def split: option.split sum.split)
  qed
qed

lemma loads_props:
  assumes ok: "ok s" and l: "loads K db good a s s'" and a: "a \<in> A"
  shows "ok s'" "vw s' = vw s" "sd_stateObjects s' a = lookup_obj K db s a" "frame s s'"
    "lookup_obj K db s' a = lookup_obj K db s a" "sd_ctx K db s' = sd_ctx K db s"
proof -
  obtain tr e where s': "s' = s\<lparr>sd_trie := tr, sd_dbErr := e, sd_stateObjects := (sd_stateObjects s)(a := lookup_obj K db s a)\<rparr>"
    and tr: "good tr" "\<And>k. fst (tr_TryGet db tr k) = fst (tr_TryGet db (sd_trie s) k)"
    using l by (auto simp: loads_def)
  have b: "base_data K db s' = base_data K db s" by (rule base_data_cong) (simp_all add: s' tr)
  have so: "sd_stateObjects s' = (sd_stateObjects s)(a := lookup_obj K db s a)" by (simp add: s')
  have lk: "lookup_obj K db s' c = lookup_obj K db s c" for c
    unfolding lookup_obj_def [of K db s'] b so by (auto simp: lookup_obj_def split: option.splits)
  show "vw s' = vw s" by (rule view_eqI) (simp_all add: s' tr lk [unfolded s'])
  show "sd_stateObjects s' a = lookup_obj K db s a" "frame s s'" "sd_ctx K db s' = sd_ctx K db s"
    by (simp_all add: s' sd_ctx_def frame_def)
  show "lookup_obj K db s' a = lookup_obj K db s a" by (rule lk)
  show "ok s'"
    using ok lookup_ok [OF ok a] a unfolding sd_ok_def b by (auto simp: s' tr)
qed

lemma getStateObject_loads:
  assumes "ok s"
  shows "\<exists>s'. getStateObject K db a s = (live_obj K db s a, s') \<and> loads K db good a s s'"
  using getDeletedStateObject_loads [OF assms, of a]
  by (auto simp: getStateObject_def live_obj_def split: option.splits)

lemma v_live_view: "a \<in> A \<Longrightarrow> v_live (vw s) a = map_option (oview (sd_ctx K db s)) (live_obj K db s a)"
  by (auto simp: v_live_def live_obj_def oview_def split: option.splits)

lemma live_lookup: "live_obj K db s a = Some obj \<Longrightarrow> lookup_obj K db s a = Some obj"
  by (auto simp: live_obj_def split: option.splits if_splits)

lemma put_props:
  assumes ok: "ok s" and obj: "obj_ok K good a obj" and a: "a \<in> A"
  shows "ok (setStateObject obj s)" "vw (setStateObject obj s) = v_put a (oview (sd_ctx K db s) obj) (vw s)"
    "frame s (setStateObject obj s)" "sd_ctx K db (setStateObject obj s) = sd_ctx K db s"
    "sd_stateObjects (setStateObject obj s) a = Some obj"
proof -
  have addr: "so_address obj = a" using obj by (simp add: obj_ok_def)
  have b: "base_data K db (setStateObject obj s) = base_data K db s"
    by (rule base_data_cong) (simp_all add: setStateObject_def)
  show c: "sd_ctx K db (setStateObject obj s) = sd_ctx K db s" by (simp add: sd_ctx_def setStateObject_def)
  have "lookup_obj K db (setStateObject obj s) c = (if c = a then Some obj else lookup_obj K db s c)" for c
    unfolding lookup_obj_def b by (simp add: setStateObject_def addr)
  then show "vw (setStateObject obj s) = v_put a (oview (sd_ctx K db s) obj) (vw s)"
    using a by (auto simp: view_def v_put_def c b fun_eq_iff) (auto simp: setStateObject_def)
  show "ok (setStateObject obj s)"
    using ok obj a unfolding sd_ok_def b by (auto simp: setStateObject_def addr)
  show "frame s (setStateObject obj s)" "sd_stateObjects (setStateObject obj s) a = Some obj"
    by (simp_all add: frame_def setStateObject_def addr)
qed

text \<open>\<open>implements s r vr\<close>: the result of a reverting step on \<open>s\<close> is the one on the views.\<close>

abbreviation implements where
  "implements s r vr \<equiv> rel_option (\<lambda>s' v'. v' = vw s' \<and> ok s' \<and> frame s s') r vr"

lemma frame_trans: "frame s s' \<Longrightarrow> frame s' s'' \<Longrightarrow> frame s s''"
  by (simp add: frame_def)

lemma revert_object_view:
  assumes ok: "ok s" and a: "a \<in> A"
    and f: "\<And>obj. obj_ok K good a obj \<Longrightarrow> obj_ok K good a (f obj) \<and> oview (sd_ctx K db s) (f obj) = g (oview (sd_ctx K db s) obj)"
  shows "implements s (revert_object K db a f s) (v_modify a g (vw s))"
proof -
  obtain s1 where s1: "getStateObject K db a s = (live_obj K db s a, s1)" "loads K db good a s s1"
    using getStateObject_loads [OF ok] by blast
  note l = loads_props [OF ok s1(2) a]
  show ?thesis
  proof (cases "live_obj K db s a")
    case None
    then show ?thesis using s1(1) v_live_view [OF a, of s] by (simp add: revert_object_def v_modify_def)
  next
    case (Some obj)
    have "obj_ok K good a obj" using lookup_ok [OF ok a live_lookup [OF Some]] .
    note fo = f [OF this]
    note p = put_props [OF l(1) conjunct1 [OF fo] a]
    show ?thesis
      using Some s1(1) v_live_view [OF a, of s] p fo l frame_trans [OF l(4) p(3)]
      by (simp add: revert_object_def v_modify_def)
  qed
qed

lemma obj_updates:
  assumes "obj_ok K good a obj" and ctx: "ctx_db ctx = db" "ctx_keccak ctx = K"
  shows "obj_ok K good a (so_setBalance b obj)" "obj_ok K good a (so_setNonce n obj)"
    "obj_ok K good a (so_setState key val obj)"
    "obj_ok K good a (so_setBalance b (obj\<lparr>so_suicided := f\<rparr>))"
    "length h = 32 \<Longrightarrow> obj_ok K good a (so_setCode h c obj)"
    "oview ctx (so_setBalance b obj) = (oview ctx obj)\<lparr>ov_balance := b\<rparr>"
    "oview ctx (so_setNonce n obj) = (oview ctx obj)\<lparr>ov_nonce := n\<rparr>"
    "oview ctx (so_setState key val obj) = (oview ctx obj)\<lparr>ov_state := (ov_state (oview ctx obj))(key \<mapsto> val)\<rparr>"
    "oview ctx (so_setBalance b (obj\<lparr>so_suicided := f\<rparr>)) = (oview ctx obj)\<lparr>ov_suicided := f, ov_balance := b\<rparr>"
    "length h = 32 \<Longrightarrow> oview ctx (so_setCode h c obj) =
      (oview ctx obj)\<lparr>ov_code := code_value K db a c h, ov_codeHash := h\<rparr>"
proof -
  show o1: "obj_ok K good a (so_setBalance b obj)" and o2: "obj_ok K good a (so_setNonce n obj)"
    and o3: "obj_ok K good a (so_setState key val obj)"
    and o4: "obj_ok K good a (so_setBalance b (obj\<lparr>so_suicided := f\<rparr>))"
    and o5: "length h = 32 \<Longrightarrow> obj_ok K good a (so_setCode h c obj)"
    using assms(1) by (simp_all add: obj_ok_def so_setBalance_def so_setNonce_def so_setState_def so_setCode_def)
  note ov = oview_eq [OF assms(1) ctx]
  show "oview ctx (so_setBalance b obj) = (oview ctx obj)\<lparr>ov_balance := b\<rparr>"
    unfolding oview_eq [OF o1 ctx] ov by (simp add: so_setBalance_def cong: option.case_cong)
  show "oview ctx (so_setNonce n obj) = (oview ctx obj)\<lparr>ov_nonce := n\<rparr>"
    unfolding oview_eq [OF o2 ctx] ov by (simp add: so_setNonce_def cong: option.case_cong)
  show "oview ctx (so_setState key val obj) = (oview ctx obj)\<lparr>ov_state := (ov_state (oview ctx obj))(key \<mapsto> val)\<rparr>"
    unfolding oview_eq [OF o3 ctx] ov by (auto simp: so_setState_def fun_eq_iff cong: option.case_cong)
  show "oview ctx (so_setBalance b (obj\<lparr>so_suicided := f\<rparr>)) = (oview ctx obj)\<lparr>ov_suicided := f, ov_balance := b\<rparr>"
    unfolding oview_eq [OF o4 ctx] ov by (simp add: so_setBalance_def cong: option.case_cong)
  show "oview ctx (so_setCode h c obj) = (oview ctx obj)\<lparr>ov_code := code_value K db a c h, ov_codeHash := h\<rparr>"
    if "length h = 32"
    unfolding oview_eq [OF o5 [OF that] ctx] ov by (simp add: so_setCode_def cong: option.case_cong)
qed

lemma oview_destructs:
  assumes "obj_ok K good a obj" "K a \<in> D' \<longleftrightarrow> K a \<in> D"
  shows "oview \<lparr>ctx_keccak = K, ctx_db = db, ctx_snap = sn, ctx_snapDestructs = D'\<rparr> obj =
    oview \<lparr>ctx_keccak = K, ctx_db = db, ctx_snap = sn, ctx_snapDestructs = D\<rparr> obj"
proof -
  have u: "uncached_value \<lparr>ctx_keccak = K, ctx_db = db, ctx_snap = sn, ctx_snapDestructs = D'\<rparr> obj key =
    uncached_value \<lparr>ctx_keccak = K, ctx_db = db, ctx_snap = sn, ctx_snapDestructs = D\<rparr> obj key" for key
    using assms by (simp add: uncached_value_def obj_ok_def Let_def split: option.split)
  have "committed_value \<lparr>ctx_keccak = K, ctx_db = db, ctx_snap = sn, ctx_snapDestructs = D'\<rparr> obj =
    committed_value \<lparr>ctx_keccak = K, ctx_db = db, ctx_snap = sn, ctx_snapDestructs = D\<rparr> obj"
    by (simp add: fun_eq_iff committed_value_def u cong: option.case_cong)
  then show ?thesis by (simp add: oview_eq [OF assms(1)] cong: option.case_cong)
qed

lemma view_destructs:
  assumes ok: "ok s" and obj: "obj_ok K good a obj" "a \<in> A" and D: "D - {K a} = sd_snapDestructs s - {K a}"
  shows "vw (setStateObject obj (s\<lparr>sd_snapDestructs := D\<rparr>)) =
    v_put a (oview (v_ctx K db ((vw s)\<lparr>v_destructs := D\<rparr>)) obj) ((vw s)\<lparr>v_destructs := D\<rparr>)"
proof -
  define s' where "s' = s\<lparr>sd_snapDestructs := D\<rparr>"
  have ok': "ok s'" using ok by (simp add: s'_def)
  have ctx: "v_ctx K db ((vw s)\<lparr>v_destructs := D\<rparr>) = sd_ctx K db s'" by (simp add: v_ctx_def sd_ctx_def s'_def)
  have o: "oview (sd_ctx K db s') ob = oview (sd_ctx K db s) ob" if "lookup_obj K db s c = Some ob" "c \<in> A" "c \<noteq> a" for c ob
  proof -
    have "K c \<noteq> K a" using that obj(2) K_inj by (auto simp: inj_on_def)
    moreover have "K c \<in> D - {K a} \<longleftrightarrow> K c \<in> sd_snapDestructs s - {K a}" by (simp only: D)
    ultimately have "K c \<in> D \<longleftrightarrow> K c \<in> sd_snapDestructs s" by simp
    from oview_destructs [OF lookup_ok [OF ok that(2,1)] this, of "sd_snap s"]
    show ?thesis by (simp add: sd_ctx_def s'_def)
  qed
  have objs: "(v_objects (vw s'))(a \<mapsto> x) = (v_objects (vw s))(a \<mapsto> x)" for x
  proof
    fix c
    show "((v_objects (vw s'))(a \<mapsto> x)) c = ((v_objects (vw s))(a \<mapsto> x)) c"
      using o [of c] by (cases "lookup_obj K db s c") (simp_all add: s'_def)
  qed
  have "v_put a x (vw s') = v_put a x ((vw s)\<lparr>v_destructs := D\<rparr>)" for x
    using objs by (intro state_view.equality) (simp_all add: v_put_def s'_def fun_eq_iff)
  then show ?thesis unfolding s'_def [symmetric] put_props(2) [OF ok' obj] ctx .
qed

lemma revert_create_view:
  assumes ok: "ok s" and a: "a \<in> A"
  shows "implements s (entry_revert K db (createObjectChange a) s) (revert_view K db (createObjectChange a) (vw s))"
proof -
  define s' where "s' = s\<lparr>sd_stateObjects := (sd_stateObjects s)(a := None), sd_stateObjectsDirty := sd_stateObjectsDirty s - {a}\<rparr>"
  have ctx: "sd_ctx K db s' = sd_ctx K db s" by (simp add: sd_ctx_def s'_def)
  have lk: "lookup_obj K db s' c =
      (if c = a then map_option (newObject K a) (base_data K db s a) else lookup_obj K db s c)" for c
    by (simp add: lookup_obj_def s'_def cong: option.case_cong)
  have b: "base_data K db s' = base_data K db s" by (simp add: s'_def)
  have "(vw s)\<lparr>v_objects := (v_objects (vw s))(a := map_option (\<lambda>d. oview (sd_ctx K db s) (newObject K a d)) (base_data K db s a))\<rparr> = vw s'"
    using a by (intro state_view.equality) (simp_all add: fun_eq_iff lk ctx b option.map_comp comp_def, simp_all add: s'_def)
  moreover have "ok s'" using ok unfolding sd_ok_def b by (auto simp: s'_def)
  moreover have "frame s s'" by (simp add: frame_def s'_def)
  ultimately show ?thesis using a by (simp add: s'_def)
qed

lemma revert_reset_view:
  assumes ok: "ok s" and a: "so_address p \<in> A" and p: "obj_ok K good (so_address p) p"
  shows "implements s (entry_revert K db (resetObjectChange p f) s) (revert_view K db (resetObjectChange p f) (vw s))"
proof -
  define D where "D = (if \<not> f \<and> sd_snap s \<noteq> None then sd_snapDestructs s - {so_addrHash p} else sd_snapDestructs s)"
  have D: "D - {K (so_address p)} = sd_snapDestructs s - {K (so_address p)}" using p by (auto simp: D_def obj_ok_def)
  have "entry_revert K db (resetObjectChange p f) s = Some (setStateObject p (s\<lparr>sd_snapDestructs := D\<rparr>))"
    by (simp add: D_def setStateObject_def)
  moreover have "revert_view K db (resetObjectChange p f) (vw s) =
      Some (v_put (so_address p) (oview (v_ctx K db ((vw s)\<lparr>v_destructs := D\<rparr>)) p) ((vw s)\<lparr>v_destructs := D\<rparr>))"
  proof -
    have eq: "(vw s)\<lparr>v_destructs := sd_snapDestructs s\<rparr> = vw s" by (intro state_view.equality) simp_all
    show ?thesis by (simp add: D_def Let_def eq del: view_sel(13))
  qed
  moreover have okD: "ok (s\<lparr>sd_snapDestructs := D\<rparr>)" using ok by simp
  ultimately show ?thesis
    using view_destructs [OF ok p a D] put_props(1,3) [OF okD p a] by (simp add: frame_def)
qed

lemma revert_suicide_view:
  assumes ok: "ok s" and a: "a \<in> A"
  shows "implements s (entry_revert K db (suicideChange a f b) s) (revert_view K db (suicideChange a f b) (vw s))"
proof -
  obtain s1 where s1: "getStateObject K db a s = (live_obj K db s a, s1)" "loads K db good a s s1"
    using getStateObject_loads [OF ok] by blast
  note l = loads_props [OF ok s1(2) a]
  show ?thesis
  proof (cases "live_obj K db s a")
    case None
    then show ?thesis using s1(1) l v_live_view [OF a, of s] by simp
  next
    case (Some obj)
    have oo: "obj_ok K good a obj" using lookup_ok [OF ok a live_lookup [OF Some]] .
    note u = obj_updates(4,9) [OF oo, of "sd_ctx K db s" b f, simplified]
    note p = put_props [OF l(1) u(1) a]
    show ?thesis using Some s1(1) v_live_view [OF a, of s] p u l frame_trans [OF l(4) p(3)] by simp
  qed
qed

lemma entry_revert_view:
  assumes ok: "ok s" and e: "entry_ok K good A e"
  shows "implements s (entry_revert K db e s) (revert_view K db e (vw s))"
proof (cases e)
  case (createObjectChange a)
  then show ?thesis using revert_create_view [OF ok, of a] e by simp
next
  case (resetObjectChange p f)
  then show ?thesis using revert_reset_view [OF ok, of p f] e by simp
next
  case (suicideChange a f b)
  then show ?thesis using revert_suicide_view [OF ok, of a f b] e by simp
next
  case (balanceChange a b)
  then show ?thesis using e by (simp, intro revert_object_view [OF ok]) (simp_all add: obj_updates [where ctx = "sd_ctx K db s", simplified])
next
  case (nonceChange a n)
  then show ?thesis using e by (simp, intro revert_object_view [OF ok]) (simp_all add: obj_updates [where ctx = "sd_ctx K db s", simplified])
next
  case (storageChange a k v)
  then show ?thesis using e by (simp, intro revert_object_view [OF ok]) (simp_all add: obj_updates [where ctx = "sd_ctx K db s", simplified])
next
  case (codeChange a c h)
  then show ?thesis using e by (simp, intro revert_object_view [OF ok]) (simp_all add: obj_updates [where ctx = "sd_ctx K db s", simplified])
next
  case (addLogChange h)
  have "ok (s\<lparr>sd_logs := l\<rparr>)" if "\<And>h. l h \<noteq> Some []" for l using ok that by (simp add: sd_ok_def)
  moreover have "length l \<noteq> 1 \<Longrightarrow> l \<noteq> [] \<Longrightarrow> take (length l - 1) l \<noteq> []" for l :: "Log list" by (cases l) auto
  ultimately show ?thesis using addLogChange sd_okD(4) [OF ok]
    by (auto simp: GetLogs_def frame_def Let_def split: option.split)
next
  case (accessListAddSlotChange a sl)
  then show ?thesis using ok by (cases "DeleteSlot (sd_accessList s) a sl") (simp_all add: frame_def)
qed (use ok in \<open>simp_all add: frame_def\<close>)

end

end
