(* ===== verification/State_Revert.thy ===== *)
theory State_Revert
  imports State_View
begin

section \<open>Operations can be undone\<close>

text \<open>
  Every journalled operation of the state database appends entries that undo it, so
  \<open>RevertToSnapshot\<close> brings back what could be read when the snapshot was taken, however
  operations, snapshots and reverts are nested.
\<close>

subsection \<open>Sequences of operations\<close>

text \<open>
  The operations of a transaction, including reads, nested snapshots and reverts. \<open>Prepare\<close>,
  \<open>Finalise\<close> and what follows it are transaction boundaries, and \<open>SetStorage\<close> is a debugging
  function that is not journalled.
\<close>

datatype op =
    OpCreateAccount address
  | OpAddBalance address int
  | OpSubBalance address int
  | OpSetBalance address int
  | OpSetNonce address uint64
  | OpSetCode address "bytes option"
  | OpSetState address hash hash
  | OpSuicide address
  | OpAddLog Log
  | OpAddPreimage hash bytes
  | OpAddRefund uint64
  | OpSubRefund uint64
  | OpAddAddress address
  | OpAddSlot address hash
  | OpGetBalance address
  | OpGetCode address
  | OpGetCodeSize address
  | OpGetState address hash
  | OpGetCommittedState address hash
  | OpSnapshot
  | OpRevert nat

fun op_addr :: "op \<Rightarrow> address option" where
  "op_addr (OpCreateAccount a) = Some a"
| "op_addr (OpAddBalance a _) = Some a"
| "op_addr (OpSubBalance a _) = Some a"
| "op_addr (OpSetBalance a _) = Some a"
| "op_addr (OpSetNonce a _) = Some a"
| "op_addr (OpSetCode a _) = Some a"
| "op_addr (OpSetState a _ _) = Some a"
| "op_addr (OpSuicide a) = Some a"
| "op_addr (OpGetBalance a) = Some a"
| "op_addr (OpGetCode a) = Some a"
| "op_addr (OpGetCodeSize a) = Some a"
| "op_addr (OpGetState a _) = Some a"
| "op_addr (OpGetCommittedState a _) = Some a"
| "op_addr _ = None"

fun exec :: "(bytes \<Rightarrow> hash) \<Rightarrow> 'tr database \<Rightarrow> op \<Rightarrow> 'tr StateDB \<Rightarrow> 'tr StateDB option" where
  "exec K db (OpCreateAccount a) s = Some (CreateAccount K db a s)"
| "exec K db (OpAddBalance a n) s = Some (AddBalance K db a n s)"
| "exec K db (OpSubBalance a n) s = Some (SubBalance K db a n s)"
| "exec K db (OpSetBalance a n) s = Some (SetBalance K db a n s)"
| "exec K db (OpSetNonce a n) s = Some (SetNonce K db a n s)"
| "exec K db (OpSetCode a c) s = Some (SetCode K db a c s)"
| "exec K db (OpSetState a k v) s = SetState K db a k v s"
| "exec K db (OpSuicide a) s = Some (snd (Suicide K db a s))"
| "exec K db (OpAddLog l) s = Some (AddLog l s)"
| "exec K db (OpAddPreimage h p) s = Some (AddPreimage h p s)"
| "exec K db (OpAddRefund n) s = Some (AddRefund n s)"
| "exec K db (OpSubRefund n) s = SubRefund n s"
| "exec K db (OpAddAddress a) s = Some (AddAddressToAccessList a s)"
| "exec K db (OpAddSlot a k) s = AddSlotToAccessList a k s"
| "exec K db (OpGetBalance a) s = Some (snd (GetBalance K db a s))"
| "exec K db (OpGetCode a) s = Some (snd (GetCode K db a s))"
| "exec K db (OpGetCodeSize a) s = Some (snd (GetCodeSize K db a s))"
| "exec K db (OpGetState a k) s = map_option snd (GetState K db a k s)"
| "exec K db (OpGetCommittedState a k) s = map_option snd (GetCommittedState K db a k s)"
| "exec K db OpSnapshot s = Some (snd (Snapshot s))"
| "exec K db (OpRevert revid) s = RevertToSnapshot K db revid s"

fun exec_all :: "(bytes \<Rightarrow> hash) \<Rightarrow> 'tr database \<Rightarrow> op list \<Rightarrow> 'tr StateDB \<Rightarrow> 'tr StateDB option" where
  "exec_all K db [] s = Some s"
| "exec_all K db (x # xs) s = (case exec K db x s of None \<Rightarrow> None | Some s \<Rightarrow> exec_all K db xs s)"

subsection \<open>Undoing\<close>

definition entries_of :: "'tr StateDB \<Rightarrow> 'tr journalEntry list" where
  "entries_of s = j_entries (sd_journal s)"

definition same_revs :: "'tr StateDB \<Rightarrow> 'tr StateDB \<Rightarrow> bool" where
  "same_revs s s' \<longleftrightarrow> sd_validRevisions s' = sd_validRevisions s \<and> sd_nextRevisionId s' = sd_nextRevisionId s"

definition undoable :: "(bytes \<Rightarrow> hash) \<Rightarrow> 'tr database \<Rightarrow> address set \<Rightarrow> 'tr StateDB \<Rightarrow> 'tr StateDB \<Rightarrow> bool" where
  "undoable K db A s s' \<longleftrightarrow>
    same_revs s s' \<and>
    (\<exists>es. entries_of s' = entries_of s @ es \<and> revert_views K db (rev es) (view K db A s') = Some (view K db A s))"

lemma undoable_refl: "view K db A s' = view K db A s \<Longrightarrow> frame s s' \<Longrightarrow> undoable K db A s s'"
  unfolding undoable_def by (auto simp: entries_of_def frame_def same_revs_def intro: exI [where x = "[]"])

lemma undoable_one:
  "same_revs s s' \<Longrightarrow> entries_of s' = entries_of s @ [e] \<Longrightarrow>
    revert_view K db e (view K db A s') = Some (view K db A s) \<Longrightarrow> undoable K db A s s'"
  unfolding undoable_def by (auto intro: exI [where x = "[e]"])

lemma undoable_trans:
  assumes "undoable K db A s s'" "undoable K db A s' s''"
  shows "undoable K db A s s''"
proof -
  obtain es es' where "entries_of s' = entries_of s @ es" "revert_views K db (rev es) (view K db A s') = Some (view K db A s)"
    "entries_of s'' = entries_of s' @ es'" "revert_views K db (rev es') (view K db A s'') = Some (view K db A s')"
    using assms by (auto simp: undoable_def)
  then have "entries_of s'' = entries_of s @ (es @ es')"
    "revert_views K db (rev (es @ es')) (view K db A s'') = Some (view K db A s)"
    by (simp_all add: revert_views_append)
  then show ?thesis using assms unfolding undoable_def same_revs_def by metis
qed

lemma append_props [simp]:
  "entries_of (journal_append e s) = entries_of s @ [e]" "view K db A (journal_append e s) = view K db A s"
  "sd_ok K db good A (journal_append e s) \<longleftrightarrow> sd_ok K db good A s \<and> entry_ok K good A e"
  "sd_ctx K db (journal_append e s) = sd_ctx K db s" "same_revs s0 (journal_append e s) = same_revs s0 s"
  "sd_stateObjects (journal_append e s) = sd_stateObjects s"
  by (auto simp: journal_append_def entries_of_def sd_ok_def sd_ctx_def same_revs_def)

lemma setStateObject_props [simp]:
  "entries_of (setStateObject obj s) = entries_of s" "same_revs s0 (setStateObject obj s) = same_revs s0 s"
  "so_address obj = so_address obj' \<Longrightarrow> setStateObject obj (setStateObject obj' s) = setStateObject obj s"
  by (simp_all add: setStateObject_def entries_of_def same_revs_def)

lemma same_revs_refl [simp]: "same_revs s s" by (simp add: same_revs_def)

lemma v_put_same: "v_objects v a = Some ob \<Longrightarrow> v_put a ob v = v"
  by (intro state_view.equality) (simp_all add: v_put_def fun_upd_idem)

lemma v_put_put [simp]: "v_put a ob (v_put a ob' v) = v_put a ob v"
  by (simp add: v_put_def)

lemma v_live_put: "\<not> ov_deleted ob \<Longrightarrow> v_live (v_put a ob v) a = Some ob"
  by (simp add: v_live_def v_put_def)

lemma BytesToHash_32 [simp]: "length h = 32 \<Longrightarrow> BytesToHash h = h"
  by (simp add: BytesToHash_def)

lemma code_value_idem: "code_value K db a (code_value K db a c h) h = code_value K db a c h"
  by (auto simp: code_value_def split: option.splits sum.splits)

text \<open>The operations on an account change no part of the state that lies outside the objects and the journal.\<close>

definition shared_field :: "('tr StateDB \<Rightarrow> 'b) \<Rightarrow> bool" where
  "shared_field g \<longleftrightarrow>
    (\<forall>obj s. g (setStateObject obj s) = g s) \<and> (\<forall>e s. g (journal_append e s) = g s) \<and> (\<forall>a s. g (journal_dirty a s) = g s) \<and>
    (\<forall>err s. g (sd_setError err s) = g s) \<and> (\<forall>tr s. g (s\<lparr>sd_trie := tr\<rparr>) = g s) \<and> (\<forall>D s. g (s\<lparr>sd_snapDestructs := D\<rparr>) = g s)"

lemma shared_fieldD:
  assumes "shared_field g"
  shows "g (setStateObject obj s) = g s" "g (journal_append e s) = g s" "g (journal_dirty a s) = g s"
    "g (sd_setError err s) = g s" "g (s\<lparr>sd_trie := tr\<rparr>) = g s" "g (s\<lparr>sd_snapDestructs := D\<rparr>) = g s"
  using assms by (simp_all add: shared_field_def)

lemma shared_fields: "shared_field sd_accessList" "shared_field sd_refund"
  by (simp_all add: shared_field_def setStateObject_def journal_append_def journal_dirty_def sd_setError_def)

lemmas shared_simps [simp] = shared_fieldD [OF shared_fields(1)] shared_fieldD [OF shared_fields(2)]

lemma shared_getDeleted: "shared_field g \<Longrightarrow> getDeletedStateObject K db a s = (r, s') \<Longrightarrow> g s' = g s"
  by (auto simp: getDeletedStateObject_def Let_def shared_fieldD split: option.splits sum.splits prod.splits if_splits)

lemma shared_getStateObject: "shared_field g \<Longrightarrow> getStateObject K db a s = (r, s') \<Longrightarrow> g s' = g s"
  using shared_getDeleted [of g K db a s] by (auto simp: getStateObject_def split: prod.splits option.splits if_splits)

lemma shared_createObject: "shared_field g \<Longrightarrow> createObject K db a s = (obj, prev, s') \<Longrightarrow> g s' = g s"
  using shared_getDeleted [of g K db a s] by (auto simp: createObject_def Let_def shared_fieldD split: prod.splits option.splits if_splits)

lemma shared_GetOrNew: "shared_field g \<Longrightarrow> GetOrNewStateObject K db a s = (obj, s') \<Longrightarrow> g s' = g s"
  using shared_getStateObject [of g K db a s] shared_createObject [of g K db a]
  by (fastforce simp: GetOrNewStateObject_def split: prod.splits option.splits)

lemma shared_exec:
  assumes g: "shared_field g" and x: "exec K db x s = Some s'" "op_addr x \<noteq> None"
  shows "g s' = g s"
proof -
  note new = shared_GetOrNew [OF g, of K db _ s]
  note get = shared_getStateObject [OF g, of K db _ s]
  note f = shared_fieldD [OF g]
  show ?thesis
  proof (cases x)
    case (OpCreateAccount a)
    then show ?thesis using x(1) shared_createObject [OF g, of K db a s] f by (auto simp: CreateAccount_def split: prod.splits option.splits)
  next
    case (OpAddBalance a n)
    then show ?thesis using x(1) new [of a] f by (auto simp: AddBalance_def so_AddBalance_def so_touch_def so_SetBalance_def Let_def split: prod.splits)
  next
    case (OpSubBalance a n)
    then show ?thesis using x(1) new [of a] f by (auto simp: SubBalance_def so_SubBalance_def so_SetBalance_def split: prod.splits)
  next
    case (OpSetBalance a n)
    then show ?thesis using x(1) new [of a] f by (auto simp: SetBalance_def so_SetBalance_def split: prod.splits)
  next
    case (OpSetNonce a n)
    then show ?thesis using x(1) new [of a] f by (auto simp: SetNonce_def so_SetNonce_def split: prod.splits)
  next
    case (OpSetCode a c)
    then show ?thesis using x(1) new [of a] f by (auto simp: SetCode_def so_SetCode_def split: prod.splits)
  next
    case (OpSetState a k v)
    then show ?thesis using x(1) new [of a] f by (auto simp: SetState_def so_SetState_def split: prod.splits option.splits if_splits)
  next
    case (OpSuicide a)
    then show ?thesis using x(1) get [of a] f by (auto simp: Suicide_def split: prod.splits option.splits)
  next
    case (OpGetBalance a)
    then show ?thesis using x(1) get [of a] by (auto simp: GetBalance_def split: prod.splits)
  next
    case (OpGetCode a)
    then show ?thesis using x(1) get [of a] f by (auto simp: GetCode_def split: prod.splits option.splits)
  next
    case (OpGetCodeSize a)
    then show ?thesis using x(1) get [of a] f by (auto simp: GetCodeSize_def split: prod.splits option.splits)
  next
    case (OpGetState a k)
    then show ?thesis using x(1) get [of a] f by (auto simp: GetState_def split: prod.splits option.splits)
  next
    case (OpGetCommittedState a k)
    then show ?thesis using x(1) get [of a] f by (auto simp: GetCommittedState_def split: prod.splits option.splits)
  qed (use x in simp_all)
qed

text \<open>Only the two operations on the access list change it.\<close>

lemma accessList_exec:
  assumes "exec K db x s = Some s'" "\<And>a. x \<noteq> OpAddAddress a" "\<And>a k. x \<noteq> OpAddSlot a k" "\<And>i. x \<noteq> OpRevert i"
  shows "sd_accessList s' = sd_accessList s"
proof (cases "op_addr x")
  case None
  then show ?thesis using assms
    by (cases x) (auto simp: AddLog_def AddPreimage_def AddRefund_def SubRefund_def Snapshot_def journal_append_def Let_def split: if_splits)
qed (use shared_exec [OF shared_fields(1) assms(1)] in simp)

context state_store begin

abbreviation undo where "undo s s' \<equiv> undoable K db A s s'"

subsection \<open>Objects\<close>

lemma lookup_live: "sd_stateObjects s a = Some obj \<Longrightarrow> lookup_obj K db s a = Some obj"
  by (simp add: lookup_obj_def)

lemma obj_change:
  assumes ok: "ok s" and a: "a \<in> A" and obj: "sd_stateObjects s a = Some obj"
    and obj': "obj_ok K good a obj'" "\<not> so_deleted obj'" and e: "entry_ok K good A e"
    and r: "\<And>v. v_live v a = Some (oview (sd_ctx K db s) obj') \<Longrightarrow>
      revert_view K db e v = Some (v_put a (oview (sd_ctx K db s) obj) v)"
  shows "ok (setStateObject obj' (journal_append e s))" "undo s (setStateObject obj' (journal_append e s))"
proof -
  have ok': "ok (journal_append e s)" using ok e by simp
  note p = put_props [OF ok' obj'(1) a]
  show "ok (setStateObject obj' (journal_append e s))" by (rule p)
  have "v_live (vw (setStateObject obj' (journal_append e s))) a = Some (oview (sd_ctx K db s) obj')"
    using obj'(2) unfolding p(2) by (simp add: v_live_put) (simp add: oview_def v_live_def v_put_def)
  from r [OF this] have "revert_view K db e (vw (setStateObject obj' (journal_append e s))) = Some (vw s)"
    unfolding p(2) using v_put_same [of "vw s" a] a lookup_live [OF obj] by simp
  then show "undo s (setStateObject obj' (journal_append e s))" by (intro undoable_one) simp_all
qed

lemma recache:
  assumes ok: "ok s" and a: "a \<in> A" and obj: "sd_stateObjects s a = Some obj"
    and obj': "obj_ok K good a obj'" "oview (sd_ctx K db s) obj' = oview (sd_ctx K db s) obj"
  shows "ok (setStateObject obj' s)" "undo s (setStateObject obj' s)" "vw (setStateObject obj' s) = vw s"
proof -
  note p = put_props [OF ok obj'(1) a]
  show "ok (setStateObject obj' s)" by (rule p)
  show v: "vw (setStateObject obj' s) = vw s"
    unfolding p(2) obj'(2) using v_put_same [of "vw s" a] a lookup_live [OF obj] by simp
  show "undo s (setStateObject obj' s)" by (rule undoable_refl [OF v p(3)])
qed

lemma so_SetBalance_undo:
  assumes ok: "ok s" and a: "a \<in> A" and obj: "sd_stateObjects s a = Some obj" "\<not> so_deleted obj"
  shows "ok (so_SetBalance amount obj s)" "undo s (so_SetBalance amount obj s)"
proof -
  have oo: "obj_ok K good a obj" using sd_okD(2) [OF ok obj(1)] by simp
  note u = obj_updates [OF oo, of "sd_ctx K db s", simplified]
  have d: "\<not> so_deleted (so_setBalance amount obj)" using obj by (simp add: so_setBalance_def)
  have e: "entry_ok K good A (balanceChange (so_address obj) (so_Balance obj))" using oo a by (simp add: obj_ok_def)
  have ad: "so_address obj = a" using oo by (simp add: obj_ok_def)
  note c = obj_change [OF ok a obj(1) u(1) d e]
  show "ok (so_SetBalance amount obj s)" "undo s (so_SetBalance amount obj s)"
    unfolding so_SetBalance_def by (rule c, simp add: ad v_modify_def u, simp add: oview_def)+
qed

lemma so_SetNonce_undo:
  assumes ok: "ok s" and a: "a \<in> A" and obj: "sd_stateObjects s a = Some obj" "\<not> so_deleted obj"
  shows "ok (so_SetNonce nonce obj s)" "undo s (so_SetNonce nonce obj s)"
proof -
  have oo: "obj_ok K good a obj" using sd_okD(2) [OF ok obj(1)] by simp
  then have ad: "so_address obj = a" by (simp add: obj_ok_def)
  note u = obj_updates [OF oo, of "sd_ctx K db s", simplified]
  have d: "\<not> so_deleted (so_setNonce nonce obj)" using obj by (simp add: so_setNonce_def)
  have e: "entry_ok K good A (nonceChange (so_address obj) (so_Nonce obj))" using ad a by simp
  note c = obj_change [OF ok a obj(1) u(2) d e]
  show "ok (so_SetNonce nonce obj s)" "undo s (so_SetNonce nonce obj s)"
    unfolding so_SetNonce_def by (rule c, simp add: ad v_modify_def u, simp add: oview_def)+
qed

lemma so_SetCode_undo:
  assumes ok: "ok s" and a: "a \<in> A" and obj: "sd_stateObjects s a = Some obj" "\<not> so_deleted obj" and h: "length h = 32"
  shows "ok (so_SetCode K db h code obj s)" "undo s (so_SetCode K db h code obj s)"
proof -
  have oo: "obj_ok K good a obj" using sd_okD(2) [OF ok obj(1)] by simp
  then have ad: "so_address obj = a" and len: "length (so_CodeHash obj) = 32" by (simp_all add: obj_ok_def)
  let ?ctx = "sd_ctx K db s"
  obtain c err where so: "so_Code ?ctx obj = (code_value K db a (so_code obj) (so_CodeHash obj), obj\<lparr>so_code := c, so_dbErr := err\<rparr>)"
    and cv: "code_value K db a c (so_CodeHash obj) = code_value K db a (so_code obj) (so_CodeHash obj)"
    using so_Code_recached [OF oo, of ?ctx] by auto
  define obj1 where "obj1 = obj\<lparr>so_code := c, so_dbErr := err\<rparr>"
  have oo1: "obj_ok K good a obj1" using oo by (simp add: obj1_def obj_ok_def)
  note u = obj_updates(5,10) [OF oo1, of ?ctx h, simplified, OF h]
  have ov1: "oview ?ctx obj1 = oview ?ctx obj"
    unfolding oview_eq [OF oo, of ?ctx, simplified] oview_eq [OF oo1, of ?ctx, simplified]
    by (simp add: obj1_def cv cong: option.case_cong)
  let ?e = "codeChange a (code_value K db a (so_code obj) (so_CodeHash obj)) (so_CodeHash obj)"
  have d: "\<not> so_deleted (so_setCode h code obj1)" using obj by (simp add: so_setCode_def obj1_def)
  have e: "entry_ok K good A ?e" using a by simp
  have ov: "ov_code (oview ?ctx obj) = code_value K db a (so_code obj) (so_CodeHash obj)" "ov_codeHash (oview ?ctx obj) = so_CodeHash obj"
    unfolding oview_eq [OF oo, of ?ctx, simplified] by simp_all
  have restored: "(oview ?ctx obj)\<lparr>ov_codeHash := so_CodeHash obj, ov_code := code_value K db a (so_code obj) (so_CodeHash obj)\<rparr> = oview ?ctx obj"
    "(oview ?ctx obj)\<lparr>ov_code := code_value K db a (so_code obj) (so_CodeHash obj), ov_codeHash := so_CodeHash obj\<rparr> = oview ?ctx obj"
    by (intro object_view.equality; simp add: ov)+
  have r: "revert_view K db ?e v = Some (v_put a (oview ?ctx obj) v)" if "v_live v a = Some (oview ?ctx (so_setCode h code obj1))" for v
    using that u(2) len by (simp add: v_modify_def ov1 code_value_idem restored)
  have "so_SetCode K db h code obj s = setStateObject (so_setCode h code obj1) (journal_append ?e s)"
    by (simp add: so_SetCode_def so obj1_def ad)
  then show "ok (so_SetCode K db h code obj s)" "undo s (so_SetCode K db h code obj s)"
    using obj_change [OF ok a obj(1) u(1) d e r] by simp_all
qed

lemma so_SetState_undo:
  assumes ok: "ok s" and a: "a \<in> A" and obj: "sd_stateObjects s a = Some obj" "\<not> so_deleted obj"
  shows "\<exists>s'. so_SetState K db key val obj s = Some s' \<and> ok s' \<and> undo s s'"
proof -
  have oo: "obj_ok K good a obj" using sd_okD(2) [OF ok obj(1)] by simp
  then have g: "pred_option good (so_trie obj)" "so_fakeStorage obj = None" by (simp_all add: obj_ok_def)
  let ?ctx = "sd_ctx K db s"
  obtain prev obj1 where gs: "so_GetState ?ctx obj key = Some (prev, obj1)" and rc: "recached ?ctx good obj obj1"
    using so_GetState_value [OF g, of ?ctx key] by auto
  note r1 = recached_oview [OF oo _ _ rc, simplified]
  show ?thesis
  proof (cases "prev = val")
    case True
    then show ?thesis using recache [OF ok a obj(1) r1] gs g by (simp add: so_SetState_def)
  next
    case False
    note u = obj_updates(3,8) [OF r1(1), of ?ctx key val, simplified]
    have d: "\<not> so_deleted (so_setState key val obj1)" using rc obj(2) by (auto simp: so_setState_def recached_def)
    have e: "entry_ok K good A (storageChange a key prev)" using a by simp
    have st: "ov_state (oview ?ctx obj) key = Some prev" using gs by (simp add: oview_def)
    have "(oview ?ctx obj)\<lparr>ov_state := (ov_state (oview ?ctx obj))(key \<mapsto> prev)\<rparr> = oview ?ctx obj"
      using st by (simp add: fun_upd_idem)
    then have r: "revert_view K db (storageChange a key prev) v = Some (v_put a (oview ?ctx obj) v)"
      if "v_live v a = Some (oview ?ctx (so_setState key val obj1))" for v
      using that u(2) by (simp add: v_modify_def r1(2))
    have "so_SetState K db key val obj s = Some (setStateObject (so_setState key val obj1) (journal_append (storageChange a key prev) s))"
      using False gs g r1(1) by (simp add: so_SetState_def obj_ok_def)
    then show ?thesis using obj_change [OF ok a obj(1) u(1) d e r] by simp
  qed
qed

lemma so_touch_undo:
  assumes ok: "ok s" and a: "so_address obj \<in> A"
  shows "ok (so_touch obj s)" "undo s (so_touch obj s)"
proof -
  have j: "entries_of (journal_dirty b s') = entries_of s'" "view K db A (journal_dirty b s') = view K db A s'"
    "ok (journal_dirty b s') = ok s'" "same_revs s0 (journal_dirty b s') = same_revs s0 s'" for b s' s0
    by (auto simp: journal_dirty_def entries_of_def sd_ok_def same_revs_def)
  show "ok (so_touch obj s)" using ok a by (auto simp: so_touch_def j Let_def)
  show "undo s (so_touch obj s)"
    by (intro undoable_one [where e = "touchChange (so_address obj)"]) (simp_all add: so_touch_def j Let_def)
qed

lemma so_AddBalance_undo:
  assumes ok: "ok s" and a: "a \<in> A" and obj: "sd_stateObjects s a = Some obj" "\<not> so_deleted obj"
  shows "ok (so_AddBalance K amount obj s)" "undo s (so_AddBalance K amount obj s)"
    "ok (so_SubBalance amount obj s)" "undo s (so_SubBalance amount obj s)"
proof -
  have "so_address obj \<in> A" using sd_okD(2) [OF ok obj(1)] by (simp add: obj_ok_def)
  note t = so_touch_undo [OF ok this]
  have id: "undo s s" by (rule undoable_refl) (simp_all add: frame_def)
  show "ok (so_AddBalance K amount obj s)" "undo s (so_AddBalance K amount obj s)"
    "ok (so_SubBalance amount obj s)" "undo s (so_SubBalance amount obj s)"
    using t id ok so_SetBalance_undo [OF assms] by (simp_all add: so_AddBalance_def so_SubBalance_def)
qed

subsection \<open>Accounts\<close>

text \<open>
  The state in which \<open>createObject\<close> stores the new object: whatever object is stored there,
  the entry that was appended takes the view back.
\<close>

lemma frame_undo: "frame s s' \<Longrightarrow> vw s' = vw s \<Longrightarrow> undo s s'"
  by (simp add: undoable_refl)

lemma create_none:
  assumes ok: "ok s" and a: "a \<in> A" and none: "lookup_obj K db s a = None" and nb: "obj_ok K good a nb"
  shows "ok (setStateObject nb (journal_append (createObjectChange a) s))"
    "undo s (setStateObject nb (journal_append (createObjectChange a) s))"
    "b \<noteq> a \<Longrightarrow> v_objects (vw (setStateObject nb (journal_append (createObjectChange a) s))) b = v_objects (vw s) b"
proof -
  have okj: "ok (journal_append (createObjectChange a) s)" using ok a by simp
  note p = put_props [OF okj nb a]
  show "ok (setStateObject nb (journal_append (createObjectChange a) s))" by (rule p)
  show "v_objects (vw (setStateObject nb (journal_append (createObjectChange a) s))) b = v_objects (vw s) b" if "b \<noteq> a"
    unfolding p(2) using that by (simp add: v_put_def)
  have base: "base_data K db s a = None" using none by (auto simp: lookup_obj_def split: option.splits)
  have "(v_put a ob (vw s))\<lparr>v_objects := (v_objects (v_put a ob (vw s)))(a := None)\<rparr> = vw s" for ob
    using none by (intro state_view.equality) (simp_all add: v_put_def fun_upd_idem)
  moreover have "v_base (v_put a ob (vw s)) a = None" for ob using base by (simp add: v_put_def)
  ultimately have r: "revert_view K db (createObjectChange a) (vw (setStateObject nb (journal_append (createObjectChange a) s))) = Some (vw s)"
    unfolding p(2) by simp
  show "undo s (setStateObject nb (journal_append (createObjectChange a) s))" by (rule undoable_one [OF _ _ r]) simp_all
qed

lemma create_reset:
  assumes ok: "ok s" and a: "a \<in> A" and p: "lookup_obj K db s a = Some prev" and nb: "obj_ok K good a nb"
    and f: "f \<longleftrightarrow> sd_snap s \<noteq> None \<and> K a \<in> sd_snapDestructs s"
    and s': "s' = (if sd_snap s \<noteq> None \<and> \<not> f then s\<lparr>sd_snapDestructs := insert (K a) (sd_snapDestructs s)\<rparr> else s)"
  shows "ok (setStateObject nb (journal_append (resetObjectChange prev f) s'))"
    "undo s (setStateObject nb (journal_append (resetObjectChange prev f) s'))"
    "b \<noteq> a \<Longrightarrow> v_objects (vw (setStateObject nb (journal_append (resetObjectChange prev f) s'))) b = v_objects (vw s) b"
proof -
  let ?s = "setStateObject nb (journal_append (resetObjectChange prev f) s')"
  have po: "obj_ok K good a prev" using lookup_ok [OF ok a p] .
  then have ad: "so_address prev = a" "so_addrHash prev = K a" by (simp_all add: obj_ok_def)
  define D where "D = sd_snapDestructs s'"
  have sD: "s' = s\<lparr>sd_snapDestructs := D\<rparr>" by (simp add: D_def s')
  have e: "entry_ok K good A (resetObjectChange prev f)" using po ad a by simp
  have okj: "ok (journal_append (resetObjectChange prev f) s)" using ok e by simp
  have DD: "D - {K a} = sd_snapDestructs (journal_append (resetObjectChange prev f) s) - {K a}"
    by (auto simp: D_def s' journal_append_def)
  have s3: "?s = setStateObject nb ((journal_append (resetObjectChange prev f) s)\<lparr>sd_snapDestructs := D\<rparr>)"
    by (simp add: sD journal_append_def setStateObject_def)
  have v: "vw ?s = v_put a (oview (v_ctx K db ((vw s)\<lparr>v_destructs := D\<rparr>)) nb) ((vw s)\<lparr>v_destructs := D\<rparr>)"
    unfolding s3 view_destructs [OF okj nb a DD] by simp
  show "ok ?s" unfolding s3 using okj by (intro put_props(1) [OF _ nb a]) simp
  show "v_objects (vw ?s) b = v_objects (vw s) b" if "b \<noteq> a" unfolding v using that by (simp add: v_put_def)
  define D0 where "D0 = (if \<not> f \<and> sd_snap s \<noteq> None then D - {K a} else D)"
  have D0: "D0 = sd_snapDestructs s" using f by (auto simp: D0_def D_def s')
  have b: "(vw s)\<lparr>v_destructs := sd_snapDestructs s\<rparr> = vw s" by (intro state_view.equality) simp_all
  have w: "(v_put a x ((vw s)\<lparr>v_destructs := D\<rparr>))\<lparr>v_destructs := D0\<rparr> = v_put a x (vw s)" for x
    unfolding D0 by (intro state_view.equality) (simp_all add: v_put_def)
  have "revert_view K db (resetObjectChange prev f) (v_put a x ((vw s)\<lparr>v_destructs := D\<rparr>)) =
    (let v = (v_put a x ((vw s)\<lparr>v_destructs := D\<rparr>))\<lparr>v_destructs := D0\<rparr> in Some (v_put a (oview (v_ctx K db v) prev) v))" for x
    by (auto simp: D0_def ad v_put_def v_ctx_def)
  then have "revert_view K db (resetObjectChange prev f) (v_put a x ((vw s)\<lparr>v_destructs := D\<rparr>)) =
    Some (v_put a (oview (sd_ctx K db s) prev) (vw s))" for x
    unfolding w by (simp add: Let_def v_ctx_def sd_ctx_def v_put_def)
  then have r: "revert_view K db (resetObjectChange prev f) (vw ?s) = Some (vw s)"
    unfolding v using v_put_same [of "vw s" a] p a by simp
  show "undo s ?s" by (rule undoable_one [OF _ _ r]) (simp_all add: sD entries_of_def same_revs_def setStateObject_def journal_append_def)
qed

lemma createObject_undo:
  assumes ok: "ok s" and a: "a \<in> A"
  obtains newobj s' where
    "createObject K db a s = (newobj, live_obj K db s a, setStateObject newobj s')"
    "newobj = so_setNonce 0 (newObject K a Account_zero)"
    "\<And>nb. obj_ok K good a nb \<Longrightarrow> ok (setStateObject nb s') \<and> undo s (setStateObject nb s') \<and>
      (\<forall>b. b \<noteq> a \<longrightarrow> v_objects (vw (setStateObject nb s')) b = v_objects (vw s) b)"
proof -
  obtain s1 where s1: "getDeletedStateObject K db a s = (lookup_obj K db s a, s1)" "loads K db good a s s1"
    using getDeletedStateObject_loads [OF ok] by blast
  note l = loads_props [OF ok s1(2) a]
  note u1 = frame_undo [OF l(4,2)]
  let ?new = "so_setNonce 0 (newObject K a Account_zero)"
  show ?thesis
  proof (cases "lookup_obj K db s a")
    case None
    have "createObject K db a s = (?new, live_obj K db s a, setStateObject ?new (journal_append (createObjectChange a) s1))"
      using s1(1) None by (simp add: createObject_def live_obj_def Let_def)
    moreover have "ok (setStateObject nb (journal_append (createObjectChange a) s1)) \<and>
        undo s (setStateObject nb (journal_append (createObjectChange a) s1)) \<and>
        (\<forall>b. b \<noteq> a \<longrightarrow> v_objects (vw (setStateObject nb (journal_append (createObjectChange a) s1))) b = v_objects (vw s) b)"
      if "obj_ok K good a nb" for nb
    proof -
      have lk: "lookup_obj K db s1 a = None" using l(5) None by simp
      note c = create_none [OF l(1) a lk that]
      show ?thesis using c(1,3) undoable_trans [OF u1 c(2)] unfolding l(2) by blast
    qed
    ultimately show ?thesis using that by blast
  next
    case (Some p)
    have ad: "so_addrHash p = K a" using lookup_ok [OF ok a Some] by (simp add: obj_ok_def)
    define f where "f \<longleftrightarrow> sd_snap s1 \<noteq> None \<and> K a \<in> sd_snapDestructs s1"
    define s2 where "s2 = (if sd_snap s1 \<noteq> None \<and> \<not> f then s1\<lparr>sd_snapDestructs := insert (K a) (sd_snapDestructs s1)\<rparr> else s1)"
    have "createObject K db a s = (?new, live_obj K db s a, setStateObject ?new (journal_append (resetObjectChange p f) s2))"
      using s1(1) Some ad by (simp add: createObject_def live_obj_def f_def s2_def Let_def)
    moreover have "ok (setStateObject nb (journal_append (resetObjectChange p f) s2)) \<and>
        undo s (setStateObject nb (journal_append (resetObjectChange p f) s2)) \<and>
        (\<forall>b. b \<noteq> a \<longrightarrow> v_objects (vw (setStateObject nb (journal_append (resetObjectChange p f) s2))) b = v_objects (vw s) b)"
      if "obj_ok K good a nb" for nb
    proof -
      have lk: "lookup_obj K db s1 a = Some p" using l(5) Some by simp
      note c = create_reset [OF l(1) a lk that f_def s2_def]
      show ?thesis using c(1,3) undoable_trans [OF u1 c(2)] unfolding l(2) by blast
    qed
    ultimately show ?thesis using that by blast
  qed
qed

lemma new_ok: "obj_ok K good a (so_setNonce 0 (newObject K a Account_zero))" "\<not> so_deleted (so_setNonce 0 (newObject K a Account_zero))"
  "obj_ok K good a (so_setBalance b (so_setNonce 0 (newObject K a Account_zero)))"
  by (simp_all add: obj_ok_def so_setNonce_def so_setBalance_def newObject_def Account_zero_def emptyCodeHash_def K_len)

lemma GetOrNewStateObject_undo:
  assumes ok: "ok s" and a: "a \<in> A"
  obtains obj s' where "GetOrNewStateObject K db a s = (obj, s')" "ok s'" "undo s s'"
    "sd_stateObjects s' a = Some obj" "\<not> so_deleted obj"
    "\<And>b. b \<noteq> a \<Longrightarrow> v_objects (vw s') b = v_objects (vw s) b"
    "\<And>ob. v_live (vw s) a = Some ob \<Longrightarrow> vw s' = vw s"
    "v_live (vw s) a = None \<Longrightarrow> obj = so_setNonce 0 (newObject K a Account_zero)"
proof -
  obtain s1 where s1: "getStateObject K db a s = (live_obj K db s a, s1)" "loads K db good a s s1"
    using getStateObject_loads [OF ok] by blast
  note l = loads_props [OF ok s1(2) a]
  note u1 = frame_undo [OF l(4,2)]
  show ?thesis
  proof (cases "live_obj K db s a")
    case (Some obj)
    have "\<not> so_deleted obj" using Some by (auto simp: live_obj_def split: option.splits if_splits)
    then show ?thesis using that [of obj s1] s1(1) Some l(1-3) u1 live_lookup [OF Some] v_live_view [OF a, of s]
      by (simp add: GetOrNewStateObject_def)
  next
    case None
    obtain nb s2 where c: "createObject K db a s1 = (nb, live_obj K db s1 a, setStateObject nb s2)"
      "nb = so_setNonce 0 (newObject K a Account_zero)"
      and u: "\<And>nb. obj_ok K good a nb \<Longrightarrow> ok (setStateObject nb s2) \<and> undo s1 (setStateObject nb s2) \<and>
        (\<forall>b. b \<noteq> a \<longrightarrow> v_objects (vw (setStateObject nb s2)) b = v_objects (vw s1) b)"
      by (rule createObject_undo [OF l(1) a]) blast
    have nb: "obj_ok K good a nb" "\<not> so_deleted nb" using new_ok c(2) by simp_all
    have "sd_stateObjects (setStateObject nb s2) a = Some nb" using nb(1) by (simp add: setStateObject_def obj_ok_def)
    moreover have "GetOrNewStateObject K db a s = (nb, setStateObject nb s2)"
      using s1(1) None c(1) by (simp add: GetOrNewStateObject_def)
    moreover have "v_live (vw s) a = None" using None v_live_view [OF a, of s] by simp
    ultimately show ?thesis using that [of nb "setStateObject nb s2"] u [OF nb(1)] undoable_trans [OF u1] nb(2) c(2) l(2) by simp
  qed
qed

lemma CreateAccount_undo:
  assumes ok: "ok s" and a: "a \<in> A"
  shows "ok (CreateAccount K db a s)" "undo s (CreateAccount K db a s)"
proof -
  obtain nb s2 where c: "createObject K db a s = (nb, live_obj K db s a, setStateObject nb s2)"
    "nb = so_setNonce 0 (newObject K a Account_zero)"
    and u: "\<And>nb. obj_ok K good a nb \<Longrightarrow> ok (setStateObject nb s2) \<and> undo s (setStateObject nb s2)"
    by (rule createObject_undo [OF ok a]) blast
  have ad: "so_address (so_setBalance b nb) = so_address nb" for b by (simp add: so_setBalance_def)
  have "CreateAccount K db a s = setStateObject nb s2 \<or> (\<exists>b. CreateAccount K db a s = setStateObject (so_setBalance b nb) s2)"
    using c(1) ad by (cases "live_obj K db s a") (simp_all add: CreateAccount_def, blast)
  then show "ok (CreateAccount K db a s)" "undo s (CreateAccount K db a s)"
    using u [of nb] u [of "so_setBalance b nb" for b] new_ok [of a] c(2) by auto
qed

lemma GetOrNew_then:
  assumes ok: "ok s" and a: "a \<in> A"
    and f: "\<And>s obj. ok s \<Longrightarrow> sd_stateObjects s a = Some obj \<Longrightarrow> \<not> so_deleted obj \<Longrightarrow> ok (f obj s) \<and> undo s (f obj s)"
  shows "let s' = (case GetOrNewStateObject K db a s of (obj, s) \<Rightarrow> f obj s) in ok s' \<and> undo s s'"
proof -
  obtain obj s1 where g: "GetOrNewStateObject K db a s = (obj, s1)" "ok s1" "undo s s1"
    "sd_stateObjects s1 a = Some obj" "\<not> so_deleted obj"
    by (rule GetOrNewStateObject_undo [OF ok a]) blast
  show ?thesis using g(1) f [OF g(2,4,5)] undoable_trans [OF g(3)] by simp
qed

lemma setters_undo:
  assumes ok: "ok s" and a: "a \<in> A"
  shows "ok (AddBalance K db a amount s) \<and> undo s (AddBalance K db a amount s)"
    "ok (SubBalance K db a amount s) \<and> undo s (SubBalance K db a amount s)"
    "ok (SetBalance K db a amount s) \<and> undo s (SetBalance K db a amount s)"
    "ok (SetNonce K db a nonce s) \<and> undo s (SetNonce K db a nonce s)"
    "ok (SetCode K db a code s) \<and> undo s (SetCode K db a code s)"
  using GetOrNew_then [OF ok a, of "so_AddBalance K amount"] GetOrNew_then [OF ok a, of "so_SubBalance amount"]
    GetOrNew_then [OF ok a, of "so_SetBalance amount"] GetOrNew_then [OF ok a, of "so_SetNonce nonce"]
    GetOrNew_then [OF ok a, of "so_SetCode K db (K (case code of None \<Rightarrow> [] | Some c \<Rightarrow> c)) code"]
    so_AddBalance_undo [OF _ a] so_SetBalance_undo [OF _ a] so_SetNonce_undo [OF _ a] so_SetCode_undo [OF _ a] K_len
  by (simp_all add: AddBalance_def SubBalance_def SetBalance_def SetNonce_def SetCode_def Let_def)

lemma SetState_undo:
  assumes ok: "ok s" and a: "a \<in> A"
  shows "\<exists>s'. SetState K db a key val s = Some s' \<and> ok s' \<and> undo s s'"
proof -
  obtain obj s1 where g: "GetOrNewStateObject K db a s = (obj, s1)" "ok s1" "undo s s1"
    "sd_stateObjects s1 a = Some obj" "\<not> so_deleted obj"
    by (rule GetOrNewStateObject_undo [OF ok a]) blast
  show ?thesis using so_SetState_undo [OF g(2) a g(4,5), of key val] g(1) undoable_trans [OF g(3)]
    by (auto simp: SetState_def)
qed

lemma Suicide_undo:
  assumes ok: "ok s" and a: "a \<in> A"
  shows "ok (snd (Suicide K db a s))" "undo s (snd (Suicide K db a s))"
proof -
  obtain s1 where s1: "getStateObject K db a s = (live_obj K db s a, s1)" "loads K db good a s s1"
    using getStateObject_loads [OF ok] by blast
  note l = loads_props [OF ok s1(2) a]
  note u1 = frame_undo [OF l(4,2)]
  have "ok (snd (Suicide K db a s)) \<and> undo s (snd (Suicide K db a s))"
  proof (cases "live_obj K db s a")
    case None
    then show ?thesis using s1(1) l(1) u1 by (simp add: Suicide_def)
  next
    case (Some obj)
    have oo: "obj_ok K good a obj" using lookup_ok [OF ok a live_lookup [OF Some]] .
    have so: "sd_stateObjects s1 a = Some obj" using l(3) live_lookup [OF Some] by simp
    have eq: "(markSuicided obj)\<lparr>so_Balance := 0\<rparr> = so_setBalance 0 (obj\<lparr>so_suicided := True\<rparr>)"
      by (simp add: markSuicided_def so_setBalance_def)
    note u = obj_updates(4,9) [OF oo, of "sd_ctx K db s1" 0 True, simplified]
    have d: "\<not> so_deleted (so_setBalance 0 (obj\<lparr>so_suicided := True\<rparr>))"
      using Some by (auto simp: so_setBalance_def live_obj_def split: option.splits if_splits)
    have e: "entry_ok K good A (suicideChange a (so_suicided obj) (so_Balance obj))" using a by simp
    have r: "revert_view K db (suicideChange a (so_suicided obj) (so_Balance obj)) v = Some (v_put a (oview (sd_ctx K db s1) obj) v)"
      if "v_live v a = Some (oview (sd_ctx K db s1) (so_setBalance 0 (obj\<lparr>so_suicided := True\<rparr>)))" for v
      using that u(2) by (simp add: oview_def)
    show ?thesis using obj_change [OF l(1) a so u(1) d e r] s1(1) Some undoable_trans [OF u1] by (simp add: Suicide_def eq)
  qed
  then show "ok (snd (Suicide K db a s))" "undo s (snd (Suicide K db a s))" by simp_all
qed

subsection \<open>Reads and the other operations\<close>

lemma GetBalance_undo:
  assumes ok: "ok s" and a: "a \<in> A"
  shows "ok (snd (GetBalance K db a s))" "undo s (snd (GetBalance K db a s))"
proof -
  obtain s1 where s1: "getStateObject K db a s = (live_obj K db s a, s1)" "loads K db good a s s1"
    using getStateObject_loads [OF ok] by blast
  note l = loads_props [OF ok s1(2) a]
  show "ok (snd (GetBalance K db a s))" "undo s (snd (GetBalance K db a s))"
    using s1(1) l(1) frame_undo [OF l(4,2)] by (simp_all add: GetBalance_def)
qed

text \<open>A read through an object whose caches it may change.\<close>

lemma read_undo:
  assumes ok: "ok s" and a: "a \<in> A" and s1: "getStateObject K db a s = (Some obj, s1)"
    and r: "\<And>ctx. ctx_db ctx = db \<Longrightarrow> ctx_keccak ctx = K \<Longrightarrow> obj_ok K good a obj \<Longrightarrow>
      obj_ok K good a (f ctx) \<and> oview ctx (f ctx) = oview ctx obj"
  shows "ok (setStateObject (f (sd_ctx K db s1)) s1) \<and> undo s (setStateObject (f (sd_ctx K db s1)) s1) \<and>
    vw (setStateObject (f (sd_ctx K db s1)) s1) = vw s"
proof -
  have l: "live_obj K db s a = Some obj" "loads K db good a s s1" using getStateObject_loads [OF ok, of a] s1 by auto
  note p = loads_props [OF ok l(2) a]
  have so: "sd_stateObjects s1 a = Some obj" using p(3) live_lookup [OF l(1)] by simp
  have oo: "obj_ok K good a obj" using sd_okD(2) [OF p(1) so] by simp
  have rr: "obj_ok K good a (f (sd_ctx K db s1))" "oview (sd_ctx K db s1) (f (sd_ctx K db s1)) = oview (sd_ctx K db s1) obj"
    using r [of "sd_ctx K db s1"] oo by simp_all
  show ?thesis using recache [OF p(1) a so rr] undoable_trans [OF frame_undo [OF p(4,2)]] p(2) by simp
qed

lemma reads_undo:
  assumes ok: "ok s" and a: "a \<in> A"
  shows "ok (snd (GetCode K db a s)) \<and> undo s (snd (GetCode K db a s)) \<and> vw (snd (GetCode K db a s)) = vw s"
    "\<exists>s'. map_option snd (GetState K db a key s) = Some s' \<and> ok s' \<and> undo s s' \<and> vw s' = vw s"
    "\<exists>s'. map_option snd (GetCommittedState K db a key s) = Some s' \<and> ok s' \<and> undo s s' \<and> vw s' = vw s"
proof -
  obtain s1 where s1: "getStateObject K db a s = (live_obj K db s a, s1)" "loads K db good a s s1"
    using getStateObject_loads [OF ok] by blast
  note l = loads_props [OF ok s1(2) a]
  note u1 = frame_undo [OF l(4,2)]
  have "(ok (snd (GetCode K db a s)) \<and> undo s (snd (GetCode K db a s)) \<and> vw (snd (GetCode K db a s)) = vw s) \<and>
    (\<exists>s'. map_option snd (GetState K db a key s) = Some s' \<and> ok s' \<and> undo s s' \<and> vw s' = vw s) \<and>
    (\<exists>s'. map_option snd (GetCommittedState K db a key s) = Some s' \<and> ok s' \<and> undo s s' \<and> vw s' = vw s)"
  proof (cases "live_obj K db s a")
    case None
    then show ?thesis using s1(1) l(1,2) u1 by (simp add: GetCode_def GetState_def GetCommittedState_def)
  next
    case (Some obj)
    let ?ctx = "sd_ctx K db s1"
    have oo: "obj_ok K good a obj" using lookup_ok [OF ok a live_lookup [OF Some]] .
    then have g: "pred_option good (so_trie obj)" "so_fakeStorage obj = None" by (simp_all add: obj_ok_def)
    have s1': "getStateObject K db a s = (Some obj, s1)" using s1(1) Some by simp
    have c: "obj_ok K good a (snd (so_Code ctx obj)) \<and> oview ctx (snd (so_Code ctx obj)) = oview ctx obj"
      if ctx: "ctx_db ctx = db" "ctx_keccak ctx = K" for ctx
    proof -
      obtain c err where so: "so_Code ctx obj = (code_value K db a (so_code obj) (so_CodeHash obj), obj\<lparr>so_code := c, so_dbErr := err\<rparr>)"
        and cv: "code_value K db a c (so_CodeHash obj) = code_value K db a (so_code obj) (so_CodeHash obj)"
        using so_Code_recached [OF oo ctx] by auto
      have oo1: "obj_ok K good a (obj\<lparr>so_code := c, so_dbErr := err\<rparr>)" using oo by (simp add: obj_ok_def)
      show ?thesis using oo1 unfolding so snd_conv oview_eq [OF oo ctx] oview_eq [OF oo1 ctx]
        by (simp add: cv cong: option.case_cong)
    qed
    have 1: "snd (GetCode K db a s) = setStateObject (snd (so_Code ?ctx obj)) s1"
      using s1' by (simp add: GetCode_def split_def Let_def)
    have 2: "obj_ok K good a (snd (the (so_GetState ctx obj key))) \<and> oview ctx (snd (the (so_GetState ctx obj key))) = oview ctx obj"
      if "ctx_db ctx = db" "ctx_keccak ctx = K" for ctx
      using so_GetState_value [OF g that(1), of key] recached_oview [OF oo that] by auto
    have 3: "obj_ok K good a (snd (the (so_GetCommittedState ctx obj key))) \<and> oview ctx (snd (the (so_GetCommittedState ctx obj key))) = oview ctx obj"
      if "ctx_db ctx = db" "ctx_keccak ctx = K" for ctx
      using so_GetCommittedState_value [OF g that(1), of key] recached_oview [OF oo that] by auto
    have 4: "map_option snd (GetState K db a key s) = Some (setStateObject (snd (the (so_GetState ?ctx obj key))) s1)"
      using so_GetState_value [OF g, of ?ctx key] s1' by (auto simp: GetState_def)
    have 5: "map_option snd (GetCommittedState K db a key s) = Some (setStateObject (snd (the (so_GetCommittedState ?ctx obj key))) s1)"
      using so_GetCommittedState_value [OF g, of ?ctx key] s1' by (auto simp: GetCommittedState_def)
    show ?thesis
      unfolding 1 4 5 using read_undo [OF ok a s1', of "\<lambda>ctx. snd (so_Code ctx obj)"]
        read_undo [OF ok a s1', of "\<lambda>ctx. snd (the (so_GetState ctx obj key))"]
        read_undo [OF ok a s1', of "\<lambda>ctx. snd (the (so_GetCommittedState ctx obj key))"] c 2 3 by blast
  qed
  then show "ok (snd (GetCode K db a s)) \<and> undo s (snd (GetCode K db a s)) \<and> vw (snd (GetCode K db a s)) = vw s"
    "\<exists>s'. map_option snd (GetState K db a key s) = Some s' \<and> ok s' \<and> undo s s' \<and> vw s' = vw s"
    "\<exists>s'. map_option snd (GetCommittedState K db a key s) = Some s' \<and> ok s' \<and> undo s s' \<and> vw s' = vw s" by simp_all
qed

lemma GetCodeSize_undo:
  assumes ok: "ok s" and a: "a \<in> A"
  shows "ok (snd (GetCodeSize K db a s)) \<and> undo s (snd (GetCodeSize K db a s)) \<and> vw (snd (GetCodeSize K db a s)) = vw s"
proof -
  obtain s1 where s1: "getStateObject K db a s = (live_obj K db s a, s1)" "loads K db good a s s1"
    using getStateObject_loads [OF ok] by blast
  note l = loads_props [OF ok s1(2) a]
  show ?thesis
  proof (cases "live_obj K db s a")
    case None
    then show ?thesis using s1(1) l(1,2) frame_undo [OF l(4,2)] by (simp add: GetCodeSize_def)
  next
    case (Some obj)
    then have s1': "getStateObject K db a s = (Some obj, s1)" using s1(1) by simp
    have r: "obj_ok K good a (snd (so_CodeSize ctx obj)) \<and> oview ctx (snd (so_CodeSize ctx obj)) = oview ctx obj"
      if ctx: "ctx_db ctx = db" "ctx_keccak ctx = K" and oo: "obj_ok K good a obj" for ctx
    proof -
      define e where "e = so_dbErr (snd (so_CodeSize ctx obj))"
      have so: "snd (so_CodeSize ctx obj) = obj\<lparr>so_dbErr := e\<rparr>"
        by (simp add: e_def so_CodeSize_def so_setError_def split: option.splits sum.splits)
      have oo1: "obj_ok K good a (obj\<lparr>so_dbErr := e\<rparr>)" using oo by (simp add: obj_ok_def)
      show ?thesis using oo1 unfolding so oview_eq [OF oo ctx] oview_eq [OF oo1 ctx] by (simp cong: option.case_cong)
    qed
    have "snd (GetCodeSize K db a s) = setStateObject (snd (so_CodeSize (sd_ctx K db s1) obj)) s1"
      using s1' by (simp add: GetCodeSize_def split_def Let_def)
    then show ?thesis using read_undo [OF ok a s1', of "\<lambda>ctx. snd (so_CodeSize ctx obj)"] r by simp
  qed
qed

lemma view_fields: "(vw s)\<lparr>v_refund := sd_refund s\<rparr> = vw s" "(vw s)\<lparr>v_logs := sd_logs s, v_logSize := sd_logSize s\<rparr> = vw s"
  "(vw s)\<lparr>v_preimages := sd_preimages s\<rparr> = vw s" "(vw s)\<lparr>v_accessList := sd_accessList s\<rparr> = vw s"
  by (intro state_view.equality; simp)+

lemma shared_undo:
  assumes ok: "ok s"
  shows "ok (AddLog l s) \<and> undo s (AddLog l s)"
    "ok (AddPreimage h p s) \<and> undo s (AddPreimage h p s)"
    "ok (AddRefund n s) \<and> undo s (AddRefund n s)"
    "SubRefund n s = Some s' \<Longrightarrow> ok s' \<and> undo s s'"
proof -
  have id: "undo s s" by (rule frame_undo) (simp_all add: frame_def)
  define sj where "sj = journal_append (addLogChange (sd_thash s)) s"
  define ls where "ls = GetLogs (sd_thash s) s"
  obtain lg where al: "AddLog l s = sj\<lparr>sd_logs := (sd_logs s)(sd_thash s \<mapsto> ls @ [lg]), sd_logSize := sd_logSize s + 1\<rparr>"
    by (auto simp: AddLog_def sj_def ls_def Let_def journal_append_def GetLogs_def)
  have "ok sj" using ok by (simp add: sj_def)
  then have 1: "ok (AddLog l s)" unfolding al sd_ok_def using sd_okD(4) [OF ok] by simp
  have ls: "ls = [] \<Longrightarrow> sd_logs s (sd_thash s) = None" "ls \<noteq> [] \<Longrightarrow> sd_logs s (sd_thash s) = Some ls"
    using sd_okD(4) [OF ok, of "sd_thash s"] by (auto simp: ls_def GetLogs_def split: option.splits)
  have r: "revert_view K db (addLogChange (sd_thash s)) (vw (AddLog l s)) = Some ((vw s)\<lparr>v_logs := sd_logs s, v_logSize := sd_logSize s\<rparr>)"
    using ls by (cases "ls = []") (simp_all add: al sj_def fun_upd_idem)
  have "undo s (AddLog l s)"
    by (rule undoable_one [OF _ _ r [unfolded view_fields]]) (simp_all add: al sj_def entries_of_def same_revs_def journal_append_def)
  then show "ok (AddLog l s) \<and> undo s (AddLog l s)" using 1 by simp
  have "(sd_preimages s)(h := None) = sd_preimages s" if "sd_preimages s h = None" using that by (simp add: fun_upd_idem)
  then show "ok (AddPreimage h p s) \<and> undo s (AddPreimage h p s)"
    using ok id by (auto simp: AddPreimage_def entries_of_def same_revs_def journal_append_def sd_ok_def view_fields
        intro!: undoable_one [where e = "addPreimageChange h"])
  have r: "ok ((journal_append (refundChange (sd_refund s)) s)\<lparr>sd_refund := m\<rparr>)"
    "undo s ((journal_append (refundChange (sd_refund s)) s)\<lparr>sd_refund := m\<rparr>)" for m
    using ok by (simp, intro undoable_one [where e = "refundChange (sd_refund s)"])
      (simp_all add: view_fields entries_of_def same_revs_def journal_append_def)
  show "ok (AddRefund n s) \<and> undo s (AddRefund n s)" using r by (simp add: AddRefund_def)
  show "ok s' \<and> undo s s'" if "SubRefund n s = Some s'"
    using that r [of "sd_refund s - n"] by (auto simp: SubRefund_def Let_def journal_append_def split: if_splits)
qed

lemma access_undo:
  assumes ok: "ok s" and al: "al_ok (sd_accessList s)"
  shows "let s' = AddAddressToAccessList a s in ok s' \<and> al_ok (sd_accessList s') \<and> undo s s'"
    "\<exists>s'. AddSlotToAccessList a slot s = Some s' \<and> ok s' \<and> al_ok (sd_accessList s') \<and> undo s s'"
proof -
  have id: "undo s s" by (rule frame_undo) (simp_all add: frame_def)
  obtain b al1 where aa: "AddAddress (sd_accessList s) a = (b, al1)" by fastforce
  have al1: "al_ok al1" using al_ok_AddAddress [OF al, of a] aa by simp
  show "let s' = AddAddressToAccessList a s in ok s' \<and> al_ok (sd_accessList s') \<and> undo s s'"
  proof (cases b)
    case True
    let ?s = "journal_append (accessListAddAccountChange a) (s\<lparr>sd_accessList := al1\<rparr>)"
    have r: "revert_view K db (accessListAddAccountChange a) (vw ?s) = Some (vw s)"
      using AddAddress_undo [of "sd_accessList s" a al1] aa True by (simp add: view_fields)
    have "undo s ?s" by (rule undoable_one [OF _ _ r]) (simp_all add: entries_of_def same_revs_def journal_append_def)
    moreover have "sd_accessList ?s = al1" by (simp add: journal_append_def)
    ultimately show ?thesis using ok al1 aa True by (simp add: AddAddressToAccessList_def)
  next
    case False
    then have "al1 = sd_accessList s" using aa by (auto simp: AddAddress_def split: if_splits)
    then show ?thesis using ok al aa False id by (simp add: AddAddressToAccessList_def)
  qed
  obtain c d al2 where as: "AddSlot (sd_accessList s) a slot = Some ((c, d), al2)" "al_ok al2"
    using al_ok_AddSlot [OF al, of a slot] by auto
  show "\<exists>s'. AddSlotToAccessList a slot s = Some s' \<and> ok s' \<and> al_ok (sd_accessList s') \<and> undo s s'"
  proof (cases d)
    case False
    then have "al2 = sd_accessList s" "\<not> c" using as(1) by (auto simp: AddSlot_def Let_def split: option.splits if_splits)
    then show ?thesis using False as ok al id by (simp add: AddSlotToAccessList_def)
  next
    case True
    obtain al3 where al3: "DeleteSlot al2 a slot = Some al3" "if c then DeleteAddress al3 a = sd_accessList s else al3 = sd_accessList s"
      using AddSlot_undo [OF al, of a slot c al2] as True by auto
    let ?es = "(if c then [accessListAddAccountChange a] else []) @ [accessListAddSlotChange a slot]"
    define s1 where "s1 = s\<lparr>sd_accessList := al2\<rparr>"
    define s2 where "s2 = (if c then journal_append (accessListAddAccountChange a) s1 else s1)"
    define s' where "s' = journal_append (accessListAddSlotChange a slot) s2"
    have s': "AddSlotToAccessList a slot s = Some s'" "ok s'" "sd_accessList s' = al2"
      using as True ok by (simp_all add: AddSlotToAccessList_def s1_def s2_def s'_def Let_def)
    have s'': "entries_of s' = entries_of s @ ?es" "same_revs s s'" "vw s' = (vw s)\<lparr>v_accessList := al2\<rparr>"
      by (simp_all add: s1_def s2_def s'_def) (simp_all add: entries_of_def same_revs_def)
    have "revert_views K db (rev ?es) (vw s') = Some (vw s)" using al3 s''(3) by (auto simp: view_fields)
    then have "undo s s'" unfolding undoable_def using s''(1,2) by blast
    then show ?thesis using s' as by simp
  qed
qed

text \<open>Every operation but a snapshot or a revert.\<close>

lemma exec_undo:
  assumes ok: "ok s" and al: "al_ok (sd_accessList s)" and x: "x \<noteq> OpSnapshot" "\<And>i. x \<noteq> OpRevert i"
    and a: "pred_option (\<lambda>a. a \<in> A) (op_addr x)" and e: "exec K db x s = Some s'"
  shows "ok s' \<and> al_ok (sd_accessList s') \<and> undo s s'"
proof -
  consider (addr) b where "x = OpAddAddress b" | (slot) b k where "x = OpAddSlot b k"
    | (other) "\<And>b. x \<noteq> OpAddAddress b" "\<And>b k. x \<noteq> OpAddSlot b k" by blast
  then show ?thesis
  proof cases
    case addr
    then show ?thesis using access_undo(1) [OF ok al] e by (auto simp: Let_def)
  next
    case slot
    then show ?thesis using access_undo(2) [OF ok al, of b k] e by auto
  next
    case other
    have "ok s' \<and> undo s s'"
    proof (cases x)
      case (OpSetState b k v)
      then show ?thesis using SetState_undo [OF ok, of b k v] a e by auto
    next
      case (OpGetState b k)
      then show ?thesis using reads_undo(2) [OF ok, of b k] a e by auto
    next
      case (OpGetCommittedState b k)
      then show ?thesis using reads_undo(3) [OF ok, of b k] a e by auto
    qed (use e x a other setters_undo [OF ok] CreateAccount_undo [OF ok] Suicide_undo [OF ok] shared_undo [OF ok]
        GetBalance_undo [OF ok] reads_undo(1) [OF ok] GetCodeSize_undo [OF ok] in auto)
    moreover have "al_ok (sd_accessList s')" using accessList_exec [OF e other x(2)] al by simp
    ultimately show ?thesis by blast
  qed
qed

subsection \<open>Reverting the journal\<close>

lemma drop_dirty_props:
  "entries_of (drop_dirty e s) = entries_of s" "vw (drop_dirty e s) = vw s" "ok (drop_dirty e s) = ok s"
  "same_revs s0 (drop_dirty e s) = same_revs s0 s"
  by (auto simp: drop_dirty_def entries_of_def sd_ok_def same_revs_def split: option.splits)

lemma revert_entries_view:
  assumes "ok s" "\<forall>e\<in>set es. entry_ok K good A e"
  shows "rel_option (\<lambda>s' v'. v' = vw s' \<and> ok s' \<and> entries_of s' = entries_of s \<and> same_revs s s')
    (revert_entries K db es s) (revert_views K db es (vw s))"
  using assms
proof (induction es arbitrary: s)
  case Nil
  then show ?case by simp
next
  case (Cons e es)
  have r: "implements s (entry_revert K db e s) (revert_view K db e (vw s))"
    using entry_revert_view [OF Cons.prems(1)] Cons.prems(2) by simp
  show ?case
  proof (cases "entry_revert K db e s")
    case None
    then show ?thesis using r by simp
  next
    case (Some s1)
    then have s1: "revert_view K db e (vw s) = Some (vw s1)" "ok s1" "frame s s1" using r by (auto simp: option_rel_Some1)
    have IH: "rel_option (\<lambda>s' v'. v' = vw s' \<and> ok s' \<and> entries_of s' = entries_of (drop_dirty e s1) \<and> same_revs (drop_dirty e s1) s')
      (revert_entries K db es (drop_dirty e s1)) (revert_views K db es (vw (drop_dirty e s1)))"
      using Cons.IH [of "drop_dirty e s1"] Cons.prems(2) s1(2) by (simp add: drop_dirty_props)
    have "entries_of s1 = entries_of s" "same_revs s s1"
      using s1(3) by (simp_all add: frame_def entries_of_def same_revs_def)
    then have "entries_of (drop_dirty e s1) = entries_of s" "same_revs s (drop_dirty e s1)"
      by (simp_all add: drop_dirty_props)
    then show ?thesis
      using IH Some s1(1) by (auto simp: drop_dirty_props same_revs_def elim!: option.rel_mono_strong)
  qed
qed

lemma journal_revert_view:
  assumes ok: "ok s" and r: "revert_views K db (rev (drop n (entries_of s))) (vw s) = Some v"
  obtains s' where "journal_revert K db n s = Some s'" "vw s' = v" "ok s'" "entries_of s' = take n (entries_of s)" "same_revs s s'"
proof -
  have "\<forall>e\<in>set (rev (drop n (entries_of s))). entry_ok K good A e"
    using sd_okD(5) [OF ok] by (auto simp: entries_of_def dest: in_set_dropD)
  from revert_entries_view [OF ok this] r obtain s1 where
    s1: "revert_entries K db (rev (drop n (entries_of s))) s = Some s1" "v = vw s1" "ok s1" "entries_of s1 = entries_of s" "same_revs s s1"
    by (auto simp: option_rel_Some2)
  let ?s = "s1\<lparr>sd_journal := (sd_journal s1)\<lparr>j_entries := take n (j_entries (sd_journal s1))\<rparr>\<rparr>"
  have "journal_revert K db n s = Some ?s" using s1(1) by (simp add: journal_revert_def entries_of_def)
  moreover have "ok ?s" using s1(3) by (auto simp: sd_ok_def dest: in_set_takeD)
  moreover have "entries_of ?s = take n (entries_of s)" using s1(4) by (simp add: entries_of_def)
  moreover have "same_revs s ?s" using s1(5) by (simp add: same_revs_def)
  ultimately show ?thesis using that s1(2) by simp
qed

end

subsection \<open>Revisions\<close>

text \<open>\<open>sort.Search\<close> finds the first index where a monotone predicate holds.\<close>

lemma sort_Search_spec:
  assumes "i \<le> n" "n \<le> j" "\<And>k. i \<le> k \<Longrightarrow> k < n \<Longrightarrow> \<not> f k" "\<And>k. n \<le> k \<Longrightarrow> k < j \<Longrightarrow> f k"
  shows "sort_Search f i j = n"
  using assms
proof (induction f i j rule: sort_Search.induct)
  case (1 f i j)
  show ?case
  proof (cases "i < j")
    case False
    then show ?thesis using 1 by (subst sort_Search.simps) simp
  next
    case True
    let ?h = "(i + j) div 2"
    have h: "i \<le> ?h" "?h < j" using True by auto
    show ?thesis
    proof (cases "f ?h")
      case f: True
      have "n \<le> ?h" using 1(5) [OF h(1)] f by (meson not_le_imp_less)
      then have "sort_Search f i ?h = n" using 1(2) [OF True refl] f 1(3,5,6) h by auto
      then show ?thesis using f True by (subst sort_Search.simps) (simp add: Let_def)
    next
      case f: False
      have "?h < n" using 1(6) [of ?h] h f by (meson not_le_imp_less)
      then have "sort_Search f (?h + 1) j = n" using 1(1) [OF True refl f] 1(4,5,6) h by auto
      then show ?thesis using f True by (subst sort_Search.simps) (simp add: Let_def)
    qed
  qed
qed

definition revs_sorted :: "revision list \<Rightarrow> bool" where
  "revs_sorted revs \<longleftrightarrow> sorted_wrt (\<lambda>r r'. rev_id r < rev_id r' \<and> rev_journalIndex r \<le> rev_journalIndex r') revs"

lemma find_revision:
  assumes "revs_sorted revs" "n < length revs"
  shows "sort_Search (\<lambda>i. rev_id (revs ! n) \<le> rev_id (revs ! i)) 0 (length revs) = n"
proof (rule sort_Search_spec)
  show "\<not> rev_id (revs ! n) \<le> rev_id (revs ! k)" if "k < n" for k
    using assms that by (simp add: revs_sorted_def sorted_wrt_iff_nth_less not_le)
  show "rev_id (revs ! n) \<le> rev_id (revs ! k)" if "n \<le> k" "k < length revs" for k
    using assms that by (cases "n = k") (auto simp: revs_sorted_def sorted_wrt_iff_nth_less intro: less_imp_le)
qed (use assms in simp_all)

lemma sort_Search_le: "i \<le> j \<Longrightarrow> sort_Search f i j \<le> j"
proof (induction f i j rule: sort_Search.induct)
  case (1 f i j)
  show ?case
  proof (cases "i < j")
    case True
    then have "sort_Search f ((i + j) div 2 + 1) j \<le> j" if "\<not> f ((i + j) div 2)" using 1(1) [OF True refl that] by simp
    moreover have "sort_Search f i ((i + j) div 2) \<le> (i + j) div 2" if "f ((i + j) div 2)" using 1(2) [OF True refl] that True by simp
    ultimately show ?thesis using True by (subst sort_Search.simps) (auto simp: Let_def)
  qed (use 1 in \<open>simp add: sort_Search.simps\<close>)
qed

lemma find_no_revision:
  assumes "revid \<notin> rev_id ` set (sd_validRevisions s)"
  shows "RevertToSnapshot K db revid s = None"
proof -
  define idx where "idx = sort_Search (\<lambda>i. revid \<le> rev_id (sd_validRevisions s ! i)) 0 (length (sd_validRevisions s))"
  have "idx \<le> length (sd_validRevisions s)" unfolding idx_def by (rule sort_Search_le) simp
  then have "idx = length (sd_validRevisions s) \<or> rev_id (sd_validRevisions s ! idx) \<noteq> revid"
    using assms by (metis image_eqI le_neq_implies_less nth_mem)
  then show ?thesis by (simp add: RevertToSnapshot_def Let_def idx_def [symmetric])
qed

end
