(* ===== verification/State_History.thy ===== *)
theory State_History
  imports State_Revert
begin

section \<open>Snapshots restore the state\<close>

text \<open>
  A history records, for each revision that is still valid, the view, the journal and the
  revisions at the time the snapshot was taken. Every operation keeps the history of the
  revisions it leaves valid.
\<close>

type_synonym 'tr checkpoint = "state_view \<times> 'tr journalEntry list \<times> revision list"

definition recorded ::
  "(bytes \<Rightarrow> hash) \<Rightarrow> 'tr database \<Rightarrow> address set \<Rightarrow> (nat \<Rightarrow> 'tr checkpoint) \<Rightarrow> 'tr StateDB \<Rightarrow> nat \<Rightarrow> bool" where
  "recorded K db A H s i \<longleftrightarrow>
    (let r = sd_validRevisions s ! i; n = rev_journalIndex r
     in n \<le> length (entries_of s) \<and>
        (\<exists>v. H (rev_id r) = (v, take n (entries_of s), take i (sd_validRevisions s)) \<and> al_ok (v_accessList v) \<and>
             revert_views K db (rev (drop n (entries_of s))) (view K db A s) = Some v))"

definition hist :: "(bytes \<Rightarrow> hash) \<Rightarrow> 'tr database \<Rightarrow> address set \<Rightarrow> (nat \<Rightarrow> 'tr checkpoint) \<Rightarrow> 'tr StateDB \<Rightarrow> bool" where
  "hist K db A H s \<longleftrightarrow>
    revs_sorted (sd_validRevisions s) \<and>
    (\<forall>r\<in>set (sd_validRevisions s). rev_id r < sd_nextRevisionId s) \<and>
    (\<forall>i<length (sd_validRevisions s). recorded K db A H s i)"

lemma histD:
  assumes "hist K db A H s" "i < length (sd_validRevisions s)"
  obtains v where
    "H (rev_id (sd_validRevisions s ! i)) = (v, take (rev_journalIndex (sd_validRevisions s ! i)) (entries_of s), take i (sd_validRevisions s))"
    "rev_journalIndex (sd_validRevisions s ! i) \<le> length (entries_of s)" "al_ok (v_accessList v)"
    "revert_views K db (rev (drop (rev_journalIndex (sd_validRevisions s ! i)) (entries_of s))) (view K db A s) = Some v"
proof -
  have "recorded K db A H s i" using assms by (simp add: hist_def)
  then show ?thesis using that by (auto simp: recorded_def Let_def)
qed

lemma hist_empty: "sd_validRevisions s = [] \<Longrightarrow> hist K db A H s"
  by (simp add: hist_def revs_sorted_def)

lemma hist_undoable:
  assumes h: "hist K db A H s" and u: "undoable K db A s s'"
  shows "hist K db A H s'"
proof -
  obtain es where es: "entries_of s' = entries_of s @ es" "revert_views K db (rev es) (view K db A s') = Some (view K db A s)"
    and sr: "sd_validRevisions s' = sd_validRevisions s" "sd_nextRevisionId s' = sd_nextRevisionId s"
    using u by (auto simp: undoable_def same_revs_def)
  show ?thesis
    using h unfolding hist_def sr recorded_def Let_def by (force simp: es revert_views_append)
qed

lemma hist_Snapshot:
  assumes h: "hist K db A H s" and al: "al_ok (sd_accessList s)"
  shows "hist K db A (H(sd_nextRevisionId s := (view K db A s, entries_of s, sd_validRevisions s))) (snd (Snapshot s))"
proof -
  let ?s = "snd (Snapshot s)" and ?H = "H(sd_nextRevisionId s := (view K db A s, entries_of s, sd_validRevisions s))"
  have s': "sd_validRevisions ?s = sd_validRevisions s @ [\<lparr>rev_id = sd_nextRevisionId s, rev_journalIndex = length (entries_of s)\<rparr>]"
    "sd_nextRevisionId ?s = Suc (sd_nextRevisionId s)" "entries_of ?s = entries_of s" "view K db A ?s = view K db A s"
    by (simp_all add: Snapshot_def entries_of_def)
  have lt: "\<forall>r\<in>set (sd_validRevisions s). rev_id r < sd_nextRevisionId s" using h by (simp add: hist_def)
  have le: "\<forall>r\<in>set (sd_validRevisions s). rev_journalIndex r \<le> length (entries_of s)"
    using h unfolding hist_def recorded_def Let_def by (metis in_set_conv_nth)
  have "recorded K db A ?H ?s i"
    if i: "i < length (sd_validRevisions ?s)" for i
  proof (cases "i = length (sd_validRevisions s)")
    case True
    then show ?thesis using al by (simp add: recorded_def s' nth_append)
  next
    case False
    then have i': "i < length (sd_validRevisions s)" using i s'(1) by simp
    then have "rev_id (sd_validRevisions s ! i) \<noteq> sd_nextRevisionId s" using lt nth_mem by fastforce
    then show ?thesis using i' h by (simp add: hist_def recorded_def s' nth_append Let_def)
  qed
  moreover have "revs_sorted (sd_validRevisions ?s)"
    using h lt le by (simp add: s' revs_sorted_def hist_def sorted_wrt_append)
  moreover have "\<forall>r\<in>set (sd_validRevisions ?s). rev_id r < sd_nextRevisionId ?s" using lt by (auto simp: s')
  ultimately show ?thesis unfolding hist_def by blast
qed

subsection \<open>What can be read\<close>

text \<open>
  \<open>same_reads\<close>: the two states give the same answers to every query about the accounts of a
  set, the refund counter, the logs, the preimages and the access list.
\<close>

definition same_reads :: "(bytes \<Rightarrow> hash) \<Rightarrow> 'tr database \<Rightarrow> address set \<Rightarrow> 'tr StateDB \<Rightarrow> 'tr StateDB \<Rightarrow> bool" where
  "same_reads K db A s s' \<longleftrightarrow>
    (\<forall>a\<in>A. fst (Exist K db a s') = fst (Exist K db a s) \<and> fst (Empty K db a s') = fst (Empty K db a s) \<and>
      fst (GetBalance K db a s') = fst (GetBalance K db a s) \<and> fst (GetNonce K db a s') = fst (GetNonce K db a s) \<and>
      fst (GetCode K db a s') = fst (GetCode K db a s) \<and> fst (GetCodeHash K db a s') = fst (GetCodeHash K db a s) \<and>
      fst (HasSuicided K db a s') = fst (HasSuicided K db a s) \<and>
      (\<forall>key. map_option fst (GetState K db a key s') = map_option fst (GetState K db a key s) \<and>
        map_option fst (GetCommittedState K db a key s') = map_option fst (GetCommittedState K db a key s))) \<and>
    GetRefund s' = GetRefund s \<and> (\<forall>h. GetLogs h s' = GetLogs h s) \<and> sd_logSize s' = sd_logSize s \<and>
    sd_preimages s' = sd_preimages s \<and> (\<forall>a. AddressInAccessList a s' = AddressInAccessList a s) \<and>
    (\<forall>a slot. SlotInAccessList a slot s' = SlotInAccessList a slot s)"

definition v_empty :: "(bytes \<Rightarrow> hash) \<Rightarrow> object_view \<Rightarrow> bool" where
  "v_empty K ob \<longleftrightarrow> ov_nonce ob = 0 \<and> ov_balance ob = 0 \<and> ov_codeHash ob = emptyCodeHash K"

context state_store begin

lemma reads_view:
  assumes ok: "ok s" and a: "a \<in> A"
  shows "fst (Exist K db a s) = (v_live (vw s) a \<noteq> None)"
    "fst (Empty K db a s) = (case v_live (vw s) a of None \<Rightarrow> True | Some ob \<Rightarrow> v_empty K ob)"
    "fst (GetBalance K db a s) = (case v_live (vw s) a of None \<Rightarrow> 0 | Some ob \<Rightarrow> ov_balance ob)"
    "fst (GetNonce K db a s) = (case v_live (vw s) a of None \<Rightarrow> 0 | Some ob \<Rightarrow> ov_nonce ob)"
    "fst (GetCode K db a s) = (case v_live (vw s) a of None \<Rightarrow> None | Some ob \<Rightarrow> ov_code ob)"
    "fst (GetCodeHash K db a s) = (case v_live (vw s) a of None \<Rightarrow> zero_hash | Some ob \<Rightarrow> BytesToHash (ov_codeHash ob))"
    "fst (HasSuicided K db a s) = (case v_live (vw s) a of None \<Rightarrow> False | Some ob \<Rightarrow> ov_suicided ob)"
    "map_option fst (GetState K db a key s) = (case v_live (vw s) a of None \<Rightarrow> Some zero_hash | Some ob \<Rightarrow> ov_state ob key)"
    "map_option fst (GetCommittedState K db a key s) = (case v_live (vw s) a of None \<Rightarrow> Some zero_hash | Some ob \<Rightarrow> ov_committed ob key)"
proof -
  obtain s1 where s1: "getStateObject K db a s = (live_obj K db s a, s1)" "loads K db good a s s1"
    using getStateObject_loads [OF ok] by blast
  have ctx: "sd_ctx K db s1 = sd_ctx K db s" by (rule loads_props(6) [OF ok s1(2) a])
  note simps = s1(1) v_live_view [OF a] ctx
  show "fst (Exist K db a s) = (v_live (vw s) a \<noteq> None)"
    "fst (Empty K db a s) = (case v_live (vw s) a of None \<Rightarrow> True | Some ob \<Rightarrow> v_empty K ob)"
    "fst (GetBalance K db a s) = (case v_live (vw s) a of None \<Rightarrow> 0 | Some ob \<Rightarrow> ov_balance ob)"
    "fst (GetNonce K db a s) = (case v_live (vw s) a of None \<Rightarrow> 0 | Some ob \<Rightarrow> ov_nonce ob)"
    "fst (GetCodeHash K db a s) = (case v_live (vw s) a of None \<Rightarrow> zero_hash | Some ob \<Rightarrow> BytesToHash (ov_codeHash ob))"
    "fst (HasSuicided K db a s) = (case v_live (vw s) a of None \<Rightarrow> False | Some ob \<Rightarrow> ov_suicided ob)"
    by (cases "live_obj K db s a"; simp add: simps Exist_def Empty_def GetBalance_def GetNonce_def GetCodeHash_def
        HasSuicided_def oview_def so_empty_def v_empty_def)+
  show "fst (GetCode K db a s) = (case v_live (vw s) a of None \<Rightarrow> None | Some ob \<Rightarrow> ov_code ob)"
    by (cases "live_obj K db s a") (simp_all add: simps GetCode_def split_def Let_def oview_def)
  have fc: "fst \<circ> (\<lambda>(val, obj). (val, setStateObject obj s1)) = fst" by (simp add: fun_eq_iff)
  show "map_option fst (GetState K db a key s) = (case v_live (vw s) a of None \<Rightarrow> Some zero_hash | Some ob \<Rightarrow> ov_state ob key)"
    "map_option fst (GetCommittedState K db a key s) = (case v_live (vw s) a of None \<Rightarrow> Some zero_hash | Some ob \<Rightarrow> ov_committed ob key)"
    by (cases "live_obj K db s a"; simp add: simps GetState_def GetCommittedState_def oview_def option.map_comp fc)+
qed

lemma view_same_reads:
  assumes "ok s" "ok s'" "vw s' = vw s"
  shows "same_reads K db A s s'"
proof -
  have f: "sd_refund s' = sd_refund s" "sd_logs s' = sd_logs s" "sd_logSize s' = sd_logSize s"
    "sd_preimages s' = sd_preimages s" "sd_accessList s' = sd_accessList s"
    using arg_cong [OF assms(3), of v_refund] arg_cong [OF assms(3), of v_logs] arg_cong [OF assms(3), of v_logSize]
      arg_cong [OF assms(3), of v_preimages] arg_cong [OF assms(3), of v_accessList] by simp_all
  show ?thesis
    unfolding same_reads_def GetRefund_def GetLogs_def AddressInAccessList_def SlotInAccessList_def f
    using reads_view [OF assms(1)] reads_view [OF assms(2)] assms(3) by simp
qed

lemma RevertToSnapshot_hist:
  assumes ok: "ok s" and h: "hist K db A H s" and i: "i < length (sd_validRevisions s)"
  obtains s' v where "RevertToSnapshot K db (rev_id (sd_validRevisions s ! i)) s = Some s'"
    "H (rev_id (sd_validRevisions s ! i)) = (v, entries_of s', sd_validRevisions s')" "vw s' = v" "ok s'"
    "al_ok (sd_accessList s')" "sd_nextRevisionId s' = sd_nextRevisionId s" "hist K db A H s'"
proof -
  let ?revs = "sd_validRevisions s"
  let ?n = "rev_journalIndex (?revs ! i)"
  obtain v where v: "H (rev_id (?revs ! i)) = (v, take ?n (entries_of s), take i ?revs)" "?n \<le> length (entries_of s)"
    "al_ok (v_accessList v)" "revert_views K db (rev (drop ?n (entries_of s))) (vw s) = Some v"
    by (rule histD [OF h i])
  obtain s1 where s1: "journal_revert K db ?n s = Some s1" "vw s1 = v" "ok s1" "entries_of s1 = take ?n (entries_of s)" "same_revs s s1"
    by (rule journal_revert_view [OF ok v(4)])
  define s' where "s' = s1\<lparr>sd_validRevisions := take i ?revs\<rparr>"
  have srt: "revs_sorted ?revs" using h by (simp add: hist_def)
  have "RevertToSnapshot K db (rev_id (?revs ! i)) s = Some s'"
    using s1(1) i by (simp add: RevertToSnapshot_def find_revision [OF srt i] Let_def s'_def)
  moreover have s': "vw s' = v" "ok s'" "entries_of s' = take ?n (entries_of s)" "sd_nextRevisionId s' = sd_nextRevisionId s"
    "sd_validRevisions s' = take i ?revs"
    using s1 by (simp_all add: s'_def entries_of_def same_revs_def)
  moreover have "al_ok (sd_accessList s')" using v(3) s'(1) by auto
  moreover have "hist K db A H s'"
  proof -
    have "recorded K db A H s' j"
      if j: "j < length (sd_validRevisions s')" for j
    proof -
      have ji: "j < i" "j < length ?revs" using j s'(5) i by auto
      let ?m = "rev_journalIndex (?revs ! j)"
      have mn: "?m \<le> ?n" using srt ji i by (simp add: revs_sorted_def sorted_wrt_iff_nth_less)
      obtain w where w: "H (rev_id (?revs ! j)) = (w, take ?m (entries_of s), take j ?revs)" "?m \<le> length (entries_of s)"
        "al_ok (v_accessList w)" "revert_views K db (rev (drop ?m (entries_of s))) (vw s) = Some w"
        by (rule histD [OF h ji(2)])
      have "drop ?m (entries_of s) = drop ?m (take ?n (entries_of s)) @ drop ?n (entries_of s)"
        using mn by (metis append_take_drop_id drop_append drop_take le_add_diff_inverse2 length_take min.absorb2 v(2) diff_is_0_eq drop0)
      then have "revert_views K db (rev (drop ?m (take ?n (entries_of s)))) v = Some w"
        using w(4) v(4) by (simp add: revert_views_append)
      then show ?thesis using w ji mn v(2) by (simp add: recorded_def s' min_def)
    qed
    moreover have "revs_sorted (sd_validRevisions s')" using srt by (simp add: s' revs_sorted_def sorted_wrt_take)
    moreover have "\<forall>r\<in>set (sd_validRevisions s'). rev_id r < sd_nextRevisionId s'"
      using h by (auto simp: s' hist_def dest: in_set_takeD)
    ultimately show ?thesis unfolding hist_def by blast
  qed
  ultimately show ?thesis using that v(1) by metis
qed

lemma exec_hist:
  assumes ok: "ok s" and al: "al_ok (sd_accessList s)" and h: "hist K db A H s"
    and a: "pred_option (\<lambda>a. a \<in> A) (op_addr x)" and e: "exec K db x s = Some s'"
  shows "\<exists>H'. ok s' \<and> al_ok (sd_accessList s') \<and> hist K db A H' s' \<and> sd_nextRevisionId s \<le> sd_nextRevisionId s' \<and>
    (\<forall>i < sd_nextRevisionId s. H' i = H i)"
proof -
  consider (snap) "x = OpSnapshot" | (rev) i where "x = OpRevert i" | (other) "x \<noteq> OpSnapshot" "\<And>i. x \<noteq> OpRevert i" by blast
  then show ?thesis
  proof cases
    case snap
    then have s': "s' = snd (Snapshot s)" using e by simp
    then have "ok s'" "al_ok (sd_accessList s')" "sd_nextRevisionId s \<le> sd_nextRevisionId s'"
      using ok al by (simp_all add: Snapshot_def)
    then show ?thesis using hist_Snapshot [OF h al] unfolding s' by (intro exI) auto
  next
    case rev
    then have r: "RevertToSnapshot K db i s = Some s'" using e by simp
    then have "i \<in> rev_id ` set (sd_validRevisions s)" using find_no_revision [of i s K db] by force
    then obtain n where n: "n < length (sd_validRevisions s)" "i = rev_id (sd_validRevisions s ! n)" by (auto simp: in_set_conv_nth)
    obtain s1 where "RevertToSnapshot K db i s = Some s1" "ok s1" "al_ok (sd_accessList s1)"
      "sd_nextRevisionId s1 = sd_nextRevisionId s" "hist K db A H s1"
      using RevertToSnapshot_hist [OF ok h n(1)] n(2) by metis
    then show ?thesis using r by auto
  next
    case other
    note u = exec_undo [OF ok al other a e]
    then have "sd_nextRevisionId s' = sd_nextRevisionId s" by (simp add: undoable_def same_revs_def)
    then show ?thesis using u hist_undoable [OF h, of s'] by auto
  qed
qed

lemma exec_all_hist:
  assumes "ok s" "al_ok (sd_accessList s)" "hist K db A H s"
    "\<forall>x\<in>set xs. pred_option (\<lambda>a. a \<in> A) (op_addr x)" "exec_all K db xs s = Some s'"
  shows "\<exists>H'. ok s' \<and> al_ok (sd_accessList s') \<and> hist K db A H' s' \<and> (\<forall>i < sd_nextRevisionId s. H' i = H i)"
  using assms
proof (induction xs arbitrary: s H)
  case Nil
  then show ?case by auto
next
  case (Cons x xs)
  obtain s1 where s1: "exec K db x s = Some s1" "exec_all K db xs s1 = Some s'"
    using Cons.prems(5) by (auto split: option.splits)
  obtain H1 where H1: "ok s1" "al_ok (sd_accessList s1)" "hist K db A H1 s1" "sd_nextRevisionId s \<le> sd_nextRevisionId s1"
    "\<forall>i < sd_nextRevisionId s. H1 i = H i"
    using exec_hist [OF Cons.prems(1-3) _ s1(1)] Cons.prems(4) by auto
  obtain H' where "ok s'" "al_ok (sd_accessList s')" "hist K db A H' s'" "\<forall>i < sd_nextRevisionId s1. H' i = H1 i"
    using Cons.IH [OF H1(1-3) _ s1(2)] Cons.prems(4) by auto
  then show ?case using H1(4,5) by (metis order_less_le_trans)
qed

text \<open>Going back to a snapshot that was taken in any state of a transaction.\<close>

lemma revert_from:
  assumes H: "ok s" "al_ok (sd_accessList s)" "hist K db A H s"
    and addrs: "\<forall>x\<in>set ys. pred_option (\<lambda>a. a \<in> A) (op_addr x)"
    and s: "Snapshot s = (revid, s1)" "exec_all K db ys s1 = Some s2"
    and valid: "revid \<in> rev_id ` set (sd_validRevisions s2)"
  obtains s3 where "RevertToSnapshot K db revid s2 = Some s3" "ok s3" "vw s3 = vw s"
    "entries_of s3 = entries_of s" "sd_validRevisions s3 = sd_validRevisions s"
proof -
  define H1 where "H1 = H(sd_nextRevisionId s := (vw s, entries_of s, sd_validRevisions s))"
  have s1: "s1 = snd (Snapshot s)" "revid = sd_nextRevisionId s"
    using s(1) by (simp, simp add: Snapshot_def)
  have "ok s1" "al_ok (sd_accessList s1)" "sd_nextRevisionId s1 = Suc (sd_nextRevisionId s)"
    using H by (simp_all add: s1 Snapshot_def)
  moreover have "hist K db A H1 s1" unfolding H1_def s1 by (rule hist_Snapshot [OF H(3,2)])
  ultimately obtain H2 where H2: "ok s2" "hist K db A H2 s2" "H2 revid = H1 revid"
    using exec_all_hist [OF _ _ _ addrs s(2)] s1(2) by (metis lessI)
  obtain n where n: "n < length (sd_validRevisions s2)" "revid = rev_id (sd_validRevisions s2 ! n)"
    using valid by (auto simp: in_set_conv_nth)
  obtain s3 v where s3: "RevertToSnapshot K db revid s2 = Some s3" "H2 revid = (v, entries_of s3, sd_validRevisions s3)"
    "vw s3 = v" "ok s3"
    using RevertToSnapshot_hist [OF H2(1,2) n(1)] n(2) by metis
  then have "vw s3 = vw s" "entries_of s3 = entries_of s" "sd_validRevisions s3 = sd_validRevisions s"
    using H2(3) s1(2) by (simp_all add: H1_def)
  then show ?thesis using that s3 by blast
qed

lemma revert_restores:
  assumes ok: "ok s0" and al: "al_ok (sd_accessList s0)" and revs: "sd_validRevisions s0 = []"
    and addrs: "\<forall>x\<in>set (xs @ ys). pred_option (\<lambda>a. a \<in> A) (op_addr x)"
    and s: "exec_all K db xs s0 = Some s" "Snapshot s = (revid, s1)" "exec_all K db ys s1 = Some s2"
    and valid: "revid \<in> rev_id ` set (sd_validRevisions s2)"
  obtains s3 where "RevertToSnapshot K db revid s2 = Some s3" "same_reads K db A s s3"
    "entries_of s3 = entries_of s" "sd_validRevisions s3 = sd_validRevisions s"
proof -
  obtain H where H: "ok s" "al_ok (sd_accessList s)" "hist K db A H s"
    using exec_all_hist [OF ok al hist_empty [OF revs] _ s(1)] addrs by (metis UnCI set_append)
  have "\<forall>x\<in>set ys. pred_option (\<lambda>a. a \<in> A) (op_addr x)" using addrs by simp
  from revert_from [OF H this s(2,3) valid] show ?thesis using that view_same_reads [OF H(1)] by metis
qed

lemma exec_panics:
  assumes ok: "ok s" and al: "al_ok (sd_accessList s)" and h: "hist K db A H s" and a: "pred_option (\<lambda>a. a \<in> A) (op_addr x)"
  shows "exec K db x s = None \<longleftrightarrow>
    (\<exists>n. x = OpSubRefund n \<and> sd_refund s < n) \<or> (\<exists>i. x = OpRevert i \<and> i \<notin> rev_id ` set (sd_validRevisions s))"
proof (cases x)
  case (OpSetState b k v)
  then show ?thesis using SetState_undo [OF ok, of b k v] a by auto
next
  case (OpSubRefund n)
  then show ?thesis by (simp add: SubRefund_def Let_def journal_append_def)
next
  case (OpAddSlot b k)
  then show ?thesis using access_undo(2) [OF ok al, of b k] by auto
next
  case (OpGetState b k)
  then show ?thesis using reads_undo(2) [OF ok, of b k] a by auto
next
  case (OpGetCommittedState b k)
  then show ?thesis using reads_undo(3) [OF ok, of b k] a by auto
next
  case (OpRevert i)
  show ?thesis
  proof (cases "i \<in> rev_id ` set (sd_validRevisions s)")
    case True
    then obtain n where n: "n < length (sd_validRevisions s)" "i = rev_id (sd_validRevisions s ! n)" by (auto simp: in_set_conv_nth)
    obtain s' where "RevertToSnapshot K db i s = Some s'" using RevertToSnapshot_hist [OF ok h n(1)] n(2) by metis
    then show ?thesis using OpRevert True by simp
  qed (use OpRevert find_no_revision [of i s K db] in auto)
qed simp_all

subsection \<open>Writes and reads\<close>

lemma v_live_other: "v_objects v' b = v_objects v b \<Longrightarrow> v_live v' b = v_live v b"
  by (simp add: v_live_def)

text \<open>The effect of a write through the object of an account.\<close>

lemma put_live:
  assumes ok: "ok s" and a: "a \<in> A" and obj: "obj_ok K good a obj" "\<not> so_deleted obj"
  shows "v_live (vw (setStateObject obj s)) b = (if b = a then Some (oview (sd_ctx K db s) obj) else v_live (vw s) b)"
  unfolding put_props(2) [OF ok obj(1) a] using obj(2) by (auto simp: v_live_def v_put_def oview_def split: option.splits)

lemma GetOrNew_live:
  assumes ok: "ok s" and a: "a \<in> A"
  obtains obj s1 where "GetOrNewStateObject K db a s = (obj, s1)" "ok s1" "obj_ok K good a obj" "\<not> so_deleted obj" "so_address obj = a"
    "v_live (vw s1) a = Some (oview (sd_ctx K db s1) obj)" "\<And>b. b \<noteq> a \<Longrightarrow> v_live (vw s1) b = v_live (vw s) b"
    "so_Balance obj = (case v_live (vw s) a of None \<Rightarrow> 0 | Some ob \<Rightarrow> ov_balance ob)"
    "v_live (vw s) a \<noteq> None \<Longrightarrow> v_live (vw s1) a = v_live (vw s) a" "sd_stateObjects s1 a = Some obj"
proof -
  obtain obj s1 where g: "GetOrNewStateObject K db a s = (obj, s1)" "ok s1" and "undo s s1"
    and g': "sd_stateObjects s1 a = Some obj" "\<not> so_deleted obj"
    "\<And>b. b \<noteq> a \<Longrightarrow> v_objects (vw s1) b = v_objects (vw s) b" "\<And>ob. v_live (vw s) a = Some ob \<Longrightarrow> vw s1 = vw s"
    "v_live (vw s) a = None \<Longrightarrow> obj = so_setNonce 0 (newObject K a Account_zero)"
    by (rule GetOrNewStateObject_undo [OF ok a]) (rule that)
  note g = g g'
  have oo: "obj_ok K good a obj" using sd_okD(2) [OF g(2,3)] by simp
  have l: "v_live (vw s1) a = Some (oview (sd_ctx K db s1) obj)"
    unfolding v_live_view [OF a] using g(3,4) by (simp add: live_obj_def lookup_obj_def)
  have b: "so_Balance obj = (case v_live (vw s) a of None \<Rightarrow> 0 | Some ob \<Rightarrow> ov_balance ob)"
  proof (cases "v_live (vw s) a")
    case None
    then show ?thesis using g(7) by (simp add: so_setNonce_def newObject_def Account_zero_def)
  next
    case (Some ob)
    then show ?thesis using g(6) l by (simp add: oview_def)
  qed
  show ?thesis
  proof (rule that [OF g(1,2) oo g(4) _ l _ b _ g(3)])
    show "so_address obj = a" using oo by (simp add: obj_ok_def)
    show "v_live (vw s1) c = v_live (vw s) c" if "c \<noteq> a" for c by (rule v_live_other) (rule g(5) [OF that])
    show "v_live (vw s1) a = v_live (vw s) a" if "v_live (vw s) a \<noteq> None" using that g(6) by auto
  qed
qed

lemma writes_reads:
  assumes ok: "ok s" and a: "a \<in> A" and b: "b \<in> A"
  shows "fst (GetBalance K db b (SetBalance K db a n s)) = (if b = a then n else fst (GetBalance K db b s))"
    "fst (GetBalance K db b (AddBalance K db a n s)) = fst (GetBalance K db b s) + (if b = a then n else 0)"
    "fst (GetBalance K db b (SubBalance K db a n s)) = fst (GetBalance K db b s) - (if b = a then n else 0)"
    "fst (GetNonce K db b (SetNonce K db a m s)) = (if b = a then m else fst (GetNonce K db b s))"
    "fst (GetCode K db b (SetCode K db a c s)) = (if b = a then c else fst (GetCode K db b s))"
    "fst (GetCodeHash K db b (SetCode K db a c s)) = (if b = a then K (case c of None \<Rightarrow> [] | Some c \<Rightarrow> c) else fst (GetCodeHash K db b s))"
proof -
  obtain obj s1 where g: "GetOrNewStateObject K db a s = (obj, s1)" "ok s1" "obj_ok K good a obj" "\<not> so_deleted obj" "so_address obj = a"
    "v_live (vw s1) a = Some (oview (sd_ctx K db s1) obj)" "\<And>b. b \<noteq> a \<Longrightarrow> v_live (vw s1) b = v_live (vw s) b"
    "so_Balance obj = (case v_live (vw s) a of None \<Rightarrow> 0 | Some ob \<Rightarrow> ov_balance ob)"
    "v_live (vw s) a \<noteq> None \<Longrightarrow> v_live (vw s1) a = v_live (vw s) a" "sd_stateObjects s1 a = Some obj"
    by (rule GetOrNew_live [OF ok a]) (rule that)
  let ?ctx = "sd_ctx K db s1"
  note u = obj_updates [OF g(3), of ?ctx, simplified]
  note st = setters_undo [OF ok a]
  have put: "v_live (vw (setStateObject obj' (journal_append e s1))) b = (if b = a then Some (oview ?ctx obj') else v_live (vw s) b)"
    if "obj_ok K good a obj'" "\<not> so_deleted obj'" "entry_ok K good A e" for obj' e
  proof -
    have "ok (journal_append e s1)" using g(2) that(3) by simp
    from put_live [OF this a that(1,2), of b] g(7) [of b] show ?thesis by simp
  qed
  have sb: "v_live (vw (so_SetBalance n' obj s1)) b = (if b = a then Some ((oview ?ctx obj)\<lparr>ov_balance := n'\<rparr>) else v_live (vw s) b)" for n'
    unfolding so_SetBalance_def u(6) [symmetric] using a g(4,5) by (intro put u(1)) (simp_all add: so_setBalance_def)
  have t: "v_live (vw s1) b = v_live (vw s) b \<or> b = a \<and> v_live (vw s) b = None \<and> v_live (vw s1) b = Some (oview ?ctx obj)"
    using g(6,7,9) by (cases "b = a"; cases "v_live (vw s) a = None") auto
  have touch: "v_live (vw (so_touch obj s1)) b = v_live (vw s1) b" by (simp add: so_touch_def journal_dirty_def Let_def)
  have ob: "ov_balance (oview ?ctx obj) = so_Balance obj" by (simp add: oview_def)
  note rb = reads_view(3) [OF _ b]
  show "fst (GetBalance K db b (SetBalance K db a n s)) = (if b = a then n else fst (GetBalance K db b s))"
    using rb [OF conjunct1 [OF st(3)]] rb [OF ok] sb g(1) by (simp add: SetBalance_def)
  show "fst (GetBalance K db b (AddBalance K db a n s)) = fst (GetBalance K db b s) + (if b = a then n else 0)"
    using rb [OF conjunct1 [OF st(1)], of n] rb [OF ok] sb [of "so_Balance obj + n"] g(1,8) t touch ob
    by (auto simp: AddBalance_def so_AddBalance_def)
  show "fst (GetBalance K db b (SubBalance K db a n s)) = fst (GetBalance K db b s) - (if b = a then n else 0)"
    using rb [OF conjunct1 [OF st(2)], of n] rb [OF ok] sb [of "so_Balance obj - n"] g(1,8) t ob
    by (auto simp: SubBalance_def so_SubBalance_def)
  have "v_live (vw (so_SetNonce m obj s1)) b = (if b = a then Some ((oview ?ctx obj)\<lparr>ov_nonce := m\<rparr>) else v_live (vw s) b)"
    unfolding so_SetNonce_def u(7) [symmetric] using a g(4,5) by (intro put u(2)) (simp_all add: so_setNonce_def)
  then show "fst (GetNonce K db b (SetNonce K db a m s)) = (if b = a then m else fst (GetNonce K db b s))"
    using reads_view(4) [OF conjunct1 [OF st(4)] b] reads_view(4) [OF ok b] g(1) by (simp add: SetNonce_def)
  let ?h = "K (case c of None \<Rightarrow> [] | Some c \<Rightarrow> c)"
  have "\<exists>ob. v_live (vw (so_SetCode K db ?h c obj s1)) b = (if b = a then Some ob else v_live (vw s) b) \<and> ov_code ob = c \<and> ov_codeHash ob = ?h"
  proof -
    obtain c1 err where so: "so_Code ?ctx obj = (code_value K db a (so_code obj) (so_CodeHash obj), obj\<lparr>so_code := c1, so_dbErr := err\<rparr>)"
      using so_Code_recached [OF g(3), of ?ctx] by auto
    define obj1 where "obj1 = obj\<lparr>so_code := c1, so_dbErr := err\<rparr>"
    have o1: "obj_ok K good a obj1" "so_address obj1 = a" using g(3,5) by (simp_all add: obj1_def obj_ok_def)
    note u1 = obj_updates(5,10) [OF o1(1), of ?ctx ?h, simplified, OF K_len]
    have "v_live (vw (setStateObject (so_setCode ?h c obj1) (journal_append (codeChange a x y) s1))) b =
        (if b = a then Some (oview ?ctx (so_setCode ?h c obj1)) else v_live (vw s) b)" for x y
      using a g(4) by (intro put u1(1)) (simp_all add: so_setCode_def obj1_def)
    moreover have "code_value K db a c ?h = c" by (auto simp: code_value_def emptyCodeHash_def split: option.splits)
    ultimately show ?thesis using u1(2) [of c] so o1(2)
      by (intro exI [where x = "oview ?ctx (so_setCode ?h c obj1)"]) (simp add: so_SetCode_def obj1_def [symmetric])
  qed
  then obtain ob where "v_live (vw (so_SetCode K db ?h c obj s1)) b = (if b = a then Some ob else v_live (vw s) b)" "ov_code ob = c" "ov_codeHash ob = ?h"
    by blast
  then show "fst (GetCode K db b (SetCode K db a c s)) = (if b = a then c else fst (GetCode K db b s))"
    "fst (GetCodeHash K db b (SetCode K db a c s)) = (if b = a then ?h else fst (GetCodeHash K db b s))"
    using reads_view(5,6) [OF conjunct1 [OF st(5), of c] b] reads_view(5,6) [OF ok b] g(1) K_len by (simp_all add: SetCode_def)
qed

lemma SetState_reads:
  assumes ok: "ok s" and a: "a \<in> A" and b: "b \<in> A" and live: "v_live (vw s) a \<noteq> None"
  shows "\<exists>s'. SetState K db a key val s = Some s' \<and>
    map_option fst (GetState K db b key' s') = (if b = a \<and> key' = key then Some val else map_option fst (GetState K db b key' s)) \<and>
    map_option fst (GetCommittedState K db b key' s') = map_option fst (GetCommittedState K db b key' s)"
proof -
  obtain obj s1 where g: "GetOrNewStateObject K db a s = (obj, s1)" "ok s1" "obj_ok K good a obj" "\<not> so_deleted obj" "so_address obj = a"
    "v_live (vw s1) a = Some (oview (sd_ctx K db s1) obj)" "\<And>b. b \<noteq> a \<Longrightarrow> v_live (vw s1) b = v_live (vw s) b"
    "so_Balance obj = (case v_live (vw s) a of None \<Rightarrow> 0 | Some ob \<Rightarrow> ov_balance ob)"
    "v_live (vw s) a \<noteq> None \<Longrightarrow> v_live (vw s1) a = v_live (vw s) a" "sd_stateObjects s1 a = Some obj"
    by (rule GetOrNew_live [OF ok a]) (rule that)
  let ?ctx = "sd_ctx K db s1"
  have va: "v_live (vw s) a = Some (oview ?ctx obj)" using g(6,9) live by simp
  have gd: "pred_option good (so_trie obj)" "so_fakeStorage obj = None" using g(3) by (simp_all add: obj_ok_def)
  obtain prev obj1 where gs: "so_GetState ?ctx obj key = Some (prev, obj1)" and rc: "recached ?ctx good obj obj1"
    using so_GetState_value [OF gd, of ?ctx key] by auto
  note r1 = recached_oview [OF g(3) _ _ rc, simplified]
  have d1: "\<not> so_deleted obj1" using rc g(4) by (auto simp: recached_def)
  have a1: "so_address obj1 = a" using r1(1) by (simp add: obj_ok_def)
  obtain s' where s': "SetState K db a key val s = Some s'" "ok s'" using SetState_undo [OF ok a, of key val] by blast
  have v: "v_live (vw s') c = (if c = a then Some ((oview ?ctx obj)\<lparr>ov_state := (ov_state (oview ?ctx obj))(key \<mapsto> val)\<rparr>) else v_live (vw s) c)" for c
  proof (cases "prev = val")
    case True
    then have "s' = setStateObject obj1 s1" using s'(1) g(1) gd(2) gs by (simp add: SetState_def so_SetState_def)
    then have 1: "v_live (vw s') c = (if c = a then Some (oview ?ctx obj) else v_live (vw s) c)"
      using put_live [OF g(2) a r1(1) d1] r1(2) g(7) [of c] by simp
    have "ov_state (oview ?ctx obj) key = Some val" using gs True by (simp add: oview_def)
    then have "(oview ?ctx obj)\<lparr>ov_state := (ov_state (oview ?ctx obj))(key \<mapsto> val)\<rparr> = oview ?ctx obj" by (simp add: fun_upd_idem)
    then show ?thesis using 1 by simp
  next
    case False
    then have s2: "s' = setStateObject (so_setState key val obj1) (journal_append (storageChange a key prev) s1)"
      using s'(1) g(1) gd(2) gs a1 by (simp add: SetState_def so_SetState_def)
    have okj: "ok (journal_append (storageChange a key prev) s1)" using g(2) a by simp
    note u = obj_updates(3,8) [OF r1(1), of ?ctx key val, simplified]
    have d: "\<not> so_deleted (so_setState key val obj1)" using d1 by (simp add: so_setState_def)
    show ?thesis unfolding s2 using put_live [OF okj a u(1) d, of c] u(2) r1(2) g(7) [of c] by simp
  qed
  show ?thesis
    using s'(1) v [of b] va reads_view(8,9) [OF s'(2) b, of key'] reads_view(8,9) [OF ok b, of key']
    by auto
qed

end

end
