(* ===== verification/State_Database.thy ===== *)
theory State_Database
  imports Trie_Secure State_History
begin

section \<open>The caching database\<close>

text \<open>
  \<open>cachingDB\<close> of \<open>src/core/state/database.go\<close>: the implementation of the interface \<open>Database\<close>
  with secure tries. The node database and the lookup of contract code on disk are arguments;
  the caches for code in front of the disk hold what was read from it, and are left out. A
  lookup takes at most two steps for each nibble of a hashed key, so \<open>trie_fuel\<close> is enough for
  it on well-formed nodes, and running out of it is reported as an error.
\<close>

definition trie_fuel :: nat where
  "trie_fuel = 200"

definition cachingDB ::
  "(bytes \<Rightarrow> hash) \<Rightarrow> node_db \<Rightarrow> (hash \<Rightarrow> bytes) \<Rightarrow> secure_trie database" where
  "cachingDB K ndb readCode =
    (let code = (\<lambda>codeHash. let c = readCode codeHash in if 0 < length c then Inr c else Inl DBNotFound);
         op = (\<lambda>t r. case r of None \<Rightarrow> (Some (DBMissing TriePanic), t) | Some (e, t) \<Rightarrow> (map_option DBMissing e, t))
     in \<lparr>db_OpenTrie = (\<lambda>root. map_sum DBMissing id (NewSecure root ndb)),
         db_OpenStorageTrie = (\<lambda>addrHash root. map_sum DBMissing id (NewSecure root ndb)),
         db_CopyTrie = secure_Copy,
         db_ContractCode = (\<lambda>addrHash. code),
         db_ContractCodeSize = (\<lambda>addrHash codeHash. map_sum id length (code codeHash)),
         tr_TryGet = (\<lambda>t key. case secure_TryGet trie_fuel K ndb t key of
                        None \<Rightarrow> (Inl (DBMissing TriePanic), t)
                      | Some (r, t) \<Rightarrow> (map_sum DBMissing (case_option [] id) r, t)),
         tr_TryUpdate = (\<lambda>t key value. op t (secure_TryUpdate trie_fuel K ndb t key value)),
         tr_TryDelete = (\<lambda>t key. op t (secure_TryDelete trie_fuel K ndb t key)),
         tr_Hash = (\<lambda>t. case trie_Hash K (st_trie t) of
                      None \<Rightarrow> ([], t) | Some (h, tr) \<Rightarrow> (h, t\<lparr>st_trie := tr\<rparr>))\<rparr>)"

definition trie_good :: "secure_trie \<Rightarrow> bool" where
  "trie_good t \<longleftrightarrow> wf_node (t_root (st_trie t))"

text \<open>The secure trie keeps the contract that the state relies on.\<close>

locale secure_db =
  fixes K :: "bytes \<Rightarrow> hash" and ndb :: node_db and readCode :: "hash \<Rightarrow> bytes"
  assumes K_len: "length (K b) = 32"
    and ndb_wf: "wf_node_db ndb"
begin

lemma open_wf: "NewSecure root ndb = Inr t \<Longrightarrow> trie_good t"
  using wf_resolve [OF ndb_wf] by (auto simp: NewSecure_def New_def trie_good_def split: sum.splits if_splits)

lemma get_total:
  assumes "trie_good t"
  obtains r where "tryGet trie_fuel ndb (t_root (st_trie t)) (keybytesToHex (K key)) 0 = Some r"
proof -
  have "2 * (length (keybytesToHex (K key)) - 0) + (if is_HashNode (t_root (st_trie t)) then 2 else 1) \<le> trie_fuel"
    by (simp add: length_keybytesToHex K_len trie_fuel_def)
  from tryGet_total [OF ndb_wf assms [unfolded trie_good_def] this] show ?thesis using that by blast
qed

lemma TryGet_value:
  assumes "trie_good t"
  shows "trie_good (snd (tr_TryGet (cachingDB K ndb readCode) t key))"
    "map_option (map_sum DBMissing (case_option [] id)) (get_value (tryGet trie_fuel ndb (t_root (st_trie t)) (keybytesToHex (K key)) 0)) =
      Some (fst (tr_TryGet (cachingDB K ndb readCode) t key))"
    "get_value (tryGet g ndb (t_root (st_trie t)) k pos) = Some x \<Longrightarrow>
      get_value (tryGet g ndb (t_root (st_trie (snd (tr_TryGet (cachingDB K ndb readCode) t key)))) k pos) = Some x"
proof -
  obtain r where r: "tryGet trie_fuel ndb (t_root (st_trie t)) (keybytesToHex (K key)) 0 = Some r"
    by (rule get_total [OF assms])
  have st: "wf_node n' \<and> (\<forall>g key' pos' x. get_value (tryGet g ndb (t_root (st_trie t)) key' pos') = Some x \<longrightarrow> get_value (tryGet g ndb n' key' pos') = Some x)"
    if "r = Inr (v, n', d)" for v n' d
    using tryGet_stable [OF ndb_wf assms [unfolded trie_good_def] r [unfolded that]] by blast
  show "trie_good (snd (tr_TryGet (cachingDB K ndb readCode) t key))"
    using assms st r by (cases r) (auto simp: cachingDB_def secure_TryGet_def TryGet_def trie_good_def Let_def)
  show "map_option (map_sum DBMissing (case_option [] id)) (get_value (tryGet trie_fuel ndb (t_root (st_trie t)) (keybytesToHex (K key)) 0)) =
      Some (fst (tr_TryGet (cachingDB K ndb readCode) t key))"
    using r by (cases r) (auto simp: cachingDB_def secure_TryGet_def TryGet_def Let_def)
  show "get_value (tryGet g ndb (t_root (st_trie (snd (tr_TryGet (cachingDB K ndb readCode) t key)))) k pos) = Some x"
    if "get_value (tryGet g ndb (t_root (st_trie t)) k pos) = Some x"
    using st r that by (cases r) (auto simp: cachingDB_def secure_TryGet_def TryGet_def Let_def)
qed

end

sublocale secure_db \<subseteq> trie_reads "cachingDB K ndb readCode" trie_good
proof
  fix h r tr
  assume "db_OpenStorageTrie (cachingDB K ndb readCode) h r = Inr tr"
  then show "trie_good tr" using open_wf [of r] by (cases "NewSecure r ndb") (auto simp: cachingDB_def Let_def)
next
  fix h
  show "\<exists>tr. db_OpenStorageTrie (cachingDB K ndb readCode) h zero_hash = Inr tr"
    by (simp add: cachingDB_def Let_def NewSecure_def New_def zero_hash_def)
next
  fix tr k
  assume "trie_good tr"
  then show "trie_good (snd (tr_TryGet (cachingDB K ndb readCode) tr k))" by (rule TryGet_value)
next
  fix tr k k'
  assume g: "trie_good tr"
  obtain x where x: "get_value (tryGet trie_fuel ndb (t_root (st_trie tr)) (keybytesToHex (K k')) 0) = Some x"
    using TryGet_value(2) [OF g, of k'] by fastforce
  from TryGet_value(3) [OF g x, of k] TryGet_value(2) [OF g, of k'] TryGet_value(2) [OF TryGet_value(1) [OF g, of k], of k'] x
  show "fst (tr_TryGet (cachingDB K ndb readCode) (snd (tr_TryGet (cachingDB K ndb readCode) tr k)) k') =
    fst (tr_TryGet (cachingDB K ndb readCode) tr k')" by simp
qed

context secure_db begin

lemma axioms_reads: "trie_reads (cachingDB K ndb readCode) trie_good"
  by (rule trie_reads_axioms)

end

end
