(* ===== verification/State_Invariants.thy ===== *)
theory State_Invariants
  imports State_Revert
begin

section \<open>Invariants of reachable states\<close>

text \<open>
  The steps of a block: operations, debugging storage, and the transaction boundaries
  \<open>Prepare\<close>, \<open>Finalise\<close> and \<open>IntermediateRoot\<close>. In every state they reach, the dirty
  counters of the journal are the numbers of its entries, and the sets of pending and dirty
  addresses name live objects, so that no loop over them meets a nil object.
\<close>

subsection \<open>Reachable states\<close>

inductive block_step :: "(bytes \<Rightarrow> hash) \<Rightarrow> 'tr database \<Rightarrow> 'tr StateDB \<Rightarrow> 'tr StateDB \<Rightarrow> bool" for K db where
  operation: "exec K db x s = Some s' \<Longrightarrow> block_step K db s s'"
| storage: "block_step K db s (SetStorage K db a st s)"
| prepare: "block_step K db s (Prepare thash bhash ti s)"
| finalise: "set order = dom (j_dirties (sd_journal s)) \<Longrightarrow> block_step K db s (Finalise K del order s)"
| root: "set order = dom (j_dirties (sd_journal s)) \<Longrightarrow>
    IntermediateRoot K db del order pendings slots s = Some (h, s') \<Longrightarrow> block_step K db s s'"

inductive reachable :: "(bytes \<Rightarrow> hash) \<Rightarrow> 'tr database \<Rightarrow> (hash \<Rightarrow> snapshot option) option \<Rightarrow> 'tr StateDB \<Rightarrow> bool"
  for K db snaps where
  initial: "state_New db snaps root = Inr s \<Longrightarrow> reachable K db snaps s"
| more: "reachable K db snaps s \<Longrightarrow> block_step K db s s' \<Longrightarrow> reachable K db snaps s'"

subsection \<open>The invariants\<close>

definition dirty_count :: "'tr journalEntry list \<Rightarrow> address \<Rightarrow> nat" where
  "dirty_count es a = length (filter (\<lambda>e. dirtied e = Some a) es)"

definition counter :: "nat \<Rightarrow> int option" where
  "counter n = (if n = 0 then None else Some (int n))"

text \<open>Touching \<open>ripemd\<close> counts twice; \<open>x\<close> is the number of its extra marks.\<close>

definition dirties_ok :: "'tr journal \<Rightarrow> bool" where
  "dirties_ok j \<longleftrightarrow> (\<exists>x. \<forall>a. j_dirties j a = counter (dirty_count (j_entries j) a + (if a = ripemd then x else 0)))"

lemma dirties_okD: "dirties_ok j \<Longrightarrow> a \<noteq> ripemd \<Longrightarrow> j_dirties j a = counter (dirty_count (j_entries j) a)"
  by (auto simp: dirties_ok_def)

definition objects_ok :: "'tr StateDB \<Rightarrow> bool" where
  "objects_ok s \<longleftrightarrow>
    sd_stateObjectsPending s \<subseteq> dom (sd_stateObjects s) \<and> sd_stateObjectsDirty s \<subseteq> dom (sd_stateObjects s) \<and>
    (\<forall>a. createObjectChange a \<in> set (j_entries (sd_journal s)) \<longrightarrow> a \<notin> sd_stateObjectsPending s)"

lemma dirty_count_simps [simp]: "dirty_count [] a = 0"
  "dirty_count (e # es) a = (if dirtied e = Some a then 1 else 0) + dirty_count es a"
  "dirty_count (es @ es') a = dirty_count es a + dirty_count es' a"
  "dirty_count (rev es) a = dirty_count es a"
  by (simp_all add: dirty_count_def rev_filter [symmetric])

lemma counter_inc: "d a = counter n \<Longrightarrow> dirties_inc a d a = counter (Suc n)"
  by (simp add: dirties_inc_def counter_def)

lemma counter_dec: "d a = counter (n + 1) \<Longrightarrow> dirties_dec a d a = counter n"
  by (simp add: dirties_dec_def counter_def Let_def)

lemma dirties_other: "b \<noteq> a \<Longrightarrow> dirties_inc a d b = d b" "b \<noteq> a \<Longrightarrow> dirties_dec a d b = d b"
  by (simp_all add: dirties_inc_def dirties_dec_def Let_def)

lemma dirties_ok_append:
  assumes "dirties_ok (sd_journal s)"
  shows "dirties_ok (sd_journal (journal_append e s))"
proof -
  obtain x where x: "\<And>a. j_dirties (sd_journal s) a = counter (dirty_count (j_entries (sd_journal s)) a + (if a = ripemd then x else 0))"
    using assms by (auto simp: dirties_ok_def)
  have "j_dirties (sd_journal (journal_append e s)) a =
    counter (dirty_count (j_entries (sd_journal (journal_append e s))) a + (if a = ripemd then x else 0))" for a
    using counter_inc [of "j_dirties (sd_journal s)" a, OF x [of a]] x [of a] by (cases "dirtied e"; cases "dirtied e = Some a") (auto simp: journal_append_def dirties_other)
  then show ?thesis unfolding dirties_ok_def by blast
qed

lemma dirties_ok_mark:
  assumes "dirties_ok (sd_journal s)"
  shows "dirties_ok (sd_journal (journal_dirty ripemd s))"
proof -
  obtain x where x: "\<And>a. j_dirties (sd_journal s) a = counter (dirty_count (j_entries (sd_journal s)) a + (if a = ripemd then x else 0))"
    using assms by (auto simp: dirties_ok_def)
  have "j_dirties (sd_journal (journal_dirty ripemd s)) a =
    counter (dirty_count (j_entries (sd_journal (journal_dirty ripemd s))) a + (if a = ripemd then Suc x else 0))" for a
    using counter_inc [of "j_dirties (sd_journal s)" a, OF x [of a]] x [of a] by (auto simp: journal_dirty_def dirties_other)
  then show ?thesis unfolding dirties_ok_def by blast
qed

subsection \<open>Operations extend the journal and the live objects\<close>

definition extends :: "'tr StateDB \<Rightarrow> 'tr StateDB \<Rightarrow> bool" where
  "extends s s' \<longleftrightarrow>
    dom (sd_stateObjects s) \<subseteq> dom (sd_stateObjects s') \<and>
    sd_stateObjectsPending s' = sd_stateObjectsPending s \<and> sd_stateObjectsDirty s' = sd_stateObjectsDirty s \<and>
    (\<forall>a. createObjectChange a \<in> set (j_entries (sd_journal s')) \<longrightarrow>
      createObjectChange a \<in> set (j_entries (sd_journal s)) \<or> sd_stateObjects s a = None) \<and>
    (dirties_ok (sd_journal s) \<longrightarrow> dirties_ok (sd_journal s'))"

lemma extends_ok:
  assumes e: "extends s s'" and ok: "objects_ok s"
  shows "objects_ok s'"
proof -
  have d: "dom (sd_stateObjects s) \<subseteq> dom (sd_stateObjects s')" and p: "sd_stateObjectsPending s' = sd_stateObjectsPending s"
    "sd_stateObjectsDirty s' = sd_stateObjectsDirty s" using e by (simp_all add: extends_def)
  have "a \<notin> sd_stateObjectsPending s'" if a: "createObjectChange a \<in> set (j_entries (sd_journal s'))" for a
  proof -
    have "createObjectChange a \<in> set (j_entries (sd_journal s)) \<or> sd_stateObjects s a = None"
      using e a by (simp add: extends_def)
    then show ?thesis using ok p(1) by (auto simp: objects_ok_def)
  qed
  then show ?thesis using ok d unfolding objects_ok_def p by blast
qed

lemma extends_refl [simp]: "extends s s"
  by (simp add: extends_def)

lemma extends_trans:
  assumes "extends s s'" "extends s' s''"
  shows "extends s s''"
proof -
  have n: "sd_stateObjects s a = None" if "sd_stateObjects s' a = None" for a
    using assms(1) that unfolding extends_def by blast
  have "createObjectChange a \<in> set (j_entries (sd_journal s)) \<or> sd_stateObjects s a = None"
    if a: "createObjectChange a \<in> set (j_entries (sd_journal s''))" for a
  proof -
    have "createObjectChange a \<in> set (j_entries (sd_journal s')) \<or> sd_stateObjects s' a = None"
      using assms(2) a by (simp add: extends_def)
    then show ?thesis using assms(1) n [of a] by (auto simp: extends_def)
  qed
  moreover have "dom (sd_stateObjects s) \<subseteq> dom (sd_stateObjects s'')"
    by (rule subset_trans [of _ "dom (sd_stateObjects s')"]) (use assms in \<open>simp_all add: extends_def\<close>)
  ultimately show ?thesis using assms by (simp add: extends_def)
qed

lemma extends_basic:
  "extends s (setStateObject obj s)" "dirtied e \<noteq> None \<longrightarrow> (\<forall>a. e = createObjectChange a \<longrightarrow> sd_stateObjects s a = None) \<Longrightarrow> extends s (journal_append e s)"
  "extends s (journal_dirty ripemd s)" "extends s (sd_setError err s)"
proof -
  show "extends s (setStateObject obj s)" by (auto simp: extends_def setStateObject_def)
  show "extends s (sd_setError err s)" by (auto simp: extends_def sd_setError_def)
  show "extends s (journal_dirty ripemd s)" using dirties_ok_mark [of s] by (auto simp: extends_def) (auto simp: journal_dirty_def)
  show "extends s (journal_append e s)" if "dirtied e \<noteq> None \<longrightarrow> (\<forall>a. e = createObjectChange a \<longrightarrow> sd_stateObjects s a = None)"
    using that dirties_ok_append [of s e] by (auto simp: extends_def) (auto simp: journal_append_def)
qed

lemma extends_same:
  "sd_stateObjects s' = sd_stateObjects s \<Longrightarrow> sd_stateObjectsPending s' = sd_stateObjectsPending s \<Longrightarrow>
    sd_stateObjectsDirty s' = sd_stateObjectsDirty s \<Longrightarrow> sd_journal s' = sd_journal s \<Longrightarrow> extends s s'"
  by (simp add: extends_def)

lemma extends_getDeleted: "getDeletedStateObject K db a s = (r, s') \<Longrightarrow> extends s s' \<and> (r = None \<longrightarrow> sd_stateObjects s' a = None)"
  by (auto simp: getDeletedStateObject_def Let_def sd_setError_def extends_def setStateObject_def
      split: option.splits sum.splits prod.splits if_splits)

lemma extends_getStateObject: "getStateObject K db a s = (r, s') \<Longrightarrow> extends s s'"
  using extends_getDeleted [of K db a s] by (auto simp: getStateObject_def split: prod.splits option.splits if_splits)

lemma extends_put_append:
  "dirtied e \<noteq> None \<longrightarrow> (\<forall>a. e = createObjectChange a \<longrightarrow> sd_stateObjects s a = None) \<Longrightarrow>
    extends s0 s \<Longrightarrow> extends s0 (setStateObject obj (journal_append e s))"
  by (meson extends_basic(1,2) extends_trans)

lemma extends_createObject: "createObject K db a s = (obj, prev, s') \<Longrightarrow> extends s s'"
proof -
  assume c: "createObject K db a s = (obj, prev, s')"
  obtain r s1 where g: "getDeletedStateObject K db a s = (r, s1)" by fastforce
  note e = extends_getDeleted [OF g]
  have "extends s (if b then s1\<lparr>sd_snapDestructs := D\<rparr> else s1)" for b D
    using e extends_trans [OF _ extends_same [of "s1\<lparr>sd_snapDestructs := D\<rparr>" s1]] by simp
  then show ?thesis using c e g by (cases r) (auto simp: createObject_def Let_def intro!: extends_put_append)
qed

lemma extends_GetOrNew: "GetOrNewStateObject K db a s = (obj, s') \<Longrightarrow> extends s s'"
proof -
  assume c: "GetOrNewStateObject K db a s = (obj, s')"
  obtain r s1 where g: "getStateObject K db a s = (r, s1)" by fastforce
  note e = extends_getStateObject [OF g]
  show ?thesis
    using c g e extends_trans [OF e] by (cases r) (auto simp: GetOrNewStateObject_def split: prod.splits dest: extends_createObject)
qed

lemma extends_exec:
  assumes "exec K db x s = Some s'" "\<And>i. x \<noteq> OpRevert i"
  shows "extends s s'"
proof -
  have put: "extends s1 (setStateObject obj s2)" if "extends s1 s2" for s1 s2 :: "'a StateDB" and obj
    using extends_trans [OF that extends_basic(1)] .
  have new: "extends s s2" if "GetOrNewStateObject K db a s = (obj, s2)" for a obj s2 using extends_GetOrNew [OF that] .
  have get: "extends s s2" if "getStateObject K db a s = (r, s2)" for a r s2 using extends_getStateObject [OF that] .
  have app1: "extends s1 (journal_append e s2)" if "extends s1 s2" "\<And>a. e \<noteq> createObjectChange a" for s1 s2 :: "'a StateDB" and e
    using that extends_trans [OF that(1) extends_basic(2) [of e s2]] by auto
  have fld: "extends s1 (s2\<lparr>sd_logs := l, sd_logSize := n\<rparr>)" "extends s1 (s2\<lparr>sd_preimages := p\<rparr>)" "extends s1 (s2\<lparr>sd_refund := r\<rparr>)"
    "extends s1 (s2\<lparr>sd_accessList := al\<rparr>)" "extends s1 (s2\<lparr>sd_nextRevisionId := i, sd_validRevisions := vr\<rparr>)"
    if "extends s1 s2" for s1 s2 :: "'a StateDB" and l n p r al i vr
    using that by (simp_all add: extends_def)
  have touch: "extends s1 (so_touch obj s2)" if "extends s1 s2" for s1 s2 :: "'a StateDB" and obj
    using app1 [OF that, of "touchChange (so_address obj)"] extends_trans [OF app1 [OF that, of "touchChange ripemd"] extends_basic(3)]
    by (auto simp: so_touch_def Let_def)
  note rules = put app1 fld touch extends_refl
  show ?thesis
    using assms
    by (cases x) (auto simp: CreateAccount_def AddBalance_def SubBalance_def SetBalance_def SetNonce_def SetCode_def SetState_def
        so_AddBalance_def so_SubBalance_def so_SetBalance_def so_SetNonce_def so_SetCode_def so_SetState_def
        Suicide_def AddLog_def AddPreimage_def AddRefund_def SubRefund_def AddAddressToAccessList_def AddSlotToAccessList_def
        GetBalance_def GetCode_def GetCodeSize_def GetState_def GetCommittedState_def Snapshot_def Let_def
        split: prod.splits option.splits if_splits intro!: rules dest!: extends_createObject new get)
qed

subsection \<open>Reverts\<close>

definition sets_ok :: "'tr StateDB \<Rightarrow> bool" where
  "sets_ok s \<longleftrightarrow> sd_stateObjectsPending s \<subseteq> dom (sd_stateObjects s) \<and> sd_stateObjectsDirty s \<subseteq> dom (sd_stateObjects s)"

lemma getStateObject_frame:
  "getStateObject K db a s = (r, s') \<Longrightarrow> sd_journal s' = sd_journal s \<and> sd_stateObjectsPending s' = sd_stateObjectsPending s \<and>
    (sets_ok s \<longrightarrow> sets_ok s')"
  by (auto simp: getStateObject_def getDeletedStateObject_def Let_def sd_setError_def setStateObject_def sets_ok_def
      split: option.splits sum.splits prod.splits if_splits)

lemma sets_ok_put: "sets_ok s \<Longrightarrow> sets_ok (setStateObject obj s)"
  by (auto simp: sets_ok_def setStateObject_def)

lemma entry_revert_frame:
  assumes "entry_revert K db e s = Some s'" "sets_ok s" "\<And>a. e = createObjectChange a \<Longrightarrow> a \<notin> sd_stateObjectsPending s"
  shows "sd_journal s' = sd_journal s \<and> sd_stateObjectsPending s' = sd_stateObjectsPending s \<and> sets_ok s'"
proof -
  have put: "sd_journal (setStateObject obj t) = sd_journal t" "sd_stateObjectsPending (setStateObject obj t) = sd_stateObjectsPending t"
    for obj and t :: "'a StateDB" by (simp_all add: setStateObject_def)
  have g: "sd_journal t = sd_journal s" "sd_stateObjectsPending t = sd_stateObjectsPending s" "sets_ok t"
    if "getStateObject K db a s = (r, t)" for a r t
    using getStateObject_frame [OF that] assms(2) by simp_all
  show ?thesis
  proof (cases e)
    case (createObjectChange a)
    then show ?thesis using assms by (auto simp: sets_ok_def)
  next
    case (resetObjectChange p f)
    then show ?thesis using assms(1) sets_ok_put [OF assms(2), of p]
      by (auto simp: put Let_def sets_ok_def split: if_splits)
  next
    case (addLogChange h)
    then show ?thesis using assms by (auto simp: Let_def sets_ok_def split: if_splits)
  next
    case (suicideChange a f b)
    then show ?thesis using assms(1) by (auto simp: put sets_ok_put g split: prod.splits option.splits)
  qed (use assms(1,2) in \<open>auto simp: put sets_ok_put g revert_object_def split: prod.splits option.splits\<close>, auto simp: sets_ok_def)
qed

lemma revert_entries_inv:
  assumes "revert_entries K db es s = Some s'" "sets_ok s" "\<And>a. createObjectChange a \<in> set es \<Longrightarrow> a \<notin> sd_stateObjectsPending s"
    "\<And>a. j_dirties (sd_journal s) a = counter (m a + dirty_count es a)"
  shows "j_entries (sd_journal s') = j_entries (sd_journal s) \<and> sd_stateObjectsPending s' = sd_stateObjectsPending s \<and> sets_ok s' \<and>
    (\<forall>a. j_dirties (sd_journal s') a = counter (m a))"
  using assms
proof (induction es arbitrary: s)
  case Nil
  then show ?case by simp
next
  case (Cons e es)
  obtain s1 where s1: "entry_revert K db e s = Some s1" "revert_entries K db es (drop_dirty e s1) = Some s'"
    using Cons.prems(1) by (auto split: option.splits)
  note f = entry_revert_frame [OF s1(1) Cons.prems(2)]
  have fr: "sd_journal s1 = sd_journal s" "sd_stateObjectsPending s1 = sd_stateObjectsPending s" "sets_ok s1"
    using f Cons.prems(3) by auto
  have dd: "j_entries (sd_journal (drop_dirty e s1)) = j_entries (sd_journal s)"
    "sd_stateObjectsPending (drop_dirty e s1) = sd_stateObjectsPending s" "sets_ok (drop_dirty e s1)"
    using fr by (auto simp: drop_dirty_def sets_ok_def split: option.splits)
  have d: "j_dirties (sd_journal (drop_dirty e s1)) a = counter (m a + dirty_count es a)" for a
  proof (cases "dirtied e")
    case None
    then show ?thesis using Cons.prems(4) [of a] fr(1) by (simp add: drop_dirty_def)
  next
    case (Some b)
    then show ?thesis using Cons.prems(4) [of a] fr(1)
      by (cases "b = a") (simp_all add: drop_dirty_def dirties_other counter_dec)
  qed
  show ?case using Cons.IH [OF s1(2) dd(3) _ d] Cons.prems(3) dd(1,2) by auto
qed

lemma RevertToSnapshot_inv:
  assumes "RevertToSnapshot K db i s = Some s'" "objects_ok s" "dirties_ok (sd_journal s)"
  shows "objects_ok s' \<and> dirties_ok (sd_journal s')"
proof -
  obtain n s1 revs where j: "journal_revert K db n s = Some s1" "s' = s1\<lparr>sd_validRevisions := revs\<rparr>"
    using assms(1) by (auto simp: RevertToSnapshot_def Let_def split: if_splits option.splits)
  let ?es = "j_entries (sd_journal s)"
  obtain s2 where s2: "revert_entries K db (rev (drop n ?es)) s = Some s2"
    "s1 = s2\<lparr>sd_journal := (sd_journal s2)\<lparr>j_entries := take n (j_entries (sd_journal s2))\<rparr>\<rparr>"
    using j(1) by (auto simp: journal_revert_def split: option.splits)
  have c: "dirty_count (take n ?es) a + dirty_count (drop n ?es) a = dirty_count ?es a" for a
    using dirty_count_simps(3) [of "take n ?es" "drop n ?es" a] by simp
  obtain x where x: "\<And>a. j_dirties (sd_journal s) a = counter (dirty_count ?es a + (if a = ripemd then x else 0))"
    using assms(3) by (auto simp: dirties_ok_def)
  have "j_entries (sd_journal s2) = ?es \<and> sd_stateObjectsPending s2 = sd_stateObjectsPending s \<and> sets_ok s2 \<and>
    (\<forall>a. j_dirties (sd_journal s2) a = counter (dirty_count (take n ?es) a + (if a = ripemd then x else 0)))"
  proof (rule revert_entries_inv [OF s2(1)])
    show "sets_ok s" using assms(2) by (simp add: sets_ok_def objects_ok_def)
    show "a \<notin> sd_stateObjectsPending s" if "createObjectChange a \<in> set (rev (drop n ?es))" for a
      using assms(2) that by (auto simp: objects_ok_def dest: in_set_dropD)
    show "j_dirties (sd_journal s) a = counter (dirty_count (take n ?es) a + (if a = ripemd then x else 0) + dirty_count (rev (drop n ?es)) a)" for a
      unfolding x c [of a, symmetric] by (simp add: ac_simps)
  qed
  then show ?thesis using assms(2) unfolding j(2) s2(2) objects_ok_def dirties_ok_def sets_ok_def
    by (auto dest: in_set_takeD)
qed

subsection \<open>Transaction boundaries\<close>

lemma finalise_step_inv:
  assumes "sets_ok s"
  shows "sets_ok (finalise_step K del a s)" "sd_journal (finalise_step K del a s) = sd_journal s"
  using assms by (auto simp: finalise_step_def Let_def sets_ok_def split: option.splits)

lemma Finalise_inv:
  assumes "objects_ok s" "dirties_ok (sd_journal s)"
  shows "objects_ok (Finalise K del order s)" "dirties_ok (sd_journal (Finalise K del order s))"
proof -
  have f: "sets_ok t \<Longrightarrow> sets_ok (fold (finalise_step K del) order t) \<and> sd_journal (fold (finalise_step K del) order t) = sd_journal t" for t
    by (induction order arbitrary: t) (auto simp: finalise_step_inv)
  have s: "sets_ok s" using assms(1) by (simp add: sets_ok_def objects_ok_def)
  show "objects_ok (Finalise K del order s)" "dirties_ok (sd_journal (Finalise K del order s))"
    using f [OF s] assms(2)
    by (auto simp: Finalise_def clearJournalAndRefund_def Let_def objects_ok_def sets_ok_def newJournal_def dirties_ok_def counter_def)
qed

lemma root_steps_inv:
  "root_steps K db slots addrs s = Some s' \<Longrightarrow> sd_journal s' = sd_journal s \<and> sd_stateObjectsDirty s' = sd_stateObjectsDirty s \<and>
    dom (sd_stateObjects s) \<subseteq> dom (sd_stateObjects s')"
proof (induction addrs arbitrary: s)
  case (Cons a addrs)
  then obtain s1 where s1: "root_step K db slots a s = Some s1" "root_steps K db slots addrs s1 = Some s'"
    by (auto split: option.splits)
  have e: "sd_journal (sd_setError x t) = sd_journal t" "sd_stateObjectsDirty (sd_setError x t) = sd_stateObjectsDirty t"
    "sd_stateObjects (sd_setError x t) = sd_stateObjects t" for x and t :: "'a StateDB"
    by (simp_all add: sd_setError_def)
  have "sd_journal s1 = sd_journal s \<and> sd_stateObjectsDirty s1 = sd_stateObjectsDirty s \<and> dom (sd_stateObjects s) \<subseteq> dom (sd_stateObjects s1)"
    using s1(1) by (auto simp: root_step_def deleteStateObject_def updateStateObject_def sd_updateRoot_def setStateObject_def store_snap_def e Let_def
        split: option.splits if_splits prod.splits sum.splits)
  then show ?case using Cons.IH [OF s1(2)] by (simp, meson subset_trans)
qed simp

lemma block_step_inv:
  assumes "block_step K db s s'" "objects_ok s" "dirties_ok (sd_journal s)"
  shows "objects_ok s' \<and> dirties_ok (sd_journal s')"
  using assms
proof (induction rule: block_step.induct)
  case (operation x s s')
  show ?case
  proof (cases "\<exists>i. x = OpRevert i")
    case True
    then obtain i where "RevertToSnapshot K db i s = Some s'" using operation(1) by auto
    then show ?thesis by (rule RevertToSnapshot_inv) (use operation in simp_all)
  next
    case False
    then have "extends s s'" using extends_exec [OF operation(1)] by blast
    then show ?thesis using extends_ok operation(2,3) by (auto simp: extends_def)
  qed
next
  case (storage s a st)
  obtain obj s1 where g: "GetOrNewStateObject K db a s = (obj, s1)" by fastforce
  have "extends s (SetStorage K db a st s)"
    using extends_trans [OF extends_GetOrNew [OF g] extends_basic(1)] g by (simp add: SetStorage_def)
  then show ?case using extends_ok storage by (auto simp: extends_def)
next
  case (prepare s thash bhash ti)
  then show ?case by (simp add: Prepare_def objects_ok_def)
next
  case (finalise order s del)
  then show ?case using Finalise_inv by blast
next
  case (root order s del pendings slots h s')
  let ?f = "Finalise K del order s"
  note f = Finalise_inv [OF root(3,4), of K del order]
  obtain s1 where s1: "root_steps K db slots pendings ?f = Some s1"
    "sd_journal s' = sd_journal s1" "sd_stateObjects s' = sd_stateObjects s1" "sd_stateObjectsDirty s' = sd_stateObjectsDirty s1" "sd_stateObjectsPending s' = {}"
    using root(2) by (auto simp: IntermediateRoot_def Let_def split: option.splits prod.splits)
  have "sd_stateObjectsDirty ?f \<subseteq> dom (sd_stateObjects s1)"
    using f(1) root_steps_inv [OF s1(1)] unfolding objects_ok_def by (meson subset_trans)
  then show ?case using root_steps_inv [OF s1(1)] s1(2-5) f by (simp add: objects_ok_def)
qed

lemma reachable_inv:
  assumes "reachable K db snaps s"
  shows "objects_ok s" "dirties_ok (sd_journal s)"
proof -
  have "objects_ok s \<and> dirties_ok (sd_journal s)"
    using assms
  proof (induction rule: reachable.induct)
    case (initial root s)
    then show ?case by (auto simp: state_New_def objects_ok_def dirties_ok_def newJournal_def counter_def split: sum.splits)
  next
    case (more s s')
    then show ?case using block_step_inv by blast
  qed
  then show "objects_ok s" "dirties_ok (sd_journal s)" by simp_all
qed

end
