(* ===== verification/State_Codec.thy ===== *)
theory State_Codec
  imports State_DB
begin

section \<open>The encodings of accounts and storage slots\<close>

text \<open>
  What the state database writes into its tries and its snapshot, read back: an account
  (\<open>EncodeRLP\<close> of a state object, decoded by \<open>getDeletedStateObject\<close>), the slim account of
  the snapshot (\<open>SlimAccountRLP\<close> and \<open>FullAccount\<close>), and a storage slot (\<open>updateTrie\<close> and
  \<open>GetCommittedState\<close>).
\<close>

subsection \<open>Structs of leaf types\<close>

text \<open>
  A leaf type has no component types. Two units of fuel decode a struct of leaves: one for
  the struct, one for its fields.
\<close>

fun leaf :: "gtype \<Rightarrow> bool" where
  "leaf (TUint bits) = True"
| "leaf TBigInt = True"
| "leaf (TByteArray n) = True"
| "leaf TByteSlice = True"
| "leaf _ = False"

lemma leaf_decoder: "leaf t \<Longrightarrow> \<exists>r. decoder (Suc 0) t s = Some r"
  by (cases t rule: leaf.cases) simp_all

lemma leaf_fields: "\<forall>t \<in> set ts. leaf t \<Longrightarrow> \<exists>r. decodeFields (map (decoder (Suc 0)) ts) i s = Some r"
proof (induction ts arbitrary: i s)
  case (Cons t ts)
  obtain r s1 where d: "decoder (Suc 0) t s = Some (r, s1)"
    using leaf_decoder [of t s] Cons.prems by auto
  have "\<exists>r. decodeFields (map (decoder (Suc 0)) ts) (Suc i) s1 = Some r"
    using Cons.prems by (intro Cons.IH) simp
  then show ?case using d by (cases r) (auto simp del: decoder.simps)
qed simp

lemma leaf_struct:
  assumes "\<forall>t \<in> set ts. leaf t"
  shows "\<exists>r. decoder 2 (TStruct ts) s = Some r"
proof (cases "stream_List s")
  case (Pair x s1)
  obtain y s2 where "decodeFields (map (decoder (Suc 0)) ts) 0 s1 = Some (y, s2)"
    using leaf_fields [OF assms, of 0 s1] by auto
  then show ?thesis using Pair
    by (cases x; cases y) (simp_all add: numeral_2_eq_2 vlist_def decodeStruct_def)
qed

lemma DecodeBytes_leaves:
  assumes "\<forall>t \<in> set ts. leaf t" and "dtype (TStruct ts)" and "length b < 2 ^ 63"
  shows "DecodeBytes 2 (TStruct ts) b = Some (Inr v) \<longleftrightarrow>
    decodes_to (TStruct ts) v \<and> b = enc (TStruct ts) v" (is "?L = ?R")
proof -
  let ?s = "stream_Reset b True (word_of_nat (length b))"
  obtain r where d: "decoder 2 (TStruct ts) ?s = Some r" using leaf_struct [OF assms(1)] by blast
  have same: "DecodeBytes n (TStruct ts) b = DecodeBytes 2 (TStruct ts) b" if "2 \<le> n" for n
    using decoder_more [OF d that] d by (simp add: DecodeBytes_def stream_Decode_def)
  have "?L \<longleftrightarrow> (\<exists>N. \<forall>n\<ge>N. DecodeBytes n (TStruct ts) b = Some (Inr v))"
    using same by (metis max.cobounded1 max.cobounded2)
  then show ?thesis using DecodeBytes_iff [OF assms(2) _ assms(3), of v] by simp
qed

lemma struct_roundtrip:
  assumes "\<forall>t \<in> set ts. leaf t" and "dtype (TStruct ts)" and "length (enc (TStruct ts) v) < 2 ^ 63"
    and "decodes_to (TStruct ts) v"
  shows "EncodeToBytes (TStruct ts) v = Inr (enc (TStruct ts) v)"
    and "DecodeBytes 2 (TStruct ts) (enc (TStruct ts) v) = Some (Inr v)"
  using EncodeToBytes_iff [OF decodes_encodable(1) [OF assms(4)] assms(3)]
    DecodeBytes_leaves [OF assms(1,2,3)] assms(4) by auto

subsection \<open>Accounts\<close>

lemma length_rlp_head_le: "n < 18446744073709551616 \<Longrightarrow> length (rlp_head st lt n) \<le> 9"
  using length_be_bytes_le [of n 8] by (simp add: rlp_head_def)

lemma length_rlp_formats:
  "length b < 18446744073709551616 \<Longrightarrow> length (rlp_string b) \<le> length b + 9"
  "length b < 18446744073709551616 \<Longrightarrow> length (rlp_list b) \<le> length b + 9"
  using length_rlp_head_le [of "length b"] by (simp_all add: rlp_string_def rlp_list_def)

text \<open>
  The fields of an account in range: the balance a number of 256 bits, the root and the
  code hash at most 32 bytes long. The encoding then has at most 149 bytes.
\<close>

lemma length_account_fields:
  assumes "0 \<le> balance" "balance < 2 ^ 256" "length root \<le> 32" "length codeHash \<le> 32"
  shows "length (rlp_list (rlp_string (be_bytes (unat (nonce :: uint64))) @
    rlp_string (be_bytes (nat balance)) @ rlp_string root @ rlp_string codeHash)) \<le> 149"
proof -
  have "unat nonce < 256 ^ 8" using unsigned_less [of nonce] by simp
  then have n: "length (be_bytes (unat nonce)) \<le> 8" by (rule length_be_bytes_le)
  have "nat balance < nat (2 ^ 256)" using assms(1,2) by (subst nat_less_eq_zless) simp_all
  then have "nat balance < 256 ^ 32" by simp
  then have b: "length (be_bytes (nat balance)) \<le> 32" by (rule length_be_bytes_le)
  have s: "length (rlp_string c) \<le> length c + 9" if "length c \<le> 32" for c
    using that by (intro length_rlp_formats) simp
  let ?p = "rlp_string (be_bytes (unat nonce)) @ rlp_string (be_bytes (nat balance)) @
    rlp_string root @ rlp_string codeHash"
  have "length ?p \<le> 140" using s [of "be_bytes (unat nonce)"] s [of "be_bytes (nat balance)"]
      s [OF assms(3)] s [OF assms(4)] assms(3,4) n b by simp
  then show ?thesis using length_rlp_formats(2) [of ?p] by simp
qed

text \<open>
  The account and the slim account are structs of leaves.
\<close>

lemma account_roundtrip:
  assumes "0 \<le> balance" "balance < 2 ^ 256" "length root = 32" "length codeHash \<le> 32"
  shows "\<exists>data. EncodeToBytes account_type (account_gval nonce balance root codeHash) = Inr data \<and>
    DecodeBytes 2 account_type data = Some (Inr (account_gval nonce balance root codeHash))"
proof -
  let ?v = "account_gval nonce balance root codeHash"
  have "length (enc account_type ?v) \<le> 149"
    using length_account_fields [OF assms(1,2) _ assms(4), of root nonce] assms(3)
    by (simp add: account_type_def account_gval_def)
  moreover have "decodes_to account_type ?v"
    using assms unsigned_less [of nonce] by (simp add: account_type_def account_gval_def)
  ultimately show ?thesis unfolding account_type_def
    by (intro exI conjI) (rule struct_roundtrip; simp)+
qed

lemma slim_roundtrip:
  assumes "0 \<le> sa_Balance a" "sa_Balance a < 2 ^ 256" "length (sa_Root a) \<le> 32" "length (sa_CodeHash a) \<le> 32"
  shows "\<exists>data. EncodeToBytes slim_type (slim_gval a) = Inr data \<and>
    DecodeBytes 2 slim_type data = Some (Inr (slim_gval a))"
proof -
  have "length (enc slim_type (slim_gval a)) \<le> 149"
    using length_account_fields [OF assms, of "sa_Nonce a"] by (simp add: slim_type_def slim_gval_def)
  moreover have "decodes_to slim_type (slim_gval a)"
    using assms unsigned_less [of "sa_Nonce a"] by (simp add: slim_type_def slim_gval_def)
  ultimately show ?thesis unfolding slim_type_def
    by (intro exI conjI) (rule struct_roundtrip; simp)+
qed

subsection \<open>Storage slots\<close>

lemma BytesToHash_Trim: "length v = 32 \<Longrightarrow> BytesToHash (TrimLeftZeroes v) = v"
proof -
  assume v: "length v = 32"
  let ?z = "takeWhile (\<lambda>b. b = 0) v" and ?r = "dropWhile (\<lambda>b. b = 0) v"
  have split: "v = ?z @ ?r" by simp
  then have l: "length v = length ?z + length ?r" by (metis length_append)
  have "?z = replicate (length ?z) 0"
    by (intro replicate_eqI) (auto dest: set_takeWhileD)
  then have "replicate (32 - length ?r) 0 @ ?r = v" using split l v by (metis add_diff_cancel_right')
  then show ?thesis using l v by (simp add: BytesToHash_def TrimLeftZeroes_def Let_def)
qed

lemma slot_roundtrip:
  assumes "length v = 32"
  shows "slot_encode v = rlp_string (TrimLeftZeroes v)" "slot_value (slot_encode v) = (v, None)"
proof -
  let ?c = "TrimLeftZeroes v"
  have c: "length ?c \<le> 32" using assms by (simp add: TrimLeftZeroes_def length_dropWhile_le [THEN order_trans])
  then have l: "length (rlp_string ?c) \<le> 41" using length_rlp_formats(1) [of ?c] by simp
  then show e: "slot_encode v = rlp_string ?c"
    using EncodeToBytes_iff [of TByteSlice "VBytes ?c" "rlp_string ?c"] by (simp add: slot_encode_def)
  have "Split (rlp_string ?c) = Inr (if length ?c = 1 \<and> hd ?c < 0x80 then KByte else KString, ?c, [])"
    using Split_complete [OF rlp_string_value(2) [of ?c], of "[]"] l
    by (simp only: rlp_string_value(1) [symmetric]) simp
  moreover have "rlp_string ?c \<noteq> []" by (auto simp: rlp_string_def rlp_head_def)
  ultimately show "slot_value (slot_encode v) = (v, None)"
    unfolding e using BytesToHash_Trim [OF assms] by (simp add: slot_value_def)
qed

subsection \<open>Round trips\<close>

text \<open>
  An account survives the state trie: the bytes \<open>updateStateObject\<close> stores for an object
  whose balance has at most 256 bits decode, in \<open>getDeletedStateObject\<close>, to the nonce,
  balance, root and code hash of the object.
\<close>

theorem Account_roundtrip:
  assumes "0 \<le> so_Balance obj" "so_Balance obj < 2 ^ 256" "length (so_Root obj) = 32" "length (so_CodeHash obj) = 32"
  shows "\<exists>data. so_EncodeRLP obj = Inr data \<and>
    decode_Account data = Some \<lparr>acc_Nonce = so_Nonce obj, acc_Balance = Some (so_Balance obj),
      acc_Root = so_Root obj, acc_CodeHash = Some (so_CodeHash obj)\<rparr>"
proof -
  obtain data where "so_EncodeRLP obj = Inr data"
    "DecodeBytes 2 account_type data = Some (Inr (account_gval (so_Nonce obj) (so_Balance obj) (so_Root obj) (so_CodeHash obj)))"
    using account_roundtrip [OF assms(1-3), of "so_CodeHash obj" "so_Nonce obj"] assms(4) by (auto simp: so_EncodeRLP_def)
  then show ?thesis by (simp add: decode_Account_def account_gval_def)
qed

definition example_object :: "unit stateObject" where
  "example_object = newObject BytesToHash (replicate 20 1)
    \<lparr>acc_Nonce = 3, acc_Balance = Some 1000, acc_Root = replicate 32 7, acc_CodeHash = Some (replicate 32 9)\<rparr>"

theorem Account_roundtrip_witness:
  "\<exists>data. so_EncodeRLP example_object = Inr data \<and>
    decode_Account data = Some \<lparr>acc_Nonce = 3, acc_Balance = Some 1000, acc_Root = replicate 32 7, acc_CodeHash = Some (replicate 32 9)\<rparr>"
proof -
  have f: "so_Nonce example_object = 3" "so_Balance example_object = 1000" "so_Root example_object = replicate 32 7"
    "so_CodeHash example_object = replicate 32 9"
    by (simp_all add: example_object_def newObject_def Let_def zero_hash_def)
  show ?thesis using Account_roundtrip [of example_object] by (simp add: f)
qed

text \<open>
  The slim format loses nothing: an account written with \<open>SlimAccountRLP\<close>, which leaves
  out the root of an empty trie and the hash of empty code, is restored by \<open>FullAccount\<close>.
\<close>

theorem SlimAccount_roundtrip:
  assumes "0 \<le> balance" "balance < 2 ^ 256" "length root = 32" "length codehash = 32"
  shows "\<exists>data. SlimAccountRLP K nonce balance root codehash = Some data \<and>
    FullAccount K data = Some (Inr \<lparr>sa_Nonce = nonce, sa_Balance = balance, sa_Root = root, sa_CodeHash = codehash\<rparr>)"
proof -
  let ?a = "SlimAccount K nonce balance root codehash"
  have "0 \<le> sa_Balance ?a" "sa_Balance ?a < 2 ^ 256" "length (sa_Root ?a) \<le> 32" "length (sa_CodeHash ?a) \<le> 32"
    using assms by (simp_all add: SlimAccount_def)
  from slim_roundtrip [OF this] obtain data where "EncodeToBytes slim_type (slim_gval ?a) = Inr data"
    "DecodeBytes 2 slim_type data = Some (Inr (slim_gval ?a))" by blast
  moreover have "root \<noteq> []" "codehash \<noteq> []" using assms(3,4) by auto
  ultimately show ?thesis
    by (simp add: SlimAccountRLP_def FullAccount_def slim_gval_def SlimAccount_def)
qed

theorem SlimAccount_roundtrip_witness:
  "\<exists>data. SlimAccountRLP BytesToHash 1 5 emptyRoot (emptyCodeHash BytesToHash) = Some data \<and>
    FullAccount BytesToHash data =
      Some (Inr \<lparr>sa_Nonce = 1, sa_Balance = 5, sa_Root = emptyRoot, sa_CodeHash = emptyCodeHash BytesToHash\<rparr>)"
  by (rule SlimAccount_roundtrip) (simp_all add: emptyRoot_def emptyCodeHash_def)

text \<open>
  A storage slot survives the storage trie: the bytes \<open>updateTrie\<close> stores for a value,
  without its leading zeroes, are read back by \<open>GetCommittedState\<close> as that value without an
  error; the stored string is not empty, so that the write is not a deletion.
\<close>

theorem slot_value_roundtrip:
  assumes "length value = 32"
  shows "slot_value (slot_encode value) = (value, None) \<and> slot_encode value \<noteq> []"
  using slot_roundtrip [OF assms] by (auto simp: rlp_string_def rlp_head_def)

theorem slot_value_roundtrip_witness:
  "slot_value (slot_encode (replicate 31 0 @ [0x80])) = (replicate 31 0 @ [0x80], None) \<and> slot_encode (replicate 31 0 @ [0x80]) \<noteq> []"
  by (rule slot_value_roundtrip) simp

end
