(* ===== verification/State_Props.thy ===== *)
theory State_Props
  imports State_Database State_Invariants State_Codec "HOL-Library.Multiset"
begin

section \<open>Properties of the state database\<close>

text \<open>
  The properties of the state database and of its parts, with examples. The examples use
  the caching database over an empty node database, and the padding of a byte string to 32
  bytes in the place of the hash function.
\<close>

subsection \<open>The contract between state and tries\<close>

text \<open>
  The empty node database is well-formed, and the results of the hash function are arrays
  of 32 bytes. \<open>collision_free\<close>: the addresses whose hash no other address has.
\<close>

definition Keccak256Hash :: "(bytes \<Rightarrow> bytes) \<Rightarrow> bytes \<Rightarrow> hash" where
  "Keccak256Hash sha b = BytesToHash (sha b)"

definition collision_free :: "(bytes \<Rightarrow> hash) \<Rightarrow> address set" where
  "collision_free K = {a. length a = 20 \<and> (\<forall>b. length b = 20 \<longrightarrow> K b = K a \<longrightarrow> b = a)}"

interpretation empty_db: secure_db "Keccak256Hash sha" "\<lambda>_. None" readCode for sha readCode
  by unfold_locales (simp_all add: Keccak256Hash_def wf_node_db_def)

interpretation empty_state: state_store "cachingDB (Keccak256Hash sha) (\<lambda>_. None) readCode" trie_good
  "Keccak256Hash sha" "collision_free (Keccak256Hash sha)" for sha readCode
  by unfold_locales (simp_all add: Keccak256Hash_def inj_on_def collision_free_def)

lemma secure_db_state:
  assumes "wf_node_db ndb" "\<And>b. length (K b) = 32" "inj_on K A"
  shows "state_store (cachingDB K ndb readCode) trie_good K A"
proof -
  have "secure_db K ndb" using assms(1,2) by unfold_locales
  then have "trie_reads (cachingDB K ndb readCode) trie_good" by (rule secure_db.axioms_reads)
  then show ?thesis using assms by (simp add: state_store_def state_store_axioms_def)
qed

text \<open>
  Lookups do not interfere: after any lookups in a secure trie over well-formed nodes,
  a lookup has the result it would have had before them, found or missing, although the trie
  has loaded nodes from the database.
\<close>

theorem lookups_stable:
  assumes "wf_node_db ndb" and "\<And>b. length (K b) = 32" and "NewSecure root ndb = Inr t"
  shows "let db = cachingDB K ndb readCode; after = foldr (\<lambda>k t. snd (tr_TryGet db t k)) keys t
    in fst (tr_TryGet db after key) = fst (tr_TryGet db t key)"
proof -
  have sd: "secure_db K ndb" using assms(1,2) by unfold_locales
  have "trie_good t" using secure_db.open_wf [OF sd assms(3)] .
  from trie_reads.gets_stable [OF secure_db.axioms_reads [OF sd] this] show ?thesis by (simp add: Let_def)
qed

text \<open>A trie of one hashed node, over the padding function.\<close>

definition example_node :: node where
  "example_node = ShortNode (keybytesToHex (BytesToHash [1])) (ValueNode [7]) \<lparr>nf_hash = None, nf_dirty = False\<rparr>"

definition example_db :: node_db where
  "example_db h = (if h = BytesToHash [9] then Some example_node else None)"

lemma padded_root: "BytesToHash [9] \<noteq> replicate 32 0" "BytesToHash [9] \<noteq> emptyRoot" "BytesToHash (BytesToHash [9]) = BytesToHash [9]"
proof -
  have "last (BytesToHash [9]) = 9" "last (replicate 32 (0 :: 8 word)) = 0" "last emptyRoot = 0x21"
    by (simp_all add: BytesToHash_def emptyRoot_def)
  then show "BytesToHash [9] \<noteq> replicate 32 0" "BytesToHash [9] \<noteq> emptyRoot" by auto
qed simp

theorem lookups_stable_witness:
  "wf_node_db example_db \<and> (\<exists>t. NewSecure (BytesToHash [9]) example_db = Inr t \<and>
    fst (tr_TryGet (cachingDB BytesToHash example_db (\<lambda>_. []))
      (snd (tr_TryGet (cachingDB BytesToHash example_db (\<lambda>_. [])) t [2])) [1]) =
    fst (tr_TryGet (cachingDB BytesToHash example_db (\<lambda>_. [])) t [1]))"
proof -
  have wf: "wf_node_db example_db"
    by (auto simp: wf_node_db_def example_db_def example_node_def keybytesToHex_def)
  have "NewSecure (BytesToHash [9]) example_db = Inr \<lparr>st_trie = \<lparr>t_root = example_node, t_unhashed = 0\<rparr>, st_keys = Map.empty, st_owner = False\<rparr>"
    using padded_root by (simp add: NewSecure_def New_def resolveHash_def example_db_def)
  from lookups_stable [OF wf BytesToHash_len this, where readCode = "\<lambda>_. []" and keys = "[[2]]" and key = "[1]"] this wf
  show ?thesis by (auto simp: Let_def)
qed

subsection \<open>Snapshots\<close>

text \<open>
  C2. \<open>RevertToSnapshot\<close> restores the state. After any operations of a transaction, take a
  snapshot, execute any further operations, with snapshots and reverts nested in any way, and
  go back to the snapshot while its revision is valid: the revert does not panic, every query
  has the answer it had when the snapshot was taken, and the journal and the valid revisions
  are the same, so that the outer snapshots stay usable.
\<close>

theorem RevertToSnapshot_restores:
  assumes "state_store db good K A" and "sd_ok K db good A s0" and "al_ok (sd_accessList s0)" and "sd_validRevisions s0 = []"
    and "\<forall>x\<in>set (xs @ ys). pred_option (\<lambda>a. a \<in> A) (op_addr x)"
    and "exec_all K db xs s0 = Some s" and "Snapshot s = (revid, s1)" and "exec_all K db ys s1 = Some s2"
    and "revid \<in> rev_id ` set (sd_validRevisions s2)"
  shows "\<exists>s3. RevertToSnapshot K db revid s2 = Some s3 \<and> same_reads K db A s s3 \<and>
    j_entries (sd_journal s3) = j_entries (sd_journal s) \<and> sd_validRevisions s3 = sd_validRevisions s"
proof -
  obtain s3 where "RevertToSnapshot K db revid s2 = Some s3" "same_reads K db A s s3"
    "entries_of s3 = entries_of s" "sd_validRevisions s3 = sd_validRevisions s"
    using assms(2-) by (rule state_store.revert_restores [OF assms(1)])
  then show ?thesis by (auto simp: entries_of_def)
qed

text \<open>A fresh state, and a state that holds one account.\<close>

definition ex_db :: "secure_trie database" where
  "ex_db = cachingDB BytesToHash (\<lambda>_. None) (\<lambda>_. [])"

definition ex_addr :: address where
  "ex_addr = replicate 19 0 @ [1]"

definition ex_trie :: secure_trie where
  "ex_trie = \<lparr>st_trie = \<lparr>t_root = NNil, t_unhashed = 0\<rparr>, st_keys = Map.empty, st_owner = False\<rparr>"

definition ex_state :: "secure_trie StateDB" where
  "ex_state = projr (state_New ex_db None zero_hash)"

lemma ex_get [simp]: "tr_TryGet ex_db ex_trie key = (Inr [], ex_trie)"
  by (simp add: ex_db_def cachingDB_def ex_trie_def secure_TryGet_def TryGet_def trie_fuel_def numeral_eq_Suc Let_def)

lemma ex_open [simp]: "db_OpenTrie ex_db zero_hash = Inr ex_trie"
  by (simp add: ex_db_def cachingDB_def ex_trie_def NewSecure_def New_def zero_hash_def Let_def)

lemma ex_store: "state_store ex_db trie_good BytesToHash {ex_addr}"
  unfolding ex_db_def by (rule secure_db_state) (simp_all add: wf_node_db_def)

lemma ex_state_New: "state_New ex_db None zero_hash = Inr ex_state"
  by (simp add: ex_state_def state_New_def)

lemma ex_base [simp]: "sd_trie s = ex_trie \<Longrightarrow> sd_snap s = None \<Longrightarrow> base_data K ex_db s a = None"
  by (simp add: base_data_def)

lemma ex_fields [simp]: "sd_trie ex_state = ex_trie" "sd_snap ex_state = None" "sd_stateObjects ex_state = Map.empty"
  "sd_logs ex_state = Map.empty" "sd_journal ex_state = newJournal" "sd_validRevisions ex_state = []" "sd_nextRevisionId ex_state = 0"
  "sd_accessList ex_state = newAccessList" "sd_refund ex_state = 0"
  by (simp_all add: ex_state_def state_New_def)

lemma ex_ok: "sd_ok BytesToHash ex_db trie_good {ex_addr} ex_state"
  by (simp add: sd_ok_def newJournal_def trie_good_def ex_trie_def [symmetric]) (simp add: trie_good_def ex_trie_def)

lemmas ex_eval = Snapshot_def SetBalance_def GetOrNewStateObject_def getStateObject_def getDeletedStateObject_def createObject_def
  so_SetBalance_def so_setBalance_def so_setNonce_def newObject_def Account_zero_def setStateObject_def journal_append_def
  newJournal_def Suicide_def GetBalance_def markSuicided_def Let_def split_def

theorem RevertToSnapshot_restores_witness:
  "\<exists>s s1 s2 s3. exec_all BytesToHash ex_db [OpSetBalance ex_addr 5] ex_state = Some s \<and> Snapshot s = (0, s1) \<and>
    exec_all BytesToHash ex_db [OpSetBalance ex_addr 7, OpSnapshot, OpSuicide ex_addr] s1 = Some s2 \<and>
    RevertToSnapshot BytesToHash ex_db 0 s2 = Some s3 \<and>
    fst (GetBalance BytesToHash ex_db ex_addr s2) = 0 \<and> fst (GetBalance BytesToHash ex_db ex_addr s3) = 5"
proof -
  let ?xs = "[OpSetBalance ex_addr 5]" and ?ys = "[OpSetBalance ex_addr 7, OpSnapshot, OpSuicide ex_addr]"
  define s where "s = the (exec_all BytesToHash ex_db ?xs ex_state)"
  define s1 where "s1 = snd (Snapshot s)"
  define s2 where "s2 = the (exec_all BytesToHash ex_db ?ys s1)"
  have s: "exec_all BytesToHash ex_db ?xs ex_state = Some s" "Snapshot s = (0, s1)" "exec_all BytesToHash ex_db ?ys s1 = Some s2"
    "0 \<in> rev_id ` set (sd_validRevisions s2)"
    by (simp_all add: s_def s1_def s2_def ex_eval)
  have b: "fst (GetBalance BytesToHash ex_db ex_addr s) = 5" "fst (GetBalance BytesToHash ex_db ex_addr s2) = 0"
    by (simp_all add: s_def s1_def s2_def ex_eval)
  obtain s3 where "RevertToSnapshot BytesToHash ex_db 0 s2 = Some s3" "same_reads BytesToHash ex_db {ex_addr} s s3"
    using RevertToSnapshot_restores [OF ex_store ex_ok _ _ _ s] by auto
  then show ?thesis using s(1-3) b by (auto simp: same_reads_def)
qed

text \<open>
  The operations of a transaction panic in two cases only. After any operations, the
  next one panics exactly when it takes more from the refund counter than there is, or
  reverts to a revision that is not valid.
\<close>

theorem operations_panic:
  assumes "state_store db good K A" and "sd_ok K db good A s0" and "al_ok (sd_accessList s0)" and "sd_validRevisions s0 = []"
    and "\<forall>y\<in>set (x # xs). pred_option (\<lambda>a. a \<in> A) (op_addr y)" and "exec_all K db xs s0 = Some s"
  shows "exec K db x s = None \<longleftrightarrow>
    (\<exists>n. x = OpSubRefund n \<and> GetRefund s < n) \<or> (\<exists>i. x = OpRevert i \<and> i \<notin> rev_id ` set (sd_validRevisions s))"
proof -
  obtain H where "sd_ok K db good A s" "al_ok (sd_accessList s)" "hist K db A H s"
    using state_store.exec_all_hist [OF assms(1-3) hist_empty [OF assms(4)] _ assms(6)] assms(5) by (metis list.set_intros(2))
  from state_store.exec_panics [OF assms(1) this, of x] assms(5) show ?thesis by (simp add: GetRefund_def)
qed

theorem operations_panic_witness:
  "exec_all BytesToHash ex_db [OpAddRefund 3] ex_state \<noteq> None \<and>
    exec BytesToHash ex_db (OpSubRefund 4) (the (exec_all BytesToHash ex_db [OpAddRefund 3] ex_state)) = None \<and>
    exec BytesToHash ex_db (OpSubRefund 3) (the (exec_all BytesToHash ex_db [OpAddRefund 3] ex_state)) \<noteq> None"
proof -
  have s: "exec_all BytesToHash ex_db [OpAddRefund 3] ex_state = Some (AddRefund 3 ex_state)" by simp
  have r: "GetRefund (AddRefund 3 ex_state) = 3" by (simp add: GetRefund_def AddRefund_def)
  have "exec BytesToHash ex_db (OpSubRefund n) (AddRefund 3 ex_state) = None \<longleftrightarrow> 3 < n" for n
    using operations_panic [OF ex_store ex_ok _ _ _ s, of "OpSubRefund n"] by (simp add: r)
  then show ?thesis using s by simp
qed

subsection \<open>Reads after writes\<close>



text \<open>
  Storage keeps what is written. Writing a slot of an existing account does not fail;
  afterwards the slot has the written value, every other slot of every account its old one,
  and the committed storage, that of the last transaction, is as before.
\<close>

theorem SetState_then_GetState:
  assumes "state_store db good K A" and "sd_ok K db good A s" and "a \<in> A" and "b \<in> A" and "fst (Exist K db a s)"
  shows "\<exists>s'. SetState K db a key val s = Some s' \<and>
    map_option fst (GetState K db b key' s') = (if b = a \<and> key' = key then Some val else map_option fst (GetState K db b key' s)) \<and>
    map_option fst (GetCommittedState K db b key' s') = map_option fst (GetCommittedState K db b key' s)"
  using state_store.SetState_reads [OF assms(1-4)] state_store.reads_view(1) [OF assms(1-3)] assms(5) by blast

theorem SetState_then_GetState_witness:
  "fst (Exist BytesToHash ex_db ex_addr (SetBalance BytesToHash ex_db ex_addr 5 ex_state)) \<and>
   (\<exists>s'. SetState BytesToHash ex_db ex_addr [1] [2] (SetBalance BytesToHash ex_db ex_addr 5 ex_state) = Some s' \<and>
     map_option fst (GetState BytesToHash ex_db ex_addr [1] s') = Some [2])"
proof -
  let ?s = "SetBalance BytesToHash ex_db ex_addr 5 ex_state"
  have ok: "sd_ok BytesToHash ex_db trie_good {ex_addr} ?s"
    using state_store.setters_undo(3) [OF ex_store ex_ok] by blast
  have e: "fst (Exist BytesToHash ex_db ex_addr ?s)" by (simp add: ex_eval Exist_def)
  then show ?thesis using SetState_then_GetState [OF ex_store ok _ _ e, of ex_addr "[1]" "[2]" "[1]"] by auto
qed

subsection \<open>Reachable states\<close>


lemma ex_reach: "exec_all BytesToHash ex_db xs s = Some s' \<Longrightarrow> reachable BytesToHash ex_db None s \<Longrightarrow> reachable BytesToHash ex_db None s'"
proof (induction xs arbitrary: s)
  case (Cons x xs)
  then obtain s1 where s1: "exec BytesToHash ex_db x s = Some s1" "exec_all BytesToHash ex_db xs s1 = Some s'"
    by (auto split: option.splits)
  have "reachable BytesToHash ex_db None s1"
    by (rule reachable.more [OF Cons.prems(2) block_step.operation [OF s1(1)]])
  then show ?case by (rule Cons.IH [OF s1(2)])
qed simp


text \<open>
  C27. No loop over the pending or dirty addresses meets a missing object: in every state a
  block reaches, each of these addresses has a live object. So \<open>Copy\<close>, which dereferences
  them without a check, does not panic, and its result has the same property.
\<close>

theorem Copy_safe:
  assumes "reachable K db snaps s"
  shows "(\<forall>a. a \<in> sd_stateObjectsPending s \<union> sd_stateObjectsDirty s \<longrightarrow> sd_stateObjects s a \<noteq> None) \<and>
    (\<exists>s'. state_Copy K db s = Some s' \<and>
      (\<forall>a. a \<in> sd_stateObjectsPending s' \<union> sd_stateObjectsDirty s' \<longrightarrow> sd_stateObjects s' a \<noteq> None))"
proof -
  have sub: "sd_stateObjectsPending s \<subseteq> dom (sd_stateObjects s)" "sd_stateObjectsDirty s \<subseteq> dom (sd_stateObjects s)"
    using reachable_inv(1) [OF assms] by (simp_all add: objects_ok_def)
  then have live: "sd_stateObjects s a \<noteq> None" if "a \<in> sd_stateObjectsPending s \<union> sd_stateObjectsDirty s" for a
    using that by blast
  then show ?thesis using sub by (auto simp: state_Copy_def Let_def)
qed

theorem Copy_safe_witness:
  "sd_stateObjectsPending (Finalise BytesToHash False [ex_addr] (SetBalance BytesToHash ex_db ex_addr 5 ex_state)) = {ex_addr} \<and>
   state_Copy BytesToHash ex_db (Finalise BytesToHash False [ex_addr] (SetBalance BytesToHash ex_db ex_addr 5 ex_state)) \<noteq> None"
proof -
  let ?s = "SetBalance BytesToHash ex_db ex_addr 5 ex_state"
  have "exec_all BytesToHash ex_db [OpSetBalance ex_addr 5] ex_state = Some ?s" by simp
  then have r: "reachable BytesToHash ex_db None ?s"
    by (rule ex_reach) (rule reachable.initial [OF ex_state_New])
  have "set [ex_addr] = dom (j_dirties (sd_journal ?s))" by (simp add: ex_eval dirties_inc_def)
  then have "reachable BytesToHash ex_db None (Finalise BytesToHash False [ex_addr] ?s)"
    by (intro reachable.more [OF r] block_step.finalise)
  moreover have "sd_stateObjectsPending (Finalise BytesToHash False [ex_addr] ?s) = {ex_addr}"
    by (simp add: Finalise_def finalise_step_def clearJournalAndRefund_def ex_eval ex_state_def state_New_def)
  ultimately show ?thesis using Copy_safe [of BytesToHash ex_db None "Finalise BytesToHash False [ex_addr] ?s"] by auto
qed

subsection \<open>Finalising\<close>

text \<open>What a round of \<open>Finalise\<close> does to each part of the state.\<close>

definition fin_dead :: "(bytes \<Rightarrow> hash) \<Rightarrow> bool \<Rightarrow> 'tr stateObject \<Rightarrow> bool" where
  "fin_dead K del obj \<longleftrightarrow> so_suicided obj \<or> (del \<and> so_empty K obj)"

definition fin_hashes :: "(bytes \<Rightarrow> hash) \<Rightarrow> bool \<Rightarrow> address \<Rightarrow> 'tr StateDB \<Rightarrow> hash set" where
  "fin_hashes K del a s =
    (case sd_stateObjects s a of
       Some obj \<Rightarrow> if fin_dead K del obj \<and> sd_snap s \<noteq> None then {so_addrHash obj} else {}
     | None \<Rightarrow> {})"

definition fin_object :: "(bytes \<Rightarrow> hash) \<Rightarrow> bool \<Rightarrow> 'tr stateObject \<Rightarrow> 'tr stateObject" where
  "fin_object K del obj = (if fin_dead K del obj then obj\<lparr>so_deleted := True\<rparr> else so_finalise obj)"

lemma finalise_step_parts:
  "finalise_step K del a s =
    (let live = (case sd_stateObjects s a of None \<Rightarrow> {} | Some _ \<Rightarrow> {a}) in
     s\<lparr>sd_stateObjects := (\<lambda>b. if b = a then map_option (fin_object K del) (sd_stateObjects s a) else sd_stateObjects s b),
       sd_snapDestructs := sd_snapDestructs s \<union> fin_hashes K del a s,
       sd_snapAccounts := (\<lambda>h. if h \<in> fin_hashes K del a s then None else sd_snapAccounts s h),
       sd_snapStorage := (\<lambda>h. if h \<in> fin_hashes K del a s then None else sd_snapStorage s h),
       sd_stateObjectsPending := sd_stateObjectsPending s \<union> live,
       sd_stateObjectsDirty := sd_stateObjectsDirty s \<union> live\<rparr>)"
  by (cases "sd_stateObjects s a")
    (auto simp: finalise_step_def fin_hashes_def fin_object_def fin_dead_def Let_def fun_eq_iff intro!: StateDB.equality)

lemma finalise_step_commute:
  "finalise_step K del a \<circ> finalise_step K del b = finalise_step K del b \<circ> finalise_step K del a"
proof (cases "a = b")
  case False
  show ?thesis
  proof
    fix s :: "'a StateDB"
    have h: "fin_hashes K del c (finalise_step K del d s) = fin_hashes K del c s" if "c \<noteq> d" for c d
      using that unfolding finalise_step_parts fin_hashes_def Let_def by (simp cong: option.case_cong)
    show "(finalise_step K del a \<circ> finalise_step K del b) s = (finalise_step K del b \<circ> finalise_step K del a) s"
      unfolding o_apply finalise_step_parts [of K del a "finalise_step K del b s"]
        finalise_step_parts [of K del b "finalise_step K del a s"] h [OF False] h [OF False [symmetric]]
      using False by (intro StateDB.equality) (auto simp: finalise_step_parts [of K del _ s] Let_def fun_eq_iff)
  qed
qed simp

text \<open>
  C28. The order in which Go iterates over the dirty addresses does not matter: \<open>Finalise\<close>
  has the same result for every order of the journal's addresses.
\<close>

theorem Finalise_order:
  assumes "set order = dom (j_dirties (sd_journal s))" "distinct order"
    and "set order' = dom (j_dirties (sd_journal s))" "distinct order'"
  shows "Finalise K del order s = Finalise K del order' s"
proof -
  have "mset order = mset order'" 
    using assms set_eq_iff_mset_eq_distinct [of order order'] by simp
  note eq = fold_multiset_equiv [OF finalise_step_commute this]
  show ?thesis by (simp only: Finalise_def eq)
qed

lemma ex_dirties:
  "set [ex_addr, ripemd] = dom (j_dirties (sd_journal (journal_dirty ripemd (SetBalance BytesToHash ex_db ex_addr 5 ex_state))))"
  by (auto simp: ex_eval dirties_inc_def journal_dirty_def split: if_splits)

theorem Finalise_order_witness:
  "Finalise BytesToHash True [ex_addr, ripemd] (journal_dirty ripemd (SetBalance BytesToHash ex_db ex_addr 5 ex_state)) =
   Finalise BytesToHash True [ripemd, ex_addr] (journal_dirty ripemd (SetBalance BytesToHash ex_db ex_addr 5 ex_state))"
proof (rule Finalise_order)
  have "hd ripemd \<noteq> hd ex_addr \<or> last ripemd \<noteq> last ex_addr" by (simp add: ripemd_def ex_addr_def)
  then have "ex_addr \<noteq> ripemd" by auto
  then show "distinct [ex_addr, ripemd]" "distinct [ripemd, ex_addr]" by auto
qed (use ex_dirties in auto)

subsection \<open>The refund counter\<close>

text \<open>
  The refund counter is a 64-bit word and \<open>AddRefund\<close> does not check it: taking back
  what was just added panics exactly when the addition wrapped around, and otherwise gives
  the old counter.
\<close>

theorem refund_bounds:
  "(SubRefund n (AddRefund n s) = None \<longleftrightarrow> 2 ^ 64 \<le> unat (GetRefund s) + unat n) \<and>
   unat (GetRefund (AddRefund n s)) = (unat (GetRefund s) + unat n) mod 2 ^ 64 \<and>
   pred_option (\<lambda>s'. GetRefund s' = GetRefund s) (SubRefund n (AddRefund n s))"
proof -
  have b: "unat (sd_refund s) < 2 ^ 64" "unat n < 2 ^ 64"
    using unsigned_less [of "sd_refund s"] unsigned_less [of n] by simp_all
  have u: "unat (sd_refund s + n) = (unat (sd_refund s) + unat n) mod 2 ^ 64"
    by (simp add: unat_word_ariths)
  have "sd_refund s + n < n \<longleftrightarrow> 2 ^ 64 \<le> unat (sd_refund s) + unat n"
  proof (cases "unat (sd_refund s) + unat n < 2 ^ 64")
    case True
    then show ?thesis unfolding word_less_nat_alt u by simp
  next
    case False
    then have "unat (sd_refund s) + unat n - 2 ^ 64 < 2 ^ 64" using b by linarith
    then have "(unat (sd_refund s) + unat n) mod 2 ^ 64 = unat (sd_refund s) + unat n - 2 ^ 64"
      using False by (subst le_mod_geq) (simp_all only: not_less mod_less)
    moreover have "unat (sd_refund s) + unat n - 2 ^ 64 < unat n" using False b(1) by linarith
    ultimately show ?thesis unfolding word_less_nat_alt u using False by simp
  qed
  then show ?thesis using u by (auto simp: SubRefund_def AddRefund_def GetRefund_def journal_append_def Let_def)
qed

end
