(* ===== verification/Rawdb_State.thy ===== *)
theory Rawdb_State
  imports State_Database
begin

section \<open>Contract code and trie nodes on disk\<close>

text \<open>
  \<open>src/core/rawdb/accessors_state.go\<close> with its keys of \<open>src/core/rawdb/schema.go\<close>, and the
  code caches of \<open>cachingDB\<close> in \<open>src/core/state/database.go\<close>. The key-value store behind
  \<open>fourtwentydb.KeyValueReader\<close> and \<open>fourtwentydb.KeyValueWriter\<close> is a finite map: an error of a
  read leaves nil data, as the accessors do, and a failed write ends the process.
\<close>

type_synonym kv_store = "bytes \<rightharpoonup> bytes"

abbreviation kv_Get :: "kv_store \<Rightarrow> bytes \<Rightarrow> bytes" where
  "kv_Get db key \<equiv> (case db key of None \<Rightarrow> [] | Some data \<Rightarrow> data)"

subsection \<open>Keys\<close>

abbreviation codePrefix :: bytes where
  "codePrefix \<equiv> [0x63]"

abbreviation preimagePrefix :: bytes where
  "preimagePrefix \<equiv> [0x73, 0x65, 0x63, 0x75, 0x72, 0x65, 0x2D, 0x6B, 0x65, 0x79, 0x2D]"

definition preimageKey :: "hash \<Rightarrow> bytes" where
  "preimageKey hash = preimagePrefix @ hash"

definition codeKey :: "hash \<Rightarrow> bytes" where
  "codeKey hash = codePrefix @ hash"

definition IsCodeKey :: "bytes \<Rightarrow> bool \<times> bytes" where
  "IsCodeKey key =
    (if take (length codePrefix) key = codePrefix \<and> length key = 32 + length codePrefix
     then (True, drop (length codePrefix) key) else (False, []))"

subsection \<open>Accessors\<close>

definition ReadPreimage :: "kv_store \<Rightarrow> hash \<Rightarrow> bytes" where
  "ReadPreimage db hash = kv_Get db (preimageKey hash)"

text \<open>\<open>WritePreimages\<close>, with the entries of the map in the order they are iterated.\<close>

definition WritePreimages :: "kv_store \<Rightarrow> (hash \<times> bytes) list \<Rightarrow> kv_store" where
  "WritePreimages db preimages = fold (\<lambda>(hash, preimage) db. db(preimageKey hash \<mapsto> preimage)) preimages db"

definition ReadCodeWithPrefix :: "kv_store \<Rightarrow> hash \<Rightarrow> bytes" where
  "ReadCodeWithPrefix db hash = kv_Get db (codeKey hash)"

definition ReadCode :: "kv_store \<Rightarrow> hash \<Rightarrow> bytes" where
  "ReadCode db hash =
    (let data = kv_Get db hash
     in if length data \<noteq> 0 then data else ReadCodeWithPrefix db hash)"

definition WriteCode :: "kv_store \<Rightarrow> hash \<Rightarrow> bytes \<Rightarrow> kv_store" where
  "WriteCode db hash code = db(codeKey hash \<mapsto> code)"

definition DeleteCode :: "kv_store \<Rightarrow> hash \<Rightarrow> kv_store" where
  "DeleteCode db hash = db(codeKey hash := None)"

definition ReadTrieNode :: "kv_store \<Rightarrow> hash \<Rightarrow> bytes" where
  "ReadTrieNode db hash = kv_Get db hash"

definition WriteTrieNode :: "kv_store \<Rightarrow> hash \<Rightarrow> bytes \<Rightarrow> kv_store" where
  "WriteTrieNode db hash node = db(hash \<mapsto> node)"

definition DeleteTrieNode :: "kv_store \<Rightarrow> hash \<Rightarrow> kv_store" where
  "DeleteTrieNode db hash = db(hash := None)"

subsection \<open>The code caches\<close>

text \<open>
  \<open>codeCache\<close> and \<open>codeSizeCache\<close>. Both may drop any entry at any time; an entry that is not
  there, or empty, is not used.
\<close>

record code_caches =
  cc_code :: "hash \<rightharpoonup> bytes"
  cc_size :: "hash \<rightharpoonup> nat"

definition cached_code :: "(kv_store \<Rightarrow> hash \<Rightarrow> bytes) \<Rightarrow> kv_store \<Rightarrow> hash \<Rightarrow> code_caches \<Rightarrow> (db_err + bytes) \<times> code_caches" where
  "cached_code read db codeHash c =
    (let code = (case cc_code c codeHash of None \<Rightarrow> [] | Some code \<Rightarrow> code)
     in if 0 < length code then (Inr code, c)
        else let code = read db codeHash
             in if 0 < length code
                then (Inr code, c\<lparr>cc_code := (cc_code c)(codeHash \<mapsto> code), cc_size := (cc_size c)(codeHash \<mapsto> length code)\<rparr>)
                else (Inl DBNotFound, c))"

definition ContractCode :: "kv_store \<Rightarrow> hash \<Rightarrow> code_caches \<Rightarrow> (db_err + bytes) \<times> code_caches" where
  "ContractCode = cached_code ReadCode"

definition ContractCodeWithPrefix :: "kv_store \<Rightarrow> hash \<Rightarrow> code_caches \<Rightarrow> (db_err + bytes) \<times> code_caches" where
  "ContractCodeWithPrefix = cached_code ReadCodeWithPrefix"

definition ContractCodeSize :: "kv_store \<Rightarrow> hash \<Rightarrow> code_caches \<Rightarrow> (db_err + nat) \<times> code_caches" where
  "ContractCodeSize db codeHash c =
    (case cc_size c codeHash of
       Some n \<Rightarrow> (Inr n, c)
     | None \<Rightarrow> apfst (map_sum id length) (ContractCode db codeHash c))"

subsection \<open>Keys do not clash\<close>

lemma key_lengths: "length (codeKey h) = 1 + length h" "length (preimageKey h) = 11 + length h"
  by (simp_all add: codeKey_def preimageKey_def)

lemma keys_inj [simp]: "codeKey h = codeKey h' \<longleftrightarrow> h = h'" "preimageKey h = preimageKey h' \<longleftrightarrow> h = h'"
  by (simp_all add: codeKey_def preimageKey_def)

lemma keys_disjoint:
  assumes "length h = 32" "length h' = 32"
  shows "codeKey h \<noteq> h'" "preimageKey h \<noteq> h'" "codeKey h \<noteq> preimageKey h'"
  using assms key_lengths [of h] key_lengths [of h'] by (auto dest: arg_cong [where f = length])

lemma WritePreimages_get:
  "(\<And>h p. (h, p) \<in> set ps \<Longrightarrow> preimageKey h \<noteq> key) \<Longrightarrow> WritePreimages db ps key = db key"
proof (induction ps arbitrary: db)
  case (Cons x ps)
  obtain h p where x: "x = (h, p)" by (cases x)
  have "WritePreimages db (x # ps) key = WritePreimages (db(preimageKey h \<mapsto> p)) ps key"
    by (simp add: WritePreimages_def x)
  also have "\<dots> = (db(preimageKey h \<mapsto> p)) key" by (rule Cons.IH) (use Cons.prems in auto)
  also have "\<dots> = db key" using Cons.prems [of h p] by (simp add: x)
  finally show ?case .
qed (simp add: WritePreimages_def)



subsection \<open>Cached reads\<close>

text \<open>The caches hold what is in the database.\<close>

definition coherent :: "kv_store \<Rightarrow> code_caches \<Rightarrow> bool" where
  "coherent db c \<longleftrightarrow>
    (\<forall>h code. cc_code c h = Some code \<longrightarrow> code \<noteq> [] \<longrightarrow> code = ReadCode db h) \<and>
    (\<forall>h n. cc_size c h = Some n \<longrightarrow> ReadCode db h \<noteq> [] \<and> n = length (ReadCode db h))"

lemma coherentD:
  assumes "coherent db c"
  shows "cc_code c h = Some code \<Longrightarrow> code \<noteq> [] \<Longrightarrow> ReadCode db h = code"
    "cc_size c h = Some n \<Longrightarrow> ReadCode db h \<noteq> [] \<and> length (ReadCode db h) = n"
  using assms unfolding coherent_def by blast+

lemma coherent_evict:
  "coherent db c \<Longrightarrow> cc_code c' \<subseteq>\<^sub>m cc_code c \<Longrightarrow> cc_size c' \<subseteq>\<^sub>m cc_size c \<Longrightarrow> coherent db c'"
  by (auto simp: coherent_def map_le_def dom_def)

lemma coherent_ContractCode:
  assumes "coherent db c"
  shows "fst (ContractCode db h c) = db_ContractCode (cachingDB K ndb (ReadCode db)) a h" (is "_ = ?r")
    "coherent db (snd (ContractCode db h c))"
proof -
  have r: "?r = (if ReadCode db h = [] then Inl DBNotFound else Inr (ReadCode db h))"
    by (simp add: cachingDB_def Let_def)
  consider code where "cc_code c h = Some code" "code \<noteq> []" "ReadCode db h = code" | "case_option [] id (cc_code c h) = []"
    using coherentD(1) [OF assms] by (cases "cc_code c h") auto
  then have "ContractCode db h c =
    (?r, if case_option [] id (cc_code c h) = [] \<and> ReadCode db h \<noteq> []
         then c\<lparr>cc_code := (cc_code c)(h \<mapsto> ReadCode db h), cc_size := (cc_size c)(h \<mapsto> length (ReadCode db h))\<rparr> else c)"
    unfolding r by cases (auto simp: ContractCode_def cached_code_def Let_def split: option.splits)
  then show "fst (ContractCode db h c) = ?r" "coherent db (snd (ContractCode db h c))"
    using assms by (simp_all add: coherent_def)
qed

datatype code_read = ReadsCode hash | ReadsSize hash | Evicts "hash set" "hash set"

fun code_reads :: "kv_store \<Rightarrow> code_read list \<Rightarrow> code_caches \<Rightarrow> code_caches" where
  "code_reads db [] c = c"
| "code_reads db (ReadsCode h # rs) c = code_reads db rs (snd (ContractCode db h c))"
| "code_reads db (ReadsSize h # rs) c = code_reads db rs (snd (ContractCodeSize db h c))"
| "code_reads db (Evicts hs hs' # rs) c =
    code_reads db rs \<lparr>cc_code = (\<lambda>h. if h \<in> hs then None else cc_code c h), cc_size = (\<lambda>h. if h \<in> hs' then None else cc_size c h)\<rparr>"

lemma coherent_ContractCodeSize:
  assumes "coherent db c"
  shows "fst (ContractCodeSize db h c) = db_ContractCodeSize (cachingDB K ndb (ReadCode db)) a h"
    "coherent db (snd (ContractCodeSize db h c))"
proof -
  have "db_ContractCodeSize (cachingDB K ndb (ReadCode db)) a h = map_sum id length (db_ContractCode (cachingDB K ndb (ReadCode db)) a h)"
    by (simp add: cachingDB_def Let_def)
  then show "fst (ContractCodeSize db h c) = db_ContractCodeSize (cachingDB K ndb (ReadCode db)) a h"
    using coherentD(2) [OF assms, of h] coherent_ContractCode(1) [OF assms, of h K ndb a]
    by (cases "cc_size c h") (simp_all add: ContractCodeSize_def cachingDB_def Let_def)
  show "coherent db (snd (ContractCodeSize db h c))"
    using assms coherent_ContractCode(2) [OF assms] by (auto simp: ContractCodeSize_def split: option.splits)
qed

lemma coherent_reads: "coherent db c \<Longrightarrow> coherent db (code_reads db rs c)"
proof (induction db rs c rule: code_reads.induct)
  case (4 db hs hs' rs c)
  have "coherent db \<lparr>cc_code = (\<lambda>h. if h \<in> hs then None else cc_code c h), cc_size = (\<lambda>h. if h \<in> hs' then None else cc_size c h)\<rparr>"
    by (rule coherent_evict [OF "4.prems"]) (auto simp: map_le_def dom_def)
  with 4 show ?case by simp
qed (simp_all add: coherent_ContractCode(2) coherent_ContractCodeSize(2))


end
