(* ===== verification/Params_Config.thy ===== *)
theory Params_Config
  imports Go_Prelude
begin

section \<open>Chain configurations\<close>

text \<open>
  \<open>ChainConfig\<close> of \<open>src/params/config.go\<close>: the blocks at which the forks of a network are
  active, the rules at a block, and the check whether a new configuration may replace a
  stored one. A nil block number is \<open>None\<close>; block numbers are unbounded integers, and the
  height of the chain is a 64-bit word.
\<close>

record ChainConfig =
  cfg_ChainID :: "int option"
  cfg_HomesteadBlock :: "int option"
  cfg_DAOForkBlock :: "int option"
  cfg_DAOForkSupport :: bool
  cfg_EIP150Block :: "int option"
  cfg_EIP150Hash :: bytes
  cfg_EIP155Block :: "int option"
  cfg_EIP158Block :: "int option"
  cfg_ByzantiumBlock :: "int option"
  cfg_ConstantinopleBlock :: "int option"
  cfg_PetersburgBlock :: "int option"
  cfg_IstanbulBlock :: "int option"
  cfg_MuirGlacierBlock :: "int option"
  cfg_YoloV2Block :: "int option"
  cfg_EWASMBlock :: "int option"

fun isForked :: "int option \<Rightarrow> int option \<Rightarrow> bool" where
  "isForked (Some s) (Some head) = (s \<le> head)"
| "isForked _ _ = False"

abbreviation IsHomestead :: "ChainConfig \<Rightarrow> int option \<Rightarrow> bool" where
  "IsHomestead c num \<equiv> isForked (cfg_HomesteadBlock c) num"

abbreviation IsDAOFork :: "ChainConfig \<Rightarrow> int option \<Rightarrow> bool" where
  "IsDAOFork c num \<equiv> isForked (cfg_DAOForkBlock c) num"

abbreviation IsEIP150 :: "ChainConfig \<Rightarrow> int option \<Rightarrow> bool" where
  "IsEIP150 c num \<equiv> isForked (cfg_EIP150Block c) num"

abbreviation IsEIP155 :: "ChainConfig \<Rightarrow> int option \<Rightarrow> bool" where
  "IsEIP155 c num \<equiv> isForked (cfg_EIP155Block c) num"

abbreviation IsEIP158 :: "ChainConfig \<Rightarrow> int option \<Rightarrow> bool" where
  "IsEIP158 c num \<equiv> isForked (cfg_EIP158Block c) num"

abbreviation IsByzantium :: "ChainConfig \<Rightarrow> int option \<Rightarrow> bool" where
  "IsByzantium c num \<equiv> isForked (cfg_ByzantiumBlock c) num"

abbreviation IsConstantinople :: "ChainConfig \<Rightarrow> int option \<Rightarrow> bool" where
  "IsConstantinople c num \<equiv> isForked (cfg_ConstantinopleBlock c) num"

abbreviation IsMuirGlacier :: "ChainConfig \<Rightarrow> int option \<Rightarrow> bool" where
  "IsMuirGlacier c num \<equiv> isForked (cfg_MuirGlacierBlock c) num"

definition IsPetersburg :: "ChainConfig \<Rightarrow> int option \<Rightarrow> bool" where
  "IsPetersburg c num =
    (isForked (cfg_PetersburgBlock c) num \<or> (cfg_PetersburgBlock c = None \<and> isForked (cfg_ConstantinopleBlock c) num))"

abbreviation IsIstanbul :: "ChainConfig \<Rightarrow> int option \<Rightarrow> bool" where
  "IsIstanbul c num \<equiv> isForked (cfg_IstanbulBlock c) num"

abbreviation IsYoloV2 :: "ChainConfig \<Rightarrow> int option \<Rightarrow> bool" where
  "IsYoloV2 c num \<equiv> isForked (cfg_YoloV2Block c) num"

abbreviation IsEWASM :: "ChainConfig \<Rightarrow> int option \<Rightarrow> bool" where
  "IsEWASM c num \<equiv> isForked (cfg_EWASMBlock c) num"

record Rules =
  r_ChainID :: int
  r_IsHomestead :: bool
  r_IsEIP150 :: bool
  r_IsEIP155 :: bool
  r_IsEIP158 :: bool
  r_IsByzantium :: bool
  r_IsConstantinople :: bool
  r_IsPetersburg :: bool
  r_IsIstanbul :: bool
  r_IsYoloV2 :: bool

definition config_Rules :: "ChainConfig \<Rightarrow> int option \<Rightarrow> Rules" where
  "config_Rules c num =
    \<lparr>r_ChainID = (case cfg_ChainID c of None \<Rightarrow> 0 | Some i \<Rightarrow> i),
     r_IsHomestead = IsHomestead c num, r_IsEIP150 = IsEIP150 c num, r_IsEIP155 = IsEIP155 c num,
     r_IsEIP158 = IsEIP158 c num, r_IsByzantium = IsByzantium c num, r_IsConstantinople = IsConstantinople c num,
     r_IsPetersburg = IsPetersburg c num, r_IsIstanbul = IsIstanbul c num, r_IsYoloV2 = IsYoloV2 c num\<rparr>"

subsection \<open>The order of forks\<close>

record fork =
  fk_name :: string
  fk_block :: "int option"
  fk_optional :: bool

definition config_forks :: "ChainConfig \<Rightarrow> fork list" where
  "config_forks c =
    [\<lparr>fk_name = ''homesteadBlock'', fk_block = cfg_HomesteadBlock c, fk_optional = False\<rparr>,
     \<lparr>fk_name = ''daoForkBlock'', fk_block = cfg_DAOForkBlock c, fk_optional = True\<rparr>,
     \<lparr>fk_name = ''eip150Block'', fk_block = cfg_EIP150Block c, fk_optional = False\<rparr>,
     \<lparr>fk_name = ''eip155Block'', fk_block = cfg_EIP155Block c, fk_optional = False\<rparr>,
     \<lparr>fk_name = ''eip158Block'', fk_block = cfg_EIP158Block c, fk_optional = False\<rparr>,
     \<lparr>fk_name = ''byzantiumBlock'', fk_block = cfg_ByzantiumBlock c, fk_optional = False\<rparr>,
     \<lparr>fk_name = ''constantinopleBlock'', fk_block = cfg_ConstantinopleBlock c, fk_optional = False\<rparr>,
     \<lparr>fk_name = ''petersburgBlock'', fk_block = cfg_PetersburgBlock c, fk_optional = False\<rparr>,
     \<lparr>fk_name = ''istanbulBlock'', fk_block = cfg_IstanbulBlock c, fk_optional = False\<rparr>,
     \<lparr>fk_name = ''muirGlacierBlock'', fk_block = cfg_MuirGlacierBlock c, fk_optional = True\<rparr>,
     \<lparr>fk_name = ''yoloV2Block'', fk_block = cfg_YoloV2Block c, fk_optional = False\<rparr>]"

datatype fork_err = ForkSkipped string string int | ForkOrder string int string int

definition fork_check :: "fork \<Rightarrow> fork \<Rightarrow> fork_err option" where
  "fork_check lastFork cur =
    (if fk_name lastFork = [] then None
     else case (fk_block lastFork, fk_block cur) of
            (None, Some n) \<Rightarrow> Some (ForkSkipped (fk_name lastFork) (fk_name cur) n)
          | (Some m, Some n) \<Rightarrow> if n < m then Some (ForkOrder (fk_name lastFork) m (fk_name cur) n) else None
          | _ \<Rightarrow> None)"

fun forkOrder_loop :: "fork list \<Rightarrow> fork \<Rightarrow> fork_err option" where
  "forkOrder_loop [] lastFork = None"
| "forkOrder_loop (cur # forks) lastFork =
    (case fork_check lastFork cur of
       Some e \<Rightarrow> Some e
     | None \<Rightarrow> forkOrder_loop forks (if \<not> fk_optional cur \<or> fk_block cur \<noteq> None then cur else lastFork))"

definition CheckConfigForkOrder :: "ChainConfig \<Rightarrow> fork_err option" where
  "CheckConfigForkOrder c = forkOrder_loop (config_forks c) \<lparr>fk_name = [], fk_block = None, fk_optional = False\<rparr>"

subsection \<open>Compatibility\<close>

record ConfigCompatError =
  ce_What :: string
  ce_StoredConfig :: "int option"
  ce_NewConfig :: "int option"
  ce_RewindTo :: uint64

fun configNumEqual :: "int option \<Rightarrow> int option \<Rightarrow> bool" where
  "configNumEqual None y = (y = None)"
| "configNumEqual (Some x) None = False"
| "configNumEqual (Some x) (Some y) = (x = y)"

definition isForkIncompatible :: "int option \<Rightarrow> int option \<Rightarrow> int option \<Rightarrow> bool" where
  "isForkIncompatible s1 s2 head = ((isForked s1 head \<or> isForked s2 head) \<and> \<not> configNumEqual s1 s2)"

definition newCompatError :: "string \<Rightarrow> int option \<Rightarrow> int option \<Rightarrow> ConfigCompatError" where
  "newCompatError what storedblock newblock =
    (let rew = (case storedblock of
                  None \<Rightarrow> newblock
                | Some s \<Rightarrow> (case newblock of None \<Rightarrow> storedblock | Some n \<Rightarrow> if s < n then storedblock else newblock))
     in \<lparr>ce_What = what, ce_StoredConfig = storedblock, ce_NewConfig = newblock,
         ce_RewindTo = (case rew of Some r \<Rightarrow> if 0 < r then word_of_int r - 1 else 0 | None \<Rightarrow> 0)\<rparr>)"

definition checkCompatible :: "ChainConfig \<Rightarrow> ChainConfig \<Rightarrow> int option \<Rightarrow> ConfigCompatError option" where
  "checkCompatible c newcfg head =
    (if isForkIncompatible (cfg_HomesteadBlock c) (cfg_HomesteadBlock newcfg) head
     then Some (newCompatError ''Homestead fork block'' (cfg_HomesteadBlock c) (cfg_HomesteadBlock newcfg))
     else if isForkIncompatible (cfg_DAOForkBlock c) (cfg_DAOForkBlock newcfg) head
     then Some (newCompatError ''DAO fork block'' (cfg_DAOForkBlock c) (cfg_DAOForkBlock newcfg))
     else if IsDAOFork c head \<and> cfg_DAOForkSupport c \<noteq> cfg_DAOForkSupport newcfg
     then Some (newCompatError ''DAO fork support flag'' (cfg_DAOForkBlock c) (cfg_DAOForkBlock newcfg))
     else if isForkIncompatible (cfg_EIP150Block c) (cfg_EIP150Block newcfg) head
     then Some (newCompatError ''EIP150 fork block'' (cfg_EIP150Block c) (cfg_EIP150Block newcfg))
     else if isForkIncompatible (cfg_EIP155Block c) (cfg_EIP155Block newcfg) head
     then Some (newCompatError ''EIP155 fork block'' (cfg_EIP155Block c) (cfg_EIP155Block newcfg))
     else if isForkIncompatible (cfg_EIP158Block c) (cfg_EIP158Block newcfg) head
     then Some (newCompatError ''EIP158 fork block'' (cfg_EIP158Block c) (cfg_EIP158Block newcfg))
     else if IsEIP158 c head \<and> \<not> configNumEqual (cfg_ChainID c) (cfg_ChainID newcfg)
     then Some (newCompatError ''EIP158 chain ID'' (cfg_EIP158Block c) (cfg_EIP158Block newcfg))
     else if isForkIncompatible (cfg_ByzantiumBlock c) (cfg_ByzantiumBlock newcfg) head
     then Some (newCompatError ''Byzantium fork block'' (cfg_ByzantiumBlock c) (cfg_ByzantiumBlock newcfg))
     else if isForkIncompatible (cfg_ConstantinopleBlock c) (cfg_ConstantinopleBlock newcfg) head
     then Some (newCompatError ''Constantinople fork block'' (cfg_ConstantinopleBlock c) (cfg_ConstantinopleBlock newcfg))
     else if isForkIncompatible (cfg_PetersburgBlock c) (cfg_PetersburgBlock newcfg) head \<and>
             isForkIncompatible (cfg_ConstantinopleBlock c) (cfg_PetersburgBlock newcfg) head
     then Some (newCompatError ''Petersburg fork block'' (cfg_PetersburgBlock c) (cfg_PetersburgBlock newcfg))
     else if isForkIncompatible (cfg_IstanbulBlock c) (cfg_IstanbulBlock newcfg) head
     then Some (newCompatError ''Istanbul fork block'' (cfg_IstanbulBlock c) (cfg_IstanbulBlock newcfg))
     else if isForkIncompatible (cfg_MuirGlacierBlock c) (cfg_MuirGlacierBlock newcfg) head
     then Some (newCompatError ''Muir Glacier fork block'' (cfg_MuirGlacierBlock c) (cfg_MuirGlacierBlock newcfg))
     else if isForkIncompatible (cfg_YoloV2Block c) (cfg_YoloV2Block newcfg) head
     then Some (newCompatError ''YOLOv2 fork block'' (cfg_YoloV2Block c) (cfg_YoloV2Block newcfg))
     else if isForkIncompatible (cfg_EWASMBlock c) (cfg_EWASMBlock newcfg) head
     then Some (newCompatError ''ewasm fork block'' (cfg_EWASMBlock c) (cfg_EWASMBlock newcfg))
     else None)"

text \<open>
  A conflict is due to a fork at or below the head, and the chain is rewound to a block
  before it, or to the genesis block.
\<close>

lemma isForked_word: "isForked s (Some (uint (head :: uint64))) \<longleftrightarrow> (\<exists>n. s = Some n \<and> n \<le> uint head)"
  by (cases s) simp_all

lemma newCompatError_rewind:
  fixes head :: uint64
  assumes "isForked s1 (Some (uint head)) \<or> isForked s2 (Some (uint head))"
  shows "ce_RewindTo (newCompatError what s1 s2) = 0 \<or> ce_RewindTo (newCompatError what s1 s2) < head"
proof -
  define rew where "rew = (case s1 of None \<Rightarrow> s2 | Some s \<Rightarrow> (case s2 of None \<Rightarrow> s1 | Some n \<Rightarrow> if s < n then s1 else s2))"
  have "\<exists>r. rew = Some r \<and> r \<le> uint head"
    using assms by (cases s1; cases s2) (auto simp: rew_def)
  then obtain r where r: "rew = Some r" "r \<le> uint head" by blast
  have "(word_of_int r :: uint64) - 1 < head" if "0 < r"
  proof -
    have lt: "r < 2 ^ 64" using r(2) uint_bounded [of head] by simp
    have "uint ((word_of_int r :: uint64) - 1) = r - 1"
      using that lt by (simp add: uint_word_ariths uint_word_of_int take_bit_eq_mod mod_pos_pos_trivial)
    then show ?thesis using r(2) by (simp add: word_less_def)
  qed
  then show ?thesis using r(1) by (simp add: newCompatError_def rew_def [symmetric])
qed

lemma incompatible_forked: "isForkIncompatible s1 s2 head \<Longrightarrow> isForked s1 head \<or> isForked s2 head"
  by (simp add: isForkIncompatible_def)

lemma checkCompatible_rewind:
  fixes head :: uint64
  assumes "checkCompatible c newcfg (Some (uint head)) = Some err"
  shows "ce_RewindTo err = 0 \<or> ce_RewindTo err < head"
proof -
  have "\<exists>what s1 s2. err = newCompatError what s1 s2 \<and> (isForked s1 (Some (uint head)) \<or> isForked s2 (Some (uint head)))"
    using assms by (auto simp: checkCompatible_def dest: incompatible_forked split: if_splits)
  then show ?thesis using newCompatError_rewind by blast
qed

function compatible_loop :: "ChainConfig \<Rightarrow> ChainConfig \<Rightarrow> uint64 \<Rightarrow> ConfigCompatError option \<Rightarrow> ConfigCompatError option" where
  "compatible_loop c newcfg bhead lasterr =
    (case checkCompatible c newcfg (Some (uint bhead)) of
       None \<Rightarrow> lasterr
     | Some err \<Rightarrow>
         (if lasterr \<noteq> None \<and> ce_RewindTo err = ce_RewindTo (the lasterr) then lasterr
          else compatible_loop c newcfg (ce_RewindTo err) (Some err)))"
  by auto
termination
proof (relation "measure (\<lambda>(c, newcfg, bhead, lasterr).
    2 * unat bhead + (if map_option ce_RewindTo lasterr = Some bhead then 0 else 1))", goal_cases)
  case (2 c newcfg bhead lasterr err)
  from checkCompatible_rewind [OF 2(1)] 2(2) show ?case
    by (cases lasterr; cases "bhead = 0") (auto simp: word_less_nat_alt unat_gt_0)
qed simp

declare compatible_loop.simps [simp del]

definition CheckCompatible :: "ChainConfig \<Rightarrow> ChainConfig \<Rightarrow> uint64 \<Rightarrow> ConfigCompatError option" where
  "CheckCompatible c newcfg height = compatible_loop c newcfg height None"

subsection \<open>Properties\<close>

lemma compatible_loop_correct:
  assumes "map_option ce_RewindTo lasterr = Some bhead"
  shows "\<exists>e. compatible_loop c newcfg bhead lasterr = Some e \<and> ce_RewindTo e \<le> bhead \<and>
    (ce_RewindTo e = 0 \<or> checkCompatible c newcfg (Some (uint (ce_RewindTo e))) = None)"
  using assms
proof (induction c newcfg bhead lasterr rule: compatible_loop.induct)
  case (1 c newcfg bhead lasterr)
  obtain l where l: "lasterr = Some l" "ce_RewindTo l = bhead" using "1.prems" by auto
  show ?case
  proof (cases "checkCompatible c newcfg (Some (uint bhead))")
    case None
    then show ?thesis using l by (subst compatible_loop.simps) simp
  next
    case (Some err)
    note r = checkCompatible_rewind [OF Some]
    show ?thesis
    proof (cases "ce_RewindTo err = bhead")
      case True
      then have "bhead = 0" using r by auto
      then show ?thesis using Some l True by (subst compatible_loop.simps) simp
    next
      case False
      then have "compatible_loop c newcfg bhead lasterr = compatible_loop c newcfg (ce_RewindTo err) (Some err)"
        using Some l by (subst compatible_loop.simps) simp
      moreover have "ce_RewindTo err \<le> bhead" using r by auto
      ultimately show ?thesis using "1.IH" [OF Some] False l by fastforce
    qed
  qed
qed


text \<open>
  C36. The rules of a configuration with a valid fork order are cumulative: at every block,
  a fork is active only if all earlier mandatory forks are, so that the switches over the
  newest active fork select the right table.
\<close>

theorem Rules_cumulative:
  assumes "CheckConfigForkOrder c = None"
  shows "let r = config_Rules c num in
    (r_IsYoloV2 r \<longrightarrow> r_IsIstanbul r) \<and> (r_IsIstanbul r \<longrightarrow> r_IsPetersburg r) \<and> (r_IsPetersburg r \<longrightarrow> r_IsConstantinople r) \<and>
    (r_IsConstantinople r \<longrightarrow> r_IsByzantium r) \<and> (r_IsByzantium r \<longrightarrow> r_IsEIP158 r) \<and> (r_IsEIP158 r \<longrightarrow> r_IsEIP155 r) \<and>
    (r_IsEIP155 r \<longrightarrow> r_IsEIP150 r) \<and> (r_IsEIP150 r \<longrightarrow> r_IsHomestead r)"
proof -
  define ordered :: "int option \<Rightarrow> int option \<Rightarrow> bool" where
    "ordered x y = (case (x, y) of (None, Some _) \<Rightarrow> False | (Some m, Some n) \<Rightarrow> m \<le> n | _ \<Rightarrow> True)" for x y
  have step: "forkOrder_loop (cur # forks) last = None \<longleftrightarrow>
      (fk_name last = [] \<or> ordered (fk_block last) (fk_block cur)) \<and>
      forkOrder_loop forks (if \<not> fk_optional cur \<or> fk_block cur \<noteq> None then cur else last) = None" for cur forks last
    by (auto simp: fork_check_def ordered_def split: option.splits if_splits)
  have trans: "ordered x y \<Longrightarrow> ordered y z \<Longrightarrow> ordered x z" for x y z
    by (auto simp: ordered_def split: option.splits)
  have mono: "ordered x y \<Longrightarrow> isForked y num \<Longrightarrow> isForked x num" for x y
    by (cases x; cases y; cases num) (auto simp: ordered_def)
  have o: "ordered (cfg_HomesteadBlock c) (cfg_EIP150Block c)" "ordered (cfg_EIP150Block c) (cfg_EIP155Block c)"
    "ordered (cfg_EIP155Block c) (cfg_EIP158Block c)" "ordered (cfg_EIP158Block c) (cfg_ByzantiumBlock c)"
    "ordered (cfg_ByzantiumBlock c) (cfg_ConstantinopleBlock c)" "ordered (cfg_ConstantinopleBlock c) (cfg_PetersburgBlock c)"
    "ordered (cfg_PetersburgBlock c) (cfg_IstanbulBlock c)" "ordered (cfg_IstanbulBlock c) (cfg_YoloV2Block c)"
    using assms unfolding CheckConfigForkOrder_def config_forks_def step
    by (auto intro: trans split: if_splits)
  have "isForked (cfg_PetersburgBlock c) num \<or> cfg_PetersburgBlock c = None \<and> isForked (cfg_ConstantinopleBlock c) num \<Longrightarrow>
    isForked (cfg_ConstantinopleBlock c) num" using mono [OF o(6)] by blast
  then show ?thesis
    using mono [OF o(1)] mono [OF o(2)] mono [OF o(3)] mono [OF o(4)] mono [OF o(5)] mono [OF o(7)] mono [OF o(8)]
    by (auto simp: config_Rules_def Let_def
        IsPetersburg_def)
qed

definition example_config :: ChainConfig where
  "example_config = \<lparr>cfg_ChainID = Some 2020, cfg_HomesteadBlock = Some 0, cfg_DAOForkBlock = None, cfg_DAOForkSupport = False,
    cfg_EIP150Block = Some 0, cfg_EIP150Hash = replicate 32 0, cfg_EIP155Block = Some 0, cfg_EIP158Block = Some 0, cfg_ByzantiumBlock = Some 5,
    cfg_ConstantinopleBlock = Some 7, cfg_PetersburgBlock = Some 7, cfg_IstanbulBlock = Some 9, cfg_MuirGlacierBlock = None,
    cfg_YoloV2Block = None, cfg_EWASMBlock = None\<rparr>"

theorem Rules_cumulative_witness:
  "CheckConfigForkOrder example_config = None \<and> r_IsIstanbul (config_Rules example_config (Some 9)) \<and>
   r_IsPetersburg (config_Rules example_config (Some 9))"
proof -
  have o: "CheckConfigForkOrder example_config = None"
    by (simp add: CheckConfigForkOrder_def config_forks_def example_config_def fork_check_def)
  have "r_IsIstanbul (config_Rules example_config (Some 9))"
    by (simp add: config_Rules_def example_config_def)
  then show ?thesis using Rules_cumulative [OF o, of "Some 9"] o by (simp add: Let_def)
qed

end
