(* ===== verification/Evm_Calls.thy ===== *)
theory Evm_Calls
  imports State_Props Params_Config
begin

section \<open>Calls and contract creation\<close>

text \<open>
  The entry points of the virtual machine, \<open>src/core/vm/evm.go\<close>, over the state database:
  \<open>Call\<close>, \<open>CallCode\<close>, \<open>DelegateCall\<close>, \<open>StaticCall\<close>, \<open>Create\<close> and \<open>Create2\<close>, with the contracts
  of \<open>src/core/vm/contract.go\<close>, the transfer functions of \<open>src/core/evm.go\<close> and the addresses
  of new contracts of \<open>src/crypto/crypto.go\<close>. The byte code interpreter is an argument here, and
  \<open>Evm_Interpreter\<close> passes itself; the native contracts are part of the machine. Tracing is left
  out. \<open>None\<close> is a panic.
\<close>

subsection \<open>Contracts\<close>

datatype vm_err =
    ErrInvalidSubroutineEntry
  | ErrOutOfSmoke
  | ErrCodeStoreOutOfSmoke
  | ErrDepth
  | ErrInsufficientBalance
  | ErrContractAddressCollision
  | ErrExecutionReverted
  | ErrMaxCodeSizeExceeded
  | ErrInvalidJump
  | ErrWriteProtection
  | ErrReturnDataOutOfBounds
  | ErrSmokeUintOverflow
  | ErrInvalidRetsub
  | ErrReturnStackExceeded
  | ErrStackUnderflow nat nat
  | ErrStackOverflow nat nat
  | ErrInvalidOpCode byte
  | ErrReentrancySentry
  | ErrNative nat

text \<open>
  \<open>ContractRef\<close>: an account, or a contract with its address, caller and value, which a
  delegate call reads.
\<close>

datatype ContractRef =
    AccountRef address
  | ContractOf address address "int option"

fun ref_Address :: "ContractRef \<Rightarrow> address" where
  "ref_Address (AccountRef a) = a"
| "ref_Address (ContractOf self caller v) = self"

record Contract =
  c_CallerAddress :: address
  c_caller :: ContractRef
  c_self :: ContractRef
  c_Code :: bytes
  c_CodeHash :: hash
  c_CodeAddr :: "address option"
  c_Input :: bytes
  c_Smoke :: uint64
  c_value :: "int option"

definition NewContract :: "ContractRef \<Rightarrow> ContractRef \<Rightarrow> int option \<Rightarrow> uint64 \<Rightarrow> Contract" where
  "NewContract caller object v smoke =
    \<lparr>c_CallerAddress = ref_Address caller, c_caller = caller, c_self = object,
     c_Code = [], c_CodeHash = zero_hash, c_CodeAddr = None, c_Input = [], c_Smoke = smoke, c_value = v\<rparr>"

definition AsDelegate :: "Contract \<Rightarrow> Contract option" where
  "AsDelegate c =
    (case c_caller c of
       AccountRef _ \<Rightarrow> None
     | ContractOf _ callerAddress v \<Rightarrow> Some (c\<lparr>c_CallerAddress := callerAddress, c_value := v\<rparr>))"

definition UseSmoke :: "uint64 \<Rightarrow> Contract \<Rightarrow> bool \<times> Contract" where
  "UseSmoke smoke c = (if c_Smoke c < smoke then (False, c) else (True, c\<lparr>c_Smoke := c_Smoke c - smoke\<rparr>))"

definition SetCallCode :: "address \<Rightarrow> hash \<Rightarrow> bytes \<Rightarrow> Contract \<Rightarrow> Contract" where
  "SetCallCode addr hash code c = c\<lparr>c_Code := code, c_CodeHash := hash, c_CodeAddr := Some addr\<rparr>"

subsection \<open>The machine\<close>

text \<open>
  A native contract. \<open>pc_ReturnsInput\<close> tells that \<open>Run\<close> returns the slice of its input itself, as
  \<open>dataCopy\<close> does, so that the result shares memory with the argument.
\<close>

record precompile =
  pc_RequiredSmoke :: "bytes \<Rightarrow> uint64"
  pc_Run :: "bytes \<Rightarrow> bytes \<times> vm_err option"
  pc_ReturnsInput :: bool

text \<open>
  The machine with its block and transaction contexts and the options of its configuration
  that the code reads. \<open>evm_readOnly\<close> is the flag of the interpreter, which nested calls inherit
  as they do the depth.
\<close>

record EVM =
  evm_GetHash :: "uint64 \<Rightarrow> hash"
  evm_Coinbase :: address
  evm_SmokeLimit :: uint64
  evm_BlockNumber :: int
  evm_Time :: int
  evm_Difficulty :: int
  evm_Origin :: address
  evm_SmokePrice :: int
  evm_ChainID :: "int option"
  evm_NoRecursion :: bool
  evm_EnablePreimageRecording :: bool
  evm_depth :: nat
  evm_readOnly :: bool
  evm_chainRules :: Rules
  evm_HomesteadContracts :: "address \<rightharpoonup> precompile"
  evm_ByzantiumContracts :: "address \<rightharpoonup> precompile"
  evm_IstanbulContracts :: "address \<rightharpoonup> precompile"
  evm_YoloV2Contracts :: "address \<rightharpoonup> precompile"

type_synonym 'tr interpreter =
  "EVM \<Rightarrow> Contract \<Rightarrow> bytes \<Rightarrow> bool \<Rightarrow> 'tr StateDB \<Rightarrow> (bytes \<times> vm_err option \<times> uint64 \<times> 'tr StateDB) option"

definition CallCreateDepth :: nat where
  "CallCreateDepth = 1024"

abbreviation CreateDataSmoke :: uint64 where
  "CreateDataSmoke \<equiv> 200"

abbreviation MaxCodeSize :: nat where
  "MaxCodeSize \<equiv> 24576"

definition evm_precompile :: "EVM \<Rightarrow> address \<Rightarrow> precompile option" where
  "evm_precompile evm addr =
    (if r_IsYoloV2 (evm_chainRules evm) then evm_YoloV2Contracts evm addr
     else if r_IsIstanbul (evm_chainRules evm) then evm_IstanbulContracts evm addr
     else if r_IsByzantium (evm_chainRules evm) then evm_ByzantiumContracts evm addr
     else evm_HomesteadContracts evm addr)"

definition RunPrecompiledContract :: "precompile \<Rightarrow> bytes \<Rightarrow> uint64 \<Rightarrow> bytes \<times> uint64 \<times> vm_err option" where
  "RunPrecompiledContract p input suppliedSmoke =
    (let smokeCost = pc_RequiredSmoke p input
     in if suppliedSmoke < smokeCost then ([], 0, Some ErrOutOfSmoke)
        else let suppliedSmoke = suppliedSmoke - smokeCost; (output, err) = pc_Run p input
             in (output, suppliedSmoke, err))"

definition CanTransfer :: "(bytes \<Rightarrow> hash) \<Rightarrow> 'tr database \<Rightarrow> address \<Rightarrow> int \<Rightarrow> 'tr StateDB \<Rightarrow> bool \<times> 'tr StateDB" where
  "CanTransfer K db addr amount s = (let (balance, s) = GetBalance K db addr s in (amount \<le> balance, s))"

definition Transfer :: "(bytes \<Rightarrow> hash) \<Rightarrow> 'tr database \<Rightarrow> address \<Rightarrow> address \<Rightarrow> int \<Rightarrow> 'tr StateDB \<Rightarrow> 'tr StateDB" where
  "Transfer K db sender recipient amount s = AddBalance K db recipient amount (SubBalance K db sender amount s)"

definition code_bytes :: "bytes option \<Rightarrow> bytes" where
  "code_bytes code = (case code of None \<Rightarrow> [] | Some c \<Rightarrow> c)"

subsection \<open>Calls\<close>

text \<open>
  The end that the four calls share: on an error the state goes back to the snapshot, and
  the remaining smoke is consumed unless the code reverted by itself.
\<close>

definition call_end ::
  "(bytes \<Rightarrow> hash) \<Rightarrow> 'tr database \<Rightarrow> nat \<Rightarrow> bytes \<times> vm_err option \<times> uint64 \<times> 'tr StateDB \<Rightarrow>
    (bytes \<times> uint64 \<times> vm_err option \<times> 'tr StateDB) option" where
  "call_end K db snapshot r =
    (case r of (ret, err, smoke, s) \<Rightarrow>
      (case err of
         None \<Rightarrow> Some (ret, smoke, None, s)
       | Some e \<Rightarrow>
           (case RevertToSnapshot K db snapshot s of
              None \<Rightarrow> None
            | Some s \<Rightarrow> Some (ret, if e \<noteq> ErrExecutionReverted then 0 else smoke, Some e, s))))"

definition native_call :: "precompile \<Rightarrow> bytes \<Rightarrow> uint64 \<Rightarrow> 'tr StateDB \<Rightarrow> bytes \<times> vm_err option \<times> uint64 \<times> 'tr StateDB" where
  "native_call p input smoke s = (let (ret, smoke, err) = RunPrecompiledContract p input smoke in (ret, err, smoke, s))"

text \<open>The calls that run the code of \<open>addr\<close> whatever its length.\<close>

definition run_code ::
  "(bytes \<Rightarrow> hash) \<Rightarrow> 'tr database \<Rightarrow> 'tr interpreter \<Rightarrow> EVM \<Rightarrow> Contract \<Rightarrow> address \<Rightarrow> bytes \<Rightarrow> bool \<Rightarrow> 'tr StateDB \<Rightarrow>
    (bytes \<times> vm_err option \<times> uint64 \<times> 'tr StateDB) option" where
  "run_code K db run evm contract addr input readOnly s =
    (let (codeHash, s) = GetCodeHash K db addr s;
         (code, s) = GetCode K db addr s
     in run evm (SetCallCode addr codeHash (code_bytes code) contract) input readOnly s)"

definition Call ::
  "(bytes \<Rightarrow> hash) \<Rightarrow> 'tr database \<Rightarrow> 'tr interpreter \<Rightarrow> EVM \<Rightarrow> ContractRef \<Rightarrow> address \<Rightarrow> bytes \<Rightarrow> uint64 \<Rightarrow> int \<Rightarrow> 'tr StateDB \<Rightarrow>
    (bytes \<times> uint64 \<times> vm_err option \<times> 'tr StateDB) option" where
  "Call K db run evm caller addr input smoke v s =
    (if evm_NoRecursion evm \<and> 0 < evm_depth evm then Some ([], smoke, None, s)
     else if CallCreateDepth < evm_depth evm then Some ([], smoke, Some ErrDepth, s)
     else let (can, s) = (if v \<noteq> 0 then CanTransfer K db (ref_Address caller) v s else (True, s)) in
     if \<not> can then Some ([], smoke, Some ErrInsufficientBalance, s)
     else let (snapshot, s) = Snapshot s;
              p = evm_precompile evm addr;
              (exists, s) = Exist K db addr s in
     if \<not> exists \<and> p = None \<and> r_IsEIP158 (evm_chainRules evm) \<and> v = 0 then Some ([], smoke, None, s)
     else let s = (if \<not> exists then CreateAccount K db addr s else s);
              s = Transfer K db (ref_Address caller) addr v s;
              body = (case p of
                        Some p \<Rightarrow> Some (native_call p input smoke s)
                      | None \<Rightarrow>
                          (let (code, s) = GetCode K db addr s
                           in if length (code_bytes code) = 0 then Some ([], None, smoke, s)
                              else let (codeHash, s) = GetCodeHash K db addr s
                                   in run evm (SetCallCode addr codeHash (code_bytes code) (NewContract caller (AccountRef addr) (Some v) smoke)) input False s))
          in case body of None \<Rightarrow> None | Some r \<Rightarrow> call_end K db snapshot r)"

definition CallCode ::
  "(bytes \<Rightarrow> hash) \<Rightarrow> 'tr database \<Rightarrow> 'tr interpreter \<Rightarrow> EVM \<Rightarrow> ContractRef \<Rightarrow> address \<Rightarrow> bytes \<Rightarrow> uint64 \<Rightarrow> int \<Rightarrow> 'tr StateDB \<Rightarrow>
    (bytes \<times> uint64 \<times> vm_err option \<times> 'tr StateDB) option" where
  "CallCode K db run evm caller addr input smoke v s =
    (if evm_NoRecursion evm \<and> 0 < evm_depth evm then Some ([], smoke, None, s)
     else if CallCreateDepth < evm_depth evm then Some ([], smoke, Some ErrDepth, s)
     else let (can, s) = CanTransfer K db (ref_Address caller) v s in
     if \<not> can then Some ([], smoke, Some ErrInsufficientBalance, s)
     else let (snapshot, s) = Snapshot s;
              body = (case evm_precompile evm addr of
                        Some p \<Rightarrow> Some (native_call p input smoke s)
                      | None \<Rightarrow> run_code K db run evm (NewContract caller (AccountRef (ref_Address caller)) (Some v) smoke) addr input False s)
          in case body of None \<Rightarrow> None | Some r \<Rightarrow> call_end K db snapshot r)"

definition DelegateCall ::
  "(bytes \<Rightarrow> hash) \<Rightarrow> 'tr database \<Rightarrow> 'tr interpreter \<Rightarrow> EVM \<Rightarrow> ContractRef \<Rightarrow> address \<Rightarrow> bytes \<Rightarrow> uint64 \<Rightarrow> 'tr StateDB \<Rightarrow>
    (bytes \<times> uint64 \<times> vm_err option \<times> 'tr StateDB) option" where
  "DelegateCall K db run evm caller addr input smoke s =
    (if evm_NoRecursion evm \<and> 0 < evm_depth evm then Some ([], smoke, None, s)
     else if CallCreateDepth < evm_depth evm then Some ([], smoke, Some ErrDepth, s)
     else let (snapshot, s) = Snapshot s;
              body = (case evm_precompile evm addr of
                        Some p \<Rightarrow> Some (native_call p input smoke s)
                      | None \<Rightarrow>
                          (case AsDelegate (NewContract caller (AccountRef (ref_Address caller)) None smoke) of
                             None \<Rightarrow> None
                           | Some contract \<Rightarrow> run_code K db run evm contract addr input False s))
          in case body of None \<Rightarrow> None | Some r \<Rightarrow> call_end K db snapshot r)"

definition StaticCall ::
  "(bytes \<Rightarrow> hash) \<Rightarrow> 'tr database \<Rightarrow> 'tr interpreter \<Rightarrow> EVM \<Rightarrow> ContractRef \<Rightarrow> address \<Rightarrow> bytes \<Rightarrow> uint64 \<Rightarrow> 'tr StateDB \<Rightarrow>
    (bytes \<times> uint64 \<times> vm_err option \<times> 'tr StateDB) option" where
  "StaticCall K db run evm caller addr input smoke s =
    (if evm_NoRecursion evm \<and> 0 < evm_depth evm then Some ([], smoke, None, s)
     else if CallCreateDepth < evm_depth evm then Some ([], smoke, Some ErrDepth, s)
     else let (snapshot, s) = Snapshot s;
              s = AddBalance K db addr 0 s;
              body = (case evm_precompile evm addr of
                        Some p \<Rightarrow> Some (native_call p input smoke s)
                      | None \<Rightarrow> run_code K db run evm (NewContract caller (AccountRef addr) (Some 0) smoke) addr input True s)
          in case body of None \<Rightarrow> None | Some r \<Rightarrow> call_end K db snapshot r)"

subsection \<open>Contract creation\<close>

definition BytesToAddress :: "bytes \<Rightarrow> address" where
  "BytesToAddress b = (let b = drop (length b - 20) b in replicate (20 - length b) 0 @ b)"

definition CreateAddress :: "(bytes \<Rightarrow> hash) \<Rightarrow> address \<Rightarrow> uint64 \<Rightarrow> address" where
  "CreateAddress K b nonce =
    (case EncodeToBytes (TSlice TInterface) (VList [VIface (TByteArray 20) (VBytes b), VIface (TUint 64) (VUint nonce)]) of
       Inr data \<Rightarrow> BytesToAddress (drop 12 (K data))
     | Inl _ \<Rightarrow> BytesToAddress (drop 12 (K [])))"

definition CreateAddress2 :: "(bytes \<Rightarrow> hash) \<Rightarrow> address \<Rightarrow> bytes \<Rightarrow> bytes \<Rightarrow> address" where
  "CreateAddress2 K b salt inithash = BytesToAddress (drop 12 (K ([0xFF] @ b @ salt @ inithash)))"

record codeAndHash =
  ch_code :: bytes
  ch_hash :: hash

definition codeAndHash_Hash :: "(bytes \<Rightarrow> hash) \<Rightarrow> codeAndHash \<Rightarrow> hash \<times> codeAndHash" where
  "codeAndHash_Hash K c =
    (let c = (if ch_hash c = zero_hash then c\<lparr>ch_hash := K (ch_code c)\<rparr> else c) in (ch_hash c, c))"

definition SetCodeOptionalHash :: "address \<Rightarrow> codeAndHash \<Rightarrow> Contract \<Rightarrow> Contract" where
  "SetCodeOptionalHash addr cah c = c\<lparr>c_Code := ch_code cah, c_CodeHash := ch_hash cah, c_CodeAddr := Some addr\<rparr>"

text \<open>
  The end of \<open>create\<close>, after the deployment code has run with the result \<open>ret\<close> and \<open>err\<close>:
  storing the code, and going back to the snapshot on an error.
\<close>

definition store_code ::
  "(bytes \<Rightarrow> hash) \<Rightarrow> 'tr database \<Rightarrow> address \<Rightarrow> bytes \<Rightarrow> Contract \<Rightarrow> 'tr StateDB \<Rightarrow> vm_err option \<times> Contract \<times> 'tr StateDB" where
  "store_code K db address ret contract s =
    (case UseSmoke (word_of_nat (length ret) * CreateDataSmoke) contract of
       (True, contract) \<Rightarrow> (None, contract, SetCode K db address (Some ret) s)
     | (False, contract) \<Rightarrow> (Some ErrCodeStoreOutOfSmoke, contract, s))"

definition create_end ::
  "(bytes \<Rightarrow> hash) \<Rightarrow> 'tr database \<Rightarrow> EVM \<Rightarrow> nat \<Rightarrow> address \<Rightarrow> Contract \<Rightarrow> bytes \<Rightarrow> vm_err option \<Rightarrow> 'tr StateDB \<Rightarrow>
    (bytes \<times> address \<times> uint64 \<times> vm_err option \<times> 'tr StateDB) option" where
  "create_end K db evm snapshot address contract ret err s =
    (let maxCodeSizeExceeded = (r_IsEIP158 (evm_chainRules evm) \<and> MaxCodeSize < length ret);
         (err, contract, s) = (if err = None \<and> \<not> maxCodeSizeExceeded then store_code K db address ret contract s else (err, contract, s)) in
     if maxCodeSizeExceeded \<or> (err \<noteq> None \<and> (r_IsHomestead (evm_chainRules evm) \<or> err \<noteq> Some ErrCodeStoreOutOfSmoke))
     then (case RevertToSnapshot K db snapshot s of
             None \<Rightarrow> None
           | Some s \<Rightarrow>
               (let contract = (if err \<noteq> Some ErrExecutionReverted then snd (UseSmoke (c_Smoke contract) contract) else contract);
                    err = (if maxCodeSizeExceeded \<and> err = None then Some ErrMaxCodeSizeExceeded else err)
                in Some (ret, address, c_Smoke contract, err, s)))
     else Some (ret, address, c_Smoke contract, err, s))"

definition evm_create ::
  "(bytes \<Rightarrow> hash) \<Rightarrow> 'tr database \<Rightarrow> 'tr interpreter \<Rightarrow> EVM \<Rightarrow> ContractRef \<Rightarrow> codeAndHash \<Rightarrow> uint64 \<Rightarrow> int \<Rightarrow> address \<Rightarrow> 'tr StateDB \<Rightarrow>
    (bytes \<times> address \<times> uint64 \<times> vm_err option \<times> 'tr StateDB) option" where
  "evm_create K db run evm caller cah smoke v address s =
    (if CallCreateDepth < evm_depth evm then Some ([], replicate 20 0, smoke, Some ErrDepth, s)
     else let (can, s) = CanTransfer K db (ref_Address caller) v s in
     if \<not> can then Some ([], replicate 20 0, smoke, Some ErrInsufficientBalance, s)
     else let (nonce, s) = GetNonce K db (ref_Address caller) s;
              s = SetNonce K db (ref_Address caller) (nonce + 1) s;
              s = (if r_IsYoloV2 (evm_chainRules evm) then AddAddressToAccessList address s else s);
              (contractHash, s) = GetCodeHash K db address s;
              (n, s) = GetNonce K db address s in
     if n \<noteq> 0 \<or> (contractHash \<noteq> zero_hash \<and> contractHash \<noteq> emptyCodeHash K)
     then Some ([], replicate 20 0, 0, Some ErrContractAddressCollision, s)
     else let (snapshot, s) = Snapshot s;
              s = CreateAccount K db address s;
              s = (if r_IsEIP158 (evm_chainRules evm) then SetNonce K db address 1 s else s);
              s = Transfer K db (ref_Address caller) address v s;
              contract = SetCodeOptionalHash address cah (NewContract caller (AccountRef address) (Some v) smoke) in
     if evm_NoRecursion evm \<and> 0 < evm_depth evm then Some ([], address, smoke, None, s)
     else case run evm contract [] False s of
            None \<Rightarrow> None
          | Some (ret, err, smoke, s) \<Rightarrow> create_end K db evm snapshot address (contract\<lparr>c_Smoke := smoke\<rparr>) ret err s)"

definition Create ::
  "(bytes \<Rightarrow> hash) \<Rightarrow> 'tr database \<Rightarrow> 'tr interpreter \<Rightarrow> EVM \<Rightarrow> ContractRef \<Rightarrow> bytes \<Rightarrow> uint64 \<Rightarrow> int \<Rightarrow> 'tr StateDB \<Rightarrow>
    (bytes \<times> address \<times> uint64 \<times> vm_err option \<times> 'tr StateDB) option" where
  "Create K db run evm caller code smoke v s =
    (let (nonce, s) = GetNonce K db (ref_Address caller) s;
         contractAddr = CreateAddress K (ref_Address caller) nonce
     in evm_create K db run evm caller \<lparr>ch_code = code, ch_hash = zero_hash\<rparr> smoke v contractAddr s)"

definition Create2 ::
  "(bytes \<Rightarrow> hash) \<Rightarrow> 'tr database \<Rightarrow> 'tr interpreter \<Rightarrow> EVM \<Rightarrow> ContractRef \<Rightarrow> bytes \<Rightarrow> uint64 \<Rightarrow> int \<Rightarrow> bytes \<Rightarrow> 'tr StateDB \<Rightarrow>
    (bytes \<times> address \<times> uint64 \<times> vm_err option \<times> 'tr StateDB) option" where
  "Create2 K db run evm caller code smoke endowment salt s =
    (let (h, cah) = codeAndHash_Hash K \<lparr>ch_code = code, ch_hash = zero_hash\<rparr>;
         contractAddr = CreateAddress2 K (ref_Address caller) salt h
     in evm_create K db run evm caller cah smoke endowment contractAddr s)"

end
