(* ===== verification/State_Balance.thy ===== *)
theory State_Balance
  imports State_History
begin

section \<open>Balances\<close>

text \<open>
  The balances of a set of accounts, and what the operations of the state database do to
  them: only the balance operations and \<open>Suicide\<close> change a balance, and a revert restores all.
\<close>

definition bal :: "(bytes \<Rightarrow> hash) \<Rightarrow> 'tr database \<Rightarrow> 'tr StateDB \<Rightarrow> address \<Rightarrow> int" where
  "bal K db s a = fst (GetBalance K db a s)"

definition total :: "(bytes \<Rightarrow> hash) \<Rightarrow> 'tr database \<Rightarrow> address set \<Rightarrow> 'tr StateDB \<Rightarrow> int" where
  "total K db A s = (\<Sum>a\<in>A. bal K db s a)"

text \<open>
  \<open>no_mint\<close>: if no balance was negative before, none is afterwards, and the sum of the
  balances has not grown.
\<close>

definition no_mint :: "(bytes \<Rightarrow> hash) \<Rightarrow> 'tr database \<Rightarrow> address set \<Rightarrow> 'tr StateDB \<Rightarrow> 'tr StateDB \<Rightarrow> bool" where
  "no_mint K db A s s' \<longleftrightarrow>
    ((\<forall>a\<in>A. 0 \<le> bal K db s a) \<longrightarrow> (\<forall>a\<in>A. 0 \<le> bal K db s' a) \<and> total K db A s' \<le> total K db A s)"

lemma no_mint_trans [trans]: "no_mint K db A s s1 \<Longrightarrow> no_mint K db A s1 s2 \<Longrightarrow> no_mint K db A s s2"
  unfolding no_mint_def by (meson order_trans)

definition same_bal :: "(bytes \<Rightarrow> hash) \<Rightarrow> 'tr database \<Rightarrow> address set \<Rightarrow> 'tr StateDB \<Rightarrow> 'tr StateDB \<Rightarrow> bool" where
  "same_bal K db A s s' \<longleftrightarrow> (\<forall>a\<in>A. bal K db s' a = bal K db s a)"

lemma same_bal_refl [simp]: "same_bal K db A s s"
  by (simp add: same_bal_def)

lemma same_bal_trans [trans]: "same_bal K db A s s1 \<Longrightarrow> same_bal K db A s1 s2 \<Longrightarrow> same_bal K db A s s2"
  by (simp add: same_bal_def)

lemma same_bal_no_mint: "same_bal K db A s s' \<Longrightarrow> no_mint K db A s s'"
  by (simp add: same_bal_def no_mint_def total_def)

lemma lookup_setStateObject:
  "lookup_obj K db (setStateObject obj s) b = (if b = so_address obj then Some obj else lookup_obj K db s b)"
  by (simp add: lookup_obj_def setStateObject_def base_data_def cong: option.case_cong)

lemma lookup_journal [simp]: "lookup_obj K db (journal_append e s) b = lookup_obj K db s b"
  by (simp add: lookup_obj_def journal_append_def base_data_def cong: option.case_cong)

context state_store begin

lemma bal_live: "ok s \<Longrightarrow> bal K db s b = (case live_obj K db s b of None \<Rightarrow> 0 | Some obj \<Rightarrow> so_Balance obj)"
  using getStateObject_loads [of s b] by (auto simp: bal_def GetBalance_def split: option.splits)

lemma bal_view: "ok s \<Longrightarrow> b \<in> A \<Longrightarrow> bal K db s b = (case v_live (vw s) b of None \<Rightarrow> 0 | Some ob \<Rightarrow> ov_balance ob)"
  using reads_view(3) by (simp add: bal_def)

lemma bal_cong: "ok s \<Longrightarrow> ok s' \<Longrightarrow> vw s' = vw s \<Longrightarrow> b \<in> A \<Longrightarrow> bal K db s' b = bal K db s b"
  by (simp add: bal_view)

lemma put_bal:
  assumes "ok s" "ok (setStateObject obj (journal_append e s))" "\<not> so_deleted obj"
  shows "bal K db (setStateObject obj (journal_append e s)) b = (if b = so_address obj then so_Balance obj else bal K db s b)"
  using assms by (simp add: bal_live live_obj_def lookup_setStateObject)

lemma GetOrNew_bal:
  assumes "ok s" "a \<in> A"
  obtains obj s1 where "GetOrNewStateObject K db a s = (obj, s1)" "ok s1" "\<not> so_deleted obj" "so_address obj = a"
    "so_Balance obj = bal K db s a" "\<And>b. b \<in> A \<Longrightarrow> bal K db s1 b = bal K db s b"
proof -
  obtain obj s1 where g: "GetOrNewStateObject K db a s = (obj, s1)" "ok s1" "obj_ok K good a obj" "\<not> so_deleted obj" "so_address obj = a"
    "v_live (vw s1) a = Some (oview (sd_ctx K db s1) obj)" "\<And>b. b \<noteq> a \<Longrightarrow> v_live (vw s1) b = v_live (vw s) b"
    "so_Balance obj = (case v_live (vw s) a of None \<Rightarrow> 0 | Some ob \<Rightarrow> ov_balance ob)"
    "v_live (vw s) a \<noteq> None \<Longrightarrow> v_live (vw s1) a = v_live (vw s) a" "sd_stateObjects s1 a = Some obj"
    by (rule GetOrNew_live [OF assms]) (rule that)
  have b: "so_Balance obj = bal K db s a" using g(8) bal_view [OF assms] by simp
  have "bal K db s1 c = bal K db s c" if "c \<in> A" for c
    using g(6,7) b bal_view [OF g(2) that] bal_view [OF assms(1) that] by (cases "c = a") (simp_all add: oview_def)
  then show ?thesis using that g(1,2,4,5) b by blast
qed

lemma writes_keep_bal:
  assumes "ok s" "a \<in> A" "b \<in> A"
  shows "bal K db (SetNonce K db a m s) b = bal K db s b" "bal K db (SetCode K db a c s) b = bal K db s b"
    "bal K db (CreateAccount K db a s) b = bal K db s b"
proof -
  obtain obj s1 where g: "GetOrNewStateObject K db a s = (obj, s1)" "ok s1" "\<not> so_deleted obj" "so_address obj = a"
    "so_Balance obj = bal K db s a" "\<And>b. b \<in> A \<Longrightarrow> bal K db s1 b = bal K db s b"
    by (rule GetOrNew_bal [OF assms(1,2)]) (rule that)
  note st = setters_undo [OF assms(1,2)]
  let ?obj = "so_setNonce m obj"
  have "ok (setStateObject ?obj (journal_append (nonceChange (so_address obj) (so_Nonce obj)) s1))"
    using st(4) [of m] g(1) by (simp add: SetNonce_def so_SetNonce_def)
  from put_bal [OF g(2) this, of b] show "bal K db (SetNonce K db a m s) b = bal K db s b"
    using g assms(3) by (simp add: SetNonce_def so_SetNonce_def so_setNonce_def)
  obtain prev obj1 where c: "so_Code (sd_ctx K db s1) obj = (prev, obj1)" by fastforce
  have o1: "so_Balance obj1 = so_Balance obj" "so_deleted obj1 = so_deleted obj" "so_address obj1 = so_address obj"
    using c by (auto simp: so_Code_def so_setError_def split: option.splits if_splits sum.splits)
  let ?h = "K (case c of None \<Rightarrow> [] | Some c \<Rightarrow> c)"
  let ?obj = "so_setCode ?h c obj1"
  have "ok (setStateObject ?obj (journal_append (codeChange (so_address obj1) prev (so_CodeHash obj1)) s1))"
    using st(5) [of c] g(1) c by (simp add: SetCode_def so_SetCode_def)
  from put_bal [OF g(2) this, of b] show "bal K db (SetCode K db a c s) b = bal K db s b"
    using g assms(3) o1 c by (simp add: SetCode_def so_SetCode_def so_setCode_def)
  obtain nb s2 where c: "createObject K db a s = (nb, live_obj K db s a, setStateObject nb s2)"
    "nb = so_setNonce 0 (newObject K a Account_zero)"
    "\<And>nb. obj_ok K good a nb \<Longrightarrow> ok (setStateObject nb s2) \<and> undo s (setStateObject nb s2) \<and>
      (\<forall>b. b \<noteq> a \<longrightarrow> v_objects (vw (setStateObject nb s2)) b = v_objects (vw s) b)"
    by (rule createObject_undo [OF assms(1,2)]) (rule that)
  define nb' where "nb' = so_setBalance (bal K db s a) nb"
  have bs: "bal K db s a = (case live_obj K db s a of None \<Rightarrow> 0 | Some obj \<Rightarrow> so_Balance obj)" by (rule bal_live [OF assms(1)])
  have nb: "so_address nb = a" "so_Balance nb = 0" "\<not> so_deleted nb" "so_setBalance 0 nb = nb"
    using c(2) by (simp_all add: so_setNonce_def newObject_def Account_zero_def so_setBalance_def Let_def)
  have ca: "CreateAccount K db a s = setStateObject nb' s2"
  proof (cases "live_obj K db s a")
    case None
    then show ?thesis using c(1) nb(4) bs by (simp add: CreateAccount_def nb'_def)
  next
    case (Some p)
    then show ?thesis using c(1) nb(1) bs by (simp add: CreateAccount_def nb'_def setStateObject_def so_setBalance_def)
  qed
  have "obj_ok K good a nb'" using new_ok [of a] c(2) by (auto simp: nb'_def)
  note c3 = c(3) [OF this]
  show "bal K db (CreateAccount K db a s) b = bal K db s b"
  proof (cases "b = a")
    case True
    have "so_address nb' = a" "so_Balance nb' = bal K db s a" "\<not> so_deleted nb'" using nb by (simp_all add: nb'_def so_setBalance_def)
    then show ?thesis using True c3 unfolding ca by (simp add: bal_live [of "setStateObject nb' s2"] live_obj_def lookup_setStateObject)
  next
    case False
    then have "v_live (vw (setStateObject nb' s2)) b = v_live (vw s) b" using c3 by (simp add: v_live_def)
    then show ?thesis using c3 assms(1,3) unfolding ca by (simp add: bal_view)
  qed
qed

lemma moves_bal:
  assumes "ok s" "a \<in> A" "b \<in> A"
  shows "bal K db (AddBalance K db a n s) b = bal K db s b + (if b = a then n else 0)"
    "bal K db (SubBalance K db a n s) b = bal K db s b - (if b = a then n else 0)"
  using writes_reads(2,3) [OF assms] by (simp_all add: bal_def)

lemma writes_same_bal:
  assumes "ok s" "a \<in> A"
  shows "same_bal K db A s (SetNonce K db a m s)" "same_bal K db A s (SetCode K db a c s)" "same_bal K db A s (CreateAccount K db a s)"
  using writes_keep_bal [OF assms] by (simp_all add: same_bal_def)

lemma bal_objects: "sd_stateObjects s' = sd_stateObjects s \<Longrightarrow> sd_trie s' = sd_trie s \<Longrightarrow> sd_snap s' = sd_snap s \<Longrightarrow>
    ok s \<Longrightarrow> ok s' \<Longrightarrow> same_bal K db A s s'"
  by (simp add: same_bal_def bal_live live_obj_def lookup_obj_def base_data_def cong: option.case_cong)

lemma GetCode_same_bal:
  assumes ok: "ok s" and a: "a \<in> A"
  shows "same_bal K db A s (snd (GetCode K db a s))"
proof -
  obtain s1 where s1: "getStateObject K db a s = (live_obj K db s a, s1)" "loads K db good a s s1"
    using getStateObject_loads [OF ok] by blast
  note l = loads_props [OF ok s1(2) a]
  have b1: "bal K db s1 b = bal K db s b" if "b \<in> A" for b by (rule bal_cong [OF ok l(1,2) that])
  show ?thesis
  proof (cases "live_obj K db s a")
    case None
    then show ?thesis using s1(1) b1 by (simp add: GetCode_def same_bal_def)
  next
    case (Some obj)
    obtain c obj1 where c: "so_Code (sd_ctx K db s1) obj = (c, obj1)" by fastforce
    have o1: "so_Balance obj1 = so_Balance obj" "so_deleted obj1 = so_deleted obj" "so_address obj1 = so_address obj"
      using c by (auto simp: so_Code_def so_setError_def split: option.splits if_splits sum.splits)
    have s2: "snd (GetCode K db a s) = setStateObject obj1 s1" using s1(1) Some c by (simp add: GetCode_def Let_def split_def)
    have ok2: "ok (setStateObject obj1 s1)" using reads_undo(1) [OF ok a] s2 by simp
    have lk: "lookup_obj K db s1 a = Some obj" using live_lookup [OF Some] l(5) by simp
    have ad: "so_address obj = a" using lookup_ok [OF l(1) a lk] by (simp add: obj_ok_def)
    have nd: "\<not> so_deleted obj" using Some by (auto simp: live_obj_def split: option.splits if_splits)
    have "bal K db (setStateObject obj1 s1) b = bal K db s1 b" if "b \<in> A" for b
      using lk nd o1 ad by (simp add: bal_live [OF ok2] bal_live [OF l(1)] live_obj_def lookup_setStateObject)
    then show ?thesis using b1 by (simp add: s2 same_bal_def)
  qed
qed

lemma Transfer_no_mint:
  assumes ok: "ok s" and A: "finite A" "a \<in> A" "b \<in> A" and v: "0 \<le> v" "v = 0 \<or> v \<le> bal K db s a"
  shows "no_mint K db A s (AddBalance K db b v (SubBalance K db a v s))"
proof -
  let ?s1 = "SubBalance K db a v s"
  have ok1: "ok ?s1" using setters_undo(2) [OF ok A(2)] by blast
  have e: "bal K db (AddBalance K db b v ?s1) c = bal K db s c - (if c = a then v else 0) + (if c = b then v else 0)" if "c \<in> A" for c
    using moves_bal(1) [OF ok1 A(3) that] moves_bal(2) [OF ok A(2) that] by simp
  have "total K db A (AddBalance K db b v ?s1) = total K db A s"
    using A by (simp add: total_def e sum.distrib sum_subtractf)
  then show ?thesis using e v by (auto simp: no_mint_def)
qed

lemma pay_no_mint:
  assumes ok: "ok s" and A: "finite A" "a \<in> A" and v: "0 \<le> v"
  shows "total K db A (AddBalance K db a v s) = total K db A s + v" "total K db A (SubBalance K db a v s) = total K db A s - v"
  using A moves_bal [OF ok A(2)] by (simp_all add: total_def sum.distrib sum_subtractf)

end

end
