(* ===== verification/Evm_Safety.thy ===== *)
theory Evm_Safety
  imports Evm_Calls State_Balance
begin

section \<open>Failed calls leave no trace\<close>

text \<open>
  What the calls and contract creations of \<open>Evm_Calls\<close> do to the state: they are sequences of
  state operations that keep all snapshots taken before them, so that an interpreter which
  calls them keeps the contract \<open>interp_ok\<close> it is itself assumed to keep; and on an error they
  restore the state.
\<close>

subsection \<open>States within a transaction\<close>

definition tx_state :: "(bytes \<Rightarrow> hash) \<Rightarrow> 'tr database \<Rightarrow> ('tr \<Rightarrow> bool) \<Rightarrow> address set \<Rightarrow> 'tr StateDB \<Rightarrow> bool" where
  "tx_state K db good A s \<longleftrightarrow> sd_ok K db good A s \<and> al_ok (sd_accessList s) \<and> (\<exists>H. hist K db A H s)"

text \<open>
  \<open>steps\<close>: operations on accounts of \<open>A\<close> lead from one state to another, and the snapshots
  that were valid before them still are.
\<close>

definition steps :: "(bytes \<Rightarrow> hash) \<Rightarrow> 'tr database \<Rightarrow> address set \<Rightarrow> 'tr StateDB \<Rightarrow> 'tr StateDB \<Rightarrow> bool" where
  "steps K db A s s' \<longleftrightarrow>
    (\<exists>xs. (\<forall>x\<in>set xs. pred_option (\<lambda>a. a \<in> A) (op_addr x)) \<and> exec_all K db xs s = Some s') \<and>
    (\<exists>revs. sd_validRevisions s' = sd_validRevisions s @ revs)"

definition interp_ok :: "(bytes \<Rightarrow> hash) \<Rightarrow> 'tr database \<Rightarrow> ('tr \<Rightarrow> bool) \<Rightarrow> address set \<Rightarrow> 'tr interpreter \<Rightarrow> bool" where
  "interp_ok K db good A run \<longleftrightarrow>
    (\<forall>evm c input readOnly s ret err smoke s'. ref_Address (c_self c) \<in> A \<longrightarrow> tx_state K db good A s \<longrightarrow>
      run evm c input readOnly s = Some (ret, err, smoke, s') \<longrightarrow> steps K db A s s' \<and> smoke \<le> c_Smoke c)"

text \<open>An interpreter that does not panic.\<close>

definition interp_total :: "'tr interpreter \<Rightarrow> bool" where
  "interp_total run \<longleftrightarrow> (\<forall>evm c input readOnly s. run evm c input readOnly s \<noteq> None)"

text \<open>An interpreter that makes no coins and no debts.\<close>

definition interp_fair :: "(bytes \<Rightarrow> hash) \<Rightarrow> 'tr database \<Rightarrow> ('tr \<Rightarrow> bool) \<Rightarrow> address set \<Rightarrow> 'tr interpreter \<Rightarrow> bool" where
  "interp_fair K db good A run \<longleftrightarrow>
    (\<forall>evm c input readOnly s ret err smoke s'. ref_Address (c_self c) \<in> A \<longrightarrow> tx_state K db good A s \<longrightarrow>
      run evm c input readOnly s = Some (ret, err, smoke, s') \<longrightarrow> no_mint K db A s s')"

text \<open>The outcome of a call that started in \<open>s\<close> with the given smoke.\<close>

definition outcome ::
  "(bytes \<Rightarrow> hash) \<Rightarrow> 'tr database \<Rightarrow> address set \<Rightarrow> 'tr StateDB \<Rightarrow> uint64 \<Rightarrow> uint64 \<Rightarrow> vm_err option \<Rightarrow> 'tr StateDB \<Rightarrow> bool" where
  "outcome K db A s smoke left err s' \<longleftrightarrow> steps K db A s s' \<and> left \<le> smoke \<and>
    (err \<noteq> None \<longrightarrow> view K db A s' = view K db A s \<and> entries_of s' = entries_of s \<and> sd_validRevisions s' = sd_validRevisions s \<and>
      (left = 0 \<or> err \<in> Some ` {ErrDepth, ErrInsufficientBalance, ErrExecutionReverted}))"

lemma interp_okD:
  assumes "interp_ok K db good A run" "ref_Address (c_self c) \<in> A" "tx_state K db good A s"
    "run evm c input readOnly s = Some (ret, err, smoke, s')"
  shows "steps K db A s s'" "smoke \<le> c_Smoke c"
  using assms unfolding interp_ok_def by blast+

lemma interp_fairD:
  assumes "interp_fair K db good A run" "ref_Address (c_self c) \<in> A" "tx_state K db good A s"
    "run evm c input readOnly s = Some (ret, err, smoke, s')"
  shows "no_mint K db A s s'"
  using assms unfolding interp_fair_def by blast

lemma exec_all_append: "exec_all K db (xs @ ys) s = (case exec_all K db xs s of None \<Rightarrow> None | Some s \<Rightarrow> exec_all K db ys s)"
  by (induction xs arbitrary: s) (simp_all split: option.splits)

lemma steps_refl [simp]: "steps K db A s s"
  by (auto simp: steps_def intro: exI [of _ "[]"])

lemma steps_trans [trans]:
  assumes "steps K db A s s1" "steps K db A s1 s2"
  shows "steps K db A s s2"
proof -
  obtain xs ys where x: "\<forall>x\<in>set xs. pred_option (\<lambda>a. a \<in> A) (op_addr x)" "exec_all K db xs s = Some s1"
    and y: "\<forall>x\<in>set ys. pred_option (\<lambda>a. a \<in> A) (op_addr x)" "exec_all K db ys s1 = Some s2"
    using assms by (auto simp: steps_def)
  have "exec_all K db (xs @ ys) s = Some s2" using x(2) y(2) by (simp add: exec_all_append)
  moreover have "\<forall>x\<in>set (xs @ ys). pred_option (\<lambda>a. a \<in> A) (op_addr x)" using x(1) y(1) by auto
  moreover have "\<exists>revs. sd_validRevisions s2 = sd_validRevisions s @ revs" using assms by (auto simp: steps_def)
  ultimately show ?thesis unfolding steps_def by blast
qed

lemma steps_Snapshot: "steps K db A s (snd (Snapshot s))"
  unfolding steps_def by (intro conjI exI [of _ "[OpSnapshot]"]) (auto simp: Snapshot_def)

text \<open>The queries have the effect of fetching the account.\<close>

lemma reads_fetch:
  "snd (GetBalance K db a s) = snd (getStateObject K db a s)" "snd (GetNonce K db a s) = snd (getStateObject K db a s)"
  "snd (GetCodeHash K db a s) = snd (getStateObject K db a s)" "snd (Exist K db a s) = snd (getStateObject K db a s)"
  by (auto simp: GetBalance_def GetNonce_def GetCodeHash_def Exist_def split: prod.splits option.splits)

context state_store begin

abbreviation tx :: "'tr StateDB \<Rightarrow> bool" where
  "tx s \<equiv> tx_state K db good A s"

lemma steps_tx:
  assumes "tx s" "steps K db A s s'"
  shows "tx s'"
proof -
  obtain H xs where "ok s" "al_ok (sd_accessList s)" "hist K db A H s" "\<forall>x\<in>set xs. pred_option (\<lambda>a. a \<in> A) (op_addr x)"
    "exec_all K db xs s = Some s'" using assms by (auto simp: tx_state_def steps_def)
  from exec_all_hist [OF this] show ?thesis by (auto simp: tx_state_def)
qed

lemma steps_op:
  assumes "tx s" "exec K db x s = Some s'" "pred_option (\<lambda>a. a \<in> A) (op_addr x)" "x \<noteq> OpSnapshot" "\<And>i. x \<noteq> OpRevert i"
  shows "steps K db A s s'"
proof -
  have "undo s s'" using exec_undo [OF _ _ assms(4,5,3,2)] assms(1) by (auto simp: tx_state_def)
  then have "sd_validRevisions s' = sd_validRevisions s" by (simp add: undoable_def same_revs_def)
  then show ?thesis using assms(2,3) unfolding steps_def by (auto intro: exI [of _ "[x]"])
qed

lemma steps_writes:
  assumes "tx s" "a \<in> A"
  shows "steps K db A s (CreateAccount K db a s)" "steps K db A s (AddBalance K db a n s)" "steps K db A s (SubBalance K db a n s)"
    "steps K db A s (SetNonce K db a m s)" "steps K db A s (SetCode K db a c s)" "steps K db A s (AddAddressToAccessList a s)"
    "steps K db A s (snd (GetCode K db a s))"
  using steps_op [OF assms(1), of "OpCreateAccount a"] steps_op [OF assms(1), of "OpAddBalance a n"]
    steps_op [OF assms(1), of "OpSubBalance a n"] steps_op [OF assms(1), of "OpSetNonce a m"]
    steps_op [OF assms(1), of "OpSetCode a c"] steps_op [OF assms(1), of "OpAddAddress a"] steps_op [OF assms(1), of "OpGetCode a"]
    assms(2) by simp_all

text \<open>Fetching an account changes nothing that can be seen.\<close>

lemma fetch_steps:
  assumes "tx s" "a \<in> A" "s' = snd (getStateObject K db a s)"
  shows "steps K db A s s'" "tx s'" "vw s' = vw s" "frame s s'"
proof -
  have ok: "ok s" using assms(1) by (simp add: tx_state_def)
  obtain s1 where "getStateObject K db a s = (live_obj K db s a, s1)" "loads K db good a s s1"
    using getStateObject_loads [OF ok] by blast
  then show "vw s' = vw s" "frame s s'" using loads_props [OF ok _ assms(2)] assms(3) by auto
  show st: "steps K db A s s'"
    using steps_op [OF assms(1), of "OpGetBalance a"] assms(2,3) by (simp add: reads_fetch)
  show "tx s'" by (rule steps_tx [OF assms(1) st])
qed

lemma same_view_bal: "tx s \<Longrightarrow> tx s' \<Longrightarrow> vw s' = vw s \<Longrightarrow> same_bal K db A s s'"
  using bal_cong by (simp add: same_bal_def tx_state_def)

lemma fetch_same_bal:
  assumes "tx s" "a \<in> A" "s' = snd (getStateObject K db a s)"
  shows "same_bal K db A s s'"
  using fetch_steps [OF assms] same_view_bal assms(1) by blast

lemma Snapshot_same_bal: "tx s \<Longrightarrow> Snapshot s = (revid, s') \<Longrightarrow> same_bal K db A s s'"
  using steps_tx [OF _ steps_Snapshot, of s] by (intro bal_objects) (auto simp: Snapshot_def tx_state_def)

lemma access_same_bal: "tx s \<Longrightarrow> a \<in> A \<Longrightarrow> same_bal K db A s (AddAddressToAccessList a s)"
  using steps_tx [OF _ steps_writes(6), of s a]
  by (intro bal_objects) (auto simp: AddAddressToAccessList_def tx_state_def journal_append_def Let_def split: prod.splits)

lemma Transfer_steps:
  assumes "tx s" "a \<in> A" "b \<in> A"
  shows "steps K db A s (Transfer K db a b v s)"
  unfolding Transfer_def using steps_writes(3) [OF assms(1,2)] steps_writes(2) [OF steps_tx [OF assms(1)] assms(3)] steps_trans by blast

subsection \<open>Going back\<close>

lemma revert_steps:
  assumes tx: "tx s" and snap: "Snapshot s = (revid, s1)" and st: "steps K db A s1 s2"
  obtains s3 where "RevertToSnapshot K db revid s2 = Some s3" "steps K db A s s3" "vw s3 = vw s"
    "entries_of s3 = entries_of s" "sd_validRevisions s3 = sd_validRevisions s"
proof -
  obtain H where H: "ok s" "al_ok (sd_accessList s)" "hist K db A H s" using tx by (auto simp: tx_state_def)
  obtain ys revs where ys: "\<forall>x\<in>set ys. pred_option (\<lambda>a. a \<in> A) (op_addr x)" "exec_all K db ys s1 = Some s2"
    "sd_validRevisions s2 = sd_validRevisions s1 @ revs" using st by (auto simp: steps_def)
  have "revid \<in> rev_id ` set (sd_validRevisions s2)" using snap ys(3) by (auto simp: Snapshot_def)
  then obtain s3 where s3: "RevertToSnapshot K db revid s2 = Some s3" "ok s3" "vw s3 = vw s"
    "entries_of s3 = entries_of s" "sd_validRevisions s3 = sd_validRevisions s"
    by (rule revert_from [OF H ys(1) snap ys(2)])
  let ?xs = "OpSnapshot # ys @ [OpRevert revid]"
  have "exec_all K db ?xs s = Some s3" using snap ys(2) s3(1) by (simp add: exec_all_append)
  moreover have "\<forall>x\<in>set ?xs. pred_option (\<lambda>a. a \<in> A) (op_addr x)" using ys(1) by auto
  ultimately have "steps K db A s s3" using s3(5) unfolding steps_def by (metis append_Nil2)
  then show ?thesis using that s3 by blast
qed

lemma outcome_refl: "left = smoke \<Longrightarrow> err \<in> {None, Some ErrDepth, Some ErrInsufficientBalance} \<Longrightarrow> outcome K db A s smoke left err s"
  by (auto simp: outcome_def)

lemma outcome_fetch:
  assumes "tx s" "a \<in> A" "outcome K db A (snd (getStateObject K db a s)) smoke left err s'"
  shows "outcome K db A s smoke left err s'"
  using fetch_steps [OF assms(1,2) refl] assms(3) steps_trans
  unfolding outcome_def frame_def entries_of_def by metis

lemma call_end_outcome:
  assumes "tx s" "Snapshot s = (revid, s1)" "steps K db A s1 s2" "left \<le> smoke"
  shows "\<exists>left' s'. call_end K db revid (ret, err, left, s2) = Some (ret, left', err, s') \<and> outcome K db A s smoke left' err s'"
proof (cases err)
  case None
  have "steps K db A s s2" using steps_Snapshot [of K db A s] assms(2,3) steps_trans by fastforce
  then show ?thesis using None assms(4) by (simp add: call_end_def outcome_def)
next
  case (Some e)
  obtain s3 where "RevertToSnapshot K db revid s2 = Some s3" "steps K db A s s3" "vw s3 = vw s"
    "entries_of s3 = entries_of s" "sd_validRevisions s3 = sd_validRevisions s"
    by (rule revert_steps [OF assms(1-3)])
  then show ?thesis using Some assms(4) by (auto simp: call_end_def outcome_def)
qed

subsection \<open>Calls\<close>

lemma native_call_bound: "native_call p input smoke s = (ret, err, left, s') \<Longrightarrow> s' = s \<and> left \<le> smoke"
  by (auto simp: native_call_def RunPrecompiledContract_def Let_def word_le_nat_alt word_less_nat_alt unat_sub_if_size split: if_splits prod.splits)

lemma run_code_steps:
  assumes "interp_ok K db good A run" "tx s" "addr \<in> A" "ref_Address (c_self c) \<in> A"
    "run_code K db run evm c addr input ro s = Some (ret, err, left, s')"
  shows "steps K db A s s'" "left \<le> c_Smoke c"
proof -
  let ?s1 = "snd (getStateObject K db addr s)"
  let ?s2 = "snd (GetCode K db addr ?s1)"
  obtain h code where r: "run evm (SetCallCode addr h code c) input ro ?s2 = Some (ret, err, left, s')"
    using assms(5) reads_fetch(3) [of K db addr s]
    by (cases "GetCodeHash K db addr s"; cases "GetCode K db addr ?s1") (auto simp: run_code_def)
  note f = fetch_steps [OF assms(2,3) refl]
  note g = steps_writes(7) [OF f(2) assms(3)]
  have "ref_Address (c_self (SetCallCode addr h code c)) \<in> A" using assms(4) by (simp add: SetCallCode_def)
  note i = interp_okD [OF assms(1) this steps_tx [OF f(2) g] r]
  show "left \<le> c_Smoke c" using i(2) by (simp add: SetCallCode_def)
  show "steps K db A s s'" using f(1) g i(1) steps_trans by metis
qed

lemma body_outcome:
  assumes "tx s" "Snapshot s = (revid, s1)" "steps K db A s1 s2"
    and "\<And>ret err left s3. body = Some (ret, err, left, s3) \<Longrightarrow> steps K db A s2 s3 \<and> left \<le> smoke"
    and "(case body of None \<Rightarrow> None | Some r \<Rightarrow> call_end K db revid r) = Some (ret, left, err, s')"
  shows "outcome K db A s smoke left err s'"
proof -
  obtain ret' err' left' s3 where b: "body = Some (ret', err', left', s3)" "call_end K db revid (ret', err', left', s3) = Some (ret, left, err, s')"
    using assms(5) by (auto split: option.splits)
  have "steps K db A s1 s3" "left' \<le> smoke" using assms(3,4) b(1) steps_trans by blast+
  from call_end_outcome [OF assms(1,2) this, of ret' err'] b(2) show ?thesis by auto
qed

lemma body_total:
  assumes "tx s" "Snapshot s = (revid, s1)" "steps K db A s1 s2"
    and "\<And>ret err left s3. body = Some (ret, err, left, s3) \<Longrightarrow> steps K db A s2 s3 \<and> left \<le> smoke" and "body \<noteq> None"
  shows "(case body of None \<Rightarrow> None | Some r \<Rightarrow> call_end K db revid r) \<noteq> None"
proof -
  obtain ret err left s3 where b: "body = Some (ret, err, left, s3)" using assms(5) by (metis not_None_eq prod_cases4)
  have "steps K db A s1 s3" "left \<le> smoke" using assms(3,4) b steps_trans by blast+
  from call_end_outcome [OF assms(1,2) this, of ret err] b show ?thesis by auto
qed

lemma run_code_total: "interp_total run \<Longrightarrow> run_code K db run evm c addr input ro s \<noteq> None"
  by (auto simp: run_code_def interp_total_def split: prod.splits)

lemma CallCode_outcome:
  assumes run: "interp_ok K db good A run" and tx: "tx s" and A: "ref_Address caller \<in> A" "addr \<in> A"
  shows "CallCode K db run evm caller addr input smoke v s = Some (ret, left, err, s') \<Longrightarrow> outcome K db A s smoke left err s'"
    and "interp_total run \<Longrightarrow> CallCode K db run evm caller addr input smoke v s \<noteq> None"
proof -
  let ?a = "ref_Address caller"
  let ?s1 = "snd (getStateObject K db ?a s)"
  obtain can where can: "CanTransfer K db ?a v s = (can, ?s1)"
    using reads_fetch(1) [of K db ?a s] by (cases "GetBalance K db ?a s") (auto simp: CanTransfer_def)
  obtain revid s2 where snap: "Snapshot ?s1 = (revid, s2)" by fastforce
  note f = fetch_steps [OF tx A(1) refl]
  have tx2: "tx s2" using steps_tx [OF f(2) steps_Snapshot] snap by simp
  let ?c = "NewContract caller (AccountRef ?a) (Some v) smoke"
  let ?body = "case evm_precompile evm addr of Some p \<Rightarrow> Some (native_call p input smoke s2)
    | None \<Rightarrow> run_code K db run evm ?c addr input False s2"
  have body: "steps K db A s2 s3 \<and> left \<le> smoke" if "?body = Some (ret, err, left, s3)" for ret err left s3
    using that native_call_bound run_code_steps [OF run tx2 A(2), of ?c] A(1)
    by (fastforce simp: NewContract_def split: option.splits)
  show "outcome K db A s smoke left err s'" if c: "CallCode K db run evm caller addr input smoke v s = Some (ret, left, err, s')"
  proof -
    consider (quick) "s' = s" "left = smoke" "err \<in> {None, Some ErrDepth}" | (poor) "s' = ?s1" "left = smoke" "err = Some ErrInsufficientBalance"
      | (call) "(case ?body of None \<Rightarrow> None | Some r \<Rightarrow> call_end K db revid r) = Some (ret, left, err, s')"
      using c can snap by (auto simp: CallCode_def split: if_splits)
    then show ?thesis
    proof cases
      case quick
      then show ?thesis by (auto intro: outcome_refl)
    next
      case poor
      show ?thesis by (rule outcome_fetch [OF tx A(1)]) (use poor in \<open>auto intro: outcome_refl\<close>)
    next
      case call
      show ?thesis by (rule outcome_fetch [OF tx A(1)], rule body_outcome [OF f(2) snap steps_refl body call])
    qed
  qed
  have "?body \<noteq> None" if "interp_total run" using run_code_total [OF that] by (simp split: option.split del: not_None_eq)
  from body_total [OF f(2) snap steps_refl body this] show "CallCode K db run evm caller addr input smoke v s \<noteq> None" if "interp_total run"
    using that can snap by (auto simp: CallCode_def)
qed

lemma DelegateCall_outcome:
  assumes run: "interp_ok K db good A run" and tx: "tx s" and A: "ref_Address caller \<in> A" "addr \<in> A"
  shows "DelegateCall K db run evm caller addr input smoke s = Some (ret, left, err, s') \<Longrightarrow> outcome K db A s smoke left err s'"
    and "interp_total run \<Longrightarrow> caller = ContractOf self parent pv \<Longrightarrow> DelegateCall K db run evm caller addr input smoke s \<noteq> None"
proof -
  obtain revid s2 where snap: "Snapshot s = (revid, s2)" by fastforce
  have tx2: "tx s2" using steps_tx [OF tx steps_Snapshot] snap by simp
  let ?c = "AsDelegate (NewContract caller (AccountRef (ref_Address caller)) None smoke)"
  let ?body = "case evm_precompile evm addr of Some p \<Rightarrow> Some (native_call p input smoke s2)
    | None \<Rightarrow> (case ?c of None \<Rightarrow> None | Some contract \<Rightarrow> run_code K db run evm contract addr input False s2)"
  have cc: "ref_Address (c_self c) \<in> A \<and> c_Smoke c = smoke" if "?c = Some c" for c
    using that A(1) by (auto simp: AsDelegate_def NewContract_def split: ContractRef.splits)
  have body: "steps K db A s2 s3 \<and> left \<le> smoke" if b: "?body = Some (ret, err, left, s3)" for ret err left s3
  proof (cases "evm_precompile evm addr")
    case None
    then obtain c where "?c = Some c" "run_code K db run evm c addr input False s2 = Some (ret, err, left, s3)"
      using b by (auto split: option.splits)
    then show ?thesis using run_code_steps [OF run tx2 A(2)] cc by metis
  qed (use b native_call_bound in fastforce)
  show "outcome K db A s smoke left err s'" if c: "DelegateCall K db run evm caller addr input smoke s = Some (ret, left, err, s')"
  proof -
    consider (quick) "s' = s" "left = smoke" "err \<in> {None, Some ErrDepth}"
      | (call) "(case ?body of None \<Rightarrow> None | Some r \<Rightarrow> call_end K db revid r) = Some (ret, left, err, s')"
      using c snap by (auto simp: DelegateCall_def split: if_splits)
    then show ?thesis
    proof cases
      case call
      show ?thesis by (rule body_outcome [OF tx snap steps_refl body call])
    qed (auto intro: outcome_refl)
  qed
  have "?body \<noteq> None" if "interp_total run" "caller = ContractOf self parent pv"
    using run_code_total [OF that(1)] that(2) by (simp add: AsDelegate_def NewContract_def split: option.split del: not_None_eq)
  from body_total [OF tx snap steps_refl body this] show "DelegateCall K db run evm caller addr input smoke s \<noteq> None"
    if "interp_total run" "caller = ContractOf self parent pv"
    using that snap by (auto simp: DelegateCall_def)
qed

lemma StaticCall_outcome:
  assumes run: "interp_ok K db good A run" and tx: "tx s" and A: "addr \<in> A"
  shows "StaticCall K db run evm caller addr input smoke s = Some (ret, left, err, s') \<Longrightarrow> outcome K db A s smoke left err s'"
    and "interp_total run \<Longrightarrow> StaticCall K db run evm caller addr input smoke s \<noteq> None"
proof -
  obtain revid s1 where snap: "Snapshot s = (revid, s1)" by fastforce
  have tx1: "tx s1" using steps_tx [OF tx steps_Snapshot] snap by simp
  let ?s2 = "AddBalance K db addr 0 s1"
  note st = steps_writes(2) [OF tx1 A, of 0]
  let ?c = "NewContract caller (AccountRef addr) (Some 0) smoke"
  let ?body = "case evm_precompile evm addr of Some p \<Rightarrow> Some (native_call p input smoke ?s2)
    | None \<Rightarrow> run_code K db run evm ?c addr input True ?s2"
  have body: "steps K db A ?s2 s3 \<and> left \<le> smoke" if "?body = Some (ret, err, left, s3)" for ret err left s3
    using that native_call_bound run_code_steps [OF run steps_tx [OF tx1 st] A, of ?c] A
    by (fastforce simp: NewContract_def split: option.splits)
  show "outcome K db A s smoke left err s'" if c: "StaticCall K db run evm caller addr input smoke s = Some (ret, left, err, s')"
  proof -
    consider (quick) "s' = s" "left = smoke" "err \<in> {None, Some ErrDepth}"
      | (call) "(case ?body of None \<Rightarrow> None | Some r \<Rightarrow> call_end K db revid r) = Some (ret, left, err, s')"
      using c snap by (auto simp: StaticCall_def Let_def split: if_splits)
    then show ?thesis
    proof cases
      case call
      show ?thesis by (rule body_outcome [OF tx snap st body call])
    qed (auto intro: outcome_refl)
  qed
  have "?body \<noteq> None" if "interp_total run" using run_code_total [OF that] by (simp split: option.split del: not_None_eq)
  from body_total [OF tx snap st body this] show "StaticCall K db run evm caller addr input smoke s \<noteq> None" if "interp_total run"
    using that snap by (auto simp: StaticCall_def Let_def)
qed

lemma Call_outcome:
  assumes run: "interp_ok K db good A run" and tx: "tx s" and A: "ref_Address caller \<in> A" "addr \<in> A"
  shows "Call K db run evm caller addr input smoke v s = Some (ret, left, err, s') \<Longrightarrow> outcome K db A s smoke left err s'"
    and "interp_total run \<Longrightarrow> Call K db run evm caller addr input smoke v s \<noteq> None"
    and "Call K db run evm caller addr input smoke v s = Some (ret, left, None, s') \<Longrightarrow> finite A \<Longrightarrow> 0 \<le> v \<Longrightarrow>
      interp_fair K db good A run \<Longrightarrow> no_mint K db A s s'"
proof -
  let ?a = "ref_Address caller"
  define s1 where "s1 = (if v \<noteq> 0 then snd (getStateObject K db ?a s) else s)"
  have "snd (if v \<noteq> 0 then CanTransfer K db ?a v s else (True, s)) = s1"
    using reads_fetch(1) [of K db ?a s] by (simp add: CanTransfer_def s1_def split_def Let_def)
  moreover define can where "can = fst (if v \<noteq> 0 then CanTransfer K db ?a v s else (True, s))"
  ultimately have can: "(if v \<noteq> 0 then CanTransfer K db ?a v s else (True, s)) = (can, s1)"
    by (intro prod_eqI) simp_all
  have tx1: "tx s1" and keep: "outcome K db A s1 smoke left err s' \<Longrightarrow> outcome K db A s smoke left err s'"
    using fetch_steps(2) [OF tx A(1) refl] tx outcome_fetch [OF tx A(1)] by (simp_all add: s1_def split: if_splits)
  obtain revid s2 where snap: "Snapshot s1 = (revid, s2)" by fastforce
  have tx2: "tx s2" using steps_tx [OF tx1 steps_Snapshot] snap by simp
  obtain ex s3 where ex: "Exist K db addr s2 = (ex, s3)" by fastforce
  have st3: "steps K db A s2 s3" "tx s3" using fetch_steps [OF tx2 A(2)] reads_fetch(4) [of K db addr s2] ex by auto
  define s4 where "s4 = (if \<not> ex then CreateAccount K db addr s3 else s3)"
  have st4: "steps K db A s3 s4" using steps_writes(1) [OF st3(2) A(2)] by (simp add: s4_def)
  define s5 where "s5 = Transfer K db ?a addr v s4"
  have st5: "steps K db A s4 s5" using Transfer_steps [OF steps_tx [OF st3(2) st4] A] by (simp add: s5_def)
  have tx5: "tx s5" using steps_tx st3 st4 st5 by blast
  have st25: "steps K db A s2 s5" using st3(1) st4 st5 steps_trans by blast
  obtain code s6 where code: "GetCode K db addr s5 = (code, s6)" by fastforce
  have st6: "steps K db A s5 s6" using steps_writes(7) [OF tx5 A(2)] code by simp
  obtain h s7 where h: "GetCodeHash K db addr s6 = (h, s7)" by fastforce
  have st7: "steps K db A s6 s7" "tx s7"
    using fetch_steps [OF steps_tx [OF tx5 st6] A(2)] reads_fetch(3) [of K db addr s6] h by auto
  let ?c = "SetCallCode addr h (code_bytes code) (NewContract caller (AccountRef addr) (Some v) smoke)"
  define body where "body = (case evm_precompile evm addr of Some p \<Rightarrow> Some (native_call p input smoke s5)
    | None \<Rightarrow> if length (code_bytes code) = 0 then Some ([], None, smoke, s6) else run evm ?c input False s7)"
  have eq: "Call K db run evm caller addr input smoke v s =
    (if evm_NoRecursion evm \<and> 0 < evm_depth evm then Some ([], smoke, None, s)
     else if CallCreateDepth < evm_depth evm then Some ([], smoke, Some ErrDepth, s)
     else if \<not> can then Some ([], smoke, Some ErrInsufficientBalance, s1)
     else if \<not> ex \<and> evm_precompile evm addr = None \<and> r_IsEIP158 (evm_chainRules evm) \<and> v = 0 then Some ([], smoke, None, s3)
     else case body of None \<Rightarrow> None | Some r \<Rightarrow> call_end K db revid r)"
    by (simp only: Call_def Let_def can snap ex prod.case s4_def [symmetric] s5_def [symmetric] code h body_def)
  have b: "steps K db A s5 s8 \<and> left \<le> smoke" if b: "body = Some (ret, err, left, s8)" for ret err left s8
  proof -
    have "steps K db A s7 s8 \<and> left \<le> smoke" if "run evm ?c input False s7 = Some (ret, err, left, s8)"
      using interp_okD [OF run _ st7(2) that] A(2) by (simp add: SetCallCode_def NewContract_def)
    moreover have "steps K db A s5 s7" using st6 st7(1) steps_trans by blast
    ultimately have "steps K db A s5 s8 \<and> left \<le> smoke" if "run evm ?c input False s7 = Some (ret, err, left, s8)"
      using that steps_trans by blast
    moreover have "steps K db A s5 s8 \<and> left \<le> smoke" if "native_call p input smoke s5 = (ret, err, left, s8)" for p
      using native_call_bound [OF that] by simp
    ultimately show ?thesis using b st6 by (auto simp: body_def split: option.splits if_splits)
  qed
  show "outcome K db A s smoke left err s'" if c: "Call K db run evm caller addr input smoke v s = Some (ret, left, err, s')"
  proof -
    consider (quick) "s' = s" "left = smoke" "err \<in> {None, Some ErrDepth}" | (poor) "s' = s1" "left = smoke" "err = Some ErrInsufficientBalance"
      | (empty) "s' = s3" "left = smoke" "err = None"
      | (call) "(case body of None \<Rightarrow> None | Some r \<Rightarrow> call_end K db revid r) = Some (ret, left, err, s')"
      using c unfolding eq by (auto split: if_splits)
    then show ?thesis
    proof cases
      case empty
      have "steps K db A s1 s3" using steps_Snapshot [of K db A s1] snap st3(1) steps_trans by fastforce
      then show ?thesis using empty by (intro keep) (simp add: outcome_def)
    next
      case poor
      show ?thesis by (rule keep) (use poor in \<open>auto intro: outcome_refl\<close>)
    next
      case call
      show ?thesis by (rule keep, rule body_outcome [OF tx1 snap st25 b call])
    qed (auto intro: outcome_refl)
  qed
  have "body \<noteq> None" if "interp_total run" using that by (simp add: body_def interp_total_def split: option.split del: not_None_eq)
  from body_total [OF tx1 snap st25 b this] show "Call K db run evm caller addr input smoke v s \<noteq> None" if "interp_total run"
    using that by (auto simp: eq)
  show "no_mint K db A s s'" if c: "Call K db run evm caller addr input smoke v s = Some (ret, left, None, s')" and fin: "finite A" and v: "0 \<le> v"
    and fair: "interp_fair K db good A run"
  proof -
    have b1: "same_bal K db A s s1" using fetch_same_bal [OF tx A(1) refl] by (simp add: s1_def)
    have b3: "same_bal K db A s s3"
      using b1 Snapshot_same_bal [OF tx1 snap] fetch_same_bal [OF tx2 A(2), of s3] reads_fetch(4) [of K db addr s2] ex same_bal_trans
      by (metis snd_conv)
    have "same_bal K db A s3 s4" using writes_same_bal(3) [OF _ A(2)] st3(2) by (simp add: s4_def tx_state_def)
    then have b4: "same_bal K db A s s4" using b3 same_bal_trans by blast
    have "v = 0 \<or> v \<le> bal K db s4 ?a" if "can"
    proof (cases "v = 0")
      case False
      then have "v \<le> bal K db s ?a" using that can by (simp add: CanTransfer_def bal_def split_def Let_def)
      then show ?thesis using b4 A(1) by (simp add: same_bal_def)
    qed simp
    then have b5: "no_mint K db A s s5" if "can"
      using that Transfer_no_mint [OF _ fin A v, of s4] steps_tx [OF st3(2) st4] no_mint_trans [OF same_bal_no_mint [OF b4]]
      by (simp add: s5_def Transfer_def tx_state_def)
    have b6: "same_bal K db A s5 s6" using GetCode_same_bal [OF _ A(2), of s5] tx5 code by (simp add: tx_state_def)
    have "same_bal K db A s6 s7" using fetch_same_bal [OF steps_tx [OF tx5 st6] A(2), of s7] reads_fetch(3) [of K db addr s6] h by simp
    then have b7: "same_bal K db A s5 s7" using b6 same_bal_trans by blast
    have run7: "no_mint K db A s5 s8" if r: "run evm ?c input False s7 = Some (ret, err, left, s8)" for ret err left s8
    proof -
      have "no_mint K db A s7 s8"
        using A(2) by (intro interp_fairD [OF fair _ st7(2) r]) (simp add: SetCallCode_def NewContract_def)
      then show ?thesis using no_mint_trans [OF same_bal_no_mint [OF b7]] by blast
    qed
    have body5: "no_mint K db A s5 s8" if b: "body = Some (ret, err, left, s8)" for ret err left s8
    proof -
      have "no_mint K db A s5 s8" if "native_call p input smoke s5 = (ret, err, left, s8)" for p
        using native_call_bound [OF that] same_bal_no_mint [OF same_bal_refl] by blast
      then show ?thesis using b run7 same_bal_no_mint [OF b6] by (auto simp: body_def split: option.splits if_splits)
    qed
    consider "same_bal K db A s s'" | ret1 err1 left1 where "can" "body = Some (ret1, err1, left1, s')"
      using c b3 unfolding eq by (auto simp: call_end_def split: if_splits option.splits)
    then show ?thesis
    proof cases
      case 2
      then show ?thesis using no_mint_trans [OF b5 body5] by blast
    qed (rule same_bal_no_mint)
  qed
qed

subsection \<open>Contract creation\<close>

lemma create_end_outcome:
  assumes tx: "tx s" and snap: "Snapshot s = (revid, s1)" and st: "steps K db A s1 s2" and a: "address \<in> A" and left: "c_Smoke c \<le> smoke"
  shows "create_end K db evm revid address c ret err s2 = Some (ret', addr', left, err', s') \<Longrightarrow> steps K db A s s' \<and> left \<le> smoke \<and>
    (err' \<noteq> None \<and> (r_IsHomestead (evm_chainRules evm) \<or> err' \<noteq> Some ErrCodeStoreOutOfSmoke) \<longrightarrow>
      view K db A s' = view K db A s \<and> (left = 0 \<or> err' = Some ErrExecutionReverted))"
    and "create_end K db evm revid address c ret err s2 \<noteq> None"
proof -
  define big where "big = (r_IsEIP158 (evm_chainRules evm) \<and> MaxCodeSize < length ret)"
  have ss: "steps K db A s s1" using steps_Snapshot [of K db A s] snap by simp
  obtain err1 c1 s3 where r: "(if err = None \<and> \<not> big then store_code K db address ret c s2 else (err, c, s2)) = (err1, c1, s3)"
    by (metis prod_cases3)
  have "tx s2" using steps_tx [OF steps_tx [OF tx ss] st] .
  then have s3: "steps K db A s1 s3" "c_Smoke c1 \<le> smoke"
    using r st left steps_writes(5) [of s2 address "Some ret"] a steps_trans
    by (auto simp: store_code_def UseSmoke_def word_le_nat_alt word_less_nat_alt unat_sub_if_size split: if_splits)
  obtain s4 where s4: "RevertToSnapshot K db revid s3 = Some s4" "steps K db A s s4" "vw s4 = vw s"
    by (rule revert_steps [OF tx snap s3(1)])
  have st3: "steps K db A s s3" using ss s3(1) steps_trans by blast
  show "steps K db A s s' \<and> left \<le> smoke \<and>
    (err' \<noteq> None \<and> (r_IsHomestead (evm_chainRules evm) \<or> err' \<noteq> Some ErrCodeStoreOutOfSmoke) \<longrightarrow>
      view K db A s' = view K db A s \<and> (left = 0 \<or> err' = Some ErrExecutionReverted))"
    if "create_end K db evm revid address c ret err s2 = Some (ret', addr', left, err', s')"
    using that s4 s3(2) st3 unfolding create_end_def big_def [symmetric]
    by (auto simp: r UseSmoke_def Let_def split: if_splits)
  show "create_end K db evm revid address c ret err s2 \<noteq> None"
    using s4(1) unfolding create_end_def big_def [symmetric] by (simp add: r Let_def)
qed

end

text \<open>
  The state in which a contract is created: the nonce of the creator is used up, and the
  new address is in the access list, whatever becomes of the creation.
\<close>

definition create_start ::
  "(bytes \<Rightarrow> hash) \<Rightarrow> 'tr database \<Rightarrow> EVM \<Rightarrow> address \<Rightarrow> address \<Rightarrow> int \<Rightarrow> 'tr StateDB \<Rightarrow> 'tr StateDB" where
  "create_start K db evm creator address v s =
    (let s = snd (CanTransfer K db creator v s);
         (nonce, s) = GetNonce K db creator s;
         s = SetNonce K db creator (nonce + 1) s
     in if r_IsYoloV2 (evm_chainRules evm) then AddAddressToAccessList address s else s)"

context state_store begin

lemma create_outcome:
  assumes run: "interp_ok K db good A run" and tx: "tx s" and A: "ref_Address caller \<in> A" "address \<in> A"
  shows "evm_create K db run evm caller cah smoke v address s = Some (ret, addr', left, err, s') \<Longrightarrow> steps K db A s s' \<and> left \<le> smoke \<and>
    (err \<in> {Some ErrDepth, Some ErrInsufficientBalance} \<longrightarrow> view K db A s' = view K db A s \<or>
       view K db A s' = view K db A (create_start K db evm (ref_Address caller) address v s)) \<and>
    (err \<notin> {None, Some ErrDepth, Some ErrInsufficientBalance} \<and> (r_IsHomestead (evm_chainRules evm) \<or> err \<noteq> Some ErrCodeStoreOutOfSmoke) \<longrightarrow>
      view K db A s' = view K db A (create_start K db evm (ref_Address caller) address v s) \<and> (left = 0 \<or> err = Some ErrExecutionReverted))"
    and "interp_total run \<Longrightarrow> evm_create K db run evm caller cah smoke v address s \<noteq> None"
    and "evm_create K db run evm caller cah smoke v address s = Some (ret, addr', left, err, s') \<Longrightarrow> finite A \<Longrightarrow> 0 \<le> v \<Longrightarrow>
      interp_fair K db good A run \<Longrightarrow> no_mint K db A s s'"
proof -
  let ?a = "ref_Address caller"
  define s1 where "s1 = snd (getStateObject K db ?a s)"
  obtain can where can: "CanTransfer K db ?a v s = (can, s1)"
    using reads_fetch(1) [of K db ?a s] by (cases "GetBalance K db ?a s") (auto simp: CanTransfer_def s1_def)
  note f1 = fetch_steps [OF tx A(1) s1_def]
  define s2 where "s2 = snd (getStateObject K db ?a s1)"
  obtain nonce where nonce: "GetNonce K db ?a s1 = (nonce, s2)" using reads_fetch(2) [of K db ?a s1] by (metis prod.collapse s2_def)
  note f2 = fetch_steps [OF f1(2) A(1) s2_def]
  define s3 where "s3 = SetNonce K db ?a (nonce + 1) s2"
  note st3 = steps_writes(4) [OF f2(2) A(1), of "nonce + 1", folded s3_def]
  define s4 where "s4 = (if r_IsYoloV2 (evm_chainRules evm) then AddAddressToAccessList address s3 else s3)"
  have st4: "steps K db A s3 s4" using steps_writes(6) [OF steps_tx [OF f2(2) st3] A(2)] by (simp add: s4_def)
  have tx4: "tx s4" using steps_tx f2(2) st3 st4 by blast
  define s5 where "s5 = snd (getStateObject K db address s4)"
  obtain h where h: "GetCodeHash K db address s4 = (h, s5)" using reads_fetch(3) [of K db address s4] by (metis prod.collapse s5_def)
  note f5 = fetch_steps [OF tx4 A(2) s5_def]
  define s6 where "s6 = snd (getStateObject K db address s5)"
  obtain n where n: "GetNonce K db address s5 = (n, s6)" using reads_fetch(2) [of K db address s5] by (metis prod.collapse s6_def)
  note f6 = fetch_steps [OF f5(2) A(2) s6_def]
  have start: "create_start K db evm ?a address v s = s4" by (simp add: create_start_def can nonce s3_def [symmetric] s4_def Let_def)
  have v6: "vw s6 = vw s4" using f5(3) f6(3) by simp
  have st6: "steps K db A s s6" using f1(1) f2(1) st3 st4 f5(1) f6(1) steps_trans by metis
  obtain revid s7 where snap: "Snapshot s6 = (revid, s7)" by fastforce
  have st7: "steps K db A s6 s7" "tx s7" using steps_Snapshot [of K db A s6] steps_tx [OF f6(2) steps_Snapshot] snap by simp_all
  define s8 where "s8 = CreateAccount K db address s7"
  note st8 = steps_writes(1) [OF st7(2) A(2), folded s8_def]
  define s9 where "s9 = (if r_IsEIP158 (evm_chainRules evm) then SetNonce K db address 1 s8 else s8)"
  have st9: "steps K db A s8 s9" using steps_writes(4) [OF steps_tx [OF st7(2) st8] A(2)] by (simp add: s9_def)
  define s10 where "s10 = Transfer K db ?a address v s9"
  have st10: "steps K db A s9 s10" using Transfer_steps [OF steps_tx [OF steps_tx [OF st7(2) st8] st9] A] by (simp add: s10_def)
  have st710: "steps K db A s7 s10" using st8 st9 st10 steps_trans by blast
  define con where "con = SetCodeOptionalHash address cah (NewContract caller (AccountRef address) (Some v) smoke)"
  have con: "ref_Address (c_self con) \<in> A" "c_Smoke con = smoke" using A(2) by (simp_all add: con_def SetCodeOptionalHash_def NewContract_def)
  have eq: "evm_create K db run evm caller cah smoke v address s =
    (if CallCreateDepth < evm_depth evm then Some ([], replicate 20 0, smoke, Some ErrDepth, s)
     else if \<not> can then Some ([], replicate 20 0, smoke, Some ErrInsufficientBalance, s1)
     else if n \<noteq> 0 \<or> (h \<noteq> zero_hash \<and> h \<noteq> emptyCodeHash K) then Some ([], replicate 20 0, 0, Some ErrContractAddressCollision, s6)
     else if evm_NoRecursion evm \<and> 0 < evm_depth evm then Some ([], address, smoke, None, s10)
     else case run evm con [] False s10 of
            None \<Rightarrow> None
          | Some (ret, err, left, s) \<Rightarrow> create_end K db evm revid address (con\<lparr>c_Smoke := left\<rparr>) ret err s)"
    by (simp only: evm_create_def Let_def can nonce h n snap prod.case s3_def [symmetric] s4_def [symmetric]
        s8_def [symmetric] s9_def [symmetric] s10_def [symmetric] con_def [symmetric])
  have tx10: "tx s10" by (rule steps_tx [OF st7(2) st710])
  show "steps K db A s s' \<and> left \<le> smoke \<and>
    (err \<in> {Some ErrDepth, Some ErrInsufficientBalance} \<longrightarrow> view K db A s' = view K db A s \<or>
       view K db A s' = view K db A (create_start K db evm (ref_Address caller) address v s)) \<and>
    (err \<notin> {None, Some ErrDepth, Some ErrInsufficientBalance} \<and> (r_IsHomestead (evm_chainRules evm) \<or> err \<noteq> Some ErrCodeStoreOutOfSmoke) \<longrightarrow>
      view K db A s' = view K db A (create_start K db evm (ref_Address caller) address v s) \<and> (left = 0 \<or> err = Some ErrExecutionReverted))"
    if c: "evm_create K db run evm caller cah smoke v address s = Some (ret, addr', left, err, s')"
  proof -
    consider (depth) "s' = s" "left = smoke" "err = Some ErrDepth" | (poor) "s' = s1" "left = smoke" "err = Some ErrInsufficientBalance"
      | (clash) "s' = s6" "left = 0" "err = Some ErrContractAddressCollision" | (flat) "s' = s10" "left = smoke" "err = None"
      | (run) ret1 err1 left1 s11 where "run evm con [] False s10 = Some (ret1, err1, left1, s11)"
          "create_end K db evm revid address (con\<lparr>c_Smoke := left1\<rparr>) ret1 err1 s11 = Some (ret, addr', left, err, s')"
      using c unfolding eq by (auto split: if_splits option.splits)
    then show ?thesis
    proof cases
      case poor
      then show ?thesis using f1(1,3) by simp
    next
      case clash
      then show ?thesis using st6 v6 by (simp add: start)
    next
      case flat
      then show ?thesis using st6 st7(1) st710 steps_trans by (auto intro: steps_trans)
    next
      case run
      note i = interp_okD [OF assms(1) con(1) tx10 run(1)]
      have "steps K db A s7 s11" using st710 i(1) steps_trans by blast
      from create_end_outcome(1) [OF f6(2) snap this A(2) _ run(2), of smoke] i(2) con(2)
      show ?thesis using steps_trans [OF st6] v6 by (auto simp: start)
    qed simp
  qed
  show "evm_create K db run evm caller cah smoke v address s \<noteq> None" if tot: "interp_total run"
  proof -
    obtain ret1 err1 left1 s11 where r: "run evm con [] False s10 = Some (ret1, err1, left1, s11)"
      using tot unfolding interp_total_def by (metis not_None_eq prod_cases4)
    note i = interp_okD [OF assms(1) con(1) tx10 r]
    have "steps K db A s7 s11" using st710 i(1) steps_trans by blast
    from create_end_outcome(2) [OF f6(2) snap this A(2), of "con\<lparr>c_Smoke := left1\<rparr>" left1] show ?thesis
      by (simp add: eq r del: not_None_eq)
  qed
  show "no_mint K db A s s'" if c: "evm_create K db run evm caller cah smoke v address s = Some (ret, addr', left, err, s')"
    and fin: "finite A" and v: "0 \<le> v" and fair: "interp_fair K db good A run"
  proof -
    have b1: "same_bal K db A s s1" by (rule fetch_same_bal [OF tx A(1) s1_def])
    have "same_bal K db A s s3" using b1 fetch_same_bal [OF f1(2) A(1) s2_def] writes_same_bal(1) [OF _ A(1), of s2 "nonce + 1", folded s3_def] f2(2) same_bal_trans
      unfolding tx_state_def by blast
    moreover have "same_bal K db A s3 s4" using access_same_bal [OF steps_tx [OF f2(2) st3] A(2)] by (simp add: s4_def)
    ultimately have b6: "same_bal K db A s s6"
      using fetch_same_bal [OF tx4 A(2) s5_def] fetch_same_bal [OF f5(2) A(2) s6_def] same_bal_trans by metis
    have ok7: "ok s7" "ok s8" "ok s9"
      using st7(2) steps_tx [OF st7(2) st8] steps_tx [OF steps_tx [OF st7(2) st8] st9] by (simp_all add: tx_state_def)
    have "same_bal K db A s7 s9"
      using writes_same_bal(3) [OF ok7(1) A(2), folded s8_def] writes_same_bal(1) [OF ok7(2) A(2), of 1] same_bal_trans by (auto simp: s9_def)
    then have b9: "same_bal K db A s s9" using b6 Snapshot_same_bal [OF f6(2) snap] same_bal_trans by blast
    have b10: "no_mint K db A s s10" if "can"
    proof -
      have "v \<le> bal K db s ?a" using that can by (simp add: CanTransfer_def bal_def split_def Let_def)
      then have "v \<le> bal K db s9 ?a" using b9 A(1) by (simp add: same_bal_def)
      then show ?thesis using Transfer_no_mint [OF ok7(3) fin A v] no_mint_trans [OF same_bal_no_mint [OF b9]]
        by (simp add: s10_def Transfer_def)
    qed
    have b11: "no_mint K db A s s'" if "can" and r: "run evm con [] False s10 = Some (ret1, err1, left1, s11)"
      and e: "create_end K db evm revid address (con\<lparr>c_Smoke := left1\<rparr>) ret1 err1 s11 = Some (ret, addr', left, err, s')" for ret1 err1 left1 s11
    proof -
      note i = interp_okD [OF assms(1) con(1) tx10 r]
      have st: "steps K db A s7 s11" using st710 i(1) steps_trans by blast
      have tx11: "tx s11" by (rule steps_tx [OF st7(2) st])
      have n11: "no_mint K db A s s11" using b10 [OF that(1)] interp_fairD [OF fair con(1) tx10 r] no_mint_trans by blast
      have code: "same_bal K db A s11 (SetCode K db address (Some ret1) s11)" "tx (SetCode K db address (Some ret1) s11)" "steps K db A s7 (SetCode K db address (Some ret1) s11)"
        using writes_same_bal(2) [OF _ A(2), of s11] steps_writes(5) [OF tx11 A(2), of "Some ret1"] steps_tx [OF tx11] tx11 st steps_trans
        unfolding tx_state_def by blast+
      have returned: "no_mint K db A s s''" if rv: "RevertToSnapshot K db revid x = Some s''" and sx: "steps K db A s7 x" for x s''
      proof -
        obtain s3 where "RevertToSnapshot K db revid x = Some s3" "steps K db A s6 s3" "vw s3 = vw s6"
          by (rule revert_steps [OF f6(2) snap sx])
        then have "same_bal K db A s6 s''" using same_view_bal [OF f6(2)] steps_tx [OF f6(2)] rv by auto
        then show ?thesis using b6 same_bal_trans same_bal_no_mint by blast
      qed
      show ?thesis using e n11 no_mint_trans [OF n11 same_bal_no_mint [OF code(1)]] returned [OF _ st] returned [OF _ code(3)]
        by (auto simp: create_end_def store_code_def UseSmoke_def Let_def split: if_splits option.splits prod.splits)
    qed
    consider "same_bal K db A s s'" | "can" "s' = s10" | ret1 err1 left1 s11 where "can" "run evm con [] False s10 = Some (ret1, err1, left1, s11)"
        "create_end K db evm revid address (con\<lparr>c_Smoke := left1\<rparr>) ret1 err1 s11 = Some (ret, addr', left, err, s')"
      using c b1 b6 unfolding eq by (auto split: if_splits option.splits)
    then show ?thesis
    proof cases
      case 3
      then show ?thesis by (rule b11)
    qed (use b10 in \<open>auto intro: same_bal_no_mint\<close>)
  qed
qed

end

subsection \<open>Properties\<close>

datatype call_kind = CALL | CALLCODE | DELEGATECALL | STATICCALL

fun evm_call ::
  "(bytes \<Rightarrow> hash) \<Rightarrow> 'tr database \<Rightarrow> 'tr interpreter \<Rightarrow> EVM \<Rightarrow> call_kind \<Rightarrow> ContractRef \<Rightarrow> address \<Rightarrow> bytes \<Rightarrow> uint64 \<Rightarrow> int \<Rightarrow> 'tr StateDB \<Rightarrow>
    (bytes \<times> uint64 \<times> vm_err option \<times> 'tr StateDB) option" where
  "evm_call K db run evm CALL caller addr input smoke v s = Call K db run evm caller addr input smoke v s"
| "evm_call K db run evm CALLCODE caller addr input smoke v s = CallCode K db run evm caller addr input smoke v s"
| "evm_call K db run evm DELEGATECALL caller addr input smoke v s = DelegateCall K db run evm caller addr input smoke s"
| "evm_call K db run evm STATICCALL caller addr input smoke v s = StaticCall K db run evm caller addr input smoke s"

lemma evm_call_outcome:
  assumes "state_store db good K A" "interp_ok K db good A run" "tx_state K db good A s"
    and "ref_Address caller \<in> A" "addr \<in> A"
  shows "evm_call K db run evm kind caller addr input smoke v s = Some (ret, left, err, s') \<Longrightarrow> outcome K db A s smoke left err s'"
    and "interp_total run \<Longrightarrow> kind \<noteq> DELEGATECALL \<or> caller = ContractOf self parent pv \<Longrightarrow>
      evm_call K db run evm kind caller addr input smoke v s \<noteq> None"
  using state_store.Call_outcome [OF assms] state_store.CallCode_outcome [OF assms] state_store.DelegateCall_outcome [OF assms]
    state_store.StaticCall_outcome [OF assms(1-3,5)]
  by (cases kind; simp del: not_None_eq)+


definition ex_run :: "secure_trie interpreter" where
  "ex_run evm c input readOnly s = Some ([], Some ErrOutOfSmoke, 0, SetNonce BytesToHash ex_db ex_addr 7 s)"

definition ex_evm :: EVM where
  "ex_evm = \<lparr>evm_GetHash = (\<lambda>_. zero_hash), evm_Coinbase = ex_addr, evm_SmokeLimit = 8000000, evm_BlockNumber = 9, evm_Time = 1600000000,
    evm_Difficulty = 130130, evm_Origin = ex_addr, evm_SmokePrice = 1, evm_ChainID = Some 2020, evm_NoRecursion = False,
    evm_EnablePreimageRecording = False, evm_depth = 0, evm_readOnly = False, evm_chainRules = config_Rules example_config (Some 9),
    evm_HomesteadContracts = Map.empty, evm_ByzantiumContracts = Map.empty, evm_IstanbulContracts = Map.empty, evm_YoloV2Contracts = Map.empty\<rparr>"

lemma ex_run_ok: "interp_ok BytesToHash ex_db trie_good {ex_addr} ex_run" "interp_total ex_run"
  using state_store.steps_writes(4) [OF ex_store] by (auto simp: interp_ok_def interp_total_def ex_run_def)

lemma ex_tx: "tx_state BytesToHash ex_db trie_good {ex_addr} ex_state"
  using ex_ok hist_empty [of ex_state] by (auto simp: tx_state_def)

definition ex_contract_state :: "secure_trie StateDB" where
  "ex_contract_state = SetCode BytesToHash ex_db ex_addr (Some [0xFE]) ex_state"

lemma ex_contract_tx: "tx_state BytesToHash ex_db trie_good {ex_addr} ex_contract_state"
  using state_store.steps_tx [OF ex_store ex_tx] state_store.steps_writes(5) [OF ex_store ex_tx] by (simp add: ex_contract_state_def)




end
