(* ===== verification/Core_Transition.thy ===== *)
theory Core_Transition
  imports Evm_Safety
begin

section \<open>State transitions\<close>

text \<open>
  The application of a message to the state, \<open>src/core/state_transition.go\<close>, with the smoke
  pool of a block, \<open>src/core/smokepool.go\<close>. Smoke is a 64-bit word; prices, values and
  balances are unbounded integers. \<open>None\<close> is a panic.
\<close>

datatype core_err =
    ErrNonceTooLow
  | ErrNonceTooHigh
  | ErrSmokeLimitReached
  | ErrInsufficientFundsForTransfer
  | ErrInsufficientFunds
  | ErrSmokeOverflow
  | ErrIntrinsicSmoke

subsection \<open>The smoke pool\<close>

type_synonym SmokePool = uint64

definition AddSmoke :: "uint64 \<Rightarrow> SmokePool \<Rightarrow> SmokePool option" where
  "AddSmoke amount gp = (if 0xFFFFFFFFFFFFFFFF - amount < gp then None else Some (gp + amount))"

definition SubSmoke :: "uint64 \<Rightarrow> SmokePool \<Rightarrow> core_err + SmokePool" where
  "SubSmoke amount gp = (if gp < amount then Inl ErrSmokeLimitReached else Inr (gp - amount))"

subsection \<open>Intrinsic smoke\<close>

abbreviation TxSmoke :: uint64 where
  "TxSmoke \<equiv> 20000"

abbreviation TxSmokeContractCreation :: uint64 where
  "TxSmokeContractCreation \<equiv> 50000"

abbreviation TxDataZeroSmoke :: uint64 where
  "TxDataZeroSmoke \<equiv> 4"

abbreviation TxDataNonZeroSmokeFrontier :: uint64 where
  "TxDataNonZeroSmokeFrontier \<equiv> 68"

abbreviation TxDataNonZeroSmokeEIP2028 :: uint64 where
  "TxDataNonZeroSmokeEIP2028 \<equiv> 16"

definition count_nonzero :: "bytes \<Rightarrow> uint64" where
  "count_nonzero data = fold (\<lambda>byt nz. if byt \<noteq> 0 then nz + 1 else nz) data 0"

definition IntrinsicSmoke :: "bytes \<Rightarrow> bool \<Rightarrow> bool \<Rightarrow> bool \<Rightarrow> core_err + uint64" where
  "IntrinsicSmoke data contractCreation isHomestead isEIP2028 =
    (let smoke = (if contractCreation \<and> isHomestead then TxSmokeContractCreation else TxSmoke) in
     if length data = 0 then Inr smoke
     else let nz = count_nonzero data;
              nonZeroSmoke = (if isEIP2028 then TxDataNonZeroSmokeEIP2028 else TxDataNonZeroSmokeFrontier) in
     if (0xFFFFFFFFFFFFFFFF - smoke) div nonZeroSmoke < nz then Inl ErrSmokeOverflow
     else let smoke = smoke + nz * nonZeroSmoke;
              z = word_of_nat (length data) - nz in
     if (0xFFFFFFFFFFFFFFFF - smoke) div TxDataZeroSmoke < z then Inl ErrSmokeOverflow
     else Inr (smoke + z * TxDataZeroSmoke))"

subsection \<open>Messages and transitions\<close>

record Message =
  msg_From :: address
  msg_To :: "address option"
  msg_SmokePrice :: int
  msg_Smoke :: uint64
  msg_Value :: int
  msg_Nonce :: uint64
  msg_CheckNonce :: bool
  msg_Data :: bytes

record 'tr StateTransition =
  st_gp :: SmokePool
  st_msg :: Message
  st_smoke :: uint64
  st_smokePrice :: int
  st_initialSmoke :: uint64
  st_value :: int
  st_data :: bytes
  st_state :: "'tr StateDB"

record ExecutionResult =
  er_UsedSmoke :: uint64
  er_Err :: "vm_err option"
  er_ReturnData :: bytes

abbreviation er_Failed :: "ExecutionResult \<Rightarrow> bool" where
  "er_Failed result \<equiv> er_Err result \<noteq> None"

abbreviation er_Return :: "ExecutionResult \<Rightarrow> bytes option" where
  "er_Return result \<equiv> (if er_Err result \<noteq> None then None else Some (er_ReturnData result))"

abbreviation er_Revert :: "ExecutionResult \<Rightarrow> bytes option" where
  "er_Revert result \<equiv> (if er_Err result \<noteq> Some ErrExecutionReverted then None else Some (er_ReturnData result))"

definition NewStateTransition :: "Message \<Rightarrow> SmokePool \<Rightarrow> 'tr StateDB \<Rightarrow> 'tr StateTransition" where
  "NewStateTransition msg gp s =
    \<lparr>st_gp = gp, st_msg = msg, st_smoke = 0, st_smokePrice = msg_SmokePrice msg, st_initialSmoke = 0,
     st_value = msg_Value msg, st_data = msg_Data msg, st_state = s\<rparr>"

definition st_to :: "'tr StateTransition \<Rightarrow> address" where
  "st_to st = (case msg_To (st_msg st) of None \<Rightarrow> replicate 20 0 | Some a \<Rightarrow> a)"

definition smokeUsed :: "'tr StateTransition \<Rightarrow> uint64" where
  "smokeUsed st = st_initialSmoke st - st_smoke st"

definition buySmoke :: "(bytes \<Rightarrow> hash) \<Rightarrow> 'tr database \<Rightarrow> 'tr StateTransition \<Rightarrow> core_err option \<times> 'tr StateTransition" where
  "buySmoke K db st =
    (let msg = st_msg st;
         mgval = uint (msg_Smoke msg) * st_smokePrice st;
         (have_bal, s) = GetBalance K db (msg_From msg) (st_state st);
         st = st\<lparr>st_state := s\<rparr> in
     if have_bal < mgval then (Some ErrInsufficientFunds, st)
     else case SubSmoke (msg_Smoke msg) (st_gp st) of
            Inl e \<Rightarrow> (Some e, st)
          | Inr gp \<Rightarrow>
              (None, st\<lparr>st_gp := gp, st_smoke := st_smoke st + msg_Smoke msg, st_initialSmoke := msg_Smoke msg,
                        st_state := SubBalance K db (msg_From msg) mgval s\<rparr>))"

definition preCheck :: "(bytes \<Rightarrow> hash) \<Rightarrow> 'tr database \<Rightarrow> 'tr StateTransition \<Rightarrow> core_err option \<times> 'tr StateTransition" where
  "preCheck K db st =
    (let msg = st_msg st in
     if msg_CheckNonce msg
     then let (stNonce, s) = GetNonce K db (msg_From msg) (st_state st);
              st = st\<lparr>st_state := s\<rparr>
          in if stNonce < msg_Nonce msg then (Some ErrNonceTooHigh, st)
             else if msg_Nonce msg < stNonce then (Some ErrNonceTooLow, st)
             else buySmoke K db st
     else buySmoke K db st)"

definition refundSmoke :: "(bytes \<Rightarrow> hash) \<Rightarrow> 'tr database \<Rightarrow> 'tr StateTransition \<Rightarrow> 'tr StateTransition option" where
  "refundSmoke K db st =
    (let refund = smokeUsed st div 2;
         refund = (if GetRefund (st_state st) < refund then GetRefund (st_state st) else refund);
         st = st\<lparr>st_smoke := st_smoke st + refund\<rparr>;
         remaining = uint (st_smoke st) * st_smokePrice st;
         st = st\<lparr>st_state := AddBalance K db (msg_From (st_msg st)) remaining (st_state st)\<rparr>
     in case AddSmoke (st_smoke st) (st_gp st) of
          None \<Rightarrow> None
        | Some gp \<Rightarrow> Some (st\<lparr>st_gp := gp\<rparr>))"

text \<open>
  The execution of the message in the virtual machine; the sender's nonce is raised by
  \<open>Create\<close> itself, and before \<open>Call\<close>.
\<close>

definition execute ::
  "(bytes \<Rightarrow> hash) \<Rightarrow> 'tr database \<Rightarrow> 'tr interpreter \<Rightarrow> EVM \<Rightarrow> 'tr StateTransition \<Rightarrow>
    (bytes \<times> vm_err option \<times> 'tr StateTransition) option" where
  "execute K db run evm st =
    (let msg = st_msg st; sender = AccountRef (msg_From msg) in
     case msg_To msg of
       None \<Rightarrow>
         (case Create K db run evm sender (st_data st) (st_smoke st) (st_value st) (st_state st) of
            None \<Rightarrow> None
          | Some (ret, _, smoke, vmerr, s) \<Rightarrow> Some (ret, vmerr, st\<lparr>st_smoke := smoke, st_state := s\<rparr>))
     | Some _ \<Rightarrow>
         (let (nonce, s) = GetNonce K db (msg_From msg) (st_state st);
              s = SetNonce K db (msg_From msg) (nonce + 1) s
          in case Call K db run evm sender (st_to st) (st_data st) (st_smoke st) (st_value st) s of
               None \<Rightarrow> None
             | Some (ret, smoke, vmerr, s) \<Rightarrow> Some (ret, vmerr, st\<lparr>st_smoke := smoke, st_state := s\<rparr>)))"

definition settle ::
  "(bytes \<Rightarrow> hash) \<Rightarrow> 'tr database \<Rightarrow> address \<Rightarrow> bytes \<Rightarrow> vm_err option \<Rightarrow> 'tr StateTransition \<Rightarrow>
    (ExecutionResult \<times> 'tr StateTransition) option" where
  "settle K db coinbase ret vmerr st =
    (case refundSmoke K db st of
       None \<Rightarrow> None
     | Some st \<Rightarrow>
         (let st = st\<lparr>st_state := AddBalance K db coinbase (uint (smokeUsed st) * st_smokePrice st) (st_state st)\<rparr>
          in Some (\<lparr>er_UsedSmoke = smokeUsed st, er_Err = vmerr, er_ReturnData = ret\<rparr>, st)))"

definition TransitionDb ::
  "(bytes \<Rightarrow> hash) \<Rightarrow> 'tr database \<Rightarrow> 'tr interpreter \<Rightarrow> EVM \<Rightarrow> address \<Rightarrow> 'tr StateTransition \<Rightarrow>
    ((core_err + ExecutionResult) \<times> 'tr StateTransition) option" where
  "TransitionDb K db run evm coinbase st =
    (case preCheck K db st of
       (Some err, st) \<Rightarrow> Some (Inl err, st)
     | (None, st) \<Rightarrow>
         (let msg = st_msg st in
          case IntrinsicSmoke (st_data st) (msg_To msg = None) (r_IsHomestead (evm_chainRules evm)) (r_IsIstanbul (evm_chainRules evm)) of
            Inl err \<Rightarrow> Some (Inl err, st)
          | Inr smoke \<Rightarrow>
              (if st_smoke st < smoke then Some (Inl ErrIntrinsicSmoke, st)
               else let st = st\<lparr>st_smoke := st_smoke st - smoke\<rparr>;
                        (can, s) = (if 0 < msg_Value msg then CanTransfer K db (msg_From msg) (msg_Value msg) (st_state st) else (True, st_state st));
                        st = st\<lparr>st_state := s\<rparr>
                    in if \<not> can then Some (Inl ErrInsufficientFundsForTransfer, st)
                       else case execute K db run evm st of
                              None \<Rightarrow> None
                            | Some (ret, vmerr, st) \<Rightarrow>
                                (case settle K db coinbase ret vmerr st of
                                   None \<Rightarrow> None
                                 | Some (result, st) \<Rightarrow> Some (Inr result, st)))))"

definition ApplyMessage ::
  "(bytes \<Rightarrow> hash) \<Rightarrow> 'tr database \<Rightarrow> 'tr interpreter \<Rightarrow> EVM \<Rightarrow> address \<Rightarrow> Message \<Rightarrow> SmokePool \<Rightarrow> 'tr StateDB \<Rightarrow>
    ((core_err + ExecutionResult) \<times> SmokePool \<times> 'tr StateDB) option" where
  "ApplyMessage K db run evm coinbase msg gp s =
    map_option (\<lambda>(r, st). (r, st_gp st, st_state st)) (TransitionDb K db run evm coinbase (NewStateTransition msg gp s))"

end
