(* ===== verification/State_Effects.thy ===== *)
theory State_Effects
  imports State_Balance
begin

section \<open>Refunds, code and liveness of accounts\<close>

text \<open>
  What the operations of the state database do to the storage, the code and the existence of
  accounts. A slot is cleared when its value is zero but was not before the transaction; the
  virtual machine pays a refund for each, and takes it back when the slot is set again. The
  invariant \<open>refund_covers\<close> says that the refund counter is large enough to take all of them back.
\<close>

definition cleared :: "state_view \<Rightarrow> (address \<times> hash) set" where
  "cleared v = {(a, k). \<exists>ob. v_live v a = Some ob \<and> ov_state ob k = Some zero_hash \<and> ov_committed ob k \<noteq> Some zero_hash}"

definition refund_covers :: "state_view \<Rightarrow> bool" where
  "refund_covers v \<longleftrightarrow> finite (cleared v) \<and> 15000 * card (cleared v) \<le> unat (v_refund v)"

definition short_codes :: "state_view \<Rightarrow> bool" where
  "short_codes v \<longleftrightarrow> (\<forall>a ob c. v_live v a = Some ob \<longrightarrow> ov_code ob = Some c \<longrightarrow> length c < 2 ^ 63)"

text \<open>No account and no entry of the access list is lost.\<close>

definition grows :: "state_view \<Rightarrow> state_view \<Rightarrow> bool" where
  "grows v v' \<longleftrightarrow> (\<forall>a. v_live v a \<noteq> None \<longrightarrow> v_live v' a \<noteq> None) \<and> dom (al_addresses (v_accessList v)) \<subseteq> dom (al_addresses (v_accessList v'))"

definition tame :: "state_view \<Rightarrow> state_view \<Rightarrow> bool" where
  "tame v v' \<longleftrightarrow> cleared v' \<subseteq> cleared v \<and> (short_codes v \<longrightarrow> short_codes v') \<and> grows v v' \<and> v_refund v' = v_refund v"

lemma grows_refl [simp]: "grows v v"
  by (simp add: grows_def)

lemma grows_trans [trans]: "grows v v1 \<Longrightarrow> grows v1 v2 \<Longrightarrow> grows v v2"
  unfolding grows_def by blast

lemma tame_refl [simp]: "tame v v"
  by (simp add: tame_def)

lemma tame_trans [trans]: "tame v v1 \<Longrightarrow> tame v1 v2 \<Longrightarrow> tame v v2"
  unfolding tame_def using grows_trans by auto

lemma refund_covers_mono:
  assumes "refund_covers v" "cleared v' \<subseteq> cleared v" "unat (v_refund v) \<le> unat (v_refund v')"
  shows "refund_covers v'"
  using assms card_mono [of "cleared v" "cleared v'"] finite_subset [of "cleared v'"] unfolding refund_covers_def by fastforce

lemma tame_inv: "tame v v' \<Longrightarrow> refund_covers v \<Longrightarrow> refund_covers v'" "tame v v' \<Longrightarrow> short_codes v \<Longrightarrow> short_codes v'"
  using refund_covers_mono by (simp_all add: tame_def)

text \<open>A new object has no changed slot and no code.\<close>

definition fresh :: "object_view \<Rightarrow> bool" where
  "fresh ob \<longleftrightarrow> ov_state ob = ov_committed ob \<and> ov_code ob = None"

definition keeps_store :: "object_view option \<Rightarrow> object_view \<Rightarrow> bool" where
  "keeps_store old ob \<longleftrightarrow> fresh ob \<or>
    (\<exists>ob0. old = Some ob0 \<and> ov_state ob = ov_state ob0 \<and> ov_committed ob = ov_committed ob0 \<and> ov_code ob = ov_code ob0)"

text \<open>\<open>puts a v v' ob\<close>: the view \<open>v'\<close> has the object \<open>ob\<close> at \<open>a\<close>, and all else as \<open>v\<close>.\<close>

definition puts :: "address \<Rightarrow> state_view \<Rightarrow> state_view \<Rightarrow> object_view \<Rightarrow> bool" where
  "puts a v v' ob \<longleftrightarrow> (\<forall>b. v_live v' b = (if b = a then Some ob else v_live v b)) \<and>
    v_refund v' = v_refund v \<and> v_accessList v' = v_accessList v"

lemma puts_grows: "puts a v v' ob \<Longrightarrow> grows v v'"
  by (simp add: puts_def grows_def)

lemma puts_tame:
  assumes p: "puts a v v' ob" and k: "keeps_store (v_live v a) ob"
  shows "tame v v'"
proof -
  have "cleared v' \<subseteq> cleared v"
    using p k by (auto simp: puts_def keeps_store_def fresh_def cleared_def split: if_splits)
  moreover have "short_codes v'" if "short_codes v"
    using p k that unfolding puts_def keeps_store_def fresh_def short_codes_def by (metis option.distinct(1) option.inject)
  ultimately show ?thesis using puts_grows [OF p] p by (simp add: tame_def puts_def)
qed

lemma tame_shared:
  assumes "v_objects v' = v_objects v" "v_refund v' = v_refund v"
    "dom (al_addresses (v_accessList v)) \<subseteq> dom (al_addresses (v_accessList v'))"
  shows "tame v v'"
proof -
  have "v_live v' = v_live v" using assms(1) by (simp add: fun_eq_iff v_live_def)
  then show ?thesis using assms by (simp add: tame_def cleared_def short_codes_def grows_def)
qed

context state_store begin

lemma new_fresh: "fresh (oview ctx (so_setBalance b (so_setNonce 0 (newObject K a Account_zero))))" if "ctx_db ctx = db" "ctx_keccak ctx = K"
  unfolding oview_eq [OF new_ok(3) that]
  by (simp add: fresh_def so_setBalance_def so_setNonce_def newObject_def Account_zero_def code_value_def Let_def)

text \<open>Fetching or making an account, and storing a changed object.\<close>

lemma GetOrNew_puts:
  assumes ok: "ok s" and a: "a \<in> A"
  obtains obj s1 where "GetOrNewStateObject K db a s = (obj, s1)" "ok s1" "obj_ok K good a obj" "\<not> so_deleted obj"
    "puts a (vw s) (vw s1) (oview (sd_ctx K db s1) obj)" "keeps_store (v_live (vw s) a) (oview (sd_ctx K db s1) obj)"
    "\<And>ob. v_live (vw s) a = Some ob \<Longrightarrow> oview (sd_ctx K db s1) obj = ob"
proof -
  obtain obj s1 where g: "GetOrNewStateObject K db a s = (obj, s1)" "ok s1" and "undo s s1"
    and g': "sd_stateObjects s1 a = Some obj" "\<not> so_deleted obj"
    "\<And>b. b \<noteq> a \<Longrightarrow> v_objects (vw s1) b = v_objects (vw s) b" "\<And>ob. v_live (vw s) a = Some ob \<Longrightarrow> vw s1 = vw s"
    "v_live (vw s) a = None \<Longrightarrow> obj = so_setNonce 0 (newObject K a Account_zero)"
    by (rule GetOrNewStateObject_undo [OF ok a]) (rule that)
  have oo: "obj_ok K good a obj" using sd_okD(2) [OF g(2) g'(1)] by simp
  have l: "v_live (vw s1) a = Some (oview (sd_ctx K db s1) obj)"
    unfolding v_live_view [OF a] using g'(1,2) by (simp add: live_obj_def lookup_obj_def)
  have o: "v_live (vw s1) b = v_live (vw s) b" if "b \<noteq> a" for b by (rule v_live_other) (rule g'(3) [OF that])
  have p: "puts a (vw s) (vw s1) (oview (sd_ctx K db s1) obj)"
    using l o shared_GetOrNew [OF shared_fields(1) g(1)] shared_GetOrNew [OF shared_fields(2) g(1)] by (simp add: puts_def)
  have same: "oview (sd_ctx K db s1) obj = ob" if "v_live (vw s) a = Some ob" for ob using that g'(4) l by simp
  have "keeps_store (v_live (vw s) a) (oview (sd_ctx K db s1) obj)"
  proof (cases "v_live (vw s) a")
    case None
    have "so_setBalance 0 obj = obj" using g'(5) [OF None]
      by (simp add: so_setNonce_def newObject_def Account_zero_def so_setBalance_def Let_def)
    then show ?thesis using new_fresh [of "sd_ctx K db s1" 0 a] g'(5) [OF None] by (simp add: keeps_store_def)
  next
    case (Some ob)
    then show ?thesis using same by (auto simp: keeps_store_def)
  qed
  then show ?thesis using that [OF g oo g'(2) p _ same] by blast
qed

lemma put_puts:
  assumes "puts a (vw s) (vw s1) ob1" "ok s1" "a \<in> A" "obj_ok K good a obj" "\<not> so_deleted obj" "entry_ok K good A e"
  shows "puts a (vw s) (vw (setStateObject obj (journal_append e s1))) (oview (sd_ctx K db s1) obj)"
proof -
  have "ok (journal_append e s1)" using assms by simp
  from put_live [OF this assms(3-5)] assms(1) show ?thesis by (simp add: puts_def)
qed

lemma setters_puts:
  assumes ok: "ok s" and a: "a \<in> A"
  shows "\<exists>ob. puts a (vw s) (vw (AddBalance K db a n s)) ob \<and> keeps_store (v_live (vw s) a) ob"
    "\<exists>ob. puts a (vw s) (vw (SubBalance K db a n s)) ob \<and> keeps_store (v_live (vw s) a) ob"
    "\<exists>ob. puts a (vw s) (vw (SetNonce K db a m s)) ob \<and> keeps_store (v_live (vw s) a) ob"
    "\<exists>ob. puts a (vw s) (vw (SetBalance K db a n s)) ob \<and> keeps_store (v_live (vw s) a) ob"
proof -
  obtain obj s1 where g: "GetOrNewStateObject K db a s = (obj, s1)" "ok s1" "obj_ok K good a obj" "\<not> so_deleted obj"
    "puts a (vw s) (vw s1) (oview (sd_ctx K db s1) obj)" "keeps_store (v_live (vw s) a) (oview (sd_ctx K db s1) obj)"
    by (rule GetOrNew_puts [OF ok a]) (rule that)
  let ?ctx = "sd_ctx K db s1"
  note u = obj_updates [OF g(3), of ?ctx, simplified]
  note put = put_puts [OF g(5,2) a]
  have ad: "so_address obj = a" using g(3) by (simp add: obj_ok_def)
  have k: "keeps_store (v_live (vw s) a) ((oview ?ctx obj)\<lparr>ov_balance := n'\<rparr>)"
    "keeps_store (v_live (vw s) a) ((oview ?ctx obj)\<lparr>ov_nonce := m\<rparr>)" for n'
    using g(6) by (simp_all add: keeps_store_def fresh_def)
  have sb: "\<exists>ob. puts a (vw s) (vw (so_SetBalance n' obj s1)) ob \<and> keeps_store (v_live (vw s) a) ob" for n'
    using put [OF u(1) [of n'], of "balanceChange (so_address obj) (so_Balance obj)"] g(4) a ad k(1)
    unfolding so_SetBalance_def u(6) by (auto simp: so_setBalance_def)
  have t: "puts a (vw s) (vw (so_touch obj s1)) (oview ?ctx obj)"
    using g(5) by (simp add: so_touch_def journal_dirty_def Let_def)
  show "\<exists>ob. puts a (vw s) (vw (AddBalance K db a n s)) ob \<and> keeps_store (v_live (vw s) a) ob"
    "\<exists>ob. puts a (vw s) (vw (SubBalance K db a n s)) ob \<and> keeps_store (v_live (vw s) a) ob"
    using sb [of "so_Balance obj + n"] sb [of "so_Balance obj - n"] t g
    by (auto simp: AddBalance_def so_AddBalance_def SubBalance_def so_SubBalance_def)
  show "\<exists>ob. puts a (vw s) (vw (SetNonce K db a m s)) ob \<and> keeps_store (v_live (vw s) a) ob"
    using put [OF u(2) [of m], of "nonceChange (so_address obj) (so_Nonce obj)"] g(1,4) a ad k(2) unfolding u(7)
    by (auto simp: SetNonce_def so_SetNonce_def so_setNonce_def)
  show "\<exists>ob. puts a (vw s) (vw (SetBalance K db a n s)) ob \<and> keeps_store (v_live (vw s) a) ob"
    using sb [of n] g(1) by (simp add: SetBalance_def)
qed

lemma CreateAccount_puts:
  assumes ok: "ok s" and a: "a \<in> A"
  shows "\<exists>ob. puts a (vw s) (vw (CreateAccount K db a s)) ob \<and> keeps_store (v_live (vw s) a) ob"
proof -
  obtain nb s2 where c: "createObject K db a s = (nb, live_obj K db s a, setStateObject nb s2)"
    "nb = so_setNonce 0 (newObject K a Account_zero)"
    "\<And>nb. obj_ok K good a nb \<Longrightarrow> ok (setStateObject nb s2) \<and> undo s (setStateObject nb s2) \<and>
      (\<forall>b. b \<noteq> a \<longrightarrow> v_objects (vw (setStateObject nb s2)) b = v_objects (vw s) b)"
    by (rule createObject_undo [OF ok a]) (rule that)
  have z: "so_setBalance 0 nb = nb" using c(2) by (simp add: so_setNonce_def newObject_def Account_zero_def so_setBalance_def Let_def)
  have ad: "so_address (so_setBalance b nb) = so_address nb" "so_address nb = a" for b
    using c(2) by (simp_all add: so_setBalance_def so_setNonce_def newObject_def)
  obtain b where ca: "CreateAccount K db a s = setStateObject (so_setBalance b nb) s2"
    using c(1) ad z by (cases "live_obj K db s a") (auto simp: CreateAccount_def, metis)
  have oo: "obj_ok K good a (so_setBalance b nb)" using new_ok(3) c(2) by simp
  let ?s = "setStateObject (so_setBalance b nb) s2"
  have ok': "ok ?s" and o: "\<And>d. d \<noteq> a \<Longrightarrow> v_live (vw ?s) d = v_live (vw s) d"
    using c(3) [OF oo] v_live_other by blast+
  have nd: "\<not> so_deleted (so_setBalance b nb)" using new_ok(2) c(2) by (simp add: so_setBalance_def)
  have "v_live (vw ?s) a = Some (oview (sd_ctx K db ?s) (so_setBalance b nb))"
    unfolding v_live_view [OF a] using nd ad by (simp add: live_obj_def lookup_setStateObject)
  moreover have "fresh (oview (sd_ctx K db ?s) (so_setBalance b nb))" using new_fresh c(2) by simp
  moreover have "exec K db (OpCreateAccount a) s = Some ?s" using ca by simp
  ultimately show ?thesis
    using o shared_exec [OF shared_fields(1), of K db "OpCreateAccount a" s ?s] shared_exec [OF shared_fields(2), of K db "OpCreateAccount a" s ?s]
    unfolding ca by (auto simp: puts_def keeps_store_def)
qed

lemma Suicide_puts:
  assumes ok: "ok s" and a: "a \<in> A"
  shows "vw (snd (Suicide K db a s)) = vw s \<or> (\<exists>ob. puts a (vw s) (vw (snd (Suicide K db a s))) ob \<and> keeps_store (v_live (vw s) a) ob)"
proof -
  obtain s1 where s1: "getStateObject K db a s = (live_obj K db s a, s1)" "loads K db good a s s1"
    using getStateObject_loads [OF ok] by blast
  note l = loads_props [OF ok s1(2) a]
  show ?thesis
  proof (cases "live_obj K db s a")
    case None
    then show ?thesis using s1(1) l(2) by (simp add: Suicide_def)
  next
    case (Some obj)
    have oo: "obj_ok K good a obj" using lookup_ok [OF ok a live_lookup [OF Some]] .
    have eq: "(markSuicided obj)\<lparr>so_Balance := 0\<rparr> = so_setBalance 0 (obj\<lparr>so_suicided := True\<rparr>)"
      by (simp add: markSuicided_def so_setBalance_def)
    note u = obj_updates(4,9) [OF oo, of "sd_ctx K db s1" 0 True, simplified]
    have d: "\<not> so_deleted (so_setBalance 0 (obj\<lparr>so_suicided := True\<rparr>))"
      using Some by (auto simp: so_setBalance_def live_obj_def split: option.splits if_splits)
    have v: "v_live (vw s) a = Some (oview (sd_ctx K db s1) obj)" using v_live_view [OF a, of s] Some l(6) by simp
    have p: "puts a (vw s) (vw s1) (oview (sd_ctx K db s1) obj)" using v l(2) by (simp add: puts_def)
    show ?thesis
      using put_puts [OF p l(1) a u(1) d, of "suicideChange a (so_suicided obj) (so_Balance obj)"] a s1(1) Some u(2) v
      by (auto simp: Suicide_def eq keeps_store_def)
  qed
qed

lemma SetCode_puts:
  assumes ok: "ok s" and a: "a \<in> A"
  shows "\<exists>ob ob0. puts a (vw s) (vw (SetCode K db a c s)) ob \<and> keeps_store (v_live (vw s) a) ob0 \<and>
    ov_state ob = ov_state ob0 \<and> ov_committed ob = ov_committed ob0 \<and> ov_code ob = c"
proof -
  obtain obj s1 where g: "GetOrNewStateObject K db a s = (obj, s1)" "ok s1" "obj_ok K good a obj" "\<not> so_deleted obj"
    "puts a (vw s) (vw s1) (oview (sd_ctx K db s1) obj)" "keeps_store (v_live (vw s) a) (oview (sd_ctx K db s1) obj)"
    by (rule GetOrNew_puts [OF ok a]) (rule that)
  let ?ctx = "sd_ctx K db s1" let ?h = "K (case c of None \<Rightarrow> [] | Some c \<Rightarrow> c)"
  obtain c1 err where so: "so_Code ?ctx obj = (code_value K db a (so_code obj) (so_CodeHash obj), obj\<lparr>so_code := c1, so_dbErr := err\<rparr>)"
    and cv: "code_value K db a c1 (so_CodeHash obj) = code_value K db a (so_code obj) (so_CodeHash obj)"
    using so_Code_recached [OF g(3), of ?ctx] by auto
  define obj1 where "obj1 = obj\<lparr>so_code := c1, so_dbErr := err\<rparr>"
  have o1: "obj_ok K good a obj1" "so_address obj1 = a" "\<not> so_deleted (so_setCode ?h c obj1)"
    using g(3,4) by (simp_all add: obj1_def obj_ok_def so_setCode_def)
  have ov: "oview ?ctx obj1 = oview ?ctx obj"
    unfolding oview_eq [OF g(3), of ?ctx, simplified] oview_eq [OF o1(1), of ?ctx, simplified]
    by (simp add: obj1_def cv cong: option.case_cong)
  note u1 = obj_updates(5,10) [OF o1(1), of ?ctx ?h, simplified, OF K_len]
  have cc: "code_value K db a c ?h = c" by (auto simp: code_value_def emptyCodeHash_def split: option.splits)
  have e: "SetCode K db a c s = setStateObject (so_setCode ?h c obj1) (journal_append (codeChange a (code_value K db a (so_code obj) (so_CodeHash obj)) (so_CodeHash obj1)) s1)"
    using g(1) so o1(2) by (simp add: SetCode_def so_SetCode_def obj1_def)
  have p: "puts a (vw s) (vw (SetCode K db a c s)) ((oview ?ctx obj)\<lparr>ov_code := c, ov_codeHash := ?h\<rparr>)"
    using put_puts [OF g(5,2) a u1(1) o1(3)] a u1(2) [of c] cc unfolding e ov by simp
  show ?thesis by (rule exI, rule exI, rule conjI [OF p], rule conjI [OF g(6)]) simp
qed

lemma SetState_puts:
  assumes ok: "ok s" and a: "a \<in> A" and ob: "v_live (vw s) a = Some ob"
  shows "\<exists>s'. SetState K db a key val s = Some s' \<and> ok s' \<and> puts a (vw s) (vw s') (ob\<lparr>ov_state := (ov_state ob)(key \<mapsto> val)\<rparr>)"
proof -
  obtain obj s1 where g: "GetOrNewStateObject K db a s = (obj, s1)" "ok s1" "obj_ok K good a obj" "\<not> so_deleted obj"
    "puts a (vw s) (vw s1) (oview (sd_ctx K db s1) obj)" "keeps_store (v_live (vw s) a) (oview (sd_ctx K db s1) obj)"
    "\<And>ob. v_live (vw s) a = Some ob \<Longrightarrow> oview (sd_ctx K db s1) obj = ob"
    by (rule GetOrNew_puts [OF ok a]) (rule that)
  let ?ctx = "sd_ctx K db s1"
  note va = g(7) [OF ob]
  have gd: "pred_option good (so_trie obj)" "so_fakeStorage obj = None" using g(3) by (simp_all add: obj_ok_def)
  obtain prev obj1 where gs: "so_GetState ?ctx obj key = Some (prev, obj1)" and rc: "recached ?ctx good obj obj1"
    using so_GetState_value [OF gd, of ?ctx key] by auto
  note r1 = recached_oview [OF g(3) _ _ rc, simplified]
  have d1: "\<not> so_deleted obj1" "so_address obj1 = a" using rc g(4) r1(1) by (auto simp: recached_def obj_ok_def)
  obtain s' where s': "SetState K db a key val s = Some s'" "ok s'" using SetState_undo [OF ok a, of key val] by blast
  have "puts a (vw s) (vw s') (ob\<lparr>ov_state := (ov_state ob)(key \<mapsto> val)\<rparr>)"
  proof (cases "prev = val")
    case True
    then have "s' = setStateObject obj1 s1" using s'(1) g(1) gd(2) gs by (simp add: SetState_def so_SetState_def)
    then have 1: "puts a (vw s) (vw s') ob" using put_live [OF g(2) a r1(1) d1(1)] r1(2) va g(5) by (simp add: puts_def)
    have "ov_state ob key = Some val" using gs True va by (auto simp: oview_def)
    then have "ob\<lparr>ov_state := (ov_state ob)(key \<mapsto> val)\<rparr> = ob" by (simp add: fun_upd_idem)
    then show ?thesis using 1 by simp
  next
    case False
    then have s2: "s' = setStateObject (so_setState key val obj1) (journal_append (storageChange a key prev) s1)"
      using s'(1) g(1) gd(2) gs d1(2) by (simp add: SetState_def so_SetState_def)
    note u = obj_updates(3,8) [OF r1(1), of ?ctx key val, simplified]
    have d: "\<not> so_deleted (so_setState key val obj1)" using d1(1) by (simp add: so_setState_def)
    show ?thesis unfolding s2 using put_puts [OF g(5,2) a u(1) d, of "storageChange a key prev"] a u(2) r1(2) va by simp
  qed
  then show ?thesis using s' by blast
qed

end

end
