(* ===== verification/Evm_Contract.thy ===== *)
theory Evm_Contract
  imports Evm_Safety State_Effects
begin

section \<open>A contract between calls and the interpreter\<close>

text \<open>
  What an interpreter promises when it starts in a sound state with a bounded amount of smoke,
  and that the calls and creations of \<open>Evm_Calls\<close> keep the promise if it does: they return, make
  no coins, and keep the refund counter, the codes and the accounts sound. A frame that fails
  only promises steps that can be taken back, since its caller goes back to the snapshot.
\<close>

subsection \<open>Relations between states\<close>

definition looks :: "(bytes \<Rightarrow> hash) \<Rightarrow> 'tr database \<Rightarrow> address set \<Rightarrow> 'tr StateDB \<Rightarrow> 'tr StateDB \<Rightarrow> bool" where
  "looks K db A s s' \<longleftrightarrow> steps K db A s s' \<and> view K db A s' = view K db A s"

definition still :: "(bytes \<Rightarrow> hash) \<Rightarrow> 'tr database \<Rightarrow> address set \<Rightarrow> 'tr StateDB \<Rightarrow> 'tr StateDB \<Rightarrow> bool" where
  "still K db A s s' \<longleftrightarrow> steps K db A s s' \<and> same_bal K db A s s' \<and> tame (view K db A s) (view K db A s')"

definition calm :: "(bytes \<Rightarrow> hash) \<Rightarrow> 'tr database \<Rightarrow> address set \<Rightarrow> 'tr StateDB \<Rightarrow> 'tr StateDB \<Rightarrow> bool" where
  "calm K db A s s' \<longleftrightarrow> steps K db A s s' \<and> no_mint K db A s s' \<and> tame (view K db A s) (view K db A s')"

definition sound :: "(bytes \<Rightarrow> hash) \<Rightarrow> 'tr database \<Rightarrow> ('tr \<Rightarrow> bool) \<Rightarrow> address set \<Rightarrow> 'tr StateDB \<Rightarrow> bool" where
  "sound K db good A s \<longleftrightarrow> tx_state K db good A s \<and> refund_covers (view K db A s) \<and> short_codes (view K db A s)"

text \<open>
  Every refund is paid for with smoke: \<open>pot\<close> does not grow, but for the refund of one
  self-destruction per frame.
\<close>

definition pot :: "'tr StateDB \<Rightarrow> uint64 \<Rightarrow> nat" where
  "pot s smoke = unat (sd_refund s) + 65536 * unat smoke"

definition settled :: "(bytes \<Rightarrow> hash) \<Rightarrow> 'tr database \<Rightarrow> address set \<Rightarrow> 'tr StateDB \<Rightarrow> uint64 \<Rightarrow> uint64 \<Rightarrow> 'tr StateDB \<Rightarrow> bool" where
  "settled K db A s smoke left s' \<longleftrightarrow> no_mint K db A s s' \<and> grows (view K db A s) (view K db A s') \<and>
    refund_covers (view K db A s') \<and> short_codes (view K db A s') \<and> pot s' left \<le> pot s smoke + 24000"

definition call_post :: "(bytes \<Rightarrow> hash) \<Rightarrow> 'tr database \<Rightarrow> address set \<Rightarrow> 'tr StateDB \<Rightarrow> uint64 \<Rightarrow> uint64 \<Rightarrow> 'tr StateDB \<Rightarrow> bool" where
  "call_post K db A s smoke left s' \<longleftrightarrow> steps K db A s s' \<and> left \<le> smoke \<and> settled K db A s smoke left s'"

definition body_post ::
  "(bytes \<Rightarrow> hash) \<Rightarrow> 'tr database \<Rightarrow> address set \<Rightarrow> 'tr StateDB \<Rightarrow> uint64 \<Rightarrow> vm_err option \<Rightarrow> uint64 \<Rightarrow> 'tr StateDB \<Rightarrow> bool" where
  "body_post K db A s smoke err left s' \<longleftrightarrow> steps K db A s s' \<and> left \<le> smoke \<and> (err = None \<longrightarrow> settled K db A s smoke left s')"

text \<open>The account that runs: it exists, and is on the access list where there is one.\<close>

definition runs_as :: "(bytes \<Rightarrow> hash) \<Rightarrow> 'tr database \<Rightarrow> address set \<Rightarrow> EVM \<Rightarrow> address \<Rightarrow> 'tr StateDB \<Rightarrow> bool" where
  "runs_as K db A evm a s \<longleftrightarrow> a \<in> A \<and> v_live (view K db A s) a \<noteq> None \<and>
    (r_IsYoloV2 (evm_chainRules evm) \<longrightarrow> a \<in> dom (al_addresses (sd_accessList s)))"

definition run_good :: "(bytes \<Rightarrow> hash) \<Rightarrow> 'tr database \<Rightarrow> ('tr \<Rightarrow> bool) \<Rightarrow> address set \<Rightarrow> 'tr interpreter \<Rightarrow> EVM \<Rightarrow> bool" where
  "run_good K db good A run evm \<longleftrightarrow>
    (\<forall>c input readOnly s. runs_as K db A evm (ref_Address (c_self c)) s \<longrightarrow> c_value c \<noteq> None \<longrightarrow>
      length (c_Code c) < 2 ^ 63 \<longrightarrow> length input < 2 ^ 63 \<longrightarrow> sound K db good A s \<longrightarrow> pot s (c_Smoke c) + 24000 < 2 ^ 64 \<longrightarrow>
      (\<exists>ret err left s'. run evm c input readOnly s = Some (ret, err, left, s') \<and>
        body_post K db A s (c_Smoke c) err left s' \<and> (err = None \<longrightarrow> length ret < 2 ^ 63) \<and> err \<noteq> Some ErrCodeStoreOutOfSmoke))"

lemma looks_refl [simp]: "looks K db A s s"
  by (simp add: looks_def)

lemma looks_trans [trans]: "looks K db A s s1 \<Longrightarrow> looks K db A s1 s2 \<Longrightarrow> looks K db A s s2"
  using steps_trans by (auto simp: looks_def)

lemma still_trans [trans]: "still K db A s s1 \<Longrightarrow> still K db A s1 s2 \<Longrightarrow> still K db A s s2"
  unfolding still_def using steps_trans same_bal_trans tame_trans by blast

lemma still_calm: "still K db A s s' \<Longrightarrow> calm K db A s s'"
  unfolding still_def calm_def using same_bal_no_mint by blast

lemma calm_refl [simp]: "calm K db A s s"
  by (simp add: calm_def same_bal_no_mint)

lemma calm_trans [trans]: "calm K db A s s1 \<Longrightarrow> calm K db A s1 s2 \<Longrightarrow> calm K db A s s2"
  unfolding calm_def using steps_trans no_mint_trans tame_trans by blast

lemma calm_refund: "calm K db A s s' \<Longrightarrow> sd_refund s' = sd_refund s"
  by (simp add: calm_def tame_def)

lemma calm_pot: "calm K db A s s' \<Longrightarrow> pot s' n = pot s n"
  by (simp add: pot_def calm_refund)

lemma grows_runs_as: "grows (view K db A s) (view K db A s') \<Longrightarrow> runs_as K db A evm a s \<Longrightarrow> runs_as K db A evm a s'"
  by (auto simp: grows_def runs_as_def)

lemma calm_runs_as: "calm K db A s s' \<Longrightarrow> runs_as K db A evm a s \<Longrightarrow> runs_as K db A evm a s'"
  using grows_runs_as by (auto simp: calm_def tame_def)

lemma runs_as_calm:
  "calm K db A s s' \<Longrightarrow> a \<in> A \<Longrightarrow> v_live (view K db A s') a \<noteq> None \<Longrightarrow>
    (r_IsYoloV2 (evm_chainRules evm) \<Longrightarrow> a \<in> dom (al_addresses (sd_accessList s))) \<Longrightarrow> runs_as K db A evm a s'"
  unfolding runs_as_def calm_def tame_def grows_def view_sel by (simp del: domIff not_None_eq) blast

lemma runs_as_evm: "evm_chainRules evm' = evm_chainRules evm \<Longrightarrow> runs_as K db A evm' a s = runs_as K db A evm a s"
  by (simp add: runs_as_def)

lemma settled_calm:
  assumes "calm K db A s s1" "settled K db A s1 smoke left s2"
  shows "settled K db A s smoke left s2"
  using assms no_mint_trans grows_trans unfolding settled_def calm_pot [OF assms(1)] by (auto simp: calm_def tame_def)

lemma call_post_calm:
  assumes "calm K db A s s1" "call_post K db A s1 smoke left s2"
  shows "call_post K db A s smoke left s2"
  using assms settled_calm [OF assms(1)] steps_trans unfolding call_post_def calm_def by blast

lemma body_post_calm:
  assumes "calm K db A s s1" "body_post K db A s1 smoke err left s2"
  shows "body_post K db A s smoke err left s2"
  using assms settled_calm [OF assms(1)] steps_trans unfolding body_post_def calm_def by blast

lemma run_goodE:
  assumes "run_good K db good A run evm" "runs_as K db A evm (ref_Address (c_self c)) s" "c_value c \<noteq> None"
    "length (c_Code c) < 2 ^ 63" "length input < 2 ^ 63" "sound K db good A s" "pot s (c_Smoke c) + 24000 < 2 ^ 64"
  obtains ret err left s' where "run evm c input readOnly s = Some (ret, err, left, s')"
    "body_post K db A s (c_Smoke c) err left s'" "err = None \<longrightarrow> length ret < 2 ^ 63" "err \<noteq> Some ErrCodeStoreOutOfSmoke"
  using assms unfolding run_good_def by blast

context state_store begin

lemma sound_tx: "sound K db good A s \<Longrightarrow> tx s" "sound K db good A s \<Longrightarrow> ok s"
  by (simp_all add: sound_def tx_state_def)

lemma calm_sound: "sound K db good A s \<Longrightarrow> calm K db A s s' \<Longrightarrow> sound K db good A s'"
  using steps_tx tame_inv unfolding sound_def calm_def by blast

lemma looks_tx: "tx s \<Longrightarrow> looks K db A s s' \<Longrightarrow> tx s'"
  using steps_tx by (simp add: looks_def)

lemma looks_still: "tx s \<Longrightarrow> looks K db A s s' \<Longrightarrow> still K db A s s'"
  using same_view_bal [of s s'] looks_tx [of s s'] unfolding looks_def still_def by (metis tame_refl)

lemmas looks_calm = looks_still [THEN still_calm]

lemma looks_sound: "sound K db good A s \<Longrightarrow> looks K db A s s' \<Longrightarrow> sound K db good A s'"
  using calm_sound looks_calm sound_tx by blast

lemma call_post_sound: "sound K db good A s \<Longrightarrow> call_post K db A s smoke left s' \<Longrightarrow> sound K db good A s'"
  using steps_tx by (auto simp: sound_def call_post_def settled_def)

subsection \<open>Reads\<close>

lemma reads_fetch2:
  "snd (Empty K db a s) = snd (getStateObject K db a s)" "snd (HasSuicided K db a s) = snd (getStateObject K db a s)"
  by (auto simp: Empty_def HasSuicided_def split: prod.splits option.splits)

lemma looks_fetch: "tx s \<Longrightarrow> a \<in> A \<Longrightarrow> looks K db A s (snd (getStateObject K db a s))"
  using fetch_steps by (simp add: looks_def)

lemma looks_reads:
  assumes "tx s" "a \<in> A"
  shows "looks K db A s (snd (GetBalance K db a s))" "looks K db A s (snd (GetNonce K db a s))"
    "looks K db A s (snd (GetCodeHash K db a s))" "looks K db A s (snd (Exist K db a s))"
    "looks K db A s (snd (Empty K db a s))" "looks K db A s (snd (HasSuicided K db a s))"
  using looks_fetch [OF assms] by (simp_all add: reads_fetch reads_fetch2)

lemma looks_code:
  assumes "tx s" "a \<in> A"
  shows "looks K db A s (snd (GetCode K db a s))" "looks K db A s (snd (GetCodeSize K db a s))"
  using steps_op [OF assms(1), of "OpGetCode a"] steps_op [OF assms(1), of "OpGetCodeSize a"]
    reads_undo(1) [of s a] GetCodeSize_undo [of s a] assms by (simp_all add: looks_def tx_state_def)

lemma GetCode_short:
  assumes "sound K db good A s" "a \<in> A"
  shows "length (code_bytes (fst (GetCode K db a s))) < 2 ^ 63"
  using reads_view(5) [OF sound_tx(2) [OF assms(1)] assms(2)] assms(1) unfolding sound_def short_codes_def
  by (auto simp: code_bytes_def split: option.splits)

lemma looks_slot:
  assumes "tx s" "a \<in> A"
  obtains val s' where "GetState K db a key s = Some (val, s')" "looks K db A s s'"
    "(case v_live (vw s) a of None \<Rightarrow> Some zero_hash | Some ob \<Rightarrow> ov_state ob key) = Some val"
proof -
  have ok: "ok s" using assms(1) by (simp add: tx_state_def)
  obtain s' where s': "map_option snd (GetState K db a key s) = Some s'" "vw s' = vw s" using reads_undo(2) [OF ok assms(2)] by blast
  then obtain val where v: "GetState K db a key s = Some (val, s')" by auto
  have "steps K db A s s'" using steps_op [OF assms(1), of "OpGetState a key" s'] s'(1) assms(2) by simp
  then show ?thesis using that [OF v] s'(2) reads_view(8) [OF ok assms(2), of key] v by (simp add: looks_def)
qed

lemma looks_committed:
  assumes "tx s" "a \<in> A"
  obtains val s' where "GetCommittedState K db a key s = Some (val, s')" "looks K db A s s'"
    "(case v_live (vw s) a of None \<Rightarrow> Some zero_hash | Some ob \<Rightarrow> ov_committed ob key) = Some val"
proof -
  have ok: "ok s" using assms(1) by (simp add: tx_state_def)
  obtain s' where s': "map_option snd (GetCommittedState K db a key s) = Some s'" "vw s' = vw s" using reads_undo(3) [OF ok assms(2)] by blast
  then obtain val where v: "GetCommittedState K db a key s = Some (val, s')" by auto
  have "steps K db A s s'" using steps_op [OF assms(1), of "OpGetCommittedState a key" s'] s'(1) assms(2) by simp
  then show ?thesis using that [OF v] s'(2) reads_view(9) [OF ok assms(2), of key] v by (simp add: looks_def)
qed

lemma looks_Snapshot: "looks K db A s (snd (Snapshot s))"
  using steps_Snapshot [of K db A s] by (simp add: looks_def Snapshot_def)

subsection \<open>Writes\<close>

lemma still_writes:
  assumes "tx s" "a \<in> A"
  shows "still K db A s (CreateAccount K db a s)" "still K db A s (SetNonce K db a m s)" "still K db A s (AddBalance K db a 0 s)"
    "still K db A s (AddAddressToAccessList a s)"
proof -
  have ok: "ok s" using assms(1) by (simp add: tx_state_def)
  note st = steps_writes [OF assms]
  show "still K db A s (CreateAccount K db a s)"
    using st(1) writes_same_bal(3) [OF ok assms(2)] CreateAccount_puts [OF ok assms(2)] puts_tame unfolding still_def by blast
  show "still K db A s (SetNonce K db a m s)"
    using st(4) writes_same_bal(1) [OF ok assms(2)] setters_puts(3) [OF ok assms(2)] puts_tame unfolding still_def by blast
  have "same_bal K db A s (AddBalance K db a 0 s)" using moves_bal(1) [OF ok assms(2)] by (simp add: same_bal_def)
  then show "still K db A s (AddBalance K db a 0 s)"
    using st(2) setters_puts(1) [OF ok assms(2)] puts_tame unfolding still_def by blast
  obtain added al where al: "AddAddress (sd_accessList s) a = (added, al)" by fastforce
  have v: "vw (AddAddressToAccessList a s) = (vw s)\<lparr>v_accessList := al\<rparr>" using al by (simp add: AddAddressToAccessList_def Let_def)
  have "tame (vw s) (vw (AddAddressToAccessList a s))"
    unfolding v using AddAddress_sets [OF al] by (intro tame_shared) auto
  then show "still K db A s (AddAddressToAccessList a s)" using st(6) access_same_bal [OF assms] by (simp add: still_def)
qed

lemmas calm_writes = still_writes [THEN still_calm]

lemma SetCode_still:
  assumes "tx s" "a \<in> A" "length c < 2 ^ 63"
  shows "still K db A s (SetCode K db a (Some c) s)"
proof -
  have ok: "ok s" using assms(1) by (simp add: tx_state_def)
  obtain ob ob0 where p: "puts a (vw s) (vw (SetCode K db a (Some c) s)) ob" "keeps_store (v_live (vw s) a) ob0"
    "ov_state ob = ov_state ob0" "ov_committed ob = ov_committed ob0" "ov_code ob = Some c"
    using SetCode_puts [OF ok assms(2), of "Some c"] by blast
  have "cleared (vw (SetCode K db a (Some c) s)) \<subseteq> cleared (vw s)"
    using p by (auto simp: puts_def keeps_store_def fresh_def cleared_def split: if_splits)
  moreover have "short_codes (vw (SetCode K db a (Some c) s))" if "short_codes (vw s)"
    using p(1,5) that assms(3) unfolding puts_def short_codes_def by (metis option.inject)
  ultimately have "tame (vw s) (vw (SetCode K db a (Some c) s))" using p(1) puts_grows [OF p(1)] by (simp add: tame_def puts_def)
  then show ?thesis using steps_writes(5) [OF assms(1,2)] writes_same_bal(2) [OF ok assms(2)] by (simp add: still_def)
qed

lemma AddAddress_in: "a \<in> dom (al_addresses (sd_accessList (AddAddressToAccessList a s)))"
proof -
  obtain added al where al: "AddAddress (sd_accessList s) a = (added, al)" by fastforce
  then show ?thesis using AddAddress_sets [OF al] by (simp add: AddAddressToAccessList_def Let_def)
qed

lemma calm_Transfer:
  assumes "tx s" "finite A" "a \<in> A" "b \<in> A" "0 \<le> v" "v = 0 \<or> v \<le> bal K db s a"
  shows "calm K db A s (Transfer K db a b v s)"
proof -
  have ok: "ok s" using assms(1) by (simp add: tx_state_def)
  let ?s = "SubBalance K db a v s"
  have ok1: "ok ?s" using setters_undo(2) [OF ok assms(3)] by blast
  have "tame (vw s) (vw ?s)" "tame (vw ?s) (vw (AddBalance K db b v ?s))"
    using setters_puts(2) [OF ok assms(3)] setters_puts(1) [OF ok1 assms(4)] puts_tame by blast+
  then show ?thesis
    using Transfer_steps [OF assms(1,3,4)] Transfer_no_mint [OF ok assms(2-6)] tame_trans unfolding calm_def Transfer_def by blast
qed

lemma writes_live:
  assumes "tx s" "a \<in> A"
  shows "v_live (vw (CreateAccount K db a s)) a \<noteq> None" "v_live (vw (AddBalance K db a n s)) a \<noteq> None"
proof -
  have ok: "ok s" using assms(1) by (simp add: tx_state_def)
  show "v_live (vw (CreateAccount K db a s)) a \<noteq> None" "v_live (vw (AddBalance K db a n s)) a \<noteq> None"
    using CreateAccount_puts [OF ok assms(2)] setters_puts(1) [OF ok assms(2), of n] unfolding puts_def by (metis option.distinct(1))+
qed

subsection \<open>The ends of a call\<close>

lemma call_end_good:
  assumes s: "sound K db good A s" and snap: "Snapshot s = (revid, s1)" and c: "calm K db A s1 s2"
    and b: "body_post K db A s2 smoke err left s3"
  shows "\<exists>left' s'. call_end K db revid (ret, err, left, s3) = Some (ret, left', err, s') \<and> call_post K db A s smoke left' s'"
proof -
  have s1: "calm K db A s s1" using looks_calm [OF sound_tx(1) [OF s] looks_Snapshot] snap by simp
  note b' = body_post_calm [OF c b]
  show ?thesis
  proof (cases err)
    case None
    have "body_post K db A s smoke err left s3" by (rule body_post_calm [OF s1 b'])
    then show ?thesis using None by (simp add: call_end_def body_post_def call_post_def)
  next
    case (Some e)
    have st: "steps K db A s1 s3" "left \<le> smoke" using b' by (simp_all add: body_post_def)
    obtain s' where r: "RevertToSnapshot K db revid s3 = Some s'" "steps K db A s s'" "vw s' = vw s"
      "entries_of s' = entries_of s" "sd_validRevisions s' = sd_validRevisions s"
      by (rule revert_steps [OF sound_tx(1) [OF s] snap st(1)])
    have l: "looks K db A s s'" using r by (simp add: looks_def)
    have "settled K db A s smoke left' s'" if "left' \<le> smoke" for left'
      using looks_calm [OF sound_tx(1) [OF s] l] s that calm_refund [OF looks_calm [OF sound_tx(1) [OF s] l]]
      by (simp add: settled_def calm_def tame_def sound_def pot_def word_le_nat_alt r(3))
    then show ?thesis using Some r(1,2) st(2) by (simp add: call_end_def call_post_def)
  qed
qed

lemma native_good:
  assumes "refund_covers (vw s)" "short_codes (vw s)" "native_call p input smoke s = (ret, err, left, s')"
  shows "body_post K db A s smoke err left s'"
proof -
  have "s' = s" "left \<le> smoke" using native_call_bound [OF assms(3)] by simp_all
  then show ?thesis using assms(1,2) by (simp add: body_post_def settled_def same_bal_no_mint pot_def word_le_nat_alt)
qed

lemma refuse_good:
  assumes "sound K db good A s" "looks K db A s s'" "left \<le> smoke"
  shows "call_post K db A s smoke left s'"
proof -
  have "calm K db A s s'" using looks_calm sound_tx assms by blast
  then show ?thesis using assms by (simp add: call_post_def settled_def calm_def tame_def looks_def sound_def pot_def word_le_nat_alt)
qed

lemma run_code_good:
  assumes run: "run_good K db good A run evm" and s: "sound K db good A s" and c: "runs_as K db A evm (ref_Address (c_self c)) s" "c_value c \<noteq> None"
    and a: "addr \<in> A" and i: "length input < 2 ^ 63" and p: "pot s (c_Smoke c) + 24000 < 2 ^ 64"
  shows "\<exists>ret err left s'. run_code K db run evm c addr input ro s = Some (ret, err, left, s') \<and> body_post K db A s (c_Smoke c) err left s'"
proof -
  obtain h s1 where h: "GetCodeHash K db addr s = (h, s1)" by fastforce
  have l1: "looks K db A s s1" using looks_reads(3) [OF sound_tx(1) [OF s] a] h by simp
  have s1: "sound K db good A s1" by (rule looks_sound [OF s l1])
  obtain code s2 where g: "GetCode K db addr s1 = (code, s2)" by fastforce
  have l2: "looks K db A s1 s2" using looks_code(1) [OF sound_tx(1) [OF s1] a] g by simp
  have c2: "calm K db A s s2" using looks_calm [OF sound_tx(1) [OF s] looks_trans [OF l1 l2]] .
  have len: "length (code_bytes code) < 2 ^ 63" using GetCode_short [OF s1 a] g by simp
  let ?c = "SetCallCode addr h (code_bytes code) c"
  have f: "c_self ?c = c_self c" "c_value ?c = c_value c" "c_Code ?c = code_bytes code" "c_Smoke ?c = c_Smoke c" by (simp_all add: SetCallCode_def)
  obtain ret err left s' where "run evm ?c input ro s2 = Some (ret, err, left, s')" "body_post K db A s2 (c_Smoke ?c) err left s'"
    by (rule run_goodE [OF run, of ?c s2 input ro]) (use calm_runs_as [OF c2 c(1)] c(2) len i calm_sound [OF s c2] p calm_pot [OF c2] f in simp_all)
  then show ?thesis using body_post_calm [OF c2] h g f by (auto simp: run_code_def)
qed

lemma case_good:
  assumes "sound K db good A s" "Snapshot s = (revid, s1)" "calm K db A s1 s2"
    and "\<exists>ret err left s3. body = Some (ret, err, left, s3) \<and> body_post K db A s2 smoke err left s3"
  shows "\<exists>ret left err s'. (case body of None \<Rightarrow> None | Some r \<Rightarrow> call_end K db revid r) = Some (ret, left, err, s') \<and> call_post K db A s smoke left s'"
  using assms(4) call_end_good [OF assms(1-3)] by fastforce

subsection \<open>Calls\<close>

lemma CanTransfer_looks:
  assumes "sound K db good A s" "a \<in> A" "CanTransfer K db a v s = (can, s')"
  shows "looks K db A s s'" "can \<longleftrightarrow> v \<le> bal K db s a"
  using assms looks_reads(1) [OF sound_tx(1) [OF assms(1)] assms(2)]
  by (auto simp: CanTransfer_def bal_def split: prod.splits)

text \<open>The state in which the code of a plain call starts.\<close>

lemma Call_start:
  assumes s: "sound K db good A s" and fin: "finite A" and A: "ref_Address caller \<in> A" "addr \<in> A" and v: "0 \<le> v" "v = 0 \<or> v \<le> bal K db s (ref_Address caller)"
    and ex: "Exist K db addr s = (ex, s1)"
  defines "s2 \<equiv> (if \<not> ex then CreateAccount K db addr s1 else s1)"
  shows "calm K db A s (Transfer K db (ref_Address caller) addr v s2)" "v_live (vw (Transfer K db (ref_Address caller) addr v s2)) addr \<noteq> None"
proof -
  have l1: "looks K db A s s1" using looks_reads(4) [OF sound_tx(1) [OF s] A(2)] ex by simp
  have tx1: "tx s1" by (rule looks_tx [OF sound_tx(1) [OF s] l1])
  have c2: "calm K db A s1 s2" "same_bal K db A s1 s2"
    using calm_writes(1) [OF tx1 A(2)] writes_same_bal(3) [OF _ A(2), of s1] tx1 by (simp_all add: s2_def tx_state_def)
  have c: "calm K db A s s2" using looks_calm [OF sound_tx(1) [OF s] l1] c2(1) calm_trans by blast
  have tx2: "tx s2" using sound_tx(1) [OF calm_sound [OF s c]] .
  have b: "bal K db s2 (ref_Address caller) = bal K db s (ref_Address caller)"
    using same_view_bal [OF sound_tx(1) [OF s] tx1] l1 c2(2) A(1) by (simp add: same_bal_def looks_def)
  have t: "calm K db A s2 (Transfer K db (ref_Address caller) addr v s2)"
    using calm_Transfer [OF tx2 fin A v(1)] v(2) b by simp
  show "calm K db A s (Transfer K db (ref_Address caller) addr v s2)" using c t calm_trans by blast
  have "v_live (vw s2) addr \<noteq> None"
  proof (cases ex)
    case True
    then have "v_live (vw s) addr \<noteq> None" using reads_view(1) [OF sound_tx(2) [OF s] A(2)] ex by simp
    then show ?thesis using True l1 by (simp add: s2_def looks_def)
  next
    case False
    then show ?thesis using writes_live(1) [OF tx1 A(2)] by (simp add: s2_def)
  qed
  then show "v_live (vw (Transfer K db (ref_Address caller) addr v s2)) addr \<noteq> None"
    using t by (auto simp: calm_def tame_def grows_def)
qed

lemma Call_good:
  assumes run: "evm_depth evm \<le> CallCreateDepth \<Longrightarrow> run_good K db good A run evm" and s: "sound K db good A s" and fin: "finite A"
    and A: "ref_Address caller \<in> A" "addr \<in> A" "r_IsYoloV2 (evm_chainRules evm) \<Longrightarrow> addr \<in> dom (al_addresses (sd_accessList s))"
    and v: "0 \<le> v" and i: "length input < 2 ^ 63" and p: "pot s smoke + 24000 < 2 ^ 64"
  shows "\<exists>ret left err s'. Call K db run evm caller addr input smoke v s = Some (ret, left, err, s') \<and> call_post K db A s smoke left s'"
proof -
  let ?a = "ref_Address caller"
  obtain can s1 where can: "(if v \<noteq> 0 then CanTransfer K db ?a v s else (True, s)) = (can, s1)" by fastforce
  have l1: "looks K db A s s1" and bal: "can \<Longrightarrow> v = 0 \<or> v \<le> bal K db s ?a"
    using can CanTransfer_looks [OF s A(1), of v] by (auto split: if_splits)
  have s1: "sound K db good A s1" by (rule looks_sound [OF s l1])
  obtain revid s2 where snap: "Snapshot s1 = (revid, s2)" by fastforce
  have l2: "looks K db A s1 s2" using looks_Snapshot [of s1] snap by simp
  have s2: "sound K db good A s2" by (rule looks_sound [OF s1 l2])
  have l12: "looks K db A s s2" using l1 l2 looks_trans by blast
  have b2: "can \<Longrightarrow> v = 0 \<or> v \<le> bal K db s2 ?a"
    using bal same_view_bal [OF sound_tx(1) [OF s] sound_tx(1) [OF s2]] l12 A(1) by (simp add: same_bal_def looks_def)
  obtain ex s3 where ex: "Exist K db addr s2 = (ex, s3)" by fastforce
  define s5 where "s5 = Transfer K db ?a addr v (if \<not> ex then CreateAccount K db addr s3 else s3)"
  obtain code s6 where code: "GetCode K db addr s5 = (code, s6)" by fastforce
  obtain h s7 where h: "GetCodeHash K db addr s6 = (h, s7)" by fastforce
  let ?c = "SetCallCode addr h (code_bytes code) (NewContract caller (AccountRef addr) (Some v) smoke)"
  define body where "body = (case evm_precompile evm addr of Some p \<Rightarrow> Some (native_call p input smoke s5)
    | None \<Rightarrow> if length (code_bytes code) = 0 then Some ([], None, smoke, s6) else run evm ?c input False s7)"
  have eq: "Call K db run evm caller addr input smoke v s =
    (if evm_NoRecursion evm \<and> 0 < evm_depth evm then Some ([], smoke, None, s)
     else if CallCreateDepth < evm_depth evm then Some ([], smoke, Some ErrDepth, s)
     else if \<not> can then Some ([], smoke, Some ErrInsufficientBalance, s1)
     else if \<not> ex \<and> evm_precompile evm addr = None \<and> r_IsEIP158 (evm_chainRules evm) \<and> v = 0 then Some ([], smoke, None, s3)
     else case body of None \<Rightarrow> None | Some r \<Rightarrow> call_end K db revid r)"
    by (simp only: Call_def Let_def can snap ex prod.case s5_def [symmetric] code h body_def)
  have l3: "looks K db A s s3" using l12 looks_reads(4) [OF sound_tx(1) [OF s2] A(2)] ex looks_trans by fastforce
  have "\<exists>ret left err s'. (case body of None \<Rightarrow> None | Some r \<Rightarrow> call_end K db revid r) = Some (ret, left, err, s') \<and> call_post K db A s1 smoke left s'"
    if y: "can" and dp: "evm_depth evm \<le> CallCreateDepth"
  proof -
    note st = Call_start [OF s2 fin A(1,2) v b2 [OF y] ex, folded s5_def]
    have s5: "sound K db good A s5" by (rule calm_sound [OF s2 st(1)])
    have c25: "calm K db A s s5" using looks_calm [OF sound_tx(1) [OF s] l12] st(1) calm_trans by blast
    have "runs_as K db A evm addr s5" by (rule runs_as_calm [OF c25 A(2) st(2) A(3)])
    moreover have l6: "looks K db A s5 s6" using looks_code(1) [OF sound_tx(1) [OF s5] A(2)] code by simp
    moreover have s6: "sound K db good A s6" by (rule looks_sound [OF s5 l6])
    moreover have "looks K db A s6 s7" using looks_reads(3) [OF sound_tx(1) [OF s6] A(2)] h by simp
    ultimately have c57: "calm K db A s5 s7" "runs_as K db A evm addr s7" "looks K db A s5 s6"
      using looks_calm [OF sound_tx(1) [OF s5]] looks_trans calm_runs_as by blast+
    have f: "ref_Address (c_self ?c) = addr" "c_value ?c \<noteq> None" "c_Code ?c = code_bytes code" "c_Smoke ?c = smoke"
      by (simp_all add: SetCallCode_def NewContract_def)
    have len: "length (code_bytes code) < 2 ^ 63" using GetCode_short [OF s5 A(2)] code by simp
    obtain ret err left s8 where r: "run evm ?c input False s7 = Some (ret, err, left, s8)" "body_post K db A s7 (c_Smoke ?c) err left s8"
      by (rule run_goodE [OF run [OF dp], of ?c s7 input False])
        (use f len i p c57 calm_sound [OF s5] calm_pot [OF c57(1)] calm_pot [OF c25] in simp_all)
    have "\<exists>ret err left s8. body = Some (ret, err, left, s8) \<and> body_post K db A s5 smoke err left s8"
    proof (cases "evm_precompile evm addr")
      case (Some p)
      then show ?thesis using native_good [of s5 p input smoke] s5 by (cases "native_call p input smoke s5") (auto simp: body_def sound_def)
    next
      case None
      have "body_post K db A s5 smoke None smoke s6"
        using refuse_good [OF s5 c57(3), of smoke smoke] by (simp add: body_post_def call_post_def)
      then show ?thesis using None r f(4) body_post_calm [OF c57(1)] by (auto simp: body_def)
    qed
    from case_good [OF s1 snap st(1) this] show ?thesis .
  qed
  moreover have "call_post K db A s smoke smoke s" "call_post K db A s smoke smoke s1" "call_post K db A s smoke smoke s3"
    using refuse_good [OF s] l1 l3 by simp_all
  ultimately show ?thesis using call_post_calm [OF looks_calm [OF sound_tx(1) [OF s] l1]] unfolding eq by (auto simp: not_less)
qed

lemma CallCode_good:
  assumes run: "evm_depth evm \<le> CallCreateDepth \<Longrightarrow> run_good K db good A run evm" and s: "sound K db good A s"
    and c: "runs_as K db A evm (ref_Address caller) s" and a: "addr \<in> A" and i: "length input < 2 ^ 63" and p: "pot s smoke + 24000 < 2 ^ 64"
  shows "\<exists>ret left err s'. CallCode K db run evm caller addr input smoke v s = Some (ret, left, err, s') \<and> call_post K db A s smoke left s'"
proof -
  let ?a = "ref_Address caller"
  have A: "?a \<in> A" using c by (simp add: runs_as_def)
  obtain can s1 where can: "CanTransfer K db ?a v s = (can, s1)" by fastforce
  note l1 = CanTransfer_looks(1) [OF s A can]
  have s1: "sound K db good A s1" by (rule looks_sound [OF s l1])
  obtain revid s2 where snap: "Snapshot s1 = (revid, s2)" by fastforce
  have l2: "looks K db A s1 s2" using looks_Snapshot [of s1] snap by simp
  have c2: "calm K db A s s2" using looks_calm [OF sound_tx(1) [OF s] looks_trans [OF l1 l2]] .
  have s2: "sound K db good A s2" by (rule calm_sound [OF s c2])
  let ?c = "NewContract caller (AccountRef ?a) (Some v) smoke"
  let ?body = "case evm_precompile evm addr of Some p \<Rightarrow> Some (native_call p input smoke s2)
    | None \<Rightarrow> run_code K db run evm ?c addr input False s2"
  have "\<exists>ret err left s3. ?body = Some (ret, err, left, s3) \<and> body_post K db A s2 smoke err left s3" if "evm_depth evm \<le> CallCreateDepth"
    using run_code_good [OF run [OF that] s2, of ?c addr input False] calm_runs_as [OF c2 c] a i p calm_pot [OF c2]
      native_good [of s2 _ input smoke] s2 by (auto simp: NewContract_def sound_def split: option.splits) (metis prod_cases4)
  note r = case_good [OF s1 snap calm_refl this]
  show ?thesis using r call_post_calm [OF looks_calm [OF sound_tx(1) [OF s] l1]] refuse_good [OF s] l1 can snap
    by (auto simp: CallCode_def not_less)
qed

lemma DelegateCall_good:
  assumes run: "evm_depth evm \<le> CallCreateDepth \<Longrightarrow> run_good K db good A run evm" and s: "sound K db good A s"
    and c: "runs_as K db A evm self s" and a: "addr \<in> A" and i: "length input < 2 ^ 63" and p: "pot s smoke + 24000 < 2 ^ 64"
  shows "\<exists>ret left err s'. DelegateCall K db run evm (ContractOf self parent (Some v)) addr input smoke s = Some (ret, left, err, s') \<and>
    call_post K db A s smoke left s'"
proof -
  obtain revid s2 where snap: "Snapshot s = (revid, s2)" by fastforce
  have c2: "calm K db A s s2" using looks_calm [OF sound_tx(1) [OF s] looks_Snapshot] snap by simp
  have s2: "sound K db good A s2" by (rule calm_sound [OF s c2])
  let ?caller = "ContractOf self parent (Some v)"
  obtain c' where c': "AsDelegate (NewContract ?caller (AccountRef (ref_Address ?caller)) None smoke) = Some c'" "ref_Address (c_self c') = self"
    "c_value c' \<noteq> None" "c_Smoke c' = smoke"
    by (simp add: AsDelegate_def NewContract_def)
  let ?body = "case evm_precompile evm addr of Some p \<Rightarrow> Some (native_call p input smoke s2)
    | None \<Rightarrow> run_code K db run evm c' addr input False s2"
  have "\<exists>ret err left s3. ?body = Some (ret, err, left, s3) \<and> body_post K db A s2 smoke err left s3" if "evm_depth evm \<le> CallCreateDepth"
    using run_code_good [OF run [OF that] s2, of c' addr input False] calm_runs_as [OF c2 c] a i p calm_pot [OF c2] c'
      native_good [of s2 _ input smoke] s2 by (auto simp: sound_def split: option.splits) (metis prod_cases4)
  note r = case_good [OF s snap calm_refl this]
  show ?thesis unfolding DelegateCall_def c'(1) snap prod.case Let_def option.case
    using r refuse_good [OF s looks_refl] by (simp add: not_less)
qed

lemma StaticCall_good:
  assumes run: "evm_depth evm \<le> CallCreateDepth \<Longrightarrow> run_good K db good A run evm" and s: "sound K db good A s"
    and a: "addr \<in> A" "r_IsYoloV2 (evm_chainRules evm) \<Longrightarrow> addr \<in> dom (al_addresses (sd_accessList s))"
    and i: "length input < 2 ^ 63" and p: "pot s smoke + 24000 < 2 ^ 64"
  shows "\<exists>ret left err s'. StaticCall K db run evm caller addr input smoke s = Some (ret, left, err, s') \<and> call_post K db A s smoke left s'"
proof -
  obtain revid s1 where snap: "Snapshot s = (revid, s1)" by fastforce
  have c1: "calm K db A s s1" using looks_calm [OF sound_tx(1) [OF s] looks_Snapshot] snap by simp
  have tx1: "tx s1" using sound_tx(1) [OF calm_sound [OF s c1]] .
  let ?s2 = "AddBalance K db addr 0 s1"
  note c12 = calm_writes(3) [OF tx1 a(1)]
  have c2: "calm K db A s ?s2" using c1 c12 calm_trans by blast
  have s2: "sound K db good A ?s2" by (rule calm_sound [OF s c2])
  note as = runs_as_calm [OF c2 a(1) writes_live(2) [OF tx1 a(1)] a(2)]
  let ?c = "NewContract caller (AccountRef addr) (Some 0) smoke"
  let ?body = "case evm_precompile evm addr of Some p \<Rightarrow> Some (native_call p input smoke ?s2)
    | None \<Rightarrow> run_code K db run evm ?c addr input True ?s2"
  have "\<exists>ret err left s3. ?body = Some (ret, err, left, s3) \<and> body_post K db A ?s2 smoke err left s3" if "evm_depth evm \<le> CallCreateDepth"
    using run_code_good [OF run [OF that] s2, of ?c addr input True] as a(1) i p calm_pot [OF c2]
      native_good [of ?s2 _ input smoke] s2 by (auto simp: NewContract_def sound_def split: option.splits) (metis prod_cases4)
  note r = case_good [OF s snap c12 this]
  show ?thesis using r refuse_good [OF s] snap by (auto simp: StaticCall_def Let_def not_less)
qed

subsection \<open>Creation\<close>

lemma calm_good:
  assumes "sound K db good A s" "calm K db A s s'" "left \<le> smoke"
  shows "call_post K db A s smoke left s'"
  using calm_sound [OF assms(1,2)] assms(2,3) calm_refund [OF assms(2)]
  by (simp add: call_post_def settled_def calm_def tame_def sound_def pot_def word_le_nat_alt)

lemma settled_after:
  assumes "tx s1" "settled K db A s smoke left s1" "still K db A s1 s2" "left' \<le> left"
  shows "settled K db A s smoke left' s2"
proof -
  have c: "calm K db A s1 s2" by (rule still_calm [OF assms(3)])
  have "pot s2 left' \<le> pot s1 left" using calm_pot [OF c] assms(4) by (simp add: pot_def word_le_nat_alt)
  moreover have "refund_covers (vw s2)" "short_codes (vw s2)" using c assms(2) tame_inv unfolding settled_def calm_def by blast+
  ultimately show ?thesis using assms(2) c no_mint_trans grows_trans unfolding settled_def calm_def tame_def by fastforce
qed

lemma store_code_good:
  assumes "tx s1" "address \<in> A" "length ret < 2 ^ 63" "store_code K db address ret contract s1 = (err, contract', s2)"
  shows "still K db A s1 s2 \<and> c_Smoke contract' \<le> c_Smoke contract \<and> (err = None \<or> s2 = s1 \<and> err = Some ErrCodeStoreOutOfSmoke)"
proof -
  let ?u = "UseSmoke (word_of_nat (length ret) * CreateDataSmoke) contract"
  obtain b c where u: "?u = (b, c)" by fastforce
  have "c_Smoke c \<le> c_Smoke contract" using u by (auto simp: UseSmoke_def word_le_nat_alt word_less_nat_alt unat_sub split: if_splits)
  moreover have "still K db A s1 s1" by (rule looks_still [OF assms(1) looks_refl])
  ultimately show ?thesis using u assms(4) SetCode_still [OF assms(1-3)] by (cases b) (auto simp: store_code_def)
qed

lemma create_end_good:
  assumes s: "sound K db good A s" and snap: "Snapshot s = (revid, s1)" and c: "calm K db A s1 s2" and a: "address \<in> A"
    and b: "body_post K db A s2 smoke err left s3" "err = None \<longrightarrow> length ret < 2 ^ 63" "err \<noteq> Some ErrCodeStoreOutOfSmoke" and cs: "c_Smoke contract = left"
  shows "\<exists>ret' left' err' s'. create_end K db evm revid address contract ret err s3 = Some (ret', address, left', err', s') \<and> call_post K db A s smoke left' s'"
proof -
  have c1: "calm K db A s s1" using looks_calm [OF sound_tx(1) [OF s] looks_Snapshot] snap by simp
  note b' = body_post_calm [OF c1 body_post_calm [OF c b(1)]]
  have tx3: "tx s3" using steps_tx [OF sound_tx(1) [OF s]] b' by (simp add: body_post_def)
  have st: "steps K db A s1 s3" "left \<le> smoke" using body_post_calm [OF c b(1)] by (simp_all add: body_post_def)
  define exceeded where "exceeded \<longleftrightarrow> r_IsEIP158 (evm_chainRules evm) \<and> MaxCodeSize < length ret"
  define go where "go \<longleftrightarrow> err = None \<and> \<not> exceeded"
  obtain err1 contract1 s4 where e1: "(if go then store_code K db address ret contract s3 else (err, contract, s3)) = (err1, contract1, s4)"
    by (metis prod_cases3)
  have st4: "steps K db A s3 s4" "c_Smoke contract1 \<le> left"
    using e1 store_code_good [OF tx3 a, of ret contract err1 contract1 s4] b(2) cs by (auto simp: go_def still_def split: if_splits)
  have st14: "steps K db A s1 s4" using st(1) st4(1) steps_trans by blast
  define bad where "bad \<longleftrightarrow> exceeded \<or> (err1 \<noteq> None \<and> (r_IsHomestead (evm_chainRules evm) \<or> err1 \<noteq> Some ErrCodeStoreOutOfSmoke))"
  obtain s5 where r: "RevertToSnapshot K db revid s4 = Some s5" "steps K db A s s5" "vw s5 = vw s"
    "entries_of s5 = entries_of s" "sd_validRevisions s5 = sd_validRevisions s"
    by (rule revert_steps [OF sound_tx(1) [OF s] snap st14])
  define contract2 where "contract2 = (if err1 \<noteq> Some ErrExecutionReverted then snd (UseSmoke (c_Smoke contract1) contract1) else contract1)"
  have eq: "create_end K db evm revid address contract ret err s3 =
    (if bad then Some (ret, address, c_Smoke contract2, if exceeded \<and> err1 = None then Some ErrMaxCodeSizeExceeded else err1, s5)
     else Some (ret, address, c_Smoke contract1, err1, s4))"
    unfolding create_end_def Let_def exceeded_def [symmetric] go_def [symmetric] e1 prod.case bad_def [symmetric] r(1) option.case contract2_def [symmetric] ..
  have "c_Smoke contract2 \<le> c_Smoke contract1" by (simp add: contract2_def UseSmoke_def)
  then have 1: "call_post K db A s smoke (c_Smoke contract2) s5"
    using refuse_good [OF s, of s5 "c_Smoke contract2" smoke] r st4(2) st(2) by (simp add: looks_def)
  have 2: "call_post K db A s smoke (c_Smoke contract1) s4" if "\<not> bad"
  proof -
    have go: "go" using that e1 b(3) by (auto simp: bad_def go_def split: if_splits)
    then have "settled K db A s smoke left s3" using b' by (simp add: go_def body_post_def)
    moreover have "still K db A s3 s4" using e1 go store_code_good [OF tx3 a _, of ret contract err1 contract1 s4] b(2) by (simp add: go_def)
    ultimately have "settled K db A s smoke (c_Smoke contract1) s4" using settled_after [OF tx3] st4(2) by blast
    then show ?thesis using st4(2) st(2) b' st4(1) steps_trans unfolding call_post_def body_post_def by (meson order_trans)
  qed
  show ?thesis using 1 2 unfolding eq by auto
qed

lemma evm_create_good:
  assumes run: "evm_depth evm \<le> CallCreateDepth \<Longrightarrow> run_good K db good A run evm" and s: "sound K db good A s" and fin: "finite A"
    and A: "ref_Address caller \<in> A" "address \<in> A" and v: "0 \<le> v" and code: "length (ch_code cah) < 2 ^ 63" and p: "pot s smoke + 24000 < 2 ^ 64"
  shows "\<exists>ret addr left err s'. evm_create K db run evm caller cah smoke v address s = Some (ret, addr, left, err, s') \<and> call_post K db A s smoke left s'"
proof -
  let ?a = "ref_Address caller" let ?yolo = "r_IsYoloV2 (evm_chainRules evm)"
  note tx = sound_tx(1)
  obtain can s1 where can: "CanTransfer K db ?a v s = (can, s1)" by fastforce
  note l1 = CanTransfer_looks [OF s A(1) can]
  have q1: "still K db A s s1" by (rule looks_still [OF tx [OF s] l1(1)])
  have s1: "sound K db good A s1" by (rule calm_sound [OF s still_calm [OF q1]])
  obtain nonce s2 where n2: "GetNonce K db ?a s1 = (nonce, s2)" by fastforce
  have q2: "still K db A s s2" using q1 looks_still [OF tx [OF s1]] looks_reads(2) [OF tx [OF s1] A(1)] n2 still_trans by fastforce
  have s2: "sound K db good A s2" by (rule calm_sound [OF s still_calm [OF q2]])
  define s3 where "s3 = SetNonce K db ?a (nonce + 1) s2"
  have q3: "still K db A s s3" using q2 still_writes(2) [OF tx [OF s2] A(1)] still_trans unfolding s3_def by blast
  have s3: "sound K db good A s3" by (rule calm_sound [OF s still_calm [OF q3]])
  define s4 where "s4 = (if ?yolo then AddAddressToAccessList address s3 else s3)"
  have "still K db A s3 s4" using still_writes(4) [OF tx [OF s3] A(2)] looks_still [OF tx [OF s3] looks_refl] by (simp add: s4_def)
  then have q4: "still K db A s s4" using q3 still_trans by blast
  have s4: "sound K db good A s4" by (rule calm_sound [OF s still_calm [OF q4]])
  obtain ch s5 where h: "GetCodeHash K db address s4 = (ch, s5)" by fastforce
  have q5: "still K db A s4 s5" using looks_still [OF tx [OF s4]] looks_reads(3) [OF tx [OF s4] A(2)] h by fastforce
  have s5: "sound K db good A s5" by (rule calm_sound [OF s4 still_calm [OF q5]])
  obtain n s6 where n6: "GetNonce K db address s5 = (n, s6)" by fastforce
  have q6: "still K db A s4 s6" using q5 looks_still [OF tx [OF s5]] looks_reads(2) [OF tx [OF s5] A(2)] n6 still_trans by fastforce
  have qs6: "still K db A s s6" using q4 q6 still_trans by blast
  have s6: "sound K db good A s6" by (rule calm_sound [OF s still_calm [OF qs6]])
  obtain revid s7 where snap: "Snapshot s6 = (revid, s7)" by fastforce
  have q7: "still K db A s6 s7" using looks_still [OF tx [OF s6] looks_Snapshot] snap by simp
  have s7: "sound K db good A s7" by (rule calm_sound [OF s6 still_calm [OF q7]])
  define s8 where "s8 = CreateAccount K db address s7"
  have q8: "still K db A s7 s8" using still_writes(1) [OF tx [OF s7] A(2)] by (simp add: s8_def)
  have s8: "sound K db good A s8" by (rule calm_sound [OF s7 still_calm [OF q8]])
  define s9 where "s9 = (if r_IsEIP158 (evm_chainRules evm) then SetNonce K db address 1 s8 else s8)"
  have q9: "still K db A s8 s9" using still_writes(2) [OF tx [OF s8] A(2)] looks_still [OF tx [OF s8] looks_refl] by (simp add: s9_def)
  have q79: "still K db A s7 s9" using q8 q9 still_trans by blast
  have s9: "sound K db good A s9" by (rule calm_sound [OF s7 still_calm [OF q79]])
  define s10 where "s10 = Transfer K db ?a address v s9"
  have c10: "calm K db A s7 s10" if "can"
  proof -
    have "bal K db s9 ?a = bal K db s ?a" using q79 q7 qs6 A(1) by (simp add: still_def same_bal_def)
    then have "calm K db A s9 s10" using calm_Transfer [OF tx [OF s9] fin A v] l1(2) that by (simp add: s10_def)
    then show ?thesis using still_calm [OF q79] calm_trans by blast
  qed
  let ?c = "SetCodeOptionalHash address cah (NewContract caller (AccountRef address) (Some v) smoke)"
  have eq: "evm_create K db run evm caller cah smoke v address s =
    (if CallCreateDepth < evm_depth evm then Some ([], replicate 20 0, smoke, Some ErrDepth, s)
     else if \<not> can then Some ([], replicate 20 0, smoke, Some ErrInsufficientBalance, s1)
     else if n \<noteq> 0 \<or> (ch \<noteq> zero_hash \<and> ch \<noteq> emptyCodeHash K) then Some ([], replicate 20 0, 0, Some ErrContractAddressCollision, s6)
     else if evm_NoRecursion evm \<and> 0 < evm_depth evm then Some ([], address, smoke, None, s10)
     else case run evm ?c [] False s10 of None \<Rightarrow> None
       | Some (ret, err, smoke, s) \<Rightarrow> create_end K db evm revid address (?c\<lparr>c_Smoke := smoke\<rparr>) ret err s)"
    unfolding evm_create_def Let_def can prod.case n2 s3_def [symmetric] s4_def [symmetric] h n6 snap s8_def [symmetric] s9_def [symmetric] s10_def [symmetric] ..
  have fin_run: "\<exists>ret addr left err s'. (case run evm ?c [] False s10 of None \<Rightarrow> None
       | Some (ret, err, smoke, s) \<Rightarrow> create_end K db evm revid address (?c\<lparr>c_Smoke := smoke\<rparr>) ret err s) = Some (ret, addr, left, err, s') \<and>
      call_post K db A s6 smoke left s'" if y: "can" and dp: "evm_depth evm \<le> CallCreateDepth"
  proof -
    have f: "ref_Address (c_self ?c) = address" "c_value ?c \<noteq> None" "c_Code ?c = ch_code cah" "c_Smoke ?c = smoke"
      by (simp_all add: SetCodeOptionalHash_def NewContract_def)
    have s10: "sound K db good A s10" by (rule calm_sound [OF s7 c10 [OF y]])
    have c4: "calm K db A s4 s10" using still_calm [OF q6] still_calm [OF q7] c10 [OF y] calm_trans by blast
    have "v_live (vw s8) address \<noteq> None" using writes_live(1) [OF tx [OF s7] A(2)] by (simp add: s8_def)
    moreover have "calm K db A s9 s10" using calm_Transfer [OF tx [OF s9] fin A v] l1(2) y q79 q7 qs6 A(1) by (simp add: s10_def still_def same_bal_def)
    ultimately have "v_live (vw s10) address \<noteq> None" using q9 by (simp add: calm_def still_def tame_def grows_def)
    then have as: "runs_as K db A evm address s10"
      using runs_as_calm [OF c4 A(2)] AddAddress_in [of address s3] by (simp add: s4_def)
    have "calm K db A s s10" using still_calm [OF q4] c4 calm_trans by blast
    then have p10: "pot s10 smoke + 24000 < 2 ^ 64" using p calm_pot by metis
    obtain ret err left s' where r: "run evm ?c [] False s10 = Some (ret, err, left, s')" "body_post K db A s10 (c_Smoke ?c) err left s'"
      "err = None \<longrightarrow> length ret < 2 ^ 63" "err \<noteq> Some ErrCodeStoreOutOfSmoke"
      by (rule run_goodE [OF run [OF dp], of ?c s10 "[]" False]) (use f as code s10 p10 in simp_all)
    from create_end_good [OF s6 snap c10 [OF y] A(2) r(2) [unfolded f(4)] r(3,4), of "?c\<lparr>c_Smoke := left\<rparr>" evm]
    show ?thesis using r(1) by fastforce
  qed
  have "call_post K db A s smoke smoke s" "call_post K db A s smoke smoke s1" "call_post K db A s smoke 0 s6"
    using calm_good [OF s] still_calm [OF q1] still_calm [OF qs6] by simp_all
  moreover have "call_post K db A s smoke smoke s10" if "can"
    using calm_good [OF s] still_calm [OF qs6] still_calm [OF q7] c10 [OF that] calm_trans by blast
  ultimately show ?thesis using fin_run call_post_calm [OF still_calm [OF qs6]] unfolding eq by (fastforce simp: not_less)
qed

end

end
