(* ===== verification/Core_Props.thy ===== *)
theory Core_Props
  imports Core_Transition Evm_Contract
begin

section \<open>Properties of state transitions\<close>

text \<open>
  Smoke and coins are accounted for: the intrinsic smoke is exact, a message uses at most the
  smoke it bought and returns the rest to the block, and no message creates coins or debts.
\<close>

subsection \<open>Intrinsic smoke\<close>

lemma count_nonzero_filter: "count_nonzero data = word_of_nat (length (filter (\<lambda>b. b \<noteq> 0) data))"
proof -
  have "fold (\<lambda>byt nz. if byt \<noteq> 0 then nz + 1 else nz) data n = n + word_of_nat (length (filter (\<lambda>b. b \<noteq> 0) data))" for n :: uint64
    by (induction data arbitrary: n) (simp_all add: algebra_simps)
  then show ?thesis by (simp add: count_nonzero_def)
qed

lemma unat_uint64: "unat (n :: uint64) < 18446744073709551616"
  by (rule order_less_le_trans [OF unsigned_less]) simp

lemma unat_max_minus: "unat (0xFFFFFFFFFFFFFFFF - n :: uint64) = 2 ^ 64 - 1 - unat n"
proof -
  have "unat n \<le> 18446744073709551615" using unat_uint64 [of n] by linarith
  then show ?thesis by (simp add: unat_sub_if_size)
qed

lemma smoke_overflow_iff:
  fixes smoke c n :: uint64
  assumes "0 < c"
  shows "(0xFFFFFFFFFFFFFFFF - smoke) div c < n \<longleftrightarrow> 2 ^ 64 \<le> unat smoke + unat n * unat c"
proof -
  have lt: "unat smoke < 18446744073709551616" by (rule unat_uint64)
  have "0 < unat c" using assms by (simp add: word_less_nat_alt)
  then have "(0xFFFFFFFFFFFFFFFF - smoke) div c < n \<longleftrightarrow> 2 ^ 64 - 1 - unat smoke < unat n * unat c"
    by (simp only: word_less_nat_alt unat_div_distrib unat_max_minus div_less_iff_less_mult)
  moreover have "2 ^ 64 - 1 - s < p \<longleftrightarrow> 2 ^ 64 \<le> s + p"
    if "s < 18446744073709551616" for s p :: nat using that by simp linarith
  ultimately show ?thesis using lt by blast
qed

lemma smoke_add:
  fixes smoke c n :: uint64
  shows "unat smoke + unat n * unat c < 2 ^ 64 \<Longrightarrow> unat (smoke + n * c) = unat smoke + unat n * unat c"
  by (simp add: unat_word_ariths mod_simps)

text \<open>
  C31. The intrinsic smoke of a message is exactly the base price plus the price of its data
  bytes, zero or not, and an overflow error is returned exactly when this sum does not fit 64
  bits: neither the checks by division nor the word arithmetic lose anything.
\<close>

theorem IntrinsicSmoke_exact:
  assumes "length data < 2 ^ 64"
  shows "let nz = length (filter (\<lambda>b. b \<noteq> 0) data);
      n = (if create \<and> homestead then 50000 else 20000) + nz * (if eip2028 then 16 else 68) + (length data - nz) * 4
    in IntrinsicSmoke data create homestead eip2028 = (if n < 2 ^ 64 then Inr (word_of_nat n) else Inl ErrSmokeOverflow)"
proof -
  define nz where "nz = length (filter (\<lambda>b. b \<noteq> 0) data)"
  define smoke :: uint64 where "smoke = (if create \<and> homestead then TxSmokeContractCreation else TxSmoke)"
  define c :: uint64 where "c = (if eip2028 then TxDataNonZeroSmokeEIP2028 else TxDataNonZeroSmokeFrontier)"
  have le: "nz \<le> length data" by (simp add: nz_def)
  have un: "unat (word_of_nat nz :: uint64) = nz" "unat (word_of_nat (length data) - word_of_nat nz :: uint64) = length data - nz"
    using le assms unat_word_of_nat_64 [of nz] unat_word_of_nat_64 [of "length data - nz"] by (simp_all flip: of_nat_diff)
  have us: "unat smoke = (if create \<and> homestead then 50000 else 20000)" "unat c = (if eip2028 then 16 else 68)"
    "0 < c" "unat TxDataZeroSmoke = 4" "0 < TxDataZeroSmoke"
    by (simp_all add: smoke_def c_def)
  let ?n = "unat smoke + nz * unat c + (length data - nz) * 4"
  let ?smoke = "smoke + word_of_nat nz * c"
  have I: "IntrinsicSmoke data create homestead eip2028 =
    (if length data = 0 then Inr smoke
     else if 2 ^ 64 \<le> unat smoke + nz * unat c then Inl ErrSmokeOverflow
     else if 2 ^ 64 \<le> unat ?smoke + (length data - nz) * 4 then Inl ErrSmokeOverflow
     else Inr (?smoke + (word_of_nat (length data) - word_of_nat nz) * TxDataZeroSmoke))"
    unfolding IntrinsicSmoke_def count_nonzero_filter nz_def [symmetric] smoke_def [symmetric] c_def [symmetric] Let_def
      smoke_overflow_iff [OF us(3)] smoke_overflow_iff [OF us(5)] un us(4) by simp
  have "IntrinsicSmoke data create homestead eip2028 = (if ?n < 2 ^ 64 then Inr (word_of_nat ?n) else Inl ErrSmokeOverflow)"
  proof (cases "unat smoke + nz * unat c < 2 ^ 64")
    case True
    then have u: "unat ?smoke = unat smoke + nz * unat c" using smoke_add [of smoke "word_of_nat nz" c] un(1) by simp
    have w: "?smoke + (word_of_nat (length data) - word_of_nat nz) * TxDataZeroSmoke = word_of_nat ?n"
      using le by (simp add: of_nat_diff)
    have "smoke = word_of_nat ?n" if "length data = 0" using that le by simp
    then show ?thesis using True le unfolding I u w by (auto simp: not_le)
  next
    case False
    moreover have "length data \<noteq> 0" using False le unat_uint64 [of smoke] by auto
    ultimately show ?thesis unfolding I by auto
  qed
  then show ?thesis by (simp add: us(1,2) nz_def Let_def)
qed

theorem IntrinsicSmoke_exact_witness:
  "IntrinsicSmoke [0, 7, 0] False True True = Inr 20024"
  using IntrinsicSmoke_exact [of "[0, 7, 0]" False True True] by (simp add: Let_def)

subsection \<open>Stages of a transition\<close>

text \<open>
  What \<open>preCheck\<close> leaves behind: the smoke of the message is bought from the pool and paid
  for by the sender.
\<close>

definition bought :: "(bytes \<Rightarrow> hash) \<Rightarrow> 'tr database \<Rightarrow> address set \<Rightarrow> 'tr StateTransition \<Rightarrow> 'tr StateTransition \<Rightarrow> bool" where
  "bought K db A st st' \<longleftrightarrow>
    (let msg = st_msg st; mgval = uint (msg_Smoke msg) * st_smokePrice st
     in mgval \<le> bal K db (st_state st) (msg_From msg) \<and> msg_Smoke msg \<le> st_gp st \<and>
        st_gp st' = st_gp st - msg_Smoke msg \<and> st_smoke st' = msg_Smoke msg \<and> st_initialSmoke st' = msg_Smoke msg \<and>
        (\<forall>b\<in>A. bal K db (st_state st') b = bal K db (st_state st) b - (if b = msg_From msg then mgval else 0)))"

definition same_message :: "'tr StateTransition \<Rightarrow> 'tr StateTransition \<Rightarrow> bool" where
  "same_message st st' \<longleftrightarrow> st_msg st' = st_msg st \<and> st_smokePrice st' = st_smokePrice st \<and> st_value st' = st_value st \<and> st_data st' = st_data st"

text \<open>
  The execution in the virtual machine returns, uses only smoke of the message and, with a
  fair interpreter, creates no coins.
\<close>

definition executes ::
  "(bytes \<Rightarrow> hash) \<Rightarrow> 'tr database \<Rightarrow> address set \<Rightarrow> 'tr StateTransition \<Rightarrow> 'tr StateTransition \<Rightarrow> bool" where
  "executes K db A st st' \<longleftrightarrow> same_message st st' \<and> st_gp st' = st_gp st \<and> st_initialSmoke st' = st_initialSmoke st \<and>
    steps K db A (st_state st) (st_state st') \<and> st_smoke st' \<le> st_smoke st"

text \<open>The operations around the execution touch neither storage nor code.\<close>

definition mild :: "(bytes \<Rightarrow> hash) \<Rightarrow> 'tr database \<Rightarrow> address set \<Rightarrow> 'tr StateDB \<Rightarrow> 'tr StateDB \<Rightarrow> bool" where
  "mild K db A s s' \<longleftrightarrow> steps K db A s s' \<and> tame (view K db A s) (view K db A s')"

lemma mild_refl [simp]: "mild K db A s s"
  by (simp add: mild_def)

lemma mild_trans: "mild K db A s s1 \<Longrightarrow> mild K db A s1 s2 \<Longrightarrow> mild K db A s s2"
  unfolding mild_def using steps_trans tame_trans by blast

definition addressed :: "(bytes \<Rightarrow> hash) \<Rightarrow> address set \<Rightarrow> Message \<Rightarrow> bool" where
  "addressed K A msg \<longleftrightarrow> msg_From msg \<in> A \<and> (case msg_To msg of None \<Rightarrow> (\<forall>n. CreateAddress K (msg_From msg) n \<in> A) | Some a \<Rightarrow> a \<in> A)"

context state_store begin

abbreviation tamed :: "'tr StateTransition \<Rightarrow> 'tr StateTransition \<Rightarrow> bool" where
  "tamed st st' \<equiv> mild K db A (st_state st) (st_state st')"

lemma tame_fetch: "tx s \<Longrightarrow> a \<in> A \<Longrightarrow> mild K db A s (snd (getStateObject K db a s))"
  using looks_fetch by (simp add: looks_def mild_def)

lemma tame_balance:
  assumes "tx s" "a \<in> A"
  shows "mild K db A s (AddBalance K db a n s)" "mild K db A s (SubBalance K db a n s)"
  using assms(1) setters_puts(1,2) [OF _ assms(2)] puts_tame steps_writes(2,3) [OF assms] unfolding tx_state_def mild_def by blast+

lemma buySmoke_stage:
  assumes tx: "tx (st_state st)" and a: "msg_From (st_msg st) \<in> A" and z: "st_smoke st = 0" and b: "buySmoke K db st = (err, st')"
  shows "tx (st_state st')" "same_message st st'"
    "err \<noteq> None \<Longrightarrow> st_gp st' = st_gp st \<and> same_bal K db A (st_state st) (st_state st')" "err = None \<Longrightarrow> bought K db A st st'"
    "tamed st st'"
proof -
  let ?a = "msg_From (st_msg st)" and ?s1 = "snd (getStateObject K db (msg_From (st_msg st)) (st_state st))"
  let ?v = "uint (msg_Smoke (st_msg st)) * st_smokePrice st"
  note f = fetch_steps [OF tx a refl] and fb = fetch_same_bal [OF tx a refl]
  have ok1: "ok ?s1" using f(2) by (simp add: tx_state_def)
  have g: "GetBalance K db ?a (st_state st) = (bal K db (st_state st) ?a, ?s1)"
    using reads_fetch(1) [of K db ?a "st_state st"] by (simp add: bal_def prod_eq_iff)
  have eq: "buySmoke K db st =
    (if bal K db (st_state st) ?a < ?v then (Some ErrInsufficientFunds, st\<lparr>st_state := ?s1\<rparr>)
     else if st_gp st < msg_Smoke (st_msg st) then (Some ErrSmokeLimitReached, st\<lparr>st_state := ?s1\<rparr>)
     else (None, st\<lparr>st_gp := st_gp st - msg_Smoke (st_msg st), st_smoke := msg_Smoke (st_msg st),
       st_initialSmoke := msg_Smoke (st_msg st), st_state := SubBalance K db ?a ?v ?s1\<rparr>))"
    by (simp add: buySmoke_def g SubSmoke_def z Let_def)
  have sub: "tx (SubBalance K db ?a ?v ?s1)" by (rule steps_tx [OF f(2) steps_writes(3) [OF f(2) a]])
  show "tx (st_state st')" "same_message st st'"
    "err \<noteq> None \<Longrightarrow> st_gp st' = st_gp st \<and> same_bal K db A (st_state st) (st_state st')"
    using b f(2) fb sub unfolding eq by (auto simp: same_message_def split: if_splits)
  show "bought K db A st st'" if "err = None"
    using b that moves_bal(2) [OF ok1 a] fb unfolding eq
    by (auto simp: bought_def same_bal_def Let_def split: if_splits)
  show "tamed st st'" using b tame_fetch [OF tx a] mild_trans [OF tame_fetch [OF tx a] tame_balance(2) [OF f(2) a]]
    unfolding eq by (auto split: if_splits)
qed

lemma preCheck_stage:
  assumes tx: "tx (st_state st)" and a: "msg_From (st_msg st) \<in> A" and z: "st_smoke st = 0" and b: "preCheck K db st = (err, st')"
  shows "tx (st_state st')" "same_message st st'"
    "err \<noteq> None \<Longrightarrow> st_gp st' = st_gp st \<and> same_bal K db A (st_state st) (st_state st')" "err = None \<Longrightarrow> bought K db A st st'"
    "tamed st st'"
proof -
  let ?a = "msg_From (st_msg st)" and ?s1 = "snd (getStateObject K db (msg_From (st_msg st)) (st_state st))"
  note f = fetch_steps [OF tx a refl] and fb = fetch_same_bal [OF tx a refl]
  let ?st1 = "if msg_CheckNonce (st_msg st) then st\<lparr>st_state := ?s1\<rparr> else st"
  have st1: "tx (st_state ?st1)" "msg_From (st_msg ?st1) \<in> A" "st_smoke ?st1 = 0" "same_bal K db A (st_state st) (st_state ?st1)"
    "st_gp ?st1 = st_gp st" "same_message st ?st1" "st_msg ?st1 = st_msg st" "st_smokePrice ?st1 = st_smokePrice st"
    "tamed st ?st1"
    using f(2) fb a tx z tame_fetch [OF tx a] by (simp_all add: same_message_def)
  note bs = buySmoke_stage [OF st1(1-3)]
  consider "err \<noteq> None" "st' = ?st1" | "buySmoke K db ?st1 = (err, st')"
    using b reads_fetch(2) [of K db ?a "st_state st"]
    by (cases "GetNonce K db ?a (st_state st)") (auto simp: preCheck_def Let_def split: if_splits)
  then have "tx (st_state st') \<and> same_message st st' \<and>
    (err \<noteq> None \<longrightarrow> st_gp st' = st_gp st \<and> same_bal K db A (st_state st) (st_state st')) \<and> (err = None \<longrightarrow> bought K db A st st') \<and> tamed st st'"
  proof cases
    case 2
    have "bought K db A st st'" if "err = None"
      using bs(4) [OF 2 that] st1(4,5,7,8) a by (simp add: bought_def same_bal_def Let_def)
    then show ?thesis using bs(1-3) [OF 2] st1(4-6) same_bal_trans mild_trans [OF st1(9) bs(5) [OF 2]] by (auto simp: same_message_def)
  qed (use st1 in auto)
  then show "tx (st_state st')" "same_message st st'"
    "err \<noteq> None \<Longrightarrow> st_gp st' = st_gp st \<and> same_bal K db A (st_state st) (st_state st')" "err = None \<Longrightarrow> bought K db A st st'"
    "tamed st st'"
    by blast+
qed

lemma execute_stage:
  assumes run: "interp_ok K db good A run" and tx: "tx (st_state st)" and A: "addressed K A (st_msg st)"
  shows "execute K db run evm st = Some (ret, vmerr, st') \<Longrightarrow> executes K db A st st'"
    and "interp_total run \<Longrightarrow> execute K db run evm st \<noteq> None"
    and "execute K db run evm st = Some (ret, vmerr, st') \<Longrightarrow> finite A \<Longrightarrow> 0 \<le> st_value st \<Longrightarrow> interp_fair K db good A run \<Longrightarrow>
      no_mint K db A (st_state st) (st_state st')"
proof -
  let ?a = "msg_From (st_msg st)"
  have a: "?a \<in> A" using A by (simp add: addressed_def)
  define s1 where "s1 = snd (getStateObject K db ?a (st_state st))"
  define nonce where "nonce = fst (GetNonce K db ?a (st_state st))"
  define s2 where "s2 = SetNonce K db ?a (nonce + 1) s1"
  have n: "GetNonce K db ?a (st_state st) = (nonce, s1)" by (simp add: nonce_def s1_def prod_eq_iff reads_fetch)
  note f1 = fetch_steps [OF tx a s1_def] and b1 = fetch_same_bal [OF tx a s1_def]
  have s2: "steps K db A s1 s2" "same_bal K db A s1 s2"
    using steps_writes(4) [OF f1(2) a] writes_same_bal(1) [OF _ a] f1(2) by (simp_all add: s2_def tx_state_def)
  have st2: "steps K db A (st_state st) s2" "tx s2" "same_bal K db A (st_state st) s2"
    using steps_trans [OF f1(1) s2(1)] steps_tx [OF f1(2) s2(1)] same_bal_trans [OF b1 s2(2)] by blast+
  have ra: "ref_Address (AccountRef ?a) \<in> A" using a by simp
  define r where "r = (case msg_To (st_msg st) of
      None \<Rightarrow> map_option (\<lambda>(ret, _, smoke, vmerr, s). (ret, smoke, vmerr, s))
        (evm_create K db run evm (AccountRef ?a) \<lparr>ch_code = st_data st, ch_hash = zero_hash\<rparr> (st_smoke st) (st_value st) (CreateAddress K ?a nonce) s1)
    | Some to \<Rightarrow> Call K db run evm (AccountRef ?a) to (st_data st) (st_smoke st) (st_value st) s2)"
  have ex: "execute K db run evm st = map_option (\<lambda>(ret, smoke, vmerr, s). (ret, vmerr, st\<lparr>st_smoke := smoke, st_state := s\<rparr>)) r"
    by (auto simp: execute_def r_def st_to_def Create_def n Let_def s2_def split: option.splits prod.splits)
  have cr: "CreateAddress K ?a nonce \<in> A" if "msg_To (st_msg st) = None" using A that by (simp add: addressed_def)
  have to: "to \<in> A" if "msg_To (st_msg st) = Some to" for to using A that by (simp add: addressed_def)
  note C = create_outcome [OF run f1(2) ra cr] and L = Call_outcome [OF run st2(2) ra to]
  have "steps K db A (st_state st) s' \<and> left \<le> st_smoke st" if r: "r = Some (ret, left, vmerr, s')" for ret left vmerr s'
  proof (cases "msg_To (st_msg st)")
    case None
    then show ?thesis using r C(1) [OF None] steps_trans [OF f1(1)] by (auto simp: r_def)
  next
    case (Some to)
    then show ?thesis using r L(1) [OF Some] steps_trans [OF st2(1)] by (auto simp: r_def outcome_def)
  qed
  then show "executes K db A st st'" if "execute K db run evm st = Some (ret, vmerr, st')"
    using that unfolding ex by (auto simp: executes_def same_message_def)
  show "execute K db run evm st \<noteq> None" if "interp_total run"
    using C(2) [OF _ that] L(2) [OF _ that] unfolding ex r_def by (auto split: option.splits simp del: not_None_eq)
  show "no_mint K db A (st_state st) (st_state st')" if e: "execute K db run evm st = Some (ret, vmerr, st')"
    and f: "finite A" "0 \<le> st_value st" "interp_fair K db good A run"
  proof (cases "msg_To (st_msg st)")
    case None
    then show ?thesis using e C(3) [OF None _ f] no_mint_trans [OF same_bal_no_mint [OF b1]] unfolding ex r_def by auto
  next
    case (Some to)
    obtain left s' where c: "Call K db run evm (AccountRef ?a) to (st_data st) (st_smoke st) (st_value st) s2 = Some (ret, left, vmerr, s')"
      "st_state st' = s'" using e Some unfolding ex r_def by auto
    note o = L(1) [OF Some c(1)]
    have "no_mint K db A s2 s'"
    proof (cases vmerr)
      case None
      then show ?thesis using L(3) [OF Some _ f] c(1) by blast
    next
      case (Some e)
      have "tx s'" using steps_tx [OF st2(2)] o by (simp add: outcome_def)
      from same_view_bal [OF st2(2) this] show ?thesis using o Some same_bal_no_mint by (simp add: outcome_def)
    qed
    then show ?thesis using no_mint_trans [OF same_bal_no_mint [OF st2(3)]] c(2) by blast
  qed
qed

lemma refundSmoke_stage:
  assumes le: "st_smoke st \<le> st_initialSmoke st" and gp: "unat (st_gp st) + unat (st_initialSmoke st) < 2 ^ 64"
  obtains smoke where "st_smoke st \<le> smoke" "smoke \<le> st_initialSmoke st" "unat (st_gp st + smoke) = unat (st_gp st) + unat smoke"
    "refundSmoke K db st = Some (st\<lparr>st_smoke := smoke, st_gp := st_gp st + smoke,
       st_state := AddBalance K db (msg_From (st_msg st)) (uint smoke * st_smokePrice st) (st_state st)\<rparr>)"
proof -
  define refund where "refund = (if GetRefund (st_state st) < smokeUsed st div 2 then GetRefund (st_state st) else smokeUsed st div 2)"
  define smoke where "smoke = st_smoke st + refund"
  have used: "unat (smokeUsed st) = unat (st_initialSmoke st) - unat (st_smoke st)"
    using le by (simp add: smokeUsed_def unat_sub)
  have "unat refund \<le> unat (smokeUsed st) div 2"
    by (auto simp: refund_def word_less_nat_alt unat_div_distrib)
  then have r: "unat refund \<le> unat (st_initialSmoke st) - unat (st_smoke st)" using used by simp
  have u: "unat smoke = unat (st_smoke st) + unat refund"
    unfolding smoke_def using r le gp by (intro unat_add_lem [THEN iffD1]) (simp add: word_le_nat_alt)
  have s: "st_smoke st \<le> smoke" "smoke \<le> st_initialSmoke st" using u r le by (simp_all add: word_le_nat_alt)
  have g: "unat (st_gp st) + unat smoke < 2 ^ 64" using s(2) gp by (simp add: word_le_nat_alt)
  then have g2: "unat (st_gp st + smoke) = unat (st_gp st) + unat smoke" by (intro unat_add_lem [THEN iffD1]) simp
  have "\<not> 0xFFFFFFFFFFFFFFFF - smoke < st_gp st" using g by (simp add: word_less_nat_alt unat_max_minus)
  then have "refundSmoke K db st = Some (st\<lparr>st_smoke := smoke, st_gp := st_gp st + smoke,
       st_state := AddBalance K db (msg_From (st_msg st)) (uint smoke * st_smokePrice st) (st_state st)\<rparr>)"
    by (simp add: refundSmoke_def Let_def refund_def [symmetric] smoke_def [symmetric] AddSmoke_def)
  then show ?thesis using that s g2 by blast
qed

lemma settle_stage:
  assumes tx: "tx (st_state st)" and A: "msg_From (st_msg st) \<in> A" "coinbase \<in> A"
    and le: "st_smoke st \<le> st_initialSmoke st" and gp: "unat (st_gp st) + unat (st_initialSmoke st) < 2 ^ 64"
  obtains used st' where "settle K db coinbase ret vmerr st = Some (\<lparr>er_UsedSmoke = used, er_Err = vmerr, er_ReturnData = ret\<rparr>, st')"
    "tx (st_state st')" "used \<le> st_initialSmoke st - st_smoke st" "unat (st_gp st') + unat used = unat (st_gp st) + unat (st_initialSmoke st)"
    "\<And>b. b \<in> A \<Longrightarrow> bal K db (st_state st') b = bal K db (st_state st) b +
      (if b = msg_From (st_msg st) then (uint (st_initialSmoke st) - uint used) * st_smokePrice st else 0) +
      (if b = coinbase then uint used * st_smokePrice st else 0)"
    "tamed st st'"
proof -
  obtain smoke where m: "st_smoke st \<le> smoke" "smoke \<le> st_initialSmoke st" "unat (st_gp st + smoke) = unat (st_gp st) + unat smoke"
    "refundSmoke K db st = Some (st\<lparr>st_smoke := smoke, st_gp := st_gp st + smoke,
       st_state := AddBalance K db (msg_From (st_msg st)) (uint smoke * st_smokePrice st) (st_state st)\<rparr>)"
    by (rule refundSmoke_stage [OF le gp])
  define used where "used = st_initialSmoke st - smoke"
  define s1 where "s1 = AddBalance K db (msg_From (st_msg st)) (uint smoke * st_smokePrice st) (st_state st)"
  define s2 where "s2 = AddBalance K db coinbase (uint used * st_smokePrice st) s1"
  have s1: "tx s1" using steps_tx [OF tx steps_writes(2) [OF tx A(1)]] by (simp add: s1_def)
  have s2: "tx s2" using steps_tx [OF s1 steps_writes(2) [OF s1 A(2)]] by (simp add: s2_def)
  have u: "unat used = unat (st_initialSmoke st) - unat smoke" "uint smoke = uint (st_initialSmoke st) - uint used"
    using m(2) uint_sub_lem [of smoke "st_initialSmoke st"] by (simp_all add: used_def unat_sub word_le_def)
  have ok: "ok (st_state st)" "ok s1" using tx s1 by (simp_all add: tx_state_def)
  have "bal K db s2 b = bal K db (st_state st) b +
      (if b = msg_From (st_msg st) then (uint (st_initialSmoke st) - uint used) * st_smokePrice st else 0) +
      (if b = coinbase then uint used * st_smokePrice st else 0)" if "b \<in> A" for b
    using moves_bal(1) [OF ok(1) A(1) that] moves_bal(1) [OF ok(2) A(2) that] u(2) by (simp add: s1_def s2_def)
  moreover have "used \<le> st_initialSmoke st - st_smoke st"
    using m(1,2) le u(1) by (simp add: word_le_nat_alt unat_sub)
  moreover have "unat (st_gp st + smoke) + unat used = unat (st_gp st) + unat (st_initialSmoke st)"
    using m(2,3) u(1) by (simp add: word_le_nat_alt)
  moreover have "settle K db coinbase ret vmerr st = Some (\<lparr>er_UsedSmoke = used, er_Err = vmerr, er_ReturnData = ret\<rparr>,
      st\<lparr>st_smoke := smoke, st_gp := st_gp st + smoke, st_state := s2\<rparr>)"
    by (simp add: settle_def m(4) Let_def smokeUsed_def used_def [symmetric] s1_def [symmetric] s2_def)
  moreover have "mild K db A (st_state st) s2"
    using mild_trans [OF tame_balance(1) [OF tx A(1)] tame_balance(1) [OF s1 A(2), unfolded s1_def]] by (simp add: s2_def s1_def)
  ultimately show ?thesis using s2 that by fastforce
qed

lemma IntrinsicSmoke_err: "IntrinsicSmoke data c h e = Inl err \<Longrightarrow> err = ErrSmokeOverflow"
  by (auto simp: IntrinsicSmoke_def Let_def split: if_splits)

text \<open>The checks of a transition: refused before or after smoke was bought, or passed on.\<close>

lemma TransitionDb_checks:
  assumes tx: "tx (st_state st)" and a: "msg_From (st_msg st) \<in> A" and z: "st_smoke st = 0"
  obtains
    (refused) err st1 where "TransitionDb K db run evm coinbase st = Some (Inl err, st1)" "tx (st_state st1)" "st_gp st1 = st_gp st"
      "same_bal K db A (st_state st) (st_state st1)" "tamed st st1"
  | (charged) err st1 where "TransitionDb K db run evm coinbase st = Some (Inl err, st1)" "tx (st_state st1)"
      "bought K db A st (st1\<lparr>st_smoke := msg_Smoke (st_msg st)\<rparr>)" "err \<in> {ErrSmokeOverflow, ErrIntrinsicSmoke, ErrInsufficientFundsForTransfer}"
      "tamed st st1"
  | (passed) st1 where "TransitionDb K db run evm coinbase st = (case execute K db run evm st1 of None \<Rightarrow> None
            | Some (ret, vmerr, st) \<Rightarrow> (case settle K db coinbase ret vmerr st of None \<Rightarrow> None | Some (result, st) \<Rightarrow> Some (Inr result, st)))"
      "tx (st_state st1)" "bought K db A st (st1\<lparr>st_smoke := msg_Smoke (st_msg st)\<rparr>)" "same_message st st1" "st_smoke st1 \<le> msg_Smoke (st_msg st)"
      "tamed st st1"
proof -
  let ?msg = "st_msg st" and ?T = "TransitionDb K db run evm coinbase st"
  obtain err st0 where p: "preCheck K db st = (err, st0)" by fastforce
  note pre = preCheck_stage [OF tx a z p]
  show ?thesis
  proof (cases err)
    case (Some e)
    then have "?T = Some (Inl e, st0)" by (simp add: TransitionDb_def p)
    then show ?thesis using refused pre Some by simp
  next
    case None
    note b0 = pre(4) [OF None] and same = pre(2) [unfolded same_message_def]
    have sm: "st_smoke st0 = msg_Smoke ?msg" "st0\<lparr>st_smoke := msg_Smoke ?msg\<rparr> = st0" using b0 by (auto simp: bought_def Let_def)
    define I where "I = IntrinsicSmoke (st_data st0) (msg_To ?msg = None) (r_IsHomestead (evm_chainRules evm)) (r_IsIstanbul (evm_chainRules evm))"
    consider smoke where "I = Inr smoke" "smoke \<le> st_smoke st0" | e where "?T = Some (Inl e, st0)" "e \<in> {ErrSmokeOverflow, ErrIntrinsicSmoke}"
    proof (cases I)
      case (Inl e)
      then have "?T = Some (Inl e, st0)" using same by (simp add: TransitionDb_def p None I_def)
      moreover have "e = ErrSmokeOverflow" using Inl IntrinsicSmoke_err unfolding I_def by blast
      ultimately show ?thesis using that(2) by simp
    next
      case (Inr b)
      then have "?T = Some (Inl ErrIntrinsicSmoke, st0)" if "st_smoke st0 < b" using that same by (simp add: TransitionDb_def p None I_def)
      then show ?thesis using that Inr by (cases "b \<le> st_smoke st0") auto
    qed
    then show ?thesis
    proof cases
      case 2
      then show ?thesis using charged pre(1,5) b0 sm(2) by auto
    next
      case I: 1
      define s1 where "s1 = (if 0 < msg_Value ?msg then snd (getStateObject K db (msg_From ?msg) (st_state st0)) else st_state st0)"
      obtain ca where can: "(if 0 < msg_Value ?msg then CanTransfer K db (msg_From ?msg) (msg_Value ?msg) (st_state st0) else (True, st_state st0)) = (ca, s1)"
        using reads_fetch(1) [of K db "msg_From ?msg" "st_state st0"]
        by (cases "GetBalance K db (msg_From ?msg) (st_state st0)"; cases "0 < msg_Value ?msg") (auto simp: CanTransfer_def s1_def)
      have s1: "tx s1" "same_bal K db A (st_state st0) s1" "mild K db A (st_state st) s1"
        using fetch_steps(2) [OF pre(1) a refl] fetch_same_bal [OF pre(1) a refl] pre(1,5) mild_trans [OF pre(5) tame_fetch [OF pre(1) a]]
        by (simp_all add: s1_def)
      define st1 where "st1 = st0\<lparr>st_smoke := st_smoke st0 - smoke, st_state := s1\<rparr>"
      have st1: "bought K db A st (st1\<lparr>st_smoke := msg_Smoke ?msg\<rparr>)" "same_message st st1" "tx (st_state st1)" "st_smoke st1 \<le> msg_Smoke ?msg" "tamed st st1"
        using b0 s1 sm same I(2) word_sub_le [OF I(2)] by (simp_all add: bought_def st1_def same_bal_def Let_def same_message_def)
      have "?T = (if \<not> ca then Some (Inl ErrInsufficientFundsForTransfer, st1)
          else case execute K db run evm st1 of None \<Rightarrow> None
            | Some (ret, vmerr, st) \<Rightarrow> (case settle K db coinbase ret vmerr st of None \<Rightarrow> None | Some (result, st) \<Rightarrow> Some (Inr result, st)))"
        using I same by (simp add: TransitionDb_def p None I_def can Let_def st1_def not_less [symmetric] split del: if_split cong: if_cong)
      then show ?thesis using charged passed st1 by (cases ca) auto
    qed
  qed
qed

text \<open>A transition that passes the checks is executed and settled.\<close>

lemma TransitionDb_executed:
  assumes tx: "tx (st_state st1)" and A: "msg_From (st_msg st) \<in> A" "coinbase \<in> A" and x1: "executes K db A st1 st2"
    and b: "bought K db A st (st1\<lparr>st_smoke := msg_Smoke (st_msg st)\<rparr>)" "same_message st st1" "st_smoke st1 \<le> msg_Smoke (st_msg st)"
  obtains used st3 where "settle K db coinbase ret vmerr st2 = Some (\<lparr>er_UsedSmoke = used, er_Err = vmerr, er_ReturnData = ret\<rparr>, st3)" "tx (st_state st3)"
    "used \<le> msg_Smoke (st_msg st)" "unat (st_gp st3) + unat used = unat (st_gp st)"
    "\<And>b. b \<in> A \<Longrightarrow> bal K db (st_state st3) b = bal K db (st_state st2) b +
        (if b = msg_From (st_msg st) then (uint (msg_Smoke (st_msg st)) - uint used) * st_smokePrice st else 0) +
        (if b = coinbase then uint used * st_smokePrice st else 0)" "tamed st2 st3"
proof -
  have m: "st_msg st1 = st_msg st" "st_smokePrice st1 = st_smokePrice st" using b(2) by (simp_all add: same_message_def)
  have g: "st_initialSmoke st1 = msg_Smoke (st_msg st)" "unat (st_gp st1) + unat (msg_Smoke (st_msg st)) = unat (st_gp st)"
    using b(1) by (simp_all add: bought_def Let_def unat_sub word_le_nat_alt)
  have x: "same_message st1 st2" "st_gp st2 = st_gp st1" "st_initialSmoke st2 = msg_Smoke (st_msg st)" "tx (st_state st2)" "st_smoke st2 \<le> msg_Smoke (st_msg st)"
    using x1 steps_tx [OF tx] g(1) order_trans [OF _ b(3)] by (simp_all add: executes_def)
  have m2: "st_msg st2 = st_msg st" "st_smokePrice st2 = st_smokePrice st" using x(1) m by (simp_all add: same_message_def)
  have "unat (st_gp st2) + unat (st_initialSmoke st2) < 2 ^ 64" using g(2) x(2,3) unat_uint64 [of "st_gp st"] by simp
  note settled = settle_stage [OF x(4) _ A(2) _ this, where ret = ret and vmerr = vmerr, unfolded m2 x(3)]
  obtain used st3 where
    s: "settle K db coinbase ret vmerr st2 = Some (\<lparr>er_UsedSmoke = used, er_Err = vmerr, er_ReturnData = ret\<rparr>, st3)" "tx (st_state st3)"
    "used \<le> msg_Smoke (st_msg st) - st_smoke st2" "unat (st_gp st3) + unat used = unat (st_gp st2) + unat (msg_Smoke (st_msg st))"
    "\<And>b. b \<in> A \<Longrightarrow> bal K db (st_state st3) b = bal K db (st_state st2) b +
        (if b = msg_From (st_msg st) then (uint (msg_Smoke (st_msg st)) - uint used) * st_smokePrice st else 0) +
        (if b = coinbase then uint used * st_smokePrice st else 0)" "tamed st2 st3"
    by (rule settled [OF A(1) x(5)]) (rule that)
  have "used \<le> msg_Smoke (st_msg st)" using s(3) word_sub_le [OF x(5)] by (rule order_trans)
  then show ?thesis using that s g(2) x(2) by simp
qed

text \<open>
  The three ends of a message: refused before smoke was bought, refused after it, or executed and
  settled. What the execution did between the checks and the settlement is the argument \<open>Q\<close>.
\<close>

lemma message_outcome:
  assumes tx: "tx s" and A: "msg_From msg \<in> A" "coinbase \<in> A"
    and run: "\<And>st. tx (st_state st) \<Longrightarrow> same_message (NewStateTransition msg gp s) st \<Longrightarrow> st_smoke st \<le> msg_Smoke msg \<Longrightarrow>
      mild K db A s (st_state st) \<Longrightarrow>
      \<exists>ret vmerr st'. execute K db run evm st = Some (ret, vmerr, st') \<and> executes K db A st st' \<and> Q (st_state st) (st_state st')"
  obtains
    (refused) err s' where "ApplyMessage K db run evm coinbase msg gp s = Some (Inl err, gp, s')" "tx s'" "same_bal K db A s s'" "mild K db A s s'"
  | (charged) err s' where "ApplyMessage K db run evm coinbase msg gp s = Some (Inl err, gp - msg_Smoke msg, s')" "tx s'"
      "err \<in> {ErrSmokeOverflow, ErrIntrinsicSmoke, ErrInsufficientFundsForTransfer}" "msg_Smoke msg \<le> gp"
      "uint (msg_Smoke msg) * msg_SmokePrice msg \<le> bal K db s (msg_From msg)"
      "\<forall>a\<in>A. bal K db s' a = bal K db s a - (if a = msg_From msg then uint (msg_Smoke msg) * msg_SmokePrice msg else 0)" "mild K db A s s'"
  | (executed) result gp' s' s1 s2 where "ApplyMessage K db run evm coinbase msg gp s = Some (Inr result, gp', s')" "tx s'"
      "er_UsedSmoke result \<le> msg_Smoke msg" "unat gp' + unat (er_UsedSmoke result) = unat gp"
      "uint (msg_Smoke msg) * msg_SmokePrice msg \<le> bal K db s (msg_From msg)"
      "\<forall>a\<in>A. bal K db s1 a = bal K db s a - (if a = msg_From msg then uint (msg_Smoke msg) * msg_SmokePrice msg else 0)"
      "Q s1 s2" "tx s1" "tx s2" "mild K db A s s1" "mild K db A s2 s'"
      "\<forall>a\<in>A. bal K db s' a = bal K db s2 a +
        (if a = msg_From msg then (uint (msg_Smoke msg) - uint (er_UsedSmoke result)) * msg_SmokePrice msg else 0) +
        (if a = coinbase then uint (er_UsedSmoke result) * msg_SmokePrice msg else 0)"
proof -
  let ?st = "NewStateTransition msg gp s"
  have st: "st_state ?st = s" "st_msg ?st = msg" "st_smoke ?st = 0" "st_gp ?st = gp" "st_smokePrice ?st = msg_SmokePrice msg"
    by (simp_all add: NewStateTransition_def)
  have st': "tx (st_state ?st)" "msg_From (st_msg ?st) \<in> A" using tx A(1) st by simp_all
  show ?thesis
  proof (cases rule: TransitionDb_checks [OF st' st(3), of run evm coinbase, case_names refused' charged' passed'])
    case (refused' err st1)
    then show ?thesis using st by (intro refused [of err "st_state st1"]) (simp_all add: ApplyMessage_def)
  next
    case (charged' err st1)
    then show ?thesis using st by (intro charged [of err "st_state st1"]) (simp_all add: ApplyMessage_def bought_def Let_def)
  next
    case (passed' st1)
    obtain ret vmerr st2 where e: "execute K db run evm st1 = Some (ret, vmerr, st2)" "executes K db A st1 st2" "Q (st_state st1) (st_state st2)"
      using run [of st1] passed'(2,4-6) st by auto
    obtain used st3 where f: "settle K db coinbase ret vmerr st2 = Some (\<lparr>er_UsedSmoke = used, er_Err = vmerr, er_ReturnData = ret\<rparr>, st3)" "tx (st_state st3)"
      "used \<le> msg_Smoke (st_msg ?st)" "unat (st_gp st3) + unat used = unat (st_gp ?st)"
      "\<And>b. b \<in> A \<Longrightarrow> bal K db (st_state st3) b = bal K db (st_state st2) b +
        (if b = msg_From (st_msg ?st) then (uint (msg_Smoke (st_msg ?st)) - uint used) * st_smokePrice ?st else 0) +
        (if b = coinbase then uint used * st_smokePrice ?st else 0)" "tamed st2 st3"
      by (rule TransitionDb_executed [OF passed'(2) st'(2) A(2) e(2) passed'(3-5)]) (rule that)
    have "tx (st_state st2)" using steps_tx [OF passed'(2)] e(2) by (simp add: executes_def)
    moreover have "ApplyMessage K db run evm coinbase msg gp s =
        Some (Inr \<lparr>er_UsedSmoke = used, er_Err = vmerr, er_ReturnData = ret\<rparr>, st_gp st3, st_state st3)"
      using passed'(1) e(1) f(1) by (simp add: ApplyMessage_def)
    ultimately show ?thesis using passed'(2,3,6) f e(3) unfolding st
      by (intro executed [of "\<lparr>er_UsedSmoke = used, er_Err = vmerr, er_ReturnData = ret\<rparr>" "st_gp st3" "st_state st3" "st_state st1" "st_state st2"])
        (simp_all add: bought_def st Let_def)
  qed
qed

text \<open>What the sender paid is what sender and coinbase get at the end, so nothing but the execution can make coins.\<close>

lemma paid_no_mint:
  assumes fin: "finite A" and A: "a \<in> A" "c \<in> A" and p: "0 \<le> p" "uint smoke * p \<le> bal K db s a" "used \<le> smoke"
    and b: "\<forall>b\<in>A. bal K db s1 b = bal K db s b - (if b = a then uint smoke * p else 0)" "no_mint K db A s1 s2"
      "\<forall>b\<in>A. bal K db s' b = bal K db s2 b + (if b = a then (uint smoke - uint used) * p else 0) + (if b = c then uint used * p else 0)"
  shows "no_mint K db A s s'"
  unfolding no_mint_def
proof (intro impI)
  assume nn: "\<forall>a\<in>A. 0 \<le> bal K db s a"
  have "\<forall>a\<in>A. 0 \<le> bal K db s1 a" using b(1) nn p(2) by auto
  moreover have t1: "total K db A s1 = total K db A s - uint smoke * p" using b(1) fin A(1) by (simp add: total_def sum_subtractf)
  ultimately have x: "\<forall>a\<in>A. 0 \<le> bal K db s2 a" "total K db A s2 \<le> total K db A s - uint smoke * p"
    using b(2) by (auto simp: no_mint_def)
  have "uint used \<le> uint smoke" using p(3) by (simp add: word_le_def)
  then have "\<forall>a\<in>A. 0 \<le> bal K db s' a" using b(3) x(1) p(1) by (auto intro!: add_nonneg_nonneg mult_nonneg_nonneg)
  moreover have "total K db A s' = total K db A s2 + uint smoke * p"
    using fin A b(3) unfolding total_def by (simp add: sum.distrib algebra_simps)
  ultimately show "(\<forall>a\<in>A. 0 \<le> bal K db s' a) \<and> total K db A s' \<le> total K db A s" using x(2) by simp
qed

lemma charged_no_mint:
  assumes "finite A" "a \<in> A" "0 \<le> p" "uint smoke * p \<le> bal K db s a"
    and "\<forall>b\<in>A. bal K db s' b = bal K db s b - (if b = a then uint (smoke :: uint64) * p else 0)"
  shows "no_mint K db A s s'"
  using assms by (auto simp: no_mint_def total_def sum_subtractf)

end

subsection \<open>Smoke and coins of a message\<close>

text \<open>With an interpreter that keeps its contract, the execution of a message returns.\<close>

lemma message_executes:
  assumes "state_store db good K A" "interp_ok K db good A run" "interp_total run" "addressed K A msg"
    and "tx_state K db good A (st_state st)" "same_message (NewStateTransition msg gp s) st"
  shows "\<exists>ret vmerr st'. execute K db run evm st = Some (ret, vmerr, st') \<and> executes K db A st st' \<and>
    (finite A \<longrightarrow> 0 \<le> msg_Value msg \<longrightarrow> interp_fair K db good A run \<longrightarrow> no_mint K db A (st_state st) (st_state st'))"
proof -
  have a: "addressed K A (st_msg st)" "st_value st = msg_Value msg" using assms(4,6) by (simp_all add: same_message_def NewStateTransition_def)
  note x = state_store.execute_stage [OF assms(1,2,5) a(1)]
  obtain ret vmerr st' where e: "execute K db run evm st = Some (ret, vmerr, st')" using x(2) [OF assms(3)] by (metis not_None_eq prod_cases3)
  show ?thesis using e x(1) [OF e] x(3) [OF e] a(2) by simp
qed


definition ex_msg :: Message where
  "ex_msg = \<lparr>msg_From = ex_addr, msg_To = Some ex_addr, msg_SmokePrice = 2, msg_Smoke = 30000, msg_Value = 5,
    msg_Nonce = 0, msg_CheckNonce = True, msg_Data = []\<rparr>"

definition ex_rich_state :: "secure_trie StateDB" where
  "ex_rich_state = AddBalance BytesToHash ex_db ex_addr 100000 ex_state"

lemma ex_rich_tx: "tx_state BytesToHash ex_db trie_good {ex_addr} ex_rich_state"
  using state_store.steps_tx [OF ex_store ex_tx] state_store.steps_writes(2) [OF ex_store ex_tx] by (simp add: ex_rich_state_def)

lemma ex_addressed: "addressed BytesToHash {ex_addr} ex_msg"
  by (simp add: addressed_def ex_msg_def)

lemma ex_executed:
  assumes "ApplyMessage BytesToHash ex_db ex_run ex_evm ex_addr ex_msg 50000 ex_rich_state = Some (r, gp', s')"
  obtains result where "r = Inr result"
proof -
  let ?st = "NewStateTransition ex_msg 50000 ex_rich_state"
  have "fst (preCheck BytesToHash ex_db ?st) = None"
    by (simp add: preCheck_def buySmoke_def NewStateTransition_def ex_msg_def ex_rich_state_def AddBalance_def so_AddBalance_def GetNonce_def
        SubSmoke_def ex_eval)
  then obtain st0 where p: "preCheck BytesToHash ex_db ?st = (None, st0)" by (metis prod.collapse)
  let ?G = "GetBalance BytesToHash ex_db ex_addr (st_state st0)"
  have b: "st_msg st0 = ex_msg" "st_data st0 = []" "st_smoke st0 = 30000" "fst ?G = 40000"
    using p by (auto simp: preCheck_def buySmoke_def NewStateTransition_def ex_msg_def ex_rich_state_def AddBalance_def so_AddBalance_def GetNonce_def
        SubSmoke_def SubBalance_def so_SubBalance_def ex_eval)
  then have c: "CanTransfer BytesToHash ex_db ex_addr 5 (st_state st0) = (True, snd ?G)"
    by (simp add: CanTransfer_def split_def Let_def)
  have "\<exists>result. r = Inr result"
    using assms p b c by (auto simp: ApplyMessage_def TransitionDb_def IntrinsicSmoke_def ex_msg_def Let_def split: option.splits prod.splits)
  then show ?thesis using that by blast
qed

lemma ex_applied:
  obtains r gp' s' where "ApplyMessage BytesToHash ex_db ex_run ex_evm ex_addr ex_msg 50000 ex_rich_state = Some (r, gp', s')"
proof -
  have a: "msg_From ex_msg \<in> {ex_addr}" "ex_addr \<in> {ex_addr}" by (simp_all add: ex_msg_def)
  show ?thesis
  proof (cases rule: state_store.message_outcome [OF ex_store ex_rich_tx a, of 50000 ex_run ex_evm "\<lambda>_ _. True"])
    case 1
    then show ?case using message_executes [OF ex_store ex_run_ok ex_addressed 1(1,2)] by blast
  qed (use that in auto)
qed




end
