(* ===== verification/Evm_Machine.thy ===== *)
theory Evm_Machine
  imports Evm_Calls
begin

section \<open>Stack, memory and code of a call frame\<close>

text \<open>
  The data a frame of the interpreter works on: the words of the stack with the package
  \<open>uint256\<close>, the memory of \<open>src/core/vm/memory.go\<close>, the helpers of \<open>src/core/vm/common.go\<close>, the
  analysis of jump destinations of \<open>src/core/vm/analysis.go\<close> and the jump checks of
  \<open>src/core/vm/contract.go\<close>. \<open>None\<close> is a panic.
\<close>

subsection \<open>256-bit integers\<close>

text \<open>
  The package \<open>uint256\<close> is not part of the program. Its type \<open>Int\<close> is an array of four 64-bit
  words, a 256-bit word; its operations are the fields of a record that the instructions take as
  an argument. \<open>uint256_ok\<close> is what the safety of the machine needs of them.
\<close>

type_synonym u256 = "256 word"

record uint256 =
  u_Add :: "u256 \<Rightarrow> u256 \<Rightarrow> u256"
  u_Sub :: "u256 \<Rightarrow> u256 \<Rightarrow> u256"
  u_Mul :: "u256 \<Rightarrow> u256 \<Rightarrow> u256"
  u_Div :: "u256 \<Rightarrow> u256 \<Rightarrow> u256"
  u_SDiv :: "u256 \<Rightarrow> u256 \<Rightarrow> u256"
  u_Mod :: "u256 \<Rightarrow> u256 \<Rightarrow> u256"
  u_SMod :: "u256 \<Rightarrow> u256 \<Rightarrow> u256"
  u_Exp :: "u256 \<Rightarrow> u256 \<Rightarrow> u256"
  u_ExtendSign :: "u256 \<Rightarrow> u256 \<Rightarrow> u256"
  u_AddMod :: "u256 \<Rightarrow> u256 \<Rightarrow> u256 \<Rightarrow> u256"
  u_MulMod :: "u256 \<Rightarrow> u256 \<Rightarrow> u256 \<Rightarrow> u256"
  u_Not :: "u256 \<Rightarrow> u256"
  u_And :: "u256 \<Rightarrow> u256 \<Rightarrow> u256"
  u_Or :: "u256 \<Rightarrow> u256 \<Rightarrow> u256"
  u_Xor :: "u256 \<Rightarrow> u256 \<Rightarrow> u256"
  u_Byte :: "u256 \<Rightarrow> u256 \<Rightarrow> u256"
  u_Lsh :: "u256 \<Rightarrow> nat \<Rightarrow> u256"
  u_Rsh :: "u256 \<Rightarrow> nat \<Rightarrow> u256"
  u_SRsh :: "u256 \<Rightarrow> nat \<Rightarrow> u256"
  u_Lt :: "u256 \<Rightarrow> u256 \<Rightarrow> bool"
  u_Gt :: "u256 \<Rightarrow> u256 \<Rightarrow> bool"
  u_Slt :: "u256 \<Rightarrow> u256 \<Rightarrow> bool"
  u_Sgt :: "u256 \<Rightarrow> u256 \<Rightarrow> bool"
  u_Eq :: "u256 \<Rightarrow> u256 \<Rightarrow> bool"
  u_IsZero :: "u256 \<Rightarrow> bool"
  u_Sign :: "u256 \<Rightarrow> int"
  u_LtUint64 :: "u256 \<Rightarrow> uint64 \<Rightarrow> bool"
  u_GtUint64 :: "u256 \<Rightarrow> uint64 \<Rightarrow> bool"
  u_BitLen :: "u256 \<Rightarrow> nat"
  u_One :: u256
  u_Zero :: u256
  u_AllOne :: u256
  u_Uint64 :: "u256 \<Rightarrow> uint64"
  u_IsUint64 :: "u256 \<Rightarrow> bool"
  u_Uint64WithOverflow :: "u256 \<Rightarrow> uint64 \<times> bool"
  u_SetUint64 :: "uint64 \<Rightarrow> u256"
  u_SetBytes :: "bytes \<Rightarrow> u256"
  u_Bytes20 :: "u256 \<Rightarrow> bytes"
  u_Bytes32 :: "u256 \<Rightarrow> bytes"
  u_FromBig :: "int \<Rightarrow> u256"
  u_ToBig :: "u256 \<Rightarrow> int"
  u_WriteToSlice :: "u256 \<Rightarrow> bytes \<Rightarrow> bytes"

definition uint256_ok :: "uint256 \<Rightarrow> bool" where
  "uint256_ok U \<longleftrightarrow>
    (\<forall>x y. u_Add U x y = x + y) \<and>
    (\<forall>x. u_IsZero U x \<longleftrightarrow> x = 0) \<and>
    (\<forall>x. u_Sign U x = 0 \<longleftrightarrow> x = 0) \<and>
    (\<forall>x. u_Uint64 U x = ucast x) \<and>
    (\<forall>x. u_IsUint64 U x \<longleftrightarrow> uint x < 2 ^ 64) \<and>
    (\<forall>x. u_Uint64WithOverflow U x = (u_Uint64 U x, \<not> u_IsUint64 U x)) \<and>
    (\<forall>x. length (u_Bytes20 U x) = 20) \<and>
    (\<forall>x. length (u_Bytes32 U x) = 32) \<and>
    (\<forall>x. u_Bytes32 U x = zero_hash \<longleftrightarrow> x = 0) \<and>
    (\<forall>x. u_ToBig U x = uint x) \<and>
    (\<forall>x dst. 32 \<le> length dst \<longrightarrow> length (u_WriteToSlice U x dst) = length dst)"

subsection \<open>Overflow checks\<close>

definition SafeAdd :: "uint64 \<Rightarrow> uint64 \<Rightarrow> uint64 \<times> bool" where
  "SafeAdd x y = (x + y, 2 ^ 64 \<le> unat x + unat y)"

definition SafeMul :: "uint64 \<Rightarrow> uint64 \<Rightarrow> uint64 \<times> bool" where
  "SafeMul x y = (x * y, 2 ^ 64 \<le> unat x * unat y)"

definition calcMemSize64WithUint :: "uint256 \<Rightarrow> u256 \<Rightarrow> uint64 \<Rightarrow> uint64 \<times> bool" where
  "calcMemSize64WithUint U off length64 =
    (if length64 = 0 then (0, False)
     else let (offset64, overflow) = u_Uint64WithOverflow U off in
     if overflow then (0, True)
     else let val = offset64 + length64 in (val, val < offset64))"

definition calcMemSize64 :: "uint256 \<Rightarrow> u256 \<Rightarrow> u256 \<Rightarrow> uint64 \<times> bool" where
  "calcMemSize64 U off l =
    (if \<not> u_IsUint64 U l then (0, True) else calcMemSize64WithUint U off (u_Uint64 U l))"

definition toWordSize :: "uint64 \<Rightarrow> uint64" where
  "toWordSize sz =
    (if 0xFFFFFFFFFFFFFFFF - 31 < sz then 0xFFFFFFFFFFFFFFFF div 32 + 1 else (sz + 31) div 32)"

subsection \<open>Padded slices of data\<close>

definition RightPadBytes :: "bytes \<Rightarrow> nat \<Rightarrow> bytes" where
  "RightPadBytes xs l = (if l \<le> length xs then xs else xs @ replicate (l - length xs) 0)"

definition getData :: "bytes \<Rightarrow> uint64 \<Rightarrow> uint64 \<Rightarrow> bytes option" where
  "getData data start sz =
    (let len = word_of_nat (length data);
         start = (if len < start then len else start);
         end = start + sz;
         end = (if len < end then len else end)
     in if end < start then None
        else Some (RightPadBytes (go_slice data (unat start) (unat end)) (unat sz)))"

subsection \<open>Memory\<close>

record Memory =
  m_store :: bytes
  m_lastSmokeCost :: uint64

abbreviation NewMemory :: Memory where
  "NewMemory \<equiv> \<lparr>m_store = [], m_lastSmokeCost = 0\<rparr>"

abbreviation mem_Len :: "Memory \<Rightarrow> uint64" where
  "mem_Len m \<equiv> word_of_nat (length (m_store m))"

definition mem_Set :: "uint64 \<Rightarrow> uint64 \<Rightarrow> bytes \<Rightarrow> Memory \<Rightarrow> Memory option" where
  "mem_Set offset sz v m =
    (if 0 < sz
     then if mem_Len m < offset + sz \<or> offset + sz < offset then None
          else Some (m\<lparr>m_store := go_copy_at (unat offset) (take (unat sz) v) (m_store m)\<rparr>)
     else Some m)"

text \<open>\<open>Set32\<close>: the area is zeroed, then the value is written to the slice from the offset on.\<close>

definition mem_Set32 :: "uint256 \<Rightarrow> uint64 \<Rightarrow> u256 \<Rightarrow> Memory \<Rightarrow> Memory option" where
  "mem_Set32 U offset v m =
    (if mem_Len m < offset + 32 \<or> offset + 32 < offset then None
     else let store = go_copy_at (unat offset) (replicate 32 0) (m_store m)
          in Some (m\<lparr>m_store := take (unat offset) store @ u_WriteToSlice U v (drop (unat offset) store)\<rparr>))"

definition mem_Resize :: "uint64 \<Rightarrow> Memory \<Rightarrow> Memory" where
  "mem_Resize sz m =
    (if mem_Len m < sz
     then m\<lparr>m_store := m_store m @ replicate (unat (sz - mem_Len m)) 0\<rparr> else m)"

text \<open>
  \<open>GetCopy\<close> and \<open>GetPtr\<close> with signed arguments. A slice beyond the length of the store is
  taken as a panic.
\<close>

abbreviation mem_slice :: "int \<Rightarrow> int \<Rightarrow> bytes \<Rightarrow> bytes option" where
  "mem_slice offset sz store \<equiv>
    (if offset < 0 \<or> sz < 0 \<or> int (length store) < offset + sz then None
     else Some (go_slice store (nat offset) (nat (offset + sz))))"

definition mem_GetCopy :: "int \<Rightarrow> int \<Rightarrow> Memory \<Rightarrow> bytes option" where
  "mem_GetCopy offset sz m =
    (if sz = 0 then Some []
     else if offset < int (length (m_store m)) then mem_slice offset sz (m_store m)
     else Some [])"

definition mem_GetPtr :: "int \<Rightarrow> int \<Rightarrow> Memory \<Rightarrow> bytes option" where
  "mem_GetPtr offset sz m =
    (if sz = 0 then Some []
     else if offset < int (length (m_store m)) then mem_slice offset sz (m_store m)
     else Some [])"

subsection \<open>Analysis of jump destinations\<close>

type_synonym bitvec = bytes

abbreviation bv_or :: "nat \<Rightarrow> byte \<Rightarrow> bitvec \<Rightarrow> bitvec option" where
  "bv_or i b bits \<equiv> (if i < length bits then Some (bits[i := bits ! i OR b]) else None)"

definition bv_set :: "nat \<Rightarrow> bitvec \<Rightarrow> bitvec option" where
  "bv_set pos bits = bv_or (pos div 8) (drop_bit (pos mod 8) 0x80) bits"

definition bv_set8 :: "nat \<Rightarrow> bitvec \<Rightarrow> bitvec option" where
  "bv_set8 pos bits =
    (case bv_or (pos div 8) (drop_bit (pos mod 8) 0xFF) bits of
       None \<Rightarrow> None
     | Some bits \<Rightarrow> bv_or (pos div 8 + 1) (NOT (drop_bit (pos mod 8) 0xFF)) bits)"

definition codeSegment :: "bitvec \<Rightarrow> nat \<Rightarrow> bool option" where
  "codeSegment bits pos =
    (if pos div 8 < length bits then Some (bits ! (pos div 8) AND drop_bit (pos mod 8) 0x80 = 0) else None)"

text \<open>The two inner loops of \<open>codeBitmap\<close>, on the number of bits that are left.\<close>

fun bitmap_push :: "nat \<Rightarrow> nat \<Rightarrow> bitvec \<Rightarrow> (nat \<times> bitvec) option" where
  "bitmap_push numbits pc bits =
    (if 8 \<le> numbits then
       (case bv_set8 pc bits of None \<Rightarrow> None | Some bits \<Rightarrow> bitmap_push (numbits - 8) (pc + 8) bits)
     else if 0 < numbits then
       (case bv_set pc bits of None \<Rightarrow> None | Some bits \<Rightarrow> bitmap_push (numbits - 1) (pc + 1) bits)
     else Some (pc, bits))"

declare bitmap_push.simps [simp del]

lemma bitmap_push_pc: "bitmap_push numbits pc bits = Some (pc', bits') \<Longrightarrow> pc' = pc + numbits"
proof (induction numbits pc bits rule: bitmap_push.induct)
  case (1 numbits pc bits)
  from "1.prems" "1.IH" show ?case
    unfolding bitmap_push.simps [of numbits pc bits] by (fastforce split: if_splits option.splits)
qed

function bitmap_loop :: "bytes \<Rightarrow> nat \<Rightarrow> bitvec \<Rightarrow> bitvec option" where
  "bitmap_loop code pc bits =
    (if pc < length code
     then let op = code ! pc
          in if 0x60 \<le> op \<and> op \<le> 0x7F
             then (case bitmap_push (unat (op - 0x60 + 1)) (pc + 1) bits of
                     None \<Rightarrow> None
                   | Some r \<Rightarrow> bitmap_loop code (fst r) (snd r))
             else bitmap_loop code (pc + 1) bits
     else Some bits)"
  by auto
termination
proof (relation "measure (\<lambda>(code, pc, bits). length code - pc)", goal_cases)
  case (2 code pc bits op r)
  then show ?case using bitmap_push_pc [of "unat (op - 0x60 + 1)" "pc + 1" bits "fst r" "snd r"] by simp
qed auto

declare bitmap_loop.simps [simp del]

definition codeBitmap :: "bytes \<Rightarrow> bitvec option" where
  "codeBitmap code = bitmap_loop code 0 (replicate (length code div 8 + 1 + 4) 0)"

subsection \<open>Jumps\<close>

text \<open>
  The analysis is computed here whenever it is needed; the code keeps it in the contract and in
  a map by code hash.
\<close>

definition isCode :: "Contract \<Rightarrow> uint64 \<Rightarrow> bool option" where
  "isCode c udest = (case codeBitmap (c_Code c) of None \<Rightarrow> None | Some bits \<Rightarrow> codeSegment bits (unat udest))"

definition validJumpdest :: "uint256 \<Rightarrow> Contract \<Rightarrow> u256 \<Rightarrow> bool option" where
  "validJumpdest U c dest =
    (let (udest, overflow) = u_Uint64WithOverflow U dest in
     if overflow \<or> word_of_nat (length (c_Code c)) \<le> udest then Some False
     else if c_Code c ! unat udest \<noteq> 0x5B then Some False
     else isCode c udest)"

definition validJumpSubdest :: "Contract \<Rightarrow> uint64 \<Rightarrow> bool option" where
  "validJumpSubdest c udest =
    (if sint udest < 0 \<or> word_of_nat (length (c_Code c)) \<le> udest then Some False
     else if c_Code c ! unat udest \<noteq> 0x5C then Some False
     else isCode c udest)"

definition GetByte :: "uint64 \<Rightarrow> Contract \<Rightarrow> byte" where
  "GetByte n c = (if n < word_of_nat (length (c_Code c)) then c_Code c ! unat n else 0)"

definition GetOp :: "uint64 \<Rightarrow> Contract \<Rightarrow> byte" where
  "GetOp n c = GetByte n c"

end
