(* ===== verification/Params_Protocol.thy ===== *)
theory Params_Protocol
  imports Go_Prelude
begin

section \<open>Smoke prices\<close>

text \<open>
  The prices of \<open>src/params/protocol_params.go\<close> that the virtual machine charges, the steps of
  \<open>src/core/vm/smoke.go\<close> and the access costs of \<open>src/core/vm/operations_acl.go\<close>, by their names.
\<close>

abbreviation CallValueTransferSmoke :: uint64 where "CallValueTransferSmoke \<equiv> 9000"
abbreviation CallNewAccountSmoke :: uint64 where "CallNewAccountSmoke \<equiv> 25000"
abbreviation QuadCoeffDiv :: uint64 where "QuadCoeffDiv \<equiv> 512"
abbreviation LogDataSmoke :: uint64 where "LogDataSmoke \<equiv> 8"
abbreviation CallStipend :: uint64 where "CallStipend \<equiv> 2300"
abbreviation Sha3Smoke :: uint64 where "Sha3Smoke \<equiv> 30"
abbreviation Sha3WordSmoke :: uint64 where "Sha3WordSmoke \<equiv> 6"
abbreviation SstoreSetSmoke :: uint64 where "SstoreSetSmoke \<equiv> 20000"
abbreviation SstoreResetSmoke :: uint64 where "SstoreResetSmoke \<equiv> 5000"
abbreviation SstoreClearSmoke :: uint64 where "SstoreClearSmoke \<equiv> 5000"
abbreviation SstoreRefundSmoke :: uint64 where "SstoreRefundSmoke \<equiv> 15000"
abbreviation NetSstoreNoopSmoke :: uint64 where "NetSstoreNoopSmoke \<equiv> 200"
abbreviation NetSstoreInitSmoke :: uint64 where "NetSstoreInitSmoke \<equiv> 20000"
abbreviation NetSstoreCleanSmoke :: uint64 where "NetSstoreCleanSmoke \<equiv> 5000"
abbreviation NetSstoreDirtySmoke :: uint64 where "NetSstoreDirtySmoke \<equiv> 200"
abbreviation NetSstoreClearRefund :: uint64 where "NetSstoreClearRefund \<equiv> 15000"
abbreviation NetSstoreResetRefund :: uint64 where "NetSstoreResetRefund \<equiv> 4800"
abbreviation NetSstoreResetClearRefund :: uint64 where "NetSstoreResetClearRefund \<equiv> 19800"
abbreviation SstoreSentrySmokeEIP2200 :: uint64 where "SstoreSentrySmokeEIP2200 \<equiv> 2300"
abbreviation SstoreSetSmokeEIP2200 :: uint64 where "SstoreSetSmokeEIP2200 \<equiv> 20000"
abbreviation SstoreResetSmokeEIP2200 :: uint64 where "SstoreResetSmokeEIP2200 \<equiv> 5000"
abbreviation SstoreClearsScheduleRefundEIP2200 :: uint64 where "SstoreClearsScheduleRefundEIP2200 \<equiv> 15000"
abbreviation JumpdestSmoke :: uint64 where "JumpdestSmoke \<equiv> 1"
abbreviation ExpSmoke :: uint64 where "ExpSmoke \<equiv> 10"
abbreviation LogSmoke :: uint64 where "LogSmoke \<equiv> 375"
abbreviation CopySmoke :: uint64 where "CopySmoke \<equiv> 3"
abbreviation StackLimit :: uint64 where "StackLimit \<equiv> 1024"
abbreviation LogTopicSmoke :: uint64 where "LogTopicSmoke \<equiv> 375"
abbreviation CreateSmoke :: uint64 where "CreateSmoke \<equiv> 32000"
abbreviation Create2Smoke :: uint64 where "Create2Smoke \<equiv> 32000"
abbreviation SelfdestructRefundSmoke :: uint64 where "SelfdestructRefundSmoke \<equiv> 24000"
abbreviation MemorySmoke :: uint64 where "MemorySmoke \<equiv> 3"
abbreviation CallSmokeFrontier :: uint64 where "CallSmokeFrontier \<equiv> 40"
abbreviation CallSmokeEIP150 :: uint64 where "CallSmokeEIP150 \<equiv> 700"
abbreviation BalanceSmokeFrontier :: uint64 where "BalanceSmokeFrontier \<equiv> 20"
abbreviation BalanceSmokeEIP150 :: uint64 where "BalanceSmokeEIP150 \<equiv> 400"
abbreviation BalanceSmokeEIP1884 :: uint64 where "BalanceSmokeEIP1884 \<equiv> 700"
abbreviation ExtcodeSizeSmokeFrontier :: uint64 where "ExtcodeSizeSmokeFrontier \<equiv> 20"
abbreviation ExtcodeSizeSmokeEIP150 :: uint64 where "ExtcodeSizeSmokeEIP150 \<equiv> 700"
abbreviation SloadSmokeFrontier :: uint64 where "SloadSmokeFrontier \<equiv> 50"
abbreviation SloadSmokeEIP150 :: uint64 where "SloadSmokeEIP150 \<equiv> 200"
abbreviation SloadSmokeEIP1884 :: uint64 where "SloadSmokeEIP1884 \<equiv> 800"
abbreviation SloadSmokeEIP2200 :: uint64 where "SloadSmokeEIP2200 \<equiv> 800"
abbreviation ExtcodeHashSmokeConstantinople :: uint64 where "ExtcodeHashSmokeConstantinople \<equiv> 400"
abbreviation ExtcodeHashSmokeEIP1884 :: uint64 where "ExtcodeHashSmokeEIP1884 \<equiv> 700"
abbreviation SelfdestructSmokeEIP150 :: uint64 where "SelfdestructSmokeEIP150 \<equiv> 5000"
abbreviation ExpByteFrontier :: uint64 where "ExpByteFrontier \<equiv> 10"
abbreviation ExpByteEIP158 :: uint64 where "ExpByteEIP158 \<equiv> 50"
abbreviation ExtcodeCopyBaseFrontier :: uint64 where "ExtcodeCopyBaseFrontier \<equiv> 20"
abbreviation ExtcodeCopyBaseEIP150 :: uint64 where "ExtcodeCopyBaseEIP150 \<equiv> 700"
abbreviation CreateBySelfdestructSmoke :: uint64 where "CreateBySelfdestructSmoke \<equiv> 25000"
abbreviation IdentityBaseSmoke :: uint64 where "IdentityBaseSmoke \<equiv> 15"
abbreviation IdentityPerWordSmoke :: uint64 where "IdentityPerWordSmoke \<equiv> 3"
abbreviation SmokeQuickStep :: uint64 where "SmokeQuickStep \<equiv> 2"
abbreviation SmokeFastestStep :: uint64 where "SmokeFastestStep \<equiv> 3"
abbreviation SmokeFastStep :: uint64 where "SmokeFastStep \<equiv> 5"
abbreviation SmokeMidStep :: uint64 where "SmokeMidStep \<equiv> 8"
abbreviation SmokeSlowStep :: uint64 where "SmokeSlowStep \<equiv> 10"
abbreviation SmokeExtStep :: uint64 where "SmokeExtStep \<equiv> 20"
abbreviation ColdAccountAccessCostEIP2929 :: uint64 where "ColdAccountAccessCostEIP2929 \<equiv> 2600"
abbreviation ColdSloadCostEIP2929 :: uint64 where "ColdSloadCostEIP2929 \<equiv> 2100"
abbreviation WarmStorageReadCostEIP2929 :: uint64 where "WarmStorageReadCostEIP2929 \<equiv> 100"

end
