(* ===== verification/Evm_Smoke.thy ===== *)
theory Evm_Smoke
  imports Evm_Machine Params_Protocol "HOL-Library.Monad_Syntax"
begin

section \<open>Smoke and memory size of the instructions\<close>

text \<open>
  What an instruction costs and how much memory it needs: \<open>src/core/vm/smoke.go\<close>,
  \<open>src/core/vm/smoke_table.go\<close>, \<open>src/core/vm/memory_table.go\<close> and
  \<open>src/core/vm/operations_acl.go\<close>. A smoke function may charge the contract, change the refund
  counter and the access list, and leaves the smoke of a nested call in the frame; it returns a
  price or an error. \<open>None\<close> is a panic.
\<close>

subsection \<open>Frames\<close>

text \<open>
  \<open>callCtx\<close> with the program counter, the return data and \<open>callSmokeTemp\<close>, which the code keeps
  beside it. The top of the stack is the head of the list.
\<close>

record callCtx =
  f_pc :: uint64
  f_memory :: Memory
  f_stack :: "u256 list"
  f_rstack :: "32 word list"
  f_contract :: Contract
  f_returnData :: bytes
  f_callSmokeTemp :: uint64

text \<open>
  The interpreter: its machine, the hash function, the database of the state, the package
  \<open>uint256\<close>, and the interpreter that a nested call runs.
\<close>

record 'tr EVMInterpreter =
  in_evm :: EVM
  in_keccak :: "bytes \<Rightarrow> hash"
  in_db :: "'tr database"
  in_u256 :: uint256
  in_nested :: "'tr interpreter"

type_synonym 'tr smokeFunc =
  "'tr EVMInterpreter \<Rightarrow> uint64 \<Rightarrow> callCtx \<Rightarrow> 'tr StateDB \<Rightarrow> ((vm_err + uint64) \<times> callCtx \<times> 'tr StateDB) option"

definition stack_Back :: "nat \<Rightarrow> u256 list \<Rightarrow> u256 option" where
  "stack_Back n st = (if n < length st then Some (st ! n) else None)"

abbreviation Back :: "nat \<Rightarrow> callCtx \<Rightarrow> u256 option" where
  "Back n ctx \<equiv> stack_Back n (f_stack ctx)"

definition ctx_Address :: "callCtx \<Rightarrow> address" where
  "ctx_Address ctx = ref_Address (c_self (f_contract ctx))"

definition stack_addr :: "'tr EVMInterpreter \<Rightarrow> nat \<Rightarrow> callCtx \<Rightarrow> address option" where
  "stack_addr i n ctx = map_option (u_Bytes20 (in_u256 i)) (Back n ctx)"

subsection \<open>Memory sizes\<close>

type_synonym memorySizeFunc = "uint256 \<Rightarrow> u256 list \<Rightarrow> (uint64 \<times> bool) option"

definition mem_range :: "nat \<Rightarrow> nat \<Rightarrow> memorySizeFunc" where
  "mem_range i j U st = do { off \<leftarrow> stack_Back i st; l \<leftarrow> stack_Back j st; Some (calcMemSize64 U off l) }"

definition mem_fixed :: "nat \<Rightarrow> uint64 \<Rightarrow> memorySizeFunc" where
  "mem_fixed i n U st = do { off \<leftarrow> stack_Back i st; Some (calcMemSize64WithUint U off n) }"

definition mem_two :: "memorySizeFunc \<Rightarrow> memorySizeFunc \<Rightarrow> memorySizeFunc" where
  "mem_two f g U st =
    do { (x, overflow) \<leftarrow> f U st;
         if overflow then Some (0, True)
         else do { (y, overflow) \<leftarrow> g U st;
                   if overflow then Some (0, True) else Some (if y < x then x else y, False) } }"

abbreviation memorySha3 :: memorySizeFunc where "memorySha3 \<equiv> mem_range 0 1"
abbreviation memoryCallDataCopy :: memorySizeFunc where "memoryCallDataCopy \<equiv> mem_range 0 2"
abbreviation memoryReturnDataCopy :: memorySizeFunc where "memoryReturnDataCopy \<equiv> mem_range 0 2"
abbreviation memoryCodeCopy :: memorySizeFunc where "memoryCodeCopy \<equiv> mem_range 0 2"
abbreviation memoryExtCodeCopy :: memorySizeFunc where "memoryExtCodeCopy \<equiv> mem_range 1 3"
abbreviation memoryMLoad :: memorySizeFunc where "memoryMLoad \<equiv> mem_fixed 0 32"
abbreviation memoryMStore8 :: memorySizeFunc where "memoryMStore8 \<equiv> mem_fixed 0 1"
abbreviation memoryMStore :: memorySizeFunc where "memoryMStore \<equiv> mem_fixed 0 32"
abbreviation memoryCreate :: memorySizeFunc where "memoryCreate \<equiv> mem_range 1 2"
abbreviation memoryCreate2 :: memorySizeFunc where "memoryCreate2 \<equiv> mem_range 1 2"
abbreviation memoryCall :: memorySizeFunc where "memoryCall \<equiv> mem_two (mem_range 5 6) (mem_range 3 4)"
abbreviation memoryDelegateCall :: memorySizeFunc where "memoryDelegateCall \<equiv> mem_two (mem_range 4 5) (mem_range 2 3)"
abbreviation memoryStaticCall :: memorySizeFunc where "memoryStaticCall \<equiv> mem_two (mem_range 4 5) (mem_range 2 3)"
abbreviation memoryReturn :: memorySizeFunc where "memoryReturn \<equiv> mem_range 0 1"
abbreviation memoryRevert :: memorySizeFunc where "memoryRevert \<equiv> mem_range 0 1"
abbreviation memoryLog :: memorySizeFunc where "memoryLog \<equiv> mem_range 0 1"

subsection \<open>Memory expansion and copies\<close>

definition memorySmokeCost :: "uint64 \<Rightarrow> Memory \<Rightarrow> (vm_err + uint64) \<times> Memory" where
  "memorySmokeCost newMemSize mem =
    (if newMemSize = 0 then (Inr 0, mem)
     else if 0x1FFFFFFFE0 < newMemSize then (Inl ErrSmokeUintOverflow, mem)
     else let newMemSizeWords = toWordSize newMemSize;
              newMemSize = newMemSizeWords * 32 in
     if mem_Len mem < newMemSize
     then let square = newMemSizeWords * newMemSizeWords;
              linCoef = newMemSizeWords * MemorySmoke;
              quadCoef = square div QuadCoeffDiv;
              newTotalFee = linCoef + quadCoef;
              fee = newTotalFee - m_lastSmokeCost mem
          in (Inr fee, mem\<lparr>m_lastSmokeCost := newTotalFee\<rparr>)
     else (Inr 0, mem))"

definition pureMemorySmokecost :: "'tr smokeFunc" where
  "pureMemorySmokecost i memorySize ctx s =
    (let (r, mem) = memorySmokeCost memorySize (f_memory ctx) in Some (r, ctx\<lparr>f_memory := mem\<rparr>, s))"

text \<open>The memory expansion and a price per word of the operand at a stack position.\<close>

definition memoryWordSmoke :: "uint64 \<Rightarrow> nat \<Rightarrow> 'tr smokeFunc" where
  "memoryWordSmoke price stackpos i memorySize ctx s =
    do { (r, ctx, s) \<leftarrow> pureMemorySmokecost i memorySize ctx s;
         case r of
           Inl err \<Rightarrow> Some (Inl err, ctx, s)
         | Inr smoke \<Rightarrow>
             do { w \<leftarrow> Back stackpos ctx;
                  let (words, overflow) = u_Uint64WithOverflow (in_u256 i) w in
                  if overflow then Some (Inl ErrSmokeUintOverflow, ctx, s)
                  else let (words, overflow) = SafeMul (toWordSize words) price in
                  if overflow then Some (Inl ErrSmokeUintOverflow, ctx, s)
                  else let (smoke, overflow) = SafeAdd smoke words in
                  if overflow then Some (Inl ErrSmokeUintOverflow, ctx, s)
                  else Some (Inr smoke, ctx, s) } }"

definition memoryCopierSmoke :: "nat \<Rightarrow> 'tr smokeFunc" where
  "memoryCopierSmoke stackpos = memoryWordSmoke CopySmoke stackpos"

definition smokeSha3 :: "'tr smokeFunc" where
  "smokeSha3 = memoryWordSmoke Sha3WordSmoke 1"

definition smokeCreate2 :: "'tr smokeFunc" where
  "smokeCreate2 = memoryWordSmoke Sha3WordSmoke 2"

subsection \<open>Storage\<close>

definition smokeSStore :: "'tr smokeFunc" where
  "smokeSStore i memorySize ctx s =
    (let K = in_keccak i; db = in_db i; U = in_u256 i; rules = evm_chainRules (in_evm i); self = ctx_Address ctx in
     do { y \<leftarrow> Back 1 ctx; x \<leftarrow> Back 0 ctx;
          (current, s) \<leftarrow> GetState K db self (u_Bytes32 U x) s;
          if r_IsPetersburg rules \<or> \<not> r_IsConstantinople rules
          then if current = zero_hash \<and> u_Sign U y \<noteq> 0 then Some (Inr SstoreSetSmoke, ctx, s)
               else if current \<noteq> zero_hash \<and> u_Sign U y = 0
               then Some (Inr SstoreClearSmoke, ctx, AddRefund SstoreRefundSmoke s)
               else Some (Inr SstoreResetSmoke, ctx, s)
          else let v = u_Bytes32 U y in
          if current = v then Some (Inr NetSstoreNoopSmoke, ctx, s)
          else do { (original, s) \<leftarrow> GetCommittedState K db self (u_Bytes32 U x) s;
            if original = current
            then if original = zero_hash then Some (Inr NetSstoreInitSmoke, ctx, s)
                 else Some (Inr NetSstoreCleanSmoke, ctx, if v = zero_hash then AddRefund NetSstoreClearRefund s else s)
            else do { s \<leftarrow> (if original \<noteq> zero_hash
                             then if current = zero_hash then SubRefund NetSstoreClearRefund s
                                  else Some (if v = zero_hash then AddRefund NetSstoreClearRefund s else s)
                             else Some s);
              let s = (if original = v
                       then if original = zero_hash then AddRefund NetSstoreResetClearRefund s
                            else AddRefund NetSstoreResetRefund s
                       else s)
              in Some (Inr NetSstoreDirtySmoke, ctx, s) } } })"

definition smokeSStoreEIP2200 :: "'tr smokeFunc" where
  "smokeSStoreEIP2200 i memorySize ctx s =
    (let K = in_keccak i; db = in_db i; U = in_u256 i; self = ctx_Address ctx in
     if c_Smoke (f_contract ctx) \<le> SstoreSentrySmokeEIP2200 then Some (Inl ErrReentrancySentry, ctx, s)
     else do { y \<leftarrow> Back 1 ctx; x \<leftarrow> Back 0 ctx;
          (current, s) \<leftarrow> GetState K db self (u_Bytes32 U x) s;
          let v = u_Bytes32 U y in
          if current = v then Some (Inr SloadSmokeEIP2200, ctx, s)
          else do { (original, s) \<leftarrow> GetCommittedState K db self (u_Bytes32 U x) s;
            if original = current
            then if original = zero_hash then Some (Inr SstoreSetSmokeEIP2200, ctx, s)
                 else Some (Inr SstoreResetSmokeEIP2200, ctx,
                            if v = zero_hash then AddRefund SstoreClearsScheduleRefundEIP2200 s else s)
            else do { s \<leftarrow> (if original \<noteq> zero_hash
                             then if current = zero_hash then SubRefund SstoreClearsScheduleRefundEIP2200 s
                                  else Some (if v = zero_hash then AddRefund SstoreClearsScheduleRefundEIP2200 s else s)
                             else Some s);
              let s = (if original = v
                       then if original = zero_hash then AddRefund (SstoreSetSmokeEIP2200 - SloadSmokeEIP2200) s
                            else AddRefund (SstoreResetSmokeEIP2200 - SloadSmokeEIP2200) s
                       else s)
              in Some (Inr SloadSmokeEIP2200, ctx, s) } } })"

text \<open>
  With access lists. The slot is added to the list, and a contract whose address is not on it
  panics.
\<close>

definition smokeSStoreEIP2929 :: "'tr smokeFunc" where
  "smokeSStoreEIP2929 i memorySize ctx s =
    (let K = in_keccak i; db = in_db i; U = in_u256 i; self = ctx_Address ctx in
     if c_Smoke (f_contract ctx) \<le> SstoreSentrySmokeEIP2200 then Some (Inl ErrReentrancySentry, ctx, s)
     else do { y \<leftarrow> Back 1 ctx; x \<leftarrow> Back 0 ctx;
          let slot = u_Bytes32 U x in
          do { (current, s) \<leftarrow> GetState K db self slot s;
          (addrPresent, slotPresent) \<leftarrow> SlotInAccessList self slot s;
          (cost, s) \<leftarrow> (if \<not> slotPresent
                         then do { s \<leftarrow> AddSlotToAccessList self slot s;
                                   if \<not> addrPresent then None else Some (ColdSloadCostEIP2929, s) }
                         else Some (0, s));
          let v = u_Bytes32 U y in
          if current = v then Some (Inr (cost + WarmStorageReadCostEIP2929), ctx, s)
          else do { (original, s) \<leftarrow> GetCommittedState K db self slot s;
            if original = current
            then if original = zero_hash then Some (Inr (cost + SstoreSetSmokeEIP2200), ctx, s)
                 else Some (Inr (cost + (SstoreResetSmokeEIP2200 - ColdSloadCostEIP2929)), ctx,
                            if v = zero_hash then AddRefund SstoreClearsScheduleRefundEIP2200 s else s)
            else do { s \<leftarrow> (if original \<noteq> zero_hash
                             then if current = zero_hash then SubRefund SstoreClearsScheduleRefundEIP2200 s
                                  else Some (if v = zero_hash then AddRefund SstoreClearsScheduleRefundEIP2200 s else s)
                             else Some s);
              let s = (if original = v
                       then if original = zero_hash then AddRefund (SstoreSetSmokeEIP2200 - WarmStorageReadCostEIP2929) s
                            else AddRefund ((SstoreResetSmokeEIP2200 - ColdSloadCostEIP2929) - WarmStorageReadCostEIP2929) s
                       else s)
              in Some (Inr (cost + WarmStorageReadCostEIP2929), ctx, s) } } } })"

definition smokeSLoadEIP2929 :: "'tr smokeFunc" where
  "smokeSLoadEIP2929 i memorySize ctx s =
    do { loc \<leftarrow> Back 0 ctx;
         let slot = u_Bytes32 (in_u256 i) loc in
         do { (addrPresent, slotPresent) \<leftarrow> SlotInAccessList (ctx_Address ctx) slot s;
              if \<not> slotPresent
              then do { s \<leftarrow> AddSlotToAccessList (ctx_Address ctx) slot s; Some (Inr ColdSloadCostEIP2929, ctx, s) }
              else Some (Inr WarmStorageReadCostEIP2929, ctx, s) } }"

subsection \<open>Logs and powers\<close>

definition makeSmokeLog :: "uint64 \<Rightarrow> 'tr smokeFunc" where
  "makeSmokeLog n i memorySize ctx s =
    do { w \<leftarrow> Back 1 ctx;
         let (requestedSize, overflow) = u_Uint64WithOverflow (in_u256 i) w in
         if overflow then Some (Inl ErrSmokeUintOverflow, ctx, s)
         else do { (r, ctx, s) \<leftarrow> pureMemorySmokecost i memorySize ctx s;
           case r of
             Inl err \<Rightarrow> Some (Inl err, ctx, s)
           | Inr smoke \<Rightarrow>
               (let (smoke, overflow) = SafeAdd smoke LogSmoke in
                if overflow then Some (Inl ErrSmokeUintOverflow, ctx, s)
                else let (smoke, overflow) = SafeAdd smoke (n * LogTopicSmoke) in
                if overflow then Some (Inl ErrSmokeUintOverflow, ctx, s)
                else let (memorySizeSmoke, overflow) = SafeMul requestedSize LogDataSmoke in
                if overflow then Some (Inl ErrSmokeUintOverflow, ctx, s)
                else let (smoke, overflow) = SafeAdd smoke memorySizeSmoke in
                if overflow then Some (Inl ErrSmokeUintOverflow, ctx, s)
                else Some (Inr smoke, ctx, s)) } }"

definition smoke_exp :: "uint64 \<Rightarrow> 'tr smokeFunc" where
  "smoke_exp expByte i memorySize ctx s =
    do { e \<leftarrow> Back 1 ctx;
         let expByteLen = word_of_nat ((u_BitLen (in_u256 i) e + 7) div 8);
             (smoke, overflow) = SafeAdd (expByteLen * expByte) ExpSmoke in
         if overflow then Some (Inl ErrSmokeUintOverflow, ctx, s) else Some (Inr smoke, ctx, s) }"

definition smokeExpFrontier :: "'tr smokeFunc" where
  "smokeExpFrontier = smoke_exp ExpByteFrontier"

definition smokeExpEIP158 :: "'tr smokeFunc" where
  "smokeExpEIP158 = smoke_exp ExpByteEIP158"

subsection \<open>Calls\<close>

definition callSmoke :: "uint256 \<Rightarrow> bool \<Rightarrow> uint64 \<Rightarrow> uint64 \<Rightarrow> u256 \<Rightarrow> vm_err + uint64" where
  "callSmoke U isEip150 availableSmoke base callCost =
    (let rest = availableSmoke - base;
         smoke = rest - rest div 64
     in if isEip150 \<and> (\<not> u_IsUint64 U callCost \<or> smoke < u_Uint64 U callCost) then Inr smoke
        else if \<not> u_IsUint64 U callCost then Inl ErrSmokeUintOverflow
        else Inr (u_Uint64 U callCost))"

text \<open>The end of the four functions: the smoke of the callee is added to the price so far.\<close>

definition call_tail :: "uint64 \<Rightarrow> 'tr EVMInterpreter \<Rightarrow> callCtx \<Rightarrow> 'tr StateDB \<Rightarrow> ((vm_err + uint64) \<times> callCtx \<times> 'tr StateDB) option" where
  "call_tail smoke i ctx s =
    do { callCost \<leftarrow> Back 0 ctx;
         case callSmoke (in_u256 i) (r_IsEIP150 (evm_chainRules (in_evm i))) (c_Smoke (f_contract ctx)) smoke callCost of
           Inl err \<Rightarrow> Some (Inl err, ctx\<lparr>f_callSmokeTemp := 0\<rparr>, s)
         | Inr temp \<Rightarrow>
             (let ctx = ctx\<lparr>f_callSmokeTemp := temp\<rparr>; (smoke, overflow) = SafeAdd smoke temp
              in if overflow then Some (Inl ErrSmokeUintOverflow, ctx, s) else Some (Inr smoke, ctx, s)) }"

definition smokeCall :: "'tr smokeFunc" where
  "smokeCall i memorySize ctx s =
    (let K = in_keccak i; db = in_db i; rules = evm_chainRules (in_evm i) in
     do { v \<leftarrow> Back 2 ctx;
          address \<leftarrow> stack_addr i 1 ctx;
          let transfersValue = \<not> u_IsZero (in_u256 i) v;
              (newAccount, s) =
                (if r_IsEIP158 rules
                 then if transfersValue then Empty K db address s else (False, s)
                 else let (exists, s) = Exist K db address s in (\<not> exists, s));
              smoke = (if newAccount then CallNewAccountSmoke else 0);
              smoke = (if transfersValue then smoke + CallValueTransferSmoke else smoke) in
          do { (r, ctx, s) \<leftarrow> pureMemorySmokecost i memorySize ctx s;
            case r of
              Inl err \<Rightarrow> Some (Inl err, ctx, s)
            | Inr memorySmoke \<Rightarrow>
                (let (smoke, overflow) = SafeAdd smoke memorySmoke
                 in if overflow then Some (Inl ErrSmokeUintOverflow, ctx, s) else call_tail smoke i ctx s) } })"

definition smokeCallCode :: "'tr smokeFunc" where
  "smokeCallCode i memorySize ctx s =
    do { (r, ctx, s) \<leftarrow> pureMemorySmokecost i memorySize ctx s;
         case r of
           Inl err \<Rightarrow> Some (Inl err, ctx, s)
         | Inr memorySmoke \<Rightarrow>
             do { v \<leftarrow> Back 2 ctx;
                  let smoke = (if u_Sign (in_u256 i) v \<noteq> 0 then CallValueTransferSmoke else 0);
                      (smoke, overflow) = SafeAdd smoke memorySmoke
                  in if overflow then Some (Inl ErrSmokeUintOverflow, ctx, s) else call_tail smoke i ctx s } }"

definition smokeDelegateCall :: "'tr smokeFunc" where
  "smokeDelegateCall i memorySize ctx s =
    do { (r, ctx, s) \<leftarrow> pureMemorySmokecost i memorySize ctx s;
         case r of Inl err \<Rightarrow> Some (Inl err, ctx, s) | Inr smoke \<Rightarrow> call_tail smoke i ctx s }"

definition smokeStaticCall :: "'tr smokeFunc" where
  "smokeStaticCall i memorySize ctx s =
    do { (r, ctx, s) \<leftarrow> pureMemorySmokecost i memorySize ctx s;
         case r of Inl err \<Rightarrow> Some (Inl err, ctx, s) | Inr smoke \<Rightarrow> call_tail smoke i ctx s }"

subsection \<open>Self-destruction\<close>

definition smokeSelfdestruct :: "'tr smokeFunc" where
  "smokeSelfdestruct i memorySize ctx s =
    (let K = in_keccak i; db = in_db i; rules = evm_chainRules (in_evm i); self = ctx_Address ctx in
     do { (smoke, s) \<leftarrow>
            (if r_IsEIP150 rules
             then do { address \<leftarrow> stack_addr i 0 ctx;
                    if r_IsEIP158 rules
                    then let (empty, s) = Empty K db address s in
                         if empty
                         then let (balance, s) = GetBalance K db self s
                              in Some (SelfdestructSmokeEIP150 + (if balance \<noteq> 0 then CreateBySelfdestructSmoke else 0), s)
                         else Some (SelfdestructSmokeEIP150, s)
                    else let (exists, s) = Exist K db address s
                         in Some (SelfdestructSmokeEIP150 + (if \<not> exists then CreateBySelfdestructSmoke else 0), s) }
             else Some (0, s));
          let (suicided, s) = HasSuicided K db self s
          in Some (Inr smoke, ctx, if \<not> suicided then AddRefund SelfdestructRefundSmoke s else s) })"

subsection \<open>Access lists\<close>

definition smokeEip2929AccountCheck :: "'tr smokeFunc" where
  "smokeEip2929AccountCheck i memorySize ctx s =
    do { addr \<leftarrow> stack_addr i 0 ctx;
         if \<not> AddressInAccessList addr s
         then Some (Inr (ColdAccountAccessCostEIP2929 - WarmStorageReadCostEIP2929), ctx, AddAddressToAccessList addr s)
         else Some (Inr 0, ctx, s) }"

definition smokeExtCodeCopyEIP2929 :: "'tr smokeFunc" where
  "smokeExtCodeCopyEIP2929 i memorySize ctx s =
    do { (r, ctx, s) \<leftarrow> memoryCopierSmoke 3 i memorySize ctx s;
         case r of
           Inl err \<Rightarrow> Some (Inl err, ctx, s)
         | Inr smoke \<Rightarrow>
             do { addr \<leftarrow> stack_addr i 0 ctx;
                  if \<not> AddressInAccessList addr s
                  then let s = AddAddressToAccessList addr s;
                           (smoke, overflow) = SafeAdd smoke (ColdAccountAccessCostEIP2929 - WarmStorageReadCostEIP2929)
                       in if overflow then Some (Inl ErrSmokeUintOverflow, ctx, s) else Some (Inr smoke, ctx, s)
                  else Some (Inr smoke, ctx, s) } }"

definition makeCallVariantSmokeCallEIP2929 :: "'tr smokeFunc \<Rightarrow> 'tr smokeFunc" where
  "makeCallVariantSmokeCallEIP2929 oldCalculator i memorySize ctx s =
    do { addr \<leftarrow> stack_addr i 1 ctx;
         if \<not> AddressInAccessList addr s
         then let s = AddAddressToAccessList addr s;
                  (ok, contract) = UseSmoke (ColdAccountAccessCostEIP2929 - WarmStorageReadCostEIP2929) (f_contract ctx);
                  ctx = ctx\<lparr>f_contract := contract\<rparr>
              in if \<not> ok then Some (Inl ErrOutOfSmoke, ctx, s) else oldCalculator i memorySize ctx s
         else oldCalculator i memorySize ctx s }"

definition smokeSelfdestructEIP2929 :: "'tr smokeFunc" where
  "smokeSelfdestructEIP2929 i memorySize ctx s =
    (let K = in_keccak i; db = in_db i; self = ctx_Address ctx in
     do { address \<leftarrow> stack_addr i 0 ctx;
          let present = AddressInAccessList address s;
              s = (if \<not> present then AddAddressToAccessList address s else s);
              smoke = (if \<not> present then ColdAccountAccessCostEIP2929 else 0);
              (empty, s) = Empty K db address s;
              (create, s) = (if empty then let (balance, s) = GetBalance K db self s in (balance \<noteq> 0, s) else (False, s));
              smoke = (if create then smoke + CreateBySelfdestructSmoke else smoke);
              (suicided, s) = HasSuicided K db self s
          in Some (Inr smoke, ctx, if \<not> suicided then AddRefund SelfdestructRefundSmoke s else s) })"

subsection \<open>Names of the tables\<close>

abbreviation smokeCallDataCopy :: "'tr smokeFunc" where "smokeCallDataCopy \<equiv> memoryCopierSmoke 2"
abbreviation smokeCodeCopy :: "'tr smokeFunc" where "smokeCodeCopy \<equiv> memoryCopierSmoke 2"
abbreviation smokeExtCodeCopy :: "'tr smokeFunc" where "smokeExtCodeCopy \<equiv> memoryCopierSmoke 3"
abbreviation smokeReturnDataCopy :: "'tr smokeFunc" where "smokeReturnDataCopy \<equiv> memoryCopierSmoke 2"
abbreviation smokeReturn :: "'tr smokeFunc" where "smokeReturn \<equiv> pureMemorySmokecost"
abbreviation smokeRevert :: "'tr smokeFunc" where "smokeRevert \<equiv> pureMemorySmokecost"
abbreviation smokeMLoad :: "'tr smokeFunc" where "smokeMLoad \<equiv> pureMemorySmokecost"
abbreviation smokeMStore8 :: "'tr smokeFunc" where "smokeMStore8 \<equiv> pureMemorySmokecost"
abbreviation smokeMStore :: "'tr smokeFunc" where "smokeMStore \<equiv> pureMemorySmokecost"
abbreviation smokeCreate :: "'tr smokeFunc" where "smokeCreate \<equiv> pureMemorySmokecost"
abbreviation smokeCallEIP2929 :: "'tr smokeFunc" where "smokeCallEIP2929 \<equiv> makeCallVariantSmokeCallEIP2929 smokeCall"
abbreviation smokeDelegateCallEIP2929 :: "'tr smokeFunc" where "smokeDelegateCallEIP2929 \<equiv> makeCallVariantSmokeCallEIP2929 smokeDelegateCall"
abbreviation smokeStaticCallEIP2929 :: "'tr smokeFunc" where "smokeStaticCallEIP2929 \<equiv> makeCallVariantSmokeCallEIP2929 smokeStaticCall"
abbreviation smokeCallCodeEIP2929 :: "'tr smokeFunc" where "smokeCallCodeEIP2929 \<equiv> makeCallVariantSmokeCallEIP2929 smokeCallCode"

end
