(* ===== verification/Evm_Instructions.thy ===== *)
theory Evm_Instructions
  imports Evm_Smoke
begin

section \<open>Instructions\<close>

text \<open>
  The instructions of \<open>src/core/vm/instructions.go\<close> and \<open>src/core/vm/eips.go\<close>. An instruction
  returns its result data, an error, the frame and the state; \<open>None\<close> is a panic. The result data of
  a nested call may share memory with the caller, which \<open>ret_slice\<close> accounts for.
\<close>

type_synonym 'tr executionFunc =
  "'tr EVMInterpreter \<Rightarrow> callCtx \<Rightarrow> 'tr StateDB \<Rightarrow> (bytes \<times> vm_err option \<times> callCtx \<times> 'tr StateDB) option"

subsection \<open>Stack\<close>

definition stack_push :: "u256 \<Rightarrow> callCtx \<Rightarrow> callCtx" where
  "stack_push d ctx = ctx\<lparr>f_stack := d # f_stack ctx\<rparr>"

definition stack_pop :: "callCtx \<Rightarrow> (u256 \<times> callCtx) option" where
  "stack_pop ctx = (case f_stack ctx of [] \<Rightarrow> None | d # st \<Rightarrow> Some (d, ctx\<lparr>f_stack := st\<rparr>))"

text \<open>A change of the word that \<open>peek\<close> points to.\<close>

definition stack_top :: "(u256 \<Rightarrow> u256) \<Rightarrow> callCtx \<Rightarrow> callCtx option" where
  "stack_top f ctx = (case f_stack ctx of [] \<Rightarrow> None | d # st \<Rightarrow> Some (ctx\<lparr>f_stack := f d # st\<rparr>))"

definition stack_swap :: "nat \<Rightarrow> callCtx \<Rightarrow> callCtx option" where
  "stack_swap n ctx =
    (let st = f_stack ctx
     in if n = 0 \<or> length st < n then None
        else Some (ctx\<lparr>f_stack := (st[n - 1 := st ! 0])[0 := st ! (n - 1)]\<rparr>))"

definition stack_dup :: "nat \<Rightarrow> callCtx \<Rightarrow> callCtx option" where
  "stack_dup n ctx =
    (if n = 0 \<or> length (f_stack ctx) < n then None else Some (stack_push (f_stack ctx ! (n - 1)) ctx))"

primrec stack_popN :: "nat \<Rightarrow> callCtx \<Rightarrow> (u256 list \<times> callCtx) option" where
  "stack_popN 0 ctx = Some ([], ctx)"
| "stack_popN (Suc n) ctx =
    do { (x, ctx) \<leftarrow> stack_pop ctx; (xs, ctx) \<leftarrow> stack_popN n ctx; Some (x # xs, ctx) }"

definition finished :: "callCtx \<Rightarrow> 'tr StateDB \<Rightarrow> (bytes \<times> vm_err option \<times> callCtx \<times> 'tr StateDB) option" where
  "finished ctx s = Some ([], None, ctx, s)"

definition unary_op :: "(uint256 \<Rightarrow> u256 \<Rightarrow> u256) \<Rightarrow> 'tr executionFunc" where
  "unary_op f i ctx s = do { ctx \<leftarrow> stack_top (f (in_u256 i)) ctx; finished ctx s }"

definition binary_op :: "(uint256 \<Rightarrow> u256 \<Rightarrow> u256 \<Rightarrow> u256) \<Rightarrow> 'tr executionFunc" where
  "binary_op f i ctx s =
    do { (x, ctx) \<leftarrow> stack_pop ctx; ctx \<leftarrow> stack_top (f (in_u256 i) x) ctx; finished ctx s }"

definition ternary_op :: "(uint256 \<Rightarrow> u256 \<Rightarrow> u256 \<Rightarrow> u256 \<Rightarrow> u256) \<Rightarrow> 'tr executionFunc" where
  "ternary_op f i ctx s =
    do { (x, ctx) \<leftarrow> stack_pop ctx; (y, ctx) \<leftarrow> stack_pop ctx; ctx \<leftarrow> stack_top (f (in_u256 i) x y) ctx; finished ctx s }"

definition push_op :: "('tr EVMInterpreter \<Rightarrow> callCtx \<Rightarrow> u256 option) \<Rightarrow> 'tr executionFunc" where
  "push_op f i ctx s = do { d \<leftarrow> f i ctx; finished (stack_push d ctx) s }"

definition flag :: "uint256 \<Rightarrow> bool \<Rightarrow> u256" where
  "flag U b = (if b then u_One U else u_Zero U)"

subsection \<open>Arithmetic and comparison\<close>

definition opAdd :: "'tr executionFunc" where "opAdd = binary_op u_Add"
definition opSub :: "'tr executionFunc" where "opSub = binary_op u_Sub"
definition opMul :: "'tr executionFunc" where "opMul = binary_op u_Mul"
definition opDiv :: "'tr executionFunc" where "opDiv = binary_op u_Div"
definition opSdiv :: "'tr executionFunc" where "opSdiv = binary_op u_SDiv"
definition opMod :: "'tr executionFunc" where "opMod = binary_op u_Mod"
definition opSmod :: "'tr executionFunc" where "opSmod = binary_op u_SMod"
definition opExp :: "'tr executionFunc" where "opExp = binary_op u_Exp"
definition opSignExtend :: "'tr executionFunc" where "opSignExtend = binary_op (\<lambda>U back num. u_ExtendSign U num back)"
definition opNot :: "'tr executionFunc" where "opNot = unary_op u_Not"
definition opLt :: "'tr executionFunc" where "opLt = binary_op (\<lambda>U x y. flag U (u_Lt U x y))"
definition opGt :: "'tr executionFunc" where "opGt = binary_op (\<lambda>U x y. flag U (u_Gt U x y))"
definition opSlt :: "'tr executionFunc" where "opSlt = binary_op (\<lambda>U x y. flag U (u_Slt U x y))"
definition opSgt :: "'tr executionFunc" where "opSgt = binary_op (\<lambda>U x y. flag U (u_Sgt U x y))"
definition opEq :: "'tr executionFunc" where "opEq = binary_op (\<lambda>U x y. flag U (u_Eq U x y))"
definition opIszero :: "'tr executionFunc" where "opIszero = unary_op (\<lambda>U x. flag U (u_IsZero U x))"
definition opAnd :: "'tr executionFunc" where "opAnd = binary_op u_And"
definition opOr :: "'tr executionFunc" where "opOr = binary_op u_Or"
definition opXor :: "'tr executionFunc" where "opXor = binary_op u_Xor"
definition opByte :: "'tr executionFunc" where "opByte = binary_op (\<lambda>U th v. u_Byte U v th)"

definition opAddmod :: "'tr executionFunc" where
  "opAddmod = ternary_op (\<lambda>U x y z. if u_IsZero U z then u_Zero U else u_AddMod U x y z)"

definition opMulmod :: "'tr executionFunc" where "opMulmod = ternary_op u_MulMod"

definition opSHL :: "'tr executionFunc" where
  "opSHL = binary_op (\<lambda>U shift v. if u_LtUint64 U shift 256 then u_Lsh U v (unat (u_Uint64 U shift)) else u_Zero U)"

definition opSHR :: "'tr executionFunc" where
  "opSHR = binary_op (\<lambda>U shift v. if u_LtUint64 U shift 256 then u_Rsh U v (unat (u_Uint64 U shift)) else u_Zero U)"

definition opSAR :: "'tr executionFunc" where
  "opSAR = binary_op (\<lambda>U shift v.
    if u_GtUint64 U shift 256 then (if 0 \<le> u_Sign U v then u_Zero U else u_AllOne U)
    else u_SRsh U v (unat (u_Uint64 U shift)))"

subsection \<open>Environment\<close>

definition int64 :: "uint256 \<Rightarrow> u256 \<Rightarrow> int" where
  "int64 U x = sint (u_Uint64 U x)"

definition opSha3 :: "'tr executionFunc" where
  "opSha3 i ctx s =
    (let U = in_u256 i in
     do { (offset, ctx) \<leftarrow> stack_pop ctx;
          sz \<leftarrow> Back 0 ctx;
          data \<leftarrow> mem_GetPtr (int64 U offset) (int64 U sz) (f_memory ctx);
          let hash = in_keccak i data;
              s = (if evm_EnablePreimageRecording (in_evm i) then AddPreimage hash data s else s) in
          do { ctx \<leftarrow> stack_top (\<lambda>_. u_SetBytes U hash) ctx; finished ctx s } })"

definition opAddress :: "'tr executionFunc" where
  "opAddress = push_op (\<lambda>i ctx. Some (u_SetBytes (in_u256 i) (ctx_Address ctx)))"

definition opBalance :: "'tr executionFunc" where
  "opBalance i ctx s =
    do { address \<leftarrow> stack_addr i 0 ctx;
         let (balance, s) = GetBalance (in_keccak i) (in_db i) address s in
         do { ctx \<leftarrow> stack_top (\<lambda>_. u_FromBig (in_u256 i) balance) ctx; finished ctx s } }"

definition opOrigin :: "'tr executionFunc" where
  "opOrigin = push_op (\<lambda>i ctx. Some (u_SetBytes (in_u256 i) (evm_Origin (in_evm i))))"

definition opCaller :: "'tr executionFunc" where
  "opCaller = push_op (\<lambda>i ctx. Some (u_SetBytes (in_u256 i) (c_CallerAddress (f_contract ctx))))"

definition opCallValue :: "'tr executionFunc" where
  "opCallValue = push_op (\<lambda>i ctx. map_option (u_FromBig (in_u256 i)) (c_value (f_contract ctx)))"

definition opCallDataLoad :: "'tr executionFunc" where
  "opCallDataLoad i ctx s =
    (let U = in_u256 i in
     do { x \<leftarrow> Back 0 ctx;
          let (offset, overflow) = u_Uint64WithOverflow U x in
          do { v \<leftarrow> (if \<not> overflow then map_option (u_SetBytes U) (getData (c_Input (f_contract ctx)) offset 32)
                      else Some (u_Zero U));
               ctx \<leftarrow> stack_top (\<lambda>_. v) ctx; finished ctx s } })"

definition opCallDataSize :: "'tr executionFunc" where
  "opCallDataSize = push_op (\<lambda>i ctx. Some (u_SetUint64 (in_u256 i) (word_of_nat (length (c_Input (f_contract ctx))))))"

text \<open>The copy of padded data into memory, shared by the three copying instructions.\<close>

definition copy_data :: "uint256 \<Rightarrow> bytes \<Rightarrow> u256 \<Rightarrow> u256 \<Rightarrow> u256 \<Rightarrow> callCtx \<Rightarrow> callCtx option" where
  "copy_data U data memOffset dataOffset len ctx =
    (let (dataOffset64, overflow) = u_Uint64WithOverflow U dataOffset;
         dataOffset64 = (if overflow then 0xFFFFFFFFFFFFFFFF else dataOffset64) in
     do { d \<leftarrow> getData data dataOffset64 (u_Uint64 U len);
          m \<leftarrow> mem_Set (u_Uint64 U memOffset) (u_Uint64 U len) d (f_memory ctx);
          Some (ctx\<lparr>f_memory := m\<rparr>) })"

definition opCallDataCopy :: "'tr executionFunc" where
  "opCallDataCopy i ctx s =
    do { (memOffset, ctx) \<leftarrow> stack_pop ctx; (dataOffset, ctx) \<leftarrow> stack_pop ctx; (len, ctx) \<leftarrow> stack_pop ctx;
         ctx \<leftarrow> copy_data (in_u256 i) (c_Input (f_contract ctx)) memOffset dataOffset len ctx;
         finished ctx s }"

definition opReturnDataSize :: "'tr executionFunc" where
  "opReturnDataSize = push_op (\<lambda>i ctx. Some (u_SetUint64 (in_u256 i) (word_of_nat (length (f_returnData ctx)))))"

definition opReturnDataCopy :: "'tr executionFunc" where
  "opReturnDataCopy i ctx s =
    (let U = in_u256 i in
     do { (memOffset, ctx) \<leftarrow> stack_pop ctx; (dataOffset, ctx) \<leftarrow> stack_pop ctx; (len, ctx) \<leftarrow> stack_pop ctx;
          let (offset64, overflow) = u_Uint64WithOverflow U dataOffset in
          if overflow then Some ([], Some ErrReturnDataOutOfBounds, ctx, s)
          else let (end64, overflow) = u_Uint64WithOverflow U (u_Add U dataOffset len) in
          if overflow \<or> word_of_nat (length (f_returnData ctx)) < end64
          then Some ([], Some ErrReturnDataOutOfBounds, ctx, s)
          else if end64 < offset64 then None
          else do { m \<leftarrow> mem_Set (u_Uint64 U memOffset) (u_Uint64 U len)
                           (go_slice (f_returnData ctx) (unat offset64) (unat end64)) (f_memory ctx);
                    finished (ctx\<lparr>f_memory := m\<rparr>) s } })"

definition opExtCodeSize :: "'tr executionFunc" where
  "opExtCodeSize i ctx s =
    do { address \<leftarrow> stack_addr i 0 ctx;
         let (sz, s) = GetCodeSize (in_keccak i) (in_db i) address s in
         do { ctx \<leftarrow> stack_top (\<lambda>_. u_SetUint64 (in_u256 i) (word_of_nat sz)) ctx; finished ctx s } }"

definition opCodeSize :: "'tr executionFunc" where
  "opCodeSize = push_op (\<lambda>i ctx. Some (u_SetUint64 (in_u256 i) (word_of_nat (length (c_Code (f_contract ctx))))))"

definition opCodeCopy :: "'tr executionFunc" where
  "opCodeCopy i ctx s =
    do { (memOffset, ctx) \<leftarrow> stack_pop ctx; (codeOffset, ctx) \<leftarrow> stack_pop ctx; (len, ctx) \<leftarrow> stack_pop ctx;
         ctx \<leftarrow> copy_data (in_u256 i) (c_Code (f_contract ctx)) memOffset codeOffset len ctx;
         finished ctx s }"

definition opExtCodeCopy :: "'tr executionFunc" where
  "opExtCodeCopy i ctx s =
    do { (a, ctx) \<leftarrow> stack_pop ctx; (memOffset, ctx) \<leftarrow> stack_pop ctx; (codeOffset, ctx) \<leftarrow> stack_pop ctx; (len, ctx) \<leftarrow> stack_pop ctx;
         let (code, s) = GetCode (in_keccak i) (in_db i) (u_Bytes20 (in_u256 i) a) s in
         do { ctx \<leftarrow> copy_data (in_u256 i) (code_bytes code) memOffset codeOffset len ctx;
              finished ctx s } }"

definition opExtCodeHash :: "'tr executionFunc" where
  "opExtCodeHash i ctx s =
    (let K = in_keccak i; db = in_db i in
     do { address \<leftarrow> stack_addr i 0 ctx;
          let (empty, s) = Empty K db address s in
          if empty then do { ctx \<leftarrow> stack_top (\<lambda>_. u_Zero (in_u256 i)) ctx; finished ctx s }
          else let (hash, s) = GetCodeHash K db address s in
               do { ctx \<leftarrow> stack_top (\<lambda>_. u_SetBytes (in_u256 i) hash) ctx; finished ctx s } })"

definition opSmokeprice :: "'tr executionFunc" where
  "opSmokeprice = push_op (\<lambda>i ctx. Some (u_FromBig (in_u256 i) (evm_SmokePrice (in_evm i))))"

text \<open>The 64 low bits of the magnitude of a \<open>big.Int\<close>.\<close>

definition big_Uint64 :: "int \<Rightarrow> uint64" where
  "big_Uint64 n = word_of_int \<bar>n\<bar>"

definition opBlockhash :: "'tr executionFunc" where
  "opBlockhash i ctx s =
    (let U = in_u256 i in
     do { num \<leftarrow> Back 0 ctx;
          let (num64, overflow) = u_Uint64WithOverflow U num;
              upper = big_Uint64 (evm_BlockNumber (in_evm i));
              lower = (if upper < 257 then 0 else upper - 256);
              v = (if overflow then u_Zero U
                   else if lower \<le> num64 \<and> num64 < upper then u_SetBytes U (evm_GetHash (in_evm i) num64)
                   else u_Zero U) in
          do { ctx \<leftarrow> stack_top (\<lambda>_. v) ctx; finished ctx s } })"

definition opCoinbase :: "'tr executionFunc" where
  "opCoinbase = push_op (\<lambda>i ctx. Some (u_SetBytes (in_u256 i) (evm_Coinbase (in_evm i))))"

definition opTimestamp :: "'tr executionFunc" where
  "opTimestamp = push_op (\<lambda>i ctx. Some (u_FromBig (in_u256 i) (evm_Time (in_evm i))))"

definition opNumber :: "'tr executionFunc" where
  "opNumber = push_op (\<lambda>i ctx. Some (u_FromBig (in_u256 i) (evm_BlockNumber (in_evm i))))"

definition opDifficulty :: "'tr executionFunc" where
  "opDifficulty = push_op (\<lambda>i ctx. Some (u_FromBig (in_u256 i) (evm_Difficulty (in_evm i))))"

definition opSmokeLimit :: "'tr executionFunc" where
  "opSmokeLimit = push_op (\<lambda>i ctx. Some (u_SetUint64 (in_u256 i) (evm_SmokeLimit (in_evm i))))"

definition opSelfBalance :: "'tr executionFunc" where
  "opSelfBalance i ctx s =
    (let (balance, s) = GetBalance (in_keccak i) (in_db i) (ctx_Address ctx) s
     in finished (stack_push (u_FromBig (in_u256 i) balance) ctx) s)"

definition opChainID :: "'tr executionFunc" where
  "opChainID = push_op (\<lambda>i ctx. map_option (u_FromBig (in_u256 i)) (evm_ChainID (in_evm i)))"

subsection \<open>Stack, memory, storage and jumps\<close>

definition opPop :: "'tr executionFunc" where
  "opPop i ctx s = do { (_, ctx) \<leftarrow> stack_pop ctx; finished ctx s }"

definition opMload :: "'tr executionFunc" where
  "opMload i ctx s =
    (let U = in_u256 i in
     do { v \<leftarrow> Back 0 ctx;
          data \<leftarrow> mem_GetPtr (int64 U v) 32 (f_memory ctx);
          ctx \<leftarrow> stack_top (\<lambda>_. u_SetBytes U data) ctx; finished ctx s })"

definition opMstore :: "'tr executionFunc" where
  "opMstore i ctx s =
    (let U = in_u256 i in
     do { (mStart, ctx) \<leftarrow> stack_pop ctx; (val, ctx) \<leftarrow> stack_pop ctx;
          m \<leftarrow> mem_Set32 U (u_Uint64 U mStart) val (f_memory ctx);
          finished (ctx\<lparr>f_memory := m\<rparr>) s })"

definition opMstore8 :: "'tr executionFunc" where
  "opMstore8 i ctx s =
    (let U = in_u256 i in
     do { (off, ctx) \<leftarrow> stack_pop ctx; (val, ctx) \<leftarrow> stack_pop ctx;
          let m = f_memory ctx; pos = unat (u_Uint64 U off) in
          if pos < length (m_store m)
          then finished (ctx\<lparr>f_memory := m\<lparr>m_store := (m_store m)[pos := ucast (u_Uint64 U val)]\<rparr>\<rparr>) s
          else None })"

definition opSload :: "'tr executionFunc" where
  "opSload i ctx s =
    (let U = in_u256 i in
     do { loc \<leftarrow> Back 0 ctx;
          (val, s) \<leftarrow> GetState (in_keccak i) (in_db i) (ctx_Address ctx) (u_Bytes32 U loc) s;
          ctx \<leftarrow> stack_top (\<lambda>_. u_SetBytes U val) ctx; finished ctx s })"

definition opSstore :: "'tr executionFunc" where
  "opSstore i ctx s =
    (let U = in_u256 i in
     do { (loc, ctx) \<leftarrow> stack_pop ctx; (val, ctx) \<leftarrow> stack_pop ctx;
          s \<leftarrow> SetState (in_keccak i) (in_db i) (ctx_Address ctx) (u_Bytes32 U loc) (u_Bytes32 U val) s;
          finished ctx s })"

definition opJump :: "'tr executionFunc" where
  "opJump i ctx s =
    (let U = in_u256 i in
     do { (pos, ctx) \<leftarrow> stack_pop ctx;
          valid \<leftarrow> validJumpdest U (f_contract ctx) pos;
          if \<not> valid then Some ([], Some ErrInvalidJump, ctx, s)
          else finished (ctx\<lparr>f_pc := u_Uint64 U pos\<rparr>) s })"

definition opJumpi :: "'tr executionFunc" where
  "opJumpi i ctx s =
    (let U = in_u256 i in
     do { (pos, ctx) \<leftarrow> stack_pop ctx; (cond, ctx) \<leftarrow> stack_pop ctx;
          if \<not> u_IsZero U cond
          then do { valid \<leftarrow> validJumpdest U (f_contract ctx) pos;
                    if \<not> valid then Some ([], Some ErrInvalidJump, ctx, s)
                    else finished (ctx\<lparr>f_pc := u_Uint64 U pos\<rparr>) s }
          else finished (ctx\<lparr>f_pc := f_pc ctx + 1\<rparr>) s })"

definition opJumpdest :: "'tr executionFunc" where
  "opJumpdest i ctx s = finished ctx s"

definition opBeginSub :: "'tr executionFunc" where
  "opBeginSub i ctx s = Some ([], Some ErrInvalidSubroutineEntry, ctx, s)"

definition opJumpSub :: "'tr executionFunc" where
  "opJumpSub i ctx s =
    (let U = in_u256 i in
     if 1023 \<le> length (f_rstack ctx) then Some ([], Some ErrReturnStackExceeded, ctx, s)
     else do { (pos, ctx) \<leftarrow> stack_pop ctx;
               if \<not> u_IsUint64 U pos then Some ([], Some ErrInvalidJump, ctx, s)
               else do { valid \<leftarrow> validJumpSubdest (f_contract ctx) (u_Uint64 U pos);
                         if \<not> valid then Some ([], Some ErrInvalidJump, ctx, s)
                         else finished (ctx\<lparr>f_rstack := ucast (f_pc ctx) # f_rstack ctx, f_pc := u_Uint64 U pos + 1\<rparr>) s } })"

definition opReturnSub :: "'tr executionFunc" where
  "opReturnSub i ctx s =
    (case f_rstack ctx of
       [] \<Rightarrow> Some ([], Some ErrInvalidRetsub, ctx, s)
     | p # rs \<Rightarrow> finished (ctx\<lparr>f_rstack := rs, f_pc := ucast p + 1\<rparr>) s)"

definition opPc :: "'tr executionFunc" where
  "opPc = push_op (\<lambda>i ctx. Some (u_SetUint64 (in_u256 i) (f_pc ctx)))"

definition opMsize :: "'tr executionFunc" where
  "opMsize = push_op (\<lambda>i ctx. Some (u_SetUint64 (in_u256 i) (mem_Len (f_memory ctx))))"

definition opSmoke :: "'tr executionFunc" where
  "opSmoke = push_op (\<lambda>i ctx. Some (u_SetUint64 (in_u256 i) (c_Smoke (f_contract ctx))))"

definition makeLog :: "nat \<Rightarrow> 'tr executionFunc" where
  "makeLog sz i ctx s =
    (let U = in_u256 i in
     do { (mStart, ctx) \<leftarrow> stack_pop ctx; (mSize, ctx) \<leftarrow> stack_pop ctx;
          (topics, ctx) \<leftarrow> stack_popN sz ctx;
          d \<leftarrow> mem_GetCopy (int64 U mStart) (int64 U mSize) (f_memory ctx);
          finished ctx
            (AddLog \<lparr>log_Address = ctx_Address ctx, log_Topics = map (u_Bytes32 U) topics, log_Data = d,
                     log_BlockNumber = big_Uint64 (evm_BlockNumber (in_evm i)), log_TxHash = zero_hash, log_TxIndex = 0,
                     log_BlockHash = zero_hash, log_Index = 0, log_Removed = False\<rparr> s) })"

definition opPush1 :: "'tr executionFunc" where
  "opPush1 i ctx s =
    (let U = in_u256 i; code = c_Code (f_contract ctx); ctx = ctx\<lparr>f_pc := f_pc ctx + 1\<rparr>
     in finished (stack_push (if f_pc ctx < word_of_nat (length code) then u_SetUint64 U (ucast (code ! unat (f_pc ctx))) else u_Zero U) ctx) s)"

definition makePush :: "uint64 \<Rightarrow> nat \<Rightarrow> 'tr executionFunc" where
  "makePush sz pushByteSize i ctx s =
    (let code = c_Code (f_contract ctx);
         codeLen = length code;
         startMin = min (unat (f_pc ctx + 1)) codeLen;
         endMin = min (startMin + pushByteSize) codeLen;
         ctx = stack_push (u_SetBytes (in_u256 i) (RightPadBytes (go_slice code startMin endMin) pushByteSize)) ctx
     in finished (ctx\<lparr>f_pc := f_pc ctx + sz\<rparr>) s)"

definition makeDup :: "nat \<Rightarrow> 'tr executionFunc" where
  "makeDup sz i ctx s = do { ctx \<leftarrow> stack_dup sz ctx; finished ctx s }"

definition makeSwap :: "nat \<Rightarrow> 'tr executionFunc" where
  "makeSwap sz i ctx s = do { ctx \<leftarrow> stack_swap (sz + 1) ctx; finished ctx s }"

subsection \<open>Calls, creation and the end of a frame\<close>

text \<open>The contract of a frame as the caller of a nested call.\<close>

definition contract_ref :: "Contract \<Rightarrow> ContractRef" where
  "contract_ref c = ContractOf (ref_Address (c_self c)) (c_CallerAddress c) (c_value c)"

definition ctx_UseSmoke :: "uint64 \<Rightarrow> callCtx \<Rightarrow> callCtx" where
  "ctx_UseSmoke smoke ctx = ctx\<lparr>f_contract := snd (UseSmoke smoke (f_contract ctx))\<rparr>"

definition add_smoke :: "uint64 \<Rightarrow> callCtx \<Rightarrow> callCtx" where
  "add_smoke smoke ctx = ctx\<lparr>f_contract := (f_contract ctx)\<lparr>c_Smoke := c_Smoke (f_contract ctx) + smoke\<rparr>\<rparr>"

definition opCreate :: "'tr executionFunc" where
  "opCreate i ctx s =
    (let U = in_u256 i; rules = evm_chainRules (in_evm i) in
     do { (val, ctx) \<leftarrow> stack_pop ctx; (offset, ctx) \<leftarrow> stack_pop ctx; (sz, ctx) \<leftarrow> stack_pop ctx;
          input \<leftarrow> mem_GetCopy (int64 U offset) (int64 U sz) (f_memory ctx);
          let smoke = c_Smoke (f_contract ctx);
              smoke = (if r_IsEIP150 rules then smoke - smoke div 64 else smoke);
              ctx = ctx_UseSmoke smoke ctx;
              bigVal = (if \<not> u_IsZero U val then u_ToBig U val else 0) in
          do { (res, addr, returnSmoke, suberr, s) \<leftarrow>
                 Create (in_keccak i) (in_db i) (in_nested i) (in_evm i) (contract_ref (f_contract ctx)) input smoke bigVal s;
               let stackvalue = (if r_IsHomestead rules \<and> suberr = Some ErrCodeStoreOutOfSmoke then u_Zero U
                                 else if suberr \<noteq> None \<and> suberr \<noteq> Some ErrCodeStoreOutOfSmoke then u_Zero U
                                 else u_SetBytes U addr);
                   ctx = add_smoke returnSmoke (stack_push stackvalue ctx) in
               Some (if suberr = Some ErrExecutionReverted then res else [], None, ctx, s) } })"

definition opCreate2 :: "'tr executionFunc" where
  "opCreate2 i ctx s =
    (let U = in_u256 i in
     do { (endowment, ctx) \<leftarrow> stack_pop ctx; (offset, ctx) \<leftarrow> stack_pop ctx; (sz, ctx) \<leftarrow> stack_pop ctx; (salt, ctx) \<leftarrow> stack_pop ctx;
          input \<leftarrow> mem_GetCopy (int64 U offset) (int64 U sz) (f_memory ctx);
          let smoke = c_Smoke (f_contract ctx);
              smoke = smoke - smoke div 64;
              ctx = ctx_UseSmoke smoke ctx;
              bigEndowment = (if \<not> u_IsZero U endowment then u_ToBig U endowment else 0) in
          do { (res, addr, returnSmoke, suberr, s) \<leftarrow>
                 Create2 (in_keccak i) (in_db i) (in_nested i) (in_evm i) (contract_ref (f_contract ctx)) input smoke bigEndowment (u_Bytes32 U salt) s;
               let stackvalue = (if suberr \<noteq> None then u_Zero U else u_SetBytes U addr);
                   ctx = add_smoke returnSmoke (stack_push stackvalue ctx) in
               Some (if suberr = Some ErrExecutionReverted then res else [], None, ctx, s) } })"

text \<open>
  The result of a nested call when memory has been written after it: the result of a native
  contract that returns its input is the slice of the caller's memory from \<open>inOffset\<close> on.
\<close>

definition ret_slice :: "'tr EVMInterpreter \<Rightarrow> address \<Rightarrow> u256 \<Rightarrow> bytes \<Rightarrow> Memory \<Rightarrow> bytes" where
  "ret_slice i toAddr inOffset ret m =
    (case evm_precompile (in_evm i) toAddr of
       None \<Rightarrow> ret
     | Some p \<Rightarrow> if pc_ReturnsInput p then take (length ret) (drop (unat (u_Uint64 (in_u256 i) inOffset)) (m_store m)) else ret)"

text \<open>
  What the four calls do after the nested call: the flag on the stack, the result in memory,
  and the smoke that is left.
\<close>

definition call_return ::
  "'tr EVMInterpreter \<Rightarrow> address \<Rightarrow> u256 \<Rightarrow> u256 \<Rightarrow> u256 \<Rightarrow> callCtx \<Rightarrow> bytes \<times> uint64 \<times> vm_err option \<times> 'tr StateDB \<Rightarrow>
    (bytes \<times> vm_err option \<times> callCtx \<times> 'tr StateDB) option" where
  "call_return i toAddr inOffset retOffset retSize ctx r =
    (case r of (ret, returnSmoke, err, s) \<Rightarrow>
      (let U = in_u256 i; ctx = stack_push (if err \<noteq> None then u_Zero U else u_One U) ctx in
       do { m \<leftarrow> (if err = None \<or> err = Some ErrExecutionReverted
                   then mem_Set (u_Uint64 U retOffset) (u_Uint64 U retSize) ret (f_memory ctx)
                   else Some (f_memory ctx));
            Some (ret_slice i toAddr inOffset ret m, None, add_smoke returnSmoke (ctx\<lparr>f_memory := m\<rparr>), s) }))"

definition opCall :: "'tr executionFunc" where
  "opCall i ctx s =
    (let U = in_u256 i; smoke = f_callSmokeTemp ctx in
     do { (_, ctx) \<leftarrow> stack_pop ctx; (addr, ctx) \<leftarrow> stack_pop ctx; (val, ctx) \<leftarrow> stack_pop ctx;
          (inOffset, ctx) \<leftarrow> stack_pop ctx; (inSize, ctx) \<leftarrow> stack_pop ctx; (retOffset, ctx) \<leftarrow> stack_pop ctx; (retSize, ctx) \<leftarrow> stack_pop ctx;
          args \<leftarrow> mem_GetPtr (int64 U inOffset) (int64 U inSize) (f_memory ctx);
          let toAddr = u_Bytes20 U addr;
              (smoke, bigVal) = (if \<not> u_IsZero U val then (smoke + CallStipend, u_ToBig U val) else (smoke, 0)) in
          do { r \<leftarrow> Call (in_keccak i) (in_db i) (in_nested i) (in_evm i) (contract_ref (f_contract ctx)) toAddr args smoke bigVal s;
               call_return i toAddr inOffset retOffset retSize ctx r } })"

definition opCallCode :: "'tr executionFunc" where
  "opCallCode i ctx s =
    (let U = in_u256 i; smoke = f_callSmokeTemp ctx in
     do { (_, ctx) \<leftarrow> stack_pop ctx; (addr, ctx) \<leftarrow> stack_pop ctx; (val, ctx) \<leftarrow> stack_pop ctx;
          (inOffset, ctx) \<leftarrow> stack_pop ctx; (inSize, ctx) \<leftarrow> stack_pop ctx; (retOffset, ctx) \<leftarrow> stack_pop ctx; (retSize, ctx) \<leftarrow> stack_pop ctx;
          args \<leftarrow> mem_GetPtr (int64 U inOffset) (int64 U inSize) (f_memory ctx);
          let toAddr = u_Bytes20 U addr;
              (smoke, bigVal) = (if \<not> u_IsZero U val then (smoke + CallStipend, u_ToBig U val) else (smoke, 0)) in
          do { r \<leftarrow> CallCode (in_keccak i) (in_db i) (in_nested i) (in_evm i) (contract_ref (f_contract ctx)) toAddr args smoke bigVal s;
               call_return i toAddr inOffset retOffset retSize ctx r } })"

definition opDelegateCall :: "'tr executionFunc" where
  "opDelegateCall i ctx s =
    (let U = in_u256 i; smoke = f_callSmokeTemp ctx in
     do { (_, ctx) \<leftarrow> stack_pop ctx; (addr, ctx) \<leftarrow> stack_pop ctx;
          (inOffset, ctx) \<leftarrow> stack_pop ctx; (inSize, ctx) \<leftarrow> stack_pop ctx; (retOffset, ctx) \<leftarrow> stack_pop ctx; (retSize, ctx) \<leftarrow> stack_pop ctx;
          args \<leftarrow> mem_GetPtr (int64 U inOffset) (int64 U inSize) (f_memory ctx);
          let toAddr = u_Bytes20 U addr in
          do { r \<leftarrow> DelegateCall (in_keccak i) (in_db i) (in_nested i) (in_evm i) (contract_ref (f_contract ctx)) toAddr args smoke s;
               call_return i toAddr inOffset retOffset retSize ctx r } })"

definition opStaticCall :: "'tr executionFunc" where
  "opStaticCall i ctx s =
    (let U = in_u256 i; smoke = f_callSmokeTemp ctx in
     do { (_, ctx) \<leftarrow> stack_pop ctx; (addr, ctx) \<leftarrow> stack_pop ctx;
          (inOffset, ctx) \<leftarrow> stack_pop ctx; (inSize, ctx) \<leftarrow> stack_pop ctx; (retOffset, ctx) \<leftarrow> stack_pop ctx; (retSize, ctx) \<leftarrow> stack_pop ctx;
          args \<leftarrow> mem_GetPtr (int64 U inOffset) (int64 U inSize) (f_memory ctx);
          let toAddr = u_Bytes20 U addr in
          do { r \<leftarrow> StaticCall (in_keccak i) (in_db i) (in_nested i) (in_evm i) (contract_ref (f_contract ctx)) toAddr args smoke s;
               call_return i toAddr inOffset retOffset retSize ctx r } })"

text \<open>\<open>opReturn\<close> and \<open>opRevert\<close>: the slice of memory that the two operands give.\<close>

definition memory_result :: "'tr executionFunc" where
  "memory_result i ctx s =
    (let U = in_u256 i in
     do { (offset, ctx) \<leftarrow> stack_pop ctx; (sz, ctx) \<leftarrow> stack_pop ctx;
          ret \<leftarrow> mem_GetPtr (int64 U offset) (int64 U sz) (f_memory ctx);
          Some (ret, None, ctx, s) })"

definition opReturn :: "'tr executionFunc" where
  "opReturn = memory_result"

definition opRevert :: "'tr executionFunc" where
  "opRevert = memory_result"

definition opStop :: "'tr executionFunc" where
  "opStop i ctx s = finished ctx s"

definition opSuicide :: "'tr executionFunc" where
  "opSuicide i ctx s =
    (let K = in_keccak i; db = in_db i in
     do { (beneficiary, ctx) \<leftarrow> stack_pop ctx;
          let (balance, s) = GetBalance K db (ctx_Address ctx) s;
              s = AddBalance K db (u_Bytes20 (in_u256 i) beneficiary) balance s;
              (_, s) = Suicide K db (ctx_Address ctx) s in
          finished ctx s })"

end
