(* ===== verification/Evm_JumpTable.thy ===== *)
theory Evm_JumpTable
  imports Evm_Instructions
begin

section \<open>Jump tables\<close>

text \<open>
  The operations of \<open>src/core/vm/jump_table.go\<close> and the instruction set of every fork, with the
  changes of \<open>src/core/vm/eips.go\<close>, the stack bounds of \<open>src/core/vm/stack_table.go\<close> and the
  opcodes of \<open>src/core/vm/opcodes.go\<close>. A table maps an opcode to an operation, or to nothing. The
  extra EIPs of a configuration, which write into the tables of the package, are left out.
\<close>

subsection \<open>Opcodes\<close>

abbreviation OP_STOP :: byte where "OP_STOP \<equiv> 0x00"
abbreviation OP_ADD :: byte where "OP_ADD \<equiv> 0x01"
abbreviation OP_MUL :: byte where "OP_MUL \<equiv> 0x02"
abbreviation OP_SUB :: byte where "OP_SUB \<equiv> 0x03"
abbreviation OP_DIV :: byte where "OP_DIV \<equiv> 0x04"
abbreviation OP_SDIV :: byte where "OP_SDIV \<equiv> 0x05"
abbreviation OP_MOD :: byte where "OP_MOD \<equiv> 0x06"
abbreviation OP_SMOD :: byte where "OP_SMOD \<equiv> 0x07"
abbreviation OP_ADDMOD :: byte where "OP_ADDMOD \<equiv> 0x08"
abbreviation OP_MULMOD :: byte where "OP_MULMOD \<equiv> 0x09"
abbreviation OP_EXP :: byte where "OP_EXP \<equiv> 0x0A"
abbreviation OP_SIGNEXTEND :: byte where "OP_SIGNEXTEND \<equiv> 0x0B"
abbreviation OP_LT :: byte where "OP_LT \<equiv> 0x10"
abbreviation OP_GT :: byte where "OP_GT \<equiv> 0x11"
abbreviation OP_SLT :: byte where "OP_SLT \<equiv> 0x12"
abbreviation OP_SGT :: byte where "OP_SGT \<equiv> 0x13"
abbreviation OP_EQ :: byte where "OP_EQ \<equiv> 0x14"
abbreviation OP_ISZERO :: byte where "OP_ISZERO \<equiv> 0x15"
abbreviation OP_AND :: byte where "OP_AND \<equiv> 0x16"
abbreviation OP_OR :: byte where "OP_OR \<equiv> 0x17"
abbreviation OP_XOR :: byte where "OP_XOR \<equiv> 0x18"
abbreviation OP_NOT :: byte where "OP_NOT \<equiv> 0x19"
abbreviation OP_BYTE :: byte where "OP_BYTE \<equiv> 0x1A"
abbreviation OP_SHL :: byte where "OP_SHL \<equiv> 0x1B"
abbreviation OP_SHR :: byte where "OP_SHR \<equiv> 0x1C"
abbreviation OP_SAR :: byte where "OP_SAR \<equiv> 0x1D"
abbreviation OP_SHA3 :: byte where "OP_SHA3 \<equiv> 0x20"
abbreviation OP_ADDRESS :: byte where "OP_ADDRESS \<equiv> 0x30"
abbreviation OP_BALANCE :: byte where "OP_BALANCE \<equiv> 0x31"
abbreviation OP_ORIGIN :: byte where "OP_ORIGIN \<equiv> 0x32"
abbreviation OP_CALLER :: byte where "OP_CALLER \<equiv> 0x33"
abbreviation OP_CALLVALUE :: byte where "OP_CALLVALUE \<equiv> 0x34"
abbreviation OP_CALLDATALOAD :: byte where "OP_CALLDATALOAD \<equiv> 0x35"
abbreviation OP_CALLDATASIZE :: byte where "OP_CALLDATASIZE \<equiv> 0x36"
abbreviation OP_CALLDATACOPY :: byte where "OP_CALLDATACOPY \<equiv> 0x37"
abbreviation OP_CODESIZE :: byte where "OP_CODESIZE \<equiv> 0x38"
abbreviation OP_CODECOPY :: byte where "OP_CODECOPY \<equiv> 0x39"
abbreviation OP_SMOKEPRICE :: byte where "OP_SMOKEPRICE \<equiv> 0x3A"
abbreviation OP_EXTCODESIZE :: byte where "OP_EXTCODESIZE \<equiv> 0x3B"
abbreviation OP_EXTCODECOPY :: byte where "OP_EXTCODECOPY \<equiv> 0x3C"
abbreviation OP_RETURNDATASIZE :: byte where "OP_RETURNDATASIZE \<equiv> 0x3D"
abbreviation OP_RETURNDATACOPY :: byte where "OP_RETURNDATACOPY \<equiv> 0x3E"
abbreviation OP_EXTCODEHASH :: byte where "OP_EXTCODEHASH \<equiv> 0x3F"
abbreviation OP_BLOCKHASH :: byte where "OP_BLOCKHASH \<equiv> 0x40"
abbreviation OP_COINBASE :: byte where "OP_COINBASE \<equiv> 0x41"
abbreviation OP_TIMESTAMP :: byte where "OP_TIMESTAMP \<equiv> 0x42"
abbreviation OP_NUMBER :: byte where "OP_NUMBER \<equiv> 0x43"
abbreviation OP_DIFFICULTY :: byte where "OP_DIFFICULTY \<equiv> 0x44"
abbreviation OP_SMOKELIMIT :: byte where "OP_SMOKELIMIT \<equiv> 0x45"
abbreviation OP_CHAINID :: byte where "OP_CHAINID \<equiv> 0x46"
abbreviation OP_SELFBALANCE :: byte where "OP_SELFBALANCE \<equiv> 0x47"
abbreviation OP_POP :: byte where "OP_POP \<equiv> 0x50"
abbreviation OP_MLOAD :: byte where "OP_MLOAD \<equiv> 0x51"
abbreviation OP_MSTORE :: byte where "OP_MSTORE \<equiv> 0x52"
abbreviation OP_MSTORE8 :: byte where "OP_MSTORE8 \<equiv> 0x53"
abbreviation OP_SLOAD :: byte where "OP_SLOAD \<equiv> 0x54"
abbreviation OP_SSTORE :: byte where "OP_SSTORE \<equiv> 0x55"
abbreviation OP_JUMP :: byte where "OP_JUMP \<equiv> 0x56"
abbreviation OP_JUMPI :: byte where "OP_JUMPI \<equiv> 0x57"
abbreviation OP_PC :: byte where "OP_PC \<equiv> 0x58"
abbreviation OP_MSIZE :: byte where "OP_MSIZE \<equiv> 0x59"
abbreviation OP_SMOKE :: byte where "OP_SMOKE \<equiv> 0x5A"
abbreviation OP_JUMPDEST :: byte where "OP_JUMPDEST \<equiv> 0x5B"
abbreviation OP_BEGINSUB :: byte where "OP_BEGINSUB \<equiv> 0x5C"
abbreviation OP_RETURNSUB :: byte where "OP_RETURNSUB \<equiv> 0x5D"
abbreviation OP_JUMPSUB :: byte where "OP_JUMPSUB \<equiv> 0x5E"
abbreviation OP_PUSH1 :: byte where "OP_PUSH1 \<equiv> 0x60"
abbreviation OP_DUP1 :: byte where "OP_DUP1 \<equiv> 0x80"
abbreviation OP_SWAP1 :: byte where "OP_SWAP1 \<equiv> 0x90"
abbreviation OP_LOG0 :: byte where "OP_LOG0 \<equiv> 0xA0"
abbreviation OP_LOG1 :: byte where "OP_LOG1 \<equiv> 0xA1"
abbreviation OP_LOG2 :: byte where "OP_LOG2 \<equiv> 0xA2"
abbreviation OP_LOG3 :: byte where "OP_LOG3 \<equiv> 0xA3"
abbreviation OP_LOG4 :: byte where "OP_LOG4 \<equiv> 0xA4"
abbreviation OP_CREATE :: byte where "OP_CREATE \<equiv> 0xF0"
abbreviation OP_CALL :: byte where "OP_CALL \<equiv> 0xF1"
abbreviation OP_CALLCODE :: byte where "OP_CALLCODE \<equiv> 0xF2"
abbreviation OP_RETURN :: byte where "OP_RETURN \<equiv> 0xF3"
abbreviation OP_DELEGATECALL :: byte where "OP_DELEGATECALL \<equiv> 0xF4"
abbreviation OP_CREATE2 :: byte where "OP_CREATE2 \<equiv> 0xF5"
abbreviation OP_STATICCALL :: byte where "OP_STATICCALL \<equiv> 0xFA"
abbreviation OP_REVERT :: byte where "OP_REVERT \<equiv> 0xFD"
abbreviation OP_SELFDESTRUCT :: byte where "OP_SELFDESTRUCT \<equiv> 0xFF"

subsection \<open>Operations\<close>

record 'tr operation =
  op_execute :: "'tr executionFunc"
  op_constantSmoke :: uint64
  op_dynamicSmoke :: "'tr smokeFunc option"
  op_minStack :: nat
  op_maxStack :: nat
  op_memorySize :: "memorySizeFunc option"
  op_halts :: bool
  op_jumps :: bool
  op_writes :: bool
  op_reverts :: bool
  op_returns :: bool

type_synonym 'tr JumpTable = "byte \<Rightarrow> 'tr operation option"

abbreviation maxStack :: "nat \<Rightarrow> nat \<Rightarrow> nat" where
  "maxStack pops push \<equiv> unat StackLimit + pops - push"

abbreviation minStack :: "nat \<Rightarrow> nat \<Rightarrow> nat" where
  "minStack pops push \<equiv> pops"

text \<open>An operation with a fixed price and its stack bounds; the fields that an entry leaves out are zero.\<close>

definition op_static :: "'tr executionFunc \<Rightarrow> uint64 \<Rightarrow> nat \<Rightarrow> nat \<Rightarrow> 'tr operation" where
  "op_static f c pops push =
    \<lparr>op_execute = f, op_constantSmoke = c, op_dynamicSmoke = None, op_minStack = minStack pops push, op_maxStack = maxStack pops push,
     op_memorySize = None, op_halts = False, op_jumps = False, op_writes = False, op_reverts = False, op_returns = False\<rparr>"

text \<open>A change of an operation that is in the table.\<close>

definition jt_update :: "('tr operation \<Rightarrow> 'tr operation) \<Rightarrow> byte \<Rightarrow> 'tr JumpTable \<Rightarrow> 'tr JumpTable" where
  "jt_update f b jt = jt(b := map_option f (jt b))"

subsection \<open>Frontier\<close>

definition frontier_arithmetic :: "(byte \<times> 'tr operation) list" where
  "frontier_arithmetic =
    [(OP_STOP, (op_static opStop 0 0 0)\<lparr>op_halts := True\<rparr>),
     (OP_ADD, op_static opAdd SmokeFastestStep 2 1),
     (OP_MUL, op_static opMul SmokeFastStep 2 1),
     (OP_SUB, op_static opSub SmokeFastestStep 2 1),
     (OP_DIV, op_static opDiv SmokeFastStep 2 1),
     (OP_SDIV, op_static opSdiv SmokeFastStep 2 1),
     (OP_MOD, op_static opMod SmokeFastStep 2 1),
     (OP_SMOD, op_static opSmod SmokeFastStep 2 1),
     (OP_ADDMOD, op_static opAddmod SmokeMidStep 3 1),
     (OP_MULMOD, op_static opMulmod SmokeMidStep 3 1),
     (OP_EXP, (op_static opExp 0 2 1)\<lparr>op_dynamicSmoke := Some smokeExpFrontier\<rparr>),
     (OP_SIGNEXTEND, op_static opSignExtend SmokeFastStep 2 1),
     (OP_LT, op_static opLt SmokeFastestStep 2 1),
     (OP_GT, op_static opGt SmokeFastestStep 2 1),
     (OP_SLT, op_static opSlt SmokeFastestStep 2 1),
     (OP_SGT, op_static opSgt SmokeFastestStep 2 1),
     (OP_EQ, op_static opEq SmokeFastestStep 2 1),
     (OP_ISZERO, op_static opIszero SmokeFastestStep 1 1),
     (OP_AND, op_static opAnd SmokeFastestStep 2 1),
     (OP_XOR, op_static opXor SmokeFastestStep 2 1),
     (OP_OR, op_static opOr SmokeFastestStep 2 1),
     (OP_NOT, op_static opNot SmokeFastestStep 1 1),
     (OP_BYTE, op_static opByte SmokeFastestStep 2 1)]"

definition frontier_environment :: "(byte \<times> 'tr operation) list" where
  "frontier_environment =
    [(OP_SHA3, (op_static opSha3 Sha3Smoke 2 1)\<lparr>op_dynamicSmoke := Some smokeSha3, op_memorySize := Some memorySha3\<rparr>),
     (OP_ADDRESS, op_static opAddress SmokeQuickStep 0 1),
     (OP_BALANCE, op_static opBalance BalanceSmokeFrontier 1 1),
     (OP_ORIGIN, op_static opOrigin SmokeQuickStep 0 1),
     (OP_CALLER, op_static opCaller SmokeQuickStep 0 1),
     (OP_CALLVALUE, op_static opCallValue SmokeQuickStep 0 1),
     (OP_CALLDATALOAD, op_static opCallDataLoad SmokeFastestStep 1 1),
     (OP_CALLDATASIZE, op_static opCallDataSize SmokeQuickStep 0 1),
     (OP_CALLDATACOPY, (op_static opCallDataCopy SmokeFastestStep 3 0)\<lparr>op_dynamicSmoke := Some smokeCallDataCopy, op_memorySize := Some memoryCallDataCopy\<rparr>),
     (OP_CODESIZE, op_static opCodeSize SmokeQuickStep 0 1),
     (OP_CODECOPY, (op_static opCodeCopy SmokeFastestStep 3 0)\<lparr>op_dynamicSmoke := Some smokeCodeCopy, op_memorySize := Some memoryCodeCopy\<rparr>),
     (OP_SMOKEPRICE, op_static opSmokeprice SmokeQuickStep 0 1),
     (OP_EXTCODESIZE, op_static opExtCodeSize ExtcodeSizeSmokeFrontier 1 1),
     (OP_EXTCODECOPY, (op_static opExtCodeCopy ExtcodeCopyBaseFrontier 4 0)\<lparr>op_dynamicSmoke := Some smokeExtCodeCopy, op_memorySize := Some memoryExtCodeCopy\<rparr>)]"

definition frontier_block :: "(byte \<times> 'tr operation) list" where
  "frontier_block =
    [(OP_BLOCKHASH, op_static opBlockhash SmokeExtStep 1 1),
     (OP_COINBASE, op_static opCoinbase SmokeQuickStep 0 1),
     (OP_TIMESTAMP, op_static opTimestamp SmokeQuickStep 0 1),
     (OP_NUMBER, op_static opNumber SmokeQuickStep 0 1),
     (OP_DIFFICULTY, op_static opDifficulty SmokeQuickStep 0 1),
     (OP_SMOKELIMIT, op_static opSmokeLimit SmokeQuickStep 0 1)]"

definition frontier_storage :: "(byte \<times> 'tr operation) list" where
  "frontier_storage =
    [(OP_POP, op_static opPop SmokeQuickStep 1 0),
     (OP_MLOAD, (op_static opMload SmokeFastestStep 1 1)\<lparr>op_dynamicSmoke := Some smokeMLoad, op_memorySize := Some memoryMLoad\<rparr>),
     (OP_MSTORE, (op_static opMstore SmokeFastestStep 2 0)\<lparr>op_dynamicSmoke := Some smokeMStore, op_memorySize := Some memoryMStore\<rparr>),
     (OP_MSTORE8, (op_static opMstore8 SmokeFastestStep 2 0)\<lparr>op_dynamicSmoke := Some smokeMStore8, op_memorySize := Some memoryMStore8\<rparr>),
     (OP_SLOAD, op_static opSload SloadSmokeFrontier 1 1),
     (OP_SSTORE, (op_static opSstore 0 2 0)\<lparr>op_dynamicSmoke := Some smokeSStore, op_writes := True\<rparr>),
     (OP_JUMP, (op_static opJump SmokeMidStep 1 0)\<lparr>op_jumps := True\<rparr>),
     (OP_JUMPI, (op_static opJumpi SmokeSlowStep 2 0)\<lparr>op_jumps := True\<rparr>),
     (OP_PC, op_static opPc SmokeQuickStep 0 1),
     (OP_MSIZE, op_static opMsize SmokeQuickStep 0 1),
     (OP_SMOKE, op_static opSmoke SmokeQuickStep 0 1),
     (OP_JUMPDEST, op_static opJumpdest JumpdestSmoke 0 0)]"

definition frontier_log :: "(byte \<times> 'tr operation) list" where
  "frontier_log =
    [(OP_LOG0, (op_static (makeLog 0) 0 2 0)\<lparr>op_dynamicSmoke := Some (makeSmokeLog 0), op_memorySize := Some memoryLog, op_writes := True\<rparr>),
     (OP_LOG1, (op_static (makeLog 1) 0 3 0)\<lparr>op_dynamicSmoke := Some (makeSmokeLog 1), op_memorySize := Some memoryLog, op_writes := True\<rparr>),
     (OP_LOG2, (op_static (makeLog 2) 0 4 0)\<lparr>op_dynamicSmoke := Some (makeSmokeLog 2), op_memorySize := Some memoryLog, op_writes := True\<rparr>),
     (OP_LOG3, (op_static (makeLog 3) 0 5 0)\<lparr>op_dynamicSmoke := Some (makeSmokeLog 3), op_memorySize := Some memoryLog, op_writes := True\<rparr>),
     (OP_LOG4, (op_static (makeLog 4) 0 6 0)\<lparr>op_dynamicSmoke := Some (makeSmokeLog 4), op_memorySize := Some memoryLog, op_writes := True\<rparr>)]"

definition frontier_system :: "(byte \<times> 'tr operation) list" where
  "frontier_system =
    [(OP_CREATE, (op_static opCreate CreateSmoke 3 1)\<lparr>op_dynamicSmoke := Some smokeCreate, op_memorySize := Some memoryCreate, op_writes := True, op_returns := True\<rparr>),
     (OP_CALL, (op_static opCall CallSmokeFrontier 7 1)\<lparr>op_dynamicSmoke := Some smokeCall, op_memorySize := Some memoryCall, op_returns := True\<rparr>),
     (OP_CALLCODE, (op_static opCallCode CallSmokeFrontier 7 1)\<lparr>op_dynamicSmoke := Some smokeCallCode, op_memorySize := Some memoryCall, op_returns := True\<rparr>),
     (OP_RETURN, (op_static opReturn 0 2 0)\<lparr>op_dynamicSmoke := Some smokeReturn, op_memorySize := Some memoryReturn, op_halts := True\<rparr>),
     (OP_SELFDESTRUCT, (op_static opSuicide 0 1 0)\<lparr>op_dynamicSmoke := Some smokeSelfdestruct, op_halts := True, op_writes := True\<rparr>)]"


definition frontier_push :: "(byte \<times> 'tr operation) list" where
  "frontier_push =
    (OP_PUSH1, op_static opPush1 SmokeFastestStep 0 1) #
    map (\<lambda>n. (0x5F + word_of_nat n, op_static (makePush (word_of_nat n) n) SmokeFastestStep 0 1)) [2..<33]"

definition frontier_dup :: "(byte \<times> 'tr operation) list" where
  "frontier_dup = map (\<lambda>n. (0x7F + word_of_nat n, op_static (makeDup n) SmokeFastestStep n (n + 1))) [1..<17]"

definition frontier_swap :: "(byte \<times> 'tr operation) list" where
  "frontier_swap = map (\<lambda>n. (0x8F + word_of_nat n, op_static (makeSwap n) SmokeFastestStep (n + 1) (n + 1))) [1..<17]"

definition newFrontierInstructionSet :: "'tr JumpTable" where
  "newFrontierInstructionSet =
    map_of (frontier_arithmetic @ frontier_environment @ frontier_block @ frontier_storage @
            frontier_push @ frontier_dup @ frontier_swap @ frontier_log @ frontier_system)"

subsection \<open>Later forks\<close>

definition newHomesteadInstructionSet :: "'tr JumpTable" where
  "newHomesteadInstructionSet =
    newFrontierInstructionSet
      (OP_DELEGATECALL \<mapsto> (op_static opDelegateCall CallSmokeFrontier 6 1)
         \<lparr>op_dynamicSmoke := Some smokeDelegateCall, op_memorySize := Some memoryDelegateCall, op_returns := True\<rparr>)"

definition set_constant :: "uint64 \<Rightarrow> byte \<Rightarrow> 'tr JumpTable \<Rightarrow> 'tr JumpTable" where
  "set_constant c = jt_update (\<lambda>p. p\<lparr>op_constantSmoke := c\<rparr>)"

definition set_dynamic :: "'tr smokeFunc \<Rightarrow> byte \<Rightarrow> 'tr JumpTable \<Rightarrow> 'tr JumpTable" where
  "set_dynamic f = jt_update (\<lambda>p. p\<lparr>op_dynamicSmoke := Some f\<rparr>)"

definition newTangerineWhistleInstructionSet :: "'tr JumpTable" where
  "newTangerineWhistleInstructionSet =
    set_constant CallSmokeEIP150 OP_DELEGATECALL
      (set_constant CallSmokeEIP150 OP_CALLCODE
      (set_constant CallSmokeEIP150 OP_CALL
      (set_constant ExtcodeCopyBaseEIP150 OP_EXTCODECOPY
      (set_constant SloadSmokeEIP150 OP_SLOAD
      (set_constant ExtcodeSizeSmokeEIP150 OP_EXTCODESIZE
      (set_constant BalanceSmokeEIP150 OP_BALANCE newHomesteadInstructionSet))))))"

definition newSpuriousDragonInstructionSet :: "'tr JumpTable" where
  "newSpuriousDragonInstructionSet = set_dynamic smokeExpEIP158 OP_EXP newTangerineWhistleInstructionSet"

definition newByzantiumInstructionSet :: "'tr JumpTable" where
  "newByzantiumInstructionSet =
    newSpuriousDragonInstructionSet
      (OP_STATICCALL \<mapsto> (op_static opStaticCall CallSmokeEIP150 6 1)
         \<lparr>op_dynamicSmoke := Some smokeStaticCall, op_memorySize := Some memoryStaticCall, op_returns := True\<rparr>,
       OP_RETURNDATASIZE \<mapsto> op_static opReturnDataSize SmokeQuickStep 0 1,
       OP_RETURNDATACOPY \<mapsto> (op_static opReturnDataCopy SmokeFastestStep 3 0)
         \<lparr>op_dynamicSmoke := Some smokeReturnDataCopy, op_memorySize := Some memoryReturnDataCopy\<rparr>,
       OP_REVERT \<mapsto> (op_static opRevert 0 2 0)
         \<lparr>op_dynamicSmoke := Some smokeRevert, op_memorySize := Some memoryRevert, op_reverts := True, op_returns := True\<rparr>)"

definition newConstantinopleInstructionSet :: "'tr JumpTable" where
  "newConstantinopleInstructionSet =
    newByzantiumInstructionSet
      (OP_SHL \<mapsto> op_static opSHL SmokeFastestStep 2 1,
       OP_SHR \<mapsto> op_static opSHR SmokeFastestStep 2 1,
       OP_SAR \<mapsto> op_static opSAR SmokeFastestStep 2 1,
       OP_EXTCODEHASH \<mapsto> op_static opExtCodeHash ExtcodeHashSmokeConstantinople 1 1,
       OP_CREATE2 \<mapsto> (op_static opCreate2 Create2Smoke 4 1)
         \<lparr>op_dynamicSmoke := Some smokeCreate2, op_memorySize := Some memoryCreate2, op_writes := True, op_returns := True\<rparr>)"

definition enable1344 :: "'tr JumpTable \<Rightarrow> 'tr JumpTable" where
  "enable1344 jt = jt(OP_CHAINID \<mapsto> op_static opChainID SmokeQuickStep 0 1)"

definition enable1884 :: "'tr JumpTable \<Rightarrow> 'tr JumpTable" where
  "enable1884 jt =
    (set_constant ExtcodeHashSmokeEIP1884 OP_EXTCODEHASH
      (set_constant BalanceSmokeEIP1884 OP_BALANCE
      (set_constant SloadSmokeEIP1884 OP_SLOAD jt)))
      (OP_SELFBALANCE \<mapsto> op_static opSelfBalance SmokeFastStep 0 1)"

definition enable2200 :: "'tr JumpTable \<Rightarrow> 'tr JumpTable" where
  "enable2200 jt = set_dynamic smokeSStoreEIP2200 OP_SSTORE (set_constant SloadSmokeEIP2200 OP_SLOAD jt)"

definition newIstanbulInstructionSet :: "'tr JumpTable" where
  "newIstanbulInstructionSet = enable2200 (enable1884 (enable1344 newConstantinopleInstructionSet))"

definition enable2315 :: "'tr JumpTable \<Rightarrow> 'tr JumpTable" where
  "enable2315 jt =
    jt(OP_BEGINSUB \<mapsto> op_static opBeginSub SmokeQuickStep 0 0,
       OP_JUMPSUB \<mapsto> (op_static opJumpSub SmokeSlowStep 1 0)\<lparr>op_jumps := True\<rparr>,
       OP_RETURNSUB \<mapsto> (op_static opReturnSub SmokeFastStep 0 0)\<lparr>op_jumps := True\<rparr>)"

text \<open>A new price of both kinds.\<close>

definition set_prices :: "uint64 \<Rightarrow> 'tr smokeFunc \<Rightarrow> byte \<Rightarrow> 'tr JumpTable \<Rightarrow> 'tr JumpTable" where
  "set_prices c f b jt = set_dynamic f b (set_constant c b jt)"

definition enable2929 :: "'tr JumpTable \<Rightarrow> 'tr JumpTable" where
  "enable2929 jt =
    set_prices SelfdestructSmokeEIP150 smokeSelfdestructEIP2929 OP_SELFDESTRUCT
      (set_prices WarmStorageReadCostEIP2929 smokeDelegateCallEIP2929 OP_DELEGATECALL
      (set_prices WarmStorageReadCostEIP2929 smokeStaticCallEIP2929 OP_STATICCALL
      (set_prices WarmStorageReadCostEIP2929 smokeCallCodeEIP2929 OP_CALLCODE
      (set_prices WarmStorageReadCostEIP2929 smokeCallEIP2929 OP_CALL
      (set_prices WarmStorageReadCostEIP2929 smokeEip2929AccountCheck OP_BALANCE
      (set_prices WarmStorageReadCostEIP2929 smokeEip2929AccountCheck OP_EXTCODEHASH
      (set_prices WarmStorageReadCostEIP2929 smokeEip2929AccountCheck OP_EXTCODESIZE
      (set_prices WarmStorageReadCostEIP2929 smokeExtCodeCopyEIP2929 OP_EXTCODECOPY
      (set_prices 0 smokeSLoadEIP2929 OP_SLOAD
      (set_dynamic smokeSStoreEIP2929 OP_SSTORE jt))))))))))"

definition newYoloV2InstructionSet :: "'tr JumpTable" where
  "newYoloV2InstructionSet = enable2929 (enable2315 newIstanbulInstructionSet)"

subsection \<open>The table of a machine\<close>

definition interpreter_table :: "Rules \<Rightarrow> 'tr JumpTable" where
  "interpreter_table rules =
    (if r_IsYoloV2 rules then newYoloV2InstructionSet
     else if r_IsIstanbul rules then newIstanbulInstructionSet
     else if r_IsConstantinople rules then newConstantinopleInstructionSet
     else if r_IsByzantium rules then newByzantiumInstructionSet
     else if r_IsEIP158 rules then newSpuriousDragonInstructionSet
     else if r_IsEIP150 rules then newTangerineWhistleInstructionSet
     else if r_IsHomestead rules then newHomesteadInstructionSet
     else newFrontierInstructionSet)"

end
