(* ===== verification/Evm_Interpreter.thy ===== *)
theory Evm_Interpreter
  imports Evm_JumpTable
begin

section \<open>The interpreter\<close>

text \<open>
  \<open>Run\<close> of \<open>src/core/vm/interpreter.go\<close>: one turn of the loop, the loop, and the frame around
  it. The loop has fuel, and so has the nesting of frames; the number of turns is bounded by the
  smoke of the frame, and the nesting by the call depth. Tracing and the flag that aborts a
  machine from outside are left out. \<open>None\<close> is a panic or missing fuel.
\<close>

subsection \<open>One turn of the loop\<close>

text \<open>A turn ends the frame with a result, or goes on with a new frame and state.\<close>

datatype 'tr turn =
    Exit bytes "vm_err option" callCtx "'tr StateDB"
  | Next callCtx "'tr StateDB"

text \<open>The checks of the stack and of the write protection.\<close>

definition op_checks :: "'tr EVMInterpreter \<Rightarrow> byte \<Rightarrow> 'tr operation \<Rightarrow> callCtx \<Rightarrow> vm_err option option" where
  "op_checks i b operation ctx =
    (let sLen = length (f_stack ctx) in
     if sLen < op_minStack operation then Some (Some (ErrStackUnderflow sLen (op_minStack operation)))
     else if op_maxStack operation < sLen then Some (Some (ErrStackOverflow sLen (op_maxStack operation)))
     else if evm_readOnly (in_evm i) \<and> r_IsByzantium (evm_chainRules (in_evm i))
     then if op_writes operation then Some (Some ErrWriteProtection)
          else if b = OP_CALL
          then do { v \<leftarrow> Back 2 ctx; Some (if u_Sign (in_u256 i) v \<noteq> 0 then Some ErrWriteProtection else None) }
          else Some None
     else Some None)"

text \<open>The memory that the operation needs, in whole words.\<close>

definition op_memory :: "'tr EVMInterpreter \<Rightarrow> 'tr operation \<Rightarrow> callCtx \<Rightarrow> (vm_err + uint64) option" where
  "op_memory i operation ctx =
    (case op_memorySize operation of
       None \<Rightarrow> Some (Inr 0)
     | Some f \<Rightarrow>
         do { (memSize, overflow) \<leftarrow> f (in_u256 i) (f_stack ctx);
              if overflow then Some (Inl ErrSmokeUintOverflow)
              else let (memorySize, overflow) = SafeMul (toWordSize memSize) 32
                   in if overflow then Some (Inl ErrSmokeUintOverflow) else Some (Inr memorySize) })"

text \<open>The dynamic part of the price.\<close>

definition op_charge ::
  "'tr EVMInterpreter \<Rightarrow> 'tr operation \<Rightarrow> uint64 \<Rightarrow> callCtx \<Rightarrow> 'tr StateDB \<Rightarrow> (bool \<times> callCtx \<times> 'tr StateDB) option" where
  "op_charge i operation memorySize ctx s =
    (case op_dynamicSmoke operation of
       None \<Rightarrow> Some (True, ctx, s)
     | Some f \<Rightarrow>
         do { (r, ctx, s) \<leftarrow> f i memorySize ctx s;
              case r of
                Inl err \<Rightarrow> Some (False, ctx, s)
              | Inr dynamicCost \<Rightarrow>
                  (let (ok, contract) = UseSmoke dynamicCost (f_contract ctx) in Some (ok, ctx\<lparr>f_contract := contract\<rparr>, s)) })"

text \<open>The execution of the operation and what follows it.\<close>

definition op_finish :: "'tr EVMInterpreter \<Rightarrow> 'tr operation \<Rightarrow> callCtx \<Rightarrow> 'tr StateDB \<Rightarrow> 'tr turn option" where
  "op_finish i operation ctx s =
    do { (res, err, ctx, s) \<leftarrow> op_execute operation i ctx s;
         let ctx = (if op_returns operation then ctx\<lparr>f_returnData := res\<rparr> else ctx) in
         Some (if err \<noteq> None then Exit [] err ctx s
               else if op_reverts operation then Exit res (Some ErrExecutionReverted) ctx s
               else if op_halts operation then Exit res None ctx s
               else Next (if \<not> op_jumps operation then ctx\<lparr>f_pc := f_pc ctx + 1\<rparr> else ctx) s) }"

definition op_run :: "'tr EVMInterpreter \<Rightarrow> 'tr operation \<Rightarrow> uint64 \<Rightarrow> callCtx \<Rightarrow> 'tr StateDB \<Rightarrow> 'tr turn option" where
  "op_run i operation memorySize ctx s =
    do { (ok, ctx, s) \<leftarrow> op_charge i operation memorySize ctx s;
         if \<not> ok then Some (Exit [] (Some ErrOutOfSmoke) ctx s)
         else let ctx = (if 0 < memorySize then ctx\<lparr>f_memory := mem_Resize memorySize (f_memory ctx)\<rparr> else ctx)
              in op_finish i operation ctx s }"

definition turn_operation ::
  "'tr EVMInterpreter \<Rightarrow> byte \<Rightarrow> 'tr operation \<Rightarrow> callCtx \<Rightarrow> 'tr StateDB \<Rightarrow> 'tr turn option" where
  "turn_operation i b operation ctx s =
    do { check \<leftarrow> op_checks i b operation ctx;
         case check of
           Some err \<Rightarrow> Some (Exit [] (Some err) ctx s)
         | None \<Rightarrow>
             (let (ok, contract) = UseSmoke (op_constantSmoke operation) (f_contract ctx); ctx = ctx\<lparr>f_contract := contract\<rparr> in
              if \<not> ok then Some (Exit [] (Some ErrOutOfSmoke) ctx s)
              else do { m \<leftarrow> op_memory i operation ctx;
                case m of
                  Inl err \<Rightarrow> Some (Exit [] (Some err) ctx s)
                | Inr memorySize \<Rightarrow> op_run i operation memorySize ctx s }) }"

definition turn :: "'tr JumpTable \<Rightarrow> 'tr EVMInterpreter \<Rightarrow> callCtx \<Rightarrow> 'tr StateDB \<Rightarrow> 'tr turn option" where
  "turn jt i ctx s =
    (let b = GetOp (f_pc ctx) (f_contract ctx) in
     case jt b of
       None \<Rightarrow> Some (Exit [] (Some (ErrInvalidOpCode b)) ctx s)
     | Some operation \<Rightarrow> turn_operation i b operation ctx s)"

subsection \<open>The loop and its frame\<close>

primrec run_loop ::
  "nat \<Rightarrow> 'tr JumpTable \<Rightarrow> 'tr EVMInterpreter \<Rightarrow> callCtx \<Rightarrow> 'tr StateDB \<Rightarrow> (bytes \<times> vm_err option \<times> uint64 \<times> 'tr StateDB) option" where
  "run_loop 0 jt i ctx s = None"
| "run_loop (Suc n) jt i ctx s =
    do { t \<leftarrow> turn jt i ctx s;
         case t of
           Exit res err ctx s \<Rightarrow> Some (res, err, c_Smoke (f_contract ctx), s)
         | Next ctx s \<Rightarrow> run_loop n jt i ctx s }"

definition new_frame :: "Contract \<Rightarrow> bytes \<Rightarrow> callCtx" where
  "new_frame contract input =
    \<lparr>f_pc = 0, f_memory = NewMemory, f_stack = [], f_rstack = [], f_contract = contract\<lparr>c_Input := input\<rparr>,
     f_returnData = [], f_callSmokeTemp = 0\<rparr>"

definition frame_evm :: "EVM \<Rightarrow> bool \<Rightarrow> EVM" where
  "frame_evm evm readOnly = evm\<lparr>evm_depth := evm_depth evm + 1, evm_readOnly := readOnly \<or> evm_readOnly evm\<rparr>"

primrec Run :: "nat \<Rightarrow> (bytes \<Rightarrow> hash) \<Rightarrow> 'tr database \<Rightarrow> uint256 \<Rightarrow> 'tr interpreter" where
  "Run 0 K db U evm contract input readOnly s = None"
| "Run (Suc d) K db U evm contract input readOnly s =
    (if length (c_Code contract) = 0 then Some ([], None, c_Smoke contract, s)
     else run_loop (unat (c_Smoke contract) + 1) (interpreter_table (evm_chainRules evm))
            \<lparr>in_evm = frame_evm evm readOnly, in_keccak = K, in_db = db, in_u256 = U, in_nested = Run d K db U\<rparr>
            (new_frame contract input) s)"

text \<open>The interpreter of a machine: the call depth bounds the nesting.\<close>

definition evm_interpreter :: "(bytes \<Rightarrow> hash) \<Rightarrow> 'tr database \<Rightarrow> uint256 \<Rightarrow> 'tr interpreter" where
  "evm_interpreter = Run (CallCreateDepth + 1)"

end
