(* ===== verification/Evm_Frames.thy ===== *)
theory Evm_Frames
  imports Evm_Contract Evm_Interpreter
begin

section \<open>Frames of the interpreter\<close>

text \<open>
  What an instruction and its price have to do for a turn of the loop to be sound: not panic,
  keep the frame well-formed, and pay for what they give back. There are four kinds of
  operations: plain ones, storage writes, self-destruction, and calls and creations. A turn
  with an operation of one of these kinds either ends the frame or goes on with less smoke.
\<close>

subsection \<open>Well-formed frames\<close>

definition MaxMemory :: nat where
  "MaxMemory = 0x1FFFFFFFE0"

definition machine :: "(bytes \<Rightarrow> hash) \<Rightarrow> 'tr database \<Rightarrow> ('tr \<Rightarrow> bool) \<Rightarrow> address set \<Rightarrow> 'tr EVMInterpreter \<Rightarrow> bool" where
  "machine K db good A i \<longleftrightarrow> in_keccak i = K \<and> in_db i = db \<and> uint256_ok (in_u256 i) \<and> evm_ChainID (in_evm i) \<noteq> None \<and>
    {a. length a = 20} \<subseteq> A \<and> finite A \<and>
    (evm_depth (in_evm i) \<le> CallCreateDepth \<longrightarrow> run_good K db good A (in_nested i) (in_evm i))"

text \<open>Nothing of a frame but its contract, memory size and stack matters for its being well-formed.\<close>

definition contract_ok :: "Contract \<Rightarrow> bool" where
  "contract_ok c \<longleftrightarrow> c_value c \<noteq> None \<and> length (c_Code c) < 2 ^ 63 \<and> length (c_Input c) < 2 ^ 63"

definition ready :: "(bytes \<Rightarrow> hash) \<Rightarrow> 'tr database \<Rightarrow> ('tr \<Rightarrow> bool) \<Rightarrow> address set \<Rightarrow> 'tr EVMInterpreter \<Rightarrow> callCtx \<Rightarrow> 'tr StateDB \<Rightarrow> bool" where
  "ready K db good A i ctx s \<longleftrightarrow> machine K db good A i \<and> runs_as K db A (in_evm i) (ctx_Address ctx) s \<and> contract_ok (f_contract ctx) \<and>
    length (m_store (f_memory ctx)) \<le> MaxMemory \<and> sound K db good A s"

abbreviation ctx_smoke :: "callCtx \<Rightarrow> uint64" where
  "ctx_smoke ctx \<equiv> c_Smoke (f_contract ctx)"

abbreviation mem_len :: "callCtx \<Rightarrow> nat" where
  "mem_len ctx \<equiv> length (m_store (f_memory ctx))"

text \<open>The memory holds what the memory size function asks for.\<close>

definition covered :: "uint256 \<Rightarrow> memorySizeFunc option \<Rightarrow> callCtx \<Rightarrow> bool" where
  "covered U mf ctx \<longleftrightarrow> (\<forall>f. mf = Some f \<longrightarrow> (\<exists>sz. f U (f_stack ctx) = Some (sz, False) \<and> unat sz \<le> mem_len ctx))"

definition mem_total :: "nat \<Rightarrow> memorySizeFunc option \<Rightarrow> bool" where
  "mem_total p mf \<longleftrightarrow> (\<forall>f. mf = Some f \<longrightarrow> (\<forall>U st. p \<le> length st \<longrightarrow> f U st \<noteq> None))"

definition same_shape :: "callCtx \<Rightarrow> callCtx \<Rightarrow> bool" where
  "same_shape ctx ctx' \<longleftrightarrow> f_stack ctx' = f_stack ctx \<and> m_store (f_memory ctx') = m_store (f_memory ctx) \<and>
    (\<exists>g. f_contract ctx' = (f_contract ctx)\<lparr>c_Smoke := g\<rparr>)"

subsection \<open>Instructions\<close>

definition exec_post ::
  "(bytes \<Rightarrow> hash) \<Rightarrow> 'tr database \<Rightarrow> address set \<Rightarrow> nat \<Rightarrow> nat \<Rightarrow> callCtx \<Rightarrow> 'tr StateDB \<Rightarrow> bytes \<times> vm_err option \<times> callCtx \<times> 'tr StateDB \<Rightarrow> bool" where
  "exec_post K db A p q ctx s r \<longleftrightarrow> (case r of (res, err, ctx', s') \<Rightarrow>
    calm K db A s s' \<and> f_contract ctx' = f_contract ctx \<and> mem_len ctx' = mem_len ctx \<and>
    (err = None \<longrightarrow> length (f_stack ctx') + p \<le> length (f_stack ctx) + q) \<and> length res < 2 ^ 63 \<and> err \<noteq> Some ErrCodeStoreOutOfSmoke)"

definition plain_exec ::
  "(bytes \<Rightarrow> hash) \<Rightarrow> 'tr database \<Rightarrow> ('tr \<Rightarrow> bool) \<Rightarrow> address set \<Rightarrow> nat \<Rightarrow> nat \<Rightarrow> memorySizeFunc option \<Rightarrow> 'tr executionFunc \<Rightarrow> bool" where
  "plain_exec K db good A p q mf f \<longleftrightarrow>
    (\<forall>i ctx s. ready K db good A i ctx s \<longrightarrow> p \<le> length (f_stack ctx) \<longrightarrow> covered (in_u256 i) mf ctx \<longrightarrow>
      (\<exists>r. f i ctx s = Some r \<and> exec_post K db A p q ctx s r))"

text \<open>The smoke that a nested call gets, beyond what is left in the frame.\<close>

definition call_exec ::
  "(bytes \<Rightarrow> hash) \<Rightarrow> 'tr database \<Rightarrow> ('tr \<Rightarrow> bool) \<Rightarrow> address set \<Rightarrow> nat \<Rightarrow> nat \<Rightarrow> memorySizeFunc option \<Rightarrow>
    (uint256 \<Rightarrow> callCtx \<Rightarrow> nat) \<Rightarrow> ('tr EVMInterpreter \<Rightarrow> callCtx \<Rightarrow> 'tr StateDB \<Rightarrow> bool) \<Rightarrow> 'tr executionFunc \<Rightarrow> bool" where
  "call_exec K db good A p q mf ext pre f \<longleftrightarrow>
    (\<forall>i ctx s. ready K db good A i ctx s \<longrightarrow> p \<le> length (f_stack ctx) \<longrightarrow> covered (in_u256 i) mf ctx \<longrightarrow> pre i ctx s \<longrightarrow>
      unat (sd_refund s) + 65536 * (unat (ctx_smoke ctx) + ext (in_u256 i) ctx) + 24000 < 2 ^ 64 \<longrightarrow>
      (\<exists>res ctx' s' g. f i ctx s = Some (res, None, ctx', s') \<and> steps K db A s s' \<and> no_mint K db A s s' \<and>
        grows (view K db A s) (view K db A s') \<and> refund_covers (view K db A s') \<and> short_codes (view K db A s') \<and>
        f_contract ctx' = (f_contract ctx)\<lparr>c_Smoke := g\<rparr> \<and> mem_len ctx' = mem_len ctx \<and>
        length (f_stack ctx') + p \<le> length (f_stack ctx) + q \<and> unat g \<le> unat (ctx_smoke ctx) + ext (in_u256 i) ctx \<and>
        unat (sd_refund s') + 65536 * unat g \<le> unat (sd_refund s) + 65536 * (unat (ctx_smoke ctx) + ext (in_u256 i) ctx) + 24000))"

subsection \<open>Prices\<close>

definition plain_dyn ::
  "(bytes \<Rightarrow> hash) \<Rightarrow> 'tr database \<Rightarrow> ('tr \<Rightarrow> bool) \<Rightarrow> address set \<Rightarrow> nat \<Rightarrow> bool \<Rightarrow> nat \<Rightarrow> 'tr smokeFunc \<Rightarrow> bool" where
  "plain_dyn K db good A p mem lb f \<longleftrightarrow>
    (\<forall>i msize ctx s. ready K db good A i ctx s \<longrightarrow> p \<le> length (f_stack ctx) \<longrightarrow>
      (\<exists>r ctx' s'. f i msize ctx s = Some (r, ctx', s') \<and> calm K db A s s' \<and> same_shape ctx ctx' \<and> f_contract ctx' = f_contract ctx \<and>
        (\<forall>c. r = Inr c \<longrightarrow> lb \<le> unat c \<and> (mem \<longrightarrow> unat msize \<le> MaxMemory))))"

definition call_dyn ::
  "(bytes \<Rightarrow> hash) \<Rightarrow> 'tr database \<Rightarrow> ('tr \<Rightarrow> bool) \<Rightarrow> address set \<Rightarrow> nat \<Rightarrow>
    (uint256 \<Rightarrow> callCtx \<Rightarrow> nat) \<Rightarrow> ('tr EVMInterpreter \<Rightarrow> callCtx \<Rightarrow> 'tr StateDB \<Rightarrow> bool) \<Rightarrow> bool \<Rightarrow> 'tr smokeFunc \<Rightarrow> bool" where
  "call_dyn K db good A p ext pre y f \<longleftrightarrow>
    (\<forall>i msize ctx s. ready K db good A i ctx s \<longrightarrow> p \<le> length (f_stack ctx) \<longrightarrow> r_IsYoloV2 (evm_chainRules (in_evm i)) = y \<longrightarrow>
      (\<exists>r ctx' s'. f i msize ctx s = Some (r, ctx', s') \<and> calm K db A s s' \<and> same_shape ctx ctx' \<and> ctx_smoke ctx' \<le> ctx_smoke ctx \<and>
        (\<forall>c. r = Inr c \<longrightarrow> ext (in_u256 i) ctx' \<le> unat c \<and> unat msize \<le> MaxMemory \<and> pre i ctx' s')))"

text \<open>The slots that are cleared after a write.\<close>

definition cleared_after :: "state_view \<Rightarrow> address \<Rightarrow> hash \<Rightarrow> hash \<Rightarrow> (address \<times> hash) set" where
  "cleared_after v a k val =
    (if val = zero_hash \<and> (\<exists>ob. v_live v a = Some ob \<and> ov_committed ob k \<noteq> Some zero_hash) then insert (a, k) (cleared v)
     else cleared v - {(a, k)})"

definition store_dyn :: "(bytes \<Rightarrow> hash) \<Rightarrow> 'tr database \<Rightarrow> ('tr \<Rightarrow> bool) \<Rightarrow> address set \<Rightarrow> bool \<Rightarrow> 'tr smokeFunc \<Rightarrow> bool" where
  "store_dyn K db good A y f \<longleftrightarrow>
    (\<forall>i msize ctx s k val st. ready K db good A i ctx s \<longrightarrow> f_stack ctx = k # val # st \<longrightarrow> r_IsYoloV2 (evm_chainRules (in_evm i)) = y \<longrightarrow>
      unat (sd_refund s) + 24000 < 2 ^ 64 \<longrightarrow>
      (\<exists>r s'. f i msize ctx s = Some (r, ctx, s') \<and> steps K db A s s' \<and>
        (\<forall>c. r = Inr c \<longrightarrow> 1 \<le> unat c \<and> unat (sd_refund s') \<le> unat (sd_refund s) + 65536 * unat c \<and>
          same_bal K db A s s' \<and> grows (view K db A s) (view K db A s') \<and> short_codes (view K db A s') \<and> finite (cleared (view K db A s')) \<and>
          15000 * card (cleared_after (view K db A s') (ctx_Address ctx) (u_Bytes32 (in_u256 i) k) (u_Bytes32 (in_u256 i) val)) \<le> unat (sd_refund s'))))"

definition suicide_dyn :: "(bytes \<Rightarrow> hash) \<Rightarrow> 'tr database \<Rightarrow> ('tr \<Rightarrow> bool) \<Rightarrow> address set \<Rightarrow> 'tr smokeFunc \<Rightarrow> bool" where
  "suicide_dyn K db good A f \<longleftrightarrow>
    (\<forall>i msize ctx s. ready K db good A i ctx s \<longrightarrow> 1 \<le> length (f_stack ctx) \<longrightarrow> unat (sd_refund s) + 24000 < 2 ^ 64 \<longrightarrow>
      (\<exists>c s'. f i msize ctx s = Some (Inr c, ctx, s') \<and> steps K db A s s' \<and> same_bal K db A s s' \<and>
        grows (view K db A s) (view K db A s') \<and> refund_covers (view K db A s') \<and> short_codes (view K db A s') \<and>
        unat (sd_refund s') \<le> unat (sd_refund s) + 24000))"

subsection \<open>Operations\<close>

definition plain_op :: "(bytes \<Rightarrow> hash) \<Rightarrow> 'tr database \<Rightarrow> ('tr \<Rightarrow> bool) \<Rightarrow> address set \<Rightarrow> 'tr operation \<Rightarrow> bool" where
  "plain_op K db good A p \<longleftrightarrow>
    (\<exists>q. op_maxStack p + q = 1024 + op_minStack p \<and> plain_exec K db good A (op_minStack p) q (op_memorySize p) (op_execute p)) \<and>
    mem_total (op_minStack p) (op_memorySize p) \<and>
    (case op_dynamicSmoke p of
       None \<Rightarrow> op_memorySize p = None \<and> (op_constantSmoke p \<noteq> 0 \<or> op_halts p \<or> op_reverts p)
     | Some f \<Rightarrow> \<exists>lb. plain_dyn K db good A (op_minStack p) (op_memorySize p \<noteq> None) lb f \<and>
         (lb \<noteq> 0 \<or> op_constantSmoke p \<noteq> 0 \<or> op_halts p \<or> op_reverts p))"

definition call_op :: "(bytes \<Rightarrow> hash) \<Rightarrow> 'tr database \<Rightarrow> ('tr \<Rightarrow> bool) \<Rightarrow> address set \<Rightarrow> bool \<Rightarrow> 'tr operation \<Rightarrow> bool" where
  "call_op K db good A y p \<longleftrightarrow>
    (\<exists>q ext pre f. op_maxStack p + q = 1024 + op_minStack p \<and> op_dynamicSmoke p = Some f \<and>
      (\<forall>U ctx ctx'. f_stack ctx' = f_stack ctx \<longrightarrow> f_callSmokeTemp ctx' = f_callSmokeTemp ctx \<longrightarrow> ext U ctx' = ext U ctx) \<and>
      (\<forall>i ctx ctx' s. f_stack ctx' = f_stack ctx \<longrightarrow> pre i ctx' s = pre i ctx s) \<and>
      call_exec K db good A (op_minStack p) q (op_memorySize p) ext pre (op_execute p) \<and>
      call_dyn K db good A (op_minStack p) ext pre y f) \<and>
    mem_total (op_minStack p) (op_memorySize p) \<and> op_memorySize p \<noteq> None \<and> op_constantSmoke p \<noteq> 0 \<and> \<not> op_halts p \<and> \<not> op_reverts p"

definition store_op :: "(bytes \<Rightarrow> hash) \<Rightarrow> 'tr database \<Rightarrow> ('tr \<Rightarrow> bool) \<Rightarrow> address set \<Rightarrow> bool \<Rightarrow> 'tr operation \<Rightarrow> bool" where
  "store_op K db good A y p \<longleftrightarrow> op_execute p = opSstore \<and> op_minStack p = 2 \<and> op_maxStack p = 1026 \<and> op_memorySize p = None \<and>
    (\<exists>f. op_dynamicSmoke p = Some f \<and> store_dyn K db good A y f) \<and> \<not> op_halts p \<and> \<not> op_reverts p"

definition suicide_op :: "(bytes \<Rightarrow> hash) \<Rightarrow> 'tr database \<Rightarrow> ('tr \<Rightarrow> bool) \<Rightarrow> address set \<Rightarrow> 'tr operation \<Rightarrow> bool" where
  "suicide_op K db good A p \<longleftrightarrow> plain_exec K db good A 1 0 None (op_execute p) \<and> op_minStack p = 1 \<and> op_maxStack p = 1025 \<and> op_memorySize p = None \<and>
    (\<exists>f. op_dynamicSmoke p = Some f \<and> suicide_dyn K db good A f) \<and> op_halts p"

definition good_op :: "(bytes \<Rightarrow> hash) \<Rightarrow> 'tr database \<Rightarrow> ('tr \<Rightarrow> bool) \<Rightarrow> address set \<Rightarrow> bool \<Rightarrow> byte \<Rightarrow> 'tr operation \<Rightarrow> bool" where
  "good_op K db good A y b p \<longleftrightarrow> (b = OP_CALL \<longrightarrow> 3 \<le> op_minStack p) \<and>
    (plain_op K db good A p \<or> call_op K db good A y p \<or> store_op K db good A y p \<or> suicide_op K db good A p)"

subsection \<open>Turns\<close>

definition turn_good ::
  "(bytes \<Rightarrow> hash) \<Rightarrow> 'tr database \<Rightarrow> ('tr \<Rightarrow> bool) \<Rightarrow> address set \<Rightarrow> 'tr EVMInterpreter \<Rightarrow> callCtx \<Rightarrow> 'tr StateDB \<Rightarrow> 'tr turn \<Rightarrow> bool" where
  "turn_good K db good A i ctx s t \<longleftrightarrow>
    (case t of
       Exit res err ctx' s' \<Rightarrow> body_post K db A s (ctx_smoke ctx) err (ctx_smoke ctx') s' \<and>
         (err = None \<longrightarrow> length res < 2 ^ 63) \<and> err \<noteq> Some ErrCodeStoreOutOfSmoke
     | Next ctx' s' \<Rightarrow> steps K db A s s' \<and> no_mint K db A s s' \<and> grows (view K db A s) (view K db A s') \<and>
         ready K db good A i ctx' s' \<and> length (f_stack ctx') \<le> 1024 \<and> ctx_smoke ctx' < ctx_smoke ctx \<and>
         pot s' (ctx_smoke ctx') \<le> pot s (ctx_smoke ctx))"

lemma unat_sub_le: "b \<le> a \<Longrightarrow> unat (a - b) = unat a - unat (b :: 'a :: len word)"
  by (simp add: unat_sub word_le_nat_alt)

lemma word_sub_less:
  assumes "b \<le> (a :: 'a :: len word)"
  shows "a - b \<le> a" "b \<noteq> 0 \<Longrightarrow> a - b < a"
  using assms unat_gt_0 [of b] by (simp_all add: word_le_nat_alt word_less_nat_alt unat_sub_le)

lemma UseSmoke_cases:
  obtains "UseSmoke n c = (False, c)" "c_Smoke c < n" | "UseSmoke n c = (True, c\<lparr>c_Smoke := c_Smoke c - n\<rparr>)" "n \<le> c_Smoke c"
  by (cases "c_Smoke c < n") (auto simp: UseSmoke_def)

text \<open>The memory size in whole words.\<close>

lemma word_size_covers:
  assumes "SafeMul (toWordSize sz) 32 = (msize, False)"
  shows "unat sz \<le> unat msize"
proof -
  have m: "msize = toWordSize sz * 32" "unat (toWordSize sz) * 32 < 2 ^ 64" using assms by (auto simp: SafeMul_def)
  have u: "unat msize = unat (toWordSize sz) * 32" unfolding m(1) using m(2) by (simp add: unat_mult_lem [THEN iffD1])
  have le: "sz \<le> 0xFFFFFFFFFFFFFFFF - 31"
  proof (rule ccontr)
    assume "\<not> sz \<le> 0xFFFFFFFFFFFFFFFF - 31"
    then have "0xFFFFFFFFFFFFFFFF - 31 < sz" by (simp only: not_le)
    then have "toWordSize sz = 0xFFFFFFFFFFFFFFFF div 32 + 1" unfolding toWordSize_def by (rule if_P)
    then show False using m(2) by simp
  qed
  then have "\<not> 0xFFFFFFFFFFFFFFFF - 31 < sz" by (simp only: not_less simp_thms)
  then have w: "toWordSize sz = (sz + 31) div 32" unfolding toWordSize_def by (rule if_not_P)
  have "unat sz \<le> 18446744073709551584" using le by (simp add: word_le_nat_alt)
  then have "unat (sz + 31) = unat sz + 31" by (simp add: unat_word_ariths)
  then have "unat (toWordSize sz) = (unat sz + 31) div 32" by (simp add: w unat_div)
  then show ?thesis unfolding u by simp
qed

lemma op_memory_total:
  assumes "mem_total p (op_memorySize q)" "p \<le> length (f_stack ctx)"
  obtains err where "op_memory i q ctx = Some (Inl err)" "err \<noteq> ErrCodeStoreOutOfSmoke"
  | msize where "op_memory i q ctx = Some (Inr msize)"
    "\<forall>f. op_memorySize q = Some f \<longrightarrow> (\<exists>sz. f (in_u256 i) (f_stack ctx) = Some (sz, False) \<and> unat sz \<le> unat msize)"
    "op_memorySize q = None \<longrightarrow> msize = 0"
proof (cases "op_memorySize q")
  case None
  then show ?thesis using that(2) by (simp add: op_memory_def)
next
  case (Some f)
  then obtain sz over where f: "f (in_u256 i) (f_stack ctx) = Some (sz, over)" using assms unfolding mem_total_def by fastforce
  obtain msize over2 where m: "SafeMul (toWordSize sz) 32 = (msize, over2)" by fastforce
  show ?thesis
  proof (cases "over \<or> over2")
    case True
    then have "op_memory i q ctx = Some (Inl ErrSmokeUintOverflow)" using Some f m by (auto simp: op_memory_def)
    then show ?thesis using that(1) by simp
  next
    case False
    then have "op_memory i q ctx = Some (Inr msize)" using Some f m by (simp add: op_memory_def)
    then show ?thesis using that(2) Some f m False word_size_covers [of sz msize] by simp
  qed
qed

lemma mem_Resize_length:
  assumes "length (m_store m) \<le> MaxMemory" "unat msize \<le> MaxMemory"
  shows "length (m_store (mem_Resize msize m)) = max (length (m_store m)) (unat msize)"
proof -
  have l: "unat (mem_Len m) = length (m_store m)" using assms(1) by (simp add: MaxMemory_def unat_of_nat)
  show ?thesis
  proof (cases "mem_Len m < msize")
    case True
    then have "unat (msize - mem_Len m) = unat msize - length (m_store m)" using l by (simp add: unat_sub_le)
    then show ?thesis using True l by (simp add: mem_Resize_def word_less_nat_alt)
  next
    case False
    then show ?thesis using l by (simp add: mem_Resize_def word_less_nat_alt)
  qed
qed

lemma same_shape_simps:
  assumes "same_shape ctx ctx'"
  shows "f_stack ctx' = f_stack ctx" "mem_len ctx' = mem_len ctx" "ctx_Address ctx' = ctx_Address ctx"
    "contract_ok (f_contract ctx') = contract_ok (f_contract ctx)"
  using assms by (auto simp: same_shape_def ctx_Address_def contract_ok_def)

lemma same_shape_trans: "same_shape ctx ctx1 \<Longrightarrow> same_shape ctx1 ctx2 \<Longrightarrow> same_shape ctx ctx2"
  by (auto simp: same_shape_def)

lemma same_shape_smoke: "same_shape ctx (ctx\<lparr>f_contract := (f_contract ctx)\<lparr>c_Smoke := g\<rparr>\<rparr>)"
  by (auto simp: same_shape_def)

text \<open>The memory after a resize, as an instruction finds it.\<close>

definition resized :: "uint64 \<Rightarrow> callCtx \<Rightarrow> callCtx" where
  "resized msize ctx = (if 0 < msize then ctx\<lparr>f_memory := mem_Resize msize (f_memory ctx)\<rparr> else ctx)"

lemma resized_simps [simp]:
  "f_stack (resized msize ctx) = f_stack ctx" "f_contract (resized msize ctx) = f_contract ctx"
  "f_callSmokeTemp (resized msize ctx) = f_callSmokeTemp ctx" "ctx_Address (resized msize ctx) = ctx_Address ctx"
  by (simp_all add: resized_def ctx_Address_def)

lemma resized_length:
  assumes "mem_len ctx \<le> MaxMemory" "unat msize \<le> MaxMemory"
  shows "mem_len (resized msize ctx) = max (mem_len ctx) (unat msize)"
  using mem_Resize_length [OF assms] by (auto simp: resized_def word_gt_0)

lemma op_checks_total:
  assumes "b = OP_CALL \<longrightarrow> 3 \<le> op_minStack p"
  shows "\<exists>r. op_checks i b p ctx = Some r \<and> r \<noteq> Some ErrCodeStoreOutOfSmoke \<and>
    (r = None \<longrightarrow> op_minStack p \<le> length (f_stack ctx) \<and> length (f_stack ctx) \<le> op_maxStack p)"
proof -
  have "Back 2 ctx = Some (f_stack ctx ! 2)" if "b = OP_CALL" "op_minStack p \<le> length (f_stack ctx)"
    using assms that by (simp add: stack_Back_def)
  then show ?thesis by (auto simp: op_checks_def Let_def not_less)
qed

context state_store begin

abbreviation is_ready :: "'tr EVMInterpreter \<Rightarrow> callCtx \<Rightarrow> 'tr StateDB \<Rightarrow> bool" where
  "is_ready i ctx s \<equiv> ready K db good A i ctx s"

lemma ready_shape:
  assumes "is_ready i ctx s" "same_shape ctx ctx'" "calm K db A s s'"
  shows "is_ready i ctx' s'"
  using assms calm_runs_as [OF assms(3)] calm_sound [OF _ assms(3)] by (simp add: ready_def same_shape_simps [OF assms(2)])

lemma ready_resized:
  assumes "is_ready i ctx s" "unat msize \<le> MaxMemory"
  shows "is_ready i (resized msize ctx) s"
  using assms by (simp add: ready_def resized_length)

lemma exit_good:
  assumes "steps K db A s s'" "ctx_smoke ctx' \<le> ctx_smoke ctx" "err \<noteq> ErrCodeStoreOutOfSmoke"
  shows "turn_good K db good A i ctx s (Exit [] (Some err) ctx' s')"
  using assms by (simp add: turn_good_def body_post_def)

subsection \<open>The checks before an operation\<close>

lemma turn_reduce:
  assumes r: "is_ready i ctx s" and m: "mem_total (op_minStack p) (op_memorySize p)" and b: "b = OP_CALL \<longrightarrow> 3 \<le> op_minStack p"
    and run: "\<And>ctx1 msize. ctx1 = ctx\<lparr>f_contract := (f_contract ctx)\<lparr>c_Smoke := ctx_smoke ctx - op_constantSmoke p\<rparr>\<rparr> \<Longrightarrow>
      op_constantSmoke p \<le> ctx_smoke ctx \<Longrightarrow> op_minStack p \<le> length (f_stack ctx) \<Longrightarrow> length (f_stack ctx) \<le> op_maxStack p \<Longrightarrow>
      (\<forall>f. op_memorySize p = Some f \<longrightarrow> (\<exists>sz. f (in_u256 i) (f_stack ctx) = Some (sz, False) \<and> unat sz \<le> unat msize)) \<Longrightarrow>
      (op_memorySize p = None \<longrightarrow> msize = 0) \<Longrightarrow> \<exists>t. op_run i p msize ctx1 s = Some t \<and> turn_good K db good A i ctx s t"
  shows "\<exists>t. turn_operation i b p ctx s = Some t \<and> turn_good K db good A i ctx s t"
proof -
  let ?c = "f_contract ctx"
  consider (err) e where "op_checks i b p ctx = Some (Some e)" "e \<noteq> ErrCodeStoreOutOfSmoke"
    | (ok) "op_checks i b p ctx = Some None" "op_minStack p \<le> length (f_stack ctx)" "length (f_stack ctx) \<le> op_maxStack p"
    using op_checks_total [OF b, of i ctx] by (metis not_Some_eq)
  then show ?thesis
  proof cases
    case err
    then show ?thesis using exit_good [of s s ctx ctx e i] by (simp add: turn_operation_def)
  next
    case ok
    show ?thesis
    proof (rule UseSmoke_cases [of "op_constantSmoke p" ?c])
      assume u: "UseSmoke (op_constantSmoke p) ?c = (False, ?c)"
      then show ?thesis using ok(1) exit_good [of s s ctx ctx ErrOutOfSmoke i] by (simp add: turn_operation_def)
    next
      assume u: "UseSmoke (op_constantSmoke p) ?c = (True, ?c\<lparr>c_Smoke := c_Smoke ?c - op_constantSmoke p\<rparr>)" "op_constantSmoke p \<le> c_Smoke ?c"
      let ?ctx1 = "ctx\<lparr>f_contract := ?c\<lparr>c_Smoke := c_Smoke ?c - op_constantSmoke p\<rparr>\<rparr>"
      have le: "c_Smoke ?c - op_constantSmoke p \<le> c_Smoke ?c" using u(2) by (simp add: word_le_nat_alt unat_sub_le)
      have st: "op_minStack p \<le> length (f_stack ?ctx1)" using ok(2) by simp
      show ?thesis
      proof (rule op_memory_total [OF m st, of i])
        fix e assume "op_memory i p ?ctx1 = Some (Inl e)" "e \<noteq> ErrCodeStoreOutOfSmoke"
        then show ?thesis using ok(1) u(1) le exit_good [of s s ?ctx1 ctx e i] by (simp add: turn_operation_def)
      next
        fix msize assume "op_memory i p ?ctx1 = Some (Inr msize)"
          "\<forall>f. op_memorySize p = Some f \<longrightarrow> (\<exists>sz. f (in_u256 i) (f_stack ?ctx1) = Some (sz, False) \<and> unat sz \<le> unat msize)"
          "op_memorySize p = None \<longrightarrow> msize = 0"
        then show ?thesis using run [OF refl u(2) ok(2,3), of msize] ok(1) u(1) by (simp add: turn_operation_def)
      qed
    qed
  qed
qed

subsection \<open>Plain operations\<close>

lemma readyD:
  assumes "is_ready i ctx s"
  shows "sound K db good A s" "machine K db good A i" "runs_as K db A (in_evm i) (ctx_Address ctx) s"
    "contract_ok (f_contract ctx)" "mem_len ctx \<le> MaxMemory"
  using assms by (simp_all add: ready_def)

lemma calm_exit:
  assumes "sound K db good A s" "calm K db A s s'" "ctx_smoke ctx' \<le> ctx_smoke ctx" "length res < 2 ^ 63" "err \<noteq> Some ErrCodeStoreOutOfSmoke"
  shows "turn_good K db good A i ctx s (Exit res err ctx' s')"
  using calm_good [OF assms(1-3)] assms(4,5) by (simp add: turn_good_def body_post_def call_post_def)

lemma calm_next:
  assumes r: "is_ready i ctx s" and c: "calm K db A s s'" and shape: "f_contract ctx' = (f_contract ctx)\<lparr>c_Smoke := g\<rparr>" "mem_len ctx' \<le> MaxMemory"
    and st: "length (f_stack ctx') \<le> 1024" and g: "g < ctx_smoke ctx"
  shows "turn_good K db good A i ctx s (Next ctx' s')"
proof -
  have a: "ctx_Address ctx' = ctx_Address ctx" "contract_ok (f_contract ctx') = contract_ok (f_contract ctx)"
    using shape(1) by (simp_all add: ctx_Address_def contract_ok_def)
  have "is_ready i ctx' s'" using readyD [OF r] calm_runs_as [OF c] calm_sound [OF _ c] a shape(2) by (simp add: ready_def)
  moreover have "pot s' g \<le> pot s (ctx_smoke ctx)" using calm_pot [OF c] g by (simp add: pot_def word_less_nat_alt)
  ultimately show ?thesis using c st g shape(1) by (simp add: turn_good_def calm_def tame_def)
qed

lemma finish_plain:
  assumes r: "is_ready i ctx s" and c: "calm K db A s s2" and ctx3: "f_contract ctx3 = (f_contract ctx)\<lparr>c_Smoke := g\<rparr>" "mem_len ctx3 \<le> MaxMemory"
    "f_stack ctx3 = f_stack ctx" and g: "g \<le> ctx_smoke ctx" "op_halts p \<or> op_reverts p \<or> g < ctx_smoke ctx"
    and e: "op_execute p i ctx3 s2 = Some res" "exec_post K db A (op_minStack p) q ctx3 s2 res"
    and st: "length (f_stack ctx) \<le> op_maxStack p" "op_maxStack p + q = 1024 + op_minStack p"
  shows "\<exists>t. op_finish i p ctx3 s2 = Some t \<and> turn_good K db good A i ctx s t"
proof -
  obtain ret err ctx4 s4 where res: "res = (ret, err, ctx4, s4)" by (metis prod_cases4)
  note e' = e(2) [unfolded res exec_post_def prod.case]
  have c4: "calm K db A s s4" using c e' calm_trans by blast
  define ctx5 where "ctx5 = (if op_returns p then ctx4\<lparr>f_returnData := ret\<rparr> else ctx4)"
  have f5: "f_contract ctx5 = (f_contract ctx)\<lparr>c_Smoke := g\<rparr>" "mem_len ctx5 \<le> MaxMemory" "err = None \<Longrightarrow> length (f_stack ctx5) \<le> 1024"
    using e' ctx3 st by (simp_all add: ctx5_def)
  have fin: "op_finish i p ctx3 s2 = Some (if err \<noteq> None then Exit [] err ctx5 s4 else if op_reverts p then Exit ret (Some ErrExecutionReverted) ctx5 s4
      else if op_halts p then Exit ret None ctx5 s4 else Next (if \<not> op_jumps p then ctx5\<lparr>f_pc := f_pc ctx5 + 1\<rparr> else ctx5) s4)"
    using e(1) res by (simp add: op_finish_def ctx5_def Let_def)
  have x: "turn_good K db good A i ctx s (Exit ret' err' ctx5 s4)" if "length ret' < 2 ^ 63" "err' \<noteq> Some ErrCodeStoreOutOfSmoke" for ret' err'
    using calm_exit [OF readyD(1) [OF r] c4 _ that] f5(1) g(1) by simp
  have n: "turn_good K db good A i ctx s (Next (if \<not> op_jumps p then ctx5\<lparr>f_pc := f_pc ctx5 + 1\<rparr> else ctx5) s4)" if "g < ctx_smoke ctx" "err = None"
    using calm_next [OF r c4 _ _ _ that(1)] f5(1,2) f5(3) [OF that(2)] by simp
  show ?thesis unfolding fin using x n g(2) e' by auto
qed

lemma plain_charge:
  assumes r: "is_ready i ctx s" and p: "plain_op K db good A p" and st: "op_minStack p \<le> length (f_stack ctx)"
    and m: "op_memorySize p = None \<longrightarrow> msize = 0"
  shows "\<exists>ok ctx2 s2 g. op_charge i p msize ctx s = Some (ok, ctx2, s2) \<and> calm K db A s s2 \<and> f_stack ctx2 = f_stack ctx \<and> mem_len ctx2 = mem_len ctx \<and>
    f_contract ctx2 = (f_contract ctx)\<lparr>c_Smoke := g\<rparr> \<and> g \<le> ctx_smoke ctx \<and>
    (ok \<longrightarrow> unat msize \<le> MaxMemory \<and> (g < ctx_smoke ctx \<or> op_constantSmoke p \<noteq> 0 \<or> op_halts p \<or> op_reverts p))"
proof (cases "op_dynamicSmoke p")
  case None
  then show ?thesis using p m by (auto simp: op_charge_def plain_op_def intro!: exI [of _ "ctx_smoke ctx"])
next
  case (Some f)
  then obtain lb where f: "plain_dyn K db good A (op_minStack p) (op_memorySize p \<noteq> None) lb f"
    "lb \<noteq> 0 \<or> op_constantSmoke p \<noteq> 0 \<or> op_halts p \<or> op_reverts p" using p by (auto simp: plain_op_def)
  obtain d ctx2 s2 where d: "f i msize ctx s = Some (d, ctx2, s2)" "calm K db A s s2" "same_shape ctx ctx2" "f_contract ctx2 = f_contract ctx"
    "\<forall>c. d = Inr c \<longrightarrow> lb \<le> unat c \<and> (op_memorySize p \<noteq> None \<longrightarrow> unat msize \<le> MaxMemory)"
    using f(1) r st unfolding plain_dyn_def by blast
  have keep: "(f_contract ctx) = (f_contract ctx)\<lparr>c_Smoke := ctx_smoke ctx\<rparr>" by simp
  show ?thesis
  proof (cases d)
    case (Inl e)
    then have "op_charge i p msize ctx s = Some (False, ctx2, s2)" using Some d(1) by (simp add: op_charge_def)
    then show ?thesis using d(2,4) same_shape_simps [OF d(3)] keep by (metis order_refl)
  next
    case (Inr c)
    have mm: "unat msize \<le> MaxMemory" using d(5) Inr m by (cases "op_memorySize p") auto
    show ?thesis
    proof (rule UseSmoke_cases [of c "f_contract ctx2"])
      assume "UseSmoke c (f_contract ctx2) = (False, f_contract ctx2)"
      then have "op_charge i p msize ctx s = Some (False, ctx2, s2)" using Some d(1) Inr by (simp add: op_charge_def)
      then show ?thesis using d(2,4) same_shape_simps [OF d(3)] keep by (metis order_refl)
    next
      assume u: "UseSmoke c (f_contract ctx2) = (True, (f_contract ctx2)\<lparr>c_Smoke := ctx_smoke ctx2 - c\<rparr>)" "c \<le> ctx_smoke ctx2"
      have "ctx_smoke ctx - c \<le> ctx_smoke ctx" "lb \<noteq> 0 \<longrightarrow> ctx_smoke ctx - c < ctx_smoke ctx"
        using u(2) d(4,5) Inr by (simp_all add: word_le_nat_alt word_less_nat_alt unat_sub_le)
      then show ?thesis using Some d same_shape_simps [OF d(3)] Inr u mm f(2)
        by (intro exI [of _ True] exI [of _ "ctx2\<lparr>f_contract := (f_contract ctx2)\<lparr>c_Smoke := ctx_smoke ctx2 - c\<rparr>\<rparr>"] exI [of _ s2] exI [of _ "ctx_smoke ctx - c"])
          (auto simp: op_charge_def)
    qed
  qed
qed

lemma covered_resized:
  assumes "\<forall>f. mf = Some f \<longrightarrow> (\<exists>sz. f U (f_stack ctx) = Some (sz, False) \<and> unat sz \<le> unat msize)" "mem_len ctx \<le> MaxMemory" "unat msize \<le> MaxMemory"
  shows "covered U mf (resized msize ctx)"
  using assms resized_length [OF assms(2,3)] unfolding covered_def by (auto simp: max_def)

lemma turn_plain:
  assumes r: "is_ready i ctx s" and p: "plain_op K db good A p" and b: "b = OP_CALL \<longrightarrow> 3 \<le> op_minStack p"
  shows "\<exists>t. turn_operation i b p ctx s = Some t \<and> turn_good K db good A i ctx s t"
proof (rule turn_reduce [OF r _ b])
  show "mem_total (op_minStack p) (op_memorySize p)" using p by (simp add: plain_op_def)
  fix ctx1 :: callCtx and msize :: uint64
  assume ctx1: "ctx1 = ctx\<lparr>f_contract := (f_contract ctx)\<lparr>c_Smoke := ctx_smoke ctx - op_constantSmoke p\<rparr>\<rparr>" and le: "op_constantSmoke p \<le> ctx_smoke ctx"
    and st: "op_minStack p \<le> length (f_stack ctx)" "length (f_stack ctx) \<le> op_maxStack p"
    and m: "\<forall>f. op_memorySize p = Some f \<longrightarrow> (\<exists>sz. f (in_u256 i) (f_stack ctx) = Some (sz, False) \<and> unat sz \<le> unat msize)" "op_memorySize p = None \<longrightarrow> msize = 0"
  have r1: "is_ready i ctx1 s" using ready_shape [OF r same_shape_smoke calm_refl] by (simp add: ctx1)
  have le1: "ctx_smoke ctx1 \<le> ctx_smoke ctx" "op_constantSmoke p \<noteq> 0 \<longrightarrow> ctx_smoke ctx1 < ctx_smoke ctx"
    using le word_sub_less [OF le] by (simp_all add: ctx1)
  obtain ok ctx2 s2 g where c: "op_charge i p msize ctx1 s = Some (ok, ctx2, s2)" "calm K db A s s2" "f_stack ctx2 = f_stack ctx1" "mem_len ctx2 = mem_len ctx1"
    "f_contract ctx2 = (f_contract ctx1)\<lparr>c_Smoke := g\<rparr>" "g \<le> ctx_smoke ctx1"
    "ok \<longrightarrow> unat msize \<le> MaxMemory \<and> (g < ctx_smoke ctx1 \<or> op_constantSmoke p \<noteq> 0 \<or> op_halts p \<or> op_reverts p)"
    using plain_charge [OF r1 p _ m(2)] st(1) by (auto simp: ctx1)
  show "\<exists>t. op_run i p msize ctx1 s = Some t \<and> turn_good K db good A i ctx s t"
  proof (cases ok)
    case False
    then show ?thesis using c exit_good [of s s2 ctx2 ctx ErrOutOfSmoke i] le1(1) by (simp add: op_run_def calm_def)
  next
    case True
    let ?ctx3 = "resized msize ctx2"
    have mm: "unat msize \<le> MaxMemory" using c(7) True by simp
    have r2: "is_ready i ctx2 s2" using readyD [OF r1] calm_runs_as [OF c(2)] calm_sound [OF _ c(2)] c(4,5)
      by (simp add: ready_def ctx_Address_def contract_ok_def)
    have r3: "is_ready i ?ctx3 s2" by (rule ready_resized [OF r2 mm])
    have cov: "covered (in_u256 i) (op_memorySize p) ?ctx3"
      using covered_resized [of "op_memorySize p" "in_u256 i" ctx2 msize] m(1) c(3) readyD(5) [OF r2] mm by (simp add: ctx1)
    obtain q res where q: "op_maxStack p + q = 1024 + op_minStack p" "op_execute p i ?ctx3 s2 = Some res" "exec_post K db A (op_minStack p) q ?ctx3 s2 res"
      using p r3 cov st(1) c(3) unfolding plain_op_def plain_exec_def by (fastforce simp: ctx1)
    have g: "g \<le> ctx_smoke ctx" "op_halts p \<or> op_reverts p \<or> g < ctx_smoke ctx" using c(6,7) True le1 by (auto intro: order_trans less_le_trans le_less_trans)
    have "\<exists>t. op_finish i p ?ctx3 s2 = Some t \<and> turn_good K db good A i ctx s t"
      by (rule finish_plain [OF r c(2) _ readyD(5) [OF r3] _ g q(2,3) st(2) q(1)]) (use c(3,5) in \<open>simp_all add: ctx1\<close>)
    then show ?thesis using c(1) True by (simp add: op_run_def resized_def)
  qed
qed

subsection \<open>Calls and creations\<close>

lemma next_good:
  assumes r: "is_ready i ctx s" and st: "steps K db A s s'" "no_mint K db A s s'" "grows (vw s) (vw s')" "refund_covers (vw s')" "short_codes (vw s')"
    and shape: "f_contract ctx' = (f_contract ctx)\<lparr>c_Smoke := g\<rparr>" "mem_len ctx' \<le> MaxMemory" "length (f_stack ctx') \<le> 1024"
    and g: "unat g < unat (ctx_smoke ctx)" "unat (sd_refund s') + 65536 * unat g \<le> unat (sd_refund s) + 65536 * unat (ctx_smoke ctx)"
  shows "turn_good K db good A i ctx s (Next ctx' s')"
proof -
  have a: "ctx_Address ctx' = ctx_Address ctx" "contract_ok (f_contract ctx') = contract_ok (f_contract ctx)"
    using shape(1) by (simp_all add: ctx_Address_def contract_ok_def)
  have "sound K db good A s'" using steps_tx [OF sound_tx(1) [OF readyD(1) [OF r]] st(1)] st(4,5) by (simp add: sound_def)
  then have "is_ready i ctx' s'" using readyD [OF r] grows_runs_as [OF st(3)] a shape(2) by (simp add: ready_def)
  then show ?thesis using st(1-3) g shape(1,3) by (simp add: turn_good_def pot_def word_less_nat_alt)
qed

lemma turn_call:
  assumes r: "is_ready i ctx s" and p: "call_op K db good A y p" and b: "b = OP_CALL \<longrightarrow> 3 \<le> op_minStack p"
    and y: "r_IsYoloV2 (evm_chainRules (in_evm i)) = y" and pt: "pot s (ctx_smoke ctx) + 24000 < 2 ^ 64"
  shows "\<exists>t. turn_operation i b p ctx s = Some t \<and> turn_good K db good A i ctx s t"
proof (rule turn_reduce [OF r _ b])
  show "mem_total (op_minStack p) (op_memorySize p)" using p by (simp add: call_op_def)
  fix ctx1 :: callCtx and msize :: uint64
  assume ctx1: "ctx1 = ctx\<lparr>f_contract := (f_contract ctx)\<lparr>c_Smoke := ctx_smoke ctx - op_constantSmoke p\<rparr>\<rparr>" and le: "op_constantSmoke p \<le> ctx_smoke ctx"
    and st: "op_minStack p \<le> length (f_stack ctx)" "length (f_stack ctx) \<le> op_maxStack p"
    and m: "\<forall>f. op_memorySize p = Some f \<longrightarrow> (\<exists>sz. f (in_u256 i) (f_stack ctx) = Some (sz, False) \<and> unat sz \<le> unat msize)"
  have r1: "is_ready i ctx1 s" using ready_shape [OF r same_shape_smoke calm_refl] by (simp add: ctx1)
  have less: "ctx_smoke ctx1 < ctx_smoke ctx" using le p word_sub_less(2) [OF le] by (simp add: ctx1 call_op_def)
  obtain q ext pre f where q: "op_maxStack p + q = 1024 + op_minStack p" "op_dynamicSmoke p = Some f"
    and ext: "\<And>U ctx ctx'. f_stack ctx' = f_stack ctx \<Longrightarrow> f_callSmokeTemp ctx' = f_callSmokeTemp ctx \<Longrightarrow> ext U ctx' = ext U ctx"
    and pre: "\<And>i ctx ctx' s. f_stack ctx' = f_stack ctx \<Longrightarrow> pre i ctx' s = pre i ctx s"
    and ex: "call_exec K db good A (op_minStack p) q (op_memorySize p) ext pre (op_execute p)" and dy: "call_dyn K db good A (op_minStack p) ext pre y f"
    using p unfolding call_op_def by blast
  have st1: "op_minStack p \<le> length (f_stack ctx1)" using st(1) by (simp add: ctx1)
  obtain d ctx2 s2 where d: "f i msize ctx1 s = Some (d, ctx2, s2)" "calm K db A s s2" "same_shape ctx1 ctx2" "ctx_smoke ctx2 \<le> ctx_smoke ctx1"
    "\<forall>c. d = Inr c \<longrightarrow> ext (in_u256 i) ctx2 \<le> unat c \<and> unat msize \<le> MaxMemory \<and> pre i ctx2 s2"
    using dy [unfolded call_dyn_def, rule_format, OF r1 st1 y, of msize] by blast
  have s02: "steps K db A s s2" "ctx_smoke ctx2 \<le> ctx_smoke ctx" using d(2,4) less by (auto simp: calm_def)
  show "\<exists>t. op_run i p msize ctx1 s = Some t \<and> turn_good K db good A i ctx s t"
  proof (cases d)
    case (Inl e)
    then show ?thesis using d(1) q(2) exit_good [OF s02, of ErrOutOfSmoke i] by (simp add: op_run_def op_charge_def)
  next
    case (Inr c)
    show ?thesis
    proof (rule UseSmoke_cases [of c "f_contract ctx2"])
      assume "UseSmoke c (f_contract ctx2) = (False, f_contract ctx2)"
      then show ?thesis using d(1) Inr q(2) exit_good [OF s02, of ErrOutOfSmoke i] by (simp add: op_run_def op_charge_def)
    next
      assume u: "UseSmoke c (f_contract ctx2) = (True, (f_contract ctx2)\<lparr>c_Smoke := ctx_smoke ctx2 - c\<rparr>)" "c \<le> ctx_smoke ctx2"
      define ctx3 where "ctx3 = resized msize (ctx2\<lparr>f_contract := (f_contract ctx2)\<lparr>c_Smoke := ctx_smoke ctx2 - c\<rparr>\<rparr>)"
      have dd: "ext (in_u256 i) ctx2 \<le> unat c" "unat msize \<le> MaxMemory" "pre i ctx2 s2" using d(5) Inr by auto
      have sh: "same_shape ctx1 (ctx2\<lparr>f_contract := (f_contract ctx2)\<lparr>c_Smoke := ctx_smoke ctx2 - c\<rparr>\<rparr>)"
        using same_shape_trans [OF d(3) same_shape_smoke] .
      have r3: "is_ready i ctx3 s2" unfolding ctx3_def by (rule ready_resized [OF ready_shape [OF r1 sh d(2)] dd(2)])
      have f3: "f_stack ctx3 = f_stack ctx" "f_callSmokeTemp ctx3 = f_callSmokeTemp ctx2" "ctx_smoke ctx3 = ctx_smoke ctx2 - c"
        "f_stack ctx2 = f_stack ctx" using same_shape_simps(1) [OF sh] same_shape_simps(1) [OF d(3)] by (simp_all add: ctx3_def ctx1)
      have cov: "covered (in_u256 i) (op_memorySize p) ctx3" unfolding ctx3_def
        by (rule covered_resized) (use m f3(4) dd(2) same_shape_simps(2) [OF sh] readyD(5) [OF r1] in simp_all)
      have e3: "ext (in_u256 i) ctx3 = ext (in_u256 i) ctx2" using ext f3 by simp
      have n: "unat (ctx_smoke ctx3) + ext (in_u256 i) ctx3 \<le> unat (ctx_smoke ctx1)" "unat (ctx_smoke ctx1) < unat (ctx_smoke ctx)"
        using dd(1) u(2) d(4) less e3 f3(3) by (simp_all add: unat_sub_le word_le_nat_alt word_less_nat_alt)
      have rf: "sd_refund s2 = sd_refund s" by (rule calm_refund [OF d(2)])
      have pt3: "unat (sd_refund s2) + 65536 * (unat (ctx_smoke ctx3) + ext (in_u256 i) ctx3) + 24000 < 2 ^ 64"
        using n pt unfolding pot_def rf by (simp add: algebra_simps)
      have pre3: "pre i ctx3 s2" using pre [of ctx3 ctx2 i s2] dd(3) f3(1,4) by simp
      have st3: "op_minStack p \<le> length (f_stack ctx3)" using st(1) f3(1) by simp
      obtain res ctx4 s4 g where e: "op_execute p i ctx3 s2 = Some (res, None, ctx4, s4)" "steps K db A s2 s4" "no_mint K db A s2 s4"
        "grows (vw s2) (vw s4)" "refund_covers (vw s4)" "short_codes (vw s4)" "f_contract ctx4 = (f_contract ctx3)\<lparr>c_Smoke := g\<rparr>" "mem_len ctx4 = mem_len ctx3"
        "length (f_stack ctx4) + op_minStack p \<le> length (f_stack ctx3) + q" "unat g \<le> unat (ctx_smoke ctx3) + ext (in_u256 i) ctx3"
        "unat (sd_refund s4) + 65536 * unat g \<le> unat (sd_refund s2) + 65536 * (unat (ctx_smoke ctx3) + ext (in_u256 i) ctx3) + 24000"
        using ex [unfolded call_exec_def, rule_format, OF r3 st3 cov pre3 pt3] by blast
      define ctx5 where "ctx5 = (if op_returns p then ctx4\<lparr>f_returnData := res\<rparr> else ctx4)"
      define ctx6 where "ctx6 = (if \<not> op_jumps p then ctx5\<lparr>f_pc := f_pc ctx5 + 1\<rparr> else ctx5)"
      have run: "op_run i p msize ctx1 s = Some (Next ctx6 s4)"
        using d(1) Inr q(2) u(1) e(1) p
        by (simp add: op_run_def op_charge_def op_finish_def resized_def [symmetric] ctx3_def [symmetric] ctx5_def ctx6_def call_op_def Let_def)
      have f6: "f_contract ctx6 = (f_contract ctx)\<lparr>c_Smoke := g\<rparr>" "mem_len ctx6 \<le> MaxMemory" "length (f_stack ctx6) \<le> 1024"
        using e(7-9) readyD(5) [OF r3] st(2) q(1) f3(1) d(3) by (auto simp: ctx6_def ctx5_def ctx3_def ctx1 same_shape_def)
      have "turn_good K db good A i ctx s (Next ctx6 s4)"
      proof (rule next_good [OF r _ _ _ e(5,6) f6])
        show "steps K db A s s4" "no_mint K db A s s4" "grows (vw s) (vw s4)"
          using d(2) e(2-4) steps_trans no_mint_trans grows_trans unfolding calm_def tame_def by blast+
        show "unat g < unat (ctx_smoke ctx)" using e(10) n by linarith
        show "unat (sd_refund s4) + 65536 * unat g \<le> unat (sd_refund s) + 65536 * unat (ctx_smoke ctx)" using e(11) n unfolding rf distrib_left by linarith
      qed
      then show ?thesis using run by simp
    qed
  qed
qed

subsection \<open>Storage writes\<close>

lemma cleared_put:
  assumes "puts a v v' (ob\<lparr>ov_state := (ov_state ob)(k \<mapsto> val)\<rparr>)" "v_live v a = Some ob"
  shows "cleared v' \<subseteq> cleared_after v a k val"
  using assms by (auto simp: puts_def cleared_def cleared_after_def split: if_splits)

lemma SetState_good:
  assumes tx: "tx s" and a: "a \<in> A" "v_live (vw s) a \<noteq> None" and c: "finite (cleared (vw s))" "15000 * card (cleared_after (vw s) a k val) \<le> unat (sd_refund s)"
    and sc: "short_codes (vw s)"
  obtains s' where "SetState K db a k val s = Some s'" "steps K db A s s'" "same_bal K db A s s'" "grows (vw s) (vw s')"
    "refund_covers (vw s')" "short_codes (vw s')" "sd_refund s' = sd_refund s"
proof -
  have ok: "ok s" using tx by (simp add: tx_state_def)
  obtain ob where ob: "v_live (vw s) a = Some ob" using a(2) by blast
  obtain s' where s': "SetState K db a k val s = Some s'" "ok s'" "puts a (vw s) (vw s') (ob\<lparr>ov_state := (ov_state ob)(k \<mapsto> val)\<rparr>)"
    using SetState_puts [OF ok a(1) ob, of k val] by blast
  have st: "steps K db A s s'" using steps_op [OF tx, of "OpSetState a k val" s'] s'(1) a(1) by simp
  have rf: "sd_refund s' = sd_refund s" using s'(3) by (simp add: puts_def)
  have "finite (cleared_after (vw s) a k val)" using c(1) by (simp add: cleared_after_def)
  then have "refund_covers (vw s')" using cleared_put [OF s'(3) ob] c(2) card_mono finite_subset rf
    unfolding refund_covers_def by (smt (verit) mult_le_mono2 order_trans view_sel(5))
  moreover have "short_codes (vw s')" using s'(3) sc ob unfolding puts_def short_codes_def
    by (smt (verit) object_view.ext_inject object_view.surjective object_view.update_convs(7) option.inject)
  moreover have "same_bal K db A s s'"
    using s'(2,3) ok ob by (auto simp: same_bal_def bal_view puts_def)
  ultimately show ?thesis using that [OF s'(1) st] puts_grows [OF s'(3)] rf by blast
qed

lemma turn_store:
  assumes r: "is_ready i ctx s" and p: "store_op K db good A y p" and b: "b = OP_CALL \<longrightarrow> 3 \<le> op_minStack p"
    and y: "r_IsYoloV2 (evm_chainRules (in_evm i)) = y" and pt: "pot s (ctx_smoke ctx) + 24000 < 2 ^ 64"
  shows "\<exists>t. turn_operation i b p ctx s = Some t \<and> turn_good K db good A i ctx s t"
proof (rule turn_reduce [OF r _ b])
  show "mem_total (op_minStack p) (op_memorySize p)" using p by (simp add: store_op_def mem_total_def)
  fix ctx1 :: callCtx and msize :: uint64
  assume ctx1: "ctx1 = ctx\<lparr>f_contract := (f_contract ctx)\<lparr>c_Smoke := ctx_smoke ctx - op_constantSmoke p\<rparr>\<rparr>" and le: "op_constantSmoke p \<le> ctx_smoke ctx"
    and st: "op_minStack p \<le> length (f_stack ctx)" "length (f_stack ctx) \<le> op_maxStack p" and m: "op_memorySize p = None \<longrightarrow> msize = 0"
  have r1: "is_ready i ctx1 s" using ready_shape [OF r same_shape_smoke calm_refl] by (simp add: ctx1)
  have le1: "ctx_smoke ctx1 \<le> ctx_smoke ctx" using word_sub_less(1) [OF le] by (simp add: ctx1)
  obtain f where f: "op_dynamicSmoke p = Some f" "store_dyn K db good A y f" using p by (auto simp: store_op_def)
  obtain k val rest where stack: "f_stack ctx1 = k # val # rest" using st(1) p by (auto simp: store_op_def ctx1 Suc_le_length_iff numeral_2_eq_2)
  have rb: "unat (sd_refund s) + 24000 < 2 ^ 64" using pt by (simp add: pot_def)
  let ?a = "ctx_Address ctx1" let ?k = "u_Bytes32 (in_u256 i) k" let ?v = "u_Bytes32 (in_u256 i) val"
  obtain d s2 where d: "f i msize ctx1 s = Some (d, ctx1, s2)" "steps K db A s s2"
    "\<forall>c. d = Inr c \<longrightarrow> 1 \<le> unat c \<and> unat (sd_refund s2) \<le> unat (sd_refund s) + 65536 * unat c \<and>
      same_bal K db A s s2 \<and> grows (vw s) (vw s2) \<and> short_codes (vw s2) \<and> finite (cleared (vw s2)) \<and>
      15000 * card (cleared_after (vw s2) ?a ?k ?v) \<le> unat (sd_refund s2)"
    using f(2) [unfolded store_dyn_def, rule_format, OF r1 stack y rb, of msize] by blast
  show "\<exists>t. op_run i p msize ctx1 s = Some t \<and> turn_good K db good A i ctx s t"
  proof (cases d)
    case (Inl e)
    then show ?thesis using d(1) f(1) exit_good [OF d(2) le1, of ErrOutOfSmoke i] by (simp add: op_run_def op_charge_def)
  next
    case (Inr c)
    show ?thesis
    proof (rule UseSmoke_cases [of c "f_contract ctx1"])
      assume "UseSmoke c (f_contract ctx1) = (False, f_contract ctx1)"
      then show ?thesis using d(1) Inr f(1) exit_good [OF d(2) le1, of ErrOutOfSmoke i] by (simp add: op_run_def op_charge_def)
    next
      assume u: "UseSmoke c (f_contract ctx1) = (True, (f_contract ctx1)\<lparr>c_Smoke := ctx_smoke ctx1 - c\<rparr>)" "c \<le> ctx_smoke ctx1"
      have dd: "1 \<le> unat c" "unat (sd_refund s2) \<le> unat (sd_refund s) + 65536 * unat c" "same_bal K db A s s2" "grows (vw s) (vw s2)" "short_codes (vw s2)"
        "finite (cleared (vw s2))" "15000 * card (cleared_after (vw s2) ?a ?k ?v) \<le> unat (sd_refund s2)" using d(3) Inr by auto
      have tx2: "tx s2" using steps_tx [OF sound_tx(1) [OF readyD(1) [OF r]] d(2)] .
      have as: "?a \<in> A" "v_live (vw s2) ?a \<noteq> None" using grows_runs_as [OF dd(4) readyD(3) [OF r1]] by (simp_all add: runs_as_def)
      obtain s3 where s3: "SetState K db ?a ?k ?v s2 = Some s3" "steps K db A s2 s3" "same_bal K db A s2 s3" "grows (vw s2) (vw s3)"
        "refund_covers (vw s3)" "short_codes (vw s3)" "sd_refund s3 = sd_refund s2"
        by (rule SetState_good [OF tx2 as dd(6,7,5)])
      have mk: "in_keccak i = K" "in_db i = db" using readyD(2) [OF r] by (simp_all add: machine_def)
      define ctx2 where "ctx2 = ctx1\<lparr>f_contract := (f_contract ctx1)\<lparr>c_Smoke := ctx_smoke ctx1 - c\<rparr>, f_stack := rest\<rparr>"
      define ctx5 where "ctx5 = (if op_returns p then ctx2\<lparr>f_returnData := []\<rparr> else ctx2)"
      define ctx6 where "ctx6 = (if \<not> op_jumps p then ctx5\<lparr>f_pc := f_pc ctx5 + 1\<rparr> else ctx5)"
      have "op_execute p i (ctx1\<lparr>f_contract := (f_contract ctx1)\<lparr>c_Smoke := ctx_smoke ctx1 - c\<rparr>\<rparr>) s2 = Some ([], None, ctx2, s3)"
        using p s3(1) stack mk by (simp add: store_op_def opSstore_def stack_pop_def ctx_Address_def finished_def ctx2_def Let_def)
      then have run: "op_run i p msize ctx1 s = Some (Next ctx6 s3)"
        using d(1) Inr f(1) u(1) p m by (simp add: op_run_def op_charge_def op_finish_def ctx5_def ctx6_def store_op_def Let_def)
      have f6: "f_contract ctx6 = (f_contract ctx)\<lparr>c_Smoke := ctx_smoke ctx1 - c\<rparr>" "mem_len ctx6 \<le> MaxMemory" "length (f_stack ctx6) \<le> 1024"
        using st(2) p stack readyD(5) [OF r] by (simp_all add: ctx6_def ctx5_def ctx2_def ctx1 store_op_def)
      have sub: "unat (ctx_smoke ctx1 - c) = unat (ctx_smoke ctx1) - unat c" using u(2) by (simp add: unat_sub_le)
      have "turn_good K db good A i ctx s (Next ctx6 s3)"
      proof (rule next_good [OF r _ _ _ s3(5,6) f6])
        show "steps K db A s s3" "no_mint K db A s s3" "grows (vw s) (vw s3)"
          using d(2) dd(3,4) s3(2-4) steps_trans same_bal_trans same_bal_no_mint grows_trans by blast+
        show "unat (ctx_smoke ctx1 - c) < unat (ctx_smoke ctx)" using sub dd(1) u(2) le1 by (simp add: word_le_nat_alt)
        show "unat (sd_refund s3) + 65536 * unat (ctx_smoke ctx1 - c) \<le> unat (sd_refund s) + 65536 * unat (ctx_smoke ctx)"
          using sub dd(2) u(2) le1 unfolding s3(7) word_le_nat_alt by linarith
      qed
      then show ?thesis using run by simp
    qed
  qed
qed

subsection \<open>Self-destruction\<close>

lemma turn_suicide:
  assumes r: "is_ready i ctx s" and p: "suicide_op K db good A p" and b: "b = OP_CALL \<longrightarrow> 3 \<le> op_minStack p"
    and pt: "pot s (ctx_smoke ctx) + 24000 < 2 ^ 64"
  shows "\<exists>t. turn_operation i b p ctx s = Some t \<and> turn_good K db good A i ctx s t"
proof (rule turn_reduce [OF r _ b])
  show "mem_total (op_minStack p) (op_memorySize p)" using p by (simp add: suicide_op_def mem_total_def)
  fix ctx1 :: callCtx and msize :: uint64
  assume ctx1: "ctx1 = ctx\<lparr>f_contract := (f_contract ctx)\<lparr>c_Smoke := ctx_smoke ctx - op_constantSmoke p\<rparr>\<rparr>" and le: "op_constantSmoke p \<le> ctx_smoke ctx"
    and st: "op_minStack p \<le> length (f_stack ctx)" and m: "op_memorySize p = None \<longrightarrow> msize = 0"
  have r1: "is_ready i ctx1 s" using ready_shape [OF r same_shape_smoke calm_refl] by (simp add: ctx1)
  have le1: "ctx_smoke ctx1 \<le> ctx_smoke ctx" using word_sub_less(1) [OF le] by (simp add: ctx1)
  obtain f where f: "op_dynamicSmoke p = Some f" "suicide_dyn K db good A f" using p by (auto simp: suicide_op_def)
  have st1: "1 \<le> length (f_stack ctx1)" using st p by (simp add: ctx1 suicide_op_def)
  have rb: "unat (sd_refund s) + 24000 < 2 ^ 64" using pt by (simp add: pot_def)
  obtain c s2 where d: "f i msize ctx1 s = Some (Inr c, ctx1, s2)" "steps K db A s s2" "same_bal K db A s s2" "grows (vw s) (vw s2)"
    "refund_covers (vw s2)" "short_codes (vw s2)" "unat (sd_refund s2) \<le> unat (sd_refund s) + 24000"
    using f(2) [unfolded suicide_dyn_def, rule_format, OF r1 st1 rb, of msize] by blast
  have snd2: "sound K db good A s2" using steps_tx [OF sound_tx(1) [OF readyD(1) [OF r]] d(2)] d(5,6) by (simp add: sound_def)
  show "\<exists>t. op_run i p msize ctx1 s = Some t \<and> turn_good K db good A i ctx s t"
  proof (rule UseSmoke_cases [of c "f_contract ctx1"])
    assume "UseSmoke c (f_contract ctx1) = (False, f_contract ctx1)"
    then show ?thesis using d(1) f(1) exit_good [OF d(2) le1, of ErrOutOfSmoke i] by (simp add: op_run_def op_charge_def)
  next
    assume u: "UseSmoke c (f_contract ctx1) = (True, (f_contract ctx1)\<lparr>c_Smoke := ctx_smoke ctx1 - c\<rparr>)" "c \<le> ctx_smoke ctx1"
    define ctx3 where "ctx3 = ctx1\<lparr>f_contract := (f_contract ctx1)\<lparr>c_Smoke := ctx_smoke ctx1 - c\<rparr>\<rparr>"
    have r3: "is_ready i ctx3 s2" using readyD [OF r1] snd2 grows_runs_as [OF d(4)] by (simp add: ready_def ctx3_def contract_ok_def ctx_Address_def)
    have st3: "1 \<le> length (f_stack ctx3)" "covered (in_u256 i) None ctx3" using st1 by (simp_all add: ctx3_def covered_def)
    have pe: "plain_exec K db good A 1 0 None (op_execute p)" using p by (simp add: suicide_op_def)
    obtain res err ctx4 s4 where e: "op_execute p i ctx3 s2 = Some (res, err, ctx4, s4)" "calm K db A s2 s4" "f_contract ctx4 = f_contract ctx3"
      "length res < 2 ^ 63" "err \<noteq> Some ErrCodeStoreOutOfSmoke"
      using pe [unfolded plain_exec_def, rule_format, OF r3 st3] unfolding exec_post_def by fastforce
    define ctx5 where "ctx5 = (if op_returns p then ctx4\<lparr>f_returnData := res\<rparr> else ctx4)"
    have g: "ctx_smoke ctx5 = ctx_smoke ctx1 - c" "ctx_smoke ctx5 \<le> ctx_smoke ctx" using e(3) word_sub_less(1) [OF u(2)] le1 by (auto simp: ctx5_def ctx3_def)
    have run: "op_run i p msize ctx1 s = Some (if err \<noteq> None then Exit [] err ctx5 s4 else if op_reverts p then Exit res (Some ErrExecutionReverted) ctx5 s4 else Exit res None ctx5 s4)"
      using d(1) f(1) u(1) p m e(1)
      by (simp add: op_run_def op_charge_def op_finish_def ctx5_def ctx3_def [symmetric] suicide_op_def Let_def)
    have steps: "steps K db A s s4" using d(2) e(2) steps_trans unfolding calm_def by blast
    have "settled K db A s (ctx_smoke ctx) (ctx_smoke ctx5) s4" unfolding settled_def
    proof (intro conjI)
      show "no_mint K db A s s4" "grows (vw s) (vw s4)" "refund_covers (vw s4)" "short_codes (vw s4)"
        using d(3,4) e(2) same_bal_no_mint no_mint_trans grows_trans calm_sound [OF snd2 e(2)] unfolding calm_def tame_def sound_def by blast+
      show "pot s4 (ctx_smoke ctx5) \<le> pot s (ctx_smoke ctx) + 24000"
        using d(7) g(2) unfolding calm_pot [OF e(2)] unfolding pot_def word_le_nat_alt by linarith
    qed
    then have "turn_good K db good A i ctx s (Exit res' err' ctx5 s4)" if "length res' < 2 ^ 63" "err' \<noteq> Some ErrCodeStoreOutOfSmoke" for res' err'
      using that steps g(2) by (simp add: turn_good_def body_post_def)
    then show ?thesis unfolding run using e(4,5) by simp
  qed
qed

lemma turn_good_op:
  assumes "is_ready i ctx s" "good_op K db good A (r_IsYoloV2 (evm_chainRules (in_evm i))) b p" "pot s (ctx_smoke ctx) + 24000 < 2 ^ 64"
  shows "\<exists>t. turn_operation i b p ctx s = Some t \<and> turn_good K db good A i ctx s t"
  using assms(2) turn_plain [OF assms(1)] turn_call [OF assms(1) _ _ refl assms(3)] turn_store [OF assms(1) _ _ refl assms(3)]
    turn_suicide [OF assms(1) _ _ assms(3)] unfolding good_op_def by (elim conjE disjE) simp_all

subsection \<open>The loop\<close>

definition table_ok :: "bool \<Rightarrow> 'tr JumpTable \<Rightarrow> bool" where
  "table_ok y jt \<longleftrightarrow> (\<forall>b p. jt b = Some p \<longrightarrow> good_op K db good A y b p)"

lemma turn_ok:
  assumes "is_ready i ctx s" "table_ok (r_IsYoloV2 (evm_chainRules (in_evm i))) jt" "pot s (ctx_smoke ctx) + 24000 < 2 ^ 64"
  shows "\<exists>t. turn jt i ctx s = Some t \<and> turn_good K db good A i ctx s t"
proof (cases "jt (GetOp (f_pc ctx) (f_contract ctx))")
  case None
  then show ?thesis using exit_good [of s s ctx ctx _ i] by (simp add: turn_def Let_def)
next
  case (Some p)
  then show ?thesis using turn_good_op [OF assms(1) _ assms(3)] assms(2) by (simp add: turn_def table_ok_def Let_def)
qed

lemma loop_good:
  assumes "is_ready i ctx s" "table_ok (r_IsYoloV2 (evm_chainRules (in_evm i))) jt" "pot s (ctx_smoke ctx) + 24000 < 2 ^ 64" "unat (ctx_smoke ctx) < n"
  shows "\<exists>ret err left s'. run_loop n jt i ctx s = Some (ret, err, left, s') \<and> body_post K db A s (ctx_smoke ctx) err left s' \<and>
    (err = None \<longrightarrow> length ret < 2 ^ 63) \<and> err \<noteq> Some ErrCodeStoreOutOfSmoke"
  using assms
proof (induction n arbitrary: ctx s)
  case (Suc n)
  obtain t where t: "turn jt i ctx s = Some t" "turn_good K db good A i ctx s t" using turn_ok [OF Suc.prems(1-3)] by blast
  show ?case
  proof (cases t)
    case (Exit res err ctx' s')
    then show ?thesis using t by (simp add: turn_good_def)
  next
    case (Next ctx' s')
    note n = t(2) [unfolded Next turn_good_def turn.case]
    obtain ret err left s2 where l: "run_loop n jt i ctx' s' = Some (ret, err, left, s2)" "body_post K db A s' (ctx_smoke ctx') err left s2"
      "err = None \<longrightarrow> length ret < 2 ^ 63" "err \<noteq> Some ErrCodeStoreOutOfSmoke"
      using Suc.IH [of ctx' s'] Suc.prems(2-4) n by (auto simp: word_less_nat_alt)
    have "body_post K db A s (ctx_smoke ctx) err left s2"
      using l(2) n steps_trans no_mint_trans grows_trans unfolding body_post_def settled_def by (smt (verit) add_le_mono1 order.strict_iff_order order_trans)
    then show ?thesis using t(1) Next l by simp
  qed
qed simp

subsection \<open>The interpreter\<close>

lemma Run_good:
  assumes "uint256_ok U" "{a. length a = 20} \<subseteq> A" "finite A"
    and t: "table_ok (r_IsYoloV2 rules) (interpreter_table rules)"
  shows "evm_chainRules evm = rules \<Longrightarrow> evm_ChainID evm \<noteq> None \<Longrightarrow> evm_depth evm \<le> CallCreateDepth \<Longrightarrow> CallCreateDepth < evm_depth evm + d \<Longrightarrow>
    run_good K db good A (Run d K db U) evm"
proof (induction d arbitrary: evm)
  case (Suc d)
  show ?case unfolding run_good_def
  proof (intro allI impI)
    fix c :: Contract and input :: bytes and readOnly :: bool and s
    assume c: "runs_as K db A evm (ref_Address (c_self c)) s" "c_value c \<noteq> None" "length (c_Code c) < 2 ^ 63" "length input < 2 ^ 63"
      and s: "sound K db good A s" "pot s (c_Smoke c) + 24000 < 2 ^ 64"
    let ?i = "\<lparr>in_evm = frame_evm evm readOnly, in_keccak = K, in_db = db, in_u256 = U, in_nested = Run d K db U\<rparr>"
    let ?ctx = "new_frame c input"
    have r: "evm_chainRules (frame_evm evm readOnly) = rules" "evm_ChainID (frame_evm evm readOnly) \<noteq> None" "evm_depth (frame_evm evm readOnly) = evm_depth evm + 1"
      using Suc.prems by (simp_all add: frame_evm_def)
    have "machine K db good A ?i" using assms(1-3) r Suc.IH [of "frame_evm evm readOnly"] Suc.prems(4) by (simp add: machine_def)
    moreover have "runs_as K db A (in_evm ?i) (ctx_Address ?ctx) s" using c(1) r(1) Suc.prems(1)
      by (simp add: runs_as_def new_frame_def ctx_Address_def)
    ultimately have "is_ready ?i ?ctx s" using c(2-4) s(1) by (simp add: ready_def contract_ok_def new_frame_def MaxMemory_def)
    then have loop: "\<exists>ret err left s'. run_loop (unat (c_Smoke c) + 1) (interpreter_table (evm_chainRules evm)) ?i ?ctx s = Some (ret, err, left, s') \<and>
      body_post K db A s (c_Smoke c) err left s' \<and> (err = None \<longrightarrow> length ret < 2 ^ 63) \<and> err \<noteq> Some ErrCodeStoreOutOfSmoke"
      using loop_good [of ?i ?ctx s "interpreter_table (evm_chainRules evm)" "unat (c_Smoke c) + 1"] t r(1) Suc.prems(1) s(2) by (simp add: new_frame_def)
    have "body_post K db A s (c_Smoke c) None (c_Smoke c) s" using calm_good [OF s(1) calm_refl order_refl] by (simp add: body_post_def call_post_def)
    then show "\<exists>ret err left s'. Run (Suc d) K db U evm c input readOnly s = Some (ret, err, left, s') \<and>
      body_post K db A s (c_Smoke c) err left s' \<and> (err = None \<longrightarrow> length ret < 2 ^ 63) \<and> err \<noteq> Some ErrCodeStoreOutOfSmoke"
      using loop by simp
  qed
qed simp

end

end
