(* ===== verification/Evm_Words.thy ===== *)
theory Evm_Words
  imports Evm_Machine
begin

section \<open>256-bit integers as words\<close>

text \<open>
  The operations of the package \<open>uint256\<close> on words of HOL. They satisfy what \<open>uint256_ok\<close> asks, so
  the theorems that take the package as an argument apply to them.
\<close>

definition word_bytes :: "nat \<Rightarrow> u256 \<Rightarrow> bytes" where
  "word_bytes n x = map (\<lambda>i. ucast (drop_bit (8 * i) x)) (rev [0..<n])"

definition bytes_word :: "bytes \<Rightarrow> u256" where
  "bytes_word bs = fold (\<lambda>b x. push_bit 8 x OR ucast b) bs 0"

definition signed_quot :: "u256 \<Rightarrow> u256 \<Rightarrow> u256" where
  "signed_quot x y = word_of_int (sgn (sint x) * sgn (sint y) * (\<bar>sint x\<bar> div \<bar>sint y\<bar>))"

definition signed_rem :: "u256 \<Rightarrow> u256 \<Rightarrow> u256" where
  "signed_rem x y = word_of_int (sgn (sint x) * (\<bar>sint x\<bar> mod \<bar>sint y\<bar>))"

definition word_uint256 :: uint256 where
  "word_uint256 =
    \<lparr>u_Add = (+), u_Sub = (-), u_Mul = (*), u_Div = (\<lambda>x y. if y = 0 then 0 else x div y),
     u_SDiv = (\<lambda>x y. if y = 0 then 0 else signed_quot x y), u_Mod = (\<lambda>x y. if y = 0 then 0 else x mod y),
     u_SMod = (\<lambda>x y. if y = 0 then 0 else signed_rem x y), u_Exp = (\<lambda>x y. x ^ unat y),
     u_ExtendSign = (\<lambda>x n. if n < 31 then word_of_int (signed_take_bit (8 * unat n + 7) (uint x)) else x),
     u_AddMod = (\<lambda>x y z. if z = 0 then 0 else word_of_int ((uint x + uint y) mod uint z)),
     u_MulMod = (\<lambda>x y z. if z = 0 then 0 else word_of_int (uint x * uint y mod uint z)),
     u_Not = (\<lambda>x. NOT x), u_And = (AND), u_Or = (OR), u_Xor = (XOR),
     u_Byte = (\<lambda>x n. if n < 32 then drop_bit (8 * (31 - unat n)) x AND 0xFF else 0),
     u_Lsh = (\<lambda>x n. push_bit n x), u_Rsh = (\<lambda>x n. drop_bit n x), u_SRsh = (\<lambda>x n. word_of_int (drop_bit n (sint x))),
     u_Lt = (<), u_Gt = (\<lambda>x y. y < x), u_Slt = (\<lambda>x y. sint x < sint y), u_Sgt = (\<lambda>x y. sint y < sint x), u_Eq = (=),
     u_IsZero = (\<lambda>x. x = 0), u_Sign = (\<lambda>x. sgn (sint x)),
     u_LtUint64 = (\<lambda>x n. uint x < uint n), u_GtUint64 = (\<lambda>x n. uint n < uint x),
     u_BitLen = (\<lambda>x. length (dropWhile Not (rev (map (bit x) [0..<256])))),
     u_One = 1, u_Zero = 0, u_AllOne = - 1, u_Uint64 = (\<lambda>x. ucast x), u_IsUint64 = (\<lambda>x. uint x < 2 ^ 64),
     u_Uint64WithOverflow = (\<lambda>x. (ucast x, \<not> uint x < 2 ^ 64)), u_SetUint64 = (\<lambda>n. ucast n),
     u_SetBytes = bytes_word, u_Bytes20 = word_bytes 20, u_Bytes32 = word_bytes 32,
     u_FromBig = (\<lambda>n. word_of_int n), u_ToBig = (\<lambda>x. uint x), u_WriteToSlice = (\<lambda>x dst. go_copy_at 0 (word_bytes 32 x) dst)\<rparr>"

lemma word_bytes_zero: "word_bytes 32 x = zero_hash \<longleftrightarrow> x = 0"
proof
  assume z: "word_bytes 32 x = zero_hash"
  have b: "(ucast (drop_bit (8 * i) x) :: byte) = 0" if "i < 32" for i
  proof -
    have "set (word_bytes 32 x) \<subseteq> {0}" unfolding z by (auto simp: zero_hash_def)
    then have "(ucast (drop_bit (8 * i) x) :: byte) \<in> {0}" using that by (simp add: word_bytes_def image_subset_iff)
    then show ?thesis by simp
  qed
  have "\<not> bit x j" for j
  proof (cases "j < 256")
    case True
    then have "\<not> bit (ucast (drop_bit (8 * (j div 8)) x) :: byte) (j mod 8)" using b [of "j div 8"] by simp
    then show ?thesis by (simp add: bit_ucast_iff bit_drop_bit_eq)
  next
    case False
    then show ?thesis using bit_imp_le_length [of x j] by auto
  qed
  then show "x = 0" by (simp add: bit_eq_iff)
next
  assume "x = 0"
  then show "word_bytes 32 x = zero_hash" by (simp add: word_bytes_def zero_hash_def map_replicate_const)
qed

lemma word_uint256_ok: "uint256_ok word_uint256"
  by (auto simp: uint256_ok_def word_uint256_def word_bytes_zero sgn_if signed_eq_0_iff) (simp_all add: word_bytes_def)

end
