(* ===== verification/Evm_Analysis.thy ===== *)
theory Evm_Analysis
  imports Evm_Words
begin

section \<open>Correctness of the analysis of jump destinations\<close>

text \<open>
  \<open>codeBitmap\<close> marks the data of push instructions, eight positions at a time where it can. It
  does not run out of its bit vector, and a position of the code is left unmarked just if an
  instruction starts there when the code is read from its first byte.
\<close>

subsection \<open>The instructions of a code\<close>

definition push_size :: "byte \<Rightarrow> nat" where
  "push_size b = (if 0x60 \<le> b \<and> b \<le> 0x7F then unat (b - 0x60 + 1) else 0)"

function instruction_starts :: "bytes \<Rightarrow> nat \<Rightarrow> nat list" where
  "instruction_starts code pc =
    (if pc < length code then pc # instruction_starts code (pc + 1 + push_size (code ! pc)) else [])"
  by auto
termination by (relation "measure (\<lambda>(code, pc). length code - pc)") auto

declare instruction_starts.simps [simp del]

subsection \<open>Bits\<close>

definition marked :: "bitvec \<Rightarrow> nat \<Rightarrow> bool" where
  "marked bits pos \<longleftrightarrow> bit (bits ! (pos div 8)) (7 - pos mod 8)"

lemma bit_drop_80: "bit (drop_bit k (0x80 :: byte)) j \<longleftrightarrow> k + j = 7"
proof -
  have e: "(0x80 :: byte) = push_bit 7 1" by simp
  have "bit (0x80 :: byte) n \<longleftrightarrow> n = 7" for n unfolding e bit_push_bit_iff bit_1_iff by auto
  then show ?thesis unfolding bit_drop_bit_eq o_apply by (simp add: add.commute)
qed

lemma bit_drop_FF: "bit (drop_bit k (0xFF :: byte)) j \<longleftrightarrow> k + j < 8"
proof -
  have e: "(0xFF :: byte) = mask 8" by (simp add: mask_eq_exp_minus_1)
  show ?thesis unfolding e bit_drop_bit_eq o_apply bit_mask_iff by simp
qed

lemma and_80: "(b :: byte) AND drop_bit k 0x80 = 0 \<longleftrightarrow> \<not> bit b (7 - k)" if "k < 8"
proof
  assume "b AND drop_bit k 0x80 = 0"
  then have "\<not> bit (b AND drop_bit k 0x80) (7 - k)" by simp
  then show "\<not> bit b (7 - k)" using that by (simp add: bit_and_iff bit_drop_80)
next
  assume n: "\<not> bit b (7 - k)"
  have "\<not> bit (b AND drop_bit k 0x80) j" for j
    using n that by (auto simp: bit_and_iff bit_drop_80) (metis add_diff_cancel_left')
  then show "b AND drop_bit k 0x80 = 0" by (simp add: bit_eq_iff)
qed

lemma codeSegment_marked: "pos div 8 < length bits \<Longrightarrow> codeSegment bits pos = Some (\<not> marked bits pos)"
  by (simp add: codeSegment_def marked_def and_80)

lemma bv_set_marks:
  assumes "pos div 8 < length bits"
  obtains bits' where "bv_set pos bits = Some bits'" "length bits' = length bits" "\<And>q. marked bits' q \<longleftrightarrow> marked bits q \<or> q = pos"
proof -
  let ?b = "bits[pos div 8 := bits ! (pos div 8) OR drop_bit (pos mod 8) 0x80]"
  have "marked ?b q \<longleftrightarrow> marked bits q \<or> q = pos" for q
  proof (cases "q div 8 = pos div 8")
    case True
    then have "q = pos \<longleftrightarrow> q mod 8 = pos mod 8" by (metis div_mult_mod_eq)
    then show ?thesis using True assms by (auto simp: marked_def bit_or_iff bit_drop_80)
  qed (auto simp: marked_def)
  then show ?thesis using that [of ?b] assms by (simp add: bv_set_def)
qed

lemma bv_set8_marks:
  assumes "pos div 8 + 1 < length bits"
  obtains bits' where "bv_set8 pos bits = Some bits'" "length bits' = length bits"
    "\<And>q. marked bits' q \<longleftrightarrow> marked bits q \<or> pos \<le> q \<and> q < pos + 8"
proof -
  let ?i = "pos div 8" let ?k = "pos mod 8"
  let ?b = "bits[?i := bits ! ?i OR drop_bit ?k 0xFF, ?i + 1 := bits ! (?i + 1) OR NOT (drop_bit ?k 0xFF)]"
  have "marked ?b q \<longleftrightarrow> marked bits q \<or> pos \<le> q \<and> q < pos + 8" for q
  proof -
    have q: "q = 8 * (q div 8) + q mod 8" "q mod 8 < 8" "pos = 8 * ?i + ?k" "?k < 8" by simp_all
    consider "q div 8 = ?i" | "q div 8 = ?i + 1" | "q div 8 \<noteq> ?i" "q div 8 \<noteq> ?i + 1" by blast
    then show ?thesis
    proof cases
      case 1
      then have "pos \<le> q \<and> q < pos + 8 \<longleftrightarrow> ?k \<le> q mod 8" using q by linarith
      then show ?thesis using 1 assms q(2) by (auto simp: marked_def bit_or_iff bit_drop_FF)
    next
      case 2
      then have "pos \<le> q \<and> q < pos + 8 \<longleftrightarrow> q mod 8 < ?k" using q by linarith
      then show ?thesis using 2 assms q(2) by (auto simp: marked_def bit_or_iff bit_not_iff bit_drop_FF)
    next
      case 3
      then have "\<not> (pos \<le> q \<and> q < pos + 8)" using q by linarith
      then show ?thesis using 3 by (auto simp: marked_def)
    qed
  qed
  moreover have "bv_set8 pos bits = Some ?b" using assms by (simp add: bv_set8_def)
  ultimately show ?thesis using that [of ?b] by simp
qed

subsection \<open>The loops\<close>

lemma bitmap_push_marks:
  assumes "(pc + n) div 8 < length bits"
  shows "\<exists>bits'. bitmap_push n pc bits = Some (pc + n, bits') \<and> length bits' = length bits \<and>
    (\<forall>q. marked bits' q \<longleftrightarrow> marked bits q \<or> pc \<le> q \<and> q < pc + n)"
  using assms
proof (induction n pc bits rule: bitmap_push.induct)
  case (1 n pc bits)
  have d: "pc div 8 \<le> (pc + n) div 8" by (simp add: div_le_mono)
  consider "8 \<le> n" | "n < 8" "0 < n" | "n = 0" by linarith
  then show ?case
  proof cases
    case 1
    have "pc div 8 + 1 < length bits" using div_le_mono [of "pc + 8" "pc + n" 8] 1 "1.prems" by simp
    then obtain b where b: "bv_set8 pc bits = Some b" "length b = length bits" "\<And>q. marked b q \<longleftrightarrow> marked bits q \<or> pc \<le> q \<and> q < pc + 8"
      by (rule bv_set8_marks) (rule that)
    have "\<exists>b'. bitmap_push (n - 8) (pc + 8) b = Some (pc + n, b') \<and> length b' = length bits \<and>
      (\<forall>q. marked b' q \<longleftrightarrow> marked b q \<or> pc + 8 \<le> q \<and> q < pc + n)"
      using "1.IH"(1) [OF 1 b(1)] "1.prems" b(2) 1 by simp
    then show ?thesis using 1 b by (auto simp: bitmap_push.simps [of n])
  next
    case 2
    have "pc div 8 < length bits" using d "1.prems" by linarith
    then obtain b where b: "bv_set pc bits = Some b" "length b = length bits" "\<And>q. marked b q \<longleftrightarrow> marked bits q \<or> q = pc"
      by (rule bv_set_marks) (rule that)
    have "\<exists>b'. bitmap_push (n - 1) (pc + 1) b = Some (pc + n, b') \<and> length b' = length bits \<and>
      (\<forall>q. marked b' q \<longleftrightarrow> marked b q \<or> pc + 1 \<le> q \<and> q < pc + n)"
      using "1.IH"(2) [OF _ 2(2) b(1)] "1.prems" b(2) 2 by simp
    then show ?thesis using 2 b by (auto simp: bitmap_push.simps [of n])
  next
    case 3
    then show ?thesis by (auto simp: bitmap_push.simps [of 0])
  qed
qed

lemma push_size_le: "push_size b \<le> 32"
proof -
  have "unat (b - 0x60 + 1) \<le> 32" if "0x60 \<le> b" "b \<le> 0x7F"
  proof -
    have "unat b \<le> 127" "96 \<le> unat b" using that by (simp_all add: word_le_nat_alt)
    then show ?thesis using that by (simp add: unat_word_ariths unat_sub word_le_nat_alt)
  qed
  then show ?thesis by (simp add: push_size_def)
qed

lemma instruction_starts_ge: "q \<in> set (instruction_starts code pc) \<Longrightarrow> pc \<le> q \<and> q < length code"
proof (induction code pc rule: instruction_starts.induct)
  case (1 code pc)
  then show ?case by (subst (asm) (2) instruction_starts.simps) (fastforce split: if_splits)
qed

lemma bitmap_loop_marks:
  assumes "length bits = length code div 8 + 5"
  shows "\<exists>bits'. bitmap_loop code pc bits = Some bits' \<and> length bits' = length bits \<and>
    (\<forall>q. q < pc \<longrightarrow> marked bits' q = marked bits q) \<and>
    (\<forall>q. pc \<le> q \<longrightarrow> q < length code \<longrightarrow> (marked bits' q \<longleftrightarrow> marked bits q \<or> q \<notin> set (instruction_starts code pc)))"
  using assms
proof (induction code pc arbitrary: bits rule: instruction_starts.induct)
  case (1 code pc)
  show ?case
  proof (cases "pc < length code")
    case True
    let ?n = "push_size (code ! pc)"
    have "(pc + 1 + ?n) div 8 < length bits"
      using div_le_mono [of "pc + 1 + ?n" "length code + 32" 8] True push_size_le [of "code ! pc"] "1.prems" by simp
    then obtain b where b: "bitmap_push ?n (pc + 1) bits = Some (pc + 1 + ?n, b)" "length b = length bits"
      "\<And>q. marked b q \<longleftrightarrow> marked bits q \<or> pc + 1 \<le> q \<and> q < pc + 1 + ?n"
      using bitmap_push_marks [of "pc + 1" ?n bits] by auto
    have loop: "bitmap_loop code pc bits = bitmap_loop code (pc + 1 + ?n) b"
      using True b(1) by (subst bitmap_loop.simps) (auto simp: push_size_def bitmap_push.simps [of 0] Let_def)
    have st: "instruction_starts code pc = pc # instruction_starts code (pc + 1 + ?n)" using True by (subst instruction_starts.simps) simp
    obtain b' where b': "bitmap_loop code (pc + 1 + ?n) b = Some b'" "length b' = length bits"
      "\<And>q. q < pc + 1 + ?n \<Longrightarrow> marked b' q = marked b q"
      "\<And>q. pc + 1 + ?n \<le> q \<Longrightarrow> q < length code \<Longrightarrow> marked b' q \<longleftrightarrow> marked b q \<or> q \<notin> set (instruction_starts code (pc + 1 + ?n))"
      using "1.IH" [OF True, of b] "1.prems" b(2) by auto
    have "marked b' q \<longleftrightarrow> marked bits q \<or> q \<notin> set (instruction_starts code pc)" if "pc \<le> q" "q < length code" for q
    proof (cases "q < pc + 1 + ?n")
      case True
      then show ?thesis using b'(3) [of q] b(3) [of q] st that instruction_starts_ge [of q code "pc + 1 + ?n"] by auto
    next
      case False
      then show ?thesis using b'(4) [of q] b(3) [of q] st that by auto
    qed
    moreover have "marked b' q = marked bits q" if "q < pc" for q using b'(3) [of q] b(3) [of q] that by auto
    ultimately show ?thesis using loop b'(1,2) by auto
  qed (simp add: bitmap_loop.simps [of code pc])
qed

lemma codeBitmap_marks:
  obtains bits where "codeBitmap code = Some bits" "length bits = length code div 8 + 5"
    "\<And>q. q < length code \<Longrightarrow> marked bits q \<longleftrightarrow> q \<notin> set (instruction_starts code 0)"
proof -
  let ?z = "replicate (length code div 8 + 1 + 4) (0 :: byte)"
  have "\<not> marked ?z q" if "q < length code" for q
  proof -
    have "q div 8 < length code div 8 + 1 + 4" using div_le_mono [of q "length code" 8] that by linarith
    then show ?thesis by (simp add: marked_def nth_replicate del: replicate.simps)
  qed
  then show ?thesis using that bitmap_loop_marks [of ?z code 0] by (auto simp: codeBitmap_def)
qed

subsection \<open>Jump destinations\<close>

lemma isCode_total:
  assumes "unat udest < length (c_Code c)"
  shows "isCode c udest = Some (unat udest \<in> set (instruction_starts (c_Code c) 0))"
proof -
  obtain bits where b: "codeBitmap (c_Code c) = Some bits" "length bits = length (c_Code c) div 8 + 5"
    "\<And>q. q < length (c_Code c) \<Longrightarrow> marked bits q \<longleftrightarrow> q \<notin> set (instruction_starts (c_Code c) 0)"
    by (rule codeBitmap_marks [of "c_Code c"]) (rule that)
  have "unat udest div 8 < length bits" using b(2) assms div_le_mono [of "unat udest" "length (c_Code c)" 8] by linarith
  then show ?thesis using b assms by (simp add: isCode_def codeSegment_marked)
qed

lemma len_word: "n < 2 ^ 63 \<Longrightarrow> unat (word_of_nat n :: uint64) = n"
  by (simp add: unat_of_nat)

lemma uint_less_unat: "uint (x :: u256) < 2 ^ n \<longleftrightarrow> unat x < 2 ^ n"
  using of_nat_less_iff [of "unat x" "2 ^ n", where 'a = int] by simp

lemma low_word: "uint (x :: u256) < 2 ^ 64 \<Longrightarrow> unat (ucast x :: uint64) = unat x"
proof -
  assume "uint x < 2 ^ 64"
  then have "unat x < 2 ^ 64" by (simp only: uint_less_unat)
  then show ?thesis by (simp add: unsigned_ucast_eq take_bit_nat_eq_self)
qed

text \<open>
  C19. A jump is allowed just to a 64-bit position of the code that holds JUMPDEST and at which
  an instruction starts when the code is read from its first byte, so never into the data of a
  push; the analysis does not panic.
\<close>

theorem validJumpdest_correct:
  assumes "uint256_ok U" "length (c_Code c) < 2 ^ 63"
  shows "validJumpdest U c dest =
    Some (unat dest < length (c_Code c) \<and> c_Code c ! unat dest = 0x5B \<and> unat dest \<in> set (instruction_starts (c_Code c) 0))"
proof -
  have u: "u_Uint64WithOverflow U dest = (ucast dest, \<not> uint dest < 2 ^ 64)" using assms(1) by (simp add: uint256_ok_def)
  show ?thesis
  proof (cases "uint dest < 2 ^ 64")
    case True
    note n = low_word [OF True]
    have "(word_of_nat (length (c_Code c)) \<le> (ucast dest :: uint64)) \<longleftrightarrow> \<not> unat dest < length (c_Code c)"
      unfolding word_le_nat_alt n len_word [OF assms(2)] by (simp add: not_less)
    then show ?thesis using True u n isCode_total [of "ucast dest" c] by (simp add: validJumpdest_def)
  next
    case False
    then have "\<not> unat dest < length (c_Code c)" using assms(2) unfolding uint_less_unat by simp
    then show ?thesis using False u by (simp add: validJumpdest_def)
  qed
qed

definition ex_jump :: Contract where
  "ex_jump = (NewContract (AccountRef []) (AccountRef []) None 0)\<lparr>c_Code := [0x60, 0x5B, 0x5B]\<rparr>"

theorem validJumpdest_correct_witness:
  "validJumpdest word_uint256 ex_jump 1 = Some False \<and> validJumpdest word_uint256 ex_jump 2 = Some True"
proof -
  have s: "instruction_starts (c_Code ex_jump) 0 = [0, 2]" by (simp add: ex_jump_def push_size_def instruction_starts.simps)
  show ?thesis using validJumpdest_correct [OF word_uint256_ok, of ex_jump 1] validJumpdest_correct [OF word_uint256_ok, of ex_jump 2] s
    by (simp add: ex_jump_def)
qed

end
