(* ===== verification/Evm_Ops.thy ===== *)
theory Evm_Ops
  imports Evm_Frames Evm_Analysis
begin

section \<open>The instructions keep their contract\<close>

text \<open>
  Every instruction of \<open>Evm_Instructions\<close> does what \<open>Evm_Frames\<close> asks of it: with enough words on
  the stack and enough memory it does not panic, it takes and gives the words that its entry in
  the jump table says, and what it does to the state keeps the invariants.
\<close>

subsection \<open>Operands\<close>

lemma stack_parts:
  "Suc 0 \<le> length xs \<Longrightarrow> \<exists>a ys. xs = a # ys"
  "2 \<le> length xs \<Longrightarrow> \<exists>a b ys. xs = a # b # ys"
  "3 \<le> length xs \<Longrightarrow> \<exists>a b c ys. xs = a # b # c # ys"
  "4 \<le> length xs \<Longrightarrow> \<exists>a b c d ys. xs = a # b # c # d # ys"
  "6 \<le> length xs \<Longrightarrow> \<exists>a b c d e f ys. xs = a # b # c # d # e # f # ys"
  "7 \<le> length xs \<Longrightarrow> \<exists>a b c d e f g ys. xs = a # b # c # d # e # f # g # ys"
  by (auto simp: Suc_le_length_iff eval_nat_numeral)

text \<open>The memory that two operands, an offset and a size, point to.\<close>

definition spans :: "u256 \<Rightarrow> u256 \<Rightarrow> nat \<Rightarrow> bool" where
  "spans off l n \<longleftrightarrow> uint l < 2 ^ 64 \<and> (l = 0 \<or> uint off < 2 ^ 64 \<and> unat off + unat l \<le> n)"

text \<open>What a nested call gets in smoke, and whether the callee is on the access list where there is one.\<close>

definition callee_listed :: "'tr EVMInterpreter \<Rightarrow> callCtx \<Rightarrow> 'tr StateDB \<Rightarrow> bool" where
  "callee_listed i ctx s \<longleftrightarrow> (r_IsYoloV2 (evm_chainRules (in_evm i)) \<longrightarrow> u_Bytes20 (in_u256 i) (f_stack ctx ! 1) \<in> dom (al_addresses (sd_accessList s)))"

definition call_ext :: "uint256 \<Rightarrow> callCtx \<Rightarrow> nat" where
  "call_ext U ctx = unat (f_callSmokeTemp ctx) + (if u_IsZero U (f_stack ctx ! 2) then 0 else 2300)"

definition temp_ext :: "uint256 \<Rightarrow> callCtx \<Rightarrow> nat" where
  "temp_ext U ctx = unat (f_callSmokeTemp ctx)"

text \<open>The smoke and the value of a call that may move coins.\<close>

definition call_smoke :: "uint256 \<Rightarrow> callCtx \<Rightarrow> uint64" where
  "call_smoke U ctx = (if \<not> u_IsZero U (f_stack ctx ! 2) then f_callSmokeTemp ctx + CallStipend else f_callSmokeTemp ctx)"

definition call_value :: "uint256 \<Rightarrow> callCtx \<Rightarrow> int" where
  "call_value U ctx = (if \<not> u_IsZero U (f_stack ctx ! 2) then u_ToBig U (f_stack ctx ! 2) else 0)"

lemma uint256_simps:
  assumes "uint256_ok U"
  shows "u_Uint64 U x = ucast x" "u_IsUint64 U x \<longleftrightarrow> uint x < 2 ^ 64" "u_Uint64WithOverflow U x = (ucast x, \<not> uint x < 2 ^ 64)"
    "u_IsZero U x \<longleftrightarrow> x = 0" "u_Sign U x = 0 \<longleftrightarrow> x = 0" "length (u_Bytes20 U x) = 20" "length (u_Bytes32 U x) = 32"
    "u_ToBig U x = uint x" "u_Add U x y = x + y" "u_Bytes32 U x = zero_hash \<longleftrightarrow> x = 0"
  using assms by (simp_all add: uint256_ok_def)

lemma ucast_eq_0: "uint (x :: u256) < 2 ^ 64 \<Longrightarrow> (ucast x :: uint64) = 0 \<longleftrightarrow> x = 0"
  using low_word [of x] by (metis unat_eq_zero)

lemma calcMemSize64WithUint_spans:
  assumes "uint256_ok U" "calcMemSize64WithUint U off n = (sz, False)" "n \<noteq> 0"
  shows "uint off < 2 ^ 64" "unat off + unat n = unat sz"
proof -
  have c: "uint off < 2 ^ 64" "sz = ucast off + n" "\<not> sz < ucast off"
    using assms(2,3) by (auto simp: calcMemSize64WithUint_def uint256_simps [OF assms(1)] Let_def split: if_splits)
  show "uint off < 2 ^ 64" by (rule c(1))
  have "ucast off \<le> ucast off + n" using c(2,3) by (simp only: not_less)
  then have "unat (ucast off + n) = unat (ucast off :: uint64) + unat n" by (simp only: no_olen_add_nat unat_add_lem)
  then show "unat off + unat n = unat sz" using c(2) low_word [OF c(1)] by simp
qed

lemma calcMemSize64_spans:
  assumes "uint256_ok U" "calcMemSize64 U off l = (sz, False)" "unat sz \<le> n"
  shows "spans off l n"
proof -
  have l: "uint l < 2 ^ 64" "calcMemSize64WithUint U off (ucast l) = (sz, False)"
    using assms(2) by (auto simp: calcMemSize64_def uint256_simps [OF assms(1)] split: if_splits)
  show ?thesis
  proof (cases "l = 0")
    case False
    then have "(ucast l :: uint64) \<noteq> 0" using ucast_eq_0 [OF l(1)] by simp
    from calcMemSize64WithUint_spans [OF assms(1) l(2) this] show ?thesis using l(1) assms(3) low_word [OF l(1)] by (simp add: spans_def)
  qed (use l in \<open>simp add: spans_def\<close>)
qed

lemma covered_range:
  assumes "uint256_ok U" "covered U (Some (mem_range i j)) ctx"
  shows "spans (f_stack ctx ! i) (f_stack ctx ! j) (mem_len ctx)"
proof -
  obtain sz where sz: "mem_range i j U (f_stack ctx) = Some (sz, False)" "unat sz \<le> mem_len ctx" using assms(2) by (auto simp: covered_def)
  then have "calcMemSize64 U (f_stack ctx ! i) (f_stack ctx ! j) = (sz, False)"
    by (auto simp: mem_range_def stack_Back_def split: if_splits bind_split_asm)
  from calcMemSize64_spans [OF assms(1) this sz(2)] show ?thesis .
qed

lemma covered_fixed:
  assumes "uint256_ok U" "covered U (Some (mem_fixed i n)) ctx" "n \<noteq> 0"
  shows "uint (f_stack ctx ! i) < 2 ^ 64 \<and> unat (f_stack ctx ! i) + unat n \<le> mem_len ctx"
proof -
  obtain sz where sz: "mem_fixed i n U (f_stack ctx) = Some (sz, False)" "unat sz \<le> mem_len ctx" using assms(2) by (auto simp: covered_def)
  then have "calcMemSize64WithUint U (f_stack ctx ! i) n = (sz, False)"
    by (auto simp: mem_fixed_def stack_Back_def split: if_splits bind_split_asm)
  from calcMemSize64WithUint_spans [OF assms(1) this assms(3)] show ?thesis using sz(2) by simp
qed

lemma covered_two:
  assumes "covered U (Some (mem_two f g)) ctx"
  shows "covered U (Some f) ctx" "covered U (Some g) ctx"
  using assms by (auto simp: covered_def mem_two_def word_le_nat_alt word_less_nat_alt split: if_splits bind_split_asm)

lemma mem_total_simps [simp]:
  "mem_total p None"
  "i < p \<Longrightarrow> j < p \<Longrightarrow> mem_total p (Some (mem_range i j))"
  "i < p \<Longrightarrow> mem_total p (Some (mem_fixed i n))"
  by (auto simp: mem_total_def mem_range_def mem_fixed_def stack_Back_def)

lemma mem_total_two [simp]:
  assumes "mem_total p (Some f)" "mem_total p (Some g)"
  shows "mem_total p (Some (mem_two f g))"
  unfolding mem_total_def
proof (intro allI impI)
  fix h U and st :: "u256 list" assume h: "Some (mem_two f g) = Some h" and st: "p \<le> length st"
  obtain x y where "f U st = Some x" "g U st = Some y" using assms st unfolding mem_total_def by blast
  then show "h U st \<noteq> None" using h by (cases x; cases y) (auto simp: mem_two_def)
qed

subsection \<open>Memory\<close>

lemma int64_low:
  assumes "uint256_ok U" "uint x < 2 ^ 64" "unat x < 2 ^ 63"
  shows "int64 U x = int (unat x)"
proof -
  have "unat (ucast x :: uint64) < 2 ^ 63" using low_word [OF assms(2)] assms(3) by simp
  then have u: "uint (ucast x :: uint64) < 2 ^ 63" unfolding unat_eq_nat_uint by (simp only: nat_less_iff uint_ge_0) simp
  have "- (2 ^ 63) \<le> uint (ucast x :: uint64)" by (rule order_trans [of _ 0]) simp_all
  then have "sint (ucast x :: uint64) = uint (ucast x :: uint64)"
    unfolding sint_uint by (intro signed_take_bit_int_eq_self) (use u in simp_all)
  also have "\<dots> = int (unat (ucast x :: uint64))" by simp
  finally show ?thesis using low_word [OF assms(2)] by (simp add: int64_def uint256_simps [OF assms(1)])
qed

lemma mem_slice_total:
  assumes "uint256_ok U" "spans off l (length store)" "length store \<le> MaxMemory"
  shows "l = 0 \<and> int64 U l = 0 \<or> (\<exists>d. mem_slice (int64 U off) (int64 U l) store = Some d \<and> length d < 2 ^ 63)"
proof (cases "l = 0")
  case True
  then show ?thesis by (simp add: int64_def uint256_simps [OF assms(1)])
next
  case False
  then have s: "uint off < 2 ^ 64" "uint l < 2 ^ 64" "unat off + unat l \<le> length store" using assms(2) by (simp_all add: spans_def)
  have sl: "mem_slice (int n) (int k) store = Some (go_slice store n (n + k))" if "n + k \<le> length store" for n k
    using that by (simp add: nat_add_distrib)
  have u: "unat off < 2 ^ 63" "unat l < 2 ^ 63" using s(3) assms(3) by (simp_all add: MaxMemory_def)
  have "mem_slice (int64 U off) (int64 U l) store = Some (go_slice store (unat off) (unat off + unat l))"
    unfolding int64_low [OF assms(1) s(1) u(1)] int64_low [OF assms(1) s(2) u(2)] by (intro sl s(3))
  moreover have "length (go_slice store (unat off) (unat off + unat l)) < 2 ^ 63" using assms(3) by (simp add: go_slice_def MaxMemory_def)
  ultimately show ?thesis by blast
qed

lemma mem_Get_total:
  assumes "uint256_ok U" "spans off l (length (m_store m))" "length (m_store m) \<le> MaxMemory"
  shows "\<exists>d. mem_GetPtr (int64 U off) (int64 U l) m = Some d \<and> length d < 2 ^ 63" "\<exists>d. mem_GetCopy (int64 U off) (int64 U l) m = Some d \<and> length d < 2 ^ 63"
  using mem_slice_total [OF assms] by (auto simp: mem_GetPtr_def mem_GetCopy_def)

lemma mem_Len_unat: "length (m_store m) \<le> MaxMemory \<Longrightarrow> unat (mem_Len m) = length (m_store m)"
  by (simp add: MaxMemory_def unat_of_nat)

lemma fits_word:
  assumes "uint off < 2 ^ 64" "unat off + unat n \<le> length (m_store m)" "length (m_store m) \<le> MaxMemory"
  shows "\<not> (mem_Len m < ucast off + n \<or> ucast off + n < ucast (off :: u256))"
proof -
  note o = low_word [OF assms(1)]
  have "unat (ucast off + n :: uint64) = unat off + unat n" using assms(2,3) o by (simp add: unat_word_ariths MaxMemory_def)
  then show ?thesis using assms(2) o by (simp add: word_less_nat_alt mem_Len_unat [OF assms(3)])
qed

lemma mem_Set_total:
  assumes "uint256_ok U" "spans off l (length (m_store m))" "length (m_store m) \<le> MaxMemory"
  shows "\<exists>m'. mem_Set (u_Uint64 U off) (u_Uint64 U l) v m = Some m' \<and> length (m_store m') = length (m_store m)"
proof (cases "l = 0")
  case True
  then show ?thesis by (simp add: mem_Set_def uint256_simps [OF assms(1)])
next
  case False
  then have s: "uint off < 2 ^ 64" "uint l < 2 ^ 64" "unat off + unat l \<le> length (m_store m)" using assms(2) by (simp_all add: spans_def)
  have f: "\<not> (mem_Len m < ucast off + ucast l \<or> ucast off + ucast l < (ucast off :: uint64))"
    using fits_word [OF s(1) _ assms(3), of "ucast l"] s(3) low_word [OF s(2)] by simp
  have "0 < (ucast l :: uint64)" using ucast_eq_0 [OF s(2)] False by (simp add: word_gt_0)
  moreover have "unat (ucast off :: uint64) \<le> length (m_store m)" using s(3) low_word [OF s(1)] by simp
  ultimately show ?thesis using f by (simp add: mem_Set_def uint256_simps [OF assms(1)])
qed

lemma mem_Set32_total:
  assumes "uint256_ok U" "uint off < 2 ^ 64" "unat off + 32 \<le> length (m_store m)" "length (m_store m) \<le> MaxMemory"
  shows "\<exists>m'. mem_Set32 U (u_Uint64 U off) v m = Some m' \<and> length (m_store m') = length (m_store m)"
proof -
  have f: "\<not> (mem_Len m < ucast off + 32 \<or> ucast off + 32 < (ucast off :: uint64))"
    using fits_word [OF assms(2) _ assms(4), of 32] assms(3) by simp
  have o: "unat (ucast off :: uint64) \<le> length (m_store m)" "unat (ucast off :: uint64) = unat off" using assms(3) low_word [OF assms(2)] by simp_all
  have "length (u_WriteToSlice U v xs) = length xs" if "32 \<le> length xs" for xs using assms(1) that by (simp add: uint256_ok_def)
  then show ?thesis using f o assms(3) by (simp add: mem_Set32_def uint256_simps [OF assms(1)] Let_def)
qed

lemma getData_total:
  assumes "length data < 2 ^ 63" "unat sz < 2 ^ 63"
  shows "\<exists>d. getData data start sz = Some d"
proof -
  let ?len = "word_of_nat (length data) :: uint64"
  let ?start = "if ?len < start then ?len else start"
  have l: "unat ?len < 2 ^ 63" using assms(1) by (simp add: len_word)
  then have st: "unat ?start < 2 ^ 63" "unat ?start \<le> unat ?len" by (auto simp: word_less_nat_alt not_less)
  define b where "b = ?start"
  have "unat (b + sz) = unat b + unat sz" using st(1) assms(2) unfolding b_def [symmetric] by (simp add: unat_word_ariths)
  then have "\<not> (if ?len < b + sz then ?len else b + sz) < b" using st(2) unfolding b_def [symmetric] by (simp add: word_less_nat_alt)
  then show ?thesis unfolding getData_def Let_def b_def [symmetric] by simp
qed

lemma copy_data_total:
  assumes "uint256_ok U" "spans memOffset len (mem_len ctx)" "mem_len ctx \<le> MaxMemory" "length data < 2 ^ 63"
  shows "\<exists>m. copy_data U data memOffset dataOffset len ctx = Some (ctx\<lparr>f_memory := m\<rparr>) \<and> length (m_store m) = mem_len ctx"
proof -
  have "unat (ucast len :: uint64) < 2 ^ 63" using assms(2,3) low_word [of len] by (auto simp: spans_def MaxMemory_def)
  then obtain d where d: "getData data (if \<not> uint dataOffset < 2 ^ 64 then 0xFFFFFFFFFFFFFFFF else ucast dataOffset) (ucast len) = Some d"
    using getData_total [OF assms(4)] by blast
  obtain m where "mem_Set (u_Uint64 U memOffset) (u_Uint64 U len) d (f_memory ctx) = Some m" "length (m_store m) = mem_len ctx"
    using mem_Set_total [OF assms(1-3), of d] by blast
  then show ?thesis using d by (auto simp: copy_data_def uint256_simps [OF assms(1)] Let_def)
qed

subsection \<open>State\<close>

context state_store begin

lemma still_entry:
  assumes "tx s" "exec K db x s = Some s'" "x \<in> range OpAddLog \<or> (\<exists>h d. x = OpAddPreimage h d) \<or> (\<exists>a k. x = OpAddSlot a k)"
  shows "still K db A s s'" "v_objects (vw s') = v_objects (vw s)"
proof -
  have st: "steps K db A s s'" using steps_op [OF assms(1,2)] assms(3) by auto
  have tx': "tx s'" by (rule steps_tx [OF assms(1) st])
  have f: "sd_stateObjects s' = sd_stateObjects s" "sd_trie s' = sd_trie s" "sd_snap s' = sd_snap s" "sd_snapDestructs s' = sd_snapDestructs s"
    "sd_refund s' = sd_refund s"
    using assms(2,3) by (auto simp: AddLog_def AddPreimage_def AddSlotToAccessList_def journal_append_def Let_def split: if_splits option.splits)
  have al: "al_ok (sd_accessList s)" using assms(1) by (simp add: tx_state_def)
  have dom: "dom (al_addresses (sd_accessList s)) \<subseteq> dom (al_addresses (sd_accessList s'))"
  proof (cases "\<exists>a k. x = OpAddSlot a k")
    case True
    then obtain a k c d al' where "AddSlot (sd_accessList s) a k = Some ((c, d), al')" "sd_accessList s' = al'"
      using assms(2) by (auto simp: AddSlotToAccessList_def journal_append_def Let_def split: option.splits)
    then show ?thesis using AddSlot_sets(1) [OF al] by (metis subset_insertI)
  next
    case False
    then show ?thesis using assms(2,3) by (auto simp: AddLog_def AddPreimage_def journal_append_def Let_def)
  qed
  have sb: "same_bal K db A s s'" using bal_objects [OF f(1-3)] assms(1) tx' by (simp add: tx_state_def)
  show ob: "v_objects (vw s') = v_objects (vw s)"
    using f by (simp add: view_def fun_eq_iff lookup_obj_def base_data_def sd_ctx_def cong: option.case_cong)
  have "tame (vw s) (vw s')" using ob f(5) dom by (intro tame_shared) simp_all
  then show "still K db A s s'" using st sb by (simp add: still_def)
qed

lemma Suicide_bal:
  assumes tx: "tx s" and a: "a \<in> A" and b: "b \<in> A"
  shows "bal K db (snd (Suicide K db a s)) b = (if b = a then 0 else bal K db s b)"
proof -
  have ok: "ok s" using tx by (simp add: tx_state_def)
  obtain s1 where s1: "getStateObject K db a s = (live_obj K db s a, s1)" "loads K db good a s s1"
    using getStateObject_loads [OF ok] by blast
  note l = loads_props [OF ok s1(2) a]
  have e1: "bal K db s1 b = bal K db s b" by (rule bal_cong [OF ok l(1,2) b])
  show ?thesis
  proof (cases "live_obj K db s a")
    case None
    then show ?thesis using s1(1) e1 bal_live [OF ok, of a] by (simp add: Suicide_def)
  next
    case (Some obj)
    have oo: "obj_ok K good a obj" using lookup_ok [OF ok a live_lookup [OF Some]] .
    have st: "steps K db A s (snd (Suicide K db a s))" using steps_op [OF tx, of "OpSuicide a"] a by simp
    then have "ok (snd (Suicide K db a s))" using steps_tx [OF tx] by (simp add: tx_state_def)
    moreover have "\<not> so_deleted obj" "so_address obj = a" using Some oo by (auto simp: live_obj_def obj_ok_def split: option.splits if_splits)
    ultimately show ?thesis using s1(1) Some e1 put_bal [OF l(1)] by (simp add: Suicide_def markSuicided_def)
  qed
qed

lemma calm_Suicide:
  assumes "tx s" "finite A" "a \<in> A" "b \<in> A" "GetBalance K db a s = (v, s1)"
  shows "calm K db A s (snd (Suicide K db a (AddBalance K db b v s1)))"
proof -
  let ?s2 = "AddBalance K db b v s1" let ?s3 = "snd (Suicide K db a ?s2)"
  have l1: "looks K db A s s1" using looks_reads(1) [OF assms(1,3)] assms(5) by simp
  have tx1: "tx s1" by (rule looks_tx [OF assms(1) l1])
  have st2: "steps K db A s1 ?s2" by (rule steps_writes(2) [OF tx1 assms(4)])
  have tx2: "tx ?s2" by (rule steps_tx [OF tx1 st2])
  have st3: "steps K db A ?s2 ?s3" using steps_op [OF tx2, of "OpSuicide a" ?s3] assms(3) by simp
  have ok: "ok s1" "ok ?s2" using tx1 tx2 by (simp_all add: tx_state_def)
  have v: "v = bal K db s1 a" using same_view_bal [OF assms(1) tx1] l1 assms(3,5) by (simp add: looks_def same_bal_def bal_def)
  have e: "bal K db ?s3 c = (if c = a then 0 else bal K db s1 c + (if c = b then v else 0))" if "c \<in> A" for c
    using Suicide_bal [OF tx2 assms(3) that] moves_bal(1) [OF ok(1) assms(4) that] by simp
  have "no_mint K db A s1 ?s3" unfolding no_mint_def
  proof (intro impI conjI)
    assume nn: "\<forall>c\<in>A. 0 \<le> bal K db s1 c"
    then have v0: "0 \<le> v" using v assms(3) by simp
    then show "\<forall>c\<in>A. 0 \<le> bal K db ?s3 c" using e nn by simp
    have "total K db A ?s3 \<le> (\<Sum>c\<in>A. bal K db s1 c + (if c = b then v else 0) - (if c = a then v else 0))"
      unfolding total_def using e v v0 by (intro sum_mono) auto
    also have "\<dots> = total K db A s1" using assms(2-4) by (simp add: total_def sum.distrib sum_subtractf)
    finally show "total K db A ?s3 \<le> total K db A s1" .
  qed
  moreover have "tame (vw s1) (vw ?s2)" "tame (vw ?s2) (vw ?s3)"
    using setters_puts(1) [OF ok(1) assms(4)] Suicide_puts [OF ok(2) assms(3)] puts_tame tame_refl by metis+
  ultimately have "calm K db A s1 ?s3" using st2 st3 steps_trans tame_trans unfolding calm_def by blast
  then show ?thesis using looks_calm [OF assms(1) l1] calm_trans by blast
qed

subsection \<open>Instructions that only work on the stack\<close>

abbreviation plain :: "nat \<Rightarrow> nat \<Rightarrow> memorySizeFunc option \<Rightarrow> 'tr executionFunc \<Rightarrow> bool" where
  "plain \<equiv> plain_exec K db good A"

abbreviation does :: "nat \<Rightarrow> nat \<Rightarrow> callCtx \<Rightarrow> 'tr StateDB \<Rightarrow> (bytes \<times> vm_err option \<times> callCtx \<times> 'tr StateDB) option \<Rightarrow> bool" where
  "does p q ctx s r \<equiv> \<exists>x. r = Some x \<and> exec_post K db A p q ctx s x"

lemma ready_facts:
  assumes "is_ready i ctx s"
  shows "uint256_ok (in_u256 i)" "in_keccak i = K" "in_db i = db" "ctx_Address ctx \<in> A" "tx s" "mem_len ctx \<le> MaxMemory"
    "length (c_Code (f_contract ctx)) < 2 ^ 63" "length (c_Input (f_contract ctx)) < 2 ^ 63" "c_value (f_contract ctx) \<noteq> None"
    "u_Bytes20 (in_u256 i) w \<in> A" "finite A" "evm_ChainID (in_evm i) \<noteq> None"
  using assms by (auto simp: ready_def machine_def contract_ok_def runs_as_def uint256_ok_def sound_def)

lemma plainI:
  assumes "\<And>i ctx s. is_ready i ctx s \<Longrightarrow> p \<le> length (f_stack ctx) \<Longrightarrow> covered (in_u256 i) mf ctx \<Longrightarrow> does p q ctx s (f i ctx s)"
  shows "plain p q mf f"
  using assms by (simp add: plain_exec_def)

lemmas stack_defs = stack_push_def stack_pop_def stack_top_def stack_Back_def finished_def exec_post_def

lemma unary_plain: "plain 1 1 mf (unary_op f)"
  by (rule plainI) (auto dest!: stack_parts(1) simp: unary_op_def stack_defs)

lemma binary_plain: "plain 2 1 mf (binary_op f)"
  by (rule plainI) (auto dest!: stack_parts(2) simp: binary_op_def stack_defs)

lemma ternary_plain: "plain 3 1 mf (ternary_op f)"
  by (rule plainI) (auto dest!: stack_parts(3) simp: ternary_op_def stack_defs)

lemma push_plain: "(\<And>i ctx s. is_ready i ctx s \<Longrightarrow> f i ctx \<noteq> None) \<Longrightarrow> plain 0 1 mf (push_op f)"
  by (rule plainI) (fastforce simp: push_op_def stack_defs)

lemma arithmetic_plain:
  "plain 2 1 mf opAdd" "plain 2 1 mf opSub" "plain 2 1 mf opMul" "plain 2 1 mf opDiv" "plain 2 1 mf opSdiv" "plain 2 1 mf opMod"
  "plain 2 1 mf opSmod" "plain 2 1 mf opExp" "plain 2 1 mf opSignExtend" "plain 1 1 mf opNot" "plain 2 1 mf opLt" "plain 2 1 mf opGt"
  "plain 2 1 mf opSlt" "plain 2 1 mf opSgt" "plain 2 1 mf opEq" "plain 1 1 mf opIszero" "plain 2 1 mf opAnd" "plain 2 1 mf opOr"
  "plain 2 1 mf opXor" "plain 2 1 mf opByte" "plain 3 1 mf opAddmod" "plain 3 1 mf opMulmod" "plain 2 1 mf opSHL" "plain 2 1 mf opSHR" "plain 2 1 mf opSAR"
  unfolding opAdd_def opSub_def opMul_def opDiv_def opSdiv_def opMod_def opSmod_def opExp_def opSignExtend_def opNot_def opLt_def opGt_def
    opSlt_def opSgt_def opEq_def opIszero_def opAnd_def opOr_def opXor_def opByte_def opAddmod_def opMulmod_def opSHL_def opSHR_def opSAR_def
  by (rule unary_plain binary_plain ternary_plain)+

lemma environment_plain:
  "plain 0 1 mf opAddress" "plain 0 1 mf opOrigin" "plain 0 1 mf opCaller" "plain 0 1 mf opCallValue" "plain 0 1 mf opCallDataSize"
  "plain 0 1 mf opReturnDataSize" "plain 0 1 mf opCodeSize" "plain 0 1 mf opSmokeprice" "plain 0 1 mf opCoinbase" "plain 0 1 mf opTimestamp"
  "plain 0 1 mf opNumber" "plain 0 1 mf opDifficulty" "plain 0 1 mf opSmokeLimit" "plain 0 1 mf opChainID" "plain 0 1 mf opPc"
  "plain 0 1 mf opMsize" "plain 0 1 mf opSmoke"
  unfolding opAddress_def opOrigin_def opCaller_def opCallValue_def opCallDataSize_def opReturnDataSize_def opCodeSize_def opSmokeprice_def
    opCoinbase_def opTimestamp_def opNumber_def opDifficulty_def opSmokeLimit_def opChainID_def opPc_def opMsize_def opSmoke_def
  by (rule push_plain, simp add: ready_facts(9,12))+

lemma stack_plain:
  "plain 1 0 mf opPop" "plain 0 0 mf opJumpdest" "plain 0 0 mf opBeginSub" "plain 0 0 mf opStop"
  by (rule plainI, auto dest!: stack_parts(1) simp: opPop_def opJumpdest_def opBeginSub_def opStop_def stack_defs)+

lemma opPush_plain: "plain 0 1 mf opPush1" "plain 0 1 mf (makePush k n)"
  by (rule plainI, simp only: opPush1_def makePush_def finished_def Let_def, simp add: stack_push_def exec_post_def)+

lemma opBlockhash_plain: "plain 1 1 mf opBlockhash"
  by (rule plainI) (auto dest!: stack_parts(1) simp: opBlockhash_def stack_defs Let_def case_prod_beta)

lemma opReturnSub_plain: "plain 0 0 mf opReturnSub"
  by (rule plainI) (auto simp: opReturnSub_def stack_defs split: list.splits)

lemma dup_swap_plain:
  "1 \<le> n \<Longrightarrow> plain n (n + 1) mf (makeDup n)" "plain (n + 1) (n + 1) mf (makeSwap n)"
  by (rule plainI, auto simp: makeDup_def makeSwap_def stack_dup_def stack_swap_def stack_defs Let_def)+

subsection \<open>Jumps\<close>

lemma validJumpdest_total:
  assumes "uint256_ok U" "length (c_Code c) < 2 ^ 63"
  shows "\<exists>v. validJumpdest U c dest = Some v" "\<exists>v. validJumpSubdest c udest = Some v"
proof -
  have in_code: "unat n < length (c_Code c)" if "\<not> word_of_nat (length (c_Code c)) \<le> (n :: uint64)" for n
    using that by (simp add: word_le_nat_alt len_word [OF assms(2)])
  show "\<exists>v. validJumpdest U c dest = Some v"
    using isCode_total [OF in_code, of "ucast dest"] by (auto simp: validJumpdest_def uint256_simps [OF assms(1)])
  show "\<exists>v. validJumpSubdest c udest = Some v"
    using isCode_total [OF in_code, of udest] by (auto simp: validJumpSubdest_def)
qed

lemma jump_plain: "plain 1 0 mf opJump" "plain 2 0 mf opJumpi" "plain 1 0 mf opJumpSub"
proof -
  show "plain 1 0 mf opJump"
  proof (rule plainI)
    fix i ctx and s :: "'tr StateDB" assume r: "is_ready i ctx s" and st: "1 \<le> length (f_stack ctx)"
    obtain pos rest where "f_stack ctx = pos # rest" using stack_parts(1) [of "f_stack ctx"] st by auto
    moreover obtain v where "validJumpdest (in_u256 i) (f_contract ctx) pos = Some v" using validJumpdest_total(1) [OF ready_facts(1,7) [OF r]] by blast
    ultimately show "does 1 0 ctx s (opJump i ctx s)" by (auto simp: opJump_def stack_defs Let_def)
  qed
  show "plain 2 0 mf opJumpi"
  proof (rule plainI)
    fix i ctx and s :: "'tr StateDB" assume r: "is_ready i ctx s" and st: "2 \<le> length (f_stack ctx)"
    obtain pos cond rest where "f_stack ctx = pos # cond # rest" using stack_parts(2) [OF st] by auto
    moreover obtain v where "validJumpdest (in_u256 i) (f_contract ctx) pos = Some v" using validJumpdest_total(1) [OF ready_facts(1,7) [OF r]] by blast
    ultimately show "does 2 0 ctx s (opJumpi i ctx s)" by (auto simp: opJumpi_def stack_defs Let_def)
  qed
  show "plain 1 0 mf opJumpSub"
  proof (rule plainI)
    fix i ctx and s :: "'tr StateDB" assume r: "is_ready i ctx s" and st: "1 \<le> length (f_stack ctx)"
    obtain pos rest where "f_stack ctx = pos # rest" using stack_parts(1) [of "f_stack ctx"] st by auto
    moreover obtain v where "validJumpSubdest (f_contract ctx) (u_Uint64 (in_u256 i) pos) = Some v"
      using validJumpdest_total(2) [OF ready_facts(1,7) [OF r]] by blast
    ultimately show "does 1 0 ctx s (opJumpSub i ctx s)" by (auto simp: opJumpSub_def stack_defs Let_def)
  qed
qed

subsection \<open>Reads of the state\<close>

lemma opBalance_plain: "plain 1 1 mf opBalance"
proof (rule plainI)
  fix i ctx and s :: "'tr StateDB" assume r: "is_ready i ctx s" and st: "1 \<le> length (f_stack ctx)"
  note f = ready_facts [OF r]
  obtain a rest where a: "f_stack ctx = a # rest" using stack_parts(1) [of "f_stack ctx"] st by auto
  let ?a = "u_Bytes20 (in_u256 i) a"
  have "calm K db A s (snd (GetBalance K db ?a s))" by (rule looks_calm [OF f(5) looks_reads(1) [OF f(5,10)]])
  then show "does 1 1 ctx s (opBalance i ctx s)" using a by (simp add: opBalance_def stack_addr_def f(2,3) stack_defs case_prod_beta)
qed

lemma opSelfBalance_plain: "plain 0 1 mf opSelfBalance"
proof (rule plainI)
  fix i ctx and s :: "'tr StateDB" assume r: "is_ready i ctx s"
  note f = ready_facts [OF r]
  have "calm K db A s (snd (GetBalance K db (ctx_Address ctx) s))" by (rule looks_calm [OF f(5) looks_reads(1) [OF f(5,4)]])
  then show "does 0 1 ctx s (opSelfBalance i ctx s)" by (simp add: opSelfBalance_def f(2,3) stack_defs case_prod_beta)
qed

lemma opExtCodeSize_plain: "plain 1 1 mf opExtCodeSize"
proof (rule plainI)
  fix i ctx and s :: "'tr StateDB" assume r: "is_ready i ctx s" and st: "1 \<le> length (f_stack ctx)"
  note f = ready_facts [OF r]
  obtain a rest where a: "f_stack ctx = a # rest" using stack_parts(1) [of "f_stack ctx"] st by auto
  have "calm K db A s (snd (GetCodeSize K db (u_Bytes20 (in_u256 i) a) s))" by (rule looks_calm [OF f(5) looks_code(2) [OF f(5,10)]])
  then show "does 1 1 ctx s (opExtCodeSize i ctx s)" using a by (simp add: opExtCodeSize_def stack_addr_def f(2,3) stack_defs case_prod_beta)
qed

lemma opExtCodeHash_plain: "plain 1 1 mf opExtCodeHash"
proof (rule plainI)
  fix i ctx and s :: "'tr StateDB" assume r: "is_ready i ctx s" and st: "1 \<le> length (f_stack ctx)"
  note f = ready_facts [OF r]
  obtain a rest where a: "f_stack ctx = a # rest" using stack_parts(1) [of "f_stack ctx"] st by auto
  let ?a = "u_Bytes20 (in_u256 i) a" let ?s1 = "snd (Empty K db ?a s)"
  have l1: "looks K db A s ?s1" by (rule looks_reads(5) [OF f(5,10)])
  have "looks K db A ?s1 (snd (GetCodeHash K db ?a ?s1))" by (rule looks_reads(3) [OF looks_tx [OF f(5) l1] f(10)])
  then have "calm K db A s ?s1" "calm K db A s (snd (GetCodeHash K db ?a ?s1))" using l1 looks_trans looks_calm [OF f(5)] by blast+
  then show "does 1 1 ctx s (opExtCodeHash i ctx s)" using a by (simp add: opExtCodeHash_def stack_addr_def f(2,3) stack_defs case_prod_beta Let_def)
qed

lemma opSload_plain: "plain 1 1 mf opSload"
proof (rule plainI)
  fix i ctx and s :: "'tr StateDB" assume r: "is_ready i ctx s" and st: "1 \<le> length (f_stack ctx)"
  note f = ready_facts [OF r]
  obtain loc rest where a: "f_stack ctx = loc # rest" using stack_parts(1) [of "f_stack ctx"] st by auto
  obtain v s' where g: "GetState K db (ctx_Address ctx) (u_Bytes32 (in_u256 i) loc) s = Some (v, s')" "looks K db A s s'"
    by (rule looks_slot [OF f(5,4)]) (rule that)
  then show "does 1 1 ctx s (opSload i ctx s)" using a looks_calm [OF f(5) g(2)] by (simp add: opSload_def f(2,3) stack_defs)
qed

lemma opSuicide_plain: "plain 1 0 mf opSuicide"
proof (rule plainI)
  fix i ctx and s :: "'tr StateDB" assume r: "is_ready i ctx s" and st: "1 \<le> length (f_stack ctx)"
  note f = ready_facts [OF r]
  obtain a rest where a: "f_stack ctx = a # rest" using stack_parts(1) [of "f_stack ctx"] st by auto
  obtain v s1 where v: "GetBalance K db (ctx_Address ctx) s = (v, s1)" by fastforce
  from calm_Suicide [OF f(5,11,4,10) v, of a] show "does 1 0 ctx s (opSuicide i ctx s)"
    using a v by (simp add: opSuicide_def f(2,3) stack_defs case_prod_beta Let_def ctx_Address_def)
qed

subsection \<open>Memory\<close>

lemma opSha3_plain: "plain 2 1 (Some memorySha3) opSha3"
proof (rule plainI)
  fix i ctx and s :: "'tr StateDB" assume r: "is_ready i ctx s" and st: "2 \<le> length (f_stack ctx)" and c: "covered (in_u256 i) (Some memorySha3) ctx"
  note f = ready_facts [OF r]
  obtain off sz rest where a: "f_stack ctx = off # sz # rest" using stack_parts(2) [OF st] by auto
  obtain d where d: "mem_GetPtr (int64 (in_u256 i) off) (int64 (in_u256 i) sz) (f_memory ctx) = Some d"
    using mem_Get_total(1) [OF f(1) _ f(6)] covered_range [OF f(1) c] a by auto
  have "calm K db A s (AddPreimage (K d) d s)" using still_calm [OF still_entry(1) [OF f(5), of "OpAddPreimage (K d) d"]] by simp
  then show "does 2 1 ctx s (opSha3 i ctx s)" using a d by (simp add: opSha3_def f(2) stack_defs Let_def)
qed

lemma opCallDataLoad_plain: "plain 1 1 mf opCallDataLoad"
proof (rule plainI)
  fix i ctx and s :: "'tr StateDB" assume r: "is_ready i ctx s" and st: "1 \<le> length (f_stack ctx)"
  note f = ready_facts [OF r]
  obtain a rest where a: "f_stack ctx = a # rest" using stack_parts(1) [of "f_stack ctx"] st by auto
  obtain d where "getData (c_Input (f_contract ctx)) (ucast a) 32 = Some d" using getData_total [OF f(8), of 32] by auto
  then show "does 1 1 ctx s (opCallDataLoad i ctx s)" using a by (simp add: opCallDataLoad_def uint256_simps [OF f(1)] stack_defs Let_def)
qed

lemma copy_plain: "plain 3 0 (Some memoryCallDataCopy) opCallDataCopy" "plain 3 0 (Some memoryCodeCopy) opCodeCopy"
proof -
  { fix i ctx and s :: "'tr StateDB" assume r: "is_ready i ctx s" and st: "3 \<le> length (f_stack ctx)" and c: "covered (in_u256 i) (Some (mem_range 0 2)) ctx"
    note f = ready_facts [OF r]
    obtain m d l rest where a: "f_stack ctx = m # d # l # rest" using stack_parts(3) [OF st] by auto
    have sp: "spans m l (mem_len (ctx\<lparr>f_stack := rest\<rparr>))" "mem_len (ctx\<lparr>f_stack := rest\<rparr>) \<le> MaxMemory" using covered_range [OF f(1) c] a f(6) by simp_all
    obtain m1 where "copy_data (in_u256 i) (c_Input (f_contract ctx)) m d l (ctx\<lparr>f_stack := rest\<rparr>) = Some (ctx\<lparr>f_stack := rest, f_memory := m1\<rparr>)" "length (m_store m1) = mem_len ctx"
      using copy_data_total [OF f(1) sp f(8), of d] by auto
    moreover obtain m2 where "copy_data (in_u256 i) (c_Code (f_contract ctx)) m d l (ctx\<lparr>f_stack := rest\<rparr>) = Some (ctx\<lparr>f_stack := rest, f_memory := m2\<rparr>)" "length (m_store m2) = mem_len ctx"
      using copy_data_total [OF f(1) sp f(7), of d] by auto
    ultimately have "does 3 0 ctx s (opCallDataCopy i ctx s)" "does 3 0 ctx s (opCodeCopy i ctx s)"
      using a by (simp_all add: opCallDataCopy_def opCodeCopy_def stack_defs) }
  then show "plain 3 0 (Some memoryCallDataCopy) opCallDataCopy" "plain 3 0 (Some memoryCodeCopy) opCodeCopy"
    by (intro plainI; simp)+
qed

lemma opExtCodeCopy_plain: "plain 4 0 (Some memoryExtCodeCopy) opExtCodeCopy"
proof (rule plainI)
  fix i ctx and s :: "'tr StateDB" assume r: "is_ready i ctx s" and st: "4 \<le> length (f_stack ctx)" and c: "covered (in_u256 i) (Some memoryExtCodeCopy) ctx"
  note f = ready_facts [OF r]
  obtain a m d l rest where a: "f_stack ctx = a # m # d # l # rest" using stack_parts(4) [OF st] by auto
  obtain code s1 where g: "GetCode K db (u_Bytes20 (in_u256 i) a) s = (code, s1)" by fastforce
  have len: "length (code_bytes code) < 2 ^ 63" using GetCode_short [OF readyD(1) [OF r] f(10), of a] g by simp
  have sp: "spans m l (mem_len (ctx\<lparr>f_stack := rest\<rparr>))" "mem_len (ctx\<lparr>f_stack := rest\<rparr>) \<le> MaxMemory"
    using covered_range [OF f(1) c] a f(6) by simp_all
  obtain m1 where "copy_data (in_u256 i) (code_bytes code) m d l (ctx\<lparr>f_stack := rest\<rparr>) = Some (ctx\<lparr>f_stack := rest, f_memory := m1\<rparr>)" "length (m_store m1) = mem_len ctx"
    using copy_data_total [OF f(1) sp len, of d] by auto
  moreover have "calm K db A s s1" using looks_calm [OF f(5) looks_code(1) [OF f(5,10), of a]] g by simp
  ultimately show "does 4 0 ctx s (opExtCodeCopy i ctx s)" using a g by (simp add: opExtCodeCopy_def f(2,3) stack_defs)
qed

lemma opReturnDataCopy_plain: "plain 3 0 (Some memoryReturnDataCopy) opReturnDataCopy"
proof (rule plainI)
  fix i ctx and s :: "'tr StateDB"
  assume r: "is_ready i ctx s" and st: "3 \<le> length (f_stack ctx)" and c: "covered (in_u256 i) (Some memoryReturnDataCopy) ctx"
  note f = ready_facts [OF r]
  obtain m d l rest where a: "f_stack ctx = m # d # l # rest" using stack_parts(3) [OF st] by auto
  have sp: "spans m l (mem_len ctx)" using covered_range [OF f(1) c] a by simp
  have ord: "\<not> (ucast (d + l) :: uint64) < ucast d" if "uint d < 2 ^ 64" "uint (d + l) < 2 ^ 64"
  proof -
    have "unat d < 2 ^ 64" "unat l < 2 ^ 64" using that(1) sp by (simp_all only: spans_def uint_less_unat)
    then have "unat (d + l) = unat d + unat l" by (simp add: unat_word_ariths)
    then show ?thesis using low_word [OF that(1)] low_word [OF that(2)] by (simp add: word_less_nat_alt)
  qed
  obtain m' where "mem_Set (ucast m) (ucast l) (go_slice (f_returnData ctx) (unat (ucast d :: uint64)) (unat (ucast (d + l) :: uint64))) (f_memory ctx) = Some m'"
    "length (m_store m') = mem_len ctx"
    using mem_Set_total [OF f(1) sp f(6), unfolded uint256_simps [OF f(1)]] by blast
  then show "does 3 0 ctx s (opReturnDataCopy i ctx s)"
    using a ord by (simp add: opReturnDataCopy_def uint256_simps [OF f(1)] stack_defs Let_def)
qed

lemma opMload_plain: "plain 1 1 (Some memoryMLoad) opMload"
proof (rule plainI)
  fix i ctx and s :: "'tr StateDB" assume r: "is_ready i ctx s" and st: "1 \<le> length (f_stack ctx)" and c: "covered (in_u256 i) (Some memoryMLoad) ctx"
  note f = ready_facts [OF r]
  obtain v rest where a: "f_stack ctx = v # rest" using stack_parts(1) [of "f_stack ctx"] st by auto
  have sp: "uint v < 2 ^ 64" "unat v + 32 \<le> mem_len ctx" using covered_fixed [OF f(1) c] a by simp_all
  then have u: "unat v < 2 ^ 63" using f(6) by (simp add: MaxMemory_def)
  have sl: "mem_GetPtr (int n) 32 (f_memory ctx) \<noteq> None" if "n + 32 \<le> mem_len ctx" for n using that by (simp add: mem_GetPtr_def)
  obtain d where "mem_GetPtr (int64 (in_u256 i) v) 32 (f_memory ctx) = Some d"
    using sl [OF sp(2)] unfolding int64_low [OF f(1) sp(1) u] by blast
  then show "does 1 1 ctx s (opMload i ctx s)" using a by (simp add: opMload_def stack_defs Let_def)
qed

lemma opMstore_plain: "plain 2 0 (Some memoryMStore) opMstore" "plain 2 0 (Some memoryMStore8) opMstore8"
proof -
  show "plain 2 0 (Some memoryMStore) opMstore"
  proof (rule plainI)
    fix i ctx and s :: "'tr StateDB" assume r: "is_ready i ctx s" and st: "2 \<le> length (f_stack ctx)" and c: "covered (in_u256 i) (Some memoryMStore) ctx"
    note f = ready_facts [OF r]
    obtain off v rest where a: "f_stack ctx = off # v # rest" using stack_parts(2) [OF st] by auto
    have "uint off < 2 ^ 64" "unat off + 32 \<le> mem_len ctx" using covered_fixed [OF f(1) c] a by simp_all
    from mem_Set32_total [OF f(1) this f(6), of v] show "does 2 0 ctx s (opMstore i ctx s)" using a by (auto simp: opMstore_def stack_defs Let_def)
  qed
  show "plain 2 0 (Some memoryMStore8) opMstore8"
  proof (rule plainI)
    fix i ctx and s :: "'tr StateDB" assume r: "is_ready i ctx s" and st: "2 \<le> length (f_stack ctx)" and c: "covered (in_u256 i) (Some memoryMStore8) ctx"
    note f = ready_facts [OF r]
    obtain off v rest where a: "f_stack ctx = off # v # rest" using stack_parts(2) [OF st] by auto
    have sp: "uint off < 2 ^ 64" "unat off + 1 \<le> mem_len ctx" using covered_fixed [OF f(1) c] a by simp_all
    have "unat (u_Uint64 (in_u256 i) off) < mem_len ctx" unfolding uint256_simps [OF f(1)] low_word [OF sp(1)] using sp(2) by simp
    then show "does 2 0 ctx s (opMstore8 i ctx s)" using a by (simp add: opMstore8_def stack_defs Let_def)
  qed
qed

lemma stack_popN_total: "n \<le> length (f_stack ctx) \<Longrightarrow> stack_popN n ctx = Some (take n (f_stack ctx), ctx\<lparr>f_stack := drop n (f_stack ctx)\<rparr>)"
proof (induction n arbitrary: ctx)
  case (Suc n)
  then obtain x xs where "f_stack ctx = x # xs" by (auto simp: Suc_le_length_iff)
  then show ?case using Suc.IH [of "ctx\<lparr>f_stack := xs\<rparr>"] Suc.prems by (simp add: stack_pop_def)
qed simp

lemma makeLog_plain: "plain (n + 2) 0 (Some memoryLog) (makeLog n)"
proof (rule plainI)
  fix i ctx and s :: "'tr StateDB" assume r: "is_ready i ctx s" and st: "n + 2 \<le> length (f_stack ctx)" and c: "covered (in_u256 i) (Some memoryLog) ctx"
  note f = ready_facts [OF r]
  obtain m l rest where a: "f_stack ctx = m # l # rest" "n \<le> length rest" using st stack_parts(2) [of "f_stack ctx"] by auto
  obtain d where "mem_GetCopy (int64 (in_u256 i) m) (int64 (in_u256 i) l) (f_memory ctx) = Some d"
    using mem_Get_total(2) [OF f(1) _ f(6)] covered_range [OF f(1) c] a by auto
  moreover have "calm K db A s (AddLog lg s)" for lg using still_calm [OF still_entry(1) [OF f(5), of "OpAddLog lg"]] by simp
  ultimately show "does (n + 2) 0 ctx s (makeLog n i ctx s)"
    using a stack_popN_total [of n "ctx\<lparr>f_stack := rest\<rparr>"] by (simp add: makeLog_def stack_defs Let_def)
qed

lemma memory_result_plain: "plain 2 0 (Some memoryReturn) opReturn" "plain 2 0 (Some memoryRevert) opRevert"
proof -
  { fix i ctx and s :: "'tr StateDB" assume r: "is_ready i ctx s" and st: "2 \<le> length (f_stack ctx)" and c: "covered (in_u256 i) (Some (mem_range 0 1)) ctx"
    note f = ready_facts [OF r]
    obtain off l rest where a: "f_stack ctx = off # l # rest" using stack_parts(2) [OF st] by auto
    obtain d where "mem_GetPtr (int64 (in_u256 i) off) (int64 (in_u256 i) l) (f_memory ctx) = Some d" "length d < 2 ^ 63"
      using mem_Get_total(1) [OF f(1) _ f(6)] covered_range [OF f(1) c] a by auto
    then have "does 2 0 ctx s (memory_result i ctx s)" using a by (simp add: memory_result_def stack_defs Let_def) }
  then show "plain 2 0 (Some memoryReturn) opReturn" "plain 2 0 (Some memoryRevert) opRevert"
    unfolding opReturn_def opRevert_def by (intro plainI; simp)+
qed

subsection \<open>Nested calls\<close>

abbreviation calls :: "nat \<Rightarrow> nat \<Rightarrow> nat \<Rightarrow> callCtx \<Rightarrow> 'tr StateDB \<Rightarrow> (bytes \<times> vm_err option \<times> callCtx \<times> 'tr StateDB) option \<Rightarrow> bool" where
  "calls p q e ctx s r \<equiv> \<exists>res ctx' s' g. r = Some (res, None, ctx', s') \<and> steps K db A s s' \<and> no_mint K db A s s' \<and>
    grows (vw s) (vw s') \<and> refund_covers (vw s') \<and> short_codes (vw s') \<and>
    f_contract ctx' = (f_contract ctx)\<lparr>c_Smoke := g\<rparr> \<and> mem_len ctx' = mem_len ctx \<and>
    length (f_stack ctx') + p \<le> length (f_stack ctx) + q \<and> unat g \<le> unat (ctx_smoke ctx) + e \<and>
    unat (sd_refund s') + 65536 * unat g \<le> unat (sd_refund s) + 65536 * (unat (ctx_smoke ctx) + e) + 24000"

lemma callsI:
  assumes "\<And>i ctx s. is_ready i ctx s \<Longrightarrow> p \<le> length (f_stack ctx) \<Longrightarrow> covered (in_u256 i) mf ctx \<Longrightarrow> pre i ctx s \<Longrightarrow>
    unat (sd_refund s) + 65536 * (unat (ctx_smoke ctx) + ext (in_u256 i) ctx) + 24000 < 2 ^ 64 \<Longrightarrow> calls p q (ext (in_u256 i) ctx) ctx s (f i ctx s)"
  shows "call_exec K db good A p q mf ext pre f"
  using assms by (simp add: call_exec_def)

text \<open>The smoke that a nested call gives back is added to the smoke that is left.\<close>

lemma give_back:
  assumes c: "call_post K db A s smoke left s'" and k: "unat keep + unat smoke \<le> lim" and b: "unat (sd_refund s) + 65536 * lim + 24000 < 2 ^ 64"
  shows "unat (keep + left) \<le> lim" "unat (sd_refund s') + 65536 * unat (keep + left) \<le> unat (sd_refund s) + 65536 * lim + 24000"
proof -
  have l: "unat left \<le> unat smoke" and p: "unat (sd_refund s') + 65536 * unat left \<le> unat (sd_refund s) + 65536 * unat smoke + 24000"
    using c by (simp_all add: call_post_def settled_def pot_def word_le_nat_alt)
  have "unat (keep + left) = unat keep + unat left" using l k b by (simp add: unat_word_ariths)
  then show "unat (keep + left) \<le> lim" "unat (sd_refund s') + 65536 * unat (keep + left) \<le> unat (sd_refund s) + 65536 * lim + 24000"
    using l p k by simp_all
qed

lemma call_finish:
  assumes r: "is_ready i ctx s" and c: "call_post K db A s smoke left s'" and sp: "spans ro rs (mem_len ctx)" and e: "unat smoke = e"
    and st: "length rest + p + 1 \<le> length (f_stack ctx) + q" and b: "unat (sd_refund s) + 65536 * (unat (ctx_smoke ctx) + e) + 24000 < 2 ^ 64"
  shows "calls p q e ctx s (call_return i toAddr inOff ro rs (ctx\<lparr>f_stack := rest\<rparr>) (ret, left, err, s'))"
proof -
  note f = ready_facts [OF r]
  obtain m where m: "mem_Set (u_Uint64 (in_u256 i) ro) (u_Uint64 (in_u256 i) rs) ret (f_memory ctx) = Some m" "length (m_store m) = mem_len ctx"
    using mem_Set_total [OF f(1) sp f(6), of ret] by blast
  let ?m = "if err = None \<or> err = Some ErrExecutionReverted then m else f_memory ctx"
  let ?ctx = "add_smoke left ((stack_push (if err \<noteq> None then u_Zero (in_u256 i) else u_One (in_u256 i)) (ctx\<lparr>f_stack := rest\<rparr>))\<lparr>f_memory := ?m\<rparr>)"
  have "call_return i toAddr inOff ro rs (ctx\<lparr>f_stack := rest\<rparr>) (ret, left, err, s') = Some (ret_slice i toAddr inOff ret ?m, None, ?ctx, s')"
    using m(1) by (simp add: call_return_def stack_push_def Let_def)
  moreover have "f_contract ?ctx = (f_contract ctx)\<lparr>c_Smoke := ctx_smoke ctx + left\<rparr>" "mem_len ?ctx = mem_len ctx" "length (f_stack ?ctx) = length rest + 1"
    using m(2) by (simp_all add: add_smoke_def stack_push_def)
  moreover have "unat (ctx_smoke ctx + left) \<le> unat (ctx_smoke ctx) + e"
    "unat (sd_refund s') + 65536 * unat (ctx_smoke ctx + left) \<le> unat (sd_refund s) + 65536 * (unat (ctx_smoke ctx) + e) + 24000"
    using give_back [OF c _ b] e by simp_all
  ultimately show ?thesis using c st unfolding call_post_def settled_def
    by (intro exI [of _ "ret_slice i toAddr inOff ret ?m"] exI [of _ ?ctx] exI [of _ s'] exI [of _ "ctx_smoke ctx + left"]) simp
qed

lemma ready_nested:
  assumes "is_ready i ctx s"
  shows "evm_depth (in_evm i) \<le> CallCreateDepth \<Longrightarrow> run_good K db good A (in_nested i) (in_evm i)" "ref_Address (contract_ref (f_contract ctx)) \<in> A"
    "runs_as K db A (in_evm i) (ref_Address (contract_ref (f_contract ctx))) s"
  using assms by (simp_all add: ready_def machine_def contract_ref_def ctx_Address_def runs_as_def)

lemma call_operands:
  assumes r: "is_ready i ctx s" and c: "covered (in_u256 i) (Some (mem_two (mem_range ro rl) (mem_range io il))) ctx"
  obtains args where "spans (f_stack ctx ! ro) (f_stack ctx ! rl) (mem_len ctx)" "length args < 2 ^ 63"
    "mem_GetPtr (int64 (in_u256 i) (f_stack ctx ! io)) (int64 (in_u256 i) (f_stack ctx ! il)) (f_memory ctx) = Some args"
proof -
  note f = ready_facts [OF r]
  note sp = covered_range [OF f(1) covered_two(1) [OF c]] covered_range [OF f(1) covered_two(2) [OF c]]
  then show ?thesis using mem_Get_total(1) [OF f(1) sp(2) f(6)] that by blast
qed

lemma call_amounts:
  assumes "is_ready i ctx s" "unat (sd_refund s) + 65536 * (unat (ctx_smoke ctx) + call_ext (in_u256 i) ctx) + 24000 < 2 ^ 64"
  shows "unat (call_smoke (in_u256 i) ctx) = call_ext (in_u256 i) ctx" "pot s (call_smoke (in_u256 i) ctx) + 24000 < 2 ^ 64" "0 \<le> call_value (in_u256 i) ctx"
proof -
  show e: "unat (call_smoke (in_u256 i) ctx) = call_ext (in_u256 i) ctx" using assms(2) by (simp add: call_smoke_def call_ext_def unat_word_ariths)
  show "pot s (call_smoke (in_u256 i) ctx) + 24000 < 2 ^ 64" using assms(2) e by (simp add: pot_def)
  show "0 \<le> call_value (in_u256 i) ctx" by (simp add: call_value_def uint256_simps [OF ready_facts(1) [OF assms(1)]])
qed

lemma opCall_calls: "call_exec K db good A 7 1 (Some memoryCall) call_ext callee_listed opCall"
proof (rule callsI)
  fix i ctx and s :: "'tr StateDB"
  assume r: "is_ready i ctx s" and st: "7 \<le> length (f_stack ctx)" and c: "covered (in_u256 i) (Some memoryCall) ctx" and pre: "callee_listed i ctx s"
    and b: "unat (sd_refund s) + 65536 * (unat (ctx_smoke ctx) + call_ext (in_u256 i) ctx) + 24000 < 2 ^ 64"
  note f = ready_facts [OF r] and n = ready_nested [OF r] and e = call_amounts [OF r b]
  obtain x1 a v io il ro rl rest where a: "f_stack ctx = x1 # a # v # io # il # ro # rl # rest" using stack_parts(6) [OF st] by auto
  obtain args where sp: "spans ro rl (mem_len ctx)" "length args < 2 ^ 63" "mem_GetPtr (int64 (in_u256 i) io) (int64 (in_u256 i) il) (f_memory ctx) = Some args"
    by (rule call_operands [OF r c]) (simp add: a that)
  have listed: "r_IsYoloV2 (evm_chainRules (in_evm i)) \<Longrightarrow> u_Bytes20 (in_u256 i) a \<in> dom (al_addresses (sd_accessList s))"
    using pre a by (simp add: callee_listed_def)
  obtain ret left err s' where g: "call_post K db A s (call_smoke (in_u256 i) ctx) left s'"
    "Call K db (in_nested i) (in_evm i) (contract_ref (f_contract ctx)) (u_Bytes20 (in_u256 i) a) args (call_smoke (in_u256 i) ctx) (call_value (in_u256 i) ctx) s
      = Some (ret, left, err, s')"
    using Call_good [OF n(1) readyD(1) [OF r] f(11) n(2) f(10) listed e(3) sp(2) e(2)] by blast
  have eq: "opCall i ctx s = call_return i (u_Bytes20 (in_u256 i) a) io ro rl (ctx\<lparr>f_stack := rest\<rparr>) (ret, left, err, s')"
    using a sp(3) g(2) by (cases "u_IsZero (in_u256 i) v") (simp_all add: opCall_def stack_pop_def f(2,3) call_smoke_def call_value_def Let_def)
  show "calls 7 1 (call_ext (in_u256 i) ctx) ctx s (opCall i ctx s)"
    unfolding eq by (rule call_finish [OF r g(1) sp(1) e(1) _ b]) (use a in simp)
qed

lemma opCallCode_calls: "call_exec K db good A 7 1 (Some memoryCall) call_ext pre opCallCode"
proof (rule callsI)
  fix i ctx and s :: "'tr StateDB"
  assume r: "is_ready i ctx s" and st: "7 \<le> length (f_stack ctx)" and c: "covered (in_u256 i) (Some memoryCall) ctx"
    and b: "unat (sd_refund s) + 65536 * (unat (ctx_smoke ctx) + call_ext (in_u256 i) ctx) + 24000 < 2 ^ 64"
  note f = ready_facts [OF r] and n = ready_nested [OF r] and e = call_amounts [OF r b]
  obtain x1 a v io il ro rl rest where a: "f_stack ctx = x1 # a # v # io # il # ro # rl # rest" using stack_parts(6) [OF st] by auto
  obtain args where sp: "spans ro rl (mem_len ctx)" "length args < 2 ^ 63" "mem_GetPtr (int64 (in_u256 i) io) (int64 (in_u256 i) il) (f_memory ctx) = Some args"
    by (rule call_operands [OF r c]) (simp add: a that)
  obtain ret left err s' where g: "call_post K db A s (call_smoke (in_u256 i) ctx) left s'"
    "CallCode K db (in_nested i) (in_evm i) (contract_ref (f_contract ctx)) (u_Bytes20 (in_u256 i) a) args (call_smoke (in_u256 i) ctx) (call_value (in_u256 i) ctx) s
      = Some (ret, left, err, s')"
    using CallCode_good [OF n(1) readyD(1) [OF r] n(3) f(10) sp(2) e(2)] by blast
  have eq: "opCallCode i ctx s = call_return i (u_Bytes20 (in_u256 i) a) io ro rl (ctx\<lparr>f_stack := rest\<rparr>) (ret, left, err, s')"
    using a sp(3) g(2) by (cases "u_IsZero (in_u256 i) v") (simp_all add: opCallCode_def stack_pop_def f(2,3) call_smoke_def call_value_def Let_def)
  show "calls 7 1 (call_ext (in_u256 i) ctx) ctx s (opCallCode i ctx s)"
    unfolding eq by (rule call_finish [OF r g(1) sp(1) e(1) _ b]) (use a in simp)
qed

lemma opDelegateCall_calls: "call_exec K db good A 6 1 (Some memoryDelegateCall) temp_ext pre opDelegateCall"
proof (rule callsI)
  fix i ctx and s :: "'tr StateDB"
  assume r: "is_ready i ctx s" and st: "6 \<le> length (f_stack ctx)" and c: "covered (in_u256 i) (Some memoryDelegateCall) ctx"
    and b: "unat (sd_refund s) + 65536 * (unat (ctx_smoke ctx) + temp_ext (in_u256 i) ctx) + 24000 < 2 ^ 64"
  note f = ready_facts [OF r] and n = ready_nested [OF r]
  obtain x1 a io il ro rl rest where a: "f_stack ctx = x1 # a # io # il # ro # rl # rest" using stack_parts(5) [OF st] by auto
  obtain args where sp: "spans ro rl (mem_len ctx)" "length args < 2 ^ 63" "mem_GetPtr (int64 (in_u256 i) io) (int64 (in_u256 i) il) (f_memory ctx) = Some args"
    by (rule call_operands [OF r c]) (simp add: a that)
  obtain v where v: "contract_ref (f_contract ctx) = ContractOf (ctx_Address ctx) (c_CallerAddress (f_contract ctx)) (Some v)"
    using f(9) by (auto simp: contract_ref_def ctx_Address_def)
  have p: "pot s (f_callSmokeTemp ctx) + 24000 < 2 ^ 64" using b by (simp add: pot_def temp_ext_def)
  obtain ret left err s' where g: "call_post K db A s (f_callSmokeTemp ctx) left s'"
    "DelegateCall K db (in_nested i) (in_evm i) (contract_ref (f_contract ctx)) (u_Bytes20 (in_u256 i) a) args (f_callSmokeTemp ctx) s = Some (ret, left, err, s')"
    unfolding v using DelegateCall_good [OF n(1) readyD(1,3) [OF r] f(10) sp(2) p] by blast
  have eq: "opDelegateCall i ctx s = call_return i (u_Bytes20 (in_u256 i) a) io ro rl (ctx\<lparr>f_stack := rest\<rparr>) (ret, left, err, s')"
    using a sp(3) g(2) by (simp add: opDelegateCall_def stack_pop_def f(2,3) Let_def)
  show "calls 6 1 (temp_ext (in_u256 i) ctx) ctx s (opDelegateCall i ctx s)"
    unfolding eq by (rule call_finish [OF r g(1) sp(1) _ _ b]) (use a in \<open>simp_all add: temp_ext_def\<close>)
qed

lemma opStaticCall_calls: "call_exec K db good A 6 1 (Some memoryStaticCall) temp_ext callee_listed opStaticCall"
proof (rule callsI)
  fix i ctx and s :: "'tr StateDB"
  assume r: "is_ready i ctx s" and st: "6 \<le> length (f_stack ctx)" and c: "covered (in_u256 i) (Some memoryStaticCall) ctx" and pre: "callee_listed i ctx s"
    and b: "unat (sd_refund s) + 65536 * (unat (ctx_smoke ctx) + temp_ext (in_u256 i) ctx) + 24000 < 2 ^ 64"
  note f = ready_facts [OF r] and n = ready_nested [OF r]
  obtain x1 a io il ro rl rest where a: "f_stack ctx = x1 # a # io # il # ro # rl # rest" using stack_parts(5) [OF st] by auto
  obtain args where sp: "spans ro rl (mem_len ctx)" "length args < 2 ^ 63" "mem_GetPtr (int64 (in_u256 i) io) (int64 (in_u256 i) il) (f_memory ctx) = Some args"
    by (rule call_operands [OF r c]) (simp add: a that)
  have listed: "r_IsYoloV2 (evm_chainRules (in_evm i)) \<Longrightarrow> u_Bytes20 (in_u256 i) a \<in> dom (al_addresses (sd_accessList s))"
    using pre a by (simp add: callee_listed_def)
  have p: "pot s (f_callSmokeTemp ctx) + 24000 < 2 ^ 64" using b by (simp add: pot_def temp_ext_def)
  obtain ret left err s' where g: "call_post K db A s (f_callSmokeTemp ctx) left s'"
    "StaticCall K db (in_nested i) (in_evm i) (contract_ref (f_contract ctx)) (u_Bytes20 (in_u256 i) a) args (f_callSmokeTemp ctx) s = Some (ret, left, err, s')"
    using StaticCall_good [OF n(1) readyD(1) [OF r] f(10) listed sp(2) p] by blast
  have eq: "opStaticCall i ctx s = call_return i (u_Bytes20 (in_u256 i) a) io ro rl (ctx\<lparr>f_stack := rest\<rparr>) (ret, left, err, s')"
    using a sp(3) g(2) by (simp add: opStaticCall_def stack_pop_def f(2,3) Let_def)
  show "calls 6 1 (temp_ext (in_u256 i) ctx) ctx s (opStaticCall i ctx s)"
    unfolding eq by (rule call_finish [OF r g(1) sp(1) _ _ b]) (use a in \<open>simp_all add: temp_ext_def\<close>)
qed

subsection \<open>Creation\<close>

lemma created_length: "length (BytesToAddress b) = 20" "length (CreateAddress K c n) = 20" "length (CreateAddress2 K c salt h) = 20"
  by (auto simp: BytesToAddress_def CreateAddress_def CreateAddress2_def Let_def split: sum.splits)

lemma Create_good:
  assumes run: "evm_depth evm \<le> CallCreateDepth \<Longrightarrow> run_good K db good A run evm" and s: "sound K db good A s" and fin: "finite A" "{a. length a = 20} \<subseteq> A"
    and A: "ref_Address caller \<in> A" and v: "0 \<le> v" and code: "length code < 2 ^ 63" and p: "pot s smoke + 24000 < 2 ^ 64"
  shows "\<exists>ret addr left err s'. Create K db run evm caller code smoke v s = Some (ret, addr, left, err, s') \<and> call_post K db A s smoke left s'"
    "\<exists>ret addr left err s'. Create2 K db run evm caller code smoke v salt s = Some (ret, addr, left, err, s') \<and> call_post K db A s smoke left s'"
proof -
  have new: "CreateAddress K c n \<in> A" "CreateAddress2 K c salt h \<in> A" for c n salt h using created_length fin(2) by blast+
  obtain nonce s1 where n: "GetNonce K db (ref_Address caller) s = (nonce, s1)" by fastforce
  have c1: "calm K db A s s1" using looks_calm [OF sound_tx(1) [OF s] looks_reads(2) [OF sound_tx(1) [OF s] A]] n by simp
  have "\<exists>ret addr left err s'. evm_create K db run evm caller \<lparr>ch_code = code, ch_hash = zero_hash\<rparr> smoke v (CreateAddress K (ref_Address caller) nonce) s1
      = Some (ret, addr, left, err, s') \<and> call_post K db A s1 smoke left s'"
    by (rule evm_create_good [OF run calm_sound [OF s c1] fin(1) A new(1) v]) (use code p calm_pot [OF c1] in simp_all)
  then show "\<exists>ret addr left err s'. Create K db run evm caller code smoke v s = Some (ret, addr, left, err, s') \<and> call_post K db A s smoke left s'"
    using n call_post_calm [OF c1] by (fastforce simp: Create_def)
  let ?c = "\<lparr>ch_code = code, ch_hash = K code\<rparr>"
  show "\<exists>ret addr left err s'. Create2 K db run evm caller code smoke v salt s = Some (ret, addr, left, err, s') \<and> call_post K db A s smoke left s'"
    using evm_create_good [OF run s fin(1) A new(2) [of "ref_Address caller" salt "K code"] v _ p, of ?c] code by (simp add: Create2_def codeAndHash_Hash_def)
qed

lemma create_finish:
  assumes c: "call_post K db A s smoke left s'" and le: "smoke \<le> ctx_smoke ctx" and st: "length rest + p + 1 \<le> length (f_stack ctx) + q"
    and b: "unat (sd_refund s) + 65536 * (unat (ctx_smoke ctx) + 0) + 24000 < 2 ^ 64"
  shows "calls p q 0 ctx s (Some (res, None, add_smoke left (stack_push w (ctx_UseSmoke smoke (ctx\<lparr>f_stack := rest\<rparr>))), s'))"
proof -
  let ?ctx = "add_smoke left (stack_push w (ctx_UseSmoke smoke (ctx\<lparr>f_stack := rest\<rparr>)))"
  have "\<not> ctx_smoke ctx < smoke" using le by simp
  then have "f_contract ?ctx = (f_contract ctx)\<lparr>c_Smoke := ctx_smoke ctx - smoke + left\<rparr>" "mem_len ?ctx = mem_len ctx" "length (f_stack ?ctx) = length rest + 1"
    by (simp_all add: add_smoke_def stack_push_def ctx_UseSmoke_def UseSmoke_def)
  moreover have "unat (ctx_smoke ctx - smoke) + unat smoke \<le> unat (ctx_smoke ctx) + 0" using le by (simp add: unat_sub_le word_le_nat_alt)
  note give_back [OF c this b]
  ultimately show ?thesis using c st unfolding call_post_def settled_def
    by (intro exI [of _ res] exI [of _ ?ctx] exI [of _ s'] exI [of _ "ctx_smoke ctx - smoke + left"]) simp
qed

lemma keep_part: "(x :: uint64) - x div 64 \<le> x"
  by (simp add: word_le_nat_alt unat_sub_le unat_div)

lemma opCreate_calls: "call_exec K db good A 3 1 (Some memoryCreate) (\<lambda>_ _. 0) pre opCreate"
proof (rule callsI)
  fix i ctx and s :: "'tr StateDB"
  assume r: "is_ready i ctx s" and st: "3 \<le> length (f_stack ctx)" and c: "covered (in_u256 i) (Some memoryCreate) ctx"
    and b: "unat (sd_refund s) + 65536 * (unat (ctx_smoke ctx) + 0) + 24000 < 2 ^ 64"
  note f = ready_facts [OF r] and n = ready_nested [OF r]
  obtain v off l rest where a: "f_stack ctx = v # off # l # rest" using stack_parts(3) [OF st] by auto
  obtain code where code: "mem_GetCopy (int64 (in_u256 i) off) (int64 (in_u256 i) l) (f_memory ctx) = Some code" "length code < 2 ^ 63"
    using mem_Get_total(2) [OF f(1) _ f(6)] covered_range [OF f(1) c] a by auto
  define smoke where "smoke = (if r_IsEIP150 (evm_chainRules (in_evm i)) then ctx_smoke ctx - ctx_smoke ctx div 64 else ctx_smoke ctx)"
  define val where "val = (if \<not> u_IsZero (in_u256 i) v then u_ToBig (in_u256 i) v else 0)"
  have le: "smoke \<le> ctx_smoke ctx" using keep_part by (simp add: smoke_def)
  have p: "pot s smoke + 24000 < 2 ^ 64" using b le by (simp add: pot_def word_le_nat_alt)
  have v0: "0 \<le> val" by (simp add: val_def uint256_simps [OF f(1)])
  have A20: "{a. length a = 20} \<subseteq> A" using readyD(2) [OF r] by (simp add: machine_def)
  obtain ret addr left err s' where g: "call_post K db A s smoke left s'"
    "Create K db (in_nested i) (in_evm i) (contract_ref (f_contract ctx)) code smoke val s = Some (ret, addr, left, err, s')"
    using Create_good(1) [OF n(1) readyD(1) [OF r] f(11) A20 n(2) v0 code(2) p] by blast
  have cr: "contract_ref (f_contract (ctx_UseSmoke smoke (ctx\<lparr>f_stack := rest\<rparr>))) = contract_ref (f_contract ctx)"
    by (simp add: ctx_UseSmoke_def UseSmoke_def contract_ref_def)
  obtain res w where eq: "opCreate i ctx s = Some (res, None, add_smoke left (stack_push w (ctx_UseSmoke smoke (ctx\<lparr>f_stack := rest\<rparr>))), s')"
    using a code(1) g(2) by (simp add: opCreate_def stack_pop_def f(2,3) smoke_def [symmetric] val_def [symmetric] cr Let_def cong: if_cong)
  show "calls 3 1 0 ctx s (opCreate i ctx s)" unfolding eq by (rule create_finish [OF g(1) le _ b]) (use a in simp)
qed

lemma opCreate2_calls: "call_exec K db good A 4 1 (Some memoryCreate2) (\<lambda>_ _. 0) pre opCreate2"
proof (rule callsI)
  fix i ctx and s :: "'tr StateDB"
  assume r: "is_ready i ctx s" and st: "4 \<le> length (f_stack ctx)" and c: "covered (in_u256 i) (Some memoryCreate2) ctx"
    and b: "unat (sd_refund s) + 65536 * (unat (ctx_smoke ctx) + 0) + 24000 < 2 ^ 64"
  note f = ready_facts [OF r] and n = ready_nested [OF r]
  obtain v off l salt rest where a: "f_stack ctx = v # off # l # salt # rest" using stack_parts(4) [OF st] by auto
  obtain code where code: "mem_GetCopy (int64 (in_u256 i) off) (int64 (in_u256 i) l) (f_memory ctx) = Some code" "length code < 2 ^ 63"
    using mem_Get_total(2) [OF f(1) _ f(6)] covered_range [OF f(1) c] a by auto
  define smoke where "smoke = ctx_smoke ctx - ctx_smoke ctx div 64"
  define val where "val = (if \<not> u_IsZero (in_u256 i) v then u_ToBig (in_u256 i) v else 0)"
  have le: "smoke \<le> ctx_smoke ctx" using keep_part by (simp add: smoke_def)
  have p: "pot s smoke + 24000 < 2 ^ 64" using b le by (simp add: pot_def word_le_nat_alt)
  have v0: "0 \<le> val" by (simp add: val_def uint256_simps [OF f(1)])
  have A20: "{a. length a = 20} \<subseteq> A" using readyD(2) [OF r] by (simp add: machine_def)
  obtain ret addr left err s' where g: "call_post K db A s smoke left s'"
    "Create2 K db (in_nested i) (in_evm i) (contract_ref (f_contract ctx)) code smoke val (u_Bytes32 (in_u256 i) salt) s = Some (ret, addr, left, err, s')"
    using Create_good(2) [OF n(1) readyD(1) [OF r] f(11) A20 n(2) v0 code(2) p] by blast
  have cr: "contract_ref (f_contract (ctx_UseSmoke smoke (ctx\<lparr>f_stack := rest\<rparr>))) = contract_ref (f_contract ctx)"
    by (simp add: ctx_UseSmoke_def UseSmoke_def contract_ref_def)
  obtain res w where eq: "opCreate2 i ctx s = Some (res, None, add_smoke left (stack_push w (ctx_UseSmoke smoke (ctx\<lparr>f_stack := rest\<rparr>))), s')"
    using a code(1) g(2) by (simp add: opCreate2_def stack_pop_def f(2,3) smoke_def [symmetric] val_def [symmetric] cr Let_def cong: if_cong)
  show "calls 4 1 0 ctx s (opCreate2 i ctx s)" unfolding eq by (rule create_finish [OF g(1) le _ b]) (use a in simp)
qed

end

end
