(* ===== verification/Evm_Prices.thy ===== *)
theory Evm_Prices
  imports Evm_Ops
begin

section \<open>The prices keep their contract\<close>

text \<open>
  Every smoke function of \<open>Evm_Smoke\<close> does what \<open>Evm_Frames\<close> asks of it: it does not panic, it
  accepts no memory size beyond the limit, it charges for the smoke that it hands to a nested
  call, and the refunds of storage writes never take back more than was given.
\<close>

subsection \<open>Memory\<close>

lemma memorySmokeCost_shape:
  assumes "memorySmokeCost n mem = (r, mem')"
  shows "m_store mem' = m_store mem" "r = Inr c \<Longrightarrow> unat n \<le> MaxMemory"
proof -
  show "m_store mem' = m_store mem" using assms unfolding memorySmokeCost_def Let_def by (simp split: if_splits) fastforce+
  show "unat n \<le> MaxMemory" if "r = Inr c"
  proof (rule ccontr)
    assume "\<not> unat n \<le> MaxMemory"
    then have n: "\<not> n = 0" "0x1FFFFFFFE0 < n" by (auto simp: MaxMemory_def word_less_nat_alt)
    have "memorySmokeCost n mem = (Inl ErrSmokeUintOverflow, mem)" unfolding memorySmokeCost_def if_not_P [OF n(1)] if_P [OF n(2)] ..
    then show False using assms that by simp
  qed
qed

lemma same_shape_memory: "m_store mem = m_store (f_memory ctx) \<Longrightarrow> same_shape ctx (ctx\<lparr>f_memory := mem\<rparr>)"
  by (auto simp: same_shape_def intro: exI [of _ "ctx_smoke ctx"])

lemma pureMemorySmokecost_shape:
  obtains r mem where "pureMemorySmokecost i n ctx s = Some (r, ctx\<lparr>f_memory := mem\<rparr>, s)" "same_shape ctx (ctx\<lparr>f_memory := mem\<rparr>)"
    "\<And>c. r = Inr c \<Longrightarrow> unat n \<le> MaxMemory"
proof -
  obtain r mem where "memorySmokeCost n (f_memory ctx) = (r, mem)" by fastforce
  then show ?thesis using that memorySmokeCost_shape same_shape_memory by (fastforce simp: pureMemorySmokecost_def)
qed

lemma SafeAdd_sum: "SafeAdd x y = (z, False) \<Longrightarrow> unat z = unat x + unat y"
  by (auto simp: SafeAdd_def unat_word_ariths)

context state_store begin

abbreviation priced :: "nat \<Rightarrow> bool \<Rightarrow> nat \<Rightarrow> 'tr smokeFunc \<Rightarrow> bool" where
  "priced \<equiv> plain_dyn K db good A"

lemma pure_priced: "priced p mem 0 pureMemorySmokecost"
  unfolding plain_dyn_def
proof (intro allI impI)
  fix i :: "'tr EVMInterpreter" and msize :: uint64 and ctx :: callCtx and s :: "'tr StateDB"
  obtain r m where "pureMemorySmokecost i msize ctx s = Some (r, ctx\<lparr>f_memory := m\<rparr>, s)" "same_shape ctx (ctx\<lparr>f_memory := m\<rparr>)"
    "\<And>c. r = Inr c \<Longrightarrow> unat msize \<le> MaxMemory"
    by (rule pureMemorySmokecost_shape [of i msize ctx s]) (rule that)
  then show "\<exists>r ctx' s'. pureMemorySmokecost i msize ctx s = Some (r, ctx', s') \<and> calm K db A s s' \<and> same_shape ctx ctx' \<and> f_contract ctx' = f_contract ctx \<and>
        (\<forall>c. r = Inr c \<longrightarrow> 0 \<le> unat c \<and> (mem \<longrightarrow> unat msize \<le> MaxMemory))" by fastforce
qed

lemma word_priced:
  assumes "pos < p"
  shows "priced p mem 0 (memoryWordSmoke price pos)"
  unfolding plain_dyn_def
proof (intro allI impI)
  fix i :: "'tr EVMInterpreter" and msize :: uint64 and ctx :: callCtx and s :: "'tr StateDB"
  assume r: "is_ready i ctx s" and st: "p \<le> length (f_stack ctx)"
  obtain r m where m: "pureMemorySmokecost i msize ctx s = Some (r, ctx\<lparr>f_memory := m\<rparr>, s)" "same_shape ctx (ctx\<lparr>f_memory := m\<rparr>)"
    "\<And>c. r = Inr c \<Longrightarrow> unat msize \<le> MaxMemory"
    by (rule pureMemorySmokecost_shape [of i msize ctx s]) (rule that)
  have "\<exists>r'. memoryWordSmoke price pos i msize ctx s = Some (r', ctx\<lparr>f_memory := m\<rparr>, s) \<and> (\<forall>c. r' = Inr c \<longrightarrow> (\<exists>d. r = Inr d))"
    using m(1) st assms by (cases r) (simp_all add: memoryWordSmoke_def stack_Back_def Let_def case_prod_beta)
  then show "\<exists>r ctx' s'. memoryWordSmoke price pos i msize ctx s = Some (r, ctx', s') \<and> calm K db A s s' \<and> same_shape ctx ctx' \<and> f_contract ctx' = f_contract ctx \<and>
        (\<forall>c. r = Inr c \<longrightarrow> 0 \<le> unat c \<and> (mem \<longrightarrow> unat msize \<le> MaxMemory))" using m(2,3) by fastforce
qed

lemma copier_priced: "pos < p \<Longrightarrow> priced p mem 0 (memoryCopierSmoke pos)" "1 < p \<Longrightarrow> priced p mem 0 smokeSha3" "2 < p \<Longrightarrow> priced p mem 0 smokeCreate2"
  by (simp_all add: memoryCopierSmoke_def smokeSha3_def smokeCreate2_def word_priced)

lemma pricedI:
  assumes "\<And>i msize ctx s. is_ready i ctx s \<Longrightarrow> p \<le> length (f_stack ctx) \<Longrightarrow>
    \<exists>r ctx' s'. f i msize ctx s = Some (r, ctx', s') \<and> calm K db A s s' \<and> same_shape ctx ctx' \<and> f_contract ctx' = f_contract ctx \<and>
      (\<forall>c. r = Inr c \<longrightarrow> lb \<le> unat c \<and> (mem \<longrightarrow> unat msize \<le> MaxMemory))"
  shows "priced p mem lb f"
  using assms by (simp add: plain_dyn_def)

lemma same_shape_refl [simp]: "same_shape ctx ctx"
  by (auto simp: same_shape_def intro: exI [of _ "ctx_smoke ctx"])

lemma log_priced:
  assumes "2 \<le> p"
  shows "priced p mem 375 (makeSmokeLog n)"
proof (rule pricedI)
  fix i :: "'tr EVMInterpreter" and msize :: uint64 and ctx :: callCtx and s :: "'tr StateDB"
  assume r: "is_ready i ctx s" and st: "p \<le> length (f_stack ctx)"
  obtain r m where m: "pureMemorySmokecost i msize ctx s = Some (r, ctx\<lparr>f_memory := m\<rparr>, s)" "same_shape ctx (ctx\<lparr>f_memory := m\<rparr>)"
    "\<And>c. r = Inr c \<Longrightarrow> unat msize \<le> MaxMemory"
    by (rule pureMemorySmokecost_shape [of i msize ctx s]) (rule that)
  have b: "Back 1 ctx = Some (f_stack ctx ! 1)" using st assms by (simp add: stack_Back_def)
  obtain sz over where u: "u_Uint64WithOverflow (in_u256 i) (f_stack ctx ! 1) = (sz, over)" by fastforce
  show "\<exists>r ctx' s'. makeSmokeLog n i msize ctx s = Some (r, ctx', s') \<and> calm K db A s s' \<and> same_shape ctx ctx' \<and> f_contract ctx' = f_contract ctx \<and>
      (\<forall>c. r = Inr c \<longrightarrow> 375 \<le> unat c \<and> (mem \<longrightarrow> unat msize \<le> MaxMemory))"
  proof (cases "over \<or> (\<exists>e. r = Inl e)")
    case True
    then show ?thesis using b u m(1,2) by (auto simp: makeSmokeLog_def)
  next
    case False
    then obtain g where g: "r = Inr g" "\<not> over" by (cases r) auto
    obtain x1 o1 where s1: "SafeAdd g LogSmoke = (x1, o1)" by fastforce
    obtain x2 o2 where s2: "SafeAdd x1 (n * LogTopicSmoke) = (x2, o2)" by fastforce
    obtain x3 o3 where s3: "SafeMul sz LogDataSmoke = (x3, o3)" by fastforce
    obtain x4 o4 where s4: "SafeAdd x2 x3 = (x4, o4)" by fastforce
    have eq: "makeSmokeLog n i msize ctx s = Some (if o1 \<or> o2 \<or> o3 \<or> o4 then Inl ErrSmokeUintOverflow else Inr x4, ctx\<lparr>f_memory := m\<rparr>, s)"
      using b u g m(1) s1 s2 s3 s4 by (simp add: makeSmokeLog_def)
    have "375 \<le> unat x4" if "\<not> (o1 \<or> o2 \<or> o3 \<or> o4)"
      using SafeAdd_sum [of g LogSmoke x1] SafeAdd_sum [of x1 "n * LogTopicSmoke" x2] SafeAdd_sum [of x2 x3 x4] s1 s2 s4 that by simp
    then show ?thesis using eq m(2) m(3) [OF g(1)] by auto
  qed
qed

lemma exp_priced:
  assumes "2 \<le> p"
  shows "priced p False 10 (smoke_exp n)"
proof (rule pricedI)
  fix i :: "'tr EVMInterpreter" and msize :: uint64 and ctx :: callCtx and s :: "'tr StateDB"
  assume st: "p \<le> length (f_stack ctx)"
  let ?l = "word_of_nat ((u_BitLen (in_u256 i) (f_stack ctx ! 1) + 7) div 8) * n"
  obtain x ov where x: "SafeAdd ?l ExpSmoke = (x, ov)" by fastforce
  then have eq: "smoke_exp n i msize ctx s = Some (if ov then Inl ErrSmokeUintOverflow else Inr x, ctx, s)"
    using st assms by (simp add: smoke_exp_def stack_Back_def)
  have "10 \<le> unat x" if "\<not> ov" using SafeAdd_sum [of ?l ExpSmoke x] x that by simp
  then show "\<exists>r ctx' s'. smoke_exp n i msize ctx s = Some (r, ctx', s') \<and> calm K db A s s' \<and> same_shape ctx ctx' \<and> f_contract ctx' = f_contract ctx \<and>
      (\<forall>c. r = Inr c \<longrightarrow> 10 \<le> unat c \<and> (False \<longrightarrow> unat msize \<le> MaxMemory))" using eq by auto
qed

subsection \<open>Access lists\<close>

lemma account_priced: "priced 1 False 0 smokeEip2929AccountCheck"
proof (rule pricedI)
  fix i :: "'tr EVMInterpreter" and msize :: uint64 and ctx :: callCtx and s :: "'tr StateDB"
  assume r: "is_ready i ctx s" and st: "1 \<le> length (f_stack ctx)"
  note f = ready_facts [OF r]
  obtain a rest where a: "f_stack ctx = a # rest" using stack_parts(1) [of "f_stack ctx"] st by auto
  have "calm K db A s (AddAddressToAccessList (u_Bytes20 (in_u256 i) a) s)" by (rule calm_writes(4) [OF f(5,10)])
  then show "\<exists>r ctx' s'. smokeEip2929AccountCheck i msize ctx s = Some (r, ctx', s') \<and> calm K db A s s' \<and> same_shape ctx ctx' \<and> f_contract ctx' = f_contract ctx \<and>
      (\<forall>c. r = Inr c \<longrightarrow> 0 \<le> unat c \<and> (False \<longrightarrow> unat msize \<le> MaxMemory))"
    using a by (simp add: smokeEip2929AccountCheck_def stack_addr_def stack_Back_def)
qed

lemma extcodecopy_priced: "priced 4 mem 0 smokeExtCodeCopyEIP2929"
proof (rule pricedI)
  fix i :: "'tr EVMInterpreter" and msize :: uint64 and ctx :: callCtx and s :: "'tr StateDB"
  assume r: "is_ready i ctx s" and st: "4 \<le> length (f_stack ctx)"
  note f = ready_facts [OF r]
  have p: "priced 4 mem 0 (memoryCopierSmoke 3)" by (simp add: copier_priced)
  obtain d ctx1 s1 where d: "memoryCopierSmoke 3 i msize ctx s = Some (d, ctx1, s1)" "calm K db A s s1" "same_shape ctx ctx1" "f_contract ctx1 = f_contract ctx"
    "\<forall>c. d = Inr c \<longrightarrow> mem \<longrightarrow> unat msize \<le> MaxMemory" using p [unfolded plain_dyn_def, rule_format, OF r st, of msize] by blast
  obtain a rest where a: "f_stack ctx1 = a # rest" using stack_parts(4) [OF st] same_shape_simps(1) [OF d(3)] by auto
  have "tx s1" using d(2) steps_tx [OF f(5)] by (simp add: calm_def)
  then have "calm K db A s (AddAddressToAccessList (u_Bytes20 (in_u256 i) a) s1)" using calm_trans [OF d(2) calm_writes(4)] f(10) by blast
  then show "\<exists>r ctx' s'. smokeExtCodeCopyEIP2929 i msize ctx s = Some (r, ctx', s') \<and> calm K db A s s' \<and> same_shape ctx ctx' \<and> f_contract ctx' = f_contract ctx \<and>
      (\<forall>c. r = Inr c \<longrightarrow> 0 \<le> unat c \<and> (mem \<longrightarrow> unat msize \<le> MaxMemory))"
    using a d by (cases d) (simp_all add: smokeExtCodeCopyEIP2929_def stack_addr_def stack_Back_def case_prod_beta Let_def)
qed

lemma AddSlot_still:
  assumes "tx s"
  obtains s' where "AddSlotToAccessList a k s = Some s'" "still K db A s s'" "v_objects (vw s') = v_objects (vw s)"
proof -
  obtain s' where s': "AddSlotToAccessList a k s = Some s'" using access_undo(2) [of s a k] assms by (auto simp: tx_state_def)
  then show ?thesis using that still_entry [OF assms, of "OpAddSlot a k" s'] by simp
qed

lemma sload_priced: "priced 1 False 100 smokeSLoadEIP2929"
proof (rule pricedI)
  fix i :: "'tr EVMInterpreter" and msize :: uint64 and ctx :: callCtx and s :: "'tr StateDB"
  assume r: "is_ready i ctx s" and st: "1 \<le> length (f_stack ctx)"
  note f = ready_facts [OF r]
  obtain loc rest where a: "f_stack ctx = loc # rest" using stack_parts(1) [of "f_stack ctx"] st by auto
  let ?k = "u_Bytes32 (in_u256 i) loc" let ?a = "ctx_Address ctx"
  obtain q where q: "SlotInAccessList ?a ?k s = Some (?a \<in> dom (al_addresses (sd_accessList s)), q)"
    using Contains_sets f(5) unfolding SlotInAccessList_def tx_state_def by blast
  obtain s' where "AddSlotToAccessList ?a ?k s = Some s'" "still K db A s s'" by (rule AddSlot_still [OF f(5)]) (rule that)
  then show "\<exists>r ctx' s'. smokeSLoadEIP2929 i msize ctx s = Some (r, ctx', s') \<and> calm K db A s s' \<and> same_shape ctx ctx' \<and> f_contract ctx' = f_contract ctx \<and>
      (\<forall>c. r = Inr c \<longrightarrow> 100 \<le> unat c \<and> (False \<longrightarrow> unat msize \<le> MaxMemory))"
    using a q still_calm by (cases q) (auto simp: smokeSLoadEIP2929_def stack_Back_def)
qed

subsection \<open>Calls\<close>

abbreviation call_price :: "nat \<Rightarrow> (uint256 \<Rightarrow> callCtx \<Rightarrow> nat) \<Rightarrow> 'tr smokeFunc \<Rightarrow> bool" where
  "call_price p ext f \<equiv> \<forall>i msize ctx s. is_ready i ctx s \<longrightarrow> p \<le> length (f_stack ctx) \<longrightarrow>
    (\<exists>r ctx' s'. f i msize ctx s = Some (r, ctx', s') \<and> calm K db A s s' \<and> same_shape ctx ctx' \<and> f_contract ctx' = f_contract ctx \<and>
      (\<forall>c. r = Inr c \<longrightarrow> ext (in_u256 i) ctx' \<le> unat c \<and> unat msize \<le> MaxMemory))"

lemma call_tail_price:
  assumes "f_stack ctx \<noteq> []"
  shows "\<exists>r t. call_tail g i ctx s = Some (r, ctx\<lparr>f_callSmokeTemp := t\<rparr>, s) \<and> (\<forall>c. r = Inr c \<longrightarrow> unat c = unat g + unat t)"
proof -
  let ?c = "callSmoke (in_u256 i) (r_IsEIP150 (evm_chainRules (in_evm i))) (c_Smoke (f_contract ctx)) g (f_stack ctx ! 0)"
  have b: "Back 0 ctx = Some (f_stack ctx ! 0)" using assms by (simp add: stack_Back_def)
  show ?thesis
  proof (cases ?c)
    case (Inl e)
    then show ?thesis using b by (simp add: call_tail_def) blast
  next
    case (Inr t)
    obtain x ov where x: "SafeAdd g t = (x, ov)" by fastforce
    then have "call_tail g i ctx s = Some (if ov then Inl ErrSmokeUintOverflow else Inr x, ctx\<lparr>f_callSmokeTemp := t\<rparr>, s)"
      using b Inr by (simp add: call_tail_def)
    moreover have "unat x = unat g + unat t" if "\<not> ov" using SafeAdd_sum [of g t x] x that by simp
    ultimately show ?thesis by (intro exI [of _ "if ov then Inl ErrSmokeUintOverflow else Inr x"] exI [of _ t]) simp
  qed
qed

text \<open>The shared end: the base price plus the memory, then the smoke of the callee.\<close>

lemma call_rest_price:
  assumes st: "f_stack ctx \<noteq> []" and m: "same_shape ctx ctx1" "f_contract ctx1 = f_contract ctx" and mm: "unat msize \<le> MaxMemory"
    and ext: "\<And>t. ext (in_u256 i) (ctx1\<lparr>f_callSmokeTemp := t\<rparr>) \<le> unat base + unat t" and c: "calm K db A s s'"
  shows "\<exists>r ctx' s''. (let (smoke, overflow) = SafeAdd base memorySmoke in if overflow then Some (Inl ErrSmokeUintOverflow, ctx1, s') else call_tail smoke i ctx1 s') = Some (r, ctx', s'') \<and>
    calm K db A s s'' \<and> same_shape ctx ctx' \<and> f_contract ctx' = f_contract ctx \<and> (\<forall>c. r = Inr c \<longrightarrow> ext (in_u256 i) ctx' \<le> unat c \<and> unat msize \<le> MaxMemory)"
proof -
  obtain x ov where x: "SafeAdd base memorySmoke = (x, ov)" by fastforce
  obtain r t where t: "call_tail x i ctx1 s' = Some (r, ctx1\<lparr>f_callSmokeTemp := t\<rparr>, s')" "\<forall>c. r = Inr c \<longrightarrow> unat c = unat x + unat t"
    using call_tail_price [of ctx1 x i s'] st same_shape_simps(1) [OF m(1)] by auto
  have sh: "same_shape ctx (ctx1\<lparr>f_callSmokeTemp := t\<rparr>)" using m(1) by (simp add: same_shape_def)
  have "ext (in_u256 i) (ctx1\<lparr>f_callSmokeTemp := t\<rparr>) \<le> unat x + unat t" if "\<not> ov" using ext [of t] SafeAdd_sum [of base memorySmoke x] x that by simp
  then show ?thesis using x t sh m c mm by (cases ov) auto
qed

lemma call_ext_le:
  assumes "same_shape ctx ctx1" "u_IsZero U (f_stack ctx ! 2) \<or> 9000 \<le> unat base"
  shows "call_ext U (ctx1\<lparr>f_callSmokeTemp := t\<rparr>) \<le> unat base + unat t"
  using assms(2) by (auto simp: call_ext_def same_shape_simps(1) [OF assms(1)])

lemma smokeCall_price: "call_price 7 call_ext smokeCall"
proof (intro allI impI)
  fix i :: "'tr EVMInterpreter" and msize :: uint64 and ctx :: callCtx and s :: "'tr StateDB"
  assume r: "is_ready i ctx s" and st: "7 \<le> length (f_stack ctx)"
  note f = ready_facts [OF r]
  let ?v = "f_stack ctx ! 2" let ?a = "u_Bytes20 (in_u256 i) (f_stack ctx ! 1)" let ?tv = "\<not> u_IsZero (in_u256 i) ?v"
  have b: "Back 2 ctx = Some ?v" "stack_addr i 1 ctx = Some ?a" using st by (simp_all add: stack_Back_def stack_addr_def)
  obtain nw s1 where na: "(if r_IsEIP158 (evm_chainRules (in_evm i)) then if ?tv then Empty K db ?a s else (False, s)
    else case Exist K db ?a s of (exists, s) \<Rightarrow> (\<not> exists, s)) = (nw, s1)" by fastforce
  define base where "base = (if ?tv then (if nw then CallNewAccountSmoke else 0) + CallValueTransferSmoke else if nw then CallNewAccountSmoke else 0)"
  have "looks K db A s s1" using looks_reads(4,5) [OF f(5) f(10) [of "f_stack ctx ! 1"]] na by (auto split: if_splits prod.splits)
  then have c: "calm K db A s s1" using looks_calm [OF f(5)] by blast
  obtain d m where m: "pureMemorySmokecost i msize ctx s1 = Some (d, ctx\<lparr>f_memory := m\<rparr>, s1)" "same_shape ctx (ctx\<lparr>f_memory := m\<rparr>)"
    "\<And>c. d = Inr c \<Longrightarrow> unat msize \<le> MaxMemory"
    by (rule pureMemorySmokecost_shape [of i msize ctx s1]) (rule that)
  have eq: "smokeCall i msize ctx s = (case d of Inl err \<Rightarrow> Some (Inl err, ctx\<lparr>f_memory := m\<rparr>, s1) | Inr memorySmoke \<Rightarrow>
    (let (smoke, overflow) = SafeAdd base memorySmoke in if overflow then Some (Inl ErrSmokeUintOverflow, ctx\<lparr>f_memory := m\<rparr>, s1) else call_tail smoke i (ctx\<lparr>f_memory := m\<rparr>) s1))"
    by (simp only: smokeCall_def Let_def f(2,3) b Option.bind.simps na prod.case m(1) base_def)
  have "u_IsZero (in_u256 i) ?v \<or> 9000 \<le> unat base" by (simp add: base_def)
  note e = call_ext_le [OF m(2) this]
  show "\<exists>r ctx' s'. smokeCall i msize ctx s = Some (r, ctx', s') \<and> calm K db A s s' \<and> same_shape ctx ctx' \<and> f_contract ctx' = f_contract ctx \<and>
      (\<forall>c. r = Inr c \<longrightarrow> call_ext (in_u256 i) ctx' \<le> unat c \<and> unat msize \<le> MaxMemory)"
  proof (cases d)
    case (Inl e)
    then show ?thesis unfolding eq using c m(2) by simp
  next
    case (Inr w)
    have "f_stack ctx \<noteq> []" using st by auto
    from call_rest_price [OF this m(2) _ m(3) [OF Inr], of call_ext i base s s1 w] show ?thesis unfolding eq Inr sum.case using e c by simp
  qed
qed

lemma smokeCallCode_price: "call_price 7 call_ext smokeCallCode"
proof (intro allI impI)
  fix i :: "'tr EVMInterpreter" and msize :: uint64 and ctx :: callCtx and s :: "'tr StateDB"
  assume r: "is_ready i ctx s" and st: "7 \<le> length (f_stack ctx)"
  note f = ready_facts [OF r]
  obtain d m where m: "pureMemorySmokecost i msize ctx s = Some (d, ctx\<lparr>f_memory := m\<rparr>, s)" "same_shape ctx (ctx\<lparr>f_memory := m\<rparr>)"
    "\<And>c. d = Inr c \<Longrightarrow> unat msize \<le> MaxMemory"
    by (rule pureMemorySmokecost_shape [of i msize ctx s]) (rule that)
  define base :: uint64 where "base = (if u_Sign (in_u256 i) (f_stack ctx ! 2) \<noteq> 0 then CallValueTransferSmoke else 0)"
  have "u_IsZero (in_u256 i) (f_stack ctx ! 2) \<or> 9000 \<le> unat base" by (simp add: base_def uint256_simps [OF f(1)])
  note e = call_ext_le [OF m(2) this]
  show "\<exists>r ctx' s'. smokeCallCode i msize ctx s = Some (r, ctx', s') \<and> calm K db A s s' \<and> same_shape ctx ctx' \<and> f_contract ctx' = f_contract ctx \<and>
      (\<forall>c. r = Inr c \<longrightarrow> call_ext (in_u256 i) ctx' \<le> unat c \<and> unat msize \<le> MaxMemory)"
  proof (cases d)
    case (Inl e)
    then show ?thesis using m(1,2) by (simp add: smokeCallCode_def)
  next
    case (Inr w)
    have b: "Back 2 (ctx\<lparr>f_memory := m\<rparr>) = Some (f_stack ctx ! 2)" "f_stack ctx \<noteq> []" using st by (auto simp: stack_Back_def)
    have eq: "smokeCallCode i msize ctx s = (let (smoke, overflow) = SafeAdd base w in
      if overflow then Some (Inl ErrSmokeUintOverflow, ctx\<lparr>f_memory := m\<rparr>, s) else call_tail smoke i (ctx\<lparr>f_memory := m\<rparr>) s)"
      by (simp only: smokeCallCode_def Let_def b Option.bind.simps prod.case m(1) Inr sum.case base_def)
    show ?thesis unfolding eq by (rule call_rest_price [OF b(2) m(2) _ m(3) [OF Inr]]) (use e in simp_all)
  qed
qed

lemma smokeDelegateCall_price: "call_price 6 temp_ext smokeDelegateCall" "call_price 6 temp_ext smokeStaticCall"
proof -
  have eq: "smokeStaticCall = smokeDelegateCall" by (simp add: fun_eq_iff smokeStaticCall_def smokeDelegateCall_def)
  show "call_price 6 temp_ext smokeDelegateCall"
  proof (intro allI impI)
    fix i :: "'tr EVMInterpreter" and msize :: uint64 and ctx :: callCtx and s :: "'tr StateDB"
    assume r: "is_ready i ctx s" and st: "6 \<le> length (f_stack ctx)"
    obtain d m where m: "pureMemorySmokecost i msize ctx s = Some (d, ctx\<lparr>f_memory := m\<rparr>, s)" "same_shape ctx (ctx\<lparr>f_memory := m\<rparr>)"
      "\<And>c. d = Inr c \<Longrightarrow> unat msize \<le> MaxMemory"
      by (rule pureMemorySmokecost_shape [of i msize ctx s]) (rule that)
    show "\<exists>r ctx' s'. smokeDelegateCall i msize ctx s = Some (r, ctx', s') \<and> calm K db A s s' \<and> same_shape ctx ctx' \<and> f_contract ctx' = f_contract ctx \<and>
        (\<forall>c. r = Inr c \<longrightarrow> temp_ext (in_u256 i) ctx' \<le> unat c \<and> unat msize \<le> MaxMemory)"
    proof (cases d)
      case (Inl e)
      then show ?thesis using m(1,2) by (simp add: smokeDelegateCall_def)
    next
      case (Inr w)
      have ne: "f_stack (ctx\<lparr>f_memory := m\<rparr>) \<noteq> []" using st by auto
      obtain r t where t: "call_tail w i (ctx\<lparr>f_memory := m\<rparr>) s = Some (r, ctx\<lparr>f_memory := m, f_callSmokeTemp := t\<rparr>, s)"
        "\<forall>c. r = Inr c \<longrightarrow> unat c = unat w + unat t"
        using call_tail_price [OF ne, of w i s] by auto
      have "same_shape ctx (ctx\<lparr>f_memory := m, f_callSmokeTemp := t\<rparr>)" using m(2) by (simp add: same_shape_def)
      then show ?thesis using m(1) m(3) [OF Inr] t Inr by (simp add: smokeDelegateCall_def temp_ext_def)
    qed
  qed
  then show "call_price 6 temp_ext smokeStaticCall" by (simp add: eq)
qed

text \<open>Without access lists, and with them.\<close>

lemma call_price_dyn:
  assumes "call_price p ext f"
  shows "call_dyn K db good A p ext callee_listed False f"
  unfolding call_dyn_def
proof (intro allI impI)
  fix i :: "'tr EVMInterpreter" and msize :: uint64 and ctx :: callCtx and s :: "'tr StateDB"
  assume r: "is_ready i ctx s" and st: "p \<le> length (f_stack ctx)" and y: "r_IsYoloV2 (evm_chainRules (in_evm i)) = False"
  have "callee_listed i ctx' s'" for ctx' and s' :: "'tr StateDB" using y by (simp add: callee_listed_def)
  then show "\<exists>r ctx' s'. f i msize ctx s = Some (r, ctx', s') \<and> calm K db A s s' \<and> same_shape ctx ctx' \<and> ctx_smoke ctx' \<le> ctx_smoke ctx \<and>
      (\<forall>c. r = Inr c \<longrightarrow> ext (in_u256 i) ctx' \<le> unat c \<and> unat msize \<le> MaxMemory \<and> callee_listed i ctx' s')"
    using assms [rule_format, OF r st, of msize] by fastforce
qed

lemma variant_dyn:
  assumes f: "call_price p ext f" and p: "2 \<le> p"
  shows "call_dyn K db good A p ext callee_listed True (makeCallVariantSmokeCallEIP2929 f)"
  unfolding call_dyn_def
proof (intro allI impI)
  fix i :: "'tr EVMInterpreter" and msize :: uint64 and ctx :: callCtx and s :: "'tr StateDB"
  assume r: "is_ready i ctx s" and st: "p \<le> length (f_stack ctx)"
  let ?w = "f_stack ctx ! 1" let ?a = "u_Bytes20 (in_u256 i) ?w"
  have sa: "stack_addr i 1 ctx = Some ?a" using st p by (simp add: stack_addr_def stack_Back_def)
  have old: "\<exists>r ctx' s'. f i msize ctx1 s1 = Some (r, ctx', s') \<and> calm K db A s s' \<and> same_shape ctx ctx' \<and> ctx_smoke ctx' \<le> ctx_smoke ctx \<and>
      (\<forall>c. r = Inr c \<longrightarrow> ext (in_u256 i) ctx' \<le> unat c \<and> unat msize \<le> MaxMemory \<and> callee_listed i ctx' s')"
    if c: "calm K db A s s1" and sh: "same_shape ctx ctx1" and le: "ctx_smoke ctx1 \<le> ctx_smoke ctx" and l: "?a \<in> dom (al_addresses (sd_accessList s1))" for ctx1 s1
  proof -
    have "p \<le> length (f_stack ctx1)" using st same_shape_simps(1) [OF sh] by simp
    then obtain d ctx' s' where d: "f i msize ctx1 s1 = Some (d, ctx', s')" "calm K db A s1 s'" "same_shape ctx1 ctx'" "f_contract ctx' = f_contract ctx1"
      "\<forall>c. d = Inr c \<longrightarrow> ext (in_u256 i) ctx' \<le> unat c \<and> unat msize \<le> MaxMemory"
      using f [rule_format, OF ready_shape [OF r sh c], of msize] by blast
    have "dom (al_addresses (sd_accessList s1)) \<subseteq> dom (al_addresses (sd_accessList s'))" using d(2) by (simp add: calm_def tame_def grows_def)
    then have "callee_listed i ctx' s'" using l same_shape_simps(1) [OF sh] same_shape_simps(1) [OF d(3)] unfolding callee_listed_def by (simp del: domIff not_None_eq) blast
    then show ?thesis using d calm_trans [OF c d(2)] same_shape_trans [OF sh d(3)] le by simp
  qed
  show "\<exists>r ctx' s'. makeCallVariantSmokeCallEIP2929 f i msize ctx s = Some (r, ctx', s') \<and> calm K db A s s' \<and> same_shape ctx ctx' \<and> ctx_smoke ctx' \<le> ctx_smoke ctx \<and>
      (\<forall>c. r = Inr c \<longrightarrow> ext (in_u256 i) ctx' \<le> unat c \<and> unat msize \<le> MaxMemory \<and> callee_listed i ctx' s')"
  proof (cases "AddressInAccessList ?a s")
    case True
    then have "?a \<in> dom (al_addresses (sd_accessList s))" by (simp add: AddressInAccessList_def ContainsAddress_def domIff)
    from old [OF calm_refl same_shape_refl order_refl this] show ?thesis using sa True by (simp add: makeCallVariantSmokeCallEIP2929_def)
  next
    case False
    let ?s1 = "AddAddressToAccessList ?a s"
    have c: "calm K db A s ?s1" by (rule calm_writes(4) [OF ready_facts(5,10) [OF r]])
    show ?thesis
    proof (rule UseSmoke_cases [of "ColdAccountAccessCostEIP2929 - WarmStorageReadCostEIP2929" "f_contract ctx"])
      assume "UseSmoke (ColdAccountAccessCostEIP2929 - WarmStorageReadCostEIP2929) (f_contract ctx) = (False, f_contract ctx)"
      then show ?thesis using sa False c by (simp add: makeCallVariantSmokeCallEIP2929_def)
    next
      let ?g = "ctx_smoke ctx - (ColdAccountAccessCostEIP2929 - WarmStorageReadCostEIP2929)"
      assume u: "UseSmoke (ColdAccountAccessCostEIP2929 - WarmStorageReadCostEIP2929) (f_contract ctx) = (True, (f_contract ctx)\<lparr>c_Smoke := ?g\<rparr>)"
        "ColdAccountAccessCostEIP2929 - WarmStorageReadCostEIP2929 \<le> ctx_smoke ctx"
      show ?thesis using old [OF c same_shape_smoke [of ctx ?g] _ AddAddress_in] word_sub_less(1) [OF u(2)] sa False u(1)
        by (simp add: makeCallVariantSmokeCallEIP2929_def)
    qed
  qed
qed

lemma create_dyn:
  assumes "priced p True 0 f"
  shows "call_dyn K db good A p (\<lambda>_ _. 0) (\<lambda>_ _ _. True) y f"
  using assms unfolding call_dyn_def plain_dyn_def by (metis le0 order_refl)

subsection \<open>Refunds\<close>

text \<open>A change of the refund counter and of nothing else.\<close>

definition refunds :: "'tr StateDB \<Rightarrow> 'tr StateDB \<Rightarrow> bool" where
  "refunds s s' \<longleftrightarrow> steps K db A s s' \<and> vw s' = (vw s)\<lparr>v_refund := sd_refund s'\<rparr>"

lemma refunds_refl: "refunds s s"
  by (simp add: refunds_def view_def)

lemma refunds_trans: "refunds s s1 \<Longrightarrow> refunds s1 s2 \<Longrightarrow> refunds s s2"
  unfolding refunds_def using steps_trans by auto

lemma AddRefund_refunds: "tx s \<Longrightarrow> refunds s (AddRefund n s)"
  using steps_op [of s "OpAddRefund n"] by (auto simp: refunds_def AddRefund_def)

lemma SubRefund_refunds: "tx s \<Longrightarrow> n \<le> sd_refund s \<Longrightarrow> \<exists>s'. SubRefund n s = Some s' \<and> refunds s s' \<and> sd_refund s' = sd_refund s - n"
  using steps_op [of s "OpSubRefund n"] by (auto simp: refunds_def SubRefund_def Let_def)

lemma refunds_same:
  assumes "tx s" "refunds s s'"
  shows "tx s'" "same_bal K db A s s'" "grows (vw s) (vw s')" "cleared (vw s') = cleared (vw s)" "short_codes (vw s') = short_codes (vw s)"
    "cleared_after (vw s') a k val = cleared_after (vw s) a k val"
proof -
  show tx': "tx s'" using steps_tx [OF assms(1)] assms(2) by (simp add: refunds_def)
  have v: "v_live (vw s') = v_live (vw s)" "v_accessList (vw s') = v_accessList (vw s)" using assms(2) by (simp_all add: refunds_def v_live_def fun_eq_iff)
  show "same_bal K db A s s'" using assms(1) tx' v(1) by (simp add: same_bal_def bal_view tx_state_def)
  show "grows (vw s) (vw s')" "cleared (vw s') = cleared (vw s)" "short_codes (vw s') = short_codes (vw s)"
    "cleared_after (vw s') a k val = cleared_after (vw s) a k val"
    by (simp_all only: grows_def cleared_def short_codes_def cleared_after_def v) simp_all
qed

subsection \<open>Storage writes\<close>

definition store_ok :: "address \<Rightarrow> hash \<Rightarrow> hash \<Rightarrow> 'tr StateDB \<Rightarrow> 'tr StateDB \<Rightarrow> bool" where
  "store_ok a k val s s' \<longleftrightarrow> steps K db A s s' \<and> same_bal K db A s s' \<and> grows (vw s) (vw s') \<and> short_codes (vw s') \<and> finite (cleared (vw s')) \<and>
    15000 * card (cleared_after (vw s') a k val) \<le> unat (sd_refund s') \<and> unat (sd_refund s') \<le> unat (sd_refund s) + 24000"

lemma store_refunds:
  assumes s: "sound K db good A s" and r: "refunds s s'"
    and le: "15000 * card (cleared_after (vw s) a k val) \<le> unat (sd_refund s')" "unat (sd_refund s') \<le> unat (sd_refund s) + 24000"
  shows "store_ok a k val s s'"
  using refunds_same [OF sound_tx(1) [OF s] r] r le s by (simp add: store_ok_def refunds_def sound_def refund_covers_def)

lemma covers_card: "sound K db good A s \<Longrightarrow> 15000 * card (cleared (vw s)) \<le> unat (sd_refund s)" "sound K db good A s \<Longrightarrow> finite (cleared (vw s))"
  by (simp_all add: sound_def refund_covers_def)

lemma card_after:
  assumes "sound K db good A s"
  shows "card (cleared_after (vw s) a k val) \<le> card (cleared (vw s)) + 1"
    "cleared_after (vw s) a k val \<subseteq> cleared (vw s) \<Longrightarrow> card (cleared_after (vw s) a k val) \<le> card (cleared (vw s))"
    "(a, k) \<in> cleared (vw s) \<Longrightarrow> val \<noteq> zero_hash \<Longrightarrow> card (cleared_after (vw s) a k val) + 1 = card (cleared (vw s))"
proof -
  note f = covers_card(2) [OF assms]
  show "card (cleared_after (vw s) a k val) \<le> card (cleared (vw s)) + 1"
    using f card_insert_le_m1 [of "card (cleared (vw s)) + 1"] card_Diff1_le [of "cleared (vw s)" "(a, k)"] by (auto simp: cleared_after_def card_insert_if)
  show "cleared_after (vw s) a k val \<subseteq> cleared (vw s) \<Longrightarrow> card (cleared_after (vw s) a k val) \<le> card (cleared (vw s))" by (rule card_mono [OF f])
  show "card (cleared_after (vw s) a k val) + 1 = card (cleared (vw s))" if "(a, k) \<in> cleared (vw s)" "val \<noteq> zero_hash"
    using f that card_Suc_Diff1 [OF f that(1)] by (simp add: cleared_after_def)
qed

lemma store_keep:
  assumes "sound K db good A s" "cleared_after (vw s) a k val \<subseteq> cleared (vw s)"
  shows "store_ok a k val s s"
  using card_after(2) [OF assms] covers_card(1) [OF assms(1)] by (intro store_refunds [OF assms(1) refunds_refl]) linarith+

lemma store_add:
  assumes s: "sound K db good A s" and b: "unat (sd_refund s) + 24000 < 2 ^ 64" and n: "unat n \<le> 24000"
    and c: "cleared_after (vw s) a k val \<subseteq> cleared (vw s) \<or> 15000 \<le> unat n"
  shows "store_ok a k val s (AddRefund n s)"
proof -
  have u: "unat (sd_refund (AddRefund n s)) = unat (sd_refund s) + unat n" using b n by (simp add: AddRefund_def unat_word_ariths)
  show ?thesis
    using card_after(1,2) [OF s, of a k val] covers_card(1) [OF s] u n c by (intro store_refunds [OF s AddRefund_refunds [OF sound_tx(1) [OF s]]]) auto
qed

lemma store_sub:
  assumes s: "sound K db good A s" and b: "unat (sd_refund s) + 24000 < 2 ^ 64" and c: "(a, k) \<in> cleared (vw s)" "val \<noteq> zero_hash"
  shows "\<exists>s'. SubRefund 15000 s = Some s' \<and> store_ok a k val s s' \<and> (\<forall>n. unat n \<le> 24000 \<longrightarrow> store_ok a k val s (AddRefund n s'))"
proof -
  note tx = sound_tx(1) [OF s]
  have "15000 \<le> unat (sd_refund s)" using card_after(3) [OF s c] covers_card(1) [OF s] by linarith
  then have le: "15000 \<le> sd_refund s" by (simp add: word_le_nat_alt)
  obtain s' where s': "SubRefund 15000 s = Some s'" "refunds s s'" "sd_refund s' = sd_refund s - 15000" using SubRefund_refunds [OF tx le] by blast
  have u: "unat (sd_refund s') + 15000 = unat (sd_refund s)" using s'(3) le by (simp add: unat_sub_le word_le_nat_alt)
  have ok: "15000 * card (cleared_after (vw s) a k val) \<le> unat (sd_refund s')" using card_after(3) [OF s c] covers_card(1) [OF s] u by linarith
  have "store_ok a k val s s'" using ok u by (intro store_refunds [OF s s'(2)]) simp_all
  moreover have "store_ok a k val s (AddRefund n s')" if "unat n \<le> 24000" for n
  proof -
    have v: "unat (sd_refund (AddRefund n s')) = unat (sd_refund s') + unat n" using b u that by (simp add: AddRefund_def unat_word_ariths)
    show ?thesis using ok u v that
      by (intro store_refunds [OF s refunds_trans [OF s'(2) AddRefund_refunds [OF refunds_same(1) [OF tx s'(2)]]]]) simp_all
  qed
  ultimately show ?thesis using s'(1) by blast
qed

text \<open>The cases of a write: the current value, the value before the transaction, and the new one.\<close>

lemma slot_cleared:
  assumes "v_live v a = Some ob" "ov_state ob k = Some cur"
  shows "(a, k) \<in> cleared v \<longleftrightarrow> cur = zero_hash \<and> ov_committed ob k \<noteq> Some zero_hash"
    "cleared_after v a k val = (if val = zero_hash \<and> ov_committed ob k \<noteq> Some zero_hash then insert (a, k) (cleared v) else cleared v - {(a, k)})"
  using assms by (auto simp: cleared_def cleared_after_def)

lemma store_noop:
  assumes "sound K db good A s" "v_live (vw s) a = Some ob" "ov_state ob k = Some cur" "val \<noteq> zero_hash \<or> cur = zero_hash"
  shows "store_ok a k val s s"
  using store_keep [OF assms(1)] slot_cleared [OF assms(2,3)] assms(4) by auto

lemma store_net:
  assumes s: "sound K db good A s" and b: "unat (sd_refund s) + 24000 < 2 ^ 64" and ob: "v_live (vw s) a = Some ob" "ov_state ob k = Some cur" "ov_committed ob k = Some orig"
    and ne: "cur \<noteq> val" "orig \<noteq> cur" and n: "unat n1 \<le> 24000" "unat n2 \<le> 24000"
  shows "\<exists>s1. (if orig \<noteq> zero_hash then if cur = zero_hash then SubRefund 15000 s else Some (if val = zero_hash then AddRefund 15000 s else s) else Some s) = Some s1 \<and>
    store_ok a k val s (if orig = val then if orig = zero_hash then AddRefund n1 s1 else AddRefund n2 s1 else s1)"
proof (cases "orig \<noteq> zero_hash \<and> cur = zero_hash")
  case True
  then have "(a, k) \<in> cleared (vw s)" "val \<noteq> zero_hash" using slot_cleared(1) [OF ob(1,2)] ob(3) ne by auto
  from store_sub [OF s b this] show ?thesis using True n by auto
next
  case False
  then consider "orig = zero_hash" | "orig \<noteq> zero_hash" "cur \<noteq> zero_hash" "val = zero_hash" | "orig \<noteq> zero_hash" "cur \<noteq> zero_hash" "val \<noteq> zero_hash" by blast
  then show ?thesis
  proof cases
    case 1
    then have "cleared_after (vw s) a k val \<subseteq> cleared (vw s)" using slot_cleared [OF ob(1,2)] ob(3) by auto
    then show ?thesis using 1 store_keep [OF s] store_add [OF s b n(1)] by auto
  next
    case 2
    then show ?thesis using store_add [OF s b, of 15000] by auto
  next
    case 3
    then have "cleared_after (vw s) a k val \<subseteq> cleared (vw s)" using slot_cleared [OF ob(1,2)] by auto
    then show ?thesis using 3 store_keep [OF s] store_add [OF s b n(2)] by auto
  qed
qed

lemma store_still:
  assumes "still K db A s s1" "store_ok a k val s1 s2"
  shows "store_ok a k val s s2"
proof -
  have "steps K db A s s2" "same_bal K db A s s2" "grows (vw s) (vw s2)"
    using assms steps_trans same_bal_trans grows_trans unfolding store_ok_def still_def tame_def by blast+
  then show ?thesis using assms(2) calm_refund [OF still_calm [OF assms(1)]] by (simp add: store_ok_def)
qed

text \<open>Reading the two values of the slot of a running contract.\<close>

lemma slot_reads:
  assumes r: "is_ready i ctx s" and b: "unat (sd_refund s) + 24000 < 2 ^ 64"
  obtains ob cur orig s1 where "GetState K db (ctx_Address ctx) k s = Some (cur, s1)" "still K db A s s1" "sound K db good A s1"
    "unat (sd_refund s1) + 24000 < 2 ^ 64" "v_live (vw s1) (ctx_Address ctx) = Some ob" "ov_state ob k = Some cur" "ov_committed ob k = Some orig"
    "\<And>s2. tx s2 \<Longrightarrow> v_objects (vw s2) = v_objects (vw s1) \<Longrightarrow> \<exists>s3. GetCommittedState K db (ctx_Address ctx) k s2 = Some (orig, s3) \<and> looks K db A s2 s3"
proof -
  note f = ready_facts [OF r]
  obtain ob where ob: "v_live (vw s) (ctx_Address ctx) = Some ob" using readyD(3) [OF r] by (auto simp: runs_as_def)
  obtain cur s1 where c: "GetState K db (ctx_Address ctx) k s = Some (cur, s1)" "looks K db A s s1" "ov_state ob k = Some cur"
    by (rule looks_slot [OF f(5,4), of k]) (use ob that in auto)
  obtain orig s1' where o: "ov_committed ob k = Some orig"
    by (rule looks_committed [OF f(5,4), of k]) (use ob in auto)
  have st: "still K db A s s1" by (rule looks_still [OF f(5) c(2)])
  have ob1: "v_live (vw s1) (ctx_Address ctx) = Some ob" using ob c(2) by (simp add: looks_def)
  have g: "\<exists>s3. GetCommittedState K db (ctx_Address ctx) k s2 = Some (orig, s3) \<and> looks K db A s2 s3" if "tx s2" "v_objects (vw s2) = v_objects (vw s1)" for s2
  proof -
    have "v_live (vw s2) (ctx_Address ctx) = Some ob" using ob1 that(2) by (simp add: v_live_def)
    then show ?thesis using o by (metis looks_committed [OF that(1) f(4), of k] option.case(2) option.inject)
  qed
  have "unat (sd_refund s1) + 24000 < 2 ^ 64" using b calm_refund [OF still_calm [OF st]] by simp
  from that [OF c(1) st looks_sound [OF readyD(1) [OF r] c(2)] this ob1 c(3) o g] show ?thesis .
qed

lemma store_part:
  assumes s: "sound K db good A s" and b: "unat (sd_refund s) + 24000 < 2 ^ 64" and ob: "v_live (vw s) a = Some ob" "ov_state ob k = Some cur" "ov_committed ob k = Some orig"
    and g: "\<exists>s1. GetCommittedState K db a k s = Some (orig, s1) \<and> looks K db A s s1" and ne: "cur \<noteq> val"
    and n: "unat n1 \<le> 24000" "unat n2 \<le> 24000" and c: "1 \<le> unat c1" "1 \<le> unat c2" "1 \<le> unat c3"
  shows "\<exists>c s'. do { (original, s) \<leftarrow> GetCommittedState K db a k s;
            if original = cur
            then if original = zero_hash then Some (Inr c1, ctx, s)
                 else Some (Inr c2, ctx, if val = zero_hash then AddRefund 15000 s else s)
            else do { s \<leftarrow> (if original \<noteq> zero_hash
                             then if cur = zero_hash then SubRefund 15000 s
                                  else Some (if val = zero_hash then AddRefund 15000 s else s)
                             else Some s);
              let s = (if original = val
                       then if original = zero_hash then AddRefund n1 s
                            else AddRefund n2 s
                       else s)
              in Some (Inr c3, ctx, s) } } = Some (Inr c, ctx, s') \<and> 1 \<le> unat c \<and> store_ok a k val s s'"
proof -
  obtain s1 where s1: "GetCommittedState K db a k s = Some (orig, s1)" "looks K db A s s1" using g by blast
  have snd1: "sound K db good A s1" by (rule looks_sound [OF s s1(2)])
  have v: "vw s1 = vw s" using s1(2) by (simp add: looks_def)
  have st: "still K db A s s1" by (rule looks_still [OF sound_tx(1) [OF s] s1(2)])
  have b1: "unat (sd_refund s1) + 24000 < 2 ^ 64" using b calm_refund [OF still_calm [OF st]] by simp
  have ob1: "v_live (vw s1) a = Some ob" using ob(1) v by simp
  note lift = store_still [OF st]
  show ?thesis
  proof (cases "orig = cur")
    case True
    have "store_ok a k val s1 (if val = zero_hash \<and> orig \<noteq> zero_hash then AddRefund 15000 s1 else s1)"
      using store_noop [OF snd1 ob1 ob(2), of val] store_add [OF snd1 b1, of 15000] True by auto
    then show ?thesis using True lift s1(1) c by auto
  next
    case False
    obtain s2 where s2: "(if orig \<noteq> zero_hash then if cur = zero_hash then SubRefund 15000 s1 else Some (if val = zero_hash then AddRefund 15000 s1 else s1) else Some s1) = Some s2"
      "store_ok a k val s1 (if orig = val then if orig = zero_hash then AddRefund n1 s2 else AddRefund n2 s2 else s2)"
      using store_net [OF snd1 b1 ob1 ob(2,3) ne False n] by blast
    then show ?thesis using False lift [OF s2(2)] s1(1) c(3) by (simp only: Option.bind.simps prod.case if_False Let_def) blast
  qed
qed

lemma store_dynI:
  assumes "\<And>i msize ctx s k val st. is_ready i ctx s \<Longrightarrow> f_stack ctx = k # val # st \<Longrightarrow> r_IsYoloV2 (evm_chainRules (in_evm i)) = y \<Longrightarrow>
    unat (sd_refund s) + 24000 < 2 ^ 64 \<Longrightarrow> \<exists>r s'. f i msize ctx s = Some (r, ctx, s') \<and> steps K db A s s' \<and>
      (\<forall>c. r = Inr c \<longrightarrow> 1 \<le> unat c \<and> store_ok (ctx_Address ctx) (u_Bytes32 (in_u256 i) k) (u_Bytes32 (in_u256 i) val) s s')"
  shows "store_dyn K db good A y f"
  unfolding store_dyn_def
proof (intro allI impI)
  fix i msize ctx s k val st
  assume "is_ready i ctx s" "f_stack ctx = k # val # st" "r_IsYoloV2 (evm_chainRules (in_evm i)) = y" "unat (sd_refund s) + 24000 < 2 ^ 64"
  from assms [OF this, of msize] obtain r s' where r: "f i msize ctx s = Some (r, ctx, s')" "steps K db A s s'"
    "\<And>c. r = Inr c \<Longrightarrow> 1 \<le> unat c" "\<And>c. r = Inr c \<Longrightarrow> store_ok (ctx_Address ctx) (u_Bytes32 (in_u256 i) k) (u_Bytes32 (in_u256 i) val) s s'" by blast
  have "unat (sd_refund s') \<le> unat (sd_refund s) + 65536 * unat c" if "r = Inr c" for c
    using r(3,4) [OF that] by (simp add: store_ok_def)
  then show "\<exists>r s'. f i msize ctx s = Some (r, ctx, s') \<and> steps K db A s s' \<and>
      (\<forall>c. r = Inr c \<longrightarrow> 1 \<le> unat c \<and> unat (sd_refund s') \<le> unat (sd_refund s) + 65536 * unat c \<and>
        same_bal K db A s s' \<and> grows (vw s) (vw s') \<and> short_codes (vw s') \<and> finite (cleared (vw s')) \<and>
        15000 * card (cleared_after (vw s') (ctx_Address ctx) (u_Bytes32 (in_u256 i) k) (u_Bytes32 (in_u256 i) val)) \<le> unat (sd_refund s'))"
    using r unfolding store_ok_def by blast
qed

lemma store_charged:
  assumes "\<exists>c s'. e = Some (Inr c, ctx, s') \<and> 1 \<le> unat c \<and> store_ok a k val s s'"
  shows "\<exists>r s'. e = Some (r, ctx, s') \<and> steps K db A s s' \<and> (\<forall>c. r = Inr c \<longrightarrow> 1 \<le> unat c \<and> store_ok a k val s s')"
  using assms by (auto simp: store_ok_def)

lemma store_lift:
  assumes "still K db A s s1" "\<exists>c s'. e = Some (Inr c, ctx, s') \<and> 1 \<le> unat c \<and> store_ok a k val s1 s'"
  shows "\<exists>c s'. e = Some (Inr c, ctx, s') \<and> 1 \<le> unat c \<and> store_ok a k val s s'"
  using assms(2) store_still [OF assms(1)] by blast

lemma eip2200_dyn: "store_dyn K db good A y smokeSStoreEIP2200"
proof (rule store_dynI)
  fix i :: "'tr EVMInterpreter" and msize :: uint64 and ctx :: callCtx and s :: "'tr StateDB" and k w st
  assume r: "is_ready i ctx s" and stk: "f_stack ctx = k # w # st" and b: "unat (sd_refund s) + 24000 < 2 ^ 64"
  note f = ready_facts [OF r]
  let ?a = "ctx_Address ctx" let ?k = "u_Bytes32 (in_u256 i) k" let ?v = "u_Bytes32 (in_u256 i) w"
  obtain ob cur orig s1 where g: "GetState K db ?a ?k s = Some (cur, s1)" "still K db A s s1" "sound K db good A s1"
    "unat (sd_refund s1) + 24000 < 2 ^ 64" "v_live (vw s1) ?a = Some ob" "ov_state ob ?k = Some cur" "ov_committed ob ?k = Some orig"
    "\<And>s2. tx s2 \<Longrightarrow> v_objects (vw s2) = v_objects (vw s1) \<Longrightarrow> \<exists>s3. GetCommittedState K db ?a ?k s2 = Some (orig, s3) \<and> looks K db A s2 s3"
    by (rule slot_reads [OF r b, of ?k]) (rule that)
  have bk: "Back 1 ctx = Some w" "Back 0 ctx = Some k" by (simp_all add: stk stack_Back_def)
  show "\<exists>r s'. smokeSStoreEIP2200 i msize ctx s = Some (r, ctx, s') \<and> steps K db A s s' \<and> (\<forall>c. r = Inr c \<longrightarrow> 1 \<le> unat c \<and> store_ok ?a ?k ?v s s')"
  proof (cases "c_Smoke (f_contract ctx) \<le> SstoreSentrySmokeEIP2200")
    case True
    then show ?thesis by (simp add: smokeSStoreEIP2200_def)
  next
    case False
    show ?thesis
    proof (cases "cur = ?v")
      case True
      have "store_ok ?a ?k ?v s s1" using store_still [OF g(2) store_noop [OF g(3,5,6)]] True by simp
      then show ?thesis using False True bk g(1) f(2,3) by (intro store_charged) (simp add: smokeSStoreEIP2200_def)
    next
      case ne: False
      note part = store_part [OF g(3-7) g(8) [OF sound_tx(1) [OF g(3)] refl] ne,
          of "SstoreSetSmokeEIP2200 - SloadSmokeEIP2200" "SstoreResetSmokeEIP2200 - SloadSmokeEIP2200"
          SstoreSetSmokeEIP2200 SstoreResetSmokeEIP2200 SloadSmokeEIP2200 ctx]
      show ?thesis unfolding smokeSStoreEIP2200_def Let_def if_not_P [OF False] bk g(1) f(2,3) Option.bind.simps prod.case if_not_P [OF ne]
        by (intro store_charged store_lift [OF g(2)] part [unfolded Let_def]) simp_all
    qed
  qed
qed

lemma sstore_dyn: "store_dyn K db good A y smokeSStore"
proof (rule store_dynI)
  fix i :: "'tr EVMInterpreter" and msize :: uint64 and ctx :: callCtx and s :: "'tr StateDB" and k w st
  assume r: "is_ready i ctx s" and stk: "f_stack ctx = k # w # st" and b: "unat (sd_refund s) + 24000 < 2 ^ 64"
  note f = ready_facts [OF r]
  let ?a = "ctx_Address ctx" let ?k = "u_Bytes32 (in_u256 i) k" let ?v = "u_Bytes32 (in_u256 i) w"
  let ?old = "r_IsPetersburg (evm_chainRules (in_evm i)) \<or> \<not> r_IsConstantinople (evm_chainRules (in_evm i))"
  obtain ob cur orig s1 where g: "GetState K db ?a ?k s = Some (cur, s1)" "still K db A s s1" "sound K db good A s1"
    "unat (sd_refund s1) + 24000 < 2 ^ 64" "v_live (vw s1) ?a = Some ob" "ov_state ob ?k = Some cur" "ov_committed ob ?k = Some orig"
    "\<And>s2. tx s2 \<Longrightarrow> v_objects (vw s2) = v_objects (vw s1) \<Longrightarrow> \<exists>s3. GetCommittedState K db ?a ?k s2 = Some (orig, s3) \<and> looks K db A s2 s3"
    by (rule slot_reads [OF r b, of ?k]) (rule that)
  have bk: "Back 1 ctx = Some w" "Back 0 ctx = Some k" by (simp_all add: stk stack_Back_def)
  have z: "u_Sign (in_u256 i) w = 0 \<longleftrightarrow> ?v = zero_hash" by (simp add: uint256_simps [OF f(1)])
  have keep: "store_ok ?a ?k ?v s s1" if "?v \<noteq> zero_hash \<or> cur = zero_hash" using store_still [OF g(2) store_noop [OF g(3,5,6) that]] .
  have add: "store_ok ?a ?k ?v s (AddRefund SstoreRefundSmoke s1)" by (rule store_still [OF g(2) store_add [OF g(3,4)]]) simp_all
  show "\<exists>r s'. smokeSStore i msize ctx s = Some (r, ctx, s') \<and> steps K db A s s' \<and> (\<forall>c. r = Inr c \<longrightarrow> 1 \<le> unat c \<and> store_ok ?a ?k ?v s s')"
  proof (cases ?old)
    case True
    then show ?thesis using keep add bk g(1) f(2,3) z by (intro store_charged) (auto simp: smokeSStore_def)
  next
    case False
    show ?thesis
    proof (cases "cur = ?v")
      case True
      then have "store_ok ?a ?k ?v s s1" using keep by blast
      then show ?thesis using False True bk g(1) f(2,3) by (intro store_charged) (simp add: smokeSStore_def)
    next
      case ne: False
      note part = store_part [OF g(3-7) g(8) [OF sound_tx(1) [OF g(3)] refl] ne,
          of NetSstoreResetClearRefund NetSstoreResetRefund NetSstoreInitSmoke NetSstoreCleanSmoke NetSstoreDirtySmoke ctx]
      show ?thesis unfolding smokeSStore_def Let_def bk g(1) f(2,3) Option.bind.simps prod.case if_not_P [OF False] if_not_P [OF ne]
        by (intro store_charged store_lift [OF g(2)] part [unfolded Let_def]) simp_all
    qed
  qed
qed

lemma eip2929_dyn: "store_dyn K db good A True smokeSStoreEIP2929"
proof (rule store_dynI)
  fix i :: "'tr EVMInterpreter" and msize :: uint64 and ctx :: callCtx and s :: "'tr StateDB" and k w st
  assume r: "is_ready i ctx s" and stk: "f_stack ctx = k # w # st" and y: "r_IsYoloV2 (evm_chainRules (in_evm i)) = True" and b: "unat (sd_refund s) + 24000 < 2 ^ 64"
  note f = ready_facts [OF r]
  let ?a = "ctx_Address ctx" let ?k = "u_Bytes32 (in_u256 i) k" let ?v = "u_Bytes32 (in_u256 i) w"
  obtain ob cur orig s1 where g: "GetState K db ?a ?k s = Some (cur, s1)" "still K db A s s1" "sound K db good A s1"
    "unat (sd_refund s1) + 24000 < 2 ^ 64" "v_live (vw s1) ?a = Some ob" "ov_state ob ?k = Some cur" "ov_committed ob ?k = Some orig"
    "\<And>s2. tx s2 \<Longrightarrow> v_objects (vw s2) = v_objects (vw s1) \<Longrightarrow> \<exists>s3. GetCommittedState K db ?a ?k s2 = Some (orig, s3) \<and> looks K db A s2 s3"
    by (rule slot_reads [OF r b, of ?k]) (rule that)
  note tx1 = sound_tx(1) [OF g(3)]
  have bk: "Back 1 ctx = Some w" "Back 0 ctx = Some k" by (simp_all add: stk stack_Back_def)
  have "runs_as K db A (in_evm i) ?a s1" using calm_runs_as [OF still_calm [OF g(2)] readyD(3) [OF r]] .
  then have listed: "?a \<in> dom (al_addresses (sd_accessList s1))" using y by (simp add: runs_as_def)
  obtain q where q: "SlotInAccessList ?a ?k s1 = Some (True, q)"
    using Contains_sets [of "sd_accessList s1" ?a ?k] tx1 listed by (simp add: SlotInAccessList_def tx_state_def del: domIff not_None_eq)
  obtain s1' where s1': "AddSlotToAccessList ?a ?k s1 = Some s1'" "still K db A s1 s1'" "v_objects (vw s1') = v_objects (vw s1)" by (rule AddSlot_still [OF tx1]) (rule that)
  define s2 where "s2 = (if q then s1 else s1')"
  define cost :: uint64 where "cost = (if q then 0 else ColdSloadCostEIP2929)"
  have w: "(if \<not> q then AddSlotToAccessList ?a ?k s1 \<bind> (\<lambda>s. if \<not> True then None else Some (ColdSloadCostEIP2929, s)) else Some (0, s1)) = Some (cost, s2)"
    using s1'(1) by (simp add: s2_def cost_def)
  have st2: "still K db A s1 s2" "v_objects (vw s2) = v_objects (vw s1)" using s1' looks_still [OF tx1 looks_refl] by (simp_all add: s2_def)
  have snd2: "sound K db good A s2" by (rule calm_sound [OF g(3) still_calm [OF st2(1)]])
  have ob2: "v_live (vw s2) ?a = Some ob" using g(5) st2(2) by (simp add: v_live_def)
  have b2: "unat (sd_refund s2) + 24000 < 2 ^ 64" using g(4) calm_refund [OF still_calm [OF st2(1)]] by simp
  note st = still_trans [OF g(2) st2(1)]
  show "\<exists>r s'. smokeSStoreEIP2929 i msize ctx s = Some (r, ctx, s') \<and> steps K db A s s' \<and> (\<forall>c. r = Inr c \<longrightarrow> 1 \<le> unat c \<and> store_ok ?a ?k ?v s s')"
  proof (cases "c_Smoke (f_contract ctx) \<le> SstoreSentrySmokeEIP2200")
    case True
    then show ?thesis by (simp add: smokeSStoreEIP2929_def)
  next
    case False
    show ?thesis
    proof (cases "cur = ?v")
      case True
      have "store_ok ?a ?k ?v s s2" using store_still [OF st store_noop [OF snd2 ob2 g(6)]] True by simp
      then show ?thesis unfolding smokeSStoreEIP2929_def Let_def if_not_P [OF False] bk g(1) f(2,3) q w Option.bind.simps prod.case if_P [OF True]
        by (intro store_charged) (simp add: cost_def)
    next
      case ne: False
      note part = store_part [OF snd2 b2 ob2 g(6,7) g(8) [OF sound_tx(1) [OF snd2] st2(2)] ne,
          of "SstoreSetSmokeEIP2200 - WarmStorageReadCostEIP2929" "(SstoreResetSmokeEIP2200 - ColdSloadCostEIP2929) - WarmStorageReadCostEIP2929"
          "cost + SstoreSetSmokeEIP2200" "cost + (SstoreResetSmokeEIP2200 - ColdSloadCostEIP2929)" "cost + WarmStorageReadCostEIP2929" ctx]
      show ?thesis unfolding smokeSStoreEIP2929_def Let_def if_not_P [OF False] bk g(1) f(2,3) q w Option.bind.simps prod.case if_not_P [OF ne]
        by (intro store_charged store_lift [OF st] part [unfolded Let_def]) (simp_all add: cost_def)
    qed
  qed
qed

subsection \<open>Self-destruction\<close>

lemma suicide_refund:
  assumes s: "sound K db good A s" and c: "still K db A s s1" and b: "unat (sd_refund s) + 24000 < 2 ^ 64" and a: "a \<in> A"
  shows "\<exists>s'. (case HasSuicided K db a s1 of (suicided, s2) \<Rightarrow> Some (Inr g, ctx, if \<not> suicided then AddRefund SelfdestructRefundSmoke s2 else s2)) =
      Some (Inr g, ctx, s') \<and> steps K db A s s' \<and> same_bal K db A s s' \<and> grows (vw s) (vw s') \<and> refund_covers (vw s') \<and> short_codes (vw s') \<and>
      unat (sd_refund s') \<le> unat (sd_refund s) + 24000"
proof -
  have snd1: "sound K db good A s1" by (rule calm_sound [OF s still_calm [OF c]])
  let ?s2 = "snd (HasSuicided K db a s1)"
  have l2: "looks K db A s1 ?s2" by (rule looks_reads(6) [OF sound_tx(1) [OF snd1] a])
  have st2: "still K db A s ?s2" using still_trans [OF c looks_still [OF sound_tx(1) [OF snd1] l2]] .
  have snd2: "sound K db good A ?s2" by (rule calm_sound [OF s still_calm [OF st2]])
  have rf: "sd_refund ?s2 = sd_refund s" by (rule calm_refund [OF still_calm [OF st2]])
  have u: "unat (sd_refund (AddRefund SelfdestructRefundSmoke ?s2)) = unat (sd_refund s) + 24000" using b rf by (simp add: AddRefund_def unat_word_ariths)
  note r = AddRefund_refunds [OF sound_tx(1) [OF snd2], of SelfdestructRefundSmoke]
  note rs = refunds_same [OF sound_tx(1) [OF snd2] r]
  have cov: "refund_covers (vw (AddRefund SelfdestructRefundSmoke ?s2))" using covers_card [OF snd2] rs(4) u rf by (simp add: refund_covers_def)
  let ?s3 = "if \<not> fst (HasSuicided K db a s1) then AddRefund SelfdestructRefundSmoke ?s2 else ?s2"
  have a2: "steps K db A s ?s2" "same_bal K db A s ?s2" "grows (vw s) (vw ?s2)" using st2 by (simp_all add: still_def tame_def)
  have "steps K db A ?s2 (AddRefund SelfdestructRefundSmoke ?s2)" using r by (simp add: refunds_def)
  with a2 have "steps K db A s ?s3" "same_bal K db A s ?s3" "grows (vw s) (vw ?s3)"
    using steps_trans [OF a2(1)] same_bal_trans [OF a2(2) rs(2)] grows_trans [OF a2(3) rs(3)] by simp_all
  moreover have "refund_covers (vw ?s3)" "short_codes (vw ?s3)" "unat (sd_refund ?s3) \<le> unat (sd_refund s) + 24000"
    using cov rs(5) snd2 u rf by (simp_all add: sound_def)
  ultimately show ?thesis by (simp add: case_prod_beta)
qed

lemma selfdestruct_dyn: "suicide_dyn K db good A smokeSelfdestruct"
  unfolding suicide_dyn_def
proof (intro allI impI)
  fix i :: "'tr EVMInterpreter" and msize :: uint64 and ctx :: callCtx and s :: "'tr StateDB"
  assume r: "is_ready i ctx s" and st: "1 \<le> length (f_stack ctx)" and b: "unat (sd_refund s) + 24000 < 2 ^ 64"
  note f = ready_facts [OF r]
  let ?w = "f_stack ctx ! 0" let ?self = "ctx_Address ctx"
  have sa: "stack_addr i 0 ctx = Some (u_Bytes20 (in_u256 i) ?w)" using st by (auto simp: stack_addr_def stack_Back_def)
  note l = looks_reads [OF f(5) f(10) [of ?w]]
  have l2: "looks K db A s (snd (GetBalance K db ?self (snd (Empty K db (u_Bytes20 (in_u256 i) ?w) s))))"
    using looks_trans [OF l(5) looks_reads(1) [OF looks_tx [OF f(5) l(5)] f(4)]] .
  obtain g0 s0 where s0: "(if r_IsEIP150 (evm_chainRules (in_evm i))
      then Some (u_Bytes20 (in_u256 i) ?w) \<bind> (\<lambda>address.
        if r_IsEIP158 (evm_chainRules (in_evm i))
        then case Empty K db address s of (emp, s) \<Rightarrow>
             if emp then case GetBalance K db ?self s of (balance, s) \<Rightarrow> Some (SelfdestructSmokeEIP150 + (if balance \<noteq> 0 then CreateBySelfdestructSmoke else 0), s)
             else Some (SelfdestructSmokeEIP150, s)
        else case Exist K db address s of (exists, s) \<Rightarrow> Some (SelfdestructSmokeEIP150 + (if \<not> exists then CreateBySelfdestructSmoke else 0), s))
      else Some (0, s)) = Some (g0, s0)" "looks K db A s s0"
    using l(4,5) l2 by (fastforce simp: case_prod_beta split: if_splits)
  have "\<exists>g s1. looks K db A s s1 \<and> smokeSelfdestruct i msize ctx s =
    (case HasSuicided K db ?self s1 of (suicided, s2) \<Rightarrow> Some (Inr g, ctx, if \<not> suicided then AddRefund SelfdestructRefundSmoke s2 else s2))"
    unfolding smokeSelfdestruct_def Let_def f(2,3) sa s0(1) by (intro exI conjI, rule s0(2), simp only: Option.bind.simps prod.case)
  then obtain g s1 where g: "looks K db A s s1" "smokeSelfdestruct i msize ctx s =
    (case HasSuicided K db ?self s1 of (suicided, s2) \<Rightarrow> Some (Inr g, ctx, if \<not> suicided then AddRefund SelfdestructRefundSmoke s2 else s2))" by blast
  show "\<exists>c s'. smokeSelfdestruct i msize ctx s = Some (Inr c, ctx, s') \<and> steps K db A s s' \<and> same_bal K db A s s' \<and>
      grows (vw s) (vw s') \<and> refund_covers (vw s') \<and> short_codes (vw s') \<and> unat (sd_refund s') \<le> unat (sd_refund s) + 24000"
    unfolding g(2) by (rule exI [of _ g]) (rule suicide_refund [OF readyD(1) [OF r] looks_still [OF f(5) g(1)] b f(4)])
qed

lemma selfdestruct2929_dyn: "suicide_dyn K db good A smokeSelfdestructEIP2929"
  unfolding suicide_dyn_def
proof (intro allI impI)
  fix i :: "'tr EVMInterpreter" and msize :: uint64 and ctx :: callCtx and s :: "'tr StateDB"
  assume r: "is_ready i ctx s" and st: "1 \<le> length (f_stack ctx)" and b: "unat (sd_refund s) + 24000 < 2 ^ 64"
  note f = ready_facts [OF r]
  let ?w = "f_stack ctx ! 0" let ?self = "ctx_Address ctx" let ?a = "u_Bytes20 (in_u256 i) ?w"
  have sa: "stack_addr i 0 ctx = Some ?a" using st by (auto simp: stack_addr_def stack_Back_def)
  define s1 where "s1 = (if \<not> AddressInAccessList ?a s then AddAddressToAccessList ?a s else s)"
  have st1: "still K db A s s1" using still_writes(4) [OF f(5) f(10)] looks_still [OF f(5) looks_refl] by (simp add: s1_def)
  have tx1: "tx s1" using steps_tx [OF f(5)] st1 by (simp add: still_def)
  obtain e s2 where e: "Empty K db ?a s1 = (e, s2)" by fastforce
  obtain create s3 where c: "(if e then case GetBalance K db ?self s2 of (balance, s) \<Rightarrow> (balance \<noteq> 0, s) else (False, s2)) = (create, s3)" by fastforce
  have l2: "looks K db A s1 s2" using looks_reads(5) [OF tx1 f(10) [of ?w]] e by simp
  have "looks K db A s2 s3" using looks_reads(1) [OF looks_tx [OF tx1 l2] f(4)] c by (auto split: if_splits prod.splits)
  then have st3: "still K db A s s3" using still_trans [OF st1 looks_still [OF tx1]] looks_trans [OF l2] by blast
  have "\<exists>g. smokeSelfdestructEIP2929 i msize ctx s =
    (case HasSuicided K db ?self s3 of (suicided, s2) \<Rightarrow> Some (Inr g, ctx, if \<not> suicided then AddRefund SelfdestructRefundSmoke s2 else s2))"
    unfolding smokeSelfdestructEIP2929_def Let_def f(2,3) sa Option.bind.simps s1_def [symmetric] e prod.case c by (rule exI) (rule refl)
  then obtain g where g: "smokeSelfdestructEIP2929 i msize ctx s =
    (case HasSuicided K db ?self s3 of (suicided, s2) \<Rightarrow> Some (Inr g, ctx, if \<not> suicided then AddRefund SelfdestructRefundSmoke s2 else s2))" by blast
  show "\<exists>c s'. smokeSelfdestructEIP2929 i msize ctx s = Some (Inr c, ctx, s') \<and> steps K db A s s' \<and> same_bal K db A s s' \<and>
      grows (vw s) (vw s') \<and> refund_covers (vw s') \<and> short_codes (vw s') \<and> unat (sd_refund s') \<le> unat (sd_refund s) + 24000"
    unfolding g by (rule exI [of _ g]) (rule suicide_refund [OF readyD(1) [OF r] st3 b f(4)])
qed

end

end
