(* ===== verification/Evm_Tables.thy ===== *)
theory Evm_Tables
  imports Evm_Prices
begin

section \<open>The jump tables keep their contract\<close>

text \<open>
  Every operation of the instruction set of every fork is one of the four kinds of \<open>Evm_Frames\<close>.
  With that, the interpreter always returns with a result that its callers can rely on.
\<close>

lemma unused_push:
  assumes "0xA0 \<le> b"
  shows "map_of frontier_push b = None" "map_of frontier_dup b = None" "map_of frontier_swap b = None"
proof -
  have n: "unat (c + word_of_nat n :: byte) = unat c + n" if "unat c + n < 160" for n and c :: byte using that by (simp add: unat_word_ariths unat_of_nat)
  have b: "160 \<le> unat b" using assms by (simp add: word_le_nat_alt)
  have p: "0x5F + word_of_nat n \<noteq> b" if "n \<in> {2..<33}" for n using n [of "0x5F" n] b that by auto
  have d: "0x7F + word_of_nat n \<noteq> b" if "n \<in> {1..<17}" for n using n [of "0x7F" n] b that by auto
  have s: "0x8F + word_of_nat n \<noteq> b" if "n \<in> {1..<17}" for n using n [of "0x8F" n] b that by auto
  show "map_of frontier_push b = None" using p b unfolding map_of_eq_None_iff frontier_push_def by auto
  show "map_of frontier_dup b = None" using d unfolding map_of_eq_None_iff frontier_dup_def set_map image_image fst_conv set_upt by blast
  show "map_of frontier_swap b = None" using s unfolding map_of_eq_None_iff frontier_swap_def set_map image_image fst_conv set_upt by blast
qed

lemma frontier_lookup:
  "newFrontierInstructionSet b = (case map_of (frontier_arithmetic @ frontier_environment @ frontier_block @ frontier_storage) b of
    Some p \<Rightarrow> Some p | None \<Rightarrow> case map_of (frontier_push @ frontier_dup @ frontier_swap) b of Some p \<Rightarrow> Some p | None \<Rightarrow> map_of (frontier_log @ frontier_system) b)"
  by (auto simp: newFrontierInstructionSet_def map_add_def split: option.splits)

lemma frontier_entries:
  "newFrontierInstructionSet OP_EXP = Some ((op_static opExp 0 2 1)\<lparr>op_dynamicSmoke := Some smokeExpFrontier\<rparr>)"
  "newFrontierInstructionSet OP_SSTORE = Some ((op_static opSstore 0 2 0)\<lparr>op_dynamicSmoke := Some smokeSStore, op_writes := True\<rparr>)"
  by (simp_all add: frontier_lookup map_add_def frontier_arithmetic_def frontier_environment_def frontier_block_def frontier_storage_def)

lemma system_entries:
  "newFrontierInstructionSet OP_CALL = Some ((op_static opCall CallSmokeFrontier 7 1)\<lparr>op_dynamicSmoke := Some smokeCall, op_memorySize := Some memoryCall, op_returns := True\<rparr>)"
  "newFrontierInstructionSet OP_CALLCODE = Some ((op_static opCallCode CallSmokeFrontier 7 1)\<lparr>op_dynamicSmoke := Some smokeCallCode, op_memorySize := Some memoryCall, op_returns := True\<rparr>)"
  "newFrontierInstructionSet OP_SELFDESTRUCT = Some ((op_static opSuicide 0 1 0)\<lparr>op_dynamicSmoke := Some smokeSelfdestruct, op_halts := True, op_writes := True\<rparr>)"
  by (simp_all add: frontier_lookup map_add_def unused_push frontier_arithmetic_def frontier_environment_def frontier_block_def frontier_storage_def
    frontier_log_def frontier_system_def)

lemma environment_entries:
  "newFrontierInstructionSet OP_SLOAD = Some (op_static opSload SloadSmokeFrontier 1 1)"
  "newFrontierInstructionSet OP_EXTCODECOPY = Some ((op_static opExtCodeCopy ExtcodeCopyBaseFrontier 4 0)\<lparr>op_dynamicSmoke := Some smokeExtCodeCopy, op_memorySize := Some memoryExtCodeCopy\<rparr>)"
  "newFrontierInstructionSet OP_EXTCODESIZE = Some (op_static opExtCodeSize ExtcodeSizeSmokeFrontier 1 1)"
  "newFrontierInstructionSet OP_BALANCE = Some (op_static opBalance BalanceSmokeFrontier 1 1)"
  by (simp_all add: frontier_lookup map_add_def frontier_arithmetic_def frontier_environment_def frontier_block_def frontier_storage_def)

text \<open>The entries that the access lists change, without their constant prices.\<close>

lemmas later_defs = enable2315_def newIstanbulInstructionSet_def enable2200_def enable1884_def enable1344_def
  newConstantinopleInstructionSet_def newByzantiumInstructionSet_def newSpuriousDragonInstructionSet_def newTangerineWhistleInstructionSet_def
  newHomesteadInstructionSet_def set_dynamic_def set_constant_def jt_update_def frontier_entries system_entries environment_entries op_static_def

lemma istanbul_entries:
  "enable2315 newIstanbulInstructionSet OP_SSTORE = Some ((op_static opSstore 0 2 0)\<lparr>op_dynamicSmoke := Some smokeSStoreEIP2200, op_writes := True\<rparr>)"
  "enable2315 newIstanbulInstructionSet OP_SLOAD = Some (op_static opSload SloadSmokeEIP2200 1 1)"
  "enable2315 newIstanbulInstructionSet OP_EXTCODECOPY = Some ((op_static opExtCodeCopy ExtcodeCopyBaseEIP150 4 0)\<lparr>op_dynamicSmoke := Some smokeExtCodeCopy, op_memorySize := Some memoryExtCodeCopy\<rparr>)"
  "enable2315 newIstanbulInstructionSet OP_EXTCODESIZE = Some (op_static opExtCodeSize ExtcodeSizeSmokeEIP150 1 1)"
  "enable2315 newIstanbulInstructionSet OP_EXTCODEHASH = Some (op_static opExtCodeHash ExtcodeHashSmokeEIP1884 1 1)"
  "enable2315 newIstanbulInstructionSet OP_BALANCE = Some (op_static opBalance BalanceSmokeEIP1884 1 1)"
  "enable2315 newIstanbulInstructionSet OP_CALL = Some ((op_static opCall CallSmokeEIP150 7 1)\<lparr>op_dynamicSmoke := Some smokeCall, op_memorySize := Some memoryCall, op_returns := True\<rparr>)"
  "enable2315 newIstanbulInstructionSet OP_CALLCODE = Some ((op_static opCallCode CallSmokeEIP150 7 1)\<lparr>op_dynamicSmoke := Some smokeCallCode, op_memorySize := Some memoryCall, op_returns := True\<rparr>)"
  "enable2315 newIstanbulInstructionSet OP_STATICCALL = Some ((op_static opStaticCall CallSmokeEIP150 6 1)\<lparr>op_dynamicSmoke := Some smokeStaticCall, op_memorySize := Some memoryStaticCall, op_returns := True\<rparr>)"
  "enable2315 newIstanbulInstructionSet OP_DELEGATECALL = Some ((op_static opDelegateCall CallSmokeEIP150 6 1)\<lparr>op_dynamicSmoke := Some smokeDelegateCall, op_memorySize := Some memoryDelegateCall, op_returns := True\<rparr>)"
  "enable2315 newIstanbulInstructionSet OP_SELFDESTRUCT = Some ((op_static opSuicide 0 1 0)\<lparr>op_dynamicSmoke := Some smokeSelfdestruct, op_halts := True, op_writes := True\<rparr>)"
  by (simp_all add: later_defs)

subsection \<open>Entries\<close>

context state_store begin

lemma plain_entry:
  assumes "plain p q mf f" "q \<le> 1024 + p" "b \<noteq> OP_CALL" "mem_total p mf"
    "case dyn of None \<Rightarrow> mf = None \<and> (c \<noteq> 0 \<or> h \<or> rv) | Some g \<Rightarrow> \<exists>lb. priced p (mf \<noteq> None) lb g \<and> (lb \<noteq> 0 \<or> c \<noteq> 0 \<or> h \<or> rv)"
  shows "good_op K db good A y b \<lparr>op_execute = f, op_constantSmoke = c, op_dynamicSmoke = dyn, op_minStack = p, op_maxStack = 1024 + p - q,
    op_memorySize = mf, op_halts = h, op_jumps = j, op_writes = w, op_reverts = rv, op_returns = rt\<rparr>"
proof -
  have "1024 + p - q + q = 1024 + p" using assms(2) by simp
  then show ?thesis using assms(1,3-5) unfolding good_op_def plain_op_def operation.select_convs by blast
qed

lemma op_static_eq:
  "op_static f c p q = \<lparr>op_execute = f, op_constantSmoke = c, op_dynamicSmoke = None, op_minStack = p, op_maxStack = 1024 + p - q,
     op_memorySize = None, op_halts = False, op_jumps = False, op_writes = False, op_reverts = False, op_returns = False\<rparr>"
  by (simp add: op_static_def)

text \<open>Entries with a fixed price, with a price that reads the state, and with memory.\<close>

lemma static_entry:
  assumes "plain p q None f" "q \<le> 1024 + p" "b \<noteq> OP_CALL" "c \<noteq> 0"
  shows "good_op K db good A y b (op_static f c p q)" "good_op K db good A y b ((op_static f c p q)\<lparr>op_jumps := True\<rparr>)"
  unfolding op_static_eq operation.update_convs using assms(4) by (intro plain_entry [OF assms(1-3)]; simp)+

lemma dynamic_entry:
  assumes "plain p q None f" "q \<le> 1024 + p" "b \<noteq> OP_CALL" "priced p False lb g" "lb \<noteq> 0 \<or> c \<noteq> 0"
  shows "good_op K db good A y b ((op_static f c p q)\<lparr>op_dynamicSmoke := Some g\<rparr>)"
  unfolding op_static_eq operation.update_convs using assms(4,5) by (intro plain_entry [OF assms(1-3)]) auto

lemma memory_entry:
  assumes "plain p q (Some m) f" "q \<le> 1024 + p" "b \<noteq> OP_CALL" "mem_total p (Some m)" "priced p True lb g" "lb \<noteq> 0 \<or> c \<noteq> 0"
  shows "good_op K db good A y b ((op_static f c p q)\<lparr>op_dynamicSmoke := Some g, op_memorySize := Some m\<rparr>)"
    "good_op K db good A y b ((op_static f c p q)\<lparr>op_dynamicSmoke := Some g, op_memorySize := Some m, op_writes := True\<rparr>)"
  unfolding op_static_eq operation.update_convs using assms(5,6) by (intro plain_entry [OF assms(1-4)]; auto)+

lemma end_entry:
  assumes "plain p q (Some m) f" "q \<le> 1024 + p" "b \<noteq> OP_CALL" "mem_total p (Some m)" "priced p True 0 g"
  shows "good_op K db good A y b ((op_static f c p q)\<lparr>op_dynamicSmoke := Some g, op_memorySize := Some m, op_halts := True\<rparr>)"
    "good_op K db good A y b ((op_static f c p q)\<lparr>op_dynamicSmoke := Some g, op_memorySize := Some m, op_reverts := True, op_returns := True\<rparr>)"
  unfolding op_static_eq operation.update_convs using assms(5) by (intro plain_entry [OF assms(1-4)]; auto)+

lemma stop_entry: "good_op K db good A y OP_STOP ((op_static opStop 0 0 0)\<lparr>op_halts := True\<rparr>)"
  unfolding op_static_eq operation.update_convs by (intro plain_entry stack_plain) simp_all

lemma store_entry:
  assumes "store_dyn K db good A y g"
  shows "good_op K db good A y OP_SSTORE ((op_static opSstore c 2 0)\<lparr>op_dynamicSmoke := Some g, op_writes := True\<rparr>)"
  unfolding op_static_eq operation.update_convs good_op_def store_op_def using assms by simp

lemma suicide_entry:
  assumes "suicide_dyn K db good A g"
  shows "good_op K db good A y OP_SELFDESTRUCT ((op_static opSuicide c 1 0)\<lparr>op_dynamicSmoke := Some g, op_halts := True, op_writes := True\<rparr>)"
  unfolding op_static_eq operation.update_convs good_op_def suicide_op_def using assms opSuicide_plain by simp

lemma call_entry:
  assumes "call_exec K db good A p 1 (Some m) ext pre f" "call_dyn K db good A p ext pre y g" "mem_total p (Some m)" "3 \<le> p" "c \<noteq> 0"
    and "\<And>U ctx ctx'. f_stack ctx' = f_stack ctx \<Longrightarrow> f_callSmokeTemp ctx' = f_callSmokeTemp ctx \<Longrightarrow> ext U ctx' = ext U ctx"
    and "\<And>i ctx ctx' s. f_stack ctx' = f_stack ctx \<Longrightarrow> pre i ctx' s = pre i ctx s"
  shows "good_op K db good A y b ((op_static f c p 1)\<lparr>op_dynamicSmoke := Some g, op_memorySize := Some m, op_returns := True\<rparr>)"
    "good_op K db good A y b ((op_static f c p 1)\<lparr>op_dynamicSmoke := Some g, op_memorySize := Some m, op_writes := True, op_returns := True\<rparr>)"
proof -
  have "1024 + p - 1 + 1 = 1024 + p" by simp
  then show "good_op K db good A y b ((op_static f c p 1)\<lparr>op_dynamicSmoke := Some g, op_memorySize := Some m, op_returns := True\<rparr>)"
    "good_op K db good A y b ((op_static f c p 1)\<lparr>op_dynamicSmoke := Some g, op_memorySize := Some m, op_writes := True, op_returns := True\<rparr>)"
    unfolding op_static_eq operation.update_convs good_op_def call_op_def operation.select_convs using assms by blast+
qed

lemma ext_simps:
  "f_stack ctx' = f_stack ctx \<Longrightarrow> f_callSmokeTemp ctx' = f_callSmokeTemp ctx \<Longrightarrow> call_ext U ctx' = call_ext U ctx"
  "f_stack ctx' = f_stack ctx \<Longrightarrow> f_callSmokeTemp ctx' = f_callSmokeTemp ctx \<Longrightarrow> temp_ext U ctx' = temp_ext U ctx"
  "f_stack ctx' = f_stack ctx \<Longrightarrow> callee_listed i ctx' s = callee_listed i ctx s"
  by (simp_all add: call_ext_def temp_ext_def callee_listed_def)

lemma create_entries:
  assumes "c \<noteq> 0"
  shows "good_op K db good A y OP_CREATE ((op_static opCreate c 3 1)\<lparr>op_dynamicSmoke := Some smokeCreate, op_memorySize := Some memoryCreate, op_writes := True, op_returns := True\<rparr>)"
    "good_op K db good A y OP_CREATE2 ((op_static opCreate2 c 4 1)\<lparr>op_dynamicSmoke := Some smokeCreate2, op_memorySize := Some memoryCreate2, op_writes := True, op_returns := True\<rparr>)"
proof -
  show "good_op K db good A y OP_CREATE ((op_static opCreate c 3 1)\<lparr>op_dynamicSmoke := Some smokeCreate, op_memorySize := Some memoryCreate, op_writes := True, op_returns := True\<rparr>)"
    by (rule call_entry(2) [OF opCreate_calls create_dyn [OF pure_priced]]) (use assms in simp_all)
  have "priced 4 True 0 smokeCreate2" by (rule copier_priced(3)) simp
  then show "good_op K db good A y OP_CREATE2 ((op_static opCreate2 c 4 1)\<lparr>op_dynamicSmoke := Some smokeCreate2, op_memorySize := Some memoryCreate2, op_writes := True, op_returns := True\<rparr>)"
    by (intro call_entry(2) [OF opCreate2_calls create_dyn]) (use assms in simp_all)
qed

lemma call_entries:
  assumes "c \<noteq> 0"
  shows "good_op K db good A False b ((op_static opCall c 7 1)\<lparr>op_dynamicSmoke := Some smokeCall, op_memorySize := Some memoryCall, op_returns := True\<rparr>)"
    "good_op K db good A False b ((op_static opCallCode c 7 1)\<lparr>op_dynamicSmoke := Some smokeCallCode, op_memorySize := Some memoryCall, op_returns := True\<rparr>)"
    "good_op K db good A False b ((op_static opDelegateCall c 6 1)\<lparr>op_dynamicSmoke := Some smokeDelegateCall, op_memorySize := Some memoryDelegateCall, op_returns := True\<rparr>)"
    "good_op K db good A False b ((op_static opStaticCall c 6 1)\<lparr>op_dynamicSmoke := Some smokeStaticCall, op_memorySize := Some memoryStaticCall, op_returns := True\<rparr>)"
    "good_op K db good A True b ((op_static opCall c 7 1)\<lparr>op_dynamicSmoke := Some smokeCallEIP2929, op_memorySize := Some memoryCall, op_returns := True\<rparr>)"
    "good_op K db good A True b ((op_static opCallCode c 7 1)\<lparr>op_dynamicSmoke := Some smokeCallCodeEIP2929, op_memorySize := Some memoryCall, op_returns := True\<rparr>)"
    "good_op K db good A True b ((op_static opDelegateCall c 6 1)\<lparr>op_dynamicSmoke := Some smokeDelegateCallEIP2929, op_memorySize := Some memoryDelegateCall, op_returns := True\<rparr>)"
    "good_op K db good A True b ((op_static opStaticCall c 6 1)\<lparr>op_dynamicSmoke := Some smokeStaticCallEIP2929, op_memorySize := Some memoryStaticCall, op_returns := True\<rparr>)"
proof -
  note e = call_entry(1) [OF opCall_calls _ _ _ assms ext_simps(1,3)] call_entry(1) [OF opCallCode_calls _ _ _ assms ext_simps(1,3)]
    call_entry(1) [OF opDelegateCall_calls _ _ _ assms ext_simps(2,3)] call_entry(1) [OF opStaticCall_calls _ _ _ assms ext_simps(2,3)]
  note d = call_price_dyn [OF smokeCall_price] call_price_dyn [OF smokeCallCode_price] call_price_dyn [OF smokeDelegateCall_price(1)] call_price_dyn [OF smokeDelegateCall_price(2)]
  note v = variant_dyn [OF smokeCall_price] variant_dyn [OF smokeCallCode_price] variant_dyn [OF smokeDelegateCall_price(1)] variant_dyn [OF smokeDelegateCall_price(2)]
  show "good_op K db good A False b ((op_static opCall c 7 1)\<lparr>op_dynamicSmoke := Some smokeCall, op_memorySize := Some memoryCall, op_returns := True\<rparr>)"
    by (rule e(1) [OF d(1)]) simp_all
  show "good_op K db good A False b ((op_static opCallCode c 7 1)\<lparr>op_dynamicSmoke := Some smokeCallCode, op_memorySize := Some memoryCall, op_returns := True\<rparr>)"
    by (rule e(2) [OF d(2)]) simp_all
  show "good_op K db good A False b ((op_static opDelegateCall c 6 1)\<lparr>op_dynamicSmoke := Some smokeDelegateCall, op_memorySize := Some memoryDelegateCall, op_returns := True\<rparr>)"
    by (rule e(3) [OF d(3)]) simp_all
  show "good_op K db good A False b ((op_static opStaticCall c 6 1)\<lparr>op_dynamicSmoke := Some smokeStaticCall, op_memorySize := Some memoryStaticCall, op_returns := True\<rparr>)"
    by (rule e(4) [OF d(4)]) simp_all
  show "good_op K db good A True b ((op_static opCall c 7 1)\<lparr>op_dynamicSmoke := Some smokeCallEIP2929, op_memorySize := Some memoryCall, op_returns := True\<rparr>)"
    by (rule e(1) [OF v(1)]) simp_all
  show "good_op K db good A True b ((op_static opCallCode c 7 1)\<lparr>op_dynamicSmoke := Some smokeCallCodeEIP2929, op_memorySize := Some memoryCall, op_returns := True\<rparr>)"
    by (rule e(2) [OF v(2)]) simp_all
  show "good_op K db good A True b ((op_static opDelegateCall c 6 1)\<lparr>op_dynamicSmoke := Some smokeDelegateCallEIP2929, op_memorySize := Some memoryDelegateCall, op_returns := True\<rparr>)"
    by (rule e(3) [OF v(3)]) simp_all
  show "good_op K db good A True b ((op_static opStaticCall c 6 1)\<lparr>op_dynamicSmoke := Some smokeStaticCallEIP2929, op_memorySize := Some memoryStaticCall, op_returns := True\<rparr>)"
    by (rule e(4) [OF v(4)]) simp_all
qed

subsection \<open>Tables\<close>

text \<open>A table whose entries are good, but for some opcodes that a later fork changes.\<close>

definition table_but :: "byte set \<Rightarrow> bool \<Rightarrow> 'tr JumpTable \<Rightarrow> bool" where
  "table_but X y jt \<longleftrightarrow> (\<forall>b p. b \<notin> X \<longrightarrow> jt b = Some p \<longrightarrow> good_op K db good A y b p)"

lemma table_but_empty: "table_but {} y jt = table_ok y jt"
  by (simp add: table_but_def table_ok_def)

lemma table_but_list: "(\<And>b p. (b, p) \<in> set xs \<Longrightarrow> b \<notin> X \<Longrightarrow> good_op K db good A y b p) \<Longrightarrow> table_but X y (map_of xs)"
  by (auto simp: table_but_def dest: map_of_SomeD)

lemma table_but_upd: "table_but (insert b X) y jt \<Longrightarrow> good_op K db good A y b p \<Longrightarrow> table_but X y (jt(b \<mapsto> p))"
  by (auto simp: table_but_def split: if_splits)

lemma table_but_mono: "table_but X y jt \<Longrightarrow> X \<subseteq> Y \<Longrightarrow> table_but Y y jt"
  by (auto simp: table_but_def)

lemma good_constant:
  assumes "good_op K db good A y b p" "c \<noteq> 0"
  shows "good_op K db good A y b (p\<lparr>op_constantSmoke := c\<rparr>)"
proof -
  let ?p = "p\<lparr>op_constantSmoke := c\<rparr>"
  have "plain_op K db good A p \<Longrightarrow> plain_op K db good A ?p"
    using assms(2) unfolding plain_op_def by (cases "op_dynamicSmoke p") auto
  moreover have "call_op K db good A y p \<Longrightarrow> call_op K db good A y ?p" using assms(2) by (simp add: call_op_def)
  moreover have "store_op K db good A y ?p = store_op K db good A y p" "suicide_op K db good A ?p = suicide_op K db good A p"
    by (simp_all add: store_op_def suicide_op_def)
  moreover have "op_minStack ?p = op_minStack p" by simp
  ultimately show ?thesis using assms(1) unfolding good_op_def by (elim conjE disjE) simp_all
qed

lemma table_but_constant: "table_but X y jt \<Longrightarrow> c \<noteq> 0 \<Longrightarrow> table_but X y (set_constant c b jt)"
  using good_constant by (auto simp: table_but_def set_constant_def jt_update_def split: if_splits)

lemma table_but_dynamic:
  assumes "table_but (insert b X) y jt" "b \<notin> X \<Longrightarrow> \<exists>p. jt b = Some p \<and> good_op K db good A y b (p\<lparr>op_dynamicSmoke := Some f\<rparr>)"
  shows "table_but X y (set_dynamic f b jt)"
  using assms by (auto simp: table_but_def set_dynamic_def jt_update_def split: if_splits)

lemma table_but_prices:
  assumes "table_but (insert b X) y jt" "b \<notin> X \<Longrightarrow> \<exists>p. jt b = Some p \<and> good_op K db good A y b (p\<lparr>op_constantSmoke := c, op_dynamicSmoke := Some f\<rparr>)"
  shows "table_but X y (set_prices c f b jt)"
  using assms by (auto simp: table_but_def set_prices_def set_constant_def set_dynamic_def jt_update_def split: if_splits)

lemmas plain_rules = arithmetic_plain environment_plain stack_plain opPush_plain opBlockhash_plain opReturnSub_plain dup_swap_plain jump_plain
  opBalance_plain opSelfBalance_plain opExtCodeSize_plain opExtCodeHash_plain opSload_plain opSha3_plain opCallDataLoad_plain copy_plain
  opExtCodeCopy_plain opReturnDataCopy_plain opMload_plain opMstore_plain makeLog_plain memory_result_plain

lemma arithmetic_good: "list_all (\<lambda>(b, p). good_op K db good A y b p) frontier_arithmetic"
  unfolding frontier_arithmetic_def list.pred_inject prod.case smokeExpFrontier_def
  by (intro conjI TrueI stop_entry static_entry plain_rules dynamic_entry [where lb = 10] exp_priced) simp_all

lemma environment_good: "list_all (\<lambda>(b, p). good_op K db good A y b p) frontier_environment"
  unfolding frontier_environment_def list.pred_inject prod.case
  by (intro conjI TrueI static_entry memory_entry [where lb = 0] plain_rules copier_priced) simp_all

lemma block_good: "list_all (\<lambda>(b, p). good_op K db good A y b p) frontier_block"
  unfolding frontier_block_def list.pred_inject prod.case by (intro conjI TrueI static_entry plain_rules) simp_all

lemma storage_good: "list_all (\<lambda>(b, p). good_op K db good A y b p) frontier_storage"
  unfolding frontier_storage_def list.pred_inject prod.case
  by (intro conjI TrueI static_entry memory_entry [where lb = 0] store_entry sstore_dyn plain_rules pure_priced) simp_all

lemma log_good: "list_all (\<lambda>(b, p). good_op K db good A y b p) frontier_log"
proof -
  have l: "p = n + 2 \<Longrightarrow> plain p 0 (Some memoryLog) (makeLog n)" for p n using makeLog_plain by simp
  show ?thesis unfolding frontier_log_def list.pred_inject prod.case
    by (intro conjI TrueI memory_entry(2) [where lb = 375] l log_priced) simp_all
qed

lemma range_good:
  "list_all (\<lambda>(b, p). good_op K db good A y b p) frontier_push" "list_all (\<lambda>(b, p). good_op K db good A y b p) frontier_dup"
  "list_all (\<lambda>(b, p). good_op K db good A y b p) frontier_swap"
proof -
  have "OP_CALL \<notin> fst ` set frontier_push" "OP_CALL \<notin> fst ` set frontier_dup" "OP_CALL \<notin> fst ` set frontier_swap"
    using unused_push [of OP_CALL] unfolding map_of_eq_None_iff by simp_all
  then have nc: "b \<noteq> OP_CALL" if "(b, p) \<in> set frontier_push \<union> set frontier_dup \<union> set frontier_swap" for b and p :: "'tr operation" using that by force
  show "list_all (\<lambda>(b, p). good_op K db good A y b p) frontier_push"
    using nc by (auto simp: list_all_iff frontier_push_def simp del: upt_rec_numeral intro!: static_entry opPush_plain [unfolded One_nat_def])
  have "good_op K db good A y b p" if m: "(b, p) \<in> set frontier_dup" for b and p :: "'tr operation"
  proof -
    obtain n where "p = op_static (makeDup n) SmokeFastestStep n (n + 1)" "1 \<le> n" "n < 17" using m by (auto simp: frontier_dup_def)
    then show ?thesis using nc m by (auto intro!: static_entry(1) dup_swap_plain(1) [unfolded Suc_eq_plus1 [symmetric]])
  qed
  then show "list_all (\<lambda>(b, p). good_op K db good A y b p) frontier_dup" by (auto simp: list_all_iff)
  have "good_op K db good A y b p" if m: "(b, p) \<in> set frontier_swap" for b and p :: "'tr operation"
  proof -
    obtain n where "p = op_static (makeSwap n) SmokeFastestStep (n + 1) (n + 1)" using m by (auto simp: frontier_swap_def)
    then show ?thesis using nc m by (auto intro!: static_entry(1) dup_swap_plain(2) [unfolded Suc_eq_plus1 [symmetric]])
  qed
  then show "list_all (\<lambda>(b, p). good_op K db good A y b p) frontier_swap" by (auto simp: list_all_iff)
qed

abbreviation call_codes :: "byte set" where
  "call_codes \<equiv> {OP_CALL, OP_CALLCODE, OP_DELEGATECALL, OP_STATICCALL}"

lemma old_calls:
  assumes "\<not> y" "c \<noteq> 0"
  shows "good_op K db good A y b ((op_static opCall c 7 1)\<lparr>op_dynamicSmoke := Some smokeCall, op_memorySize := Some memoryCall, op_returns := True\<rparr>)"
    "good_op K db good A y b ((op_static opCallCode c 7 1)\<lparr>op_dynamicSmoke := Some smokeCallCode, op_memorySize := Some memoryCall, op_returns := True\<rparr>)"
    "good_op K db good A y b ((op_static opDelegateCall c 6 1)\<lparr>op_dynamicSmoke := Some smokeDelegateCall, op_memorySize := Some memoryDelegateCall, op_returns := True\<rparr>)"
    "good_op K db good A y b ((op_static opStaticCall c 6 1)\<lparr>op_dynamicSmoke := Some smokeStaticCall, op_memorySize := Some memoryStaticCall, op_returns := True\<rparr>)"
  using call_entries(1-4) [OF assms(2)] assms(1) by simp_all

lemma frontier_but: "(y \<Longrightarrow> call_codes \<subseteq> X) \<Longrightarrow> table_but X y newFrontierInstructionSet"
proof -
  assume X: "y \<Longrightarrow> call_codes \<subseteq> X"
  have sys: "list_all (\<lambda>(b, p). b \<notin> X \<longrightarrow> good_op K db good A y b p) frontier_system"
    unfolding frontier_system_def list.pred_inject prod.case
    by (intro conjI TrueI impI create_entries old_calls end_entry suicide_entry selfdestruct_dyn memory_result_plain pure_priced)
      (use X in auto)
  show ?thesis unfolding newFrontierInstructionSet_def
    by (rule table_but_list)
      (use arithmetic_good environment_good block_good storage_good range_good log_good sys in \<open>fastforce simp: list_all_iff\<close>)
qed

subsection \<open>Forks\<close>

lemma table_but_call:
  assumes "y \<Longrightarrow> call_codes \<subseteq> X" "b \<in> call_codes" "\<not> y \<Longrightarrow> good_op K db good A y b p" "table_but (insert b X) y jt"
  shows "table_but X y (jt(b \<mapsto> p))"
  using assms by (cases y) (auto simp: table_but_def split: if_splits)

lemma tangerine_but: "(y \<Longrightarrow> call_codes \<subseteq> X) \<Longrightarrow> table_but X y newHomesteadInstructionSet" "(y \<Longrightarrow> call_codes \<subseteq> X) \<Longrightarrow> table_but X y newTangerineWhistleInstructionSet"
proof -
  show h: "table_but X y newHomesteadInstructionSet" if X: "y \<Longrightarrow> call_codes \<subseteq> X"
    unfolding newHomesteadInstructionSet_def by (intro table_but_call [OF X] frontier_but old_calls) (use X in auto)
  show "table_but X y newTangerineWhistleInstructionSet" if "y \<Longrightarrow> call_codes \<subseteq> X"
    unfolding newTangerineWhistleInstructionSet_def using that by (intro table_but_constant h) simp_all
qed

lemma exp_entry: "newTangerineWhistleInstructionSet OP_EXP = Some ((op_static opExp 0 2 1)\<lparr>op_dynamicSmoke := Some smokeExpFrontier\<rparr>)"
  by (simp add: later_defs)

lemma dragon_but: "(y \<Longrightarrow> call_codes \<subseteq> X) \<Longrightarrow> table_but X y newSpuriousDragonInstructionSet"
proof -
  assume X: "y \<Longrightarrow> call_codes \<subseteq> X"
  have "good_op K db good A y OP_EXP ((op_static opExp 0 2 1)\<lparr>op_dynamicSmoke := Some smokeExpEIP158\<rparr>)"
    unfolding smokeExpEIP158_def by (intro dynamic_entry [where lb = 10] plain_rules exp_priced) simp_all
  then show ?thesis unfolding newSpuriousDragonInstructionSet_def using X
    by (intro table_but_dynamic tangerine_but) (auto simp: exp_entry)
qed

lemma byzantium_but: "(y \<Longrightarrow> call_codes \<subseteq> X) \<Longrightarrow> table_but X y newByzantiumInstructionSet"
proof -
  assume X: "y \<Longrightarrow> call_codes \<subseteq> X"
  have s: "table_but X y (newSpuriousDragonInstructionSet(OP_STATICCALL \<mapsto> (op_static opStaticCall CallSmokeEIP150 6 1)
      \<lparr>op_dynamicSmoke := Some smokeStaticCall, op_memorySize := Some memoryStaticCall, op_returns := True\<rparr>))" if "y \<Longrightarrow> call_codes \<subseteq> X" for X
    by (intro table_but_call [OF that] dragon_but old_calls) (use that in auto)
  show ?thesis unfolding newByzantiumInstructionSet_def
    by (intro table_but_upd s static_entry memory_entry [where lb = 0] end_entry plain_rules copier_priced pure_priced) (use X in auto)
qed

lemma constantinople_but: "(y \<Longrightarrow> call_codes \<subseteq> X) \<Longrightarrow> table_but X y newConstantinopleInstructionSet"
  unfolding newConstantinopleInstructionSet_def by (intro table_but_upd static_entry create_entries plain_rules byzantium_but) auto

lemma sstore_entry: "set_constant c OP_SLOAD (enable1884 (enable1344 newConstantinopleInstructionSet)) OP_SSTORE =
    Some ((op_static opSstore 0 2 0)\<lparr>op_dynamicSmoke := Some smokeSStore, op_writes := True\<rparr>)"
  by (simp add: later_defs)

lemma istanbul_but: "(y \<Longrightarrow> call_codes \<subseteq> X) \<Longrightarrow> table_but X y newIstanbulInstructionSet"
proof -
  assume X: "y \<Longrightarrow> call_codes \<subseteq> X"
  have e: "\<exists>p. set_constant SloadSmokeEIP2200 OP_SLOAD (enable1884 (enable1344 newConstantinopleInstructionSet)) OP_SSTORE = Some p \<and>
      good_op K db good A y OP_SSTORE (p\<lparr>op_dynamicSmoke := Some smokeSStoreEIP2200\<rparr>)"
    using store_entry [OF eip2200_dyn, of y 0] by (simp add: sstore_entry op_static_eq)
  have "table_but X y (enable1884 (enable1344 newConstantinopleInstructionSet))" if "y \<Longrightarrow> call_codes \<subseteq> X" for X
    unfolding enable1884_def enable1344_def
    by (intro table_but_upd table_but_constant static_entry plain_rules constantinople_but) (use that in auto)
  then show ?thesis unfolding newIstanbulInstructionSet_def enable2200_def
    by (intro table_but_dynamic table_but_constant e) (use X in auto)
qed

lemma table_but_slots: "(y \<Longrightarrow> call_codes \<subseteq> X) \<Longrightarrow> table_but X y (enable2315 newIstanbulInstructionSet)"
  unfolding enable2315_def by (intro table_but_upd static_entry plain_rules istanbul_but) auto

lemma listed_entries:
  "good_op K db good A True OP_SSTORE ((op_static opSstore c 2 0)\<lparr>op_dynamicSmoke := Some smokeSStoreEIP2929, op_writes := True\<rparr>)"
  "good_op K db good A True OP_SLOAD ((op_static opSload c 1 1)\<lparr>op_dynamicSmoke := Some smokeSLoadEIP2929\<rparr>)"
  "good_op K db good A True OP_SELFDESTRUCT ((op_static opSuicide c 1 0)\<lparr>op_dynamicSmoke := Some smokeSelfdestructEIP2929, op_halts := True, op_writes := True\<rparr>)"
  "c \<noteq> 0 \<Longrightarrow> good_op K db good A True OP_EXTCODECOPY ((op_static opExtCodeCopy c 4 0)\<lparr>op_dynamicSmoke := Some smokeExtCodeCopyEIP2929, op_memorySize := Some memoryExtCodeCopy\<rparr>)"
  "c \<noteq> 0 \<Longrightarrow> good_op K db good A True OP_EXTCODESIZE ((op_static opExtCodeSize c 1 1)\<lparr>op_dynamicSmoke := Some smokeEip2929AccountCheck\<rparr>)"
  "c \<noteq> 0 \<Longrightarrow> good_op K db good A True OP_EXTCODEHASH ((op_static opExtCodeHash c 1 1)\<lparr>op_dynamicSmoke := Some smokeEip2929AccountCheck\<rparr>)"
  "c \<noteq> 0 \<Longrightarrow> good_op K db good A True OP_BALANCE ((op_static opBalance c 1 1)\<lparr>op_dynamicSmoke := Some smokeEip2929AccountCheck\<rparr>)"
proof -
  show "good_op K db good A True OP_SSTORE ((op_static opSstore c 2 0)\<lparr>op_dynamicSmoke := Some smokeSStoreEIP2929, op_writes := True\<rparr>)"
    by (rule store_entry [OF eip2929_dyn])
  show "good_op K db good A True OP_SELFDESTRUCT ((op_static opSuicide c 1 0)\<lparr>op_dynamicSmoke := Some smokeSelfdestructEIP2929, op_halts := True, op_writes := True\<rparr>)"
    by (rule suicide_entry [OF selfdestruct2929_dyn])
  show "good_op K db good A True OP_SLOAD ((op_static opSload c 1 1)\<lparr>op_dynamicSmoke := Some smokeSLoadEIP2929\<rparr>)"
    by (rule dynamic_entry [OF opSload_plain _ _ sload_priced]) simp_all
  assume c: "c \<noteq> 0"
  show "good_op K db good A True OP_EXTCODECOPY ((op_static opExtCodeCopy c 4 0)\<lparr>op_dynamicSmoke := Some smokeExtCodeCopyEIP2929, op_memorySize := Some memoryExtCodeCopy\<rparr>)"
    by (rule memory_entry(1) [OF opExtCodeCopy_plain _ _ _ extcodecopy_priced]) (use c in simp_all)
  show "good_op K db good A True OP_EXTCODESIZE ((op_static opExtCodeSize c 1 1)\<lparr>op_dynamicSmoke := Some smokeEip2929AccountCheck\<rparr>)"
    by (rule dynamic_entry [OF opExtCodeSize_plain _ _ account_priced]) (use c in simp_all)
  show "good_op K db good A True OP_EXTCODEHASH ((op_static opExtCodeHash c 1 1)\<lparr>op_dynamicSmoke := Some smokeEip2929AccountCheck\<rparr>)"
    by (rule dynamic_entry [OF opExtCodeHash_plain _ _ account_priced]) (use c in simp_all)
  show "good_op K db good A True OP_BALANCE ((op_static opBalance c 1 1)\<lparr>op_dynamicSmoke := Some smokeEip2929AccountCheck\<rparr>)"
    by (rule dynamic_entry [OF opBalance_plain _ _ account_priced]) (use c in simp_all)
qed

lemma set_prices_other: "b \<noteq> b' \<Longrightarrow> set_prices c f b jt b' = jt b'" "b \<noteq> b' \<Longrightarrow> set_dynamic f b jt b' = jt b'"
  by (simp_all add: set_prices_def set_dynamic_def set_constant_def jt_update_def)

lemma yolo_but: "table_but {} True newYoloV2InstructionSet"
proof -
  have k: "table_but {b1, b2, b3, b4, b5, b6, b7, b8, b9, b10, b11} True (enable2315 newIstanbulInstructionSet)"
    if "call_codes \<subseteq> {b1, b2, b3, b4, b5, b6, b7, b8, b9, b10, b11}" for b1 b2 b3 b4 b5 b6 b7 b8 b9 b10 b11
    using table_but_slots [of True] that by simp
  note e = listed_entries(1,2) [of 0] listed_entries(3) [of SelfdestructSmokeEIP150]
    listed_entries(4-7) [of WarmStorageReadCostEIP2929] call_entries(5-8) [of WarmStorageReadCostEIP2929]
  show ?thesis unfolding newYoloV2InstructionSet_def enable2929_def
    by (intro table_but_prices table_but_dynamic k)
      (use e in \<open>simp_all add: set_prices_other istanbul_entries op_static_eq\<close>)
qed

lemma interpreter_table_ok: "table_ok (r_IsYoloV2 rules) (interpreter_table rules)"
proof (cases "r_IsYoloV2 rules")
  case True
  then show ?thesis using yolo_but by (simp add: interpreter_table_def table_but_empty)
next
  case False
  then show ?thesis unfolding table_but_empty [symmetric] interpreter_table_def
    using frontier_but tangerine_but dragon_but byzantium_but constantinople_but istanbul_but by simp
qed

theorem evm_interpreter_good:
  assumes "uint256_ok U" "{a. length a = 20} \<subseteq> A" "finite A" "evm_ChainID evm \<noteq> None" "evm_depth evm \<le> CallCreateDepth"
  shows "run_good K db good A (evm_interpreter K db U) evm"
  unfolding evm_interpreter_def by (rule Run_good [OF assms(1-3) interpreter_table_ok refl assms(4,5)]) simp

end

end
