(* ===== verification/Core_Machine.thy ===== *)
theory Core_Machine
  imports Core_Props Evm_Tables
begin

section \<open>Messages on the modelled interpreter\<close>

text \<open>
  The transition of \<open>Core_Transition\<close> with the interpreter of \<open>Evm_Interpreter\<close> in place of an
  assumed one: for every code that is called or created, under the rules of every fork, a message
  ends, does not panic and makes no coins.
\<close>

text \<open>What the code around a message promises: addresses of 20 bytes, an amount of smoke that is not absurd.\<close>

definition message_ok :: "EVM \<Rightarrow> 'tr StateDB \<Rightarrow> Message \<Rightarrow> bool" where
  "message_ok evm s msg \<longleftrightarrow> length (msg_From msg) = 20 \<and> pred_option (\<lambda>a. length a = 20) (msg_To msg) \<and>
    0 \<le> msg_SmokePrice msg \<and> 0 \<le> msg_Value msg \<and> length (msg_Data msg) < 2 ^ 63 \<and> pot s (msg_Smoke msg) + 24000 < 2 ^ 64 \<and>
    (r_IsYoloV2 (evm_chainRules evm) \<longrightarrow> pred_option (\<lambda>a. a \<in> dom (al_addresses (sd_accessList s))) (msg_To msg))"

lemma pot_mono: "n \<le> m \<Longrightarrow> pot s n \<le> pot s m"
  by (simp add: pot_def word_le_nat_alt)

lemma finite_addresses: "finite {a :: bytes. length a = 20}"
  using finite_lists_length_eq [of "UNIV :: byte set" 20] by simp

context state_store begin

lemma call_post_executes:
  assumes "call_post K db A s smoke left s'" "calm K db A (st_state st) s" "st_smoke st = smoke" "sound K db good A (st_state st)"
  shows "executes K db A st (st\<lparr>st_smoke := left, st_state := s'\<rparr>)" "no_mint K db A (st_state st) s'" "sound K db good A s'"
proof -
  have "sound K db good A s" by (rule calm_sound [OF assms(4,2)])
  then show "sound K db good A s'" by (rule call_post_sound [OF _ assms(1)])
  show "executes K db A st (st\<lparr>st_smoke := left, st_state := s'\<rparr>)"
    using assms(1-3) steps_trans by (auto simp: executes_def same_message_def call_post_def calm_def)
  show "no_mint K db A (st_state st) s'" using assms(1,2) no_mint_trans by (auto simp: call_post_def calm_def settled_def)
qed

lemma execute_good:
  assumes run: "evm_depth evm \<le> CallCreateDepth \<Longrightarrow> run_good K db good A run evm" and fin: "finite A" "{a. length a = 20} \<subseteq> A"
    and s: "sound K db good A (st_state st)" and m: "message_ok evm s0 (st_msg st)" "st_value st = msg_Value (st_msg st)" "st_data st = msg_Data (st_msg st)"
    and le: "st_smoke st \<le> msg_Smoke (st_msg st)" and t: "tame (vw s0) (vw (st_state st))"
  shows "\<exists>ret vmerr st'. execute K db run evm st = Some (ret, vmerr, st') \<and> executes K db A st st' \<and>
    steps K db A (st_state st) (st_state st') \<and> no_mint K db A (st_state st) (st_state st') \<and> sound K db good A (st_state st')"
proof -
  let ?a = "msg_From (st_msg st)"
  have a: "?a \<in> A" "ref_Address (AccountRef ?a) \<in> A" "0 \<le> st_value st" "length (st_data st) < 2 ^ 63"
    using m fin(2) by (auto simp: message_ok_def)
  have pt: "pot (st_state st) n = pot s0 n" for n using t by (simp add: tame_def pot_def)
  have p: "pot (st_state st) (st_smoke st) + 24000 < 2 ^ 64"
    using m(1) pot_mono [OF le, of s0] unfolding pt by (simp add: message_ok_def)
  note tx = sound_tx(1) [OF s]
  show ?thesis
  proof (cases "msg_To (st_msg st)")
    case None
    obtain ret addr left err s' where c: "Create K db run evm (AccountRef ?a) (st_data st) (st_smoke st) (st_value st) (st_state st) = Some (ret, addr, left, err, s')"
      "call_post K db A (st_state st) (st_smoke st) left s'"
      using Create_good(1) [OF run s fin a(2-4) p] by blast
    then show ?thesis using call_post_executes [OF c(2) calm_refl refl s] None by (simp add: execute_def executes_def)
  next
    case (Some to)
    obtain nonce s1 where n: "GetNonce K db ?a (st_state st) = (nonce, s1)" by fastforce
    have l1: "looks K db A (st_state st) s1" using looks_reads(2) [OF tx a(1)] n by simp
    define s2 where "s2 = SetNonce K db ?a (nonce + 1) s1"
    have c2: "calm K db A (st_state st) s2"
      using looks_calm [OF tx l1] calm_writes(2) [OF looks_tx [OF tx l1] a(1)] calm_trans unfolding s2_def by blast
    have l: "dom (al_addresses (sd_accessList s0)) \<subseteq> dom (al_addresses (sd_accessList s2))"
      using t c2 unfolding tame_def grows_def calm_def view_sel by blast
    have "to \<in> A" "r_IsYoloV2 (evm_chainRules evm) \<longrightarrow> to \<in> dom (al_addresses (sd_accessList s0))"
      using m(1) fin(2) Some by (auto simp: message_ok_def)
    then have to: "to \<in> A" "r_IsYoloV2 (evm_chainRules evm) \<Longrightarrow> to \<in> dom (al_addresses (sd_accessList s2))" using l by blast+
    have p2: "pot s2 (st_smoke st) + 24000 < 2 ^ 64" using p calm_pot [OF c2] by simp
    obtain ret left err s' where c: "Call K db run evm (AccountRef ?a) to (st_data st) (st_smoke st) (st_value st) s2 = Some (ret, left, err, s')"
      "call_post K db A s2 (st_smoke st) left s'"
      using Call_good [OF run calm_sound [OF s c2] fin(1) a(2) to a(3,4) p2] by blast
    then show ?thesis using call_post_executes [OF c(2) c2 refl s] Some n by (simp add: execute_def st_to_def s2_def executes_def)
  qed
qed

lemma message_good:
  assumes run: "evm_depth evm \<le> CallCreateDepth \<Longrightarrow> run_good K db good A run evm" and fin: "finite A" "{a. length a = 20} \<subseteq> A"
    and s: "sound K db good A s" and m: "message_ok evm s msg" and c: "length coinbase = 20"
  shows "\<exists>r gp' s'. ApplyMessage K db run evm coinbase msg gp s = Some (r, gp', s') \<and> steps K db A s s' \<and> sound K db good A s' \<and> no_mint K db A s s' \<and>
    (case r of Inr result \<Rightarrow> er_UsedSmoke result \<le> msg_Smoke msg \<and> unat gp' + unat (er_UsedSmoke result) = unat gp
     | Inl _ \<Rightarrow> gp' \<in> {gp, gp - msg_Smoke msg})"
proof -
  have A: "msg_From msg \<in> A" "coinbase \<in> A" "0 \<le> msg_SmokePrice msg" using m c fin(2) by (auto simp: message_ok_def)
  have inv: "sound K db good A s2" "steps K db A s1 s2" if "sound K db good A s1" "tx s2" "mild K db A s1 s2" for s1 s2
    using that tame_inv unfolding sound_def mild_def by blast+
  let ?Q = "\<lambda>s1 s2. steps K db A s1 s2 \<and> no_mint K db A s1 s2 \<and> sound K db good A s2"
  show ?thesis
  proof (cases rule: message_outcome [OF sound_tx(1) [OF s] A(1,2), of gp run evm ?Q])
    case (1 st)
    then show ?case using execute_good [OF run fin inv(1) [OF s 1(1,4)], of s] m
      by (auto simp: same_message_def NewStateTransition_def mild_def)
  next
    case (2 err s')
    then show ?thesis using inv [OF s 2(2,4)] same_bal_no_mint by auto
  next
    case (3 err s')
    then show ?thesis using inv [OF s 3(2,7)] charged_no_mint [OF fin(1) A(1,3) 3(5,6)] by auto
  next
    case (4 result gp' s' s1 s2)
    then have q: "steps K db A s1 s2" "no_mint K db A s1 s2" "sound K db good A s2" by auto
    have "steps K db A s s'" using inv(2) [OF s 4(8,10)] q(1) inv(2) [OF q(3) 4(2,11)] steps_trans by blast
    then show ?thesis using 4(1,3,4) inv(1) [OF q(3) 4(2,11)] paid_no_mint [OF fin(1) A(1,2,3) 4(5,3,6) q(2) 4(12)] by auto
  qed
qed

end

subsection \<open>The whole machine\<close>

abbreviation addresses :: "address set" where
  "addresses \<equiv> {a. length a = 20}"


text \<open>An account that holds coins and code which writes to its storage, and a message that calls it.\<close>

lemma ex_all_store: "state_store ex_db trie_good BytesToHash addresses"
  unfolding ex_db_def by (rule secure_db_state) (auto simp: wf_node_db_def inj_on_def BytesToHash_def)

lemma ex_all_sound: "sound BytesToHash ex_db trie_good addresses ex_state"
proof -
  have "sd_ok BytesToHash ex_db trie_good addresses ex_state"
    by (simp add: sd_ok_def newJournal_def trie_good_def ex_trie_def [symmetric]) (simp add: trie_good_def ex_trie_def)
  then have tx: "tx_state BytesToHash ex_db trie_good addresses ex_state" using hist_empty [of ex_state] by (auto simp: tx_state_def)
  have "v_live (view BytesToHash ex_db addresses ex_state) a = None" for a by (simp add: v_live_def lookup_obj_def)
  then show ?thesis using tx by (simp add: sound_def refund_covers_def short_codes_def cleared_def)
qed

definition ex_code_state :: "secure_trie StateDB" where
  "ex_code_state = SetCode BytesToHash ex_db ex_addr (Some [0x60, 1, 0x60, 0, 0x55, 0]) ex_rich_state"

lemma ex_rich_sound: "sound BytesToHash ex_db trie_good addresses ex_rich_state"
proof -
  have a: "ex_addr \<in> addresses" by (simp add: ex_addr_def)
  note tx = state_store.sound_tx(1) [OF ex_all_store ex_all_sound]
  show ?thesis
    using state_store.tame_balance(1) [OF ex_all_store tx a] state_store.steps_tx [OF ex_all_store tx state_store.steps_writes(2) [OF ex_all_store tx a]]
      ex_all_sound tame_inv unfolding ex_rich_state_def sound_def mild_def by blast
qed

lemma ex_code_sound: "sound BytesToHash ex_db trie_good addresses ex_code_state"
proof -
  have a: "ex_addr \<in> addresses" by (simp add: ex_addr_def)
  note 1 = ex_rich_sound
  have "still BytesToHash ex_db addresses ex_rich_state ex_code_state"
    using state_store.SetCode_still [OF ex_all_store state_store.sound_tx(1) [OF ex_all_store 1] a] by (simp add: ex_code_state_def)
  then show ?thesis using state_store.calm_sound [OF ex_all_store 1 still_calm] by blast
qed

lemma ex_code_nonce: "fst (GetNonce BytesToHash ex_db ex_addr ex_code_state) = 0"
  by (simp add: ex_code_state_def ex_rich_state_def AddBalance_def so_AddBalance_def GetNonce_def SetCode_def so_SetCode_def so_setCode_def so_Code_def ex_eval)

lemma ex_code_executed:
  assumes "ApplyMessage BytesToHash ex_db run evm ex_addr ex_msg 50000 ex_code_state = Some (r, gp', s')"
  obtains result where "r = Inr result"
proof -
  let ?K = BytesToHash and ?s = ex_code_state
  note tx = state_store.sound_tx(1) [OF ex_all_store ex_code_sound]
  have a: "ex_addr \<in> addresses" by (simp add: ex_addr_def)
  have b: "bal ?K ex_db ?s ex_addr = 100000"
    by (simp add: bal_def ex_code_state_def ex_rich_state_def AddBalance_def so_AddBalance_def SetCode_def so_SetCode_def so_setCode_def so_Code_def ex_eval)
  define s1 where "s1 = snd (getStateObject ?K ex_db ex_addr ?s)"
  define st where "st = (NewStateTransition ex_msg 50000 ?s)\<lparr>st_state := s1\<rparr>"
  note f = state_store.fetch_steps(2) [OF ex_all_store tx a s1_def] state_store.fetch_same_bal [OF ex_all_store tx a s1_def]
  have st: "tx_state ?K ex_db trie_good addresses (st_state st)" "msg_From (st_msg st) \<in> addresses" "st_smoke st = 0"
    using f(1) a by (simp_all add: st_def NewStateTransition_def ex_msg_def)
  have "GetNonce ?K ex_db ex_addr ?s = (0, s1)" using ex_code_nonce by (simp add: s1_def prod_eq_iff reads_fetch)
  then have pre: "preCheck ?K ex_db (NewStateTransition ex_msg 50000 ?s) = buySmoke ?K ex_db st"
    by (simp add: preCheck_def NewStateTransition_def st_def ex_msg_def)
  have "bal ?K ex_db s1 ex_addr = 100000" using f(2) a b by (simp add: same_bal_def)
  then have n: "fst (buySmoke ?K ex_db st) = None"
    by (simp add: buySmoke_def bal_def st_def NewStateTransition_def ex_msg_def SubSmoke_def split_def Let_def)
  then obtain st0 where p: "buySmoke ?K ex_db st = (None, st0)" by (metis prod.collapse)
  note stage = state_store.buySmoke_stage [OF ex_all_store st p]
  have q: "st_msg st0 = ex_msg" "st_data st0 = []" "st_smoke st0 = 30000" "bal ?K ex_db (st_state st0) ex_addr = 40000"
    using stage(2,4) a \<open>bal ?K ex_db s1 ex_addr = 100000\<close> by (simp_all add: same_message_def bought_def st_def NewStateTransition_def ex_msg_def Let_def)
  then have c: "CanTransfer ?K ex_db ex_addr 5 (st_state st0) = (True, snd (GetBalance ?K ex_db ex_addr (st_state st0)))"
    by (simp add: CanTransfer_def bal_def split_def Let_def)
  have "\<exists>result. r = Inr result"
    using assms pre p q c by (auto simp: ApplyMessage_def TransitionDb_def IntrinsicSmoke_def ex_msg_def Let_def split: option.splits prod.splits)
  then show ?thesis using that by blast
qed

lemma ex_code_refund: "sd_refund ex_code_state = 0"
  by (simp add: ex_code_state_def ex_rich_state_def AddBalance_def so_AddBalance_def SetCode_def so_SetCode_def so_setCode_def so_Code_def ex_eval)


subsection \<open>Frames\<close>

text \<open>
  C6. Frames stay well-typed. A turn of the interpreter on a well-formed frame, whatever byte comes
  next and under the rules of every fork, never panics: operands are on the stack, memory is
  large enough, the state has what the instruction looks up. Either the frame ends, with an error
  from which the caller can go back to its snapshot or with a settled state; or it goes on well-formed, with a
  stack of at most 1024 words and strictly less smoke, so no frame runs forever.
\<close>

theorem turn_safe:
  assumes "state_store db good K A" "ready K db good A i ctx s" "pot s (c_Smoke (f_contract ctx)) + 24000 < 2 ^ 64"
  shows "\<exists>t. turn (interpreter_table (evm_chainRules (in_evm i))) i ctx s = Some t \<and>
    (case t of
       Exit res err ctx' s' \<Rightarrow> steps K db A s s' \<and> c_Smoke (f_contract ctx') \<le> c_Smoke (f_contract ctx) \<and>
         (err = None \<longrightarrow> settled K db A s (c_Smoke (f_contract ctx)) (c_Smoke (f_contract ctx')) s')
     | Next ctx' s' \<Rightarrow> steps K db A s s' \<and> no_mint K db A s s' \<and> ready K db good A i ctx' s' \<and> length (f_stack ctx') \<le> 1024 \<and>
         c_Smoke (f_contract ctx') < c_Smoke (f_contract ctx) \<and> pot s' (c_Smoke (f_contract ctx')) \<le> pot s (c_Smoke (f_contract ctx)))"
proof -
  obtain t where t: "turn (interpreter_table (evm_chainRules (in_evm i))) i ctx s = Some t" "turn_good K db good A i ctx s t"
    using state_store.turn_ok [OF assms(1,2) state_store.interpreter_table_ok [OF assms(1)] assms(3)] by blast
  then show ?thesis by (cases t) (simp_all add: turn_good_def body_post_def)
qed

definition ex_contract :: Contract where
  "ex_contract = (NewContract (AccountRef ex_addr) (AccountRef ex_addr) (Some 0) 100000)\<lparr>c_Code := [0x60, 1, 0x60, 0, 0x55, 0]\<rparr>"

definition ex_interpreter :: "secure_trie EVMInterpreter" where
  "ex_interpreter = \<lparr>in_evm = ex_evm, in_keccak = BytesToHash, in_db = ex_db, in_u256 = word_uint256, in_nested = evm_interpreter BytesToHash ex_db word_uint256\<rparr>"

lemma ex_runs_as: "runs_as BytesToHash ex_db addresses ex_evm ex_addr ex_code_state"
proof -
  have a: "ex_addr \<in> addresses" by (simp add: ex_addr_def)
  have b: "v_live (view BytesToHash ex_db addresses ex_rich_state) ex_addr \<noteq> None"
    using state_store.writes_live(2) [OF ex_all_store state_store.sound_tx(1) [OF ex_all_store ex_all_sound] a] by (simp add: ex_rich_state_def)
  have "still BytesToHash ex_db addresses ex_rich_state ex_code_state"
    using state_store.SetCode_still [OF ex_all_store state_store.sound_tx(1) [OF ex_all_store ex_rich_sound] a] by (simp add: ex_code_state_def)
  then have "v_live (view BytesToHash ex_db addresses ex_code_state) ex_addr \<noteq> None" using b unfolding still_def tame_def grows_def by blast
  moreover have "\<not> r_IsYoloV2 (evm_chainRules ex_evm)" by (simp add: ex_evm_def config_Rules_def example_config_def)
  ultimately show ?thesis using a by (simp add: runs_as_def)
qed

lemma ex_run_good: "run_good BytesToHash ex_db trie_good addresses (evm_interpreter BytesToHash ex_db word_uint256) ex_evm"
  by (rule state_store.evm_interpreter_good [OF ex_all_store word_uint256_ok order_refl finite_addresses]) (simp_all add: ex_evm_def)

lemma ex_ready: "ready BytesToHash ex_db trie_good addresses ex_interpreter (new_frame ex_contract []) ex_code_state"
proof -
  have "evm_ChainID ex_evm \<noteq> None" by (simp add: ex_evm_def)
  then have "machine BytesToHash ex_db trie_good addresses ex_interpreter"
    using ex_run_good word_uint256_ok finite_addresses by (simp add: machine_def ex_interpreter_def)
  moreover have "ctx_Address (new_frame ex_contract []) = ex_addr" by (simp add: ctx_Address_def new_frame_def ex_contract_def NewContract_def)
  ultimately show ?thesis using ex_runs_as ex_code_sound
    by (simp add: ready_def ex_interpreter_def contract_ok_def new_frame_def ex_contract_def NewContract_def)
qed

theorem turn_safe_witness:
  "turn (interpreter_table (evm_chainRules ex_evm)) ex_interpreter (new_frame ex_contract []) ex_code_state \<noteq> None"
proof -
  have "pot ex_code_state (c_Smoke (f_contract (new_frame ex_contract []))) + 24000 < 2 ^ 64"
    using ex_code_refund by (simp add: pot_def new_frame_def ex_contract_def NewContract_def)
  from turn_safe [OF ex_all_store ex_ready this] show ?thesis by (auto simp: ex_interpreter_def)
qed



end
