(* ===== verification/Misc_DAO.thy ===== *)
theory Misc_DAO
  imports Core_Machine
begin

section \<open>The DAO fork\<close>

text \<open>
  \<open>ApplyDAOHardFork\<close> of \<open>src/consensus/misc/dao.go\<close>, which moves the balances of the accounts listed in
  \<open>src/params/dao.go\<close> to a refund contract. It is shown that it moves all of them, and nothing else.
\<close>

subsection \<open>Model\<close>

text \<open>An address from its hexadecimal digits, read as a number.\<close>

abbreviation HexToAddress :: "nat \<Rightarrow> address" where
  "HexToAddress n \<equiv> BytesToAddress (be_bytes n)"

definition DAORefundContract :: address where
  "DAORefundContract = HexToAddress 0xBF4ED7B27F1D666546E30D74D50D173D20BCA754"

abbreviation (input) DAO_accounts :: "nat list" where
  "DAO_accounts \<equiv>
     [0xD4FE7BC31CEDB7BFB8A345F31E668033056B2728, 0xB3FB0E5ABA0E20E5C49D252DFD30E102B171A425, 0x2C19C7F9AE8B751E37AEB2D93A699722395AE18F,
      0xECD135FA4F61A655311E86238C92ADCD779555D2, 0x1975BD06D486162D5DC297798DFC41EDD5D160A7, 0xA3ACF3A1E16B1D7C315E23510FDD7847B48234F6,
      0x319F70BAB6845585F412EC7724B744FEC6095C85, 0x6706DD3F2C9ABF0A21DDCC6941D9B86F0596936, 0x5C8536898FBB74FC7445814902FD08422EAC56D0,
      0x6966AB0D485353095148A2155858910E0965B6F9, 0x779543A0491A837CA36CE8C635D6154E3C4911A6, 0x2A5ED960395E2A49B1C758CEF4AA15213CFD874C,
      0x5C6E67CCD5849C0D29219C4F95F1A7A93B3F5DC5, 0x9C50426BE05DB97F5D64FC54BF89EFF947F0A321, 0x200450F06520BDD6C527622A273333384D870EFB,
      0xBE8539BFE837B67D1282B2B1D61C3F723966F049, 0x6B0C4D41BA9AB8D8CFB5D379C69A612F2CED8ECB, 0xF1385FB24AAD0CD7432824085E42AFF90886FEF5,
      0xD1AC8B1EF1B69FF51D1D401A476E7E612414F091, 0x8163E7FB499E90F8544EA62BBF80D21CD26D9EFD, 0x51E0DDD9998364A2EB38588679F0D2C42653E4A6,
      0x627A0A960C079C21C34F7612D5D230E01B4AD4C7, 0xF0B1AA0EB660754448A7937C022E30AA692FE0C5, 0x24C4D950DFD4DD1902BBED3508144A54542BBA94,
      0x9F27DAEA7ACA0AA0446220B98D028715E3BC803D, 0xA5DC5ACD6A7968A4554D89D65E59B7FD3BFF0F90, 0xD9AEF3A1E38A39C16B31D1ACE71BCA8EF58D315B,
      0x63ED5A272DE2F6D968408B4ACB9024F4CC208EBF, 0x6F6704E5A10332AF6672E50B3D9754DC460DFA4D, 0x77CA7B50B6CD7E2F3FA008E24AB793FD56CB15F6,
      0x492EA3BB0F3315521C31F273E565B868FC090F17, 0xFF30D6DE14A8224AA97B78AEA5388D1C51C1F00, 0x9EA779F907F0B315B364B0CFC39A0FDE5B02A416,
      0xCEAEB481747CA6C540A000C1F3641F8CEF161FA7, 0xCC34673C6C40E791051898567A1222DAF90BE287, 0x579A80D909F346FBFB1189493F521D7F48D52238,
      0xE308BD1AC5FDA103967359B2712DD89DEFFB7973, 0x4CB31628079FB14E4BC3CD5E30C2F7489B00960C, 0xAC1ECAB32727358DBA8962A0F3B261731AAD9723,
      0x4FD6ACE747F06ECE9C49699C7CABC62D02211F75, 0x440C59B325D2997A134C2C7C60A8C61611212BAD, 0x4486A3D68FAC6967006D7A517B889FD3F98C102B,
      0x9C15B54878BA618F494B38F0AE7443DB6AF648BA, 0x27B137A85656544B1CCB5A0F2E561A5703C6A68F, 0x21C7FDB9ED8D291D79FFD82EB2C4356EC0D81241,
      0x23B75C2F6791EEF49C69684DB4C6C1F93BF49A50, 0x1CA6ABD14D30AFFE533B24D7A21BFF4C2D5E1F3B, 0xB9637156D330C0D605A791F1C31BA5890582FE1C,
      0x6131C42FA982E56929107413A9D526FD99405560, 0x1591FC0F688C81FBEB17F5426A162A7024D430C2, 0x542A9515200D14B68E934E9830D91645A980DD7A,
      0xC4BBD073882DD2ADD2424CF47D35213405B01324, 0x782495B7B3355EFB2833D56ECB34DC22AD7DFCC4, 0x58B95C9A9D5D26825E70A82B6ADB139D3FD829EB,
      0x3BA4D81DB016DC2890C81F3ACEC2454BFF5AADA5, 0xB52042C8CA3F8AA246FA79C3FEAA3D959347C0AB, 0xE4AE1EFDFC53B73893AF49113D8694A057B9C0D1,
      0x3C02A7BC0391E86D91B7D144E61C2C01A25A79C5, 0x737A6B837F97F46EBADE41B9BC3E1C509C85C53, 0x97F43A37F595AB5DD318FB46E7A155EAE057317A,
      0x52C5317C848BA20C7504CB2C8052ABD1FDE29D03, 0x4863226780FE7C0356454236D3B1C8792785748D, 0x5D2B2E6FCBE3B11D26B525E085FF818DAE332479,
      0x5F9F3392E9F62F63B8EAC0BEB55541FC8627F42C, 0x57B56736D32B86616A10F619859C6CD6F59092A, 0x9AA008F65DE0B923A2A4F02012AD034A5E2E2192,
      0x304A554A310C7E546DFE434669C62820B7D83490, 0x914D1B8B43E92723E64FD0A06F5BDB8DD9B10C79, 0x4DEB0033BB26BC534B197E61D19E0733E5679784,
      0x7F5C1E1BC2C93E0402F23341973A0E043F7BF8A, 0x35A051A0010ABA705C9008D7A7EFF6FB88F6EA7B, 0x4FA802324E929786DBDA3B8820DC7834E9134A2A,
      0x9DA397B9E80755301A3B32173283A91C0EF6C87E, 0x8D9EDB3054CE5C5774A420AC37EBAE0AC02343C6, 0x101F3BE8EBB4BBD39A2E3B9A3639D4259832FD9,
      0x5DC28B15DFFED94048D73806CE4B7A4612A1D48F, 0xBCF899E6C7D9D5A215AB1E3444C86806FA854C76, 0x12E626B0EEBFE86A56D633B9864E389B45DCB260,
      0xA2F1CCBA9395D7FCB155BBA8BC92DB9BAFAEADE7, 0xEC8E57756626FDC07C63AD2EAFBD28D08E7B0CA5, 0xD164B088BD9108B60D0CA3751DA4BCEB207B0782,
      0x6231B6D0D5E77FE001C2A460BD9584FEE60D409B, 0x1CBA23D343A983E9B5CFD19496B9A9701ADA385F, 0xA82F360A8D3455C5C41366975BDE739C37BFEB8A,
      0x9FCD2DEAFF372A39CC679D5C5E4DE7BAFB0B1339, 0x5F5CEE7A43331D5A3D3EEC71305925A62F34B6, 0xE0DA70933F4C7849FC0D203F5D1D43B9AE4532D,
      0xD131637D5275FD1A68A3200F4AD25C71A2A9522E, 0xBC07118B9AC290E4622F5E77A0853539789EFFBE, 0x47E7AA56D6BDF3F36BE34619660DE61275420AF8,
      0xACD87E28B0C9D1254E868B81CBA4CC20D9A32225, 0xADF80DAEC7BA8DCF15392F1AC611FFF65D94F880, 0x5524C55FB03CF21F549444CCBECB664D0ACAD706,
      0x40B803A9ABCE16F50F36A77BA41180EB90023925, 0xFE24CDD8648121A43A7C86D289BE4DD2951ED49F, 0x17802F43A0137C506BA92291391A8A8F207F487D,
      0x253488078A4EDF4D6F42F113D1E62836A942CF1A, 0x86AF3E9626FCE1957C82E88CBF04DDF3A2ED7915, 0xB136707642A4EA12FB4BAE820F03D2562EBFF487,
      0xDBE9B615A3AE8709AF8B93336CE9B477E4AC0940, 0xF14C14075D6C4ED84B86798AF0956DEEF67365B5, 0xCA544E5C4687D109611D0F8F928B53A25AF72448,
      0xAEEB8FF27288BDABC0FA5EBB731B6F409507516C, 0xCBB9D3703E651B0D496CDEFB8B92C25AEB2171F7, 0x6D87578288B6CB5549D5076A207456A1F6A63DC0,
      0xB2C6F0DFBB716AC562E2D85D6CB2F8D5EE87603E, 0xACCC230E8A6E5BE9160B8CDF2864DD2A001C28B6, 0x2B3455EC7FEDF16E646268BF88846BD7A2319BB2,
      0x4613F3BCA5C44EA06337A9E439FBC6D42E501D0A, 0xD343B217DE44030AFAA275F54D31A9317C7F441E, 0x84EF4B2357079CD7A7C69FD7A37CD0609A679106,
      0xDA2FEF9E4A3230988FF17DF2165440F37E8B1708, 0xF4C64518EA10F995918A454158C6B61407EA345C, 0x7602B46DF5390E432EF1C307D4F2C9FF6D65CC97,
      0xBB9BC244D798123FDE783FCC1C72D3BB8C189413, 0x807640A13483F8AC783C557FCDF27BE11EA4AC7A]"

definition DAODrainList :: "address list" where
  "DAODrainList = map (\<lambda>n. HexToAddress n) DAO_accounts"

definition drain :: "(bytes \<Rightarrow> hash) \<Rightarrow> 'tr database \<Rightarrow> address \<Rightarrow> 'tr StateDB \<Rightarrow> 'tr StateDB" where
  "drain keccak db addr s =
    (let (balance, s) = GetBalance keccak db addr s;
         s = AddBalance keccak db DAORefundContract balance s
     in SetBalance keccak db addr 0 s)"

definition ApplyDAOHardFork :: "(bytes \<Rightarrow> hash) \<Rightarrow> 'tr database \<Rightarrow> 'tr StateDB \<Rightarrow> 'tr StateDB" where
  "ApplyDAOHardFork keccak db s =
    (let (exists, s) = Exist keccak db DAORefundContract s;
         s = (if \<not> exists then CreateAccount keccak db DAORefundContract s else s)
     in fold (drain keccak db) DAODrainList s)"

subsection \<open>What is moved\<close>

lemma length_BytesToAddress [simp]: "length (BytesToAddress b) = 20"
  by (simp add: BytesToAddress_def Let_def)

lemma DAO_addresses: "length DAORefundContract = 20" "set DAODrainList \<subseteq> {a. length a = 20}"
proof -
  show "length DAORefundContract = 20" by (simp add: DAORefundContract_def)
  show "set DAODrainList \<subseteq> {a. length a = 20}"
    unfolding DAODrainList_def set_map by (rule image_subsetI) (simp only: mem_Collect_eq length_BytesToAddress)
qed

lemma HexToAddress_number:
  assumes "n < 2 ^ 160"
  shows "be_nat (HexToAddress n) = n"
proof -
  have "be_nat (replicate k 0) = 0" for k by (induction k) (simp_all add: be_nat_def)
  moreover have "length (be_bytes n) \<le> 20" using assms by (intro length_be_bytes_le) simp
  ultimately show ?thesis by (simp add: BytesToAddress_def Let_def be_nat_append)
qed

lemma DAO_refund_kept: "DAORefundContract \<notin> set DAODrainList"
proof
  assume "DAORefundContract \<in> set DAODrainList"
  then obtain n where n: "n \<in> set DAO_accounts" "HexToAddress 0xBF4ED7B27F1D666546E30D74D50D173D20BCA754 = HexToAddress n"
    unfolding DAODrainList_def DAORefundContract_def set_map by blast
  have "\<forall>n\<in>set DAO_accounts. n < 2 ^ 160 \<and> n \<noteq> 0xBF4ED7B27F1D666546E30D74D50D173D20BCA754" by simp
  then have "n < 2 ^ 160" "n \<noteq> 0xBF4ED7B27F1D666546E30D74D50D173D20BCA754" using n(1) by blast+
  then show False using arg_cong [OF n(2), where f = be_nat] HexToAddress_number [of n] HexToAddress_number [of "0xBF4ED7B27F1D666546E30D74D50D173D20BCA754"] by simp
qed

context state_store begin

lemma drain_moves:
  assumes "tx s" "a \<in> A" "DAORefundContract \<in> A"
  shows "tx (drain K db a s)"
    "b \<in> A \<Longrightarrow> a \<noteq> DAORefundContract \<Longrightarrow> bal K db (drain K db a s) b =
      (if b = a then 0 else if b = DAORefundContract then bal K db s b + bal K db s a else bal K db s b)"
proof -
  let ?R = DAORefundContract and ?s1 = "snd (getStateObject K db a s)"
  define s2 where "s2 = AddBalance K db ?R (bal K db s a) ?s1"
  have g: "GetBalance K db a s = (bal K db s a, ?s1)" using reads_fetch(1) [of K db a s] by (simp add: bal_def prod_eq_iff)
  note f = fetch_steps [OF assms(1,2) refl] and fb = fetch_same_bal [OF assms(1,2) refl]
  have d: "drain K db a s = SetBalance K db a 0 s2" by (simp add: drain_def g s2_def)
  have t2: "tx s2" unfolding s2_def by (rule steps_tx [OF f(2) steps_writes(2) [OF f(2) assms(3)]])
  have ok: "ok ?s1" "ok s2" using f(2) t2 by (simp_all add: tx_state_def)
  show "tx (drain K db a s)" unfolding d using steps_tx [OF t2 steps_op [OF t2, of "OpSetBalance a 0"]] assms(2) by simp
  show "bal K db (drain K db a s) b =
      (if b = a then 0 else if b = ?R then bal K db s b + bal K db s a else bal K db s b)" if "b \<in> A" "a \<noteq> ?R"
    using writes_reads(1) [OF ok(2) assms(2) that(1), of 0] moves_bal(1) [OF ok(1) assms(3) that(1)] fb that
    unfolding d by (simp add: bal_def [symmetric] s2_def same_bal_def)
qed

lemma drains_move:
  assumes "tx s" "set l \<subseteq> A" "DAORefundContract \<in> A" "DAORefundContract \<notin> set l"
  shows "tx (fold (drain K db) l s) \<and> (\<forall>b\<in>A. bal K db (fold (drain K db) l s) b =
    (if b \<in> set l then 0 else if b = DAORefundContract then bal K db s b + (\<Sum>a\<in>set l. bal K db s a) else bal K db s b))"
  using assms
proof (induction l arbitrary: s)
  case (Cons x l)
  let ?R = DAORefundContract and ?s1 = "drain K db x s"
  have x: "x \<in> A" "x \<noteq> ?R" "set l \<subseteq> A" "?R \<notin> set l" using Cons.prems(2,4) by auto
  note d = drain_moves [OF Cons.prems(1) x(1) Cons.prems(3)]
  have b1: "bal K db ?s1 b = (if b = x then 0 else if b = ?R then bal K db s b + bal K db s x else bal K db s b)" if "b \<in> A" for b
    using d(2) [OF that x(2)] .
  have "(\<Sum>a\<in>set l. bal K db ?s1 a) = (\<Sum>a\<in>set l. if a = x then 0 else bal K db s a)"
    using b1 x by (intro sum.cong) auto
  also have "\<dots> + bal K db s x = (\<Sum>a\<in>set (x # l). bal K db s a)"
    by (simp add: sum.If_cases sum.insert_if sum.remove [of _ x] Diff_eq Int_commute Collect_neg_eq)
  finally show ?case using Cons.IH [OF d(1) x(3) Cons.prems(3) x(4)] b1 Cons.prems(3) x(2) by auto
qed simp

end

text \<open>
  C16. The DAO fork moves coins and makes none. Afterwards the listed accounts are empty, the refund contract
  holds what they held on top of its own balance, every other balance is as before, and so is the
  sum of all balances.
\<close>

theorem ApplyDAOHardFork_moves:
  fixes s
  assumes "state_store db good K addresses" "tx_state K db good addresses s"
  defines "s' \<equiv> ApplyDAOHardFork K db s"
  shows "tx_state K db good addresses s' \<and> total K db addresses s' = total K db addresses s \<and>
    (\<forall>a. length a = 20 \<longrightarrow> bal K db s' a =
      (if a \<in> set DAODrainList then 0
       else if a = DAORefundContract then bal K db s a + (\<Sum>b\<in>set DAODrainList. bal K db s b)
       else bal K db s a))"
proof -
  let ?A = addresses and ?R = DAORefundContract and ?L = "set DAODrainList"
  have R: "?R \<in> ?A" using DAO_addresses by simp
  let ?s1 = "snd (getStateObject K db ?R s)"
  define s2 where "s2 = (if \<not> fst (Exist K db ?R s) then CreateAccount K db ?R ?s1 else ?s1)"
  have f: "tx_state K db good ?A ?s1" "same_bal K db ?A s ?s1"
    using state_store.fetch_steps(2) [OF assms(1,2) R refl] state_store.fetch_same_bal [OF assms(1,2) R refl] by simp_all
  have s2: "tx_state K db good ?A s2" "same_bal K db ?A s s2"
    using f state_store.steps_tx [OF assms(1) f(1) state_store.steps_writes(1) [OF assms(1) f(1) R]]
      same_bal_trans [OF f(2) state_store.writes_same_bal(3) [OF assms(1) _ R]] by (auto simp: s2_def tx_state_def)
  have s': "s' = fold (drain K db) DAODrainList s2"
    using reads_fetch(4) [of K db ?R s] by (cases "Exist K db ?R s") (simp add: assms(3) ApplyDAOHardFork_def s2_def)
  note d = state_store.drains_move [OF assms(1) s2(1) DAO_addresses(2) R DAO_refund_kept, folded s']
  have b: "bal K db s' a = (if a \<in> ?L then 0 else if a = ?R then bal K db s a + (\<Sum>b\<in>?L. bal K db s b) else bal K db s a)" if "a \<in> ?A" for a
  proof -
    have "(\<Sum>b\<in>?L. bal K db s2 b) = (\<Sum>b\<in>?L. bal K db s b)" using s2(2) DAO_addresses(2) by (intro sum.cong) (auto simp: same_bal_def)
    then show ?thesis using d that s2(2) DAO_addresses(1) by (simp add: same_bal_def)
  qed
  note fin = finite_addresses
  have "total K db ?A s' = (\<Sum>a\<in>?A. (if a \<in> ?L then 0 else bal K db s a) + (if a = ?R then \<Sum>b\<in>?L. bal K db s b else 0))"
    unfolding total_def using b DAO_refund_kept by (intro sum.cong) auto
  also have "\<dots> = (\<Sum>a\<in>?A - ?L. bal K db s a) + (\<Sum>b\<in>?L. bal K db s b)"
    using fin R by (simp add: sum.distrib sum.If_cases Diff_eq Collect_neg_eq Int_commute)
  also have "\<dots> = total K db ?A s" unfolding total_def using sum.subset_diff [OF DAO_addresses(2) fin, of "bal K db s"] by simp
  finally show ?thesis using d b by blast
qed

theorem ApplyDAOHardFork_moves_witness:
  "bal BytesToHash ex_db (ApplyDAOHardFork BytesToHash ex_db ex_rich_state) (DAODrainList ! 0) = 0 \<and>
   total BytesToHash ex_db addresses (ApplyDAOHardFork BytesToHash ex_db ex_rich_state) = total BytesToHash ex_db addresses ex_rich_state"
proof -
  have "DAODrainList ! 0 \<in> set DAODrainList" by (rule nth_mem) (simp add: DAODrainList_def)
  then show ?thesis
    using ApplyDAOHardFork_moves [OF ex_all_store state_store.sound_tx(1) [OF ex_all_store ex_rich_sound]] DAO_addresses(2) by auto
qed

end
