(* ===== verification/Core_Types.thy ===== *)
theory Core_Types
  imports State_DB
begin

unbundle bit_operations_syntax

section \<open>Headers, receipts and bloom filters\<close>

text \<open>
  The data of blocks, from \<open>src/core/types\<close>: the header of \<open>block.go\<close>, the transaction of
  \<open>transaction.go\<close> with their hashes, the receipt of \<open>receipt.go\<close> and the bloom filter over log addresses and topics of \<open>bloom9.go\<close>. The hash function is an
  argument; a filter has 256 bytes. It is shown that a filter never misses what was added to it.
\<close>

type_synonym Bloom = bytes

record Header =
  h_ParentHash :: hash
  h_UncleHash :: hash
  h_Coinbase :: address
  h_Root :: hash
  h_TxHash :: hash
  h_ReceiptHash :: hash
  h_Bloom :: Bloom
  h_Difficulty :: int
  h_Number :: int
  h_SmokeLimit :: uint64
  h_SmokeUsed :: uint64
  h_Time :: uint64
  h_Extra :: bytes
  h_MixDigest :: hash
  h_Nonce :: bytes

record Transaction =
  tx_AccountNonce :: uint64
  tx_Price :: int
  tx_SmokeLimit :: uint64
  tx_Recipient :: "address option"
  tx_Amount :: int
  tx_Payload :: bytes
  tx_V :: int
  tx_R :: int
  tx_S :: int

record Block =
  b_header :: Header
  b_uncles :: "Header list"
  b_transactions :: "Transaction list"

text \<open>
  \<open>rlpHash\<close> writes the encoding to the hasher; a value that cannot be encoded writes nothing. The
  caches of the hashes are not modelled.
\<close>

abbreviation rlpHash :: "(bytes \<Rightarrow> hash) \<Rightarrow> gtype \<Rightarrow> gval \<Rightarrow> hash" where
  "rlpHash keccak t v \<equiv> keccak (case EncodeToBytes t v of Inl _ \<Rightarrow> [] | Inr b \<Rightarrow> b)"

definition header_Hash :: "(bytes \<Rightarrow> hash) \<Rightarrow> Header \<Rightarrow> hash" where
  "header_Hash keccak h =
    rlpHash keccak
      (TStruct [TByteArray 32, TByteArray 32, TByteArray 20, TByteArray 32, TByteArray 32, TByteArray 32, TByteArray 256,
         TBigInt, TBigInt, TUint 64, TUint 64, TUint 64, TByteSlice, TByteArray 32, TByteArray 8])
      (VList [VBytes (h_ParentHash h), VBytes (h_UncleHash h), VBytes (h_Coinbase h), VBytes (h_Root h), VBytes (h_TxHash h),
         VBytes (h_ReceiptHash h), VBytes (h_Bloom h), VBigInt (h_Difficulty h), VBigInt (h_Number h), VUint (h_SmokeLimit h),
         VUint (h_SmokeUsed h), VUint (h_Time h), VBytes (h_Extra h), VBytes (h_MixDigest h), VBytes (h_Nonce h)])"

definition tx_Hash :: "(bytes \<Rightarrow> hash) \<Rightarrow> Transaction \<Rightarrow> hash" where
  "tx_Hash keccak tx =
    rlpHash keccak
      (TStruct [TUint 64, TBigInt, TUint 64, TNilPtr KString (TByteArray 20), TBigInt, TByteSlice, TBigInt, TBigInt, TBigInt])
      (VList [VUint (tx_AccountNonce tx), VBigInt (tx_Price tx), VUint (tx_SmokeLimit tx),
         (case tx_Recipient tx of None \<Rightarrow> VNil | Some a \<Rightarrow> VPtr (VBytes a)),
         VBigInt (tx_Amount tx), VBytes (tx_Payload tx), VBigInt (tx_V tx), VBigInt (tx_R tx), VBigInt (tx_S tx)])"

record Receipt =
  rc_PostState :: bytes
  rc_Status :: uint64
  rc_CumulativeSmokeUsed :: uint64
  rc_Bloom :: Bloom
  rc_Logs :: "Log list"
  rc_TxHash :: hash
  rc_ContractAddress :: address
  rc_SmokeUsed :: uint64
  rc_BlockHash :: hash
  rc_BlockNumber :: "int option"
  rc_TransactionIndex :: uint64

definition NewReceipt :: "bytes \<Rightarrow> bool \<Rightarrow> uint64 \<Rightarrow> Receipt" where
  "NewReceipt root failed cumulativeSmokeUsed =
    \<lparr>rc_PostState = root, rc_Status = (if failed then 0 else 1), rc_CumulativeSmokeUsed = cumulativeSmokeUsed,
     rc_Bloom = replicate 256 0, rc_Logs = [], rc_TxHash = replicate 32 0, rc_ContractAddress = replicate 20 0,
     rc_SmokeUsed = 0, rc_BlockHash = replicate 32 0, rc_BlockNumber = None, rc_TransactionIndex = 0\<rparr>"

subsection \<open>Bloom filters\<close>

text \<open>
  The byte and the bit of the filter for a pair of hash bytes, and the three of them for some
  data. The pool of hashers and the buffer are not modelled.
\<close>

abbreviation bloom_index :: "byte \<Rightarrow> byte \<Rightarrow> nat" where
  "bloom_index hi lo \<equiv> 256 - unat (drop_bit 3 ((push_bit 8 (ucast hi) OR ucast lo :: 16 word) AND 0x7FF)) - 1"

abbreviation bloom_bit :: "byte \<Rightarrow> byte" where
  "bloom_bit lo \<equiv> push_bit (unat (lo AND 7)) 1"

definition bloomValues :: "(bytes \<Rightarrow> hash) \<Rightarrow> bytes \<Rightarrow> (nat \<times> byte) \<times> (nat \<times> byte) \<times> (nat \<times> byte)" where
  "bloomValues keccak data =
    (let hashbuf = take 6 (keccak data)
     in ((bloom_index (hashbuf ! 0) (hashbuf ! 1), bloom_bit (hashbuf ! 1)),
         (bloom_index (hashbuf ! 2) (hashbuf ! 3), bloom_bit (hashbuf ! 3)),
         (bloom_index (hashbuf ! 4) (hashbuf ! 5), bloom_bit (hashbuf ! 5))))"

definition bloom_add :: "(bytes \<Rightarrow> hash) \<Rightarrow> bytes \<Rightarrow> Bloom \<Rightarrow> Bloom" where
  "bloom_add keccak d b =
    (let ((i1, v1), (i2, v2), (i3, v3)) = bloomValues keccak d;
         b = b[i1 := b ! i1 OR v1];
         b = b[i2 := b ! i2 OR v2]
     in b[i3 := b ! i3 OR v3])"

definition bloom_Test :: "(bytes \<Rightarrow> hash) \<Rightarrow> Bloom \<Rightarrow> bytes \<Rightarrow> bool" where
  "bloom_Test keccak b topic =
    (let ((i1, v1), (i2, v2), (i3, v3)) = bloomValues keccak topic
     in v1 = v1 AND b ! i1 \<and> v2 = v2 AND b ! i2 \<and> v3 = v3 AND b ! i3)"

definition logs_add :: "(bytes \<Rightarrow> hash) \<Rightarrow> Log list \<Rightarrow> Bloom \<Rightarrow> Bloom" where
  "logs_add keccak logs bin =
    fold (\<lambda>log bin. fold (bloom_add keccak) (log_Topics log) (bloom_add keccak (log_Address log) bin)) logs bin"

definition CreateBloom :: "(bytes \<Rightarrow> hash) \<Rightarrow> Receipt list \<Rightarrow> Bloom" where
  "CreateBloom keccak receipts = fold (\<lambda>receipt. logs_add keccak (rc_Logs receipt)) receipts (replicate 256 0)"

definition LogsBloom :: "(bytes \<Rightarrow> hash) \<Rightarrow> Log list \<Rightarrow> Bloom" where
  "LogsBloom keccak logs = logs_add keccak logs (replicate 256 0)"

subsection \<open>Filters only grow\<close>

text \<open>Every bit of the first filter is a bit of the second.\<close>

definition bloom_le :: "Bloom \<Rightarrow> Bloom \<Rightarrow> bool" where
  "bloom_le b b' \<longleftrightarrow> length b' = length b \<and> (\<forall>i<length b. b ! i OR b' ! i = b' ! i)"

lemma bloom_le_refl [simp]: "bloom_le b b"
  by (simp add: bloom_le_def)

lemma bloom_le_trans [trans]:
  assumes "bloom_le b b1" "bloom_le b1 b2"
  shows "bloom_le b b2"
  unfolding bloom_le_def
proof (intro conjI allI impI)
  show "length b2 = length b" using assms by (simp add: bloom_le_def)
  fix i
  assume i: "i < length b"
  then have e: "b ! i OR b1 ! i = b1 ! i" "b1 ! i OR b2 ! i = b2 ! i" using assms by (simp_all add: bloom_le_def)
  have "b ! i OR b2 ! i = (b ! i OR b1 ! i) OR b2 ! i" by (subst e(2) [symmetric]) (simp only: or.assoc)
  then show "b ! i OR b2 ! i = b2 ! i" by (simp only: e)
qed

lemma bloom_set: "bloom_le b (b[i := b ! i OR v])"
proof -
  have "b ! j OR b[i := b ! i OR v] ! j = b[i := b ! i OR v] ! j" if "j < length b" for j
    using that by (cases "j = i") (simp_all add: or.assoc [symmetric])
  then show ?thesis by (simp add: bloom_le_def)
qed

lemma bloom_set_bit: "i < length b \<Longrightarrow> v = v AND b[i := b ! i OR v] ! i"
  by (simp add: bit_eq_iff bit_simps) blast

lemma bloom_le_bit: "bloom_le b b' \<Longrightarrow> i < length b \<Longrightarrow> v = v AND b ! i \<Longrightarrow> v = v AND b' ! i"
proof -
  assume a: "bloom_le b b'" "i < length b" "v = v AND b ! i"
  then have "b ! i OR b' ! i = b' ! i" by (simp add: bloom_le_def)
  then have "v AND b' ! i = v AND (b ! i OR b' ! i)" by simp
  also have "\<dots> = v" using a(3) by (simp add: bit_eq_iff bit_simps) blast
  finally show ?thesis by simp
qed

lemma bloom_index_less: "bloom_index hi lo < 256"
  by simp

lemma bloom_add_le: "bloom_le b (bloom_add K d b)"
proof -
  obtain i1 v1 i2 v2 i3 v3 where p: "bloomValues K d = ((i1, v1), (i2, v2), (i3, v3))" by (metis surj_pair)
  show ?thesis unfolding bloom_add_def p Let_def prod.case by (intro bloom_le_trans [OF bloom_le_trans [OF bloom_set bloom_set] bloom_set])
qed

lemma bloom_add_Test:
  assumes "length b = 256"
  shows "bloom_Test K (bloom_add K d b) d"
proof -
  obtain i1 v1 i2 v2 i3 v3 where p: "bloomValues K d = ((i1, v1), (i2, v2), (i3, v3))" by (metis surj_pair)
  have i: "i1 < 256" "i2 < 256" "i3 < 256" using p by (auto simp: bloomValues_def Let_def)
  define b1 where "b1 = b[i1 := b ! i1 OR v1]"
  define b2 where "b2 = b1[i2 := b1 ! i2 OR v2]"
  define b3 where "b3 = b2[i3 := b2 ! i3 OR v3]"
  have l: "length b1 = 256" "length b2 = 256" using assms by (simp_all add: b1_def b2_def)
  have le: "bloom_le b1 b2" "bloom_le b2 b3" by (simp_all add: b2_def b3_def bloom_set)
  have "v1 = v1 AND b1 ! i1" "v2 = v2 AND b2 ! i2" "v3 = v3 AND b3 ! i3"
    using i l assms bloom_set_bit unfolding b1_def b2_def b3_def by metis+
  then have "v1 = v1 AND b3 ! i1" "v2 = v2 AND b3 ! i2" "v3 = v3 AND b3 ! i3"
    using bloom_le_bit [OF bloom_le_trans [OF le]] bloom_le_bit [OF le(2)] i l by simp_all
  moreover have "bloom_add K d b = b3" by (simp add: bloom_add_def p Let_def b1_def b2_def b3_def)
  ultimately show ?thesis by (simp add: bloom_Test_def p)
qed

lemma bloom_le_Test:
  assumes "bloom_le b b'" "length b = 256" "bloom_Test K b d"
  shows "bloom_Test K b' d"
proof -
  obtain i1 v1 i2 v2 i3 v3 where p: "bloomValues K d = ((i1, v1), (i2, v2), (i3, v3))" by (metis surj_pair)
  have i: "i1 < length b" "i2 < length b" "i3 < length b" using p assms(2) by (auto simp: bloomValues_def Let_def)
  have "v1 = v1 AND b ! i1" "v2 = v2 AND b ! i2" "v3 = v3 AND b ! i3" using assms(3) by (simp_all add: bloom_Test_def p)
  then have "v1 = v1 AND b' ! i1" "v2 = v2 AND b' ! i2" "v3 = v3 AND b' ! i3"
    using bloom_le_bit [OF assms(1) i(1)] bloom_le_bit [OF assms(1) i(2)] bloom_le_bit [OF assms(1) i(3)] by blast+
  then show ?thesis by (simp add: bloom_Test_def p)
qed

text \<open>A loop of additions keeps every bit, so what one of its rounds adds is there at its end.\<close>

lemma fold_le: "(\<And>x b. bloom_le b (f x b)) \<Longrightarrow> bloom_le b (fold f xs b)"
  by (induction xs arbitrary: b) (auto intro: bloom_le_trans)

lemma fold_Test:
  assumes "\<And>x b. bloom_le b (f x b)" "x \<in> set xs" "length b = 256" "\<And>b. length b = 256 \<Longrightarrow> bloom_Test K (f x b) d"
  shows "bloom_Test K (fold f xs b) d"
proof -
  obtain ys zs where xs: "xs = ys @ x # zs" using assms(2) by (metis split_list)
  have l: "length (fold f ys b) = 256" using fold_le [of f b ys] assms(1,3) by (simp add: bloom_le_def)
  have l': "length (f x (fold f ys b)) = 256" using assms(1) l unfolding bloom_le_def by metis
  have "bloom_Test K (f x (fold f ys b)) d" using assms(4) l by blast
  then show ?thesis using bloom_le_Test [OF fold_le [of f "f x (fold f ys b)" zs] l'] assms(1) by (simp add: xs)
qed

lemma log_le: "bloom_le b (fold (bloom_add K) ts (bloom_add K a b))"
  by (rule bloom_le_trans [OF bloom_add_le fold_le]) (rule bloom_add_le)

lemma logs_add_le: "bloom_le b (logs_add K logs b)"
  unfolding logs_add_def by (rule fold_le) (rule log_le)

lemma logs_add_Test:
  assumes "log \<in> set logs" "d = log_Address log \<or> d \<in> set (log_Topics log)" "length b = 256"
  shows "bloom_Test K (logs_add K logs b) d"
  unfolding logs_add_def
proof (rule fold_Test [OF log_le assms(1,3)])
  fix b :: Bloom
  assume b: "length b = 256"
  then have l: "length (bloom_add K (log_Address log) b) = 256" using bloom_add_le [of b K] by (simp add: bloom_le_def)
  show "bloom_Test K (fold (bloom_add K) (log_Topics log) (bloom_add K (log_Address log) b)) d"
  proof (cases "d \<in> set (log_Topics log)")
    case True
    then show ?thesis by (rule fold_Test [OF bloom_add_le _ l]) (rule bloom_add_Test)
  next
    case False
    then have "bloom_Test K (bloom_add K (log_Address log) b) d" using assms(2) bloom_add_Test [OF b] by simp
    then show ?thesis by (rule bloom_le_Test [OF fold_le [OF bloom_add_le] l])
  qed
qed

text \<open>
  C23. A bloom filter has no false negatives: the address and every topic of every log of a
  receipt test positive in the filter of the receipt, which is the one of its logs alone, and in
  the filter of every list of receipts that contains it, such as the one in the header of a block.
\<close>

theorem CreateBloom_complete:
  assumes "receipt \<in> set receipts" "log \<in> set (rc_Logs receipt)" "d = log_Address log \<or> d \<in> set (log_Topics log)"
  shows "bloom_Test K (CreateBloom K receipts) d \<and> bloom_Test K (CreateBloom K [receipt]) d \<and>
    CreateBloom K [receipt] = LogsBloom K (rc_Logs receipt)"
proof -
  have "bloom_Test K (CreateBloom K receipts) d" unfolding CreateBloom_def
    by (rule fold_Test [OF logs_add_le assms(1)]) (simp_all add: logs_add_Test [OF assms(2,3)])
  then show ?thesis using logs_add_Test [OF assms(2,3)] by (simp add: CreateBloom_def LogsBloom_def)
qed

definition ex_log :: Log where
  "ex_log = \<lparr>log_Address = replicate 20 7, log_Topics = [replicate 32 9], log_Data = [], log_BlockNumber = 1, log_TxHash = replicate 32 0,
    log_TxIndex = 0, log_BlockHash = replicate 32 0, log_Index = 0, log_Removed = False\<rparr>"

theorem CreateBloom_complete_witness:
  "bloom_Test (\<lambda>b. b @ replicate 32 0) (CreateBloom (\<lambda>b. b @ replicate 32 0) [NewReceipt [] True 0, (NewReceipt [] False 21000)\<lparr>rc_Logs := [ex_log]\<rparr>]) (replicate 32 9)"
proof -
  let ?r = "(NewReceipt [] False 21000)\<lparr>rc_Logs := [ex_log]\<rparr>"
  have "replicate 32 9 \<in> set (log_Topics ex_log)" by (simp add: ex_log_def)
  then show ?thesis using CreateBloom_complete [of ?r "[NewReceipt [] True 0, ?r]" ex_log "replicate 32 9" "\<lambda>b. b @ replicate 32 0"] by simp
qed

end
