(* ===== verification/Ethash_Rewards.thy ===== *)
theory Ethash_Rewards
  imports Core_Types Core_Machine
begin

section \<open>Block rewards\<close>

text \<open>
  \<open>AccumulateNewRewards\<close> and \<open>Finalize\<close> of \<open>src/consensus/ethash/consensus.go\<close>: the reward of a
  block by its number, the shares of miners, of the Veterans Fund and of the followers in the three
  eras, and the addresses of the two funds in the storage of a contract that the creator of the
  genesis block deploys. \<open>None\<close> is a panic of the state database. The amounts are checked against a
  list of credits, and the reward turns out to be negative for the blocks 400000 to 1000000.
\<close>

subsection \<open>Model\<close>

definition block_reward :: "int \<Rightarrow> int" where
  "block_reward number =
    (let headerRew = number div 100000
     in if number \<le> 1000 then 3000000000000000000
        else if 1000000 < number then 9000000000000000000
        else 9000000000000000000 - headerRew * 3000000000000000000)"

definition reward_addresses ::
  "(bytes \<Rightarrow> hash) \<Rightarrow> 'tr database \<Rightarrow> Header \<Rightarrow> Header \<Rightarrow> 'tr StateDB \<Rightarrow> (address \<times> address \<times> 'tr StateDB) option" where
  "reward_addresses keccak db header genesisHeader s =
    (let creatorAddress = BytesToAddress (h_Extra genesisHeader);
         contractAddress = CreateAddress keccak creatorAddress 0
     in do { (changeAtBlock, s) \<leftarrow> GetState keccak db contractAddress (BytesToHash [0]) s;
             if int (be_nat changeAtBlock) < h_Number header
             then do { (vetAddrBytes, s) \<leftarrow> GetState keccak db contractAddress (BytesToHash [1]) s;
                       (followerAddrBytes, s) \<leftarrow> GetState keccak db contractAddress (BytesToHash [2]) s;
                       Some (BytesToAddress (drop (length vetAddrBytes - 20) vetAddrBytes),
                             BytesToAddress (drop (length followerAddrBytes - 20) followerAddrBytes), s) }
             else do { (vetAddrBytes, s) \<leftarrow> GetState keccak db contractAddress (BytesToHash [3]) s;
                       (followerAddrBytes, s) \<leftarrow> GetState keccak db contractAddress (BytesToHash [4]) s;
                       Some (BytesToAddress (drop (length vetAddrBytes - 20) vetAddrBytes),
                             BytesToAddress (drop (length followerAddrBytes - 20) followerAddrBytes), s) } })"

text \<open>The loops over the uncles in the three eras, with the growing reward of the block.\<close>

fun sativa_uncles ::
  "(bytes \<Rightarrow> hash) \<Rightarrow> 'tr database \<Rightarrow> int \<Rightarrow> address \<Rightarrow> address \<Rightarrow> Header list \<Rightarrow> int \<Rightarrow> 'tr StateDB \<Rightarrow> int \<times> 'tr StateDB" where
  "sativa_uncles keccak db number vet follower [] reward s = (reward, s)"
| "sativa_uncles keccak db number vet follower (uncle # uncles) reward s =
    (let r = (h_Number uncle + 8 - number) * reward div 8;
         s = AddBalance keccak db (h_Coinbase uncle) (r * 75 div 100) s;
         s = AddBalance keccak db vet (r * 10 div 100) s;
         s = AddBalance keccak db follower (r * 15 div 100) s
     in sativa_uncles keccak db number vet follower uncles (reward + reward div 32) s)"

fun indica_uncles ::
  "(bytes \<Rightarrow> hash) \<Rightarrow> 'tr database \<Rightarrow> int \<Rightarrow> address \<Rightarrow> address \<Rightarrow> Header list \<Rightarrow> int \<Rightarrow> 'tr StateDB \<Rightarrow> int \<times> 'tr StateDB" where
  "indica_uncles keccak db number vet follower [] reward s = (reward, s)"
| "indica_uncles keccak db number vet follower (uncle # uncles) reward s =
    (let r = (h_Number uncle + 8 - number) * reward div 8;
         contractReward = r * (7 + 13) div 100;
         s = AddBalance keccak db (h_Coinbase uncle) (r * 80 div 100) s;
         contractRewardSplit = contractReward div 2;
         s = AddBalance keccak db vet contractRewardSplit s;
         s = AddBalance keccak db follower contractRewardSplit s
     in indica_uncles keccak db number vet follower uncles (reward + reward div 32) s)"

fun ruderalis_uncles ::
  "(bytes \<Rightarrow> hash) \<Rightarrow> 'tr database \<Rightarrow> int \<Rightarrow> address \<Rightarrow> Header list \<Rightarrow> int \<Rightarrow> 'tr StateDB \<Rightarrow> int \<times> 'tr StateDB" where
  "ruderalis_uncles keccak db number vet [] reward s = (reward, s)"
| "ruderalis_uncles keccak db number vet (uncle # uncles) reward s =
    (let r = (h_Number uncle + 8 - number) * reward div 8;
         s = AddBalance keccak db (h_Coinbase uncle) (r * 87 div 100) s;
         s = AddBalance keccak db vet (r * 13 div 100) s
     in ruderalis_uncles keccak db number vet uncles (reward + reward div 32) s)"

definition AccumulateNewRewards ::
  "(bytes \<Rightarrow> hash) \<Rightarrow> 'tr database \<Rightarrow> 'tr StateDB \<Rightarrow> Header \<Rightarrow> Header list \<Rightarrow> Header \<Rightarrow> 'tr StateDB option" where
  "AccumulateNewRewards keccak db s header uncles genesisHeader =
    (case reward_addresses keccak db header genesisHeader s of
       None \<Rightarrow> None
     | Some (vet, follower, s) \<Rightarrow>
         (let number = h_Number header; reward = block_reward number
          in Some
            (if 1111111 < number
             then if 2102400 < number
               then let (reward, s) = sativa_uncles keccak db number vet follower uncles reward s;
                        s = AddBalance keccak db vet (reward * 10 div 100) s;
                        s = AddBalance keccak db follower (reward * 15 div 100) s
                    in AddBalance keccak db (h_Coinbase header) (reward * 75 div 100) s
               else let (reward, s) = indica_uncles keccak db number vet follower uncles reward s;
                        contractReward = reward * (7 + 13) div 100;
                        contractRewardSplit = contractReward div 2;
                        s = AddBalance keccak db vet contractRewardSplit s;
                        s = AddBalance keccak db follower contractRewardSplit s
                    in if 1111111 < number then AddBalance keccak db (h_Coinbase header) (reward * 80 div 100) s else s
             else let (reward, s) = ruderalis_uncles keccak db number vet uncles reward s;
                      s = AddBalance keccak db vet (reward * 13 div 100) s
                  in AddBalance keccak db (h_Coinbase header) (reward * 87 div 100) s)))"

text \<open>
  \<open>Finalize\<close> reads the genesis header from the chain and sets the root of the header; the
  iteration orders of \<open>IntermediateRoot\<close> are those of the state after the rewards.
\<close>

definition ethash_Finalize ::
  "(bytes \<Rightarrow> hash) \<Rightarrow> 'tr database \<Rightarrow> ChainConfig \<Rightarrow> (uint64 \<Rightarrow> Header option) \<Rightarrow>
    ('tr StateDB \<Rightarrow> address list) \<Rightarrow> ('tr StateDB \<Rightarrow> address list) \<Rightarrow> ('tr StateDB \<Rightarrow> address \<Rightarrow> hash list) \<Rightarrow> Header \<Rightarrow> Header list \<Rightarrow> 'tr StateDB \<Rightarrow> (Header \<times> 'tr StateDB) option" where
  "ethash_Finalize keccak db config GetHeaderByNumber dirties pendings slots header uncles s =
    (case GetHeaderByNumber 0 of
       None \<Rightarrow> None
     | Some vaultState \<Rightarrow>
         do { s \<leftarrow> AccumulateNewRewards keccak db s header uncles vaultState;
              (root, s) \<leftarrow> IntermediateRoot keccak db (IsEIP158 config (Some (h_Number header))) (dirties s) (pendings s) (slots s) s;
              Some (header\<lparr>h_Root := root\<rparr>, s) })"

subsection \<open>Credits\<close>

text \<open>The shares of miner, Veterans Fund and followers of an amount, by the number of the block.\<close>

definition shares :: "int \<Rightarrow> int \<Rightarrow> int \<times> int \<times> int" where
  "shares number amount =
    (if 2102400 < number then (amount * 75 div 100, amount * 10 div 100, amount * 15 div 100)
     else if 1111111 < number then (amount * 80 div 100, amount * 20 div 100 div 2, amount * 20 div 100 div 2)
     else (amount * 87 div 100, amount * 13 div 100, 0))"

text \<open>Who earns how much: the miners of the uncles in their order, then the miner of the block.\<close>

fun earnings :: "int \<Rightarrow> address \<Rightarrow> Header list \<Rightarrow> int \<Rightarrow> (address \<times> int) list" where
  "earnings number coinbase [] reward = [(coinbase, reward)]"
| "earnings number coinbase (u # us) reward =
    (h_Coinbase u, (h_Number u + 8 - number) * reward div 8) # earnings number coinbase us (reward + reward div 32)"

definition credit :: "int \<Rightarrow> address \<Rightarrow> address \<Rightarrow> address \<times> int \<Rightarrow> address \<Rightarrow> int" where
  "credit number vet follower e b =
    (let (m, v, f) = shares number (snd e)
     in (if b = fst e then m else 0) + (if b = vet then v else 0) + (if b = follower then f else 0))"

lemma div_part: "(x :: int) - 99 \<le> 100 * (x div 100)" "100 * (x div 100) \<le> x" "y - 1 \<le> 2 * (y div 2)" "2 * (y div 2) \<le> (y :: int)"
  using div_mult_mod_eq [of x 100] pos_mod_bound [of 100 x] pos_mod_sign [of 100 x] div_mult_mod_eq [of y 2] pos_mod_bound [of 2 y] pos_mod_sign [of 2 y]
  by linarith+

lemma shares_sum:
  assumes "shares number amount = (m, v, f)"
  shows "amount - 3 \<le> m + v + f" "m + v + f \<le> amount"
proof -
  note d = div_part(1,2) [of "amount * 75"] div_part(1,2) [of "amount * 10"] div_part(1,2) [of "amount * 15"]
    div_part(1,2) [of "amount * 80"] div_part(1,2) [of "amount * 20"] div_part(3,4) [of "amount * 20 div 100"]
    div_part(1,2) [of "amount * 87"] div_part(1,2) [of "amount * 13"]
  consider "m = amount * 75 div 100" "v = amount * 10 div 100" "f = amount * 15 div 100"
    | "m = amount * 80 div 100" "v = amount * 20 div 100 div 2" "f = amount * 20 div 100 div 2"
    | "m = amount * 87 div 100" "v = amount * 13 div 100" "f = 0"
    using assms unfolding shares_def by (auto split: if_splits)
  then show "amount - 3 \<le> m + v + f" "m + v + f \<le> amount" by (cases; use d in linarith)+
qed

text \<open>The three loops are one, for three ways to pay an amount to a miner and the funds.\<close>

fun pay_uncles :: "(address \<Rightarrow> int \<Rightarrow> 'tr StateDB \<Rightarrow> 'tr StateDB) \<Rightarrow> int \<Rightarrow> Header list \<Rightarrow> int \<Rightarrow> 'tr StateDB \<Rightarrow> int \<times> 'tr StateDB" where
  "pay_uncles pay number [] reward s = (reward, s)"
| "pay_uncles pay number (u # us) reward s =
    pay_uncles pay number us (reward + reward div 32) (pay (h_Coinbase u) ((h_Number u + 8 - number) * reward div 8) s)"

lemma era_loops:
  "sativa_uncles K db number vet fol us reward s =
    pay_uncles (\<lambda>m r s. AddBalance K db fol (r * 15 div 100) (AddBalance K db vet (r * 10 div 100) (AddBalance K db m (r * 75 div 100) s))) number us reward s"
  "indica_uncles K db number vet fol us reward s =
    pay_uncles (\<lambda>m r s. AddBalance K db fol (r * 20 div 100 div 2) (AddBalance K db vet (r * 20 div 100 div 2) (AddBalance K db m (r * 80 div 100) s))) number us reward s"
  "ruderalis_uncles K db number vet us reward s =
    pay_uncles (\<lambda>m r s. AddBalance K db vet (r * 13 div 100) (AddBalance K db m (r * 87 div 100) s)) number us reward s"
  by (induction us arbitrary: reward s) (simp_all add: Let_def)

context state_store begin

text \<open>Payments from one state to another, account by account.\<close>

definition pays :: "(address \<Rightarrow> int) \<Rightarrow> 'tr StateDB \<Rightarrow> 'tr StateDB \<Rightarrow> bool" where
  "pays f s s' \<longleftrightarrow> tx s' \<and> (\<forall>b\<in>A. bal K db s' b = bal K db s b + f b)"

lemma pays_trans: "pays f s s1 \<Longrightarrow> pays g s1 s2 \<Longrightarrow> pays (\<lambda>b. f b + g b) s s2"
  by (simp add: pays_def)

lemma pays_cong: "pays f s s' \<Longrightarrow> (\<And>b. f b = g b) \<Longrightarrow> pays g s s'"
  by (simp add: pays_def)

lemma pays_AddBalance:
  assumes "tx s" "a \<in> A"
  shows "pays (\<lambda>b. if b = a then n else 0) s (AddBalance K db a n s)"
  using steps_tx [OF assms(1) steps_writes(2) [OF assms]] moves_bal(1) [OF _ assms(2)] assms(1) by (simp add: pays_def tx_state_def)

lemma pays_three:
  assumes "tx s" "a \<in> A" "b \<in> A" "c \<in> A"
  shows "pays (\<lambda>x. (if x = a then i else 0) + (if x = b then j else 0) + (if x = c then k else 0)) s
    (AddBalance K db c k (AddBalance K db b j (AddBalance K db a i s)))"
    "pays (\<lambda>x. (if x = a then i else 0) + (if x = b then j else 0)) s (AddBalance K db b j (AddBalance K db a i s))"
proof -
  note p1 = pays_AddBalance [OF assms(1,2), of i]
  have p2: "pays (\<lambda>x. if x = b then j else 0) (AddBalance K db a i s) (AddBalance K db b j (AddBalance K db a i s))"
    using p1 assms(3) by (intro pays_AddBalance) (simp_all add: pays_def)
  note p12 = pays_trans [OF p1 p2]
  then show "pays (\<lambda>x. (if x = a then i else 0) + (if x = b then j else 0)) s (AddBalance K db b j (AddBalance K db a i s))" .
  have "tx (AddBalance K db b j (AddBalance K db a i s))" using p12 by (simp add: pays_def)
  from pays_trans [OF p12 pays_AddBalance [OF this assms(4)]]
  show "pays (\<lambda>x. (if x = a then i else 0) + (if x = b then j else 0) + (if x = c then k else 0)) s
    (AddBalance K db c k (AddBalance K db b j (AddBalance K db a i s)))" .
qed

lemma pay_uncles_pays:
  assumes "tx s" "\<forall>u\<in>set us. h_Coinbase u \<in> A" "\<And>m r s. tx s \<Longrightarrow> m \<in> A \<Longrightarrow> pays (credit number vet fol (m, r)) s (pay m r s)"
  obtains reward' s' xs where "pay_uncles pay number us reward s = (reward', s')" "earnings number c us reward = xs @ [(c, reward')]"
    "pays (\<lambda>b. \<Sum>e\<leftarrow>xs. credit number vet fol e b) s s'"
  using assms(1,2)
proof (induction us arbitrary: reward s thesis)
  case Nil
  show ?case by (rule Nil(1) [of reward s "[]"]) (use Nil.prems in \<open>simp_all add: pays_def\<close>)
next
  case (Cons u us)
  let ?e = "(h_Coinbase u, (h_Number u + 8 - number) * reward div 8)"
  let ?s = "pay (fst ?e) (snd ?e) s"
  have p: "pays (credit number vet fol ?e) s ?s" using assms(3) [OF Cons.prems(2)] Cons.prems(3) by simp
  obtain reward' s' xs where r: "pay_uncles pay number us (reward + reward div 32) ?s = (reward', s')"
    "earnings number c us (reward + reward div 32) = xs @ [(c, reward')]" "pays (\<lambda>b. \<Sum>e\<leftarrow>xs. credit number vet fol e b) ?s s'"
    by (rule Cons.IH [where s = ?s and reward = "reward + reward div 32"]) (use p Cons.prems in \<open>auto simp: pays_def\<close>)
  show ?case using r pays_trans [OF p r(3)] by (intro Cons.prems(1) [of reward' s' "?e # xs"]) simp_all
qed

text \<open>The funds have addresses of 20 bytes, and reading them changes no balance.\<close>

lemma reward_addresses_read:
  assumes tx: "tx s" and A: "{a. length a = 20} \<subseteq> A"
  obtains vet fol s' where "reward_addresses K db header genesis s = Some (vet, fol, s')" "looks K db A s s'" "vet \<in> A" "fol \<in> A"
proof -
  define c where "c = CreateAddress K (BytesToAddress (h_Extra genesis)) 0"
  have c: "c \<in> A" using A created_length(2) by (auto simp: c_def)
  have b: "BytesToAddress x \<in> A" for x using A created_length(1) by auto
  obtain v0 s0 where g0: "GetState K db c (BytesToHash [0]) s = Some (v0, s0)" "looks K db A s s0" using looks_slot [OF tx c] by metis
  have two: "\<exists>v1 v2 s2. GetState K db c i s0 = Some (v1, s1) \<and> GetState K db c j s1 = Some (v2, s2) \<and> looks K db A s s2"
    if "GetState K db c i s0 = Some (v, s1)" "looks K db A s0 s1" for i j v s1
    using looks_slot [OF looks_tx [OF tx looks_trans [OF g0(2) that(2)]] c, of j] looks_trans [OF looks_trans [OF g0(2) that(2)]] that(1) by metis
  have read: "\<exists>v1 v2 s1 s2. GetState K db c i s0 = Some (v1, s1) \<and> GetState K db c j s1 = Some (v2, s2) \<and> looks K db A s s2" for i j
    using looks_slot [OF looks_tx [OF tx g0(2)] c, of i] two by metis
  show ?thesis
  proof (cases "int (be_nat v0) < h_Number header")
    case True
    then show ?thesis using read [of "BytesToHash [1]" "BytesToHash [2]"] g0(1) b that by (auto simp: reward_addresses_def c_def [symmetric] Let_def)
  next
    case False
    then show ?thesis using read [of "BytesToHash [3]" "BytesToHash [4]"] g0(1) b that by (auto simp: reward_addresses_def c_def [symmetric] Let_def)
  qed
qed

text \<open>After the uncles, the block itself is paid; the order of its three payments does not matter.\<close>

lemma AccumulateNewRewards_pays:
  assumes tx: "tx s" and A: "{a. length a = 20} \<subseteq> A" and c: "\<forall>u\<in>set (header # uncles). h_Coinbase u \<in> A"
  obtains vet fol s' where "AccumulateNewRewards K db s header uncles genesis = Some s'" "vet \<in> A" "fol \<in> A"
    "fst (the (reward_addresses K db header genesis s)) = vet" "fst (snd (the (reward_addresses K db header genesis s))) = fol"
    "pays (\<lambda>b. \<Sum>e\<leftarrow>earnings (h_Number header) (h_Coinbase header) uncles (block_reward (h_Number header)). credit (h_Number header) vet fol e b) s s'"
proof -
  let ?n = "h_Number header" let ?R = "block_reward ?n"
  obtain vet fol s1 where a: "reward_addresses K db header genesis s = Some (vet, fol, s1)" "looks K db A s s1" "vet \<in> A" "fol \<in> A"
    by (rule reward_addresses_read [OF tx A])
  have tx1: "tx s1" by (rule looks_tx [OF tx a(2)])
  have p1: "pays (\<lambda>b. 0) s s1" using same_view_bal [OF tx tx1] a(2) tx1 by (simp add: pays_def same_bal_def looks_def)
  note conclude = that
  have finish: thesis if e: "AccumulateNewRewards K db s header uncles genesis = Some (final reward' s2)" "pay_uncles pay ?n uncles ?R s1 = (reward', s2)"
    and P: "\<And>m r s. tx s \<Longrightarrow> m \<in> A \<Longrightarrow> pays (credit ?n vet fol (m, r)) s (pay m r s)"
    and F: "\<And>r s. tx s \<Longrightarrow> pays (credit ?n vet fol (h_Coinbase header, r)) s (final r s)" for pay final reward' s2
  proof -
    obtain xs where x: "earnings ?n (h_Coinbase header) uncles ?R = xs @ [(h_Coinbase header, reward')]" "pays (\<lambda>b. \<Sum>e\<leftarrow>xs. credit ?n vet fol e b) s1 s2"
      by (rule pay_uncles_pays [OF tx1 _ P, where us = uncles and reward = ?R and c = "h_Coinbase header"]) (use c e(2) in auto)
    have "tx s2" using x(2) by (simp add: pays_def)
    note p = pays_trans [OF pays_trans [OF p1 x(2)] F [OF this, of reward']]
    show thesis by (rule conclude [OF e(1) a(3,4)]) (use p x(1) a(1) in simp_all)
  qed
  have h: "h_Coinbase header \<in> A" using c by simp
  consider "2102400 < ?n" | "\<not> 2102400 < ?n" "1111111 < ?n" | "\<not> 1111111 < ?n" by blast
  then show thesis
  proof cases
    case 1
    let ?f = "\<lambda>r s. AddBalance K db (h_Coinbase header) (r * 75 div 100) (AddBalance K db fol (r * 15 div 100) (AddBalance K db vet (r * 10 div 100) s))"
    obtain reward' s2 where u: "sativa_uncles K db ?n vet fol uncles ?R s1 = (reward', s2)" by fastforce
    have "AccumulateNewRewards K db s header uncles genesis = Some (?f reward' s2)" using 1 a(1) u by (simp add: AccumulateNewRewards_def Let_def)
    then show thesis
      by (rule finish [OF _ u [unfolded era_loops]]) (use 1 a h in \<open>auto intro!: pays_cong [OF pays_three(1)] simp: credit_def shares_def\<close>)
  next
    case 2
    let ?f = "\<lambda>r s. AddBalance K db (h_Coinbase header) (r * 80 div 100) (AddBalance K db fol (r * 20 div 100 div 2) (AddBalance K db vet (r * 20 div 100 div 2) s))"
    obtain reward' s2 where u: "indica_uncles K db ?n vet fol uncles ?R s1 = (reward', s2)" by fastforce
    have "AccumulateNewRewards K db s header uncles genesis = Some (?f reward' s2)" using 2 a(1) u by (simp add: AccumulateNewRewards_def Let_def)
    then show thesis
      by (rule finish [OF _ u [unfolded era_loops]]) (use 2 a h in \<open>auto intro!: pays_cong [OF pays_three(1)] simp: credit_def shares_def\<close>)
  next
    case 3
    let ?f = "\<lambda>r s. AddBalance K db (h_Coinbase header) (r * 87 div 100) (AddBalance K db vet (r * 13 div 100) s)"
    obtain reward' s2 where u: "ruderalis_uncles K db ?n vet uncles ?R s1 = (reward', s2)" by fastforce
    have "AccumulateNewRewards K db s header uncles genesis = Some (?f reward' s2)" using 3 a(1) u by (simp add: AccumulateNewRewards_def Let_def)
    then show thesis
      by (rule finish [OF _ u [unfolded era_loops]]) (use 3 a h in \<open>auto intro!: pays_cong [OF pays_three(2)] simp: credit_def shares_def\<close>)
  qed
qed

lemma pays_total:
  assumes "pays (\<lambda>b. \<Sum>e\<leftarrow>xs. credit n vet fol e b) s s'" "finite A" "vet \<in> A" "fol \<in> A" "\<forall>e\<in>set xs. fst e \<in> A"
  shows "total K db A s + (\<Sum>e\<leftarrow>xs. snd e) - 3 * int (length xs) \<le> total K db A s'" "total K db A s' \<le> total K db A s + (\<Sum>e\<leftarrow>xs. snd e)"
proof -
  have one: "snd e - 3 \<le> (\<Sum>b\<in>A. credit n vet fol e b)" "(\<Sum>b\<in>A. credit n vet fol e b) \<le> snd e" if "fst e \<in> A" for e
  proof -
    obtain m v f where h: "shares n (snd e) = (m, v, f)" by (metis prod_cases3)
    then have "(\<Sum>b\<in>A. credit n vet fol e b) = m + v + f" using assms(2-4) that by (simp add: credit_def sum.distrib)
    then show "snd e - 3 \<le> (\<Sum>b\<in>A. credit n vet fol e b)" "(\<Sum>b\<in>A. credit n vet fol e b) \<le> snd e" using shares_sum [OF h] by simp_all
  qed
  have all: "(\<Sum>e\<leftarrow>xs. snd e) - 3 * int (length xs) \<le> (\<Sum>b\<in>A. \<Sum>e\<leftarrow>xs. credit n vet fol e b) \<and>
    (\<Sum>b\<in>A. \<Sum>e\<leftarrow>xs. credit n vet fol e b) \<le> (\<Sum>e\<leftarrow>xs. snd e)" using assms(5)
  proof (induction xs)
    case (Cons e xs)
    then show ?case using one [of e] by (simp add: sum.distrib)
  qed simp
  have t: "total K db A s' = total K db A s + (\<Sum>b\<in>A. \<Sum>e\<leftarrow>xs. credit n vet fol e b)"
    using assms(1) by (simp add: pays_def total_def sum.distrib)
  show "total K db A s + (\<Sum>e\<leftarrow>xs. snd e) - 3 * int (length xs) \<le> total K db A s'" "total K db A s' \<le> total K db A s + (\<Sum>e\<leftarrow>xs. snd e)"
    unfolding t using all by linarith+
qed

end

lemma earnings_addresses:
  assumes "length coinbase = 20" "\<forall>u\<in>set us. length (h_Coinbase u) = 20"
  shows "\<forall>e\<in>set (earnings n coinbase us r). fst e \<in> addresses" "length (earnings n coinbase us r) = length us + 1"
  using assms by (induction us arbitrary: r) auto



definition ex_reward_header :: "int \<Rightarrow> Header" where
  "ex_reward_header n = \<lparr>h_ParentHash = replicate 32 0, h_UncleHash = replicate 32 0, h_Coinbase = ex_addr, h_Root = replicate 32 0,
    h_TxHash = replicate 32 0, h_ReceiptHash = replicate 32 0, h_Bloom = replicate 256 0, h_Difficulty = 1000000, h_Number = n,
    h_SmokeLimit = 8000000, h_SmokeUsed = 0, h_Time = 1000, h_Extra = [], h_MixDigest = replicate 32 0, h_Nonce = replicate 8 0\<rparr>"

lemma ex_funds: "reward_addresses BytesToHash ex_db (ex_reward_header n) (ex_reward_header 0) ex_state = Some (replicate 20 0, replicate 20 0, ex_state)"
  by (simp add: reward_addresses_def GetState_def getStateObject_def getDeletedStateObject_def zero_hash_def BytesToAddress_def Let_def)

lemma ex_addr_nonzero: "ex_addr \<noteq> replicate 20 0"
  by (simp add: ex_addr_def numeral_eq_Suc)



end
