(* ===== verification/State_Boundary.thy ===== *)
theory State_Boundary
  imports Evm_Contract State_Invariants
begin

section \<open>Between two transactions\<close>

text \<open>
  What \<open>Finalise\<close> of \<open>src/core/state/statedb.go\<close> leaves for the next transaction. Within a transaction
  the journal names every account whose storage differs from the committed one, also after reverts,
  and an empty journal means an empty refund counter. \<open>Finalise\<close> goes over the accounts that the journal
  names, so after it no slot is changed, no refund is left and no coins were made: the state is
  again one in which a message can be applied.
\<close>

subsection \<open>Changed accounts are journaled\<close>

definition changed :: "state_view \<Rightarrow> address set" where
  "changed v = {a. \<exists>ob. v_live v a = Some ob \<and> ov_state ob \<noteq> ov_committed ob}"

definition journaled :: "'tr journalEntry list \<Rightarrow> address set" where
  "journaled es = {a. dirty_count es a \<noteq> 0}"

definition covered :: "state_view \<Rightarrow> 'tr journalEntry list \<Rightarrow> bool" where
  "covered v es \<longleftrightarrow> changed v \<subseteq> journaled es \<and> (es = [] \<longrightarrow> v_refund v = 0)"

text \<open>Now, and at every snapshot that is still valid.\<close>

definition tracked :: "(bytes \<Rightarrow> hash) \<Rightarrow> 'tr database \<Rightarrow> address set \<Rightarrow> (nat \<Rightarrow> 'tr checkpoint) \<Rightarrow> 'tr StateDB \<Rightarrow> bool" where
  "tracked K db A H s \<longleftrightarrow> covered (view K db A s) (entries_of s) \<and>
    (\<forall>r\<in>set (sd_validRevisions s). case H (rev_id r) of (v, es, _) \<Rightarrow> covered v es)"

lemma journaled_append [simp]: "journaled (es @ es') = journaled es \<union> journaled es'"
  by (auto simp: journaled_def)

lemma puts_changed:
  assumes "puts a v v' ob" "keeps_store (v_live v a) ob"
  shows "changed v' \<subseteq> changed v"
  using assms by (auto simp: puts_def keeps_store_def fresh_def changed_def split: if_splits)

lemma puts_changed_other: "puts a v v' ob \<Longrightarrow> changed v' \<subseteq> insert a (changed v)"
  by (auto simp: puts_def changed_def split: if_splits)

lemma changed_objects: "v_objects v' = v_objects v \<Longrightarrow> changed v' = changed v"
  by (simp add: changed_def v_live_def)

lemma changed_upd [simp]:
  "changed (v\<lparr>v_refund := r\<rparr>) = changed v" "changed (v\<lparr>v_logs := l\<rparr>) = changed v" "changed (v\<lparr>v_logSize := n\<rparr>) = changed v"
  "changed (v\<lparr>v_preimages := p\<rparr>) = changed v" "changed (v\<lparr>v_accessList := al\<rparr>) = changed v"
  by (rule changed_objects; simp)+

context state_store begin

lemma SetState_changed:
  assumes ok: "ok s" and a: "a \<in> A" and e: "SetState K db a key val s = Some s'" "entries_of s' = entries_of s @ es"
  shows "changed (vw s') \<subseteq> changed (vw s) \<union> journaled es"
proof -
  obtain obj s1 where g: "GetOrNewStateObject K db a s = (obj, s1)" "ok s1" "obj_ok K good a obj" "\<not> so_deleted obj"
    "puts a (vw s) (vw s1) (oview (sd_ctx K db s1) obj)" "keeps_store (v_live (vw s) a) (oview (sd_ctx K db s1) obj)"
    by (rule GetOrNew_puts [OF ok a]) (rule that)
  have "undo s s1" by (rule GetOrNewStateObject_undo [OF ok a]) (use g(1) in simp)
  then obtain es1 where es1: "entries_of s1 = entries_of s @ es1" by (auto simp: undoable_def)
  let ?ctx = "sd_ctx K db s1"
  have gd: "pred_option good (so_trie obj)" "so_fakeStorage obj = None" using g(3) by (simp_all add: obj_ok_def)
  obtain prev obj1 where gs: "so_GetState ?ctx obj key = Some (prev, obj1)" and rc: "recached ?ctx good obj obj1"
    using so_GetState_value [OF gd, of ?ctx key] by auto
  note r1 = recached_oview [OF g(3) _ _ rc, simplified]
  have d1: "\<not> so_deleted obj1" "so_address obj1 = a" using rc g(4) r1(1) by (auto simp: recached_def obj_ok_def)
  show ?thesis
  proof (cases "prev = val")
    case True
    then have "s' = setStateObject obj1 s1" using e(1) g(1) gd(2) gs by (simp add: SetState_def so_SetState_def)
    then have "puts a (vw s) (vw s') (oview ?ctx obj)" using put_live [OF g(2) a r1(1) d1(1)] r1(2) g(5) by (simp add: puts_def)
    from puts_changed [OF this g(6)] show ?thesis by blast
  next
    case False
    then have s2: "s' = setStateObject (so_setState key val obj1) (journal_append (storageChange a key prev) s1)"
      using e(1) g(1) gd(2) gs d1(2) by (simp add: SetState_def so_SetState_def)
    have d: "\<not> so_deleted (so_setState key val obj1)" using d1(1) by (simp add: so_setState_def)
    have "puts a (vw s) (vw s') (oview ?ctx (so_setState key val obj1))"
      unfolding s2 using put_puts [OF g(5,2) a obj_updates(3) [OF r1(1), of ?ctx key val, simplified] d, of "storageChange a key prev"] a by simp
    moreover have "es = es1 @ [storageChange a key prev]" using e(2) es1 by (simp add: s2)
    ultimately show ?thesis using puts_changed_other by (fastforce simp: journaled_def)
  qed
qed

lemma exec_changed:
  assumes tx: "tx s" and x: "x \<noteq> OpSnapshot" "\<And>i. x \<noteq> OpRevert i" and a: "pred_option (\<lambda>a. a \<in> A) (op_addr x)"
    and e: "exec K db x s = Some s'" "entries_of s' = entries_of s @ es"
  shows "changed (vw s') \<subseteq> changed (vw s) \<union> journaled es"
proof -
  have ok: "ok s" using tx by (simp add: tx_state_def)
  have p: "changed (vw s') \<subseteq> changed (vw s) \<union> journaled es"
    if "\<exists>ob. puts b (vw s) (vw s') ob \<and> keeps_store (v_live (vw s) b) ob" for b
    using that puts_changed by blast
  have v: "changed (vw s') \<subseteq> changed (vw s) \<union> journaled es" if "v_objects (vw s') = v_objects (vw s)"
    using changed_objects [OF that] by simp
  have r: "changed (vw s') \<subseteq> changed (vw s) \<union> journaled es" if "vw s' = vw s" using v that by simp
  show ?thesis
  proof (cases x)
    case (OpCreateAccount b)
    then show ?thesis using CreateAccount_puts [OF ok, of b] a e(1) p by simp
  next
    case (OpAddBalance b n)
    then show ?thesis using setters_puts(1) [OF ok, of b n] a e(1) p by simp
  next
    case (OpSubBalance b n)
    then show ?thesis using setters_puts(2) [OF ok, of b n] a e(1) p by simp
  next
    case (OpSetBalance b n)
    then show ?thesis using setters_puts(4) [OF ok, of b n] a e(1) p by simp
  next
    case (OpSetNonce b n)
    then show ?thesis using setters_puts(3) [OF ok, of b n] a e(1) p by simp
  next
    case (OpSetCode b c)
    then obtain ob ob0 where o: "puts b (vw s) (vw s') ob" "keeps_store (v_live (vw s) b) ob0"
      "ov_state ob = ov_state ob0" "ov_committed ob = ov_committed ob0"
      using SetCode_puts [OF ok, of b c] a e(1) by auto
    then have "changed (vw s') \<subseteq> changed (vw s)"
      by (auto simp: puts_def keeps_store_def fresh_def changed_def split: if_splits)
    then show ?thesis by blast
  next
    case (OpSetState b k w)
    then show ?thesis using SetState_changed [OF ok _ _ e(2), of b k w] a e(1) by simp
  next
    case (OpSuicide b)
    then show ?thesis using Suicide_puts [OF ok, of b] a e(1) p r by auto
  next
    case (OpGetBalance b)
    then show ?thesis using looks_reads(1) [OF tx, of b] a e(1) r by (simp add: looks_def)
  next
    case (OpGetCode b)
    then show ?thesis using looks_code(1) [OF tx, of b] a e(1) r by (simp add: looks_def)
  next
    case (OpGetCodeSize b)
    then show ?thesis using looks_code(2) [OF tx, of b] a e(1) r by (simp add: looks_def)
  next
    case (OpGetState b k)
    then show ?thesis using reads_undo(2) [OF ok, of b k] a e(1) r by auto
  next
    case (OpGetCommittedState b k)
    then show ?thesis using reads_undo(3) [OF ok, of b k] a e(1) r by auto
  qed (use e(1) x in \<open>auto simp: AddLog_def AddPreimage_def AddRefund_def SubRefund_def AddAddressToAccessList_def AddSlotToAccessList_def
      Let_def split: if_splits prod.splits option.splits\<close>)
qed

lemma exec_tracked:
  assumes ok: "ok s" and al: "al_ok (sd_accessList s)" and h: "hist K db A H s" and t: "tracked K db A H s"
    and a: "pred_option (\<lambda>a. a \<in> A) (op_addr x)" and e: "exec K db x s = Some s'"
  shows "\<exists>H'. ok s' \<and> al_ok (sd_accessList s') \<and> hist K db A H' s' \<and> tracked K db A H' s'"
proof -
  have tx: "tx s" using ok al h by (auto simp: tx_state_def)
  consider (snap) "x = OpSnapshot" | (rev) i where "x = OpRevert i" | (other) "x \<noteq> OpSnapshot" "\<And>i. x \<noteq> OpRevert i" by blast
  then show ?thesis
  proof cases
    case snap
    let ?H = "H(sd_nextRevisionId s := (vw s, entries_of s, sd_validRevisions s))"
    have s': "s' = snd (Snapshot s)" using snap e by simp
    have "sd_nextRevisionId s \<noteq> rev_id r" if "r \<in> set (sd_validRevisions s)" for r using h that by (auto simp: hist_def)
    then have "tracked K db A ?H s'" using t unfolding s' by (auto simp: tracked_def Snapshot_def entries_of_def)
    moreover have "ok s'" "al_ok (sd_accessList s')" using ok al by (simp_all add: s' Snapshot_def)
    ultimately show ?thesis using hist_Snapshot [OF h al] unfolding s' by blast
  next
    case rev
    then have r: "RevertToSnapshot K db i s = Some s'" using e by simp
    then have "i \<in> rev_id ` set (sd_validRevisions s)" using find_no_revision [of i s K db] by force
    then obtain n where n: "n < length (sd_validRevisions s)" "i = rev_id (sd_validRevisions s ! n)" by (auto simp: in_set_conv_nth)
    obtain s1 v where s1: "RevertToSnapshot K db i s = Some s1" "H i = (v, entries_of s1, sd_validRevisions s1)" "vw s1 = v" "ok s1"
      "al_ok (sd_accessList s1)" "hist K db A H s1"
      using RevertToSnapshot_hist [OF ok h n(1)] n(2) by metis
    have "sd_validRevisions s1 = take n (sd_validRevisions s)" using histD [OF h n(1)] s1(2) n(2) by (metis prod.inject)
    moreover have "covered w es" if "r \<in> set (sd_validRevisions s)" "H (rev_id r) = (w, es, rs)" for r w es rs
      using t that by (force simp: tracked_def)
    ultimately have "tracked K db A H s1"
      using s1(2,3) n(2) nth_mem [OF n(1)] unfolding tracked_def by (auto dest: in_set_takeD)
    then show ?thesis using r s1 by auto
  next
    case other
    note u = exec_undo [OF ok al other a e]
    then obtain es where es: "entries_of s' = entries_of s @ es" "revert_views K db (rev es) (vw s') = Some (vw s)"
      "sd_validRevisions s' = sd_validRevisions s" by (auto simp: undoable_def same_revs_def)
    have "sd_refund s' = sd_refund s" if "es = []" using es(2) that view_sel(5) [of K db A] by (metis option.inject rev.simps(1) revert_views.simps(1))
    then have "covered (vw s') (entries_of s')"
      using exec_changed [OF tx other a e es(1)] es(1) t by (auto simp: covered_def tracked_def)
    then have "tracked K db A H s'" using t es(3) by (simp add: tracked_def)
    then show ?thesis using u hist_undoable [OF h, of s'] by auto
  qed
qed

lemma exec_all_tracked:
  assumes "ok s" "al_ok (sd_accessList s)" "hist K db A H s" "tracked K db A H s" "objects_ok s" "dirties_ok (sd_journal s)"
    "\<forall>x\<in>set xs. pred_option (\<lambda>a. a \<in> A) (op_addr x)" "exec_all K db xs s = Some s'"
  shows "covered (vw s') (entries_of s') \<and> objects_ok s' \<and> dirties_ok (sd_journal s')"
  using assms
proof (induction xs arbitrary: s H)
  case Nil
  then show ?case by (simp add: tracked_def)
next
  case (Cons x xs)
  obtain s1 where s1: "exec K db x s = Some s1" "exec_all K db xs s1 = Some s'"
    using Cons.prems(8) by (auto split: option.splits)
  obtain H1 where H1: "ok s1" "al_ok (sd_accessList s1)" "hist K db A H1 s1" "tracked K db A H1 s1"
    using exec_tracked [OF Cons.prems(1-4) _ s1(1)] Cons.prems(7) by auto
  have "objects_ok s1" "dirties_ok (sd_journal s1)"
    using block_step_inv [OF block_step.operation [OF s1(1)] Cons.prems(5,6)] by simp_all
  then show ?case using Cons.IH [OF H1 _ _ _ s1(2)] Cons.prems(7) by auto
qed

end

subsection \<open>The state between transactions\<close>

definition between :: "(bytes \<Rightarrow> hash) \<Rightarrow> 'tr database \<Rightarrow> ('tr \<Rightarrow> bool) \<Rightarrow> address set \<Rightarrow> 'tr StateDB \<Rightarrow> bool" where
  "between K db good A s \<longleftrightarrow> tx_state K db good A s \<and> short_codes (view K db A s) \<and> changed (view K db A s) = {} \<and>
    sd_refund s = 0 \<and> entries_of s = [] \<and> sd_validRevisions s = [] \<and> objects_ok s \<and> dirties_ok (sd_journal s)"

lemma cleared_changed: "(a, k) \<in> cleared v \<Longrightarrow> a \<in> changed v"
  by (auto simp: cleared_def changed_def)

lemma between_sound:
  assumes "between K db good A s"
  shows "sound K db good A s"
proof -
  have "cleared (view K db A s) = {}" using assms cleared_changed by (fastforce simp: between_def)
  then show ?thesis using assms by (simp add: between_def sound_def refund_covers_def)
qed

context state_store begin

lemma steps_covered:
  assumes "between K db good A s" "steps K db A s s'"
  shows "covered (vw s') (entries_of s')" "objects_ok s'" "dirties_ok (sd_journal s')"
proof -
  obtain xs where xs: "\<forall>x\<in>set xs. pred_option (\<lambda>a. a \<in> A) (op_addr x)" "exec_all K db xs s = Some s'"
    using assms(2) by (auto simp: steps_def)
  obtain H where H: "ok s" "al_ok (sd_accessList s)" "hist K db A H s" "objects_ok s" "dirties_ok (sd_journal s)"
    using assms(1) by (auto simp: between_def tx_state_def)
  have "tracked K db A H s" using assms(1) by (simp add: between_def tracked_def covered_def)
  from exec_all_tracked [OF H(1-3) this H(4,5) xs] show "covered (vw s') (entries_of s')" "objects_ok s'" "dirties_ok (sd_journal s')"
    by simp_all
qed

subsection \<open>Finalise\<close>

text \<open>What becomes of an account: it is gone, or it keeps its balance and its code.\<close>

definition closes :: "object_view option \<Rightarrow> object_view option \<Rightarrow> bool" where
  "closes old new \<longleftrightarrow> new = None \<or>
    (\<exists>ob ob'. old = Some ob \<and> new = Some ob' \<and> ov_balance ob' = ov_balance ob \<and> ov_code ob' = ov_code ob)"

lemma closes_refl [simp]: "closes x x"
  by (cases x) (auto simp: closes_def)

lemma closes_trans: "closes x y \<Longrightarrow> closes y z \<Longrightarrow> closes x z"
  by (auto simp: closes_def)

lemma so_finalise_view:
  assumes "obj_ok K good a obj" "ctx_db ctx = db" "ctx_keccak ctx = K"
  shows "obj_ok K good a (so_finalise obj)" "oview ctx (so_finalise obj) = (oview ctx obj)\<lparr>ov_committed := ov_state (oview ctx obj)\<rparr>"
proof -
  show ok: "obj_ok K good a (so_finalise obj)" using assms(1) by (simp add: obj_ok_def so_finalise_def)
  have u: "uncached_value ctx (so_finalise obj) key = uncached_value ctx obj key" for key
    by (rule uncached_value_cong) (simp_all add: so_finalise_def obj_read_def getTrie_def Let_def split: option.splits prod.splits sum.splits)
  show "oview ctx (so_finalise obj) = (oview ctx obj)\<lparr>ov_committed := ov_state (oview ctx obj)\<rparr>"
    unfolding oview_eq [OF ok assms(2,3)] oview_eq [OF assms] committed_value_def u
    by (auto simp: so_finalise_def map_add_def fun_eq_iff split: option.splits)
qed

lemma finalise_step_kept:
  "sd_journal (finalise_step K del a s) = sd_journal s" "sd_refund (finalise_step K del a s) = sd_refund s"
  "sd_accessList (finalise_step K del a s) = sd_accessList s" "sd_logs (finalise_step K del a s) = sd_logs s"
  by (auto simp: finalise_step_def Let_def split: option.splits)

lemma unloaded_clean:
  assumes "ok s" "sd_stateObjects s a = None"
  shows "a \<notin> changed (vw s)"
proof
  assume "a \<in> changed (vw s)"
  then obtain ob where ob: "v_live (vw s) a = Some ob" "ov_state ob \<noteq> ov_committed ob" by (auto simp: changed_def)
  then have a: "a \<in> A" by (auto simp: v_live_def split: if_splits)
  then obtain d where d: "base_data K db s a = Some d" "ob = oview (sd_ctx K db s) (newObject K a d)"
    using ob(1) assms(2) by (auto simp: v_live_def lookup_obj_def split: if_splits option.splits)
  show False using ob(2) unfolding d(2) oview_eq [OF newObject_ok [OF sd_okD(3) [OF assms(1) a d(1)]] sd_ctx_sel(1,2)]
    by (simp add: newObject_def)
qed

lemma finalise_step_closes:
  assumes ok: "ok s"
  shows "ok (finalise_step K del a s)" "changed (vw (finalise_step K del a s)) \<subseteq> changed (vw s) - {a}"
    "closes (v_live (vw s) b) (v_live (vw (finalise_step K del a s)) b)"
proof -
  have "ok (finalise_step K del a s) \<and> changed (vw (finalise_step K del a s)) \<subseteq> changed (vw s) - {a} \<and>
    (\<forall>b. closes (v_live (vw s) b) (v_live (vw (finalise_step K del a s)) b))"
  proof (cases "sd_stateObjects s a")
    case None
    then show ?thesis using ok unloaded_clean [OF ok None] by (simp add: finalise_step_def)
  next
    case (Some obj)
    have o: "a \<in> A" "obj_ok K good a obj" using sd_okD(2) [OF ok Some] by simp_all
    let ?dies = "so_suicided obj \<or> del \<and> so_empty K obj"
    define obj' where "obj' = (if ?dies then obj\<lparr>so_deleted := True\<rparr> else so_finalise obj)"
    define D where "D = (if ?dies \<and> sd_snap s \<noteq> None then insert (K a) (sd_snapDestructs s) else sd_snapDestructs s)"
    have D: "D - {K a} = sd_snapDestructs s - {K a}" by (auto simp: D_def)
    have o': "obj_ok K good a obj'" "so_address obj' = a" "so_addrHash obj = K a"
      using o(2) by (auto simp: obj'_def obj_ok_def so_finalise_def)
    let ?t = "setStateObject obj' (s\<lparr>sd_snapDestructs := D\<rparr>)"
    let ?f = "finalise_step K del a s"
    have f: "sd_stateObjects ?f = sd_stateObjects ?t" "sd_snapDestructs ?f = sd_snapDestructs ?t" "sd_snap ?f = sd_snap ?t" "sd_trie ?f = sd_trie ?t"
      "sd_journal ?f = sd_journal ?t" "sd_logs ?f = sd_logs ?t"
      using Some o'(2,3) by (auto simp: finalise_step_def setStateObject_def Let_def obj'_def D_def)
    have v: "v_live (vw ?f) b = v_live (vw ?t) b" for b
      unfolding v_live_def view_sel lookup_obj_def base_data_def sd_ctx_def f ..
    have "ok ?t" using ok by (intro put_props(1) [OF _ o'(1) o(1)]) simp
    then have okf: "ok ?f" unfolding sd_ok_def base_data_def f .
    note vt = view_destructs [OF ok o'(1) o(1) D]
    have other: "v_live (vw ?f) b = v_live (vw s) b" if "b \<noteq> a" for b
      unfolding v vt using that by (simp add: v_live_def v_put_def)
    have at: "closes (v_live (vw s) a) (v_live (vw ?f) a) \<and> a \<notin> changed (vw ?f)"
    proof (cases "?dies \<or> so_deleted obj")
      case True
      then have "so_deleted obj'" by (auto simp: obj'_def so_finalise_def)
      then have "v_live (vw ?f) a = None" unfolding v vt by (simp add: v_live_def v_put_def oview_def)
      then show ?thesis by (simp add: closes_def changed_def)
    next
      case False
      then have e: "obj' = so_finalise obj" "D = sd_snapDestructs s" by (auto simp: obj'_def D_def)
      have nd: "\<not> ov_deleted (oview (sd_ctx K db s) obj)" using False by (simp add: oview_def)
      have "(vw s)\<lparr>v_destructs := D\<rparr> = vw s" unfolding e(2) by (intro state_view.equality) simp_all
      then have "v_live (vw ?f) a = Some ((oview (sd_ctx K db s) obj)\<lparr>ov_committed := ov_state (oview (sd_ctx K db s) obj)\<rparr>)"
        using nd so_finalise_view(2) [OF o(2), of "sd_ctx K db s"] unfolding v vt unfolding e(1) by (simp add: v_live_def v_put_def)
      moreover have "v_live (vw s) a = Some (oview (sd_ctx K db s) obj)"
        using nd o(1) Some by (simp add: v_live_def lookup_obj_def)
      ultimately show ?thesis by (simp add: closes_def changed_def)
    qed
    have "b \<in> changed (vw s)" if "b \<in> changed (vw ?f)" "b \<noteq> a" for b
      using that(1) other [OF that(2)] unfolding changed_def by simp
    then have "changed (vw ?f) \<subseteq> changed (vw s) - {a}" using at by blast
    moreover have "closes (v_live (vw s) b) (v_live (vw ?f) b)" for b using at other [of b] by (cases "b = a") simp_all
    ultimately show ?thesis using okf by (intro conjI allI)
  qed
  then show "ok (finalise_step K del a s)" "changed (vw (finalise_step K del a s)) \<subseteq> changed (vw s) - {a}"
    "closes (v_live (vw s) b) (v_live (vw (finalise_step K del a s)) b)"
    by blast+
qed

lemma finalise_steps:
  assumes "ok s"
  shows "ok (fold (finalise_step K del) order s) \<and> changed (vw (fold (finalise_step K del) order s)) \<subseteq> changed (vw s) - set order \<and>
    (\<forall>b. closes (v_live (vw s) b) (v_live (vw (fold (finalise_step K del) order s)) b)) \<and>
    sd_journal (fold (finalise_step K del) order s) = sd_journal s \<and> sd_refund (fold (finalise_step K del) order s) = sd_refund s \<and>
    sd_accessList (fold (finalise_step K del) order s) = sd_accessList s"
  using assms
proof (induction order arbitrary: s)
  case (Cons a order)
  note f = finalise_step_closes [OF Cons.prems, where del = del and a = a]
  show ?case using Cons.IH [OF f(1)] f(2) closes_trans [OF f(3)] by (auto simp: finalise_step_kept)
qed simp

lemma Finalise_between:
  assumes tx: "tx s" and c: "short_codes (vw s)" "covered (vw s) (entries_of s)" and inv: "objects_ok s" "dirties_ok (sd_journal s)"
    and order: "set order = dom (j_dirties (sd_journal s))"
  shows "between K db good A (Finalise K del order s)" "no_mint K db A s (Finalise K del order s)"
proof -
  let ?t = "fold (finalise_step K del) order s" and ?f = "Finalise K del order s"
  have ok: "ok s" using tx by (simp add: tx_state_def)
  note t = finalise_steps [OF ok, of del order]
  have f: "vw ?f = (vw ?t)\<lparr>v_refund := sd_refund ?f\<rparr>" "sd_validRevisions ?f = []" "sd_accessList ?f = sd_accessList ?t"
    by (auto simp: Finalise_def clearJournalAndRefund_def Let_def)
  have e: "entries_of ?f = []" "sd_refund ?f = 0"
    using t c(2) by (auto simp: Finalise_def clearJournalAndRefund_def Let_def entries_of_def newJournal_def covered_def)
  have okf: "ok ?f"
    using t by (auto simp: Finalise_def clearJournalAndRefund_def Let_def newJournal_def sd_ok_def)
  have "journaled (entries_of s) \<subseteq> set order"
    using inv(2) unfolding order journaled_def dirties_ok_def by (auto simp: counter_def entries_of_def)
  then have ch: "changed (vw ?f) = {}" using t c(2) unfolding f(1) by (auto simp: covered_def)
  have cl: "closes (v_live (vw s) b) (v_live (vw ?f) b)" for b using t unfolding f(1) by (simp add: v_live_def)
  have sc: "short_codes (vw ?f)" using c(1) cl unfolding short_codes_def closes_def by (metis option.distinct(1) option.inject)
  have "tx ?f" using okf tx t f(2,3) hist_empty [OF f(2)] by (auto simp: tx_state_def)
  then show "between K db good A ?f" using ch sc e f(2) Finalise_inv [OF inv, of K del order] by (simp add: between_def)
  have b: "bal K db ?f b = 0 \<or> bal K db ?f b = bal K db s b" if "b \<in> A" for b
    using cl [of b] unfolding bal_view [OF okf that] bal_view [OF ok that] by (auto simp: closes_def split: option.splits)
  show "no_mint K db A s ?f" unfolding no_mint_def
  proof (intro impI conjI)
    assume nn: "\<forall>a\<in>A. 0 \<le> bal K db s a"
    show "\<forall>a\<in>A. 0 \<le> bal K db ?f a" using nn b by (metis order_refl)
    show "total K db A ?f \<le> total K db A s" unfolding total_def by (intro sum_mono) (use nn b in \<open>metis order_refl\<close>)
  qed
qed

end

end
