(* ===== verification/Core_Processor.thy ===== *)
theory Core_Processor
  imports Misc_DAO Ethash_Rewards State_Boundary
begin

section \<open>Processing a block\<close>

text \<open>
  \<open>src/core/state_processor.go\<close>: the transactions of a block are turned into messages, applied one
  after the other and recorded in receipts, and the consensus engine finalises the block. The machine for a
  block is that of \<open>NewEVMBlockContext\<close> and \<open>NewEVM\<close>. Senders, which are recovered from signatures, are an
  argument, and so are the iteration orders of Go maps. With the modelled interpreter every
  list of transactions is processed to its end, the smoke of the receipts adds up to what the
  pool of the block has lost, and no coins are made before the rewards.
\<close>

subsection \<open>Model\<close>

text \<open>
  \<open>env\<close> is the configuration of the machine: its flags and the native contracts. A panic is \<open>None\<close>. Without an explicit
  author it is the coinbase of the block, as \<open>Author\<close> of the engine has it. The context of a transaction is set by \<open>Reset\<close>.
\<close>

definition NewEVM :: "EVM \<Rightarrow> ChainConfig \<Rightarrow> (uint64 \<Rightarrow> hash) \<Rightarrow> Header \<Rightarrow> address option \<Rightarrow> EVM option" where
  "NewEVM env config GetHash header author =
    (if IsEWASM config (Some (h_Number header)) then None
     else Some (env\<lparr>evm_GetHash := GetHash, evm_Coinbase := (case author of None \<Rightarrow> h_Coinbase header | Some a \<Rightarrow> a), evm_SmokeLimit := h_SmokeLimit header,
       evm_BlockNumber := h_Number header, evm_Time := uint (h_Time header), evm_Difficulty := h_Difficulty header,
       evm_ChainID := cfg_ChainID config, evm_chainRules := config_Rules config (Some (h_Number header)),
       evm_depth := 0, evm_readOnly := False\<rparr>))"

text \<open>The sender of a transaction comes from its signature.\<close>

definition AsMessage :: "(Transaction \<Rightarrow> address option) \<Rightarrow> Transaction \<Rightarrow> Message option" where
  "AsMessage Sender tx =
    (case Sender tx of
       None \<Rightarrow> None
     | Some from_addr \<Rightarrow>
         Some \<lparr>msg_From = from_addr, msg_To = tx_Recipient tx, msg_SmokePrice = tx_Price tx, msg_Smoke = tx_SmokeLimit tx,
           msg_Value = tx_Amount tx, msg_Nonce = tx_AccountNonce tx, msg_CheckNonce = True, msg_Data = tx_Payload tx\<rparr>)"

text \<open>
  The lists of the addresses of native contracts, as \<open>init\<close> builds them from the keys of the four maps in the order in which Go
  visits them. The second loop appends to a copy of the still empty list and stores the result in the list of the Homestead rules.
\<close>

record PrecompiledAddresses =
  pa_YoloV2 :: "address list"
  pa_Istanbul :: "address list"
  pa_Byzantium :: "address list"
  pa_Homestead :: "address list"

definition contracts_init :: "address list \<Rightarrow> address list \<Rightarrow> address list \<Rightarrow> address list \<Rightarrow> PrecompiledAddresses" where
  "contracts_init homestead byzantium istanbul yolov2 =
    (let pa = \<lparr>pa_YoloV2 = [], pa_Istanbul = [], pa_Byzantium = [], pa_Homestead = []\<rparr>;
         pa = fold (\<lambda>k pa. pa\<lparr>pa_Homestead := pa_Homestead pa @ [k]\<rparr>) homestead pa;
         pa = fold (\<lambda>k pa. pa\<lparr>pa_Homestead := pa_Byzantium pa @ [k]\<rparr>) byzantium pa;
         pa = fold (\<lambda>k pa. pa\<lparr>pa_Istanbul := pa_Istanbul pa @ [k]\<rparr>) istanbul pa
     in fold (\<lambda>k pa. pa\<lparr>pa_YoloV2 := pa_YoloV2 pa @ [k]\<rparr>) yolov2 pa)"

definition ActivePrecompiles :: "PrecompiledAddresses \<Rightarrow> EVM \<Rightarrow> address list" where
  "ActivePrecompiles pa evm =
    (if r_IsYoloV2 (evm_chainRules evm) then pa_YoloV2 pa
     else if r_IsIstanbul (evm_chainRules evm) then pa_Istanbul pa
     else if r_IsByzantium (evm_chainRules evm) then pa_Byzantium pa
     else pa_Homestead pa)"

text \<open>The orders in which Go iterates over the dirty accounts, the pending accounts and their slots.\<close>

record 'tr orders =
  it_dirties :: "'tr StateDB \<Rightarrow> address list"
  it_pendings :: "'tr StateDB \<Rightarrow> address list"
  it_slots :: "'tr StateDB \<Rightarrow> address \<Rightarrow> hash list"

definition applyTransaction ::
  "(bytes \<Rightarrow> hash) \<Rightarrow> 'tr database \<Rightarrow> 'tr interpreter \<Rightarrow> ChainConfig \<Rightarrow> PrecompiledAddresses \<Rightarrow> 'tr orders \<Rightarrow> EVM \<Rightarrow> Header \<Rightarrow> Message \<Rightarrow> Transaction \<Rightarrow>
    SmokePool \<Rightarrow> uint64 \<Rightarrow> 'tr StateDB \<Rightarrow> ((core_err + Receipt) \<times> SmokePool \<times> uint64 \<times> 'tr StateDB) option" where
  "applyTransaction keccak db run config pa it evm header msg tx gp usedSmoke s =
    (let number = Some (h_Number header);
         s = (if IsYoloV2 config number
              then let s = AddAddressToAccessList (msg_From msg) s;
                       s = (case msg_To msg of None \<Rightarrow> s | Some dst \<Rightarrow> AddAddressToAccessList dst s)
                   in fold AddAddressToAccessList (ActivePrecompiles pa evm) s
              else s);
         evm = evm\<lparr>evm_Origin := msg_From msg, evm_SmokePrice := msg_SmokePrice msg\<rparr>
     in do { (result, gp, s) \<leftarrow> ApplyMessage keccak db run evm (evm_Coinbase evm) msg gp s;
             case result of
               Inl err \<Rightarrow> Some (Inl err, gp, usedSmoke, s)
             | Inr result \<Rightarrow>
                 do { (root, s) \<leftarrow> (if IsByzantium config number then Some ([], Finalise keccak True (it_dirties it s) s)
                        else IntermediateRoot keccak db (IsEIP158 config number) (it_dirties it s) (it_pendings it s) (it_slots it s) s);
                      let usedSmoke = usedSmoke + er_UsedSmoke result;
                          receipt = (NewReceipt root (er_Failed result) usedSmoke)
                            \<lparr>rc_TxHash := tx_Hash keccak tx, rc_SmokeUsed := er_UsedSmoke result\<rparr>;
                          receipt = (if msg_To msg = None
                            then receipt\<lparr>rc_ContractAddress := CreateAddress keccak (evm_Origin evm) (tx_AccountNonce tx)\<rparr> else receipt);
                          receipt = receipt\<lparr>rc_Logs := GetLogs (tx_Hash keccak tx) s\<rparr>;
                          receipt = receipt\<lparr>rc_Bloom := CreateBloom keccak [receipt], rc_BlockHash := sd_bhash s,
                            rc_BlockNumber := number, rc_TransactionIndex := word_of_int (sd_txIndex s)\<rparr>
                      in Some (Inr receipt, gp, usedSmoke, s) } })"

datatype process_err =
    ErrInvalidSender
  | ErrApply core_err
  | ErrApplyTx int core_err

text \<open>The loop over the transactions, from the number \<open>i\<close> on.\<close>

fun process_txs ::
  "(bytes \<Rightarrow> hash) \<Rightarrow> 'tr database \<Rightarrow> 'tr interpreter \<Rightarrow> ChainConfig \<Rightarrow> PrecompiledAddresses \<Rightarrow> 'tr orders \<Rightarrow> (Transaction \<Rightarrow> address option) \<Rightarrow> EVM \<Rightarrow> Header \<Rightarrow> hash \<Rightarrow>
    int \<Rightarrow> Transaction list \<Rightarrow> SmokePool \<Rightarrow> uint64 \<Rightarrow> Receipt list \<Rightarrow> Log list \<Rightarrow> 'tr StateDB \<Rightarrow>
    ((process_err + Receipt list \<times> Log list \<times> uint64) \<times> SmokePool \<times> 'tr StateDB) option" where
  "process_txs keccak db run config pa it Sender evm header bhash i [] gp usedSmoke receipts allLogs s =
    Some (Inr (receipts, allLogs, usedSmoke), gp, s)"
| "process_txs keccak db run config pa it Sender evm header bhash i (tx # txs) gp usedSmoke receipts allLogs s =
    (case AsMessage Sender tx of
       None \<Rightarrow> Some (Inl ErrInvalidSender, gp, s)
     | Some msg \<Rightarrow>
         do { let s = Prepare (tx_Hash keccak tx) bhash i s;
              (r, gp, usedSmoke, s) \<leftarrow> applyTransaction keccak db run config pa it evm header msg tx gp usedSmoke s;
              case r of
                Inl err \<Rightarrow> Some (Inl (ErrApplyTx i err), gp, s)
              | Inr receipt \<Rightarrow>
                  process_txs keccak db run config pa it Sender evm header bhash (i + 1) txs gp usedSmoke
                    (receipts @ [receipt]) (allLogs @ rc_Logs receipt) s })"

text \<open>The header that \<open>Finalize\<close> completes is a copy.\<close>

definition Process ::
  "(bytes \<Rightarrow> hash) \<Rightarrow> 'tr database \<Rightarrow> 'tr interpreter \<Rightarrow> ChainConfig \<Rightarrow> EVM \<Rightarrow> (uint64 \<Rightarrow> hash) \<Rightarrow> (uint64 \<Rightarrow> Header option) \<Rightarrow> PrecompiledAddresses \<Rightarrow> 'tr orders \<Rightarrow>
    (Transaction \<Rightarrow> address option) \<Rightarrow> Block \<Rightarrow> 'tr StateDB \<Rightarrow> ((process_err + Receipt list \<times> Log list \<times> uint64) \<times> 'tr StateDB) option" where
  "Process keccak db run config env GetHash GetHeaderByNumber pa it Sender block s =
    (let header = b_header block
     in do { gp \<leftarrow> AddSmoke (h_SmokeLimit header) 0;
             let s = (if cfg_DAOForkSupport config \<and> cfg_DAOForkBlock config = Some (h_Number header) then ApplyDAOHardFork keccak db s else s);
             evm \<leftarrow> NewEVM env config GetHash header None;
             (r, gp, s) \<leftarrow> process_txs keccak db run config pa it Sender evm header (header_Hash keccak header)
                0 (b_transactions block) gp 0 [] [] s;
             case r of
               Inl err \<Rightarrow> Some (Inl err, s)
             | Inr result \<Rightarrow>
                 do { (_, s) \<leftarrow> ethash_Finalize keccak db config GetHeaderByNumber (it_dirties it) (it_pendings it) (it_slots it)
                        header (b_uncles block) s;
                      Some (Inr result, s) } })"

text \<open>The step for a single transaction, which a miner takes.\<close>

definition ApplyTransaction ::
  "(bytes \<Rightarrow> hash) \<Rightarrow> 'tr database \<Rightarrow> 'tr interpreter \<Rightarrow> ChainConfig \<Rightarrow> EVM \<Rightarrow> (uint64 \<Rightarrow> hash) \<Rightarrow> PrecompiledAddresses \<Rightarrow> 'tr orders \<Rightarrow>
    (Transaction \<Rightarrow> address option) \<Rightarrow> address option \<Rightarrow> SmokePool \<Rightarrow> 'tr StateDB \<Rightarrow> Header \<Rightarrow> Transaction \<Rightarrow> uint64 \<Rightarrow>
    ((process_err + Receipt) \<times> SmokePool \<times> uint64 \<times> 'tr StateDB) option" where
  "ApplyTransaction keccak db run config env GetHash pa it Sender author gp s header tx usedSmoke =
    (case AsMessage Sender tx of
       None \<Rightarrow> Some (Inl ErrInvalidSender, gp, usedSmoke, s)
     | Some msg \<Rightarrow>
         do { vmenv \<leftarrow> NewEVM env config GetHash header author;
              (r, gp, usedSmoke, s) \<leftarrow> applyTransaction keccak db run config pa it vmenv header msg tx gp usedSmoke s;
              Some (case r of Inl err \<Rightarrow> Inl (ErrApply err) | Inr receipt \<Rightarrow> Inr receipt, gp, usedSmoke, s) })"

subsection \<open>The hypotheses\<close>

text \<open>Go visits every dirty account.\<close>

definition visits :: "'tr orders \<Rightarrow> bool" where
  "visits it \<longleftrightarrow> (\<forall>s. dirties_ok (sd_journal s) \<longrightarrow> set (it_dirties it s) = dom (j_dirties (sd_journal s)))"

text \<open>What decoding and the recovery of the sender give: addresses of 20 bytes, unsigned amounts, and a limit that is not absurd.\<close>

definition tx_ok :: "(Transaction \<Rightarrow> address option) \<Rightarrow> Transaction \<Rightarrow> bool" where
  "tx_ok Sender tx \<longleftrightarrow> pred_option (\<lambda>a. length a = 20) (Sender tx) \<and> pred_option (\<lambda>a. length a = 20) (tx_Recipient tx) \<and>
    0 \<le> tx_Price tx \<and> 0 \<le> tx_Amount tx \<and> length (tx_Payload tx) < 2 ^ 63 \<and> unat (tx_SmokeLimit tx) + 1 < 2 ^ 48"

text \<open>The receipts count up the smoke that was used.\<close>

fun cumulates :: "nat \<Rightarrow> Receipt list \<Rightarrow> bool" where
  "cumulates n [] \<longleftrightarrow> True"
| "cumulates n (r # rs) \<longleftrightarrow> unat (rc_CumulativeSmokeUsed r) = n + unat (rc_SmokeUsed r) \<and> cumulates (n + unat (rc_SmokeUsed r)) rs"

lemma cumulates_append: "cumulates n (rs @ rs') \<longleftrightarrow> cumulates n rs \<and> cumulates (n + (\<Sum>r\<leftarrow>rs. unat (rc_SmokeUsed r))) rs'"
  by (induction rs arbitrary: n) (simp_all add: add.assoc)

subsection \<open>One transaction\<close>

context state_store begin

lemma between_Prepare:
  assumes "between K db good A s"
  shows "between K db good A (Prepare thash bhash i s)" "same_bal K db A s (Prepare thash bhash i s)"
proof -
  let ?p = "Prepare thash bhash i s"
  have ok: "ok s" using assms by (simp add: between_def tx_state_def)
  have "v_objects (vw ?p) = v_objects (vw s)" by (simp add: fun_eq_iff Prepare_def lookup_obj_def base_data_def sd_ctx_def cong: option.case_cong)
  then have l: "v_live (vw ?p) = v_live (vw s)" by (simp add: fun_eq_iff v_live_def)
  have okp: "ok ?p" using ok by (simp add: Prepare_def sd_ok_def base_data_def cong: option.case_cong)
  have "sd_validRevisions ?p = []" using assms by (simp add: between_def Prepare_def)
  then show "between K db good A ?p"
    using assms okp l hist_empty [of ?p]
    by (auto simp: between_def tx_state_def short_codes_def changed_def Prepare_def entries_of_def objects_ok_def newAccessList_def al_ok_def)
  show "same_bal K db A s ?p" using bal_view [OF ok] bal_view [OF okp] l by (simp add: same_bal_def)
qed

lemma add_all_still:
  assumes "tx s" "set as \<subseteq> A"
  shows "still K db A s (fold AddAddressToAccessList as s)"
  using assms
proof (induction as arbitrary: s)
  case Nil
  then show ?case by (simp add: still_def same_bal_def)
next
  case (Cons a as)
  have s: "still K db A s (AddAddressToAccessList a s)" using still_writes(4) [OF Cons.prems(1), of a] Cons.prems(2) by simp
  have "tx (AddAddressToAccessList a s)" using steps_tx [OF Cons.prems(1)] s by (simp add: still_def)
  then show ?case using still_trans [OF s] Cons.IH Cons.prems(2) by simp
qed

lemma listed_address: "a \<in> dom (al_addresses (sd_accessList (AddAddressToAccessList a s)))"
  by (auto simp: AddAddressToAccessList_def AddAddress_def journal_append_def Let_def)

text \<open>The access list before a message has its recipient.\<close>

lemma access_ready:
  assumes "tx s" "from_addr \<in> A" "pred_option (\<lambda>a. a \<in> A) to" "set precompiles \<subseteq> A"
  defines "s' \<equiv> fold AddAddressToAccessList precompiles
      (case to of None \<Rightarrow> AddAddressToAccessList from_addr s | Some dst \<Rightarrow> AddAddressToAccessList dst (AddAddressToAccessList from_addr s))"
  shows "still K db A s s'" "pred_option (\<lambda>a. a \<in> dom (al_addresses (sd_accessList s'))) to"
proof -
  let ?l = "case to of None \<Rightarrow> [from_addr] | Some dst \<Rightarrow> [from_addr, dst]"
  have e: "s' = fold AddAddressToAccessList precompiles (fold AddAddressToAccessList ?l s)" by (simp add: s'_def split: option.split)
  have l: "set ?l \<subseteq> A" using assms(2,3) by (cases to) simp_all
  have s1: "still K db A s (fold AddAddressToAccessList ?l s)" by (rule add_all_still [OF assms(1) l])
  have "tx (fold AddAddressToAccessList ?l s)" using steps_tx [OF assms(1)] s1 by (simp add: still_def)
  from add_all_still [OF this assms(4)] have s2: "still K db A (fold AddAddressToAccessList ?l s) s'" unfolding e .
  show "still K db A s s'" by (rule still_trans [OF s1 s2])
  show "pred_option (\<lambda>a. a \<in> dom (al_addresses (sd_accessList s'))) to"
  proof (cases to)
    case (Some dst)
    then have "dst \<in> dom (al_addresses (sd_accessList (fold AddAddressToAccessList ?l s)))" using listed_address by simp
    then show ?thesis using s2 Some unfolding still_def tame_def grows_def view_sel by auto
  qed simp
qed

lemma applyTransaction_good:
  assumes run: "evm_depth evm \<le> CallCreateDepth \<Longrightarrow> run_good K db good A run (evm\<lparr>evm_Origin := msg_From msg, evm_SmokePrice := msg_SmokePrice msg\<rparr>)"
    and fin: "finite A" "{a. length a = 20} \<subseteq> A" and s: "between K db good A s" and it: "visits it"
    and m: "message_ok (evm\<lparr>evm_chainRules := (evm_chainRules evm)\<lparr>r_IsYoloV2 := False\<rparr>\<rparr>) s msg"
    and evm: "length (evm_Coinbase evm) = 20" "evm_chainRules evm = config_Rules config (Some (h_Number header))"
    and byz: "IsByzantium config (Some (h_Number header))" and pre: "set (pa_YoloV2 pa) \<subseteq> A"
  obtains r gp' used' s' where "applyTransaction K db run config pa it evm header msg t gp used s = Some (r, gp', used', s')" "no_mint K db A s s'"
    "\<forall>receipt. r = Inr receipt \<longrightarrow> between K db good A s' \<and> used' = used + rc_SmokeUsed receipt \<and> rc_CumulativeSmokeUsed receipt = used' \<and>
       unat gp' + unat (rc_SmokeUsed receipt) = unat gp"
proof -
  let ?n = "Some (h_Number header)" and ?evm = "evm\<lparr>evm_Origin := msg_From msg, evm_SmokePrice := msg_SmokePrice msg\<rparr>"
  have tx: "tx s" using s by (simp add: between_def)
  have A: "msg_From msg \<in> A" "pred_option (\<lambda>a. a \<in> A) (msg_To msg)"
    using m fin(2) by (auto simp: message_ok_def elim!: option.pred_mono_strong)
  define s1 where "s1 = (if IsYoloV2 config ?n then fold AddAddressToAccessList (pa_YoloV2 pa)
      (case msg_To msg of None \<Rightarrow> AddAddressToAccessList (msg_From msg) s
       | Some dst \<Rightarrow> AddAddressToAccessList dst (AddAddressToAccessList (msg_From msg) s)) else s)"
  have s1: "still K db A s s1" "IsYoloV2 config ?n \<Longrightarrow> pred_option (\<lambda>a. a \<in> dom (al_addresses (sd_accessList s1))) (msg_To msg)"
    using access_ready [OF tx A pre] by (simp_all add: s1_def still_def same_bal_def)
  have c1: "calm K db A s s1" by (rule still_calm [OF s1(1)])
  have snd1: "sound K db good A s1" by (rule calm_sound [OF between_sound [OF s] c1])
  have m1: "message_ok ?evm s1 msg"
    using m s1(2) calm_pot [OF c1] evm(2) by (simp add: message_ok_def config_Rules_def)
  obtain r gp' s2 where a: "ApplyMessage K db run ?evm (evm_Coinbase evm) msg gp s1 = Some (r, gp', s2)"
    "steps K db A s1 s2" "sound K db good A s2" "no_mint K db A s1 s2"
    "case r of Inr result \<Rightarrow> er_UsedSmoke result \<le> msg_Smoke msg \<and> unat gp' + unat (er_UsedSmoke result) = unat gp | Inl _ \<Rightarrow> gp' \<in> {gp, gp - msg_Smoke msg}"
    using message_good [OF _ fin snd1 m1 evm(1), of run gp] run by auto
  have nm: "no_mint K db A s s2" using c1 a(4) no_mint_trans by (auto simp: calm_def)
  have st: "steps K db A s s2" using c1 a(2) steps_trans by (auto simp: calm_def)
  have e: "applyTransaction K db run config pa it evm header msg t gp used s =
    do { (result, gp, s) \<leftarrow> ApplyMessage K db run ?evm (evm_Coinbase evm) msg gp s1;
         case result of
           Inl err \<Rightarrow> Some (Inl err, gp, used, s)
         | Inr result \<Rightarrow>
             let s = Finalise K True (it_dirties it s) s; used = used + er_UsedSmoke result;
                 receipt = (NewReceipt [] (er_Failed result) used)\<lparr>rc_TxHash := tx_Hash K t, rc_SmokeUsed := er_UsedSmoke result\<rparr>;
                 receipt = (if msg_To msg = None then receipt\<lparr>rc_ContractAddress := CreateAddress K (msg_From msg) (tx_AccountNonce t)\<rparr> else receipt);
                 receipt = receipt\<lparr>rc_Logs := GetLogs (tx_Hash K t) s\<rparr>;
                 receipt = receipt\<lparr>rc_Bloom := CreateBloom K [receipt], rc_BlockHash := sd_bhash s,
                   rc_BlockNumber := ?n, rc_TransactionIndex := word_of_int (sd_txIndex s)\<rparr>
             in Some (Inr receipt, gp, used, s) }"
    using byz evm(2) by (simp add: applyTransaction_def s1_def Let_def ActivePrecompiles_def config_Rules_def cong: option.case_cong sum.case_cong if_cong)
  show thesis
  proof (cases r)
    case (Inl err)
    then show ?thesis using that [of "Inl err"] e a(1) nm by simp
  next
    case (Inr result)
    let ?f = "Finalise K True (it_dirties it s2) s2"
    note c = steps_covered [OF s st]
    have f: "between K db good A ?f" "no_mint K db A s2 ?f"
      using Finalise_between [OF _ _ c] a(3) it c(3) by (auto simp: sound_def visits_def)
    have p: "unat gp' + unat (er_UsedSmoke result) = unat gp" using a(5) Inr by simp
    obtain receipt where "applyTransaction K db run config pa it evm header msg t gp used s = Some (Inr receipt, gp', used + er_UsedSmoke result, ?f)"
      "rc_SmokeUsed receipt = er_UsedSmoke result" "rc_CumulativeSmokeUsed receipt = used + er_UsedSmoke result"
      unfolding e a(1) Inr by (simp add: Let_def NewReceipt_def)
    then show ?thesis using that [of "Inr receipt"] p f(1) no_mint_trans [OF nm f(2)] by simp
  qed
qed

end

subsection \<open>All transactions\<close>

text \<open>What the receipts \<open>rs\<close> of some transactions say of the smoke used and of the pool.\<close>

definition accounts :: "nat \<Rightarrow> SmokePool \<Rightarrow> Receipt list \<Rightarrow> nat \<Rightarrow> SmokePool \<Rightarrow> bool" where
  "accounts used gp rs used' gp' \<longleftrightarrow> cumulates used rs \<and> used' = used + (\<Sum>r\<leftarrow>rs. unat (rc_SmokeUsed r)) \<and>
    unat gp' + (\<Sum>r\<leftarrow>rs. unat (rc_SmokeUsed r)) = unat gp"

lemma accounts_Nil [simp]: "accounts used gp [] used gp"
  by (simp add: accounts_def)

lemma accounts_Cons:
  assumes "unat (rc_CumulativeSmokeUsed r) = used + unat (rc_SmokeUsed r)" "unat gp' + unat (rc_SmokeUsed r) = unat gp"
    and "accounts (used + unat (rc_SmokeUsed r)) gp' rs used' gp''"
  shows "accounts used gp (r # rs) used' gp''"
  using assms by (simp add: accounts_def)

context state_store begin

lemma AsMessage_ok:
  assumes "tx_ok Sender t" "AsMessage Sender t = Some msg" "between K db good A s"
  shows "message_ok (evm\<lparr>evm_chainRules := (evm_chainRules evm)\<lparr>r_IsYoloV2 := False\<rparr>\<rparr>) s msg"
  using assms by (auto simp: tx_ok_def AsMessage_def message_ok_def between_def pot_def split: option.splits)

lemma process_txs_good:
  assumes run: "\<And>e. evm_depth e \<le> CallCreateDepth \<Longrightarrow> evm_ChainID e \<noteq> None \<Longrightarrow> run_good K db good A run e"
    and fin: "finite A" "{a. length a = 20} \<subseteq> A" and it: "visits it"
    and evm: "length (evm_Coinbase evm) = 20" "evm_chainRules evm = config_Rules config (Some (h_Number header))" "evm_ChainID evm \<noteq> None"
    and byz: "IsByzantium config (Some (h_Number header))" and pre: "set (pa_YoloV2 pa) \<subseteq> A"
    and s: "between K db good A s" and txs: "\<forall>t\<in>set txs. tx_ok Sender t" and used: "unat used + unat gp < 2 ^ 64"
  shows "\<exists>r gp' s'. process_txs K db run config pa it Sender evm header bhash i txs gp used receipts logs s = Some (r, gp', s') \<and> no_mint K db A s s' \<and>
    (\<forall>receipts' logs' used'. r = Inr (receipts', logs', used') \<longrightarrow> between K db good A s' \<and>
      (\<exists>rs. receipts' = receipts @ rs \<and> length rs = length txs \<and> logs' = logs @ concat (map rc_Logs rs) \<and> accounts (unat used) gp rs (unat used') gp'))"
  using s txs used
proof (induction txs arbitrary: i gp used receipts logs s)
  case Nil
  then show ?case by (simp add: same_bal_no_mint same_bal_def)
next
  case (Cons t txs)
  show ?case
  proof (cases "AsMessage Sender t")
    case None
    then show ?thesis by (simp add: same_bal_no_mint same_bal_def)
  next
    case (Some msg)
    let ?s = "Prepare (tx_Hash K t) bhash i s"
    note p = between_Prepare [OF Cons.prems(1), of "tx_Hash K t" bhash i]
    have m: "message_ok (evm\<lparr>evm_chainRules := (evm_chainRules evm)\<lparr>r_IsYoloV2 := False\<rparr>\<rparr>) ?s msg"
      using AsMessage_ok [OF _ Some p(1)] Cons.prems(2) by simp
    have r0: "run_good K db good A run (evm\<lparr>evm_Origin := msg_From msg, evm_SmokePrice := msg_SmokePrice msg\<rparr>)" if "evm_depth evm \<le> CallCreateDepth"
      using run that evm(3) by simp
    obtain r gp1 used1 s1 where a: "applyTransaction K db run config pa it evm header msg t gp used ?s = Some (r, gp1, used1, s1)" "no_mint K db A ?s s1"
      "\<forall>receipt. r = Inr receipt \<longrightarrow> between K db good A s1 \<and> used1 = used + rc_SmokeUsed receipt \<and> rc_CumulativeSmokeUsed receipt = used1 \<and>
         unat gp1 + unat (rc_SmokeUsed receipt) = unat gp"
      by (rule applyTransaction_good [OF r0 fin p(1) it m evm(1,2) byz pre]) (assumption, rule that)
    have nm: "no_mint K db A s s1" by (rule no_mint_trans [OF same_bal_no_mint [OF p(2)] a(2)])
    show ?thesis
    proof (cases r)
      case (Inl err)
      then show ?thesis using Some a(1) nm by simp
    next
      case (Inr receipt)
      note r = a(3) [rule_format, OF Inr]
      have u: "unat used1 = unat used + unat (rc_SmokeUsed receipt)" using r Cons.prems(3) by (auto simp: unat_word_ariths)
      obtain r2 gp' s' where i: "process_txs K db run config pa it Sender evm header bhash (i + 1) txs gp1 used1 (receipts @ [receipt]) (logs @ rc_Logs receipt) s1 =
          Some (r2, gp', s')" "no_mint K db A s1 s'"
        "\<forall>receipts' logs' used'. r2 = Inr (receipts', logs', used') \<longrightarrow> between K db good A s' \<and>
          (\<exists>rs. receipts' = (receipts @ [receipt]) @ rs \<and> length rs = length txs \<and> logs' = (logs @ rc_Logs receipt) @ concat (map rc_Logs rs) \<and>
            accounts (unat used1) gp1 rs (unat used') gp')"
        using Cons.IH [of s1 used1 gp1 "i + 1" "receipts @ [receipt]" "logs @ rc_Logs receipt"] r Cons.prems(2,3) u by auto
      have "between K db good A s' \<and> (\<exists>rs. receipts' = receipts @ rs \<and> length rs = length (t # txs) \<and> logs' = logs @ concat (map rc_Logs rs) \<and>
          accounts (unat used) gp rs (unat used') gp')" if r2: "r2 = Inr (receipts', logs', used')" for receipts' logs' used'
      proof -
        obtain rs where rs: "between K db good A s'" "receipts' = (receipts @ [receipt]) @ rs" "length rs = length txs"
          "logs' = (logs @ rc_Logs receipt) @ concat (map rc_Logs rs)" "accounts (unat used1) gp1 rs (unat used') gp'" using i(3) [rule_format, OF r2] by blast
        have "accounts (unat used) gp (receipt # rs) (unat used') gp'" using rs(5) r u by (auto intro!: accounts_Cons)
        then show ?thesis using rs by (auto intro!: exI [of _ "receipt # rs"])
      qed
      then show ?thesis using Some Inr a(1) i(1) no_mint_trans [OF nm i(2)] by simp
    qed
  qed
qed

end

subsection \<open>Blocks\<close>


text \<open>The step of a miner returns as well, and leaves a state for the next transaction.\<close>

lemma ApplyTransaction_returns:
  assumes store: "state_store db good K addresses" and U: "uint256_ok U" and s: "between K db good addresses s" and it: "visits it"
    and config: "IsByzantium config (Some (h_Number header))" "\<not> IsEWASM config (Some (h_Number header))" "cfg_ChainID config \<noteq> None"
    and t: "tx_ok Sender t" and addr: "length (h_Coinbase header) = 20" "pred_option (\<lambda>a. length a = 20) author" "set (pa_YoloV2 pa) \<subseteq> addresses"
  shows "\<exists>r gp' used' s'. ApplyTransaction K db (evm_interpreter K db U) config env GetHash pa it Sender author gp s header t used = Some (r, gp', used', s') \<and>
    no_mint K db addresses s s' \<and> (\<forall>receipt. r = Inr receipt \<longrightarrow> between K db good addresses s' \<and> unat gp' + unat (rc_SmokeUsed receipt) = unat gp)"
proof (cases "AsMessage Sender t")
  case None
  then show ?thesis by (simp add: ApplyTransaction_def same_bal_no_mint same_bal_def)
next
  case (Some msg)
  obtain evm where n: "NewEVM env config GetHash header author = Some evm" using config(2) by (simp add: NewEVM_def)
  then have evm: "length (evm_Coinbase evm) = 20" "evm_chainRules evm = config_Rules config (Some (h_Number header))" "evm_ChainID evm \<noteq> None"
    using config addr(1,2) by (auto simp: NewEVM_def split: option.splits if_splits)
  have run: "run_good K db good addresses (evm_interpreter K db U) (evm\<lparr>evm_Origin := msg_From msg, evm_SmokePrice := msg_SmokePrice msg\<rparr>)"
    if "evm_depth evm \<le> CallCreateDepth"
    by (rule state_store.evm_interpreter_good [OF store U order_refl finite_addresses]) (use that evm(3) in simp_all)
  note m = state_store.AsMessage_ok [OF store t Some s, of evm]
  obtain r gp' used' s' where a: "applyTransaction K db (evm_interpreter K db U) config pa it evm header msg t gp used s = Some (r, gp', used', s')"
    "no_mint K db addresses s s'" "\<forall>receipt. r = Inr receipt \<longrightarrow> between K db good addresses s' \<and> used' = used + rc_SmokeUsed receipt \<and>
      rc_CumulativeSmokeUsed receipt = used' \<and> unat gp' + unat (rc_SmokeUsed receipt) = unat gp"
    by (rule state_store.applyTransaction_good [OF store run finite_addresses order_refl s it m evm(1,2) config(1) addr(3)])
      (assumption, rule that)
  have e: "ApplyTransaction K db (evm_interpreter K db U) config env GetHash pa it Sender author gp s header t used =
      Some (case r of Inl err \<Rightarrow> Inl (ErrApply err) | Inr receipt \<Rightarrow> Inr receipt, gp', used', s')"
    using Some n a(1) by (simp add: ApplyTransaction_def)
  show ?thesis unfolding e using a(2,3) by (cases r) simp_all
qed

text \<open>Orders that go over the journal, a state without accounts and a transaction that pays nothing.\<close>

definition ex_orders :: "secure_trie orders" where
  "ex_orders = \<lparr>it_dirties = (\<lambda>s. filter (\<lambda>a. j_dirties (sd_journal s) a \<noteq> None) (ripemd # List.map_filter dirtied (entries_of s))),
    it_pendings = (\<lambda>s. []), it_slots = (\<lambda>s a. [])\<rparr>"

lemma dirty_count_dirtied: "dirty_count es a \<noteq> 0 \<Longrightarrow> a \<in> set (List.map_filter dirtied es)"
  by (induction es) (auto simp: List.map_filter_simps split: if_splits option.splits)

lemma ex_orders_visit: "visits ex_orders"
proof -
  have "a = ripemd \<or> a \<in> set (List.map_filter dirtied (entries_of s))"
    if "dirties_ok (sd_journal s)" "j_dirties (sd_journal s) a = Some n" for s :: "secure_trie StateDB" and a n
    using that dirties_okD [OF that(1), of a] dirty_count_dirtied [of "entries_of s" a] by (cases "a = ripemd") (auto simp: counter_def entries_of_def split: if_splits)
  then show ?thesis by (fastforce simp: visits_def ex_orders_def)
qed

definition ex_transaction :: Transaction where
  "ex_transaction = \<lparr>tx_AccountNonce = 0, tx_Price = 0, tx_SmokeLimit = 30000, tx_Recipient = Some ex_addr, tx_Amount = 0, tx_Payload = [],
    tx_V = 0, tx_R = 0, tx_S = 0\<rparr>"

abbreviation ex_block :: Block where
  "ex_block \<equiv> \<lparr>b_header = ex_reward_header 7, b_uncles = [], b_transactions = [ex_transaction]\<rparr>"

lemma ex_between: "between BytesToHash ex_db trie_good addresses ex_state"
proof -
  have "tx_state BytesToHash ex_db trie_good addresses ex_state" using ex_all_sound by (simp add: sound_def)
  moreover have "v_live (view BytesToHash ex_db addresses ex_state) a = None" for a by (simp add: v_live_def lookup_obj_def)
  moreover have "sd_stateObjectsPending ex_state = {}" "sd_stateObjectsDirty ex_state = {}" by (simp_all add: ex_state_def state_New_def)
  ultimately show ?thesis
    by (simp add: between_def short_codes_def changed_def objects_ok_def dirties_ok_def newJournal_def counter_def entries_of_def)
qed


subsection \<open>The lists of native contracts\<close>

text \<open>
  C39. The lists that \<open>init\<close> builds have the keys of the maps of the Istanbul and the YoloV2 rules, but the list
  of the Byzantium rules stays empty and the list of the Homestead rules has a single address, one
  of the Byzantium contracts. So \<open>ActivePrecompiles\<close> misses every native contract under the Byzantium
  rules, though its comment says that it returns those enabled.
\<close>

theorem ActivePrecompiles_misses:
  fixes evm :: EVM
  defines "rules \<equiv> evm_chainRules evm"
  assumes "byzantium \<noteq> []"
  shows "ActivePrecompiles (contracts_init homestead byzantium istanbul yolov2) evm =
    (if r_IsYoloV2 rules then yolov2 else if r_IsIstanbul rules then istanbul else if r_IsByzantium rules then [] else [last byzantium])"
proof -
  have h: "fold (\<lambda>k pa. pa\<lparr>pa_Homestead := pa_Homestead pa @ [k]\<rparr>) ks pa = pa\<lparr>pa_Homestead := pa_Homestead pa @ ks\<rparr>" for ks pa
    by (induction ks arbitrary: pa) simp_all
  have b: "fold (\<lambda>k pa. pa\<lparr>pa_Homestead := pa_Byzantium pa @ [k]\<rparr>) ks pa = pa\<lparr>pa_Homestead := pa_Byzantium pa @ [last ks]\<rparr>" if "ks \<noteq> []" for ks pa
    using that by (induction ks rule: rev_nonempty_induct) simp_all
  have i: "fold (\<lambda>k pa. pa\<lparr>pa_Istanbul := pa_Istanbul pa @ [k]\<rparr>) ks pa = pa\<lparr>pa_Istanbul := pa_Istanbul pa @ ks\<rparr>" for ks pa
    by (induction ks arbitrary: pa) simp_all
  have y: "fold (\<lambda>k pa. pa\<lparr>pa_YoloV2 := pa_YoloV2 pa @ [k]\<rparr>) ks pa = pa\<lparr>pa_YoloV2 := pa_YoloV2 pa @ ks\<rparr>" for ks pa
    by (induction ks arbitrary: pa) simp_all
  show ?thesis using assms(2) by (simp add: ActivePrecompiles_def contracts_init_def rules_def h b i y)
qed

theorem ActivePrecompiles_misses_witness:
  "ActivePrecompiles (contracts_init [] [ex_addr] [ex_addr] [ex_addr]) (ex_evm\<lparr>evm_chainRules := (config_Rules example_config (Some 9))\<lparr>r_IsIstanbul := False\<rparr>\<rparr>) = []"
  using ActivePrecompiles_misses [of "[ex_addr]" "[]" "[ex_addr]" "[ex_addr]" "ex_evm\<lparr>evm_chainRules := (config_Rules example_config (Some 9))\<lparr>r_IsIstanbul := False\<rparr>\<rparr>"]
  by (simp add: config_Rules_def example_config_def)

end
