(* ===== verification/Ethash_Difficulty.thy ===== *)
theory Ethash_Difficulty
  imports Core_Types Params_Config Evm_Words
begin

section \<open>Difficulty\<close>

text \<open>
  The difficulty of the next block, from \<open>src/consensus/ethash/consensus.go\<close>: the rules of
  Frontier, of Homestead and of Byzantium with the delays of the bomb, and the choice by the fork
  schedule. The variants on 256-bit integers of \<open>src/consensus/ethash/difficulty.go\<close> take the
  operations of the package \<open>uint256\<close> as an argument. \<open>big.Int\<close> is \<open>int\<close>, with its Euclidean
  division by positive numbers.
\<close>

abbreviation (input) DifficultyBoundDivisor :: int where "DifficultyBoundDivisor \<equiv> 2048"
abbreviation (input) MinimumDifficulty :: int where "MinimumDifficulty \<equiv> 130130"
abbreviation (input) DurationLimit :: int where "DurationLimit \<equiv> 8"
abbreviation (input) expDiffPeriod :: int where "expDiffPeriod \<equiv> 100000"

text \<open>The hash of an empty list of headers: the hash of the byte of the empty RLP list.\<close>

abbreviation EmptyUncleHash :: "(bytes \<Rightarrow> hash) \<Rightarrow> hash" where
  "EmptyUncleHash keccak \<equiv> keccak [0xC0]"

definition makeDifficultyCalculator :: "(bytes \<Rightarrow> hash) \<Rightarrow> int \<Rightarrow> uint64 \<Rightarrow> Header \<Rightarrow> int" where
  "makeDifficultyCalculator keccak bombDelay time parent =
    (let bombDelayFromParent = bombDelay - 1;
         x = (uint time - uint (h_Time parent)) div 9;
         x = (if h_UncleHash parent = EmptyUncleHash keccak then 1 - x else 2 - x);
         x = (if x < -99 then -99 else x);
         y = h_Difficulty parent div DifficultyBoundDivisor;
         x = h_Difficulty parent + y * x;
         x = (if x < MinimumDifficulty then MinimumDifficulty else x);
         fakeBlockNumber = (if bombDelayFromParent \<le> h_Number parent then h_Number parent - bombDelayFromParent else 0);
         periodCount = fakeBlockNumber div expDiffPeriod
     in if 1 < periodCount then x + 2 ^ nat (periodCount - 2) else x)"

definition calcDifficultyHomestead :: "uint64 \<Rightarrow> Header \<Rightarrow> int" where
  "calcDifficultyHomestead time parent =
    (let x = 1 - (uint time - uint (h_Time parent)) div 10;
         x = (if x < -99 then -99 else x);
         y = h_Difficulty parent div DifficultyBoundDivisor;
         x = h_Difficulty parent + y * x;
         x = (if x < MinimumDifficulty then MinimumDifficulty else x);
         periodCount = (h_Number parent + 1) div expDiffPeriod
     in if 1 < periodCount then x + 2 ^ nat (periodCount - 2) else x)"

definition calcDifficultyFrontier :: "uint64 \<Rightarrow> Header \<Rightarrow> int" where
  "calcDifficultyFrontier time parent =
    (let adjust = h_Difficulty parent div DifficultyBoundDivisor;
         diff = (if uint time - uint (h_Time parent) < DurationLimit then h_Difficulty parent + adjust else h_Difficulty parent - adjust);
         diff = (if diff < MinimumDifficulty then MinimumDifficulty else diff);
         periodCount = (h_Number parent + 1) div expDiffPeriod
     in if 1 < periodCount then max (diff + 2 ^ nat (periodCount - 2)) MinimumDifficulty else diff)"

definition CalcDifficulty :: "(bytes \<Rightarrow> hash) \<Rightarrow> ChainConfig \<Rightarrow> uint64 \<Rightarrow> Header \<Rightarrow> int" where
  "CalcDifficulty keccak config time parent =
    (let next_number = Some (h_Number parent + 1)
     in if IsMuirGlacier config next_number then makeDifficultyCalculator keccak 9000000 time parent
        else if IsConstantinople config next_number then makeDifficultyCalculator keccak 5000000 time parent
        else if IsByzantium config next_number then makeDifficultyCalculator keccak 3000000 time parent
        else if IsHomestead config next_number then calcDifficultyHomestead time parent
        else calcDifficultyFrontier time parent)"

subsection \<open>On 256-bit integers\<close>

definition CalcDifficultyFrontierU256 :: "uint256 \<Rightarrow> uint64 \<Rightarrow> Header \<Rightarrow> int" where
  "CalcDifficultyFrontierU256 U time parent =
    (let pDiff = u_FromBig U (h_Difficulty parent);
         adjust = u_Rsh U pDiff 11;
         pDiff = (if time - h_Time parent < 13 then u_Add U pDiff adjust else u_Sub U pDiff adjust);
         pDiff = (if u_LtUint64 U pDiff 131072 then u_SetUint64 U 131072 else pDiff);
         periodCount = (word_of_int (h_Number parent) + 1 :: uint64) div 100000;
         pDiff = (if 1 < periodCount then u_Add U pDiff (u_Lsh U (u_One U) (unat (periodCount - 2))) else pDiff)
     in u_ToBig U pDiff)"

definition CalcDifficultyHomesteadU256 :: "uint256 \<Rightarrow> uint64 \<Rightarrow> Header \<Rightarrow> int" where
  "CalcDifficultyHomesteadU256 U time parent =
    (let pDiff = u_FromBig U (h_Difficulty parent);
         adjust = u_Rsh U pDiff 11;
         x = (time - h_Time parent) div 10;
         neg = (x \<noteq> 0);
         x = (if x = 0 then 1 else if 100 \<le> x then 99 else x - 1);
         adjust = u_Mul U adjust (u_SetUint64 U x);
         pDiff = (if neg then u_Sub U pDiff adjust else u_Add U pDiff adjust);
         pDiff = (if u_LtUint64 U pDiff 131072 then u_SetUint64 U 131072 else pDiff);
         periodCount = (1 + word_of_int (h_Number parent) :: uint64) div 100000;
         pDiff = (if 1 < periodCount then u_Add U pDiff (u_Lsh U (u_One U) (unat (periodCount - 2))) else pDiff)
     in u_ToBig U pDiff)"

definition MakeDifficultyCalculatorU256 :: "uint256 \<Rightarrow> (bytes \<Rightarrow> hash) \<Rightarrow> int \<Rightarrow> uint64 \<Rightarrow> Header \<Rightarrow> int" where
  "MakeDifficultyCalculatorU256 U keccak bombDelay time parent =
    (let bombDelayFromParent = (word_of_int bombDelay - 1 :: uint64);
         x = (time - h_Time parent) div 9;
         c = (if h_UncleHash parent \<noteq> EmptyUncleHash keccak then 2 else 1);
         xNeg = (c \<le> x);
         x = (if xNeg then x - c else c - x);
         x = (if 99 < x then 99 else x);
         pDiff = u_FromBig U (h_Difficulty parent);
         z = u_Mul U (u_Rsh U pDiff 11) (u_SetUint64 U x);
         y = (if xNeg then u_Sub U pDiff z else u_Add U pDiff z);
         y = (if u_LtUint64 U y 131072 then u_SetUint64 U 131072 else y);
         pNum = (word_of_int (h_Number parent) :: uint64);
         fakeBlockNumber = pNum - bombDelayFromParent;
         y = (if bombDelayFromParent \<le> pNum \<and> 2 * 100000 \<le> fakeBlockNumber
              then u_Add U (u_Lsh U (u_One U) (unat (fakeBlockNumber div 100000 - 2))) y else y)
     in u_ToBig U y)"

subsection \<open>Bounds\<close>

text \<open>The difficulty after the adjustment by \<open>k\<close> parts of 2048, before the bomb.\<close>

definition adjusted :: "int \<Rightarrow> int \<Rightarrow> int" where
  "adjusted d k = max MinimumDifficulty (d + d div DifficultyBoundDivisor * k)"

definition bomb :: "int \<Rightarrow> int" where
  "bomb n = (if 1 < n div expDiffPeriod then 2 ^ nat (n div expDiffPeriod - 2) else 0)"

lemma bomb_bounds: "0 \<le> bomb n" "n \<le> m \<Longrightarrow> bomb n \<le> bomb m"
proof -
  show "0 \<le> bomb n" by (simp add: bomb_def)
  assume "n \<le> m"
  then have "n div 100000 \<le> m div 100000" by (rule zdiv_mono1) simp
  moreover have "nat (n div 100000 - 2) \<le> nat (m div 100000 - 2)" using calculation by simp
  then have "(2 :: int) ^ nat (n div 100000 - 2) \<le> 2 ^ nat (m div 100000 - 2)" by (intro power_increasing) simp_all
  ultimately show "bomb n \<le> bomb m" by (auto simp: bomb_def)
qed

lemma makeDifficulty_adjusted:
  "makeDifficultyCalculator K delay time parent =
    adjusted (h_Difficulty parent) (max (-99) ((if h_UncleHash parent = EmptyUncleHash K then 1 else 2) - (uint time - uint (h_Time parent)) div 9)) +
    bomb (if delay - 1 \<le> h_Number parent then h_Number parent - (delay - 1) else 0)"
  by (simp add: makeDifficultyCalculator_def adjusted_def bomb_def Let_def max_def)

lemma calcHomestead_adjusted:
  "calcDifficultyHomestead time parent =
    adjusted (h_Difficulty parent) (max (-99) (1 - (uint time - uint (h_Time parent)) div 10)) + bomb (h_Number parent + 1)"
  by (simp add: calcDifficultyHomestead_def adjusted_def bomb_def Let_def max_def)

lemma calcFrontier_adjusted:
  "calcDifficultyFrontier time parent =
    adjusted (h_Difficulty parent) (if uint time - uint (h_Time parent) < DurationLimit then 1 else -1) + bomb (h_Number parent + 1)"
proof -
  let ?x = "if uint time - uint (h_Time parent) < 8 then h_Difficulty parent + h_Difficulty parent div 2048 else h_Difficulty parent - h_Difficulty parent div 2048"
  have c: "(if x < 130130 then 130130 else x) = max 130130 x" "max (max 130130 x + 2 ^ k) 130130 = max 130130 x + 2 ^ k" for x :: int and k
    by (simp_all add: max_absorb1 add_increasing2)
  have "calcDifficultyFrontier time parent = max 130130 ?x + bomb (h_Number parent + 1)"
    by (simp only: calcDifficultyFrontier_def Let_def c bomb_def split: if_split) simp
  then show ?thesis by (simp add: adjusted_def)
qed

lemma CalcDifficulty_adjusted:
  assumes "h_Time parent < time" "0 \<le> h_Number parent"
  obtains k n where "CalcDifficulty K config time parent = adjusted (h_Difficulty parent) k + bomb n" "-99 \<le> k" "k \<le> 2" "n \<le> h_Number parent + 1"
proof -
  let ?d = "uint time - uint (h_Time parent)"
  have t: "0 \<le> ?d div 9" "0 \<le> ?d div 10" using assms(1) by (simp_all add: word_less_def pos_imp_zdiv_nonneg_iff)
  define k where "k = max (-99) ((if h_UncleHash parent = EmptyUncleHash K then 1 else 2) - ?d div 9)"
  have k: "-99 \<le> k" "k \<le> 2" using t(1) by (auto simp: k_def)
  have m: "\<exists>n. makeDifficultyCalculator K delay time parent = adjusted (h_Difficulty parent) k + bomb n \<and> n \<le> h_Number parent + 1" if "1 \<le> delay" for delay
    using that assms(2) unfolding makeDifficulty_adjusted k_def [symmetric]
    by (intro exI [of _ "if delay - 1 \<le> h_Number parent then h_Number parent - (delay - 1) else 0"]) simp
  have h: "-99 \<le> max (-99) (1 - ?d div 10)" "max (-99) (1 - ?d div 10) \<le> 2" using t(2) by auto
  consider "CalcDifficulty K config time parent = calcDifficultyFrontier time parent" | "CalcDifficulty K config time parent = calcDifficultyHomestead time parent"
    | delay where "CalcDifficulty K config time parent = makeDifficultyCalculator K delay time parent" "1 \<le> delay"
  proof -
    have "CalcDifficulty K config time parent \<in> {calcDifficultyFrontier time parent, calcDifficultyHomestead time parent} \<union>
      (\<lambda>delay. makeDifficultyCalculator K delay time parent) ` {9000000, 5000000, 3000000}"
      by (simp add: CalcDifficulty_def Let_def)
    then show ?thesis using that by fastforce
  qed
  then show ?thesis
  proof cases
    case 1
    then show ?thesis by (intro that [OF _ _ _ order_refl]) (auto simp: calcFrontier_adjusted)
  next
    case 2
    then show ?thesis using h by (intro that [OF _ _ _ order_refl]) (auto simp: calcHomestead_adjusted)
  next
    case 3
    then show ?thesis using m k that by metis
  qed
qed

lemma CalcDifficulty_bounds_low:
  assumes "h_Time parent < time" "0 \<le> h_Number parent"
  shows "130130 \<le> CalcDifficulty K config time parent"
proof -
  obtain k n where "CalcDifficulty K config time parent = adjusted (h_Difficulty parent) k + bomb n" using CalcDifficulty_adjusted [OF assms] .
  then show ?thesis using bomb_bounds(1) [of n] by (simp add: adjusted_def)
qed

text \<open>
  C22. Difficulty is bounded under the rules of every fork. The next block is never easier than the
  minimum; against its parent the difficulty falls by at most 99 parts of 2048, and but for the
  minimum and for the bomb it rises by at most 2 of them; the bomb is at most two to the number of
  periods of 100000 blocks so far, less two.
\<close>

theorem CalcDifficulty_bounds:
  assumes "h_Time parent < time" "0 \<le> h_Number parent" "0 \<le> h_Difficulty parent"
  shows "130130 \<le> CalcDifficulty K config time parent \<and>
    h_Difficulty parent - 99 * (h_Difficulty parent div 2048) \<le> CalcDifficulty K config time parent \<and>
    CalcDifficulty K config time parent \<le> max 130130 (h_Difficulty parent + 2 * (h_Difficulty parent div 2048)) +
      (if 2 \<le> (h_Number parent + 1) div 100000 then 2 ^ nat ((h_Number parent + 1) div 100000 - 2) else 0)"
proof -
  obtain k n where c: "CalcDifficulty K config time parent = adjusted (h_Difficulty parent) k + bomb n" "-99 \<le> k" "k \<le> 2" "n \<le> h_Number parent + 1"
    using CalcDifficulty_adjusted [OF assms(1,2)] .
  let ?q = "h_Difficulty parent div 2048"
  have q: "0 \<le> ?q" using assms(3) by (simp add: pos_imp_zdiv_nonneg_iff)
  have "?q * - 99 \<le> ?q * k" "?q * k \<le> ?q * 2" using q c(2,3) by (intro mult_left_mono; simp)+
  then have "- 99 * ?q \<le> ?q * k" "?q * k \<le> 2 * ?q" by simp_all
  moreover have "0 \<le> bomb n" "bomb n \<le> (if 2 \<le> (h_Number parent + 1) div 100000 then 2 ^ nat ((h_Number parent + 1) div 100000 - 2) else 0)"
    using bomb_bounds(1) bomb_bounds(2) [OF c(4)] by (auto simp: bomb_def [of "h_Number parent + 1"] split: if_splits)
  ultimately show ?thesis unfolding c(1) adjusted_def by linarith
qed

definition ex_header :: Header where
  "ex_header = \<lparr>h_ParentHash = replicate 32 0, h_UncleHash = replicate 32 0, h_Coinbase = replicate 20 7, h_Root = replicate 32 0,
    h_TxHash = replicate 32 0, h_ReceiptHash = replicate 32 0, h_Bloom = replicate 256 0, h_Difficulty = 1000000, h_Number = 2500000,
    h_SmokeLimit = 8000000, h_SmokeUsed = 8000000, h_Time = 1000, h_Extra = [], h_MixDigest = replicate 32 0, h_Nonce = replicate 8 0\<rparr>"

theorem CalcDifficulty_bounds_witness: "951688 \<le> CalcDifficulty (\<lambda>_. replicate 32 0) example_config 2000 ex_header"
  using CalcDifficulty_bounds [of ex_header 2000 "\<lambda>_. replicate 32 0" example_config] by (simp add: ex_header_def)

subsection \<open>The two implementations\<close>

text \<open>What the routines on 256-bit integers use of the package, beside \<open>uint256_ok\<close>.\<close>

definition uint256_arith :: "uint256 \<Rightarrow> bool" where
  "uint256_arith U \<longleftrightarrow> (\<forall>x y. u_Sub U x y = x - y) \<and> (\<forall>x y. u_Mul U x y = x * y) \<and>
    (\<forall>x n. u_Rsh U x n = drop_bit n x) \<and> (\<forall>x n. u_Lsh U x n = push_bit n x) \<and> (\<forall>x n. u_LtUint64 U x n \<longleftrightarrow> uint x < uint n) \<and>
    (\<forall>n. u_SetUint64 U n = ucast n) \<and> (\<forall>n. 0 \<le> n \<longrightarrow> u_FromBig U n = word_of_int n) \<and> u_One U = 1"

abbreviation W :: "int \<Rightarrow> u256" where
  "W d \<equiv> word_of_int d"

lemma uint_W: "0 \<le> d \<Longrightarrow> d < 2 ^ 256 \<Longrightarrow> uint (W d) = d"
  by (simp add: uint_word_of_int_eq take_bit_int_eq_self)

lemma shift_W:
  assumes "0 \<le> d" "d < 2 ^ 256"
  shows "drop_bit 11 (W d) = W (d div 2048)"
proof -
  have "drop_bit 11 (W d) = W d div 2 ^ 11" by (rule drop_bit_eq_div)
  also have "\<dots> = W (uint (W d) div uint (2 ^ 11 :: u256))" by (rule word_div_def)
  also have "uint (2 ^ 11 :: u256) = 2048" by simp
  finally show ?thesis using uint_W [OF assms] by simp
qed

text \<open>The package by its laws, as the routines see it.\<close>

locale u256_package =
  fixes U :: uint256
  assumes ok: "uint256_ok U" and arith: "uint256_arith U"
begin

lemma ops:
  "u_Add U (W a) (W b) = W (a + b)" "u_Sub U (W a) (W b) = W (a - b)" "u_Mul U (W a) (W b) = W (a * b)" "u_SetUint64 U x = W (uint x)"
  "u_Lsh U (u_One U) n = W (2 ^ n)" "0 \<le> d \<Longrightarrow> u_FromBig U d = W d" "0 \<le> d \<Longrightarrow> d < 2 ^ 256 \<Longrightarrow> u_Rsh U (W d) 11 = W (d div 2048)"
proof -
  have u: "u_Add U x y = x + y" "u_Sub U x y = x - y" "u_Mul U x y = x * y" "u_SetUint64 U c = ucast c" "u_Lsh U x n = push_bit n x"
    "u_Rsh U x n = drop_bit n x" "u_One U = 1" for x y c n
    using ok arith by (simp_all add: uint256_ok_def uint256_arith_def)
  show "u_Add U (W a) (W b) = W (a + b)" "u_Sub U (W a) (W b) = W (a - b)" "u_Mul U (W a) (W b) = W (a * b)" "u_SetUint64 U x = W (uint x)"
    by (simp_all only: u wi_hom_syms ucast_eq)
  have "push_bit n 1 = (2 ^ n :: u256)" by (rule push_bit_of_1)
  then show "u_Lsh U (u_One U) n = W (2 ^ n)" by (simp only: u) simp
  show "u_FromBig U d = W d" if "0 \<le> d" using arith that unfolding uint256_arith_def by blast
  show "u_Rsh U (W d) 11 = W (d div 2048)" if "0 \<le> d" "d < 2 ^ 256" by (simp only: u shift_W [OF that])
qed

lemma result: "0 \<le> d \<Longrightarrow> d < 2 ^ 256 \<Longrightarrow> u_ToBig U (W d) = d"
  using ok uint_W by (simp add: uint256_ok_def)

lemma no_clamp: "131072 \<le> d \<Longrightarrow> d < 2 ^ 256 \<Longrightarrow> (if u_LtUint64 U (W d) 131072 then x else W d) = W d"
  using arith uint_W [of d] by (simp add: uint256_arith_def)

end

text \<open>The time since the parent, and the block numbers, on 64 bits.\<close>

lemma elapsed:
  assumes "h_Time parent \<le> time"
  shows "uint (time - h_Time parent) = uint time - uint (h_Time parent)"
  using assms by (simp add: uint_sub_lem [THEN iffD1] word_le_def)

lemma uint64_of: "0 \<le> n \<Longrightarrow> n < 2 ^ 64 \<Longrightarrow> uint (word_of_int n :: uint64) = n"
  by (simp add: uint_word_of_int_eq take_bit_int_eq_self)

lemma next_word: "(word_of_int n + 1 :: uint64) = word_of_int (n + 1)" "(1 + word_of_int n :: uint64) = word_of_int (n + 1)"
  by (simp_all add: add.commute)

lemma period_word:
  assumes "0 \<le> n" "n < 2 ^ 63"
  shows "1 < (word_of_int n :: uint64) div 100000 \<longleftrightarrow> 1 < n div 100000" "1 < n div 100000 \<Longrightarrow> unat ((word_of_int n :: uint64) div 100000 - 2) = nat (n div 100000 - 2)"
proof -
  have u: "uint ((word_of_int n :: uint64) div 100000) = n div 100000" using uint64_of [of n] assms by (simp add: uint_div)
  then show "1 < (word_of_int n :: uint64) div 100000 \<longleftrightarrow> 1 < n div 100000" by (simp add: word_less_def)
  assume "1 < n div 100000"
  then have "(2 :: uint64) \<le> word_of_int n div 100000" using u by (simp add: word_le_def)
  then have "uint ((word_of_int n :: uint64) div 100000 - 2) = n div 100000 - 2" using u by (simp add: uint_sub_lem [THEN iffD1] word_le_def)
  then show "unat ((word_of_int n :: uint64) div 100000 - 2) = nat (n div 100000 - 2)" by (simp add: unat_eq_nat_uint)
qed

text \<open>A large difficulty is not clamped.\<close>

lemma adjusted_large:
  assumes "2 ^ 18 \<le> d" "d < 2 ^ 240" "-99 \<le> k" "k \<le> 2"
  shows "adjusted d k = d + d div 2048 * k" "131072 \<le> d + d div 2048 * k" "d + d div 2048 * k < 2 ^ 241"
proof -
  have q: "0 \<le> d div 2048" "2048 * (d div 2048) \<le> d" using assms(1) by (simp_all add: pos_imp_zdiv_nonneg_iff)
  have "d div 2048 * - 99 \<le> d div 2048 * k" "d div 2048 * k \<le> d div 2048 * 2" using q(1) assms(3,4) by (intro mult_left_mono; simp)+
  then show "131072 \<le> d + d div 2048 * k" "d + d div 2048 * k < 2 ^ 241" using q(2) assms(1,2) by simp_all
  then show "adjusted d k = d + d div 2048 * k" by (simp add: adjusted_def)
qed

lemma bomb_less: "n < 25000000 \<Longrightarrow> bomb n < 2 ^ 250"
proof -
  assume "n < 25000000"
  then have "nat (n div 100000 - 2) \<le> 249" by simp
  then have "(2 :: int) ^ nat (n div 100000 - 2) \<le> 2 ^ 249" by (intro power_increasing) simp_all
  then show ?thesis by (simp add: bomb_def)
qed

context u256_package begin

lemma explode:
  assumes "131072 \<le> e" "e < 2 ^ 241" "0 \<le> n" "n < 25000000"
  shows "u_ToBig U (if 1 < (word_of_int n :: uint64) div 100000 then u_Add U (W e) (u_Lsh U (u_One U) (unat ((word_of_int n :: uint64) div 100000 - 2))) else W e)
    = e + bomb n"
proof -
  have n: "n < 2 ^ 63" using assms(4) by simp
  have "0 \<le> e + bomb n" "e + bomb n < 2 ^ 256" using assms(1,2) bomb_bounds(1) [of n] bomb_less [OF assms(4)] by simp_all
  note r = result [OF this]
  show ?thesis
  proof (cases "1 < n div 100000")
    case True
    then show ?thesis using r unfolding period_word [OF assms(3) n] if_P [OF True] ops period_word(2) [OF assms(3) n True] by (simp add: bomb_def)
  next
    case False
    then show ?thesis using r unfolding period_word(1) [OF assms(3) n] if_not_P [OF False] by (simp add: bomb_def)
  qed
qed

lemma fake_block:
  assumes e: "131072 \<le> e" "e < 2 ^ 241" and n: "0 \<le> n" "n < 20000000" and b: "1 \<le> delay" "delay < 2 ^ 63"
  shows "u_ToBig U (if (word_of_int delay - 1 :: uint64) \<le> word_of_int n \<and> 2 * 100000 \<le> (word_of_int n - (word_of_int delay - 1) :: uint64)
      then u_Add U (u_Lsh U (u_One U) (unat ((word_of_int n - (word_of_int delay - 1) :: uint64) div 100000 - 2))) (W e) else W e) =
    e + bomb (if delay - 1 \<le> n then n - (delay - 1) else 0)"
proof -
  have w: "uint (word_of_int delay - 1 :: uint64) = delay - 1" "uint (word_of_int n :: uint64) = n" "(word_of_int delay - 1 :: uint64) = word_of_int (delay - 1)"
    using uint64_of [of "delay - 1"] uint64_of [of n] b n by simp_all
  have le: "(word_of_int delay - 1 :: uint64) \<le> word_of_int n \<longleftrightarrow> delay - 1 \<le> n" by (simp only: word_le_def w(1,2))
  show ?thesis
  proof (cases "delay - 1 \<le> n")
    case True
    define m where "m = n - (delay - 1)"
    have m: "0 \<le> m" "m < 25000000" "m < 2 ^ 63" using True n b by (simp_all add: m_def)
    have f: "(word_of_int n - (word_of_int delay - 1) :: uint64) = word_of_int m" by (simp add: m_def)
    have two: "2 * 100000 \<le> (word_of_int m :: uint64) \<longleftrightarrow> 1 < (word_of_int m :: uint64) div 100000"
    proof -
      have "2 * 100000 \<le> (word_of_int m :: uint64) \<longleftrightarrow> 200000 \<le> m" using uint64_of [of m] m by (simp add: word_le_def)
      also have "\<dots> \<longleftrightarrow> 1 < m div 100000"
        using div_mult_mod_eq [of m 100000] pos_mod_bound [of 100000 m] pos_mod_sign [of 100000 m] by (intro iffI) linarith+
      finally show ?thesis unfolding period_word(1) [OF m(1,3)] .
    qed
    have "u_Add U (u_Lsh U (u_One U) j) (W e) = u_Add U (W e) (u_Lsh U (u_One U) j)" for j by (simp only: ops add.commute)
    then show ?thesis unfolding le f two using explode [OF e m(1,2)] True by (simp add: m_def [symmetric] split: if_splits)
  next
    case False
    then show ?thesis unfolding le using result [of e] e by (simp add: bomb_def)
  qed
qed

lemma frontier_U256:
  assumes t: "h_Time parent \<le> time" and d: "2 ^ 18 \<le> h_Difficulty parent" "h_Difficulty parent < 2 ^ 240"
    and n: "0 \<le> h_Number parent" "h_Number parent < 20000000"
  shows "CalcDifficultyFrontierU256 U time parent =
    h_Difficulty parent + h_Difficulty parent div 2048 * (if uint time - uint (h_Time parent) < 13 then 1 else -1) + bomb (h_Number parent + 1)"
proof -
  let ?d = "h_Difficulty parent"
  have d0: "0 \<le> ?d" "?d < 2 ^ 256" using d by simp_all
  define k :: int where "k = (if uint time - uint (h_Time parent) < 13 then 1 else -1)"
  define e where "e = ?d + ?d div 2048 * k"
  have e: "131072 \<le> e" "e < 2 ^ 241" using adjusted_large [OF d, of k] by (simp_all add: e_def k_def)
  have a: "(if time - h_Time parent < 13 then u_Add U (W ?d) (W (?d div 2048)) else u_Sub U (W ?d) (W (?d div 2048))) = W e"
    unfolding word_less_def elapsed [OF t] ops e_def by (simp add: k_def)
  have c: "(if u_LtUint64 U (W e) 131072 then u_SetUint64 U 131072 else W e) = W e" using no_clamp [OF e(1)] e(2) by simp
  have "CalcDifficultyFrontierU256 U time parent = e + bomb (h_Number parent + 1)"
    unfolding CalcDifficultyFrontierU256_def Let_def ops(6) [OF d0(1)] ops(7) [OF d0] a c next_word using n by (intro explode [OF e]) simp_all
  then show ?thesis by (simp add: e_def k_def)
qed

text \<open>The factor of the Homestead rules, with its sign apart.\<close>

lemma homestead_U256:
  assumes t: "h_Time parent \<le> time" and d: "2 ^ 18 \<le> h_Difficulty parent" "h_Difficulty parent < 2 ^ 240"
    and n: "0 \<le> h_Number parent" "h_Number parent < 20000000"
  shows "CalcDifficultyHomesteadU256 U time parent = calcDifficultyHomestead time parent"
proof -
  let ?d = "h_Difficulty parent"
  have d0: "0 \<le> ?d" "?d < 2 ^ 256" using d by simp_all
  define X where "X = (uint time - uint (h_Time parent)) div 10"
  define x where "x = (time - h_Time parent) div 10"
  have x: "uint x = X" by (simp add: x_def X_def uint_div elapsed [OF t])
  define k where "k = max (-99) (1 - X)"
  define e where "e = ?d + ?d div 2048 * k"
  have "0 \<le> X" using x uint_ge_0 [of x] by simp
  then have k: "-99 \<le> k" "k \<le> 2" by (simp_all add: k_def)
  note e = adjusted_large [OF d k, folded e_def]
  define y where "y = (if x = 0 then 1 else if 100 \<le> x then 99 else x - 1)"
  have y: "uint y = (if x = 0 then k else - k)"
  proof -
    have "x = 0 \<longleftrightarrow> X = 0" "100 \<le> x \<longleftrightarrow> 100 \<le> X" using x by (auto simp: word_le_def uint_0_iff)
    moreover have "uint (x - 1) = X - 1" if "X \<noteq> 0" using that x \<open>0 \<le> X\<close> by (simp add: uint_sub_lem [THEN iffD1] word_le_def)
    ultimately show ?thesis by (auto simp: y_def k_def)
  qed
  have a: "(if x \<noteq> 0 then u_Sub U (W ?d) (u_Mul U (W (?d div 2048)) (u_SetUint64 U y)) else u_Add U (W ?d) (u_Mul U (W (?d div 2048)) (u_SetUint64 U y))) = W e"
    unfolding ops y e_def by simp
  have c: "(if u_LtUint64 U (W e) 131072 then u_SetUint64 U 131072 else W e) = W e" using no_clamp [OF e(2)] e(3) by simp
  have "CalcDifficultyHomesteadU256 U time parent = e + bomb (h_Number parent + 1)"
    unfolding CalcDifficultyHomesteadU256_def Let_def ops(6) [OF d0(1)] ops(7) [OF d0] x_def [symmetric] y_def [symmetric] a c next_word
    using n by (intro explode [OF e(2,3)]) simp_all
  then show ?thesis using e(1) by (simp add: calcHomestead_adjusted k_def X_def)
qed

lemma byzantium_U256:
  assumes t: "h_Time parent \<le> time" and d: "2 ^ 18 \<le> h_Difficulty parent" "h_Difficulty parent < 2 ^ 240"
    and n: "0 \<le> h_Number parent" "h_Number parent < 20000000" and b: "1 \<le> delay" "delay < 2 ^ 63"
  shows "MakeDifficultyCalculatorU256 U K delay time parent = makeDifficultyCalculator K delay time parent"
proof -
  let ?d = "h_Difficulty parent"
  have d0: "0 \<le> ?d" "?d < 2 ^ 256" using d by simp_all
  define c :: uint64 where "c = (if h_UncleHash parent \<noteq> EmptyUncleHash K then 2 else 1)"
  have c: "uint c = (if h_UncleHash parent = EmptyUncleHash K then 1 else 2)" by (simp add: c_def)
  define x where "x = (time - h_Time parent) div 9"
  define k where "k = max (-99) (uint c - uint x)"
  have X: "uint x = (uint time - uint (h_Time parent)) div 9" by (simp add: x_def uint_div elapsed [OF t])
  have "0 \<le> uint x" "uint c \<le> 2" using c by simp_all
  then have k: "-99 \<le> k" "k \<le> 2" unfolding k_def by linarith+
  define e where "e = ?d + ?d div 2048 * k"
  note e = adjusted_large [OF d k, folded e_def]
  define y0 where "y0 = (if c \<le> x then x - c else c - x)"
  define y where "y = (if 99 < y0 then 99 else y0)"
  have y: "uint y = (if c \<le> x then - k else k)"
  proof (cases "c \<le> x")
    case True
    then have "uint y0 = uint x - uint c" by (simp add: y0_def uint_sub_lem [THEN iffD1] word_le_def)
    then show ?thesis using True by (auto simp: y_def k_def word_less_def word_le_def)
  next
    case False
    have "uint c - uint x \<le> 2" using \<open>0 \<le> uint x\<close> \<open>uint c \<le> 2\<close> by linarith
    moreover have "uint y0 = uint c - uint x" using False by (simp add: y0_def uint_sub_lem [THEN iffD1] word_le_def)
    ultimately show ?thesis using False by (auto simp: y_def k_def word_less_def word_le_def)
  qed
  have a: "(if c \<le> x then u_Sub U (W ?d) (u_Mul U (W (?d div 2048)) (u_SetUint64 U y)) else u_Add U (W ?d) (u_Mul U (W (?d div 2048)) (u_SetUint64 U y))) = W e"
    unfolding ops y e_def by simp
  have cl: "(if u_LtUint64 U (W e) 131072 then u_SetUint64 U 131072 else W e) = W e" using no_clamp [OF e(2)] e(3) by simp
  note calc = MakeDifficultyCalculatorU256_def [of U K delay time parent, unfolded Let_def, unfolded ops(6) [OF d0(1)] ops(7) [OF d0] c_def [symmetric]
      x_def [symmetric] y0_def [symmetric] y_def [symmetric] a cl]
  show ?thesis using fake_block [OF e(2,3) n b] e(1) c X unfolding calc makeDifficulty_adjusted k_def by simp
qed

end

interpretation word_package: u256_package word_uint256
  by unfold_locales (rule word_uint256_ok, simp add: uint256_arith_def word_uint256_def)



end
