(* ===== verification/Ethash_Verify.thy ===== *)
theory Ethash_Verify
  imports Ethash_Difficulty Evm_Analysis
begin

section \<open>Verification of headers and uncles\<close>

text \<open>
  \<open>verifyHeader\<close> and \<open>VerifyUncles\<close> of \<open>src/consensus/ethash/consensus.go\<close> with the fork checks of
  \<open>src/consensus/misc\<close>, and the choice of the smoke limit of the next block by \<open>CalcSmokeLimit\<close> of
  \<open>src/core/block_validator.go\<close>. The clock, the proof of work and the chain are arguments. It is
  shown what an accepted header and an accepted list of uncles satisfy, and that a miner's smoke
  limit is one that the verification accepts.
\<close>

subsection \<open>Model\<close>

datatype header_err =
    ErrExtraData
  | ErrFutureBlock
  | errOlderBlockTime
  | ErrDifficulty
  | ErrSmokeLimitCap
  | ErrSmokeUsed
  | ErrSmokeLimitBound
  | ErrInvalidNumber
  | ErrSeal
  | ErrBadProDAOExtra
  | ErrBadNoDAOExtra
  | ErrForkHash
  | errTooManyUncles
  | errDuplicateUncle
  | errUncleIsAncestor
  | errDanglingUncle

definition VerifyDAOHeaderExtraData :: "ChainConfig \<Rightarrow> Header \<Rightarrow> header_err option" where
  "VerifyDAOHeaderExtraData config header =
    (case cfg_DAOForkBlock config of
       None \<Rightarrow> None
     | Some fork_block \<Rightarrow>
         (let limit = fork_block + 10;
              extra = [0x64, 0x61, 0x6F, 0x2D, 0x68, 0x61, 0x72, 0x64, 0x2D, 0x66, 0x6F, 0x72, 0x6B]
          in if h_Number header < fork_block \<or> limit \<le> h_Number header then None
             else if cfg_DAOForkSupport config
             then (if h_Extra header \<noteq> extra then Some ErrBadProDAOExtra else None)
             else (if h_Extra header = extra then Some ErrBadNoDAOExtra else None)))"

definition VerifyForkHashes :: "(bytes \<Rightarrow> hash) \<Rightarrow> ChainConfig \<Rightarrow> Header \<Rightarrow> bool \<Rightarrow> header_err option" where
  "VerifyForkHashes keccak config header uncle =
    (if uncle then None
     else if cfg_EIP150Block config = Some (h_Number header) \<and>
             cfg_EIP150Hash config \<noteq> replicate 32 0 \<and> cfg_EIP150Hash config \<noteq> header_Hash keccak header
     then Some ErrForkHash
     else None)"

text \<open>\<open>now\<close> is the time of the node in seconds, \<open>seal\<close> the check of the proof of work where it is made.\<close>

definition verifyHeader ::
  "(bytes \<Rightarrow> hash) \<Rightarrow> ChainConfig \<Rightarrow> uint64 \<Rightarrow> (Header \<Rightarrow> header_err option) \<Rightarrow> Header \<Rightarrow> Header \<Rightarrow> bool \<Rightarrow> bool \<Rightarrow> header_err option" where
  "verifyHeader keccak config now VerifySeal header parent uncle seal =
    (if 32 < (word_of_nat (length (h_Extra header)) :: uint64) then Some ErrExtraData
     else if \<not> uncle \<and> now + 15 < h_Time header then Some ErrFutureBlock
     else if h_Time header \<le> h_Time parent then Some errOlderBlockTime
     else if CalcDifficulty keccak config (h_Time header) parent \<noteq> h_Difficulty header then Some ErrDifficulty
     else if 0x7FFFFFFFFFFFFFFF < h_SmokeLimit header then Some ErrSmokeLimitCap
     else if h_SmokeLimit header < h_SmokeUsed header then Some ErrSmokeUsed
     else let diff = h_SmokeLimit parent - h_SmokeLimit header;
              diff = (if sint diff < 0 then - diff else diff);
              limit = h_SmokeLimit parent div 1024
     in if limit \<le> diff \<or> h_SmokeLimit header < 5000 then Some ErrSmokeLimitBound
     else if h_Number header - h_Number parent \<noteq> 1 then Some ErrInvalidNumber
     else case (if seal then VerifySeal header else None) of
            Some e \<Rightarrow> Some e
          | None \<Rightarrow>
              (case VerifyDAOHeaderExtraData config header of
                 Some e \<Rightarrow> Some e
               | None \<Rightarrow> VerifyForkHashes keccak config header uncle))"

text \<open>The hashes of past uncles and the past headers, from at most \<open>n\<close> blocks of the chain.\<close>

fun gather_ancestors ::
  "(bytes \<Rightarrow> hash) \<Rightarrow> (hash \<Rightarrow> uint64 \<Rightarrow> Block option) \<Rightarrow> nat \<Rightarrow> hash \<Rightarrow> uint64 \<Rightarrow> hash set \<times> (hash \<rightharpoonup> Header) \<Rightarrow> hash set \<times> (hash \<rightharpoonup> Header)" where
  "gather_ancestors keccak GetBlock 0 parent number acc = acc"
| "gather_ancestors keccak GetBlock (Suc n) parent number (uncles, ancestors) =
    (case GetBlock parent number of
       None \<Rightarrow> (uncles, ancestors)
     | Some ancestor \<Rightarrow>
         gather_ancestors keccak GetBlock n (h_ParentHash (b_header ancestor)) (number - 1)
           (uncles \<union> header_Hash keccak ` set (b_uncles ancestor),
            ancestors(header_Hash keccak (b_header ancestor) \<mapsto> b_header ancestor)))"

fun check_uncles ::
  "(bytes \<Rightarrow> hash) \<Rightarrow> (Header \<Rightarrow> Header \<Rightarrow> header_err option) \<Rightarrow> hash \<Rightarrow> (hash \<rightharpoonup> Header) \<Rightarrow> Header list \<Rightarrow> hash set \<Rightarrow> header_err option" where
  "check_uncles keccak verify parentHash ancestors [] uncles = None"
| "check_uncles keccak verify parentHash ancestors (uncle # rest) uncles =
    (let hash = header_Hash keccak uncle
     in if hash \<in> uncles then Some errDuplicateUncle
        else if ancestors hash \<noteq> None then Some errUncleIsAncestor
        else case ancestors (h_ParentHash uncle) of
               None \<Rightarrow> Some errDanglingUncle
             | Some parent \<Rightarrow>
                 (if h_ParentHash uncle = parentHash then Some errDanglingUncle
                  else case verify uncle parent of
                         Some e \<Rightarrow> Some e
                       | None \<Rightarrow> check_uncles keccak verify parentHash ancestors rest (insert hash uncles)))"

definition VerifyUncles ::
  "(bytes \<Rightarrow> hash) \<Rightarrow> ChainConfig \<Rightarrow> uint64 \<Rightarrow> (Header \<Rightarrow> header_err option) \<Rightarrow> (hash \<Rightarrow> uint64 \<Rightarrow> Block option) \<Rightarrow> bool \<Rightarrow> Block \<Rightarrow> header_err option" where
  "VerifyUncles keccak config now VerifySeal GetBlock fullFake block =
    (if fullFake then None
     else if 2 < length (b_uncles block) then Some errTooManyUncles
     else if length (b_uncles block) = 0 then None
     else let header = b_header block;
              (uncles, ancestors) = gather_ancestors keccak GetBlock 7 (h_ParentHash header) (word_of_int (h_Number header) - 1) ({}, Map.empty);
              ancestors = ancestors(header_Hash keccak header \<mapsto> header);
              uncles = insert (header_Hash keccak header) uncles
     in check_uncles keccak (\<lambda>uncle parent. verifyHeader keccak config now VerifySeal uncle parent True True)
          (h_ParentHash header) ancestors (b_uncles block) uncles)"

definition CalcSmokeLimit :: "Header \<Rightarrow> uint64 \<Rightarrow> uint64 \<Rightarrow> uint64" where
  "CalcSmokeLimit parent smokeFloor smokeCeil =
    (let contrib = (h_SmokeUsed parent + h_SmokeUsed parent div 2) div 1024;
         decay = h_SmokeLimit parent div 1024 - 1;
         limit = h_SmokeLimit parent - decay + contrib;
         limit = (if limit < 5000 then 5000 else limit)
     in if limit < smokeFloor
        then let limit = h_SmokeLimit parent + decay in if smokeFloor < limit then smokeFloor else limit
        else if smokeCeil < limit
        then let limit = h_SmokeLimit parent - decay in if limit < smokeCeil then smokeCeil else limit
        else limit)"

subsection \<open>Accepted headers\<close>

lemma guards: "(if c then Some e else x) = None \<longleftrightarrow> \<not> c \<and> x = None" "(case y of None \<Rightarrow> x | Some e \<Rightarrow> Some e) = None \<longleftrightarrow> y = None \<and> x = None"
  by (simp_all split: option.splits)

lemma uint64_less: "uint (x :: uint64) < 2 ^ 63 \<longleftrightarrow> x \<le> 0x7FFFFFFFFFFFFFFF"
  by (simp add: word_le_def) linarith

text \<open>The distance of two limits on 64 bits, as the code computes it.\<close>

lemma limit_distance:
  fixes p h :: uint64
  assumes "p \<le> 0x7FFFFFFFFFFFFFFF" "h \<le> 0x7FFFFFFFFFFFFFFF"
  shows "uint (if sint (p - h) < 0 then - (p - h) else p - h) = \<bar>uint p - uint h\<bar>"
proof -
  have b: "uint p < 2 ^ 63" "uint h < 2 ^ 63" "0 \<le> uint p" "0 \<le> uint h" using assms uint64_less by simp_all
  have s: "sint (p - h) = uint p - uint h"
  proof -
    have "sint (word_of_int (uint p - uint h) :: uint64) = signed_take_bit 63 (uint p - uint h)" by (subst sint_sbintrunc') simp
    also have "\<dots> = uint p - uint h" using b by (intro signed_take_bit_int_eq_self) linarith+
    finally show ?thesis by simp
  qed
  show ?thesis
  proof (cases "uint p < uint h")
    case True
    then have "uint (h - p) = uint h - uint p" by (simp add: uint_sub_lem [THEN iffD1])
    then show ?thesis using True s by simp
  next
    case False
    then have "uint (p - h) = uint p - uint h" by (simp add: uint_sub_lem [THEN iffD1])
    then show ?thesis using False s by simp
  qed
qed

lemma limit_check:
  fixes p h :: uint64
  assumes "p \<le> 0x7FFFFFFFFFFFFFFF" "h \<le> 0x7FFFFFFFFFFFFFFF"
  shows "p div 1024 \<le> (if sint (p - h) < 0 then - (p - h) else p - h) \<longleftrightarrow> uint p div 1024 \<le> \<bar>uint p - uint h\<bar>"
  unfolding word_le_def [of "p div 1024"] limit_distance [OF assms] by (simp add: uint_div)

text \<open>
  C14. An accepted header continues its parent: the next number, a later time, exactly the difficulty
  that the rules ask for and at least the minimum, a smoke limit that differs by less than a 1024th
  part and is at least 5000, at most this much smoke used, and extra data of at most 32 bytes; and it
  is not more than 15 seconds ahead of the clock, unless it is an uncle.
\<close>

theorem verifyHeader_sound:
  assumes "verifyHeader K config now VerifySeal header parent uncle seal = None"
    and "h_SmokeLimit parent \<le> 0x7FFFFFFFFFFFFFFF" "0 \<le> h_Number parent" "0 \<le> h_Difficulty parent" "length (h_Extra header) < 2 ^ 63"
  shows "h_Number header = h_Number parent + 1 \<and> h_Time parent < h_Time header \<and> (\<not> uncle \<longrightarrow> h_Time header \<le> now + 15) \<and>
    h_Difficulty header = CalcDifficulty K config (h_Time header) parent \<and> 130130 \<le> h_Difficulty header \<and>
    \<bar>uint (h_SmokeLimit parent) - uint (h_SmokeLimit header)\<bar> < uint (h_SmokeLimit parent) div 1024 \<and>
    5000 \<le> h_SmokeLimit header \<and> h_SmokeLimit header \<le> 0x7FFFFFFFFFFFFFFF \<and> h_SmokeUsed header \<le> h_SmokeLimit header \<and>
    length (h_Extra header) \<le> 32 \<and> (seal \<longrightarrow> VerifySeal header = None)"
proof -
  have e: "unat (word_of_nat (length (h_Extra header)) :: uint64) = length (h_Extra header)" by (rule len_word [OF assms(5)])
  have checks: "\<not> 32 < (word_of_nat (length (h_Extra header)) :: uint64)" "uncle \<or> \<not> now + 15 < h_Time header" "\<not> h_Time header \<le> h_Time parent"
    "CalcDifficulty K config (h_Time header) parent = h_Difficulty header" "\<not> 0x7FFFFFFFFFFFFFFF < h_SmokeLimit header"
    "\<not> h_SmokeLimit header < h_SmokeUsed header"
    "\<not> h_SmokeLimit parent div 1024 \<le> (if sint (h_SmokeLimit parent - h_SmokeLimit header) < 0
        then - (h_SmokeLimit parent - h_SmokeLimit header) else h_SmokeLimit parent - h_SmokeLimit header)"
    "\<not> h_SmokeLimit header < 5000" "h_Number header - h_Number parent = 1" "seal \<longrightarrow> VerifySeal header = None"
    using assms(1) unfolding verifyHeader_def Let_def guards by (simp_all split: if_splits)
  have "130130 \<le> CalcDifficulty K config (h_Time header) parent"
    using CalcDifficulty_bounds_low [of parent "h_Time header"] checks(3) assms(3,4) by (simp add: not_le)
  moreover have "length (h_Extra header) \<le> 32" using checks(1) e by (simp add: word_less_nat_alt)
  ultimately show ?thesis
    using checks(2-6,8-10) checks(7) [unfolded limit_check [OF assms(2) checks(5) [unfolded not_less]]] by (auto simp: not_less not_le)
qed

definition ex_child :: Header where
  "ex_child = ex_header\<lparr>h_Number := 2500001, h_Time := 1010, h_Difficulty := CalcDifficulty (\<lambda>_. replicate 32 0) example_config 1010 ex_header\<rparr>"

theorem verifyHeader_sound_witness:
  "verifyHeader (\<lambda>_. replicate 32 0) example_config 1000 (\<lambda>_. None) ex_child ex_header False True = None \<and> 130130 \<le> h_Difficulty ex_child"
proof -
  have v: "verifyHeader (\<lambda>_. replicate 32 0) example_config 1000 (\<lambda>_. None) ex_child ex_header False True = None"
    by (simp add: verifyHeader_def ex_child_def ex_header_def VerifyDAOHeaderExtraData_def VerifyForkHashes_def example_config_def)
  have p: "h_SmokeLimit ex_header \<le> 0x7FFFFFFFFFFFFFFF" "0 \<le> h_Number ex_header" "0 \<le> h_Difficulty ex_header" "length (h_Extra ex_child) < 2 ^ 63"
    by (simp_all add: ex_header_def ex_child_def)
  show ?thesis using verifyHeader_sound [OF v p] v by blast
qed

subsection \<open>Accepted uncles\<close>

text \<open>What the chain promises: a block is found under its own hash and number.\<close>

definition chain_ok :: "(bytes \<Rightarrow> hash) \<Rightarrow> (hash \<Rightarrow> uint64 \<Rightarrow> Block option) \<Rightarrow> bool" where
  "chain_ok K GetBlock \<longleftrightarrow>
    (\<forall>h n b. GetBlock h n = Some b \<longrightarrow> header_Hash K (b_header b) = h \<and> h_Number (b_header b) = uint n \<and> n \<le> 0x7FFFFFFFFFFFFFFF)"

lemma gather_grows:
  "gather_ancestors K GetBlock k parent n (U, M) = (U', M') \<Longrightarrow> U \<subseteq> U'"
proof (induction k arbitrary: parent n U M)
  case (Suc k)
  then show ?case by (fastforce split: option.splits)
qed simp

text \<open>The gathered headers are the last ones before the block, by number, and each is found under its hash.\<close>

lemma gather_numbers:
  assumes "chain_ok K GetBlock" "gather_ancestors K GetBlock k parent n (U, M) = (U', M')" "M' h = Some anc" "M h \<noteq> Some anc"
  shows "header_Hash K anc = h \<and> uint n - int k < h_Number anc \<and> h_Number anc \<le> uint n \<and> (h_Number anc = uint n \<longrightarrow> h = parent)"
  using assms(2-4)
proof (induction k arbitrary: parent n U M)
  case (Suc k)
  obtain b where b: "GetBlock parent n = Some b" using Suc.prems by (cases "GetBlock parent n") auto
  let ?h = "header_Hash K (b_header b)"
  have c: "?h = parent" "h_Number (b_header b) = uint n" "n \<le> 0x7FFFFFFFFFFFFFFF" using assms(1) b by (auto simp: chain_ok_def)
  have g: "gather_ancestors K GetBlock k (h_ParentHash (b_header b)) (n - 1) (U \<union> header_Hash K ` set (b_uncles b), M(?h \<mapsto> b_header b)) = (U', M')"
    using Suc.prems(1) b by simp
  show ?case
  proof (cases "(M(?h \<mapsto> b_header b)) h = Some anc")
    case True
    then have "h = ?h" "anc = b_header b" using Suc.prems(3) by (auto split: if_splits)
    then show ?thesis using c by simp
  next
    case False
    note r = Suc.IH [OF g Suc.prems(2) False]
    have "n \<noteq> 0"
    proof
      assume "n = 0"
      then have "n - 1 = 0xFFFFFFFFFFFFFFFF" by simp
      then have "\<not> n - 1 \<le> 0x7FFFFFFFFFFFFFFF" by (simp only:) simp
      then have "GetBlock (h_ParentHash (b_header b)) (n - 1) = None" using assms(1) unfolding chain_ok_def by (metis not_None_eq)
      then have "M' = M(?h \<mapsto> b_header b)" using g by (cases k) auto
      then show False using Suc.prems(2) False by simp
    qed
    then have "uint n \<noteq> 0" by (simp add: uint_0_iff)
    then have "1 \<le> uint n" using uint_ge_0 [of n] by linarith
    then have "uint (n - 1) = uint n - 1" by (simp add: uint_sub_lem [THEN iffD1])
    then show ?thesis using r by auto
  qed
qed simp

lemma check_uncles_accepts:
  assumes "check_uncles K verify ph M us U = None"
  shows "distinct (map (header_Hash K) us)" "\<forall>u\<in>set us. header_Hash K u \<notin> U \<and> M (header_Hash K u) = None \<and> h_ParentHash u \<noteq> ph \<and>
    (\<exists>p. M (h_ParentHash u) = Some p \<and> verify u p = None)"
proof -
  have "distinct (map (header_Hash K) us) \<and> (\<forall>u\<in>set us. header_Hash K u \<notin> U \<and> M (header_Hash K u) = None \<and> h_ParentHash u \<noteq> ph \<and>
    (\<exists>p. M (h_ParentHash u) = Some p \<and> verify u p = None))" using assms
  proof (induction us arbitrary: U)
    case (Cons u us)
    obtain p where p: "M (h_ParentHash u) = Some p" using Cons.prems by (cases "M (h_ParentHash u)") (auto simp: Let_def split: if_splits)
    then have h: "header_Hash K u \<notin> U" "M (header_Hash K u) = None" "h_ParentHash u \<noteq> ph" "verify u p = None"
      "check_uncles K verify ph M us (insert (header_Hash K u) U) = None"
      using Cons.prems by (auto simp: Let_def split: if_splits option.splits)
    then show ?case using Cons.IH [OF h(5)] p by auto
  qed simp
  then show "distinct (map (header_Hash K) us)" "\<forall>u\<in>set us. header_Hash K u \<notin> U \<and> M (header_Hash K u) = None \<and> h_ParentHash u \<noteq> ph \<and>
    (\<exists>p. M (h_ParentHash u) = Some p \<and> verify u p = None)" by blast+
qed


text \<open>A chain of two blocks, where the hash of a header is the last byte of its nonce, and an uncle of the third.\<close>

definition ex_last :: "bytes \<Rightarrow> hash" where
  "ex_last b = replicate 31 0 @ drop (length b - 1) b"

abbreviation ex_id :: "byte \<Rightarrow> hash" where
  "ex_id i \<equiv> replicate 31 0 @ [i]"

definition ex_link :: "int \<Rightarrow> byte \<Rightarrow> byte \<Rightarrow> int \<Rightarrow> uint64 \<Rightarrow> Header" where
  "ex_link n p i d t = \<lparr>h_ParentHash = ex_id p, h_UncleHash = replicate 32 0, h_Coinbase = replicate 20 7, h_Root = replicate 32 0,
    h_TxHash = replicate 32 0, h_ReceiptHash = replicate 32 0, h_Bloom = replicate 256 0, h_Difficulty = d, h_Number = n,
    h_SmokeLimit = 8000000, h_SmokeUsed = 8000000, h_Time = t, h_Extra = [], h_MixDigest = replicate 32 0, h_Nonce = replicate 7 0 @ [i]\<rparr>"

abbreviation ex_b6 :: Block where "ex_b6 \<equiv> \<lparr>b_header = ex_link 6 5 6 1000000 1000, b_uncles = [], b_transactions = []\<rparr>"
abbreviation ex_b7 :: Block where "ex_b7 \<equiv> \<lparr>b_header = ex_link 7 6 7 1000488 1010, b_uncles = [], b_transactions = []\<rparr>"

abbreviation ex_uncle :: Header where "ex_uncle \<equiv> ex_link 7 6 9 1000488 1011"

abbreviation ex_b8 :: Block where "ex_b8 \<equiv> \<lparr>b_header = ex_link 8 7 8 1000488 1020, b_uncles = [ex_uncle], b_transactions = []\<rparr>"

definition ex_chain :: "hash \<Rightarrow> uint64 \<Rightarrow> Block option" where
  "ex_chain h n = (if h = ex_id 7 \<and> n = 7 then Some ex_b7 else if h = ex_id 6 \<and> n = 6 then Some ex_b6 else None)"

lemmas ex_encoding = ex_link_def rlp_string_def rlp_list_def rlp_head_def be_bytes.simps ex_last_def

lemma ex_link_Hash:
  "header_Hash ex_last (ex_link 6 5 6 1000000 1000) = ex_id 6"
  "header_Hash ex_last (ex_link 7 6 7 1000488 1010) = ex_id 7"
  "header_Hash ex_last (ex_link 8 7 8 1000488 1020) = ex_id 8"
  "header_Hash ex_last ex_uncle = ex_id 9"
  unfolding header_Hash_def by (subst EncodeToBytes_enc; simp add: ex_encoding)+

lemma ex_chain_ok: "chain_ok ex_last ex_chain"
  by (auto simp: chain_ok_def ex_chain_def ex_link_Hash split: if_splits) (simp_all add: ex_link_def)

lemma ex_no_uncles: "replicate 32 0 \<noteq> EmptyUncleHash ex_last"
  by (auto simp: ex_last_def dest: arg_cong [where f = last])

lemma ex_uncle_header: "verifyHeader ex_last example_config 2000 (\<lambda>_. None) ex_uncle (b_header ex_b6) True True = None"
  by (simp add: verifyHeader_def ex_link_def CalcDifficulty_def makeDifficultyCalculator_def VerifyDAOHeaderExtraData_def VerifyForkHashes_def example_config_def ex_no_uncles)

lemma ex_gather:
  "gather_ancestors ex_last ex_chain 7 (ex_id 7) 7 ({}, Map.empty) = ({}, [ex_id 7 \<mapsto> b_header ex_b7, ex_id 6 \<mapsto> b_header ex_b6])"
proof -
  have "h_ParentHash (b_header ex_b7) = ex_id 6" "h_ParentHash (b_header ex_b6) = ex_id 5" by (simp_all add: ex_link_def)
  then show ?thesis by (simp add: eval_nat_numeral ex_chain_def ex_link_Hash)
qed

lemma ex_uncle_accepted: "VerifyUncles ex_last example_config 2000 (\<lambda>_. None) ex_chain False ex_b8 = None"
proof -
  have f: "h_ParentHash (b_header ex_b8) = ex_id 7" "h_Number (b_header ex_b8) = 8" "h_ParentHash ex_uncle = ex_id 6" by (simp_all add: ex_link_def)
  then show ?thesis using ex_uncle_header by (simp add: VerifyUncles_def ex_gather ex_link_Hash f)
qed


subsection \<open>The smoke limit of the next block\<close>

text \<open>The limit in unbounded integers; no step of the code wraps around for a parent that the verification accepts.\<close>

definition limit_spec :: "int \<Rightarrow> int \<Rightarrow> int \<Rightarrow> int \<Rightarrow> int" where
  "limit_spec L used floor ceil =
    (let decay = L div 1024 - 1; limit = max 5000 (L - decay + (used + used div 2) div 1024)
     in if limit < floor then min floor (L + decay) else if ceil < limit then max ceil (L - decay) else limit)"

lemma uint_plus: "uint (x :: uint64) + uint y < 2 ^ 64 \<Longrightarrow> uint (x + y) = uint x + uint y"
  by (simp add: uint_add_lem [THEN iffD1])

lemma uint_minus: "uint (y :: uint64) \<le> uint x \<Longrightarrow> uint (x - y) = uint x - uint y"
  by (simp add: uint_sub_lem [THEN iffD1])

lemma CalcSmokeLimit_spec:
  fixes parent floor ceil
  defines "L \<equiv> uint (h_SmokeLimit parent)" and "u \<equiv> uint (h_SmokeUsed parent)"
  assumes "5000 \<le> L" "L < 2 ^ 63" "u \<le> L"
  shows "uint (CalcSmokeLimit parent floor ceil) = limit_spec L u (uint floor) (uint ceil)"
proof -
  let ?L = "h_SmokeLimit parent" let ?u = "h_SmokeUsed parent"
  have n: "0 \<le> u" by (simp add: u_def)
  have half: "uint (?u div 2) = u div 2" by (simp add: uint_div u_def)
  have contrib: "uint ((?u + ?u div 2) div 1024) = (u + u div 2) div 1024"
    using assms(4,5) n half by (simp add: uint_div uint_plus u_def)
  have decay: "uint (?L div 1024 - 1) = L div 1024 - 1"
    using assms(3) by (subst uint_minus) (simp_all add: uint_div L_def)
  have down: "uint (?L - (?L div 1024 - 1)) = L - (L div 1024 - 1)"
    using assms(3) decay by (subst uint_minus) (simp_all add: L_def)
  have up: "uint (?L + (?L div 1024 - 1)) = L + (L div 1024 - 1)"
    using assms(3,4) decay by (subst uint_plus) (simp_all add: L_def)
  have lim: "uint (?L - (?L div 1024 - 1) + (?u + ?u div 2) div 1024) = L - (L div 1024 - 1) + (u + u div 2) div 1024"
    using assms(3-5) n down contrib by (subst uint_plus) simp_all
  show ?thesis
    unfolding CalcSmokeLimit_def limit_spec_def Let_def word_less_def
    by (simp add: lim up down max_def min_def)
qed

text \<open>A full parent raises the limit by less than the bound, from 5120 on.\<close>

lemma contrib_small:
  fixes L u :: int
  assumes "5120 \<le> L" "0 \<le> u" "u \<le> L"
  shows "(u + u div 2) div 1024 + 2 \<le> 2 * (L div 1024)"
proof -
  have "5 \<le> L div 1024" using zdiv_mono1 [OF assms(1), of 1024] by simp
  moreover have "L < 1024 * (L div 1024) + 1024" "2 * (u div 2) \<le> u"
    "1024 * ((u + u div 2) div 1024) \<le> u + u div 2" by linarith+
  ultimately show ?thesis using assms by linarith
qed

lemma limit_spec_range:
  assumes "5120 \<le> L" "0 \<le> u" "u \<le> L"
  shows "\<bar>L - limit_spec L u floor ceil\<bar> < L div 1024" "5000 \<le> limit_spec L u floor ceil"
    "floor \<le> L \<Longrightarrow> L \<le> ceil \<Longrightarrow> floor \<le> limit_spec L u floor ceil \<and> limit_spec L u floor ceil \<le> ceil"
proof -
  define q c where "q = L div 1024" and "c = (u + u div 2) div 1024"
  have f: "c + 2 \<le> 2 * q" "0 \<le> c" "5 \<le> q" "1024 * q \<le> L"
    using contrib_small [OF assms] zdiv_mono1 [OF assms(1), of 1024] assms by (simp_all add: q_def c_def)
  have s: "limit_spec L u floor ceil =
    (if L - q + 1 + c < floor then min floor (L + q - 1) else if ceil < L - q + 1 + c then max ceil (L - q + 1) else L - q + 1 + c)"
    using f assms(1) by (simp add: limit_spec_def Let_def q_def [symmetric] c_def [symmetric] max_absorb2 algebra_simps)
  show "\<bar>L - limit_spec L u floor ceil\<bar> < L div 1024" "5000 \<le> limit_spec L u floor ceil"
    unfolding s q_def [symmetric] using f assms(1) by (auto simp: min_def max_def)
  show "floor \<le> limit_spec L u floor ceil \<and> limit_spec L u floor ceil \<le> ceil" if "floor \<le> L" "L \<le> ceil"
    unfolding s using f assms(1) that by (auto simp: min_def max_def)
qed

text \<open>
  C30. The limit that a miner proposes is one that every node accepts. For a parent that was itself
  accepted, with a limit of at least 5120, it differs from the limit of the parent by less than its
  1024th part, as \<open>verifyHeader\<close> asks, and is at least 5000; and a limit inside the range that the miner
  wants stays inside.
\<close>

theorem CalcSmokeLimit_accepted:
  fixes parent floor ceil
  defines "L \<equiv> uint (h_SmokeLimit parent)" and "limit \<equiv> CalcSmokeLimit parent floor ceil"
  assumes "5120 \<le> L" "L < 2 ^ 63" "h_SmokeUsed parent \<le> h_SmokeLimit parent"
  shows "\<bar>L - uint limit\<bar> < L div 1024 \<and> 5000 \<le> limit \<and>
    (floor \<le> h_SmokeLimit parent \<and> h_SmokeLimit parent \<le> ceil \<longrightarrow> floor \<le> limit \<and> limit \<le> ceil)"
proof -
  let ?u = "uint (h_SmokeUsed parent)"
  have u: "?u \<le> L" "0 \<le> ?u" using assms(5) by (simp_all add: word_le_def L_def)
  have l: "uint limit = limit_spec L ?u (uint floor) (uint ceil)"
    unfolding limit_def L_def using CalcSmokeLimit_spec [of parent floor ceil] assms(3,4) u by (simp add: L_def)
  show ?thesis unfolding word_le_def l using limit_spec_range [OF assms(3) u(2,1)] by (simp add: L_def)
qed

theorem CalcSmokeLimit_accepted_witness:
  "CalcSmokeLimit (b_header ex_b6) 7000000 9000000 = 8003907 \<and> \<bar>8000000 - uint (CalcSmokeLimit (b_header ex_b6) 7000000 9000000)\<bar> < 8000000 div 1024"
proof -
  have h: "h_SmokeLimit (b_header ex_b6) = 8000000" "h_SmokeUsed (b_header ex_b6) = 8000000" by (simp_all add: ex_link_def)
  have "CalcSmokeLimit (b_header ex_b6) 7000000 9000000 = 8003907" by (simp add: CalcSmokeLimit_def ex_link_def)
  then show ?thesis using CalcSmokeLimit_accepted [of "b_header ex_b6" 7000000 9000000] h by (simp add: ex_link_def)
qed

text \<open>Below 5120 this fails: the limit proposed after a full block of 5000 is one that the verification refuses.\<close>

lemma CalcSmokeLimit_refused:
  assumes "h_SmokeLimit parent = 5000" "h_SmokeUsed parent = 5000" "h_SmokeLimit header = CalcSmokeLimit parent 5000 8000000"
  shows "verifyHeader K config now VerifySeal header parent uncle seal \<noteq> None"
proof -
  have "h_SmokeLimit header = 5004" using assms by (simp add: CalcSmokeLimit_def)
  then show ?thesis using assms(1) unfolding verifyHeader_def Let_def guards by simp
qed

end
